(* ===== verification/Prelude.thy ===== *)
theory Prelude
  imports Main "HOL-Library.Word" "HOL-Library.Char_ord"
begin

text \<open>
  Shared vocabulary of the development: machine integers, the exceptions the engine throws,
  the error monad, bytes against characters, and the generic facts on lists, maps and folds
  that the component theories use through the collections \<open>result_simps\<close> and
  \<open>byte_simps\<close>.
\<close>

unbundle bit_operations_syntax

named_theorems result_simps \<open>how the error monad runs\<close>
named_theorems byte_simps \<open>bytes, characters and words\<close>

subsection \<open>Machine integers\<close>

type_synonym u8 = "8 word"
type_synonym u32 = "32 word"
type_synonym u64 = "64 word"
type_synonym i32 = "32 word"
type_synonym i64 = "64 word"

type_synonym bytes = "u8 list"

text \<open>\<open>static_cast<uint32_t>(v.size())\<close>: the low 32 bits of a size.\<close>

abbreviation u32_of :: "nat \<Rightarrow> u32" where
  "u32_of n \<equiv> word_of_nat n"

subsection \<open>Exceptions and the error monad\<close>

text \<open>
  \<open>Undefined_behaviour\<close> is not an exception of the engine: it marks the paths on which the
  C++ code dereferences a null pointer or indexes out of bounds, so that a theorem which says
  that an operation does not end there is a safety statement.
\<close>

datatype exn =
    Runtime_error string
  | Semantic_error string
  | Logic_error string
  | Out_of_range
  | Invalid_argument
  | Undefined_behaviour

type_synonym 'a result = "exn + 'a"

definition bind_r :: "'a result \<Rightarrow> ('a \<Rightarrow> 'b result) \<Rightarrow> 'b result" where
  "bind_r m f = (case m of Inl e \<Rightarrow> Inl e | Inr x \<Rightarrow> f x)"

definition guard_r :: "bool \<Rightarrow> exn \<Rightarrow> unit result" where
  "guard_r b e = (if b then Inr () else Inl e)"

lemma bind_r_simps [simp, result_simps]:
  "bind_r (Inl e) f = Inl e"
  "bind_r (Inr x) f = f x"
  by (simp_all add: bind_r_def)

lemma guard_r_simps [simp, result_simps]:
  "guard_r True e = Inr ()"
  "guard_r False e = Inl e"
  by (simp_all add: guard_r_def)

lemma bind_r_Inr_iff [result_simps]:
  "bind_r m f = Inr y \<longleftrightarrow> (\<exists>x. m = Inr x \<and> f x = Inr y)"
  by (cases m) auto

lemma bind_r_InrE:
  assumes "bind_r m f = Inr y"
  obtains x where "m = Inr x" "f x = Inr y"
  using assms by (auto simp: bind_r_Inr_iff)

lemma guard_r_Inr_iff [simp, result_simps]: "guard_r b e = Inr u \<longleftrightarrow> b"
  by (simp add: guard_r_def)

lemma guard_r_bind_Inr_iff [result_simps]:
  "bind_r (guard_r b e) f = Inr y \<longleftrightarrow> b \<and> f () = Inr y"
  by (simp add: guard_r_def)

lemma bind_r_cong [fundef_cong]:
  "m = m' \<Longrightarrow> (\<And>x. m' = Inr x \<Longrightarrow> f x = f' x) \<Longrightarrow> bind_r m f = bind_r m' f'"
  by (cases m') auto

lemma bind_r_assoc: "bind_r (bind_r m f) g = bind_r m (\<lambda>x. bind_r (f x) g)"
  by (cases m) auto

text \<open>A loop that stops at the first error.\<close>

fun map_r :: "('a \<Rightarrow> 'b result) \<Rightarrow> 'a list \<Rightarrow> 'b list result" where
  "map_r f [] = Inr []"
| "map_r f (x # xs) = bind_r (f x) (\<lambda>y. bind_r (map_r f xs) (\<lambda>ys. Inr (y # ys)))"

lemma map_r_cong [fundef_cong]:
  "xs = ys \<Longrightarrow> (\<And>x. x \<in> set ys \<Longrightarrow> f x = g x) \<Longrightarrow> map_r f xs = map_r g ys"
  by (induction ys arbitrary: xs) auto

lemma map_r_Inr_iff:
  "map_r f xs = Inr ys \<longleftrightarrow> list_all2 (\<lambda>x y. f x = Inr y) xs ys"
  by (induction xs arbitrary: ys) (auto simp: bind_r_Inr_iff list_all2_Cons1)

lemma map_r_length: "map_r f xs = Inr ys \<Longrightarrow> length ys = length xs"
  by (simp add: map_r_Inr_iff list_all2_lengthD)

lemma map_r_nth: "map_r f xs = Inr ys \<Longrightarrow> i < length xs \<Longrightarrow> f (xs ! i) = Inr (ys ! i)"
  by (auto simp: map_r_Inr_iff dest: list_all2_nthD)

lemma map_r_total: "(\<And>x. x \<in> set xs \<Longrightarrow> \<exists>y. f x = Inr y) \<Longrightarrow> \<exists>ys. map_r f xs = Inr ys"
  by (induction xs) fastforce+

lemma map_r_all_Inr: "(\<And>x. x \<in> set xs \<Longrightarrow> f x = Inr (g x)) \<Longrightarrow> map_r f xs = Inr (map g xs)"
  by (induction xs) auto

lemma map_r_append:
  "map_r f (xs @ ys) = bind_r (map_r f xs) (\<lambda>us. bind_r (map_r f ys) (\<lambda>vs. Inr (us @ vs)))"
proof (induction xs)
  case Nil
  then show ?case by (cases "map_r f ys") auto
next
  case (Cons x xs)
  then show ?case by (cases "f x"; cases "map_r f xs"; cases "map_r f ys") auto
qed

fun fold_r :: "('a \<Rightarrow> 's \<Rightarrow> 's result) \<Rightarrow> 'a list \<Rightarrow> 's \<Rightarrow> 's result" where
  "fold_r f [] s = Inr s"
| "fold_r f (x # xs) s = bind_r (f x s) (fold_r f xs)"

lemma fold_r_append: "fold_r f (xs @ ys) s = bind_r (fold_r f xs s) (fold_r f ys)"
  by (induction xs arbitrary: s) (auto simp: bind_r_assoc fun_eq_iff intro!: bind_r_cong)

lemma fold_r_invariant:
  assumes "fold_r f xs s = Inr t" "P s"
    and "\<And>x s t. x \<in> set xs \<Longrightarrow> P s \<Longrightarrow> f x s = Inr t \<Longrightarrow> P t"
  shows "P t"
  using assms by (induction xs arbitrary: s) (auto simp: bind_r_Inr_iff)

text \<open>The exceptions a computation can end with.\<close>

definition raises :: "exn set \<Rightarrow> 'a result \<Rightarrow> bool" where
  "raises E r \<longleftrightarrow> (\<forall>e. r = Inl e \<longrightarrow> e \<in> E)"

lemma raises_simps [simp]: "raises E (Inr x)" "raises E (Inl e) \<longleftrightarrow> e \<in> E"
  by (simp_all add: raises_def)

lemma raises_bind: "raises E m \<Longrightarrow> (\<And>x. m = Inr x \<Longrightarrow> raises E (f x)) \<Longrightarrow> raises E (bind_r m f)"
  by (cases m) auto

lemma raises_map_r: "(\<And>x. x \<in> set xs \<Longrightarrow> raises E (f x)) \<Longrightarrow> raises E (map_r f xs)"
  by (induction xs) (auto intro!: raises_bind)

lemma raises_guard [simp]: "raises E (guard_r b e) \<longleftrightarrow> b \<or> e \<in> E"
  by (simp add: guard_r_def)

lemma map_r_set: "map_r f xs = Inr ys \<Longrightarrow> y \<in> set ys \<Longrightarrow> \<exists>x\<in>set xs. f x = Inr y"
  using map_r_length [of f xs ys] map_r_nth [of f xs ys] by (force simp: in_set_conv_nth)

subsection \<open>Bytes and characters\<close>

text \<open>A \<open>std::string\<close> is a list of \<open>char\<close>; its bytes are what \<open>memcpy\<close> moves.\<close>

definition byte_of_char :: "char \<Rightarrow> u8" where
  "byte_of_char c = word_of_nat (of_char c)"

definition char_of_byte :: "u8 \<Rightarrow> char" where
  "char_of_byte b = char_of (unat b)"

lemma of_char_less_256: "(of_char c :: nat) < 256"
  using nat_of_char_less_256 by simp

lemma char_of_byte_of_char [simp, byte_simps]: "char_of_byte (byte_of_char c) = c"
proof -
  have "unat (byte_of_char c) = of_char c"
    using of_char_less_256 [of c] by (simp add: byte_of_char_def unat_of_nat)
  then show ?thesis by (simp add: char_of_byte_def)
qed

lemma byte_of_char_of_byte [simp, byte_simps]: "byte_of_char (char_of_byte b) = b"
proof -
  have "unat b < 256" using unsigned_less [of b] by simp
  then show ?thesis
    by (simp add: byte_of_char_def char_of_byte_def of_char_of)
qed

lemma map_char_of_byte [simp, byte_simps]: "map (char_of_byte \<circ> byte_of_char) s = s"
  by (simp add: map_idI)

lemma unat_u32_of [byte_simps]: "n < 2 ^ 32 \<Longrightarrow> unat (u32_of n) = n"
  by (simp add: unat_of_nat)

subsection \<open>Little-endian byte order\<close>

text \<open>
  The loops \<open>for (i = 0; i < k; ++i) out.push_back((v >> (i * 8)) & 0xFF)\<close> and
  \<open>for (i = 0; i < k; ++i) v |= (T)in[i] << (i * 8)\<close>, which the writer, the reader and the
  key encoder share; \<open>memcpy\<close> of a word on the little-endian target moves the same bytes.
\<close>

definition le_bytes :: "nat \<Rightarrow> 'a::len word \<Rightarrow> bytes" where
  "le_bytes k v = map (\<lambda>i. ucast (drop_bit (8 * i) v AND 0xFF)) [0..<k]"

definition le_word :: "nat \<Rightarrow> bytes \<Rightarrow> 'a::len word" where
  "le_word k bs = fold (\<lambda>i v. v OR push_bit (8 * i) (ucast (bs ! i))) [0..<k] 0"

lemma length_le_bytes [simp]: "length (le_bytes k v) = k"
  by (simp add: le_bytes_def)

lemma bit_le_word:
  "bit (le_word k bs :: 'a::len word) n \<longleftrightarrow>
     n < LENGTH('a) \<and> n div 8 < k \<and> bit (bs ! (n div 8)) (n mod 8)"
proof (induction k)
  case 0
  show ?case by (simp add: le_word_def)
next
  case (Suc k)
  have byte: "bit b j \<Longrightarrow> j < 8" for b :: u8 and j
    using bit_imp_le_length [of b j] by simp
  have last: "8 * k \<le> n \<and> bit (bs ! k) (n - 8 * k) \<longleftrightarrow> n div 8 = k \<and> bit (bs ! k) (n mod 8)"
  proof (cases "n div 8 = k")
    case True
    then have "8 * k \<le> n" "n - 8 * k = n mod 8" by (auto simp: minus_mult_div_eq_mod)
    with True show ?thesis by simp
  next
    case False
    then have "8 * k \<le> n \<Longrightarrow> \<not> n - 8 * k < 8" by linarith
    with False show ?thesis using byte [of "bs ! k" "n - 8 * k"] by auto
  qed
  have "bit (le_word (Suc k) bs :: 'a word) n \<longleftrightarrow>
      bit (le_word k bs :: 'a word) n \<or> (n < LENGTH('a) \<and> 8 * k \<le> n \<and> bit (bs ! k) (n - 8 * k))"
    by (auto simp: le_word_def bit_simps)
  then show ?case using Suc last by (auto simp: less_Suc_eq)
qed

lemma bit_le_bytes_nth:
  fixes v :: "'a::len word"
  assumes "i < k" "j < 8" "8 * i + j < LENGTH('a)"
  shows "bit (le_bytes k v ! i) j \<longleftrightarrow> bit v (8 * i + j)"
proof -
  have "bit (0xFF :: 'a word) j \<longleftrightarrow> j < LENGTH('a)"
    using assms(2) bit_mask_iff [of 8 j, where 'a = "'a word"]
    by (simp add: mask_eq_exp_minus_1)
  with assms show ?thesis
    by (auto simp: le_bytes_def bit_simps add.commute)
qed

lemma le_word_le_bytes:
  fixes v :: "'a::len word"
  assumes "LENGTH('a) = 8 * k"
  shows "le_word k (le_bytes k v @ rest) = v"
proof (rule bit_word_eqI)
  fix n assume n: "n < LENGTH('a)"
  have "n div 8 < k" using n assms by simp
  moreover have "8 * (n div 8) + n mod 8 = n" by simp
  ultimately have "bit (le_bytes k v ! (n div 8)) (n mod 8) \<longleftrightarrow> bit v n"
    using n bit_le_bytes_nth [of "n div 8" k "n mod 8" v] by simp
  then show "bit (le_word k (le_bytes k v @ rest) :: 'a word) n = bit v n"
    using n \<open>n div 8 < k\<close> by (simp add: bit_le_word nth_append)
qed

lemma le_word_take:
  "length bs \<ge> k \<Longrightarrow> le_word k (take k bs) = le_word k bs"
  unfolding le_word_def by (rule fold_cong) auto

subsection \<open>Lists\<close>

lemma take_drop_append_drop:
  "k \<le> length xs \<Longrightarrow> take n (drop (length ys) (ys @ xs)) = take n xs"
  by simp

lemma filter_upt_split:
  "m \<le> n \<Longrightarrow> filter P [0..<n] = filter P [0..<m] @ filter P [m..<n]"
  by (metis filter_append upt_add_eq_append le_add_diff_inverse zero_le)

lemma distinct_map_inj: "distinct xs \<Longrightarrow> inj_on f (set xs) \<Longrightarrow> distinct (map f xs)"
  by (simp add: distinct_map)

lemma find_Some_iff_first:
  "List.find P xs = Some x \<Longrightarrow> x \<in> set xs \<and> P x"
  by (auto simp: find_Some_iff)

lemma sorted_list_eqI:
  assumes "sorted xs" "sorted ys" "distinct xs" "distinct ys" "set xs = set ys"
  shows "xs = (ys :: 'a::linorder list)"
  using assms by (metis sorted_distinct_set_unique)

subsection \<open>Maps filled by a loop\<close>

lemma fold_map_upd:
  "distinct (map f xs) \<Longrightarrow>
   fold (\<lambda>x m. m(f x \<mapsto> g x)) xs m = m ++ map_of (map (\<lambda>x. (f x, g x)) xs)"
proof (induction xs arbitrary: m)
  case Nil
  show ?case by simp
next
  case (Cons x xs)
  then have "f x \<notin> dom (map_of (map (\<lambda>x. (f x, g x)) xs))"
    by (auto simp: dom_map_of_conv_image_fst image_image)
  then show ?case using Cons by (auto simp: fun_eq_iff map_add_def split: option.splits)
qed

lemma map_of_eqI:
  assumes "distinct (map fst xs)" "\<And>k v. (k, v) \<in> set xs \<longleftrightarrow> m k = Some v"
  shows "map_of xs = m"
  using assms by (intro ext) (metis map_of_eq_Some_iff option.exhaust)

text \<open>A counter in an \<open>n\<close>-bit word steps up unless it is at its maximum.\<close>

lemma word_less_succ: "(k :: 'a::len word) \<noteq> -1 \<Longrightarrow> k < k + 1"
proof -
  assume "k \<noteq> -1"
  then have "1 + k \<noteq> 0" by (metis add.commute add_eq_0_iff)
  then have "unat (1 + k) = Suc (unat k)" by (rule unatSuc)
  then show ?thesis by (simp add: word_less_nat_alt add.commute)
qed

lemma sum_list_replace:
  fixes f :: "'a \<Rightarrow> 'b::comm_monoid_add"
  assumes "w < length ls"
  shows "(\<Sum>l\<leftarrow>ls[w := l']. f l) + f (ls ! w) = (\<Sum>l\<leftarrow>ls. f l) + f l'"
  using assms
proof (induction ls arbitrary: w)
  case (Cons a ls)
  show ?case
  proof (cases w)
    case 0
    then show ?thesis by (simp add: add.commute add.left_commute)
  next
    case (Suc v)
    then have "(\<Sum>l\<leftarrow>ls[v := l']. f l) + f (ls ! v) = (\<Sum>l\<leftarrow>ls. f l) + f l'" using Cons by simp
    then show ?thesis using Suc by (simp add: add.assoc)
  qed
qed simp

end
