(* ===== verification/Ieee754.thy ===== *)
theory Ieee754
  imports Prelude
begin

text \<open>
  IEEE 754 binary64 and binary32, as the C++ types \<open>double\<close> and \<open>float\<close> hold them: a value is
  its bit pattern (which is also what the storage layer copies byte for byte), comparison is the
  order of the sign-magnitude keys with NaN unordered, and every conversion rounds to nearest,
  ties to even.  A finite magnitude counts units of the least subnormal, so all arithmetic below
  is integer arithmetic.
\<close>

subsection \<open>Binary logarithm and rounding\<close>

fun ilog2 :: "nat \<Rightarrow> nat" where
  "ilog2 n = (if n < 2 then 0 else Suc (ilog2 (n div 2)))"

declare ilog2.simps [simp del]

lemma ilog2_bounds: "0 < n \<Longrightarrow> 2 ^ ilog2 n \<le> n \<and> n < 2 ^ Suc (ilog2 n)"
proof (induction n rule: ilog2.induct)
  case (1 n)
  show ?case
  proof (cases "n < 2")
    case True
    with 1 show ?thesis by (simp add: ilog2.simps [of n])
  next
    case False
    then have "2 ^ ilog2 (n div 2) \<le> n div 2 \<and> n div 2 < 2 ^ Suc (ilog2 (n div 2))"
      using 1 by simp
    then have "2 * 2 ^ ilog2 (n div 2) \<le> n \<and> n < 2 * (2 * 2 ^ ilog2 (n div 2))" by simp linarith
    with False show ?thesis by (simp add: ilog2.simps [of n])
  qed
qed

lemma pow2_le_pos: "2 ^ k \<le> n \<Longrightarrow> 0 < (n :: nat)"
  by (rule less_le_trans [of _ "2 ^ k"]) simp_all

lemma ilog2_unique: "2 ^ k \<le> n \<Longrightarrow> n < 2 ^ Suc k \<Longrightarrow> ilog2 n = k"
proof -
  assume a: "2 ^ k \<le> n" "n < 2 ^ Suc k"
  then have "0 < n" by (blast intro: pow2_le_pos)
  note b = ilog2_bounds [OF this]
  have "(2::nat) ^ k < 2 ^ Suc (ilog2 n)" using a(1) b by (blast intro: le_less_trans)
  moreover have "(2::nat) ^ ilog2 n < 2 ^ Suc k" using a(2) b by (blast intro: le_less_trans)
  ultimately
  have "k < Suc (ilog2 n)" "ilog2 n < Suc k"
    by (simp_all only: power_strict_increasing_iff one_less_numeral_iff semiring_norm)
  then show ?thesis by simp
qed

text \<open>\<open>rhe p q\<close>: \<open>p / q\<close> rounded to the nearest integer, halves to the even one.\<close>

definition rhe :: "nat \<Rightarrow> nat \<Rightarrow> nat" where
  "rhe p q = (let d = p div q; r = p mod q in
     if 2 * r < q then d else if q < 2 * r then Suc d else if even d then d else Suc d)"

lemma rhe_ge_div: "p div q \<le> rhe p q" and rhe_le_Suc_div: "rhe p q \<le> Suc (p div q)"
  by (auto simp: rhe_def Let_def)

lemma rhe_exact [simp]: "0 < q \<Longrightarrow> rhe (d * q) q = d"
  by (simp add: rhe_def)

lemma rhe_1 [simp]: "rhe p (Suc 0) = p"
  by (simp add: rhe_def)

lemma rhe_ge: "0 < q \<Longrightarrow> c * q \<le> p \<Longrightarrow> c \<le> rhe p q"
  by (rule le_trans [OF _ rhe_ge_div]) (simp add: less_eq_div_iff_mult_less_eq)

lemma rhe_le: "0 < q \<Longrightarrow> p < c * q \<Longrightarrow> rhe p q \<le> c"
  by (rule le_trans [OF rhe_le_Suc_div]) (simp add: Suc_le_eq less_mult_imp_div_less)

lemma rhe_body_mono:
  fixes r r' q d :: nat
  assumes "r \<le> r'"
  shows "(if 2 * r < q then d else if q < 2 * r then Suc d else if even d then d else Suc d)
    \<le> (if 2 * r' < q then d else if q < 2 * r' then Suc d else if even d then d else Suc d)"
  using assms by auto

lemma rhe_mono:
  assumes "p \<le> p'" "0 < q"
  shows "rhe p q \<le> rhe p' q"
proof (cases "p div q = p' div q")
  case True
  have "p = p div q * q + p mod q" "p' = p' div q * q + p' mod q" by simp_all
  with True assms have "p mod q \<le> p' mod q" by (metis add_le_cancel_left)
  from rhe_body_mono [OF this]
  show ?thesis unfolding rhe_def Let_def True .
next
  case False
  with div_le_mono [OF assms(1), of q] have "p div q < p' div q" by simp
  then show ?thesis using rhe_ge_div [of p' q] rhe_le_Suc_div [of p q] by linarith
qed

lemma div_mult_add_less: "f < n \<Longrightarrow> (a * n + f) div n = (a :: nat)"
  by (intro div_nat_eqI) (simp_all add: algebra_simps)

lemma mod_mult_add_less: "f < n \<Longrightarrow> (a * n + f) mod n = (f :: nat)"
  by simp

subsection \<open>A binary format with \<open>m\<close> mantissa bits\<close>

text \<open>The value of the magnitude bits \<open>b\<close>, in units of the least subnormal.\<close>

definition fp_val :: "nat \<Rightarrow> nat \<Rightarrow> nat" where
  "fp_val m b = (let e = b div 2 ^ m; f = b mod 2 ^ m in
     if e = 0 then f else (2 ^ m + f) * 2 ^ (e - 1))"

text \<open>The magnitude bits nearest to \<open>p / q\<close> units (the exponent range is not bounded here).\<close>

definition fp_round :: "nat \<Rightarrow> nat \<Rightarrow> nat \<Rightarrow> nat" where
  "fp_round m p q = (let n = p div q in
     if n < 2 ^ Suc m then rhe p q
     else (ilog2 n - m) * 2 ^ m + rhe p (q * 2 ^ (ilog2 n - m)))"

lemma fp_val_strict_mono:
  assumes "b < b'"
  shows "fp_val m b < fp_val m b'"
proof -
  define e f where "e = b div 2 ^ m" and "f = b mod 2 ^ m"
  define e' f' where "e' = b' div 2 ^ m" and "f' = b' mod 2 ^ m"
  have b: "b = e * 2 ^ m + f" and b': "b' = e' * 2 ^ m + f'"
    by (simp_all only: e_def f_def e'_def f'_def div_mult_mod_eq)
  have f: "f < 2 ^ m" "f' < 2 ^ m" by (simp_all add: f_def f'_def)
  have "e \<le> e'" using assms by (simp add: e_def e'_def div_le_mono)
  show ?thesis
  proof (cases "e = e'")
    case True
    then have "f < f'" using assms b b' by simp
    with True show ?thesis
      by (simp add: fp_val_def Let_def flip: e_def f_def e'_def f'_def)
  next
    case False
    with \<open>e \<le> e'\<close> obtain d where d: "e' = Suc e + d" using less_iff_Suc_add le_neq_implies_less by fastforce
    have "fp_val m b < 2 ^ m * 2 ^ e"
    proof (cases e)
      case 0 then show ?thesis using f by (simp add: fp_val_def Let_def flip: e_def f_def)
    next
      case (Suc k)
      then show ?thesis using f by (simp add: fp_val_def Let_def flip: e_def f_def)
    qed
    also have "\<dots> \<le> (2 ^ m + f') * 2 ^ (e + d)"
      by (rule mult_le_mono) (simp_all add: power_add)
    finally show ?thesis using d by (simp add: fp_val_def Let_def flip: e'_def f'_def)
  qed
qed

lemma fp_val_less_iff [simp]: "fp_val m b < fp_val m b' \<longleftrightarrow> b < b'"
  by (metis fp_val_strict_mono linorder_neqE_nat not_less_iff_gr_or_eq)

lemma fp_val_eq_iff [simp]: "fp_val m b = fp_val m b' \<longleftrightarrow> b = b'"
  by (metis fp_val_less_iff linorder_neqE_nat less_irrefl)

lemma fp_val_0 [simp]: "fp_val m 0 = 0"
  by (simp add: fp_val_def)

lemma ilog2_ge: "2 ^ k \<le> n \<Longrightarrow> k \<le> ilog2 n"
proof -
  assume "2 ^ k \<le> n"
  moreover from this have "n < 2 ^ Suc (ilog2 n)" by (blast dest: pow2_le_pos ilog2_bounds)
  ultimately have "(2::nat) ^ k < 2 ^ Suc (ilog2 n)" by (rule le_less_trans)
  then have "k < Suc (ilog2 n)"
    by (simp only: power_strict_increasing_iff one_less_numeral_iff semiring_norm)
  then show ?thesis by simp
qed

text \<open>The upper binades: the quotient's mantissa lies in \<open>[2^m, 2^(m+1)]\<close>.\<close>

lemma fp_round_large:
  assumes "0 < q" "2 ^ Suc m \<le> p div q"
  defines "k \<equiv> ilog2 (p div q)"
  shows "m < k" "2 ^ m \<le> rhe p (q * 2 ^ (k - m))" "rhe p (q * 2 ^ (k - m)) \<le> 2 ^ Suc m"
    "fp_round m p q = (k - m) * 2 ^ m + rhe p (q * 2 ^ (k - m))"
proof -
  show "m < k" using ilog2_ge [OF assms(2)] by (simp add: k_def)
  have pos: "0 < p div q" using assms(2) by (rule pow2_le_pos)
  have km: "(2::nat) ^ k = 2 ^ m * 2 ^ (k - m)" using \<open>m < k\<close> by (simp flip: power_add)
  have "2 ^ k * q \<le> p" "p < 2 ^ Suc k * q"
    using ilog2_bounds [OF pos] assms(1)
    by (auto simp: k_def less_eq_div_iff_mult_less_eq div_less_iff_less_mult)
  then have "2 ^ m * (q * 2 ^ (k - m)) \<le> p" "p < 2 ^ Suc m * (q * 2 ^ (k - m))"
    by (simp_all add: km algebra_simps)
  moreover have "0 < q * 2 ^ (k - m)" using assms(1) by simp
  ultimately show "2 ^ m \<le> rhe p (q * 2 ^ (k - m))" "rhe p (q * 2 ^ (k - m)) \<le> 2 ^ Suc m"
    by (blast intro: rhe_ge rhe_le)+
  show "fp_round m p q = (k - m) * 2 ^ m + rhe p (q * 2 ^ (k - m))"
    using assms(2) by (simp add: fp_round_def Let_def k_def)
qed

lemma fp_round_small:
  assumes "0 < q" "p div q < 2 ^ Suc m"
  shows "fp_round m p q = rhe p q" "fp_round m p q \<le> 2 ^ Suc m"
proof -
  show eq: "fp_round m p q = rhe p q" using assms by (simp add: fp_round_def Let_def)
  have "p < 2 ^ Suc m * q" using assms by (simp add: div_less_iff_less_mult)
  then show "fp_round m p q \<le> 2 ^ Suc m" using assms(1) eq rhe_le by metis
qed

lemma fp_round_mono:
  assumes "p \<le> p'" "0 < q"
  shows "fp_round m p q \<le> fp_round m p' q"
proof (cases "p' div q < 2 ^ Suc m")
  case True
  with div_le_mono [OF assms(1), of q] have "p div q < 2 ^ Suc m" by linarith
  with True assms show ?thesis by (simp add: fp_round_small rhe_mono)
next
  case False
  note L' = fp_round_large [OF assms(2), of m p'] False
  show ?thesis
  proof (cases "p div q < 2 ^ Suc m")
    case True
    have "2 * 2 ^ m \<le> fp_round m p' q"
    proof -
      have "1 * 2 ^ m \<le> (ilog2 (p' div q) - m) * 2 ^ m"
        using L' by (intro mult_le_mono1) (simp add: not_less)
      then have "1 * 2 ^ m + 2 ^ m \<le> (ilog2 (p' div q) - m) * 2 ^ m + rhe p' (q * 2 ^ (ilog2 (p' div q) - m))"
        using L' by (intro add_mono) (simp_all add: not_less)
      then show ?thesis using L' by (simp add: not_less)
    qed
    then show ?thesis using fp_round_small(2) [OF assms(2) True] by simp
  next
    case F: False
    note L = fp_round_large [OF assms(2), of m p] F
    define k k' where "k = ilog2 (p div q)" and "k' = ilog2 (p' div q)"
    have "k \<le> k'"
    proof -
      have "0 < p div q" using F by (intro pow2_le_pos [of "Suc m"]) (simp only: not_less)
      then have "2 ^ k \<le> p div q" using ilog2_bounds by (simp add: k_def)
      then have "2 ^ k \<le> p' div q" using div_le_mono [OF assms(1), of q] by linarith
      then show ?thesis by (simp add: k'_def ilog2_ge)
    qed
    show ?thesis
    proof (cases "k = k'")
      case True
      then show ?thesis using L L' assms by (simp add: k_def k'_def rhe_mono not_less)
    next
      case neq: False
      have "fp_round m p q \<le> (k - m) * 2 ^ m + 2 ^ Suc m" using L by (simp add: k_def not_less)
      also have "\<dots> = Suc (k - m) * 2 ^ m + 2 ^ m" by simp
      also have "\<dots> \<le> (k' - m) * 2 ^ m + 2 ^ m"
      proof -
        have "Suc (k - m) \<le> k' - m" using neq \<open>k \<le> k'\<close> L by (auto simp: k_def not_less)
        then show ?thesis by (meson add_le_mono1 mult_le_mono1)
      qed
      also have "\<dots> \<le> fp_round m p' q" using L' by (simp add: k'_def not_less)
      finally show ?thesis .
    qed
  qed
qed

text \<open>A value with at most \<open>m + 1\<close> significant bits is held exactly.\<close>

lemma fp_val_round:
  assumes "N = a * 2 ^ j" "a < 2 ^ Suc m"
  shows "fp_val m (fp_round m N 1) = N"
proof (cases "N < 2 ^ Suc m")
  case True
  then have r: "fp_round m N (Suc 0) = N" by (simp add: fp_round_def)
  show ?thesis
  proof (cases "N < 2 ^ m")
    case True then show ?thesis by (simp add: r fp_val_def Let_def)
  next
    case False
    then have "N div 2 ^ m = 1" "N mod 2 ^ m = N - 2 ^ m"
      using True by (auto simp: div_nat_eqI mod_nat_eqI le_mod_geq)
    then show ?thesis using False by (simp add: r fp_val_def Let_def)
  qed
next
  case False
  define k where "k = ilog2 N"
  have L: "m < k" "2 ^ m \<le> rhe N (2 ^ (k - m))" "fp_round m N 1 = (k - m) * 2 ^ m + rhe N (2 ^ (k - m))"
    using fp_round_large [of 1 m N] False by (simp_all add: k_def not_less)
  have "0 < N" using False by (intro pow2_le_pos [of "Suc m"]) (simp only: not_less)
  then have kb: "2 ^ k \<le> N" "N < 2 ^ Suc k" using ilog2_bounds by (simp_all add: k_def)
  have "N < 2 ^ (Suc m + j)" using assms by (simp add: power_add)
  then have "(2::nat) ^ k < 2 ^ (Suc m + j)" using kb(1) by linarith
  then have "k < Suc m + j"
    by (simp only: power_strict_increasing_iff one_less_numeral_iff semiring_norm)
  then have "k - m \<le> j" by simp
  then have "2 ^ (k - m) dvd N" using assms(1) by (simp add: le_imp_power_dvd dvd_mult)
  then obtain c where c: "N = c * 2 ^ (k - m)" by (metis dvd_def mult.commute)
  have km: "(2::nat) ^ Suc k = 2 ^ Suc m * 2 ^ (k - m)" using \<open>m < k\<close> by (simp flip: power_add)
  have "c < 2 ^ Suc m" using kb(2) c km by simp
  have rc: "rhe N (2 ^ (k - m)) = c" by (simp add: c)
  have cm: "2 ^ m \<le> c" using L(2) rc by simp
  define f where "f = c - 2 ^ m"
  have cf: "c = 2 ^ m + f" "f < 2 ^ m" using cm \<open>c < 2 ^ Suc m\<close> by (simp_all add: f_def)
  have "fp_round m N 1 = Suc (k - m) * 2 ^ m + f" using L(3) rc cf by simp
  then have "fp_round m N 1 div 2 ^ m = Suc (k - m)" "fp_round m N 1 mod 2 ^ m = f"
    using cf(2) by (simp_all only: div_mult_add_less mod_mult_add_less)
  then show ?thesis using c cf by (simp add: fp_val_def Let_def)
qed

lemma fp_round_val [simp]: "fp_round m (fp_val m b) 1 = b"
proof -
  have "\<exists>a j. fp_val m b = a * 2 ^ j \<and> a < 2 ^ Suc m"
  proof (cases "b div 2 ^ m = 0")
    case True
    have "b mod 2 ^ m < 2 ^ m" by simp
    then have "b mod 2 ^ m < 2 ^ Suc m" unfolding power_Suc by linarith
    then show ?thesis using True
      by (intro exI [of _ "b mod 2 ^ m"] exI [of _ 0]) (simp add: fp_val_def Let_def)
  next
    case False
    have "2 ^ m + b mod 2 ^ m < 2 ^ Suc m" by simp
    then show ?thesis using False
      by (intro exI [of _ "2 ^ m + b mod 2 ^ m"] exI [of _ "b div 2 ^ m - 1"])
        (simp add: fp_val_def Let_def)
  qed
  then have "fp_val m (fp_round m (fp_val m b) 1) = fp_val m b" using fp_val_round by blast
  then show ?thesis by simp
qed

subsection \<open>Bit patterns of any IEEE format\<close>

text \<open>
  A format is a word length and a number \<open>m\<close> of mantissa bits: \<open>(64, 52)\<close> is \<open>double\<close>,
  \<open>(32, 23)\<close> is \<open>float\<close>.  The top bit is the sign, the rest the magnitude; the magnitude of
  infinity has all exponent bits set and no mantissa bit.
\<close>

definition ieee_mag :: "'a::len word \<Rightarrow> nat" where
  "ieee_mag w = unat w mod 2 ^ (LENGTH('a) - 1)"

definition ieee_neg :: "'a::len word \<Rightarrow> bool" where
  "ieee_neg w \<longleftrightarrow> 2 ^ (LENGTH('a) - 1) \<le> unat w"

definition ieee_inf :: "nat \<Rightarrow> 'a::len itself \<Rightarrow> nat" where
  "ieee_inf m _ = 2 ^ (LENGTH('a) - 1) - 2 ^ m"

definition ieee_make :: "bool \<Rightarrow> nat \<Rightarrow> 'a::len word" where
  "ieee_make neg mag = word_of_nat ((if neg then 2 ^ (LENGTH('a) - 1) else 0) + mag)"

definition ieee_nan :: "nat \<Rightarrow> 'a::len word \<Rightarrow> bool" where
  "ieee_nan m w \<longleftrightarrow> ieee_inf m TYPE('a) < ieee_mag w"

definition ieee_key :: "'a::len word \<Rightarrow> int" where
  "ieee_key w = (if ieee_neg w then - int (ieee_mag w) else int (ieee_mag w))"

definition ieee_lt :: "nat \<Rightarrow> 'a::len word \<Rightarrow> 'a word \<Rightarrow> bool" where
  "ieee_lt m a b \<longleftrightarrow> \<not> ieee_nan m a \<and> \<not> ieee_nan m b \<and> ieee_key a < ieee_key b"

definition ieee_eq :: "nat \<Rightarrow> 'a::len word \<Rightarrow> 'a word \<Rightarrow> bool" where
  "ieee_eq m a b \<longleftrightarrow> \<not> ieee_nan m a \<and> \<not> ieee_nan m b \<and> ieee_key a = ieee_key b"

definition ieee_le :: "nat \<Rightarrow> 'a::len word \<Rightarrow> 'a word \<Rightarrow> bool" where
  "ieee_le m a b \<longleftrightarrow> ieee_lt m a b \<or> ieee_eq m a b"

text \<open>The value of a finite pattern, in units of the least subnormal.\<close>

definition ieee_units :: "nat \<Rightarrow> 'a::len word \<Rightarrow> int" where
  "ieee_units m w = (if ieee_neg w then - 1 else 1) * int (fp_val m (ieee_mag w))"

definition ieee_round :: "nat \<Rightarrow> bool \<Rightarrow> nat \<Rightarrow> nat \<Rightarrow> 'a::len word" where
  "ieee_round m neg p q = ieee_make neg (min (ieee_inf m TYPE('a)) (fp_round m p q))"

text \<open>The quiet form of a NaN operand; the NaN an invalid operation makes on the target.\<close>

definition ieee_quiet :: "nat \<Rightarrow> 'a::len word \<Rightarrow> 'a word" where
  "ieee_quiet m w = w OR push_bit (m - 1) 1"

definition ieee_default_nan :: "nat \<Rightarrow> 'a::len word" where
  "ieee_default_nan m = ieee_make True (ieee_inf m TYPE('a) + 2 ^ (m - 1))"

definition ieee_add :: "nat \<Rightarrow> 'a::len word \<Rightarrow> 'a word \<Rightarrow> 'a word" where
  "ieee_add m a b =
     (if ieee_nan m a then ieee_quiet m a
      else if ieee_nan m b then ieee_quiet m b
      else if ieee_mag a = ieee_inf m TYPE('a) then
        (if ieee_mag b = ieee_inf m TYPE('a) \<and> ieee_neg a \<noteq> ieee_neg b
         then ieee_default_nan m else a)
      else if ieee_mag b = ieee_inf m TYPE('a) then b
      else let s = ieee_units m a + ieee_units m b in
        if s = 0 then ieee_make (ieee_neg a \<and> ieee_neg b) 0
        else ieee_round m (s < 0) (nat \<bar>s\<bar>) 1)"

definition ieee_sub :: "nat \<Rightarrow> 'a::len word \<Rightarrow> 'a word \<Rightarrow> 'a word" where
  "ieee_sub m a b =
     (if ieee_nan m a then ieee_quiet m a
      else if ieee_nan m b then ieee_quiet m b
      else ieee_add m a (ieee_make (\<not> ieee_neg b) (ieee_mag b)))"

text \<open>\<open>std::min\<close> and \<open>std::max\<close>: the first argument wins unless the comparison says otherwise.\<close>

definition ieee_min :: "nat \<Rightarrow> 'a::len word \<Rightarrow> 'a word \<Rightarrow> 'a word" where
  "ieee_min m a b = (if ieee_lt m b a then b else a)"

definition ieee_max :: "nat \<Rightarrow> 'a::len word \<Rightarrow> 'a word \<Rightarrow> 'a word" where
  "ieee_max m a b = (if ieee_lt m a b then b else a)"

lemma ieee_mag_less: "ieee_mag (w :: 'a::len word) < 2 ^ (LENGTH('a) - 1)"
  by (simp add: ieee_mag_def)

lemma pow_length_split: "(2::nat) ^ LENGTH('a::len) = 2 * 2 ^ (LENGTH('a) - 1)"
  by (metis One_nat_def Suc_pred len_gt_0 power_Suc)

lemma unat_ieee_make:
  assumes "mag < 2 ^ (LENGTH('a::len) - 1)"
  shows "unat (ieee_make neg mag :: 'a word) = (if neg then 2 ^ (LENGTH('a) - 1) else 0) + mag"
proof -
  have "(if neg then 2 ^ (LENGTH('a) - 1) else 0) + mag < 2 ^ LENGTH('a)"
    using assms by (simp only: pow_length_split [where 'a = 'a] split: if_split) simp
  then show ?thesis by (simp only: ieee_make_def unat_of_nat mod_less)
qed

lemma ieee_make_sel [simp]:
  assumes "mag < 2 ^ (LENGTH('a::len) - 1)"
  shows "ieee_mag (ieee_make neg mag :: 'a word) = mag" "ieee_neg (ieee_make neg mag :: 'a word) = neg"
  using assms by (simp_all add: ieee_mag_def ieee_neg_def unat_ieee_make)

lemma ieee_inf_less: "ieee_inf m TYPE('a::len) < 2 ^ (LENGTH('a) - 1)"
  by (simp add: ieee_inf_def)

lemma ieee_round_sel [simp]:
  "ieee_mag (ieee_round m neg p q :: 'a::len word) = min (ieee_inf m TYPE('a)) (fp_round m p q)"
  "ieee_neg (ieee_round m neg p q :: 'a word) = neg"
proof -
  have "min (ieee_inf m TYPE('a)) (fp_round m p q) < 2 ^ (LENGTH('a) - 1)"
    using ieee_inf_less [of m, where 'a = 'a] by (simp add: min_less_iff_disj)
  then show "ieee_mag (ieee_round m neg p q :: 'a word) = min (ieee_inf m TYPE('a)) (fp_round m p q)"
    "ieee_neg (ieee_round m neg p q :: 'a word) = neg"
    by (simp_all add: ieee_round_def)
qed

lemma ieee_round_not_nan [simp]: "\<not> ieee_nan m (ieee_round m neg p q :: 'a::len word)"
  by (simp add: ieee_nan_def)

lemma fp_val_le_iff [simp]: "fp_val m b \<le> fp_val m b' \<longleftrightarrow> b \<le> b'"
  by (metis fp_val_less_iff not_less)

lemma ieee_key_less_iff_units:
  "ieee_key a < ieee_key b \<longleftrightarrow> ieee_units m a < ieee_units m b"
proof -
  have pos: "0 < fp_val m k \<longleftrightarrow> 0 < k" for k using fp_val_less_iff [of m 0 k] by simp
  have neg_pos: "- int x < int y \<longleftrightarrow> 0 < x \<or> 0 < y" for x y by auto
  have pos_neg: "\<not> int x < - int y" for x y by auto
  show ?thesis
    by (cases "ieee_neg a"; cases "ieee_neg b")
      (simp_all add: ieee_key_def ieee_units_def pos neg_pos pos_neg)
qed

lemma ieee_key_eq_iff_units: "ieee_key a = ieee_key b \<longleftrightarrow> ieee_units m a = ieee_units m b"
  by (metis ieee_key_less_iff_units linorder_neqE_linordered_idom less_irrefl)

subsection \<open>Integers to floating point\<close>

text \<open>\<open>u\<close> is the weight of the unit: one is \<open>2 ^ u\<close> least subnormals.\<close>

definition ieee_of_int :: "nat \<Rightarrow> nat \<Rightarrow> int \<Rightarrow> 'a::len word" where
  "ieee_of_int m u n = ieee_round m (n < 0) (nat \<bar>n\<bar> * 2 ^ u) 1"

lemma ieee_of_int_not_nan [simp]: "\<not> ieee_nan m (ieee_of_int m u n :: 'a::len word)"
  by (simp add: ieee_of_int_def)

lemma ieee_key_of_int:
  "ieee_key (ieee_of_int m u n :: 'a::len word) =
     (if n < 0 then -1 else 1) * int (min (ieee_inf m TYPE('a)) (fp_round m (nat \<bar>n\<bar> * 2 ^ u) 1))"
  unfolding ieee_of_int_def ieee_key_def by simp

theorem ieee_of_int_mono:
  assumes "a \<le> b"
  shows "ieee_key (ieee_of_int m u a :: 'a::len word) \<le> ieee_key (ieee_of_int m u b :: 'a word)"
proof -
  define R where "R n = int (min (ieee_inf m TYPE('a)) (fp_round m (nat \<bar>n\<bar> * 2 ^ u) 1))" for n
  have mono: "R x \<le> R y" if "\<bar>x\<bar> \<le> \<bar>y\<bar>" for x y
  proof -
    have "nat \<bar>x\<bar> * 2 ^ u \<le> nat \<bar>y\<bar> * 2 ^ u" using that by (intro mult_le_mono1) simp
    then have "fp_round m (nat \<bar>x\<bar> * 2 ^ u) 1 \<le> fp_round m (nat \<bar>y\<bar> * 2 ^ u) 1"
      by (rule fp_round_mono) simp
    then show ?thesis unfolding R_def by simp
  qed
  have nonneg: "0 \<le> R n" for n by (simp add: R_def)
  have key: "ieee_key (ieee_of_int m u n :: 'a word) = (if n < 0 then -1 else 1) * R n" for n
    by (simp only: ieee_key_of_int R_def)
  show ?thesis
    using assms mono [of a b] mono [of b a] nonneg [of a] nonneg [of b] by (auto simp: key)
qed

text \<open>Integers of at most \<open>m + 1\<close> bits convert exactly, so their order is kept.\<close>

lemma ieee_units_of_int:
  assumes "\<bar>n\<bar> < 2 ^ Suc m" "fp_round m (nat \<bar>n\<bar> * 2 ^ u) 1 \<le> ieee_inf m TYPE('a::len)"
  shows "ieee_units m (ieee_of_int m u n :: 'a word) = n * 2 ^ u"
proof -
  have "nat \<bar>n\<bar> < 2 ^ Suc m" using assms(1) by (simp add: nat_less_iff)
  then have "fp_val m (fp_round m (nat \<bar>n\<bar> * 2 ^ u) 1) = nat \<bar>n\<bar> * 2 ^ u"
    by (rule fp_val_round [OF refl])
  then have "int (fp_val m (min (ieee_inf m TYPE('a)) (fp_round m (nat \<bar>n\<bar> * 2 ^ u) 1))) = \<bar>n\<bar> * 2 ^ u"
    using assms(2) by (simp only: min_absorb2) simp
  then show ?thesis
    unfolding ieee_units_def ieee_of_int_def ieee_round_sel by (simp only:) (simp split: if_split)
qed

subsection \<open>double and float\<close>

type_synonym f64 = "64 word"
type_synonym f32 = "32 word"

abbreviation f64_nan :: "f64 \<Rightarrow> bool" where "f64_nan \<equiv> ieee_nan 52"
abbreviation f64_lt :: "f64 \<Rightarrow> f64 \<Rightarrow> bool" where "f64_lt \<equiv> ieee_lt 52"
abbreviation f64_le :: "f64 \<Rightarrow> f64 \<Rightarrow> bool" where "f64_le \<equiv> ieee_le 52"
abbreviation f64_eq :: "f64 \<Rightarrow> f64 \<Rightarrow> bool" where "f64_eq \<equiv> ieee_eq 52"
abbreviation f32_nan :: "f32 \<Rightarrow> bool" where "f32_nan \<equiv> ieee_nan 23"
abbreviation f32_lt :: "f32 \<Rightarrow> f32 \<Rightarrow> bool" where "f32_lt \<equiv> ieee_lt 23"
abbreviation f32_eq :: "f32 \<Rightarrow> f32 \<Rightarrow> bool" where "f32_eq \<equiv> ieee_eq 23"

definition f64_of_int :: "int \<Rightarrow> f64" where
  "f64_of_int n = ieee_of_int 52 1074 n"

definition f64_is_inf :: "f64 \<Rightarrow> bool" where
  "f64_is_inf d \<longleftrightarrow> ieee_mag d = ieee_inf 52 TYPE(64)"

definition f32_is_inf :: "f32 \<Rightarrow> bool" where
  "f32_is_inf d \<longleftrightarrow> ieee_mag d = ieee_inf 23 TYPE(32)"

text \<open>\<open>static_cast<double>(float)\<close> is exact; a NaN keeps its payload and becomes quiet.\<close>

definition f64_of_f32 :: "f32 \<Rightarrow> f64" where
  "f64_of_f32 w =
     (if f32_nan w
      then ieee_make (ieee_neg w) (ieee_inf 52 TYPE(64) + (ieee_mag (ieee_quiet 23 w) - ieee_inf 23 TYPE(32)) * 2 ^ 29)
      else if f32_is_inf w then ieee_make (ieee_neg w) (ieee_inf 52 TYPE(64))
      else ieee_round 52 (ieee_neg w) (fp_val 23 (ieee_mag w) * 2 ^ 925) 1)"

text \<open>\<open>static_cast<float>(double)\<close> rounds to nearest.\<close>

definition f32_of_f64 :: "f64 \<Rightarrow> f32" where
  "f32_of_f64 w =
     (if f64_nan w
      then ieee_make (ieee_neg w) (ieee_inf 23 TYPE(32) + (ieee_mag (ieee_quiet 52 w) - ieee_inf 52 TYPE(64)) div 2 ^ 29)
      else if f64_is_inf w then ieee_make (ieee_neg w) (ieee_inf 23 TYPE(32))
      else ieee_round 23 (ieee_neg w) (fp_val 52 (ieee_mag w)) (2 ^ 925))"

text \<open>
  \<open>std::floor\<close>, \<open>std::ceil\<close> of a finite double, read back as the integer a cast gives, and the
  test \<open>std::floor(d) == d\<close>.
\<close>

definition f64_floor_int :: "f64 \<Rightarrow> int" where
  "f64_floor_int d = ieee_units 52 d div 2 ^ 1074"

definition f64_ceil_int :: "f64 \<Rightarrow> int" where
  "f64_ceil_int d = - ((- ieee_units 52 d) div 2 ^ 1074)"

definition f64_is_integral :: "f64 \<Rightarrow> bool" where
  "f64_is_integral d \<longleftrightarrow> 2 ^ 1074 dvd ieee_units 52 d"

lemma f64_of_int_not_nan [simp]: "\<not> f64_nan (f64_of_int n)"
  by (simp add: f64_of_int_def)

lemma f64_of_int_mono: "a \<le> b \<Longrightarrow> ieee_key (f64_of_int a) \<le> ieee_key (f64_of_int b)"
  unfolding f64_of_int_def by (rule ieee_of_int_mono)

end
