(* ===== verification/Long_Double.thy ===== *)
theory Long_Double
  imports Ieee754
begin

text \<open>
  \<open>long double\<close>, in which \<^verbatim>\<open>exec_expression.cpp\<close> compares and adds and
  \<^verbatim>\<open>hash_aggregate_state.cpp\<close> sums.  On the target (x86-64) it is the x87 format: 15 exponent bits
  and 64 significant bits, the first of which is determined by the exponent and not kept here.
\<close>

subsection \<open>Widening between formats\<close>

definition ieee_widen :: "nat \<Rightarrow> nat \<Rightarrow> nat \<Rightarrow> 'a::len word \<Rightarrow> 'b::len word" where
  "ieee_widen m m' u w =
     (if ieee_nan m w
      then ieee_make (ieee_neg w) (ieee_inf m' TYPE('b) + (ieee_mag (ieee_quiet m w) - ieee_inf m TYPE('a)) * 2 ^ (m' - m))
      else if ieee_mag w = ieee_inf m TYPE('a) then ieee_make (ieee_neg w) (ieee_inf m' TYPE('b))
      else ieee_round m' (ieee_neg w) (fp_val m (ieee_mag w) * 2 ^ u) 1)"

text \<open>The other direction rounds: \<open>u\<close> is the same scale.\<close>

definition ieee_narrow :: "nat \<Rightarrow> nat \<Rightarrow> nat \<Rightarrow> 'a::len word \<Rightarrow> 'b::len word" where
  "ieee_narrow m m' u w =
     (if ieee_nan m w
      then ieee_make (ieee_neg w) (ieee_inf m' TYPE('b) + (ieee_mag (ieee_quiet m w) - ieee_inf m TYPE('a)) div 2 ^ (m - m'))
      else if ieee_mag w = ieee_inf m TYPE('a) then ieee_make (ieee_neg w) (ieee_inf m' TYPE('b))
      else ieee_round m' (ieee_neg w) (fp_val m (ieee_mag w)) (2 ^ u))"

text \<open>\<open>'b\<close> with \<open>m'\<close> holds every value of \<open>'a\<close> with \<open>m\<close>.\<close>

definition ieee_fits :: "nat \<Rightarrow> 'a::len itself \<Rightarrow> nat \<Rightarrow> 'b::len itself \<Rightarrow> nat \<Rightarrow> bool" where
  "ieee_fits m A m' B u \<longleftrightarrow> m \<le> m' \<and> m' < LENGTH('b) - 1 \<and> m < LENGTH('a) - 1 \<and>
     fp_val m (ieee_inf m A) * 2 ^ u \<le> fp_val m' (ieee_inf m' B)"

lemma fp_val_significant: "\<exists>a j. fp_val m b = a * 2 ^ j \<and> a < 2 ^ Suc m"
proof (cases "b div 2 ^ m = 0")
  case True
  have "b mod 2 ^ m < 2 ^ Suc m" by (rule less_trans [of _ "2 ^ m"]) simp_all
  then show ?thesis using True by (intro exI [of _ "b mod 2 ^ m"] exI [of _ 0]) (simp add: fp_val_def)
next
  case False
  have "2 ^ m + b mod 2 ^ m < 2 ^ Suc m" by simp
  then show ?thesis using False
    by (intro exI [of _ "2 ^ m + b mod 2 ^ m"] exI [of _ "b div 2 ^ m - 1"]) (simp add: fp_val_def Let_def)
qed

lemma fp_val_scaled_round:
  assumes "m \<le> m'"
  shows "fp_val m' (fp_round m' (fp_val m b * 2 ^ u) 1) = fp_val m b * 2 ^ u"
proof -
  obtain a j where a: "fp_val m b = a * 2 ^ j" "a < 2 ^ Suc m" using fp_val_significant by blast
  have "(2 :: nat) ^ Suc m \<le> 2 ^ Suc m'" using assms by (intro power_increasing) simp_all
  with a(2) have "a < 2 ^ Suc m'" by linarith
  moreover have "fp_val m b * 2 ^ u = a * 2 ^ (j + u)" by (simp add: a(1) power_add)
  ultimately show ?thesis by (intro fp_val_round [of _ a "j + u"])
qed

definition widen_mag :: "nat \<Rightarrow> 'a::len itself \<Rightarrow> nat \<Rightarrow> 'b::len itself \<Rightarrow> nat \<Rightarrow> nat \<Rightarrow> nat" where
  "widen_mag m A m' B u b = (if b = ieee_inf m A then ieee_inf m' B else fp_round m' (fp_val m b * 2 ^ u) 1)"

lemma widen_mag_finite:
  assumes "ieee_fits m A m' B u" "b < ieee_inf m A"
  shows "fp_val m' (widen_mag m A m' B u b) = fp_val m b * 2 ^ u" "widen_mag m A m' B u b < ieee_inf m' B"
proof -
  have b: "b \<noteq> ieee_inf m A" using assms(2) by simp
  show v: "fp_val m' (widen_mag m A m' B u b) = fp_val m b * 2 ^ u"
    using fp_val_scaled_round assms(1) b by (simp add: widen_mag_def ieee_fits_def)
  have "fp_val m b < fp_val m (ieee_inf m A)" using assms(2) by simp
  then have "fp_val m b * 2 ^ u < fp_val m (ieee_inf m A) * 2 ^ u" by (intro mult_strict_right_mono) simp_all
  also have "\<dots> \<le> fp_val m' (ieee_inf m' B)" using assms(1) by (simp add: ieee_fits_def)
  finally show "widen_mag m A m' B u b < ieee_inf m' B" by (simp only: v [symmetric] fp_val_less_iff)
qed

lemma widen_mag_strict_mono:
  assumes "ieee_fits m A m' B u" "b < b'" "b' \<le> ieee_inf m A"
  shows "widen_mag m A m' B u b < widen_mag m A m' B u b'"
proof (cases "b' = ieee_inf m A")
  case True
  have "widen_mag m A m' B u b' = ieee_inf m' B" using True by (simp add: widen_mag_def)
  then show ?thesis using widen_mag_finite(2) [OF assms(1)] assms(2) True by metis
next
  case False
  then have "fp_val m' (widen_mag m A m' B u b) < fp_val m' (widen_mag m A m' B u b')"
    using widen_mag_finite(1) [OF assms(1)] assms(2,3) by simp
  then show ?thesis by simp
qed

lemma widen_mag_0: "ieee_fits m A m' B u \<Longrightarrow> 0 < ieee_inf m A \<Longrightarrow> widen_mag m A m' B u 0 = 0"
  using widen_mag_finite(1) [of m A m' B u 0] by (metis fp_val_0 fp_val_eq_iff mult_zero_left)

lemma ieee_mag_quiet: "ieee_mag w \<le> ieee_mag (ieee_quiet m (w :: 'a::len word))"
proof -
  let ?k = "LENGTH('a) - 1" and ?b = "push_bit (m - 1) 1 :: 'a word"
  have "int (take_bit ?k (unat w)) \<le> int (take_bit ?k (unat w)) OR int (take_bit ?k (unat ?b))"
    by (rule or_greater_eq) simp
  also have "\<dots> = int (take_bit ?k (unat (w OR ?b)))"
    by (simp only: unsigned_or_eq take_bit_or of_nat_or_eq)
  finally show ?thesis by (simp add: ieee_mag_def ieee_quiet_def take_bit_eq_mod)
qed

lemma ieee_widen_sel:
  fixes w :: "'a::len word"
  assumes "ieee_fits m TYPE('a) m' TYPE('b::len) u" "\<not> ieee_nan m w"
  shows "ieee_mag (ieee_widen m m' u w :: 'b word) = widen_mag m TYPE('a) m' TYPE('b) u (ieee_mag w)"
    and "ieee_neg (ieee_widen m m' u w :: 'b word) = ieee_neg w" and "\<not> ieee_nan m' (ieee_widen m m' u w :: 'b word)"
proof -
  have le: "ieee_mag w \<le> ieee_inf m TYPE('a)" using assms(2) by (simp add: ieee_nan_def)
  show mag: "ieee_mag (ieee_widen m m' u w :: 'b word) = widen_mag m TYPE('a) m' TYPE('b) u (ieee_mag w)"
  proof (cases "ieee_mag w = ieee_inf m TYPE('a)")
    case True
    then show ?thesis using assms(2) by (simp add: ieee_widen_def widen_mag_def ieee_make_sel [OF ieee_inf_less])
  next
    case False
    then have "widen_mag m TYPE('a) m' TYPE('b) u (ieee_mag w) < ieee_inf m' TYPE('b)"
      using widen_mag_finite(2) [OF assms(1)] le by simp
    then show ?thesis using False assms(2) by (simp add: ieee_widen_def widen_mag_def)
  qed
  show "ieee_neg (ieee_widen m m' u w :: 'b word) = ieee_neg w"
    using assms(2) by (simp add: ieee_widen_def ieee_make_sel [OF ieee_inf_less])
  show "\<not> ieee_nan m' (ieee_widen m m' u w :: 'b word)"
    unfolding ieee_nan_def mag using widen_mag_finite(2) [OF assms(1)] le
    by (metis le_neq_implies_less less_imp_not_less not_less_iff_gr_or_eq order_less_irrefl widen_mag_def)
qed

lemma ieee_widen_nan:
  fixes w :: "'a::len word"
  assumes "ieee_fits m TYPE('a) m' TYPE('b::len) u"
  shows "ieee_nan m' (ieee_widen m m' u w :: 'b word) \<longleftrightarrow> ieee_nan m w"
proof (cases "ieee_nan m w")
  case True
  define p where "p = (ieee_mag (ieee_quiet m w) - ieee_inf m TYPE('a)) * 2 ^ (m' - m)"
  have nan: "ieee_inf m TYPE('a) < ieee_mag (ieee_quiet m w)"
    using True ieee_mag_quiet [of w m] by (simp add: ieee_nan_def)
  have m: "m \<le> m'" "m' < LENGTH('b) - 1" "m < LENGTH('a) - 1" using assms by (simp_all add: ieee_fits_def)
  have "ieee_mag (ieee_quiet m w) - ieee_inf m TYPE('a) < 2 ^ m"
    using ieee_mag_less [of "ieee_quiet m w"] nan m(3) power_increasing [of m "LENGTH('a) - 1" "2 :: nat"]
    unfolding ieee_inf_def by linarith
  then have "p < 2 ^ m * 2 ^ (m' - m)" unfolding p_def by (intro mult_strict_right_mono) simp_all
  also have "\<dots> = 2 ^ m'" using m(1) by (simp flip: power_add)
  finally have small: "ieee_inf m' TYPE('b) + p < 2 ^ (LENGTH('b) - 1)"
    using m(2) power_increasing [of m' "LENGTH('b) - 1" "2 :: nat"] unfolding ieee_inf_def by linarith
  have "0 < p" using nan by (simp add: p_def)
  moreover have "ieee_mag (ieee_widen m m' u w :: 'b word) = ieee_inf m' TYPE('b) + p"
    using True small by (simp add: ieee_widen_def p_def)
  ultimately show ?thesis using True by (simp add: ieee_nan_def)
qed (use ieee_widen_sel(3) [OF assms] in simp)

lemma sign_less: "- int p < int q \<longleftrightarrow> p \<noteq> 0 \<or> q \<noteq> 0" "\<not> int p < - int q"
  by auto

lemma ieee_widen_key:
  fixes a b :: "'a::len word"
  assumes "ieee_fits m TYPE('a) m' TYPE('b::len) u" "\<not> ieee_nan m a" "\<not> ieee_nan m b" "0 < ieee_inf m TYPE('a)"
  shows "ieee_key (ieee_widen m m' u a :: 'b word) < ieee_key (ieee_widen m m' u b :: 'b word) \<longleftrightarrow> ieee_key a < ieee_key b"
proof -
  define f where "f = widen_mag m TYPE('a) m' TYPE('b) u"
  have key: "ieee_key (ieee_widen m m' u w :: 'b word) = (if ieee_neg w then - int (f (ieee_mag w)) else int (f (ieee_mag w)))"
    if "\<not> ieee_nan m w" for w :: "'a word"
    using ieee_widen_sel [OF assms(1) that] by (simp add: ieee_key_def f_def)
  have le: "ieee_mag a \<le> ieee_inf m TYPE('a)" "ieee_mag b \<le> ieee_inf m TYPE('a)" using assms(2,3) by (simp_all add: ieee_nan_def)
  have mono: "f x < f y \<longleftrightarrow> x < y" if "x \<le> ieee_inf m TYPE('a)" "y \<le> ieee_inf m TYPE('a)" for x y
    using widen_mag_strict_mono [OF assms(1), of x y] widen_mag_strict_mono [OF assms(1), of y x] that
    unfolding f_def by (metis less_imp_not_less linorder_neqE_nat)
  have zero: "f x = 0 \<longleftrightarrow> x = 0" if "x \<le> ieee_inf m TYPE('a)" for x
    using mono [of 0 x] that widen_mag_0 [OF assms(1,4)] by (auto simp: f_def [symmetric])
  define x y where "x = ieee_mag a" and "y = ieee_mag b"
  have cmp: "f x < f y \<longleftrightarrow> x < y" "f y < f x \<longleftrightarrow> y < x" "0 < f x \<longleftrightarrow> 0 < x" "0 < f y \<longleftrightarrow> 0 < y"
    using mono zero le by (simp_all add: x_def y_def flip: neq0_conv)
  have "ieee_key (ieee_widen m m' u a :: 'b word) < ieee_key (ieee_widen m m' u b :: 'b word) \<longleftrightarrow>
      (if ieee_neg a then - int (f x) else int (f x)) < (if ieee_neg b then - int (f y) else int (f y))"
    by (simp only: key [OF assms(2)] key [OF assms(3)] x_def y_def)
  also have "\<dots> \<longleftrightarrow> (if ieee_neg a then - int x else int x) < (if ieee_neg b then - int y else int y)"
    using cmp sign_less by (cases "ieee_neg a"; cases "ieee_neg b") simp_all
  finally show ?thesis by (simp only: ieee_key_def x_def y_def)
qed

lemma ieee_widen_units:
  fixes w :: "'a::len word"
  assumes "ieee_fits m TYPE('a) m' TYPE('b::len) u" "ieee_mag w < ieee_inf m TYPE('a)"
  shows "ieee_units m' (ieee_widen m m' u w :: 'b word) = ieee_units m w * 2 ^ u"
proof -
  have "\<not> ieee_nan m w" using assms(2) by (simp add: ieee_nan_def)
  then show ?thesis using ieee_widen_sel [OF assms(1)] widen_mag_finite(1) [OF assms] by (simp add: ieee_units_def)
qed

lemma fp_val_inf:
  assumes "m + 1 < LENGTH('a::len)"
  shows "fp_val m (ieee_inf m TYPE('a)) = 2 ^ (m + 2 ^ (LENGTH('a) - 1 - m) - 2)"
proof -
  define k where "k = LENGTH('a) - 1 - m"
  have L: "LENGTH('a) - 1 = m + k" and k: "0 < k" using assms by (simp_all add: k_def)
  have two: "2 \<le> (2 :: nat) ^ k" using k power_increasing [of 1 k "2 :: nat"] by simp
  have inf: "ieee_inf m TYPE('a) = (2 ^ k - 1) * 2 ^ m"
    unfolding ieee_inf_def L by (simp add: power_add algebra_simps)
  have "fp_val m (ieee_inf m TYPE('a)) = 2 ^ m * 2 ^ (2 ^ k - 1 - 1)"
    using two unfolding inf fp_val_def by (simp add: Let_def)
  also have "\<dots> = 2 ^ (m + 2 ^ k - 2)" using two by (simp flip: power_add)
  finally show ?thesis by (simp add: k_def)
qed

lemma ieee_fitsI:
  assumes "m \<le> m'" "m + 1 < LENGTH('a::len)" "m' + 1 < LENGTH('b::len)"
    and "m + 2 ^ (LENGTH('a) - 1 - m) - 2 + u \<le> m' + 2 ^ (LENGTH('b) - 1 - m') - 2"
  shows "ieee_fits m TYPE('a) m' TYPE('b) u"
  unfolding ieee_fits_def fp_val_inf [OF assms(2)] fp_val_inf [OF assms(3)] power_add [symmetric]
  using assms power_increasing [OF assms(4), of "2 :: nat"] by (simp add: less_diff_conv)

subsection \<open>long double\<close>

type_synonym f80 = "79 word"

abbreviation f80_lt :: "f80 \<Rightarrow> f80 \<Rightarrow> bool" where "f80_lt \<equiv> ieee_lt 63"
abbreviation f80_nan :: "f80 \<Rightarrow> bool" where "f80_nan \<equiv> ieee_nan 63"

text \<open>One is \<open>2 ^ f80_unit\<close> least subnormals; the units of double and float are \<open>2 ^ f64_shift\<close>, \<open>2 ^ f32_shift\<close>.\<close>

definition f80_unit :: nat where "f80_unit = 16445"
definition f64_shift :: nat where "f64_shift = 15371"
definition f32_shift :: nat where "f32_shift = 16296"

definition f32_of_int :: "int \<Rightarrow> f32" where
  "f32_of_int n = ieee_of_int 23 149 n"

text \<open>\<open>static_cast<int64_t>\<close> of a double in range truncates.\<close>

definition f64_trunc_int :: "f64 \<Rightarrow> int" where
  "f64_trunc_int d = (if ieee_neg d then - 1 else 1) * int (fp_val 52 (ieee_mag d) div 2 ^ 1074)"

definition f80_of_int :: "int \<Rightarrow> f80" where
  "f80_of_int n = ieee_of_int 63 f80_unit n"

definition f80_of_f64 :: "f64 \<Rightarrow> f80" where
  "f80_of_f64 = ieee_widen 52 63 f64_shift"

definition f80_of_f32 :: "f32 \<Rightarrow> f80" where
  "f80_of_f32 = ieee_widen 23 63 f32_shift"

definition f64_of_f80 :: "f80 \<Rightarrow> f64" where
  "f64_of_f80 = ieee_narrow 63 52 f64_shift"

definition f32_of_f80 :: "f80 \<Rightarrow> f32" where
  "f32_of_f80 = ieee_narrow 63 23 f32_shift"

text \<open>The conversion to an integer truncates; \<open>None\<close>: not finite, or the result is not in the range.\<close>

definition f80_trunc :: "int \<Rightarrow> f80 \<Rightarrow> int option" where
  "f80_trunc bound w =
     (let n = (if ieee_neg w then - 1 else 1) * int (fp_val 63 (ieee_mag w) div 2 ^ f80_unit)
      in if ieee_inf 63 TYPE(79) \<le> ieee_mag w \<or> n < - bound \<or> bound \<le> n then None else Some n)"

definition f80_add :: "f80 \<Rightarrow> f80 \<Rightarrow> f80" where "f80_add = ieee_add 63"
definition f80_sub :: "f80 \<Rightarrow> f80 \<Rightarrow> f80" where "f80_sub = ieee_sub 63"

definition f80_div :: "f80 \<Rightarrow> f80 \<Rightarrow> f80" where
  "f80_div a b =
     (let neg = (ieee_neg a \<noteq> ieee_neg b); inf = ieee_inf 63 TYPE(79) in
      if f80_nan a then ieee_quiet 63 a
      else if f80_nan b then ieee_quiet 63 b
      else if ieee_mag a = inf then (if ieee_mag b = inf then ieee_default_nan 63 else ieee_make neg inf)
      else if ieee_mag b = inf then ieee_make neg 0
      else if ieee_mag b = 0 then (if ieee_mag a = 0 then ieee_default_nan 63 else ieee_make neg inf)
      else ieee_round 63 neg (fp_val 63 (ieee_mag a) * 2 ^ f80_unit) (fp_val 63 (ieee_mag b)))"

lemma f64_fits_f80: "ieee_fits 52 TYPE(64) 63 TYPE(79) f64_shift"
  by (rule ieee_fitsI) (simp_all add: f64_shift_def)

lemma f32_fits_f80: "ieee_fits 23 TYPE(32) 63 TYPE(79) f32_shift"
  by (rule ieee_fitsI) (simp_all add: f32_shift_def)

lemma f32_fits_f64: "ieee_fits 23 TYPE(32) 52 TYPE(64) 925"
  by (rule ieee_fitsI) simp_all

lemma f64_of_f32_widen: "f64_of_f32 w = ieee_widen 23 52 925 w"
  by (simp add: f64_of_f32_def ieee_widen_def f32_is_inf_def)

lemma f80_of_f64_nan [simp]: "f80_nan (f80_of_f64 w) \<longleftrightarrow> f64_nan w"
  unfolding f80_of_f64_def by (rule ieee_widen_nan [OF f64_fits_f80])

lemma f80_of_f32_nan [simp]: "f80_nan (f80_of_f32 w) \<longleftrightarrow> f32_nan w"
  unfolding f80_of_f32_def by (rule ieee_widen_nan [OF f32_fits_f80])

lemma f80_of_int_nan [simp]: "\<not> f80_nan (f80_of_int n)"
  by (simp add: f80_of_int_def)

lemma f80_of_f64_key:
  "\<not> f64_nan a \<Longrightarrow> \<not> f64_nan b \<Longrightarrow> ieee_key (f80_of_f64 a) < ieee_key (f80_of_f64 b) \<longleftrightarrow> ieee_key a < ieee_key b"
  unfolding f80_of_f64_def by (rule ieee_widen_key [OF f64_fits_f80]) (simp_all add: ieee_inf_def)

lemma f80_of_f32_key:
  "\<not> f32_nan a \<Longrightarrow> \<not> f32_nan b \<Longrightarrow> ieee_key (f80_of_f32 a) < ieee_key (f80_of_f32 b) \<longleftrightarrow> ieee_key a < ieee_key b"
  unfolding f80_of_f32_def by (rule ieee_widen_key [OF f32_fits_f80]) (simp_all add: ieee_inf_def)

text \<open>Integers of 64 bits and finite doubles and floats are held exactly.\<close>

lemma ieee_units_of_int_fits:
  assumes "\<bar>n\<bar> \<le> 2 ^ Suc m" "m + 1 < LENGTH('a::len)" "Suc m + u < m + 2 ^ (LENGTH('a) - 1 - m) - 2"
  shows "ieee_units m (ieee_of_int m u n :: 'a word) = n * 2 ^ u"
proof -
  define k where "k = nat \<bar>n\<bar>"
  have k: "k \<le> 2 ^ Suc m" using assms(1) by (simp add: k_def nat_le_iff)
  have v: "fp_val m (fp_round m (k * 2 ^ u) 1) = k * 2 ^ u"
  proof (cases "k = 2 ^ Suc m")
    case True
    have "1 < (2 :: nat) ^ Suc m" by (rule one_less_power) simp_all
    then show ?thesis using True by (intro fp_val_round [of _ 1 "Suc m + u"]) (simp_all add: power_add)
  qed (use k in \<open>intro fp_val_round [OF refl], simp\<close>)
  also have "k * 2 ^ u \<le> 2 ^ Suc m * 2 ^ u" using k by (intro mult_right_mono) simp_all
  also have "\<dots> < fp_val m (ieee_inf m TYPE('a))"
    unfolding power_add [symmetric] fp_val_inf [OF assms(2)] using assms(3) by (intro power_strict_increasing) simp_all
  finally have small: "fp_round m (k * 2 ^ u) 1 \<le> ieee_inf m TYPE('a)" by simp
  show ?thesis using v small
    unfolding ieee_units_def ieee_of_int_def ieee_round_sel k_def by (simp only: min_absorb2) (simp split: if_split)
qed

lemma f80_units_int: "\<bar>n\<bar> < 2 ^ 64 \<Longrightarrow> ieee_units 63 (f80_of_int n) = n * 2 ^ f80_unit"
  unfolding f80_of_int_def by (rule ieee_units_of_int_fits) (simp_all add: f80_unit_def)

lemma f80_units_f64: "ieee_mag w < ieee_inf 52 TYPE(64) \<Longrightarrow> ieee_units 63 (f80_of_f64 w) = ieee_units 52 w * 2 ^ f64_shift"
  unfolding f80_of_f64_def by (rule ieee_widen_units [OF f64_fits_f80])

lemma f80_units_f32: "ieee_mag w < ieee_inf 23 TYPE(32) \<Longrightarrow> ieee_units 63 (f80_of_f32 w) = ieee_units 23 w * 2 ^ f32_shift"
  unfolding f80_of_f32_def by (rule ieee_widen_units [OF f32_fits_f80])

lemma f80_shifts:
  "(2 :: 'a::comm_semiring_1) ^ 1074 * 2 ^ f64_shift = 2 ^ f80_unit" "(2 :: 'a) ^ 925 * 2 ^ f64_shift = 2 ^ f32_shift"
  "(2 :: 'a) ^ 149 * 2 ^ f32_shift = 2 ^ f80_unit"
proof -
  have "1074 + f64_shift = f80_unit" "925 + f64_shift = f32_shift" "149 + f32_shift = f80_unit"
    by (simp_all add: f64_shift_def f80_unit_def f32_shift_def)
  then show "(2 :: 'a) ^ 1074 * 2 ^ f64_shift = 2 ^ f80_unit" "(2 :: 'a) ^ 925 * 2 ^ f64_shift = 2 ^ f32_shift"
    "(2 :: 'a) ^ 149 * 2 ^ f32_shift = 2 ^ f80_unit"
    by (simp_all only: power_add [symmetric])
qed

lemma f80_of_int_key:
  assumes "\<bar>a\<bar> < 2 ^ 64" "\<bar>b\<bar> < 2 ^ 64"
  shows "ieee_key (f80_of_int a) < ieee_key (f80_of_int b) \<longleftrightarrow> a < b"
  unfolding ieee_key_less_iff_units [of _ _ 63] f80_units_int [OF assms(1)] f80_units_int [OF assms(2)] by simp

lemma ieee_key_eqI: "\<not> k < k' \<Longrightarrow> \<not> k' < k \<Longrightarrow> k = (k' :: int)"
  by simp

lemma f80_of_f64_of_f32_key:
  assumes "\<not> f32_nan w"
  shows "ieee_key (f80_of_f64 (f64_of_f32 w)) = ieee_key (f80_of_f32 w)"
proof -
  note a = ieee_widen_sel [OF f32_fits_f64 assms] and b = ieee_widen_sel [OF f32_fits_f80 assms]
  note c = ieee_widen_sel [OF f64_fits_f80 a(3)]
  have le: "ieee_mag w \<le> ieee_inf 23 TYPE(32)" using assms by (simp add: ieee_nan_def)
  have "widen_mag 52 TYPE(64) 63 TYPE(79) f64_shift (widen_mag 23 TYPE(32) 52 TYPE(64) 925 (ieee_mag w)) =
      widen_mag 23 TYPE(32) 63 TYPE(79) f32_shift (ieee_mag w)"
  proof (cases "ieee_mag w = ieee_inf 23 TYPE(32)")
    case True
    then show ?thesis by (simp add: widen_mag_def)
  next
    case False
    then have fin: "ieee_mag w < ieee_inf 23 TYPE(32)" using le by simp
    show ?thesis
      by (rule iffD1 [OF fp_val_eq_iff [of 63]])
        (simp only: widen_mag_finite(1) [OF f32_fits_f80 fin] widen_mag_finite(1) [OF f32_fits_f64 fin]
          widen_mag_finite(1) [OF f64_fits_f80 widen_mag_finite(2) [OF f32_fits_f64 fin]] mult.assoc f80_shifts(2))
  qed
  then show ?thesis using a b c by (simp only: ieee_key_def f80_of_f64_def f80_of_f32_def f64_of_f32_widen)
qed

lemma f32_of_int_units: "\<bar>n\<bar> \<le> 2 ^ 24 \<Longrightarrow> ieee_units 23 (f32_of_int n) = n * 2 ^ 149"
  unfolding f32_of_int_def by (rule ieee_units_of_int_fits) simp_all

lemma f64_of_int_units: "\<bar>n\<bar> \<le> 2 ^ 53 \<Longrightarrow> ieee_units 52 (f64_of_int n) = n * 2 ^ 1074"
  unfolding f64_of_int_def by (rule ieee_units_of_int_fits) simp_all

end
