(* ===== verification/Types.thy ===== *)
theory Types
  imports Prelude
begin

text \<open>
  \<^verbatim>\<open>src/src/type.h\<close>: the column types, comparison operators, key kinds and aggregate kinds the
  whole engine shares, and the 64-byte inline slot that holds a VARCHAR value.
\<close>

subsection \<open>Enumerations\<close>

datatype data_type = DT_INVALID | DT_INT32 | DT_INT64 | DT_FLOAT | DT_DOUBLE | DT_VARCHAR

datatype cmp_op = CMP_EQ | CMP_NE | CMP_GT | CMP_GE | CMP_LT | CMP_LE

datatype key_type = KT_PRIMARY | KT_SECONDARY

datatype agg_type = AGG_INVALID | AGG_SUM | AGG_COUNT | AGG_AVG | AGG_MIN | AGG_MAX

type_synonym table_id = u32
type_synonym column_id = u32
type_synonym segment_id = u32
type_synonym key_id = u32

definition kInvalidColumnId :: column_id where
  "kInvalidColumnId = 0xFFFFFFFF"

text \<open>The underlying \<open>uint8_t\<close> of \<open>enum class DataType\<close> and \<open>enum class KeyType\<close>.\<close>

fun data_type_code :: "data_type \<Rightarrow> u8" where
  "data_type_code DT_INVALID = 0"
| "data_type_code DT_INT32 = 1"
| "data_type_code DT_INT64 = 2"
| "data_type_code DT_FLOAT = 3"
| "data_type_code DT_DOUBLE = 4"
| "data_type_code DT_VARCHAR = 5"

fun key_type_code :: "key_type \<Rightarrow> u8" where
  "key_type_code KT_PRIMARY = 0"
| "key_type_code KT_SECONDARY = 1"

lemma data_type_code_inj [simp]: "data_type_code a = data_type_code b \<longleftrightarrow> a = b"
  by (cases a; cases b) simp_all

lemma key_type_code_inj [simp]: "key_type_code a = key_type_code b \<longleftrightarrow> a = b"
  by (cases a; cases b) simp_all

subsection \<open>Element sizes\<close>

definition kVarcharSlotSize :: nat where
  "kVarcharSlotSize = 64"

definition kVarcharInlineMax :: nat where
  "kVarcharInlineMax = kVarcharSlotSize - 4"

fun TypeElemSize :: "data_type \<Rightarrow> nat" where
  "TypeElemSize DT_INT32 = 4"
| "TypeElemSize DT_INT64 = 8"
| "TypeElemSize DT_FLOAT = 4"
| "TypeElemSize DT_DOUBLE = 8"
| "TypeElemSize DT_VARCHAR = kVarcharSlotSize"
| "TypeElemSize DT_INVALID = 8"

lemma kVarcharInlineMax_eq [simp]: "kVarcharInlineMax = 60"
  by (simp add: kVarcharInlineMax_def kVarcharSlotSize_def)

lemma TypeElemSize_pos [simp]: "0 < TypeElemSize t"
  by (cases t) (simp_all add: kVarcharSlotSize_def)

subsection \<open>The VARCHAR slot\<close>

definition WriteVarcharSlot :: "string \<Rightarrow> bytes result" where
  "WriteVarcharSlot value =
     (let len = u32_of (length value) in
      if unat len > kVarcharInlineMax
      then Inl (Runtime_error ''VARCHAR value too long for inline slot (max 60 bytes)'')
      else Inr (le_bytes 4 len @ map byte_of_char (take (unat len) value)
                @ replicate (kVarcharInlineMax - unat len) 0))"

definition ReadVarcharLength :: "bytes \<Rightarrow> u32" where
  "ReadVarcharLength slot =
     (let len = le_word 4 slot in
      if unat len > kVarcharInlineMax then u32_of kVarcharInlineMax else len)"

definition ReadVarcharSlot :: "bytes \<Rightarrow> string" where
  "ReadVarcharSlot slot =
     map char_of_byte (take (unat (ReadVarcharLength slot)) (drop 4 slot))"

lemma WriteVarcharSlot_length:
  "WriteVarcharSlot s = Inr slot \<Longrightarrow> length slot = kVarcharSlotSize"
proof -
  assume a: "WriteVarcharSlot s = Inr slot"
  have "unat (u32_of (length s)) \<le> length s"
    by (simp add: unat_of_nat)
  with a show ?thesis
    by (auto simp: WriteVarcharSlot_def Let_def kVarcharSlotSize_def split: if_splits)
qed

lemma WriteVarcharSlot_short:
  assumes "length s \<le> 60"
  shows "WriteVarcharSlot s
    = Inr (le_bytes 4 (u32_of (length s)) @ map byte_of_char s @ replicate (60 - length s) 0)"
proof -
  have "unat (u32_of (length s)) = length s"
    using assms by (simp add: unat_u32_of)
  with assms show ?thesis by (simp add: WriteVarcharSlot_def Let_def)
qed

lemma ReadVarcharSlot_Write:
  assumes "length s \<le> 60" "WriteVarcharSlot s = Inr slot"
  shows "ReadVarcharSlot slot = s"
proof -
  have len: "unat (u32_of (length s)) = length s"
    using assms(1) by (simp add: unat_u32_of)
  have slot: "slot = le_bytes 4 (u32_of (length s)) @ map byte_of_char s @ replicate (60 - length s) 0"
    using assms WriteVarcharSlot_short [OF assms(1)] by simp
  have "ReadVarcharLength slot = u32_of (length s)"
    using assms(1) len by (simp add: ReadVarcharLength_def slot Let_def le_word_le_bytes)
  then show ?thesis
    by (simp add: ReadVarcharSlot_def slot len)
qed

lemma ReadVarcharLength_le: "unat (ReadVarcharLength slot) \<le> kVarcharInlineMax"
  by (auto simp: ReadVarcharLength_def Let_def unat_u32_of)

end
