(* ===== verification/Selection_Mask.thy ===== *)
theory Selection_Mask
  imports Prelude
begin

text \<open>
  \<^verbatim>\<open>src/src/simd/selection_mask.{h,cpp}\<close>: the bitmap that says which rows of a batch are
  selected, 16 words of 64 bits, and the cursor over its set bits.  The gather kernel of
  \<^verbatim>\<open>src/src/simd/scalar/gather_scalar.cpp\<close> and the compare loop of \<^verbatim>\<open>compare_scalar.cpp\<close>
  are here too: they are the bitmap's readers and writers.
\<close>

subsection \<open>Builtins on 64-bit words\<close>

definition ctz :: "u64 \<Rightarrow> nat" where
  "ctz w = length (takeWhile (\<lambda>i. \<not> bit w i) [0..<64])"

definition popcount :: "u64 \<Rightarrow> nat" where
  "popcount w = length (filter (bit w) [0..<64])"

definition clear_lowest :: "u64 \<Rightarrow> u64" where
  "clear_lowest w = w AND (w - 1)"

lemma u64_bits_nonzero:
  assumes "w \<noteq> 0"
  shows "\<exists>i<64. bit (w :: u64) i"
proof (rule ccontr)
  assume "\<not> ?thesis"
  then have "w = 0" by (intro bit_word_eqI) simp
  with assms show False ..
qed

lemma ctz_props:
  assumes "w \<noteq> 0"
  shows "ctz w < 64" "bit w (ctz w)" "\<And>i. i < ctz w \<Longrightarrow> \<not> bit w i"
proof -
  obtain i where i: "i < 64" "bit w i" using u64_bits_nonzero [OF assms] by blast
  have "ctz w \<noteq> 64"
  proof
    assume "ctz w = 64"
    then have "takeWhile (\<lambda>i. \<not> bit w i) [0..<64] = [0..<64]"
      unfolding ctz_def by (metis diff_zero length_upt takeWhile_eq_take take_all le_refl)
    then show False using i by (metis atLeastLessThan_iff set_takeWhileD set_upt zero_le)
  qed
  then show c: "ctz w < 64"
    using length_takeWhile_le [of "\<lambda>i. \<not> bit w i" "[0..<64]"] by (simp add: ctz_def)
  then show "bit w (ctz w)"
    using nth_length_takeWhile [of "\<lambda>i. \<not> bit w i" "[0..<64]"] by (simp add: ctz_def)
  show "\<not> bit w i" if "i < ctz w" for i
  proof -
    have "i = takeWhile (\<lambda>i. \<not> bit w i) [0..<64] ! i"
      using that c by (simp add: takeWhile_nth ctz_def)
    then show ?thesis
      using that by (metis ctz_def nth_mem set_takeWhileD)
  qed
qed

lemma bit_minus_1:
  fixes w :: u64
  assumes "w \<noteq> 0" "i < 64"
  shows "bit (w - 1) i \<longleftrightarrow> i < ctz w \<or> ctz w < i \<and> bit w i"
proof -
  define c where "c = ctz w"
  note p = ctz_props [OF assms(1), folded c_def]
  define hi where "hi = w AND NOT (mask (Suc c))"
  have bhi: "bit hi j \<longleftrightarrow> c < j \<and> bit w j" for j
    using bit_imp_le_length [of w j]
    by (auto simp: hi_def bit_and_iff bit_not_iff bit_mask_iff)
  have "hi AND mask c = 0" "hi AND 2 ^ c = 0"
    by (rule bit_eqI, simp add: bit_and_iff bit_mask_iff bhi)+ (auto simp: bit_exp_iff)
  then have "hi + mask c = hi OR mask c" "hi + 2 ^ c = hi OR 2 ^ c"
    by (simp_all add: disjunctive_add_eq_or)
  moreover have "hi OR 2 ^ c = w"
    using p by (intro bit_eqI) (auto simp: bit_or_iff bhi bit_exp_iff, metis nat_neq_iff)
  ultimately have "w - 1 = hi OR mask c" by (simp add: mask_eq_exp_minus_1 algebra_simps)
  then show ?thesis using assms(2) by (simp add: bit_or_iff bhi bit_mask_iff flip: c_def) auto
qed

lemma bit_clear_lowest:
  assumes "w \<noteq> 0"
  shows "bit (clear_lowest w) i \<longleftrightarrow> bit w i \<and> i \<noteq> ctz w"
proof (cases "i < 64")
  case True
  then show ?thesis
    using bit_minus_1 [OF assms True] ctz_props [OF assms] by (auto simp: clear_lowest_def bit_and_iff)
next
  case False
  then have "\<not> bit w i" using bit_imp_le_length [of w i] by auto
  then show ?thesis by (simp add: clear_lowest_def bit_and_iff)
qed

lemma filter_bits_step:
  assumes "w \<noteq> 0"
  shows "filter (bit w) [0..<64] = ctz w # filter (bit (clear_lowest w)) [0..<64]"
proof -
  note p = ctz_props [OF assms]
  define c where "c = ctz w"
  have split: "[0..<64] = [0..<c] @ c # [Suc c..<64]"
    using p(1) by (metis c_def le_add1 less_imp_le_nat plus_nat.add_0 upt_add_eq_append upt_conv_Cons le_add_diff_inverse)
  have "filter (bit w) [0..<c] = []" "filter (bit (clear_lowest w)) [0..<c] = []"
    using p(3) by (auto simp: filter_empty_conv c_def bit_clear_lowest [OF assms])
  moreover have "filter (bit w) [Suc c..<64] = filter (bit (clear_lowest w)) [Suc c..<64]"
    by (rule filter_cong) (auto simp: bit_clear_lowest [OF assms] c_def)
  ultimately show ?thesis
    using p(2) unfolding split by (simp add: bit_clear_lowest [OF assms] flip: c_def)
qed

lemma popcount_clear_lowest: "w \<noteq> 0 \<Longrightarrow> popcount w = Suc (popcount (clear_lowest w))"
  by (simp add: popcount_def filter_bits_step)

text \<open>\<open>while (bits != 0) { bit = ctz(bits); bits &= bits - 1; fn(w * 64 + bit); }\<close>\<close>

function set_rows :: "nat \<Rightarrow> u64 \<Rightarrow> nat list" where
  "set_rows w bits = (if bits = 0 then [] else (w * 64 + ctz bits) # set_rows w (clear_lowest bits))"
  by pat_completeness auto
termination
  by (relation "measure (popcount \<circ> snd)") (auto simp: popcount_clear_lowest)

declare set_rows.simps [simp del]

lemma set_rows_eq: "set_rows w bits = map ((+) (w * 64)) (filter (bit bits) [0..<64])"
proof (induction w bits rule: set_rows.induct)
  case (1 w bits)
  show ?case
  proof (cases "bits = 0")
    case False
    then show ?thesis using 1 by (subst set_rows.simps) (simp add: filter_bits_step)
  qed (simp add: set_rows.simps)
qed

subsection \<open>The mask\<close>

definition kVectorBatchSize :: nat where
  "kVectorBatchSize = 1024"

definition kWordCount :: nat where
  "kWordCount = 16"

text \<open>\<open>row_count_\<close> is a \<open>uint32_t\<close> that never exceeds 1024: no operation on it wraps.\<close>

record selection_mask =
  mask_words :: "u64 list"
  mask_row_count :: nat

definition empty_mask :: selection_mask where
  "empty_mask = \<lparr>mask_words = replicate kWordCount 0, mask_row_count = 0\<rparr>"

definition used_words :: "nat \<Rightarrow> nat" where
  "used_words n = (n + 63) div 64"

definition ClearUnusedBits :: "selection_mask \<Rightarrow> selection_mask" where
  "ClearUnusedBits m =
     (if mask_row_count m = 0 then m\<lparr>mask_words := replicate kWordCount 0\<rparr>
      else
        let used = used_words (mask_row_count m);
            ws = take used (mask_words m) @ replicate (kWordCount - used) 0;
            rem = mask_row_count m mod 64
        in m\<lparr>mask_words := (if rem \<noteq> 0 \<and> used > 0
              then ws[used - 1 := (ws ! (used - 1)) AND (push_bit rem 1 - 1)] else ws)\<rparr>)"

definition SetAll :: "nat \<Rightarrow> selection_mask" where
  "SetAll n = ClearUnusedBits \<lparr>mask_words = replicate kWordCount (-1), mask_row_count = min n kVectorBatchSize\<rparr>"

definition SetNone :: "nat \<Rightarrow> selection_mask" where
  "SetNone n = \<lparr>mask_words = replicate kWordCount 0, mask_row_count = min n kVectorBatchSize\<rparr>"

text \<open>\<open>words[row >> 6] |= 1 << (row & 63)\<close>\<close>

definition set_row :: "nat \<Rightarrow> selection_mask \<Rightarrow> selection_mask" where
  "set_row row m = m\<lparr>mask_words := (mask_words m)[row div 64 := (mask_words m ! (row div 64)) OR push_bit (row mod 64) 1]\<rparr>"

definition FromSelectionVector :: "u32 list \<Rightarrow> nat \<Rightarrow> selection_mask" where
  "FromSelectionVector sel n =
     fold (\<lambda>row m. if unat row < mask_row_count m then set_row (unat row) m else m) sel (SetNone n)"

definition Mask_And :: "selection_mask \<Rightarrow> selection_mask \<Rightarrow> selection_mask" where
  "Mask_And m r = ClearUnusedBits \<lparr>mask_words = map2 (AND) (mask_words m) (mask_words r),
                                  mask_row_count = min (mask_row_count m) (mask_row_count r)\<rparr>"

definition Mask_Or :: "selection_mask \<Rightarrow> selection_mask \<Rightarrow> selection_mask" where
  "Mask_Or m r = ClearUnusedBits \<lparr>mask_words = map2 (OR) (mask_words m) (mask_words r),
                                 mask_row_count = max (mask_row_count m) (mask_row_count r)\<rparr>"

definition Mask_AndNot :: "selection_mask \<Rightarrow> selection_mask \<Rightarrow> selection_mask" where
  "Mask_AndNot m r = ClearUnusedBits \<lparr>mask_words = map2 (\<lambda>a b. a AND NOT b) (mask_words m) (mask_words r),
                                     mask_row_count = mask_row_count m\<rparr>"

definition Mask_Empty :: "selection_mask \<Rightarrow> bool" where
  "Mask_Empty m \<longleftrightarrow> list_all (\<lambda>w. w = 0) (mask_words m)"

definition IsAll :: "selection_mask \<Rightarrow> bool" where
  "IsAll m \<longleftrightarrow>
     (if mask_row_count m = 0 then True
      else
        let used = used_words (mask_row_count m);
            rem = mask_row_count m mod 64;
            last_mask = (if rem = 0 then -1 else push_bit rem 1 - 1 :: u64)
        in list_all (\<lambda>w. w = -1) (take (used - 1) (mask_words m)) \<and>
           (mask_words m ! (used - 1)) AND last_mask = last_mask)"

definition Mask_Count :: "selection_mask \<Rightarrow> nat" where
  "Mask_Count m = sum_list (map popcount (take (used_words (mask_row_count m)) (mask_words m)))"

text \<open>The rows \<open>ForEachSetBit\<close> calls its function on, in order.\<close>

definition ForEachSetBit :: "selection_mask \<Rightarrow> nat list" where
  "ForEachSetBit m = concat (map (\<lambda>w. set_rows w (mask_words m ! w)) [0..<used_words (mask_row_count m)])"

definition ToSelectionVector :: "selection_mask \<Rightarrow> nat list" where
  "ToSelectionVector m = ForEachSetBit m"

definition Mask_Test :: "selection_mask \<Rightarrow> nat \<Rightarrow> bool" where
  "Mask_Test m row \<longleftrightarrow>
     (if mask_row_count m \<le> row then False else bit (mask_words m ! (row div 64)) (row mod 64))"

subsection \<open>Bits and rows\<close>

definition row_bit :: "u64 list \<Rightarrow> nat \<Rightarrow> bool" where
  "row_bit ws i \<longleftrightarrow> bit (ws ! (i div 64)) (i mod 64)"

text \<open>The invariant of the header: no bit at or beyond \<open>row_count_\<close>.\<close>

definition mask_inv :: "selection_mask \<Rightarrow> bool" where
  "mask_inv m \<longleftrightarrow> length (mask_words m) = kWordCount \<and> mask_row_count m \<le> kVectorBatchSize \<and>
     (\<forall>i. mask_row_count m \<le> i \<longrightarrow> i < kVectorBatchSize \<longrightarrow> \<not> row_bit (mask_words m) i)"

lemmas size_defs = kWordCount_def kVectorBatchSize_def

lemma Mask_Test_row_bit: "Mask_Test m i \<longleftrightarrow> i < mask_row_count m \<and> row_bit (mask_words m) i"
  by (auto simp: Mask_Test_def row_bit_def)

lemma Mask_Test_bit:
  assumes "mask_inv m" "i < kVectorBatchSize"
  shows "Mask_Test m i \<longleftrightarrow> row_bit (mask_words m) i"
  using assms by (cases "i < mask_row_count m") (auto simp: Mask_Test_row_bit mask_inv_def)

lemma Mask_Test_less: "Mask_Test m i \<Longrightarrow> i < mask_row_count m"
  by (simp add: Mask_Test_row_bit)

lemma used_words_bounds:
  assumes "0 < n"
  shows "n \<le> used_words n * 64" "(used_words n - 1) * 64 < n" "0 < used_words n"
  using assms by (auto simp: used_words_def)

lemma used_words_le: "n \<le> kVectorBatchSize \<Longrightarrow> used_words n \<le> kWordCount"
  by (auto simp: used_words_def size_defs)

lemma row_bit_low_mask: "bit (2 ^ r - 1 :: u64) i \<longleftrightarrow> i < 64 \<and> i < r"
  by (auto simp: bit_mask_iff simp flip: mask_eq_exp_minus_1)

lemma ClearUnusedBits_length [simp]:
  "length (mask_words m) = kWordCount \<Longrightarrow> mask_row_count m \<le> kVectorBatchSize \<Longrightarrow>
   length (mask_words (ClearUnusedBits m)) = kWordCount"
  using used_words_le [of "mask_row_count m"] by (simp add: ClearUnusedBits_def Let_def)

lemma ClearUnusedBits_row_count [simp]: "mask_row_count (ClearUnusedBits m) = mask_row_count m"
  by (simp add: ClearUnusedBits_def Let_def)

lemma row_bit_ClearUnusedBits:
  assumes "length (mask_words m) = kWordCount" "mask_row_count m \<le> kVectorBatchSize" "i < kVectorBatchSize"
  shows "row_bit (mask_words (ClearUnusedBits m)) i \<longleftrightarrow> i < mask_row_count m \<and> row_bit (mask_words m) i"
proof (cases "mask_row_count m = 0")
  case True
  then show ?thesis using assms(3) by (simp add: ClearUnusedBits_def row_bit_def size_defs)
next
  case False
  define n where "n = mask_row_count m"
  define u where "u = used_words n"
  note b = used_words_bounds [of n] used_words_le [of n]
  have i16: "i div 64 < 16" using assms(3) by (simp add: size_defs)
  have u: "u \<le> 16" "0 < u" "n \<le> u * 64" "(u - 1) * 64 < n"
    using b False assms(2) by (auto simp: u_def n_def size_defs)
  define ws where "ws = take u (mask_words m) @ replicate (16 - u) 0"
  have ws: "ws ! (i div 64) = (if i div 64 < u then mask_words m ! (i div 64) else 0)"
    using assms(1) i16 u(1) by (auto simp: ws_def nth_append size_defs)
  have l: "length ws = 16" using assms(1) u(1) by (simp add: ws_def size_defs)
  have words: "mask_words (ClearUnusedBits m) =
      (if n mod 64 \<noteq> 0 then ws[u - 1 := (ws ! (u - 1)) AND (push_bit (n mod 64) 1 - 1)] else ws)"
    using False u(2) by (simp add: ClearUnusedBits_def Let_def n_def u_def ws_def size_defs)
  have im: "i = i div 64 * 64 + i mod 64" by simp
  show ?thesis
  proof (cases "n mod 64 = 0")
    case True
    then have "n = u * 64" using u by (auto simp: dvd_eq_mod_eq_0 [symmetric] elim!: dvdE)
    then have "i div 64 < u \<longleftrightarrow> i < n" by (simp add: div_less_iff_less_mult)
    then show ?thesis using words True ws by (simp add: row_bit_def n_def)
  next
    case rem: False
    have nu: "n = (u - 1) * 64 + n mod 64"
    proof -
      obtain v where v: "u = Suc v" using u(2) by (cases u) auto
      have "n \<le> 64 * v + 64" "64 * v < n" using u(3,4) v by simp_all
      moreover have "n \<noteq> 64 * v + 64" using rem by auto
      ultimately have "n div 64 = v" by (intro div_nat_eqI) simp_all
      then show ?thesis using v div_mult_mod_eq [of n 64] by simp
    qed
    have lt: "i < n \<longleftrightarrow> i div 64 < u - 1 \<or> i div 64 = u - 1 \<and> i mod 64 < n mod 64"
    proof -
      have "i < n \<longleftrightarrow> i div 64 * 64 + i mod 64 < (u - 1) * 64 + n mod 64" using im nu by metis
      moreover have "i mod 64 < 64" "n mod 64 < 64" by simp_all
      ultimately show ?thesis by linarith
    qed
    show ?thesis
    proof (cases "i div 64 = u - 1")
      case True
      then show ?thesis
        using words rem ws l lt u i16
        by (simp add: row_bit_def bit_and_iff row_bit_low_mask n_def) blast
    next
      case False
      then have "mask_words (ClearUnusedBits m) ! (i div 64) = ws ! (i div 64)"
        using words by simp
      then show ?thesis using ws lt False u by (auto simp: row_bit_def n_def)
    qed
  qed
qed

lemma ClearUnusedBits_inv:
  assumes "length (mask_words m) = kWordCount" "mask_row_count m \<le> kVectorBatchSize"
  shows "mask_inv (ClearUnusedBits m)"
  using assms row_bit_ClearUnusedBits [OF assms] by (simp add: mask_inv_def)

lemma Test_ClearUnusedBits:
  assumes "length (mask_words m) = kWordCount" "mask_row_count m \<le> kVectorBatchSize"
  shows "Mask_Test (ClearUnusedBits m) i \<longleftrightarrow> i < mask_row_count m \<and> row_bit (mask_words m) i"
  using row_bit_ClearUnusedBits [OF assms, of i] assms(2) by (auto simp: Mask_Test_row_bit)

subsection \<open>The operations on rows\<close>

lemma row_bit_map2:
  assumes "length a = kWordCount" "length b = kWordCount" "i < kVectorBatchSize"
  shows "row_bit (map2 f a b) i \<longleftrightarrow> bit (f (a ! (i div 64)) (b ! (i div 64))) (i mod 64)"
proof -
  have "i div 64 < 16" using assms(3) by (simp add: size_defs)
  then show ?thesis using assms by (simp add: row_bit_def size_defs)
qed

lemma mask_inv_length: "mask_inv m \<Longrightarrow> length (mask_words m) = kWordCount"
  and mask_inv_rows: "mask_inv m \<Longrightarrow> mask_row_count m \<le> kVectorBatchSize"
  by (simp_all add: mask_inv_def)

lemma SetNone_inv: "mask_inv (SetNone n)"
  and Test_SetNone: "\<not> Mask_Test (SetNone n) i"
  and SetNone_rows [simp]: "mask_row_count (SetNone n) = min n kVectorBatchSize"
proof -
  have "\<not> row_bit (replicate 16 0) i" if "i < 1024" for i
    using that by (simp add: row_bit_def)
  then show "mask_inv (SetNone n)" "\<not> Mask_Test (SetNone n) i"
    by (auto simp: mask_inv_def SetNone_def Mask_Test_row_bit size_defs)
qed (simp add: SetNone_def)

lemma SetAll_inv: "mask_inv (SetAll n)"
  unfolding SetAll_def by (rule ClearUnusedBits_inv) (simp_all add: size_defs)

lemma Test_SetAll: "Mask_Test (SetAll n) i \<longleftrightarrow> i < min n kVectorBatchSize"
proof -
  have "row_bit (replicate 16 (-1)) i" if "i < 1024" for i
    using that by (simp add: row_bit_def)
  then show ?thesis unfolding SetAll_def by (subst Test_ClearUnusedBits) (auto simp: size_defs)
qed

lemma SetAll_rows [simp]: "mask_row_count (SetAll n) = min n kVectorBatchSize"
  by (simp add: SetAll_def)

lemma row_bit_set_row:
  assumes "length (mask_words m) = kWordCount" "row < kVectorBatchSize" "i < kVectorBatchSize"
  shows "row_bit (mask_words (set_row row m)) i \<longleftrightarrow> i = row \<or> row_bit (mask_words m) i"
proof -
  have d: "i div 64 < 16" "row div 64 < 16" using assms(2,3) by (simp_all add: size_defs)
  have "i = row \<longleftrightarrow> i div 64 = row div 64 \<and> i mod 64 = row mod 64" by (metis div_mult_mod_eq)
  moreover have "bit (push_bit (row mod 64) 1 :: u64) (i mod 64) \<longleftrightarrow> i mod 64 = row mod 64"
    by (auto simp: bit_exp_iff)
  ultimately show ?thesis
    using d assms(1) by (auto simp: set_row_def row_bit_def size_defs nth_list_update bit_or_iff)
qed

lemma set_row_inv:
  assumes "mask_inv m" "row < mask_row_count m"
  shows "mask_inv (set_row row m)" "Mask_Test (set_row row m) i \<longleftrightarrow> i = row \<or> Mask_Test m i"
    "mask_row_count (set_row row m) = mask_row_count m"
proof -
  have r: "row < kVectorBatchSize" using assms by (simp add: mask_inv_def)
  show c: "mask_row_count (set_row row m) = mask_row_count m" by (simp add: set_row_def)
  note b = row_bit_set_row [OF mask_inv_length [OF assms(1)] r]
  show "mask_inv (set_row row m)"
    using assms b by (auto simp: mask_inv_def set_row_def)
  show "Mask_Test (set_row row m) i \<longleftrightarrow> i = row \<or> Mask_Test m i"
    using assms b [of i] mask_inv_rows [OF assms(1)] by (auto simp: Mask_Test_row_bit c)
qed

lemma fold_set_rows:
  fixes sel :: "u32 list"
  assumes "mask_inv m"
  defines "r \<equiv> fold (\<lambda>row m. if unat row < mask_row_count m then set_row (unat row) m else m) sel m"
  shows "mask_inv r \<and> mask_row_count r = mask_row_count m \<and>
    (\<forall>i. Mask_Test r i \<longleftrightarrow> Mask_Test m i \<or> i < mask_row_count m \<and> i \<in> unat ` set sel)"
  using assms(1) unfolding r_def
proof (induction sel arbitrary: m)
  case (Cons x sel)
  show ?case
  proof (cases "unat x < mask_row_count m")
    case True
    note s = set_row_inv [OF Cons.prems True]
    show ?thesis using Cons.IH [OF s(1)] True s by auto
  next
    case False
    then show ?thesis using Cons.IH [OF Cons.prems] by auto
  qed
qed simp

lemma FromSelectionVector_inv: "mask_inv (FromSelectionVector sel n)"
  and Test_FromSelectionVector: "Mask_Test (FromSelectionVector sel n) i \<longleftrightarrow>
      i < min n kVectorBatchSize \<and> i \<in> unat ` set sel"
  using fold_set_rows [OF SetNone_inv [of n], where sel = sel] by (simp_all add: FromSelectionVector_def Test_SetNone)

lemma Mask_op_inv:
  assumes "mask_inv a" "mask_inv b"
  shows Mask_And_inv: "mask_inv (Mask_And a b)"
    and Mask_Or_inv: "mask_inv (Mask_Or a b)"
    and Mask_AndNot_inv: "mask_inv (Mask_AndNot a b)"
  unfolding Mask_And_def Mask_Or_def Mask_AndNot_def
  using mask_inv_length [OF assms(1)] mask_inv_length [OF assms(2)] mask_inv_rows [OF assms(1)] mask_inv_rows [OF assms(2)]
  by (auto intro!: ClearUnusedBits_inv)

lemma Test_And:
  assumes inv: "mask_inv a" "mask_inv b"
  shows "Mask_Test (Mask_And a b) i \<longleftrightarrow> Mask_Test a i \<and> Mask_Test b i"
  using mask_inv_length [OF inv(1)] mask_inv_length [OF inv(2)] mask_inv_rows [OF inv(1)] mask_inv_rows [OF inv(2)]
  unfolding Mask_And_def
  by (subst Test_ClearUnusedBits) (auto simp: row_bit_map2 bit_and_iff Mask_Test_row_bit simp flip: row_bit_def)

lemma Test_Or:
  assumes inv: "mask_inv a" "mask_inv b"
  shows "Mask_Test (Mask_Or a b) i \<longleftrightarrow> Mask_Test a i \<or> Mask_Test b i"
proof (cases "i < kVectorBatchSize")
  case True
  then show ?thesis
    using inv Mask_Test_bit [OF inv(1) True] Mask_Test_bit [OF inv(2) True] unfolding Mask_Or_def
    by (subst Test_ClearUnusedBits)
      (auto simp: mask_inv_length mask_inv_rows row_bit_map2 bit_or_iff Mask_Test_row_bit simp flip: row_bit_def)
next
  case False
  then show ?thesis
    using mask_inv_rows [OF Mask_Or_inv [OF inv]] mask_inv_rows [OF inv(1)] mask_inv_rows [OF inv(2)]
    by (auto simp: Mask_Test_row_bit)
qed

lemma Test_AndNot:
  assumes inv: "mask_inv a" "mask_inv b"
  shows "Mask_Test (Mask_AndNot a b) i \<longleftrightarrow> Mask_Test a i \<and> \<not> Mask_Test b i"
proof (cases "i < kVectorBatchSize")
  case True
  then show ?thesis
    using inv Mask_Test_bit [OF inv(1) True] Mask_Test_bit [OF inv(2) True] unfolding Mask_AndNot_def
    by (subst Test_ClearUnusedBits)
      (auto simp: mask_inv_length mask_inv_rows row_bit_map2 bit_and_iff bit_not_iff Mask_Test_row_bit simp flip: row_bit_def)
next
  case False
  then show ?thesis
    using mask_inv_rows [OF Mask_AndNot_inv [OF inv]] mask_inv_rows [OF inv(1)] by (auto simp: Mask_Test_row_bit)
qed

subsection \<open>Enumerating the rows\<close>

text \<open>What every reader of a mask is to see.\<close>

definition mask_rows :: "selection_mask \<Rightarrow> nat list" where
  "mask_rows m = filter (Mask_Test m) [0..<mask_row_count m]"

lemma words_rows:
  "concat (map (\<lambda>w. set_rows w (ws ! w)) [0..<k]) = filter (row_bit ws) [0..<k * 64]"
proof (induction k)
  case (Suc k)
  have "[0..<Suc k * 64] = [0..<k * 64] @ map ((+) (k * 64)) [0..<64]"
    by (rule nth_equalityI) (auto simp: nth_append)
  moreover have "filter (row_bit ws) (map ((+) (k * 64)) [0..<64]) = set_rows k (ws ! k)"
  proof -
    have "row_bit ws (k * 64 + j) = bit (ws ! k) j" if "j < 64" for j
      using that by (simp add: row_bit_def)
    then have "filter (row_bit ws \<circ> (+) (k * 64)) [0..<64] = filter (bit (ws ! k)) [0..<64]"
      by (intro filter_cong) (auto simp: comp_def)
    then show ?thesis by (simp add: set_rows_eq filter_map)
  qed
  ultimately show ?case using Suc by simp
qed simp

lemma ForEachSetBit_rows:
  assumes "mask_inv m"
  shows "ForEachSetBit m = mask_rows m"
proof -
  define n where "n = mask_row_count m"
  have n: "n \<le> used_words n * 64" by (auto simp: used_words_def)
  have k: "used_words n * 64 \<le> kVectorBatchSize"
    using used_words_le [of n] mask_inv_rows [OF assms] by (simp add: n_def size_defs)
  have "ForEachSetBit m = filter (row_bit (mask_words m)) [0..<used_words n * 64]"
    by (simp add: ForEachSetBit_def words_rows n_def)
  also have "\<dots> = filter (row_bit (mask_words m)) [0..<n] @ filter (row_bit (mask_words m)) [n..<used_words n * 64]"
    using n by (rule filter_upt_split)
  also have "filter (row_bit (mask_words m)) [n..<used_words n * 64] = []"
    using assms k by (auto simp: filter_empty_conv mask_inv_def n_def)
  also have "filter (row_bit (mask_words m)) [0..<n] = mask_rows m"
    unfolding mask_rows_def n_def by (rule filter_cong) (auto simp: Mask_Test_row_bit)
  finally show ?thesis by simp
qed

lemma popcount_set_rows: "popcount w = length (set_rows k w)"
  by (simp add: popcount_def set_rows_eq)

lemma Mask_Count_length:
  assumes "mask_inv m"
  shows "Mask_Count m = length (ForEachSetBit m)"
proof -
  have u: "used_words (mask_row_count m) \<le> length (mask_words m)"
    using used_words_le [OF mask_inv_rows [OF assms]] mask_inv_length [OF assms] by simp
  have "map popcount (take k ws) = map (\<lambda>w. length (set_rows w (ws ! w))) [0..<k]" if "k \<le> length ws" for k ws
    using that by (intro nth_equalityI) (simp_all add: popcount_set_rows [symmetric])
  then show ?thesis
    using u by (simp add: Mask_Count_def ForEachSetBit_def length_concat comp_def)
qed

lemma mask_rows_set: "set (mask_rows m) = {i. Mask_Test m i}"
  by (auto simp: mask_rows_def dest: Mask_Test_less)

lemma mask_rows_sorted: "sorted (mask_rows m)" "distinct (mask_rows m)"
  by (simp_all add: mask_rows_def sorted_wrt_filter)

lemma Mask_Empty_iff:
  assumes "mask_inv m"
  shows "Mask_Empty m \<longleftrightarrow> (\<forall>i. \<not> Mask_Test m i)"
proof
  assume e: "Mask_Empty m"
  show "\<forall>i. \<not> Mask_Test m i"
  proof
    fix i
    have "mask_words m ! (i div 64) = 0" if "i < mask_row_count m"
    proof -
      have "i div 64 < length (mask_words m)"
        using that mask_inv_rows [OF assms] mask_inv_length [OF assms] by (simp add: size_defs)
      then show ?thesis using e by (simp add: Mask_Empty_def list_all_length)
    qed
    then show "\<not> Mask_Test m i" by (auto simp: Mask_Test_row_bit row_bit_def)
  qed
next
  assume none: "\<forall>i. \<not> Mask_Test m i"
  have "mask_words m ! w = 0" if "w < length (mask_words m)" for w
  proof (rule bit_word_eqI)
    fix j :: nat
    assume j: "j < LENGTH(64)"
    have "w * 64 + j < kVectorBatchSize" using that j mask_inv_length [OF assms] by (simp add: size_defs)
    then have "\<not> row_bit (mask_words m) (w * 64 + j)" using none Mask_Test_bit [OF assms] by simp
    then show "bit (mask_words m ! w) j = bit 0 j" using j by (simp add: row_bit_def)
  qed
  then show "Mask_Empty m" by (simp add: Mask_Empty_def list_all_length)
qed

lemma all_ones_iff: "w = (-1 :: u64) \<longleftrightarrow> (\<forall>j<64. bit w j)"
  by (auto intro!: bit_word_eqI)

lemma and_absorb_iff: "w AND v = (v :: u64) \<longleftrightarrow> (\<forall>j<64. bit v j \<longrightarrow> bit w j)"
proof
  assume "w AND v = v"
  then show "\<forall>j<64. bit v j \<longrightarrow> bit w j" by (metis bit_and_iff)
qed (rule bit_word_eqI, auto simp: bit_and_iff)

lemma IsAll_iff:
  assumes "mask_inv m"
  shows "IsAll m \<longleftrightarrow> (\<forall>i<mask_row_count m. Mask_Test m i)"
proof (cases "mask_row_count m = 0")
  case False
  define n where "n = mask_row_count m"
  define u where "u = used_words n"
  define r where "r = (if n mod 64 = 0 then 64 else n mod 64)"
  have r: "0 < r" "r \<le> 64" by (auto simp: r_def)
  have ub: "0 < u" "u \<le> 16" "n \<le> u * 64" "(u - 1) * 64 < n"
    using used_words_bounds [of n] used_words_le [of n] False mask_inv_rows [OF assms]
    by (auto simp: u_def n_def size_defs)
  have nr: "n = (u - 1) * 64 + r"
  proof -
    obtain v where v: "u = Suc v" using ub(1) by (cases u) auto
    show ?thesis
    proof (cases "n mod 64 = 0")
      case True
      then obtain q where q: "n = 64 * q" by auto
      then have "q = Suc v" using ub v by simp
      then show ?thesis using q v True by (simp add: r_def)
    next
      case rem: False
      have "n \<noteq> 64 * v + 64" using rem by auto
      then have "n div 64 = v" using ub v by (intro div_nat_eqI) simp_all
      then show ?thesis using v rem div_mult_mod_eq [of n 64] by (simp add: r_def)
    qed
  qed
  have len: "length (mask_words m) = 16" using mask_inv_length [OF assms] by (simp add: size_defs)
  define lm where "lm = (if n mod 64 = 0 then -1 else push_bit (n mod 64) 1 - 1 :: u64)"
  have lm: "bit lm j \<longleftrightarrow> j < r" if "j < 64" for j
    using that by (auto simp: lm_def r_def row_bit_low_mask)
  have last: "(mask_words m ! (u - 1)) AND lm = lm \<longleftrightarrow> (\<forall>j<r. bit (mask_words m ! (u - 1)) j)"
    using lm r by (auto simp: and_absorb_iff)
  have full: "list_all (\<lambda>w. w = -1) (take (u - 1) (mask_words m)) \<longleftrightarrow> (\<forall>w<u - 1. \<forall>j<64. bit (mask_words m ! w) j)"
    using len ub(2) by (auto simp: list_all_length all_ones_iff)
  have "(\<forall>i<n. row_bit (mask_words m) i) \<longleftrightarrow>
      (\<forall>w<u - 1. \<forall>j<64. bit (mask_words m ! w) j) \<and> (\<forall>j<r. bit (mask_words m ! (u - 1)) j)" (is "?all \<longleftrightarrow> ?w \<and> ?l")
  proof
    assume ?all
    have "bit (mask_words m ! w) j" if "w < u - 1" "j < 64" for w j
    proof -
      have "w * 64 + j < n" using that nr by simp
      with \<open>?all\<close> have "row_bit (mask_words m) (w * 64 + j)" by blast
      then show ?thesis using that by (simp add: row_bit_def)
    qed
    moreover have "bit (mask_words m ! (u - 1)) j" if "j < r" for j
    proof -
      have "row_bit (mask_words m) ((u - 1) * 64 + j)" using \<open>?all\<close> that nr by simp
      then show ?thesis using that r by (simp add: row_bit_def)
    qed
    ultimately show "?w \<and> ?l" by blast
  next
    assume wl: "?w \<and> ?l"
    show ?all
    proof (intro allI impI)
      fix i
      assume i: "i < n"
      show "row_bit (mask_words m) i"
      proof (cases "i div 64 < u - 1")
        case True
        then show ?thesis using wl by (simp add: row_bit_def)
      next
        case False
        have "i < (u - 1) * 64 + r" using i nr by simp
        then have "i div 64 = u - 1" "i mod 64 < r"
          using False r div_mult_mod_eq [of i 64] by linarith+
        then show ?thesis using wl by (simp add: row_bit_def)
      qed
    qed
  qed
  moreover have "IsAll m \<longleftrightarrow> list_all (\<lambda>w. w = -1) (take (u - 1) (mask_words m)) \<and> (mask_words m ! (u - 1)) AND lm = lm"
    using False by (simp add: IsAll_def Let_def n_def u_def lm_def)
  ultimately show ?thesis using last full by (auto simp: Mask_Test_row_bit n_def)
qed (simp add: IsAll_def)

subsection \<open>The cursor\<close>

record selection_cursor =
  cur_next_word :: nat
  cur_remaining_word :: nat
  cur_remaining_bits :: u64

definition MakeCursor :: selection_cursor where
  "MakeCursor = \<lparr>cur_next_word = 0, cur_remaining_word = 0, cur_remaining_bits = 0\<rparr>"

text \<open>The loop of \<open>EnsureBits\<close>: the next word that is not zero.\<close>

function find_word :: "selection_mask \<Rightarrow> selection_cursor \<Rightarrow> bool \<times> selection_cursor" where
  "find_word m c =
     (if cur_next_word c < used_words (mask_row_count m) then
        let bits = mask_words m ! cur_next_word c;
            c1 = c\<lparr>cur_next_word := Suc (cur_next_word c)\<rparr>
        in if bits \<noteq> 0 then (True, c1\<lparr>cur_remaining_bits := bits, cur_remaining_word := cur_next_word c1 - 1\<rparr>)
           else find_word m c1
      else (False, c))"
  by pat_completeness auto
termination
  by (relation "measure (\<lambda>(m, c). used_words (mask_row_count m) - cur_next_word c)") auto

declare find_word.simps [simp del]

definition EnsureBits :: "selection_mask \<Rightarrow> selection_cursor \<Rightarrow> bool \<times> selection_cursor" where
  "EnsureBits m c = (if cur_remaining_bits c \<noteq> 0 then (True, c) else find_word m c)"

definition take_bit_row :: "selection_cursor \<Rightarrow> nat \<times> selection_cursor" where
  "take_bit_row c =
     (cur_remaining_word c * 64 + ctz (cur_remaining_bits c),
      c\<lparr>cur_remaining_bits := clear_lowest (cur_remaining_bits c)\<rparr>)"

definition Cursor_Next :: "selection_mask \<Rightarrow> selection_cursor \<Rightarrow> nat option \<times> selection_cursor" where
  "Cursor_Next m c =
     (case EnsureBits m c of
        (False, c1) \<Rightarrow> (None, c1)
      | (True, c1) \<Rightarrow> (case take_bit_row c1 of (row, c2) \<Rightarrow> (Some row, c2)))"

text \<open>\<open>while (emitted < capacity && EnsureBits())\<close>, with what is left of the capacity.\<close>

fun NextBlock :: "selection_mask \<Rightarrow> nat \<Rightarrow> selection_cursor \<Rightarrow> nat list \<times> selection_cursor" where
  "NextBlock m 0 c = ([], c)"
| "NextBlock m (Suc capacity) c =
     (case EnsureBits m c of
        (False, c1) \<Rightarrow> ([], c1)
      | (True, c1) \<Rightarrow>
          (case take_bit_row c1 of (row, c2) \<Rightarrow>
             (case NextBlock m capacity c2 of (rows, c3) \<Rightarrow> (row # rows, c3))))"

text \<open>The rows a cursor has still to deliver.\<close>

definition cursor_rest :: "selection_mask \<Rightarrow> selection_cursor \<Rightarrow> nat list" where
  "cursor_rest m c = set_rows (cur_remaining_word c) (cur_remaining_bits c) @
     concat (map (\<lambda>w. set_rows w (mask_words m ! w)) [cur_next_word c..<used_words (mask_row_count m)])"

lemma set_rows_zero [simp]: "set_rows w 0 = []"
  by (simp add: set_rows.simps)

lemma find_word_rest:
  "cur_remaining_bits c = 0 \<Longrightarrow> find_word m c = (found, c') \<Longrightarrow>
   cursor_rest m c' = cursor_rest m c \<and> (if found then cur_remaining_bits c' \<noteq> 0 else cursor_rest m c = [])"
proof (induction m c rule: find_word.induct)
  case (1 m c)
  show ?case
  proof (cases "cur_next_word c < used_words (mask_row_count m)")
    case True
    let ?c1 = "c\<lparr>cur_next_word := Suc (cur_next_word c)\<rparr>"
    have upt: "[cur_next_word c..<used_words (mask_row_count m)] =
        cur_next_word c # [Suc (cur_next_word c)..<used_words (mask_row_count m)]"
      using True by (rule upt_conv_Cons)
    show ?thesis
    proof (cases "mask_words m ! cur_next_word c = 0")
      case zero: True
      then have "find_word m ?c1 = (found, c')" using "1.prems" True by (subst (asm) find_word.simps) simp
      moreover have "cursor_rest m ?c1 = cursor_rest m c" using zero by (simp add: cursor_rest_def upt)
      ultimately show ?thesis using "1.IH" [OF True refl refl] zero "1.prems"(1) by (cases found) simp_all
    next
      case False
      then show ?thesis
        using "1.prems" True by (subst (asm) find_word.simps) (auto simp: cursor_rest_def upt)
    qed
  next
    case False
    then show ?thesis using "1.prems" by (subst (asm) find_word.simps) (simp add: cursor_rest_def)
  qed
qed

lemma EnsureBits_rest:
  assumes "EnsureBits m c = (found, c')"
  shows "cursor_rest m c' = cursor_rest m c" "found \<Longrightarrow> cur_remaining_bits c' \<noteq> 0"
    "\<not> found \<Longrightarrow> cursor_rest m c = []"
  using assms find_word_rest [of c m found c'] by (auto simp: EnsureBits_def split: if_splits)

lemma take_bit_row_rest:
  "cur_remaining_bits c \<noteq> 0 \<Longrightarrow> take_bit_row c = (row, c') \<Longrightarrow> cursor_rest m c = row # cursor_rest m c'"
  by (auto simp: take_bit_row_def cursor_rest_def set_rows.simps [of _ "cur_remaining_bits c"])

lemma NextBlock_rest:
  "NextBlock m capacity c = (rows, c') \<Longrightarrow>
   rows = take capacity (cursor_rest m c) \<and> cursor_rest m c' = drop capacity (cursor_rest m c)"
proof (induction m capacity c arbitrary: rows c' rule: NextBlock.induct)
  case (2 m capacity c)
  obtain found c1 where e: "EnsureBits m c = (found, c1)" by (cases "EnsureBits m c")
  show ?case
  proof (cases found)
    case True
    obtain row c2 where t: "take_bit_row c1 = (row, c2)" by (cases "take_bit_row c1")
    obtain rows' where n: "NextBlock m capacity c2 = (rows', c')" "rows = row # rows'"
      using "2.prems" e True t by (auto split: prod.splits)
    have "cursor_rest m c = row # cursor_rest m c2"
      using take_bit_row_rest [OF _ t, of m] EnsureBits_rest [OF e] True by simp
    then show ?thesis using "2.IH" [OF e [symmetric] _ t [symmetric] n(1)] True n(2) by simp
  next
    case False
    then show ?thesis using "2.prems" e EnsureBits_rest [OF e] by simp
  qed
qed simp

lemma cursor_rest_start: "cursor_rest m MakeCursor = ForEachSetBit m"
  by (simp add: cursor_rest_def MakeCursor_def ForEachSetBit_def)

text \<open>A consumer that reads blocks of \<open>capacity\<close> rows until one is empty.\<close>

function drain :: "selection_mask \<Rightarrow> nat \<Rightarrow> selection_cursor \<Rightarrow> nat list" where
  "drain m capacity c =
     (case NextBlock m capacity c of (rows, c') \<Rightarrow> if rows = [] then [] else rows @ drain m capacity c')"
  by pat_completeness auto
termination
proof (relation "measure (\<lambda>(m, capacity, c). length (cursor_rest m c))", goal_cases)
  case (2 m capacity c rows c')
  then have "NextBlock m capacity c = (rows, c')" "rows \<noteq> []" by simp_all
  then show ?case using NextBlock_rest [of m capacity c rows c'] by auto
qed simp

declare drain.simps [simp del]

lemma drain_rest: "0 < capacity \<Longrightarrow> drain m capacity c = cursor_rest m c"
proof (induction m capacity c rule: drain.induct)
  case (1 m capacity c)
  obtain rows c' where n: "NextBlock m capacity c = (rows, c')" by (cases "NextBlock m capacity c")
  note r = NextBlock_rest [OF n]
  show ?case
  proof (cases "rows = []")
    case True
    then show ?thesis using n r "1.prems" by (subst drain.simps) auto
  next
    case False
    then have "drain m capacity c' = cursor_rest m c'" using "1.IH" [OF n [symmetric]] "1.prems" by simp
    then show ?thesis using n r False by (subst drain.simps) simp
  qed
qed

subsection \<open>The kernels that read and write masks\<close>

text \<open>\<open>GatherScalar\<close>: the selected elements, in row order.\<close>

definition GatherScalar :: "'a list \<Rightarrow> selection_mask \<Rightarrow> 'a list" where
  "GatherScalar src m = map (\<lambda>row. src ! row) (ForEachSetBit m)"

text \<open>\<open>CompareConstScalar\<close> and \<open>CompareColumnScalar\<close>: \<open>test i\<close> is the comparison of row \<open>i\<close>.\<close>

definition compare_loop :: "(nat \<Rightarrow> bool) \<Rightarrow> nat \<Rightarrow> selection_mask" where
  "compare_loop test count = fold (\<lambda>i m. if test i then set_row i m else m) [0..<count] (SetNone count)"

lemma compare_loop_step:
  assumes "mask_inv m" "\<forall>i\<in>set is. i < mask_row_count m"
  shows "mask_inv (fold (\<lambda>i m. if test i then set_row i m else m) is m) \<and>
    mask_row_count (fold (\<lambda>i m. if test i then set_row i m else m) is m) = mask_row_count m \<and>
    (\<forall>i. Mask_Test (fold (\<lambda>i m. if test i then set_row i m else m) is m) i \<longleftrightarrow>
       Mask_Test m i \<or> i \<in> set is \<and> test i)"
  using assms
proof (induction "is" arbitrary: m)
  case (Cons x xs)
  show ?case
  proof (cases "test x")
    case True
    note s = set_row_inv [OF Cons.prems(1), of x]
    show ?thesis using Cons.IH [of "set_row x m"] Cons.prems True s by auto
  next
    case False
    then show ?thesis using Cons.IH [of m] Cons.prems by auto
  qed
qed simp

lemma compare_loop_inv: "count \<le> kVectorBatchSize \<Longrightarrow> mask_inv (compare_loop test count)"
  and compare_loop_Test: "count \<le> kVectorBatchSize \<Longrightarrow> Mask_Test (compare_loop test count) i \<longleftrightarrow> i < count \<and> test i"
  and compare_loop_rows: "count \<le> kVectorBatchSize \<Longrightarrow> mask_row_count (compare_loop test count) = count"
  using compare_loop_step [OF SetNone_inv, of "[0..<count]" count test]
  by (simp_all add: compare_loop_def Test_SetNone)

subsection \<open>The contract of a row selection\<close>

text \<open>What the row filters need of a selection: a set of rows with intersection and union.\<close>

locale row_selection =
  fixes inv :: "'m \<Rightarrow> bool"
    and size_of :: "'m \<Rightarrow> nat"
    and test :: "'m \<Rightarrow> nat \<Rightarrow> bool"
    and all :: "nat \<Rightarrow> 'm"
    and conj_op :: "'m \<Rightarrow> 'm \<Rightarrow> 'm"
    and disj_op :: "'m \<Rightarrow> 'm \<Rightarrow> 'm"
    and capacity :: nat
  assumes all_inv: "inv (all n)"
    and conj_inv: "inv a \<Longrightarrow> inv b \<Longrightarrow> inv (conj_op a b)"
    and disj_inv: "inv a \<Longrightarrow> inv b \<Longrightarrow> inv (disj_op a b)"
    and all_test: "n \<le> capacity \<Longrightarrow> test (all n) i \<longleftrightarrow> i < n"
    and conj_test: "inv a \<Longrightarrow> inv b \<Longrightarrow> test (conj_op a b) i \<longleftrightarrow> test a i \<and> test b i"
    and disj_test: "inv a \<Longrightarrow> inv b \<Longrightarrow> test (disj_op a b) i \<longleftrightarrow> test a i \<or> test b i"
    and conj_size: "size_of (conj_op a b) = min (size_of a) (size_of b)"
begin

lemma fold_conj_inv: "inv m \<Longrightarrow> (\<And>x. x \<in> set ms \<Longrightarrow> inv x) \<Longrightarrow> inv (fold (\<lambda>x m. conj_op m x) ms m)"
  by (induction ms arbitrary: m) (simp_all add: conj_inv)

lemma fold_conj_test:
  "inv m \<Longrightarrow> (\<And>x. x \<in> set ms \<Longrightarrow> inv x) \<Longrightarrow>
   test (fold (\<lambda>x m. conj_op m x) ms m) i \<longleftrightarrow> test m i \<and> (\<forall>x\<in>set ms. test x i)"
  by (induction ms arbitrary: m) (auto simp: conj_inv conj_test)

lemma fold_conj_size:
  "(\<And>x. x \<in> set ms \<Longrightarrow> size_of x = size_of m) \<Longrightarrow> size_of (fold (\<lambda>x m. conj_op m x) ms m) = size_of m"
  by (induction ms arbitrary: m) (simp_all add: conj_size)

end

interpretation bitmap: row_selection mask_inv mask_row_count Mask_Test SetAll Mask_And Mask_Or kVectorBatchSize
proof
  fix n i
  assume "n \<le> kVectorBatchSize"
  then show "Mask_Test (SetAll n) i \<longleftrightarrow> i < n" by (simp add: Test_SetAll)
qed (simp_all add: SetAll_inv Mask_And_inv Mask_Or_inv Test_And Test_Or, simp add: Mask_And_def)

subsection \<open>Masks as sets of rows\<close>

lemma mask_eqI:
  assumes "mask_inv a" "mask_inv b" "mask_row_count a = mask_row_count b" "\<And>i. Mask_Test a i = Mask_Test b i"
  shows "a = b"
proof -
  have "mask_words a ! w = mask_words b ! w" if "w < 16" for w
  proof (rule bit_word_eqI)
    fix j :: nat
    assume j: "j < LENGTH(64)"
    have "w * 64 + j < kVectorBatchSize" using that j by (simp add: size_defs)
    then have "row_bit (mask_words a) (w * 64 + j) = row_bit (mask_words b) (w * 64 + j)"
      using assms Mask_Test_bit by blast
    then show "bit (mask_words a ! w) j = bit (mask_words b ! w) j" using j by (simp add: row_bit_def)
  qed
  then have "mask_words a = mask_words b"
    using assms(1,2) by (intro nth_equalityI) (simp_all add: mask_inv_length size_defs)
  with assms(3) show ?thesis by simp
qed

text \<open>C5: On masks of the same row count, as every caller has them, the bitmap operations are the set operations on rows: each
  keeps the row count and the invariant (no bit beyond it), AND is intersection, OR is union, AND NOT is difference, and the
  emptiness and fullness tests mean what they say.\<close>

theorem selection_mask_refines_sets:
  assumes "mask_inv a" "mask_inv b" "mask_row_count b = mask_row_count a"
  shows "mask_inv (Mask_And a b) \<and> mask_inv (Mask_Or a b) \<and> mask_inv (Mask_AndNot a b) \<and>
    mask_row_count (Mask_And a b) = mask_row_count a \<and> mask_row_count (Mask_Or a b) = mask_row_count a \<and>
    mask_row_count (Mask_AndNot a b) = mask_row_count a \<and>
    {i. Mask_Test (Mask_And a b) i} = {i. Mask_Test a i} \<inter> {i. Mask_Test b i} \<and>
    {i. Mask_Test (Mask_Or a b) i} = {i. Mask_Test a i} \<union> {i. Mask_Test b i} \<and>
    {i. Mask_Test (Mask_AndNot a b) i} = {i. Mask_Test a i} - {i. Mask_Test b i} \<and>
    (Mask_Empty a \<longleftrightarrow> {i. Mask_Test a i} = {}) \<and>
    (IsAll a \<longleftrightarrow> {i. Mask_Test a i} = {..<mask_row_count a})"
  using assms(3) Mask_op_inv [OF assms(1,2)] Test_And [OF assms(1,2)] Test_Or [OF assms(1,2)] Test_AndNot [OF assms(1,2)]
    Mask_Empty_iff [OF assms(1)] IsAll_iff [OF assms(1)]
  by (auto simp: Mask_And_def Mask_Or_def Mask_AndNot_def dest: Mask_Test_less)

text \<open>Reading a mask: \<open>ToSelectionVector\<close> lists the selected rows in increasing order without
  repetition, \<open>Count\<close> is their number, and a mask rebuilt from that vector is the same mask.\<close>

theorem ToSelectionVector_correct:
  assumes "mask_inv m"
  shows "set (ToSelectionVector m) = {i. Mask_Test m i} \<and> sorted (ToSelectionVector m) \<and>
    distinct (ToSelectionVector m) \<and> Mask_Count m = card {i. Mask_Test m i} \<and>
    FromSelectionVector (map u32_of (ToSelectionVector m)) (mask_row_count m) = m"
proof -
  have v: "ToSelectionVector m = mask_rows m" by (simp add: ToSelectionVector_def ForEachSetBit_rows [OF assms])
  have "Mask_Count m = length (mask_rows m)" using assms by (simp add: Mask_Count_length ForEachSetBit_rows)
  then have count: "Mask_Count m = card {i. Mask_Test m i}"
    using distinct_card [OF mask_rows_sorted(2)] by (simp add: mask_rows_set)
  have "FromSelectionVector (map u32_of (mask_rows m)) (mask_row_count m) = m"
  proof (rule mask_eqI)
    have r: "mask_row_count m \<le> kVectorBatchSize" using assms by (rule mask_inv_rows)
    have "unat (u32_of i) = i" if "Mask_Test m i" for i
      using that r by (intro unat_u32_of) (auto dest!: Mask_Test_less simp: size_defs)
    then have "unat ` u32_of ` {i. Mask_Test m i} = {i. Mask_Test m i}" by (auto simp: image_iff)
    then show "Mask_Test (FromSelectionVector (map u32_of (mask_rows m)) (mask_row_count m)) i = Mask_Test m i" for i
      using r by (auto simp: Test_FromSelectionVector mask_rows_set dest: Mask_Test_less)
    show "mask_row_count (FromSelectionVector (map u32_of (mask_rows m)) (mask_row_count m)) = mask_row_count m"
      using r fold_set_rows [OF SetNone_inv [of "mask_row_count m"], of "map u32_of (mask_rows m)"]
      by (simp add: FromSelectionVector_def)
  qed (use assms in \<open>simp_all add: FromSelectionVector_inv\<close>)
  then show ?thesis using v count by (simp add: mask_rows_set mask_rows_sorted)
qed

text \<open>A cursor read in blocks of any positive capacity delivers exactly the selected rows, in
  order, and ends: what \<open>ToSelectionVector\<close> would give, without the vector.\<close>

theorem cursor_blocks_deliver_rows:
  assumes "0 < capacity"
  shows "drain m capacity MakeCursor = ToSelectionVector m"
  using assms by (simp add: drain_rest cursor_rest_start ToSelectionVector_def)

text \<open>Filtering a batch: comparing every row and gathering by the resulting mask keeps the
  elements whose row passes the comparison, in order.\<close>

theorem gather_after_compare:
  assumes "length src \<le> kVectorBatchSize"
  shows "GatherScalar src (compare_loop test (length src)) = map ((!) src) (filter test [0..<length src])"
proof -
  let ?m = "compare_loop test (length src)"
  have "mask_rows ?m = filter test [0..<length src]"
    unfolding mask_rows_def using assms
    by (intro filter_cong) (simp_all add: compare_loop_rows compare_loop_Test)
  then show ?thesis using compare_loop_inv [OF assms] by (simp add: GatherScalar_def ForEachSetBit_rows)
qed

end
