(* ===== verification/Vector.thy ===== *)
theory Vector
  imports Types Selection_Mask
begin

text \<open>
  \<^verbatim>\<open>src/src/execution/vector/vector.{h,cpp}\<close> and \<^verbatim>\<open>gather_utils.h\<close>: the batches the operators
  pass on.  A column is its bytes, \<open>count\<close> elements of the type's width; a view and an owned buffer differ in who
  frees the memory, which is a flag here, not in what is read.
\<close>

subsection \<open>Columns\<close>

record column_data =
  cd_type :: data_type
  cd_buffer :: bytes
  cd_count :: nat
  cd_is_view :: bool

text \<open>The bytes of element \<open>i\<close> of an array of elements of \<open>k\<close> bytes.\<close>

definition cell :: "nat \<Rightarrow> bytes \<Rightarrow> nat \<Rightarrow> bytes" where
  "cell k bs i = take k (drop (i * k) bs)"

definition cells :: "nat \<Rightarrow> nat \<Rightarrow> bytes \<Rightarrow> bytes list" where
  "cells k n bs = map (cell k bs) [0..<n]"

definition empty_column :: "data_type \<Rightarrow> column_data" where
  "empty_column ty = \<lparr>cd_type = ty, cd_buffer = [], cd_count = 0, cd_is_view = True\<rparr>"

definition Column_CopyFrom :: "bytes \<Rightarrow> nat \<Rightarrow> bool \<Rightarrow> column_data \<Rightarrow> column_data" where
  "Column_CopyFrom src n view c =
     c\<lparr>cd_buffer := take (TypeElemSize (cd_type c) * n) src, cd_count := n, cd_is_view := view\<rparr>"

definition Column_Materialize :: "column_data \<Rightarrow> column_data" where
  "Column_Materialize c =
     (if \<not> cd_is_view c then c
      else c\<lparr>cd_buffer := take (TypeElemSize (cd_type c) * cd_count c) (cd_buffer c), cd_is_view := False\<rparr>)"

definition Column_ReplaceWith :: "bytes \<Rightarrow> nat \<Rightarrow> column_data \<Rightarrow> column_data" where
  "Column_ReplaceWith buf n c = c\<lparr>cd_buffer := buf, cd_count := n, cd_is_view := False\<rparr>"

definition Column_Reset :: "column_data \<Rightarrow> column_data" where
  "Column_Reset c = c\<lparr>cd_buffer := [], cd_count := 0, cd_is_view := True\<rparr>"

text \<open>\<open>GatherColumnDense\<close>: one kernel per type; each copies the selected elements in row order.\<close>

definition GatherColumnDense :: "column_data \<Rightarrow> selection_mask \<Rightarrow> bytes result" where
  "GatherColumnDense src sel =
     (if cd_type src = DT_INVALID
      then Inl (Runtime_error ''GatherColumnDense: unsupported column type'')
      else Inr (concat (GatherScalar (cells (TypeElemSize (cd_type src)) (cd_count src) (cd_buffer src)) sel)))"

subsection \<open>Batches\<close>

record vector_batch =
  vb_columns :: "column_data list"
  vb_size :: nat
  vb_selection :: selection_mask

definition empty_batch :: vector_batch where
  "empty_batch = \<lparr>vb_columns = [], vb_size = 0, vb_selection = empty_mask\<rparr>"

definition PhysicalSize :: "vector_batch \<Rightarrow> nat" where
  "PhysicalSize b =
     (if mask_row_count (vb_selection b) \<noteq> 0 \<or> vb_columns b = [] then mask_row_count (vb_selection b)
      else cd_count (hd (vb_columns b)))"

definition IsDense :: "vector_batch \<Rightarrow> bool" where
  "IsDense b = IsAll (vb_selection b)"

definition SetIdentitySelection :: "nat \<Rightarrow> vector_batch \<Rightarrow> vector_batch" where
  "SetIdentitySelection n b = b\<lparr>vb_selection := SetAll n, vb_size := n\<rparr>"

definition SetSelection :: "selection_mask \<Rightarrow> vector_batch \<Rightarrow> vector_batch" where
  "SetSelection m b = b\<lparr>vb_selection := m, vb_size := Mask_Count m\<rparr>"

definition CopySelectionFrom :: "vector_batch \<Rightarrow> vector_batch \<Rightarrow> vector_batch" where
  "CopySelectionFrom src b = b\<lparr>vb_selection := vb_selection src, vb_size := vb_size src\<rparr>"

definition AddColumn :: "data_type \<Rightarrow> vector_batch \<Rightarrow> vector_batch" where
  "AddColumn ty b = b\<lparr>vb_columns := vb_columns b @ [empty_column ty]\<rparr>"

definition Batch_Reset :: "vector_batch \<Rightarrow> vector_batch" where
  "Batch_Reset b = b\<lparr>vb_columns := [], vb_selection := SetNone 0, vb_size := 0\<rparr>"

definition compact_column :: "selection_mask \<Rightarrow> nat \<Rightarrow> column_data \<Rightarrow> column_data result" where
  "compact_column sel n c = bind_r (GatherColumnDense c sel) (\<lambda>bs.
     Inr \<lparr>cd_type = cd_type c, cd_buffer = bs, cd_count = n, cd_is_view = False\<rparr>)"

definition CompactBySelection :: "vector_batch \<Rightarrow> vector_batch result" where
  "CompactBySelection b =
     (if IsDense b then Inr b
      else if vb_size b = 0
        then Inr \<lparr>vb_columns = map Column_Reset (vb_columns b), vb_size = 0, vb_selection = SetNone 0\<rparr>
      else bind_r (map_r (compact_column (vb_selection b) (vb_size b)) (vb_columns b)) (\<lambda>cols.
        Inr \<lparr>vb_columns = cols, vb_size = vb_size b, vb_selection = SetAll (vb_size b)\<rparr>))"

subsection \<open>The batch invariant\<close>

text \<open>
  The header: \<open>selection.row_count()\<close> is the physical row count, every column has that many
  elements, and \<open>size\<close> is the number of selected rows.
\<close>

definition column_ok :: "nat \<Rightarrow> column_data \<Rightarrow> bool" where
  "column_ok n c \<longleftrightarrow> cd_count c = n \<and> length (cd_buffer c) = n * TypeElemSize (cd_type c)"

definition batch_ok :: "vector_batch \<Rightarrow> bool" where
  "batch_ok b \<longleftrightarrow> mask_inv (vb_selection b) \<and> vb_size b = Mask_Count (vb_selection b) \<and>
     list_all (column_ok (mask_row_count (vb_selection b))) (vb_columns b)"

text \<open>The active rows, each the list of its cells.\<close>

definition column_cells :: "column_data \<Rightarrow> bytes list" where
  "column_cells c = cells (TypeElemSize (cd_type c)) (cd_count c) (cd_buffer c)"

definition active_rows :: "vector_batch \<Rightarrow> bytes list list" where
  "active_rows b = map (\<lambda>i. map (\<lambda>c. column_cells c ! i) (vb_columns b)) (mask_rows (vb_selection b))"

lemma cells_length [simp]: "length (cells k n bs) = n"
  by (simp add: cells_def)

lemma cells_nth [simp]: "i < n \<Longrightarrow> cells k n bs ! i = cell k bs i"
  by (simp add: cells_def)

lemma cell_length: "length bs = n * k \<Longrightarrow> i < n \<Longrightarrow> length (cell k bs i) = k"
proof -
  assume "length bs = n * k" "i < n"
  then have "Suc i * k \<le> length bs" by (metis Suc_leI mult_le_mono1)
  then show ?thesis by (simp add: cell_def)
qed

lemma cells_concat: "\<forall>x\<in>set xs. length x = k \<Longrightarrow> cells k (length xs) (concat xs) = xs"
proof (induction xs)
  case (Cons x xs)
  have "cell k (x @ concat xs) (Suc i) = cell k (concat xs) i" for i
    using Cons.prems by (simp add: cell_def)
  moreover have "cell k (x @ concat xs) 0 = x" using Cons.prems by (simp add: cell_def)
  ultimately have "cells k (Suc (length xs)) (x @ concat xs) = x # cells k (length xs) (concat xs)"
    by (simp add: cells_def upt_rec [of 0] map_Suc_upt [symmetric] del: upt_Suc)
  then show ?case using Cons by simp
qed (simp add: cells_def)

lemma concat_equal_length: "\<forall>x\<in>set xs. length x = k \<Longrightarrow> length (concat xs) = length xs * k"
  by (induction xs) auto

lemma SetAll_rows_list: "n \<le> kVectorBatchSize \<Longrightarrow> mask_rows (SetAll n) = [0..<n]"
  by (simp add: mask_rows_def Test_SetAll filter_True)

lemma Mask_Count_SetAll: "n \<le> kVectorBatchSize \<Longrightarrow> Mask_Count (SetAll n) = n"
  by (simp add: Mask_Count_length [OF SetAll_inv] ForEachSetBit_rows [OF SetAll_inv] SetAll_rows_list)

lemma compact_column_cells:
  assumes "column_ok n c" "mask_inv m" "mask_row_count m = n" "compact_column m (Mask_Count m) c = Inr c'"
  shows "column_ok (Mask_Count m) c' \<and> cd_type c' = cd_type c \<and>
    column_cells c' = map (\<lambda>i. column_cells c ! i) (mask_rows m)"
proof -
  define k where "k = TypeElemSize (cd_type c)"
  define xs where "xs = map (\<lambda>i. cell k (cd_buffer c) i) (mask_rows m)"
  have rows: "i < n" if "i \<in> set (mask_rows m)" for i
    using that assms(3) by (auto simp: mask_rows_set dest: Mask_Test_less)
  have len: "\<forall>x\<in>set xs. length x = k"
    using assms(1) rows by (auto simp: xs_def column_ok_def k_def intro: cell_length)
  have count: "Mask_Count m = length xs"
    using assms(2) by (simp add: xs_def Mask_Count_length ForEachSetBit_rows)
  have "GatherScalar (cells k (cd_count c) (cd_buffer c)) m = xs"
    using assms(1) rows by (auto simp: GatherScalar_def ForEachSetBit_rows [OF assms(2)] xs_def column_ok_def)
  then have c': "c' = \<lparr>cd_type = cd_type c, cd_buffer = concat xs, cd_count = length xs, cd_is_view = False\<rparr>"
    using assms(4) count by (auto simp: compact_column_def GatherColumnDense_def k_def split: if_splits)
  have "column_cells c' = xs" using cells_concat [OF len] by (simp add: c' column_cells_def k_def)
  moreover have "map (\<lambda>i. column_cells c ! i) (mask_rows m) = xs"
    using assms(1) rows by (auto simp: column_cells_def xs_def k_def column_ok_def)
  ultimately show ?thesis
    using c' count concat_equal_length [OF len] by (simp add: column_ok_def k_def)
qed

text \<open>C30: Compacting a batch keeps the batch invariant and the active rows, cell by cell and in
  order, and leaves no unselected row behind.\<close>

theorem CompactBySelection_keeps_rows:
  assumes "batch_ok b" "CompactBySelection b = Inr b'" "vb_columns b \<noteq> []"
  shows "batch_ok b' \<and> IsDense b' \<and> vb_size b' = vb_size b \<and> active_rows b' = active_rows b"
proof (cases "IsDense b")
  case True
  then show ?thesis using assms by (simp add: CompactBySelection_def)
next
  case sparse: False
  define m where "m = vb_selection b"
  have inv: "mask_inv m" and size: "vb_size b = Mask_Count m" using assms(1) by (simp_all add: batch_ok_def m_def)
  have len: "length (mask_rows m) = Mask_Count m" by (simp add: Mask_Count_length [OF inv] ForEachSetBit_rows [OF inv])
  have max: "Mask_Count m \<le> kVectorBatchSize"
    using len mask_inv_rows [OF inv] length_filter_le [of "Mask_Test m" "[0..<mask_row_count m]"] by (simp add: mask_rows_def)
  show ?thesis
  proof (cases "vb_size b = 0")
    case True
    then have "mask_rows m = []" using len size by simp
    moreover have "b' = \<lparr>vb_columns = map Column_Reset (vb_columns b), vb_size = 0, vb_selection = SetNone 0\<rparr>"
      using assms(2) sparse True by (simp add: CompactBySelection_def)
    moreover have "mask_rows (SetNone 0) = []" by (simp add: mask_rows_def)
    moreover have "Mask_Count (SetNone 0) = 0" by (simp add: Mask_Count_def used_words_def)
    ultimately show ?thesis
      using True by (auto simp: batch_ok_def SetNone_inv IsDense_def IsAll_def active_rows_def m_def
          list_all_iff column_ok_def Column_Reset_def)
  next
    case False
    then obtain cols where cols: "map_r (compact_column m (Mask_Count m)) (vb_columns b) = Inr cols"
      and b': "b' = \<lparr>vb_columns = cols, vb_size = Mask_Count m, vb_selection = SetAll (Mask_Count m)\<rparr>"
      using assms(2) sparse size by (auto simp: CompactBySelection_def m_def elim!: bind_r_InrE)
    have col: "column_ok (Mask_Count m) (cols ! j) \<and> column_cells (cols ! j) = map (\<lambda>i. column_cells (vb_columns b ! j) ! i) (mask_rows m)"
      if "j < length (vb_columns b)" for j
      using compact_column_cells [OF _ inv refl map_r_nth [OF cols that]] assms(1) that
      by (simp add: batch_ok_def list_all_length m_def)
    have n: "length cols = length (vb_columns b)" using map_r_length [OF cols] .
    have "active_rows b' = map (\<lambda>j. map (\<lambda>c. column_cells c ! j) cols) [0..<Mask_Count m]"
      by (simp add: active_rows_def b' SetAll_rows_list [OF max])
    also have "\<dots> = active_rows b"
      using col n len by (auto simp: active_rows_def m_def intro!: nth_equalityI)
    finally show ?thesis
      using b' col n max size by (simp add: batch_ok_def SetAll_inv Mask_Count_SetAll IsDense_def
          IsAll_iff [OF SetAll_inv] Test_SetAll list_all_length)
  qed
qed

end
