(* ===== verification/Serialization.thy ===== *)
theory Serialization
  imports Types Ieee754
begin

text \<open>
  \<^verbatim>\<open>src/src/storage/serialization.h\<close>: the binary writer and reader behind every file of the
  engine.  A writer is the bytes pushed so far.  A reader is a buffer and an offset, and every
  read either throws or advances the offset.  The locale \<open>codec\<close> is the contract between a
  serializer and its deserializer; the list loops are verified once inside it.
\<close>

subsection \<open>BinaryWriter\<close>

definition WriteUInt8 :: "u8 \<Rightarrow> bytes \<Rightarrow> bytes" where
  "WriteUInt8 v buf = buf @ [v]"

definition WriteUInt32 :: "u32 \<Rightarrow> bytes \<Rightarrow> bytes" where
  "WriteUInt32 v buf = buf @ le_bytes 4 v"

definition WriteUInt64 :: "u64 \<Rightarrow> bytes \<Rightarrow> bytes" where
  "WriteUInt64 v buf = buf @ le_bytes 8 v"

text \<open>A \<open>double\<close> is written as the bits \<open>memcpy\<close> finds in it.\<close>

definition WriteDouble :: "f64 \<Rightarrow> bytes \<Rightarrow> bytes" where
  "WriteDouble v buf = WriteUInt64 v buf"

definition WriteString :: "string \<Rightarrow> bytes \<Rightarrow> bytes" where
  "WriteString s buf = WriteUInt32 (u32_of (length s)) buf @ map byte_of_char s"

definition WriteRaw :: "bytes \<Rightarrow> bytes \<Rightarrow> bytes" where
  "WriteRaw bs buf = buf @ bs"

subsection \<open>BinaryReader\<close>

record binary_reader =
  rd_data :: bytes
  rd_offset :: nat

definition reader_of :: "bytes \<Rightarrow> binary_reader" where
  "reader_of bs = \<lparr>rd_data = bs, rd_offset = 0\<rparr>"

definition reader_rest :: "binary_reader \<Rightarrow> bytes" where
  "reader_rest r = drop (rd_offset r) (rd_data r)"

definition reader_advance :: "nat \<Rightarrow> binary_reader \<Rightarrow> binary_reader" where
  "reader_advance n r = r\<lparr>rd_offset := rd_offset r + n\<rparr>"

definition reader_need :: "nat \<Rightarrow> string \<Rightarrow> binary_reader \<Rightarrow> unit result" where
  "reader_need n what r =
     (if rd_offset r + n > length (rd_data r)
      then Inl (Runtime_error (''BinaryReader::'' @ what @ '' - out of range'')) else Inr ())"

definition ReadUInt8 :: "binary_reader \<Rightarrow> (u8 \<times> binary_reader) result" where
  "ReadUInt8 r = bind_r (reader_need 1 ''ReadUInt8'' r)
     (\<lambda>_. Inr (rd_data r ! rd_offset r, reader_advance 1 r))"

definition ReadUInt32 :: "binary_reader \<Rightarrow> (u32 \<times> binary_reader) result" where
  "ReadUInt32 r = bind_r (reader_need 4 ''ReadUInt32'' r)
     (\<lambda>_. Inr (le_word 4 (drop (rd_offset r) (rd_data r)), reader_advance 4 r))"

definition ReadUInt64 :: "binary_reader \<Rightarrow> (u64 \<times> binary_reader) result" where
  "ReadUInt64 r = bind_r (reader_need 8 ''ReadUInt64'' r)
     (\<lambda>_. Inr (le_word 8 (drop (rd_offset r) (rd_data r)), reader_advance 8 r))"

definition ReadDouble :: "binary_reader \<Rightarrow> (f64 \<times> binary_reader) result" where
  "ReadDouble r = ReadUInt64 r"

definition ReadString :: "binary_reader \<Rightarrow> (string \<times> binary_reader) result" where
  "ReadString r = bind_r (ReadUInt32 r) (\<lambda>(len, r).
     bind_r (reader_need (unat len) ''ReadString'' r)
       (\<lambda>_. Inr (map char_of_byte (take (unat len) (drop (rd_offset r) (rd_data r))),
                  reader_advance (unat len) r)))"

definition ReadRaw :: "nat \<Rightarrow> binary_reader \<Rightarrow> (bytes \<times> binary_reader) result" where
  "ReadRaw n r = bind_r (reader_need n ''ReadRaw'' r)
     (\<lambda>_. Inr (take n (drop (rd_offset r) (rd_data r)), reader_advance n r))"

definition Reader_Skip :: "nat \<Rightarrow> binary_reader \<Rightarrow> binary_reader result" where
  "Reader_Skip n r = bind_r (reader_need n ''Skip'' r) (\<lambda>_. Inr (reader_advance n r))"

definition Reader_IsEof :: "binary_reader \<Rightarrow> bool" where
  "Reader_IsEof r \<longleftrightarrow> rd_offset r \<ge> length (rd_data r)"

text \<open>The loop \<open>for (i = 0; i < count; ++i) out.push_back(Read(reader))\<close>.\<close>

fun read_n :: "nat \<Rightarrow> (binary_reader \<Rightarrow> ('a \<times> binary_reader) result) \<Rightarrow> binary_reader
    \<Rightarrow> ('a list \<times> binary_reader) result" where
  "read_n 0 des r = Inr ([], r)"
| "read_n (Suc n) des r = bind_r (des r) (\<lambda>(x, r).
     bind_r (read_n n des r) (\<lambda>(xs, r). Inr (x # xs, r)))"

subsection \<open>Reader facts\<close>

lemma reader_rest_advance [simp, byte_simps]:
  "reader_rest (reader_advance n r) = drop n (reader_rest r)"
  by (simp add: reader_rest_def reader_advance_def add.commute)

lemma reader_rest_of [simp, byte_simps]: "reader_rest (reader_of bs) = bs"
  by (simp add: reader_rest_def reader_of_def)

lemma reader_advance_add [simp, byte_simps]:
  "reader_advance n (reader_advance m r) = reader_advance (m + n) r"
  by (simp add: reader_advance_def add.assoc)

lemma reader_advance_0 [simp, byte_simps]: "reader_advance 0 r = r"
  by (simp add: reader_advance_def)

lemma reader_need_rest:
  "n \<le> length (reader_rest r) \<Longrightarrow> 0 < n \<Longrightarrow> reader_need n what r = Inr ()"
  by (auto simp: reader_need_def reader_rest_def)

lemma ReadUInt8_append [simp]:
  "reader_rest r = v # post \<Longrightarrow> ReadUInt8 r = Inr (v, reader_advance 1 r)"
  by (auto simp: ReadUInt8_def reader_need_def reader_rest_def nth_via_drop
      dest: arg_cong [where f = length])

lemma ReadUInt32_append [simp]:
  assumes "reader_rest r = le_bytes 4 v @ post"
  shows "ReadUInt32 r = Inr (v, reader_advance 4 r)"
proof -
  have "reader_need 4 ''ReadUInt32'' r = Inr ()" using assms by (intro reader_need_rest) simp_all
  then show ?thesis
    using assms le_word_le_bytes [of 4 v post] by (simp add: ReadUInt32_def reader_rest_def)
qed

lemma ReadUInt64_append [simp]:
  assumes "reader_rest r = le_bytes 8 v @ post"
  shows "ReadUInt64 r = Inr (v, reader_advance 8 r)"
proof -
  have "reader_need 8 ''ReadUInt64'' r = Inr ()" using assms by (intro reader_need_rest) simp_all
  then show ?thesis
    using assms le_word_le_bytes [of 8 v post] by (simp add: ReadUInt64_def reader_rest_def)
qed

lemma ReadDouble_append [simp]:
  "reader_rest r = le_bytes 8 v @ post \<Longrightarrow> ReadDouble r = Inr (v, reader_advance 8 r)"
  by (simp add: ReadDouble_def)

lemma ReadString_append [simp]:
  assumes "reader_rest r = le_bytes 4 (u32_of (length s)) @ map byte_of_char s @ post"
    "length s < 2 ^ 32"
  shows "ReadString r = Inr (s, reader_advance (4 + length s) r)"
proof -
  have len: "unat (u32_of (length s)) = length s" using assms(2) by (rule unat_u32_of)
  define r4 where "r4 = reader_advance 4 r"
  have rest: "reader_rest r4 = map byte_of_char s @ post" by (simp add: r4_def assms(1))
  have "reader_need (length s) ''ReadString'' r4 = Inr ()"
  proof (cases "s = []")
    case True
    have "length (reader_rest r) \<ge> 4" by (simp add: assms(1))
    with True show ?thesis by (simp add: reader_need_def r4_def reader_advance_def reader_rest_def)
  next
    case False
    with rest show ?thesis by (intro reader_need_rest) simp_all
  qed
  then show ?thesis
    using assms(1) rest by (simp add: ReadString_def len flip: r4_def)
      (simp add: reader_rest_def r4_def)
qed

lemmas write_defs = WriteUInt8_def WriteUInt32_def WriteUInt64_def WriteDouble_def WriteString_def

subsection \<open>The contract of a serializer\<close>

locale codec =
  fixes ser :: "'a \<Rightarrow> bytes \<Rightarrow> bytes"
    and des :: "binary_reader \<Rightarrow> ('a \<times> binary_reader) result"
    and ok :: "'a \<Rightarrow> bool"
  assumes ser_append: "ser x buf = buf @ ser x []"
    and des_ser: "ok x \<Longrightarrow> reader_rest r = ser x [] @ post
      \<Longrightarrow> des r = Inr (x, reader_advance (length (ser x [])) r)"
begin

lemma ser_list_append: "fold ser xs buf = buf @ concat (map (\<lambda>x. ser x []) xs)"
proof (induction xs arbitrary: buf)
  case Nil
  show ?case by simp
next
  case (Cons x xs)
  show ?case by (simp add: Cons ser_append [of x buf])
qed

lemma read_n_ser:
  assumes "\<forall>x\<in>set xs. ok x"
    and "reader_rest r = concat (map (\<lambda>x. ser x []) xs) @ post"
  shows "read_n (length xs) des r
    = Inr (xs, reader_advance (length (concat (map (\<lambda>x. ser x []) xs))) r)"
  using assms
proof (induction xs arbitrary: r)
  case Nil
  then show ?case by simp
next
  case (Cons x xs)
  have "des r = Inr (x, reader_advance (length (ser x [])) r)"
    using Cons.prems des_ser by simp
  moreover have "read_n (length xs) des (reader_advance (length (ser x [])) r)
      = Inr (xs, reader_advance (length (concat (map (\<lambda>x. ser x []) xs)))
                   (reader_advance (length (ser x [])) r))"
    using Cons.prems by (intro Cons.IH) simp_all
  ultimately show ?case by simp
qed

text \<open>The value is read back from a whole buffer, and nothing is left over.\<close>

lemma round_trip: "ok x \<Longrightarrow>
    des (reader_of (ser x [])) = Inr (x, reader_advance (length (ser x [])) (reader_of (ser x [])))"
  by (rule des_ser [where post = "[]"]) simp_all

end

interpretation u32_codec: codec WriteUInt32 ReadUInt32 "\<lambda>_. True"
  by unfold_locales (simp_all add: WriteUInt32_def)

interpretation double_codec: codec WriteDouble ReadDouble "\<lambda>_. True"
  by unfold_locales (simp_all add: WriteDouble_def WriteUInt64_def)

interpretation string_codec: codec WriteString ReadString "\<lambda>s. length s < 2 ^ 32"
  by unfold_locales (simp_all add: WriteString_def WriteUInt32_def)

end
