(* ===== verification/Schema.thy ===== *)
theory Schema
  imports Serialization "HOL-Library.List_Lexorder"
begin

text \<open>
  \<^verbatim>\<open>src/src/storage/datastructs.h\<close> and \<^verbatim>\<open>src/src/storage/table/table_storage_meta.h\<close>: schemas,
  keys, row locations, scan requests and the metadata records that reach the disk, each with its
  serializer.  Every serializer is an instance of the contract \<open>codec\<close>.
\<close>

subsection \<open>Columns and keys\<close>

record column_schema =
  cs_column_id :: column_id
  cs_name :: string
  cs_type :: data_type

record key_schema =
  ks_key_id :: key_id
  ks_name :: string
  ks_type :: key_type
  ks_columns :: "column_id list"

record table_schema =
  ts_columns :: "column_schema list"
  ts_primary_key :: "key_schema option"
  ts_secondary_keys :: "key_schema list"

definition kPrimaryKeyName :: string where
  "kPrimaryKeyName = ''__primary__''"

definition empty_schema :: table_schema where
  "empty_schema = \<lparr>ts_columns = [], ts_primary_key = None, ts_secondary_keys = []\<rparr>"

text \<open>
  A byte outside the enumerators, which no writer produces, is read as \<open>DT_INVALID\<close>: every
  \<open>switch\<close> of the engine over a \<open>DataType\<close> takes its default branch for both.
\<close>

definition data_type_of_code :: "u8 \<Rightarrow> data_type" where
  "data_type_of_code c =
     (if c = 1 then DT_INT32 else if c = 2 then DT_INT64 else if c = 3 then DT_FLOAT
      else if c = 4 then DT_DOUBLE else if c = 5 then DT_VARCHAR else DT_INVALID)"

definition key_type_of_code :: "u8 \<Rightarrow> key_type" where
  "key_type_of_code c = (if c = 0 then KT_PRIMARY else KT_SECONDARY)"

lemma data_type_of_code_code [simp]: "data_type_of_code (data_type_code t) = t"
  by (cases t) (simp_all add: data_type_of_code_def)

lemma key_type_of_code_code [simp]: "key_type_of_code (key_type_code t) = t"
  by (cases t) (simp_all add: key_type_of_code_def)

definition ColumnSchema_Serialize :: "column_schema \<Rightarrow> bytes \<Rightarrow> bytes" where
  "ColumnSchema_Serialize c buf =
     WriteUInt8 (data_type_code (cs_type c)) (WriteString (cs_name c) (WriteUInt32 (cs_column_id c) buf))"

definition ColumnSchema_Deserialize :: "binary_reader \<Rightarrow> (column_schema \<times> binary_reader) result" where
  "ColumnSchema_Deserialize r = bind_r (ReadUInt32 r) (\<lambda>(i, r). bind_r (ReadString r) (\<lambda>(n, r).
     bind_r (ReadUInt8 r) (\<lambda>(t, r).
       Inr (\<lparr>cs_column_id = i, cs_name = n, cs_type = data_type_of_code t\<rparr>, r))))"

definition KeySchema_Serialize :: "key_schema \<Rightarrow> bytes \<Rightarrow> bytes" where
  "KeySchema_Serialize k buf =
     fold WriteUInt32 (ks_columns k)
       (WriteUInt32 (u32_of (length (ks_columns k)))
         (WriteUInt8 (key_type_code (ks_type k)) (WriteString (ks_name k) (WriteUInt32 (ks_key_id k) buf))))"

definition KeySchema_Deserialize :: "binary_reader \<Rightarrow> (key_schema \<times> binary_reader) result" where
  "KeySchema_Deserialize r = bind_r (ReadUInt32 r) (\<lambda>(i, r). bind_r (ReadString r) (\<lambda>(n, r).
     bind_r (ReadUInt8 r) (\<lambda>(t, r). bind_r (ReadUInt32 r) (\<lambda>(count, r).
       bind_r (read_n (unat count) ReadUInt32 r) (\<lambda>(cols, r).
         Inr (\<lparr>ks_key_id = i, ks_name = n, ks_type = key_type_of_code t, ks_columns = cols\<rparr>, r))))))"

definition TableSchema_Serialize :: "table_schema \<Rightarrow> bytes \<Rightarrow> bytes" where
  "TableSchema_Serialize s buf =
     (let buf = WriteUInt32 (u32_of (length (ts_columns s))) buf;
          buf = fold ColumnSchema_Serialize (ts_columns s) buf;
          buf = WriteUInt8 (if ts_primary_key s \<noteq> None then 1 else 0) buf;
          buf = (case ts_primary_key s of None \<Rightarrow> buf | Some k \<Rightarrow> KeySchema_Serialize k buf);
          buf = WriteUInt32 (u32_of (length (ts_secondary_keys s))) buf
      in fold KeySchema_Serialize (ts_secondary_keys s) buf)"

definition read_primary_key :: "binary_reader \<Rightarrow> (key_schema option \<times> binary_reader) result" where
  "read_primary_key r = bind_r (ReadUInt8 r) (\<lambda>(flag, r).
     if flag \<noteq> 0 then bind_r (KeySchema_Deserialize r) (\<lambda>(k, r). Inr (Some k, r)) else Inr (None, r))"

definition TableSchema_Deserialize :: "binary_reader \<Rightarrow> (table_schema \<times> binary_reader) result" where
  "TableSchema_Deserialize r = bind_r (ReadUInt32 r) (\<lambda>(count, r).
     bind_r (read_n (unat count) ColumnSchema_Deserialize r) (\<lambda>(cols, r).
     bind_r (read_primary_key r) (\<lambda>(pk, r).
     bind_r (ReadUInt32 r) (\<lambda>(kcount, r).
     bind_r (read_n (unat kcount) KeySchema_Deserialize r) (\<lambda>(sks, r).
       Inr (\<lparr>ts_columns = cols, ts_primary_key = pk, ts_secondary_keys = sks\<rparr>, r))))))"

text \<open>The V2 format: columns only.\<close>

definition TableSchema_DeserializeLegacy :: "binary_reader \<Rightarrow> (table_schema \<times> binary_reader) result" where
  "TableSchema_DeserializeLegacy r = bind_r (ReadUInt32 r) (\<lambda>(count, r).
     bind_r (read_n (unat count) ColumnSchema_Deserialize r) (\<lambda>(cols, r).
       Inr (\<lparr>ts_columns = cols, ts_primary_key = None, ts_secondary_keys = []\<rparr>, r)))"

definition FindColumnSchema :: "table_schema \<Rightarrow> column_id \<Rightarrow> column_schema option" where
  "FindColumnSchema s cid = List.find (\<lambda>c. cs_column_id c = cid) (ts_columns s)"

definition FindKeySchema :: "table_schema \<Rightarrow> key_id \<Rightarrow> key_schema option" where
  "FindKeySchema s kid =
     (case ts_primary_key s of
        Some k \<Rightarrow> if ks_key_id k = kid then Some k
                  else List.find (\<lambda>k. ks_key_id k = kid) (ts_secondary_keys s)
      | None \<Rightarrow> List.find (\<lambda>k. ks_key_id k = kid) (ts_secondary_keys s))"

subsection \<open>Sizes that fit their length fields\<close>

definition column_fits :: "column_schema \<Rightarrow> bool" where
  "column_fits c \<longleftrightarrow> length (cs_name c) < 2 ^ 32"

definition key_fits :: "key_schema \<Rightarrow> bool" where
  "key_fits k \<longleftrightarrow> length (ks_name k) < 2 ^ 32 \<and> length (ks_columns k) < 2 ^ 32"

definition schema_fits :: "table_schema \<Rightarrow> bool" where
  "schema_fits s \<longleftrightarrow>
     length (ts_columns s) < 2 ^ 32 \<and> list_all column_fits (ts_columns s) \<and>
     (case ts_primary_key s of None \<Rightarrow> True | Some k \<Rightarrow> key_fits k) \<and>
     length (ts_secondary_keys s) < 2 ^ 32 \<and> list_all key_fits (ts_secondary_keys s)"

interpretation column_codec: codec ColumnSchema_Serialize ColumnSchema_Deserialize column_fits
  by unfold_locales
    (simp_all add: ColumnSchema_Serialize_def ColumnSchema_Deserialize_def column_fits_def write_defs
      flip: One_nat_def)

lemma KeySchema_Serialize_bytes:
  "KeySchema_Serialize k buf = buf @ le_bytes 4 (ks_key_id k) @
     le_bytes 4 (u32_of (length (ks_name k))) @ map byte_of_char (ks_name k) @
     key_type_code (ks_type k) # le_bytes 4 (u32_of (length (ks_columns k))) @
     concat (map (\<lambda>x. WriteUInt32 x []) (ks_columns k))"
  unfolding KeySchema_Serialize_def u32_codec.ser_list_append by (simp add: write_defs)

interpretation key_codec: codec KeySchema_Serialize KeySchema_Deserialize key_fits
proof
  fix k :: key_schema and buf
  show "KeySchema_Serialize k buf = buf @ KeySchema_Serialize k []"
    by (simp add: KeySchema_Serialize_bytes)
next
  fix k :: key_schema and r post
  assume ok: "key_fits k" and rest: "reader_rest r = KeySchema_Serialize k [] @ post"
  define r' where "r' = reader_advance (13 + length (ks_name k)) r"
  have "reader_rest r' = concat (map (\<lambda>x. WriteUInt32 x []) (ks_columns k)) @ post"
    by (simp add: r'_def rest KeySchema_Serialize_bytes)
  then have "read_n (length (ks_columns k)) ReadUInt32 r' = Inr (ks_columns k,
      reader_advance (length (concat (map (\<lambda>x. WriteUInt32 x []) (ks_columns k)))) r')"
    by (intro u32_codec.read_n_ser) simp_all
  then show "KeySchema_Deserialize r = Inr (k, reader_advance (length (KeySchema_Serialize k [])) r)"
    using ok rest
    by (simp add: KeySchema_Deserialize_def KeySchema_Serialize_bytes key_fits_def unat_u32_of
        ac_simps r'_def)
qed

definition primary_key_bytes :: "key_schema option \<Rightarrow> bytes" where
  "primary_key_bytes pk = (case pk of None \<Rightarrow> [0] | Some k \<Rightarrow> 1 # KeySchema_Serialize k [])"

definition columns_bytes :: "column_schema list \<Rightarrow> bytes" where
  "columns_bytes cs = le_bytes 4 (u32_of (length cs)) @ concat (map (\<lambda>c. ColumnSchema_Serialize c []) cs)"

definition keys_bytes :: "key_schema list \<Rightarrow> bytes" where
  "keys_bytes ks = le_bytes 4 (u32_of (length ks)) @ concat (map (\<lambda>k. KeySchema_Serialize k []) ks)"

lemma TableSchema_Serialize_bytes:
  "TableSchema_Serialize s buf = buf @ columns_bytes (ts_columns s) @
     primary_key_bytes (ts_primary_key s) @ keys_bytes (ts_secondary_keys s)"
  unfolding TableSchema_Serialize_def Let_def column_codec.ser_list_append key_codec.ser_list_append
  by (cases "ts_primary_key s")
    (simp_all add: columns_bytes_def keys_bytes_def primary_key_bytes_def WriteUInt32_def WriteUInt8_def
      key_codec.ser_append [of _ "_ @ _"])

lemma read_columns:
  assumes "length cs < 2 ^ 32" "list_all column_fits cs" "reader_rest r = columns_bytes cs @ post"
  shows "bind_r (ReadUInt32 r) (\<lambda>(count, r). bind_r (read_n (unat count) ColumnSchema_Deserialize r) f)
    = f (cs, reader_advance (length (columns_bytes cs)) r)"
proof -
  have "read_n (length cs) ColumnSchema_Deserialize (reader_advance 4 r) = Inr (cs,
      reader_advance (length (concat (map (\<lambda>c. ColumnSchema_Serialize c []) cs))) (reader_advance 4 r))"
    using assms by (intro column_codec.read_n_ser) (simp_all add: columns_bytes_def list_all_iff)
  then show ?thesis using assms by (simp add: columns_bytes_def unat_u32_of)
qed

lemma read_keys:
  assumes "length ks < 2 ^ 32" "list_all key_fits ks" "reader_rest r = keys_bytes ks @ post"
  shows "bind_r (ReadUInt32 r) (\<lambda>(count, r). bind_r (read_n (unat count) KeySchema_Deserialize r) f)
    = f (ks, reader_advance (length (keys_bytes ks)) r)"
proof -
  have "read_n (length ks) KeySchema_Deserialize (reader_advance 4 r) = Inr (ks,
      reader_advance (length (concat (map (\<lambda>k. KeySchema_Serialize k []) ks))) (reader_advance 4 r))"
    using assms by (intro key_codec.read_n_ser) (simp_all add: keys_bytes_def list_all_iff)
  then show ?thesis using assms by (simp add: keys_bytes_def unat_u32_of)
qed

lemma read_primary_key_bytes:
  assumes "\<And>k. pk = Some k \<Longrightarrow> key_fits k" "reader_rest r = primary_key_bytes pk @ post"
  shows "read_primary_key r = Inr (pk, reader_advance (length (primary_key_bytes pk)) r)"
proof (cases pk)
  case None
  with assms(2) show ?thesis by (simp add: read_primary_key_def primary_key_bytes_def)
next
  case (Some k)
  have rest: "reader_rest (reader_advance 1 r) = KeySchema_Serialize k [] @ post"
    using assms(2) Some by (simp add: primary_key_bytes_def)
  from key_codec.des_ser [OF assms(1) [OF Some] rest] show ?thesis
    using assms(2) Some by (simp add: read_primary_key_def primary_key_bytes_def)
qed

interpretation table_schema_codec: codec TableSchema_Serialize TableSchema_Deserialize schema_fits
proof
  fix s :: table_schema and buf
  show "TableSchema_Serialize s buf = buf @ TableSchema_Serialize s []"
    by (simp add: TableSchema_Serialize_bytes)
next
  fix s :: table_schema and r post
  assume ok: "schema_fits s" and rest: "reader_rest r = TableSchema_Serialize s [] @ post"
  define r1 where "r1 = reader_advance (length (columns_bytes (ts_columns s))) r"
  define r2 where "r2 = reader_advance (length (primary_key_bytes (ts_primary_key s))) r1"
  have rest1: "reader_rest r1 = primary_key_bytes (ts_primary_key s) @ keys_bytes (ts_secondary_keys s) @ post"
    by (simp add: r1_def rest TableSchema_Serialize_bytes)
  have rest2: "reader_rest r2 = keys_bytes (ts_secondary_keys s) @ post"
    by (simp add: r2_def rest1)
  have 1: "bind_r (ReadUInt32 r) (\<lambda>(count, r). bind_r (read_n (unat count) ColumnSchema_Deserialize r) f)
      = f (ts_columns s, r1)" for f :: "column_schema list \<times> binary_reader \<Rightarrow> (table_schema \<times> binary_reader) result"
    unfolding r1_def using ok rest by (intro read_columns) (simp_all add: schema_fits_def TableSchema_Serialize_bytes)
  have 2: "read_primary_key r1 = Inr (ts_primary_key s, r2)"
    unfolding r2_def using ok rest1 by (intro read_primary_key_bytes) (simp_all add: schema_fits_def)
  have 3: "bind_r (ReadUInt32 r2) (\<lambda>(count, r). bind_r (read_n (unat count) KeySchema_Deserialize r) f)
      = f (ts_secondary_keys s, reader_advance (length (keys_bytes (ts_secondary_keys s))) r2)"
    for f :: "key_schema list \<times> binary_reader \<Rightarrow> (table_schema \<times> binary_reader) result"
    using ok rest2 by (intro read_keys) (simp_all add: schema_fits_def)
  show "TableSchema_Deserialize r = Inr (s, reader_advance (length (TableSchema_Serialize s [])) r)"
    unfolding TableSchema_Deserialize_def 1 using 2 3
    by (simp add: TableSchema_Serialize_bytes r1_def r2_def add.assoc)
qed

text \<open>A V2 entry, read by the legacy path, keeps its columns and loses its keys.\<close>

lemma TableSchema_DeserializeLegacy_columns:
  assumes "length cs < 2 ^ 32" "list_all column_fits cs" "reader_rest r = columns_bytes cs @ post"
  shows "TableSchema_DeserializeLegacy r
    = Inr (empty_schema\<lparr>ts_columns := cs\<rparr>, reader_advance (length (columns_bytes cs)) r)"
  unfolding TableSchema_DeserializeLegacy_def read_columns [OF assms] by (simp add: empty_schema_def)

subsection \<open>Segment metadata\<close>

record column_chunk_meta =
  cm_column_id :: column_id
  cm_type :: data_type
  cm_data_offset :: u64
  cm_has_stats :: bool
  cm_min_value :: f64
  cm_max_value :: f64

definition ColumnChunkMeta_Serialize :: "column_chunk_meta \<Rightarrow> bytes \<Rightarrow> bytes" where
  "ColumnChunkMeta_Serialize m buf =
     WriteDouble (cm_max_value m) (WriteDouble (cm_min_value m)
       (WriteUInt8 (if cm_has_stats m then 1 else 0) (WriteUInt64 (cm_data_offset m)
         (WriteUInt8 (data_type_code (cm_type m)) (WriteUInt32 (cm_column_id m) buf)))))"

definition ColumnChunkMeta_Deserialize :: "binary_reader \<Rightarrow> (column_chunk_meta \<times> binary_reader) result" where
  "ColumnChunkMeta_Deserialize r = bind_r (ReadUInt32 r) (\<lambda>(i, r). bind_r (ReadUInt8 r) (\<lambda>(t, r).
     bind_r (ReadUInt64 r) (\<lambda>(off, r). bind_r (ReadUInt8 r) (\<lambda>(hs, r).
     bind_r (ReadDouble r) (\<lambda>(lo, r). bind_r (ReadDouble r) (\<lambda>(hi, r).
       Inr (\<lparr>cm_column_id = i, cm_type = data_type_of_code t, cm_data_offset = off,
             cm_has_stats = (hs \<noteq> 0), cm_min_value = lo, cm_max_value = hi\<rparr>, r)))))))"

record segment_meta =
  sm_segment_id :: segment_id
  sm_row_count :: u32
  sm_path :: string
  sm_chunks :: "column_chunk_meta list"

definition SegmentMeta_Serialize :: "segment_meta \<Rightarrow> bytes \<Rightarrow> bytes" where
  "SegmentMeta_Serialize m buf =
     fold ColumnChunkMeta_Serialize (sm_chunks m)
       (WriteUInt32 (u32_of (length (sm_chunks m)))
         (WriteString (sm_path m) (WriteUInt32 (sm_row_count m) (WriteUInt32 (sm_segment_id m) buf))))"

definition SegmentMeta_Deserialize :: "binary_reader \<Rightarrow> (segment_meta \<times> binary_reader) result" where
  "SegmentMeta_Deserialize r = bind_r (ReadUInt32 r) (\<lambda>(i, r). bind_r (ReadUInt32 r) (\<lambda>(rc, r).
     bind_r (ReadString r) (\<lambda>(p, r). bind_r (ReadUInt32 r) (\<lambda>(count, r).
     bind_r (read_n (unat count) ColumnChunkMeta_Deserialize r) (\<lambda>(cs, r).
       Inr (\<lparr>sm_segment_id = i, sm_row_count = rc, sm_path = p, sm_chunks = cs\<rparr>, r))))))"

interpretation chunk_codec: codec ColumnChunkMeta_Serialize ColumnChunkMeta_Deserialize "\<lambda>_. True"
  by unfold_locales
    (simp_all add: ColumnChunkMeta_Serialize_def ColumnChunkMeta_Deserialize_def write_defs)

definition segment_fits :: "segment_meta \<Rightarrow> bool" where
  "segment_fits m \<longleftrightarrow> length (sm_path m) < 2 ^ 32 \<and> length (sm_chunks m) < 2 ^ 32"

lemma SegmentMeta_Serialize_bytes:
  "SegmentMeta_Serialize m buf = buf @ le_bytes 4 (sm_segment_id m) @ le_bytes 4 (sm_row_count m) @
     le_bytes 4 (u32_of (length (sm_path m))) @ map byte_of_char (sm_path m) @
     le_bytes 4 (u32_of (length (sm_chunks m))) @
     concat (map (\<lambda>c. ColumnChunkMeta_Serialize c []) (sm_chunks m))"
  unfolding SegmentMeta_Serialize_def chunk_codec.ser_list_append by (simp add: write_defs)

interpretation segment_codec: codec SegmentMeta_Serialize SegmentMeta_Deserialize segment_fits
proof
  fix m :: segment_meta and buf
  show "SegmentMeta_Serialize m buf = buf @ SegmentMeta_Serialize m []"
    by (simp add: SegmentMeta_Serialize_bytes)
next
  fix m :: segment_meta and r post
  assume ok: "segment_fits m" and rest: "reader_rest r = SegmentMeta_Serialize m [] @ post"
  define r' where "r' = reader_advance (16 + length (sm_path m)) r"
  have "reader_rest r' = concat (map (\<lambda>c. ColumnChunkMeta_Serialize c []) (sm_chunks m)) @ post"
    by (simp add: r'_def rest SegmentMeta_Serialize_bytes)
  then have "read_n (length (sm_chunks m)) ColumnChunkMeta_Deserialize r' = Inr (sm_chunks m,
      reader_advance (length (concat (map (\<lambda>c. ColumnChunkMeta_Serialize c []) (sm_chunks m)))) r')"
    by (intro chunk_codec.read_n_ser) simp_all
  then show "SegmentMeta_Deserialize r = Inr (m, reader_advance (length (SegmentMeta_Serialize m [])) r)"
    using ok rest
    by (simp add: SegmentMeta_Deserialize_def SegmentMeta_Serialize_bytes segment_fits_def unat_u32_of
        ac_simps r'_def)
qed

text \<open>The metadata block has the same size whatever offsets and statistics it holds.\<close>

lemma ColumnChunkMeta_Serialize_length [simp]: "length (ColumnChunkMeta_Serialize c []) = 30"
  by (simp add: ColumnChunkMeta_Serialize_def write_defs)

lemma SegmentMeta_Serialize_length:
  "length (SegmentMeta_Serialize m []) = 16 + length (sm_path m) + 30 * length (sm_chunks m)"
proof -
  have "length (concat (map (\<lambda>c. ColumnChunkMeta_Serialize c []) cs)) = 30 * length cs" for cs
    by (induction cs) simp_all
  then show ?thesis by (simp add: SegmentMeta_Serialize_bytes)
qed

subsection \<open>Table and catalog metadata\<close>

record table_storage_meta =
  tm_table_id :: table_id
  tm_segment_ids :: "segment_id list"

definition TableStorageMeta_Serialize :: "table_storage_meta \<Rightarrow> bytes \<Rightarrow> bytes" where
  "TableStorageMeta_Serialize m buf =
     fold WriteUInt32 (tm_segment_ids m)
       (WriteUInt32 (u32_of (length (tm_segment_ids m))) (WriteUInt32 (tm_table_id m) buf))"

definition TableStorageMeta_Deserialize :: "binary_reader \<Rightarrow> (table_storage_meta \<times> binary_reader) result" where
  "TableStorageMeta_Deserialize r = bind_r (ReadUInt32 r) (\<lambda>(i, r). bind_r (ReadUInt32 r) (\<lambda>(count, r).
     bind_r (read_n (unat count) ReadUInt32 r) (\<lambda>(ids, r).
       Inr (\<lparr>tm_table_id = i, tm_segment_ids = ids\<rparr>, r))))"

lemma TableStorageMeta_Serialize_bytes:
  "TableStorageMeta_Serialize m buf = buf @ le_bytes 4 (tm_table_id m) @
     le_bytes 4 (u32_of (length (tm_segment_ids m))) @
     concat (map (\<lambda>x. WriteUInt32 x []) (tm_segment_ids m))"
  unfolding TableStorageMeta_Serialize_def u32_codec.ser_list_append by (simp add: write_defs)

interpretation table_meta_codec: codec TableStorageMeta_Serialize TableStorageMeta_Deserialize
  "\<lambda>m. length (tm_segment_ids m) < 2 ^ 32"
proof
  fix m :: table_storage_meta and buf
  show "TableStorageMeta_Serialize m buf = buf @ TableStorageMeta_Serialize m []"
    by (simp add: TableStorageMeta_Serialize_bytes)
next
  fix m :: table_storage_meta and r post
  assume ok: "length (tm_segment_ids m) < 2 ^ 32"
    and rest: "reader_rest r = TableStorageMeta_Serialize m [] @ post"
  have "read_n (length (tm_segment_ids m)) ReadUInt32 (reader_advance 8 r) = Inr (tm_segment_ids m,
      reader_advance (length (concat (map (\<lambda>x. WriteUInt32 x []) (tm_segment_ids m)))) (reader_advance 8 r))"
    by (intro u32_codec.read_n_ser [where post = post]) (simp_all add: rest TableStorageMeta_Serialize_bytes)
  then show "TableStorageMeta_Deserialize r
      = Inr (m, reader_advance (length (TableStorageMeta_Serialize m [])) r)"
    using ok rest
    by (simp add: TableStorageMeta_Deserialize_def TableStorageMeta_Serialize_bytes unat_u32_of)
qed

text \<open>
  The V1 catalog: \<open>std::map<std::string, uint32_t>\<close>, kept in key order (bytes compare
  unsigned, as \<open>std::string\<close> does).
\<close>

fun ordered_insert :: "string \<Rightarrow> u32 \<Rightarrow> (string \<times> u32) list \<Rightarrow> (string \<times> u32) list" where
  "ordered_insert k v [] = [(k, v)]"
| "ordered_insert k v ((k', v') # xs) =
     (if k < k' then (k, v) # (k', v') # xs
      else if k = k' then (k, v) # xs
      else (k', v') # ordered_insert k v xs)"

definition ReadNameId :: "binary_reader \<Rightarrow> ((string \<times> u32) \<times> binary_reader) result" where
  "ReadNameId r = bind_r (ReadString r) (\<lambda>(n, r). bind_r (ReadUInt32 r) (\<lambda>(i, r). Inr ((n, i), r)))"

definition WriteNameId :: "string \<times> u32 \<Rightarrow> bytes \<Rightarrow> bytes" where
  "WriteNameId p buf = WriteUInt32 (snd p) (WriteString (fst p) buf)"

definition CatalogMeta_Serialize :: "(string \<times> u32) list \<Rightarrow> bytes \<Rightarrow> bytes" where
  "CatalogMeta_Serialize m buf = fold WriteNameId m (WriteUInt32 (u32_of (length m)) buf)"

definition CatalogMeta_Deserialize :: "binary_reader \<Rightarrow> ((string \<times> u32) list \<times> binary_reader) result" where
  "CatalogMeta_Deserialize r = bind_r (ReadUInt32 r) (\<lambda>(count, r).
     bind_r (read_n (unat count) ReadNameId r) (\<lambda>(ps, r).
       Inr (fold (\<lambda>(n, i). ordered_insert n i) ps [], r)))"

interpretation name_id_codec: codec WriteNameId ReadNameId "\<lambda>p. length (fst p) < 2 ^ 32"
  by unfold_locales (auto simp: WriteNameId_def ReadNameId_def write_defs)

lemma map_of_ordered_insert: "map_of (ordered_insert k v xs) = (map_of xs)(k \<mapsto> v)"
  by (induction k v xs rule: ordered_insert.induct) (auto simp: fun_eq_iff)

end
