(* ===== verification/Catalog.thy ===== *)
theory Catalog
  imports Schema
begin

text \<open>
  \<^verbatim>\<open>src/src/catalog/\<close>: the table directory.  The hash map of entries is a list of distinct
  keys, standing for its iteration order; statements about contents use \<open>map_of\<close> and hold for
  every order.  The file \<^verbatim>\<open>catalog.meta\<close> is a field of the state, and the outcome of each write
  is an input of the operation that writes.
\<close>

subsection \<open>Entries\<close>

record table_entry =
  te_table_id :: table_id
  te_name :: string
  te_schema :: table_schema

definition Entry_Serialize :: "table_entry \<Rightarrow> bytes \<Rightarrow> bytes" where
  "Entry_Serialize e buf =
     TableSchema_Serialize (te_schema e) (WriteUInt32 (te_table_id e) (WriteString (te_name e) buf))"

definition Entry_Deserialize :: "binary_reader \<Rightarrow> (table_entry \<times> binary_reader) result" where
  "Entry_Deserialize r = bind_r (ReadString r) (\<lambda>(n, r). bind_r (ReadUInt32 r) (\<lambda>(i, r).
     bind_r (TableSchema_Deserialize r) (\<lambda>(s, r).
       Inr (\<lparr>te_table_id = i, te_name = n, te_schema = s\<rparr>, r))))"

definition Entry_DeserializeLegacy :: "binary_reader \<Rightarrow> (table_entry \<times> binary_reader) result" where
  "Entry_DeserializeLegacy r = bind_r (ReadString r) (\<lambda>(n, r). bind_r (ReadUInt32 r) (\<lambda>(i, r).
     bind_r (TableSchema_DeserializeLegacy r) (\<lambda>(s, r).
       Inr (\<lparr>te_table_id = i, te_name = n, te_schema = s\<rparr>, r))))"

definition entry_fits :: "table_entry \<Rightarrow> bool" where
  "entry_fits e \<longleftrightarrow> length (te_name e) < 2 ^ 32 \<and> schema_fits (te_schema e)"

lemma Entry_Serialize_bytes:
  "Entry_Serialize e buf = buf @ le_bytes 4 (u32_of (length (te_name e))) @
     map byte_of_char (te_name e) @ le_bytes 4 (te_table_id e) @ TableSchema_Serialize (te_schema e) []"
  unfolding Entry_Serialize_def
  by (subst table_schema_codec.ser_append) (simp add: write_defs)

interpretation entry_codec: codec Entry_Serialize Entry_Deserialize entry_fits
proof
  fix e :: table_entry and buf
  show "Entry_Serialize e buf = buf @ Entry_Serialize e []"
    by (simp add: Entry_Serialize_bytes)
next
  fix e :: table_entry and r post
  assume ok: "entry_fits e" and rest: "reader_rest r = Entry_Serialize e [] @ post"
  define r' where "r' = reader_advance (8 + length (te_name e)) r"
  have "TableSchema_Deserialize r' = Inr (te_schema e,
      reader_advance (length (TableSchema_Serialize (te_schema e) [])) r')"
    using ok rest by (intro table_schema_codec.des_ser [where post = post])
      (simp_all add: r'_def entry_fits_def Entry_Serialize_bytes)
  then show "Entry_Deserialize r = Inr (e, reader_advance (length (Entry_Serialize e [])) r)"
    using ok rest
    by (simp add: Entry_Deserialize_def Entry_Serialize_bytes entry_fits_def r'_def ac_simps)
qed

subsection \<open>State and files\<close>

text \<open>
  One attempt to write a file: it succeeds, it cannot be opened (nothing changes), or it was
  opened with \<open>trunc\<close> and the write failed, leaving some bytes.
\<close>

datatype io = Io_ok | Io_open_failed | Io_write_failed bytes

definition write_file :: "io \<Rightarrow> bytes \<Rightarrow> bytes option \<Rightarrow> bool \<times> bytes option" where
  "write_file io content file =
     (case io of Io_ok \<Rightarrow> (True, Some content)
      | Io_open_failed \<Rightarrow> (False, file)
      | Io_write_failed junk \<Rightarrow> (False, Some junk))"

record catalog =
  cat_names :: "string \<rightharpoonup> table_id"
  cat_tables :: "(table_id \<times> table_entry) list"
  cat_file :: "bytes option"

definition empty_catalog :: catalog where
  "empty_catalog = \<lparr>cat_names = Map.empty, cat_tables = [], cat_file = None\<rparr>"

text \<open>\<open>m[k] = v\<close> on the entry map: replace in place, or add a node at the front.\<close>

definition al_put :: "'k \<Rightarrow> 'v \<Rightarrow> ('k \<times> 'v) list \<Rightarrow> ('k \<times> 'v) list" where
  "al_put k v xs = (if k \<in> fst ` set xs then map (\<lambda>(k', v'). (k', if k' = k then v else v')) xs else (k, v) # xs)"

definition al_erase :: "'k \<Rightarrow> ('k \<times> 'v) list \<Rightarrow> ('k \<times> 'v) list" where
  "al_erase k xs = filter (\<lambda>(k', _). k' \<noteq> k) xs"

definition kCatalogMetaMagicV2 :: u32 where
  "kCatalogMetaMagicV2 = 0x324C4F43"

definition kCatalogMetaMagicV3 :: u32 where
  "kCatalogMetaMagicV3 = 0x334C4F43"

definition catalog_bytes :: "(table_id \<times> table_entry) list \<Rightarrow> bytes" where
  "catalog_bytes es =
     fold (\<lambda>(_, e). Entry_Serialize e) es
       (WriteUInt32 (u32_of (length es)) (WriteUInt32 kCatalogMetaMagicV3 []))"

definition SaveMeta :: "io \<Rightarrow> catalog \<Rightarrow> bool \<times> catalog" where
  "SaveMeta io c =
     (let (ok, f) = write_file io (catalog_bytes (cat_tables c)) (cat_file c)
      in (ok, c\<lparr>cat_file := f\<rparr>))"

definition NextTableId :: "catalog \<Rightarrow> table_id" where
  "NextTableId c = fold (\<lambda>(k, _) next. if k \<ge> next then k + 1 else next) (cat_tables c) 0"

definition CreateCatalog :: "bool \<Rightarrow> io \<Rightarrow> catalog \<Rightarrow> bool \<times> catalog" where
  "CreateCatalog dir_ok io c =
     (if \<not> dir_ok then (False, c)
      else if cat_file c \<noteq> None then (False, c)
      else SaveMeta io (c\<lparr>cat_names := Map.empty, cat_tables := []\<rparr>))"

definition CreateTable :: "io \<Rightarrow> string \<Rightarrow> table_schema \<Rightarrow> catalog \<Rightarrow> bool \<times> catalog" where
  "CreateTable io name schema c =
     (if cat_names c name \<noteq> None then (False, c)
      else
        let i = NextTableId c;
            e = \<lparr>te_table_id = i, te_name = name, te_schema = schema\<rparr>;
            c1 = c\<lparr>cat_names := (cat_names c)(name \<mapsto> i), cat_tables := al_put i e (cat_tables c)\<rparr>;
            (ok, c2) = SaveMeta io c1
        in if ok then (True, c2)
           else (False, c2\<lparr>cat_names := (cat_names c2)(name := None),
                           cat_tables := al_erase i (cat_tables c2)\<rparr>))"

definition DropTable :: "io \<Rightarrow> string \<Rightarrow> catalog \<Rightarrow> bool \<times> catalog" where
  "DropTable io name c =
     (case cat_names c name of
        None \<Rightarrow> (False, c)
      | Some i \<Rightarrow> SaveMeta io (c\<lparr>cat_names := (cat_names c)(name := None),
                                 cat_tables := al_erase i (cat_tables c)\<rparr>))"

definition FindTable :: "string \<Rightarrow> catalog \<Rightarrow> table_id option" where
  "FindTable name c = cat_names c name"

text \<open>\<open>tables_.at(id)\<close> throws \<open>out_of_range\<close> when the two maps disagree.\<close>

definition GetTable :: "string \<Rightarrow> catalog \<Rightarrow> table_entry option result" where
  "GetTable name c =
     (case cat_names c name of
        None \<Rightarrow> Inr None
      | Some i \<Rightarrow> (case map_of (cat_tables c) i of None \<Rightarrow> Inl Out_of_range | Some e \<Rightarrow> Inr (Some e)))"

definition GetTableById :: "table_id \<Rightarrow> catalog \<Rightarrow> table_entry option" where
  "GetTableById i c = map_of (cat_tables c) i"

subsection \<open>Loading\<close>

definition register_entry :: "table_entry \<Rightarrow> catalog \<Rightarrow> catalog" where
  "register_entry e c = c\<lparr>cat_names := (cat_names c)(te_name e \<mapsto> te_table_id e),
                          cat_tables := al_put (te_table_id e) e (cat_tables c)\<rparr>"

text \<open>The loop of V2 and V3: entries read before an exception stay registered.\<close>

fun load_entries :: "(binary_reader \<Rightarrow> (table_entry \<times> binary_reader) result) \<Rightarrow> nat \<Rightarrow> binary_reader
    \<Rightarrow> catalog \<Rightarrow> bool \<times> catalog" where
  "load_entries des 0 r c = (True, c)"
| "load_entries des (Suc n) r c =
     (case des r of Inl _ \<Rightarrow> (False, c) | Inr (e, r) \<Rightarrow> load_entries des n r (register_entry e c))"

definition load_counted :: "(binary_reader \<Rightarrow> (table_entry \<times> binary_reader) result) \<Rightarrow> binary_reader
    \<Rightarrow> catalog \<Rightarrow> bool \<times> catalog" where
  "load_counted des r c =
     (case ReadUInt32 r of Inl _ \<Rightarrow> (False, c) | Inr (n, r) \<Rightarrow> load_entries des (unat n) r c)"

definition LoadMeta :: "catalog \<Rightarrow> bool \<times> catalog" where
  "LoadMeta c =
     (case cat_file c of
        None \<Rightarrow> (False, c)
      | Some buffer \<Rightarrow>
          let c = c\<lparr>cat_names := Map.empty, cat_tables := []\<rparr>;
              v1 = (case CatalogMeta_Deserialize (reader_of buffer) of
                      Inl _ \<Rightarrow> (False, c)
                    | Inr (ps, _) \<Rightarrow>
                        (True, fold (\<lambda>(n, i). register_entry
                           \<lparr>te_table_id = i, te_name = n, te_schema = empty_schema\<rparr>) ps c))
          in case ReadUInt32 (reader_of buffer) of
               Inl _ \<Rightarrow> v1
             | Inr (magic, r) \<Rightarrow>
                 if magic = kCatalogMetaMagicV3 then load_counted Entry_Deserialize r c
                 else if magic = kCatalogMetaMagicV2 then load_counted Entry_DeserializeLegacy r c
                 else v1)"

subsection \<open>The invariant that ties the two maps\<close>

definition names_match :: "(string \<rightharpoonup> table_id) \<Rightarrow> (table_id \<rightharpoonup> table_entry) \<Rightarrow> bool" where
  "names_match N T \<longleftrightarrow>
     (\<forall>i e. T i = Some e \<longrightarrow> te_table_id e = i \<and> N (te_name e) = Some i) \<and>
     (\<forall>n i. N n = Some i \<longrightarrow> (\<exists>e. T i = Some e \<and> te_name e = n))"

definition cat_inv :: "catalog \<Rightarrow> bool" where
  "cat_inv c \<longleftrightarrow> distinct (map fst (cat_tables c)) \<and> names_match (cat_names c) (map_of (cat_tables c))"

text \<open>The id counter wraps after the last \<open>uint32_t\<close>; below it every new id is fresh.\<close>

definition ids_left :: "catalog \<Rightarrow> bool" where
  "ids_left c \<longleftrightarrow> 0xFFFFFFFF \<notin> fst ` set (cat_tables c)"

lemma map_of_replace:
  "map_of (map (\<lambda>(k', v'). (k', if k' = k then v else v')) xs) x =
     (if x = k then map_option (\<lambda>_. v) (map_of xs x) else map_of xs x)"
  by (induction xs) auto

lemma map_of_al_put [simp]: "map_of (al_put k v xs) = (map_of xs)(k \<mapsto> v)"
proof (cases "k \<in> fst ` set xs")
  case True
  then have "map_of xs k \<noteq> None" by (simp add: map_of_eq_None_iff)
  with True show ?thesis by (auto simp: al_put_def map_of_replace fun_eq_iff)
next
  case False
  then show ?thesis by (simp add: al_put_def)
qed

lemma distinct_al_put [simp]: "distinct (map fst (al_put k v xs)) \<longleftrightarrow> distinct (map fst xs)"
proof -
  have "map fst (map (\<lambda>(k', v'). (k', if k' = k then v else v')) xs) = map fst xs"
    by (induction xs) auto
  then show ?thesis by (cases "k \<in> fst ` set xs") (simp_all only: al_put_def if_True if_False list.map distinct.simps set_map fst_conv simp_thms)
qed

lemma map_of_al_erase [simp]: "map_of (al_erase k xs) = (map_of xs)(k := None)"
  by (induction xs) (auto simp: al_erase_def fun_eq_iff)

lemma distinct_al_erase [simp]: "distinct (map fst xs) \<Longrightarrow> distinct (map fst (al_erase k xs))"
  by (simp add: al_erase_def distinct_map_filter)

lemma SaveMeta_sel [simp]:
  "cat_names (snd (SaveMeta io c)) = cat_names c"
  "cat_tables (snd (SaveMeta io c)) = cat_tables c"
  by (simp_all add: SaveMeta_def Let_def split: prod.splits)

lemma SaveMeta_ok: "fst (SaveMeta io c) \<longleftrightarrow> io = Io_ok"
  by (cases io) (simp_all add: SaveMeta_def write_file_def)

lemma SaveMeta_file: "SaveMeta Io_ok c = (True, c\<lparr>cat_file := Some (catalog_bytes (cat_tables c))\<rparr>)"
  by (simp add: SaveMeta_def write_file_def)

lemma next_id_fold:
  assumes "(0xFFFFFFFF :: u32) \<notin> fst ` set xs"
  shows "n \<le> fold (\<lambda>(k, _) next. if k \<ge> next then k + 1 else next) xs n \<and>
    (\<forall>k \<in> fst ` set xs. k < fold (\<lambda>(k, _) next. if k \<ge> next then k + 1 else next) xs n)"
  using assms
proof (induction xs arbitrary: n)
  case Nil
  show ?case by simp
next
  case (Cons x xs)
  obtain k v where x: "x = (k, v)" by (cases x)
  have "k \<noteq> -1" using Cons.prems x by auto
  then have "k < k + 1" by (rule word_less_succ)
  define n' where "n' = (if k \<ge> n then k + 1 else n)"
  have n': "n \<le> n'" "k < n'" using \<open>k < k + 1\<close> by (auto simp: n'_def)
  have "n' \<le> fold (\<lambda>(k, _) next. if k \<ge> next then k + 1 else next) xs n' \<and>
    (\<forall>k \<in> fst ` set xs. k < fold (\<lambda>(k, _) next. if k \<ge> next then k + 1 else next) xs n')"
    using Cons by auto
  then show ?case using n' by (auto simp: x n'_def [symmetric])
qed

lemma NextTableId_fresh: "ids_left c \<Longrightarrow> map_of (cat_tables c) (NextTableId c) = None"
  using next_id_fold [of "cat_tables c" 0]
  by (auto simp: ids_left_def NextTableId_def map_of_eq_None_iff)

lemma cat_inv_empty: "cat_inv empty_catalog"
  by (simp add: cat_inv_def names_match_def empty_catalog_def)

lemma names_match_put:
  "names_match N T \<Longrightarrow> N (te_name e) = None \<Longrightarrow> T (te_table_id e) = None
    \<Longrightarrow> names_match (N(te_name e \<mapsto> te_table_id e)) (T(te_table_id e \<mapsto> e))"
  unfolding names_match_def by (auto split: if_splits) (metis option.distinct(1))+

lemma names_match_erase:
  "names_match N T \<Longrightarrow> N n = Some i \<Longrightarrow> names_match (N(n := None)) (T(i := None))"
  unfolding names_match_def by (auto split: if_splits) (metis option.inject)+

lemma register_inv:
  assumes "cat_inv c" "cat_names c (te_name e) = None" "map_of (cat_tables c) (te_table_id e) = None"
  shows "cat_inv (register_entry e c)"
  using assms by (simp add: cat_inv_def register_entry_def names_match_put)

lemma erase_inv:
  assumes "cat_inv c" "cat_names c name = Some i"
  shows "cat_inv (c\<lparr>cat_names := (cat_names c)(name := None), cat_tables := al_erase i (cat_tables c)\<rparr>)"
  using assms by (simp add: cat_inv_def names_match_erase)

lemma cat_inv_cong:
  "cat_names c = cat_names c' \<Longrightarrow> cat_tables c = cat_tables c' \<Longrightarrow> cat_inv c = cat_inv c'"
  by (simp add: cat_inv_def)

lemma SaveMeta_inv [simp]: "cat_inv (snd (SaveMeta io c)) = cat_inv c"
  by (rule cat_inv_cong) simp_all

lemma CreateTable_fresh:
  assumes "cat_names c name = None"
    "e = \<lparr>te_table_id = NextTableId c, te_name = name, te_schema = schema\<rparr>"
  shows "CreateTable Io_ok name schema c
    = (True, (register_entry e c)\<lparr>cat_file := Some (catalog_bytes (cat_tables (register_entry e c)))\<rparr>)"
  using assms by (simp add: CreateTable_def register_entry_def SaveMeta_file Let_def)

lemma CreateTable_not_ok:
  assumes "io \<noteq> Io_ok" "cat_names c name = None"
  obtains f e where "CreateTable io name schema c
    = (False, c\<lparr>cat_file := f, cat_names := (cat_names c)(name := None),
        cat_tables := al_erase (NextTableId c) (al_put (NextTableId c) e (cat_tables c))\<rparr>)" "io = Io_open_failed \<Longrightarrow> f = cat_file c"
proof -
  have "SaveMeta io c' = (False, c'\<lparr>cat_file := snd (write_file io (catalog_bytes (cat_tables c')) (cat_file c'))\<rparr>)" for c'
    using assms(1) by (cases io) (simp_all add: SaveMeta_def write_file_def)
  moreover have "snd (write_file Io_open_failed content f) = f" for content f by (simp add: write_file_def)
  ultimately show ?thesis using that assms(2) by (simp add: CreateTable_def Let_def)
qed

lemma DropTable_existing:
  "cat_names c name = Some i \<Longrightarrow> DropTable io name c
    = SaveMeta io (c\<lparr>cat_names := (cat_names c)(name := None), cat_tables := al_erase i (cat_tables c)\<rparr>)"
  by (simp add: DropTable_def)

subsection \<open>Reading back what was written\<close>

lemma load_entries_ser:
  assumes "\<forall>e\<in>set es. entry_fits e"
    "reader_rest r = concat (map (\<lambda>e. Entry_Serialize e []) es) @ post"
  shows "load_entries Entry_Deserialize (length es) r c = (True, fold register_entry es c)"
  using assms
proof (induction es arbitrary: r c)
  case Nil
  then show ?case by simp
next
  case (Cons e es)
  have "Entry_Deserialize r = Inr (e, reader_advance (length (Entry_Serialize e [])) r)"
    using Cons.prems by (intro entry_codec.des_ser) simp_all
  then show ?case using Cons by simp
qed

lemma catalog_bytes_eq:
  "catalog_bytes es = le_bytes 4 kCatalogMetaMagicV3 @ le_bytes 4 (u32_of (length es)) @
     concat (map (\<lambda>e. Entry_Serialize e []) (map snd es))"
proof -
  have "fold (\<lambda>(_, e). Entry_Serialize e) es = fold Entry_Serialize (map snd es)"
    by (simp add: fold_map comp_def case_prod_unfold)
  then show ?thesis
    unfolding catalog_bytes_def by (simp only: entry_codec.ser_list_append) (simp add: write_defs)
qed

lemma LoadMeta_catalog_bytes:
  assumes "length es < 2 ^ 32" "\<forall>e\<in>snd ` set es. entry_fits e" "cat_file c = Some (catalog_bytes es)"
  shows "LoadMeta c = (True, fold register_entry (map snd es) (c\<lparr>cat_names := Map.empty, cat_tables := []\<rparr>))"
proof -
  define r where "r = reader_of (catalog_bytes es)"
  have 1: "ReadUInt32 r = Inr (kCatalogMetaMagicV3, reader_advance 4 r)"
    by (simp add: r_def catalog_bytes_eq)
  have 2: "ReadUInt32 (reader_advance 4 r) = Inr (u32_of (length es), reader_advance 8 r)"
    by (simp add: r_def catalog_bytes_eq)
  have 3: "load_entries Entry_Deserialize (length (map snd es)) (reader_advance 8 r) c'
      = (True, fold register_entry (map snd es) c')" for c'
    using assms(2) by (intro load_entries_ser [where post = "[]"]) (simp_all add: r_def catalog_bytes_eq)
  show ?thesis
    using 1 2 3 assms(1,3)
    by (simp add: LoadMeta_def load_counted_def unat_u32_of r_def)
qed

lemma fold_register_names:
  "cat_names (fold register_entry es c) = fold (\<lambda>e m. m(te_name e \<mapsto> te_table_id e)) es (cat_names c)"
  by (induction es arbitrary: c) (simp_all add: register_entry_def)

lemma fold_register_tables:
  "map_of (cat_tables (fold register_entry es c)) = fold (\<lambda>e m. m(te_table_id e \<mapsto> e)) es (map_of (cat_tables c))"
  by (induction es arbitrary: c) (simp_all add: register_entry_def)

lemma fold_register_file [simp]: "cat_file (fold register_entry es c) = cat_file c"
  by (induction es arbitrary: c) (simp_all add: register_entry_def)

lemma names_match_distinct:
  assumes "distinct (map fst T)" "names_match N (map_of T)"
  shows "map (\<lambda>e. te_table_id e) (map snd T) = map fst T"
    "distinct (map te_name (map snd T))"
    "map_of (map (\<lambda>e. (te_name e, te_table_id e)) (map snd T)) = N"
proof -
  have mem: "map_of T i = Some e" if "(i, e) \<in> set T" for i e
    using assms(1) that by simp
  have id: "te_table_id e = i" "N (te_name e) = Some i" if "(i, e) \<in> set T" for i e
    using mem [OF that] assms(2) by (auto simp: names_match_def)
  show ids: "map (\<lambda>e. te_table_id e) (map snd T) = map fst T"
    using id(1) by (auto simp: map_eq_conv)
  have "distinct T" using assms(1) by (simp add: distinct_map)
  moreover have "inj_on (te_name \<circ> snd) (set T)"
  proof (rule inj_onI)
    fix p q assume p: "p \<in> set T" and q: "q \<in> set T" and eq: "(te_name \<circ> snd) p = (te_name \<circ> snd) q"
    have "fst p = fst q" using id(2) [of "fst p" "snd p"] id(2) [of "fst q" "snd q"] p q eq by simp
    moreover from this have "snd p = snd q"
      using p q by (metis mem option.inject prod.collapse)
    ultimately show "p = q" by (rule prod_eqI)
  qed
  ultimately show dn: "distinct (map te_name (map snd T))" by (simp add: distinct_map)
  show "map_of (map (\<lambda>e. (te_name e, te_table_id e)) (map snd T)) = N"
  proof (rule map_of_eqI)
    show "distinct (map fst (map (\<lambda>e. (te_name e, te_table_id e)) (map snd T)))"
      using dn by (simp add: comp_def)
  next
    fix n i
    show "(n, i) \<in> set (map (\<lambda>e. (te_name e, te_table_id e)) (map snd T)) \<longleftrightarrow> N n = Some i"
    proof
      assume "(n, i) \<in> set (map (\<lambda>e. (te_name e, te_table_id e)) (map snd T))"
      then show "N n = Some i" using id by auto
    next
      assume "N n = Some i"
      then obtain e where "map_of T i = Some e" "te_name e = n" using assms(2) unfolding names_match_def by blast
      then show "(n, i) \<in> set (map (\<lambda>e. (te_name e, te_table_id e)) (map snd T))"
        using id by (force dest: map_of_SomeD)
    qed
  qed
qed

definition catalog_fits :: "catalog \<Rightarrow> bool" where
  "catalog_fits c \<longleftrightarrow> length (cat_tables c) < 2 ^ 32 \<and> list_all (\<lambda>(_, e). entry_fits e) (cat_tables c)"

lemma LoadMeta_after_SaveMeta_aux:
  assumes "cat_inv c" "catalog_fits c" "cat_file c0 = Some (catalog_bytes (cat_tables c))"
  shows "fst (LoadMeta c0) \<and> cat_names (snd (LoadMeta c0)) = cat_names c
    \<and> map_of (cat_tables (snd (LoadMeta c0))) = map_of (cat_tables c)"
proof -
  have "\<forall>e\<in>snd ` set (cat_tables c). entry_fits e"
    using assms(2) by (auto simp: catalog_fits_def list_all_iff)
  then have load: "LoadMeta c0 = (True, fold register_entry (map snd (cat_tables c))
      (c0\<lparr>cat_names := Map.empty, cat_tables := []\<rparr>))"
    using assms(2,3) by (intro LoadMeta_catalog_bytes) (simp_all add: catalog_fits_def)
  have inv: "distinct (map fst (cat_tables c))" "names_match (cat_names c) (map_of (cat_tables c))"
    using assms(1) by (simp_all add: cat_inv_def)
  note nm = names_match_distinct [OF inv]
  have tables: "map (\<lambda>e. (te_table_id e, e)) (map snd (cat_tables c)) = cat_tables c"
    using nm(1) by (simp add: list_eq_iff_nth_eq prod_eq_iff)
  have "distinct (map te_table_id (map snd (cat_tables c)))" by (simp only: nm(1) inv(1))
  note fold_ids = fold_map_upd [OF this, where g = "\<lambda>e. e"]
  have "map_of (cat_tables (snd (LoadMeta c0))) = map_of (map (\<lambda>e. (te_table_id e, e)) (map snd (cat_tables c)))"
    using load by (simp add: fold_register_tables fold_ids)
  moreover have "cat_names (snd (LoadMeta c0)) = cat_names c"
    using load nm(2,3) by (simp add: fold_register_names fold_map_upd)
  ultimately show ?thesis using load tables by simp
qed

text \<open>C2: What \<open>Catalog::SaveMeta\<close> writes, \<open>Catalog::LoadMeta\<close> reads back: the same tables under
  the same ids and names, with their full schemas and keys, for every iteration order of the hash
  map.\<close>

theorem LoadMeta_after_SaveMeta:
  assumes "cat_inv c" "catalog_fits c" "SaveMeta io c = (True, c1)"
    "cat_file c0 = cat_file c1" "LoadMeta c0 = (ok, c2)"
  shows "ok \<and> cat_names c2 = cat_names c \<and> map_of (cat_tables c2) = map_of (cat_tables c)"
proof -
  have "io = Io_ok" using assms(3) SaveMeta_ok [of io c] by simp
  then have meta: "cat_file c0 = Some (catalog_bytes (cat_tables c))"
    using assms(3,4) SaveMeta_file [of c] by auto
  then show ?thesis using LoadMeta_after_SaveMeta_aux [OF assms(1,2)] assms(5) by fastforce
qed

subsection \<open>Creating, dropping and looking up tables\<close>

lemma catalog_ops_inv:
  assumes "cat_inv c" "ids_left c"
  shows "cat_inv (snd (CreateTable io name schema c)) \<and> cat_inv (snd (DropTable io name c))"
proof
  have fresh: "map_of (cat_tables c) (NextTableId c) = None" using assms(2) by (rule NextTableId_fresh)
  show "cat_inv (snd (CreateTable io name schema c))"
  proof (cases "cat_names c name = None")
    case False
    then show ?thesis using assms(1) by (auto simp: CreateTable_def)
  next
    case None: True
    show ?thesis
    proof (cases "io = Io_ok")
      case True
      define e where "e = \<lparr>te_table_id = NextTableId c, te_name = name, te_schema = schema\<rparr>"
      have "cat_inv (register_entry e c)"
        using assms(1) None fresh by (intro register_inv) (simp_all add: e_def)
      then show ?thesis using CreateTable_fresh [OF None e_def] True by (simp add: cat_inv_def)
    next
      case False
      obtain f e where "CreateTable io name schema c
        = (False, c\<lparr>cat_file := f, cat_names := (cat_names c)(name := None),
             cat_tables := al_erase (NextTableId c) (al_put (NextTableId c) e (cat_tables c))\<rparr>)" "io = Io_open_failed \<Longrightarrow> f = cat_file c"
        by (rule CreateTable_not_ok [OF False None, of schema]) blast
      moreover have "(cat_names c)(name := None) = cat_names c"
        "(map_of (cat_tables c))(NextTableId c := None) = map_of (cat_tables c)"
        using None fresh by auto
      ultimately show ?thesis using assms(1) by (simp add: cat_inv_def)
    qed
  qed
next
  show "cat_inv (snd (DropTable io name c))"
    using assms(1) by (cases "cat_names c name") (simp_all add: DropTable_def erase_inv)
qed

text \<open>\<open>Catalog::CreateTable\<close> and \<open>Catalog::DropTable\<close> keep the name index and the
  entry map consistent, whatever the outcome of the write, as long as the id counter has not
  reached its last value.\<close>

theorem catalog_ops_keep_invariant:
  assumes "cat_inv c" "ids_left c"
  shows "cat_inv (snd (CreateTable io name schema c)) \<and> cat_inv (snd (DropTable io name c))"
  using assms by (rule catalog_ops_inv)

lemma CreateTable_cases:
  assumes "cat_inv c" "ids_left c" "CreateTable io name schema c = (ok, c')"
  shows "(cat_names c name \<noteq> None \<longrightarrow> \<not> ok \<and> c' = c) \<and>
    (cat_names c name = None \<and> io = Io_ok \<longrightarrow> ok \<and>
       map_of (cat_tables c) (NextTableId c) = None \<and>
       FindTable name c' = Some (NextTableId c) \<and>
       GetTable name c' = Inr (Some \<lparr>te_table_id = NextTableId c, te_name = name, te_schema = schema\<rparr>) \<and>
       (\<forall>n. n \<noteq> name \<longrightarrow> FindTable n c' = FindTable n c \<and> GetTable n c' = GetTable n c) \<and>
       cat_file c' = Some (catalog_bytes (cat_tables c'))) \<and>
    (cat_names c name = None \<and> io \<noteq> Io_ok \<longrightarrow> \<not> ok \<and>
       cat_names c' = cat_names c \<and> map_of (cat_tables c') = map_of (cat_tables c) \<and>
       (io = Io_open_failed \<longrightarrow> cat_file c' = cat_file c))"
proof -
  have fresh: "map_of (cat_tables c) (NextTableId c) = None" using assms(2) by (rule NextTableId_fresh)
  have nm: "names_match (cat_names c) (map_of (cat_tables c))" using assms(1) by (simp add: cat_inv_def)
  show ?thesis
  proof (cases "cat_names c name = None")
    case False
    then show ?thesis using assms(3) by (auto simp: CreateTable_def)
  next
    case None: True
    show ?thesis
    proof (cases "io = Io_ok")
      case True
      define e where "e = \<lparr>te_table_id = NextTableId c, te_name = name, te_schema = schema\<rparr>"
      have "FindTable n c' = FindTable n c \<and> GetTable n c' = GetTable n c" if "n \<noteq> name" for n
      proof -
        have "cat_names c n \<noteq> Some (NextTableId c)" using nm fresh unfolding names_match_def by fastforce
        then show ?thesis using that True assms(3) CreateTable_fresh [OF None e_def]
          by (auto simp: FindTable_def GetTable_def register_entry_def e_def split: option.splits)
      qed
      then show ?thesis using None True fresh assms(3) CreateTable_fresh [OF None e_def]
        by (auto simp: FindTable_def GetTable_def register_entry_def e_def)
    next
      case False
      obtain f e where "CreateTable io name schema c
        = (False, c\<lparr>cat_file := f, cat_names := (cat_names c)(name := None),
             cat_tables := al_erase (NextTableId c) (al_put (NextTableId c) e (cat_tables c))\<rparr>)" "io = Io_open_failed \<Longrightarrow> f = cat_file c"
        by (rule CreateTable_not_ok [OF False None, of schema]) blast
      then show ?thesis using assms(3) None False fresh by (auto simp: fun_eq_iff)
    qed
  qed
qed

text \<open>C27: A successful \<open>Catalog::CreateTable\<close> binds the new name to a fresh id with exactly the
  given schema, changes no other table, and leaves a \<^verbatim>\<open>catalog.meta\<close> that describes the new
  directory; a taken name changes nothing.  When the file cannot be written the names and entries are what they were, and
  the file too if it could not be opened.\<close>

theorem CreateTable_effect:
  assumes "cat_inv c" "ids_left c" "CreateTable io name schema c = (ok, c')"
  shows "(cat_names c name \<noteq> None \<longrightarrow> \<not> ok \<and> c' = c) \<and>
    (cat_names c name = None \<and> io = Io_ok \<longrightarrow> ok \<and>
       map_of (cat_tables c) (NextTableId c) = None \<and>
       FindTable name c' = Some (NextTableId c) \<and>
       GetTable name c' = Inr (Some \<lparr>te_table_id = NextTableId c, te_name = name, te_schema = schema\<rparr>) \<and>
       (\<forall>n. n \<noteq> name \<longrightarrow> FindTable n c' = FindTable n c \<and> GetTable n c' = GetTable n c) \<and>
       cat_file c' = Some (catalog_bytes (cat_tables c'))) \<and>
    (cat_names c name = None \<and> io \<noteq> Io_ok \<longrightarrow> \<not> ok \<and>
       cat_names c' = cat_names c \<and> map_of (cat_tables c') = map_of (cat_tables c) \<and>
       (io = Io_open_failed \<longrightarrow> cat_file c' = cat_file c))"
  using assms by (rule CreateTable_cases)

lemma GetTable_total:
  assumes "cat_inv c"
  shows "\<exists>r. GetTable name c = Inr r \<and> (r = None \<longleftrightarrow> FindTable name c = None) \<and>
    (\<forall>e. r = Some e \<longrightarrow> te_name e = name \<and> FindTable name c = Some (te_table_id e)
       \<and> GetTableById (te_table_id e) c = Some e)"
proof (cases "cat_names c name")
  case None
  then show ?thesis by (simp add: GetTable_def FindTable_def)
next
  case (Some i)
  then obtain e where "map_of (cat_tables c) i = Some e" "te_name e = name" "te_table_id e = i"
    using assms unfolding cat_inv_def names_match_def by metis
  then show ?thesis using Some by (simp add: GetTable_def FindTable_def GetTableById_def)
qed

text \<open>When the write of \<^verbatim>\<open>catalog.meta\<close> fails, \<open>Catalog::DropTable\<close> answers false and yet the
  table is gone from memory while the old file, read again, still holds it: unlike
  \<open>CreateTable\<close> it does not roll back.\<close>

theorem DropTable_no_rollback:
  assumes "cat_inv c" "catalog_fits c" "cat_file c = Some (catalog_bytes (cat_tables c))"
    "FindTable name c = Some i" "DropTable Io_open_failed name c = (ok, c')"
  shows "\<not> ok \<and> FindTable name c' = None \<and> FindTable name (snd (LoadMeta c')) = Some i"
proof -
  define c1 where "c1 = c\<lparr>cat_names := (cat_names c)(name := None), cat_tables := al_erase i (cat_tables c)\<rparr>"
  have drop: "DropTable Io_open_failed name c = SaveMeta Io_open_failed c1"
    using assms(4) by (simp add: FindTable_def DropTable_existing c1_def)
  have "SaveMeta Io_open_failed c1 = (False, c1)"
    by (simp add: SaveMeta_def write_file_def)
  then have c': "ok = False" "c' = c1" using drop assms(5) by auto
  have "SaveMeta Io_ok c = (True, c)" using assms(3) by (simp add: SaveMeta_file)
  moreover have "cat_file c' = cat_file c" by (simp add: c' c1_def)
  ultimately have "cat_names (snd (LoadMeta c')) = cat_names c"
    using LoadMeta_after_SaveMeta_aux [OF assms(1,2)] assms(3) by simp
  then show ?thesis using assms(4) by (simp add: c' c1_def FindTable_def)
qed

end
