(* ===== verification/Ast.thy ===== *)
theory Ast
  imports Schema
begin

text \<open>
  \<^verbatim>\<open>src/src/sql/ast/expression.h\<close>, \<^verbatim>\<open>statement.h\<close> and \<^verbatim>\<open>statement.cpp\<close>: the syntax trees
  and their \<open>ToString\<close>.  A \<open>unique_ptr\<close> that the parser may leave null is an option.
\<close>

subsection \<open>Decimal text\<close>

definition digit_char :: "nat \<Rightarrow> char" where
  "digit_char d = char_of (48 + d)"

fun nat_str :: "nat \<Rightarrow> string" where
  "nat_str n = (if n < 10 then [digit_char n] else nat_str (n div 10) @ [digit_char (n mod 10)])"

declare nat_str.simps [simp del]

definition int_str :: "int \<Rightarrow> string" where
  "int_str k = (if k < 0 then CHR ''-'' # nat_str (nat (- k)) else nat_str (nat k))"

text \<open>
  \<open>std::to_string(double)\<close> is \<open>"%f"\<close>: six digits after the point, rounded half to even on the
  exact value, which is \<open>ieee_units / 2^1074\<close>.
\<close>

definition double_str :: "f64 \<Rightarrow> string" where
  "double_str d =
     (if ieee_neg d then ''-'' else '''') @
     (if f64_nan d then ''nan''
      else if f64_is_inf d then ''inf''
      else let n = rhe (fp_val 52 (ieee_mag d) * 10 ^ 6) (2 ^ 1074);
               frac = nat_str (n mod 10 ^ 6)
           in nat_str (n div 10 ^ 6) @ ''.'' @ replicate (6 - length frac) (CHR ''0'') @ frac)"

subsection \<open>Expressions\<close>

datatype literal = Lit_int i32 | Lit_double f64 | Lit_string string

datatype op_type = OP_ADD | OP_SUB | OP_EQ | OP_NE | OP_GT | OP_GE | OP_LT | OP_LE | OP_AND | OP_OR

datatype expr =
    ColumnRef string
  | Literal literal
  | BinaryOp op_type expr expr
  | AggFunc agg_type "expr option"

fun op_name :: "op_type \<Rightarrow> string" where
  "op_name OP_ADD = ''+''"
| "op_name OP_SUB = ''-''"
| "op_name OP_EQ = ''=''"
| "op_name OP_NE = ''!=''"
| "op_name OP_GT = ''>''"
| "op_name OP_GE = ''>=''"
| "op_name OP_LT = ''<''"
| "op_name OP_LE = ''<=''"
| "op_name OP_AND = ''AND''"
| "op_name OP_OR = ''OR''"

fun agg_name :: "agg_type \<Rightarrow> string" where
  "agg_name AGG_INVALID = ''INVALID''"
| "agg_name AGG_SUM = ''SUM''"
| "agg_name AGG_COUNT = ''COUNT''"
| "agg_name AGG_AVG = ''AVG''"
| "agg_name AGG_MIN = ''MIN''"
| "agg_name AGG_MAX = ''MAX''"

fun Literal_ToString :: "literal \<Rightarrow> string" where
  "Literal_ToString (Lit_int i) = int_str (sint i)"
| "Literal_ToString (Lit_double d) = double_str d"
| "Literal_ToString (Lit_string s) = [CHR 0x27] @ s @ [CHR 0x27]"

fun Expr_ToString :: "expr \<Rightarrow> string" where
  "Expr_ToString (ColumnRef n) = n"
| "Expr_ToString (Literal l) = Literal_ToString l"
| "Expr_ToString (BinaryOp p l r) =
     ''('' @ Expr_ToString l @ '' '' @ op_name p @ '' '' @ Expr_ToString r @ '')''"
| "Expr_ToString (AggFunc a None) = agg_name a @ ''('' @ ''*'' @ '')''"
| "Expr_ToString (AggFunc a (Some e)) = agg_name a @ ''('' @ Expr_ToString e @ '')''"

subsection \<open>Statements\<close>

record select_item =
  si_expr :: expr
  si_alias :: string

record select_statement =
  sel_table_name :: string
  sel_select_list :: "select_item list"
  sel_where_clause :: "expr option"
  sel_group_by :: "expr list"

record insert_statement =
  ins_table_name :: string
  ins_columns :: "string list"
  ins_values :: "expr list list"

record key_constraint =
  kc_type :: key_type
  kc_name :: string
  kc_columns :: "string list"

record create_table_statement =
  crt_table_name :: string
  crt_if_not_exists :: bool
  crt_columns :: "column_schema list"
  crt_keys :: "key_constraint list"

datatype statement =
    Stmt_select select_statement
  | Stmt_insert insert_statement
  | Stmt_create create_table_statement

text \<open>The loops that print \<open>", "\<close> between the elements.\<close>

fun comma_sep :: "string list \<Rightarrow> string" where
  "comma_sep [] = ''''"
| "comma_sep [x] = x"
| "comma_sep (x # xs) = x @ '', '' @ comma_sep xs"

definition Select_ToString :: "select_statement \<Rightarrow> string" where
  "Select_ToString s =
     ''SELECT '' @
     comma_sep (map (\<lambda>it. if si_alias it \<noteq> '''' then si_alias it else ''<expr>'') (sel_select_list s)) @
     '' FROM '' @ sel_table_name s @
     (if sel_where_clause s \<noteq> None then '' WHERE <cond>'' else '''') @
     (if sel_group_by s \<noteq> [] then '' GROUP BY <keys>'' else '''')"

definition Insert_ToString :: "insert_statement \<Rightarrow> string" where
  "Insert_ToString s =
     ''INSERT INTO '' @ ins_table_name s @
     (if ins_columns s \<noteq> [] then '' ('' @ comma_sep (ins_columns s) @ '')'' else '''') @
     '' VALUES '' @
     comma_sep (map (\<lambda>row. ''('' @ comma_sep (map Expr_ToString row) @ '')'') (ins_values s))"

definition newline :: string where
  "newline = [CHR 0x0A]"

fun type_name :: "data_type \<Rightarrow> string" where
  "type_name DT_INVALID = ''INVALID''"
| "type_name DT_INT32 = ''INT32''"
| "type_name DT_INT64 = ''INT64''"
| "type_name DT_FLOAT = ''FLOAT''"
| "type_name DT_DOUBLE = ''DOUBLE''"
| "type_name DT_VARCHAR = ''VARCHAR''"

text \<open>Items on lines of their own, a comma after each but the last; \<open>goes_on\<close>: another list follows.\<close>

fun item_lines :: "bool \<Rightarrow> string list \<Rightarrow> string" where
  "item_lines goes_on [] = ''''"
| "item_lines goes_on (x # xs) = ''  '' @ x @ (if xs \<noteq> [] \<or> goes_on then '','' else '''') @ newline @ item_lines goes_on xs"

definition CreateTable_ToString :: "create_table_statement \<Rightarrow> string" where
  "CreateTable_ToString s =
     ''CREATE TABLE '' @ (if crt_if_not_exists s then ''IF NOT EXISTS '' else '''') @
     crt_table_name s @ '' ('' @ newline @
     item_lines (crt_keys s \<noteq> []) (map (\<lambda>c. cs_name c @ '' '' @ type_name (cs_type c)) (crt_columns s)) @
     item_lines False (map (\<lambda>k.
        (if kc_type k = KT_PRIMARY then ''PRIMARY KEY'' else ''KEY'') @
        (if kc_name k \<noteq> '''' then '' '' @ kc_name k else '''') @
        '' ('' @ comma_sep (kc_columns k) @ '')'') (crt_keys s)) @
     '')''"

subsection \<open>Digits\<close>

definition digit_val :: "char \<Rightarrow> nat" where
  "digit_val c = of_char c - 48"

definition digits_val :: "string \<Rightarrow> nat" where
  "digits_val s = foldl (\<lambda>a c. 10 * a + digit_val c) 0 s"

lemma digit_val_char [simp]: "d < 10 \<Longrightarrow> digit_val (digit_char d) = d"
  by (simp add: digit_val_def digit_char_def)

lemma digits_val_nat_str [simp]: "digits_val (nat_str n) = n"
proof (induction n rule: nat_str.induct)
  case (1 n)
  then show ?case by (subst nat_str.simps) (simp add: digits_val_def)
qed

lemma nat_str_not_Nil [simp]: "nat_str n \<noteq> []"
  by (subst nat_str.simps) simp

end
