(* ===== verification/Binder.thy ===== *)
theory Binder
  imports Catalog Ast
begin

text \<open>
  \<^verbatim>\<open>src/src/planner/binder.cpp\<close> with \<^verbatim>\<open>boundexpr.{h,cpp}\<close> and \<^verbatim>\<open>boundstat.h\<close>: names to
  (table id, column index), types, and the checks a statement passes before planning.
  \<open>context_\<close> is an option: it is null until a SELECT has been bound, and reading through it
  while it is null is \<open>Undefined_behaviour\<close>.
\<close>

subsection \<open>Bound expressions\<close>

datatype bound_expr =
    BColumnRef u32 u32 data_type
  | BLiteral literal data_type
  | BBinaryOp op_type bound_expr bound_expr data_type
  | BAggFunc agg_type "bound_expr option" data_type

fun return_type :: "bound_expr \<Rightarrow> data_type" where
  "return_type (BColumnRef _ _ ty) = ty"
| "return_type (BLiteral _ ty) = ty"
| "return_type (BBinaryOp _ _ _ ty) = ty"
| "return_type (BAggFunc _ _ ty) = ty"

text \<open>\<open>==\<close> on \<open>std::variant<int32_t, std::string, double>\<close>.\<close>

fun literal_eq :: "literal \<Rightarrow> literal \<Rightarrow> bool" where
  "literal_eq (Lit_int a) (Lit_int b) = (a = b)"
| "literal_eq (Lit_string a) (Lit_string b) = (a = b)"
| "literal_eq (Lit_double a) (Lit_double b) = f64_eq a b"
| "literal_eq _ _ = False"

text \<open>\<open>*agg_a.arg\<close> is dereferenced without a test: comparing two \<open>COUNT(*)\<close> reads through null.\<close>

fun IsExprEqual :: "bound_expr \<Rightarrow> bound_expr \<Rightarrow> bool result" where
  "IsExprEqual (BColumnRef t c _) (BColumnRef t' c' _) = Inr (t = t' \<and> c = c')"
| "IsExprEqual (BLiteral l _) (BLiteral l' _) = Inr (literal_eq l l')"
| "IsExprEqual (BBinaryOp p a b _) (BBinaryOp p' a' b' _) =
     (if p \<noteq> p' then Inr False
      else bind_r (IsExprEqual a a') (\<lambda>eq. if \<not> eq then Inr False else IsExprEqual b b'))"
| "IsExprEqual (BAggFunc g x _) (BAggFunc g' y _) =
     (if g \<noteq> g' then Inr False
      else case (x, y) of (Some a, Some b) \<Rightarrow> IsExprEqual a b | _ \<Rightarrow> Inl Undefined_behaviour)"
| "IsExprEqual _ _ = Inr False"

fun ContainsAggregate :: "bound_expr \<Rightarrow> bool" where
  "ContainsAggregate (BAggFunc _ _ _) = True"
| "ContainsAggregate (BBinaryOp _ l r _) = (ContainsAggregate l \<or> ContainsAggregate r)"
| "ContainsAggregate _ = False"

subsection \<open>Bound statements\<close>

record bound_select_item =
  bsi_expr :: bound_expr
  bsi_alias :: string

record bound_select =
  bs_table_oid :: u32
  bs_select_list :: "bound_select_item list"
  bs_where_clause :: "bound_expr option"
  bs_group_by :: "bound_expr list"

record bound_insert =
  bi_table_oid :: u32
  bi_target_col_indices :: "u32 list"
  bi_values :: "bound_expr list list"

record bound_create_table =
  bc_table_name :: string
  bc_schema :: table_schema

datatype bound_statement =
    Bound_select bound_select
  | Bound_insert bound_insert
  | Bound_create bound_create_table

subsection \<open>The context\<close>

record bound_table =
  bt_oid :: u32
  bt_alias :: string
  bt_columns :: "column_schema list"

type_synonym binder_context = "bound_table list"

fun column_position :: "string \<Rightarrow> column_schema list \<Rightarrow> nat option" where
  "column_position name [] = None"
| "column_position name (c # cs) = (if cs_name c = name then Some 0 else map_option Suc (column_position name cs))"

fun Context_FindColumn :: "string \<Rightarrow> binder_context \<Rightarrow> (u32 \<times> u32) option" where
  "Context_FindColumn name [] = None"
| "Context_FindColumn name (t # ts) =
     (case column_position name (bt_columns t) of
        Some i \<Rightarrow> Some (bt_oid t, u32_of i) | None \<Rightarrow> Context_FindColumn name ts)"

fun GetColumnType :: "u32 \<Rightarrow> u32 \<Rightarrow> binder_context \<Rightarrow> data_type" where
  "GetColumnType oid i [] = DT_INVALID"
| "GetColumnType oid i (t # ts) =
     (if bt_oid t \<noteq> oid then GetColumnType oid i ts
      else if unat i \<ge> length (bt_columns t) then DT_INVALID
      else cs_type (bt_columns t ! unat i))"

subsection \<open>Expressions\<close>

definition IsTypeCompatible :: "data_type \<Rightarrow> data_type \<Rightarrow> bool" where
  "IsTypeCompatible expected actual \<longleftrightarrow> expected = actual"

definition IsNumeric :: "data_type \<Rightarrow> bool" where
  "IsNumeric ty \<longleftrightarrow> ty = DT_INT32 \<or> ty = DT_INT64 \<or> ty = DT_FLOAT \<or> ty = DT_DOUBLE"

definition BindColumnRef :: "binder_context option \<Rightarrow> string \<Rightarrow> bound_expr result" where
  "BindColumnRef ctx name =
     (case ctx of
        None \<Rightarrow> Inl Undefined_behaviour
      | Some tables \<Rightarrow> (case Context_FindColumn name tables of
          None \<Rightarrow> Inl (Semantic_error (''Column not found: '' @ name))
        | Some (oid, i) \<Rightarrow> Inr (BColumnRef oid i (GetColumnType oid i tables))))"

fun literal_type :: "literal \<Rightarrow> data_type" where
  "literal_type (Lit_int _) = DT_INT32"
| "literal_type (Lit_double _) = DT_DOUBLE"
| "literal_type (Lit_string _) = DT_VARCHAR"

definition BindLiteral :: "literal \<Rightarrow> bound_expr" where
  "BindLiteral l = BLiteral l (literal_type l)"

definition binary_type :: "op_type \<Rightarrow> data_type \<Rightarrow> data_type \<Rightarrow> data_type" where
  "binary_type p l r =
     (if p \<in> {OP_EQ, OP_NE, OP_GT, OP_GE, OP_LT, OP_LE, OP_AND, OP_OR} then DT_INT32
      else if l = DT_DOUBLE \<or> r = DT_DOUBLE then DT_DOUBLE else l)"

text \<open>The checks of \<open>BindAggFunc\<close> on a bound argument.\<close>

definition bind_agg :: "agg_type \<Rightarrow> bound_expr \<Rightarrow> bound_expr result" where
  "bind_agg g arg =
     (if ContainsAggregate arg then Inl (Semantic_error ''Nested aggregate functions are not supported'')
      else case g of
        AGG_COUNT \<Rightarrow> Inr (BAggFunc g (Some arg) DT_INT64)
      | AGG_AVG \<Rightarrow> if \<not> IsNumeric (return_type arg) then Inl (Semantic_error ''AVG requires numeric input'')
                   else Inr (BAggFunc g (Some arg) DT_DOUBLE)
      | AGG_SUM \<Rightarrow> if \<not> IsNumeric (return_type arg) then Inl (Semantic_error ''SUM requires numeric input'')
                   else Inr (BAggFunc g (Some arg) DT_DOUBLE)
      | AGG_MIN \<Rightarrow> Inr (BAggFunc g (Some arg) (return_type arg))
      | AGG_MAX \<Rightarrow> Inr (BAggFunc g (Some arg) (return_type arg))
      | AGG_INVALID \<Rightarrow> Inl (Semantic_error ''Unsupported aggregate function''))"

fun BindExpr :: "binder_context option \<Rightarrow> expr \<Rightarrow> bound_expr result" where
  "BindExpr ctx (ColumnRef name) = BindColumnRef ctx name"
| "BindExpr ctx (Literal l) = Inr (BindLiteral l)"
| "BindExpr ctx (BinaryOp p l r) =
     bind_r (BindExpr ctx l) (\<lambda>left. bind_r (BindExpr ctx r) (\<lambda>right.
       Inr (BBinaryOp p left right (binary_type p (return_type left) (return_type right)))))"
| "BindExpr ctx (AggFunc g None) =
     (if g \<noteq> AGG_COUNT then Inl (Semantic_error ''Only COUNT(*) may omit aggregate argument'')
      else Inr (BAggFunc AGG_COUNT None DT_INT64))"
| "BindExpr ctx (AggFunc g (Some e)) = bind_r (BindExpr ctx e) (bind_agg g)"

subsection \<open>SELECT\<close>

fun IsInGroupBy :: "bound_expr \<Rightarrow> bound_expr list \<Rightarrow> bool result" where
  "IsInGroupBy e [] = Inr False"
| "IsInGroupBy e (g # gs) = bind_r (IsExprEqual e g) (\<lambda>eq. if eq then Inr True else IsInGroupBy e gs)"

fun ValidateAggregations :: "bound_select_item list \<Rightarrow> bound_expr list \<Rightarrow> unit result" where
  "ValidateAggregations [] group_by = Inr ()"
| "ValidateAggregations (item # items) group_by =
     (if \<not> ContainsAggregate (bsi_expr item) \<and> group_by \<noteq> [] then
        bind_r (IsInGroupBy (bsi_expr item) group_by) (\<lambda>found.
          if \<not> found then Inl (Semantic_error ''SELECT column must appear in GROUP BY clause.'')
          else ValidateAggregations items group_by)
      else ValidateAggregations items group_by)"

definition BindTableRef :: "catalog \<Rightarrow> string \<Rightarrow> bound_table result" where
  "BindTableRef cat name =
     (case FindTable name cat of
        None \<Rightarrow> Inl (Semantic_error (''Table not found: '' @ name))
      | Some oid \<Rightarrow> bind_r (GetTable name cat) (\<lambda>entry. case entry of
          None \<Rightarrow> Inl (Semantic_error (''Failed to load table: '' @ name))
        | Some e \<Rightarrow> Inr \<lparr>bt_oid = oid, bt_alias = name, bt_columns = ts_columns (te_schema e)\<rparr>))"

definition BindSelectList :: "binder_context \<Rightarrow> select_item list \<Rightarrow> bound_select_item list result" where
  "BindSelectList ctx items =
     (if length items = 1 \<and> si_expr (hd items) = ColumnRef ''*'' then
        (case ctx of
           [] \<Rightarrow> Inl (Semantic_error ''SELECT * requires a FROM table'')
         | table # _ \<Rightarrow> Inr (map (\<lambda>i.
             \<lparr>bsi_expr = BColumnRef (bt_oid table) (u32_of i) (cs_type (bt_columns table ! i)),
              bsi_alias = cs_name (bt_columns table ! i)\<rparr>) [0..<unat (u32_of (length (bt_columns table)))]))
      else map_r (\<lambda>item. bind_r (BindExpr (Some ctx) (si_expr item)) (\<lambda>e.
             Inr \<lparr>bsi_expr = e, bsi_alias = si_alias item\<rparr>)) items)"

definition BindGroupBy :: "binder_context \<Rightarrow> expr list \<Rightarrow> bound_expr list result" where
  "BindGroupBy ctx es = map_r (BindExpr (Some ctx)) es"

text \<open>\<open>BindSelect\<close> replaces \<open>context_\<close> before it can throw: the second component is the new one.\<close>

definition BindSelect :: "catalog \<Rightarrow> select_statement \<Rightarrow> bound_select result \<times> binder_context option" where
  "BindSelect cat stmt =
     (case BindTableRef cat (sel_table_name stmt) of
        Inl e \<Rightarrow> (Inl e, Some [])
      | Inr table \<Rightarrow> (bind_r (BindSelectList [table] (sel_select_list stmt)) (\<lambda>items.
          bind_r (case sel_where_clause stmt of
                    None \<Rightarrow> Inr None
                  | Some e \<Rightarrow> bind_r (BindExpr (Some [table]) e) (\<lambda>b. Inr (Some b))) (\<lambda>cond.
          bind_r (BindGroupBy [table] (sel_group_by stmt)) (\<lambda>group_by.
          bind_r (ValidateAggregations items group_by) (\<lambda>_.
          Inr \<lparr>bs_table_oid = bt_oid table, bs_select_list = items, bs_where_clause = cond,
               bs_group_by = group_by\<rparr>)))), Some [table]))"

subsection \<open>CREATE TABLE\<close>

definition bind_column ::
  "nat \<times> column_schema \<Rightarrow> (string \<rightharpoonup> column_id) \<times> column_schema list \<Rightarrow>
   ((string \<rightharpoonup> column_id) \<times> column_schema list) result" where
  "bind_column ic st =
     (case (ic, st) of ((i, col), (ids, cols)) \<Rightarrow>
        if cs_name col = '''' then Inl (Semantic_error ''Column name cannot be empty'')
        else if ids (cs_name col) \<noteq> None then Inl (Semantic_error (''Duplicate column name: '' @ cs_name col))
        else if cs_type col = DT_INVALID then Inl (Semantic_error (''Invalid data type for column: '' @ cs_name col))
        else Inr (ids(cs_name col \<mapsto> u32_of i),
                  cols @ [\<lparr>cs_column_id = u32_of i, cs_name = cs_name col, cs_type = cs_type col\<rparr>]))"

text \<open>The loop runs to \<open>static_cast<uint32_t>(size())\<close>.\<close>

definition bind_columns :: "column_schema list \<Rightarrow> ((string \<rightharpoonup> column_id) \<times> column_schema list) result" where
  "bind_columns cols = fold_r bind_column (enumerate 0 (take (unat (u32_of (length cols))) cols)) (Map.empty, [])"

definition bind_key_column ::
  "(string \<rightharpoonup> column_id) \<Rightarrow> string \<Rightarrow> column_id set \<times> column_id list \<Rightarrow> (column_id set \<times> column_id list) result" where
  "bind_key_column ids name st =
     (case ids name of
        None \<Rightarrow> Inl (Semantic_error (''Key references unknown column: '' @ name))
      | Some c \<Rightarrow> if c \<in> fst st then Inl (Semantic_error (''Duplicate column in key definition: '' @ name))
                  else Inr (insert c (fst st), snd st @ [c]))"

record key_state =
  kst_next_key_id :: key_id
  kst_secondary_names :: "string set"
  kst_primary :: "key_schema option"
  kst_secondary :: "key_schema list"

definition bind_key :: "(string \<rightharpoonup> column_id) \<Rightarrow> key_constraint \<Rightarrow> key_state \<Rightarrow> key_state result" where
  "bind_key ids key st =
     (if kc_columns key = [] then Inl (Semantic_error ''Key definition must contain at least one column'')
      else
        let key_id = kst_next_key_id st; st = st\<lparr>kst_next_key_id := key_id + 1\<rparr> in
        bind_r (fold_r (bind_key_column ids) (kc_columns key) ({}, [])) (\<lambda>(_, cols).
          if kc_type key = KT_PRIMARY then
            (if kst_primary st \<noteq> None then Inl (Semantic_error ''Multiple PRIMARY KEY definitions'')
             else Inr (st\<lparr>kst_primary := Some \<lparr>ks_key_id = key_id, ks_name = kPrimaryKeyName,
                                               ks_type = KT_PRIMARY, ks_columns = cols\<rparr>\<rparr>))
          else
            (let name = (if kc_name key = '''' then ''key_'' @ nat_str (unat key_id) else kc_name key) in
             if name \<in> kst_secondary_names st
             then Inl (Semantic_error (''Duplicate secondary key name: '' @ name))
             else Inr (st\<lparr>kst_secondary_names := insert name (kst_secondary_names st),
                          kst_secondary := kst_secondary st @
                            [\<lparr>ks_key_id = key_id, ks_name = name, ks_type = KT_SECONDARY, ks_columns = cols\<rparr>]\<rparr>))))"

definition init_keys :: key_state where
  "init_keys = \<lparr>kst_next_key_id = 0, kst_secondary_names = {}, kst_primary = None, kst_secondary = []\<rparr>"

definition BindCreateTable :: "catalog \<Rightarrow> create_table_statement \<Rightarrow> bound_create_table result" where
  "BindCreateTable cat stmt =
     (if FindTable (crt_table_name stmt) cat \<noteq> None
      then Inl (Semantic_error (''Table already exists: '' @ crt_table_name stmt))
      else bind_r (bind_columns (crt_columns stmt)) (\<lambda>(ids, cols).
        bind_r (fold_r (bind_key ids) (crt_keys stmt) init_keys) (\<lambda>st.
        Inr \<lparr>bc_table_name = crt_table_name stmt,
             bc_schema = \<lparr>ts_columns = cols, ts_primary_key = kst_primary st, ts_secondary_keys = kst_secondary st\<rparr>\<rparr>)))"

subsection \<open>INSERT\<close>

definition target_column :: "column_schema list \<Rightarrow> string \<Rightarrow> string set \<times> u32 list \<Rightarrow> (string set \<times> u32 list) result" where
  "target_column cols name st =
     (if name \<in> fst st then Inl (Semantic_error (''Duplicate column in INSERT: '' @ name))
      else case column_position name cols of
        None \<Rightarrow> Inl (Semantic_error (''Column not found in table: '' @ name))
      | Some j \<Rightarrow> Inr (insert name (fst st), snd st @ [u32_of j]))"

definition target_columns :: "table_schema \<Rightarrow> insert_statement \<Rightarrow> u32 list result" where
  "target_columns schema stmt =
     (if ins_columns stmt = [] then
        (if ins_values stmt \<noteq> [] \<and> length (hd (ins_values stmt)) \<noteq> length (ts_columns schema)
         then Inl (Semantic_error ''INSERT VALUES size mismatch with table schema'')
         else Inr (map u32_of [0..<length (ts_columns schema)]))
      else
        (if ins_values stmt \<noteq> [] \<and> length (hd (ins_values stmt)) \<noteq> length (ins_columns stmt)
         then Inl (Semantic_error ''INSERT VALUES size mismatch with specified columns'')
         else bind_r (fold_r (target_column (ts_columns schema)) (ins_columns stmt) ({}, [])) (\<lambda>(_, js). Inr js)))"

definition bind_value :: "binder_context option \<Rightarrow> table_schema \<Rightarrow> u32 \<times> expr \<Rightarrow> bound_expr result" where
  "bind_value ctx schema je =
     (case je of (j, e) \<Rightarrow>
        if (case e of ColumnRef _ \<Rightarrow> True | AggFunc _ _ \<Rightarrow> True | _ \<Rightarrow> False)
        then Inl (Semantic_error (''INSERT VALUES must be constant expressions, got: '' @ Expr_ToString e))
        else bind_r (BindExpr ctx e) (\<lambda>b.
          if \<not> IsTypeCompatible (cs_type (ts_columns schema ! unat j)) (return_type b)
          then Inl (Semantic_error (''Type mismatch in INSERT for column index '' @ nat_str (unat j)))
          else Inr b))"

definition bind_row :: "binder_context option \<Rightarrow> table_schema \<Rightarrow> u32 list \<Rightarrow> expr list \<Rightarrow> bound_expr list result" where
  "bind_row ctx schema targets row =
     (if length row \<noteq> length targets then Inl (Semantic_error ''INSERT row values size mismatch'')
      else map_r (bind_value ctx schema) (zip targets row))"

definition BindInsert :: "binder_context option \<Rightarrow> catalog \<Rightarrow> insert_statement \<Rightarrow> bound_insert result" where
  "BindInsert ctx cat stmt =
     bind_r (GetTable (ins_table_name stmt) cat) (\<lambda>entry. case entry of
       None \<Rightarrow> Inl (Semantic_error (''Table not found: '' @ ins_table_name stmt))
     | Some e \<Rightarrow>
         bind_r (target_columns (te_schema e) stmt) (\<lambda>targets.
         bind_r (map_r (bind_row ctx (te_schema e) targets) (ins_values stmt)) (\<lambda>rows.
         case FindTable (ins_table_name stmt) cat of
           None \<Rightarrow> Inl (Runtime_error ''bad optional access'')
         | Some oid \<Rightarrow> Inr \<lparr>bi_table_oid = oid, bi_target_col_indices = targets, bi_values = rows\<rparr>)))"

subsection \<open>The dispatcher\<close>

definition BindStatement ::
  "catalog \<Rightarrow> statement \<Rightarrow> binder_context option \<Rightarrow> bound_statement result \<times> binder_context option" where
  "BindStatement cat stmt ctx =
     (case stmt of
        Stmt_select s \<Rightarrow> (case BindSelect cat s of (r, ctx') \<Rightarrow> (bind_r r (\<lambda>b. Inr (Bound_select b)), ctx'))
      | Stmt_insert s \<Rightarrow> (bind_r (BindInsert ctx cat s) (\<lambda>b. Inr (Bound_insert b)), ctx)
      | Stmt_create s \<Rightarrow> (bind_r (BindCreateTable cat s) (\<lambda>b. Inr (Bound_create b)), ctx))"

subsection \<open>CREATE TABLE gives a well-formed schema\<close>

definition key_ok :: "nat \<Rightarrow> key_schema \<Rightarrow> bool" where
  "key_ok n k \<longleftrightarrow> ks_columns k \<noteq> [] \<and> distinct (ks_columns k) \<and> set (ks_columns k) \<subseteq> u32_of ` {..<n}"

definition schema_keys :: "table_schema \<Rightarrow> key_schema list" where
  "schema_keys s = (case ts_primary_key s of None \<Rightarrow> [] | Some k \<Rightarrow> [k]) @ ts_secondary_keys s"

definition columns_ok :: "column_schema list \<Rightarrow> bool" where
  "columns_ok cols \<longleftrightarrow>
     map cs_column_id cols = map u32_of [0..<length cols] \<and> distinct (map cs_name cols) \<and>
     list_all (\<lambda>c. cs_name c \<noteq> '''' \<and> cs_type c \<noteq> DT_INVALID) cols"

definition keys_ok :: "nat \<Rightarrow> key_schema option \<Rightarrow> key_schema list \<Rightarrow> bool" where
  "keys_ok n p ks \<longleftrightarrow>
     (\<forall>k\<in>set_option p. key_ok n k \<and> ks_type k = KT_PRIMARY \<and> ks_name k = kPrimaryKeyName) \<and>
     (\<forall>k\<in>set ks. key_ok n k \<and> ks_type k = KT_SECONDARY) \<and> distinct (map ks_name ks)"

definition schema_ok :: "table_schema \<Rightarrow> bool" where
  "schema_ok s \<longleftrightarrow> columns_ok (ts_columns s) \<and>
     keys_ok (length (ts_columns s)) (ts_primary_key s) (ts_secondary_keys s) \<and>
     distinct (map ks_key_id (schema_keys s))"

lemma bind_columns_loop:
  assumes "fold_r bind_column (enumerate k xs) (ids, cols) = Inr (ids', cols')" "length cols = k"
    and "columns_ok cols" "\<And>n c. ids n = Some c \<longleftrightarrow> (\<exists>col\<in>set cols. cs_name col = n \<and> cs_column_id col = c)"
  shows "columns_ok cols' \<and> map cs_name cols' = map cs_name (cols @ xs) \<and> map cs_type cols' = map cs_type (cols @ xs) \<and>
    (\<forall>n c. ids' n = Some c \<longleftrightarrow> (\<exists>col\<in>set cols'. cs_name col = n \<and> cs_column_id col = c))"
  using assms
proof (induction xs arbitrary: k ids cols)
  case Nil
  then show ?case by simp
next
  case (Cons x xs)
  let ?col = "\<lparr>cs_column_id = u32_of k, cs_name = cs_name x, cs_type = cs_type x\<rparr>"
  obtain st where st: "bind_column (k, x) (ids, cols) = Inr st"
    and rest: "fold_r bind_column (enumerate (Suc k) xs) st = Inr (ids', cols')"
    using Cons.prems(1) by (auto elim!: bind_r_InrE)
  have x: "cs_name x \<noteq> ''''" "ids (cs_name x) = None" "cs_type x \<noteq> DT_INVALID"
    "st = (ids(cs_name x \<mapsto> u32_of k), cols @ [?col])"
    using st by (auto simp: bind_column_def split: if_splits)
  have new: "cs_name x \<notin> cs_name ` set cols"
    using x(2) Cons.prems(4) [of "cs_name x"] by force
  have "columns_ok (cols @ [?col])"
    using Cons.prems(2,3) x new by (auto simp: columns_ok_def)
  moreover have "(ids(cs_name x \<mapsto> u32_of k)) n = Some c \<longleftrightarrow>
      (\<exists>col\<in>set (cols @ [?col]). cs_name col = n \<and> cs_column_id col = c)" for n c
    using Cons.prems(4) [of n c] new by (cases "n = cs_name x") (auto simp: image_iff)
  ultimately show ?case using Cons.IH [OF rest [unfolded x(4)]] Cons.prems(2) by simp
qed

lemma bind_columns_ok:
  assumes "bind_columns xs = Inr (ids, cols)" "length xs < 2 ^ 32"
  shows "columns_ok cols \<and> map cs_name cols = map cs_name xs \<and> map cs_type cols = map cs_type xs \<and>
    (\<forall>n c. ids n = Some c \<longrightarrow> c \<in> u32_of ` {..<length cols})"
proof -
  have "unat (u32_of (length xs)) = length xs" using assms(2) by (simp add: unat_u32_of)
  then have "fold_r bind_column (enumerate 0 xs) (Map.empty, []) = Inr (ids, cols)"
    using assms(1) by (simp add: bind_columns_def)
  from bind_columns_loop [OF this]
  have ok: "columns_ok cols" "map cs_name cols = map cs_name xs" "map cs_type cols = map cs_type xs"
    and ids: "\<And>n c. ids n = Some c \<longleftrightarrow> (\<exists>col\<in>set cols. cs_name col = n \<and> cs_column_id col = c)"
    by (auto simp: columns_ok_def)
  have "cs_column_id ` set cols = u32_of ` {..<length cols}"
    using ok(1) unfolding columns_ok_def by (metis atLeast_upt image_set)
  with ok ids show ?thesis by auto
qed

lemma bind_key_columns_ok:
  assumes "fold_r (bind_key_column ids) names (seen, out) = Inr (seen', out')" "seen = set out" "distinct out"
    and "set out \<subseteq> ran ids"
  shows "distinct out' \<and> set out' \<subseteq> ran ids \<and> length out' = length out + length names"
  using assms
proof (induction names arbitrary: seen out)
  case (Cons n names)
  then obtain st where st: "bind_key_column ids n (seen, out) = Inr st"
    and "fold_r (bind_key_column ids) names st = Inr (seen', out')"
    by (auto elim!: bind_r_InrE)
  moreover from st obtain c where c: "ids n = Some c" "c \<notin> seen" "st = (insert c seen, out @ [c])"
    by (auto simp: bind_key_column_def split: option.splits if_splits)
  ultimately have rest: "fold_r (bind_key_column ids) names (insert c seen, out @ [c]) = Inr (seen', out')" by simp
  have "c \<in> ran ids" using c(1) by (rule ranI)
  then show ?case using Cons.IH [OF rest] Cons.prems c by auto
qed simp

text \<open>What the key loop keeps: the ids given so far are below the counter.\<close>

definition key_state_ok :: "nat \<Rightarrow> nat \<Rightarrow> key_state \<Rightarrow> bool" where
  "key_state_ok n m st \<longleftrightarrow>
     kst_next_key_id st = u32_of m \<and> keys_ok n (kst_primary st) (kst_secondary st) \<and>
     kst_secondary_names st = ks_name ` set (kst_secondary st) \<and>
     (\<forall>k\<in>set_option (kst_primary st) \<union> set (kst_secondary st). ks_key_id k \<in> u32_of ` {..<m}) \<and>
     distinct (map ks_key_id (case_option [] (\<lambda>k. [k]) (kst_primary st) @ kst_secondary st))"

lemma u32_of_less_inj: "i < 2 ^ 32 \<Longrightarrow> j < 2 ^ 32 \<Longrightarrow> u32_of i = u32_of j \<longleftrightarrow> i = j"
  by (metis unat_u32_of)

lemma bind_key_ok:
  assumes "bind_key ids key st = Inr st'" "key_state_ok n m st" "m < 2 ^ 32" "ran ids \<subseteq> u32_of ` {..<n}"
  shows "key_state_ok n (Suc m) st'"
proof -
  obtain seen cols where cols: "fold_r (bind_key_column ids) (kc_columns key) ({}, []) = Inr (seen, cols)"
    and ne: "kc_columns key \<noteq> []"
    using assms(1) by (auto simp: bind_key_def Let_def elim!: bind_r_InrE split: if_splits)
  have c: "distinct cols" "set cols \<subseteq> u32_of ` {..<n}" "cols \<noteq> []"
    using bind_key_columns_ok [OF cols] assms(4) ne by auto
  have fresh: "ks_key_id k \<noteq> u32_of m" if "k \<in> set_option (kst_primary st) \<union> set (kst_secondary st)" for k
  proof -
    have "ks_key_id k \<in> u32_of ` {..<m}" using assms(2) that unfolding key_state_ok_def by blast
    then obtain i where "i < m" "ks_key_id k = u32_of i" by blast
    then show ?thesis using u32_of_less_inj [of i m] assms(3) by simp
  qed
  have below: "u32_of ` {..<m} \<subseteq> u32_of ` {..<Suc m}" "u32_of m \<in> u32_of ` {..<Suc m}" by auto
  show ?thesis
  proof (cases "kc_type key = KT_PRIMARY")
    case True
    then have st': "kst_primary st = None" "st' = st\<lparr>kst_next_key_id := kst_next_key_id st + 1,
        kst_primary := Some \<lparr>ks_key_id = kst_next_key_id st, ks_name = kPrimaryKeyName, ks_type = KT_PRIMARY, ks_columns = cols\<rparr>\<rparr>"
      using assms(1) cols ne by (auto simp: bind_key_def Let_def split: if_splits)
    then show ?thesis
      using assms(2) c fresh below by (auto simp: key_state_ok_def keys_ok_def key_ok_def add.commute)
  next
    case False
    define name where "name = (if kc_name key = '''' then ''key_'' @ nat_str (unat (kst_next_key_id st)) else kc_name key)"
    have st': "name \<notin> kst_secondary_names st" "st' = st\<lparr>kst_next_key_id := kst_next_key_id st + 1,
        kst_secondary_names := insert name (kst_secondary_names st),
        kst_secondary := kst_secondary st @
          [\<lparr>ks_key_id = kst_next_key_id st, ks_name = name, ks_type = KT_SECONDARY, ks_columns = cols\<rparr>]\<rparr>"
      using assms(1) cols ne False by (auto simp: bind_key_def Let_def name_def split: if_splits)
    then show ?thesis
      using assms(2) c fresh below
      by (auto simp: key_state_ok_def keys_ok_def key_ok_def add.commute split: option.splits)
  qed
qed

lemma bind_keys_ok:
  assumes "fold_r (bind_key ids) keys st = Inr st'" "key_state_ok n m st" "m + length keys < 2 ^ 32"
    and "ran ids \<subseteq> u32_of ` {..<n}"
  shows "key_state_ok n (m + length keys) st'"
  using assms
proof (induction keys arbitrary: st m)
  case (Cons k keys)
  then obtain st1 where st1: "bind_key ids k st = Inr st1" "fold_r (bind_key ids) keys st1 = Inr st'"
    by (auto elim!: bind_r_InrE)
  have "key_state_ok n (Suc m) st1" using Cons.prems by (intro bind_key_ok [OF st1(1)]) auto
  from Cons.IH [OF st1(2) this] Cons.prems show ?case by simp
qed simp

text \<open>C24: The schema a bound CREATE TABLE carries is well formed: the columns of the statement, in
  order, numbered from 0, with distinct names and real types; keys over existing columns without
  repetition, with distinct ids; one primary key at most, under its fixed name; secondary keys
  with distinct names.\<close>

theorem BindCreateTable_schema_ok:
  assumes "BindCreateTable cat stmt = Inr b" "length (crt_columns stmt) < 2 ^ 32" "length (crt_keys stmt) < 2 ^ 32"
  shows "schema_ok (bc_schema b) \<and> map cs_name (ts_columns (bc_schema b)) = map cs_name (crt_columns stmt) \<and>
    map cs_type (ts_columns (bc_schema b)) = map cs_type (crt_columns stmt)"
proof -
  obtain ids cols st where cols: "bind_columns (crt_columns stmt) = Inr (ids, cols)"
    and st: "fold_r (bind_key ids) (crt_keys stmt) init_keys = Inr st"
    and b: "bc_schema b = \<lparr>ts_columns = cols, ts_primary_key = kst_primary st, ts_secondary_keys = kst_secondary st\<rparr>"
    using assms(1) by (auto simp: BindCreateTable_def elim!: bind_r_InrE split: if_splits)
  note c = bind_columns_ok [OF cols assms(2)]
  have "key_state_ok (length cols) (0 + length (crt_keys stmt)) st"
    using c assms(3) by (intro bind_keys_ok [OF st]) (auto simp: key_state_ok_def init_keys_def keys_ok_def ran_def)
  then show ?thesis using c b by (simp add: schema_ok_def key_state_ok_def schema_keys_def)
qed

theorem BindCreateTable_schema_ok_witness:
  "schema_ok \<lparr>ts_columns = [\<lparr>cs_column_id = 0, cs_name = ''id'', cs_type = DT_INT32\<rparr>],
     ts_primary_key = Some \<lparr>ks_key_id = 0, ks_name = kPrimaryKeyName, ks_type = KT_PRIMARY, ks_columns = [0]\<rparr>,
     ts_secondary_keys = [\<lparr>ks_key_id = 1, ks_name = ''key_1'', ks_type = KT_SECONDARY, ks_columns = [0]\<rparr>]\<rparr>"
proof -
  let ?cols = "[\<lparr>cs_column_id = 0, cs_name = ''id'', cs_type = DT_INT32\<rparr>]"
  let ?stmt = "\<lparr>crt_table_name = ''t'', crt_if_not_exists = False, crt_columns = ?cols,
     crt_keys = [\<lparr>kc_type = KT_PRIMARY, kc_name = '''', kc_columns = [''id'']\<rparr>,
                 \<lparr>kc_type = KT_SECONDARY, kc_name = '''', kc_columns = [''id'']\<rparr>]\<rparr>"
  have "BindCreateTable empty_catalog ?stmt = Inr \<lparr>bc_table_name = ''t'', bc_schema =
     \<lparr>ts_columns = ?cols,
      ts_primary_key = Some \<lparr>ks_key_id = 0, ks_name = kPrimaryKeyName, ks_type = KT_PRIMARY, ks_columns = [0]\<rparr>,
      ts_secondary_keys = [\<lparr>ks_key_id = 1, ks_name = ''key_1'', ks_type = KT_SECONDARY, ks_columns = [0]\<rparr>]\<rparr>\<rparr>"
    by code_simp
  from BindCreateTable_schema_ok [OF this] show ?thesis by simp
qed

subsection \<open>INSERT: arity and types\<close>

lemma column_position_Some:
  "column_position n cs = Some i \<Longrightarrow> i < length cs \<and> cs_name (cs ! i) = n \<and> (\<forall>j<i. cs_name (cs ! j) \<noteq> n)"
proof (induction cs arbitrary: i)
  case (Cons c cs)
  show ?case
  proof (cases "cs_name c = n")
    case False
    with Cons.prems obtain j where "i = Suc j" "column_position n cs = Some j" by auto
    then show ?thesis using Cons.IH False by (auto simp: less_Suc_eq_0_disj)
  qed (use Cons.prems in simp)
qed simp

lemma target_columns_ok:
  assumes "fold_r (target_column cols) names (seen, js) = Inr (seen', js')" "length cols < 2 ^ 32"
    and "seen = (\<lambda>j. cs_name (cols ! unat j)) ` set js" "distinct js" "\<forall>j\<in>set js. unat j < length cols"
  shows "distinct js' \<and> (\<forall>j\<in>set js'. unat j < length cols) \<and>
    map (\<lambda>j. cs_name (cols ! unat j)) js' = map (\<lambda>j. cs_name (cols ! unat j)) js @ names"
  using assms
proof (induction names arbitrary: seen js)
  case (Cons n names)
  then obtain st where st: "target_column cols n (seen, js) = Inr st"
    and rest: "fold_r (target_column cols) names st = Inr (seen', js')"
    by (auto elim!: bind_r_InrE)
  then obtain j where j: "column_position n cols = Some j" "n \<notin> seen" "st = (insert n seen, js @ [u32_of j])"
    by (auto simp: target_column_def split: option.splits if_splits)
  note p = column_position_Some [OF j(1)]
  have u: "unat (u32_of j) = j" using p Cons.prems(2) by (simp add: unat_u32_of)
  have "u32_of j \<notin> set js" using j(2) Cons.prems(3) p u by (metis image_eqI)
  then show ?case using Cons.IH [OF rest [unfolded j(3)]] Cons.prems p u by simp
qed simp

definition insert_ok :: "table_schema \<Rightarrow> u32 list \<Rightarrow> bound_expr list list \<Rightarrow> bool" where
  "insert_ok schema targets rows \<longleftrightarrow>
     distinct targets \<and> (\<forall>j\<in>set targets. unat j < length (ts_columns schema)) \<and>
     (\<forall>row\<in>set rows. length row = length targets \<and>
        map return_type row = map (\<lambda>j. cs_type (ts_columns schema ! unat j)) targets)"

lemma bind_row_ok:
  assumes "bind_row ctx schema targets row = Inr bs"
  shows "length bs = length targets \<and> map return_type bs = map (\<lambda>j. cs_type (ts_columns schema ! unat j)) targets"
proof -
  from assms have n: "length row = length targets" and r: "map_r (bind_value ctx schema) (zip targets row) = Inr bs"
    by (auto simp: bind_row_def split: if_splits)
  have l: "length bs = length targets" using map_r_length [OF r] n by simp
  moreover have "return_type (bs ! i) = cs_type (ts_columns schema ! unat (targets ! i))" if "i < length targets" for i
    using map_r_nth [OF r, of i] that n
    by (auto simp: bind_value_def IsTypeCompatible_def elim!: bind_r_InrE split: if_splits)
  ultimately show ?thesis by (auto intro: nth_equalityI)
qed

text \<open>The roots that the check of a value refuses.\<close>

definition bare_reference :: "expr \<Rightarrow> bool" where
  "bare_reference e \<longleftrightarrow> (case e of ColumnRef _ \<Rightarrow> True | AggFunc _ _ \<Rightarrow> True | _ \<Rightarrow> False)"

lemma bind_row_values:
  assumes "bind_row ctx schema targets row = Inr bs"
  shows "list_all2 (\<lambda>x v. BindExpr ctx x = Inr v \<and> \<not> bare_reference x) row bs"
proof -
  from assms have n: "length row = length targets" and r: "map_r (bind_value ctx schema) (zip targets row) = Inr bs"
    by (auto simp: bind_row_def split: if_splits)
  have "BindExpr ctx (row ! i) = Inr (bs ! i) \<and> \<not> bare_reference (row ! i)" if "i < length row" for i
    using map_r_nth [OF r, of i] that n by (auto simp: bind_value_def bare_reference_def elim!: bind_r_InrE split: if_splits)
  then show ?thesis using map_r_length [OF r] n by (simp add: list_all2_conv_all_nth)
qed

lemma target_columns_result:
  assumes "target_columns schema stmt = Inr targets" "length (ts_columns schema) < 2 ^ 32"
  shows "distinct targets \<and> (\<forall>j\<in>set targets. unat j < length (ts_columns schema)) \<and>
    (ins_columns stmt \<noteq> [] \<longrightarrow> map (\<lambda>j. cs_name (ts_columns schema ! unat j)) targets = ins_columns stmt) \<and>
    (ins_columns stmt = [] \<longrightarrow> targets = map u32_of [0..<length (ts_columns schema)])"
proof (cases "ins_columns stmt = []")
  case True
  then have t: "targets = map u32_of [0..<length (ts_columns schema)]"
    using assms(1) by (auto simp: target_columns_def split: if_splits)
  have "inj_on u32_of {..<length (ts_columns schema)}"
    using assms(2) by (auto simp: inj_on_def u32_of_less_inj)
  then show ?thesis using True t assms(2) by (auto simp: distinct_map atLeast0LessThan unat_u32_of)
next
  case False
  then obtain seen where "fold_r (target_column (ts_columns schema)) (ins_columns stmt) ({}, []) = Inr (seen, targets)"
    using assms(1) by (auto simp: target_columns_def elim!: bind_r_InrE split: if_splits)
  from target_columns_ok [OF this assms(2)] False show ?thesis by simp
qed

text \<open>C25: A bound INSERT goes to distinct existing columns of its table (the named ones, in the
  order of the statement, or all of them), and every row has one value per target: the bound
  form of the expression that the statement gives in that place, which is not a column or an aggregate by itself, of exactly the
  type of the column.\<close>

theorem BindInsert_typed:
  assumes "BindInsert ctx cat stmt = Inr b" "GetTable (ins_table_name stmt) cat = Inr (Some e)"
    and "length (ts_columns (te_schema e)) < 2 ^ 32"
  shows "insert_ok (te_schema e) (bi_target_col_indices b) (bi_values b) \<and>
    list_all2 (list_all2 (\<lambda>x v. BindExpr ctx x = Inr v \<and> \<not> bare_reference x)) (ins_values stmt) (bi_values b) \<and>
    map (\<lambda>j. cs_name (ts_columns (te_schema e) ! unat j)) (bi_target_col_indices b) =
      (if ins_columns stmt = [] then map cs_name (ts_columns (te_schema e)) else ins_columns stmt)"
proof -
  obtain targets rows where t: "target_columns (te_schema e) stmt = Inr targets"
    and r: "map_r (bind_row ctx (te_schema e) targets) (ins_values stmt) = Inr rows"
    and b: "bi_target_col_indices b = targets" "bi_values b = rows"
    using assms(1,2) by (auto simp: BindInsert_def elim!: bind_r_InrE split: option.splits)
  note tc = target_columns_result [OF t assms(3)]
  have all: "map (\<lambda>j. cs_name (ts_columns (te_schema e) ! unat j)) (map u32_of [0..<length (ts_columns (te_schema e))]) =
      map cs_name (ts_columns (te_schema e))"
    using assms(3) by (auto intro!: nth_equalityI simp: unat_u32_of)
  have "list_all2 (list_all2 (\<lambda>x v. BindExpr ctx x = Inr v \<and> \<not> bare_reference x)) (ins_values stmt) rows"
    using r unfolding map_r_Inr_iff by (rule list_all2_mono) (rule bind_row_values)
  moreover have "insert_ok (te_schema e) targets rows"
    using tc map_r_set [OF r] bind_row_ok by (fastforce simp: insert_ok_def)
  ultimately show ?thesis using tc b all by simp
qed

text \<open>The check that an INSERT value is constant looks at the root of the expression only: a
  column name below an operator is resolved through the null \<open>context_\<close> of a fresh binder.\<close>

theorem BindInsert_nested_column:
  assumes "GetTable name cat = Inr (Some e)" "ts_columns (te_schema e) = [c]"
  shows "BindInsert None cat \<lparr>ins_table_name = name, ins_columns = [],
      ins_values = [[BinaryOp p (ColumnRef n) r]]\<rparr> = Inl Undefined_behaviour"
  using assms
  by (simp add: BindInsert_def target_columns_def bind_row_def bind_value_def BindColumnRef_def)

subsection \<open>SELECT: resolved columns, and no null dereference\<close>

text \<open>Every column reference is a column of the table, with its type.\<close>

fun resolved :: "bound_table \<Rightarrow> bound_expr \<Rightarrow> bool" where
  "resolved t (BColumnRef oid i ty) \<longleftrightarrow>
     oid = bt_oid t \<and> unat i < length (bt_columns t) \<and> ty = cs_type (bt_columns t ! unat i)"
| "resolved t (BLiteral l ty) \<longleftrightarrow> ty = literal_type l"
| "resolved t (BBinaryOp p l r ty) \<longleftrightarrow> resolved t l \<and> resolved t r \<and> ty = binary_type p (return_type l) (return_type r)"
| "resolved t (BAggFunc g None ty) \<longleftrightarrow> g = AGG_COUNT \<and> ty = DT_INT64"
| "resolved t (BAggFunc g (Some e) ty) \<longleftrightarrow> resolved t e \<and> \<not> ContainsAggregate e \<and> bind_agg g e = Inr (BAggFunc g (Some e) ty)"

lemma BindColumnRef_resolved:
  assumes "BindColumnRef (Some [t]) n = Inr b" "length (bt_columns t) < 2 ^ 32"
  shows "resolved t b"
proof -
  obtain i where i: "column_position n (bt_columns t) = Some i"
    and b: "b = BColumnRef (bt_oid t) (u32_of i) (GetColumnType (bt_oid t) (u32_of i) [t])"
    using assms(1) by (auto simp: BindColumnRef_def split: option.splits)
  note p = column_position_Some [OF i]
  then have "unat (u32_of i) = i" using assms(2) by (simp add: unat_u32_of)
  with p b show ?thesis by simp
qed

lemma bind_agg_shape: "bind_agg g e = Inr b \<Longrightarrow> \<exists>ty. b = BAggFunc g (Some e) ty \<and> \<not> ContainsAggregate e"
  by (cases g) (auto simp: bind_agg_def split: if_splits)

lemma BindExpr_resolved:
  "BindExpr (Some [t]) e = Inr b \<Longrightarrow> length (bt_columns t) < 2 ^ 32 \<Longrightarrow> resolved t b"
proof (induction "Some [t]" e arbitrary: b rule: BindExpr.induct)
  case (1 name)
  then show ?case by (simp add: BindColumnRef_resolved)
next
  case (5 g e)
  then obtain a where a: "BindExpr (Some [t]) e = Inr a" "bind_agg g a = Inr b" by (auto elim!: bind_r_InrE)
  from bind_agg_shape [OF a(2)] obtain ty where "b = BAggFunc g (Some a) ty" "\<not> ContainsAggregate a" by blast
  then show ?case using a 5 by simp
qed (auto simp: BindLiteral_def elim!: bind_r_InrE split: if_splits)

text \<open>A \<open>SemanticException\<close>, and nothing else.\<close>

definition semantic_errors :: "exn set" where
  "semantic_errors = range Semantic_error"

lemma Semantic_error_in [simp]: "Semantic_error m \<in> semantic_errors"
  by (simp add: semantic_errors_def)

lemma bind_agg_raises [simp]: "raises semantic_errors (bind_agg g e)"
  by (cases g) (auto simp: bind_agg_def)

lemma BindExpr_raises [simp]: "raises semantic_errors (BindExpr (Some ctx) e)"
proof (induction "Some ctx" e rule: BindExpr.induct)
  case (1 name)
  then show ?case by (simp add: BindColumnRef_def split: option.splits)
next
  case (3 p l r)
  show ?case unfolding BindExpr.simps by (intro raises_bind 3(1) 3(2) raises_simps)
qed (auto intro!: raises_bind)

text \<open>An expression without aggregates never reaches the null argument of another one.\<close>

lemma IsExprEqual_total: "\<not> ContainsAggregate a \<Longrightarrow> \<exists>q. IsExprEqual a b = Inr q"
proof (induction a b rule: IsExprEqual.induct)
  case (3 p a b ty p' a' b' ty')
  show ?case
  proof (cases "p = p'")
    case True
    then obtain q where q: "IsExprEqual a a' = Inr q" using 3 by auto
    then show ?thesis using 3 True by (cases q) (auto simp: ex_bool_eq)
  qed (simp add: ex_bool_eq)
qed (auto simp: ex_bool_eq)

lemma IsInGroupBy_total: "\<not> ContainsAggregate e \<Longrightarrow> \<exists>q. IsInGroupBy e gs = Inr q"
proof (induction gs)
  case (Cons g gs)
  obtain q where "IsExprEqual e g = Inr q" using IsExprEqual_total Cons.prems by blast
  then show ?case using Cons by (cases q) (auto simp: ex_bool_eq)
qed (simp add: ex_bool_eq)

lemma ValidateAggregations_raises [simp]: "raises semantic_errors (ValidateAggregations items gs)"
proof (induction items)
  case (Cons i items)
  show ?case
  proof (cases "\<not> ContainsAggregate (bsi_expr i) \<and> gs \<noteq> []")
    case True
    then obtain q where "IsInGroupBy (bsi_expr i) gs = Inr q" using IsInGroupBy_total by blast
    then show ?thesis using Cons True by simp
  next
    case False
    then have "ValidateAggregations (i # items) gs = ValidateAggregations items gs" by auto
    then show ?thesis using Cons by simp
  qed
qed simp

lemma ValidateAggregations_Inr:
  "ValidateAggregations items gs = Inr u \<Longrightarrow> gs \<noteq> [] \<Longrightarrow> i \<in> set items \<Longrightarrow>
     ContainsAggregate (bsi_expr i) \<or> IsInGroupBy (bsi_expr i) gs = Inr True"
  by (induction items) (auto elim!: bind_r_InrE split: if_splits)

lemma BindSelectList_raises [simp]: "raises semantic_errors (BindSelectList ctx items)"
  unfolding BindSelectList_def by (auto split: list.splits intro!: raises_map_r raises_bind)

lemma BindTableRef_raises: "cat_inv cat \<Longrightarrow> raises semantic_errors (BindTableRef cat name)"
  using GetTable_total [of cat name] by (auto simp: BindTableRef_def split: option.splits)

text \<open>Binding a SELECT succeeds or throws a \<open>SemanticException\<close>: the context exists before an
  expression is bound, the catalog maps agree, and comparing a select item with a grouping
  expression never reaches the null argument of \<open>COUNT(*)\<close>, because only items without
  aggregates are compared.\<close>

theorem BindSelect_raises:
  assumes "cat_inv cat"
  shows "raises semantic_errors (fst (BindSelect cat stmt))"
  using BindTableRef_raises [OF assms, of "sel_table_name stmt"]
  by (auto simp: BindSelect_def BindGroupBy_def split: sum.splits option.splits
      intro!: raises_bind raises_map_r)

lemma BindSelectList_resolved:
  assumes "BindSelectList [t] items = Inr bs" "length (bt_columns t) < 2 ^ 32" "b \<in> set bs"
  shows "resolved t (bsi_expr b)"
proof (cases "length items = 1 \<and> si_expr (hd items) = ColumnRef ''*''")
  case True
  then show ?thesis using assms by (auto simp: BindSelectList_def unat_u32_of)
next
  case False
  then have "map_r (\<lambda>item. bind_r (BindExpr (Some [t]) (si_expr item)) (\<lambda>e.
             Inr \<lparr>bsi_expr = e, bsi_alias = si_alias item\<rparr>)) items = Inr bs"
    using assms(1) by (auto simp: BindSelectList_def)
  from map_r_set [OF this assms(3)] show ?thesis
    using BindExpr_resolved [OF _ assms(2)] by (auto elim!: bind_r_InrE)
qed

text \<open>C26: A bound SELECT is about one existing table: every column it mentions, in the select list,
  the condition and the grouping, is a column of that table with its declared type, every node
  has the derived type, and with GROUP BY each select item contains an aggregate or equals a
  grouping expression.\<close>

theorem BindSelect_resolved:
  assumes "BindSelect cat stmt = (Inr b, ctx)" "GetTable (sel_table_name stmt) cat = Inr (Some e)"
    and "length (ts_columns (te_schema e)) < 2 ^ 32"
  shows "\<exists>t. ctx = Some [t] \<and> FindTable (sel_table_name stmt) cat = Some (bs_table_oid b) \<and>
    bt_oid t = bs_table_oid b \<and> bt_columns t = ts_columns (te_schema e) \<and>
    (\<forall>i\<in>set (bs_select_list b). resolved t (bsi_expr i)) \<and>
    (\<forall>x\<in>set_option (bs_where_clause b). resolved t x) \<and>
    (\<forall>g\<in>set (bs_group_by b). resolved t g) \<and>
    (bs_group_by b \<noteq> [] \<longrightarrow> (\<forall>i\<in>set (bs_select_list b).
       ContainsAggregate (bsi_expr i) \<or> IsInGroupBy (bsi_expr i) (bs_group_by b) = Inr True))"
proof -
  obtain t where t: "BindTableRef cat (sel_table_name stmt) = Inr t"
    using assms(1) by (auto simp: BindSelect_def split: sum.splits)
  have tt: "FindTable (sel_table_name stmt) cat = Some (bt_oid t)" "bt_columns t = ts_columns (te_schema e)"
    using t assms(2) by (auto simp: BindTableRef_def split: option.splits)
  have n: "length (bt_columns t) < 2 ^ 32" using tt(2) assms(3) by simp
  have ctx: "ctx = Some [t]" using assms(1) t by (simp add: BindSelect_def)
  have "bind_r (BindSelectList [t] (sel_select_list stmt)) (\<lambda>items.
          bind_r (case sel_where_clause stmt of
                    None \<Rightarrow> Inr None
                  | Some e \<Rightarrow> bind_r (BindExpr (Some [t]) e) (\<lambda>b. Inr (Some b))) (\<lambda>cond.
          bind_r (BindGroupBy [t] (sel_group_by stmt)) (\<lambda>group_by.
          bind_r (ValidateAggregations items group_by) (\<lambda>_.
          Inr \<lparr>bs_table_oid = bt_oid t, bs_select_list = items, bs_where_clause = cond,
               bs_group_by = group_by\<rparr>)))) = Inr b"
    using assms(1) t by (simp add: BindSelect_def)
  then obtain items cond gs where items: "BindSelectList [t] (sel_select_list stmt) = Inr items"
    and cond: "(case sel_where_clause stmt of None \<Rightarrow> Inr None
        | Some e \<Rightarrow> bind_r (BindExpr (Some [t]) e) (\<lambda>b. Inr (Some b))) = Inr cond"
    and gs: "map_r (BindExpr (Some [t])) (sel_group_by stmt) = Inr gs"
    and val: "ValidateAggregations items gs = Inr ()"
    and b: "b = \<lparr>bs_table_oid = bt_oid t, bs_select_list = items, bs_where_clause = cond, bs_group_by = gs\<rparr>"
    unfolding BindGroupBy_def by (elim bind_r_InrE) simp
  have "resolved t x" if "x \<in> set_option cond" for x
    using cond that BindExpr_resolved [OF _ n] by (auto split: option.splits elim!: bind_r_InrE)
  moreover have "resolved t g" if "g \<in> set gs" for g
    using map_r_set [OF gs that] BindExpr_resolved [OF _ n] by auto
  ultimately show ?thesis
    using tt b ctx BindSelectList_resolved [OF items n] ValidateAggregations_Inr [OF val] by auto
qed

end
