(* ===== verification/Plan_Expression.thy ===== *)
theory Plan_Expression
  imports Binder
begin

text \<open>
  \<^verbatim>\<open>src/src/planner/plan_expression.{h,cpp}\<close>: the expressions of plans, built from bound
  expressions.  \<open>PlanLiteralValue\<close> has the alternatives of a parsed literal.
\<close>

datatype plan_binary_op = P_ADD | P_SUB | P_EQ | P_NE | P_GT | P_GE | P_LT | P_LE | P_AND | P_OR

datatype plan_expr =
    PlanColumnRef u32 u32 data_type
  | PlanLiteral literal data_type
  | PlanBinary plan_binary_op plan_expr plan_expr data_type
  | PlanAgg agg_type "plan_expr option" data_type

fun GetReturnType :: "plan_expr \<Rightarrow> data_type" where
  "GetReturnType (PlanColumnRef _ _ ty) = ty"
| "GetReturnType (PlanLiteral _ ty) = ty"
| "GetReturnType (PlanBinary _ _ _ ty) = ty"
| "GetReturnType (PlanAgg _ _ ty) = ty"

fun BinaryOpName :: "plan_binary_op \<Rightarrow> string" where
  "BinaryOpName P_ADD = ''+''"
| "BinaryOpName P_SUB = ''-''"
| "BinaryOpName P_EQ = ''=''"
| "BinaryOpName P_NE = ''!=''"
| "BinaryOpName P_GT = ''>''"
| "BinaryOpName P_GE = ''>=''"
| "BinaryOpName P_LT = ''<''"
| "BinaryOpName P_LE = ''<=''"
| "BinaryOpName P_AND = ''AND''"
| "BinaryOpName P_OR = ''OR''"

fun AggName :: "agg_type \<Rightarrow> string" where
  "AggName AGG_SUM = ''SUM''"
| "AggName AGG_COUNT = ''COUNT''"
| "AggName AGG_AVG = ''AVG''"
| "AggName AGG_MIN = ''MIN''"
| "AggName AGG_MAX = ''MAX''"
| "AggName AGG_INVALID = ''INVALID''"

fun PlanLiteral_ToString :: "literal \<Rightarrow> string" where
  "PlanLiteral_ToString (Lit_int i) = int_str (sint i)"
| "PlanLiteral_ToString (Lit_double d) = double_str d"
| "PlanLiteral_ToString (Lit_string s) = [CHR 0x27] @ s @ [CHR 0x27]"

fun PlanExpr_ToString :: "plan_expr \<Rightarrow> string" where
  "PlanExpr_ToString (PlanColumnRef oid i _) = ''#'' @ nat_str (unat oid) @ ''.'' @ nat_str (unat i)"
| "PlanExpr_ToString (PlanLiteral v _) = PlanLiteral_ToString v"
| "PlanExpr_ToString (PlanBinary op l r _) =
     ''('' @ PlanExpr_ToString l @ '' '' @ BinaryOpName op @ '' '' @ PlanExpr_ToString r @ '')''"
| "PlanExpr_ToString (PlanAgg g None _) = AggName g @ ''('' @ ''*'' @ '')''"
| "PlanExpr_ToString (PlanAgg g (Some e) _) = AggName g @ ''('' @ PlanExpr_ToString e @ '')''"

fun Clone :: "plan_expr \<Rightarrow> plan_expr" where
  "Clone (PlanColumnRef oid i ty) = PlanColumnRef oid i ty"
| "Clone (PlanLiteral v ty) = PlanLiteral v ty"
| "Clone (PlanBinary op l r ty) = PlanBinary op (Clone l) (Clone r) ty"
| "Clone (PlanAgg g None ty) = PlanAgg g None ty"
| "Clone (PlanAgg g (Some e) ty) = PlanAgg g (Some (Clone e)) ty"

text \<open>\<open>CollectColumnRefs\<close> appends to a vector; the column numbers it appends, in order.\<close>

fun CollectColumnRefs :: "plan_expr \<Rightarrow> u32 list" where
  "CollectColumnRefs (PlanColumnRef _ i _) = [i]"
| "CollectColumnRefs (PlanLiteral _ _) = []"
| "CollectColumnRefs (PlanBinary _ l r _) = CollectColumnRefs l @ CollectColumnRefs r"
| "CollectColumnRefs (PlanAgg _ None _) = []"
| "CollectColumnRefs (PlanAgg _ (Some e) _) = CollectColumnRefs e"

fun Plan_ContainsAggregate :: "plan_expr \<Rightarrow> bool" where
  "Plan_ContainsAggregate (PlanAgg _ _ _) = True"
| "Plan_ContainsAggregate (PlanBinary _ l r _) = (Plan_ContainsAggregate l \<or> Plan_ContainsAggregate r)"
| "Plan_ContainsAggregate _ = False"

fun ToPlanBinaryOp :: "op_type \<Rightarrow> plan_binary_op" where
  "ToPlanBinaryOp OP_ADD = P_ADD"
| "ToPlanBinaryOp OP_SUB = P_SUB"
| "ToPlanBinaryOp OP_EQ = P_EQ"
| "ToPlanBinaryOp OP_NE = P_NE"
| "ToPlanBinaryOp OP_GT = P_GT"
| "ToPlanBinaryOp OP_GE = P_GE"
| "ToPlanBinaryOp OP_LT = P_LT"
| "ToPlanBinaryOp OP_LE = P_LE"
| "ToPlanBinaryOp OP_AND = P_AND"
| "ToPlanBinaryOp OP_OR = P_OR"

fun ToCmpOp :: "plan_binary_op \<Rightarrow> cmp_op result" where
  "ToCmpOp P_EQ = Inr CMP_EQ"
| "ToCmpOp P_NE = Inr CMP_NE"
| "ToCmpOp P_GT = Inr CMP_GT"
| "ToCmpOp P_GE = Inr CMP_GE"
| "ToCmpOp P_LT = Inr CMP_LT"
| "ToCmpOp P_LE = Inr CMP_LE"
| "ToCmpOp _ = Inl (Runtime_error ''planner: expression is not a storage-pushable comparison'')"

fun BuildPlanExpr :: "bound_expr \<Rightarrow> plan_expr" where
  "BuildPlanExpr (BColumnRef oid i ty) = PlanColumnRef oid i ty"
| "BuildPlanExpr (BLiteral v ty) = PlanLiteral v ty"
| "BuildPlanExpr (BBinaryOp op l r ty) = PlanBinary (ToPlanBinaryOp op) (BuildPlanExpr l) (BuildPlanExpr r) ty"
| "BuildPlanExpr (BAggFunc g None ty) = PlanAgg g None ty"
| "BuildPlanExpr (BAggFunc g (Some e) ty) = PlanAgg g (Some (BuildPlanExpr e)) ty"

lemma Clone_eq [simp]: "Clone e = e"
  by (induction e rule: Clone.induct) simp_all

lemma BuildPlanExpr_type [simp]: "GetReturnType (BuildPlanExpr e) = return_type e"
  by (induction e rule: BuildPlanExpr.induct) simp_all

lemma BuildPlanExpr_aggregate [simp]: "Plan_ContainsAggregate (BuildPlanExpr e) = ContainsAggregate e"
  by (induction e rule: BuildPlanExpr.induct) simp_all

end
