(* ===== verification/Exec_Expression.thy ===== *)
theory Exec_Expression
  imports Long_Double Vector Plan_Expression
begin

text \<open>
  \<^verbatim>\<open>src/src/execution/expression/exec_expression.{h,cpp}\<close> and \<^verbatim>\<open>execution/schema.h\<close>: scalar values,
  the evaluation of an expression on one row of a batch, and the compilation of plan expressions, which
  replaces column numbers by input slots.  Numbers are compared and added as \<open>long double\<close>.
\<close>

subsection \<open>Scalar values\<close>

datatype exec_value =
    EV_int32 i32 | EV_int64 i64 | EV_float f32 | EV_double f64 | EV_string string | EV_bool bool

fun ExecValueAsNumber :: "exec_value \<Rightarrow> f80 result" where
  "ExecValueAsNumber (EV_int32 v) = Inr (f80_of_int (sint v))"
| "ExecValueAsNumber (EV_int64 v) = Inr (f80_of_int (sint v))"
| "ExecValueAsNumber (EV_float v) = Inr (f80_of_f32 v)"
| "ExecValueAsNumber (EV_double v) = Inr (f80_of_f64 v)"
| "ExecValueAsNumber (EV_bool v) = Inr (f80_of_int (if v then 1 else 0))"
| "ExecValueAsNumber (EV_string _) = Inl (Runtime_error ''execution: string is not numeric'')"

definition ExecValueAsBool :: "exec_value \<Rightarrow> bool result" where
  "ExecValueAsBool v =
     (case v of
        EV_bool b \<Rightarrow> Inr b
      | EV_string s \<Rightarrow> Inr (s \<noteq> '''')
      | _ \<Rightarrow> bind_r (ExecValueAsNumber v) (\<lambda>x. Inr (\<not> ieee_eq 63 x (f80_of_int 0))))"

text \<open>A conversion to an integer type is undefined when the value does not fit.\<close>

definition f80_to_int :: "int \<Rightarrow> f80 \<Rightarrow> int result" where
  "f80_to_int bound x = (case f80_trunc bound x of Some n \<Rightarrow> Inr n | None \<Rightarrow> Inl Undefined_behaviour)"

definition CastNumber :: "f80 \<Rightarrow> data_type \<Rightarrow> exec_value result" where
  "CastNumber x ty =
     (case ty of
        DT_INT32 \<Rightarrow> bind_r (f80_to_int (2 ^ 31) x) (\<lambda>n. Inr (EV_int32 (word_of_int n)))
      | DT_INT64 \<Rightarrow> bind_r (f80_to_int (2 ^ 63) x) (\<lambda>n. Inr (EV_int64 (word_of_int n)))
      | DT_FLOAT \<Rightarrow> Inr (EV_float (f32_of_f80 x))
      | DT_DOUBLE \<Rightarrow> Inr (EV_double (f64_of_f80 x))
      | _ \<Rightarrow> Inr (EV_double (f64_of_f80 x)))"

text \<open>\<open>std::string\<close> compares bytes as unsigned characters.\<close>

fun string_less :: "string \<Rightarrow> string \<Rightarrow> bool" where
  "string_less [] [] = False"
| "string_less [] (_ # _) = True"
| "string_less (_ # _) [] = False"
| "string_less (a # as) (b # bs) = (byte_of_char a < byte_of_char b \<or> a = b \<and> string_less as bs)"

definition CompareExecValues :: "exec_value \<Rightarrow> exec_value \<Rightarrow> int result" where
  "CompareExecValues lhs rhs =
     (case (lhs, rhs) of
        (EV_string a, EV_string b) \<Rightarrow> Inr (if string_less a b then -1 else if string_less b a then 1 else 0)
      | (EV_string _, _) \<Rightarrow> Inl (Runtime_error ''execution: cannot compare string with numeric value'')
      | (_, EV_string _) \<Rightarrow> Inl (Runtime_error ''execution: cannot compare string with numeric value'')
      | _ \<Rightarrow> bind_r (ExecValueAsNumber lhs) (\<lambda>a. bind_r (ExecValueAsNumber rhs) (\<lambda>b.
               Inr (if f80_lt a b then -1 else if f80_lt b a then 1 else 0))))"

subsection \<open>Columns\<close>

definition ReadExecValue :: "column_data \<Rightarrow> nat \<Rightarrow> exec_value result" where
  "ReadExecValue c row =
     (if cd_count c \<le> row then Inl (Runtime_error ''execution: row index out of range'')
      else
        let bs = cell (TypeElemSize (cd_type c)) (cd_buffer c) row in
        case cd_type c of
          DT_INT32 \<Rightarrow> Inr (EV_int32 (le_word 4 bs))
        | DT_INT64 \<Rightarrow> Inr (EV_int64 (le_word 8 bs))
        | DT_FLOAT \<Rightarrow> Inr (EV_float (le_word 4 bs))
        | DT_DOUBLE \<Rightarrow> Inr (EV_double (le_word 8 bs))
        | DT_VARCHAR \<Rightarrow> Inr (EV_string (ReadVarcharSlot bs))
        | DT_INVALID \<Rightarrow> Inl (Runtime_error ''execution: invalid column type''))"

definition put_cell :: "nat \<Rightarrow> nat \<Rightarrow> bytes \<Rightarrow> bytes \<Rightarrow> bytes" where
  "put_cell k row bs buffer = take (row * k) buffer @ bs @ drop (row * k + k) buffer"

text \<open>The bytes an output column of the type stores for a value.\<close>

definition output_bytes :: "data_type \<Rightarrow> exec_value \<Rightarrow> bytes result" where
  "output_bytes ty v =
     (case ty of
        DT_INT32 \<Rightarrow> bind_r (ExecValueAsNumber v) (\<lambda>x. bind_r (f80_to_int (2 ^ 31) x) (\<lambda>n. Inr (le_bytes 4 (word_of_int n :: i32))))
      | DT_INT64 \<Rightarrow> bind_r (ExecValueAsNumber v) (\<lambda>x. bind_r (f80_to_int (2 ^ 63) x) (\<lambda>n. Inr (le_bytes 8 (word_of_int n :: i64))))
      | DT_FLOAT \<Rightarrow> bind_r (ExecValueAsNumber v) (\<lambda>x. Inr (le_bytes 4 (f32_of_f80 x)))
      | DT_DOUBLE \<Rightarrow> bind_r (ExecValueAsNumber v) (\<lambda>x. Inr (le_bytes 8 (f64_of_f80 x)))
      | DT_VARCHAR \<Rightarrow> (case v of EV_string s \<Rightarrow> WriteVarcharSlot s
                      | _ \<Rightarrow> Inl (Runtime_error ''execution: non-string value for VARCHAR output column''))
      | DT_INVALID \<Rightarrow> Inl (Runtime_error ''execution: invalid output type''))"

definition WriteExecValue :: "column_data \<Rightarrow> nat \<Rightarrow> exec_value \<Rightarrow> column_data result" where
  "WriteExecValue c row v =
     (if cd_count c \<le> row then Inl (Runtime_error ''execution: write row index out of range'')
      else bind_r (output_bytes (cd_type c) v) (\<lambda>bs.
        Inr (c\<lparr>cd_buffer := put_cell (TypeElemSize (cd_type c)) row bs (cd_buffer c)\<rparr>)))"

subsection \<open>Expressions\<close>

fun IsPlanComparison :: "plan_binary_op \<Rightarrow> bool" where
  "IsPlanComparison P_EQ = True"
| "IsPlanComparison P_NE = True"
| "IsPlanComparison P_GT = True"
| "IsPlanComparison P_GE = True"
| "IsPlanComparison P_LT = True"
| "IsPlanComparison P_LE = True"
| "IsPlanComparison _ = False"

datatype exec_expr =
    ExecColumnRef nat data_type
  | ExecLiteral exec_value data_type
  | ExecBinary plan_binary_op exec_expr exec_expr data_type

fun Exec_GetReturnType :: "exec_expr \<Rightarrow> data_type" where
  "Exec_GetReturnType (ExecColumnRef _ ty) = ty"
| "Exec_GetReturnType (ExecLiteral _ ty) = ty"
| "Exec_GetReturnType (ExecBinary _ _ _ ty) = ty"

fun comparison_holds :: "plan_binary_op \<Rightarrow> int \<Rightarrow> bool" where
  "comparison_holds P_EQ c = (c = 0)"
| "comparison_holds P_NE c = (c \<noteq> 0)"
| "comparison_holds P_GT c = (c > 0)"
| "comparison_holds P_GE c = (c \<ge> 0)"
| "comparison_holds P_LT c = (c < 0)"
| "comparison_holds P_LE c = (c \<le> 0)"
| "comparison_holds _ c = False"

fun Eval :: "exec_expr \<Rightarrow> vector_batch \<Rightarrow> nat \<Rightarrow> exec_value result" where
  "Eval (ExecColumnRef slot ty) batch row =
     (if length (vb_columns batch) \<le> slot then Inl (Runtime_error ''execution: input slot out of range'')
      else ReadExecValue (vb_columns batch ! slot) row)"
| "Eval (ExecLiteral v ty) batch row = Inr v"
| "Eval (ExecBinary op l r ty) batch row =
     (if op = P_AND then
        bind_r (Eval l batch row) (\<lambda>a. bind_r (ExecValueAsBool a) (\<lambda>left.
          if \<not> left then Inr (EV_bool False)
          else bind_r (Eval r batch row) (\<lambda>b. bind_r (ExecValueAsBool b) (\<lambda>right. Inr (EV_bool right)))))
      else if op = P_OR then
        bind_r (Eval l batch row) (\<lambda>a. bind_r (ExecValueAsBool a) (\<lambda>left.
          if left then Inr (EV_bool True)
          else bind_r (Eval r batch row) (\<lambda>b. bind_r (ExecValueAsBool b) (\<lambda>right. Inr (EV_bool right)))))
      else
        bind_r (Eval l batch row) (\<lambda>lhs. bind_r (Eval r batch row) (\<lambda>rhs.
          if IsPlanComparison op then
            bind_r (CompareExecValues lhs rhs) (\<lambda>c. Inr (EV_bool (comparison_holds op c)))
          else
            bind_r (ExecValueAsNumber lhs) (\<lambda>a. bind_r (ExecValueAsNumber rhs) (\<lambda>b.
              case op of
                P_ADD \<Rightarrow> CastNumber (f80_add a b) ty
              | P_SUB \<Rightarrow> CastNumber (f80_sub a b) ty
              | _ \<Rightarrow> Inl (Runtime_error ''execution: unsupported binary operator''))))))"

subsection \<open>Compilation\<close>

record column_binding =
  cbi_table_oid :: table_id
  cbi_column_idx :: column_id

record exec_slot =
  es_type :: data_type
  es_source :: "column_binding option"
  es_name :: string

type_synonym exec_schema = "exec_slot list"

fun FindInputSlot :: "exec_schema \<Rightarrow> column_binding \<Rightarrow> nat option" where
  "FindInputSlot [] b = None"
| "FindInputSlot (s # ss) b = (if es_source s = Some b then Some 0 else map_option Suc (FindInputSlot ss b))"

fun PlanLiteralToExec :: "literal \<Rightarrow> exec_value" where
  "PlanLiteralToExec (Lit_int v) = EV_int32 v"
| "PlanLiteralToExec (Lit_double v) = EV_double v"
| "PlanLiteralToExec (Lit_string v) = EV_string v"

fun CompileExecExpr :: "exec_schema \<Rightarrow> plan_expr \<Rightarrow> exec_expr result" where
  "CompileExecExpr schema (PlanColumnRef oid col ty) =
     (case FindInputSlot schema \<lparr>cbi_table_oid = oid, cbi_column_idx = col\<rparr> of
        None \<Rightarrow> Inl (Runtime_error (''execution: column '' @ PlanExpr_ToString (PlanColumnRef oid col ty) @
                                   '' not found in child output schema''))
      | Some slot \<Rightarrow> Inr (ExecColumnRef slot ty))"
| "CompileExecExpr schema (PlanLiteral v ty) = Inr (ExecLiteral (PlanLiteralToExec v) ty)"
| "CompileExecExpr schema (PlanBinary op l r ty) =
     bind_r (CompileExecExpr schema l) (\<lambda>left. bind_r (CompileExecExpr schema r) (\<lambda>right. Inr (ExecBinary op left right ty)))"
| "CompileExecExpr schema (PlanAgg _ _ _) =
     Inl (Runtime_error ''execution: aggregate expressions are compiled by HashAggregateOperator'')"

end
