(* ===== verification/Scan_Filter.thy ===== *)
theory Scan_Filter
  imports Vector Ieee754 Schema
begin

text \<open>
  \<^verbatim>\<open>src/src/storage/scan/\<close>: the predicates a scan pushes down.  \<open>storage_predicate.cpp\<close>
  turns each condition into a typed comparison or a constant, once per scan; \<open>row_filter.cpp\<close>
  runs the comparisons over a batch and leaves the surviving rows in its selection.  The
  comparison itself is \<^verbatim>\<open>src/src/simd/compare_kernel.h\<close> and its scalar kernels.
\<close>

subsection \<open>Conditions and prepared predicates\<close>

datatype cond_value = CV_int32 i32 | CV_int64 i64 | CV_double f64 | CV_string string

record condition =
  cond_column :: column_id
  cond_op :: cmp_op
  cond_value :: cond_value

record scan_options =
  so_start_row :: u64
  so_end_row :: u64
  so_columns :: "column_id list"
  so_predicates :: "condition list"

datatype pred_kind = TYPED_COMPARE | ALWAYS_TRUE | ALWAYS_FALSE

datatype typed_value = TV_i32 i32 | TV_i64 i64 | TV_f32 f32 | TV_f64 f64

record prepared_predicate =
  pp_kind :: pred_kind
  pp_output_slot :: nat
  pp_type :: data_type
  pp_op :: cmp_op
  pp_value :: typed_value

definition new_predicate :: prepared_predicate where
  "new_predicate = \<lparr>pp_kind = TYPED_COMPARE, pp_output_slot = 0, pp_type = DT_INVALID, pp_op = CMP_EQ, pp_value = TV_i32 0\<rparr>"

text \<open>A constant outside the range of the column decides the comparison for every row.\<close>

definition SetIntegerConstantPredicate ::
  "int \<Rightarrow> int \<Rightarrow> cmp_op \<Rightarrow> i64 \<Rightarrow> prepared_predicate \<Rightarrow> prepared_predicate" where
  "SetIntegerConstantPredicate lo hi op value p =
     (if sint value < lo \<or> sint value > hi then
        (let below = (sint value < lo) in
         case op of
           CMP_EQ \<Rightarrow> p\<lparr>pp_kind := ALWAYS_FALSE\<rparr>
         | CMP_NE \<Rightarrow> p\<lparr>pp_kind := ALWAYS_TRUE\<rparr>
         | CMP_GT \<Rightarrow> p\<lparr>pp_kind := (if below then ALWAYS_TRUE else ALWAYS_FALSE)\<rparr>
         | CMP_GE \<Rightarrow> p\<lparr>pp_kind := (if below then ALWAYS_TRUE else ALWAYS_FALSE)\<rparr>
         | CMP_LT \<Rightarrow> p\<lparr>pp_kind := (if below then ALWAYS_FALSE else ALWAYS_TRUE)\<rparr>
         | CMP_LE \<Rightarrow> p\<lparr>pp_kind := (if below then ALWAYS_FALSE else ALWAYS_TRUE)\<rparr>)
      else if pp_type p = DT_INT32
      then p\<lparr>pp_kind := TYPED_COMPARE, pp_op := op, pp_value := TV_i32 (scast value)\<rparr>
      else p\<lparr>pp_kind := TYPED_COMPARE, pp_op := op, pp_value := TV_i64 value\<rparr>)"

definition SetIntegerDoublePredicate ::
  "int \<Rightarrow> int \<Rightarrow> f64 \<Rightarrow> f64 \<Rightarrow> cmp_op \<Rightarrow> f64 \<Rightarrow> prepared_predicate \<Rightarrow> prepared_predicate" where
  "SetIntegerDoublePredicate lo hi lo_d hi_excl_d op d p =
     (if \<not> (f64_le lo_d d \<and> f64_lt d hi_excl_d) then
        (if f64_nan d then p\<lparr>pp_kind := (if op = CMP_NE then ALWAYS_TRUE else ALWAYS_FALSE)\<rparr>
         else let too_big = f64_le hi_excl_d d in
           case op of
             CMP_EQ \<Rightarrow> p\<lparr>pp_kind := ALWAYS_FALSE\<rparr>
           | CMP_NE \<Rightarrow> p\<lparr>pp_kind := ALWAYS_TRUE\<rparr>
           | CMP_GT \<Rightarrow> p\<lparr>pp_kind := (if too_big then ALWAYS_FALSE else ALWAYS_TRUE)\<rparr>
           | CMP_GE \<Rightarrow> p\<lparr>pp_kind := (if too_big then ALWAYS_FALSE else ALWAYS_TRUE)\<rparr>
           | CMP_LT \<Rightarrow> p\<lparr>pp_kind := (if too_big then ALWAYS_TRUE else ALWAYS_FALSE)\<rparr>
           | CMP_LE \<Rightarrow> p\<lparr>pp_kind := (if too_big then ALWAYS_TRUE else ALWAYS_FALSE)\<rparr>)
      else if f64_is_integral d then
        SetIntegerConstantPredicate lo hi op (word_of_int (f64_floor_int d)) p
      else case op of
          CMP_EQ \<Rightarrow> p\<lparr>pp_kind := ALWAYS_FALSE\<rparr>
        | CMP_NE \<Rightarrow> p\<lparr>pp_kind := ALWAYS_TRUE\<rparr>
        | CMP_GT \<Rightarrow> SetIntegerConstantPredicate lo hi CMP_GT (word_of_int (f64_floor_int d)) p
        | CMP_GE \<Rightarrow> SetIntegerConstantPredicate lo hi CMP_GT (word_of_int (f64_floor_int d)) p
        | CMP_LT \<Rightarrow> SetIntegerConstantPredicate lo hi CMP_LT (word_of_int (f64_ceil_int d)) p
        | CMP_LE \<Rightarrow> SetIntegerConstantPredicate lo hi CMP_LT (word_of_int (f64_ceil_int d)) p)"

definition LiteralAsDouble :: "condition \<Rightarrow> f64 option" where
  "LiteralAsDouble cond =
     (case cond_value cond of
        CV_int32 v \<Rightarrow> Some (f64_of_int (sint v))
      | CV_int64 v \<Rightarrow> Some (f64_of_int (sint v))
      | CV_double d \<Rightarrow> Some d
      | CV_string _ \<Rightarrow> None)"

definition unsupported_literal :: exn where
  "unsupported_literal = Runtime_error ''pushed predicate contains unsupported literal type''"

definition BindIntegerPredicate ::
  "data_type \<Rightarrow> cmp_op \<Rightarrow> condition \<Rightarrow> prepared_predicate \<Rightarrow> prepared_predicate result" where
  "BindIntegerPredicate ty op cond p =
     (let lo = (if ty = DT_INT32 then - 2147483648 else - 9223372036854775808);
          hi = (if ty = DT_INT32 then 2147483647 else 9223372036854775807);
          lo_d = f64_of_int (if ty = DT_INT32 then - 2147483648 else - 9223372036854775808);
          hi_excl_d = f64_of_int (if ty = DT_INT32 then 2147483648 else 9223372036854775808)
      in case cond_value cond of
        CV_int32 v \<Rightarrow> Inr (SetIntegerConstantPredicate lo hi op (scast v) p)
      | CV_int64 v \<Rightarrow> Inr (SetIntegerConstantPredicate lo hi op v p)
      | CV_double d \<Rightarrow> Inr (SetIntegerDoublePredicate lo hi lo_d hi_excl_d op d p)
      | CV_string _ \<Rightarrow> Inl unsupported_literal)"

definition BindFloatingPredicate ::
  "data_type \<Rightarrow> cmp_op \<Rightarrow> condition \<Rightarrow> prepared_predicate \<Rightarrow> prepared_predicate result" where
  "BindFloatingPredicate ty op cond p =
     (case LiteralAsDouble cond of
        None \<Rightarrow> Inl unsupported_literal
      | Some v \<Rightarrow> Inr (p\<lparr>pp_kind := TYPED_COMPARE, pp_op := op,
          pp_value := (if ty = DT_FLOAT then TV_f32 (f32_of_f64 v) else TV_f64 v)\<rparr>))"

fun position :: "'a \<Rightarrow> 'a list \<Rightarrow> nat option" where
  "position x [] = None"
| "position x (y # ys) = (if y = x then Some 0 else map_option Suc (position x ys))"

definition schema_column_type :: "table_schema \<Rightarrow> column_id \<Rightarrow> data_type" where
  "schema_column_type s cid =
     (case List.find (\<lambda>c. cs_column_id c = cid) (ts_columns s) of None \<Rightarrow> DT_INVALID | Some c \<Rightarrow> cs_type c)"

definition prepare :: "scan_options \<Rightarrow> table_schema \<Rightarrow> condition \<Rightarrow> prepared_predicate result" where
  "prepare options s cond =
     (case position (cond_column cond) (so_columns options) of
        None \<Rightarrow> Inl (Runtime_error ''predicate column is not scanned'')
      | Some slot \<Rightarrow>
          (let ty = schema_column_type s (cond_column cond);
               p = new_predicate\<lparr>pp_output_slot := slot, pp_type := ty, pp_op := cond_op cond\<rparr>
           in case ty of
                DT_INVALID \<Rightarrow> Inl (Runtime_error ''pushed predicate references unknown column'')
              | DT_INT32 \<Rightarrow> BindIntegerPredicate ty (cond_op cond) cond p
              | DT_INT64 \<Rightarrow> BindIntegerPredicate ty (cond_op cond) cond p
              | DT_FLOAT \<Rightarrow> BindFloatingPredicate ty (cond_op cond) cond p
              | DT_DOUBLE \<Rightarrow> BindFloatingPredicate ty (cond_op cond) cond p
              | DT_VARCHAR \<Rightarrow> Inl (Runtime_error ''pushed predicate contains unsupported column type'')))"

definition Build :: "scan_options \<Rightarrow> table_schema \<Rightarrow> prepared_predicate list result" where
  "Build options s = map_r (prepare options s) (so_predicates options)"

subsection \<open>Typed comparison\<close>

text \<open>\<open>CompareTypedValue\<close> on the signed integers and on the floating types.\<close>

fun CompareSigned :: "cmp_op \<Rightarrow> 'a::len word \<Rightarrow> 'a word \<Rightarrow> bool" where
  "CompareSigned CMP_EQ a b = (a = b)"
| "CompareSigned CMP_NE a b = (a \<noteq> b)"
| "CompareSigned CMP_GT a b = (b <s a)"
| "CompareSigned CMP_GE a b = (b \<le>s a)"
| "CompareSigned CMP_LT a b = (a <s b)"
| "CompareSigned CMP_LE a b = (a \<le>s b)"

fun CompareFloat :: "nat \<Rightarrow> cmp_op \<Rightarrow> 'a::len word \<Rightarrow> 'a word \<Rightarrow> bool" where
  "CompareFloat m CMP_EQ a b = ieee_eq m a b"
| "CompareFloat m CMP_NE a b = (\<not> ieee_eq m a b)"
| "CompareFloat m CMP_GT a b = ieee_lt m b a"
| "CompareFloat m CMP_GE a b = ieee_le m b a"
| "CompareFloat m CMP_LT a b = ieee_lt m a b"
| "CompareFloat m CMP_LE a b = ieee_le m a b"

text \<open>The kernel of the column's type; \<open>std::get\<close> of another alternative throws.\<close>

definition bad_variant :: exn where
  "bad_variant = Runtime_error ''bad_variant_access''"

definition typed_compare :: "prepared_predicate \<Rightarrow> (bytes \<Rightarrow> bool) result" where
  "typed_compare p =
     (case (pp_type p, pp_value p) of
        (DT_INT32, TV_i32 v) \<Rightarrow> Inr (\<lambda>c. CompareSigned (pp_op p) (le_word 4 c) v)
      | (DT_INT64, TV_i64 v) \<Rightarrow> Inr (\<lambda>c. CompareSigned (pp_op p) (le_word 8 c) v)
      | (DT_FLOAT, TV_f32 v) \<Rightarrow> Inr (\<lambda>c. CompareFloat 23 (pp_op p) (le_word 4 c) v)
      | (DT_DOUBLE, TV_f64 v) \<Rightarrow> Inr (\<lambda>c. CompareFloat 52 (pp_op p) (le_word 8 c) v)
      | (DT_INVALID, _) \<Rightarrow> Inl (Runtime_error ''SIMD row filter encountered unsupported column type'')
      | (DT_VARCHAR, _) \<Rightarrow> Inl (Runtime_error ''SIMD row filter encountered unsupported column type'')
      | _ \<Rightarrow> Inl bad_variant)"

definition RunTypedCompare :: "prepared_predicate \<Rightarrow> vector_batch \<Rightarrow> nat \<Rightarrow> selection_mask result" where
  "RunTypedCompare p batch count =
     (if pp_output_slot p < length (vb_columns batch) then
        bind_r (typed_compare p) (\<lambda>test.
          let col = vb_columns batch ! pp_output_slot p in
          if count * TypeElemSize (pp_type p) \<le> length (cd_buffer col)
          then Inr (compare_loop (\<lambda>i. test (cell (TypeElemSize (pp_type p)) (cd_buffer col) i)) count)
          else Inl Undefined_behaviour)
      else Inl Undefined_behaviour)"

subsection \<open>The row filter\<close>

text \<open>
  The loop of \<open>Apply\<close>; \<open>flags\<close> is the rest of \<open>row_filter_mask\<close>, which may be shorter than
  the predicates.  A zero flag skips its predicate.
\<close>

fun apply_predicates ::
  "prepared_predicate list \<Rightarrow> u8 list \<Rightarrow> vector_batch \<Rightarrow> nat \<Rightarrow> selection_mask \<Rightarrow> selection_mask result" where
  "apply_predicates [] flags batch n m = Inr m"
| "apply_predicates (p # ps) flags batch n m =
     (if flags \<noteq> [] \<and> hd flags = 0 then apply_predicates ps (tl flags) batch n m
      else if pp_kind p = ALWAYS_TRUE then apply_predicates ps (tl flags) batch n m
      else if pp_kind p = ALWAYS_FALSE then Inr (SetNone n)
      else bind_r (RunTypedCompare p batch n) (\<lambda>cur.
        let m' = Mask_And m cur in
        if Mask_Empty m' then Inr m' else apply_predicates ps (tl flags) batch n m'))"

definition Row_Filter_Apply :: "prepared_predicate list \<Rightarrow> u8 list \<Rightarrow> vector_batch \<Rightarrow> vector_batch result" where
  "Row_Filter_Apply prepared flags batch =
     (let n = PhysicalSize batch in
      if prepared = [] \<or> n = 0 then Inr (SetIdentitySelection n batch)
      else if n > kVectorBatchSize
        then Inl (Runtime_error ''SIMD row filter: batch larger than SelectionMask capacity'')
      else bind_r (apply_predicates prepared flags batch n (SetAll n)) (\<lambda>m.
        Inr (if IsAll m then SetIdentitySelection n batch else SetSelection m batch)))"


subsection \<open>What a pushed condition means\<close>

fun cmp_int :: "cmp_op \<Rightarrow> int \<Rightarrow> int \<Rightarrow> bool" where
  "cmp_int CMP_EQ a b = (a = b)"
| "cmp_int CMP_NE a b = (a \<noteq> b)"
| "cmp_int CMP_GT a b = (a > b)"
| "cmp_int CMP_GE a b = (a \<ge> b)"
| "cmp_int CMP_LT a b = (a < b)"
| "cmp_int CMP_LE a b = (a \<le> b)"

text \<open>
  An integer column against a literal, over the mathematical values: a double is a number of
  least subnormals, an infinity is beyond all integers of 64 bits, and NaN compares unequal.
\<close>

definition literal_holds :: "cmp_op \<Rightarrow> int \<Rightarrow> cond_value \<Rightarrow> bool" where
  "literal_holds op x lit =
     (case lit of
        CV_int32 v \<Rightarrow> cmp_int op x (sint v)
      | CV_int64 v \<Rightarrow> cmp_int op x (sint v)
      | CV_double d \<Rightarrow> if f64_nan d then op = CMP_NE else cmp_int op (x * 2 ^ 1074) (ieee_units 52 d)
      | CV_string _ \<Rightarrow> False)"

definition predicate_on_int :: "prepared_predicate \<Rightarrow> int \<Rightarrow> bool" where
  "predicate_on_int p x =
     (case pp_kind p of ALWAYS_TRUE \<Rightarrow> True | ALWAYS_FALSE \<Rightarrow> False
      | TYPED_COMPARE \<Rightarrow> (case pp_value p of
          TV_i32 v \<Rightarrow> cmp_int (pp_op p) x (sint v) | TV_i64 v \<Rightarrow> cmp_int (pp_op p) x (sint v) | _ \<Rightarrow> False))"

definition row_passes :: "prepared_predicate \<Rightarrow> bytes \<Rightarrow> bool" where
  "row_passes p c =
     (case pp_kind p of ALWAYS_TRUE \<Rightarrow> True | ALWAYS_FALSE \<Rightarrow> False
      | TYPED_COMPARE \<Rightarrow> (case typed_compare p of Inl _ \<Rightarrow> False | Inr test \<Rightarrow> test c))"

lemma CompareSigned_cmp_int: "CompareSigned op a b = cmp_int op (sint a) (sint b)"
  by (cases op) (auto simp: word_sless_alt word_sle_eq signed_word_eqI)

lemma sint_scast_in_range:
  assumes "- 2147483648 \<le> sint (v :: i64)" "sint v \<le> 2147483647"
  shows "sint (scast v :: i32) = sint v"
  unfolding scast_eq sint_sbintrunc' by (rule signed_take_bit_int_eq_self) (use assms in simp_all)

lemma sint_scast_up: "sint (scast (v :: i32) :: i64) = sint v"
  by (rule sint_up_scast) (simp add: is_up_def target_size source_size)

lemma SetIntegerConstantPredicate_exact:
  assumes "lo \<le> x" "x \<le> hi" "pp_type p = DT_INT32 \<longrightarrow> lo = - 2147483648 \<and> hi = 2147483647"
  shows "predicate_on_int (SetIntegerConstantPredicate lo hi op v p) x \<longleftrightarrow> cmp_int op x (sint v)"
proof (cases "sint v < lo \<or> sint v > hi")
  case True
  then show ?thesis using assms
    by (cases op) (auto simp: SetIntegerConstantPredicate_def predicate_on_int_def Let_def)
next
  case False
  have "pp_type p = DT_INT32 \<Longrightarrow> sint (scast v :: i32) = sint v"
    using False assms(3) by (intro sint_scast_in_range) auto
  then show ?thesis using False assms
    by (auto simp: SetIntegerConstantPredicate_def predicate_on_int_def)
qed

text \<open>The powers of two that bound the column types are doubles.\<close>

lemma fp_round_pow2:
  assumes "m < k"
  shows "fp_round m (2 ^ k) 1 = (k - m) * 2 ^ m + 2 ^ m"
proof -
  have i: "ilog2 (2 ^ k) = k" by (rule ilog2_unique) simp_all
  have "\<not> (2::nat) ^ k < 2 ^ Suc m" using assms by (simp add: not_less del: power_Suc)
  then have "fp_round m (2 ^ k) 1 = (k - m) * 2 ^ m + rhe (2 ^ k) (2 ^ (k - m))"
    by (simp add: fp_round_def i Let_def del: power_Suc)
  moreover have "(2::nat) ^ k = 2 ^ m * 2 ^ (k - m)" using assms by (simp flip: power_add)
  then have "rhe (2 ^ k) (2 ^ (k - m)) = 2 ^ m" using rhe_exact [of "2 ^ (k - m)" "2 ^ m"] by simp
  ultimately show ?thesis by simp
qed

lemma fp_val_pow2: "fp_val m ((k - m) * 2 ^ m + 2 ^ m) = (if m < k then 2 ^ k else 2 ^ m)"
proof -
  have "((k - m) * 2 ^ m + 2 ^ m) = Suc (k - m) * 2 ^ m" by simp
  then have "fp_val m ((k - m) * 2 ^ m + 2 ^ m) = 2 ^ m * 2 ^ (k - m)"
    by (simp only: fp_val_def Let_def) simp
  then show ?thesis by (simp flip: power_add)
qed

lemma units_pow2:
  assumes "e \<le> 64" 
  shows "ieee_units 52 (f64_of_int (2 ^ e)) = 2 ^ e * 2 ^ 1074"
    and "ieee_units 52 (f64_of_int (- (2 ^ e))) = - (2 ^ e) * 2 ^ 1074"
proof -
  have r: "fp_round 52 (2 ^ (e + 1074)) 1 = (e + 1022) * 2 ^ 52 + 2 ^ 52"
    using fp_round_pow2 [of 52 "e + 1074"] by simp
  have le: "(e + 1022) * 2 ^ 52 + 2 ^ 52 \<le> ieee_inf 52 TYPE(64)" using assms by (simp add: ieee_inf_def)
  have v: "fp_val 52 ((e + 1022) * 2 ^ 52 + 2 ^ 52) = 2 ^ (e + 1074)"
    using fp_val_pow2 [of 52 "e + 1074"] by simp
  have mag: "nat \<bar>(2::int) ^ e\<bar> * 2 ^ 1074 = 2 ^ (e + 1074)" "nat \<bar>- ((2::int) ^ e)\<bar> * 2 ^ 1074 = 2 ^ (e + 1074)"
    by (simp_all add: power_add nat_power_eq)
  show "ieee_units 52 (f64_of_int (2 ^ e)) = 2 ^ e * 2 ^ 1074"
    unfolding ieee_units_def f64_of_int_def ieee_of_int_def ieee_round_sel mag r min_absorb2 [OF le] v
    by (simp add: power_add)
  show "ieee_units 52 (f64_of_int (- (2 ^ e))) = - (2 ^ e) * 2 ^ 1074"
    unfolding ieee_units_def f64_of_int_def ieee_of_int_def ieee_round_sel mag r min_absorb2 [OF le] v
    by (simp add: power_add)
qed

lemma f64_lt_units: "\<not> f64_nan a \<Longrightarrow> \<not> f64_nan b \<Longrightarrow> f64_lt a b \<longleftrightarrow> ieee_units 52 a < ieee_units 52 b"
  by (simp add: ieee_lt_def ieee_key_less_iff_units [of a b 52])

lemma f64_le_units: "\<not> f64_nan a \<Longrightarrow> \<not> f64_nan b \<Longrightarrow> f64_le a b \<longleftrightarrow> ieee_units 52 a \<le> ieee_units 52 b"
  by (auto simp: ieee_le_def ieee_lt_def ieee_eq_def ieee_key_less_iff_units [of a b 52] ieee_key_eq_iff_units [of a b 52])

text \<open>Comparing \<open>x * K\<close> with \<open>u\<close> is comparing \<open>x\<close> with the quotient, rounded the right way.\<close>

lemma cmp_int_scaled:
  assumes "(0::int) < K" "K dvd u"
  shows "cmp_int op (x * K) u \<longleftrightarrow> cmp_int op x (u div K)"
proof -
  obtain q where "u = K * q" using assms(2) by (rule dvdE)
  then have "u = q * K" by simp
  then show ?thesis using assms(1) by (cases op) simp_all
qed

lemma cmp_int_fraction:
  assumes "(0::int) < K" "\<not> K dvd u"
  shows "x * K \<noteq> u" "u < x * K \<longleftrightarrow> u div K < x" "x * K < u \<longleftrightarrow> x < - ((- u) div K)"
    and "- ((- u) div K) = u div K + 1"
proof -
  have r: "0 < u mod K" "u mod K < K"
    using assms pos_mod_bound [of K u] pos_mod_sign [of K u] by (simp_all add: order_less_le dvd_eq_mod_eq_0)
  have u: "u = (u div K) * K + u mod K" by simp
  show ne: "x * K \<noteq> u" using assms(2) by auto
  have lt: "x * K < u \<longleftrightarrow> x \<le> u div K"
  proof
    assume "x * K < u"
    moreover have "(u div K + 1) * K = u div K * K + K" by (simp add: algebra_simps)
    ultimately have "x * K < (u div K + 1) * K" using u r by linarith
    then show "x \<le> u div K" using assms(1) by (simp add: mult_less_cancel_right)
  next
    assume "x \<le> u div K"
    then have "x * K \<le> (u div K) * K" using assms(1) by (simp add: mult_right_mono)
    then show "x * K < u" using u r by linarith
  qed
  show "u < x * K \<longleftrightarrow> u div K < x" using lt ne by linarith
  show ce: "- ((- u) div K) = u div K + 1" using assms by (simp add: zdiv_zminus1_eq_if dvd_eq_mod_eq_0)
  show "x * K < u \<longleftrightarrow> x < - ((- u) div K)" using lt ce by simp
qed

lemma quotient_range:
  assumes "(0::int) < K" "lo * K \<le> u" "u < (hi + 1) * K"
  shows "lo \<le> u div K" "u div K \<le> hi"
proof -
  have "lo * K div K \<le> u div K" using assms by (intro zdiv_mono1)
  then show "lo \<le> u div K" using assms(1) by simp
  have "u div K * K \<le> u" using assms(1) pos_mod_sign [of K u] div_mult_mod_eq [of u K] by linarith
  then have "u div K * K < (hi + 1) * K" using assms(3) by linarith
  then show "u div K \<le> hi" using assms(1) by (simp add: mult_less_cancel_right)
qed

text \<open>A double with a fraction is small: its rounding up cannot leave the 64 bits.\<close>

lemma fp_val_fraction:
  assumes "\<not> 2 ^ k dvd fp_val m b"
  shows "fp_val m b < 2 ^ (Suc m + k)"
proof -
  define e f where "e = b div 2 ^ m" and "f = b mod 2 ^ m"
  have f: "f < 2 ^ m" by (simp add: f_def)
  show ?thesis
  proof (cases e)
    case 0
    then have "fp_val m b = f" by (simp add: fp_val_def Let_def flip: e_def f_def)
    moreover have "(2::nat) ^ m \<le> 2 ^ (Suc m + k)" by (intro power_increasing) simp_all
    ultimately show ?thesis using f by linarith
  next
    case (Suc j)
    then have v: "fp_val m b = (2 ^ m + f) * 2 ^ j" by (simp add: fp_val_def Let_def flip: e_def f_def)
    have "\<not> k \<le> j" using assms v by (auto simp: le_imp_power_dvd)
    then have "(2::nat) ^ j \<le> 2 ^ k" by (intro power_increasing) simp_all
    moreover have "2 ^ m + f < 2 ^ Suc m" using f by simp
    ultimately have "(2 ^ m + f) * 2 ^ j < 2 ^ Suc m * 2 ^ k" by (intro mult_less_le_imp_less) simp_all
    then show ?thesis by (simp add: v power_add)
  qed
qed

lemma units_fraction:
  assumes "\<not> f64_is_integral d"
  shows "\<bar>ieee_units 52 d\<bar> < 2 ^ 53 * 2 ^ 1074"
proof -
  have a: "\<bar>ieee_units 52 d\<bar> = int (fp_val 52 (ieee_mag d))" by (simp add: ieee_units_def)
  have "\<not> (2 ^ 1074 :: int) dvd int (fp_val 52 (ieee_mag d))"
    using assms by (auto simp: f64_is_integral_def ieee_units_def simp del: power_numeral)
  then have "\<not> int (2 ^ 1074) dvd int (fp_val 52 (ieee_mag d))" by (simp only: of_nat_power of_nat_numeral not_False_eq_True)
  then have "\<not> 2 ^ 1074 dvd fp_val 52 (ieee_mag d)" by (simp only: int_dvd_int_iff not_False_eq_True)
  from fp_val_fraction [OF this]
  have "int (fp_val 52 (ieee_mag d)) < int (2 ^ (Suc 52 + 1074))" by (simp only: of_nat_less_iff)
  also have "\<dots> = 2 ^ 53 * 2 ^ 1074" unfolding power_add by simp
  finally show ?thesis by (simp only: a)
qed

lemma sint_word_of_int_64:
  "- 9223372036854775808 \<le> n \<Longrightarrow> n \<le> 9223372036854775807 \<Longrightarrow> sint (word_of_int n :: i64) = n"
  unfolding sint_sbintrunc' by (rule signed_take_bit_int_eq_self) simp_all

definition f64_one :: int where
  "f64_one = 2 ^ 1074"

lemma f64_one_pos: "0 < f64_one"
  unfolding f64_one_def by (rule zero_less_power) simp

lemmas f64_rounding = f64_floor_int_def f64_ceil_int_def f64_is_integral_def

text \<open>Outside the range every row compares alike; inside, the integral and the fractional case.\<close>

lemma SetIntegerDoublePredicate_outside:
  assumes x: "lo \<le> x" "x \<le> hi" and d: "\<not> f64_nan d" "\<not> (f64_le lo_d d \<and> f64_lt d hi_d)"
    and b: "\<not> f64_nan lo_d" "ieee_units 52 lo_d = lo * f64_one" "\<not> f64_nan hi_d" "ieee_units 52 hi_d = (hi + 1) * f64_one"
  shows "predicate_on_int (SetIntegerDoublePredicate lo hi lo_d hi_d op d p) x \<longleftrightarrow>
    cmp_int op (x * f64_one) (ieee_units 52 d)"
proof -
  define u where "u = ieee_units 52 d"
  have le: "lo * f64_one \<le> x * f64_one" "x * f64_one < (hi + 1) * f64_one"
    using x f64_one_pos by (auto intro: mult_right_mono mult_strict_right_mono)
  have big: "f64_le hi_d d \<longleftrightarrow> (hi + 1) * f64_one \<le> u"
    using d b by (simp add: f64_le_units u_def)
  have small: "\<not> (hi + 1) * f64_one \<le> u \<Longrightarrow> u < lo * f64_one"
    using d b by (simp add: f64_le_units f64_lt_units u_def not_le)
  have "SetIntegerDoublePredicate lo hi lo_d hi_d op d p =
      p\<lparr>pp_kind := (if cmp_int op (x * f64_one) u then ALWAYS_TRUE else ALWAYS_FALSE)\<rparr>"
    using d le small by (cases op) (auto simp: SetIntegerDoublePredicate_def Let_def big)
  then show ?thesis by (simp add: predicate_on_int_def u_def)
qed

lemma SetIntegerDoublePredicate_inside:
  assumes x: "lo \<le> x" "x \<le> hi" and d: "\<not> f64_nan d" "f64_le lo_d d" "f64_lt d hi_d"
    and b: "\<not> f64_nan lo_d" "ieee_units 52 lo_d = lo * f64_one" "\<not> f64_nan hi_d" "ieee_units 52 hi_d = (hi + 1) * f64_one"
    and r: "- 9223372036854775808 \<le> lo" "hi \<le> 9223372036854775807"
    and ty: "pp_type p = DT_INT32 \<longrightarrow> lo = - 2147483648 \<and> hi = 2147483647"
  shows "predicate_on_int (SetIntegerDoublePredicate lo hi lo_d hi_d op d p) x \<longleftrightarrow>
    cmp_int op (x * f64_one) (ieee_units 52 d)"
proof -
  define u where "u = ieee_units 52 d"
  have "lo * f64_one \<le> u" "u < (hi + 1) * f64_one"
    using d b by (simp_all add: f64_le_units f64_lt_units u_def)
  note q = quotient_range [OF f64_one_pos this]
  have fl: "f64_floor_int d = u div f64_one" by (simp only: f64_floor_int_def u_def f64_one_def)
  have ce: "f64_ceil_int d = - ((- u) div f64_one)" by (simp only: f64_ceil_int_def u_def f64_one_def)
  have int: "f64_is_integral d \<longleftrightarrow> f64_one dvd u" by (simp only: f64_is_integral_def u_def f64_one_def)
  have s: "sint (word_of_int (u div f64_one) :: i64) = u div f64_one"
    using q r by (intro sint_word_of_int_64) simp_all
  note set = SetIntegerConstantPredicate_exact [OF x ty]
  show ?thesis
  proof (cases "f64_is_integral d")
    case True
    then show ?thesis
      using d cmp_int_scaled [OF f64_one_pos, of u op x] int
      by (simp add: SetIntegerDoublePredicate_def fl set s flip: u_def)
  next
    case False
    note fr = cmp_int_fraction [OF f64_one_pos False [unfolded int]]
    have "\<bar>u\<bar> < 2 ^ 53 * f64_one" using units_fraction [OF False] by (simp only: u_def f64_one_def)
    then have "- (2 ^ 53) * f64_one \<le> u" "u < 2 ^ 53 * f64_one" by (simp_all add: abs_less_iff)
    from quotient_range [OF f64_one_pos this(1), of "2 ^ 53 - 1"] this(2)
    have "- (2 ^ 53) \<le> u div f64_one" "u div f64_one \<le> 2 ^ 53 - 1" by simp_all
    then have c: "sint (word_of_int (f64_ceil_int d) :: i64) = - ((- u) div f64_one)"
      using fr(4) ce by (intro trans [OF sint_word_of_int_64]) simp_all
    have ge: "u \<le> x * f64_one \<longleftrightarrow> u div f64_one < x" and le: "x * f64_one \<le> u \<longleftrightarrow> x < - ((- u) div f64_one)"
      using fr(1) [of x] fr(2) [of x] fr(3) [of x] by linarith+
    have const: "predicate_on_int (p\<lparr>pp_kind := ALWAYS_TRUE\<rparr>) x" "\<not> predicate_on_int (p\<lparr>pp_kind := ALWAYS_FALSE\<rparr>) x"
      by (simp_all add: predicate_on_int_def)
    show ?thesis
      using d False unfolding u_def [symmetric] SetIntegerDoublePredicate_def
      by (cases op) (simp_all only: fl set s c const fr(1,2,3) ge le cmp_int.simps cmp_op.case simp_thms if_True if_False)
  qed
qed

lemma type_bounds:
  "\<not> f64_nan (f64_of_int n)"
  "ieee_units 52 (f64_of_int (- 2147483648)) = - 2147483648 * f64_one"
  "ieee_units 52 (f64_of_int 2147483648) = (2147483647 + 1) * f64_one"
  "ieee_units 52 (f64_of_int (- 9223372036854775808)) = - 9223372036854775808 * f64_one"
  "ieee_units 52 (f64_of_int 9223372036854775808) = (9223372036854775807 + 1) * f64_one"
  using units_pow2 [of 31] units_pow2 [of 63] unfolding f64_one_def by simp_all

lemma BindIntegerPredicate_exact:
  assumes "BindIntegerPredicate ty op cond p = Inr p'" "pp_type p = ty"
    and "ty = DT_INT32 \<and> - 2147483648 \<le> x \<and> x \<le> 2147483647 \<or>
      ty = DT_INT64 \<and> - 9223372036854775808 \<le> x \<and> x \<le> 9223372036854775807"
  shows "predicate_on_int p' x \<longleftrightarrow> literal_holds op x (cond_value cond)"
proof -
  define lo hi :: int where "lo = (if ty = DT_INT32 then - 2147483648 else - 9223372036854775808)"
    and "hi = (if ty = DT_INT32 then 2147483647 else 9223372036854775807)"
  define lo_d hi_d where "lo_d = f64_of_int (if ty = DT_INT32 then - 2147483648 else - 9223372036854775808)"
    and "hi_d = f64_of_int (if ty = DT_INT32 then 2147483648 else 9223372036854775808)"
  have x: "lo \<le> x" "x \<le> hi" using assms(3) by (auto simp: lo_def hi_def)
  have ty: "pp_type p = DT_INT32 \<longrightarrow> lo = - 2147483648 \<and> hi = 2147483647"
    using assms(2) by (simp add: lo_def hi_def)
  have b: "\<not> f64_nan lo_d" "ieee_units 52 lo_d = lo * f64_one" "\<not> f64_nan hi_d" "ieee_units 52 hi_d = (hi + 1) * f64_one"
    using type_bounds by (simp_all add: lo_d_def hi_d_def lo_def hi_def)
  have r: "- 9223372036854775808 \<le> lo" "hi \<le> 9223372036854775807" by (simp_all add: lo_def hi_def)
  have p': "p' = (case cond_value cond of
        CV_int32 v \<Rightarrow> SetIntegerConstantPredicate lo hi op (scast v) p
      | CV_int64 v \<Rightarrow> SetIntegerConstantPredicate lo hi op v p
      | CV_double d \<Rightarrow> SetIntegerDoublePredicate lo hi lo_d hi_d op d p)" and ns: "\<nexists>s. cond_value cond = CV_string s"
    using assms(1) unfolding BindIntegerPredicate_def Let_def lo_def hi_def lo_d_def hi_d_def
    by (cases "cond_value cond"; simp)+
  show ?thesis
  proof (cases "cond_value cond")
    case (CV_double d)
    have "literal_holds op x (cond_value cond) \<longleftrightarrow>
        (if f64_nan d then op = CMP_NE else cmp_int op (x * f64_one) (ieee_units 52 d))"
      by (simp only: CV_double literal_holds_def cond_value.case f64_one_def)
    moreover have "predicate_on_int (SetIntegerDoublePredicate lo hi lo_d hi_d op d p) x \<longleftrightarrow> op = CMP_NE" if "f64_nan d"
      using that by (simp add: SetIntegerDoublePredicate_def predicate_on_int_def ieee_le_def ieee_lt_def ieee_eq_def)
    ultimately show ?thesis
      using SetIntegerDoublePredicate_outside [OF x _ _ b, of d op p]
        SetIntegerDoublePredicate_inside [OF x _ _ _ b r ty, of d op]
      by (cases "f64_nan d"; cases "f64_le lo_d d \<and> f64_lt d hi_d") (simp_all add: p' CV_double)
  qed (use ns in \<open>simp_all add: p' SetIntegerConstantPredicate_exact [OF x ty] literal_holds_def sint_scast_up\<close>)
qed

text \<open>What \<open>Build\<close> makes of a condition on a column of type \<open>ty\<close> is ready for the kernels.\<close>

definition prepared_ok :: "nat \<Rightarrow> data_type \<Rightarrow> prepared_predicate \<Rightarrow> bool" where
  "prepared_ok slot ty p \<longleftrightarrow> pp_output_slot p = slot \<and> pp_type p = ty \<and>
     (pp_kind p = TYPED_COMPARE \<longrightarrow> (\<exists>test. typed_compare p = Inr test))"

definition int_ready :: "nat \<Rightarrow> data_type \<Rightarrow> prepared_predicate \<Rightarrow> bool" where
  "int_ready slot ty p \<longleftrightarrow> pp_output_slot p = slot \<and> pp_type p = ty \<and>
     (pp_kind p = TYPED_COMPARE \<longrightarrow>
        (ty = DT_INT32 \<and> (\<exists>v. pp_value p = TV_i32 v)) \<or> (ty = DT_INT64 \<and> (\<exists>v. pp_value p = TV_i64 v)))"

lemma int_ready_kind:
  "pp_output_slot p = slot \<Longrightarrow> pp_type p = ty \<Longrightarrow> k \<noteq> TYPED_COMPARE \<Longrightarrow> int_ready slot ty (p\<lparr>pp_kind := k\<rparr>)"
  by (simp add: int_ready_def)

lemma SetIntegerConstantPredicate_ready:
  assumes "pp_output_slot p = slot" "pp_type p = ty" "ty = DT_INT32 \<or> ty = DT_INT64"
  shows "int_ready slot ty (SetIntegerConstantPredicate lo hi op v p)"
  using assms by (cases op) (auto simp: SetIntegerConstantPredicate_def Let_def int_ready_def)

lemma SetIntegerDoublePredicate_ready:
  assumes "pp_output_slot p = slot" "pp_type p = ty" "ty = DT_INT32 \<or> ty = DT_INT64"
  shows "int_ready slot ty (SetIntegerDoublePredicate lo hi lo_d hi_d op d p)"
  using SetIntegerConstantPredicate_ready [OF assms] int_ready_kind [OF assms(1,2)]
  unfolding SetIntegerDoublePredicate_def Let_def
  by (cases op) (simp_all split: if_split)

definition column_int :: "data_type \<Rightarrow> bytes \<Rightarrow> int" where
  "column_int ty c = (if ty = DT_INT32 then sint (le_word 4 c :: i32) else sint (le_word 8 c :: i64))"

lemma int_ready_row:
  "int_ready slot ty p \<Longrightarrow> ty = DT_INT32 \<or> ty = DT_INT64 \<Longrightarrow>
   row_passes p c = predicate_on_int p (column_int ty c) \<and> prepared_ok slot ty p"
  by (cases "pp_kind p")
    (auto simp: int_ready_def row_passes_def predicate_on_int_def prepared_ok_def typed_compare_def
      CompareSigned_cmp_int column_int_def)

text \<open>The meaning of a pushed condition on the bytes of its column.\<close>

definition condition_holds :: "data_type \<Rightarrow> condition \<Rightarrow> bytes \<Rightarrow> bool" where
  "condition_holds ty cond c =
     (case ty of
        DT_FLOAT \<Rightarrow> (case LiteralAsDouble cond of
            None \<Rightarrow> False | Some v \<Rightarrow> CompareFloat 23 (cond_op cond) (le_word 4 c) (f32_of_f64 v))
      | DT_DOUBLE \<Rightarrow> (case LiteralAsDouble cond of
            None \<Rightarrow> False | Some v \<Rightarrow> CompareFloat 52 (cond_op cond) (le_word 8 c) v)
      | _ \<Rightarrow> literal_holds (cond_op cond) (column_int ty c) (cond_value cond))"

lemma column_int_bounds:
  "ty = DT_INT32 \<Longrightarrow> - 2147483648 \<le> column_int ty c \<and> column_int ty c \<le> 2147483647"
  "ty = DT_INT64 \<Longrightarrow> - 9223372036854775808 \<le> column_int ty c \<and> column_int ty c \<le> 9223372036854775807"
  using sint_greater_eq [of "le_word 4 c :: i32"] sint_less [of "le_word 4 c :: i32"]
    sint_greater_eq [of "le_word 8 c :: i64"] sint_less [of "le_word 8 c :: i64"]
  by (simp_all add: column_int_def)

lemma BindIntegerPredicate_row:
  assumes "BindIntegerPredicate ty (cond_op cond) cond p = Inr p'" "pp_output_slot p = slot" "pp_type p = ty"
    and "ty = DT_INT32 \<or> ty = DT_INT64"
  shows "row_passes p' c = condition_holds ty cond c \<and> prepared_ok slot ty p'"
proof -
  have "int_ready slot ty p'"
    using assms(1) SetIntegerConstantPredicate_ready [OF assms(2-4)] SetIntegerDoublePredicate_ready [OF assms(2-4)]
    unfolding BindIntegerPredicate_def Let_def by (auto split: cond_value.splits)
  moreover have "predicate_on_int p' (column_int ty c) = literal_holds (cond_op cond) (column_int ty c) (cond_value cond)"
    using assms(4) column_int_bounds by (intro BindIntegerPredicate_exact [OF assms(1,3)]) auto
  ultimately show ?thesis using int_ready_row assms(4) by (auto simp: condition_holds_def)
qed

lemma prepare_row:
  assumes "prepare options s cond = Inr p"
  shows "row_passes p c = condition_holds (schema_column_type s (cond_column cond)) cond c"
    and "\<exists>slot. position (cond_column cond) (so_columns options) = Some slot \<and>
      prepared_ok slot (schema_column_type s (cond_column cond)) p"
proof -
  define ty where "ty = schema_column_type s (cond_column cond)"
  obtain slot where slot: "position (cond_column cond) (so_columns options) = Some slot"
    using assms by (auto simp: prepare_def split: option.splits)
  define p0 where "p0 = new_predicate\<lparr>pp_output_slot := slot, pp_type := ty, pp_op := cond_op cond\<rparr>"
  have p0: "pp_output_slot p0 = slot" "pp_type p0 = ty" by (simp_all add: p0_def)
  have *: "row_passes p c = condition_holds ty cond c \<and> prepared_ok slot ty p"
  proof (cases "ty = DT_INT32 \<or> ty = DT_INT64")
    case True
    then have "BindIntegerPredicate ty (cond_op cond) cond p0 = Inr p"
      using assms by (auto simp: prepare_def slot p0_def Let_def simp flip: ty_def)
    from BindIntegerPredicate_row [OF this p0 True] show ?thesis .
  next
    case False
    then have "ty = DT_FLOAT \<or> ty = DT_DOUBLE" "BindFloatingPredicate ty (cond_op cond) cond p0 = Inr p"
      using assms by (auto simp: prepare_def slot p0_def Let_def simp flip: ty_def split: data_type.splits)
    then show ?thesis
      by (auto simp: BindFloatingPredicate_def condition_holds_def row_passes_def prepared_ok_def typed_compare_def p0
          split: option.splits)
  qed
  then show "row_passes p c = condition_holds (schema_column_type s (cond_column cond)) cond c"
    "\<exists>slot. position (cond_column cond) (so_columns options) = Some slot \<and>
      prepared_ok slot (schema_column_type s (cond_column cond)) p"
    by (simp_all add: slot ty_def)
qed

text \<open>C4: A pushed condition on an integer column is prepared to a predicate that holds of exactly the rows
  whose integer satisfies it, compared as numbers: out-of-range and fractional literals, NaN and
  the infinities included, whatever the operator.\<close>

theorem prepared_integer_predicate_exact:
  assumes "prepare options s cond = Inr p" "schema_column_type s (cond_column cond) = ty"
    and "ty = DT_INT32 \<or> ty = DT_INT64"
  shows "row_passes p c \<longleftrightarrow> literal_holds (cond_op cond) (column_int ty c) (cond_value cond)"
  using prepare_row(1) [OF assms(1), of c] assms(2,3) by (auto simp: condition_holds_def)

subsection \<open>The row filter keeps exactly the matching rows\<close>

definition pred_on_row :: "prepared_predicate \<Rightarrow> vector_batch \<Rightarrow> nat \<Rightarrow> bool" where
  "pred_on_row p b i = row_passes p (cell (TypeElemSize (pp_type p)) (cd_buffer (vb_columns b ! pp_output_slot p)) i)"

text \<open>A predicate the batch can serve: its column is there, long enough and of its type.\<close>

definition pred_serves :: "nat \<Rightarrow> vector_batch \<Rightarrow> prepared_predicate \<Rightarrow> bool" where
  "pred_serves n b p \<longleftrightarrow> pp_output_slot p < length (vb_columns b) \<and>
     n * TypeElemSize (pp_type p) \<le> length (cd_buffer (vb_columns b ! pp_output_slot p)) \<and>
     (pp_kind p = TYPED_COMPARE \<longrightarrow> (\<exists>test. typed_compare p = Inr test))"

definition skipped :: "u8 list \<Rightarrow> nat \<Rightarrow> bool" where
  "skipped flags j \<longleftrightarrow> j < length flags \<and> flags ! j = 0"

lemma skipped_0: "skipped flags 0 \<longleftrightarrow> flags \<noteq> [] \<and> hd flags = 0"
  by (cases flags) (simp_all add: skipped_def)

lemma skipped_Suc: "skipped flags (Suc j) \<longleftrightarrow> skipped (tl flags) j"
  by (cases flags) (simp_all add: skipped_def)

lemma RunTypedCompare_rows:
  assumes "pred_serves n b p" "pp_kind p = TYPED_COMPARE" "n \<le> kVectorBatchSize"
  shows "\<exists>m. RunTypedCompare p b n = Inr m \<and> mask_inv m \<and> mask_row_count m = n \<and>
    (\<forall>i. Mask_Test m i \<longleftrightarrow> i < n \<and> pred_on_row p b i)"
proof -
  obtain test where "typed_compare p = Inr test" using assms by (auto simp: pred_serves_def)
  then show ?thesis
    using assms by (simp add: RunTypedCompare_def pred_serves_def pred_on_row_def row_passes_def Let_def
        compare_loop_inv compare_loop_rows compare_loop_Test)
qed

lemma apply_predicates_rows:
  assumes "\<forall>p\<in>set ps. pred_serves n b p" "n \<le> kVectorBatchSize" "mask_inv m" "mask_row_count m = n"
  shows "\<exists>m'. apply_predicates ps flags b n m = Inr m' \<and> mask_inv m' \<and> mask_row_count m' = n \<and>
    (\<forall>i. Mask_Test m' i \<longleftrightarrow> Mask_Test m i \<and> (\<forall>j<length ps. skipped flags j \<or> pred_on_row (ps ! j) b i))"
  using assms
proof (induction ps arbitrary: flags m)
  case (Cons p ps)
  have all: "(\<forall>j<length (p # ps). skipped flags j \<or> pred_on_row ((p # ps) ! j) b i) \<longleftrightarrow>
      (skipped flags 0 \<or> pred_on_row p b i) \<and>
      (\<forall>j<length ps. skipped (tl flags) j \<or> pred_on_row (ps ! j) b i)" for i
    by (simp add: All_less_Suc2 skipped_Suc)
  note IH = Cons.IH [where flags = "tl flags"]
  have ps: "\<forall>p\<in>set ps. pred_serves n b p" using Cons.prems by simp
  consider (skip) "skipped flags 0 \<or> pp_kind p = ALWAYS_TRUE" | (none) "\<not> skipped flags 0" "pp_kind p = ALWAYS_FALSE"
    | (cmp) "\<not> skipped flags 0" "pp_kind p = TYPED_COMPARE"
    by (cases "pp_kind p") auto
  then show ?case
  proof cases
    case skip
    then have "apply_predicates (p # ps) flags b n m = apply_predicates ps (tl flags) b n m"
      by (auto simp: skipped_0)
    moreover have "skipped flags 0 \<or> pred_on_row p b i" for i
      using skip by (auto simp: pred_on_row_def row_passes_def)
    ultimately show ?thesis using IH [OF ps Cons.prems(2-4)] by (simp only: all) blast
  next
    case none
    then have "apply_predicates (p # ps) flags b n m = Inr (SetNone n)" by (auto simp: skipped_0)
    moreover have "\<not> pred_on_row p b i" for i
      using none by (simp add: pred_on_row_def row_passes_def)
    moreover have "mask_row_count (SetNone n) = n" using Cons.prems(2) by (simp add: SetNone_def)
    ultimately show ?thesis
      using none(1) SetNone_inv [of n] unfolding all by (auto simp: Test_SetNone)
  next
    case cmp
    obtain cur where cur: "RunTypedCompare p b n = Inr cur" "mask_inv cur" "mask_row_count cur = n"
      "\<And>i. Mask_Test cur i \<longleftrightarrow> i < n \<and> pred_on_row p b i"
      using RunTypedCompare_rows [of n b p] cmp Cons.prems by auto
    define m1 where "m1 = Mask_And m cur"
    have m1: "mask_inv m1" "mask_row_count m1 = n" "\<And>i. Mask_Test m1 i \<longleftrightarrow> Mask_Test m i \<and> pred_on_row p b i"
      using cur Cons.prems(3,4) bitmap.conj_inv bitmap.conj_test [OF Cons.prems(3) cur(2)] bitmap.conj_size [of m cur]
        Mask_Test_less [of m]
      by (auto simp: m1_def)
    have eq: "apply_predicates (p # ps) flags b n m =
        (if Mask_Empty m1 then Inr m1 else apply_predicates ps (tl flags) b n m1)"
      using cmp cur(1) by (auto simp: skipped_0 m1_def Let_def)
    show ?thesis
    proof (cases "Mask_Empty m1")
      case True
      then have "\<not> Mask_Test m1 i" for i using Mask_Empty_iff [OF m1(1)] by auto
      with True show ?thesis using m1 cmp unfolding eq all by auto
    next
      case False
      then show ?thesis using IH [OF ps Cons.prems(2) m1(1,2)] m1(3) cmp unfolding eq all by auto
    qed
  qed
qed simp

definition condition_on_row :: "scan_options \<Rightarrow> table_schema \<Rightarrow> vector_batch \<Rightarrow> condition \<Rightarrow> nat \<Rightarrow> bool" where
  "condition_on_row options s b cond i =
     (case position (cond_column cond) (so_columns options) of
        None \<Rightarrow> False
      | Some slot \<Rightarrow> condition_holds (schema_column_type s (cond_column cond)) cond (column_cells (vb_columns b ! slot) ! i))"

text \<open>The columns of a scan batch, as the segment reader fills them.\<close>

definition scan_batch_ok :: "scan_options \<Rightarrow> table_schema \<Rightarrow> nat \<Rightarrow> vector_batch \<Rightarrow> bool" where
  "scan_batch_ok options s n b \<longleftrightarrow> PhysicalSize b = n \<and> n \<le> kVectorBatchSize \<and>
     length (vb_columns b) = length (so_columns options) \<and>
     (\<forall>j < length (vb_columns b). column_ok n (vb_columns b ! j) \<and>
        cd_type (vb_columns b ! j) = schema_column_type s (so_columns options ! j))"

lemma position_Some: "position x xs = Some i \<Longrightarrow> i < length xs \<and> xs ! i = x"
  by (induction xs arbitrary: i) (auto split: if_splits)

lemma prepare_serves:
  assumes "prepare options s cond = Inr p" "scan_batch_ok options s n b"
  shows "pred_serves n b p" and "i < n \<Longrightarrow> pred_on_row p b i = condition_on_row options s b cond i"
proof -
  define ty where "ty = schema_column_type s (cond_column cond)"
  obtain slot where slot: "position (cond_column cond) (so_columns options) = Some slot" "prepared_ok slot ty p"
    using prepare_row(2) [OF assms(1)] by (auto simp: ty_def)
  have col: "slot < length (vb_columns b)" "column_ok n (vb_columns b ! slot)" "cd_type (vb_columns b ! slot) = ty"
    using assms(2) position_Some [OF slot(1)] by (auto simp: scan_batch_ok_def ty_def)
  then show "pred_serves n b p" using slot(2) by (simp add: pred_serves_def prepared_ok_def column_ok_def)
  show "pred_on_row p b i = condition_on_row options s b cond i" if "i < n"
    using that slot col prepare_row(1) [OF assms(1)]
    by (simp add: pred_on_row_def condition_on_row_def prepared_ok_def column_cells_def column_ok_def flip: ty_def)
qed

lemma Row_Filter_Apply_rows:
  assumes "Build options s = Inr ps" "scan_batch_ok options s n b"
  shows "\<exists>b'. Row_Filter_Apply ps flags b = Inr b' \<and> vb_columns b' = vb_columns b \<and>
    mask_inv (vb_selection b') \<and> mask_row_count (vb_selection b') = n \<and>
    vb_size b' = Mask_Count (vb_selection b') \<and>
    {i. Mask_Test (vb_selection b') i} =
      {i. i < n \<and> (\<forall>j < length (so_predicates options).
        skipped flags j \<or> condition_on_row options s b (so_predicates options ! j) i)}"
proof -
  note b = assms(2)
  have n: "PhysicalSize b = n" "n \<le> kVectorBatchSize" using b by (simp_all add: scan_batch_ok_def)
  have len: "length ps = length (so_predicates options)"
    and nth: "\<And>j. j < length ps \<Longrightarrow> prepare options s (so_predicates options ! j) = Inr (ps ! j)"
    using assms(1) map_r_nth map_r_length unfolding Build_def by metis+
  have serves: "\<forall>p\<in>set ps. pred_serves n b p"
    using prepare_serves(1) [OF nth b] by (auto simp: in_set_conv_nth)
  have row: "(\<forall>j<length ps. skipped flags j \<or> pred_on_row (ps ! j) b i) \<longleftrightarrow>
      (\<forall>j<length (so_predicates options). skipped flags j \<or> condition_on_row options s b (so_predicates options ! j) i)"
    if "i < n" for i
    using prepare_serves(2) [OF nth b that] len by auto
  have all: "vb_columns (SetIdentitySelection n b) = vb_columns b" "mask_inv (SetAll n)"
    "mask_row_count (SetAll n) = n" "n = Mask_Count (SetAll n)" "\<And>i. Mask_Test (SetAll n) i \<longleftrightarrow> i < n"
    using n by (simp_all add: SetIdentitySelection_def SetAll_inv Mask_Count_SetAll Test_SetAll)
  show ?thesis
  proof (cases "ps = [] \<or> n = 0")
    case True
    then show ?thesis using n len all row
      by (auto simp: Row_Filter_Apply_def Let_def SetIdentitySelection_def Test_SetAll)
  next
    case False
    obtain m where m: "apply_predicates ps flags b n (SetAll n) = Inr m" "mask_inv m" "mask_row_count m = n"
      "\<And>i. Mask_Test m i \<longleftrightarrow> i < n \<and> (\<forall>j<length ps. skipped flags j \<or> pred_on_row (ps ! j) b i)"
      using apply_predicates_rows [OF serves n(2) SetAll_inv [of n], of flags] n all(5) by auto
    have set: "{i. Mask_Test m i} = {i. i < n \<and> (\<forall>j < length (so_predicates options).
        skipped flags j \<or> condition_on_row options s b (so_predicates options ! j) i)}"
      using m(4) row by blast
    have eq: "Row_Filter_Apply ps flags b = Inr (if IsAll m then SetIdentitySelection n b else SetSelection m b)"
      using False n m(1) by (simp add: Row_Filter_Apply_def Let_def)
    show ?thesis
    proof (cases "IsAll m")
      case True
      then have "{i. Mask_Test m i} = {..<n}" using IsAll_iff [OF m(2)] m(3) by (auto dest: Mask_Test_less)
      then have "m = SetAll n" using m n by (intro mask_eqI) (auto simp: SetAll_inv Test_SetAll)
      then show ?thesis using eq True set m all by (auto simp: SetIdentitySelection_def)
    next
      case False
      then show ?thesis using eq set m(2,3) by (simp add: SetSelection_def)
    qed
  qed
qed

text \<open>C3: The row filter is exact: after \<open>Build\<close> and \<open>Apply\<close> the selection of a scanned batch holds
  exactly the rows that satisfy every pushed condition, except those conditions the segment
  metadata has marked as satisfied (flag 0); the columns are untouched and the batch size is the
  number of selected rows.\<close>

theorem Row_Filter_Apply_exact:
  assumes "Build options s = Inr ps" "scan_batch_ok options s n b"
  shows "\<exists>b'. Row_Filter_Apply ps flags b = Inr b' \<and> vb_columns b' = vb_columns b \<and>
    mask_inv (vb_selection b') \<and> mask_row_count (vb_selection b') = n \<and>
    vb_size b' = Mask_Count (vb_selection b') \<and>
    {i. Mask_Test (vb_selection b') i} =
      {i. i < n \<and> (\<forall>j < length (so_predicates options).
        skipped flags j \<or> condition_on_row options s b (so_predicates options ! j) i)}"
  using assms by (rule Row_Filter_Apply_rows)

end
