(* ===== verification/Vector_Predicate.thy ===== *)
theory Vector_Predicate
  imports Exec_Expression Scan_Filter
begin

text \<open>
  \<^verbatim>\<open>execution/expression/numeric_value.h\<close>, \<^verbatim>\<open>vector_predicate.{h,cpp}\<close> and
  \<^verbatim>\<open>vector_predicate_compiler.cpp\<close>: a filter condition compiled to operations on whole masks.
  Comparisons of a numeric column with a column of its type, or with a literal that has the same
  value in that type, run in a compare kernel; every other subtree is evaluated row by row.
\<close>

subsection \<open>Exact coercion of literals\<close>

text \<open>\<open>NumericConstant\<close> has the alternatives of a typed predicate value.\<close>

definition DoubleToInt64Exact :: "f64 \<Rightarrow> int option" where
  "DoubleToInt64Exact v =
     (if f64_nan v then None
      else if f64_lt v (f64_of_int (- (2 ^ 63))) \<or> f64_le (f64_of_int (2 ^ 63)) v then None
      else if \<not> f64_eq v (f64_of_int (f64_trunc_int v)) then None
      else Some (f64_trunc_int v))"

definition CoerceFromInt64 :: "int \<Rightarrow> data_type \<Rightarrow> typed_value option" where
  "CoerceFromInt64 src target =
     (case target of
        DT_INT32 \<Rightarrow> if - 2147483648 \<le> src \<and> src \<le> 2147483647 then Some (TV_i32 (word_of_int src)) else None
      | DT_INT64 \<Rightarrow> Some (TV_i64 (word_of_int src))
      | DT_FLOAT \<Rightarrow> if - 16777216 \<le> src \<and> src \<le> 16777216 then Some (TV_f32 (f32_of_int src)) else None
      | DT_DOUBLE \<Rightarrow>
          (let d = f64_of_int src in
           if f64_le (f64_of_int (- (2 ^ 63))) d \<and> f64_lt d (f64_of_int (2 ^ 63)) \<and> f64_trunc_int d = src
           then Some (TV_f64 d) else None)
      | _ \<Rightarrow> None)"

definition CoerceFromDouble :: "f64 \<Rightarrow> data_type \<Rightarrow> typed_value option" where
  "CoerceFromDouble src target =
     (case target of
        DT_FLOAT \<Rightarrow> (let f = f32_of_f64 src in if f64_eq (f64_of_f32 f) src then Some (TV_f32 f) else None)
      | DT_DOUBLE \<Rightarrow> Some (TV_f64 src)
      | DT_INT32 \<Rightarrow>
          (case DoubleToInt64Exact src of
             None \<Rightarrow> None
           | Some i \<Rightarrow> if i < - 2147483648 \<or> i > 2147483647 then None else Some (TV_i32 (word_of_int i)))
      | DT_INT64 \<Rightarrow> (case DoubleToInt64Exact src of None \<Rightarrow> None | Some i \<Rightarrow> Some (TV_i64 (word_of_int i)))
      | _ \<Rightarrow> None)"

definition TryCoerceExact :: "exec_value \<Rightarrow> data_type \<Rightarrow> typed_value option" where
  "TryCoerceExact v target =
     (case v of
        EV_int32 i \<Rightarrow> CoerceFromInt64 (sint i) target
      | EV_int64 i \<Rightarrow> CoerceFromInt64 (sint i) target
      | EV_float f \<Rightarrow> CoerceFromDouble (f64_of_f32 f) target
      | EV_double d \<Rightarrow> CoerceFromDouble d target
      | _ \<Rightarrow> None)"

subsection \<open>Predicates\<close>

datatype compare_operand = OpColumn data_type nat | OpConstant data_type typed_value

datatype logical_op = L_AND | L_OR

datatype vector_predicate =
    NumericCompare cmp_op compare_operand compare_operand
  | LogicalPredicate logical_op vector_predicate vector_predicate
  | ScalarPredicate exec_expr

fun ReverseCmpOp :: "cmp_op \<Rightarrow> cmp_op" where
  "ReverseCmpOp CMP_LT = CMP_GT"
| "ReverseCmpOp CMP_LE = CMP_GE"
| "ReverseCmpOp CMP_GT = CMP_LT"
| "ReverseCmpOp CMP_GE = CMP_LE"
| "ReverseCmpOp CMP_EQ = CMP_EQ"
| "ReverseCmpOp CMP_NE = CMP_NE"

text \<open>A null buffer is the empty one.\<close>

definition ColumnBuffer :: "vector_batch \<Rightarrow> nat \<Rightarrow> bytes option" where
  "ColumnBuffer batch slot =
     (if length (vb_columns batch) \<le> slot \<or> cd_buffer (vb_columns batch ! slot) = [] then None
      else Some (cd_buffer (vb_columns batch ! slot)))"

definition column_kernel :: "data_type \<Rightarrow> cmp_op \<Rightarrow> (bytes \<Rightarrow> bytes \<Rightarrow> bool) option" where
  "column_kernel ty op =
     (case ty of
        DT_INT32 \<Rightarrow> Some (\<lambda>a b. CompareSigned op (le_word 4 a :: i32) (le_word 4 b))
      | DT_INT64 \<Rightarrow> Some (\<lambda>a b. CompareSigned op (le_word 8 a :: i64) (le_word 8 b))
      | DT_FLOAT \<Rightarrow> Some (\<lambda>a b. CompareFloat 23 op (le_word 4 a :: f32) (le_word 4 b))
      | DT_DOUBLE \<Rightarrow> Some (\<lambda>a b. CompareFloat 52 op (le_word 8 a :: f64) (le_word 8 b))
      | _ \<Rightarrow> None)"

definition const_kernel :: "data_type \<Rightarrow> cmp_op \<Rightarrow> typed_value \<Rightarrow> (bytes \<Rightarrow> bool) option result" where
  "const_kernel ty op v =
     (case ty of
        DT_INT32 \<Rightarrow> (case v of TV_i32 k \<Rightarrow> Inr (Some (\<lambda>a. CompareSigned op (le_word 4 a) k)) | _ \<Rightarrow> Inl bad_variant)
      | DT_INT64 \<Rightarrow> (case v of TV_i64 k \<Rightarrow> Inr (Some (\<lambda>a. CompareSigned op (le_word 8 a) k)) | _ \<Rightarrow> Inl bad_variant)
      | DT_FLOAT \<Rightarrow> (case v of TV_f32 k \<Rightarrow> Inr (Some (\<lambda>a. CompareFloat 23 op (le_word 4 a) k)) | _ \<Rightarrow> Inl bad_variant)
      | DT_DOUBLE \<Rightarrow> (case v of TV_f64 k \<Rightarrow> Inr (Some (\<lambda>a. CompareFloat 52 op (le_word 8 a) k)) | _ \<Rightarrow> Inl bad_variant)
      | _ \<Rightarrow> Inr None)"

definition EvaluateConst ::
  "data_type \<Rightarrow> cmp_op \<Rightarrow> nat \<Rightarrow> typed_value \<Rightarrow> vector_batch \<Rightarrow> nat \<Rightarrow> selection_mask \<Rightarrow> selection_mask result" where
  "EvaluateConst ty op slot v batch n input =
     (case ColumnBuffer batch slot of
        None \<Rightarrow> Inr (SetNone n)
      | Some data \<Rightarrow> bind_r (const_kernel ty op v) (\<lambda>kernel. case kernel of
            None \<Rightarrow> Inr (SetNone n)
          | Some test \<Rightarrow>
              if length data < n * TypeElemSize ty then Inl Undefined_behaviour
              else Inr (Mask_And (compare_loop (\<lambda>i. test (cell (TypeElemSize ty) data i)) n) input)))"

definition EvaluateNumeric ::
  "cmp_op \<Rightarrow> compare_operand \<Rightarrow> compare_operand \<Rightarrow> vector_batch \<Rightarrow> nat \<Rightarrow> selection_mask \<Rightarrow> selection_mask result" where
  "EvaluateNumeric op lhs rhs batch n input =
     (if Mask_Empty input then Inr (SetNone n)
      else case (lhs, rhs) of
        (OpColumn ty a, OpColumn _ b) \<Rightarrow>
          (case (ColumnBuffer batch a, ColumnBuffer batch b) of
             (Some x, Some y) \<Rightarrow>
               (case column_kernel ty op of
                  None \<Rightarrow> Inr (SetNone n)
                | Some test \<Rightarrow>
                    if length x < n * TypeElemSize ty \<or> length y < n * TypeElemSize ty then Inl Undefined_behaviour
                    else Inr (Mask_And (compare_loop (\<lambda>i. test (cell (TypeElemSize ty) x i) (cell (TypeElemSize ty) y i)) n) input))
           | _ \<Rightarrow> Inr (SetNone n))
      | (OpColumn ty a, OpConstant _ v) \<Rightarrow> EvaluateConst ty op a v batch n input
      | (OpConstant ty v, OpColumn _ a) \<Rightarrow> EvaluateConst ty op a v batch n input
      | (OpConstant _ _, OpConstant _ _) \<Rightarrow> Inr (SetNone n))"

definition scalar_row :: "exec_expr \<Rightarrow> vector_batch \<Rightarrow> nat \<Rightarrow> selection_mask \<Rightarrow> selection_mask result" where
  "scalar_row e batch row m =
     bind_r (Eval e batch row) (\<lambda>v. bind_r (ExecValueAsBool v) (\<lambda>b. Inr (if b then set_row row m else m)))"

fun Evaluate :: "vector_predicate \<Rightarrow> vector_batch \<Rightarrow> nat \<Rightarrow> selection_mask \<Rightarrow> selection_mask result" where
  "Evaluate (NumericCompare op lhs rhs) batch n input = EvaluateNumeric op lhs rhs batch n input"
| "Evaluate (LogicalPredicate op lhs rhs) batch n input =
     (if Mask_Empty input then Inr (SetNone n)
      else bind_r (Evaluate lhs batch n input) (\<lambda>out.
        if op = L_AND then
          (if Mask_Empty out then Inr out
           else bind_r (Evaluate rhs batch n out) (\<lambda>r. Inr (Mask_And out r)))
        else
          (if Mask_Count input \<le> Mask_Count out then Inr out
           else bind_r (Evaluate rhs batch n (Mask_AndNot input out)) (\<lambda>r. Inr (Mask_Or out r)))))"
| "Evaluate (ScalarPredicate e) batch n input =
     (if Mask_Empty input then Inr (SetNone n)
      else fold_r (scalar_row e batch) (ForEachSetBit input) (SetNone n))"

subsection \<open>The compiler\<close>

definition numeric_type :: "data_type \<Rightarrow> bool" where
  "numeric_type ty \<longleftrightarrow> ty = DT_INT32 \<or> ty = DT_INT64 \<or> ty = DT_FLOAT \<or> ty = DT_DOUBLE"

definition TryCompileNumericCompare :: "cmp_op \<Rightarrow> exec_expr \<Rightarrow> exec_expr \<Rightarrow> vector_predicate option" where
  "TryCompileNumericCompare op left right =
     (case (left, right) of
        (ExecColumnRef a ta, ExecColumnRef b tb) \<Rightarrow>
          if ta \<noteq> tb \<or> \<not> numeric_type ta then None
          else Some (NumericCompare op (OpColumn ta a) (OpColumn tb b))
      | (ExecColumnRef a ta, ExecLiteral v _) \<Rightarrow>
          if \<not> numeric_type ta then None
          else (case TryCoerceExact v ta of
                  None \<Rightarrow> None
                | Some k \<Rightarrow> Some (NumericCompare op (OpColumn ta a) (OpConstant ta k)))
      | (ExecLiteral v _, ExecColumnRef b tb) \<Rightarrow>
          if \<not> numeric_type tb then None
          else (case TryCoerceExact v tb of
                  None \<Rightarrow> None
                | Some k \<Rightarrow> Some (NumericCompare (ReverseCmpOp op) (OpColumn tb b) (OpConstant tb k)))
      | _ \<Rightarrow> None)"

fun CompileVectorPredicate :: "exec_expr \<Rightarrow> vector_predicate" where
  "CompileVectorPredicate (ExecBinary op l r ty) =
     (case ToCmpOp op of
        Inr cop \<Rightarrow> (case TryCompileNumericCompare cop l r of Some p \<Rightarrow> p | None \<Rightarrow> ScalarPredicate (ExecBinary op l r ty))
      | Inl _ \<Rightarrow>
          if op = P_AND then LogicalPredicate L_AND (CompileVectorPredicate l) (CompileVectorPredicate r)
          else if op = P_OR then LogicalPredicate L_OR (CompileVectorPredicate l) (CompileVectorPredicate r)
          else ScalarPredicate (ExecBinary op l r ty))"
| "CompileVectorPredicate e = ScalarPredicate e"

subsection \<open>Literals keep their value\<close>

definition as_exec :: "typed_value \<Rightarrow> exec_value" where
  "as_exec k = (case k of TV_i32 v \<Rightarrow> EV_int32 v | TV_i64 v \<Rightarrow> EV_int64 v | TV_f32 v \<Rightarrow> EV_float v | TV_f64 v \<Rightarrow> EV_double v)"

text \<open>The position of a number in the order of \<open>long double\<close>.\<close>

definition num_key :: "exec_value \<Rightarrow> int" where
  "num_key v = (case ExecValueAsNumber v of Inr x \<Rightarrow> ieee_key x | Inl _ \<Rightarrow> 0)"

definition is_number :: "exec_value \<Rightarrow> bool" where
  "is_number v \<longleftrightarrow> (case ExecValueAsNumber v of Inr x \<Rightarrow> \<not> f80_nan x | Inl _ \<Rightarrow> False)"

definition is_nan_value :: "exec_value \<Rightarrow> bool" where
  "is_nan_value v \<longleftrightarrow> (case ExecValueAsNumber v of Inr x \<Rightarrow> f80_nan x | Inl _ \<Rightarrow> False)"

lemma f64_units_pow2: "ieee_units 52 (f64_of_int (2 ^ 63)) = 2 ^ 63 * 2 ^ 1074"
  "ieee_units 52 (f64_of_int (- (2 ^ 63))) = - (2 ^ 63 * 2 ^ 1074)"
proof -
  have v: "fp_val 52 (fp_round 52 (2 ^ 63 * 2 ^ 1074) 1) = 2 ^ 63 * 2 ^ 1074"
    by (rule fp_val_round [of _ 1 "63 + 1074"]) (simp_all only: power_add mult_1, simp)
  have "(2 :: nat) ^ 63 * 2 ^ 1074 < fp_val 52 (ieee_inf 52 TYPE(64))"
    by (subst fp_val_inf) (simp, unfold power_add [symmetric], rule power_strict_increasing, simp_all)
  then have "fp_round 52 (2 ^ 63 * 2 ^ 1074) 1 \<le> ieee_inf 52 TYPE(64)" using v
    by (metis fp_val_less_iff less_imp_le)
  moreover have "nat \<bar>2 ^ 63 :: int\<bar> = 2 ^ 63" "nat \<bar>- (2 ^ 63) :: int\<bar> = 2 ^ 63" by simp_all
  ultimately show "ieee_units 52 (f64_of_int (2 ^ 63)) = 2 ^ 63 * 2 ^ 1074"
    "ieee_units 52 (f64_of_int (- (2 ^ 63))) = - (2 ^ 63 * 2 ^ 1074)"
    unfolding ieee_units_def f64_of_int_def ieee_of_int_def ieee_round_sel using v
    by (simp_all only: min_absorb2) simp_all
qed

text \<open>A double that is an integer by the test of the code is one: it equals its truncation.\<close>

lemma f64_integral_large:
  assumes "2 ^ 53 * 2 ^ 1074 \<le> fp_val 52 b"
  shows "2 ^ 1074 dvd fp_val 52 b"
proof -
  define e f where "e = b div 2 ^ 52" and "f = b mod 2 ^ 52"
  have f: "f < 2 ^ 52" by (simp add: f_def)
  have e0: "e \<noteq> 0"
  proof
    assume "e = 0"
    then have "fp_val 52 b < 2 ^ 52" using f by (simp add: fp_val_def Let_def e_def f_def)
    moreover have "(2 :: nat) ^ 52 \<le> 2 ^ 53 * 2 ^ 1074" unfolding power_add [symmetric] by (rule power_increasing) simp_all
    ultimately show False using assms by linarith
  qed
  then have v: "fp_val 52 b = (2 ^ 52 + f) * 2 ^ (e - 1)" by (simp add: fp_val_def Let_def e_def f_def)
  have "(2 :: nat) ^ 53 * 2 ^ 1074 < 2 ^ 53 * 2 ^ (e - 1)"
  proof (rule le_less_trans [OF assms])
    show "fp_val 52 b < 2 ^ 53 * 2 ^ (e - 1)" unfolding v using f by (intro mult_strict_right_mono) simp_all
  qed
  then have "(2 :: nat) ^ 1074 < 2 ^ (e - 1)" by (simp only: mult_less_cancel1)
  then have "1074 \<le> e - 1" by (simp only: power_strict_increasing_iff one_less_numeral_iff semiring_norm less_imp_le)
  then show ?thesis unfolding v by (intro dvd_mult le_imp_power_dvd)
qed

lemma f64_trunc_exact:
  assumes "ieee_units 52 v = ieee_units 52 (f64_of_int (f64_trunc_int v))"
  shows "ieee_units 52 v = f64_trunc_int v * 2 ^ 1074"
proof (cases "fp_val 52 (ieee_mag v) < 2 ^ 53 * 2 ^ 1074")
  case True
  then have "fp_val 52 (ieee_mag v) div 2 ^ 1074 < 2 ^ 53" by (simp only: div_less_iff_less_mult zero_less_power zero_less_numeral)
  then have "\<bar>f64_trunc_int v\<bar> \<le> 2 ^ 53" by (simp add: f64_trunc_int_def)
  from f64_of_int_units [OF this] show ?thesis by (simp only: assms)
next
  case False
  then have "2 ^ 1074 dvd fp_val 52 (ieee_mag v)" by (intro f64_integral_large) simp
  then have "fp_val 52 (ieee_mag v) div 2 ^ 1074 * 2 ^ 1074 = fp_val 52 (ieee_mag v)" by (rule dvd_div_mult_self)
  then have "int (fp_val 52 (ieee_mag v)) = int (fp_val 52 (ieee_mag v) div 2 ^ 1074) * 2 ^ 1074"
    by (metis of_nat_mult of_nat_numeral of_nat_power)
  then show ?thesis by (simp only: ieee_units_def f64_trunc_int_def mult.assoc)
qed

lemma no_cycle: "x \<le> y \<Longrightarrow> p < x \<Longrightarrow> y \<le> p \<Longrightarrow> False" for p x y :: nat
  by simp

lemma signed_bound: "- b \<le> (if neg then - 1 else 1) * z \<Longrightarrow> (if neg then - 1 else 1) * z < b \<Longrightarrow> z \<le> (b :: int)"
  by (cases neg) simp_all

lemma DoubleToInt64Exact_value:
  assumes "DoubleToInt64Exact v = Some i"
  shows "ieee_units 63 (f80_of_f64 v) = i * 2 ^ f80_unit" "- (2 ^ 63) \<le> i" "i < 2 ^ 63" "\<not> f64_nan v"
proof -
  have d: "\<not> f64_nan v" "\<not> ieee_key v < ieee_key (f64_of_int (- (2 ^ 63)))" "ieee_key v < ieee_key (f64_of_int (2 ^ 63))"
    "ieee_key v = ieee_key (f64_of_int (f64_trunc_int v))" "i = f64_trunc_int v"
    using assms unfolding DoubleToInt64Exact_def ieee_lt_def ieee_le_def ieee_eq_def
    by (simp_all only: f64_of_int_not_nan split: if_splits) auto
  have u: "ieee_units 52 v = i * 2 ^ 1074" using f64_trunc_exact d(4,5) ieee_key_eq_iff_units by metis
  have lo: "- (2 ^ 63 * 2 ^ 1074) \<le> i * 2 ^ 1074" and hi: "i * 2 ^ 1074 < 2 ^ 63 * 2 ^ 1074"
    using d(2,3) unfolding ieee_key_less_iff_units [of _ _ 52] f64_units_pow2 u by (simp_all only: not_less)
  show "\<not> f64_nan v" by fact
  show "- (2 ^ 63) \<le> i" using lo by (simp only: mult_minus_left [symmetric] mult_le_cancel_right_pos zero_less_power zero_less_numeral)
  show "i < 2 ^ 63" using hi by (simp only: mult_less_cancel_right_pos zero_less_power zero_less_numeral)
  have "ieee_mag v < ieee_inf 52 TYPE(64)"
  proof (rule ccontr)
    assume "\<not> ieee_mag v < ieee_inf 52 TYPE(64)"
    then have "fp_val 52 (ieee_inf 52 TYPE(64)) \<le> fp_val 52 (ieee_mag v)" by simp
    moreover have "(2 :: nat) ^ 63 * 2 ^ 1074 < fp_val 52 (ieee_inf 52 TYPE(64))"
      by (subst fp_val_inf) (simp, unfold power_add [symmetric], rule power_strict_increasing, simp_all)
    moreover have "int (fp_val 52 (ieee_mag v)) \<le> 2 ^ 63 * 2 ^ 1074"
      using lo hi unfolding u [symmetric] ieee_units_def by (rule signed_bound)
    then have "fp_val 52 (ieee_mag v) \<le> 2 ^ 63 * 2 ^ 1074"
      by (simp only: of_nat_le_iff [where 'a = int, symmetric] of_nat_mult of_nat_power of_nat_numeral)
    ultimately show False by (rule no_cycle)
  qed
  from f80_units_f64 [OF this] show "ieee_units 63 (f80_of_f64 v) = i * 2 ^ f80_unit"
    by (simp only: u mult.assoc f80_shifts)
qed

definition literal_value_ok :: "exec_value \<Rightarrow> bool" where
  "literal_value_ok v = (case v of EV_int32 _ \<Rightarrow> True | EV_double d \<Rightarrow> \<not> f64_nan d | EV_string _ \<Rightarrow> True | _ \<Rightarrow> False)"

lemma finite_by_units: "\<bar>ieee_units m w\<bar> < int (fp_val m (ieee_inf m TYPE('a))) \<Longrightarrow> ieee_mag (w :: 'a::len word) < ieee_inf m TYPE('a)"
  by (simp add: ieee_units_def abs_mult split: if_splits)

lemma coerce_int:
  assumes "CoerceFromInt64 (sint (i :: i32)) ty = Some k"
  shows "num_key (as_exec k) = num_key (EV_int32 i)" "is_number (as_exec k)"
proof -
  have i: "\<bar>sint i\<bar> \<le> 2 ^ 31" "- (2 ^ 31) \<le> sint i" "sint i < 2 ^ 31"
    using sint_ge [of i] sint_lt [of i] by simp_all
  have i64: "\<bar>sint i\<bar> < 2 ^ 64" by (rule le_less_trans [OF i(1)]) simp
  have "num_key (as_exec k) = num_key (EV_int32 i) \<and> is_number (as_exec k)"
  proof (cases ty)
    case DT_INT32
    then show ?thesis using assms
      by (auto simp: CoerceFromInt64_def as_exec_def is_number_def split: if_splits)
  next
    case DT_INT64
    have "sint (word_of_int (sint i) :: i64) = sint i"
      unfolding sint_sbintrunc' by (rule signed_take_bit_int_eq_self) (use i in simp_all)
    then show ?thesis using DT_INT64 assms by (auto simp: CoerceFromInt64_def as_exec_def num_key_def is_number_def)
  next
    case DT_FLOAT
    then have k: "k = TV_f32 (f32_of_int (sint i))" and small: "\<bar>sint i\<bar> \<le> 2 ^ 24"
      using assms by (auto simp: CoerceFromInt64_def split: if_splits)
    note u = f32_of_int_units [OF small]
    have "int (2 ^ 24 * 2 ^ 149) < int (fp_val 23 (ieee_inf 23 TYPE(32)))"
      by (subst fp_val_inf) (simp, unfold of_nat_less_iff power_add [symmetric], rule power_strict_increasing, simp_all)
    moreover have "\<bar>sint i\<bar> * 2 ^ 149 \<le> 2 ^ 24 * 2 ^ 149" using small by (intro mult_right_mono) simp_all
    ultimately have "\<bar>ieee_units 23 (f32_of_int (sint i))\<bar> < int (fp_val 23 (ieee_inf 23 TYPE(32)))"
      unfolding u by (simp only: abs_mult power_abs abs_numeral of_nat_mult of_nat_power of_nat_numeral)
    from f80_units_f32 [OF finite_by_units [OF this]]
    have "ieee_units 63 (f80_of_f32 (f32_of_int (sint i))) = ieee_units 63 (f80_of_int (sint i))"
      by (simp only: u f80_units_int [OF i64] mult.assoc f80_shifts)
    then show ?thesis
      by (simp add: k as_exec_def num_key_def is_number_def ieee_key_eq_iff_units [of _ _ 63] f32_of_int_def)
  next
    case DT_DOUBLE
    then have k: "k = TV_f64 (f64_of_int (sint i))"
      using assms by (simp add: CoerceFromInt64_def Let_def split: if_splits)
    have small: "\<bar>sint i\<bar> \<le> 2 ^ 53" by (rule order_trans [OF i(1)]) simp
    note u = f64_of_int_units [OF small]
    have "int (2 ^ 53 * 2 ^ 1074) < int (fp_val 52 (ieee_inf 52 TYPE(64)))"
      by (subst fp_val_inf) (simp, unfold of_nat_less_iff power_add [symmetric], rule power_strict_increasing, simp_all)
    moreover have "\<bar>sint i\<bar> * 2 ^ 1074 \<le> 2 ^ 53 * 2 ^ 1074" using small by (intro mult_right_mono) simp_all
    ultimately have "\<bar>ieee_units 52 (f64_of_int (sint i))\<bar> < int (fp_val 52 (ieee_inf 52 TYPE(64)))"
      unfolding u by (simp only: abs_mult power_abs abs_numeral of_nat_mult of_nat_power of_nat_numeral)
    from f80_units_f64 [OF finite_by_units [OF this]]
    have "ieee_units 63 (f80_of_f64 (f64_of_int (sint i))) = ieee_units 63 (f80_of_int (sint i))"
      by (simp only: u f80_units_int [OF i64] mult.assoc f80_shifts)
    then show ?thesis
      by (simp add: k as_exec_def num_key_def is_number_def ieee_key_eq_iff_units [of _ _ 63])
  qed (use assms in \<open>auto simp: CoerceFromInt64_def\<close>)
  then show "num_key (as_exec k) = num_key (EV_int32 i)" "is_number (as_exec k)" by simp_all
qed

lemma coerce_double:
  assumes "CoerceFromDouble d ty = Some k" "\<not> f64_nan d"
  shows "num_key (as_exec k) = num_key (EV_double d) \<and> is_number (as_exec k)"
proof -
  have int: "num_key (as_exec k') = num_key (EV_double d) \<and> is_number (as_exec k')"
    if i: "DoubleToInt64Exact d = Some i" and k': "ExecValueAsNumber (as_exec k') = Inr (f80_of_int i)" for i k'
  proof -
    note e = DoubleToInt64Exact_value [OF i]
    have "(2 :: int) ^ 63 < 2 ^ 64" by (rule power_strict_increasing) simp_all
    then have "\<bar>i\<bar> < 2 ^ 64" using e(2,3) by linarith
    then show ?thesis
      by (simp only: num_key_def is_number_def k' ExecValueAsNumber.simps sum.case f80_of_int_nan not_False_eq_True
          ieee_key_eq_iff_units [of _ _ 63] f80_units_int e(1))
  qed
  show ?thesis
  proof (cases ty)
    case DT_INT32
    then obtain i where i: "DoubleToInt64Exact d = Some i" "- 2147483648 \<le> i" "i \<le> 2147483647" "k = TV_i32 (word_of_int i)"
      using assms(1) by (auto simp: CoerceFromDouble_def split: option.splits if_splits)
    have "sint (word_of_int i :: i32) = i"
      unfolding sint_sbintrunc' by (rule signed_take_bit_int_eq_self) (use i in simp_all)
    then show ?thesis using int [OF i(1), of k] by (simp add: i(4) as_exec_def)
  next
    case DT_INT64
    then obtain i where i: "DoubleToInt64Exact d = Some i" "k = TV_i64 (word_of_int i)"
      using assms(1) by (auto simp: CoerceFromDouble_def split: option.splits)
    have "sint (word_of_int i :: i64) = i"
      unfolding sint_sbintrunc' by (rule signed_take_bit_int_eq_self) (use DoubleToInt64Exact_value [OF i(1)] in simp_all)
    then show ?thesis using int [OF i(1), of k] by (simp add: i(2) as_exec_def)
  next
    case DT_FLOAT
    then have k: "k = TV_f32 (f32_of_f64 d)" and eq: "f64_eq (f64_of_f32 (f32_of_f64 d)) d"
      using assms(1) by (auto simp: CoerceFromDouble_def Let_def split: if_splits)
    have nan: "\<not> f32_nan (f32_of_f64 d)" "\<not> f64_nan (f64_of_f32 (f32_of_f64 d))"
      using eq ieee_widen_nan [OF f32_fits_f64, of "f32_of_f64 d"] by (simp_all add: ieee_eq_def f64_of_f32_widen)
    have "ieee_key (f64_of_f32 (f32_of_f64 d)) = ieee_key d" using eq by (simp add: ieee_eq_def)
    then have "ieee_key (f80_of_f64 (f64_of_f32 (f32_of_f64 d))) = ieee_key (f80_of_f64 d)"
      by (intro ieee_key_eqI) (simp_all add: f80_of_f64_key nan assms(2))
    then show ?thesis by (simp add: k as_exec_def num_key_def is_number_def nan f80_of_f64_of_f32_key)
  qed (use assms in \<open>auto simp: CoerceFromDouble_def as_exec_def is_number_def\<close>)
qed

lemma TryCoerceExact_value:
  "TryCoerceExact v ty = Some k \<Longrightarrow> literal_value_ok v \<Longrightarrow> num_key (as_exec k) = num_key v \<and> is_number (as_exec k) \<and> is_number v"
  using coerce_int coerce_double
  by (cases v) (auto simp: TryCoerceExact_def literal_value_ok_def is_number_def [of "EV_int32 x" for x]
      is_number_def [of "EV_double x" for x])

lemma TryCoerceExact_type:
  "TryCoerceExact v ty = Some k \<Longrightarrow>
     (case k of TV_i32 _ \<Rightarrow> ty = DT_INT32 | TV_i64 _ \<Rightarrow> ty = DT_INT64 | TV_f32 _ \<Rightarrow> ty = DT_FLOAT | TV_f64 _ \<Rightarrow> ty = DT_DOUBLE)"
  by (cases v; cases ty)
    (auto simp: TryCoerceExact_def CoerceFromInt64_def CoerceFromDouble_def Let_def split: option.splits if_splits)

subsection \<open>Comparison in a kernel and on values\<close>

lemma CompareExecValues_number:
  assumes "is_number a" "is_number b"
  shows "CompareExecValues a b = Inr (sgn (num_key a - num_key b))"
proof -
  obtain x y where x: "ExecValueAsNumber a = Inr x" "\<not> f80_nan x" and y: "ExecValueAsNumber b = Inr y" "\<not> f80_nan y"
    using assms by (auto simp: is_number_def split: sum.splits)
  then have "CompareExecValues a b = Inr (if f80_lt x y then -1 else if f80_lt y x then 1 else 0)"
    by (cases a; cases b) (simp_all add: CompareExecValues_def)
  then show ?thesis using x y by (simp add: num_key_def ieee_lt_def sgn_if)
qed

definition plan_op :: "cmp_op \<Rightarrow> plan_binary_op" where
  "plan_op op = (case op of CMP_EQ \<Rightarrow> P_EQ | CMP_NE \<Rightarrow> P_NE | CMP_GT \<Rightarrow> P_GT | CMP_GE \<Rightarrow> P_GE | CMP_LT \<Rightarrow> P_LT | CMP_LE \<Rightarrow> P_LE)"

lemma ToCmpOp_plan_op: "ToCmpOp op = Inr cop \<Longrightarrow> op = plan_op cop"
  by (cases op) (auto simp: plan_op_def)

lemma comparison_holds_sgn: "comparison_holds (plan_op op) (sgn (x - y)) \<longleftrightarrow> cmp_int op x y"
  by (cases op) (auto simp: plan_op_def sgn_if)

lemma cmp_int_same: "(x < y \<longleftrightarrow> x' < y') \<Longrightarrow> (y < x \<longleftrightarrow> y' < x') \<Longrightarrow> cmp_int op x y \<longleftrightarrow> cmp_int op x' y'"
  by (cases op) auto

lemma CompareFloat_key:
  "\<not> ieee_nan m a \<Longrightarrow> \<not> ieee_nan m b \<Longrightarrow> CompareFloat m op a b \<longleftrightarrow> cmp_int op (ieee_key a) (ieee_key b)"
  by (cases op) (auto simp: ieee_lt_def ieee_le_def ieee_eq_def)

lemma kernel_keys:
  "CompareSigned op (a :: i32) b \<longleftrightarrow> cmp_int op (num_key (EV_int32 a)) (num_key (EV_int32 b))"
  "CompareSigned op (c :: i64) d \<longleftrightarrow> cmp_int op (num_key (EV_int64 c)) (num_key (EV_int64 d))"
  "is_number (EV_float f) \<Longrightarrow> is_number (EV_float g) \<Longrightarrow>
     CompareFloat 23 op f g \<longleftrightarrow> cmp_int op (num_key (EV_float f)) (num_key (EV_float g))"
  "is_number (EV_double x) \<Longrightarrow> is_number (EV_double y) \<Longrightarrow>
     CompareFloat 52 op x y \<longleftrightarrow> cmp_int op (num_key (EV_double x)) (num_key (EV_double y))"
proof -
  have small: "\<bar>sint (w :: 'a::len word)\<bar> < 2 ^ 64" if "LENGTH('a) \<le> 64" for w
  proof -
    have "(2 :: int) ^ (LENGTH('a) - 1) < 2 ^ 64" using that by (intro power_strict_increasing) auto
    then show ?thesis using sint_ge [of w] sint_lt [of w] by linarith
  qed
  show "CompareSigned op a b \<longleftrightarrow> cmp_int op (num_key (EV_int32 a)) (num_key (EV_int32 b))"
    unfolding CompareSigned_cmp_int num_key_def ExecValueAsNumber.simps sum.case
    by (rule cmp_int_same) (simp_all add: f80_of_int_key [OF small small])
  show "CompareSigned op c d \<longleftrightarrow> cmp_int op (num_key (EV_int64 c)) (num_key (EV_int64 d))"
    unfolding CompareSigned_cmp_int num_key_def ExecValueAsNumber.simps sum.case
    by (rule cmp_int_same) (simp_all add: f80_of_int_key [OF small small])
  show "CompareFloat 23 op f g \<longleftrightarrow> cmp_int op (num_key (EV_float f)) (num_key (EV_float g))"
    if "is_number (EV_float f)" "is_number (EV_float g)"
    using that by (simp add: is_number_def num_key_def CompareFloat_key) (rule cmp_int_same; simp add: f80_of_f32_key)
  show "CompareFloat 52 op x y \<longleftrightarrow> cmp_int op (num_key (EV_double x)) (num_key (EV_double y))"
    if "is_number (EV_double x)" "is_number (EV_double y)"
    using that by (simp add: is_number_def num_key_def CompareFloat_key) (rule cmp_int_same; simp add: f80_of_f64_key)
qed

definition cell_value :: "data_type \<Rightarrow> bytes \<Rightarrow> exec_value" where
  "cell_value ty bs =
     (case ty of DT_INT32 \<Rightarrow> EV_int32 (le_word 4 bs) | DT_INT64 \<Rightarrow> EV_int64 (le_word 8 bs)
      | DT_FLOAT \<Rightarrow> EV_float (le_word 4 bs) | DT_DOUBLE \<Rightarrow> EV_double (le_word 8 bs)
      | _ \<Rightarrow> EV_string (ReadVarcharSlot bs))"

lemma column_kernel_exact:
  assumes "column_kernel ty op = Some test" "is_number (cell_value ty x)" "is_number (cell_value ty y)"
  shows "test x y \<longleftrightarrow> cmp_int op (num_key (cell_value ty x)) (num_key (cell_value ty y))"
  using assms by (auto simp: column_kernel_def cell_value_def kernel_keys split: data_type.splits)

lemma const_kernel_exact:
  assumes "TryCoerceExact v ty = Some k" "literal_value_ok v" "numeric_type ty"
  obtains test where "const_kernel ty op k = Inr (Some test)"
    and "\<And>x. is_number (cell_value ty x) \<Longrightarrow> test x \<longleftrightarrow> cmp_int op (num_key (cell_value ty x)) (num_key v)"
proof -
  have k: "num_key (as_exec k) = num_key v" "is_number (as_exec k)" using TryCoerceExact_value [OF assms(1,2)] by simp_all
  have ty: "case k of TV_i32 _ \<Rightarrow> ty = DT_INT32 | TV_i64 _ \<Rightarrow> ty = DT_INT64 | TV_f32 _ \<Rightarrow> ty = DT_FLOAT | TV_f64 _ \<Rightarrow> ty = DT_DOUBLE"
    by (rule TryCoerceExact_type [OF assms(1)])
  show thesis
  proof (rule that)
    show "const_kernel ty op k = Inr (Some (case k of
        TV_i32 w \<Rightarrow> \<lambda>a. CompareSigned op (le_word 4 a) w | TV_i64 w \<Rightarrow> \<lambda>a. CompareSigned op (le_word 8 a) w
      | TV_f32 w \<Rightarrow> \<lambda>a. CompareFloat 23 op (le_word 4 a) w | TV_f64 w \<Rightarrow> \<lambda>a. CompareFloat 52 op (le_word 8 a) w))"
      using ty by (cases k) (simp_all add: const_kernel_def)
    show "(case k of
        TV_i32 w \<Rightarrow> \<lambda>a. CompareSigned op (le_word 4 a) w | TV_i64 w \<Rightarrow> \<lambda>a. CompareSigned op (le_word 8 a) w
      | TV_f32 w \<Rightarrow> \<lambda>a. CompareFloat 23 op (le_word 4 a) w | TV_f64 w \<Rightarrow> \<lambda>a. CompareFloat 52 op (le_word 8 a) w) x
      \<longleftrightarrow> cmp_int op (num_key (cell_value ty x)) (num_key v)" if "is_number (cell_value ty x)" for x
      using ty that k(2) unfolding k(1) [symmetric]
      by (cases k) (simp_all add: as_exec_def cell_value_def kernel_keys)
  qed
qed

subsection \<open>What a batch must satisfy\<close>

text \<open>
  Columns have the length the selection says and hold no NaN in the rows looked at; literals are those
  of the parser.
\<close>

definition readable_column :: "nat \<Rightarrow> nat list \<Rightarrow> data_type \<Rightarrow> column_data \<Rightarrow> bool" where
  "readable_column n rows ty c \<longleftrightarrow> cd_type c = ty \<and> ty \<noteq> DT_INVALID \<and> column_ok n c \<and>
     list_all (\<lambda>row. \<not> is_nan_value (cell_value ty (cell (TypeElemSize ty) (cd_buffer c) row))) rows"

fun expr_ok :: "nat \<Rightarrow> nat list \<Rightarrow> vector_batch \<Rightarrow> exec_expr \<Rightarrow> bool" where
  "expr_ok n rows batch (ExecColumnRef slot ty) \<longleftrightarrow>
     slot < length (vb_columns batch) \<and> readable_column n rows ty (vb_columns batch ! slot)"
| "expr_ok n rows batch (ExecLiteral v _) \<longleftrightarrow> literal_value_ok v"
| "expr_ok n rows batch (ExecBinary _ l r _) \<longleftrightarrow> expr_ok n rows batch l \<and> expr_ok n rows batch r"

abbreviation mask_expr_ok :: "selection_mask \<Rightarrow> vector_batch \<Rightarrow> exec_expr \<Rightarrow> bool" where
  "mask_expr_ok m \<equiv> expr_ok (mask_row_count m) (mask_rows m)"

lemma expr_ok_mono: "expr_ok n rows batch e \<Longrightarrow> set rows' \<subseteq> set rows \<Longrightarrow> expr_ok n rows' batch e"
  by (induction e) (auto simp: readable_column_def list_all_iff)

definition truth :: "exec_expr \<Rightarrow> vector_batch \<Rightarrow> nat \<Rightarrow> bool result" where
  "truth e batch row = bind_r (Eval e batch row) ExecValueAsBool"

text \<open>The mask of the rows of \<open>input\<close> on which \<open>P\<close> holds.\<close>

definition selects :: "selection_mask \<Rightarrow> (nat \<Rightarrow> bool) \<Rightarrow> selection_mask \<Rightarrow> bool" where
  "selects input P m \<longleftrightarrow> mask_inv m \<and> mask_row_count m = mask_row_count input \<and>
     (\<forall>r. Mask_Test m r \<longleftrightarrow> Mask_Test input r \<and> P r)"

lemma Eval_column:
  assumes "expr_ok n rows batch (ExecColumnRef slot ty)"
  shows "row < n \<Longrightarrow> Eval (ExecColumnRef slot ty) batch row =
      Inr (cell_value ty (cell (TypeElemSize ty) (cd_buffer (vb_columns batch ! slot)) row))"
    and "row \<in> set rows \<Longrightarrow>
      \<not> is_nan_value (cell_value ty (cell (TypeElemSize ty) (cd_buffer (vb_columns batch ! slot)) row))"
  using assms by (auto simp: readable_column_def column_ok_def ReadExecValue_def cell_value_def list_all_iff Let_def split: data_type.splits)

lemma numeric_cell: "numeric_type ty \<Longrightarrow> \<not> is_nan_value (cell_value ty x) \<Longrightarrow> is_number (cell_value ty x)"
  by (auto simp: numeric_type_def is_nan_value_def is_number_def cell_value_def)

lemma ColumnBuffer_some:
  assumes "expr_ok n rows batch (ExecColumnRef slot ty)" "0 < n"
  shows "ColumnBuffer batch slot = Some (cd_buffer (vb_columns batch ! slot))"
    and "length (cd_buffer (vb_columns batch ! slot)) = n * TypeElemSize ty"
proof -
  have c: "slot < length (vb_columns batch)" "length (cd_buffer (vb_columns batch ! slot)) = n * TypeElemSize ty" "0 < n * TypeElemSize ty"
    using assms by (auto simp: readable_column_def column_ok_def)
  from c(2,3) have "cd_buffer (vb_columns batch ! slot) \<noteq> []" by (metis list.size(3) less_irrefl)
  with c(1,2) show "ColumnBuffer batch slot = Some (cd_buffer (vb_columns batch ! slot))"
    "length (cd_buffer (vb_columns batch ! slot)) = n * TypeElemSize ty"
    by (simp_all add: ColumnBuffer_def)
qed

lemma Mask_And_rows: "mask_row_count (Mask_And a b) = min (mask_row_count a) (mask_row_count b)"
  and Mask_Or_rows: "mask_row_count (Mask_Or a b) = max (mask_row_count a) (mask_row_count b)"
  and Mask_AndNot_rows: "mask_row_count (Mask_AndNot a b) = mask_row_count a"
  by (simp_all add: Mask_And_def Mask_Or_def Mask_AndNot_def)

lemma selects_loop:
  assumes "mask_inv input" "\<And>r. Mask_Test input r \<Longrightarrow> test r = P r"
  shows "selects input P (Mask_And (compare_loop test (mask_row_count input)) input)"
  using assms mask_inv_rows [OF assms(1)]
  by (auto simp: selects_def Test_And Mask_And_inv Mask_And_rows compare_loop_inv compare_loop_rows compare_loop_Test
      dest: Mask_Test_less)

lemma selects_none:
  assumes "mask_inv input" "Mask_Empty input"
  shows "selects input P (SetNone (mask_row_count input))"
  using assms mask_inv_rows [OF assms(1)] by (simp add: selects_def SetNone_inv Test_SetNone Mask_Empty_iff min_absorb1)

subsection \<open>A numeric comparison\<close>

lemma truth_comparison:
  assumes "Eval l batch row = Inr a" "Eval r batch row = Inr b" "is_number a" "is_number b"
  shows "truth (ExecBinary (plan_op op) l r ty) batch row = Inr (cmp_int op (num_key a) (num_key b))"
proof -
  have p: "plan_op op \<noteq> P_AND" "plan_op op \<noteq> P_OR" "IsPlanComparison (plan_op op)" by (cases op; simp add: plan_op_def)+
  show ?thesis
    by (simp only: truth_def Eval.simps p if_False if_True assms(1,2) bind_r_simps CompareExecValues_number [OF assms(3,4)]
        comparison_holds_sgn ExecValueAsBool_def exec_value.case)
qed

lemma selects_cong: "(\<And>r. Mask_Test input r \<Longrightarrow> P r \<longleftrightarrow> Q r) \<Longrightarrow> selects input P m \<longleftrightarrow> selects input Q m"
  by (auto simp: selects_def)

lemma cmp_int_reverse: "cmp_int (ReverseCmpOp op) x y \<longleftrightarrow> cmp_int op y x"
  by (cases op) auto

lemma EvaluateConst_exact:
  assumes "mask_expr_ok input batch (ExecColumnRef slot ty)" "TryCoerceExact v ty = Some k" "literal_value_ok v" "numeric_type ty"
    "mask_inv input" "n = mask_row_count input" "\<not> Mask_Empty input"
  shows "\<exists>m. EvaluateConst ty op slot k batch n input = Inr m \<and> selects input
      (\<lambda>r. cmp_int op (num_key (cell_value ty (cell (TypeElemSize ty) (cd_buffer (vb_columns batch ! slot)) r))) (num_key v)) m"
proof -
  have n: "0 < n" using assms(5-7) by (auto simp: Mask_Empty_iff dest: Mask_Test_less)
  obtain test where t: "const_kernel ty op k = Inr (Some test)"
    "\<And>x. is_number (cell_value ty x) \<Longrightarrow> test x \<longleftrightarrow> cmp_int op (num_key (cell_value ty x)) (num_key v)"
    using const_kernel_exact [OF assms(2-4)] by blast
  note b = ColumnBuffer_some [OF assms(1) n [unfolded assms(6)], folded assms(6)]
  let ?d = "cd_buffer (vb_columns batch ! slot)"
  have "EvaluateConst ty op slot k batch n input =
      Inr (Mask_And (compare_loop (\<lambda>i. test (cell (TypeElemSize ty) ?d i)) n) input)"
    using b t(1) by (simp add: EvaluateConst_def)
  moreover have "selects input (\<lambda>r. cmp_int op (num_key (cell_value ty (cell (TypeElemSize ty) ?d r))) (num_key v))
      (Mask_And (compare_loop (\<lambda>i. test (cell (TypeElemSize ty) ?d i)) n) input)"
    unfolding assms(6) by (rule selects_loop [OF assms(5)])
      (use t(2) Eval_column(2) [OF assms(1)] numeric_cell [OF assms(4)] in \<open>simp add: mask_rows_set\<close>)
  ultimately show ?thesis by blast
qed

lemma numeric_compare_exact:
  assumes p: "TryCompileNumericCompare op l r = Some p" and ok: "mask_expr_ok input batch l" "mask_expr_ok input batch r"
    and inv: "mask_inv input" and n: "n = mask_row_count input"
  shows "\<exists>m. Evaluate p batch n input = Inr m \<and>
      selects input (\<lambda>row. truth (ExecBinary (plan_op op) l r ty) batch row = Inr True) m"
    and "Mask_Test input row \<Longrightarrow> \<exists>b. truth (ExecBinary (plan_op op) l r ty) batch row = Inr b"
proof -
  let ?t = "truth (ExecBinary (plan_op op) l r ty) batch"
  let ?cell = "\<lambda>slot ty row. cell_value ty (cell (TypeElemSize ty) (cd_buffer (vb_columns batch ! slot)) row)"
  have num: "is_number (?cell slot ct row)"
    if "mask_expr_ok input batch (ExecColumnRef slot ct)" "numeric_type ct" "Mask_Test input row" for slot ct row
    using numeric_cell [OF that(2) Eval_column(2) [OF that(1)]] that(3) by (simp add: mask_rows_set)
  consider (cols) a b ct where "l = ExecColumnRef a ct" "r = ExecColumnRef b ct" "numeric_type ct"
      "p = NumericCompare op (OpColumn ct a) (OpColumn ct b)"
    | (lit) a ct v vt k where "l = ExecColumnRef a ct" "r = ExecLiteral v vt" "numeric_type ct" "TryCoerceExact v ct = Some k"
      "p = NumericCompare op (OpColumn ct a) (OpConstant ct k)"
    | (rev) a ct v vt k where "l = ExecLiteral v vt" "r = ExecColumnRef a ct" "numeric_type ct" "TryCoerceExact v ct = Some k"
      "p = NumericCompare (ReverseCmpOp op) (OpColumn ct a) (OpConstant ct k)"
    using p by (cases l; cases r) (auto simp: TryCompileNumericCompare_def split: if_splits option.splits)
  then have "\<exists>P. (\<forall>row. Mask_Test input row \<longrightarrow> ?t row = Inr (P row)) \<and> (\<not> Mask_Empty input \<longrightarrow> (\<exists>m. Evaluate p batch n input = Inr m \<and> selects input P m))
      \<and> (\<exists>o' x y. p = NumericCompare o' x y)"
  proof cases
    case cols
    let ?P = "\<lambda>row. cmp_int op (num_key (?cell a ct row)) (num_key (?cell b ct row))"
    have "?t row = Inr (?P row)" if "Mask_Test input row" for row
      using Eval_column(1) Mask_Test_less [OF that] ok cols(1,2) num [OF _ cols(3) that] by (intro truth_comparison) auto
    moreover have "\<exists>m. Evaluate p batch n input = Inr m \<and> selects input ?P m" if e: "\<not> Mask_Empty input"
    proof -
      have n0: "0 < n" using e inv n by (auto simp: Mask_Empty_iff dest: Mask_Test_less)
      obtain test where t: "column_kernel ct op = Some test" using cols(3) by (auto simp: numeric_type_def column_kernel_def)
      note x = ColumnBuffer_some [OF ok(1) [unfolded cols(1)] n0 [unfolded n], folded n]
        and y = ColumnBuffer_some [OF ok(2) [unfolded cols(2)] n0 [unfolded n], folded n]
      let ?m = "Mask_And (compare_loop (\<lambda>i. test (cell (TypeElemSize ct) (cd_buffer (vb_columns batch ! a)) i)
          (cell (TypeElemSize ct) (cd_buffer (vb_columns batch ! b)) i)) n) input"
      have "Evaluate p batch n input = Inr ?m" using e x y t by (simp add: cols(4) EvaluateNumeric_def)
      moreover have "selects input ?P ?m" unfolding n
        by (rule selects_loop [OF inv]) (rule column_kernel_exact [OF t num [OF ok(1) [unfolded cols(1)] cols(3)]
            num [OF ok(2) [unfolded cols(2)] cols(3)]])
      ultimately show ?thesis by blast
    qed
    ultimately show ?thesis by (intro exI [of _ ?P] conjI allI impI exI [of _ op] exI [of _ "OpColumn ct a"] exI [of _ "OpColumn ct b"] cols(4))
  next
    case lit
    let ?P = "\<lambda>row. cmp_int op (num_key (?cell a ct row)) (num_key v)"
    have v: "literal_value_ok v" using ok(2) lit(2) by simp
    have "?t row = Inr (?P row)" if "Mask_Test input row" for row
      using Eval_column(1) Mask_Test_less [OF that] ok lit(1,2) num [OF _ lit(3) that] TryCoerceExact_value [OF lit(4) v] by (intro truth_comparison) auto
    then show ?thesis
      using EvaluateConst_exact [OF ok(1) [unfolded lit(1)] lit(4) v lit(3) inv n, of op]
      by (intro exI [of _ ?P]) (auto simp: lit(5) EvaluateNumeric_def)
  next
    case rev
    let ?P = "\<lambda>row. cmp_int op (num_key v) (num_key (?cell a ct row))"
    have v: "literal_value_ok v" using ok(1) rev(1) by simp
    have "?t row = Inr (?P row)" if "Mask_Test input row" for row
      using Eval_column(1) Mask_Test_less [OF that] ok rev(1,2) num [OF _ rev(3) that] TryCoerceExact_value [OF rev(4) v] by (intro truth_comparison) auto
    then show ?thesis
      using EvaluateConst_exact [OF ok(2) [unfolded rev(2)] rev(4) v rev(3) inv n, of "ReverseCmpOp op"]
      by (intro exI [of _ ?P]) (auto simp: rev(5) EvaluateNumeric_def cmp_int_reverse)
  qed
  then obtain P where P: "\<And>row. Mask_Test input row \<Longrightarrow> ?t row = Inr (P row)" "\<not> Mask_Empty input \<Longrightarrow> \<exists>m. Evaluate p batch n input = Inr m \<and> selects input P m"
    "\<exists>o' x y. p = NumericCompare o' x y" by blast
  show "Mask_Test input row \<Longrightarrow> \<exists>b. ?t row = Inr b" using P(1) by blast
  have eq: "selects input P m \<longleftrightarrow> selects input (\<lambda>row. ?t row = Inr True) m" for m
    using P(1) by (intro selects_cong) simp
  show "\<exists>m. Evaluate p batch n input = Inr m \<and> selects input (\<lambda>row. ?t row = Inr True) m"
  proof (cases "Mask_Empty input")
    case True
    then show ?thesis using P(3) selects_none [OF inv True] by (auto simp: EvaluateNumeric_def n)
  next
    case False
    then show ?thesis using P(2) eq by blast
  qed
qed

subsection \<open>The compiled predicate is the scalar one\<close>

text \<open>
  A mask evaluation agrees with the rows: it selects the rows of its input on which the scalar
  evaluation is true, and it fails only with the error of one of these rows.
\<close>

definition agrees :: "selection_mask \<Rightarrow> (nat \<Rightarrow> bool result) \<Rightarrow> selection_mask result \<Rightarrow> bool" where
  "agrees input t r \<longleftrightarrow>
     (case r of
        Inr m \<Rightarrow> selects input (\<lambda>row. t row = Inr True) m \<and> (\<forall>row. Mask_Test input row \<longrightarrow> (\<exists>b. t row = Inr b))
      | Inl err \<Rightarrow> \<exists>row. Mask_Test input row \<and> t row = Inl err)"

lemma agrees_InlI: "Mask_Test input row \<Longrightarrow> t row = Inl err \<Longrightarrow> agrees input t (Inl err)"
  by (auto simp: agrees_def)

lemma agrees_InrI:
  assumes "mask_inv m" "mask_row_count m = mask_row_count input" "\<And>row. Mask_Test m row \<Longrightarrow> Mask_Test input row"
    "\<And>row. Mask_Test input row \<Longrightarrow> t row = Inr (Mask_Test m row)"
  shows "agrees input t (Inr m)"
  using assms by (auto simp: agrees_def selects_def)

lemma truth_and: "truth (ExecBinary P_AND l r ty) batch row = bind_r (truth l batch row) (\<lambda>a. if a then truth r batch row else Inr False)"
  by (cases "Eval l batch row"; cases "Eval r batch row") (auto simp: truth_def bind_r_def ExecValueAsBool_def split: sum.splits)

lemma truth_or: "truth (ExecBinary P_OR l r ty) batch row = bind_r (truth l batch row) (\<lambda>a. if a then Inr True else truth r batch row)"
  by (cases "Eval l batch row"; cases "Eval r batch row") (auto simp: truth_def bind_r_def ExecValueAsBool_def split: sum.splits)

lemma fold_scalar_rows:
  assumes "mask_inv m" "\<forall>row\<in>set rows. row < mask_row_count m"
  shows "case fold_r (scalar_row e batch) rows m of
      Inr m' \<Rightarrow> mask_inv m' \<and> mask_row_count m' = mask_row_count m \<and>
        (\<forall>row. Mask_Test m' row \<longleftrightarrow> Mask_Test m row \<or> row \<in> set rows \<and> truth e batch row = Inr True) \<and>
        (\<forall>row\<in>set rows. \<exists>b. truth e batch row = Inr b)
    | Inl err \<Rightarrow> \<exists>row\<in>set rows. truth e batch row = Inl err"
  using assms
proof (induction rows arbitrary: m)
  case (Cons row rows)
  have s: "scalar_row e batch row m = bind_r (truth e batch row) (\<lambda>b. Inr (if b then set_row row m else m))"
    by (simp add: scalar_row_def truth_def bind_r_assoc)
  show ?case
  proof (cases "truth e batch row")
    case (Inl err)
    then show ?thesis by (simp add: s)
  next
    case (Inr b)
    show ?thesis
    proof (cases b)
      case True
      note u = set_row_inv [OF Cons.prems(1), of row]
      show ?thesis using Cons.IH [of "set_row row m"] Cons.prems u Inr True by (auto simp: s split: sum.splits)
    next
      case False
      then show ?thesis using Cons.IH [of m] Cons.prems Inr by (auto simp: s split: sum.splits)
    qed
  qed
qed simp

lemma scalar_agrees:
  assumes "mask_inv input"
  shows "agrees input (truth e batch) (Evaluate (ScalarPredicate e) batch (mask_row_count input) input)"
proof (cases "Mask_Empty input")
  case True
  then show ?thesis using selects_none [OF assms True] assms by (auto simp: agrees_def Mask_Empty_iff)
next
  case False
  have n: "mask_row_count (SetNone (mask_row_count input)) = mask_row_count input"
    using mask_inv_rows [OF assms] by simp
  have rows: "set (ForEachSetBit input) = {i. Mask_Test input i}"
    using assms by (simp add: ForEachSetBit_rows mask_rows_set)
  have "\<forall>row\<in>set (ForEachSetBit input). row < mask_row_count (SetNone (mask_row_count input))"
    unfolding n rows by (simp add: Mask_Test_less)
  note f = fold_scalar_rows [OF SetNone_inv this, of e batch]
  show ?thesis using f False unfolding n rows by (auto simp: agrees_def selects_def Test_SetNone split: sum.splits)
qed

lemma selects_self: "mask_inv input \<Longrightarrow> (\<And>r. Mask_Test input r \<Longrightarrow> P r) \<Longrightarrow> selects input P input"
  by (auto simp: selects_def)

lemma Mask_Count_ge_superset:
  assumes "mask_inv a" "mask_inv b" "\<And>r. Mask_Test b r \<Longrightarrow> Mask_Test a r" "Mask_Count a \<le> Mask_Count b"
  shows "Mask_Test a r \<longleftrightarrow> Mask_Test b r"
proof -
  have c: "Mask_Count m = card {i. Mask_Test m i}" if "mask_inv m" for m
    using distinct_card [OF mask_rows_sorted(2), of m] by (simp add: Mask_Count_length ForEachSetBit_rows mask_rows_set that)
  have "finite {i. Mask_Test a i}" using mask_rows_set [of a] by (metis List.finite_set)
  then have "{i. Mask_Test b i} = {i. Mask_Test a i}"
    using assms by (intro card_seteq) (auto simp: c)
  then show ?thesis by blast
qed

lemma and_agrees:
  assumes inv: "mask_inv input"
    and l: "agrees input (truth l batch) (Evaluate pl batch (mask_row_count input) input)"
    and r: "\<And>m. mask_inv m \<Longrightarrow> mask_row_count m = mask_row_count input \<Longrightarrow> (\<And>i. Mask_Test m i \<Longrightarrow> Mask_Test input i) \<Longrightarrow>
        agrees m (truth r batch) (Evaluate pr batch (mask_row_count input) m)"
  shows "agrees input (truth (ExecBinary P_AND l r ty) batch) (Evaluate (LogicalPredicate L_AND pl pr) batch (mask_row_count input) input)"
proof (cases "Mask_Empty input")
  case True
  then show ?thesis using selects_none [OF inv True] inv by (auto simp: agrees_def Mask_Empty_iff)
next
  case F: False
  show ?thesis
  proof (cases "Evaluate pl batch (mask_row_count input) input")
    case (Inl err)
    then show ?thesis using l F by (auto simp: agrees_def truth_and)
  next
    case (Inr out)
    have out: "mask_inv out" "mask_row_count out = mask_row_count input"
      "\<And>row. Mask_Test out row \<longleftrightarrow> Mask_Test input row \<and> truth l batch row = Inr True"
      "\<And>row. Mask_Test input row \<Longrightarrow> \<exists>b. truth l batch row = Inr b"
      using l Inr by (auto simp: agrees_def selects_def)
    show ?thesis
    proof (cases "Mask_Empty out")
      case True
      then have "truth (ExecBinary P_AND l r ty) batch row = Inr False" if "Mask_Test input row" for row
        using out(3) [of row] out(4) [OF that] that Mask_Empty_iff [OF out(1)] by (auto simp: truth_and)
      then show ?thesis using True F Inr out Mask_Empty_iff [OF out(1)] by (auto simp: agrees_def selects_def)
    next
      case False
      have ir: "agrees out (truth r batch) (Evaluate pr batch (mask_row_count input) out)" using r [OF out(1,2)] out(3) by blast
      have t: "truth (ExecBinary P_AND l r ty) batch row = (if Mask_Test out row then truth r batch row else Inr False)"
        if "Mask_Test input row" for row
        using out(3) [of row] out(4) [OF that] that by (auto simp: truth_and)
      show ?thesis
      proof (cases "Evaluate pr batch (mask_row_count input) out")
        case (Inl err)
        then show ?thesis using ir F Inr False t out(3) by (auto simp: agrees_def intro: exI)
      next
        case R: (Inr m)
        then have m: "mask_inv m" "mask_row_count m = mask_row_count input"
          "\<And>row. Mask_Test m row \<longleftrightarrow> Mask_Test out row \<and> truth r batch row = Inr True"
          "\<And>row. Mask_Test out row \<Longrightarrow> \<exists>b. truth r batch row = Inr b"
          using ir out(2) by (auto simp: agrees_def selects_def)
        have e: "Evaluate (LogicalPredicate L_AND pl pr) batch (mask_row_count input) input = Inr (Mask_And out m)"
          using F Inr False R by simp
        have test: "Mask_Test (Mask_And out m) row \<longleftrightarrow> Mask_Test out row \<and> truth r batch row = Inr True" for row
          using m(1,3) out(1) by (auto simp: Test_And)
        show ?thesis unfolding e
        proof (rule agrees_InrI)
          fix row assume i: "Mask_Test input row"
          show "truth (ExecBinary P_AND l r ty) batch row = Inr (Mask_Test (Mask_And out m) row)"
            unfolding test t [OF i] using m(4) [of row] by auto
        qed (use m(1,2) out(1-3) test in \<open>auto simp: Mask_And_inv Mask_And_rows\<close>)
      qed
    qed
  qed
qed

lemma or_agrees:
  assumes inv: "mask_inv input"
    and l: "agrees input (truth l batch) (Evaluate pl batch (mask_row_count input) input)"
    and r: "\<And>m. mask_inv m \<Longrightarrow> mask_row_count m = mask_row_count input \<Longrightarrow> (\<And>i. Mask_Test m i \<Longrightarrow> Mask_Test input i) \<Longrightarrow>
        agrees m (truth r batch) (Evaluate pr batch (mask_row_count input) m)"
  shows "agrees input (truth (ExecBinary P_OR l r ty) batch) (Evaluate (LogicalPredicate L_OR pl pr) batch (mask_row_count input) input)"
proof (cases "Mask_Empty input")
  case True
  then show ?thesis using selects_none [OF inv True] inv by (auto simp: agrees_def Mask_Empty_iff)
next
  case F: False
  show ?thesis
  proof (cases "Evaluate pl batch (mask_row_count input) input")
    case (Inl err)
    then show ?thesis using l F by (auto simp: agrees_def truth_or)
  next
    case (Inr out)
    have out: "mask_inv out" "mask_row_count out = mask_row_count input"
      "\<And>row. Mask_Test out row \<longleftrightarrow> Mask_Test input row \<and> truth l batch row = Inr True"
      "\<And>row. Mask_Test input row \<Longrightarrow> \<exists>b. truth l batch row = Inr b"
      using l Inr by (auto simp: agrees_def selects_def)
    let ?rest = "Mask_AndNot input out"
    have t: "truth (ExecBinary P_OR l r ty) batch row = (if Mask_Test out row then Inr True else truth r batch row)"
      if "Mask_Test input row" for row
      using out(3) [of row] out(4) [OF that] that by (auto simp: truth_or)
    show ?thesis
    proof (cases "Mask_Count input \<le> Mask_Count out")
      case True
      then have "Mask_Test input row \<longleftrightarrow> Mask_Test out row" for row
        using Mask_Count_ge_superset [OF inv out(1)] out(3) by blast
      then show ?thesis using True F Inr out(1,2) t by (auto simp: agrees_def selects_def)
    next
      case False
      have rest: "mask_inv ?rest" "mask_row_count ?rest = mask_row_count input"
        "\<And>row. Mask_Test ?rest row \<longleftrightarrow> Mask_Test input row \<and> \<not> Mask_Test out row"
        using inv out(1) by (simp_all add: Mask_AndNot_inv Mask_AndNot_rows Test_AndNot)
      have ir: "agrees ?rest (truth r batch) (Evaluate pr batch (mask_row_count input) ?rest)" using r [OF rest(1,2)] rest(3) by blast
      show ?thesis
      proof (cases "Evaluate pr batch (mask_row_count input) ?rest")
        case (Inl err)
        then show ?thesis using ir F Inr False t rest(3) by (auto simp: agrees_def intro: exI)
      next
        case R: (Inr m)
        then have m: "mask_inv m" "mask_row_count m = mask_row_count input"
          "\<And>row. Mask_Test m row \<longleftrightarrow> Mask_Test ?rest row \<and> truth r batch row = Inr True"
          "\<And>row. Mask_Test ?rest row \<Longrightarrow> \<exists>b. truth r batch row = Inr b"
          using ir rest(2) by (auto simp: agrees_def selects_def)
        have e: "Evaluate (LogicalPredicate L_OR pl pr) batch (mask_row_count input) input = Inr (Mask_Or out m)"
          using F Inr False R by simp
        have test: "Mask_Test (Mask_Or out m) row \<longleftrightarrow>
            Mask_Test out row \<or> Mask_Test input row \<and> truth r batch row = Inr True" for row
          using m(1,3) out(1) rest(3) by (auto simp: Test_Or)
        show ?thesis unfolding e
        proof (rule agrees_InrI)
          fix row assume i: "Mask_Test input row"
          show "truth (ExecBinary P_OR l r ty) batch row = Inr (Mask_Test (Mask_Or out m) row)"
            unfolding test t [OF i] using m(4) [of row] rest(3) [of row] i by auto
        qed (use m(1,2) out(1-3) test in \<open>auto simp: Mask_Or_inv Mask_Or_rows\<close>)
      qed
    qed
  qed
qed

lemma CompileVectorPredicate_agrees:
  assumes "mask_expr_ok input batch e" "mask_inv input"
  shows "agrees input (truth e batch) (Evaluate (CompileVectorPredicate e) batch (mask_row_count input) input)"
  using assms
proof (induction e arbitrary: input)
  case (ExecBinary op l r ty)
  show ?case
  proof (cases "ToCmpOp op")
    case (Inr cop)
    then have op: "op = plan_op cop" by (rule ToCmpOp_plan_op)
    show ?thesis
    proof (cases "TryCompileNumericCompare cop l r")
      case None
      then show ?thesis using scalar_agrees [OF ExecBinary.prems(2)] Inr by simp
    next
      case (Some p)
      note c = numeric_compare_exact [OF Some _ _ ExecBinary.prems(2) refl]
      show ?thesis using c(1) [of batch ty] c(2) [of batch _ ty] ExecBinary.prems(1) Inr Some
        by (auto simp: agrees_def op Mask_Test_less)
    qed
  next
    case (Inl err)
    have ok: "mask_expr_ok input batch l" "mask_expr_ok input batch r" using ExecBinary.prems(1) by simp_all
    have sub: "mask_expr_ok m batch r" if "mask_row_count m = mask_row_count input" "\<And>i. Mask_Test m i \<Longrightarrow> Mask_Test input i" for m
      using expr_ok_mono [OF ok(2), of "mask_rows m"] that by (auto simp: mask_rows_set)
    consider "op = P_AND" | "op = P_OR" | "op \<noteq> P_AND" "op \<noteq> P_OR" by blast
    then show ?thesis
    proof cases
      case 1
      have "agrees input (truth (ExecBinary P_AND l r ty) batch)
          (Evaluate (LogicalPredicate L_AND (CompileVectorPredicate l) (CompileVectorPredicate r)) batch (mask_row_count input) input)"
        by (rule and_agrees [OF ExecBinary.prems(2) ExecBinary.IH(1) [OF ok(1) ExecBinary.prems(2)]])
          (use ExecBinary.IH(2) sub in metis)
      then show ?thesis using 1 by simp
    next
      case 2
      have "agrees input (truth (ExecBinary P_OR l r ty) batch)
          (Evaluate (LogicalPredicate L_OR (CompileVectorPredicate l) (CompileVectorPredicate r)) batch (mask_row_count input) input)"
        by (rule or_agrees [OF ExecBinary.prems(2) ExecBinary.IH(1) [OF ok(1) ExecBinary.prems(2)]])
          (use ExecBinary.IH(2) sub in metis)
      then show ?thesis using 2 by simp
    next
      case 3
      then show ?thesis using scalar_agrees [OF ExecBinary.prems(2), of "ExecBinary op l r ty" batch] Inl by simp
    qed
  qed
qed (use scalar_agrees in \<open>simp_all\<close>)

text \<open>C6: for every condition (AND, OR, comparisons and arithmetic over columns of matching type without
  NaN and literals of the parser) and every valid input mask, the compiled predicate (compare kernels
  with coerced literals, short-circuiting on masks) returns exactly the input rows on which the scalar
  evaluation of the expression is true, and then the scalar evaluation fails on no input row; if it
  fails, it fails with the error the scalar evaluation has on some input row.
\<close>

theorem vector_predicate_exact:
  assumes "mask_expr_ok input batch e" "mask_inv input"
  shows "case Evaluate (CompileVectorPredicate e) batch (mask_row_count input) input of
      Inr m \<Rightarrow> mask_inv m \<and> mask_row_count m = mask_row_count input \<and>
        (\<forall>row. Mask_Test m row \<longleftrightarrow> Mask_Test input row \<and> truth e batch row = Inr True) \<and>
        (\<forall>row. Mask_Test input row \<longrightarrow> (\<exists>b. truth e batch row = Inr b))
    | Inl err \<Rightarrow> \<exists>row. Mask_Test input row \<and> truth e batch row = Inl err"
  using CompileVectorPredicate_agrees [OF assms] by (simp add: agrees_def selects_def cong: sum.case_cong)

text \<open>Why the columns are to hold no NaN: a kernel and the scalar comparison disagree on one.\<close>

definition nan_batch :: vector_batch where
  "nan_batch = \<lparr>vb_columns = [\<lparr>cd_type = DT_DOUBLE, cd_buffer = le_bytes 8 (0x7FF8000000000000 :: f64), cd_count = 1, cd_is_view = False\<rparr>],
                vb_size = 1, vb_selection = SetAll 1\<rparr>"

definition nan_condition :: exec_expr where
  "nan_condition = ExecBinary P_EQ (ExecColumnRef 0 DT_DOUBLE) (ExecLiteral (EV_double 0x3FF0000000000000) DT_DOUBLE) DT_INT32"

text \<open>on a NaN the row-by-row comparison with 1.0 is true, the kernel's is false.\<close>

theorem nan_comparison_depends_on_path:
  "truth nan_condition nan_batch 0 = Inr True"
  "\<exists>m. Evaluate (CompileVectorPredicate nan_condition) nan_batch 1 (SetAll 1) = Inr m \<and> \<not> Mask_Test m 0"
proof -
  have nan: "f64_nan 0x7FF8000000000000" by (simp add: ieee_nan_def ieee_mag_def ieee_inf_def)
  have "Eval (ExecColumnRef 0 DT_DOUBLE) nan_batch 0 = Inr (EV_double 0x7FF8000000000000)"
    by (simp add: nan_batch_def ReadExecValue_def cell_def le_word_le_bytes [of 8 _ "[]", simplified])
  moreover have "\<not> f80_lt (f80_of_f64 0x7FF8000000000000) x" "\<not> f80_lt x (f80_of_f64 0x7FF8000000000000)" for x
    using nan by (simp_all add: ieee_lt_def)
  ultimately show "truth nan_condition nan_batch 0 = Inr True"
    by (simp add: truth_def nan_condition_def CompareExecValues_def ExecValueAsBool_def)
  show "\<exists>m. Evaluate (CompileVectorPredicate nan_condition) nan_batch 1 (SetAll 1) = Inr m \<and> \<not> Mask_Test m 0"
  proof -
    let ?d = "cd_buffer (vb_columns nan_batch ! 0)"
    have d: "cell 8 ?d i = ?d" if "i = 0" for i
      using that by (simp add: nan_batch_def cell_def)
    have v: "le_word 8 ?d = (0x7FF8000000000000 :: f64)"
      by (simp add: nan_batch_def le_word_le_bytes [of 8 _ "[]", simplified])
    have ne: "le_bytes 8 (0x7FF8000000000000 :: f64) \<noteq> []" by (metis length_le_bytes list.size(3) zero_neq_numeral)
    have "\<not> Mask_Empty (SetAll 1)"
      by (simp add: Mask_Empty_iff SetAll_inv Test_SetAll size_defs)
    then have "Evaluate (CompileVectorPredicate nan_condition) nan_batch 1 (SetAll 1) =
        Inr (Mask_And (compare_loop (\<lambda>i. CompareFloat 52 CMP_EQ (le_word 8 (cell 8 ?d i)) (0x3FF0000000000000 :: f64)) 1) (SetAll 1))"
      by (simp add: nan_condition_def TryCompileNumericCompare_def TryCoerceExact_def CoerceFromDouble_def numeric_type_def
          EvaluateNumeric_def EvaluateConst_def ColumnBuffer_def const_kernel_def nan_batch_def ne)
    then show ?thesis using nan
      by (simp add: Test_And compare_loop_inv compare_loop_Test SetAll_inv size_defs d v ieee_eq_def)
  qed
qed

end
