(* ===== verification/Vector_Expression.thy ===== *)
theory Vector_Expression
  imports Vector_Predicate
begin

text \<open>
  \<^verbatim>\<open>simd/arithmetic_kernel.h\<close>, \<^verbatim>\<open>simd/scalar/arithmetic_scalar.cpp\<close>,
  \<^verbatim>\<open>execution/expression/vector_expression.{h,cpp}\<close> and \<^verbatim>\<open>vector_expression_compiler.cpp\<close>: sums and
  differences of a column with a column or a literal of the result type, computed on whole dense
  columns in the width of the type instead of \<open>long double\<close>.
\<close>

subsection \<open>Typed values\<close>

definition typed_cell :: "data_type \<Rightarrow> bytes \<Rightarrow> typed_value result" where
  "typed_cell ty bs =
     (case ty of
        DT_INT32 \<Rightarrow> Inr (TV_i32 (le_word 4 bs))
      | DT_INT64 \<Rightarrow> Inr (TV_i64 (le_word 8 bs))
      | DT_FLOAT \<Rightarrow> Inr (TV_f32 (le_word 4 bs))
      | DT_DOUBLE \<Rightarrow> Inr (TV_f64 (le_word 8 bs))
      | _ \<Rightarrow> Inl (Runtime_error ''ArithmeticVectorExpression: non-numeric result type''))"

definition typed_bytes :: "typed_value \<Rightarrow> bytes" where
  "typed_bytes v = (case v of TV_i32 w \<Rightarrow> le_bytes 4 w | TV_i64 w \<Rightarrow> le_bytes 8 w | TV_f32 w \<Rightarrow> le_bytes 4 w | TV_f64 w \<Rightarrow> le_bytes 8 w)"

datatype arithmetic_op = A_ADD | A_SUB

text \<open>Overflow of the signed types is undefined in C++.\<close>

definition int_arithmetic :: "int \<Rightarrow> arithmetic_op \<Rightarrow> int \<Rightarrow> int \<Rightarrow> int result" where
  "int_arithmetic bound op a b =
     (let r = (case op of A_ADD \<Rightarrow> a + b | A_SUB \<Rightarrow> a - b)
      in if r < - bound \<or> bound \<le> r then Inl Undefined_behaviour else Inr r)"

definition ArithmeticTypedValue :: "typed_value \<Rightarrow> arithmetic_op \<Rightarrow> typed_value \<Rightarrow> typed_value result" where
  "ArithmeticTypedValue lhs op rhs =
     (case (lhs, rhs) of
        (TV_i32 a, TV_i32 b) \<Rightarrow> bind_r (int_arithmetic (2 ^ 31) op (sint a) (sint b)) (\<lambda>r. Inr (TV_i32 (word_of_int r)))
      | (TV_i64 a, TV_i64 b) \<Rightarrow> bind_r (int_arithmetic (2 ^ 63) op (sint a) (sint b)) (\<lambda>r. Inr (TV_i64 (word_of_int r)))
      | (TV_f32 a, TV_f32 b) \<Rightarrow> Inr (TV_f32 (case op of A_ADD \<Rightarrow> ieee_add 23 a b | A_SUB \<Rightarrow> ieee_sub 23 a b))
      | (TV_f64 a, TV_f64 b) \<Rightarrow> Inr (TV_f64 (case op of A_ADD \<Rightarrow> ieee_add 52 a b | A_SUB \<Rightarrow> ieee_sub 52 a b))
      | _ \<Rightarrow> Inl bad_variant)"

definition ArithmeticColumnScalar :: "data_type \<Rightarrow> arithmetic_op \<Rightarrow> bytes \<Rightarrow> bytes \<Rightarrow> nat \<Rightarrow> bytes list result" where
  "ArithmeticColumnScalar ty op lhs rhs count =
     map_r (\<lambda>i. bind_r (typed_cell ty (cell (TypeElemSize ty) lhs i)) (\<lambda>a.
                bind_r (typed_cell ty (cell (TypeElemSize ty) rhs i)) (\<lambda>b.
                bind_r (ArithmeticTypedValue a op b) (\<lambda>v. Inr (typed_bytes v))))) [0..<count]"

definition ArithmeticConstScalar ::
  "data_type \<Rightarrow> arithmetic_op \<Rightarrow> bytes \<Rightarrow> typed_value \<Rightarrow> bool \<Rightarrow> nat \<Rightarrow> bytes list result" where
  "ArithmeticConstScalar ty op data constant const_on_left count =
     map_r (\<lambda>i. bind_r (typed_cell ty (cell (TypeElemSize ty) data i)) (\<lambda>a.
                bind_r (if const_on_left then ArithmeticTypedValue constant op a else ArithmeticTypedValue a op constant)
                  (\<lambda>v. Inr (typed_bytes v)))) [0..<count]"

subsection \<open>Expressions on columns\<close>

record vector_expression =
  ve_op :: arithmetic_op
  ve_lhs :: compare_operand
  ve_rhs :: compare_operand
  ve_type :: data_type

fun operand_slot :: "compare_operand \<Rightarrow> nat" where
  "operand_slot (OpColumn _ slot) = slot"
| "operand_slot (OpConstant _ _) = 0"

fun operand_constant :: "compare_operand \<Rightarrow> typed_value" where
  "operand_constant (OpConstant _ v) = v"
| "operand_constant (OpColumn _ _) = TV_i32 0"

fun is_column :: "compare_operand \<Rightarrow> bool" where
  "is_column (OpColumn _ _) = True"
| "is_column (OpConstant _ _) = False"

definition CollectInputSlots :: "vector_expression \<Rightarrow> nat list" where
  "CollectInputSlots e =
     (if is_column (ve_lhs e) then [operand_slot (ve_lhs e)] else []) @
     (if is_column (ve_rhs e) then [operand_slot (ve_rhs e)] else [])"

text \<open>The data of a column, of which a kernel reads \<open>count\<close> elements.\<close>

definition ColumnDataPtr :: "vector_batch \<Rightarrow> data_type \<Rightarrow> nat \<Rightarrow> nat \<Rightarrow> bytes result" where
  "ColumnDataPtr batch ty count slot =
     (if length (vb_columns batch) \<le> slot then Inl (Runtime_error ''ArithmeticVectorExpression: input slot out of range'')
      else if length (cd_buffer (vb_columns batch ! slot)) < count * TypeElemSize ty then Inl Undefined_behaviour
      else Inr (cd_buffer (vb_columns batch ! slot)))"

definition evaluate_cells :: "vector_expression \<Rightarrow> vector_batch \<Rightarrow> nat \<Rightarrow> bytes list result" where
  "evaluate_cells e input count =
     (if \<not> numeric_type (ve_type e) then Inl (Runtime_error ''ArithmeticVectorExpression: non-numeric result type'')
      else if is_column (ve_lhs e) \<and> is_column (ve_rhs e) then
        bind_r (ColumnDataPtr input (ve_type e) count (operand_slot (ve_lhs e))) (\<lambda>a.
        bind_r (ColumnDataPtr input (ve_type e) count (operand_slot (ve_rhs e))) (\<lambda>b.
          ArithmeticColumnScalar (ve_type e) (ve_op e) a b count))
      else
        let column_operand = (if is_column (ve_lhs e) then ve_lhs e else ve_rhs e);
            constant_operand = (if is_column (ve_lhs e) then ve_rhs e else ve_lhs e) in
        bind_r (ColumnDataPtr input (ve_type e) count (operand_slot column_operand)) (\<lambda>a.
          ArithmeticConstScalar (ve_type e) (ve_op e) a (operand_constant constant_operand) (\<not> is_column (ve_lhs e)) count))"

definition EvaluateDense :: "vector_expression \<Rightarrow> vector_batch \<Rightarrow> column_data \<Rightarrow> nat \<Rightarrow> column_data result" where
  "EvaluateDense e input out count =
     (if count = 0 then Inr out
      else if cd_type out \<noteq> ve_type e then Inl (Runtime_error ''ArithmeticVectorExpression: output type mismatch'')
      else if length (cd_buffer out) < count * TypeElemSize (ve_type e) then Inl Undefined_behaviour
      else bind_r (evaluate_cells e input count) (\<lambda>cs.
        Inr (out\<lparr>cd_buffer := concat cs @ drop (count * TypeElemSize (ve_type e)) (cd_buffer out)\<rparr>)))"

subsection \<open>The compiler\<close>

definition ClassifyOperand :: "exec_expr \<Rightarrow> data_type \<Rightarrow> compare_operand option" where
  "ClassifyOperand e result_type =
     (case e of
        ExecColumnRef slot ty \<Rightarrow> if ty \<noteq> result_type then None else Some (OpColumn result_type slot)
      | ExecLiteral v _ \<Rightarrow> (case TryCoerceExact v result_type of None \<Rightarrow> None | Some k \<Rightarrow> Some (OpConstant result_type k))
      | ExecBinary _ _ _ _ \<Rightarrow> None)"

definition TryCompileVectorExpression :: "exec_expr \<Rightarrow> vector_expression option" where
  "TryCompileVectorExpression e =
     (case e of
        ExecBinary op l r ty \<Rightarrow>
          (case (case op of P_ADD \<Rightarrow> Some A_ADD | P_SUB \<Rightarrow> Some A_SUB | _ \<Rightarrow> None) of
             None \<Rightarrow> None
           | Some aop \<Rightarrow>
               if \<not> numeric_type ty then None
               else (case ClassifyOperand l ty of
                       None \<Rightarrow> None
                     | Some lhs \<Rightarrow> (case ClassifyOperand r ty of
                         None \<Rightarrow> None
                       | Some rhs \<Rightarrow>
                           if \<not> is_column lhs \<and> \<not> is_column rhs then None
                           else Some \<lparr>ve_op = aop, ve_lhs = lhs, ve_rhs = rhs, ve_type = ty\<rparr>)))
      | _ \<Rightarrow> None)"

subsection \<open>long double sums of integers\<close>

lemma f80_of_int_finite:
  assumes "\<bar>n\<bar> < 2 ^ 64"
  shows "ieee_mag (f80_of_int n) < ieee_inf 63 TYPE(79)"
proof (rule finite_by_units)
  have "\<bar>ieee_units 63 (f80_of_int n)\<bar> = \<bar>n\<bar> * 2 ^ f80_unit"
    by (simp only: f80_units_int [OF assms] abs_mult power_abs abs_numeral)
  also have "\<dots> < 2 ^ 64 * 2 ^ f80_unit" using assms by (intro mult_strict_right_mono) simp_all
  also have "\<dots> = int (2 ^ 64 * 2 ^ f80_unit)" by (simp only: of_nat_mult of_nat_power of_nat_numeral)
  also have "\<dots> \<le> int (fp_val 63 (ieee_inf 63 TYPE(79)))"
    unfolding of_nat_le_iff power_add [symmetric]
    by (subst fp_val_inf) (simp, rule power_increasing, simp_all add: f80_unit_def)
  finally show "\<bar>ieee_units 63 (f80_of_int n)\<bar> < int (fp_val 63 (ieee_inf 63 TYPE(79)))" .
qed

lemma sign_swap: "(if b then - 1 else 1) * z = n * k \<Longrightarrow> z = (if b then - 1 else 1) * n * (k :: int)"
  by (cases b) simp_all

lemma f80_trunc_units:
  assumes "ieee_mag w < ieee_inf 63 TYPE(79)" "ieee_units 63 w = n * 2 ^ f80_unit"
  shows "f80_trunc b w = (if n < - b \<or> b \<le> n then None else Some n)"
proof -
  let ?s = "if ieee_neg w then - 1 else 1 :: int"
  have "int (fp_val 63 (ieee_mag w)) = (?s * n) * 2 ^ f80_unit"
    using assms(2) unfolding ieee_units_def by (rule sign_swap)
  then have "int (fp_val 63 (ieee_mag w) div 2 ^ f80_unit) = ?s * n"
    by (simp only: of_nat_div of_nat_power of_nat_numeral) (rule nonzero_mult_div_cancel_right, simp)
  then have "?s * int (fp_val 63 (ieee_mag w) div 2 ^ f80_unit) = n" by (simp only:) (simp split: if_split)
  then show ?thesis using assms(1) by (simp only: f80_trunc_def Let_def) (simp add: not_le)
qed

lemma int_scale_lt: "0 < k \<Longrightarrow> n * k < 0 \<longleftrightarrow> n < (0 :: int)"
  by (simp add: mult_less_0_iff)

lemma int_scale_nat: "0 \<le> k \<Longrightarrow> nat \<bar>n * k\<bar> = nat \<bar>n\<bar> * nat (k :: int)"
  by (simp add: abs_mult nat_mult_distrib)

lemma f80_add_units:
  assumes fin: "ieee_mag x < ieee_inf 63 TYPE(79)" "ieee_mag y < ieee_inf 63 TYPE(79)"
    and units: "ieee_units 63 x + ieee_units 63 y = n * 2 ^ f80_unit" and n: "\<bar>n\<bar> \<le> 2 ^ 64"
  shows "ieee_mag (f80_add x y) < ieee_inf 63 TYPE(79)" "ieee_units 63 (f80_add x y) = n * 2 ^ f80_unit"
proof -
  have nan: "\<not> f80_nan x" "\<not> f80_nan y" "ieee_mag x \<noteq> ieee_inf 63 TYPE(79)" "ieee_mag y \<noteq> ieee_inf 63 TYPE(79)"
    using fin by (auto simp: ieee_nan_def)
  have add: "f80_add x y = (if n = 0 then ieee_make (ieee_neg x \<and> ieee_neg y) 0 else f80_of_int n)"
  proof (cases "n = 0")
    case True
    then show ?thesis using nan units by (simp only: f80_add_def ieee_add_def Let_def if_False mult_zero_left) simp
  next
    case False
    have k: "(0 :: int) < 2 ^ f80_unit" by simp
    have "n * 2 ^ f80_unit \<noteq> 0" using False k by (simp only: mult_eq_0_iff power_not_zero) simp
    moreover have "nat \<bar>n * 2 ^ f80_unit\<bar> = nat \<bar>n\<bar> * 2 ^ f80_unit"
      using k by (simp only: int_scale_nat less_imp_le nat_power_eq zero_le_numeral) simp
    ultimately show ?thesis using nan False
      by (simp only: f80_add_def ieee_add_def Let_def if_False units int_scale_lt [OF k] f80_of_int_def ieee_of_int_def)
  qed
  have u: "ieee_units 63 (f80_of_int n) = n * 2 ^ f80_unit"
    unfolding f80_of_int_def by (rule ieee_units_of_int_fits) (use n in \<open>simp_all add: f80_unit_def\<close>)
  have z: "ieee_mag (ieee_make b 0 :: f80) = 0" for b by (rule ieee_make_sel) simp
  have inf: "0 < ieee_inf 63 TYPE(79)" by (simp add: ieee_inf_def)
  show units': "ieee_units 63 (f80_add x y) = n * 2 ^ f80_unit"
  proof (cases "n = 0")
    case True
    have "f80_add x y = ieee_make (ieee_neg x \<and> ieee_neg y) 0" using add by (simp add: True)
    then show ?thesis using True by (simp only: ieee_units_def z fp_val_0 of_nat_0 mult_zero_right mult_zero_left)
  next
    case False
    then have "f80_add x y = f80_of_int n" using add by (simp only: if_False)
    then show ?thesis by (simp only: u)
  qed
  show "ieee_mag (f80_add x y) < ieee_inf 63 TYPE(79)"
  proof (rule finite_by_units)
    have "\<bar>ieee_units 63 (f80_add x y)\<bar> = \<bar>n\<bar> * 2 ^ f80_unit" by (simp only: units' abs_mult power_abs abs_numeral)
    also have "\<dots> \<le> 2 ^ 64 * 2 ^ f80_unit" using n by (intro mult_right_mono) simp_all
    also have "\<dots> = int (2 ^ 64 * 2 ^ f80_unit)" by (simp only: of_nat_mult of_nat_power of_nat_numeral)
    also have "\<dots> < int (fp_val 63 (ieee_inf 63 TYPE(79)))"
      unfolding of_nat_less_iff power_add [symmetric]
      by (subst fp_val_inf) (simp, rule power_strict_increasing, simp_all add: f80_unit_def)
    finally show "\<bar>ieee_units 63 (f80_add x y)\<bar> < int (fp_val 63 (ieee_inf 63 TYPE(79)))" .
  qed
qed

text \<open>A \<open>long double\<close> that is the integer \<open>n\<close>.\<close>

definition is_int80 :: "int \<Rightarrow> f80 \<Rightarrow> bool" where
  "is_int80 n x \<longleftrightarrow> ieee_mag x < ieee_inf 63 TYPE(79) \<and> ieee_units 63 x = n * 2 ^ f80_unit"

lemma is_int80_of_int: "\<bar>n\<bar> < 2 ^ 64 \<Longrightarrow> is_int80 n (f80_of_int n)"
  by (simp only: is_int80_def f80_of_int_finite f80_units_int)

lemma is_int80_add: "is_int80 a x \<Longrightarrow> is_int80 b y \<Longrightarrow> \<bar>a + b\<bar> \<le> 2 ^ 64 \<Longrightarrow> is_int80 (a + b) (f80_add x y)"
  unfolding is_int80_def by (rule conjI; rule f80_add_units) (simp_all add: distrib_right)

lemma is_int80_sub:
  assumes "is_int80 a x" "is_int80 b y" "\<bar>a - b\<bar> \<le> 2 ^ 64"
  shows "is_int80 (a - b) (f80_sub x y)"
proof -
  let ?y = "ieee_make (\<not> ieee_neg y) (ieee_mag y) :: f80"
  have mag: "ieee_mag ?y = ieee_mag y" "ieee_neg ?y \<longleftrightarrow> \<not> ieee_neg y"
    by (rule ieee_make_sel; rule ieee_mag_less)+
  have y: "is_int80 (- b) ?y"
    using assms(2) unfolding is_int80_def ieee_units_def mag by (cases "ieee_neg y") simp_all
  have "f80_sub x y = f80_add x ?y"
    using assms(1,2) by (simp add: f80_sub_def f80_add_def ieee_sub_def is_int80_def ieee_nan_def)
  then show ?thesis using is_int80_add [OF assms(1) y] assms(3) by simp
qed

lemma is_int80_trunc: "is_int80 n x \<Longrightarrow> f80_to_int b x = (if n < - b \<or> b \<le> n then Inl Undefined_behaviour else Inr n)"
  unfolding is_int80_def f80_to_int_def by (auto simp: f80_trunc_units)

lemma is_int80_key: "is_int80 n x \<Longrightarrow> ieee_key y = ieee_key x \<Longrightarrow> is_int80 n y"
proof -
  assume x: "is_int80 n x" and k: "ieee_key y = ieee_key x"
  have "int (ieee_mag w) = \<bar>ieee_key w\<bar>" for w :: f80 by (simp add: ieee_key_def)
  then have "ieee_mag y = ieee_mag x" using k by (metis of_nat_eq_iff)
  moreover have "ieee_units 63 y = ieee_units 63 x" using k by (simp only: ieee_key_eq_iff_units [of _ _ 63])
  ultimately show ?thesis using x by (simp only: is_int80_def)
qed

subsection \<open>Integer expressions are exact\<close>

definition int_width :: "data_type \<Rightarrow> int" where
  "int_width ty = (if ty = DT_INT32 then 2 ^ 31 else 2 ^ 63)"

definition int_typed :: "data_type \<Rightarrow> int \<Rightarrow> typed_value" where
  "int_typed ty i = (if ty = DT_INT32 then TV_i32 (word_of_int i) else TV_i64 (word_of_int i))"

definition operand_value :: "compare_operand \<Rightarrow> vector_batch \<Rightarrow> nat \<Rightarrow> typed_value result" where
  "operand_value v batch row =
     (case v of OpColumn ty slot \<Rightarrow> typed_cell ty (cell (TypeElemSize ty) (cd_buffer (vb_columns batch ! slot)) row)
      | OpConstant _ k \<Rightarrow> Inr k)"

lemma sint_word_of_int_in_range:
  "- (2 ^ (LENGTH('a) - 1)) \<le> i \<Longrightarrow> i < 2 ^ (LENGTH('a) - 1) \<Longrightarrow> sint (word_of_int i :: 'a::len word) = i"
  unfolding sint_sbintrunc' by (rule signed_take_bit_int_eq_self) auto

lemma sint_int_width:
  "ty = DT_INT32 \<Longrightarrow> - int_width ty \<le> i \<Longrightarrow> i < int_width ty \<Longrightarrow> sint (word_of_int i :: i32) = i"
  "ty \<noteq> DT_INT32 \<Longrightarrow> - int_width ty \<le> i \<Longrightarrow> i < int_width ty \<Longrightarrow> sint (word_of_int i :: i64) = i"
  by (rule sint_word_of_int_in_range; simp add: int_width_def)+

lemma int_width_le: "int_width ty \<le> 2 ^ 63"
  by (simp add: int_width_def)

lemma int_operand:
  assumes ok: "expr_ok n rows batch e" and op: "ClassifyOperand e ty = Some v" and ty: "ty = DT_INT32 \<or> ty = DT_INT64" and row: "row < n"
  shows "\<exists>w x i. Eval e batch row = Inr w \<and> ExecValueAsNumber w = Inr x \<and> is_int80 i x \<and>
    operand_value v batch row = Inr (int_typed ty i) \<and> - int_width ty \<le> i \<and> i < int_width ty"
proof (cases e)
  case (ExecColumnRef slot ct)
  then have v: "v = OpColumn ty slot" "ct = ty" using op by (auto simp: ClassifyOperand_def split: if_splits)
  let ?c = "cell (TypeElemSize ty) (cd_buffer (vb_columns batch ! slot)) row"
  have e: "Eval e batch row = Inr (cell_value ty ?c)" using Eval_column(1) ok row unfolding ExecColumnRef v(2) by blast
  show ?thesis
  proof (cases "ty = DT_INT32")
    case True
    have b: "- (2 ^ 31) \<le> sint (le_word 4 ?c :: i32)" "sint (le_word 4 ?c :: i32) < 2 ^ 31"
      using sint_ge [of "le_word 4 ?c :: i32"] sint_lt [of "le_word 4 ?c :: i32"] by simp_all
    then have "\<bar>sint (le_word 4 ?c :: i32)\<bar> < 2 ^ 64" by simp
    from is_int80_of_int [OF this] show ?thesis using e b True
      by (intro exI [of _ "cell_value ty ?c"] exI [of _ "f80_of_int (sint (le_word 4 ?c :: i32))"] exI [of _ "sint (le_word 4 ?c :: i32)"])
        (simp add: cell_value_def v operand_value_def typed_cell_def int_typed_def int_width_def)
  next
    case False
    have b: "- (2 ^ 63) \<le> sint (le_word 8 ?c :: i64)" "sint (le_word 8 ?c :: i64) < 2 ^ 63"
      using sint_ge [of "le_word 8 ?c :: i64"] sint_lt [of "le_word 8 ?c :: i64"] by simp_all
    then have "\<bar>sint (le_word 8 ?c :: i64)\<bar> < 2 ^ 64" by simp
    from is_int80_of_int [OF this] show ?thesis using e b False ty
      by (intro exI [of _ "cell_value ty ?c"] exI [of _ "f80_of_int (sint (le_word 8 ?c :: i64))"] exI [of _ "sint (le_word 8 ?c :: i64)"])
        (simp add: cell_value_def v operand_value_def typed_cell_def int_typed_def int_width_def)
  qed
next
  case (ExecLiteral w wt)
  then obtain k where k: "TryCoerceExact w ty = Some k" "v = OpConstant ty k"
    using op by (auto simp: ClassifyOperand_def split: option.splits)
  have w: "literal_value_ok w" using ok ExecLiteral by simp
  note key = TryCoerceExact_value [OF k(1) w] and kt = TryCoerceExact_type [OF k(1)]
  obtain x where x: "ExecValueAsNumber w = Inr x" using key by (auto simp: is_number_def split: sum.splits)
  have e: "Eval e batch row = Inr w" by (simp add: ExecLiteral)
  obtain i where i: "k = int_typed ty i" "- int_width ty \<le> i" "i < int_width ty" "ExecValueAsNumber (as_exec k) = Inr (f80_of_int i)"
  proof (cases "ty = DT_INT32")
    case True
    then obtain u :: i32 where "k = TV_i32 u" using kt by (cases k) auto
    then show thesis using True sint_ge [of u] sint_lt [of u]
      by (intro that [of "sint u"]) (simp_all add: int_typed_def int_width_def as_exec_def)
  next
    case False
    then obtain u :: i64 where "k = TV_i64 u" using kt ty by (cases k) auto
    then show thesis using False sint_ge [of u] sint_lt [of u]
      by (intro that [of "sint u"]) (simp_all add: int_typed_def int_width_def as_exec_def)
  qed
  have "\<bar>i\<bar> < 2 ^ 64" using i(2,3) int_width_le [of ty] by simp
  moreover have "ieee_key x = ieee_key (f80_of_int i)" using key x i(4) by (simp add: num_key_def)
  ultimately have "is_int80 i x" using is_int80_key is_int80_of_int by blast
  then show ?thesis using e x i(1-3) by (auto simp: k(2) operand_value_def)
qed (use op in \<open>auto simp: ClassifyOperand_def\<close>)

lemma output_bytes_int:
  assumes "ty = DT_INT32 \<or> ty = DT_INT64" "is_int80 n x"
  shows "bind_r (CastNumber x ty) (output_bytes ty) =
    (if n < - int_width ty \<or> int_width ty \<le> n then Inl Undefined_behaviour else Inr (typed_bytes (int_typed ty n)))"
proof (cases "n < - int_width ty \<or> int_width ty \<le> n")
  case True
  then show ?thesis using assms is_int80_trunc [OF assms(2)] by (auto simp: CastNumber_def int_width_def)
next
  case False
  then have n: "- int_width ty \<le> n" "n < int_width ty" by simp_all
  then have "\<bar>n\<bar> < 2 ^ 64" using int_width_le [of ty] by simp
  from is_int80_trunc [OF is_int80_of_int [OF this]]
  have t: "f80_to_int (int_width ty) (f80_of_int n) = Inr n" "f80_to_int (int_width ty) x = Inr n"
    using False is_int80_trunc [OF assms(2)] by simp_all
  show ?thesis
  proof (cases "ty = DT_INT32")
    case True
    then show ?thesis using t n False sint_int_width(1) [OF True n]
      by (simp add: CastNumber_def output_bytes_def int_width_def typed_bytes_def int_typed_def)
  next
    case F: False
    then show ?thesis using assms(1) t n False sint_int_width(2) [OF F n]
      by (auto simp: CastNumber_def output_bytes_def int_width_def typed_bytes_def int_typed_def)
  qed
qed

lemma ArithmeticTypedValue_int:
  assumes "ty = DT_INT32 \<or> ty = DT_INT64" "- int_width ty \<le> a" "a < int_width ty" "- int_width ty \<le> b" "b < int_width ty"
  shows "ArithmeticTypedValue (int_typed ty a) op (int_typed ty b) =
    bind_r (int_arithmetic (int_width ty) op a b) (\<lambda>r. Inr (int_typed ty r))"
proof (cases "ty = DT_INT32")
  case True
  then show ?thesis using sint_int_width(1) [OF True assms(2,3)] sint_int_width(1) [OF True assms(4,5)]
    by (simp add: ArithmeticTypedValue_def int_typed_def int_width_def)
next
  case False
  then show ?thesis using sint_int_width(2) [OF False assms(2,3)] sint_int_width(2) [OF False assms(4,5)]
    by (simp add: ArithmeticTypedValue_def int_typed_def int_width_def)
qed

lemma Eval_arithmetic:
  assumes "Eval l batch row = Inr u" "Eval r batch row = Inr w" "ExecValueAsNumber u = Inr x" "ExecValueAsNumber w = Inr y"
  shows "Eval (ExecBinary P_ADD l r ty) batch row = CastNumber (f80_add x y) ty"
    "Eval (ExecBinary P_SUB l r ty) batch row = CastNumber (f80_sub x y) ty"
  using assms by simp_all

lemma evaluate_cells_rows:
  assumes ok: "expr_ok n rows batch l" "expr_ok n rows batch r" and ty: "numeric_type ty"
    and l: "ClassifyOperand l ty = Some lhs" and r: "ClassifyOperand r ty = Some rhs" and some: "is_column lhs \<or> is_column rhs"
  shows "evaluate_cells \<lparr>ve_op = op, ve_lhs = lhs, ve_rhs = rhs, ve_type = ty\<rparr> batch n =
    map_r (\<lambda>i. bind_r (operand_value lhs batch i) (\<lambda>a. bind_r (operand_value rhs batch i) (\<lambda>b.
      bind_r (ArithmeticTypedValue a op b) (\<lambda>v. Inr (typed_bytes v))))) [0..<n]"
proof -
  have ptr: "ColumnDataPtr batch ty n slot = Inr (cd_buffer (vb_columns batch ! slot)) \<and> vt = ty"
    if "expr_ok n rows batch e" "ClassifyOperand e ty = Some (OpColumn vt slot)" for e slot vt
    using that by (cases e) (auto simp: ClassifyOperand_def ColumnDataPtr_def readable_column_def column_ok_def split: if_splits option.splits)
  have typed: "\<exists>v. typed_cell ty c = Inr v" for c using ty by (auto simp: numeric_type_def typed_cell_def)
  show ?thesis
  proof (cases lhs)
    case (OpColumn lt a)
    note L = ptr [OF ok(1) l [unfolded OpColumn]]
    show ?thesis
    proof (cases rhs)
      case R: (OpColumn rt b)
      note R' = ptr [OF ok(2) r [unfolded R]]
      show ?thesis using L R' ty
        by (simp add: OpColumn R evaluate_cells_def ArithmeticColumnScalar_def operand_value_def)
    next
      case R: (OpConstant rt k)
      then show ?thesis using L ty
        by (simp add: OpColumn evaluate_cells_def ArithmeticConstScalar_def operand_value_def)
    qed
  next
    case (OpConstant lt k)
    then obtain rt b where R: "rhs = OpColumn rt b" using some by (cases rhs) auto
    note R' = ptr [OF ok(2) r [unfolded R]]
    show ?thesis using R' ty
      by (simp add: OpConstant R evaluate_cells_def ArithmeticConstScalar_def operand_value_def)
  qed
qed

lemma integer_row_exact:
  assumes "expr_ok n rows batch l" "expr_ok n rows batch r" "ty = DT_INT32 \<or> ty = DT_INT64" "row < n"
    "ClassifyOperand l ty = Some lhs" "ClassifyOperand r ty = Some rhs" "op = P_ADD \<and> aop = A_ADD \<or> op = P_SUB \<and> aop = A_SUB"
  shows "bind_r (operand_value lhs batch row) (\<lambda>a. bind_r (operand_value rhs batch row) (\<lambda>b.
      bind_r (ArithmeticTypedValue a aop b) (\<lambda>v. Inr (typed_bytes v)))) =
    bind_r (Eval (ExecBinary op l r ty) batch row) (output_bytes ty)"
proof -
  obtain u x a where l: "Eval l batch row = Inr u" "ExecValueAsNumber u = Inr x" "is_int80 a x"
    "operand_value lhs batch row = Inr (int_typed ty a)" "- int_width ty \<le> a" "a < int_width ty"
    using int_operand [OF assms(1,5,3,4)] by blast
  obtain w y b where r: "Eval r batch row = Inr w" "ExecValueAsNumber w = Inr y" "is_int80 b y"
    "operand_value rhs batch row = Inr (int_typed ty b)" "- int_width ty \<le> b" "b < int_width ty"
    using int_operand [OF assms(2,6,3,4)] by blast
  have "\<bar>a + b\<bar> \<le> 2 ^ 64" "\<bar>a - b\<bar> \<le> 2 ^ 64" using l(5,6) r(5,6) int_width_le [of ty] by simp_all
  note s = is_int80_add [OF l(3) r(3) this(1)] and d = is_int80_sub [OF l(3) r(3) this(2)]
  show ?thesis
    using assms(7) output_bytes_int [OF assms(3) s] output_bytes_int [OF assms(3) d]
    by (auto simp: l(4) r(4) Eval_arithmetic [OF l(1) r(1) l(2) r(2)] ArithmeticTypedValue_int [OF assms(3) l(5,6) r(5,6)] int_arithmetic_def Let_def
        simp del: Eval.simps)
qed

text \<open>All rows of a dense batch.  A signed sum that overflows is undefined behaviour in C++, and the scalar path fails there too: its
  cast is out of range.  (The comment of \<^verbatim>\<open>src/src/simd/arithmetic_kernel.h\<close> promises wrap-around instead.)
\<close>

lemma integer_vector_rows:
  assumes "TryCompileVectorExpression e = Some ve" "expr_ok n rows batch e" "Exec_GetReturnType e = DT_INT32 \<or> Exec_GetReturnType e = DT_INT64"
    and "cd_type out = Exec_GetReturnType e" "column_ok n out"
  shows "EvaluateDense ve batch out n =
    bind_r (map_r (\<lambda>row. bind_r (Eval e batch row) (output_bytes (Exec_GetReturnType e))) [0..<n])
      (\<lambda>cs. Inr (out\<lparr>cd_buffer := concat cs\<rparr>))"
proof -
  obtain op l r ty aop lhs rhs where e: "e = ExecBinary op l r ty" "op = P_ADD \<and> aop = A_ADD \<or> op = P_SUB \<and> aop = A_SUB"
    "numeric_type ty" "ClassifyOperand l ty = Some lhs" "ClassifyOperand r ty = Some rhs" "is_column lhs \<or> is_column rhs"
    "ve = \<lparr>ve_op = aop, ve_lhs = lhs, ve_rhs = rhs, ve_type = ty\<rparr>"
    using assms(1) by (auto simp: TryCompileVectorExpression_def split: exec_expr.splits plan_binary_op.splits option.splits if_splits)
  have ok: "expr_ok n rows batch l" "expr_ok n rows batch r" using assms(2) e(1) by simp_all
  have ty: "ty = DT_INT32 \<or> ty = DT_INT64" using assms(3) by (simp add: e(1))
  have cells: "evaluate_cells ve batch n = map_r (\<lambda>row. bind_r (Eval e batch row) (output_bytes ty)) [0..<n]"
    unfolding e(7) evaluate_cells_rows [OF ok e(3-6)]
    by (rule map_r_cong [OF refl]) (use integer_row_exact [OF ok ty _ e(4,5,2)] in \<open>simp add: e(1) del: Eval.simps\<close>)
  have len: "length (cd_buffer out) = n * TypeElemSize ty" "cd_type out = ty"
    using assms(4,5) by (simp_all add: column_ok_def e(1))
  show ?thesis
  proof (cases "n = 0")
    case True
    then have "out\<lparr>cd_buffer := []\<rparr> = out" using len by simp
    then show ?thesis using True by (simp add: EvaluateDense_def)
  next
    case False
    then show ?thesis using cells len by (simp add: EvaluateDense_def e(1,7))
  qed
qed

text \<open>C19: on INT32 and INT64, when no row overflows, the column expression stores row by row exactly the bytes \<open>cs\<close> that the
  scalar evaluation in \<open>long double\<close> followed by the cast to the output type stores.
\<close>

theorem integer_vector_expression_exact:
  assumes "TryCompileVectorExpression e = Some ve" "expr_ok n rows batch e" "Exec_GetReturnType e = DT_INT32 \<or> Exec_GetReturnType e = DT_INT64"
    and "cd_type out = Exec_GetReturnType e" "column_ok n out"
    and "map_r (\<lambda>row. bind_r (Eval e batch row) (output_bytes (Exec_GetReturnType e))) [0..<n] = Inr cs"
  shows "EvaluateDense ve batch out n = Inr (out\<lparr>cd_buffer := concat cs\<rparr>)"
  unfolding integer_vector_rows [OF assms(1-5)] assms(6) by simp

subsection \<open>Sums of doubles are rounded twice on one path\<close>

lemma rhe_scale: "0 < k \<Longrightarrow> rhe (p * k) (q * k) = rhe p q"
  unfolding rhe_def Let_def by (simp add: mod_mult_mult2 mult.assoc [symmetric])

lemma fp_round_scale: "0 < k \<Longrightarrow> fp_round m (p * k) (q * k) = fp_round m p q"
proof -
  assume k: "0 < k"
  have "rhe (p * k) (q * k * j) = rhe p (q * j)" for j using rhe_scale [OF k, of p "q * j"] by (simp add: mult.assoc mult.commute mult.left_commute)
  then show ?thesis using rhe_scale [OF k] k by (simp add: fp_round_def Let_def)
qed

lemma ilog2_shift: "0 < n \<Longrightarrow> ilog2 (n * 2 ^ k) = ilog2 n + k"
  by (rule ilog2_unique) (use ilog2_bounds [of n] in \<open>auto simp: power_add\<close>)

text \<open>\<open>2 ^ 65\<close> and \<open>2 ^ 12 + 1\<close> least doubles: the sum is just above the middle of two doubles.\<close>

definition big_double :: f64 where "big_double = 0x00E0000000000000"
definition small_double :: f64 where "small_double = 0x1001"

lemma example_units:
  "ieee_mag big_double < ieee_inf 52 TYPE(64)" "ieee_units 52 big_double = 2 ^ 65" "\<not> ieee_neg big_double" "\<not> f64_nan big_double"
  "ieee_mag small_double < ieee_inf 52 TYPE(64)" "ieee_units 52 small_double = 4097" "\<not> ieee_neg small_double" "\<not> f64_nan small_double"
  "ieee_mag big_double = 14 * 2 ^ 52"
  by (simp_all add: big_double_def small_double_def ieee_mag_def ieee_inf_def ieee_units_def ieee_neg_def fp_val_def Let_def ieee_nan_def)

lemma ilog2_sum: "ilog2 (2 ^ 65 + 4097) = 65" "ilog2 (2 ^ 65 + 4096) = 65"
  by (rule ilog2_unique; simp)+

lemma example_kernel: "ieee_add 52 big_double small_double = big_double + 1"
proof -
  have r: "fp_round 52 (2 ^ 65 + 4097) 1 = 14 * 2 ^ 52 + 1"
    using ilog2_sum by (simp add: fp_round_def Let_def rhe_def)
  have "ieee_add 52 big_double small_double = ieee_round 52 False (2 ^ 65 + 4097) 1"
    using example_units by (simp add: ieee_add_def Let_def)
  also have "\<dots> = ieee_make False (14 * 2 ^ 52 + 1)"
    unfolding ieee_round_def r by (simp add: ieee_inf_def)
  finally show ?thesis by (simp add: ieee_make_def big_double_def)
qed

lemma example_scalar: "f64_of_f80 (f80_add (f80_of_f64 big_double) (f80_of_f64 small_double)) = big_double"
proof -
  let ?x = "f80_of_f64 big_double" and ?y = "f80_of_f64 small_double"
  let ?k = "(2 :: nat) ^ f64_shift"
  note X = widen_mag_finite [OF f64_fits_f80 example_units(1)] and Y = widen_mag_finite [OF f64_fits_f80 example_units(5)]
  note x = ieee_widen_sel [OF f64_fits_f80 example_units(4), folded f80_of_f64_def]
    and y = ieee_widen_sel [OF f64_fits_f80 example_units(8), folded f80_of_f64_def]
  have fin: "ieee_mag ?x \<noteq> ieee_inf 63 TYPE(79)" "ieee_mag ?y \<noteq> ieee_inf 63 TYPE(79)" using X(2) Y(2) x(1) y(1) by simp_all
  have units: "ieee_units 63 ?x + ieee_units 63 ?y = (2 ^ 65 + 4097) * 2 ^ f64_shift"
    unfolding f80_units_f64 [OF example_units(1)] f80_units_f64 [OF example_units(5)] example_units by (simp only: distrib_right)
  have pos: "(0 :: int) < (2 ^ 65 + 4097) * 2 ^ f64_shift" by (rule mult_pos_pos) simp_all
  have nat: "nat \<bar>(2 ^ 65 + 4097) * 2 ^ f64_shift\<bar> = (2 ^ 65 + 4097) * ?k"
    using pos by (simp add: nat_mult_distrib nat_power_eq)
  define s where "s = f80_add ?x ?y"
  have "s = ieee_round 63 False ((2 ^ 65 + 4097) * ?k) 1"
    unfolding s_def f80_add_def ieee_add_def Let_def units nat using x(3) y(3) fin pos
    by (simp only: if_False less_imp_neq [symmetric] not_less_iff_gr_or_eq less_imp_not_less) simp
  moreover have r: "fp_round 63 ((2 ^ 65 + 4097) * ?k) 1 = (f64_shift + 3) * 2 ^ 63 + 1024"
  proof -
    have log: "ilog2 ((2 ^ 65 + 4097) * ?k) = 65 + f64_shift" using ilog2_shift [of "2 ^ 65 + 4097" f64_shift] by (simp add: ilog2_sum [simplified])
    have k: "0 < ?k" by simp
    have big: "\<not> (2 ^ 65 + 4097) * ?k < 2 ^ Suc 63"
    proof -
      have "(2 :: nat) ^ Suc 63 \<le> (2 ^ 65 + 4097) * 1" by simp
      also have "\<dots> \<le> (2 ^ 65 + 4097) * ?k" using k by (intro mult_left_mono) simp_all
      finally show ?thesis by (simp only: not_less)
    qed
    have "rhe ((2 ^ 65 + 4097) * ?k) (1 * 2 ^ (65 + f64_shift - 63)) = rhe ((2 ^ 65 + 4097) * ?k) (4 * ?k)"
      by (rule arg_cong [of _ _ "rhe _"]) simp
    also have "\<dots> = rhe (2 ^ 65 + 4097) 4" by (rule rhe_scale [OF k])
    also have "\<dots> = 2 ^ 63 + 1024" by (simp add: rhe_def)
    finally show ?thesis using big by (simp only: fp_round_def Let_def div_by_1 log if_False) (simp add: algebra_simps)
  qed
  ultimately have mag: "ieee_mag s = (f64_shift + 3) * 2 ^ 63 + 1024" "\<not> ieee_neg s" by (simp_all add: ieee_inf_def f64_shift_def)
  then have v: "fp_val 63 (ieee_mag s) = (2 ^ 65 + 4096) * ?k"
    by (simp add: fp_val_def Let_def)
  have n: "\<not> f80_nan s" "ieee_mag s \<noteq> ieee_inf 63 TYPE(79)" using mag(1) by (simp_all add: ieee_nan_def ieee_inf_def f64_shift_def)
  have "fp_round 52 ((2 ^ 65 + 4096) * ?k) (1 * ?k) = fp_round 52 (2 ^ 65 + 4096) 1" by (rule fp_round_scale) simp
  also have "\<dots> = 14 * 2 ^ 52" using ilog2_sum by (simp add: fp_round_def Let_def rhe_def)
  finally have "f64_of_f80 s = ieee_make False (14 * 2 ^ 52)"
    using n mag(2) by (simp only: f64_of_f80_def ieee_narrow_def if_False v ieee_round_def mult_1) (simp add: ieee_inf_def)
  then show ?thesis by (simp add: s_def ieee_make_def big_double_def)
qed

definition double_batch :: vector_batch where
  "double_batch = \<lparr>vb_columns = [\<lparr>cd_type = DT_DOUBLE, cd_buffer = le_bytes 8 big_double, cd_count = 1, cd_is_view = False\<rparr>,
                                \<lparr>cd_type = DT_DOUBLE, cd_buffer = le_bytes 8 small_double, cd_count = 1, cd_is_view = False\<rparr>],
                  vb_size = 1, vb_selection = SetAll 1\<rparr>"

definition double_sum :: exec_expr where
  "double_sum = ExecBinary P_ADD (ExecColumnRef 0 DT_DOUBLE) (ExecColumnRef 1 DT_DOUBLE) DT_DOUBLE"

text \<open>
  C0: for DOUBLE the two paths differ: a kernel rounds the sum once, the scalar path first to \<open>long double\<close>
  and then again to \<open>double\<close>, and the results can be one unit apart.
\<close>

theorem double_addition_depends_on_path:
  "Eval double_sum double_batch 0 = Inr (EV_double big_double)"
  "\<exists>ve. TryCompileVectorExpression double_sum = Some ve \<and> evaluate_cells ve double_batch 1 = Inr [le_bytes 8 (big_double + 1)]"
proof -
  have c: "le_word 8 (cell 8 (le_bytes 8 w) 0) = w" for w :: f64
    by (simp add: cell_def le_word_le_bytes [of 8 _ "[]", simplified])
  show "Eval double_sum double_batch 0 = Inr (EV_double big_double)"
    by (simp add: double_sum_def double_batch_def ReadExecValue_def c CastNumber_def example_scalar)
  show "\<exists>ve. TryCompileVectorExpression double_sum = Some ve \<and> evaluate_cells ve double_batch 1 = Inr [le_bytes 8 (big_double + 1)]"
    by (simp add: double_sum_def double_batch_def TryCompileVectorExpression_def ClassifyOperand_def numeric_type_def evaluate_cells_def
        ColumnDataPtr_def ArithmeticColumnScalar_def typed_cell_def c ArithmeticTypedValue_def example_kernel typed_bytes_def)
qed

end
