(* ===== verification/Lexer.thy ===== *)
theory Lexer
  imports Types "HOL-Library.Sublist"
begin

text \<open>
  \<^verbatim>\<open>src/src/sql/token.h\<close> and \<^verbatim>\<open>src/src/sql/lexer/\<close>: SQL text to tokens.  The position
  \<open>curridx_\<close> is the state; \<open>next_token\<close> calls itself in two places, and one of them does not
  advance, so the function is partial: \<open>None\<close> is a call that never returns.
\<close>

subsection \<open>Tokens\<close>

datatype token_type =
    TK_END
  | TK_IDENTIFIER | TK_INTEGER | TK_FLOAT | TK_STRING
  | TK_SELECT | TK_FROM | TK_WHERE | TK_GROUP | TK_BY | TK_CREATE | TK_TABLE | TK_PRIMARY
  | TK_KEY | TK_INSERT | TK_INTO | TK_VALUES | TK_AS
  | TK_SUM | TK_COUNT | TK_AVG | TK_MIN | TK_MAX
  | TK_STAR | TK_COMMA | TK_SEMICOLON | TK_LPAREN | TK_RPAREN
  | TK_EQ | TK_NE | TK_LT | TK_LE | TK_GT | TK_GE | TK_PLUS | TK_MINUS | TK_MUL | TK_DIV
  | TK_AND | TK_OR

record token =
  tok_type :: token_type
  tok_text :: string
  tok_idx :: nat

definition mk_token :: "token_type \<Rightarrow> string \<Rightarrow> nat \<Rightarrow> token" where
  "mk_token t s i = \<lparr>tok_type = t, tok_text = s, tok_idx = i\<rparr>"

lemma mk_token_sel [simp]:
  "tok_type (mk_token t s i) = t" "tok_text (mk_token t s i) = s" "tok_idx (mk_token t s i) = i"
  by (simp_all add: mk_token_def)

subsection \<open>Character classes (\<open>isalpha\<close> and its kin in the C locale)\<close>

definition is_digit :: "char \<Rightarrow> bool" where
  "is_digit c \<longleftrightarrow> CHR ''0'' \<le> c \<and> c \<le> CHR ''9''"

definition is_alpha :: "char \<Rightarrow> bool" where
  "is_alpha c \<longleftrightarrow> CHR ''A'' \<le> c \<and> c \<le> CHR ''Z'' \<or> CHR ''a'' \<le> c \<and> c \<le> CHR ''z''"

definition is_alnum :: "char \<Rightarrow> bool" where
  "is_alnum c \<longleftrightarrow> is_alpha c \<or> is_digit c"

definition is_space :: "char \<Rightarrow> bool" where
  "is_space c \<longleftrightarrow> c = CHR '' '' \<or> CHR 0x09 \<le> c \<and> c \<le> CHR 0x0D"

definition ident_start :: "char \<Rightarrow> bool" where
  "ident_start c \<longleftrightarrow> is_alpha c \<or> c = CHR ''_''"

definition ident_char :: "char \<Rightarrow> bool" where
  "ident_char c \<longleftrightarrow> is_alnum c \<or> c = CHR ''_''"

subsection \<open>Scanning loops\<close>

text \<open>\<open>while (curridx_ < sql_.size() && p(sql_[curridx_])) curridx_++\<close>\<close>

function scan_while :: "(char \<Rightarrow> bool) \<Rightarrow> string \<Rightarrow> nat \<Rightarrow> nat" where
  "scan_while p s i = (if i < length s \<and> p (s ! i) then scan_while p s (Suc i) else i)"
  by pat_completeness auto
termination
  by (relation "measure (\<lambda>(p, s, i). length s - i)") auto

declare scan_while.simps [simp del]

function scan_number :: "string \<Rightarrow> nat \<Rightarrow> bool \<Rightarrow> nat \<times> bool" where
  "scan_number s i is_float =
     (if i < length s then
        if is_digit (s ! i) then scan_number s (Suc i) is_float
        else if s ! i = CHR ''.'' \<and> \<not> is_float then scan_number s (Suc i) True
        else (i, is_float)
      else (i, is_float))"
  by pat_completeness auto
termination
  by (relation "measure (\<lambda>(s, i, f). length s - i)") auto

declare scan_number.simps [simp del]

definition SkipWhitespace :: "string \<Rightarrow> nat \<Rightarrow> nat" where
  "SkipWhitespace s i = scan_while is_space s i"

definition substr :: "string \<Rightarrow> nat \<Rightarrow> nat \<Rightarrow> string" where
  "substr s start stop = take (stop - start) (drop start s)"

definition keyword_type :: "string \<Rightarrow> token_type" where
  "keyword_type text =
     (if text = ''SELECT'' then TK_SELECT
      else if text = ''FROM'' then TK_FROM
      else if text = ''WHERE'' then TK_WHERE
      else if text = ''GROUP'' then TK_GROUP
      else if text = ''BY'' then TK_BY
      else if text = ''CREATE'' then TK_CREATE
      else if text = ''TABLE'' then TK_TABLE
      else if text = ''PRIMARY'' then TK_PRIMARY
      else if text = ''KEY'' then TK_KEY
      else if text = ''INSERT'' then TK_INSERT
      else if text = ''INTO'' then TK_INTO
      else if text = ''VALUES'' then TK_VALUES
      else if text = ''AS'' then TK_AS
      else if text = ''AND'' then TK_AND
      else if text = ''OR'' then TK_OR
      else TK_IDENTIFIER)"

definition ReadIdentifierOrKeyword :: "string \<Rightarrow> nat \<Rightarrow> token \<times> nat" where
  "ReadIdentifierOrKeyword s start =
     (let stop = scan_while ident_char s start; text = substr s start stop
      in (mk_token (keyword_type text) text start, stop))"

definition ReadNumber :: "string \<Rightarrow> nat \<Rightarrow> token \<times> nat" where
  "ReadNumber s start =
     (let (stop, is_float) = scan_number s start False; text = substr s start stop
      in (mk_token (if \<not> is_float then TK_INTEGER else TK_FLOAT) text start, stop))"

definition ReadString :: "string \<Rightarrow> nat \<Rightarrow> token \<times> nat" where
  "ReadString s i =
     (let start = Suc i; stop = scan_while (\<lambda>c. c \<noteq> CHR 0x27) s start
      in (mk_token TK_STRING (substr s start stop) start, if stop < length s then Suc stop else stop))"

text \<open>The punctuation \<open>switch\<close>: what the case for \<open>c\<close> does at position \<open>i\<close>.\<close>

datatype punct =
    Punct token_type string nat  \<comment> \<open>a token and the characters it takes\<close>
  | Punct_again                  \<comment> \<open>\<open>--\<close>: call \<open>NextToken\<close> at the same position\<close>
  | Punct_skip                   \<comment> \<open>an unknown character: skip it and call \<open>NextToken\<close>\<close>

definition followed_by :: "string \<Rightarrow> nat \<Rightarrow> char \<Rightarrow> bool" where
  "followed_by s i c \<longleftrightarrow> i + 1 < length s \<and> s ! (i + 1) = c"

definition punctuation :: "string \<Rightarrow> nat \<Rightarrow> punct" where
  "punctuation s i =
     (let c = s ! i in
      if c = CHR ''('' then Punct TK_LPAREN ''('' 1
      else if c = CHR '')'' then Punct TK_RPAREN '')'' 1
      else if c = CHR '','' then Punct TK_COMMA '','' 1
      else if c = CHR '';'' then Punct TK_SEMICOLON '';'' 1
      else if c = CHR ''*'' then Punct TK_STAR ''*'' 1
      else if c = CHR ''+'' then Punct TK_PLUS ''+'' 1
      else if c = CHR ''-'' then
        (if followed_by s i (CHR ''-'') then Punct_again else Punct TK_MINUS ''-'' 1)
      else if c = CHR ''='' then Punct TK_EQ ''='' 1
      else if c = CHR ''<'' then
        (if followed_by s i (CHR ''='') then Punct TK_LE ''<='' 2 else Punct TK_LT ''<'' 1)
      else if c = CHR ''>'' then
        (if followed_by s i (CHR ''='') then Punct TK_GE ''>='' 2 else Punct TK_GT ''>'' 1)
      else if c = CHR ''!'' then
        (if followed_by s i (CHR ''='') then Punct TK_NE ''!='' 2 else Punct TK_END '''' 1)
      else Punct_skip)"

partial_function (option) NextToken :: "string \<Rightarrow> nat \<Rightarrow> (token \<times> nat) option" where
  "NextToken s i0 =
     (if SkipWhitespace s i0 \<ge> length s then Some (mk_token TK_END '''' (SkipWhitespace s i0), SkipWhitespace s i0)
      else if ident_start (s ! SkipWhitespace s i0) then Some (ReadIdentifierOrKeyword s (SkipWhitespace s i0))
      else if is_digit (s ! SkipWhitespace s i0) then Some (ReadNumber s (SkipWhitespace s i0))
      else if s ! SkipWhitespace s i0 = CHR 0x27 then Some (ReadString s (SkipWhitespace s i0))
      else (case punctuation s (SkipWhitespace s i0) of
              Punct t text n \<Rightarrow> Some (mk_token t text (SkipWhitespace s i0), SkipWhitespace s i0 + n)
            | Punct_again \<Rightarrow> NextToken s (SkipWhitespace s (SkipWhitespace s i0))
            | Punct_skip \<Rightarrow> NextToken s (Suc (SkipWhitespace s i0))))"

partial_function (option) Tokenize :: "string \<Rightarrow> nat \<Rightarrow> token list option" where
  "Tokenize s i =
     Option.bind (NextToken s i) (\<lambda>(t, j).
       if tok_type t = TK_END then Some [t]
       else Option.bind (Tokenize s j) (\<lambda>ts. Some (t # ts)))"

definition Lex :: "string \<Rightarrow> token list option" where
  "Lex sql = Tokenize sql 0"

subsection \<open>The loops in closed form\<close>

lemma scan_while_eq: "i \<le> length s \<Longrightarrow> scan_while p s i = i + length (takeWhile p (drop i s))"
proof (induction p s i rule: scan_while.induct)
  case (1 p s i)
  show ?case
  proof (cases "i < length s")
    case True
    then have "drop i s = s ! i # drop (Suc i) s" by (simp add: Cons_nth_drop_Suc)
    then show ?thesis using 1 True by (simp add: scan_while.simps [of p s i])
  next
    case False
    with "1.prems" show ?thesis by (subst scan_while.simps) simp
  qed
qed

lemma scan_while_bounds: "i \<le> length s \<Longrightarrow> i \<le> scan_while p s i \<and> scan_while p s i \<le> length s"
  using length_takeWhile_le [of p "drop i s"] by (simp add: scan_while_eq)

lemma scan_while_stop: "scan_while p s i < length s \<Longrightarrow> \<not> p (s ! scan_while p s i)"
proof (induction p s i rule: scan_while.induct)
  case (1 p s i)
  then show ?case by (cases "i < length s \<and> p (s ! i)") (auto simp: scan_while.simps [of p s i])
qed

lemma scan_number_bounds: "i \<le> length s \<Longrightarrow> i \<le> fst (scan_number s i f) \<and> fst (scan_number s i f) \<le> length s"
proof (induction s i f rule: scan_number.induct)
  case (1 s i f)
  then show ?case by (subst (1 2) scan_number.simps) (auto simp: Suc_le_eq dest: Suc_leD)
qed

lemma SkipWhitespace_idem: "i \<le> length s \<Longrightarrow> SkipWhitespace s (SkipWhitespace s i) = SkipWhitespace s i"
proof -
  assume "i \<le> length s"
  then have "SkipWhitespace s i \<le> length s" by (simp add: SkipWhitespace_def scan_while_bounds)
  then show ?thesis
    using scan_while_stop [of is_space s i]
    by (subst (1) SkipWhitespace_def) (auto simp: SkipWhitespace_def scan_while.simps [of is_space s "scan_while is_space s i"])
qed

subsection \<open>Progress\<close>

lemma ident_start_char: "ident_start c \<Longrightarrow> ident_char c"
  by (auto simp: ident_start_def ident_char_def is_alnum_def)

lemma keyword_type_not_END [simp]: "keyword_type text \<noteq> TK_END"
  by (simp add: keyword_type_def)

lemma ReadIdentifier_progress:
  assumes "i < length s" "ident_start (s ! i)" "ReadIdentifierOrKeyword s i = (t, j)"
  shows "i < j \<and> j \<le> length s \<and> tok_type t \<noteq> TK_END"
proof -
  have "scan_while ident_char s i = scan_while ident_char s (Suc i)"
    using assms(1,2) by (subst scan_while.simps) (simp add: ident_start_char)
  then show ?thesis
    using assms scan_while_bounds [of "Suc i" s ident_char]
    by (auto simp: ReadIdentifierOrKeyword_def Let_def)
qed

lemma ReadNumber_progress:
  assumes "i < length s" "is_digit (s ! i)" "ReadNumber s i = (t, j)"
  shows "i < j \<and> j \<le> length s \<and> tok_type t \<noteq> TK_END"
proof -
  have "scan_number s i False = scan_number s (Suc i) False"
    using assms(1,2) by (subst scan_number.simps) simp
  then show ?thesis
    using assms scan_number_bounds [of "Suc i" s False]
    by (auto simp: ReadNumber_def Let_def split: prod.splits if_splits)
qed

lemma ReadString_progress:
  assumes "i < length s" "ReadString s i = (t, j)"
  shows "i < j \<and> j \<le> length s \<and> tok_type t \<noteq> TK_END"
  using assms scan_while_bounds [of "Suc i" s "\<lambda>c. c \<noteq> CHR 0x27"]
  by (auto simp: ReadString_def Let_def split: if_splits)

lemma punctuation_progress:
  assumes "i < length s" "punctuation s i = Punct t text n"
  shows "0 < n \<and> i + n \<le> length s"
  using assms by (auto simp: punctuation_def Let_def followed_by_def split: if_splits)

lemma SkipWhitespace_bounds: "i \<le> length s \<Longrightarrow> i \<le> SkipWhitespace s i \<and> SkipWhitespace s i \<le> length s"
  by (simp add: SkipWhitespace_def scan_while_bounds)

text \<open>
  What the body of \<open>NextToken\<close> does once the blanks are skipped, with the two self-calls
  replaced by \<open>again\<close>: the unfolding equation, read as a step.
\<close>

definition token_at :: "(nat \<Rightarrow> (token \<times> nat) option) \<Rightarrow> string \<Rightarrow> nat \<Rightarrow> (token \<times> nat) option" where
  "token_at again s k =
     (if k \<ge> length s then Some (mk_token TK_END '''' k, k)
      else if ident_start (s ! k) then Some (ReadIdentifierOrKeyword s k)
      else if is_digit (s ! k) then Some (ReadNumber s k)
      else if s ! k = CHR 0x27 then Some (ReadString s k)
      else (case punctuation s k of
              Punct t text n \<Rightarrow> Some (mk_token t text k, k + n)
            | Punct_again \<Rightarrow> again (SkipWhitespace s k)
            | Punct_skip \<Rightarrow> again (Suc k)))"

lemma NextToken_unfold: "NextToken s i = token_at (NextToken s) s (SkipWhitespace s i)"
  unfolding token_at_def by (rule NextToken.simps)

lemma NextToken_raw_induct:
  assumes "\<And>NT s i r. (\<And>s i r. NT s i = Some r \<Longrightarrow> P s i r) \<Longrightarrow>
      token_at (NT s) s (SkipWhitespace s i) = Some r \<Longrightarrow> P s i r"
    and "NextToken s i = Some r"
  shows "P s i r"
proof (rule NextToken.raw_induct [where P = P, OF _ assms(2)], goal_cases)
  case (1 NT s i r)
  then show ?case using assms(1) [of NT s i r] by (simp add: token_at_def)
qed

text \<open>A returned token advances the position, and never past the end.\<close>

definition token_advances :: "string \<Rightarrow> nat \<Rightarrow> token \<times> nat \<Rightarrow> bool" where
  "token_advances s i r \<longleftrightarrow> i \<le> snd r \<and> snd r \<le> length s \<and> (tok_type (fst r) \<noteq> TK_END \<longrightarrow> i < snd r)"

lemma token_at_progress:
  assumes "\<And>k r. again k = Some r \<Longrightarrow> k \<le> length s \<Longrightarrow> token_advances s k r"
    "k \<le> length s" "SkipWhitespace s k = k" "token_at again s k = Some (t, j)"
  shows "token_advances s k (t, j)"
proof (cases "k < length s")
  case False
  then show ?thesis using assms(2,4) by (auto simp: token_at_def token_advances_def)
next
  case True
  note prog = ReadIdentifier_progress [OF True, of t j] ReadNumber_progress [OF True, of t j]
    ReadString_progress [OF True, of t j]
  show ?thesis
  proof (cases "ident_start (s ! k) \<or> is_digit (s ! k) \<or> s ! k = CHR 0x27")
    case read: True
    then show ?thesis using prog assms(4) True by (auto simp: token_at_def token_advances_def split: if_splits)
  next
    case False
    then have body: "(case punctuation s k of Punct t text n \<Rightarrow> Some (mk_token t text k, k + n)
        | Punct_again \<Rightarrow> again (SkipWhitespace s k) | Punct_skip \<Rightarrow> again (Suc k)) = Some (t, j)"
      using assms(4) True by (simp add: token_at_def)
    show ?thesis
    proof (cases "punctuation s k")
      case (Punct t' str n)
      then show ?thesis using punctuation_progress [OF True Punct] body
        by (auto simp: token_advances_def)
    next
      case Punct_again
      then show ?thesis using body assms(1) [of k "(t, j)"] assms(2,3) by simp
    next
      case Punct_skip
      then show ?thesis using body assms(1) [of "Suc k" "(t, j)"] True by (simp add: token_advances_def)
    qed
  qed
qed

lemma NextToken_progress:
  assumes "NextToken s i = Some r" "i \<le> length s"
  shows "token_advances s i r"
proof -
  have "i \<le> length s \<longrightarrow> token_advances s i r"
  proof (rule NextToken_raw_induct [where P = "\<lambda>s i r. i \<le> length s \<longrightarrow> token_advances s i r", OF _ assms(1)], rule impI)
    fix NT s i and r :: "token \<times> nat"
    assume "\<And>s i r. NT s i = Some r \<Longrightarrow> i \<le> length s \<longrightarrow> token_advances s i r"
      and "token_at (NT s) s (SkipWhitespace s i) = Some r" and i: "i \<le> length s"
    then have "token_advances s (SkipWhitespace s i) (fst r, snd r)"
      by (intro token_at_progress) (simp_all add: SkipWhitespace_bounds SkipWhitespace_idem)
    then show "token_advances s i r"
      using SkipWhitespace_bounds [OF i] by (auto simp: token_advances_def)
  qed
  with assms(2) show ?thesis by blast
qed

text \<open>A call that lands on two dashes calls itself in the same state.\<close>

definition dashes_at :: "string \<Rightarrow> nat \<Rightarrow> bool" where
  "dashes_at s k \<longleftrightarrow> k + 1 < length s \<and> s ! k = CHR ''-'' \<and> s ! (k + 1) = CHR ''-''"

lemma token_at_dashes:
  assumes "dashes_at s k"
  shows "token_at again s k = again (SkipWhitespace s k)"
proof -
  have "\<not> ident_start (CHR ''-'')" "\<not> is_digit (CHR ''-'')"
    by (simp_all add: ident_start_def is_alpha_def is_digit_def less_eq_char_def)
  then show ?thesis
    using assms by (simp add: token_at_def dashes_at_def punctuation_def followed_by_def)
qed

lemma NextToken_dashes:
  assumes "i \<le> length s" "dashes_at s (SkipWhitespace s i)"
  shows "NextToken s i = None"
proof -
  have again: "SkipWhitespace s (SkipWhitespace s i) = SkipWhitespace s i"
    using assms(1) by (rule SkipWhitespace_idem)
  have never: "\<not> (s' = s \<and> SkipWhitespace s i' = SkipWhitespace s i)" if "NextToken s' i' = Some r" for s' i' r
  proof (rule NextToken_raw_induct [where P = "\<lambda>s' i' r. \<not> (s' = s \<and> SkipWhitespace s i' = SkipWhitespace s i)", OF _ that])
    fix NT s' i' and r :: "token \<times> nat"
    assume IH: "\<And>s' i' r. NT s' i' = Some r \<Longrightarrow> \<not> (s' = s \<and> SkipWhitespace s i' = SkipWhitespace s i)"
      and body: "token_at (NT s') s' (SkipWhitespace s' i') = Some r"
    show "\<not> (s' = s \<and> SkipWhitespace s i' = SkipWhitespace s i)"
    proof
      assume eq: "s' = s \<and> SkipWhitespace s i' = SkipWhitespace s i"
      then have "NT s (SkipWhitespace s i) = Some r"
        using body assms(2) again by (simp add: token_at_dashes)
      from IH [OF this] again show False by simp
    qed
  qed
  show ?thesis using never [of s i] by (cases "NextToken s i") auto
qed

subsection \<open>Every token is a piece of the text\<close>

definition token_ok :: "string \<Rightarrow> nat \<Rightarrow> token \<times> nat \<Rightarrow> bool" where
  "token_ok s i r \<longleftrightarrow> i \<le> tok_idx (fst r) \<and> tok_idx (fst r) \<le> snd r \<and>
     tok_text (fst r) = take (length (tok_text (fst r))) (drop (tok_idx (fst r)) s)"

lemma substr_piece: "i \<le> j \<Longrightarrow> j \<le> length s \<Longrightarrow>
    take (length (substr s i j)) (drop i s) = substr s i j"
  by (simp add: substr_def min_def)

lemma ReadIdentifier_ok:
  "i \<le> length s \<Longrightarrow> token_ok s i (ReadIdentifierOrKeyword s i)"
  using scan_while_bounds [of i s ident_char]
  by (simp add: token_ok_def ReadIdentifierOrKeyword_def Let_def substr_piece)

lemma ReadNumber_ok: "i \<le> length s \<Longrightarrow> token_ok s i (ReadNumber s i)"
  using scan_number_bounds [of i s False]
  by (auto simp: token_ok_def ReadNumber_def substr_piece split: prod.splits)

lemma ReadString_ok: "i < length s \<Longrightarrow> token_ok s i (ReadString s i)"
  using scan_while_bounds [of "Suc i" s "\<lambda>c. c \<noteq> CHR 0x27"]
  by (auto simp: token_ok_def ReadString_def Let_def substr_piece)

lemma take1_drop: "i < length s \<Longrightarrow> take (Suc 0) (drop i s) = [s ! i]"
  by (simp add: take_Suc_conv_app_nth)

lemma take2_drop: "i + 1 < length s \<Longrightarrow> take (Suc (Suc 0)) (drop i s) = [s ! i, s ! (i + 1)]"
  by (simp add: take_Suc_conv_app_nth)

lemma punctuation_ok:
  assumes "i < length s" "punctuation s i = Punct t str n"
  shows "str = take (length str) (drop i s)"
  using assms
  by (auto simp: punctuation_def Let_def followed_by_def take1_drop take2_drop
      simp del: take_all take_all_iff split: if_splits)

lemma token_at_ok:
  assumes "\<And>k r. again k = Some r \<Longrightarrow> k \<le> length s \<Longrightarrow> token_ok s k r"
    "k \<le> length s" "SkipWhitespace s k = k" "token_at again s k = Some r"
  shows "token_ok s k r"
proof (cases "k < length s")
  case False
  then show ?thesis using assms(2,4) by (auto simp: token_at_def token_ok_def)
next
  case True
  show ?thesis
  proof (cases "ident_start (s ! k) \<or> is_digit (s ! k) \<or> s ! k = CHR 0x27")
    case read: True
    then show ?thesis
      using ReadIdentifier_ok [of k s] ReadNumber_ok [of k s] ReadString_ok [OF True] assms(4) True
      by (auto simp: token_at_def split: if_splits)
  next
    case False
    then have body: "(case punctuation s k of Punct t text n \<Rightarrow> Some (mk_token t text k, k + n)
        | Punct_again \<Rightarrow> again (SkipWhitespace s k) | Punct_skip \<Rightarrow> again (Suc k)) = Some r"
      using assms(4) True by (simp add: token_at_def)
    show ?thesis
    proof (cases "punctuation s k")
      case (Punct t' str n)
      then show ?thesis using punctuation_ok [OF True Punct] body by (auto simp: token_ok_def)
    next
      case Punct_again
      then show ?thesis using body assms(1) [of k r] assms(2,3) by simp
    next
      case Punct_skip
      then show ?thesis using body assms(1) [of "Suc k" r] True by (simp add: token_ok_def)
    qed
  qed
qed

lemma NextToken_ok:
  assumes "NextToken s i = Some r" "i \<le> length s"
  shows "token_ok s i r"
proof -
  have "i \<le> length s \<longrightarrow> token_ok s i r"
  proof (rule NextToken_raw_induct [where P = "\<lambda>s i r. i \<le> length s \<longrightarrow> token_ok s i r", OF _ assms(1)], rule impI)
    fix NT s i and r :: "token \<times> nat"
    assume IH: "\<And>s i r. NT s i = Some r \<Longrightarrow> i \<le> length s \<longrightarrow> token_ok s i r"
      and body: "token_at (NT s) s (SkipWhitespace s i) = Some r" and i: "i \<le> length s"
    have "token_ok s (SkipWhitespace s i) r"
      by (rule token_at_ok [OF _ _ _ body])
        (use IH in \<open>simp_all add: SkipWhitespace_bounds SkipWhitespace_idem i\<close>)
    then show "token_ok s i r"
      using SkipWhitespace_bounds [OF i] by (auto simp: token_ok_def)
  qed
  with assms(2) show ?thesis by blast
qed

subsection \<open>The token list\<close>

text \<open>A list of tokens as the parser expects it: pieces of the text in order, one END, at the end.\<close>

definition token_list_ok :: "string \<Rightarrow> nat \<Rightarrow> token list \<Rightarrow> bool" where
  "token_list_ok s i ts \<longleftrightarrow>
     ts \<noteq> [] \<and> tok_type (last ts) = TK_END \<and> list_all (\<lambda>t. tok_type t \<noteq> TK_END) (butlast ts) \<and>
     list_all (\<lambda>t. i \<le> tok_idx t \<and> tok_text t = take (length (tok_text t)) (drop (tok_idx t) s)) ts \<and>
     sorted (map tok_idx ts)"

lemma Tokenize_ok:
  assumes "Tokenize s i = Some ts" "i \<le> length s"
  shows "token_list_ok s i ts"
proof -
  have "i \<le> length s \<longrightarrow> token_list_ok s i ts"
  proof (rule Tokenize.raw_induct [where P = "\<lambda>s i ts. i \<le> length s \<longrightarrow> token_list_ok s i ts", OF _ assms(1)], rule impI)
    fix TZ s i and ts :: "token list"
    assume IH: "\<And>s i ts. TZ s i = Some ts \<Longrightarrow> i \<le> length s \<longrightarrow> token_list_ok s i ts"
      and body: "Option.bind (NextToken s i) (\<lambda>(t, j).
         if tok_type t = TK_END then Some [t] else Option.bind (TZ s j) (\<lambda>ts. Some (t # ts))) = Some ts"
      and i: "i \<le> length s"
    obtain t j where t: "NextToken s i = Some (t, j)"
      using body by (cases "NextToken s i") auto
    have rest: "(if tok_type t = TK_END then Some [t] else Option.bind (TZ s j) (\<lambda>ts. Some (t # ts))) = Some ts"
      using body t by simp
    note adv = NextToken_progress [OF t i, unfolded token_advances_def]
      and ok = NextToken_ok [OF t i, unfolded token_ok_def]
    show "token_list_ok s i ts"
    proof (cases "tok_type t = TK_END")
      case True
      then show ?thesis using rest ok by (auto simp: token_list_ok_def)
    next
      case False
      then obtain us where us: "TZ s j = Some us" "ts = t # us" using rest by (cases "TZ s j") auto
      have "token_list_ok s j us" using IH [OF us(1)] adv by simp
      then show ?thesis using us(2) False ok adv by (auto simp: token_list_ok_def list_all_iff)
    qed
  qed
  with assms(2) show ?thesis by blast
qed

text \<open>C31: Whenever the lexer returns, its tokens are verbatim pieces of the SQL text in text
  order, and the list ends with the one and only END token.\<close>

theorem Lex_tokens_ok:
  assumes "Lex sql = Some ts"
  shows "token_list_ok sql 0 ts"
  using assms by (intro Tokenize_ok) (simp_all add: Lex_def)

lemma NextToken_total:
  assumes "\<And>k. \<not> dashes_at s k"
  shows "i \<le> length s \<Longrightarrow> \<exists>r. NextToken s i = Some r"
proof (induction "length s - i" arbitrary: i rule: less_induct)
  case less
  define k where "k = SkipWhitespace s i"
  have k: "i \<le> k" "k \<le> length s" using less.prems by (simp_all add: k_def SkipWhitespace_bounds)
  have unfold: "NextToken s i = token_at (NextToken s) s k" unfolding k_def by (rule NextToken_unfold)
  show ?case
  proof (cases "k < length s \<and> punctuation s k = Punct_skip")
    case True
    then have "\<exists>r. NextToken s (Suc k) = Some r" using k by (intro less.hyps) linarith+
    then show ?thesis using True unfold by (auto simp: token_at_def)
  next
    case False
    have "k < length s \<Longrightarrow> punctuation s k \<noteq> Punct_again"
      using assms [of k] by (auto simp: punctuation_def Let_def followed_by_def dashes_at_def split: if_splits)
    then show ?thesis using False unfold by (auto simp: token_at_def split: punct.splits)
  qed
qed

lemma Tokenize_total:
  assumes "\<And>k. \<not> dashes_at s k"
  shows "i \<le> length s \<Longrightarrow> \<exists>ts. Tokenize s i = Some ts"
proof (induction "length s - i" arbitrary: i rule: less_induct)
  case less
  obtain t j where t: "NextToken s i = Some (t, j)" using NextToken_total [OF assms less.prems] by force
  note adv = NextToken_progress [OF t less.prems, unfolded token_advances_def]
  have "tok_type t \<noteq> TK_END \<Longrightarrow> \<exists>ts. Tokenize s j = Some ts" using adv by (intro less.hyps) auto
  then show ?case using t by (subst Tokenize.simps) auto
qed

text \<open>C32: The lexer returns on every SQL text in which no two dashes are adjacent.\<close>

theorem Lex_terminates:
  assumes "\<And>k. \<not> dashes_at sql k"
  shows "\<exists>ts. Lex sql = Some ts"
  unfolding Lex_def using Tokenize_total [OF assms] by simp

lemma Tokenize_None: "NextToken s i = None \<Longrightarrow> Tokenize s i = None"
  by (subst Tokenize.simps) simp

text \<open>C33: When the next token position holds a line comment \<open>--\<close>, the lexer never returns: the
  branch for it calls \<open>NextToken\<close> without having moved (\<open>SkipWhitespace\<close> stops at the dash).\<close>

theorem Lex_comment_diverges:
  assumes "dashes_at sql (SkipWhitespace sql 0)"
  shows "Lex sql = None"
  unfolding Lex_def by (rule Tokenize_None) (rule NextToken_dashes [OF le0 assms])

end
