(* ===== verification/Parser.thy ===== *)
theory Parser
  imports Ast Lexer Ieee754
begin

text \<open>
  \<^verbatim>\<open>src/src/sql/parser/parser.cpp\<close>: recursive descent over the token vector.  The state
  (\<open>tokens_\<close>, \<open>current_index_\<close>) is the list of the tokens not consumed yet; \<open>Peek\<close> past
  the end is a static END token.  The expression levels call each other through the loops and
  the parentheses: the functions are total because every one that returns has consumed a token.
\<close>

subsection \<open>The token stream\<close>

definition Peek :: "token list \<Rightarrow> token" where
  "Peek ts = (case ts of [] \<Rightarrow> mk_token TK_END '''' 0 | t # _ \<Rightarrow> t)"

abbreviation peek_type :: "token list \<Rightarrow> token_type" where
  "peek_type ts \<equiv> tok_type (Peek ts)"

definition Consume :: "token list \<Rightarrow> token list" where
  "Consume ts = tl ts"

definition Match :: "token_type \<Rightarrow> token list \<Rightarrow> bool \<times> token list" where
  "Match ty ts = (if peek_type ts = ty then (True, Consume ts) else (False, ts))"

definition Expect :: "token_type \<Rightarrow> string \<Rightarrow> token list \<Rightarrow> (token \<times> token list) result" where
  "Expect ty message ts =
     (if peek_type ts \<noteq> ty then Inl (Runtime_error (message @ '', got: '' @ tok_text (Peek ts)))
      else Inr (Peek ts, Consume ts))"

definition quoted :: "string \<Rightarrow> string" where
  "quoted s = [CHR 0x27] @ s @ [CHR 0x27]"

lemma Peek_simps [simp]: "Peek (t # ts) = t" "peek_type [] = TK_END"
  by (simp_all add: Peek_def)

lemma Consume_Cons [simp]: "Consume (t # ts) = ts"
  by (simp add: Consume_def)

lemma Consume_less: "peek_type ts \<noteq> TK_END \<Longrightarrow> length (Consume ts) < length ts"
  by (cases ts) auto

lemma Consume_le: "length (Consume ts) \<le> length ts"
  by (simp add: Consume_def)

lemma Expect_less: "Expect ty m ts = Inr (t, ts') \<Longrightarrow> ty \<noteq> TK_END \<Longrightarrow> length ts' < length ts"
  using Consume_less [of ts] by (auto simp: Expect_def split: if_splits)

lemma Expect_Cons [simp]: "tok_type t = ty \<Longrightarrow> Expect ty m (t # ts) = Inr (t, ts)"
  by (simp add: Expect_def)

subsection \<open>Numbers\<close>

text \<open>
  \<open>std::stoi\<close>: leading blanks, a sign, the longest run of digits; \<open>std::invalid_argument\<close>
  without a digit, \<open>std::out_of_range\<close> outside \<open>int\<close>.
\<close>

definition stoi :: "string \<Rightarrow> i32 result" where
  "stoi s =
     (let body = dropWhile is_space s;
          neg = (body \<noteq> [] \<and> hd body = CHR ''-'');
          rest = (if body \<noteq> [] \<and> hd body \<in> {CHR ''-'', CHR ''+''} then tl body else body);
          ds = takeWhile is_digit rest;
          v = (if neg then - int (digits_val ds) else int (digits_val ds))
      in if ds = [] then Inl Invalid_argument
         else if - (2 ^ 31) \<le> v \<and> v < 2 ^ 31 then Inr (word_of_int v) else Inl Out_of_range)"

text \<open>
  \<open>std::stod\<close> on the text of a FLOAT token, which is digits, one point, digits: the nearest
  double, ties to even.  \<open>strtod\<close> sets \<open>ERANGE\<close> when the value overflows, and when it is
  inexact and below the least normal (\<open>2^52\<close> units) after rounding to 53 bits.
\<close>

definition stod :: "string \<Rightarrow> f64 result" where
  "stod s =
     (let whole = takeWhile is_digit s; rest = dropWhile is_digit s;
          frac = (if rest \<noteq> [] \<and> hd rest = CHR ''.'' then takeWhile is_digit (tl rest) else []);
          p = digits_val (whole @ frac) * 2 ^ 1074; q = 10 ^ length frac;
          d = ieee_round 52 False p q
      in if whole = [] \<and> frac = [] then Inl Invalid_argument
         else if f64_is_inf d then Inl Out_of_range
         else if 4 * p < (2 ^ 54 - 1) * q \<and> p mod q \<noteq> 0 then Inl Out_of_range
         else Inr d)"

subsection \<open>Expressions\<close>

definition agg_of_name :: "string \<Rightarrow> agg_type" where
  "agg_of_name name =
     (if name = ''SUM'' then AGG_SUM
      else if name = ''COUNT'' then AGG_COUNT
      else if name = ''AVG'' then AGG_AVG
      else if name = ''MIN'' then AGG_MIN
      else if name = ''MAX'' then AGG_MAX
      else AGG_INVALID)"

definition cmp_token :: "token_type \<Rightarrow> op_type option" where
  "cmp_token ty =
     (case ty of TK_PLUS \<Rightarrow> Some OP_ADD | TK_MINUS \<Rightarrow> Some OP_SUB
      | TK_EQ \<Rightarrow> Some OP_EQ | TK_NE \<Rightarrow> Some OP_NE | TK_GT \<Rightarrow> Some OP_GT | TK_GE \<Rightarrow> Some OP_GE
      | TK_LT \<Rightarrow> Some OP_LT | TK_LE \<Rightarrow> Some OP_LE | _ \<Rightarrow> None)"

text \<open>A literal: convert the text, keep the stream.\<close>

definition map_r_fst :: "('a \<Rightarrow> expr) \<Rightarrow> 'a result \<Rightarrow> token list \<Rightarrow> (expr \<times> token list) result" where
  "map_r_fst f r ts = bind_r r (\<lambda>v. Inr (f v, ts))"

lemma cmp_token_END [simp]: "cmp_token TK_END = None"
  by (simp add: cmp_token_def)

function (sequential)
  ParseOrExpression :: "token list \<Rightarrow> (expr \<times> token list) result" and
  or_loop :: "expr \<Rightarrow> token list \<Rightarrow> (expr \<times> token list) result" and
  ParseAndExpression :: "token list \<Rightarrow> (expr \<times> token list) result" and
  and_loop :: "expr \<Rightarrow> token list \<Rightarrow> (expr \<times> token list) result" and
  ParseComparisonExpression :: "token list \<Rightarrow> (expr \<times> token list) result" and
  comparison_loop :: "expr \<Rightarrow> token list \<Rightarrow> (expr \<times> token list) result" and
  ParsePrimaryExpression :: "token list \<Rightarrow> (expr \<times> token list) result"
where
  "ParseOrExpression ts = bind_r (ParseAndExpression ts) (\<lambda>(left, ts). or_loop left ts)"
| "or_loop left ts =
     (if peek_type ts = TK_OR then
        bind_r (ParseAndExpression (Consume ts)) (\<lambda>(right, ts). or_loop (BinaryOp OP_OR left right) ts)
      else Inr (left, ts))"
| "ParseAndExpression ts = bind_r (ParseComparisonExpression ts) (\<lambda>(left, ts). and_loop left ts)"
| "and_loop left ts =
     (if peek_type ts = TK_AND then
        bind_r (ParseComparisonExpression (Consume ts)) (\<lambda>(right, ts). and_loop (BinaryOp OP_AND left right) ts)
      else Inr (left, ts))"
| "ParseComparisonExpression ts =
     bind_r (ParsePrimaryExpression ts) (\<lambda>(left, ts). comparison_loop left ts)"
| "comparison_loop left ts =
     (case cmp_token (peek_type ts) of
        Some p \<Rightarrow> bind_r (ParsePrimaryExpression (Consume ts)) (\<lambda>(right, ts). comparison_loop (BinaryOp p left right) ts)
      | None \<Rightarrow> Inr (left, ts))"
| "ParsePrimaryExpression ts =
     (let token = Peek ts; ty = tok_type token in
      if ty = TK_INTEGER then map_r_fst (\<lambda>v. Literal (Lit_int v)) (stoi (tok_text token)) (Consume ts)
      else if ty = TK_FLOAT then map_r_fst (\<lambda>v. Literal (Lit_double v)) (stod (tok_text token)) (Consume ts)
      else if ty = TK_STRING then Inr (Literal (Lit_string (tok_text token)), Consume ts)
      else if ty = TK_IDENTIFIER then
        (let name = tok_text token; ts1 = Consume ts in
         if peek_type ts1 = TK_LPAREN then
           (let ts2 = Consume ts1; agg = agg_of_name name in
            if agg = AGG_INVALID then Inl (Runtime_error (''Unknown function: '' @ name))
            else bind_r
              (if peek_type ts2 = TK_STAR then
                 (if agg \<noteq> AGG_COUNT
                  then Inl (Runtime_error (''Only COUNT(*) supports '' @ quoted ''*'' @ '' as aggregate argument''))
                  else Inr (None, Consume ts2))
               else if peek_type ts2 = TK_RPAREN
                 then Inl (Runtime_error (''Aggregate function requires an argument: '' @ name))
               else bind_r (ParseOrExpression ts2) (\<lambda>(arg, ts3). Inr (Some arg, ts3)))
              (\<lambda>(arg, ts3). bind_r (Expect TK_RPAREN (''Expected '' @ quoted '')'' @ '' after function argument'') ts3)
                (\<lambda>(_, ts4). Inr (AggFunc agg arg, ts4))))
         else Inr (ColumnRef name, ts1))
      else if ty = TK_LPAREN then
        bind_r (ParseOrExpression (Consume ts)) (\<lambda>(e, ts1).
          bind_r (Expect TK_RPAREN (''Expected '' @ quoted '')'') ts1) (\<lambda>(_, ts2). Inr (e, ts2)))
      else Inl (Runtime_error (''Unexpected token in expression: '' @ tok_text token)))"
  by pat_completeness auto
lemmas parse_pinduct =
  ParseOrExpression_or_loop_ParseAndExpression_and_loop_ParseComparisonExpression_comparison_loop_ParsePrimaryExpression.pinduct

lemmas parse_psimps =
  ParseOrExpression.psimps or_loop.psimps ParseAndExpression.psimps and_loop.psimps
  ParseComparisonExpression.psimps comparison_loop.psimps ParsePrimaryExpression.psimps

abbreviation parse_dom where
  "parse_dom \<equiv> ParseOrExpression_or_loop_ParseAndExpression_and_loop_ParseComparisonExpression_comparison_loop_ParsePrimaryExpression_dom"

text \<open>A parser that returns has consumed a token; a loop has not gone back.\<close>

definition shrinks :: "('a \<times> token list) result \<Rightarrow> token list \<Rightarrow> bool" where
  "shrinks r ts \<longleftrightarrow> (case r of Inl _ \<Rightarrow> True | Inr (_, ts') \<Rightarrow> length ts' < length ts)"

lemma shrinks_Inl [simp]: "shrinks (Inl e) ts"
  and shrinks_Inr [simp]: "shrinks (Inr (x, ts')) ts \<longleftrightarrow> length ts' < length ts"
  by (simp_all add: shrinks_def)

lemma shrinks_bind:
  assumes "\<And>x ts1. m = Inr (x, ts1) \<Longrightarrow> shrinks (f (x, ts1)) ts"
  shows "shrinks (bind_r m f) ts"
proof (cases m)
  case (Inr y)
  then show ?thesis using assms by (cases y) simp
qed simp

definition not_longer :: "('a \<times> token list) result \<Rightarrow> token list \<Rightarrow> bool" where
  "not_longer r ts \<longleftrightarrow> shrinks r (undefined # ts)"

lemma not_longer_Inr [simp]: "not_longer (Inr (x, ts')) ts \<longleftrightarrow> length ts' \<le> length ts"
  by (auto simp: not_longer_def)

lemma level_step:
  assumes "shrinks m ts" "\<And>x ts1. m = Inr (x, ts1) \<Longrightarrow> not_longer (f (x, ts1)) ts1"
  shows "shrinks (bind_r m f) ts"
  using assms by (intro shrinks_bind) (force simp: not_longer_def shrinks_def split: sum.splits)

lemma loop_step:
  assumes "peek_type ts \<noteq> TK_END" "shrinks m (Consume ts)"
    and "\<And>x ts1. m = Inr (x, ts1) \<Longrightarrow> not_longer (f (x, ts1)) ts1"
  shows "not_longer (bind_r m f) ts"
proof -
  have "shrinks (bind_r m f) (Consume ts)" using assms(2,3) by (rule level_step)
  then show ?thesis
    using Consume_less [OF assms(1)] by (auto simp: not_longer_def shrinks_def split: sum.splits)
qed

lemma call_step:
  assumes "shrinks m ts1" "length ts1 \<le> length ts"
    and "\<And>x ts2. m = Inr (x, ts2) \<Longrightarrow> length ts2 < length ts \<Longrightarrow> shrinks (f (x, ts2)) ts"
  shows "shrinks (bind_r m f) ts"
  using assms by (intro shrinks_bind) (force simp: shrinks_def)

lemma parse_shrinks:
  "parse_dom (Inl (Inl ts)) \<Longrightarrow> shrinks (ParseOrExpression ts) ts"
  "parse_dom (Inl (Inr (Inl (l, ts)))) \<Longrightarrow> not_longer (or_loop l ts) ts"
  "parse_dom (Inl (Inr (Inr ts))) \<Longrightarrow> shrinks (ParseAndExpression ts) ts"
  "parse_dom (Inr (Inl (Inl (l, ts)))) \<Longrightarrow> not_longer (and_loop l ts) ts"
  "parse_dom (Inr (Inl (Inr ts))) \<Longrightarrow> shrinks (ParseComparisonExpression ts) ts"
  "parse_dom (Inr (Inr (Inl (l, ts)))) \<Longrightarrow> not_longer (comparison_loop l ts) ts"
  "parse_dom (Inr (Inr (Inr ts))) \<Longrightarrow> shrinks (ParsePrimaryExpression ts) ts"
proof (induction ts and l ts and ts and l ts and ts and l ts and ts rule: parse_pinduct)
  case (1 ts)
  then show ?case by (auto simp: parse_psimps intro!: level_step)
next
  case (2 l ts)
  then show ?case by (auto simp: parse_psimps intro!: loop_step)
next
  case (3 ts)
  then show ?case by (auto simp: parse_psimps intro!: level_step)
next
  case (4 l ts)
  then show ?case by (auto simp: parse_psimps intro!: loop_step)
next
  case (5 ts)
  then show ?case by (auto simp: parse_psimps intro!: level_step)
next
  case (6 l ts)
  then show ?case by (auto simp: parse_psimps split: option.splits intro!: loop_step)
next
  case (7 ts)
  show ?case
  proof (cases "peek_type ts = TK_END")
    case True
    then show ?thesis using 7(1) by (simp add: parse_psimps Let_def)
  next
    case False
    note less = Consume_less [OF False]
    have lit: "shrinks (map_r_fst f r (Consume ts)) ts" for f and r :: "'a result"
      using less by (cases r) (simp_all add: map_r_fst_def)
    have close: "shrinks (bind_r (Expect TK_RPAREN m us) (\<lambda>(_, vs). Inr (e, vs))) ts"
      if "length us < length ts" for m us and e :: expr
      using that Expect_less [of TK_RPAREN m us] by (cases "Expect TK_RPAREN m us") force+
    consider (paren) "peek_type ts = TK_LPAREN" | (ident) "peek_type ts = TK_IDENTIFIER"
      | (other) "peek_type ts \<noteq> TK_LPAREN" "peek_type ts \<noteq> TK_IDENTIFIER" by blast
    then show ?thesis
    proof cases
      case paren
      then have "shrinks (ParseOrExpression (Consume ts)) (Consume ts)" using 7(3) by simp
      then show ?thesis
        using paren less by (auto simp: parse_psimps(7) [OF 7(1)] intro!: close call_step)
    next
      case ident
      show ?thesis
      proof (cases "peek_type (Consume ts) = TK_LPAREN \<and> agg_of_name (tok_text (Peek ts)) \<noteq> AGG_INVALID")
        case False
        then show ?thesis using ident less by (auto simp: parse_psimps(7) [OF 7(1)] Let_def)
      next
        case True
        define us where "us = Consume (Consume ts)"
        have us: "length us < length ts" using less Consume_le [of "Consume ts"] by (simp add: us_def)
        have arg: "shrinks (bind_r (ParseOrExpression us) (\<lambda>(arg, ts3). Inr (Some arg, ts3))) us"
          if "peek_type us \<noteq> TK_STAR" "peek_type us \<noteq> TK_RPAREN"
        proof -
          have "shrinks (ParseOrExpression us) us"
            using 7(2) that ident True by (simp add: us_def)
          then show ?thesis by (auto intro!: call_step)
        qed
        have star: "length (Consume us) < length ts" using us Consume_le [of us] by simp
        show ?thesis
          using True ident star us
          by (auto simp: parse_psimps(7) [OF 7(1)] Let_def simp flip: us_def
              intro!: close call_step [OF arg])
      qed
    next
      case other
      then show ?thesis by (simp add: parse_psimps(7) [OF 7(1)] Let_def lit less)
    qed
  qed
qed

lemma Consume_room:
  "peek_type ts \<noteq> TK_END \<Longrightarrow> 4 * length (Consume ts) + 3 < 4 * length ts"
  using Consume_less [of ts] by simp

lemma Consume_room2:
  "peek_type (Consume ts) = TK_LPAREN \<Longrightarrow> 4 * length (Consume (Consume ts)) + 3 < 4 * length ts"
  using Consume_less [of "Consume ts"] Consume_le [of ts] by simp

lemma less_Consume: "n < length (Consume ts) \<Longrightarrow> n < length ts"
  using Consume_le [of ts] by simp

lemma token_not_END:
  "peek_type ts = TK_OR \<Longrightarrow> peek_type ts \<noteq> TK_END"
  "peek_type ts = TK_AND \<Longrightarrow> peek_type ts \<noteq> TK_END"
  "TK_LPAREN = peek_type ts \<Longrightarrow> peek_type ts \<noteq> TK_END"
  "TK_IDENTIFIER = peek_type ts \<Longrightarrow> peek_type ts \<noteq> TK_END"
  "cmp_token (peek_type ts) = Some p \<Longrightarrow> peek_type ts \<noteq> TK_END"
  by auto

lemma parse_total: "All ParseOrExpression_or_loop_ParseAndExpression_and_loop_ParseComparisonExpression_comparison_loop_ParsePrimaryExpression_dom"
proof (relation "measure (\<lambda>x. case x of
      Inl (Inl ts) \<Rightarrow> 4 * length ts + 3
    | Inl (Inr (Inl (l, ts))) \<Rightarrow> 4 * length ts
    | Inl (Inr (Inr ts)) \<Rightarrow> 4 * length ts + 2
    | Inr (Inl (Inl (l, ts))) \<Rightarrow> 4 * length ts
    | Inr (Inl (Inr ts)) \<Rightarrow> 4 * length ts + 1
    | Inr (Inr (Inl (l, ts))) \<Rightarrow> 4 * length ts
    | Inr (Inr (Inr ts)) \<Rightarrow> 4 * length ts)", goal_cases)
  case 1
  show ?case by simp
qed (auto dest!: parse_shrinks token_not_END dest: Consume_room Consume_room2 less_Consume)

termination ParseOrExpression by (rule parse_total)

lemma ParseExpression_shrinks: "shrinks (ParseOrExpression ts) ts"
  by (rule parse_shrinks(1)) (use parse_total in blast)

declare ParseOrExpression.simps [simp del] or_loop.simps [simp del] ParseAndExpression.simps [simp del]
  and_loop.simps [simp del] ParseComparisonExpression.simps [simp del] comparison_loop.simps [simp del]
  ParsePrimaryExpression.simps [simp del]

definition ParseExpression :: "token list \<Rightarrow> (expr \<times> token list) result" where
  "ParseExpression ts = ParseOrExpression ts"

lemma ParseExpression_less: "ParseExpression ts = Inr (e, ts') \<Longrightarrow> length ts' < length ts"
  using ParseExpression_shrinks [of ts] by (simp add: ParseExpression_def)

subsection \<open>Comma lists\<close>

text \<open>\<open>do { ... } while (Match(COMMA))\<close> over identifiers and over expressions.\<close>

function ident_list :: "string \<Rightarrow> token list \<Rightarrow> (string list \<times> token list) result" where
  "ident_list message ts = bind_r (Expect TK_IDENTIFIER message ts) (\<lambda>(t, ts1).
     if peek_type ts1 = TK_COMMA
     then bind_r (ident_list message (Consume ts1)) (\<lambda>(xs, ts2). Inr (tok_text t # xs, ts2))
     else Inr ([tok_text t], ts1))"
  by pat_completeness auto
termination
  by (relation "measure (length \<circ> snd)") (auto dest!: Expect_less intro: le_less_trans [OF Consume_le])

function expr_list :: "token list \<Rightarrow> (expr list \<times> token list) result" where
  "expr_list ts = bind_r (ParseExpression ts) (\<lambda>(e, ts1).
     if peek_type ts1 = TK_COMMA
     then bind_r (expr_list (Consume ts1)) (\<lambda>(es, ts2). Inr (e # es, ts2))
     else Inr ([e], ts1))"
  by pat_completeness auto
termination
  by (relation "measure length") (auto dest!: ParseExpression_less intro: le_less_trans [OF Consume_le])

declare ident_list.simps [simp del] expr_list.simps [simp del]

lemma expr_list_less: "expr_list ts = Inr (es, ts') \<Longrightarrow> length ts' < length ts"
proof (induction ts arbitrary: es ts' rule: expr_list.induct)
  case (1 ts)
  from "1.prems" obtain e ts1 where e: "ParseExpression ts = Inr (e, ts1)"
    by (subst (asm) expr_list.simps) (auto elim!: bind_r_InrE)
  have "length ts' \<le> length ts1"
  proof (cases "peek_type ts1 = TK_COMMA")
    case True
    then obtain es' where "expr_list (Consume ts1) = Inr (es', ts')"
      using "1.prems" e by (subst (asm) expr_list.simps) (auto elim!: bind_r_InrE)
    then show ?thesis using "1.IH" [OF e refl True] Consume_le [of ts1] by fastforce
  next
    case False
    then show ?thesis using "1.prems" e by (subst (asm) expr_list.simps) auto
  qed
  with ParseExpression_less [OF e] show ?case by simp
qed

lemma length_Consume: "length (Consume ts) = length ts - 1"
  by (simp add: Consume_def)

subsection \<open>SELECT\<close>

definition ParseSelectItem :: "token list \<Rightarrow> (select_item \<times> token list) result" where
  "ParseSelectItem ts =
     (if peek_type ts = TK_STAR then Inr (\<lparr>si_expr = ColumnRef ''*'', si_alias = ''''\<rparr>, Consume ts)
      else bind_r (ParseExpression ts) (\<lambda>(e, ts1).
        if peek_type ts1 = TK_AS then
          (let ts2 = Consume ts1 in
           if peek_type ts2 \<noteq> TK_IDENTIFIER then Inl (Runtime_error ''Expected alias identifier after AS'')
           else Inr (\<lparr>si_expr = e, si_alias = tok_text (Peek ts2)\<rparr>, Consume ts2))
        else if peek_type ts1 = TK_IDENTIFIER
          then Inr (\<lparr>si_expr = e, si_alias = tok_text (Peek ts1)\<rparr>, Consume ts1)
        else Inr (\<lparr>si_expr = e, si_alias = ''''\<rparr>, ts1)))"

lemma ParseSelectItem_less: "ParseSelectItem ts = Inr (it, ts') \<Longrightarrow> length ts' < length ts"
  using Consume_less [of ts]
  by (auto simp: ParseSelectItem_def Let_def length_Consume elim!: bind_r_InrE split: if_splits
      dest!: ParseExpression_less)

function select_items :: "token list \<Rightarrow> (select_item list \<times> token list) result" where
  "select_items ts = bind_r (ParseSelectItem ts) (\<lambda>(it, ts1).
     if peek_type ts1 = TK_COMMA
     then bind_r (select_items (Consume ts1)) (\<lambda>(its, ts2). Inr (it # its, ts2))
     else Inr ([it], ts1))"
  by pat_completeness auto
termination
  by (relation "measure length") (auto dest!: ParseSelectItem_less intro: le_less_trans [OF Consume_le])

declare select_items.simps [simp del]

definition ParseSelect :: "token list \<Rightarrow> (select_statement \<times> token list) result" where
  "ParseSelect ts =
     bind_r (select_items ts) (\<lambda>(items, ts).
     bind_r (Expect TK_FROM ''Expected FROM clause'' ts) (\<lambda>(_, ts).
     bind_r (Expect TK_IDENTIFIER ''Expected table name after FROM'' ts) (\<lambda>(table, ts).
     bind_r (if peek_type ts = TK_WHERE
             then bind_r (ParseExpression (Consume ts)) (\<lambda>(e, ts). Inr (Some e, ts))
             else Inr (None, ts)) (\<lambda>(cond, ts).
     bind_r (if peek_type ts = TK_GROUP
             then bind_r (Expect TK_BY ''Expected BY after GROUP'' (Consume ts)) (\<lambda>(_, ts). expr_list ts)
             else Inr ([], ts)) (\<lambda>(group, ts).
     (let ts = snd (Match TK_SEMICOLON ts) in
      if peek_type ts \<noteq> TK_END
      then Inl (Runtime_error (''Unexpected token after SELECT statement: '' @ tok_text (Peek ts)))
      else Inr (\<lparr>sel_table_name = tok_text table, sel_select_list = items, sel_where_clause = cond,
                 sel_group_by = group\<rparr>, ts)))))))"

subsection \<open>CREATE TABLE\<close>

definition to_upper :: "char \<Rightarrow> char" where
  "to_upper c = (if CHR ''a'' \<le> c \<and> c \<le> CHR ''z'' then char_of (of_char c - 32 :: nat) else c)"

definition ParseDataType :: "token list \<Rightarrow> (data_type \<times> token list) result" where
  "ParseDataType ts = bind_r (Expect TK_IDENTIFIER ''Expected data type'' ts) (\<lambda>(token, ts).
     let upper = map to_upper (tok_text token) in
     if upper = ''INT'' \<or> upper = ''INTEGER'' then Inr (DT_INT32, ts)
     else if upper = ''BIGINT'' then Inr (DT_INT64, ts)
     else if upper = ''FLOAT'' then Inr (DT_FLOAT, ts)
     else if upper = ''DOUBLE'' then Inr (DT_DOUBLE, ts)
     else if upper = ''VARCHAR'' then Inr (DT_VARCHAR, ts)
     else Inl (Runtime_error (''Unknown data type: '' @ tok_text token)))"

definition ParseKeyColumnList :: "token list \<Rightarrow> (string list \<times> token list) result" where
  "ParseKeyColumnList ts =
     bind_r (Expect TK_LPAREN (''Expected '' @ quoted ''('' @ '' in key definition'') ts) (\<lambda>(_, ts).
     bind_r (ident_list ''Expected column name in key definition'' ts) (\<lambda>(names, ts).
     bind_r (Expect TK_RPAREN (''Expected '' @ quoted '')'' @ '' after key columns'') ts) (\<lambda>(_, ts).
     Inr (names, ts))))"

text \<open>One \<open>create_item\<close>: what it adds to the columns and to the keys.\<close>

definition create_item ::
  "token list \<Rightarrow> column_schema list \<Rightarrow> key_constraint list \<Rightarrow>
   ((column_schema list \<times> key_constraint list) \<times> token list) result" where
  "create_item ts cols keys =
     (if peek_type ts = TK_PRIMARY then
        bind_r (Expect TK_KEY (''Expected '' @ quoted ''KEY'' @ '' after PRIMARY'') (Consume ts)) (\<lambda>(_, ts).
        bind_r (ParseKeyColumnList ts) (\<lambda>(names, ts).
        Inr ((cols, keys @ [\<lparr>kc_type = KT_PRIMARY, kc_name = '''', kc_columns = names\<rparr>]), ts)))
      else if peek_type ts = TK_KEY then
        (let ts = Consume ts;
             (name, ts) = (if peek_type ts = TK_IDENTIFIER then (tok_text (Peek ts), Consume ts) else ('''', ts))
         in bind_r (ParseKeyColumnList ts) (\<lambda>(names, ts).
            Inr ((cols, keys @ [\<lparr>kc_type = KT_SECONDARY, kc_name = name, kc_columns = names\<rparr>]), ts)))
      else
        bind_r (Expect TK_IDENTIFIER ''Expected column name'' ts) (\<lambda>(t, ts).
        bind_r (ParseDataType ts) (\<lambda>(ty, ts).
        (let col = \<lparr>cs_column_id = u32_of (length cols), cs_name = tok_text t, cs_type = ty\<rparr> in
         if peek_type ts = TK_PRIMARY then
           bind_r (Expect TK_KEY (''Expected '' @ quoted ''KEY'' @ '' after PRIMARY'') (Consume ts)) (\<lambda>(_, ts).
           Inr ((cols @ [col], keys @ [\<lparr>kc_type = KT_PRIMARY, kc_name = '''', kc_columns = [cs_name col]\<rparr>]), ts))
         else Inr ((cols @ [col], keys), ts)))))"

lemma ParseKeyColumnList_start: "ParseKeyColumnList ts = Inr r \<Longrightarrow> peek_type ts = TK_LPAREN"
  by (auto simp: ParseKeyColumnList_def Expect_def split: if_splits)

lemma Expect_shrinks: "ty \<noteq> TK_END \<Longrightarrow> shrinks (Expect ty m ts) ts"
  using Expect_less [of ty m ts] by (auto simp: shrinks_def split: sum.splits)

lemma ident_list_shrinks: "shrinks (ident_list m ts) ts"
proof (induction m ts rule: ident_list.induct)
  case (1 m ts)
  show ?case
  proof (subst ident_list.simps, rule shrinks_bind)
    fix t ts1
    assume t: "Expect TK_IDENTIFIER m ts = Inr (t, ts1)"
    then have "length ts1 < length ts" by (rule Expect_less) simp
    moreover have "shrinks (ident_list m (Consume ts1)) (Consume ts1)" if "peek_type ts1 = TK_COMMA"
      using "1.IH" [OF t refl that] .
    ultimately show "shrinks (case (t, ts1) of (t, ts1) \<Rightarrow> if peek_type ts1 = TK_COMMA
        then bind_r (ident_list m (Consume ts1)) (\<lambda>(xs, ts2). Inr (tok_text t # xs, ts2))
        else Inr ([tok_text t], ts1)) ts"
      by (auto simp: length_Consume intro!: call_step)
  qed
qed

lemma shrinks_less: "shrinks r ts \<Longrightarrow> r = Inr (x, ts') \<Longrightarrow> length ts' < length ts"
  by simp

lemma shrinks_step:
  assumes "shrinks m ts1" "length ts1 \<le> length ts"
    and "\<And>x ts2. length ts2 < length ts \<Longrightarrow> shrinks (f (x, ts2)) ts"
  shows "shrinks (bind_r m f) ts"
  using assms(3) by (rule call_step [OF assms(1,2)])

lemma ParseKeyColumnList_shrinks: "shrinks (ParseKeyColumnList ts) ts"
  unfolding ParseKeyColumnList_def
  by (rule shrinks_step [OF Expect_shrinks], simp, simp, simp,
      rule shrinks_step [OF ident_list_shrinks], simp, simp,
      rule shrinks_step [OF Expect_shrinks], simp_all)

lemma ParseDataType_shrinks: "shrinks (ParseDataType ts) ts"
  unfolding ParseDataType_def
  by (rule shrinks_step [OF Expect_shrinks]) (auto simp: Let_def)

lemma create_item_shrinks: "shrinks (create_item ts cols keys) ts"
proof -
  have k: "shrinks (bind_r (ParseKeyColumnList us) (\<lambda>(names, ts). Inr (f names, ts))) ts"
    if "length us \<le> length ts" for us and f :: "string list \<Rightarrow> 'x"
    using that by (rule shrinks_step [OF ParseKeyColumnList_shrinks]) simp
  have p: "shrinks (bind_r (Expect TK_KEY m us) (\<lambda>(_, ts). bind_r (ParseKeyColumnList ts) (\<lambda>(names, ts). Inr (f names, ts)))) ts"
    if "length us \<le> length ts" for m us and f :: "string list \<Rightarrow> 'x"
    by (rule shrinks_step [OF Expect_shrinks _ ]) (use that in \<open>auto intro!: k\<close>)
  have c: "shrinks (bind_r (Expect TK_KEY m us) (\<lambda>(_, ts). Inr (x, ts))) ts"
    if "length us \<le> length ts" for m us and x :: 'x
    by (rule shrinks_step [OF Expect_shrinks _ ]) (use that in auto)
  have d: "shrinks (bind_r (Expect TK_IDENTIFIER m ts) f) ts"
    if "\<And>x ts2. length ts2 < length ts \<Longrightarrow> shrinks (f (x, ts2)) ts" for m and f :: "_ \<Rightarrow> ('x \<times> _) result"
    using that by (intro shrinks_step [OF Expect_shrinks]) auto
  have e: "shrinks (bind_r (ParseDataType us) f) ts"
    if "length us < length ts" "\<And>x ts2. length ts2 < length ts \<Longrightarrow> shrinks (f (x, ts2)) ts" for us and f :: "_ \<Rightarrow> ('x \<times> _) result"
    using that by (intro shrinks_step [OF ParseDataType_shrinks]) auto
  show ?thesis
    unfolding create_item_def
    by (auto simp: Let_def length_Consume intro!: k p c d e)
qed

function create_items ::
  "token list \<Rightarrow> column_schema list \<Rightarrow> key_constraint list \<Rightarrow>
   ((column_schema list \<times> key_constraint list) \<times> token list) result" where
  "create_items ts cols keys = bind_r (create_item ts cols keys) (\<lambda>(items, ts1).
     if peek_type ts1 = TK_COMMA then create_items (Consume ts1) (fst items) (snd items)
     else Inr (items, ts1))"
  by pat_completeness auto
termination
  by (relation "measure (\<lambda>(ts, _, _). length ts)")
    (auto dest!: shrinks_less [OF create_item_shrinks] simp: length_Consume)

declare create_items.simps [simp del]

definition ParseCreateTable :: "token list \<Rightarrow> (create_table_statement \<times> token list) result" where
  "ParseCreateTable ts =
     bind_r (Expect TK_TABLE (''Expected '' @ quoted ''TABLE'' @ '' after CREATE'') ts) (\<lambda>(_, ts).
     bind_r (Expect TK_IDENTIFIER ''Expected table name'' ts) (\<lambda>(table, ts).
     bind_r (Expect TK_LPAREN (''Expected '' @ quoted ''('' @ '' after table name'') ts) (\<lambda>(_, ts).
     bind_r (create_items ts [] []) (\<lambda>((cols, keys), ts).
     bind_r (Expect TK_RPAREN (''Expected '' @ quoted '')'' @ '' after columns'') ts) (\<lambda>(_, ts).
     Inr (\<lparr>crt_table_name = tok_text table, crt_if_not_exists = False, crt_columns = cols,
           crt_keys = keys\<rparr>, ts))))))"

subsection \<open>INSERT\<close>

definition ParseRow :: "token list \<Rightarrow> (expr list \<times> token list) result" where
  "ParseRow ts =
     bind_r (Expect TK_LPAREN (''Expected '' @ quoted ''('' @ '' before row values'') ts) (\<lambda>(_, ts).
     bind_r (expr_list ts) (\<lambda>(row, ts).
     bind_r (Expect TK_RPAREN (''Expected '' @ quoted '')'' @ '' after row values'') ts) (\<lambda>(_, ts).
     Inr (row, ts))))"

lemma expr_list_shrinks: "shrinks (expr_list ts) ts"
  using expr_list_less [of ts] by (auto simp: shrinks_def split: sum.splits)

lemma ParseRow_shrinks: "shrinks (ParseRow ts) ts"
  unfolding ParseRow_def
  by (rule shrinks_step [OF Expect_shrinks], simp, simp, simp,
      rule shrinks_step [OF expr_list_shrinks], simp, simp,
      rule shrinks_step [OF Expect_shrinks], simp_all)

function value_rows :: "token list \<Rightarrow> (expr list list \<times> token list) result" where
  "value_rows ts = bind_r (ParseRow ts) (\<lambda>(row, ts1).
     if peek_type ts1 = TK_COMMA
     then bind_r (value_rows (Consume ts1)) (\<lambda>(rows, ts2). Inr (row # rows, ts2))
     else Inr ([row], ts1))"
  by pat_completeness auto
termination
  by (relation "measure length") (auto dest!: shrinks_less [OF ParseRow_shrinks] simp: length_Consume)

declare value_rows.simps [simp del]

definition ParseInsert :: "token list \<Rightarrow> (insert_statement \<times> token list) result" where
  "ParseInsert ts =
     bind_r (Expect TK_INTO (''Expected '' @ quoted ''INTO'' @ '' after INSERT'') ts) (\<lambda>(_, ts).
     bind_r (Expect TK_IDENTIFIER ''Expected table name'' ts) (\<lambda>(table, ts).
     bind_r (if peek_type ts = TK_LPAREN
             then bind_r (ident_list ''Expected column name'' (Consume ts)) (\<lambda>(names, ts).
                  bind_r (Expect TK_RPAREN (''Expected '' @ quoted '')'' @ '' after column list'') ts) (\<lambda>(_, ts).
                  Inr (names, ts)))
             else Inr ([], ts)) (\<lambda>(names, ts).
     bind_r (Expect TK_VALUES (''Expected '' @ quoted ''VALUES'' @ '' keyword'') ts) (\<lambda>(_, ts).
     bind_r (value_rows ts) (\<lambda>(rows, ts).
     Inr (\<lparr>ins_table_name = tok_text table, ins_columns = names, ins_values = rows\<rparr>,
          snd (Match TK_SEMICOLON ts)))))))"

subsection \<open>The entry point\<close>

definition ParseStatement :: "token list \<Rightarrow> (statement \<times> token list) result" where
  "ParseStatement ts =
     (if peek_type ts = TK_SELECT
      then bind_r (ParseSelect (Consume ts)) (\<lambda>(s, ts). Inr (Stmt_select s, ts))
      else if peek_type ts = TK_CREATE
      then bind_r (ParseCreateTable (Consume ts)) (\<lambda>(s, ts). Inr (Stmt_create s, ts))
      else if peek_type ts = TK_INSERT
      then bind_r (ParseInsert (Consume ts)) (\<lambda>(s, ts). Inr (Stmt_insert s, ts))
      else Inl (Runtime_error (''Unsupported statement type at token: '' @ tok_text (Peek ts))))"

text \<open>The two passes a statement text goes through; \<open>None\<close> is a lexer that does not return.\<close>

definition parse_sql :: "string \<Rightarrow> (statement \<times> token list) result option" where
  "parse_sql sql = map_option ParseStatement (Lex sql)"

subsection \<open>Printing and parsing\<close>

fun op_token :: "op_type \<Rightarrow> token_type" where
  "op_token OP_ADD = TK_PLUS"
| "op_token OP_SUB = TK_MINUS"
| "op_token OP_EQ = TK_EQ"
| "op_token OP_NE = TK_NE"
| "op_token OP_GT = TK_GT"
| "op_token OP_GE = TK_GE"
| "op_token OP_LT = TK_LT"
| "op_token OP_LE = TK_LE"
| "op_token OP_AND = TK_AND"
| "op_token OP_OR = TK_OR"

text \<open>The tokens of a printed expression.\<close>

type_synonym tkey = "token_type \<times> string"

definition tkey :: "token \<Rightarrow> tkey" where
  "tkey t = (tok_type t, tok_text t)"

fun expr_keys :: "expr \<Rightarrow> tkey list" where
  "expr_keys (ColumnRef n) = [(TK_IDENTIFIER, n)]"
| "expr_keys (Literal (Lit_int i)) = [(TK_INTEGER, int_str (sint i))]"
| "expr_keys (Literal (Lit_double d)) = [(TK_FLOAT, double_str d)]"
| "expr_keys (Literal (Lit_string s)) = [(TK_STRING, s)]"
| "expr_keys (BinaryOp p l r) =
     (TK_LPAREN, ''('') # expr_keys l @ (op_token p, op_name p) # expr_keys r @ [(TK_RPAREN, '')'')]"
| "expr_keys (AggFunc a None) = [(TK_IDENTIFIER, agg_name a), (TK_LPAREN, ''(''), (TK_STAR, ''*''), (TK_RPAREN, '')'')]"
| "expr_keys (AggFunc a (Some e)) =
     (TK_IDENTIFIER, agg_name a) # (TK_LPAREN, ''('') # expr_keys e @ [(TK_RPAREN, '')'')]"

text \<open>
  What the printer can express: names the lexer reads as identifiers, integers without a sign,
  strings without a quote, aggregates the parser knows.  (\<open>"%f"\<close> drops digits of a double.)
\<close>

definition ident_name :: "string \<Rightarrow> bool" where
  "ident_name n \<longleftrightarrow> n \<noteq> [] \<and> ident_start (hd n) \<and> list_all ident_char n \<and> keyword_type n = TK_IDENTIFIER"

fun printable :: "expr \<Rightarrow> bool" where
  "printable (ColumnRef n) = ident_name n"
| "printable (Literal (Lit_int i)) = (0 \<le> sint i)"
| "printable (Literal (Lit_double d)) = False"
| "printable (Literal (Lit_string s)) = (CHR 0x27 \<notin> set s)"
| "printable (BinaryOp p l r) = (printable l \<and> printable r)"
| "printable (AggFunc a None) = (a = AGG_COUNT)"
| "printable (AggFunc a (Some e)) = (a \<noteq> AGG_INVALID \<and> printable e)"

subsubsection \<open>Tokens to tree\<close>

lemma digit_char_is_digit [simp]: "d < 10 \<Longrightarrow> is_digit (digit_char d)"
  by (simp add: digit_char_def is_digit_def less_eq_char_def)

lemma nat_str_digits: "list_all is_digit (nat_str n)"
proof (induction n rule: nat_str.induct)
  case (1 n)
  then show ?case by (subst nat_str.simps) simp
qed

lemma digit_not_space: "is_digit c \<Longrightarrow> \<not> is_space c \<and> c \<noteq> CHR ''-'' \<and> c \<noteq> CHR ''+'' \<and> \<not> ident_start c"
  by (auto simp: is_digit_def is_space_def ident_start_def is_alpha_def less_eq_char_def)

lemma nat_str_hd: "is_digit (hd (nat_str n))"
  using nat_str_digits [of n] nat_str_not_Nil [of n] by (cases "nat_str n") auto

lemma stoi_nat_str:
  assumes "n < 2 ^ 31"
  shows "stoi (nat_str n) = Inr (word_of_nat n)"
proof -
  have tw: "takeWhile is_digit (nat_str n) = nat_str n"
    using nat_str_digits [of n] by (simp add: list_all_iff)
  note hd = digit_not_space [OF nat_str_hd [of n]]
  then have dw: "dropWhile is_space (nat_str n) = nat_str n"
    by (cases "nat_str n") simp_all
  show ?thesis using assms hd by (simp add: stoi_def Let_def tw dw)
qed

lemma agg_of_name_agg_name [simp]: "agg_of_name (agg_name a) = a"
  by (cases a) (simp_all add: agg_of_name_def)

lemma or_loop_stop: "peek_type ts \<noteq> TK_OR \<Longrightarrow> or_loop l ts = Inr (l, ts)"
  and and_loop_stop: "peek_type ts \<noteq> TK_AND \<Longrightarrow> and_loop l ts = Inr (l, ts)"
  and comparison_loop_stop: "cmp_token (peek_type ts) = None \<Longrightarrow> comparison_loop l ts = Inr (l, ts)"
  by (simp_all add: or_loop.simps and_loop.simps comparison_loop.simps)

text \<open>A token after which no loop goes on.\<close>

definition stops :: "token list \<Rightarrow> bool" where
  "stops ts \<longleftrightarrow> peek_type ts \<noteq> TK_OR \<and> peek_type ts \<noteq> TK_AND \<and> cmp_token (peek_type ts) = None"

lemma comparison_of_primary:
  "ParsePrimaryExpression ts = Inr (e, rest) \<Longrightarrow> cmp_token (peek_type rest) = None \<Longrightarrow>
   ParseComparisonExpression ts = Inr (e, rest)"
  by (simp add: ParseComparisonExpression.simps comparison_loop_stop)

lemma and_of_primary:
  "ParsePrimaryExpression ts = Inr (e, rest) \<Longrightarrow> cmp_token (peek_type rest) = None \<Longrightarrow> peek_type rest \<noteq> TK_AND \<Longrightarrow>
   ParseAndExpression ts = Inr (e, rest)"
  by (simp add: ParseAndExpression.simps comparison_of_primary and_loop_stop)

lemma or_of_primary:
  "ParsePrimaryExpression ts = Inr (e, rest) \<Longrightarrow> stops rest \<Longrightarrow> ParseOrExpression ts = Inr (e, rest)"
  by (simp add: ParseOrExpression.simps and_of_primary or_loop_stop stops_def)

lemma cmp_token_op: "p \<noteq> OP_AND \<Longrightarrow> p \<noteq> OP_OR \<Longrightarrow> cmp_token (op_token p) = Some p"
  by (cases p) (simp_all add: cmp_token_def)

lemma or_of_binary:
  assumes "ParsePrimaryExpression ts = Inr (l, t # us)" "tok_type t = op_token p"
    and "ParsePrimaryExpression us = Inr (r, rest)" "stops rest"
  shows "ParseOrExpression ts = Inr (BinaryOp p l r, rest)"
proof (cases "p = OP_AND \<or> p = OP_OR")
  case False
  then have "comparison_loop l (t # us) = Inr (BinaryOp p l r, rest)"
    using assms cmp_token_op [of p] by (subst comparison_loop.simps) (simp add: comparison_loop_stop stops_def)
  then show ?thesis
    using assms by (simp add: ParseOrExpression.simps ParseAndExpression.simps ParseComparisonExpression.simps
        and_loop_stop or_loop_stop stops_def)
next
  case True
  then show ?thesis
  proof
    assume p: "p = OP_AND"
    have "ParseComparisonExpression us = Inr (r, rest)"
      using assms(3,4) by (simp add: comparison_of_primary stops_def)
    then have "and_loop l (t # us) = Inr (BinaryOp OP_AND l r, rest)"
      using assms(2,4) p by (subst and_loop.simps) (simp add: and_loop_stop stops_def)
    then show ?thesis
      using assms p comparison_of_primary [OF assms(1)]
      by (simp add: ParseOrExpression.simps ParseAndExpression.simps or_loop_stop stops_def cmp_token_def)
  next
    assume p: "p = OP_OR"
    have "ParseAndExpression us = Inr (r, rest)"
      using assms(3,4) by (simp add: and_of_primary stops_def)
    then have "or_loop l (t # us) = Inr (BinaryOp OP_OR l r, rest)"
      using assms(2,4) p by (subst or_loop.simps) (simp add: or_loop_stop stops_def)
    then show ?thesis
      using assms p and_of_primary [OF assms(1)]
      by (simp add: ParseOrExpression.simps cmp_token_def)
  qed
qed

lemma tkey_eq: "tkey t = (ty, s) \<longleftrightarrow> tok_type t = ty \<and> tok_text t = s"
  by (simp add: tkey_def)

lemma stops_RPAREN: "tok_type t = TK_RPAREN \<Longrightarrow> stops (t # ts)"
  by (simp add: stops_def cmp_token_def)

lemma first_key: "map tkey us = expr_keys e \<Longrightarrow> us \<noteq> [] \<and> peek_type (us @ ws) \<noteq> TK_STAR \<and> peek_type (us @ ws) \<noteq> TK_RPAREN"
  by (cases e rule: expr_keys.cases; cases us) (auto simp: tkey_eq)

lemma map_keys_split:
  "map f xs = as @ b # bs \<Longrightarrow> \<exists>ls m rs. xs = ls @ m # rs \<and> map f ls = as \<and> f m = b \<and> map f rs = bs"
  by (auto simp: map_eq_append_conv map_eq_Cons_conv)

lemma ParsePrimary_keys:
  assumes "map tkey us = expr_keys e" "printable e" "peek_type rest \<noteq> TK_LPAREN"
  shows "ParsePrimaryExpression (us @ rest) = Inr (e, rest)"
  using assms
proof (induction e arbitrary: us rest)
  case (ColumnRef n)
  then show ?case by (auto simp: tkey_eq ParsePrimaryExpression.simps)
next
  case (Literal l)
  show ?case
  proof (cases l)
    case (Lit_int i)
    then have "nat (sint i) < 2 ^ 31" "word_of_nat (nat (sint i)) = i"
      using Literal.prems(2) sint_lt [of i] by (simp_all add: nat_less_iff)
    then show ?thesis
      using Literal.prems Lit_int stoi_nat_str [of "nat (sint i)"]
      by (auto simp: tkey_eq ParsePrimaryExpression.simps map_r_fst_def int_str_def)
  qed (use Literal.prems in \<open>auto simp: tkey_eq ParsePrimaryExpression.simps\<close>)
next
  case (BinaryOp p l r)
  from BinaryOp.prems(1) obtain a ls m rs b where us: "us = a # ls @ m # rs @ [b]"
    and a: "tok_type a = TK_LPAREN" and m: "tok_type m = op_token p" and b: "tok_type b = TK_RPAREN"
    and l: "map tkey ls = expr_keys l" and r: "map tkey rs = expr_keys r"
    by (auto dest!: map_keys_split simp: map_eq_Cons_conv tkey_eq)
  have "peek_type (m # rs @ b # rest) \<noteq> TK_LPAREN" using m by (cases p) simp_all
  then have "ParseOrExpression (ls @ m # rs @ b # rest) = Inr (BinaryOp p l r, b # rest)"
    using BinaryOp.IH(1) [OF l] BinaryOp.IH(2) [OF r, of "b # rest"] BinaryOp.prems(2) b m
    by (intro or_of_binary) (auto simp: stops_RPAREN)
  then show ?case using a b us by (simp add: ParsePrimaryExpression.simps)
next
  case (AggFunc g arg)
  show ?case
  proof (cases arg)
    case None
    then show ?thesis
      using AggFunc.prems by (auto simp: map_eq_Cons_conv tkey_eq ParsePrimaryExpression.simps agg_of_name_def)
  next
    case (Some e)
    from AggFunc.prems(1) obtain n a es b where us: "us = n # a # es @ [b]"
      and n: "tok_type n = TK_IDENTIFIER" "tok_text n = agg_name g"
      and a: "tok_type a = TK_LPAREN" and b: "tok_type b = TK_RPAREN" and e: "map tkey es = expr_keys e"
      by (auto simp: Some map_eq_Cons_conv tkey_eq dest!: map_keys_split)
    have "ParseOrExpression (es @ b # rest) = Inr (e, b # rest)"
      using AggFunc.IH [of e es "b # rest"] AggFunc.prems(2) b e Some
      by (intro or_of_primary) (auto simp: stops_RPAREN)
    then show ?thesis
      using us n a b first_key [OF e, of "b # rest"] AggFunc.prems(2) Some
      by (simp add: ParsePrimaryExpression.simps)
  qed
qed

end
