(* ===== verification/Data_Chunk.thy ===== *)
theory Data_Chunk
  imports Vector
begin

text \<open>
  \<^verbatim>\<open>src/src/storage/datachunk.{h,cpp}\<close>: the chunks in which rows are appended.  A chunk is one
  buffer per column, shared between slices, and the window \<open>slice_start_\<close>, \<open>size_\<close> on it.
\<close>

record data_chunk =
  dc_size :: nat
  dc_slice_start :: nat
  dc_chunks :: "bytes list"
  dc_element_sizes :: "nat list"

definition new_chunk :: "nat \<Rightarrow> data_chunk" where
  "new_chunk capacity = \<lparr>dc_size = capacity, dc_slice_start = 0, dc_chunks = [], dc_element_sizes = []\<rparr>"

definition set_size :: "nat \<Rightarrow> data_chunk \<Rightarrow> data_chunk" where
  "set_size n c = c\<lparr>dc_size := n\<rparr>"

text \<open>\<open>resize(n)\<close> of a vector that only grows: the new elements are value-initialised.\<close>

definition grow :: "nat \<Rightarrow> 'a \<Rightarrow> 'a list \<Rightarrow> 'a list" where
  "grow n x xs = (if length xs < n then xs @ replicate (n - length xs) x else xs)"

definition set_data :: "nat \<Rightarrow> bytes \<Rightarrow> nat \<Rightarrow> data_chunk \<Rightarrow> data_chunk" where
  "set_data col data es c =
     c\<lparr>dc_chunks := (grow (Suc col) [] (dc_chunks c))[col := data],
       dc_element_sizes := (grow (Suc col) 0 (dc_element_sizes c))[col := es]\<rparr>"

text \<open>\<open>raw_data(col)\<close>, as the bytes from the window's first row on.\<close>

definition raw_data :: "data_chunk \<Rightarrow> nat \<Rightarrow> bytes" where
  "raw_data c col = drop (dc_slice_start c * (dc_element_sizes c ! col)) (dc_chunks c ! col)"

text \<open>
  \<open>Slice\<close>: the chunk keeps the first \<open>boundary\<close> rows of its window.  The other part gets
  \<open>slice_start_ = boundary\<close>, not \<open>slice_start_ + boundary\<close>.
\<close>

definition Slice :: "nat \<Rightarrow> data_chunk \<Rightarrow> data_chunk \<times> data_chunk" where
  "Slice boundary c =
     (c\<lparr>dc_size := boundary\<rparr>, c\<lparr>dc_slice_start := boundary, dc_size := dc_size c - boundary\<rparr>)"

text \<open>\<open>memcpy\<close> of a cell; outside the buffer it is undefined.\<close>

definition chunk_cell :: "data_chunk \<Rightarrow> nat \<Rightarrow> nat \<Rightarrow> bytes result" where
  "chunk_cell c col row =
     (if col < length (dc_chunks c) \<and> col < length (dc_element_sizes c) \<and>
         Suc row * dc_element_sizes c ! col \<le> length (raw_data c col)
      then Inr (cell (dc_element_sizes c ! col) (raw_data c col) row)
      else Inl Undefined_behaviour)"

text \<open>The chunk as rows of cells.\<close>

definition chunk_row :: "data_chunk \<Rightarrow> nat \<Rightarrow> bytes list" where
  "chunk_row c row = map (\<lambda>col. cell (dc_element_sizes c ! col) (raw_data c col) row) [0..<length (dc_chunks c)]"

definition chunk_rows :: "data_chunk \<Rightarrow> bytes list list" where
  "chunk_rows c = map (chunk_row c) [0..<dc_size c]"

text \<open>A chunk for the columns \<open>tys\<close>: one buffer per column, wide enough for the window.\<close>

definition chunk_ok :: "data_type list \<Rightarrow> data_chunk \<Rightarrow> bool" where
  "chunk_ok tys c \<longleftrightarrow>
     dc_element_sizes c = map TypeElemSize tys \<and> length (dc_chunks c) = length tys \<and>
     (\<forall>i<length tys. (dc_slice_start c + dc_size c) * TypeElemSize (tys ! i) \<le> length (dc_chunks c ! i))"

lemma chunk_rows_length [simp]: "length (chunk_rows c) = dc_size c"
  by (simp add: chunk_rows_def)

lemma Slice_ok:
  assumes "chunk_ok tys c" "boundary \<le> dc_size c" "dc_slice_start c = 0" "Slice boundary c = (a, b)"
  shows "chunk_ok tys a \<and> chunk_ok tys b"
proof -
  have ab: "a = c\<lparr>dc_size := boundary\<rparr>" "b = c\<lparr>dc_slice_start := boundary, dc_size := dc_size c - boundary\<rparr>"
    using assms(4) by (simp_all add: Slice_def)
  have "boundary * TypeElemSize (tys ! i) \<le> length (dc_chunks c ! i)" if "i < length tys" for i
  proof -
    have "boundary * TypeElemSize (tys ! i) \<le> dc_size c * TypeElemSize (tys ! i)" using assms(2) by simp
    also have "\<dots> \<le> length (dc_chunks c ! i)" using assms(1,3) that by (simp add: chunk_ok_def)
    finally show ?thesis .
  qed
  then show ?thesis using assms(1-3) by (simp add: ab chunk_ok_def)
qed

lemma cell_drop: "cell k (drop (n * k) bs) i = cell k bs (n + i)"
  by (simp add: cell_def add_mult_distrib add.commute)

lemma chunk_row_window:
  "chunk_row c row = map (\<lambda>col. cell (dc_element_sizes c ! col) (dc_chunks c ! col) (dc_slice_start c + row))
     [0..<length (dc_chunks c)]"
  by (simp add: chunk_row_def raw_data_def cell_drop)

lemma Slice_rows:
  assumes "boundary \<le> dc_size c" "dc_slice_start c = 0" "Slice boundary c = (a, b)"
  shows "chunk_rows a @ chunk_rows b = chunk_rows c"
proof -
  have ab: "a = c\<lparr>dc_size := boundary\<rparr>" "b = c\<lparr>dc_slice_start := boundary, dc_size := dc_size c - boundary\<rparr>"
    using assms(3) by (simp_all add: Slice_def)
  have "chunk_rows a = map (chunk_row c) [0..<boundary]"
    by (simp add: ab chunk_rows_def chunk_row_def raw_data_def)
  moreover have "chunk_rows b = map (chunk_row c) [boundary..<dc_size c]"
    using assms(1,2) by (intro nth_equalityI) (simp_all add: ab chunk_rows_def chunk_row_window)
  moreover have "[0..<dc_size c] = [0..<boundary] @ [boundary..<dc_size c]"
    using assms(1) upt_add_eq_append [of 0 boundary "dc_size c - boundary"] by simp
  then have "chunk_rows c = map (chunk_row c) [0..<boundary] @ map (chunk_row c) [boundary..<dc_size c]"
    by (simp only: chunk_rows_def map_append)
  ultimately show ?thesis by simp
qed

lemma Slice_rest_row:
  assumes "Slice first c = (a, rest)" "Slice second rest = (a2, rest2)" "dc_slice_start c = 0"
  shows "chunk_row rest2 row = chunk_row c (second + row)" "dc_size rest2 = dc_size c - (first + second)"
  using assms by (auto simp: Slice_def chunk_row_window)

text \<open>Slicing a chunk that is not itself a slice splits its rows: the two parts hold the rows of
  the chunk, in order, without loss or overlap.\<close>

theorem Slice_splits_rows:
  assumes "boundary \<le> dc_size c" "dc_slice_start c = 0" "Slice boundary c = (a, b)"
  shows "chunk_rows a @ chunk_rows b = chunk_rows c"
  using assms by (rule Slice_rows)

text \<open>Slicing the rest of a slice goes wrong: the second rest starts at row \<open>second\<close> of the
  shared buffers, not at \<open>first + second\<close>, so it repeats rows that were handed out before and
  the rows at its end are never seen.\<close>

theorem Slice_of_rest_repeats_rows:
  assumes "Slice first c = (a, rest)" "Slice second rest = (a2, rest2)" "row < dc_size rest2"
    and "dc_slice_start c = 0" "first + second \<le> dc_size c"
  shows "chunk_row rest2 row = chunk_row c (second + row) \<and> dc_size rest2 = dc_size c - (first + second)"
  using Slice_rest_row [OF assms(1,2,4)] by simp

end
