(* ===== verification/Segment.thy ===== *)
theory Segment
  imports Scan_Filter Parser Catalog Data_Chunk
begin

text \<open>
  \<^verbatim>\<open>src/src/storage/segment/\<close>: the immutable file of up to 65536 rows.  The builders collect the
  bytes of each column and the least and greatest value seen; \<open>Flush\<close> lays out metadata and
  columns; the reader maps the file, decides predicates by the statistics and hands out batches
  of at most 1024 rows.  A mapped file is its bytes; a read past its end, or through the null view
  of a missing column, is undefined behaviour.
\<close>

subsection \<open>Column builders\<close>

record column_builder =
  cb_meta :: column_chunk_meta
  cb_row_count :: nat
  cb_data :: bytes

definition new_column_builder :: "column_chunk_meta \<Rightarrow> column_builder" where
  "new_column_builder m =
     \<lparr>cb_meta = m\<lparr>cm_has_stats := False, cm_min_value := 0, cm_max_value := 0\<rparr>, cb_row_count = 0, cb_data = []\<rparr>"

text \<open>The value of an element as a \<open>double\<close>; only numeric columns keep statistics.\<close>

fun stat_value :: "data_type \<Rightarrow> bytes \<Rightarrow> f64 option" where
  "stat_value DT_INT32 bs = Some (f64_of_int (sint (le_word 4 bs :: i32)))"
| "stat_value DT_INT64 bs = Some (f64_of_int (sint (le_word 8 bs :: i64)))"
| "stat_value DT_FLOAT bs = Some (f64_of_f32 (le_word 4 bs))"
| "stat_value DT_DOUBLE bs = Some (le_word 8 bs)"
| "stat_value DT_VARCHAR bs = None"
| "stat_value DT_INVALID bs = None"

definition update_stats :: "f64 option \<Rightarrow> column_chunk_meta \<Rightarrow> column_chunk_meta" where
  "update_stats v m =
     (case v of
        None \<Rightarrow> m
      | Some v \<Rightarrow>
          if \<not> cm_has_stats m then m\<lparr>cm_min_value := v, cm_max_value := v, cm_has_stats := True\<rparr>
          else m\<lparr>cm_min_value := ieee_min 52 (cm_min_value m) v, cm_max_value := ieee_max 52 (cm_max_value m) v\<rparr>)"

definition Column_Append :: "bytes \<Rightarrow> nat \<Rightarrow> nat \<Rightarrow> column_builder \<Rightarrow> column_builder result" where
  "Column_Append data element_size row_count b =
     (if length data < element_size * row_count then Inl Undefined_behaviour
      else Inr \<lparr>cb_meta = fold (\<lambda>i. update_stats (stat_value (cm_type (cb_meta b)) (drop (i * element_size) data)))
                           [0..<row_count] (cb_meta b),
                cb_row_count = cb_row_count b + row_count,
                cb_data = cb_data b @ take (element_size * row_count) data\<rparr>)"

subsection \<open>Segment builders\<close>

record segment_builder =
  sb_row_count :: nat
  sb_columns :: "column_builder list"

definition new_segment_builder :: "table_schema \<Rightarrow> segment_builder" where
  "new_segment_builder s = \<lparr>sb_row_count = 0,
     sb_columns = map (\<lambda>c. new_column_builder \<lparr>cm_column_id = cs_column_id c, cm_type = cs_type c,
       cm_data_offset = 0, cm_has_stats = False, cm_min_value = 0, cm_max_value = 0\<rparr>) (ts_columns s)\<rparr>"

definition append_column :: "data_chunk \<Rightarrow> nat \<times> column_builder \<Rightarrow> column_builder result" where
  "append_column batch ib =
     (if fst ib < length (dc_chunks batch) \<and> fst ib < length (dc_element_sizes batch)
      then Column_Append (raw_data batch (fst ib)) (dc_element_sizes batch ! fst ib) (dc_size batch) (snd ib)
      else Inl Undefined_behaviour)"

definition Segment_Append :: "data_chunk \<Rightarrow> segment_builder \<Rightarrow> segment_builder result" where
  "Segment_Append batch sb =
     bind_r (map_r (append_column batch) (enumerate 0 (sb_columns sb))) (\<lambda>cols.
       Inr \<lparr>sb_row_count = sb_row_count sb + dc_size batch, sb_columns = cols\<rparr>)"

text \<open>\<open>std::stoul\<close> of the file name: digits after white space and a sign, into 64 bits.\<close>

definition stoul :: "string \<Rightarrow> u64 result" where
  "stoul s =
     (let body = dropWhile is_space s;
          neg = (body \<noteq> [] \<and> hd body = CHR ''-'');
          rest = (if body \<noteq> [] \<and> hd body \<in> {CHR ''-'', CHR ''+''} then tl body else body);
          ds = takeWhile is_digit rest
      in if ds = [] then Inl Invalid_argument
         else if digits_val ds < 2 ^ 64
         then Inr (if neg then - word_of_nat (digits_val ds) else word_of_nat (digits_val ds))
         else Inl Out_of_range)"

text \<open>The metadata first with offsets zero, to learn its size, then with the offsets of the columns.\<close>

fun place_columns :: "nat \<Rightarrow> column_builder list \<Rightarrow> column_chunk_meta list" where
  "place_columns offset [] = []"
| "place_columns offset (b # bs) =
     (cb_meta b)\<lparr>cm_data_offset := word_of_nat offset\<rparr> #
     place_columns (offset + cb_row_count b * TypeElemSize (cm_type (cb_meta b))) bs"

definition segment_meta_of :: "string \<Rightarrow> u32 \<Rightarrow> segment_builder \<Rightarrow> segment_meta" where
  "segment_meta_of name sid sb =
     (let probe = \<lparr>sm_segment_id = sid, sm_row_count = word_of_nat (sb_row_count sb), sm_path = name,
                   sm_chunks = map cb_meta (sb_columns sb)\<rparr>;
          meta_size = length (SegmentMeta_Serialize probe [])
      in probe\<lparr>sm_chunks := place_columns meta_size (sb_columns sb)\<rparr>)"

definition Segment_Flush :: "io \<Rightarrow> string \<Rightarrow> segment_builder \<Rightarrow> bytes option \<Rightarrow> bool \<times> bytes option" where
  "Segment_Flush io name sb file =
     (case stoul name of
        Inl _ \<Rightarrow> (False, file)
      | Inr n \<Rightarrow> write_file io
          (SegmentMeta_Serialize (segment_meta_of name (ucast n) sb) [] @ concat (map cb_data (sb_columns sb))) file)"

subsection \<open>Segment readers\<close>

record segment_reader =
  sr_segment_id :: segment_id
  sr_metadata :: segment_meta
  sr_file :: bytes

definition Segment_Open :: "segment_id \<Rightarrow> bytes option \<Rightarrow> segment_reader option" where
  "Segment_Open sid file =
     (case file of
        None \<Rightarrow> None
      | Some bs \<Rightarrow>
          if bs = [] then None
          else (case SegmentMeta_Deserialize (reader_of bs) of
             Inl _ \<Rightarrow> None
           | Inr (m, _) \<Rightarrow>
               if sm_segment_id m \<noteq> sid then None
               else Some \<lparr>sr_segment_id = sid, sr_metadata = m, sr_file = bs\<rparr>))"

definition GetColumnMeta :: "column_id \<Rightarrow> segment_reader \<Rightarrow> column_chunk_meta result" where
  "GetColumnMeta cid r =
     (case List.find (\<lambda>m. cm_column_id m = cid) (sm_chunks (sr_metadata r)) of
        Some m \<Rightarrow> Inr m
      | None \<Rightarrow> (case sm_chunks (sr_metadata r) of [] \<Rightarrow> Inl Undefined_behaviour | m # _ \<Rightarrow> Inr m))"

text \<open>The view of a column: its metadata and the mapped bytes from its offset, or no bytes.\<close>

definition OpenColumn :: "column_id \<Rightarrow> segment_reader \<Rightarrow> column_chunk_meta \<times> bytes option" where
  "OpenColumn cid r =
     (case List.find (\<lambda>m. cm_column_id m = cid) (sm_chunks (sr_metadata r)) of
        Some m \<Rightarrow> (m, Some (drop (unat (cm_data_offset m)) (sr_file r)))
      | None \<Rightarrow> (\<lparr>cm_column_id = 0, cm_type = DT_INVALID, cm_data_offset = 0, cm_has_stats = False,
                  cm_min_value = 0, cm_max_value = 0\<rparr>, None))"

subsection \<open>Pruning by statistics\<close>

datatype segment_match = SKIP | ALL_MATCH | NEED_FILTER

definition CondValueAsDouble :: "condition \<Rightarrow> f64 option" where
  "CondValueAsDouble cond =
     (case cond_value cond of
        CV_int32 v \<Rightarrow> Some (f64_of_int (sint v))
      | CV_int64 v \<Rightarrow> Some (f64_of_int (sint v))
      | CV_double d \<Rightarrow> Some d
      | CV_string _ \<Rightarrow> None)"

definition EvaluateByStats :: "column_chunk_meta \<Rightarrow> condition \<Rightarrow> segment_match" where
  "EvaluateByStats m cond =
     (if \<not> cm_has_stats m then NEED_FILTER
      else case CondValueAsDouble cond of
        None \<Rightarrow> NEED_FILTER
      | Some v \<Rightarrow>
        (let lo = cm_min_value m; hi = cm_max_value m in
         case cond_op cond of
           CMP_EQ \<Rightarrow> if f64_lt v lo \<or> f64_lt hi v then SKIP
                    else if f64_eq lo v \<and> f64_eq hi v then ALL_MATCH else NEED_FILTER
         | CMP_NE \<Rightarrow> if f64_eq lo v \<and> f64_eq hi v then SKIP
                    else if f64_lt v lo \<or> f64_lt hi v then ALL_MATCH else NEED_FILTER
         | CMP_GT \<Rightarrow> if f64_le hi v then SKIP else if f64_lt v lo then ALL_MATCH else NEED_FILTER
         | CMP_GE \<Rightarrow> if f64_lt hi v then SKIP else if f64_le v lo then ALL_MATCH else NEED_FILTER
         | CMP_LT \<Rightarrow> if f64_le v lo then SKIP else if f64_lt hi v then ALL_MATCH else NEED_FILTER
         | CMP_LE \<Rightarrow> if f64_lt v lo then SKIP else if f64_le hi v then ALL_MATCH else NEED_FILTER))"

record filter_decision =
  fd_skip_segment :: bool
  fd_row_filter_mask :: "u8 list"

text \<open>The loop over the predicates; a SKIP clears the mask and returns.\<close>

fun evaluate_loop :: "condition list \<Rightarrow> segment_reader \<Rightarrow> u8 list \<Rightarrow> filter_decision result" where
  "evaluate_loop [] r fm = Inr \<lparr>fd_skip_segment = False, fd_row_filter_mask = fm\<rparr>"
| "evaluate_loop (cond # conds) r fm =
     bind_r (GetColumnMeta (cond_column cond) r) (\<lambda>m.
       case EvaluateByStats m cond of
         SKIP \<Rightarrow> Inr \<lparr>fd_skip_segment = True, fd_row_filter_mask = []\<rparr>
       | ALL_MATCH \<Rightarrow> evaluate_loop conds r (fm @ [0])
       | NEED_FILTER \<Rightarrow> evaluate_loop conds r (fm @ [1]))"

definition EvaluatePredicates :: "condition list \<Rightarrow> segment_reader \<Rightarrow> filter_decision result" where
  "EvaluatePredicates conds r = evaluate_loop conds r []"

subsection \<open>Reading rows\<close>

definition view_column :: "nat \<Rightarrow> nat \<Rightarrow> segment_reader \<Rightarrow> column_id \<Rightarrow> column_data result" where
  "view_column offset n r cid =
     (case OpenColumn cid r of
        (m, None) \<Rightarrow> Inl Undefined_behaviour
      | (m, Some bs) \<Rightarrow>
          if (offset + n) * TypeElemSize (cm_type m) \<le> length bs
          then Inr (Column_CopyFrom (drop (offset * TypeElemSize (cm_type m)) bs) n True (empty_column (cm_type m)))
          else Inl Undefined_behaviour)"

definition scan_columns :: "scan_options \<Rightarrow> segment_reader \<Rightarrow> column_id list" where
  "scan_columns options r =
     (if so_columns options = [] then map cm_column_id (sm_chunks (sr_metadata r)) else so_columns options)"

definition GetVectorBatch ::
  "scan_options \<Rightarrow> nat \<Rightarrow> segment_reader \<Rightarrow> vector_batch \<Rightarrow> (bool \<times> vector_batch) result" where
  "GetVectorBatch options offset r output =
     (let rows = unat (sm_row_count (sr_metadata r)) in
      if offset \<ge> rows then Inr (False, output)
      else
        let n = min kVectorBatchSize (rows - offset); cols = scan_columns options r in
        bind_r (map_r (\<lambda>cid. GetColumnMeta cid r) cols) (\<lambda>metas.
        bind_r (map_r (view_column offset n r) cols) (\<lambda>cds.
          Inr (n > 0, SetIdentitySelection n ((Batch_Reset output)\<lparr>vb_columns := cds\<rparr>)))))"

definition gather_column :: "u32 list \<Rightarrow> segment_reader \<Rightarrow> column_id \<Rightarrow> column_data result" where
  "gather_column offs r cid =
     (case OpenColumn cid r of
        (m, None) \<Rightarrow> Inl Undefined_behaviour
      | (m, Some bs) \<Rightarrow>
          if \<forall>off\<in>set offs. Suc (unat off) * TypeElemSize (cm_type m) \<le> length bs
          then Inr \<lparr>cd_type = cm_type m, cd_buffer = concat (map (\<lambda>off. cell (TypeElemSize (cm_type m)) bs (unat off)) offs),
                    cd_count = length offs, cd_is_view = False\<rparr>
          else Inl Undefined_behaviour)"

definition GatherRows ::
  "u32 list \<Rightarrow> column_id list \<Rightarrow> segment_reader \<Rightarrow> vector_batch \<Rightarrow> (bool \<times> vector_batch) result" where
  "GatherRows offs cols r output =
     (if offs = [] \<or> cols = [] then Inr (False, Batch_Reset output)
      else if \<exists>off\<in>set offs. off \<ge> sm_row_count (sr_metadata r) then Inr (False, Batch_Reset output)
      else bind_r (map_r (\<lambda>cid. GetColumnMeta cid r) cols) (\<lambda>metas.
           bind_r (map_r (gather_column offs r) cols) (\<lambda>cds.
             Inr (True, SetIdentitySelection (length offs) ((Batch_Reset output)\<lparr>vb_columns := cds\<rparr>)))))"


subsection \<open>Pruning is sound\<close>

text \<open>
  The statistics bound the elements of a column: every element as a double lies between them, and no
  NaN is involved.
\<close>

definition stats_bound :: "column_chunk_meta \<Rightarrow> f64 list \<Rightarrow> bool" where
  "stats_bound m vs \<longleftrightarrow>
     (cm_has_stats m \<longleftrightarrow> vs \<noteq> []) \<and>
     (cm_has_stats m \<longrightarrow> \<not> f64_nan (cm_min_value m) \<and> \<not> f64_nan (cm_max_value m) \<and>
        (\<forall>v\<in>set vs. ieee_key (cm_min_value m) \<le> ieee_key v \<and> ieee_key v \<le> ieee_key (cm_max_value m)))"

lemma ieee_min_key:
  "\<not> ieee_nan m a \<Longrightarrow> \<not> ieee_nan m b \<Longrightarrow>
   \<not> ieee_nan m (ieee_min m a b) \<and> ieee_key (ieee_min m a b) = min (ieee_key a) (ieee_key b)"
  by (auto simp: ieee_min_def ieee_lt_def)

lemma ieee_max_key:
  "\<not> ieee_nan m a \<Longrightarrow> \<not> ieee_nan m b \<Longrightarrow>
   \<not> ieee_nan m (ieee_max m a b) \<and> ieee_key (ieee_max m a b) = max (ieee_key a) (ieee_key b)"
  by (auto simp: ieee_max_def ieee_lt_def)

lemma update_stats_bound:
  assumes "stats_bound m vs" "\<not> f64_nan v"
  shows "stats_bound (update_stats (Some v) m) (vs @ [v])"
proof (cases "cm_has_stats m")
  case True
  then have nan: "\<not> f64_nan (cm_min_value m)" "\<not> f64_nan (cm_max_value m)"
    using assms(1) by (simp_all add: stats_bound_def)
  show ?thesis
    using assms True ieee_min_key [OF nan(1) assms(2)] ieee_max_key [OF nan(2) assms(2)]
    by (auto simp: stats_bound_def update_stats_def)
next
  case False
  then show ?thesis using assms by (auto simp: stats_bound_def update_stats_def)
qed

lemma fold_update_stats_bound:
  assumes "stats_bound m vs" "\<forall>i\<in>set rows. \<exists>v. f i = Some v \<and> \<not> f64_nan v"
  shows "stats_bound (fold (\<lambda>i. update_stats (f i)) rows m) (vs @ map (\<lambda>i. the (f i)) rows)"
  using assms
proof (induction rows arbitrary: m vs)
  case (Cons i rows)
  then obtain v where v: "f i = Some v" "\<not> f64_nan v" by auto
  show ?case
    using Cons.IH [OF update_stats_bound [OF Cons.prems(1) v(2)]] Cons.prems(2) v(1) by simp
qed simp

text \<open>What the comparisons with the bounds say about each element.\<close>

lemma EvaluateByStats_bound:
  assumes "stats_bound m vs" "x \<in> set vs" "CondValueAsDouble cond = Some v" "\<not> f64_nan x"
  shows "(EvaluateByStats m cond = SKIP \<longrightarrow> \<not> CompareFloat 52 (cond_op cond) x v) \<and>
    (EvaluateByStats m cond = ALL_MATCH \<longrightarrow> CompareFloat 52 (cond_op cond) x v)"
proof -
  have s: "cm_has_stats m" "\<not> f64_nan (cm_min_value m)" "\<not> f64_nan (cm_max_value m)"
    "ieee_key (cm_min_value m) \<le> ieee_key x" "ieee_key x \<le> ieee_key (cm_max_value m)"
    using assms(1,2) by (auto simp: stats_bound_def)
  show ?thesis
    using s assms(4)
    by (cases "cond_op cond")
      (auto simp: EvaluateByStats_def assms(3) Let_def ieee_le_def ieee_lt_def ieee_eq_def split: if_splits)
qed

text \<open>
  Integers of at most 53 bits are doubles, so comparing them after conversion is comparing them: with
  another integer of any size, and with a double.
\<close>

lemma units_of_small:
  assumes "\<bar>n\<bar> < 2 ^ 53"
  shows "ieee_units 52 (f64_of_int n) = n * 2 ^ 1074"
proof -
  have "nat \<bar>n\<bar> \<le> 2 ^ 53" using assms by simp
  then have "nat \<bar>n\<bar> * 2 ^ 1074 \<le> 2 ^ 53 * 2 ^ 1074" by (rule mult_le_mono1)
  also have "(2::nat) ^ 53 * 2 ^ 1074 = 2 ^ 1127" unfolding power_add [symmetric] by simp
  finally have "fp_round 52 (nat \<bar>n\<bar> * 2 ^ 1074) 1 \<le> fp_round 52 (2 ^ 1127) 1" by (intro fp_round_mono) simp_all
  also have "fp_round 52 (2 ^ 1127) 1 = (1127 - 52) * 2 ^ 52 + 2 ^ 52" by (rule fp_round_pow2) simp
  also have "\<dots> \<le> ieee_inf 52 TYPE(64)" by (simp add: ieee_inf_def)
  finally show ?thesis
    unfolding f64_of_int_def using assms by (intro ieee_units_of_int) simp_all
qed

lemma key_of_int_strict:
  assumes "\<bar>a\<bar> < 2 ^ 53" "\<bar>b\<bar> < 2 ^ 53" "a < b"
  shows "ieee_key (f64_of_int a) < ieee_key (f64_of_int b)"
proof -
  have "a * 2 ^ 1074 < b * 2 ^ 1074" using assms(3) by (intro mult_strict_right_mono) simp_all
  then show ?thesis
    unfolding ieee_key_less_iff_units [of _ _ 52] units_of_small [OF assms(1)] units_of_small [OF assms(2)] .
qed

lemma key_of_int_less_iff:
  assumes "\<bar>a\<bar> < 2 ^ 53 - 1"
  shows "ieee_key (f64_of_int a) < ieee_key (f64_of_int b) \<longleftrightarrow> a < b"
    and "ieee_key (f64_of_int b) < ieee_key (f64_of_int a) \<longleftrightarrow> b < a"
proof -
  have up: "ieee_key (f64_of_int a) < ieee_key (f64_of_int (a + 1))"
    and down: "ieee_key (f64_of_int (a - 1)) < ieee_key (f64_of_int a)"
    using assms by (intro key_of_int_strict; simp add: abs_less_iff)+
  show "ieee_key (f64_of_int a) < ieee_key (f64_of_int b) \<longleftrightarrow> a < b"
    using f64_of_int_mono [of b a] f64_of_int_mono [of "a + 1" b] up by fastforce
  show "ieee_key (f64_of_int b) < ieee_key (f64_of_int a) \<longleftrightarrow> b < a"
    using f64_of_int_mono [of a b] f64_of_int_mono [of b "a - 1"] down by fastforce
qed

lemma CompareFloat_of_int:
  assumes "\<bar>a\<bar> < 2 ^ 53 - 1"
  shows "CompareFloat 52 op (f64_of_int a) (f64_of_int b) = cmp_int op a b"
proof -
  have "ieee_key (f64_of_int a) = ieee_key (f64_of_int b) \<longleftrightarrow> a = b"
    using key_of_int_less_iff [OF assms, of b] less_irrefl linorder_neqE_linordered_idom by metis
  then have eq: "ieee_key (f64_of_int a) = ieee_key (f64_of_int b) \<longleftrightarrow> a = b"
    "ieee_key (f64_of_int b) = ieee_key (f64_of_int a) \<longleftrightarrow> b = a" by (metis, metis)
  show ?thesis
    by (cases op) (simp_all only: CompareFloat.simps cmp_int.simps ieee_eq_def ieee_lt_def ieee_le_def
        f64_of_int_not_nan eq key_of_int_less_iff [OF assms, of b] order_le_less simp_thms)
qed

subsection \<open>The builder invariant\<close>

definition builder_width :: "column_builder \<Rightarrow> nat" where
  "builder_width b = TypeElemSize (cm_type (cb_meta b))"

definition builder_cells :: "column_builder \<Rightarrow> bytes list" where
  "builder_cells b = cells (builder_width b) (cb_row_count b) (cb_data b)"

text \<open>
  Columns whose statistics are exact: \<open>INT32\<close>, \<open>INT64\<close> within 53 bits, \<open>DOUBLE\<close> without NaN.
\<close>

definition prunable :: "data_type \<Rightarrow> bytes \<Rightarrow> bool" where
  "prunable ty c \<longleftrightarrow> ty = DT_INT32 \<or> ty = DT_INT64 \<and> \<bar>column_int DT_INT64 c\<bar> < 2 ^ 53 - 1 \<or>
     ty = DT_DOUBLE \<and> \<not> f64_nan (le_word 8 c)"

definition builder_ok :: "column_builder \<Rightarrow> bool" where
  "builder_ok b \<longleftrightarrow> length (cb_data b) = cb_row_count b * builder_width b \<and>
     ((\<forall>c\<in>set (builder_cells b). prunable (cm_type (cb_meta b)) c) \<longrightarrow> cm_type (cb_meta b) \<in> {DT_INT32, DT_INT64, DT_DOUBLE} \<longrightarrow>
        stats_bound (cb_meta b) (map (\<lambda>c. the (stat_value (cm_type (cb_meta b)) c)) (builder_cells b)))"

lemma prunable_stat_value:
  assumes "prunable ty c"
  shows "\<exists>v. stat_value ty c = Some v \<and> \<not> f64_nan v"
  using assms by (auto simp: prunable_def)

lemma stat_value_cell:
  assumes "Suc i * TypeElemSize ty \<le> length bs"
  shows "stat_value ty (drop (i * TypeElemSize ty) bs) = stat_value ty (cell (TypeElemSize ty) bs i)"
  using assms by (cases ty) (simp_all add: cell_def le_word_take)

lemma update_stats_sel [simp]:
  "cm_type (update_stats v m) = cm_type m" "cm_column_id (update_stats v m) = cm_column_id m"
  by (auto simp: update_stats_def split: option.splits)

lemma fold_update_stats_sel [simp]:
  "cm_type (fold (\<lambda>i. update_stats (f i)) xs m) = cm_type m"
  "cm_column_id (fold (\<lambda>i. update_stats (f i)) xs m) = cm_column_id m"
  by (induction xs arbitrary: m) simp_all

lemma cells_append:
  assumes "length xs = n * k"
  shows "cells k (n + m) (xs @ ys) = cells k n xs @ cells k m ys"
proof (rule nth_equalityI)
  fix i assume i: "i < length (cells k (n + m) (xs @ ys))"
  show "cells k (n + m) (xs @ ys) ! i = (cells k n xs @ cells k m ys) ! i"
  proof (cases "i < n")
    case True
    then have "Suc i * k \<le> length xs" using assms by (metis Suc_leI mult_le_mono1)
    then show ?thesis using True i by (simp add: nth_append cell_def)
  next
    case False
    then obtain j where j: "i = n + j" by (metis le_Suc_ex not_less)
    have "cell k (xs @ ys) i = cell k ys j" using assms by (simp add: j cell_def add_mult_distrib)
    then show ?thesis using i j by (simp add: nth_append)
  qed
qed simp

lemma cells_take: "n * k \<le> m \<Longrightarrow> cells k n (take m bs) = cells k n bs"
proof (rule nth_equalityI)
  fix i assume "n * k \<le> m" "i < length (cells k n (take m bs))"
  then have "Suc i * k \<le> m" by (metis Suc_leI cells_length le_trans mult_le_mono1)
  then show "cells k n (take m bs) ! i = cells k n bs ! i"
    using \<open>i < _\<close> by (simp add: cell_def drop_take min_def)
qed simp

lemma Column_Append_ok:
  assumes "Column_Append data (builder_width b) n b = Inr b'" "builder_ok b"
  shows "builder_ok b' \<and> builder_cells b' = builder_cells b @ cells (builder_width b) n data \<and>
    cb_row_count b' = cb_row_count b + n \<and> cm_type (cb_meta b') = cm_type (cb_meta b) \<and>
    cm_column_id (cb_meta b') = cm_column_id (cb_meta b)"
proof -
  let ?ty = "cm_type (cb_meta b)" and ?k = "builder_width b"
  have len: "n * ?k \<le> length data"
    and b': "b' = \<lparr>cb_meta = fold (\<lambda>i. update_stats (stat_value ?ty (drop (i * ?k) data))) [0..<n] (cb_meta b),
        cb_row_count = cb_row_count b + n, cb_data = cb_data b @ take (?k * n) data\<rparr>"
    using assms(1) by (auto simp: Column_Append_def mult.commute split: if_splits)
  have k': "builder_width b' = ?k" "cm_type (cb_meta b') = ?ty" by (simp_all add: b' builder_width_def)
  have bl: "length (cb_data b) = cb_row_count b * ?k" using assms(2) by (simp add: builder_ok_def)
  have cells: "builder_cells b' = builder_cells b @ cells ?k n data"
  proof -
    have "builder_cells b' = cells ?k (cb_row_count b + n) (cb_data b @ take (?k * n) data)"
      by (simp add: builder_cells_def k') (simp add: b')
    also have "\<dots> = builder_cells b @ cells ?k n (take (?k * n) data)"
      by (simp add: cells_append [OF bl] builder_cells_def)
    also have "cells ?k n (take (?k * n) data) = cells ?k n data" by (intro cells_take) (simp add: mult.commute)
    finally show ?thesis .
  qed
  have stat: "stat_value ?ty (drop (i * ?k) data) = stat_value ?ty (cell ?k data i)" if "i < n" for i
  proof -
    have "Suc i * ?k \<le> length data" using that len by (metis Suc_leI le_trans mult_le_mono1)
    then show ?thesis unfolding builder_width_def by (rule stat_value_cell)
  qed
  have bound: "stats_bound (cb_meta b') (map (\<lambda>c. the (stat_value ?ty c)) (builder_cells b'))"
    if p: "\<forall>c\<in>set (builder_cells b'). prunable ?ty c" and ty: "?ty \<in> {DT_INT32, DT_INT64, DT_DOUBLE}"
  proof -
    have old: "stats_bound (cb_meta b) (map (\<lambda>c. the (stat_value ?ty c)) (builder_cells b))"
      using assms(2) p ty by (auto simp: builder_ok_def cells)
    have "\<forall>i\<in>set [0..<n]. prunable ?ty (cell ?k data i)" using p by (auto simp: cells cells_def)
    then have "\<forall>i\<in>set [0..<n]. \<exists>v. stat_value ?ty (drop (i * ?k) data) = Some v \<and> \<not> f64_nan v"
      using stat prunable_stat_value by auto
    from fold_update_stats_bound [OF old this]
    have "stats_bound (cb_meta b') (map (\<lambda>c. the (stat_value ?ty c)) (builder_cells b) @
        map (\<lambda>i. the (stat_value ?ty (drop (i * ?k) data))) [0..<n])" by (simp add: b')
    also have "map (\<lambda>i. the (stat_value ?ty (drop (i * ?k) data))) [0..<n] =
        map (\<lambda>c. the (stat_value ?ty c)) (cells ?k n data)"
      using stat by (simp add: cells_def)
    finally show ?thesis by (simp add: cells)
  qed
  have "length (cb_data b') = cb_row_count b' * ?k"
    using bl len by (simp add: b' min_def algebra_simps)
  then show ?thesis using bound cells k' by (simp add: builder_ok_def) (simp add: b')
qed

text \<open>The pushed condition on a cell, against the comparison of doubles the statistics use.\<close>

lemma CompareFloat_int_double:
  assumes "\<bar>a\<bar> < 2 ^ 53" "\<not> f64_nan d"
  shows "CompareFloat 52 op (f64_of_int a) d = cmp_int op (a * f64_one) (ieee_units 52 d)"
proof -
  have u: "ieee_units 52 (f64_of_int a) = a * f64_one"
    unfolding f64_one_def using units_of_small [OF assms(1)] .
  have key: "ieee_key (f64_of_int a) < ieee_key d \<longleftrightarrow> a * f64_one < ieee_units 52 d"
    "ieee_key d < ieee_key (f64_of_int a) \<longleftrightarrow> ieee_units 52 d < a * f64_one"
    "ieee_key (f64_of_int a) = ieee_key d \<longleftrightarrow> a * f64_one = ieee_units 52 d"
    "ieee_key d = ieee_key (f64_of_int a) \<longleftrightarrow> ieee_units 52 d = a * f64_one"
    by (simp_all only: ieee_key_less_iff_units [of _ _ 52] ieee_key_eq_iff_units [of _ _ 52] u)
  show ?thesis
    using assms(2)
    by (cases op) (simp_all only: CompareFloat.simps cmp_int.simps ieee_eq_def ieee_lt_def ieee_le_def
        f64_of_int_not_nan key order_le_less simp_thms)
qed

lemma CompareFloat_nan: "f64_nan d \<Longrightarrow> CompareFloat 52 op x d = (op = CMP_NE)"
  by (cases op) (auto simp: ieee_eq_def ieee_lt_def ieee_le_def)

lemma condition_as_doubles:
  assumes "prunable ty c" "CondValueAsDouble cond = Some v"
  shows "condition_holds ty cond c = CompareFloat 52 (cond_op cond) (the (stat_value ty c)) v"
proof (cases "ty = DT_DOUBLE")
  case True
  have "LiteralAsDouble cond = Some v"
    using assms(2) by (simp add: LiteralAsDouble_def CondValueAsDouble_def split: cond_value.splits)
  then show ?thesis by (simp add: True condition_holds_def)
next
  case False
  define a where "a = column_int ty c"
  have ty: "ty = DT_INT32 \<or> ty = DT_INT64" and small: "\<bar>a\<bar> < 2 ^ 53 - 1"
    using assms(1) False column_int_bounds(1) [of ty c] by (auto simp: prunable_def a_def)
  have sv: "the (stat_value ty c) = f64_of_int a" using ty by (auto simp: a_def column_int_def)
  have ch: "condition_holds ty cond c = literal_holds (cond_op cond) a (cond_value cond)"
    using ty by (auto simp: condition_holds_def a_def)
  show ?thesis
  proof (cases "cond_value cond")
    case (CV_double d)
    then have "v = d" using assms(2) by (simp add: CondValueAsDouble_def)
    moreover have "\<bar>a\<bar> < 2 ^ 53" using small by simp
    moreover have "literal_holds (cond_op cond) a (CV_double d) \<longleftrightarrow>
        (if f64_nan d then cond_op cond = CMP_NE else cmp_int (cond_op cond) (a * f64_one) (ieee_units 52 d))"
      by (simp only: literal_holds_def cond_value.case f64_one_def)
    ultimately show ?thesis unfolding ch sv CV_double by (simp add: CompareFloat_int_double CompareFloat_nan)
  qed (use assms(2) in \<open>auto simp: ch sv CompareFloat_of_int [OF small] literal_holds_def CondValueAsDouble_def\<close>)
qed

lemma EvaluateByStats_sound:
  assumes "builder_ok b" "\<forall>c\<in>set (builder_cells b). prunable (cm_type (cb_meta b)) c" "c \<in> set (builder_cells b)"
  shows "(EvaluateByStats (cb_meta b) cond = SKIP \<longrightarrow> \<not> condition_holds (cm_type (cb_meta b)) cond c) \<and>
    (EvaluateByStats (cb_meta b) cond = ALL_MATCH \<longrightarrow> condition_holds (cm_type (cb_meta b)) cond c)"
proof (cases "CondValueAsDouble cond")
  case None
  then show ?thesis by (simp add: EvaluateByStats_def)
next
  case (Some v)
  let ?ty = "cm_type (cb_meta b)"
  have p: "prunable ?ty c" using assms by blast
  then have ty: "?ty \<in> {DT_INT32, DT_INT64, DT_DOUBLE}" by (auto simp: prunable_def)
  have bound: "stats_bound (cb_meta b) (map (\<lambda>c. the (stat_value ?ty c)) (builder_cells b))"
    using assms(1,2) ty unfolding builder_ok_def by blast
  have "the (stat_value ?ty c) \<in> set (map (\<lambda>c. the (stat_value ?ty c)) (builder_cells b))" using assms(3) by simp
  moreover have "\<not> f64_nan (the (stat_value ?ty c))" using prunable_stat_value [OF p] by auto
  ultimately show ?thesis
    using EvaluateByStats_bound [OF bound _ Some] condition_as_doubles [OF p Some] by blast
qed

subsection \<open>Appending, flushing and opening again\<close>

text \<open>The rows a builder holds, each the list of its cells.\<close>

definition segment_rows :: "segment_builder \<Rightarrow> bytes list list" where
  "segment_rows sb = map (\<lambda>i. map (\<lambda>b. builder_cells b ! i) (sb_columns sb)) [0..<sb_row_count sb]"

definition segment_ok :: "segment_builder \<Rightarrow> bool" where
  "segment_ok sb \<longleftrightarrow> (\<forall>b\<in>set (sb_columns sb). builder_ok b \<and> cb_row_count b = sb_row_count sb)"

abbreviation builder_types :: "segment_builder \<Rightarrow> data_type list" where
  "builder_types sb \<equiv> map (\<lambda>b. cm_type (cb_meta b)) (sb_columns sb)"

abbreviation builder_ids :: "segment_builder \<Rightarrow> column_id list" where
  "builder_ids sb \<equiv> map (\<lambda>b. cm_column_id (cb_meta b)) (sb_columns sb)"

lemma builder_cells_length [simp]: "length (builder_cells b) = cb_row_count b"
  by (simp add: builder_cells_def)

lemma segment_rows_length [simp]: "length (segment_rows sb) = sb_row_count sb"
  by (simp add: segment_rows_def)

lemma new_segment_builder_ok:
  "segment_ok (new_segment_builder s) \<and> segment_rows (new_segment_builder s) = [] \<and>
   builder_types (new_segment_builder s) = map cs_type (ts_columns s) \<and>
   builder_ids (new_segment_builder s) = map cs_column_id (ts_columns s)"
  by (simp add: segment_ok_def new_segment_builder_def new_column_builder_def builder_ok_def builder_cells_def
      cells_def stats_bound_def segment_rows_def)

lemma Segment_Append_ok:
  assumes "Segment_Append chunk sb = Inr sb'" "segment_ok sb" "chunk_ok (builder_types sb) chunk"
  shows "segment_ok sb' \<and> segment_rows sb' = segment_rows sb @ chunk_rows chunk \<and>
    builder_types sb' = builder_types sb \<and> builder_ids sb' = builder_ids sb"
proof -
  let ?n = "length (sb_columns sb)"
  obtain cols where cols: "map_r (append_column chunk) (enumerate 0 (sb_columns sb)) = Inr cols"
    and sb': "sb' = \<lparr>sb_row_count = sb_row_count sb + dc_size chunk, sb_columns = cols\<rparr>"
    using assms(1) by (auto simp: Segment_Append_def elim!: bind_r_InrE)
  have len: "length cols = ?n" using map_r_length [OF cols] by simp
  have sizes: "dc_element_sizes chunk = map TypeElemSize (builder_types sb)" "length (dc_chunks chunk) = ?n"
    using assms(3) by (simp_all add: chunk_ok_def)
  have col: "builder_ok (cols ! i) \<and> builder_cells (cols ! i) = builder_cells (sb_columns sb ! i) @
      cells (dc_element_sizes chunk ! i) (dc_size chunk) (raw_data chunk i) \<and>
      cb_row_count (cols ! i) = sb_row_count sb + dc_size chunk \<and>
      cm_type (cb_meta (cols ! i)) = cm_type (cb_meta (sb_columns sb ! i)) \<and>
      cm_column_id (cb_meta (cols ! i)) = cm_column_id (cb_meta (sb_columns sb ! i))" if i: "i < ?n" for i
  proof -
    have b: "builder_ok (sb_columns sb ! i)" "cb_row_count (sb_columns sb ! i) = sb_row_count sb"
      using assms(2) i by (simp_all add: segment_ok_def)
    have es: "dc_element_sizes chunk ! i = builder_width (sb_columns sb ! i)"
      using i by (simp add: sizes builder_width_def)
    have "append_column chunk (i, sb_columns sb ! i) = Inr (cols ! i)"
      using map_r_nth [OF cols, of i] i by (simp add: nth_enumerate_eq)
    then have "Column_Append (raw_data chunk i) (builder_width (sb_columns sb ! i)) (dc_size chunk) (sb_columns sb ! i) =
        Inr (cols ! i)"
      using es by (auto simp: append_column_def split: if_splits)
    from Column_Append_ok [OF this b(1)] show ?thesis using b(2) es by simp
  qed
  have "segment_rows sb' = segment_rows sb @ chunk_rows chunk"
  proof (rule nth_equalityI)
    fix i assume "i < length (segment_rows sb')"
    then have i: "i < sb_row_count sb + dc_size chunk" by (simp add: sb')
    have "map (\<lambda>b. builder_cells b ! i) cols =
        (if i < sb_row_count sb then map (\<lambda>b. builder_cells b ! i) (sb_columns sb)
         else chunk_row chunk (i - sb_row_count sb))"
      using i col assms(2) len sizes(2)
      by (intro nth_equalityI) (auto simp: nth_append chunk_row_def segment_ok_def)
    then show "segment_rows sb' ! i = (segment_rows sb @ chunk_rows chunk) ! i"
      using i by (simp add: segment_rows_def sb' nth_append chunk_rows_def)
  qed (simp add: sb')
  moreover have "segment_ok sb'" using col len by (auto simp: segment_ok_def sb' in_set_conv_nth)
  moreover have "builder_types sb' = builder_types sb" "builder_ids sb' = builder_ids sb"
    using col len by (auto simp: sb' intro!: nth_equalityI)
  ultimately show ?thesis by simp
qed

lemma stoul_nat_str:
  assumes "n < 2 ^ 64"
  shows "stoul (nat_str n) = Inr (word_of_nat n)"
proof -
  have tw: "takeWhile is_digit (nat_str n) = nat_str n"
    using nat_str_digits [of n] by (simp add: list_all_iff)
  note hd = digit_not_space [OF nat_str_hd [of n]]
  then have dw: "dropWhile is_space (nat_str n) = nat_str n"
    by (cases "nat_str n") simp_all
  show ?thesis using assms hd by (simp add: stoul_def Let_def tw dw)
qed

lemma place_columns_length [simp]: "length (place_columns off bs) = length bs"
  by (induction bs arbitrary: off) simp_all

lemma place_columns_nth:
  assumes "\<forall>b\<in>set bs. length (cb_data b) = cb_row_count b * builder_width b" "i < length bs"
  shows "place_columns off bs ! i = (cb_meta (bs ! i))\<lparr>cm_data_offset :=
    word_of_nat (off + length (concat (map cb_data (take i bs))))\<rparr>"
  using assms
proof (induction bs arbitrary: off i)
  case (Cons b bs)
  then show ?case
    using Cons.IH [of "i - 1" "off + cb_row_count b * builder_width b"]
    by (cases i) (simp_all add: builder_width_def ac_simps)
qed simp

lemma find_distinct:
  "distinct (map f xs) \<Longrightarrow> i < length xs \<Longrightarrow> List.find (\<lambda>x. f x = f (xs ! i)) xs = Some (xs ! i)"
proof (induction xs arbitrary: i)
  case (Cons x xs)
  then show ?case by (cases i) (auto simp: image_iff)
qed simp

text \<open>A reader serves a builder: same row count, and each column id leads to the column's bytes.\<close>

definition reader_serves :: "segment_reader \<Rightarrow> segment_builder \<Rightarrow> bool" where
  "reader_serves r sb \<longleftrightarrow> unat (sm_row_count (sr_metadata r)) = sb_row_count sb \<and>
     map cm_column_id (sm_chunks (sr_metadata r)) = builder_ids sb \<and>
     (\<forall>i < length (sb_columns sb). \<exists>m bs. GetColumnMeta (builder_ids sb ! i) r = Inr m \<and>
        (\<exists>off. m = (cb_meta (sb_columns sb ! i))\<lparr>cm_data_offset := off\<rparr>) \<and>
        OpenColumn (builder_ids sb ! i) r = (m, Some bs) \<and>
        take (length (cb_data (sb_columns sb ! i))) bs = cb_data (sb_columns sb ! i))"

definition segment_file :: "u32 \<Rightarrow> segment_builder \<Rightarrow> bytes" where
  "segment_file sid sb = SegmentMeta_Serialize (segment_meta_of (nat_str (unat sid)) sid sb) [] @
     concat (map cb_data (sb_columns sb))"

lemma unat_u32_less: "unat (w :: u32) < 2 ^ 32"
  by (rule order_less_le_trans [OF unsigned_less]) simp

lemma Segment_Flush_file:
  "Segment_Flush Io_ok (nat_str (unat sid)) sb f = (True, Some (segment_file sid sb))"
proof -
  have "unat sid < 2 ^ 64" using unat_u32_less [of sid] by simp
  moreover have "take_bit 64 sid = sid" by (rule bit_word_eqI) (auto simp: bit_simps)
  ultimately show ?thesis
    by (simp add: Segment_Flush_def stoul_nat_str write_file_def segment_file_def unsigned_ucast_eq)
qed

lemma nat_str_length: "length (nat_str n) \<le> max 1 n"
proof (induction n rule: nat_str.induct)
  case (1 n)
  then show ?case by (simp add: nat_str.simps [of n]) linarith
qed

lemma Segment_Open_serves:
  assumes "segment_ok sb" "distinct (builder_ids sb)" "sb_row_count sb < 2 ^ 32" "length (sb_columns sb) < 2 ^ 32"
    and "length (segment_file sid sb) < 2 ^ 64"
  shows "\<exists>r. Segment_Open sid (Some (segment_file sid sb)) = Some r \<and> reader_serves r sb"
proof -
  define m where "m = segment_meta_of (nat_str (unat sid)) sid sb"
  define pre where "pre = SegmentMeta_Serialize m []"
  define cols where "cols = sb_columns sb"
  have lay: "segment_file sid sb = pre @ concat (map cb_data cols)"
    by (simp add: segment_file_def pre_def m_def cols_def)
  have pre_len: "length pre = 16 + length (nat_str (unat sid)) + 30 * length cols"
    by (simp add: pre_def m_def segment_meta_of_def Let_def SegmentMeta_Serialize_length cols_def)
  have chunks: "sm_chunks m = place_columns (length pre) cols"
    by (simp add: pre_len) (simp add: m_def segment_meta_of_def Let_def SegmentMeta_Serialize_length cols_def)
  have m: "sm_segment_id m = sid" "sm_row_count m = word_of_nat (sb_row_count sb)" "sm_path m = nat_str (unat sid)"
    by (simp_all add: m_def segment_meta_of_def Let_def)
  have "segment_fits m"
    using nat_str_length [of "unat sid"] unat_u32_less [of sid] assms(4)
    by (simp add: segment_fits_def m chunks cols_def)
  then have des: "SegmentMeta_Deserialize (reader_of (segment_file sid sb)) =
      Inr (m, reader_advance (length pre) (reader_of (segment_file sid sb)))"
    unfolding pre_def by (rule segment_codec.des_ser) (simp add: lay pre_def)
  define r where "r = \<lparr>sr_segment_id = sid, sr_metadata = m, sr_file = segment_file sid sb\<rparr>"
  have "segment_file sid sb \<noteq> []" using pre_len lay by auto
  then have "Segment_Open sid (Some (segment_file sid sb)) = Some r"
    by (simp add: Segment_Open_def des m r_def)
  moreover have "reader_serves r sb"
  proof -
    have sizes: "\<forall>b\<in>set cols. length (cb_data b) = cb_row_count b * builder_width b"
      using assms(1) by (simp add: segment_ok_def builder_ok_def cols_def)
    have nth: "sm_chunks m ! i = (cb_meta (cols ! i))\<lparr>cm_data_offset :=
        word_of_nat (length pre + length (concat (map cb_data (take i cols))))\<rparr>" if "i < length cols" for i
      unfolding chunks using place_columns_nth [OF sizes that] .
    have ids: "map cm_column_id (sm_chunks m) = builder_ids sb"
      using nth by (intro nth_equalityI) (simp_all add: chunks, simp_all add: cols_def)
    have "GetColumnMeta (builder_ids sb ! i) r = Inr (sm_chunks m ! i) \<and>
        OpenColumn (builder_ids sb ! i) r = (sm_chunks m ! i, Some (concat (map cb_data (drop i cols))))"
      if i: "i < length cols" for i
    proof -
      have len: "length (sm_chunks m) = length cols" by (simp add: chunks)
      have "List.find (\<lambda>c. cm_column_id c = cm_column_id (sm_chunks m ! i)) (sm_chunks m) = Some (sm_chunks m ! i)"
        using assms(2) i len by (intro find_distinct) (simp_all add: ids)
      moreover have "builder_ids sb ! i = cm_column_id (sm_chunks m ! i)"
        using i len by (simp flip: ids)
      ultimately have find: "List.find (\<lambda>c. cm_column_id c = builder_ids sb ! i) (sm_chunks m) = Some (sm_chunks m ! i)"
        by simp
      define p where "p = length (concat (map cb_data (take i cols)))"
      have split: "concat (map cb_data cols) = concat (map cb_data (take i cols)) @ concat (map cb_data (drop i cols))"
        by (metis append_take_drop_id concat_append map_append)
      have lt: "length pre + p < 2 ^ 64" using assms(5) unfolding lay split p_def by simp
      have o: "cm_data_offset (sm_chunks m ! i) = word_of_nat (length pre + p)"
        using i by (simp add: nth p_def)
      have off: "unat (cm_data_offset (sm_chunks m ! i)) = length pre + p"
        unfolding o unat_of_nat using lt by simp
      have "drop (unat (cm_data_offset (sm_chunks m ! i))) (segment_file sid sb) = concat (map cb_data (drop i cols))"
        unfolding off lay split p_def by simp
      then show ?thesis using find by (simp add: GetColumnMeta_def OpenColumn_def r_def)
    qed
    moreover have "take (length (cb_data (cols ! i))) (concat (map cb_data (drop i cols))) = cb_data (cols ! i)"
      if "i < length cols" for i
      using that by (simp add: Cons_nth_drop_Suc [symmetric])
    moreover have "\<exists>off. sm_chunks m ! i = (cb_meta (cols ! i))\<lparr>cm_data_offset := off\<rparr>" if "i < length cols" for i
      using nth [OF that] by blast
    moreover have "unat (sm_row_count (sr_metadata r)) = sb_row_count sb"
      unfolding r_def segment_reader.select_convs m unat_of_nat using assms(3) by simp
    moreover have "map cm_column_id (sm_chunks (sr_metadata r)) = builder_ids sb" by (simp add: r_def ids)
    ultimately show ?thesis unfolding reader_serves_def cols_def [symmetric] by blast
  qed
  ultimately show ?thesis by blast
qed

subsection \<open>What a reader that serves a builder delivers\<close>

lemma reader_serves_column:
  assumes "reader_serves r sb" "segment_ok sb" "i < length (sb_columns sb)"
  obtains m bs where "GetColumnMeta (builder_ids sb ! i) r = Inr m"
    "OpenColumn (builder_ids sb ! i) r = (m, Some bs)" "cm_type m = builder_types sb ! i"
    "sb_row_count sb * TypeElemSize (cm_type m) \<le> length bs"
    "\<And>row. row < sb_row_count sb \<Longrightarrow> cell (TypeElemSize (cm_type m)) bs row = builder_cells (sb_columns sb ! i) ! row"
proof -
  define b where "b = sb_columns sb ! i"
  obtain m bs off where m: "GetColumnMeta (builder_ids sb ! i) r = Inr m" "m = (cb_meta b)\<lparr>cm_data_offset := off\<rparr>"
      "OpenColumn (builder_ids sb ! i) r = (m, Some bs)" "take (length (cb_data b)) bs = cb_data b"
    using assms(1,3) unfolding reader_serves_def b_def by blast
  have b: "length (cb_data b) = sb_row_count sb * builder_width b" "cb_row_count b = sb_row_count sb"
    using assms(2,3) by (simp_all add: segment_ok_def builder_ok_def b_def)
  have ty: "cm_type m = cm_type (cb_meta b)" by (simp add: m(2))
  have w: "TypeElemSize (cm_type m) = builder_width b" by (simp add: ty builder_width_def)
  have len: "length (cb_data b) \<le> length bs" using arg_cong [OF m(4), of length] by simp
  have "cell (builder_width b) bs row = builder_cells b ! row" if "row < sb_row_count sb" for row
  proof -
    have "builder_cells b = cells (builder_width b) (sb_row_count sb) (take (length (cb_data b)) bs)"
      by (simp add: builder_cells_def b(2) m(4))
    also have "\<dots> = cells (builder_width b) (sb_row_count sb) bs" using b(1) by (intro cells_take) simp
    finally show ?thesis using that by simp
  qed
  then show thesis
    by (intro that [OF m(1,3)]) (use b len assms(3) ty w in \<open>simp_all add: b_def\<close>)
qed

lemma column_builtin_cells:
  "cd_count c = n \<Longrightarrow> i < n \<Longrightarrow> column_cells c ! i = cell (TypeElemSize (cd_type c)) (cd_buffer c) i"
  by (simp add: column_cells_def)

lemma active_rows_identity:
  assumes "n \<le> kVectorBatchSize"
  shows "active_rows (SetIdentitySelection n b) = map (\<lambda>i. map (\<lambda>c. column_cells c ! i) (vb_columns b)) [0..<n]"
  using assms by (simp add: active_rows_def SetIdentitySelection_def SetAll_rows_list)

lemma GetVectorBatch_rows:
  assumes "reader_serves r sb" "segment_ok sb" "offset < sb_row_count sb"
    and "scan_columns options r = map (\<lambda>i. builder_ids sb ! i) js" "\<forall>j\<in>set js. j < length (sb_columns sb)"
    and n: "n = min kVectorBatchSize (sb_row_count sb - offset)"
  obtains b where "GetVectorBatch options offset r output = Inr (True, SetIdentitySelection n b)"
    "map cd_type (vb_columns b) = map (\<lambda>j. builder_types sb ! j) js"
    "\<forall>c\<in>set (vb_columns b). column_ok n c"
    "\<And>row j. row < n \<Longrightarrow> j < length js \<Longrightarrow>
       column_cells (vb_columns b ! j) ! row = builder_cells (sb_columns sb ! (js ! j)) ! (offset + row)"
proof -
  let ?view = "view_column offset n r"
  have view: "\<exists>m c. GetColumnMeta (builder_ids sb ! j) r = Inr m \<and> ?view (builder_ids sb ! j) = Inr c \<and>
      cd_type c = builder_types sb ! j \<and> column_ok n c \<and>
      (\<forall>row < n. column_cells c ! row = builder_cells (sb_columns sb ! j) ! (offset + row))"
    if j: "j < length (sb_columns sb)" for j
  proof -
    obtain m bs where m: "GetColumnMeta (builder_ids sb ! j) r = Inr m"
        "OpenColumn (builder_ids sb ! j) r = (m, Some bs)" "cm_type m = builder_types sb ! j"
        "sb_row_count sb * TypeElemSize (cm_type m) \<le> length bs"
        "\<And>row. row < sb_row_count sb \<Longrightarrow> cell (TypeElemSize (cm_type m)) bs row = builder_cells (sb_columns sb ! j) ! row"
      using reader_serves_column [OF assms(1,2) j] by metis
    define k where "k = TypeElemSize (cm_type m)"
    have le: "(offset + n) * k \<le> length bs"
    proof -
      have "offset + n \<le> sb_row_count sb" using assms(3) n by simp
      then have "(offset + n) * k \<le> sb_row_count sb * k" by (rule mult_le_mono1)
      then show ?thesis using m(4) unfolding k_def by linarith
    qed
    let ?c = "Column_CopyFrom (drop (offset * k) bs) n True (empty_column (cm_type m))"
    have c: "?view (builder_ids sb ! j) = Inr ?c" using le m(2) by (simp add: view_column_def k_def)
    have sel: "cd_type ?c = cm_type m" "cd_count ?c = n" "cd_buffer ?c = take (n * k) (drop (offset * k) bs)"
      by (simp_all add: Column_CopyFrom_def empty_column_def k_def mult.commute)
    have ok: "column_ok n ?c" using le sel by (simp add: column_ok_def k_def add_mult_distrib)
    have "column_cells ?c ! row = builder_cells (sb_columns sb ! j) ! (offset + row)" if "row < n" for row
    proof -
      have "column_cells ?c ! row = cells k n (take (n * k) (drop (offset * k) bs)) ! row"
        by (simp only: column_cells_def sel) (simp only: k_def)
      also have "\<dots> = cell k bs (offset + row)" using that by (simp add: cells_take cell_drop)
      also have "\<dots> = builder_cells (sb_columns sb ! j) ! (offset + row)"
        using that n m(5) [of "offset + row"] by (simp add: k_def less_diff_conv add.commute)
      finally show ?thesis .
    qed
    then show ?thesis using m(1,3) c ok sel(1) by auto
  qed
  obtain metas where ms: "map_r (\<lambda>cid. GetColumnMeta cid r) (map (\<lambda>i. builder_ids sb ! i) js) = Inr metas"
    using view assms(5) map_r_total [of "map (\<lambda>i. builder_ids sb ! i) js" "\<lambda>cid. GetColumnMeta cid r"] by fastforce
  obtain cds where cs: "map_r ?view (map (\<lambda>i. builder_ids sb ! i) js) = Inr cds"
    using view assms(5) map_r_total [of "map (\<lambda>i. builder_ids sb ! i) js" ?view] by fastforce
  have len: "length cds = length js" using map_r_length [OF cs] by simp
  have col: "cd_type (cds ! j) = builder_types sb ! (js ! j) \<and> column_ok n (cds ! j) \<and>
      (\<forall>row < n. column_cells (cds ! j) ! row = builder_cells (sb_columns sb ! (js ! j)) ! (offset + row))"
    if "j < length js" for j
  proof -
    have j: "js ! j < length (sb_columns sb)" using assms(5) that by simp
    have "?view (builder_ids sb ! (js ! j)) = Inr (cds ! j)" using map_r_nth [OF cs, of j] that by simp
    then show ?thesis using view [OF j] by auto
  qed
  have rows: "unat (sm_row_count (sr_metadata r)) = sb_row_count sb" using assms(1) by (simp add: reader_serves_def)
  have "0 < n" using assms(3) n by (simp add: size_defs)
  then have eq: "GetVectorBatch options offset r output =
      Inr (True, SetIdentitySelection n ((Batch_Reset output)\<lparr>vb_columns := cds\<rparr>))"
    using assms(3,4) ms cs n by (simp add: GetVectorBatch_def Let_def rows)
  have types: "map cd_type cds = map (\<lambda>j. builder_types sb ! j) js"
    using col len by (intro nth_equalityI) simp_all
  have ok: "\<forall>c\<in>set cds. column_ok n c" using col len by (auto simp: in_set_conv_nth)
  show thesis
    by (rule that [OF eq]) (use types ok col in simp_all)
qed

text \<open>C34: The segment file round trip: rows appended chunk by chunk, flushed and opened again, come back
  from every scan position, for any choice of columns, as the next (at most 1024) rows in order.\<close>

theorem flush_open_scan:
  assumes "segment_ok sb" "distinct (builder_ids sb)" "sb_row_count sb < 2 ^ 32" "length (sb_columns sb) < 2 ^ 32"
    and "length (segment_file sid sb) < 2 ^ 64" "offset < sb_row_count sb"
    and "js \<noteq> []" "\<forall>j\<in>set js. j < length (sb_columns sb)" "so_columns options = map (\<lambda>j. builder_ids sb ! j) js"
  shows "\<exists>file r b. Segment_Flush Io_ok (nat_str (unat sid)) sb None = (True, file) \<and>
    Segment_Open sid file = Some r \<and> GetVectorBatch options offset r prev = Inr (True, b) \<and>
    active_rows b = map (\<lambda>row. map ((!) row) js) (take kVectorBatchSize (drop offset (segment_rows sb)))"
proof -
  obtain r where r: "Segment_Open sid (Some (segment_file sid sb)) = Some r" "reader_serves r sb"
    using Segment_Open_serves [OF assms(1-5)] by blast
  define n where "n = min kVectorBatchSize (sb_row_count sb - offset)"
  have cols: "scan_columns options r = map (\<lambda>j. builder_ids sb ! j) js"
    using assms(7,9) by (simp add: scan_columns_def)
  obtain b where b: "GetVectorBatch options offset r prev = Inr (True, SetIdentitySelection n b)"
      "map cd_type (vb_columns b) = map (\<lambda>j. builder_types sb ! j) js"
      "\<And>row j. row < n \<Longrightarrow> j < length js \<Longrightarrow>
         column_cells (vb_columns b ! j) ! row = builder_cells (sb_columns sb ! (js ! j)) ! (offset + row)"
    using GetVectorBatch_rows [OF r(2) assms(1,6) cols assms(8) n_def] by metis
  have len: "length (vb_columns b) = length js" using arg_cong [OF b(2), of length] by simp
  have row: "map (\<lambda>c. column_cells c ! i) (vb_columns b) = map ((!) (segment_rows sb ! (offset + i))) js" if "i < n" for i
  proof (rule nth_equalityI)
    have "offset + i < sb_row_count sb" using that by (simp add: n_def less_diff_conv add.commute)
    then show "map (\<lambda>c. column_cells c ! i) (vb_columns b) ! j = map ((!) (segment_rows sb ! (offset + i))) js ! j"
      if "j < length (map (\<lambda>c. column_cells c ! i) (vb_columns b))" for j
      using b(3) [OF \<open>i < n\<close>, of j] that assms(8) len by (simp add: segment_rows_def)
  qed (simp add: len)
  have "active_rows (SetIdentitySelection n b) = map (\<lambda>i. map ((!) (segment_rows sb ! (offset + i))) js) [0..<n]"
    using active_rows_identity [of n b] row by (simp add: n_def)
  also have "\<dots> = map (\<lambda>row. map ((!) row) js) (take kVectorBatchSize (drop offset (segment_rows sb)))"
    using assms(6) by (intro nth_equalityI) (simp_all add: n_def)
  finally show ?thesis using r(1) b(1) Segment_Flush_file by blast
qed

lemma EvaluatePredicates_decides:
  assumes "reader_serves r sb" "segment_ok sb" "EvaluatePredicates conds r = Inr d"
    and "\<forall>j<length conds. col j < length (sb_columns sb) \<and> cond_column (conds ! j) = builder_ids sb ! col j \<and>
      (\<forall>c\<in>set (builder_cells (sb_columns sb ! col j)). prunable (builder_types sb ! col j) c)"
    and "row < sb_row_count sb"
  shows "(fd_skip_segment d \<longrightarrow> (\<exists>j<length conds.
      \<not> condition_holds (builder_types sb ! col j) (conds ! j) (segment_rows sb ! row ! col j))) \<and>
    (\<not> fd_skip_segment d \<longrightarrow> length (fd_row_filter_mask d) = length conds \<and> (\<forall>j<length conds. fd_row_filter_mask d ! j = 0 \<longrightarrow>
      condition_holds (builder_types sb ! col j) (conds ! j) (segment_rows sb ! row ! col j)))"
proof -
  let ?holds = "\<lambda>j. condition_holds (builder_types sb ! col j) (conds ! j) (segment_rows sb ! row ! col j)"
  have meta: "\<exists>m. GetColumnMeta (cond_column (conds ! j)) r = Inr m \<and>
      (EvaluateByStats m (conds ! j) = SKIP \<longrightarrow> \<not> ?holds j) \<and> (EvaluateByStats m (conds ! j) = ALL_MATCH \<longrightarrow> ?holds j)"
    if j: "j < length conds" for j
  proof -
    define b where "b = sb_columns sb ! col j"
    have col: "col j < length (sb_columns sb)" "cond_column (conds ! j) = builder_ids sb ! col j"
      "\<forall>c\<in>set (builder_cells b). prunable (cm_type (cb_meta b)) c"
      using assms(4) j by (auto simp: b_def)
    obtain m off where m: "GetColumnMeta (builder_ids sb ! col j) r = Inr m" "m = (cb_meta b)\<lparr>cm_data_offset := off\<rparr>"
      using assms(1) col(1) unfolding reader_serves_def b_def by blast
    have b: "builder_ok b" "cb_row_count b = sb_row_count sb" using assms(2) col(1) by (auto simp: segment_ok_def b_def)
    have "builder_cells b ! row \<in> set (builder_cells b)" using assms(5) b(2) by simp
    moreover have "segment_rows sb ! row ! col j = builder_cells b ! row"
      using assms(5) col(1) by (simp add: segment_rows_def b_def)
    moreover have "EvaluateByStats m (conds ! j) = EvaluateByStats (cb_meta b) (conds ! j)"
      by (cases "CondValueAsDouble (conds ! j)") (simp_all add: m(2) EvaluateByStats_def Let_def)
    ultimately show ?thesis
      using EvaluateByStats_sound [OF b(1) col(3), of "builder_cells b ! row" "conds ! j"] m(1) col(1,2)
      by (auto simp: b_def)
  qed
  have loop: "(fd_skip_segment d \<longrightarrow> (\<exists>j<length conds. \<not> ?holds j)) \<and>
      (\<not> fd_skip_segment d \<longrightarrow> length (fd_row_filter_mask d) = length conds \<and>
        (\<forall>j<length conds. fd_row_filter_mask d ! j = 0 \<longrightarrow> ?holds j))"
    if "evaluate_loop (drop k conds) r fm = Inr d" "length fm = k" "k \<le> length conds"
      "\<forall>j<k. fm ! j = 0 \<longrightarrow> ?holds j" for k fm
    using that
  proof (induction "length conds - k" arbitrary: k fm)
    case 0
    then show ?case by auto
  next
    case (Suc x)
    then have k: "k < length conds" by simp
    obtain m where m: "GetColumnMeta (cond_column (conds ! k)) r = Inr m"
      "EvaluateByStats m (conds ! k) = SKIP \<Longrightarrow> \<not> ?holds k" "EvaluateByStats m (conds ! k) = ALL_MATCH \<Longrightarrow> ?holds k"
      using meta [OF k] by blast
    have step: "Inr d = (case EvaluateByStats m (conds ! k) of
         SKIP \<Rightarrow> Inr \<lparr>fd_skip_segment = True, fd_row_filter_mask = []\<rparr>
       | ALL_MATCH \<Rightarrow> evaluate_loop (drop (Suc k) conds) r (fm @ [0])
       | NEED_FILTER \<Rightarrow> evaluate_loop (drop (Suc k) conds) r (fm @ [1]))"
      using Suc.prems(1) m(1) k by (simp add: Cons_nth_drop_Suc [symmetric])
    have IH: "evaluate_loop (drop (Suc k) conds) r (fm @ [f]) = Inr d \<Longrightarrow> f = 0 \<longrightarrow> ?holds k \<Longrightarrow> ?case" for f
      using Suc.hyps(1) [of "Suc k" "fm @ [f]"] Suc.hyps(2) Suc.prems k by (auto simp: nth_append less_Suc_eq)
    show ?case
    proof (cases "EvaluateByStats m (conds ! k)")
      case SKIP
      then have "d = \<lparr>fd_skip_segment = True, fd_row_filter_mask = []\<rparr>" using step by simp
      then show ?thesis using m(2) SKIP k by auto
    next
      case ALL_MATCH
      then have "evaluate_loop (drop (Suc k) conds) r (fm @ [0]) = Inr d" using step by simp
      then show ?thesis by (rule IH) (use m(3) ALL_MATCH in simp)
    next
      case NEED_FILTER
      then have "evaluate_loop (drop (Suc k) conds) r (fm @ [1]) = Inr d" using step by simp
      then show ?thesis by (rule IH) simp
    qed
  qed
  show ?thesis using loop [of 0 "[]"] assms(3) by (simp add: EvaluatePredicates_def)
qed

text \<open>C35: Pruning by the statistics of a flushed segment is sound on columns whose statistics are exact
  (\<open>INT32\<close>; \<open>INT64\<close> within 53 bits; \<open>DOUBLE\<close> without NaN): a skipped segment has no row that
  satisfies all conditions, and a condition whose flag is cleared holds for every row.\<close>

theorem EvaluatePredicates_sound:
  assumes "reader_serves r sb" "segment_ok sb" "EvaluatePredicates conds r = Inr d"
    and "\<forall>j<length conds. col j < length (sb_columns sb) \<and> cond_column (conds ! j) = builder_ids sb ! col j \<and>
      (\<forall>c\<in>set (builder_cells (sb_columns sb ! col j)). prunable (builder_types sb ! col j) c)"
    and "row < sb_row_count sb"
  shows "(fd_skip_segment d \<longrightarrow> (\<exists>j<length conds.
      \<not> condition_holds (builder_types sb ! col j) (conds ! j) (segment_rows sb ! row ! col j))) \<and>
    (\<not> fd_skip_segment d \<longrightarrow> length (fd_row_filter_mask d) = length conds \<and> (\<forall>j<length conds. fd_row_filter_mask d ! j = 0 \<longrightarrow>
      condition_holds (builder_types sb ! col j) (conds ! j) (segment_rows sb ! row ! col j)))"
  using assms by (rule EvaluatePredicates_decides)

subsection \<open>Where pruning is not sound\<close>

definition stats_of_cells :: "data_type \<Rightarrow> bytes list \<Rightarrow> column_chunk_meta" where
  "stats_of_cells ty cs = fold (\<lambda>c. update_stats (stat_value ty c)) cs
     \<lparr>cm_column_id = 0, cm_type = ty, cm_data_offset = 0, cm_has_stats = False, cm_min_value = 0, cm_max_value = 0\<rparr>"

definition condition_0 :: "cmp_op \<Rightarrow> cond_value \<Rightarrow> condition" where
  "condition_0 op v = \<lparr>cond_column = 0, cond_op = op, cond_value = v\<rparr>"

lemma f64_of_int_tie: "f64_of_int 9007199254740993 = f64_of_int 9007199254740992"
proof -
  have i: "ilog2 (nat \<bar>9007199254740993\<bar> * 2 ^ 1074) = 1127" "ilog2 (nat \<bar>9007199254740992\<bar> * 2 ^ 1074) = 1127"
    by (rule ilog2_unique; simp)+
  show ?thesis
    unfolding f64_of_int_def ieee_of_int_def fp_round_def ieee_round_def Let_def
    by (simp add: i [simplified] rhe_def Let_def)
qed

lemma le_word_cell [simp]: "le_word 8 (le_bytes 8 (w :: u64)) = w" "le_word 4 (le_bytes 4 (v :: u32)) = v"
  using le_word_le_bytes [of 8 w "[]"] le_word_le_bytes [of 4 v "[]"] by simp_all

lemmas ieee_eval = ieee_lt_def ieee_le_def ieee_eq_def ieee_nan_def ieee_inf_def ieee_key_def ieee_mag_def ieee_neg_def

lemma int64_statistics_match:
  "EvaluateByStats (stats_of_cells DT_INT64 [le_bytes 8 (9007199254740993 :: i64)])
     (condition_0 CMP_EQ (CV_int64 9007199254740992)) = ALL_MATCH"
  by (simp add: EvaluateByStats_def stats_of_cells_def condition_0_def update_stats_def CondValueAsDouble_def
      f64_of_int_tie ieee_lt_def ieee_eq_def)

lemma int64_statistics_row:
  "\<not> condition_holds DT_INT64 (condition_0 CMP_EQ (CV_int64 9007199254740992)) (le_bytes 8 (9007199254740993 :: i64))"
  by (simp add: condition_holds_def condition_0_def literal_holds_def column_int_def)

text \<open>\<open>1.0\<close> and a NaN; the condition \<open><> 1.0\<close> holds of the NaN only.\<close>

lemma nan_statistics_skip:
  "EvaluateByStats (stats_of_cells DT_DOUBLE [le_bytes 8 (0x3FF0000000000000 :: f64), le_bytes 8 (0x7FF8000000000000 :: f64)])
     (condition_0 CMP_NE (CV_double 0x3FF0000000000000)) = SKIP"
  by (simp add: EvaluateByStats_def stats_of_cells_def condition_0_def update_stats_def CondValueAsDouble_def
      ieee_min_def ieee_max_def ieee_eval)

lemma nan_statistics_row:
  "condition_holds DT_DOUBLE (condition_0 CMP_NE (CV_double 0x3FF0000000000000)) (le_bytes 8 (0x7FF8000000000000 :: f64))"
  by (simp add: condition_holds_def condition_0_def LiteralAsDouble_def ieee_eval)

text \<open>The \<open>FLOAT\<close> nearest to \<open>0.1\<close> and the literal \<open>0.1\<close>.\<close>

lemma f64_of_f32_tenth: "f64_of_f32 0x3DCCCCCD = 0x3FB99999A0000000"
proof -
  have f: "\<not> f32_nan 0x3DCCCCCD" "\<not> f32_is_inf 0x3DCCCCCD" "\<not> ieee_neg (0x3DCCCCCD :: f32)"
      "fp_val 23 (ieee_mag (0x3DCCCCCD :: f32)) = 13421773 * 2 ^ 122"
    by (simp_all add: ieee_eval f32_is_inf_def fp_val_def Let_def)
  have i: "ilog2 (13421773 * 2 ^ 122 * 2 ^ 925) = 1070" by (rule ilog2_unique) simp_all
  show ?thesis
    unfolding f64_of_f32_def ieee_round_def fp_round_def Let_def
    by (simp add: f i [simplified] rhe_def Let_def ieee_make_def ieee_inf_def)
qed

lemma f32_of_f64_tenth: "f32_of_f64 0x3FB999999999999A = 0x3DCCCCCD"
proof -
  have f: "\<not> f64_nan 0x3FB999999999999A" "\<not> f64_is_inf 0x3FB999999999999A" "\<not> ieee_neg (0x3FB999999999999A :: f64)"
      "fp_val 52 (ieee_mag (0x3FB999999999999A :: f64)) = 7205759403792794 * 2 ^ 1018"
    by (simp_all add: ieee_eval f64_is_inf_def fp_val_def Let_def)
  have i: "ilog2 (7205759403792794 * 2 ^ 1018 div 2 ^ 925) = 145" by (rule ilog2_unique) simp_all
  show ?thesis
    unfolding f32_of_f64_def ieee_round_def fp_round_def Let_def
    by (simp add: f i [simplified] rhe_def Let_def ieee_make_def ieee_inf_def)
qed

lemma float_statistics_skip:
  "EvaluateByStats (stats_of_cells DT_FLOAT [le_bytes 4 (0x3DCCCCCD :: f32)])
     (condition_0 CMP_EQ (CV_double 0x3FB999999999999A)) = SKIP"
  by (simp add: EvaluateByStats_def stats_of_cells_def condition_0_def update_stats_def CondValueAsDouble_def
      f64_of_f32_tenth ieee_eval)

lemma float_statistics_row:
  "condition_holds DT_FLOAT (condition_0 CMP_EQ (CV_double 0x3FB999999999999A)) (le_bytes 4 (0x3DCCCCCD :: f32))"
  by (simp add: condition_holds_def condition_0_def LiteralAsDouble_def f32_of_f64_tenth ieee_eval)

text \<open>Outside those columns pruning disagrees with the row filter: an \<open>INT64\<close> beyond 53 bits is
  taken for its neighbour and its segment declared a full match; a NaN leaves no trace in the
  statistics, so a segment is skipped that holds a matching row; a \<open>FLOAT\<close> column equal to the
  literal after the conversion the row filter makes is skipped because its widened value differs.\<close>

theorem pruning_disagrees_with_rows:
  "EvaluateByStats (stats_of_cells DT_INT64 [le_bytes 8 (9007199254740993 :: i64)])
     (condition_0 CMP_EQ (CV_int64 9007199254740992)) = ALL_MATCH \<and>
   \<not> condition_holds DT_INT64 (condition_0 CMP_EQ (CV_int64 9007199254740992)) (le_bytes 8 (9007199254740993 :: i64)) \<and>
   EvaluateByStats (stats_of_cells DT_DOUBLE [le_bytes 8 (0x3FF0000000000000 :: f64), le_bytes 8 (0x7FF8000000000000 :: f64)])
     (condition_0 CMP_NE (CV_double 0x3FF0000000000000)) = SKIP \<and>
   condition_holds DT_DOUBLE (condition_0 CMP_NE (CV_double 0x3FF0000000000000)) (le_bytes 8 (0x7FF8000000000000 :: f64)) \<and>
   EvaluateByStats (stats_of_cells DT_FLOAT [le_bytes 4 (0x3DCCCCCD :: f32)])
     (condition_0 CMP_EQ (CV_double 0x3FB999999999999A)) = SKIP \<and>
   condition_holds DT_FLOAT (condition_0 CMP_EQ (CV_double 0x3FB999999999999A)) (le_bytes 4 (0x3DCCCCCD :: f32))"
  by (intro conjI int64_statistics_match int64_statistics_row nan_statistics_skip nan_statistics_row
      float_statistics_skip float_statistics_row)
end
