(* ===== verification/Index.thy ===== *)
theory Index
  imports Schema Data_Chunk
begin

text \<open>
  \<^verbatim>\<open>src/src/storage/index/\<close>: the byte strings that stand for keys, the primary index (unique)
  and the secondary index (several rows per key), and the manager that keeps the indexes of one
  table.  The hash maps are maps; an entry is invisible until its segment is on disk.
\<close>

subsection \<open>Key encoding\<close>

type_synonym encoded_key = bytes

datatype scalar_value = SV_int32 i32 | SV_int64 i64 | SV_float f32 | SV_double f64 | SV_string string

definition AppendComponent :: "data_type \<Rightarrow> bytes \<Rightarrow> encoded_key \<Rightarrow> encoded_key" where
  "AppendComponent ty data out = out @ [data_type_code ty] @ le_bytes 4 (u32_of (length data)) @ data"

definition AppendVarcharComponent :: "bytes \<Rightarrow> encoded_key \<Rightarrow> encoded_key" where
  "AppendVarcharComponent slot out =
     AppendComponent DT_VARCHAR (take (unat (ReadVarcharLength slot)) (drop 4 slot)) out"

fun index_of :: "'a \<Rightarrow> 'a list \<Rightarrow> nat option" where
  "index_of x [] = None"
| "index_of x (y # ys) = (if y = x then Some 0 else map_option Suc (index_of x ys))"

definition SchemaColumnIndex :: "table_schema \<Rightarrow> column_id \<Rightarrow> nat result" where
  "SchemaColumnIndex s cid =
     (case index_of cid (map cs_column_id (ts_columns s)) of
        Some i \<Rightarrow> Inr i
      | None \<Rightarrow> Inl (Runtime_error ''key encoder: key column not found in schema''))"

definition BatchColumnIndex :: "column_id list \<Rightarrow> column_id \<Rightarrow> nat result" where
  "BatchColumnIndex cols cid =
     (case index_of cid cols of
        Some i \<Rightarrow> Inr i
      | None \<Rightarrow> Inl (Runtime_error ''key encoder: key column not present in batch''))"

text \<open>A literal converted to the type of its column; only widening, and double to float.\<close>

fun scalar_bytes :: "data_type \<Rightarrow> scalar_value \<Rightarrow> bytes option" where
  "scalar_bytes DT_INT32 (SV_int32 v) = Some (le_bytes 4 v)"
| "scalar_bytes DT_INT64 (SV_int64 v) = Some (le_bytes 8 v)"
| "scalar_bytes DT_INT64 (SV_int32 v) = Some (le_bytes 8 (scast v :: i64))"
| "scalar_bytes DT_FLOAT (SV_float v) = Some (le_bytes 4 v)"
| "scalar_bytes DT_FLOAT (SV_double v) = Some (le_bytes 4 (f32_of_f64 v))"
| "scalar_bytes DT_DOUBLE (SV_double v) = Some (le_bytes 8 v)"
| "scalar_bytes DT_DOUBLE (SV_float v) = Some (le_bytes 8 (f64_of_f32 v))"
| "scalar_bytes DT_DOUBLE (SV_int32 v) = Some (le_bytes 8 (f64_of_int (sint v)))"
| "scalar_bytes DT_DOUBLE (SV_int64 v) = Some (le_bytes 8 (f64_of_int (sint v)))"
| "scalar_bytes DT_VARCHAR (SV_string s) = Some (map byte_of_char s)"
| "scalar_bytes _ _ = None"

definition AppendScalarComponent :: "data_type \<Rightarrow> scalar_value \<Rightarrow> encoded_key \<Rightarrow> encoded_key result" where
  "AppendScalarComponent ty v out =
     (case scalar_bytes ty v of
        Some bs \<Rightarrow> Inr (AppendComponent ty bs out)
      | None \<Rightarrow> Inl (Runtime_error ''key encoder: literal type does not match key column type''))"

definition EncodedKeyHash :: "encoded_key \<Rightarrow> u64" where
  "EncodedKeyHash key = fold (\<lambda>b h. (h XOR ucast b) * 1099511628211) key 1469598103934665603"

definition append_cell :: "data_type \<Rightarrow> bytes \<Rightarrow> encoded_key \<Rightarrow> encoded_key" where
  "append_cell ty c out =
     (if ty = DT_VARCHAR then AppendVarcharComponent c out else AppendComponent ty c out)"

definition key_column_not_found :: exn where
  "key_column_not_found = Runtime_error ''key encoder: key column not found in schema''"

definition Encode_chunk :: "table_schema \<Rightarrow> key_schema \<Rightarrow> data_chunk \<Rightarrow> nat \<Rightarrow> encoded_key result" where
  "Encode_chunk s key chunk row =
     fold_r (\<lambda>cid out. case FindColumnSchema s cid of
         None \<Rightarrow> Inl key_column_not_found
       | Some col \<Rightarrow> bind_r (SchemaColumnIndex s cid) (\<lambda>i.
           bind_r (chunk_cell chunk i row) (\<lambda>c. Inr (append_cell (cs_type col) c out))))
       (ks_columns key) []"

definition column_cell :: "vector_batch \<Rightarrow> nat \<Rightarrow> nat \<Rightarrow> bytes result" where
  "column_cell b i row =
     (if i < length (vb_columns b) \<and>
         Suc row * TypeElemSize (cd_type (vb_columns b ! i)) \<le> length (cd_buffer (vb_columns b ! i))
      then Inr (cell (TypeElemSize (cd_type (vb_columns b ! i))) (cd_buffer (vb_columns b ! i)) row)
      else Inl Undefined_behaviour)"

definition Encode_batch ::
  "table_schema \<Rightarrow> key_schema \<Rightarrow> column_id list \<Rightarrow> vector_batch \<Rightarrow> nat \<Rightarrow> encoded_key result" where
  "Encode_batch s key cols batch row =
     fold_r (\<lambda>cid out. case FindColumnSchema s cid of
         None \<Rightarrow> Inl key_column_not_found
       | Some col \<Rightarrow> bind_r (BatchColumnIndex cols cid) (\<lambda>i.
           bind_r (column_cell batch i row) (\<lambda>c. Inr (append_cell (cs_type col) c out))))
       (ks_columns key) []"

definition Encode_values :: "table_schema \<Rightarrow> key_schema \<Rightarrow> scalar_value list \<Rightarrow> encoded_key result" where
  "Encode_values s key vals =
     (if length vals \<noteq> length (ks_columns key)
      then Inl (Runtime_error ''key encoder: lookup value count does not match key column count'')
      else fold_r (\<lambda>(cid, v) out. case FindColumnSchema s cid of
          None \<Rightarrow> Inl key_column_not_found
        | Some col \<Rightarrow> AppendScalarComponent (cs_type col) v out) (zip (ks_columns key) vals) [])"

subsection \<open>The primary index\<close>

record row_location =
  rl_segment_id :: segment_id
  rl_row_offset :: u32

record index_entry =
  ie_location :: row_location
  ie_visible :: bool

type_synonym primary_index = "encoded_key \<rightharpoonup> index_entry"

text \<open>\<open>ValidateBatch\<close>: the set grows with the batch; the first repetition ends the loop.\<close>

fun validate_keys :: "primary_index \<Rightarrow> encoded_key set \<Rightarrow> encoded_key list \<Rightarrow> bool" where
  "validate_keys ix seen [] = True"
| "validate_keys ix seen (k # ks) =
     (if k \<in> seen then False else if ix k \<noteq> None then False else validate_keys ix (insert k seen) ks)"

definition ValidateBatch :: "encoded_key list \<Rightarrow> primary_index \<Rightarrow> bool" where
  "ValidateBatch ks ix = validate_keys ix {} ks"

definition Primary_Insert :: "encoded_key \<Rightarrow> row_location \<Rightarrow> bool \<Rightarrow> primary_index \<Rightarrow> primary_index" where
  "Primary_Insert k l v ix = ix(k \<mapsto> \<lparr>ie_location = l, ie_visible = v\<rparr>)"

definition Primary_Lookup :: "encoded_key \<Rightarrow> primary_index \<Rightarrow> row_location option" where
  "Primary_Lookup k ix =
     (case ix k of None \<Rightarrow> None | Some e \<Rightarrow> if \<not> ie_visible e then None else Some (ie_location e))"

definition mark_entry :: "segment_id \<Rightarrow> index_entry \<Rightarrow> index_entry" where
  "mark_entry s e = (if rl_segment_id (ie_location e) = s then e\<lparr>ie_visible := True\<rparr> else e)"

definition Primary_MarkSegmentVisible :: "segment_id \<Rightarrow> primary_index \<Rightarrow> primary_index" where
  "Primary_MarkSegmentVisible s ix = (\<lambda>k. map_option (mark_entry s) (ix k))"

subsection \<open>The secondary index\<close>

type_synonym secondary_index = "encoded_key \<rightharpoonup> index_entry list"

definition Secondary_Insert :: "encoded_key \<Rightarrow> row_location \<Rightarrow> bool \<Rightarrow> secondary_index \<Rightarrow> secondary_index" where
  "Secondary_Insert k l v ix =
     ix(k \<mapsto> (case ix k of None \<Rightarrow> [] | Some es \<Rightarrow> es) @ [\<lparr>ie_location = l, ie_visible = v\<rparr>])"

definition Secondary_LookupEqual :: "encoded_key \<Rightarrow> secondary_index \<Rightarrow> row_location list" where
  "Secondary_LookupEqual k ix =
     (case ix k of None \<Rightarrow> [] | Some es \<Rightarrow> map ie_location (filter ie_visible es))"

definition Secondary_MarkSegmentVisible :: "segment_id \<Rightarrow> secondary_index \<Rightarrow> secondary_index" where
  "Secondary_MarkSegmentVisible s ix = (\<lambda>k. map_option (map (mark_entry s)) (ix k))"

subsection \<open>The indexes of a table\<close>

record table_indexes =
  tix_schema :: table_schema
  tix_primary :: "primary_index option"
  tix_secondary :: "secondary_index list"
  tix_key_columns :: "column_id list"

definition new_indexes :: "table_schema \<Rightarrow> table_indexes" where
  "new_indexes s =
     \<lparr>tix_schema = s,
      tix_primary = (if ts_primary_key s \<noteq> None then Some Map.empty else None),
      tix_secondary = replicate (length (ts_secondary_keys s)) Map.empty,
      tix_key_columns = remdups_adj (sort (concat (map ks_columns (ts_secondary_keys s)) @
        (case ts_primary_key s of None \<Rightarrow> [] | Some k \<Rightarrow> ks_columns k)))\<rparr>"

definition encode_rows :: "(nat \<Rightarrow> encoded_key result) \<Rightarrow> nat \<Rightarrow> encoded_key list result" where
  "encode_rows enc n = map_r enc [0..<n]"

definition ValidatePrimaryKey :: "data_chunk \<Rightarrow> table_indexes \<Rightarrow> bool result" where
  "ValidatePrimaryKey chunk t =
     (case (tix_primary t, ts_primary_key (tix_schema t)) of
        (None, _) \<Rightarrow> Inr True
      | (Some _, None) \<Rightarrow> Inl Undefined_behaviour
      | (Some ix, Some key) \<Rightarrow>
          bind_r (encode_rows (Encode_chunk (tix_schema t) key chunk) (dc_size chunk)) (\<lambda>ks.
            Inr (ValidateBatch ks ix)))"

text \<open>
  \<open>OnAppend\<close> and \<open>RebuildFromBatch\<close> run the same loops, with a different encoder and a
  different visibility: every row into the primary index, then into each secondary index.
\<close>

definition insert_rows ::
  "(encoded_key \<Rightarrow> row_location \<Rightarrow> bool \<Rightarrow> 'ix \<Rightarrow> 'ix) \<Rightarrow> bool \<Rightarrow> (nat \<Rightarrow> encoded_key result) \<Rightarrow>
   row_location list \<Rightarrow> 'ix \<Rightarrow> 'ix result" where
  "insert_rows ins v enc locs ix =
     fold_r (\<lambda>(row, l) ix. bind_r (enc row) (\<lambda>k. Inr (ins k l v ix))) (enumerate 0 locs) ix"

definition insert_everywhere ::
  "bool \<Rightarrow> (key_schema \<Rightarrow> nat \<Rightarrow> encoded_key result) \<Rightarrow> row_location list \<Rightarrow> table_indexes \<Rightarrow> table_indexes result" where
  "insert_everywhere v enc locs t =
     bind_r (case (tix_primary t, ts_primary_key (tix_schema t)) of
               (None, _) \<Rightarrow> Inr None
             | (Some _, None) \<Rightarrow> Inl Undefined_behaviour
             | (Some ix, Some key) \<Rightarrow>
                 bind_r (insert_rows Primary_Insert v (enc key) locs ix) (\<lambda>ix. Inr (Some ix))) (\<lambda>p.
     bind_r (map_r (\<lambda>(key, ix). insert_rows Secondary_Insert v (enc key) locs ix)
               (zip (ts_secondary_keys (tix_schema t)) (tix_secondary t))) (\<lambda>ss.
     Inr (t\<lparr>tix_primary := p, tix_secondary := ss\<rparr>)))"

definition OnAppend :: "data_chunk \<Rightarrow> row_location list \<Rightarrow> table_indexes \<Rightarrow> table_indexes result" where
  "OnAppend chunk locs t = insert_everywhere False (\<lambda>key. Encode_chunk (tix_schema t) key chunk) locs t"

definition RebuildFromBatch ::
  "column_id list \<Rightarrow> vector_batch \<Rightarrow> row_location list \<Rightarrow> table_indexes \<Rightarrow> table_indexes result" where
  "RebuildFromBatch cols batch locs t =
     insert_everywhere True (\<lambda>key. Encode_batch (tix_schema t) key cols batch) locs t"

definition MarkSegmentsVisible :: "segment_id list \<Rightarrow> table_indexes \<Rightarrow> table_indexes" where
  "MarkSegmentsVisible ids t =
     fold (\<lambda>s t. t\<lparr>tix_primary := map_option (Primary_MarkSegmentVisible s) (tix_primary t),
                  tix_secondary := map (Secondary_MarkSegmentVisible s) (tix_secondary t)\<rparr>) ids t"

text \<open>The secondary keys are searched in order; the first with the id answers.\<close>

fun lookup_secondary :: "key_id \<Rightarrow> encoded_key \<Rightarrow> key_schema list \<Rightarrow> secondary_index list \<Rightarrow> row_location list" where
  "lookup_secondary kid k (key # keys) (ix # ixs) =
     (if ks_key_id key = kid then Secondary_LookupEqual k ix else lookup_secondary kid k keys ixs)"
| "lookup_secondary kid k _ _ = []"

definition Index_Lookup :: "key_id \<Rightarrow> encoded_key \<Rightarrow> table_indexes \<Rightarrow> row_location list" where
  "Index_Lookup kid k t =
     (case (tix_primary t, ts_primary_key (tix_schema t)) of
        (Some ix, Some key) \<Rightarrow>
          if ks_key_id key = kid then (case Primary_Lookup k ix of None \<Rightarrow> [] | Some l \<Rightarrow> [l])
          else lookup_secondary kid k (ts_secondary_keys (tix_schema t)) (tix_secondary t)
      | _ \<Rightarrow> lookup_secondary kid k (ts_secondary_keys (tix_schema t)) (tix_secondary t))"


subsection \<open>The contract of an index\<close>

text \<open>
  \<open>ents\<close> is the history of a key, oldest first; \<open>can\<close> says that a batch may be inserted
  (the primary index overwrites, so its keys must be new and distinct).
\<close>

locale key_index =
  fixes ents :: "'ix \<Rightarrow> encoded_key \<Rightarrow> (row_location \<times> bool) list"
    and ins :: "encoded_key \<Rightarrow> row_location \<Rightarrow> bool \<Rightarrow> 'ix \<Rightarrow> 'ix"
    and look :: "encoded_key \<Rightarrow> 'ix \<Rightarrow> row_location list"
    and mark :: "segment_id \<Rightarrow> 'ix \<Rightarrow> 'ix"
    and can :: "encoded_key list \<Rightarrow> 'ix \<Rightarrow> bool"
  assumes ents_ins: "can (k # ks) ix \<Longrightarrow> ents (ins k l v ix) k' = ents ix k' @ (if k' = k then [(l, v)] else [])"
    and can_ins: "can (k # ks) ix \<Longrightarrow> can ks (ins k l v ix)"
    and ents_mark: "ents (mark s ix) k = map (\<lambda>(l, v). (l, v \<or> rl_segment_id l = s)) (ents ix k)"
    and look_ents: "look k ix = map fst (filter snd (ents ix k))"
begin

definition insert_batch :: "bool \<Rightarrow> (encoded_key \<times> row_location) list \<Rightarrow> 'ix \<Rightarrow> 'ix" where
  "insert_batch v kls ix = fold (\<lambda>(k, l). ins k l v) kls ix"

lemma ents_insert_batch:
  "can (map fst kls) ix \<Longrightarrow>
   ents (insert_batch v kls ix) k = ents ix k @ map (\<lambda>(k', l). (l, v)) (filter (\<lambda>(k', l). k' = k) kls)"
proof (induction kls arbitrary: ix)
  case (Cons x kls)
  obtain k' l where x: "x = (k', l)" by (cases x)
  have "can (map fst kls) (ins k' l v ix)" using can_ins Cons.prems x by simp
  then show ?case using Cons.IH ents_ins [of k' "map fst kls" ix l v k] Cons.prems x
    by (simp add: insert_batch_def)
qed (simp add: insert_batch_def)

lemma ents_marks: "ents (fold mark ss ix) k = map (\<lambda>(l, v). (l, v \<or> rl_segment_id l \<in> set ss)) (ents ix k)"
  by (induction ss arbitrary: ix) (auto simp: ents_mark case_prod_beta)

lemma look_marks:
  "look k (fold mark ss ix) = map fst (filter (\<lambda>p. snd p \<or> rl_segment_id (fst p) \<in> set ss) (ents ix k))"
  by (simp add: look_ents ents_marks filter_map comp_def case_prod_unfold)

lemma look_hidden:
  "can (map fst kls) ix \<Longrightarrow> look k (insert_batch False kls ix) = look k ix"
  by (simp add: look_ents ents_insert_batch filter_map comp_def case_prod_beta)

lemma look_shown:
  assumes "can (map fst kls) ix"
  shows "look k (insert_batch True kls ix) = look k ix @ map snd (filter (\<lambda>(k', l). k' = k) kls)"
  by (simp add: look_ents ents_insert_batch [OF assms] filter_map comp_def case_prod_unfold)

end

definition primary_ents :: "primary_index \<Rightarrow> encoded_key \<Rightarrow> (row_location \<times> bool) list" where
  "primary_ents ix k = (case ix k of None \<Rightarrow> [] | Some e \<Rightarrow> [(ie_location e, ie_visible e)])"

definition secondary_ents :: "secondary_index \<Rightarrow> encoded_key \<Rightarrow> (row_location \<times> bool) list" where
  "secondary_ents ix k = (case ix k of None \<Rightarrow> [] | Some es \<Rightarrow> map (\<lambda>e. (ie_location e, ie_visible e)) es)"

definition Primary_LookupList :: "encoded_key \<Rightarrow> primary_index \<Rightarrow> row_location list" where
  "Primary_LookupList k ix = (case Primary_Lookup k ix of None \<Rightarrow> [] | Some l \<Rightarrow> [l])"

lemma validate_keys_iff:
  "validate_keys ix seen ks \<longleftrightarrow> distinct ks \<and> set ks \<inter> seen = {} \<and> set ks \<inter> dom ix = {}"
  by (induction ks arbitrary: seen) auto

lemma ValidateBatch_iff: "ValidateBatch ks ix \<longleftrightarrow> distinct ks \<and> set ks \<inter> dom ix = {}"
  by (simp add: ValidateBatch_def validate_keys_iff)

lemma mark_entry_pair:
  "(ie_location (mark_entry s e), ie_visible (mark_entry s e)) = (ie_location e, ie_visible e \<or> rl_segment_id (ie_location e) = s)"
  by (simp add: mark_entry_def)

interpretation prim: key_index primary_ents Primary_Insert Primary_LookupList Primary_MarkSegmentVisible ValidateBatch
proof
  fix k ks and ix :: primary_index and l v k' s
  show "primary_ents (Primary_Insert k l v ix) k' = primary_ents ix k' @ (if k' = k then [(l, v)] else [])"
    if "ValidateBatch (k # ks) ix"
    using that by (auto simp: ValidateBatch_iff primary_ents_def Primary_Insert_def split: option.splits)
  show "ValidateBatch ks (Primary_Insert k l v ix)" if "ValidateBatch (k # ks) ix"
    using that by (auto simp: ValidateBatch_iff Primary_Insert_def)
  show "primary_ents (Primary_MarkSegmentVisible s ix) k = map (\<lambda>(l, v). (l, v \<or> rl_segment_id l = s)) (primary_ents ix k)"
    by (simp add: primary_ents_def Primary_MarkSegmentVisible_def mark_entry_def split: option.splits)
  show "Primary_LookupList k ix = map fst (filter snd (primary_ents ix k))"
    by (simp add: Primary_LookupList_def Primary_Lookup_def primary_ents_def split: option.splits)
qed

interpretation sec: key_index secondary_ents Secondary_Insert Secondary_LookupEqual Secondary_MarkSegmentVisible
  "\<lambda>ks ix. True"
proof
  fix k ks and ix :: secondary_index and l v k' s
  show "secondary_ents (Secondary_Insert k l v ix) k' = secondary_ents ix k' @ (if k' = k then [(l, v)] else [])"
    by (auto simp: secondary_ents_def Secondary_Insert_def split: option.splits)
  show "secondary_ents (Secondary_MarkSegmentVisible s ix) k = map (\<lambda>(l, v). (l, v \<or> rl_segment_id l = s)) (secondary_ents ix k)"
    by (auto simp: secondary_ents_def Secondary_MarkSegmentVisible_def mark_entry_def split: option.splits)
  show "Secondary_LookupEqual k ix = map fst (filter snd (secondary_ents ix k))"
    by (simp add: Secondary_LookupEqual_def secondary_ents_def filter_map comp_def split: option.splits)
qed simp

lemma filter_key_zip:
  "distinct ks \<Longrightarrow> length ls = length ks \<Longrightarrow> i < length ks \<Longrightarrow>
   filter (\<lambda>(k, l). k = ks ! i) (zip ks ls) = [(ks ! i, ls ! i)]"
proof (induction ks arbitrary: ls i)
  case (Cons k ks)
  obtain l ls' where ls: "ls = l # ls'" using Cons.prems(2) by (cases ls) auto
  show ?case
  proof (cases i)
    case 0
    have "filter (\<lambda>(k', l). k' = k) (zip ks ls') = []"
      using Cons.prems(1) by (auto simp: filter_empty_conv dest: set_zip_leftD)
    then show ?thesis using 0 ls by simp
  next
    case (Suc j)
    then show ?thesis using Cons ls by (auto simp: in_set_conv_nth)
  qed
qed simp

text \<open>The loop over rows inserts the encoded keys in row order.\<close>

lemma insert_rows_enumerate:
  assumes "map_r enc [k..<k + length locs] = Inr ks"
  shows "fold_r (\<lambda>(row, l) ix. bind_r (enc row) (\<lambda>k. Inr (ins k l v ix))) (enumerate k locs) ix =
    Inr (fold (\<lambda>(k, l). ins k l v) (zip ks locs) ix)"
  using assms
proof (induction locs arbitrary: k ks ix)
  case (Cons l locs)
  have "[k..<k + length (l # locs)] = k # [Suc k..<Suc k + length locs]" by (simp add: upt_rec)
  then obtain x xs where x: "enc k = Inr x" "map_r enc [Suc k..<Suc k + length locs] = Inr xs" "ks = x # xs"
    using Cons.prems by (auto elim!: bind_r_InrE)
  then show ?case using Cons.IH [OF x(2)] by simp
qed simp

lemma insert_rows_batch:
  "map_r enc [0..<length locs] = Inr ks \<Longrightarrow>
   insert_rows ins v enc locs ix = Inr (fold (\<lambda>(k, l). ins k l v) (zip ks locs) ix)"
  using insert_rows_enumerate [of enc 0 locs ks] by (simp add: insert_rows_def)

subsection \<open>Uniqueness and visibility\<close>

text \<open>The uniqueness check passes exactly when the keys of the batch are distinct and none of them
  is in the index, whether the row it stands for is visible or not.\<close>

theorem ValidateBatch_exact:
  "ValidateBatch ks ix \<longleftrightarrow> distinct ks \<and> set ks \<inter> dom ix = {}"
  by (rule ValidateBatch_iff)

text \<open>C28: A validated batch is hidden until its segments are marked: lookups answer as before the
  insertion, the uniqueness check already refuses each of its keys, and once the segments are
  visible, the lookup of a key gives the one row inserted under it.\<close>

theorem primary_index_visibility:
  assumes "ValidateBatch ks ix" "length locs = length ks" "i < length ks"
    and "rl_segment_id (locs ! i) \<in> set segs" and "map_r enc [0..<length locs] = Inr ks"
    and "insert_rows Primary_Insert False enc locs ix = Inr ix1"
  shows "Primary_LookupList k ix1 = Primary_LookupList k ix \<and>
    \<not> ValidateBatch [ks ! i] ix1 \<and>
    Primary_Lookup (ks ! i) (fold Primary_MarkSegmentVisible segs ix1) = Some (locs ! i)"
proof -
  have ix1: "ix1 = prim.insert_batch False (zip ks locs) ix"
    using insert_rows_batch [OF assms(5), of Primary_Insert False ix] assms(6)
    by (simp add: prim.insert_batch_def)
  have can: "ValidateBatch (map fst (zip ks locs)) ix" using assms(1,2) by simp
  have fresh: "primary_ents ix (ks ! i) = []"
    using assms(1,3) nth_mem [of i ks] by (auto simp: ValidateBatch_iff primary_ents_def disjoint_iff dom_def split: option.splits)
  have ents: "primary_ents ix1 (ks ! i) = [(locs ! i, False)]"
    using prim.ents_insert_batch [OF can, of False "ks ! i"] fresh assms(1-3)
    by (simp add: ix1 filter_key_zip ValidateBatch_iff)
  then have "ix1 (ks ! i) \<noteq> None" by (auto simp: primary_ents_def split: option.splits)
  moreover have "Primary_LookupList (ks ! i) (fold Primary_MarkSegmentVisible segs ix1) = [locs ! i]"
    using prim.look_marks [of "ks ! i" segs ix1] ents assms(4) by simp
  ultimately show ?thesis
    using prim.look_hidden [OF can, of k] ix1
    by (auto simp: ValidateBatch_iff Primary_LookupList_def split: option.splits)
qed



subsection \<open>Encoded keys stand for the values of the key columns\<close>

definition scalar_short :: "scalar_value \<Rightarrow> bool" where
  "scalar_short v = (case v of SV_string s \<Rightarrow> length s < 2 ^ 32 | _ \<Rightarrow> True)"

text \<open>What a column holds after the literal has been stored in it: the converted bytes, for a
  string behind its length.\<close>

definition stores_value :: "data_type \<Rightarrow> scalar_value \<Rightarrow> bytes \<Rightarrow> bool" where
  "stores_value ty v c \<longleftrightarrow>
     scalar_bytes ty v = Some (if ty = DT_VARCHAR then take (unat (ReadVarcharLength c)) (drop 4 c) else c)"

lemma scalar_bytes_length: "scalar_bytes ty v = Some bs \<Longrightarrow> scalar_short v \<Longrightarrow> length bs < 2 ^ 32"
  by (induction ty v rule: scalar_bytes.induct) (auto simp: scalar_short_def)

lemma AppendComponent_prefix:
  "AppendComponent ty bs out = out @ AppendComponent ty bs []"
  by (simp add: AppendComponent_def)

lemma le_bytes_4_inject: "le_bytes 4 (v::u32) = le_bytes 4 w \<Longrightarrow> v = w"
  using le_word_le_bytes [of 4 v "[]"] le_word_le_bytes [of 4 w "[]"] by simp

lemma AppendComponent_inject:
  assumes "AppendComponent t1 b1 [] @ r1 = AppendComponent t2 b2 [] @ r2" "length b1 < 2 ^ 32" "length b2 < 2 ^ 32"
  shows "t1 = t2 \<and> b1 = b2 \<and> r1 = r2"
proof -
  have 1: "data_type_code t1 = data_type_code t2"
    "le_bytes 4 (u32_of (length b1)) @ b1 @ r1 = le_bytes 4 (u32_of (length b2)) @ b2 @ r2"
    using assms(1) by (simp_all only: AppendComponent_def append_Nil append_assoc append_Cons list.inject)
  have 2: "le_bytes 4 (u32_of (length b1)) = le_bytes 4 (u32_of (length b2)) \<and> b1 @ r1 = b2 @ r2"
    using 1(2) by (intro append_eq_append_conv [THEN iffD1]) simp_all
  then have "u32_of (length b1) = u32_of (length b2)" by (intro le_bytes_4_inject) simp
  then have "length b1 = length b2"
    using unat_u32_of [OF assms(2)] unat_u32_of [OF assms(3)] by (metis)
  then show ?thesis using 1(1) 2 by simp
qed

definition append_value :: "table_schema \<Rightarrow> column_id \<times> scalar_value \<Rightarrow> encoded_key \<Rightarrow> encoded_key result" where
  "append_value s p out = (case FindColumnSchema s (fst p) of
      None \<Rightarrow> Inl key_column_not_found
    | Some col \<Rightarrow> AppendScalarComponent (cs_type col) (snd p) out)"

definition key_component :: "table_schema \<Rightarrow> column_id \<times> scalar_value \<Rightarrow> (data_type \<times> bytes) option" where
  "key_component s p = (case FindColumnSchema s (fst p) of
      None \<Rightarrow> None
    | Some col \<Rightarrow> map_option (Pair (cs_type col)) (scalar_bytes (cs_type col) (snd p)))"

definition join_components :: "(data_type \<times> bytes) list \<Rightarrow> encoded_key" where
  "join_components tbs = concat (map (\<lambda>p. AppendComponent (fst p) (snd p) []) tbs)"

lemma Encode_values_fold:
  "Encode_values s key vals =
     (if length vals \<noteq> length (ks_columns key)
      then Inl (Runtime_error ''key encoder: lookup value count does not match key column count'')
      else fold_r (append_value s) (zip (ks_columns key) vals) [])"
proof -
  have "append_value s = (\<lambda>(cid, v) out. case FindColumnSchema s cid of
          None \<Rightarrow> Inl key_column_not_found
        | Some col \<Rightarrow> AppendScalarComponent (cs_type col) v out)"
    by (auto simp: append_value_def fun_eq_iff split: option.splits)
  then show ?thesis by (simp add: Encode_values_def)
qed

lemma append_value_Inr:
  "append_value s p out = Inr k \<longleftrightarrow>
   (\<exists>tb. key_component s p = Some tb \<and> k = out @ AppendComponent (fst tb) (snd tb) [])"
  by (auto simp: append_value_def key_component_def AppendScalarComponent_def AppendComponent_def split: option.splits)

lemma fold_append_value:
  "fold_r (append_value s) ps out = Inr k \<Longrightarrow>
   \<exists>tbs. map (key_component s) ps = map Some tbs \<and> k = out @ join_components tbs"
proof (induction ps arbitrary: out)
  case (Cons p ps)
  obtain o1 where o1: "append_value s p out = Inr o1" "fold_r (append_value s) ps o1 = Inr k"
    using Cons.prems by (auto elim!: bind_r_InrE)
  obtain tb where tb: "key_component s p = Some tb" "o1 = out @ AppendComponent (fst tb) (snd tb) []"
    using o1(1) by (auto simp: append_value_Inr)
  obtain tbs where "map (key_component s) ps = map Some tbs" "k = o1 @ join_components tbs"
    using Cons.IH [OF o1(2)] by blast
  then show ?case using tb by (intro exI [of _ "tb # tbs"]) (simp add: join_components_def)
qed (simp add: join_components_def)

lemma join_components_inject:
  "length tbs1 = length tbs2 \<Longrightarrow> join_components tbs1 = join_components tbs2 \<Longrightarrow>
   \<forall>p\<in>set tbs1 \<union> set tbs2. length (snd p) < 2 ^ 32 \<Longrightarrow> tbs1 = tbs2"
proof (induction tbs1 tbs2 rule: list_induct2)
  case (Cons p ps q qs)
  have "fst p = fst q \<and> snd p = snd q \<and> join_components ps = join_components qs"
    using Cons.prems by (intro AppendComponent_inject) (auto simp: join_components_def)
  then show ?case using Cons by (simp add: prod_eq_iff)
qed simp

text \<open>C29: Key encoding is injective: if two value lists of a key are encoded to the same bytes, they
  are the same values, each converted to the type of its column (so a hash-map hit is an equality
  of keys, and composite keys cannot collide by concatenation).\<close>

theorem Encode_values_injective:
  assumes "Encode_values s key v1 = Inr k" "Encode_values s key v2 = Inr k"
    and "\<forall>v\<in>set v1 \<union> set v2. scalar_short v"
  shows "map (key_component s) (zip (ks_columns key) v1) = map (key_component s) (zip (ks_columns key) v2)"
proof -
  have short: "length (snd tb) < 2 ^ 32" if "key_component s p = Some tb" "scalar_short (snd p)" for p tb
    using that by (auto simp: key_component_def dest: scalar_bytes_length split: option.splits)
  have *: "\<exists>tbs. map (key_component s) (zip (ks_columns key) v) = map Some tbs \<and> k = join_components tbs \<and>
      length tbs = length (ks_columns key) \<and> (\<forall>p\<in>set tbs. length (snd p) < 2 ^ 32)"
    if v: "Encode_values s key v = Inr k" "\<forall>x\<in>set v. scalar_short x" for v
  proof -
    have len: "length v = length (ks_columns key)"
      using v(1) by (auto simp: Encode_values_def split: if_splits)
    then obtain tbs where t: "map (key_component s) (zip (ks_columns key) v) = map Some tbs" "k = join_components tbs"
      using v(1) fold_append_value [of s "zip (ks_columns key) v" "[]" k] by (auto simp: Encode_values_fold)
    have "\<forall>x\<in>set (map (key_component s) (zip (ks_columns key) v)). \<forall>tb. x = Some tb \<longrightarrow> length (snd tb) < 2 ^ 32"
      using v(2) short by (auto dest: set_zip_rightD)
    then have "\<forall>p\<in>set tbs. length (snd p) < 2 ^ 32" unfolding t(1) by auto
    moreover have "length tbs = length (ks_columns key)"
      using arg_cong [OF t(1), of length] len by (simp only: length_map length_zip min.idem)
    ultimately show ?thesis using t by blast
  qed
  obtain t1 where t1: "map (key_component s) (zip (ks_columns key) v1) = map Some t1" "k = join_components t1"
      "length t1 = length (ks_columns key)" "\<forall>p\<in>set t1. length (snd p) < 2 ^ 32"
    using * [OF assms(1)] assms(3) by blast
  obtain t2 where t2: "map (key_component s) (zip (ks_columns key) v2) = map Some t2" "k = join_components t2"
      "length t2 = length (ks_columns key)" "\<forall>p\<in>set t2. length (snd p) < 2 ^ 32"
    using * [OF assms(2)] assms(3) by blast
  have "t1 = t2" using t1 t2 by (intro join_components_inject) auto
  then show ?thesis using t1(1) t2(1) by simp
qed

text \<open>The three encoders agree: a row of a chunk that stores the given values in the columns of the
  key is encoded to the same key as the values themselves, so a lookup by literals finds the rows
  that were appended.\<close>

theorem Encode_chunk_agrees_values:
  assumes "length vals = length (ks_columns key)"
    and "\<forall>j < length vals. \<exists>i col c. SchemaColumnIndex s (ks_columns key ! j) = Inr i \<and>
      FindColumnSchema s (ks_columns key ! j) = Some col \<and> chunk_cell chunk i row = Inr c \<and>
      stores_value (cs_type col) (vals ! j) c"
  shows "Encode_chunk s key chunk row = Encode_values s key vals"
proof -
  have step: "(case FindColumnSchema s cid of
         None \<Rightarrow> Inl key_column_not_found
       | Some col \<Rightarrow> bind_r (SchemaColumnIndex s cid) (\<lambda>i.
           bind_r (chunk_cell chunk i row) (\<lambda>c. Inr (append_cell (cs_type col) c out)))) =
      append_value s (cid, v) out"
    if "SchemaColumnIndex s cid = Inr i" "FindColumnSchema s cid = Some col" "chunk_cell chunk i row = Inr c"
      "stores_value (cs_type col) v c" for cid v i col c out
    using that by (auto simp: append_value_def stores_value_def append_cell_def AppendVarcharComponent_def
        AppendScalarComponent_def)
  have "fold_r (\<lambda>cid out. case FindColumnSchema s cid of
         None \<Rightarrow> Inl key_column_not_found
       | Some col \<Rightarrow> bind_r (SchemaColumnIndex s cid) (\<lambda>i.
           bind_r (chunk_cell chunk i row) (\<lambda>c. Inr (append_cell (cs_type col) c out)))) cs out =
      fold_r (append_value s) (zip cs vs) out"
    if "length vs = length cs" "\<forall>j < length vs. \<exists>i col c. SchemaColumnIndex s (cs ! j) = Inr i \<and>
      FindColumnSchema s (cs ! j) = Some col \<and> chunk_cell chunk i row = Inr c \<and>
      stores_value (cs_type col) (vs ! j) c" for cs vs out
    using that
  proof (induction vs cs arbitrary: out rule: list_induct2)
    case (Cons v vs cid cs)
    obtain i col c where "SchemaColumnIndex s cid = Inr i" "FindColumnSchema s cid = Some col"
      "chunk_cell chunk i row = Inr c" "stores_value (cs_type col) v c"
      using Cons.prems by force
    note s = step [OF this]
    have tl: "\<forall>j < length vs. \<exists>i col c. SchemaColumnIndex s (cs ! j) = Inr i \<and>
        FindColumnSchema s (cs ! j) = Some col \<and> chunk_cell chunk i row = Inr c \<and>
        stores_value (cs_type col) (vs ! j) c"
      using Cons.prems by force
    show ?case unfolding zip_Cons_Cons fold_r.simps s by (intro bind_r_cong refl Cons.IH [OF tl])
  qed simp
  then show ?thesis using assms by (simp add: Encode_chunk_def Encode_values_fold)
qed
end
