(* ===== verification/Table_Storage.thy ===== *)
theory Table_Storage
  imports Segment Index
begin

text \<open>
  \<^verbatim>\<open>src/src/storage/table/table_storage.cpp\<close> and \<^verbatim>\<open>src/src/storage/scan/parallel_scan_state.h\<close>: one
  table.  Rows go into the active segment, which is sealed when it is full; \<open>Flush\<close> writes the
  sealed segments and then \<open>table.meta\<close>; scans read the written segments only, serially with a cursor
  or in parallel with segments claimed one by one.  The directory of the table is the content of
  \<open>table.meta\<close> and of the segment files.  \<open>active_segment_\<close> is null only between \<open>SealActiveSegment\<close> and
  the \<open>CreateActiveSegment\<close> that follows it everywhere, so the field always holds a builder here.
\<close>

subsection \<open>State\<close>

definition kMaxSegmentRowCount :: nat where
  "kMaxSegmentRowCount = 65536"

record table_storage =
  tst_table_id :: table_id
  tst_schema :: table_schema
  tst_metadata :: table_storage_meta
  tst_sealed :: "(segment_id \<times> segment_builder) list"
  tst_reader_cache :: "segment_id \<rightharpoonup> segment_reader"
  tst_indexes :: table_indexes
  tst_pending :: "segment_id list"
  tst_active_id :: segment_id
  tst_next_id :: segment_id
  tst_active :: segment_builder
  tst_meta_file :: "bytes option"
  tst_files :: "segment_id \<rightharpoonup> bytes"

definition CreateActiveSegment :: "table_storage \<Rightarrow> table_storage" where
  "CreateActiveSegment st = st\<lparr>tst_active_id := tst_next_id st, tst_next_id := tst_next_id st + 1,
     tst_active := new_segment_builder (tst_schema st)\<rparr>"

definition SealActiveSegment :: "table_storage \<Rightarrow> table_storage" where
  "SealActiveSegment st = st\<lparr>tst_sealed := al_put (tst_active_id st) (tst_active st) (tst_sealed st)\<rparr>"

definition SaveTableMeta :: "io \<Rightarrow> table_storage \<Rightarrow> bool \<times> table_storage" where
  "SaveTableMeta io st =
     (let (ok, f) = write_file io (TableStorageMeta_Serialize (tst_metadata st) []) (tst_meta_file st)
      in (ok, st\<lparr>tst_meta_file := f\<rparr>))"

subsection \<open>Appending\<close>

definition AppendInternal ::
  "segment_id \<Rightarrow> data_chunk \<Rightarrow> table_storage \<Rightarrow> (row_location list \<times> table_storage) result" where
  "AppendInternal sid chunk st =
     (let start = sb_row_count (tst_active st) in
      bind_r (Segment_Append chunk (tst_active st)) (\<lambda>sb.
        Inr (map (\<lambda>i. \<lparr>rl_segment_id = sid, rl_row_offset = u32_of (start + i)\<rparr>) [0..<dc_size chunk],
             st\<lparr>tst_active := sb\<rparr>)))"

text \<open>The room left in the active segment, in 32 bits.\<close>

definition room_left :: "table_storage \<Rightarrow> nat" where
  "room_left st = unat (u32_of kMaxSegmentRowCount - u32_of (sb_row_count (tst_active st)))"

lemma room_left_fresh [simp]: "room_left (CreateActiveSegment st) = kMaxSegmentRowCount"
  by (simp add: room_left_def CreateActiveSegment_def new_segment_builder_def kMaxSegmentRowCount_def)

lemma kMaxSegmentRowCount_pos [simp]: "0 < kMaxSegmentRowCount" "kMaxSegmentRowCount \<noteq> 0"
  by (simp_all add: kMaxSegmentRowCount_def)

lemma Slice_rest_size [dest]: "(a, b) = Slice n chunk \<Longrightarrow> dc_size b = dc_size chunk - n"
  by (auto simp: Slice_def)

function append_loop ::
  "data_chunk \<Rightarrow> row_location list \<Rightarrow> table_storage \<Rightarrow> (row_location list \<times> table_storage) result" where
  "append_loop chunk locs st =
     (if dc_size chunk = 0 then Inr (locs, st)
      else if dc_size chunk \<le> room_left st then
        bind_r (AppendInternal (tst_active_id st) chunk st) (\<lambda>(appended, st). Inr (locs @ appended, st))
      else
        (case Slice (room_left st) chunk of (chunk', rest) \<Rightarrow>
          bind_r (AppendInternal (tst_active_id st) chunk' st) (\<lambda>(appended, st).
            append_loop rest (locs @ appended) (CreateActiveSegment (SealActiveSegment st)))))"
  by pat_completeness auto
termination
  by (relation "measure (\<lambda>(chunk, locs, st). 2 * dc_size chunk + (if room_left st = 0 then 1 else 0))") auto

declare append_loop.simps [simp del]

definition Append :: "data_chunk \<Rightarrow> table_storage \<Rightarrow> table_storage result" where
  "Append input st =
     bind_r (ValidatePrimaryKey input (tst_indexes st)) (\<lambda>unique.
       if \<not> unique then Inl (Runtime_error ''TableStorage::Append - duplicate primary key value'')
       else bind_r (append_loop input [] st) (\<lambda>(locations, st).
         bind_r (OnAppend input locations (tst_indexes st)) (\<lambda>ix. Inr (st\<lparr>tst_indexes := ix\<rparr>))))"

subsection \<open>Flushing\<close>

text \<open>
  The sealed segments are kept in an \<open>unordered_map\<close>; \<open>iter\<close> is the order its iteration takes.  Each
  file write has its own outcome.  A segment whose write fails is dropped with the others.
\<close>

definition flush_segment :: "(segment_id \<Rightarrow> io) \<Rightarrow> segment_id \<times> segment_builder \<Rightarrow> table_storage \<Rightarrow> table_storage" where
  "flush_segment io e st =
     (case e of (sid, sb) \<Rightarrow>
        (case Segment_Flush (io sid) (nat_str (unat sid)) sb (tst_files st sid) of (ok, f) \<Rightarrow>
          let st = st\<lparr>tst_files := (tst_files st)(sid := f)\<rparr> in
          if ok then st\<lparr>tst_metadata := (tst_metadata st)\<lparr>tm_segment_ids := tm_segment_ids (tst_metadata st) @ [sid]\<rparr>,
                        tst_pending := tst_pending st @ [sid]\<rparr>
          else st))"

definition seal_nonempty :: "table_storage \<Rightarrow> table_storage" where
  "seal_nonempty st = (if sb_row_count (tst_active st) > 0 then CreateActiveSegment (SealActiveSegment st) else st)"

definition Flush ::
  "((segment_id \<times> segment_builder) list \<Rightarrow> (segment_id \<times> segment_builder) list) \<Rightarrow> (segment_id \<Rightarrow> io) \<Rightarrow> io \<Rightarrow>
   table_storage \<Rightarrow> bool \<times> table_storage" where
  "Flush iter io io_meta st =
     (let st = seal_nonempty st;
          st = (fold (flush_segment io) (iter (tst_sealed st)) st)\<lparr>tst_sealed := []\<rparr>;
          (saved, st) = SaveTableMeta io_meta st
      in if saved then (True, st\<lparr>tst_indexes := MarkSegmentsVisible (tst_pending st) (tst_indexes st), tst_pending := []\<rparr>)
         else (False, st))"

text \<open>The destructor flushes only when something is sealed; what it leaves on disk is what \<open>Flush\<close> leaves.\<close>

definition Table_destructor ::
  "((segment_id \<times> segment_builder) list \<Rightarrow> (segment_id \<times> segment_builder) list) \<Rightarrow> (segment_id \<Rightarrow> io) \<Rightarrow> io \<Rightarrow>
   table_storage \<Rightarrow> table_storage" where
  "Table_destructor iter io io_meta st =
     (let st = seal_nonempty st in
      if tst_sealed st \<noteq> [] then snd (Flush iter io io_meta st) else st)"

subsection \<open>Readers and the index rebuild\<close>

definition GetSegmentReader :: "segment_id \<Rightarrow> table_storage \<Rightarrow> segment_reader option \<times> table_storage" where
  "GetSegmentReader sid st =
     (case tst_reader_cache st sid of
        Some r \<Rightarrow> (Some r, st)
      | None \<Rightarrow>
          (case Segment_Open sid (tst_files st sid) of
             None \<Rightarrow> (None, st)
           | Some r \<Rightarrow> (Some r, st\<lparr>tst_reader_cache := (tst_reader_cache st)(sid \<mapsto> r)\<rparr>)))"

lemma GetVectorBatch_InrD:
  assumes "GetVectorBatch options offset r b = Inr (True, b')"
  shows "offset < unat (sm_row_count (sr_metadata r))"
    and "vb_size b' = min kVectorBatchSize (unat (sm_row_count (sr_metadata r)) - offset)"
    and "PhysicalSize b' = vb_size b'"
    and "vb_selection b' = SetAll (vb_size b')"
  using assms by (auto simp: GetVectorBatch_def Let_def PhysicalSize_def SetIdentitySelection_def bind_r_Inr_iff
      split: if_splits)

subsection \<open>Opening a table\<close>

text \<open>The batches of a written segment, from \<open>offset\<close> on, into the indexes.\<close>

function rebuild_segment ::
  "column_id list \<Rightarrow> segment_id \<Rightarrow> segment_reader \<Rightarrow> nat \<Rightarrow> vector_batch \<Rightarrow> table_indexes \<Rightarrow> table_indexes result" where
  "rebuild_segment cols sid r offset batch ix =
     bind_r (GetVectorBatch \<lparr>so_start_row = 0, so_end_row = -1, so_columns = cols, so_predicates = []\<rparr> offset r batch)
       (\<lambda>(ok, batch).
         if \<not> (ok \<and> vb_size batch > 0) then Inr ix
         else bind_r (RebuildFromBatch cols batch
                (map (\<lambda>i. \<lparr>rl_segment_id = sid, rl_row_offset = u32_of (offset + i)\<rparr>) [0..<vb_size batch]) ix)
           (\<lambda>ix. rebuild_segment cols sid r (offset + vb_size batch) batch ix))"
  by pat_completeness auto
termination
  by (relation "measure (\<lambda>(cols, sid, r, offset, batch, ix). unat (sm_row_count (sr_metadata r)) - offset)")
    (auto dest: GetVectorBatch_InrD)

declare rebuild_segment.simps [simp del]

definition rebuild_step :: "column_id list \<Rightarrow> segment_id \<Rightarrow> table_storage \<Rightarrow> table_storage result" where
  "rebuild_step cols sid st =
     (case GetSegmentReader sid st of
        (None, _) \<Rightarrow> Inl (Runtime_error (''TableStorage::RebuildIndexes - failed to open segment '' @ nat_str (unat sid)))
      | (Some r, st) \<Rightarrow>
          bind_r (rebuild_segment cols sid r 0 empty_batch (tst_indexes st)) (\<lambda>ix. Inr (st\<lparr>tst_indexes := ix\<rparr>)))"

definition RebuildIndexes :: "table_storage \<Rightarrow> table_storage result" where
  "RebuildIndexes st =
     (let cols = tix_key_columns (tst_indexes st) in
      if tm_segment_ids (tst_metadata st) = [] \<or> cols = [] then Inr st
      else fold_r (rebuild_step cols) (tm_segment_ids (tst_metadata st)) st)"

definition construct_table ::
  "table_id \<Rightarrow> table_schema \<Rightarrow> table_storage_meta \<Rightarrow> bytes option \<Rightarrow> (segment_id \<rightharpoonup> bytes) \<Rightarrow> table_storage result" where
  "construct_table i schema m meta_file files =
     RebuildIndexes (CreateActiveSegment
       \<lparr>tst_table_id = i, tst_schema = schema, tst_metadata = m, tst_sealed = [], tst_reader_cache = Map.empty,
        tst_indexes = new_indexes schema, tst_pending = [], tst_active_id = 0,
        tst_next_id = fold (\<lambda>sid next. max next (sid + 1)) (tm_segment_ids m) 0,
        tst_active = new_segment_builder schema, tst_meta_file = meta_file, tst_files = files\<rparr>)"

text \<open>\<open>Create\<close>: the directory, then \<open>table.meta\<close>; \<open>None\<close> is the null pointer.\<close>

definition Table_Create ::
  "bool \<Rightarrow> io \<Rightarrow> table_id \<Rightarrow> table_schema \<Rightarrow> bytes option \<Rightarrow> (segment_id \<rightharpoonup> bytes) \<Rightarrow> table_storage option result" where
  "Table_Create dir_ok io i schema meta_file files =
     (if \<not> dir_ok then Inr None
      else
        let m = \<lparr>tm_table_id = i, tm_segment_ids = []\<rparr>;
            (ok, f) = write_file io (TableStorageMeta_Serialize m []) meta_file
        in if \<not> ok then Inr None else bind_r (construct_table i schema m f files) (\<lambda>st. Inr (Some st)))"

definition Table_Open ::
  "table_id \<Rightarrow> table_schema \<Rightarrow> bytes option \<Rightarrow> (segment_id \<rightharpoonup> bytes) \<Rightarrow> table_storage option result" where
  "Table_Open i schema meta_file files =
     (case meta_file of
        None \<Rightarrow> Inr None
      | Some buffer \<Rightarrow> bind_r (TableStorageMeta_Deserialize (reader_of buffer)) (\<lambda>(m, _).
          if tm_table_id m \<noteq> i then Inr None
          else bind_r (construct_table i schema m meta_file files) (\<lambda>st. Inr (Some st))))"

subsection \<open>Scanning\<close>

definition kInvalidSegmentId :: segment_id where
  "kInvalidSegmentId = 0xFFFFFFFF"

record segment_scan_cursor =
  ssc_offset :: nat
  ssc_decision_valid :: bool
  ssc_row_filter_mask :: "u8 list"
  ssc_prepared :: "prepared_predicate list option"

definition new_segment_scan_cursor :: segment_scan_cursor where
  "new_segment_scan_cursor = \<lparr>ssc_offset = 0, ssc_decision_valid = False, ssc_row_filter_mask = [], ssc_prepared = None\<rparr>"

text \<open>The segment decision is taken once; \<open>None\<close> of the inner option says that the segment is skipped.\<close>

definition segment_decision ::
  "segment_reader \<Rightarrow> scan_options \<Rightarrow> segment_scan_cursor \<Rightarrow> segment_scan_cursor option result" where
  "segment_decision r options cursor =
     (if ssc_decision_valid cursor then Inr (Some cursor)
      else bind_r (EvaluatePredicates (so_predicates options) r) (\<lambda>d.
        if fd_skip_segment d then Inr None
        else Inr (Some (cursor\<lparr>ssc_row_filter_mask := fd_row_filter_mask d, ssc_decision_valid := True\<rparr>))))"

definition ScanSegment ::
  "segment_reader option \<Rightarrow> scan_options \<Rightarrow> segment_scan_cursor \<Rightarrow> vector_batch \<Rightarrow>
   (bool \<times> segment_scan_cursor \<times> vector_batch) result" where
  "ScanSegment reader options cursor output =
     (case reader of
        None \<Rightarrow> Inl Undefined_behaviour
      | Some r \<Rightarrow>
          bind_r (segment_decision r options cursor) (\<lambda>decided.
            case decided of
              None \<Rightarrow> Inr (False, cursor, output)
            | Some cursor \<Rightarrow>
                bind_r (GetVectorBatch options (ssc_offset cursor) r output) (\<lambda>(scanned, output).
                  if \<not> scanned \<or> vb_size output = 0 then Inr (False, cursor, output)
                  else
                    let cursor = cursor\<lparr>ssc_offset := ssc_offset cursor + PhysicalSize output\<rparr> in
                    if \<exists>flag\<in>set (ssc_row_filter_mask cursor). flag \<noteq> 0 then
                      (case ssc_prepared cursor of
                         None \<Rightarrow> Inl (Runtime_error ''scan predicates not prepared before ScanSegment'')
                       | Some prepared \<Rightarrow>
                           bind_r (Row_Filter_Apply prepared (ssc_row_filter_mask cursor) output) (\<lambda>output.
                             Inr (True, cursor, output)))
                    else Inr (True, cursor, output))))"

lemma segment_decision_offset: "segment_decision r options cursor = Inr (Some c) \<Longrightarrow> ssc_offset c = ssc_offset cursor"
  by (auto simp: segment_decision_def bind_r_Inr_iff split: if_splits)

lemma ScanSegment_progress:
  assumes "ScanSegment reader options cursor b = Inr (True, cursor', b')"
  shows "ssc_offset cursor < ssc_offset cursor'" and "ssc_offset cursor < 2 ^ 32"
proof -
  obtain r c out where r: "reader = Some r" "segment_decision r options cursor = Inr (Some c)"
      "GetVectorBatch options (ssc_offset c) r b = Inr (True, out)" "vb_size out \<noteq> 0"
      "ssc_offset cursor' = ssc_offset c + PhysicalSize out"
    using assms
    by (auto simp: ScanSegment_def bind_r_Inr_iff Let_def split: option.splits if_splits)
  have "ssc_offset c < 2 ^ 32" using GetVectorBatch_InrD(1) [OF r(3)] unat_u32_less [of "sm_row_count (sr_metadata r)"]
    by linarith
  then show "ssc_offset cursor < ssc_offset cursor'" "ssc_offset cursor < 2 ^ 32"
    using r GetVectorBatch_InrD(3) [OF r(3)] segment_decision_offset [OF r(2)] by auto
qed

record scan_cursor =
  sc_segment_id :: segment_id
  sc_offset :: nat
  sc_decision_valid :: bool
  sc_row_filter_mask :: "u8 list"
  sc_prepared :: "prepared_predicate list option"

definition new_scan_cursor :: scan_cursor where
  "new_scan_cursor = \<lparr>sc_segment_id = kInvalidSegmentId, sc_offset = 0, sc_decision_valid = False,
     sc_row_filter_mask = [], sc_prepared = None\<rparr>"

definition AdvanceCursorToNextSegment :: "segment_id list \<Rightarrow> scan_cursor \<Rightarrow> bool \<times> scan_cursor" where
  "AdvanceCursorToNextSegment ids cursor =
     (let cursor = cursor\<lparr>sc_segment_id :=
            (if sc_segment_id cursor = kInvalidSegmentId then 0 else sc_segment_id cursor + 1)\<rparr>
      in if unat (sc_segment_id cursor) \<ge> length ids then (False, cursor)
         else (True, cursor\<lparr>sc_offset := 0, sc_decision_valid := False, sc_row_filter_mask := []\<rparr>))"

definition PrepareScanPredicates :: "scan_options \<Rightarrow> table_storage \<Rightarrow> prepared_predicate list result" where
  "PrepareScanPredicates options st = Build options (tst_schema st)"

text \<open>One pass through the body of the loop: done with no batch, a batch, or another pass.\<close>

datatype scan_step = Scan_end | Scan_batch | Scan_again

definition scan_body ::
  "scan_options \<Rightarrow> scan_cursor \<Rightarrow> vector_batch \<Rightarrow> table_storage \<Rightarrow>
   (scan_step \<times> scan_cursor \<times> vector_batch \<times> table_storage) result" where
  "scan_body options cursor output st =
     (let ids = tm_segment_ids (tst_metadata st);
          (more, cursor) = (if sc_segment_id cursor = kInvalidSegmentId
                            then AdvanceCursorToNextSegment ids cursor else (True, cursor))
      in if \<not> more then Inr (Scan_end, cursor, output, st)
         else if unat (sc_segment_id cursor) \<ge> length ids then Inl Undefined_behaviour
         else (case GetSegmentReader (ids ! unat (sc_segment_id cursor)) st of (reader, st) \<Rightarrow>
           bind_r (ScanSegment reader options \<lparr>ssc_offset = sc_offset cursor, ssc_decision_valid = sc_decision_valid cursor,
               ssc_row_filter_mask = sc_row_filter_mask cursor, ssc_prepared = sc_prepared cursor\<rparr> output)
             (\<lambda>(got, sc, output).
               let cursor = cursor\<lparr>sc_offset := ssc_offset sc, sc_decision_valid := ssc_decision_valid sc,
                                   sc_row_filter_mask := ssc_row_filter_mask sc\<rparr> in
               if \<not> got then
                 (case AdvanceCursorToNextSegment ids cursor of (more, cursor) \<Rightarrow>
                    Inr (if more then Scan_again else Scan_end, cursor, output, st))
               else Inr (if vb_size output = 0 then Scan_again else Scan_batch, cursor, output, st))))"

lemma GetSegmentReader_sel [simp]:
  "tst_metadata (snd (GetSegmentReader sid st)) = tst_metadata st"
  "tst_schema (snd (GetSegmentReader sid st)) = tst_schema st"
  "tst_files (snd (GetSegmentReader sid st)) = tst_files st"
  by (auto simp: GetSegmentReader_def split: option.splits)

text \<open>With \<open>2 ^ 32 - 1\<close> segments or more the index meets the sentinel again, so the loop is partial.\<close>

partial_function (option) scan_loop ::
  "scan_options \<Rightarrow> scan_cursor \<Rightarrow> vector_batch \<Rightarrow> table_storage \<Rightarrow>
   (bool \<times> scan_cursor \<times> vector_batch \<times> table_storage) result option" where
  "scan_loop options cursor output st =
     (case scan_body options cursor output st of
        Inl e \<Rightarrow> Some (Inl e)
      | Inr (step, cursor, output, st) \<Rightarrow>
          if step = Scan_again then scan_loop options cursor output st
          else Some (Inr (step = Scan_batch, cursor, output, st)))"

definition Scan ::
  "scan_options \<Rightarrow> scan_cursor \<Rightarrow> vector_batch \<Rightarrow> table_storage \<Rightarrow>
   (bool \<times> scan_cursor \<times> vector_batch \<times> table_storage) result option" where
  "Scan options cursor output st =
     (if sc_prepared cursor = None \<and> so_predicates options \<noteq> [] then
        (case PrepareScanPredicates options st of
           Inl e \<Rightarrow> Some (Inl e)
         | Inr ps \<Rightarrow> scan_loop options (cursor\<lparr>sc_prepared := Some ps\<rparr>) output st)
      else scan_loop options cursor output st)"

subsection \<open>Point reads\<close>

definition Table_Lookup :: "key_id \<Rightarrow> encoded_key \<Rightarrow> table_storage \<Rightarrow> row_location list" where
  "Table_Lookup kid k st = Index_Lookup kid k (tst_indexes st)"

definition ReadRows ::
  "segment_id \<Rightarrow> u32 list \<Rightarrow> column_id list \<Rightarrow> vector_batch \<Rightarrow> table_storage \<Rightarrow>
   (bool \<times> vector_batch \<times> table_storage) result" where
  "ReadRows sid offs cols output st =
     (case GetSegmentReader sid st of
        (None, st) \<Rightarrow> Inr (False, output, st)
      | (Some r, st) \<Rightarrow> bind_r (GatherRows offs cols r output) (\<lambda>(ok, output). Inr (ok, output, st)))"

subsection \<open>Parallel scans\<close>

record parallel_global =
  pg_segment_ids :: "segment_id list"
  pg_next_segment :: nat
  pg_prepared :: "prepared_predicate list option"
  pg_cancelled :: bool

definition MaxThreads :: "parallel_global \<Rightarrow> nat" where
  "MaxThreads g = length (pg_segment_ids g)"

definition ClaimSegment :: "parallel_global \<Rightarrow> segment_id option \<times> parallel_global" where
  "ClaimSegment g =
     (if pg_cancelled g then (None, g)
      else (if pg_next_segment g \<ge> length (pg_segment_ids g) then None else Some (pg_segment_ids g ! pg_next_segment g),
            g\<lparr>pg_next_segment := Suc (pg_next_segment g)\<rparr>))"

definition Cancel :: "parallel_global \<Rightarrow> parallel_global" where
  "Cancel g = g\<lparr>pg_cancelled := True\<rparr>"

record parallel_local =
  pl_segment_id :: segment_id
  pl_reader :: "segment_reader option"
  pl_cursor :: segment_scan_cursor
  pl_has_segment :: bool

definition new_parallel_local :: parallel_local where
  "new_parallel_local = \<lparr>pl_segment_id = kInvalidSegmentId, pl_reader = None, pl_cursor = new_segment_scan_cursor,
     pl_has_segment = False\<rparr>"

definition ResetSegment :: "parallel_local \<Rightarrow> parallel_local" where
  "ResetSegment l = new_parallel_local"

definition CreateParallelScanState :: "scan_options \<Rightarrow> table_storage \<Rightarrow> parallel_global result" where
  "CreateParallelScanState options st =
     bind_r (if so_predicates options \<noteq> [] then bind_r (PrepareScanPredicates options st) (\<lambda>ps. Inr (Some ps)) else Inr None)
       (\<lambda>prepared. Inr \<lparr>pg_segment_ids = tm_segment_ids (tst_metadata st), pg_next_segment = 0,
                        pg_prepared = prepared, pg_cancelled = False\<rparr>)"

text \<open>
  One pass through the loop of \<open>ScanParallel\<close>.  The only states the workers share are the two atomics of
  the global state and the reader cache behind its mutex, so the passes of different workers interleave
  as wholes.
\<close>

definition parallel_claim ::
  "parallel_global \<Rightarrow> parallel_local \<Rightarrow> table_storage \<Rightarrow>
   (bool \<times> parallel_global \<times> parallel_local \<times> table_storage) result" where
  "parallel_claim g l st =
     (if pl_has_segment l then Inr (True, g, l, st)
      else case ClaimSegment g of
        (None, g) \<Rightarrow> Inr (False, g, l, st)
      | (Some sid, g) \<Rightarrow>
          (case GetSegmentReader sid st of
             (None, _) \<Rightarrow> Inl (Runtime_error (''TableStorage::ScanParallel - failed to open segment '' @ nat_str (unat sid)))
           | (Some r, st) \<Rightarrow> Inr (True, g, \<lparr>pl_segment_id = sid, pl_reader = Some r,
               pl_cursor = new_segment_scan_cursor\<lparr>ssc_prepared := pg_prepared g\<rparr>, pl_has_segment = True\<rparr>, st)))"

definition parallel_body ::
  "scan_options \<Rightarrow> parallel_global \<Rightarrow> parallel_local \<Rightarrow> vector_batch \<Rightarrow> table_storage \<Rightarrow>
   (scan_step \<times> parallel_global \<times> parallel_local \<times> vector_batch \<times> table_storage) result" where
  "parallel_body options g l output st =
     (if pg_cancelled g then Inr (Scan_end, g, l, output, st)
      else bind_r (parallel_claim g l st) (\<lambda>(have_segment, g, l, st).
        if \<not> have_segment then Inr (Scan_end, g, l, output, st)
        else bind_r (ScanSegment (pl_reader l) options (pl_cursor l) output) (\<lambda>(got, cursor, output).
          let l = l\<lparr>pl_cursor := cursor\<rparr> in
          if \<not> got then Inr (Scan_again, g, ResetSegment l, output, st)
          else Inr (if vb_size output = 0 then Scan_again else Scan_batch, g, l, output, st))))"

partial_function (option) ScanParallel ::
  "scan_options \<Rightarrow> parallel_global \<Rightarrow> parallel_local \<Rightarrow> vector_batch \<Rightarrow> table_storage \<Rightarrow>
   (bool \<times> parallel_global \<times> parallel_local \<times> vector_batch \<times> table_storage) result option" where
  "ScanParallel options g l output st =
     (case parallel_body options g l output st of
        Inl e \<Rightarrow> Some (Inl e)
      | Inr (step, g, l, output, st) \<Rightarrow>
          if step = Scan_again then ScanParallel options g l output st
          else Some (Inr (step = Scan_batch, g, l, output, st)))"

end
