(* ===== verification/Table_Rows.thy ===== *)
theory Table_Rows
  imports Table_Storage
begin

text \<open>
  What \<open>TableStorage\<close> keeps in memory: the rows of the sealed segments and of the active one, in the
  order of their arrival.  \<open>Append\<close> adds the rows of a chunk behind them, unless the chunk is so large
  that it is sliced twice.
\<close>

subsection \<open>The invariant\<close>

definition builder_for :: "table_schema \<Rightarrow> segment_builder \<Rightarrow> bool" where
  "builder_for s sb \<longleftrightarrow> segment_ok sb \<and> builder_types sb = map cs_type (ts_columns s) \<and>
     builder_ids sb = map cs_column_id (ts_columns s) \<and> sb_row_count sb \<le> kMaxSegmentRowCount"

definition table_inv :: "table_storage \<Rightarrow> bool" where
  "table_inv st \<longleftrightarrow> builder_for (tst_schema st) (tst_active st) \<and>
     (\<forall>(sid, sb)\<in>set (tst_sealed st). builder_for (tst_schema st) sb) \<and>
     distinct (map fst (tst_sealed st)) \<and> fst ` set (tst_sealed st) \<inter> set (tm_segment_ids (tst_metadata st)) = {} \<and>
     unat (tst_next_id st) = Suc (unat (tst_active_id st)) \<and>
     (\<forall>sid\<in>fst ` set (tst_sealed st) \<union> set (tm_segment_ids (tst_metadata st)). unat sid < unat (tst_active_id st))"

text \<open>A fresh segment is put at the head of the association list, so its reverse is the order of sealing.\<close>

definition memory_segments :: "table_storage \<Rightarrow> (segment_id \<times> segment_builder) list" where
  "memory_segments st = rev (tst_sealed st) @ [(tst_active_id st, tst_active st)]"

definition memory_rows :: "table_storage \<Rightarrow> bytes list list" where
  "memory_rows st = concat (map (segment_rows \<circ> snd) (memory_segments st))"

text \<open>The row at a location, among the segments in memory.\<close>

definition row_at :: "table_storage \<Rightarrow> row_location \<Rightarrow> bytes list option" where
  "row_at st l =
     (case map_of (memory_segments st) (rl_segment_id l) of
        Some sb \<Rightarrow> if unat (rl_row_offset l) < sb_row_count sb then Some (segment_rows sb ! unat (rl_row_offset l)) else None
      | None \<Rightarrow> None)"

lemma builder_for_new [simp]: "builder_for s (new_segment_builder s)"
  using new_segment_builder_ok [of s] by (simp add: builder_for_def) (simp add: new_segment_builder_def)

lemma Segment_Append_total:
  assumes "chunk_ok (builder_types sb) chunk"
  shows "\<exists>sb'. Segment_Append chunk sb = Inr sb'"
proof -
  have "\<exists>cols. map_r (append_column chunk) (enumerate 0 (sb_columns sb)) = Inr cols"
  proof (rule map_r_total)
    fix x assume "x \<in> set (enumerate 0 (sb_columns sb))"
    then obtain i where i: "i < length (sb_columns sb)" "x = (i, sb_columns sb ! i)"
      by (auto simp: in_set_conv_nth nth_enumerate_eq)
    have "(dc_slice_start chunk + dc_size chunk) * dc_element_sizes chunk ! i \<le> length (dc_chunks chunk ! i)"
      "i < length (dc_chunks chunk)" "i < length (dc_element_sizes chunk)"
      using assms i(1) by (simp_all add: chunk_ok_def)
    then have "\<not> length (raw_data chunk i) < dc_element_sizes chunk ! i * dc_size chunk"
      by (simp add: raw_data_def add_mult_distrib mult.commute [of "dc_element_sizes chunk ! i"])
    with \<open>i < length (dc_chunks chunk)\<close> \<open>i < length (dc_element_sizes chunk)\<close>
    show "\<exists>y. append_column chunk x = Inr y"
      by (simp add: i(2) append_column_def Column_Append_def)
  qed
  then show ?thesis by (auto simp: Segment_Append_def)
qed

lemma room_left_eq:
  assumes "sb_row_count (tst_active st) \<le> kMaxSegmentRowCount"
  shows "room_left st = kMaxSegmentRowCount - sb_row_count (tst_active st)"
proof -
  have le: "u32_of (sb_row_count (tst_active st)) \<le> u32_of kMaxSegmentRowCount"
    using assms by (simp add: word_le_nat_alt unat_u32_of kMaxSegmentRowCount_def)
  then show ?thesis using assms by (simp add: room_left_def unat_sub unat_u32_of kMaxSegmentRowCount_def)
qed

subsection \<open>One step of the loop\<close>

text \<open>What every step keeps: everything but the segments in memory.\<close>

definition same_disk :: "table_storage \<Rightarrow> table_storage \<Rightarrow> bool" where
  "same_disk st st' \<longleftrightarrow> tst_schema st' = tst_schema st \<and> tst_metadata st' = tst_metadata st \<and>
     tst_reader_cache st' = tst_reader_cache st \<and> tst_indexes st' = tst_indexes st \<and> tst_pending st' = tst_pending st \<and>
     tst_meta_file st' = tst_meta_file st \<and> tst_files st' = tst_files st"

definition schema_types :: "table_storage \<Rightarrow> data_type list" where
  "schema_types st = map cs_type (ts_columns (tst_schema st))"

definition active_locations :: "table_storage \<Rightarrow> nat \<Rightarrow> row_location list" where
  "active_locations st n =
     map (\<lambda>i. \<lparr>rl_segment_id = tst_active_id st, rl_row_offset = u32_of (sb_row_count (tst_active st) + i)\<rparr>) [0..<n]"

lemma AppendInternal_step:
  assumes "table_inv st" "chunk_ok (schema_types st) chunk" "dc_size chunk \<le> room_left st"
  shows "\<exists>sb. AppendInternal (tst_active_id st) chunk st = Inr (active_locations st (dc_size chunk), st\<lparr>tst_active := sb\<rparr>) \<and>
    table_inv (st\<lparr>tst_active := sb\<rparr>) \<and> segment_rows sb = segment_rows (tst_active st) @ chunk_rows chunk \<and>
    sb_row_count sb = sb_row_count (tst_active st) + dc_size chunk"
proof -
  have act: "builder_for (tst_schema st) (tst_active st)" using assms(1) by (simp add: table_inv_def)
  then have ty: "chunk_ok (builder_types (tst_active st)) chunk" using assms(2) by (simp add: builder_for_def schema_types_def)
  obtain sb where sb: "Segment_Append chunk (tst_active st) = Inr sb" using Segment_Append_total [OF ty] by blast
  have ok: "segment_ok sb" "segment_rows sb = segment_rows (tst_active st) @ chunk_rows chunk"
    "builder_types sb = builder_types (tst_active st)" "builder_ids sb = builder_ids (tst_active st)"
    using Segment_Append_ok [OF sb _ ty] act by (auto simp: builder_for_def)
  have len: "sb_row_count sb = sb_row_count (tst_active st) + dc_size chunk"
    using arg_cong [OF ok(2), of length] by simp
  have "builder_for (tst_schema st) sb"
    using act ok len assms(3) room_left_eq [of st] by (auto simp: builder_for_def)
  then show ?thesis
    using sb ok len assms(1) by (auto simp: AppendInternal_def active_locations_def table_inv_def)
qed

lemma roll_over:
  assumes "table_inv st" "unat (tst_next_id st) + 1 < 2 ^ 32"
  shows "table_inv (CreateActiveSegment (SealActiveSegment st))"
    and "memory_segments (CreateActiveSegment (SealActiveSegment st)) =
      memory_segments st @ [(tst_next_id st, new_segment_builder (tst_schema st))]"
    and "same_disk st (CreateActiveSegment (SealActiveSegment st))"
proof -
  have new: "tst_active_id st \<notin> fst ` set (tst_sealed st)" using assms(1) by (auto simp: table_inv_def)
  then have put: "tst_sealed (SealActiveSegment st) = (tst_active_id st, tst_active st) # tst_sealed st"
    by (simp add: SealActiveSegment_def al_put_def)
  have succ: "unat (tst_next_id st + 1) = Suc (unat (tst_next_id st))"
    using assms(2) by (simp add: unat_word_ariths)
  show "table_inv (CreateActiveSegment (SealActiveSegment st))"
    using assms(1) put new succ
    by (auto simp: table_inv_def CreateActiveSegment_def) (force simp: SealActiveSegment_def less_Suc_eq)+
  show "memory_segments (CreateActiveSegment (SealActiveSegment st)) =
      memory_segments st @ [(tst_next_id st, new_segment_builder (tst_schema st))]"
    using put by (simp add: memory_segments_def CreateActiveSegment_def) (simp add: SealActiveSegment_def)
  show "same_disk st (CreateActiveSegment (SealActiveSegment st))"
    by (simp add: same_disk_def CreateActiveSegment_def SealActiveSegment_def)
qed

subsection \<open>The whole loop\<close>

lemma row_at_extend:
  "memory_segments st' = memory_segments st @ rest \<Longrightarrow> row_at st l = Some row \<Longrightarrow> row_at st' l = Some row"
  by (auto simp: row_at_def map_add_def split: option.splits if_splits)

lemma sealed_before_active: "table_inv st \<Longrightarrow> map_of (rev (tst_sealed st)) (tst_active_id st) = None"
  by (auto simp: table_inv_def map_of_eq_None_iff)

lemma row_at_grow:
  assumes "table_inv st" "segment_rows sb = segment_rows (tst_active st) @ rows" "row_at st l = Some row"
  shows "row_at (st\<lparr>tst_active := sb\<rparr>) l = Some row"
proof -
  have "sb_row_count sb = sb_row_count (tst_active st) + length rows"
    using arg_cong [OF assms(2), of length] by simp
  then show ?thesis
    using assms sealed_before_active [OF assms(1)]
    by (auto simp: row_at_def memory_segments_def map_add_def nth_append split: option.splits if_splits)
qed

lemma active_rows_at:
  assumes "table_inv st" "segment_rows sb = segment_rows (tst_active st) @ rows" "sb_row_count sb < 2 ^ 32"
  shows "map (row_at (st\<lparr>tst_active := sb\<rparr>)) (active_locations st (length rows)) = map Some rows"
proof -
  have len: "sb_row_count sb = sb_row_count (tst_active st) + length rows"
    using arg_cong [OF assms(2), of length] by simp
  have "row_at (st\<lparr>tst_active := sb\<rparr>) (active_locations st (length rows) ! i) = Some (rows ! i)" if "i < length rows" for i
  proof -
    have "unat (u32_of (sb_row_count (tst_active st) + i)) = sb_row_count (tst_active st) + i"
      using that len assms(3) by (simp add: unat_u32_of del: of_nat_add)
    then show ?thesis
      using that sealed_before_active [OF assms(1)] len
      by (simp add: row_at_def memory_segments_def map_add_def active_locations_def assms(2) nth_append)
  qed
  then show ?thesis by (intro nth_equalityI) (simp_all add: active_locations_def)
qed

lemma builder_small: "table_inv st \<Longrightarrow> sb_row_count (tst_active st) < 2 ^ 32"
  by (auto simp: table_inv_def builder_for_def kMaxSegmentRowCount_def)

definition appended :: "table_storage \<Rightarrow> bytes list list \<Rightarrow> row_location list \<Rightarrow> table_storage \<Rightarrow> bool" where
  "appended st rows locs st' \<longleftrightarrow> table_inv st' \<and> same_disk st st' \<and> memory_rows st' = memory_rows st @ rows \<and>
     map (row_at st') locs = map Some rows \<and> (\<forall>l row. row_at st l = Some row \<longrightarrow> row_at st' l = Some row)"

lemma AppendInternal_appended:
  assumes "table_inv st" "chunk_ok (schema_types st) chunk" "dc_size chunk \<le> room_left st"
  obtains sb where "AppendInternal (tst_active_id st) chunk st =
      Inr (active_locations st (dc_size chunk), st\<lparr>tst_active := sb\<rparr>)"
    "appended st (chunk_rows chunk) (active_locations st (dc_size chunk)) (st\<lparr>tst_active := sb\<rparr>)"
proof -
  obtain sb where sb: "AppendInternal (tst_active_id st) chunk st =
      Inr (active_locations st (dc_size chunk), st\<lparr>tst_active := sb\<rparr>)"
    "table_inv (st\<lparr>tst_active := sb\<rparr>)" "segment_rows sb = segment_rows (tst_active st) @ chunk_rows chunk"
    using AppendInternal_step [OF assms] by blast
  have "sb_row_count sb < 2 ^ 32" using builder_small [OF sb(2)] by simp
  then have "map (row_at (st\<lparr>tst_active := sb\<rparr>)) (active_locations st (dc_size chunk)) = map Some (chunk_rows chunk)"
    using active_rows_at [OF assms(1) sb(3)] by simp
  then have "appended st (chunk_rows chunk) (active_locations st (dc_size chunk)) (st\<lparr>tst_active := sb\<rparr>)"
    using sb(2,3) row_at_grow [OF assms(1) sb(3)]
    by (simp add: appended_def same_disk_def memory_rows_def memory_segments_def)
  with sb(1) show thesis by (rule that)
qed

lemma appended_trans:
  assumes "appended st rows1 locs1 st1" "appended st1 rows2 locs2 st2"
  shows "appended st (rows1 @ rows2) (locs1 @ locs2) st2"
proof -
  have "map (row_at st2) locs1 = map Some rows1"
  proof (rule nth_equalityI)
    have len: "length locs1 = length rows1" using assms(1) by (metis appended_def length_map)
    then show "length (map (row_at st2) locs1) = length (map Some rows1)" by simp
    fix i assume "i < length (map (row_at st2) locs1)"
    then have i: "i < length locs1" by simp
    have "map (row_at st1) locs1 ! i = map Some rows1 ! i" using assms(1) by (simp add: appended_def)
    then have "row_at st1 (locs1 ! i) = Some (rows1 ! i)" using i len by simp
    then have "row_at st2 (locs1 ! i) = Some (rows1 ! i)" using assms(2) by (simp add: appended_def)
    then show "map (row_at st2) locs1 ! i = map Some rows1 ! i" using i len by simp
  qed
  then show ?thesis using assms by (auto simp: appended_def same_disk_def)
qed

lemma roll_over_appended:
  assumes "table_inv st" "unat (tst_next_id st) + 1 < 2 ^ 32"
  shows "appended st [] [] (CreateActiveSegment (SealActiveSegment st))"
  using roll_over [OF assms] row_at_extend [OF roll_over(2) [OF assms]] new_segment_builder_ok
  by (simp add: appended_def memory_rows_def)

lemma append_loop_fits:
  assumes "table_inv st" "chunk_ok (schema_types st) chunk" "dc_size chunk \<le> room_left st"
  shows "\<exists>locs' st'. append_loop chunk locs st = Inr (locs @ locs', st') \<and> appended st (chunk_rows chunk) locs' st'"
proof (cases "dc_size chunk = 0")
  case True
  then have "appended st (chunk_rows chunk) [] st" using assms(1) by (simp add: appended_def same_disk_def chunk_rows_def)
  then show ?thesis using True by (auto simp: append_loop.simps [of chunk])
next
  case False
  obtain sb where "AppendInternal (tst_active_id st) chunk st =
      Inr (active_locations st (dc_size chunk), st\<lparr>tst_active := sb\<rparr>)"
    "appended st (chunk_rows chunk) (active_locations st (dc_size chunk)) (st\<lparr>tst_active := sb\<rparr>)"
    using AppendInternal_appended [OF assms] by blast
  then show ?thesis using False assms(3) by (auto simp: append_loop.simps [of chunk])
qed

text \<open>A chunk that does not fit fills the active segment, which is sealed; the rest goes to a fresh one.\<close>

lemma append_loop_slice:
  assumes "table_inv st" "chunk_ok (schema_types st) c" "Slice (room_left st) chunk = (c, rest)"
    and "room_left st < dc_size chunk" "unat (tst_next_id st) + 1 < 2 ^ 32"
  obtains locs1 st2 where "append_loop chunk locs st = append_loop rest (locs @ locs1) st2"
    "appended st (chunk_rows c) locs1 st2" "room_left st2 = kMaxSegmentRowCount"
    "unat (tst_next_id st2) = unat (tst_next_id st) + 1"
proof -
  have size: "dc_size c = room_left st" using assms(3) by (auto simp: Slice_def)
  obtain sb where sb: "AppendInternal (tst_active_id st) c st = Inr (active_locations st (dc_size c), st\<lparr>tst_active := sb\<rparr>)"
      "appended st (chunk_rows c) (active_locations st (dc_size c)) (st\<lparr>tst_active := sb\<rparr>)"
    using AppendInternal_appended [OF assms(1,2)] size by auto
  define st2 where "st2 = CreateActiveSegment (SealActiveSegment (st\<lparr>tst_active := sb\<rparr>))"
  have st2: "appended (st\<lparr>tst_active := sb\<rparr>) [] [] st2"
    unfolding st2_def by (rule roll_over_appended) (use sb(2) assms(5) in \<open>simp_all add: appended_def\<close>)
  have "appended st (chunk_rows c) (active_locations st (dc_size c)) st2"
    using appended_trans [OF sb(2) st2] by simp
  moreover have "append_loop chunk locs st = append_loop rest (locs @ active_locations st (dc_size c)) st2"
    using assms(3,4) sb(1) by (simp add: append_loop.simps [of chunk] st2_def)
  moreover have "room_left st2 = kMaxSegmentRowCount" by (simp add: st2_def)
  moreover have "unat (tst_next_id st2) = unat (tst_next_id st) + 1"
    using assms(5) by (simp add: st2_def CreateActiveSegment_def SealActiveSegment_def unat_word_ariths)
  ultimately show thesis using that by blast
qed

lemma appended_types: "appended st rows locs st' \<Longrightarrow> schema_types st' = schema_types st \<and> table_inv st'"
  by (simp add: appended_def same_disk_def schema_types_def)

lemma append_loop_slices:
  assumes "table_inv st" "chunk_ok (schema_types st) chunk" "dc_slice_start chunk = 0"
    and "dc_size chunk \<le> room_left st + kMaxSegmentRowCount" "unat (tst_next_id st) + 1 < 2 ^ 32"
  shows "\<exists>locs st'. append_loop chunk [] st = Inr (locs, st') \<and> appended st (chunk_rows chunk) locs st'"
proof (cases "dc_size chunk \<le> room_left st")
  case True
  then show ?thesis using append_loop_fits [OF assms(1,2), of "[]"] by simp
next
  case False
  obtain c rest where slice: "Slice (room_left st) chunk = (c, rest)" by (cases "Slice (room_left st) chunk")
  have ok: "chunk_ok (schema_types st) c" "chunk_ok (schema_types st) rest"
    using Slice_ok [OF assms(2) _ assms(3) slice] False by simp_all
  obtain locs1 st2 where st2: "append_loop chunk [] st = append_loop rest locs1 st2" "appended st (chunk_rows c) locs1 st2"
      "room_left st2 = kMaxSegmentRowCount"
    by (rule append_loop_slice [OF assms(1) ok(1) slice _ assms(5), where locs = "[]"]) (use False in auto)
  have "dc_size rest \<le> room_left st2" using slice assms(4) st2(3) by (auto simp: Slice_def)
  then obtain locs st3 where st3: "append_loop rest locs1 st2 = Inr (locs1 @ locs, st3)" "appended st2 (chunk_rows rest) locs st3"
    using append_loop_fits [of st2 rest locs1] ok(2) appended_types [OF st2(2)] by auto
  have "chunk_rows c @ chunk_rows rest = chunk_rows chunk"
    using Slice_rows [OF _ assms(3) slice] False by simp
  then show ?thesis using st2(1) st3(1) appended_trans [OF st2(2) st3(2)] by auto
qed

text \<open>A chunk that is sliced twice: the second slice starts at the wrong row.\<close>

lemma append_loop_two_slices:
  assumes "table_inv st" "chunk_ok (schema_types st) chunk" "dc_slice_start chunk = 0"
    and "room_left st + kMaxSegmentRowCount < dc_size chunk" "dc_size chunk \<le> room_left st + 2 * kMaxSegmentRowCount"
    and "unat (tst_next_id st) + 2 < 2 ^ 32"
  shows "\<exists>locs st'. append_loop chunk [] st = Inr (locs, st') \<and>
    appended st (take (room_left st + kMaxSegmentRowCount) (chunk_rows chunk) @
      take (dc_size chunk - (room_left st + kMaxSegmentRowCount)) (drop kMaxSegmentRowCount (chunk_rows chunk))) locs st'"
proof -
  obtain c rest where slice: "Slice (room_left st) chunk = (c, rest)" by (cases "Slice (room_left st) chunk")
  obtain c2 rest2 where slice2: "Slice kMaxSegmentRowCount rest = (c2, rest2)" by (cases "Slice kMaxSegmentRowCount rest")
  have ok: "chunk_ok (schema_types st) c" "chunk_ok (schema_types st) rest"
    using Slice_ok [OF assms(2) _ assms(3) slice] assms(4) by simp_all
  have le: "(a + b) * k \<le> n" if "a + b \<le> c'" "c' * k \<le> n" for a b c' k n :: nat
    using that by (meson le_trans mult_le_mono1)
  have ok2: "chunk_ok (schema_types st) c2" "chunk_ok (schema_types st) rest2"
    using assms(2,3,4) slice slice2 by (auto simp: chunk_ok_def Slice_def intro!: le [where c' = "dc_size chunk"])
  obtain locs1 st2 where st2: "append_loop chunk [] st = append_loop rest locs1 st2" "appended st (chunk_rows c) locs1 st2"
      "room_left st2 = kMaxSegmentRowCount" "unat (tst_next_id st2) = unat (tst_next_id st) + 1"
    by (rule append_loop_slice [OF assms(1) ok(1) slice, where locs = "[]"]) (use assms(4,6) in auto)
  obtain locs2 st3 where st3: "append_loop rest locs1 st2 = append_loop rest2 (locs1 @ locs2) st3"
      "appended st2 (chunk_rows c2) locs2 st3" "room_left st3 = kMaxSegmentRowCount"
  proof (rule append_loop_slice [where st = st2 and c = c2 and chunk = rest and rest = rest2 and locs = locs1])
    show "room_left st2 < dc_size rest" using slice st2(3) assms(4) by (auto simp: Slice_def)
  qed (use appended_types [OF st2(2)] ok2(1) slice2 st2(3,4) assms(6) in auto)
  have "dc_size rest2 \<le> room_left st3" using slice slice2 assms(5) st3(3) by (auto simp: Slice_def)
  then obtain locs3 st4 where st4: "append_loop rest2 (locs1 @ locs2) st3 = Inr ((locs1 @ locs2) @ locs3, st4)"
      "appended st3 (chunk_rows rest2) locs3 st4"
    using append_loop_fits [of st3 rest2 "locs1 @ locs2"] ok2(2) appended_types [OF st2(2)] appended_types [OF st3(2)] by auto
  have "chunk_rows c @ chunk_rows c2 = take (room_left st + kMaxSegmentRowCount) (chunk_rows chunk)"
  proof -
    have "chunk_rows c = map (chunk_row chunk) [0..<room_left st]"
      using slice by (auto simp: Slice_def chunk_rows_def chunk_row_def raw_data_def)
    moreover have "chunk_rows c2 = map (chunk_row chunk) [room_left st..<room_left st + kMaxSegmentRowCount]"
      using slice slice2 assms(3) by (intro nth_equalityI) (auto simp: Slice_def chunk_rows_def chunk_row_window)
    ultimately show ?thesis
      using assms(4) by (simp add: chunk_rows_def take_map flip: map_append upt_add_eq_append)
  qed
  moreover have "chunk_rows rest2 = take (dc_size chunk - (room_left st + kMaxSegmentRowCount)) (drop kMaxSegmentRowCount (chunk_rows chunk))"
    using Slice_rest_row [OF slice slice2 assms(3)] assms(4) by (intro nth_equalityI) (auto simp: chunk_rows_def)
  ultimately show ?thesis
    using st2(1) st3(1) st4(1) appended_trans [OF st2(2) appended_trans [OF st3(2) st4(2)]] by (auto simp: append_assoc [symmetric] simp del: append_assoc)
qed

subsection \<open>\<open>Append\<close> as a whole\<close>

definition key_list :: "table_schema \<Rightarrow> key_schema list" where
  "key_list s = (case ts_primary_key s of None \<Rightarrow> [] | Some k \<Rightarrow> [k]) @ ts_secondary_keys s"

definition keys_known :: "table_schema \<Rightarrow> bool" where
  "keys_known s \<longleftrightarrow> (\<forall>key\<in>set (key_list s). set (ks_columns key) \<subseteq> cs_column_id ` set (ts_columns s))"

definition indexes_for :: "table_schema \<Rightarrow> table_indexes \<Rightarrow> bool" where
  "indexes_for s t \<longleftrightarrow> tix_schema t = s \<and> (tix_primary t = None \<longleftrightarrow> ts_primary_key s = None) \<and>
     length (tix_secondary t) = length (ts_secondary_keys s)"

lemma fold_r_total: "(\<And>x s. x \<in> set xs \<Longrightarrow> \<exists>t. f x s = Inr t) \<Longrightarrow> \<exists>t. fold_r f xs s = Inr t"
proof (induction xs arbitrary: s)
  case (Cons x xs)
  obtain t where "f x s = Inr t" using Cons.prems [of x s] by auto
  then show ?case using Cons.IH [of t] Cons.prems by simp
qed simp

lemma index_of_known:
  "x \<in> set xs \<Longrightarrow> \<exists>i. index_of x xs = Some i \<and> i < length xs \<and> xs ! i = x"
  by (induction xs) auto

lemma FindColumnSchema_known:
  assumes "cid \<in> cs_column_id ` set (ts_columns s)"
  obtains col where "FindColumnSchema s cid = Some col"
proof (cases "FindColumnSchema s cid")
  case None
  then show ?thesis using assms by (auto simp: FindColumnSchema_def find_None_iff)
qed

lemma chunk_cell_total:
  assumes "chunk_ok tys chunk" "i < length tys" "row < dc_size chunk"
  shows "\<exists>c. chunk_cell chunk i row = Inr c"
proof -
  have i: "i < length (dc_chunks chunk)" "i < length (dc_element_sizes chunk)"
    "(dc_slice_start chunk + dc_size chunk) * dc_element_sizes chunk ! i \<le> length (dc_chunks chunk ! i)"
    using assms(1,2) by (simp_all add: chunk_ok_def)
  have "(dc_slice_start chunk + Suc row) * dc_element_sizes chunk ! i \<le>
      (dc_slice_start chunk + dc_size chunk) * dc_element_sizes chunk ! i"
    using assms(3) by (intro mult_le_mono1) simp
  then have "dc_slice_start chunk * dc_element_sizes chunk ! i + Suc row * dc_element_sizes chunk ! i \<le>
      length (dc_chunks chunk ! i)"
    unfolding add_mult_distrib [symmetric] using i(3) by linarith
  then have "Suc row * dc_element_sizes chunk ! i \<le> length (raw_data chunk i)"
    unfolding raw_data_def length_drop by linarith
  then show ?thesis using i by (simp add: chunk_cell_def)
qed

lemma Encode_chunk_total:
  assumes "set (ks_columns key) \<subseteq> cs_column_id ` set (ts_columns s)" "chunk_ok (map cs_type (ts_columns s)) chunk"
    and "row < dc_size chunk"
  shows "\<exists>k. Encode_chunk s key chunk row = Inr k"
  unfolding Encode_chunk_def
proof (rule fold_r_total)
  fix cid out assume "cid \<in> set (ks_columns key)"
  then have known: "cid \<in> cs_column_id ` set (ts_columns s)" using assms(1) by blast
  obtain col where col: "FindColumnSchema s cid = Some col" using FindColumnSchema_known [OF known] .
  obtain i where i: "SchemaColumnIndex s cid = Inr i" "i < length (ts_columns s)"
    using index_of_known [of cid "map cs_column_id (ts_columns s)"] known by (auto simp: SchemaColumnIndex_def)
  show "\<exists>t. (case FindColumnSchema s cid of None \<Rightarrow> Inl key_column_not_found
      | Some col \<Rightarrow> bind_r (SchemaColumnIndex s cid) (\<lambda>i. bind_r (chunk_cell chunk i row)
          (\<lambda>c. Inr (append_cell (cs_type col) c out)))) = Inr t"
    using chunk_cell_total [OF assms(2) _ assms(3), of i] i col by auto
qed

lemma insert_everywhere_total:
  assumes "indexes_for s t" "\<And>key row. key \<in> set (key_list s) \<Longrightarrow> row < length locs \<Longrightarrow> \<exists>k. enc key row = Inr k"
  shows "\<exists>t'. insert_everywhere v enc locs t = Inr t' \<and> indexes_for s t' \<and> tix_key_columns t' = tix_key_columns t"
proof -
  have rows: "\<exists>ks. map_r (enc key) [0..<length locs] = Inr ks" if "key \<in> set (key_list s)" for key
    using assms(2) [OF that] by (intro map_r_total) simp
  have "\<exists>p. (case (tix_primary t, ts_primary_key (tix_schema t)) of
       (None, _) \<Rightarrow> Inr None
     | (Some _, None) \<Rightarrow> Inl Undefined_behaviour
     | (Some ix, Some key) \<Rightarrow>
         bind_r (insert_rows Primary_Insert v (enc key) locs ix) (\<lambda>ix. Inr (Some ix))) = Inr p \<and>
     (p = None \<longleftrightarrow> ts_primary_key s = None)"
  proof (cases "tix_primary t")
    case (Some ix)
    then obtain key where key: "ts_primary_key s = Some key" using assms(1) by (auto simp: indexes_for_def)
    obtain ks where "map_r (enc key) [0..<length locs] = Inr ks" using rows [of key] key by (auto simp: key_list_def)
    from insert_rows_batch [OF this, of Primary_Insert v ix] show ?thesis
      using Some key assms(1) by (simp add: indexes_for_def)
  qed (use assms(1) in \<open>simp add: indexes_for_def\<close>)
  moreover have "\<exists>ss. map_r (\<lambda>(key, ix). insert_rows Secondary_Insert v (enc key) locs ix)
      (zip (ts_secondary_keys (tix_schema t)) (tix_secondary t)) = Inr ss \<and> length ss = length (ts_secondary_keys s)"
  proof -
    have "\<exists>ss. map_r (\<lambda>(key, ix). insert_rows Secondary_Insert v (enc key) locs ix)
        (zip (ts_secondary_keys (tix_schema t)) (tix_secondary t)) = Inr ss"
    proof (rule map_r_total)
      fix x assume "x \<in> set (zip (ts_secondary_keys (tix_schema t)) (tix_secondary t))"
      then obtain key ix where x: "x = (key, ix)" "key \<in> set (ts_secondary_keys (tix_schema t))"
        by (metis prod.collapse set_zip_leftD)
      then have "key \<in> set (key_list s)" using assms(1) by (simp add: indexes_for_def key_list_def)
      then obtain ks where "map_r (enc key) [0..<length locs] = Inr ks" using rows by blast
      from insert_rows_batch [OF this, of Secondary_Insert v ix]
      show "\<exists>y. (case x of (key, ix) \<Rightarrow> insert_rows Secondary_Insert v (enc key) locs ix) = Inr y" by (simp add: x)
    qed
    then show ?thesis using assms(1) map_r_length by (fastforce simp: indexes_for_def)
  qed
  ultimately show ?thesis using assms(1) by (auto simp: insert_everywhere_def indexes_for_def)
qed

lemma Append_effect:
  assumes "table_inv st" "indexes_for (tst_schema st) (tst_indexes st)" "keys_known (tst_schema st)"
    and "chunk_ok (schema_types st) chunk" "dc_slice_start chunk = 0"
    and "dc_size chunk \<le> room_left st + kMaxSegmentRowCount" "unat (tst_next_id st) + 1 < 2 ^ 32"
  shows "\<exists>unique. ValidatePrimaryKey chunk (tst_indexes st) = Inr unique \<and>
    (\<not> unique \<longrightarrow> Append chunk st = Inl (Runtime_error ''TableStorage::Append - duplicate primary key value'')) \<and>
    (unique \<longrightarrow> (\<exists>locs st'. Append chunk st = Inr st' \<and> table_inv st' \<and>
       indexes_for (tst_schema st') (tst_indexes st') \<and> OnAppend chunk locs (tst_indexes st) = Inr (tst_indexes st') \<and>
       memory_rows st' = memory_rows st @ chunk_rows chunk \<and> map (row_at st') locs = map Some (chunk_rows chunk) \<and>
       (\<forall>l row. row_at st l = Some row \<longrightarrow> row_at st' l = Some row)))"
proof -
  let ?s = "tst_schema st" and ?t = "tst_indexes st"
  have ty: "chunk_ok (map cs_type (ts_columns ?s)) chunk" using assms(4) by (simp add: schema_types_def)
  have enc: "\<exists>k. Encode_chunk ?s key chunk row = Inr k" if "key \<in> set (key_list ?s)" "row < dc_size chunk" for key row
    using Encode_chunk_total [OF _ ty that(2)] assms(3) that(1) by (auto simp: keys_known_def)
  have tix: "tix_schema ?t = ?s" "tix_primary ?t = None \<longleftrightarrow> ts_primary_key ?s = None"
    using assms(2) by (simp_all add: indexes_for_def)
  have valid: "\<exists>unique. ValidatePrimaryKey chunk ?t = Inr unique"
  proof (cases "tix_primary ?t")
    case (Some ix)
    then obtain key where key: "ts_primary_key ?s = Some key" using tix by auto
    have "\<exists>ks. encode_rows (Encode_chunk ?s key chunk) (dc_size chunk) = Inr ks"
      unfolding encode_rows_def using enc key by (intro map_r_total) (simp add: key_list_def)
    then show ?thesis using Some key tix by (auto simp: ValidatePrimaryKey_def)
  qed (auto simp: ValidatePrimaryKey_def)
  obtain locs st1 where loop: "append_loop chunk [] st = Inr (locs, st1)" "appended st (chunk_rows chunk) locs st1"
    using append_loop_slices [OF assms(1,4-7)] by blast
  have len: "length locs = dc_size chunk" using loop(2) by (metis appended_def chunk_rows_length length_map)
  obtain ix where ix: "OnAppend chunk locs ?t = Inr ix" "indexes_for ?s ix"
    using insert_everywhere_total [OF assms(2), of locs "\<lambda>key. Encode_chunk ?s key chunk" False] enc len tix(1)
    by (auto simp: OnAppend_def)
  have same: "tst_indexes st1 = ?t" "tst_schema st1 = ?s" using loop(2) by (simp_all add: appended_def same_disk_def)
  have mem: "memory_segments (st1\<lparr>tst_indexes := ix\<rparr>) = memory_segments st1" by (simp add: memory_segments_def)
  have at: "row_at (st1\<lparr>tst_indexes := ix\<rparr>) = row_at st1" by (simp add: row_at_def mem fun_eq_iff)
  have inv: "table_inv (st1\<lparr>tst_indexes := ix\<rparr>)" using loop(2) by (simp add: appended_def table_inv_def)
  obtain unique where u: "ValidatePrimaryKey chunk ?t = Inr unique" using valid by blast
  show ?thesis
  proof (intro exI conjI impI)
    show "ValidatePrimaryKey chunk ?t = Inr unique" by (rule u)
    show "Append chunk st = Inl (Runtime_error ''TableStorage::Append - duplicate primary key value'')" if "\<not> unique"
      using that u by (simp add: Append_def)
    show "Append chunk st = Inr (st1\<lparr>tst_indexes := ix\<rparr>)" if unique
      using that u loop(1) ix(1) same by (simp add: Append_def)
    show "indexes_for (tst_schema (st1\<lparr>tst_indexes := ix\<rparr>)) (tst_indexes (st1\<lparr>tst_indexes := ix\<rparr>))"
      using ix(2) same by simp
    show "OnAppend chunk locs ?t = Inr (tst_indexes (st1\<lparr>tst_indexes := ix\<rparr>))" using ix(1) by simp
  qed (use loop(2) inv at in \<open>auto simp: memory_rows_def mem appended_def\<close>)
qed

text \<open>C15: \<open>Append\<close> of a chunk that spans at most two segments: either the primary keys repeat and nothing
  happens, or the rows follow the rows already in memory, every row is found at the location
  the indexes have been given for it, and no earlier location changes its row.\<close>

theorem Append_adds_rows:
  assumes "table_inv st" "indexes_for (tst_schema st) (tst_indexes st)" "keys_known (tst_schema st)"
    and "chunk_ok (schema_types st) chunk" "dc_slice_start chunk = 0"
    and "dc_size chunk \<le> room_left st + kMaxSegmentRowCount" "unat (tst_next_id st) + 1 < 2 ^ 32"
  shows "\<exists>unique. ValidatePrimaryKey chunk (tst_indexes st) = Inr unique \<and>
    (\<not> unique \<longrightarrow> Append chunk st = Inl (Runtime_error ''TableStorage::Append - duplicate primary key value'')) \<and>
    (unique \<longrightarrow> (\<exists>locs st'. Append chunk st = Inr st' \<and> table_inv st' \<and>
       indexes_for (tst_schema st') (tst_indexes st') \<and> OnAppend chunk locs (tst_indexes st) = Inr (tst_indexes st') \<and>
       memory_rows st' = memory_rows st @ chunk_rows chunk \<and> map (row_at st') locs = map Some (chunk_rows chunk) \<and>
       (\<forall>l row. row_at st l = Some row \<longrightarrow> row_at st' l = Some row)))"
  using assms by (rule Append_effect)

text \<open>C38: A chunk that needs two slices is stored wrongly: from the second boundary on, the segment repeats
  the rows from row 65536 of the chunk, and as many rows at its end are never stored.\<close>

theorem Append_large_chunk_repeats_rows:
  assumes "table_inv st" "chunk_ok (schema_types st) chunk" "dc_slice_start chunk = 0"
    and "room_left st + kMaxSegmentRowCount < dc_size chunk" "dc_size chunk \<le> room_left st + 2 * kMaxSegmentRowCount"
    and "unat (tst_next_id st) + 2 < 2 ^ 32" "Append chunk st = Inr st'"
  shows "memory_rows st' = memory_rows st @ take (room_left st + kMaxSegmentRowCount) (chunk_rows chunk) @
      take (dc_size chunk - (room_left st + kMaxSegmentRowCount)) (drop kMaxSegmentRowCount (chunk_rows chunk))"
proof -
  obtain locs st1 where loop: "append_loop chunk [] st = Inr (locs, st1)"
    "memory_rows st1 = memory_rows st @ take (room_left st + kMaxSegmentRowCount) (chunk_rows chunk) @
      take (dc_size chunk - (room_left st + kMaxSegmentRowCount)) (drop kMaxSegmentRowCount (chunk_rows chunk))"
    using append_loop_two_slices [OF assms(1-6)] by (auto simp: appended_def)
  then obtain ix where "st' = st1\<lparr>tst_indexes := ix\<rparr>"
    using assms(7) by (auto simp: Append_def bind_r_Inr_iff split: if_splits)
  then show ?thesis using loop(2) by (simp add: memory_rows_def memory_segments_def)
qed

end
