(* ===== verification/Table_Flush.thy ===== *)
theory Table_Flush
  imports Table_Rows "HOL-Library.Multiset"
begin

text \<open>
  What \<open>Flush\<close> leaves on disk and what a table opened on that disk serves.  The segments of
  \<open>table.meta\<close> stand for builders: the file of each opens to a reader that serves its builder.
\<close>

subsection \<open>The disk\<close>

definition columns_fit :: "table_schema \<Rightarrow> bool" where
  "columns_fit s \<longleftrightarrow> distinct (map cs_column_id (ts_columns s)) \<and> length (ts_columns s) < 2 ^ 32"

definition disk_ok :: "table_storage \<Rightarrow> (segment_id \<times> segment_builder) list \<Rightarrow> bool" where
  "disk_ok st sbs \<longleftrightarrow> map fst sbs = tm_segment_ids (tst_metadata st) \<and> distinct (tm_segment_ids (tst_metadata st)) \<and>
     (\<forall>(sid, sb)\<in>set sbs. builder_for (tst_schema st) sb \<and>
        (\<exists>r. Segment_Open sid (tst_files st sid) = Some r \<and> reader_serves r sb)) \<and>
     (\<forall>sid r. tst_reader_cache st sid = Some r \<longrightarrow>
        sid \<in> fst ` set sbs \<and> Segment_Open sid (tst_files st sid) = Some r)"

lemma disk_okI:
  assumes "map fst sbs = tm_segment_ids (tst_metadata st)" "distinct (map fst sbs)"
    and "\<forall>(sid, sb)\<in>set sbs. builder_for (tst_schema st) sb \<and>
        (\<exists>r. Segment_Open sid (tst_files st sid) = Some r \<and> reader_serves r sb)"
    and "\<And>sid r. tst_reader_cache st sid = Some r \<Longrightarrow> sid \<in> fst ` set sbs \<and> Segment_Open sid (tst_files st sid) = Some r"
  shows "disk_ok st sbs"
  unfolding disk_ok_def using assms(3,4) assms(2) [unfolded assms(1)] assms(1) by blast

definition rows_of :: "(segment_id \<times> segment_builder) list \<Rightarrow> bytes list list" where
  "rows_of sbs = concat (map (segment_rows \<circ> snd) sbs)"

lemma rows_of_simps [simp]:
  "rows_of [] = []" "rows_of ((sid, sb) # sbs) = segment_rows sb @ rows_of sbs" "rows_of (xs @ ys) = rows_of xs @ rows_of ys"
  by (simp_all add: rows_of_def)

lemma memory_rows_eq: "memory_rows st = rows_of (memory_segments st)"
  by (simp add: memory_rows_def rows_of_def)

lemma rows_of_perm: "mset xs = mset ys \<Longrightarrow> mset (rows_of xs) = mset (rows_of ys)"
proof -
  have "mset (rows_of zs) = \<Sum>\<^sub># (image_mset (\<lambda>e. mset (segment_rows (snd e))) (mset zs))" for zs
    by (induction zs) (auto simp: rows_of_def)
  then show "mset xs = mset ys \<Longrightarrow> mset (rows_of xs) = mset (rows_of ys)" by simp
qed

lemma TypeElemSize_le: "TypeElemSize ty \<le> 64"
  by (cases ty) (simp_all add: kVarcharSlotSize_def)

lemma segment_file_small:
  assumes "builder_for s sb" "columns_fit s"
  shows "length (segment_file sid sb) < 2 ^ 64" "length (sb_columns sb) < 2 ^ 32"
proof -
  have len: "length (sb_columns sb) = length (ts_columns s)" using assms(1) by (metis builder_for_def length_map)
  then show cols: "length (sb_columns sb) < 2 ^ 32" using assms(2) by (simp add: columns_fit_def)
  have col: "length (cb_data b) \<le> 65536 * 64" if "b \<in> set (sb_columns sb)" for b
  proof -
    have "cb_row_count b \<le> 65536" "length (cb_data b) = cb_row_count b * builder_width b"
      using assms(1) that by (auto simp: builder_for_def segment_ok_def builder_ok_def kMaxSegmentRowCount_def)
    then show ?thesis
      using mult_le_mono [OF \<open>cb_row_count b \<le> 65536\<close> TypeElemSize_le [of "cm_type (cb_meta b)"]]
      by (simp add: builder_width_def)
  qed
  have "length (concat (map cb_data (sb_columns sb))) \<le> length (sb_columns sb) * (65536 * 64)"
    using sum_list_mono [of "sb_columns sb" "\<lambda>b. length (cb_data b)" "\<lambda>b. 65536 * 64"] col
    by (simp add: length_concat sum_list_triv comp_def)
  moreover have "length (nat_str (unat sid)) < 2 ^ 32 + 1"
    using nat_str_length [of "unat sid"] unat_u32_less [of sid] by linarith
  ultimately show "length (segment_file sid sb) < 2 ^ 64"
    using cols by (simp add: segment_file_def segment_meta_of_def Let_def SegmentMeta_Serialize_length)
qed

lemma Segment_Open_written:
  assumes "builder_for s sb" "columns_fit s"
  shows "\<exists>r. Segment_Open sid (Some (segment_file sid sb)) = Some r \<and> reader_serves r sb"
proof (rule Segment_Open_serves)
  show "distinct (builder_ids sb)" using assms by (simp add: builder_for_def columns_fit_def)
qed (use assms segment_file_small [OF assms] in \<open>auto simp: builder_for_def kMaxSegmentRowCount_def\<close>)

subsection \<open>Writing the sealed segments\<close>

lemma Segment_Flush_outcome:
  "fst (Segment_Flush io (nat_str (unat sid)) sb f) = (io = Io_ok)"
  "snd (Segment_Flush Io_ok (nat_str (unat sid)) sb f) = Some (segment_file sid sb)"
proof -
  have "unat sid < 2 ^ 64" using unat_u32_less [of sid] by simp
  then show "fst (Segment_Flush io (nat_str (unat sid)) sb f) = (io = Io_ok)"
    by (cases io) (simp_all add: Segment_Flush_def stoul_nat_str write_file_def)
  show "snd (Segment_Flush Io_ok (nat_str (unat sid)) sb f) = Some (segment_file sid sb)"
    by (simp add: Segment_Flush_file)
qed

lemma flush_segment_sel [simp]:
  "tst_table_id (flush_segment io e st) = tst_table_id st"
  "tst_schema (flush_segment io e st) = tst_schema st"
  "tst_active (flush_segment io e st) = tst_active st"
  "tst_active_id (flush_segment io e st) = tst_active_id st"
  "tst_next_id (flush_segment io e st) = tst_next_id st"
  "tst_reader_cache (flush_segment io e st) = tst_reader_cache st"
  "tst_indexes (flush_segment io e st) = tst_indexes st"
  "tm_table_id (tst_metadata (flush_segment io e st)) = tm_table_id (tst_metadata st)"
  "tm_segment_ids (tst_metadata (flush_segment io e st)) =
     tm_segment_ids (tst_metadata st) @ (if io (fst e) = Io_ok then [fst e] else [])"
  "tst_files (flush_segment io e st) =
     (tst_files st)(fst e := snd (Segment_Flush (io (fst e)) (nat_str (unat (fst e))) (snd e) (tst_files st (fst e))))"
  "tst_pending (flush_segment io e st) = tst_pending st @ (if io (fst e) = Io_ok then [fst e] else [])"
  using Segment_Flush_outcome(1) [of "io (fst e)" "fst e" "snd e" "tst_files st (fst e)"]
  by (auto simp: flush_segment_def Let_def split: prod.splits)

lemma fold_flush_sel [simp]:
  "tst_table_id (fold (flush_segment io) es st) = tst_table_id st"
  "tst_schema (fold (flush_segment io) es st) = tst_schema st"
  "tst_active (fold (flush_segment io) es st) = tst_active st"
  "tst_active_id (fold (flush_segment io) es st) = tst_active_id st"
  "tst_next_id (fold (flush_segment io) es st) = tst_next_id st"
  "tst_reader_cache (fold (flush_segment io) es st) = tst_reader_cache st"
  "tst_indexes (fold (flush_segment io) es st) = tst_indexes st"
  "tm_table_id (tst_metadata (fold (flush_segment io) es st)) = tm_table_id (tst_metadata st)"
  "tm_segment_ids (tst_metadata (fold (flush_segment io) es st)) =
     tm_segment_ids (tst_metadata st) @ map fst (filter (\<lambda>e. io (fst e) = Io_ok) es)"
  "tst_pending (fold (flush_segment io) es st) = tst_pending st @ map fst (filter (\<lambda>e. io (fst e) = Io_ok) es)"
  by (induction es arbitrary: st) simp_all

lemma fold_flush_files_other:
  "sid \<notin> fst ` set es \<Longrightarrow> tst_files (fold (flush_segment io) es st) sid = tst_files st sid"
  by (induction es arbitrary: st) auto

lemma fold_flush_files:
  "distinct (map fst es) \<Longrightarrow> (sid, sb) \<in> set es \<Longrightarrow> io sid = Io_ok \<Longrightarrow>
   tst_files (fold (flush_segment io) es st) sid = Some (segment_file sid sb)"
proof (induction es arbitrary: st)
  case (Cons e es)
  show ?case
  proof (cases "e = (sid, sb)")
    case True
    then have "sid \<notin> fst ` set es" using Cons.prems(1) by auto
    then show ?thesis using True Cons.prems(3) by (simp add: fold_flush_files_other Segment_Flush_outcome(2))
  next
    case False
    then show ?thesis using Cons by simp
  qed
qed simp

subsection \<open>\<open>Flush\<close> as a whole\<close>

text \<open>The segments in memory that a flush has to write: the sealed ones, and the active one if it has rows.\<close>

definition unwritten :: "table_storage \<Rightarrow> (segment_id \<times> segment_builder) list" where
  "unwritten st = tst_sealed st @ (if sb_row_count (tst_active st) > 0 then [(tst_active_id st, tst_active st)] else [])"

lemma seal_nonempty_ok:
  assumes "table_inv st" "unat (tst_next_id st) + 1 < 2 ^ 32"
  shows "table_inv (seal_nonempty st)" and "same_disk st (seal_nonempty st)"
    and "sb_row_count (tst_active (seal_nonempty st)) = 0"
    and "mset (rows_of (tst_sealed (seal_nonempty st))) = mset (memory_rows st)"
    and "mset (tst_sealed (seal_nonempty st)) = mset (unwritten st)"
    and "tst_pending (seal_nonempty st) = tst_pending st" "tst_indexes (seal_nonempty st) = tst_indexes st"
proof -
  let ?roll = "CreateActiveSegment (SealActiveSegment st)"
  note roll = roll_over [OF assms]
  show "table_inv (seal_nonempty st)" using roll(1) assms(1) by (simp add: seal_nonempty_def)
  show "same_disk st (seal_nonempty st)" using roll(3) by (simp add: seal_nonempty_def same_disk_def)
  show "sb_row_count (tst_active (seal_nonempty st)) = 0"
    by (simp add: seal_nonempty_def CreateActiveSegment_def new_segment_builder_def)
  have rev: "mset (rows_of (rev xs)) = mset (rows_of xs)" for xs by (rule rows_of_perm) simp
  have empty: "sb_row_count sb = 0 \<Longrightarrow> segment_rows sb = []" for sb
    by (metis length_0_conv segment_rows_length)
  have "memory_segments ?roll = memory_segments st @ [(tst_next_id st, new_segment_builder (tst_schema st))]" by (rule roll(2))
  then have roll_rev: "rev (tst_sealed ?roll) = memory_segments st" by (simp add: memory_segments_def)
  from arg_cong [OF this, of mset] show "mset (tst_sealed (seal_nonempty st)) = mset (unwritten st)"
    by (simp add: seal_nonempty_def unwritten_def memory_segments_def)
  show "tst_pending (seal_nonempty st) = tst_pending st" "tst_indexes (seal_nonempty st) = tst_indexes st"
    by (simp_all add: seal_nonempty_def CreateActiveSegment_def SealActiveSegment_def)
  note roll_rev
  then have "mset (rows_of (tst_sealed ?roll)) = mset (memory_rows st)" by (metis memory_rows_eq rev)
  then show "mset (rows_of (tst_sealed (seal_nonempty st))) = mset (memory_rows st)"
    using rev [of "tst_sealed st"] empty [of "tst_active st"]
    by (auto simp: seal_nonempty_def memory_rows_eq memory_segments_def)
qed

lemma disk_ok_same: "same_disk st st' \<Longrightarrow> disk_ok st' sbs = disk_ok st sbs"
  unfolding same_disk_def by (elim conjE, simp only: disk_ok_def)

lemma fold_flush_disk_ok:
  assumes "table_inv st" "disk_ok st sbs" "columns_fit (tst_schema st)" "mset es = mset (tst_sealed st)"
  shows "disk_ok (fold (flush_segment io) es st) (sbs @ filter (\<lambda>e. io (fst e) = Io_ok) es)"
proof -
  let ?st = "fold (flush_segment io) es st" and ?new = "filter (\<lambda>e. io (fst e) = Io_ok) es"
  have set: "set es = set (tst_sealed st)" using assms(4) by (rule mset_eq_setD)
  have dist: "distinct (map fst es)"
    using assms(1) mset_eq_imp_distinct_iff [of "map fst es" "map fst (tst_sealed st)"] assms(4) by (simp add: table_inv_def)
  have fresh: "fst ` set sbs \<inter> fst ` set es = {}"
    using assms(1,2) by (auto simp: table_inv_def disk_ok_def set simp flip: set_map)
  have for_new: "builder_for (tst_schema st) sb" if "(sid, sb) \<in> set es" for sid sb
    using assms(1) that by (auto simp: table_inv_def set)
  have old_file: "tst_files ?st sid = tst_files st sid" if "sid \<in> fst ` set sbs" for sid
    using fresh that by (intro fold_flush_files_other) blast
  have new_file: "\<exists>r. Segment_Open sid (tst_files ?st sid) = Some r \<and> reader_serves r sb" if "(sid, sb) \<in> set ?new" for sid sb
    using Segment_Open_written [OF for_new assms(3), of sid sb sid] fold_flush_files [OF dist, of sid sb io st] that by simp
  have "distinct (map fst (sbs @ ?new))"
  proof -
    have "distinct (map fst sbs)" "distinct (map fst ?new)" using assms(2) dist by (simp_all add: disk_ok_def distinct_map_filter)
    moreover have "set (map fst sbs) \<inter> set (map fst ?new) = {}" using fresh by (simp add: set_eq_iff) fastforce
    ultimately show ?thesis by (simp only: map_append distinct_append)
  qed
  moreover have "map fst (sbs @ ?new) = tm_segment_ids (tst_metadata ?st)" using assms(2) by (simp add: disk_ok_def)
  moreover have "\<forall>(sid, sb)\<in>set (sbs @ ?new). builder_for (tst_schema ?st) sb \<and>
      (\<exists>r. Segment_Open sid (tst_files ?st sid) = Some r \<and> reader_serves r sb)"
    using assms(2) old_file for_new new_file by (fastforce simp: disk_ok_def)
  moreover have "sid \<in> fst ` set (sbs @ ?new) \<and> Segment_Open sid (tst_files ?st sid) = Some r"
    if "tst_reader_cache ?st sid = Some r" for sid r
  proof -
    have "tst_reader_cache st sid = Some r" using that by simp
    then have "sid \<in> fst ` set sbs" "Segment_Open sid (tst_files st sid) = Some r"
      using assms(2) unfolding disk_ok_def by blast+
    then show ?thesis by (simp add: old_file) auto
  qed
  ultimately show ?thesis by (intro disk_okI)
qed

lemma MarkSegmentsVisible_for:
  "indexes_for s (MarkSegmentsVisible ids t) = indexes_for s t"
  by (induction ids arbitrary: t) (simp_all add: MarkSegmentsVisible_def indexes_for_def)

lemma Flush_result:
  assumes "table_inv st" "disk_ok st sbs" "columns_fit (tst_schema st)" "unat (tst_next_id st) + 1 < 2 ^ 32"
    and "\<And>es. mset (iter es) = mset es" "Flush iter io io_meta st = (saved, st')"
  shows "(saved \<longleftrightarrow> io_meta = Io_ok) \<and> table_inv st' \<and> memory_rows st' = [] \<and>
    (\<exists>es. mset es = mset (unwritten st) \<and> mset (rows_of es) = mset (memory_rows st) \<and>
      disk_ok st' (sbs @ filter (\<lambda>e. io (fst e) = Io_ok) es) \<and>
      (saved \<longrightarrow> tst_meta_file st' = Some (TableStorageMeta_Serialize (tst_metadata st') []) \<and> tst_pending st' = [] \<and>
         tst_indexes st' = MarkSegmentsVisible (tst_pending st @ map fst (filter (\<lambda>e. io (fst e) = Io_ok) es)) (tst_indexes st)) \<and>
      (\<not> saved \<longrightarrow> tst_pending st' = tst_pending st @ map fst (filter (\<lambda>e. io (fst e) = Io_ok) es) \<and> tst_indexes st' = tst_indexes st))"
proof -
  define st1 where "st1 = seal_nonempty st"
  define es where "es = iter (tst_sealed st1)"
  define st2 where "st2 = (fold (flush_segment io) es st1)\<lparr>tst_sealed := []\<rparr>"
  note sealed = seal_nonempty_ok [OF assms(1,4), folded st1_def]
  have disk1: "disk_ok st1 sbs" and fit1: "columns_fit (tst_schema st1)" and schema1: "tst_schema st1 = tst_schema st"
    using disk_ok_same [OF sealed(2)] assms(2,3) sealed(2) by (simp_all add: same_disk_def)
  have es: "mset es = mset (tst_sealed st1)" by (simp add: es_def assms(5))
  have rows: "mset (rows_of es) = mset (memory_rows st)" using rows_of_perm [OF es] sealed(4) by simp
  have disk2: "disk_ok st2 (sbs @ filter (\<lambda>e. io (fst e) = Io_ok) es)"
    using fold_flush_disk_ok [OF sealed(1) disk1 fit1 es, of io] by (simp add: st2_def disk_ok_def)
  have set: "set es = set (tst_sealed st1)" using es by (rule mset_eq_setD)
  have inv2: "table_inv st2"
    using sealed(1) set by (auto simp: st2_def table_inv_def)
  have mem2: "memory_rows st2 = []"
    using sealed(3) by (simp add: memory_rows_eq memory_segments_def st2_def segment_rows_def)
  define f where "f = snd (write_file io_meta (TableStorageMeta_Serialize (tst_metadata st2) []) (tst_meta_file st2))"
  have f: "SaveTableMeta io_meta st2 = (io_meta = Io_ok, st2\<lparr>tst_meta_file := f\<rparr>)"
    "io_meta = Io_ok \<Longrightarrow> f = Some (TableStorageMeta_Serialize (tst_metadata st2) [])"
    by (cases io_meta; simp add: f_def SaveTableMeta_def write_file_def Let_def)+
  have res: "saved = (io_meta = Io_ok)"
    "st' = (if io_meta = Io_ok then st2\<lparr>tst_meta_file := f, tst_indexes := MarkSegmentsVisible (tst_pending st2) (tst_indexes st2),
        tst_pending := []\<rparr> else st2\<lparr>tst_meta_file := f\<rparr>)"
    using assms(6) f(1) by (auto simp: Flush_def Let_def st1_def [symmetric] es_def [symmetric] st2_def [symmetric] split: if_splits)
  have same: "table_inv st' = table_inv st2" "memory_rows st' = memory_rows st2" "disk_ok st' xs = disk_ok st2 xs" for xs
    by (simp_all add: res(2) table_inv_def memory_rows_def memory_segments_def disk_ok_def)
  have pending: "tst_pending st2 = tst_pending st @ map fst (filter (\<lambda>e. io (fst e) = Io_ok) es)" "tst_indexes st2 = tst_indexes st"
    using sealed(6,7) by (simp_all add: st2_def)
  show ?thesis
    using res f(2) rows disk2 inv2 mem2 same es sealed(5) pending
    by (intro conjI exI [of _ es]) auto
qed

text \<open>C14: \<open>Flush\<close> empties the memory whatever happens.  Of the sealed segments and the active one, if it has rows, exactly those
  whose file was written join the disk, in the order in which the hash map gives them, and become pending; the others are gone.  When \<open>table.meta\<close> is
  written, and only then, the answer is true, and the pending segments are made visible in the indexes.\<close>

theorem Flush_effect:
  assumes "table_inv st" "disk_ok st sbs" "columns_fit (tst_schema st)" "unat (tst_next_id st) + 1 < 2 ^ 32"
    and "\<And>es. mset (iter es) = mset es" "Flush iter io io_meta st = (saved, st')"
  shows "(saved \<longleftrightarrow> io_meta = Io_ok) \<and> table_inv st' \<and> memory_rows st' = [] \<and>
    (\<exists>es. mset es = mset (unwritten st) \<and> mset (rows_of es) = mset (memory_rows st) \<and>
      disk_ok st' (sbs @ filter (\<lambda>e. io (fst e) = Io_ok) es) \<and>
      (saved \<longrightarrow> tst_meta_file st' = Some (TableStorageMeta_Serialize (tst_metadata st') []) \<and> tst_pending st' = [] \<and>
         tst_indexes st' = MarkSegmentsVisible (tst_pending st @ map fst (filter (\<lambda>e. io (fst e) = Io_ok) es)) (tst_indexes st)) \<and>
      (\<not> saved \<longrightarrow> tst_pending st' = tst_pending st @ map fst (filter (\<lambda>e. io (fst e) = Io_ok) es) \<and> tst_indexes st' = tst_indexes st))"
  using assms by (rule Flush_result)

end
