(* ===== verification/Row_Keys.thy ===== *)
theory Row_Keys
  imports Table_Rows
begin

text \<open>
  What the indexes of a table say of its rows: the key of a row, that all encoders compute it, when a batch repeats a
  primary key, and when the indexes hold exactly the rows of a table with their locations.
\<close>

subsection \<open>The key of a row\<close>

text \<open>A row has one cell for each column of the schema; its key joins the cells of the key columns.\<close>

definition row_key :: "table_schema \<Rightarrow> key_schema \<Rightarrow> bytes list \<Rightarrow> encoded_key" where
  "row_key s key row =
     fold (\<lambda>cid out. case (FindColumnSchema s cid, index_of cid (map cs_column_id (ts_columns s))) of
         (Some col, Some i) \<Rightarrow> append_cell (cs_type col) (row ! i) out
       | _ \<Rightarrow> out) (ks_columns key) []"

lemma fold_r_fold: "(\<And>x s. x \<in> set xs \<Longrightarrow> f x s = Inr (g x s)) \<Longrightarrow> fold_r f xs s = Inr (fold g xs s)"
  by (induction xs arbitrary: s) simp_all

lemma key_column:
  assumes "cid \<in> cs_column_id ` set (ts_columns s)"
  obtains col i where "FindColumnSchema s cid = Some col" "index_of cid (map cs_column_id (ts_columns s)) = Some i" "i < length (ts_columns s)"
proof -
  obtain col where "FindColumnSchema s cid = Some col" using FindColumnSchema_known [OF assms] .
  then show thesis using that index_of_known [of cid "map cs_column_id (ts_columns s)"] assms by auto
qed

lemma chunk_cell_row:
  assumes "chunk_ok tys chunk" "i < length tys" "row < dc_size chunk"
  shows "chunk_cell chunk i row = Inr (chunk_rows chunk ! row ! i)"
proof -
  obtain c where "chunk_cell chunk i row = Inr c" using chunk_cell_total [OF assms] by blast
  then show ?thesis using assms by (auto simp: chunk_cell_def chunk_rows_def chunk_row_def split: if_splits)
qed

lemma Encode_chunk_row:
  assumes "set (ks_columns key) \<subseteq> cs_column_id ` set (ts_columns s)" "chunk_ok (map cs_type (ts_columns s)) chunk" "row < dc_size chunk"
  shows "Encode_chunk s key chunk row = Inr (row_key s key (chunk_rows chunk ! row))"
  unfolding Encode_chunk_def row_key_def
proof (rule fold_r_fold)
  fix cid out assume "cid \<in> set (ks_columns key)"
  then obtain col i where "FindColumnSchema s cid = Some col" "index_of cid (map cs_column_id (ts_columns s)) = Some i" "i < length (ts_columns s)"
    using assms(1) key_column by blast
  then show "(case FindColumnSchema s cid of None \<Rightarrow> Inl key_column_not_found
      | Some col \<Rightarrow> bind_r (SchemaColumnIndex s cid) (\<lambda>i. bind_r (chunk_cell chunk i row) (\<lambda>c. Inr (append_cell (cs_type col) c out)))) =
    Inr (case (FindColumnSchema s cid, index_of cid (map cs_column_id (ts_columns s))) of
        (Some col, Some i) \<Rightarrow> append_cell (cs_type col) (chunk_rows chunk ! row ! i) out | _ \<Rightarrow> out)"
    using chunk_cell_row [OF assms(2) _ assms(3), of i] by (simp add: SchemaColumnIndex_def)
qed

lemma Encode_batch_row:
  assumes "set (ks_columns key) \<subseteq> cs_column_id ` set (ts_columns s)" "set (ks_columns key) \<subseteq> set cols"
    and "\<And>j. j < length cols \<Longrightarrow>
      column_cell batch j r = Inr (row ! the (index_of (cols ! j) (map cs_column_id (ts_columns s))))"
  shows "Encode_batch s key cols batch r = Inr (row_key s key row)"
  unfolding Encode_batch_def row_key_def
proof (rule fold_r_fold)
  fix cid out assume cid: "cid \<in> set (ks_columns key)"
  then obtain col i where col: "FindColumnSchema s cid = Some col" "index_of cid (map cs_column_id (ts_columns s)) = Some i"
    using assms(1) key_column by blast
  obtain j where "index_of cid cols = Some j" "j < length cols" "cols ! j = cid" using index_of_known [of cid cols] cid assms(2) by blast
  then show "(case FindColumnSchema s cid of None \<Rightarrow> Inl key_column_not_found
      | Some col \<Rightarrow> bind_r (BatchColumnIndex cols cid) (\<lambda>i. bind_r (column_cell batch i r) (\<lambda>c. Inr (append_cell (cs_type col) c out)))) =
    Inr (case (FindColumnSchema s cid, index_of cid (map cs_column_id (ts_columns s))) of
        (Some col, Some i) \<Rightarrow> append_cell (cs_type col) (row ! i) out | _ \<Rightarrow> out)"
    using col assms(3) [of j] by (simp add: BatchColumnIndex_def)
qed

subsection \<open>Repeated primary keys\<close>

text \<open>Two of the rows have the same primary key, or one has a key that the primary index knows already.\<close>

definition repeats_key :: "table_schema \<Rightarrow> table_indexes \<Rightarrow> bytes list list \<Rightarrow> bool" where
  "repeats_key s t rows \<longleftrightarrow>
     (case (tix_primary t, ts_primary_key s) of
        (Some ix, Some key) \<Rightarrow> \<not> distinct (map (row_key s key) rows) \<or> (\<exists>row\<in>set rows. ix (row_key s key row) \<noteq> None)
      | _ \<Rightarrow> False)"

lemma ValidatePrimaryKey_rows:
  assumes "indexes_for s t" "keys_known s" "chunk_ok (map cs_type (ts_columns s)) chunk"
  shows "ValidatePrimaryKey chunk t = Inr (\<not> repeats_key s t (chunk_rows chunk))"
proof (cases "tix_primary t")
  case None
  then show ?thesis by (simp add: ValidatePrimaryKey_def repeats_key_def)
next
  case (Some ix)
  then obtain key where key: "ts_primary_key s = Some key" using assms(1) by (auto simp: indexes_for_def)
  have "set (ks_columns key) \<subseteq> cs_column_id ` set (ts_columns s)" using assms(2) key by (auto simp: keys_known_def key_list_def)
  then have "encode_rows (Encode_chunk s key chunk) (dc_size chunk) = Inr (map (\<lambda>r. row_key s key (chunk_rows chunk ! r)) [0..<dc_size chunk])"
    unfolding encode_rows_def by (intro map_r_all_Inr Encode_chunk_row assms(3)) simp_all
  also have "map (\<lambda>r. row_key s key (chunk_rows chunk ! r)) [0..<dc_size chunk] = map (row_key s key) (chunk_rows chunk)"
    by (rule nth_equalityI) simp_all
  finally show ?thesis using Some key assms(1)
    by (auto simp: ValidatePrimaryKey_def repeats_key_def indexes_for_def ValidateBatch_iff disjoint_iff domIff)
qed

subsection \<open>What the indexes hold\<close>

text \<open>
  Located rows in the order of their insertion.  A primary index answers with the last location of a key, a secondary index
  with all of them in order.
\<close>

definition indexes_hold :: "table_schema \<Rightarrow> (row_location \<times> bytes list) list \<Rightarrow> table_indexes \<Rightarrow> bool" where
  "indexes_hold s lrs t \<longleftrightarrow> indexes_for s t \<and>
     (\<forall>ix key k. tix_primary t = Some ix \<longrightarrow> ts_primary_key s = Some key \<longrightarrow>
        Primary_Lookup k ix = map_of (rev (map (\<lambda>(l, row). (row_key s key row, l)) lrs)) k) \<and>
     (\<forall>j<length (ts_secondary_keys s). \<forall>k.
        Secondary_LookupEqual k (tix_secondary t ! j) =
        map fst (filter (\<lambda>(l, row). row_key s (ts_secondary_keys s ! j) row = k) lrs))"

lemma indexes_hold_new: "indexes_hold s [] (new_indexes s)"
  by (auto simp: indexes_hold_def indexes_for_def new_indexes_def Primary_Lookup_def Secondary_LookupEqual_def split: if_splits)

lemma Primary_Lookup_Insert:
  "Primary_Lookup k (fold (\<lambda>(k, l). Primary_Insert k l True) kls ix) = (case map_of (rev kls) k of None \<Rightarrow> Primary_Lookup k ix | Some l \<Rightarrow> Some l)"
proof (induction kls arbitrary: ix)
  case (Cons kl kls)
  then show ?case by (cases kl) (auto simp: Primary_Lookup_def Primary_Insert_def map_add_def split: option.splits)
qed simp

lemma Secondary_Lookup_Insert:
  "Secondary_LookupEqual k (fold (\<lambda>(k, l). Secondary_Insert k l True) kls ix) =
     Secondary_LookupEqual k ix @ map snd (filter (\<lambda>(k', l). k' = k) kls)"
proof (induction kls arbitrary: ix)
  case (Cons kl kls)
  have "Secondary_LookupEqual k (Secondary_Insert k' l True ix) = Secondary_LookupEqual k ix @ (if k' = k then [l] else [])" for k' l ix
    by (auto simp: Secondary_LookupEqual_def Secondary_Insert_def split: option.splits)
  then show ?case using Cons by (cases kl) simp
qed simp

lemma insert_rows_keys:
  assumes "length rows = length locs" "\<And>key r. key \<in> set (key_list s) \<Longrightarrow> r < length locs \<Longrightarrow> enc key r = Inr (row_key s key (rows ! r))"
    and "key \<in> set (key_list s)"
  shows "insert_rows ins v (enc key) locs ix = Inr (fold (\<lambda>(k, l). ins k l v) (zip (map (row_key s key) rows) locs) ix)"
proof (rule insert_rows_batch)
  have "map_r (enc key) [0..<length locs] = Inr (map (\<lambda>r. row_key s key (rows ! r)) [0..<length locs])"
    by (rule map_r_all_Inr) (use assms in simp)
  also have "map (\<lambda>r. row_key s key (rows ! r)) [0..<length locs] = map (row_key s key) rows" using assms(1) by (intro nth_equalityI) simp_all
  finally show "map_r (enc key) [0..<length locs] = Inr (map (row_key s key) rows)" .
qed

text \<open>After an append the keys of its rows are taken, although they are hidden from lookups.\<close>

lemma Primary_Insert_dom: "dom (fold (\<lambda>(k, l). Primary_Insert k l v) kls ix) = fst ` set kls \<union> dom ix"
  by (induction kls arbitrary: ix) (auto simp: Primary_Insert_def)

lemma OnAppend_repeats:
  assumes "indexes_for s t" "keys_known s" "chunk_ok (map cs_type (ts_columns s)) chunk" "length locs = dc_size chunk"
    and "OnAppend chunk locs t = Inr t'" "ts_primary_key s \<noteq> None" "row \<in> set (chunk_rows chunk)"
  shows "repeats_key s t' [row]"
proof -
  obtain key ix where key: "ts_primary_key s = Some key" "tix_primary t = Some ix" using assms(1,6) by (auto simp: indexes_for_def)
  have enc: "Encode_chunk s key' chunk r = Inr (row_key s key' (chunk_rows chunk ! r))" if "key' \<in> set (key_list s)" "r < length locs" for key' r
    using Encode_chunk_row [OF _ assms(3), of key' r] assms(2,4) that by (auto simp: keys_known_def)
  have "insert_rows Primary_Insert False (Encode_chunk s key chunk) locs ix =
      Inr (fold (\<lambda>(k, l). Primary_Insert k l False) (zip (map (row_key s key) (chunk_rows chunk)) locs) ix)"
    by (rule insert_rows_keys [of "chunk_rows chunk" locs s "\<lambda>key. Encode_chunk s key chunk"])
      (use enc assms(4) key(1) in \<open>simp_all add: key_list_def\<close>)
  then have "tix_primary t' = Some (fold (\<lambda>(k, l). Primary_Insert k l False) (zip (map (row_key s key) (chunk_rows chunk)) locs) ix)"
    using assms(1,5) key by (auto simp: OnAppend_def insert_everywhere_def bind_r_Inr_iff indexes_for_def)
  moreover have "fst ` set (zip (map (row_key s key) (chunk_rows chunk)) locs) = row_key s key ` set (chunk_rows chunk)"
    using assms(4) by (simp flip: set_map)
  ultimately show ?thesis using key(1) assms(7) Primary_Insert_dom [of False "zip (map (row_key s key) (chunk_rows chunk)) locs" ix]
    by (auto simp: repeats_key_def domIff set_eq_iff)
qed

lemma insert_everywhere_rows:
  assumes hold: "indexes_hold s lrs t" and len: "length rows = length locs"
    and enc: "\<And>key r. key \<in> set (key_list s) \<Longrightarrow> r < length locs \<Longrightarrow> enc key r = Inr (row_key s key (rows ! r))"
    and run: "insert_everywhere True enc locs t = Inr t'"
  shows "indexes_hold s (lrs @ zip locs rows) t'"
proof -
  have "\<exists>t''. insert_everywhere True enc locs t = Inr t'' \<and> indexes_for s t'' \<and> tix_key_columns t'' = tix_key_columns t"
    by (rule insert_everywhere_total) (use hold enc in \<open>auto simp: indexes_hold_def\<close>)
  then have for': "indexes_for s t'" using run by simp
  have t: "tix_schema t = s" "length (tix_secondary t) = length (ts_secondary_keys s)" "tix_primary t = None \<longleftrightarrow> ts_primary_key s = None"
    using hold by (simp_all add: indexes_hold_def indexes_for_def)
  let ?keys = "\<lambda>key. map (row_key s key) rows"
  note batch = insert_rows_keys [OF len enc]
  obtain p ss where ps: "t' = t\<lparr>tix_primary := p, tix_secondary := ss\<rparr>"
      "(case (tix_primary t, ts_primary_key s) of (None, _) \<Rightarrow> Inr None | (Some _, None) \<Rightarrow> Inl Undefined_behaviour
        | (Some ix, Some key) \<Rightarrow> bind_r (insert_rows Primary_Insert True (enc key) locs ix) (\<lambda>ix. Inr (Some ix))) = Inr p"
      "map_r (\<lambda>(key, ix). insert_rows Secondary_Insert True (enc key) locs ix) (zip (ts_secondary_keys s) (tix_secondary t)) = Inr ss"
    using run by (auto simp: insert_everywhere_def bind_r_Inr_iff t(1))
  have zipped: "map (\<lambda>(l, row). (row_key s key row, l)) (zip locs rows) = zip (?keys key) locs" for key
    using len by (intro nth_equalityI) simp_all
  have primary: "Primary_Lookup k ix' = map_of (rev (map (\<lambda>(l, row). (row_key s key row, l)) (lrs @ zip locs rows))) k"
    if "tix_primary t' = Some ix'" "ts_primary_key s = Some key" for ix' key k
  proof -
    have "tix_primary t \<noteq> None" using t(3) that(2) by simp
    then obtain ix where ix: "tix_primary t = Some ix" by auto
    have "key \<in> set (key_list s)" using that(2) by (simp add: key_list_def)
    then have ix': "ix' = fold (\<lambda>(k, l). Primary_Insert k l True) (zip (?keys key) locs) ix"
      using ps(1,2) that ix batch [of key Primary_Insert True ix] by simp
    have "Primary_Lookup k ix = map_of (rev (map (\<lambda>(l, row). (row_key s key row, l)) lrs)) k"
      using hold ix that(2) by (simp add: indexes_hold_def)
    then show ?thesis by (auto simp: ix' Primary_Lookup_Insert zipped map_add_def split: option.splits)
  qed
  have secondary: "Secondary_LookupEqual k (tix_secondary t' ! j) =
      map fst (filter (\<lambda>(l, row). row_key s (ts_secondary_keys s ! j) row = k) (lrs @ zip locs rows))"
    if j: "j < length (ts_secondary_keys s)" for j k
  proof -
    let ?key = "ts_secondary_keys s ! j"
    have "?key \<in> set (key_list s)" using j by (simp add: key_list_def)
    moreover have "insert_rows Secondary_Insert True (enc ?key) locs (tix_secondary t ! j) = Inr (ss ! j)"
      using map_r_nth [OF ps(3), of j] j t(2) by simp
    ultimately have "tix_secondary t' ! j = fold (\<lambda>(k, l). Secondary_Insert k l True) (zip (?keys ?key) locs) (tix_secondary t ! j)"
      using batch [of ?key Secondary_Insert True] ps(1) by simp
    moreover have "Secondary_LookupEqual k (tix_secondary t ! j) = map fst (filter (\<lambda>(l, row). row_key s ?key row = k) lrs)"
      using hold j by (simp add: indexes_hold_def)
    moreover have "map snd (filter (\<lambda>(k', l). k' = k) (zip (?keys ?key) locs)) = map fst (filter (\<lambda>(l, row). row_key s ?key row = k) (zip locs rows))"
      unfolding zipped [symmetric] by (simp add: filter_map comp_def case_prod_unfold)
    ultimately show ?thesis by (simp add: Secondary_Lookup_Insert)
  qed
  show ?thesis using for' primary secondary by (simp add: indexes_hold_def)
qed

end
