(* ===== verification/Table_Reopen.thy ===== *)
theory Table_Reopen
  imports Table_Flush Row_Keys
begin

text \<open>
  A table opened on a flushed directory: its metadata is read back, its segments serve the rows they were
  written from, and its indexes are rebuilt from them.
\<close>

subsection \<open>The rebuild of the indexes returns\<close>

lemma column_cell_total:
  assumes "column_ok n (vb_columns b ! i)" "i < length (vb_columns b)" "row < n"
  shows "\<exists>c. column_cell b i row = Inr c"
proof -
  have "Suc row * TypeElemSize (cd_type (vb_columns b ! i)) \<le> n * TypeElemSize (cd_type (vb_columns b ! i))"
    using assms(3) by (intro mult_le_mono1) simp
  then show ?thesis using assms(1,2) by (simp add: column_cell_def column_ok_def)
qed

text \<open>The rows of written segments with their locations, in the order in which they are read back.\<close>

definition located_from :: "segment_id \<Rightarrow> segment_builder \<Rightarrow> nat \<Rightarrow> (row_location \<times> bytes list) list" where
  "located_from sid sb offset = map (\<lambda>i. (\<lparr>rl_segment_id = sid, rl_row_offset = u32_of i\<rparr>, segment_rows sb ! i)) [offset..<sb_row_count sb]"

definition located_rows :: "(segment_id \<times> segment_builder) list \<Rightarrow> (row_location \<times> bytes list) list" where
  "located_rows sbs = concat (map (\<lambda>(sid, sb). located_from sid sb 0) sbs)"

lemma located_split:
  assumes "n \<le> sb_row_count sb - offset"
  shows "located_from sid sb offset =
    zip (map (\<lambda>i. \<lparr>rl_segment_id = sid, rl_row_offset = u32_of (offset + i)\<rparr>) [0..<n]) (map (\<lambda>i. segment_rows sb ! (offset + i)) [0..<n]) @
    located_from sid sb (offset + n)"
proof (cases "offset \<le> sb_row_count sb")
  case True
  have "[offset..<offset + n] = map ((+) offset) [0..<n]" by (rule nth_equalityI) simp_all
  then have "[offset..<sb_row_count sb] = map ((+) offset) [0..<n] @ [offset + n..<sb_row_count sb]"
    using True assms upt_add_eq_append [of offset "offset + n" "sb_row_count sb - (offset + n)"] by simp
  then show ?thesis by (simp add: located_from_def zip_map_map comp_def zip_same_conv_map)
qed (use assms in \<open>simp add: located_from_def\<close>)

lemma batch_cell:
  assumes "column_ok n (vb_columns b ! j)" "j < length (vb_columns b)" "r < n"
  shows "column_cell b j r = Inr (column_cells (vb_columns b ! j) ! r)"
proof -
  obtain c where "column_cell b j r = Inr c" using column_cell_total [OF assms] by blast
  then show ?thesis using assms by (auto simp: column_cell_def column_cells_def column_ok_def split: if_splits)
qed

lemma rebuild_segment_rows:
  assumes "reader_serves r sb" "builder_for s sb" "indexes_hold s lrs ix" "cols \<noteq> []"
    and "set cols \<subseteq> cs_column_id ` set (ts_columns s)" "\<forall>key\<in>set (key_list s). set (ks_columns key) \<subseteq> set cols"
  shows "\<exists>ix'. rebuild_segment cols sid r offset batch ix = Inr ix' \<and> indexes_hold s (lrs @ located_from sid sb offset) ix'"
  using assms(3)
proof (induction "sb_row_count sb - offset" arbitrary: offset batch ix lrs rule: less_induct)
  case less
  let ?o = "\<lparr>so_start_row = 0, so_end_row = -1, so_columns = cols, so_predicates = []\<rparr>"
  have ok: "segment_ok sb" and ids: "builder_ids sb = map cs_column_id (ts_columns s)"
    using assms(2) by (simp_all add: builder_for_def)
  have rows: "unat (sm_row_count (sr_metadata r)) = sb_row_count sb" using assms(1) by (simp add: reader_serves_def)
  show ?case
  proof (cases "offset < sb_row_count sb")
    case False
    then have "GetVectorBatch ?o offset r batch = Inr (False, batch)" by (simp add: GetVectorBatch_def rows)
    then show ?thesis using less.prems False by (simp add: rebuild_segment.simps located_from_def)
  next
    case True
    define n where "n = min kVectorBatchSize (sb_row_count sb - offset)"
    have n: "0 < n" "n \<le> sb_row_count sb - offset" using True by (simp_all add: n_def size_defs)
    define js where "js = map (\<lambda>c. the (index_of c (builder_ids sb))) cols"
    have js: "builder_ids sb ! (js ! j) = cols ! j" "js ! j < length (sb_columns sb)" if "j < length cols" for j
    proof -
      have "cols ! j \<in> set (builder_ids sb)" using that assms(5) ids nth_mem [of j cols] by (simp only: set_map) blast
      from index_of_known [OF this] show "builder_ids sb ! (js ! j) = cols ! j" "js ! j < length (sb_columns sb)"
        using that by (auto simp: js_def)
    qed
    have "map (\<lambda>i. builder_ids sb ! i) js = cols" by (rule nth_equalityI) (use js(1) in \<open>simp_all add: js_def\<close>)
    then have cols: "scan_columns ?o r = map (\<lambda>i. builder_ids sb ! i) js" using assms(4) by (simp add: scan_columns_def)
    have "\<forall>j\<in>set js. j < length (sb_columns sb)" using js(2) by (auto simp: in_set_conv_nth) (simp add: js_def)
    from GetVectorBatch_rows [OF assms(1) ok True cols this n_def]
    obtain b where b: "GetVectorBatch ?o offset r batch = Inr (True, SetIdentitySelection n b)"
      "map cd_type (vb_columns b) = map (\<lambda>j. builder_types sb ! j) js" "\<forall>c\<in>set (vb_columns b). column_ok n c"
      "\<And>row j. row < n \<Longrightarrow> j < length js \<Longrightarrow>
         column_cells (vb_columns b ! j) ! row = builder_cells (sb_columns sb ! (js ! j)) ! (offset + row)"
      by metis
    let ?b = "SetIdentitySelection n b"
    let ?locs = "map (\<lambda>i. \<lparr>rl_segment_id = sid, rl_row_offset = u32_of (offset + i)\<rparr>) [0..<n]"
    let ?rows = "map (\<lambda>i. segment_rows sb ! (offset + i)) [0..<n]"
    have size: "vb_size ?b = n" "vb_columns ?b = vb_columns b" by (simp_all add: SetIdentitySelection_def)
    have len: "length (vb_columns b) = length cols"
      using arg_cong [OF b(2), of length] by (simp add: js_def)
    have enc: "Encode_batch s key cols ?b i = Inr (row_key s key (?rows ! i))" if "key \<in> set (key_list s)" "i < n" for key i
    proof (rule Encode_batch_row)
      show "set (ks_columns key) \<subseteq> cs_column_id ` set (ts_columns s)" "set (ks_columns key) \<subseteq> set cols" using assms(5,6) that(1) by auto
      fix j assume j: "j < length cols"
      have "column_cell ?b j i = Inr (builder_cells (sb_columns sb ! (js ! j)) ! (offset + i))"
        using batch_cell [of n ?b j i] b(3,4) j len that(2) size(2) by (simp add: js_def)
      also have "builder_cells (sb_columns sb ! (js ! j)) ! (offset + i) = ?rows ! i ! (js ! j)"
        using js(2) [OF j] that(2) n(2) True by (simp add: segment_rows_def)
      also have "js ! j = the (index_of (cols ! j) (map cs_column_id (ts_columns s)))" using j ids by (simp add: js_def)
      finally show "column_cell ?b j i = Inr (?rows ! i ! the (index_of (cols ! j) (map cs_column_id (ts_columns s))))" .
    qed
    have for': "indexes_for s ix" using less.prems by (simp add: indexes_hold_def)
    then obtain ix1 where ix1: "RebuildFromBatch cols ?b ?locs ix = Inr ix1"
      using insert_everywhere_total [OF for', of ?locs "\<lambda>key. Encode_batch s key cols ?b" True] enc
      by (auto simp: RebuildFromBatch_def indexes_for_def)
    then have "indexes_hold s (lrs @ zip ?locs ?rows) ix1"
      using for' enc by (intro insert_everywhere_rows [OF less.prems, of ?rows ?locs "\<lambda>key. Encode_batch s key cols ?b"])
        (simp_all add: RebuildFromBatch_def indexes_for_def)
    moreover have "sb_row_count sb - (offset + n) < sb_row_count sb - offset" using True n by simp
    ultimately obtain ix' where "rebuild_segment cols sid r (offset + n) ?b ix1 = Inr ix'"
        "indexes_hold s ((lrs @ zip ?locs ?rows) @ located_from sid sb (offset + n)) ix'"
      using less.hyps [of "offset + n" "lrs @ zip ?locs ?rows" ix1 ?b] by blast
    then show ?thesis
      using ix1 b(1) n located_split [OF n(2), of sid] by (simp add: rebuild_segment.simps [of cols sid r offset batch ix] size(1))
  qed
qed

lemma key_columns_new: "set (tix_key_columns (new_indexes s)) = (\<Union>key\<in>set (key_list s). set (ks_columns key))"
  by (auto simp: new_indexes_def key_list_def split: option.splits)

text \<open>Every key has a column, as the binder demands; otherwise the rebuild would find nothing to read.\<close>

definition keys_nonempty :: "table_schema \<Rightarrow> bool" where
  "keys_nonempty s \<longleftrightarrow> (\<forall>key\<in>set (key_list s). ks_columns key \<noteq> [])"

lemma indexes_hold_keyless:
  assumes "keys_nonempty s" "tix_key_columns (new_indexes s) = []"
  shows "indexes_hold s lrs (new_indexes s)"
proof -
  have "(\<Union>key\<in>set (key_list s). set (ks_columns key)) = {}" using assms(2) by (simp flip: key_columns_new)
  then have "key_list s = []" using assms(1) by (cases "key_list s") (auto simp: keys_nonempty_def)
  then have "ts_primary_key s = None" "ts_secondary_keys s = []" by (auto simp: key_list_def split: option.splits)
  then show ?thesis by (simp add: indexes_hold_def indexes_for_def new_indexes_def)
qed

subsection \<open>Readers\<close>

lemma GetSegmentReader_ok:
  assumes "disk_ok st sbs" "(sid, sb) \<in> set sbs"
  shows "\<exists>r st'. GetSegmentReader sid st = (Some r, st') \<and> reader_serves r sb \<and> disk_ok st' sbs \<and>
    (\<exists>c. st' = st\<lparr>tst_reader_cache := c\<rparr>)"
proof -
  obtain r where r: "Segment_Open sid (tst_files st sid) = Some r" "reader_serves r sb"
    using assms unfolding disk_ok_def by blast
  have cache: "sid \<in> fst ` set sbs \<and> Segment_Open sid (tst_files st sid) = Some r'" if "tst_reader_cache st sid = Some r'" for sid r'
    using assms(1) that unfolding disk_ok_def by blast
  show ?thesis
  proof (cases "tst_reader_cache st sid")
    case None
    have "sid \<in> fst ` set sbs" using assms(2) by force
    then have "disk_ok (st\<lparr>tst_reader_cache := (tst_reader_cache st)(sid \<mapsto> r)\<rparr>) sbs"
      using assms(1) r(1) cache unfolding disk_ok_def by simp
    then show ?thesis using None r by (auto simp: GetSegmentReader_def)
  next
    case (Some r')
    then have "r' = r" using cache r(1) by fastforce
    moreover have "\<exists>c. st = st\<lparr>tst_reader_cache := c\<rparr>" by (rule exI [of _ "tst_reader_cache st"]) simp
    ultimately show ?thesis using Some r(2) assms(1) by (simp add: GetSegmentReader_def)
  qed
qed

lemma rebuild_step_ok:
  assumes "disk_ok st sbs" "(sid, sb) \<in> set sbs" "indexes_hold (tst_schema st) lrs (tst_indexes st)" "cols \<noteq> []"
    and "set cols \<subseteq> cs_column_id ` set (ts_columns (tst_schema st))"
    and "\<forall>key\<in>set (key_list (tst_schema st)). set (ks_columns key) \<subseteq> set cols"
  shows "\<exists>ix c. rebuild_step cols sid st = Inr (st\<lparr>tst_reader_cache := c, tst_indexes := ix\<rparr>) \<and>
    indexes_hold (tst_schema st) (lrs @ located_from sid sb 0) ix \<and> disk_ok (st\<lparr>tst_reader_cache := c, tst_indexes := ix\<rparr>) sbs"
proof -
  obtain r c where r: "GetSegmentReader sid st = (Some r, st\<lparr>tst_reader_cache := c\<rparr>)" "reader_serves r sb"
      "disk_ok (st\<lparr>tst_reader_cache := c\<rparr>) sbs"
    using GetSegmentReader_ok [OF assms(1,2)] by blast
  have "builder_for (tst_schema st) sb" using assms(1,2) unfolding disk_ok_def by blast
  from rebuild_segment_rows [OF r(2) this assms(3-6)]
  obtain ix where "rebuild_segment cols sid r 0 empty_batch (tst_indexes st) = Inr ix"
      "indexes_hold (tst_schema st) (lrs @ located_from sid sb 0) ix"
    by blast
  moreover have "disk_ok (st\<lparr>tst_reader_cache := c, tst_indexes := ix\<rparr>) sbs" for ix
    using r(3) by (simp add: disk_ok_def)
  ultimately show ?thesis using r(1) by (intro exI conjI) (simp_all add: rebuild_step_def)
qed

lemma fold_rebuild_ok:
  assumes "disk_ok st sbs" "set es \<subseteq> set sbs" "indexes_hold (tst_schema st) lrs (tst_indexes st)" "cols \<noteq> []"
    and "set cols \<subseteq> cs_column_id ` set (ts_columns (tst_schema st))"
    and "\<forall>key\<in>set (key_list (tst_schema st)). set (ks_columns key) \<subseteq> set cols"
  shows "\<exists>ix c. fold_r (rebuild_step cols) (map fst es) st = Inr (st\<lparr>tst_reader_cache := c, tst_indexes := ix\<rparr>) \<and>
    indexes_hold (tst_schema st) (lrs @ located_rows es) ix \<and> disk_ok (st\<lparr>tst_reader_cache := c, tst_indexes := ix\<rparr>) sbs"
  using assms(1-3,5,6)
proof (induction es arbitrary: st lrs)
  case Nil
  have "st = st\<lparr>tst_reader_cache := tst_reader_cache st, tst_indexes := tst_indexes st\<rparr>" by simp
  moreover have "lrs @ located_rows [] = lrs" by (simp add: located_rows_def)
  ultimately show ?case using Nil by (metis fold_r.simps(1) list.simps(8))
next
  case (Cons e es)
  obtain sid sb where e: "e = (sid, sb)" by (cases e)
  obtain ix c where st1: "rebuild_step cols sid st = Inr (st\<lparr>tst_reader_cache := c, tst_indexes := ix\<rparr>)"
    "indexes_hold (tst_schema st) (lrs @ located_from sid sb 0) ix" "disk_ok (st\<lparr>tst_reader_cache := c, tst_indexes := ix\<rparr>) sbs"
    using rebuild_step_ok [OF Cons.prems(1) _ Cons.prems(3) assms(4) Cons.prems(4,5), of sid sb] Cons.prems(2) e by auto
  show ?case using Cons.IH [OF st1(3), of "lrs @ located_from sid sb 0"] Cons.prems st1(1,2) by (simp add: e located_rows_def)
qed

subsection \<open>Opening\<close>

lemma fold_next_id:
  fixes ids :: "segment_id list"
  assumes "\<forall>sid\<in>set ids. unat sid + 2 < 2 ^ 32" "unat n0 + 1 < 2 ^ 32"
  defines "n \<equiv> fold (\<lambda>sid next. max next (sid + 1)) ids n0"
  shows "unat n + 1 < 2 ^ 32 \<and> unat n0 \<le> unat n \<and> (\<forall>sid\<in>set ids. unat sid < unat n)"
  using assms(1,2) unfolding n_def
proof (induction ids arbitrary: n0)
  case (Cons sid ids)
  have max: "unat (max a b) = max (unat a) (unat b)" for a b :: segment_id by (simp add: max_def word_le_nat_alt)
  have succ: "unat (sid + 1) = unat sid + 1" using Cons.prems(1) by (simp add: unat_word_ariths)
  have "unat (max n0 (sid + 1)) + 1 < 2 ^ 32" using Cons.prems succ by (simp add: max)
  from Cons.IH [OF _ this] Cons.prems(1) show ?case using succ by (auto simp: max)
qed simp

lemma distinct_words_short:
  fixes ids :: "u32 list"
  assumes "distinct ids" "\<forall>sid\<in>set ids. unat sid + 2 < 2 ^ 32"
  shows "length ids < 2 ^ 32"
proof -
  have "unat ` set ids \<subseteq> {..<2 ^ 32 - 2}" using assms(2) by fastforce
  then have "card (unat ` set ids) \<le> 2 ^ 32 - 2" by (metis card_lessThan card_mono finite_lessThan)
  moreover have "card (unat ` set ids) = length ids"
  proof -
    have "inj_on (unat :: u32 \<Rightarrow> nat) (set ids)" by (rule inj_onI) (simp add: word_unat_eq_iff)
    then show ?thesis using assms(1) by (simp add: card_image distinct_card)
  qed
  ultimately show ?thesis by simp
qed

lemma construct_table_ok:
  assumes "map fst sbs = tm_segment_ids m" "distinct (map fst sbs)" "\<forall>sid\<in>set (map fst sbs). unat sid + 2 < 2 ^ 32"
    and "\<forall>(sid, sb)\<in>set sbs. builder_for schema sb \<and> (\<exists>r. Segment_Open sid (files sid) = Some r \<and> reader_serves r sb)"
    and "keys_known schema" "keys_nonempty schema"
  shows "\<exists>st. construct_table i schema m mf files = Inr st \<and> table_inv st \<and> memory_rows st = [] \<and> disk_ok st sbs \<and>
    tst_schema st = schema \<and> indexes_hold schema (located_rows sbs) (tst_indexes st) \<and> tst_meta_file st = mf \<and> tst_files st = files \<and>
    unat (tst_next_id st) < 2 ^ 32"
proof -
  define nxtid where "nxtid = fold (\<lambda>sid next. max next (sid + 1)) (tm_segment_ids m) (0 :: segment_id)"
  have nxt: "unat nxtid + 1 < 2 ^ 32" "\<forall>sid\<in>set (tm_segment_ids m). unat sid < unat nxtid"
    using fold_next_id [of "tm_segment_ids m" 0] assms(1,3) by (simp_all add: nxtid_def)
  define st0 where "st0 = CreateActiveSegment
       \<lparr>tst_table_id = i, tst_schema = schema, tst_metadata = m, tst_sealed = [], tst_reader_cache = Map.empty,
        tst_indexes = new_indexes schema, tst_pending = [], tst_active_id = 0, tst_next_id = nxtid,
        tst_active = new_segment_builder schema, tst_meta_file = mf, tst_files = files\<rparr>"
  have succ: "unat (nxtid + 1) = Suc (unat nxtid)" using nxt(1) by (simp add: unat_word_ariths)
  have inv0: "table_inv st0" using nxt succ by (simp add: st0_def table_inv_def CreateActiveSegment_def)
  have mem0: "memory_rows st0 = []"
    by (simp add: memory_rows_eq memory_segments_def st0_def CreateActiveSegment_def new_segment_builder_ok)
  have sel0: "tst_schema st0 = schema" "tst_metadata st0 = m" "tst_files st0 = files" "tst_reader_cache st0 = Map.empty"
    "tst_indexes st0 = new_indexes schema" "tst_meta_file st0 = mf"
    by (simp_all add: st0_def CreateActiveSegment_def)
  have disk0: "disk_ok st0 sbs" using assms(1,2,4) by (intro disk_okI) (simp_all add: sel0)
  have built: "construct_table i schema m mf files = RebuildIndexes st0"
    by (simp add: construct_table_def st0_def nxtid_def)
  have keep: "table_inv (st0\<lparr>tst_reader_cache := c, tst_indexes := ix\<rparr>)" "memory_rows (st0\<lparr>tst_reader_cache := c, tst_indexes := ix\<rparr>) = []"
    for c ix using inv0 mem0 by (simp_all add: table_inv_def memory_rows_def memory_segments_def)
  have "\<exists>ix c. RebuildIndexes st0 = Inr (st0\<lparr>tst_reader_cache := c, tst_indexes := ix\<rparr>) \<and> indexes_hold schema (located_rows sbs) ix \<and>
      disk_ok (st0\<lparr>tst_reader_cache := c, tst_indexes := ix\<rparr>) sbs"
  proof (cases "tm_segment_ids m = [] \<or> tix_key_columns (new_indexes schema) = []")
    case True
    have "st0 = st0\<lparr>tst_reader_cache := tst_reader_cache st0, tst_indexes := new_indexes schema\<rparr>" by (simp flip: sel0(5))
    moreover have "RebuildIndexes st0 = Inr st0" using True by (simp add: RebuildIndexes_def sel0)
    moreover have "indexes_hold schema (located_rows sbs) (new_indexes schema)"
    proof (cases "tix_key_columns (new_indexes schema) = []")
      case False
      then have "sbs = []" using True assms(1) by (metis map_is_Nil_conv)
      then show ?thesis using indexes_hold_new by (simp add: located_rows_def)
    qed (rule indexes_hold_keyless [OF assms(6)])
    ultimately show ?thesis using disk0 by metis
  next
    case False
    let ?cols = "tix_key_columns (new_indexes schema)"
    have "set ?cols \<subseteq> cs_column_id ` set (ts_columns schema)" using assms(5) by (auto simp: key_columns_new keys_known_def)
    moreover have "\<forall>key\<in>set (key_list schema). set (ks_columns key) \<subseteq> set ?cols" by (auto simp: key_columns_new)
    ultimately show ?thesis
      using fold_rebuild_ok [OF disk0 order_refl, of "[]" ?cols] False indexes_hold_new
      by (simp add: RebuildIndexes_def sel0 assms(1))
  qed
  then show ?thesis using built keep unat_u32_less by (auto simp: sel0)
qed

lemma Table_Open_written:
  assumes "disk_ok st sbs" "tst_meta_file st = Some (TableStorageMeta_Serialize (tst_metadata st) [])"
    and "keys_known (tst_schema st)" "\<forall>sid\<in>set (tm_segment_ids (tst_metadata st)). unat sid + 2 < 2 ^ 32"
    and "keys_nonempty (tst_schema st)"
  shows "\<exists>st'. Table_Open (tm_table_id (tst_metadata st)) (tst_schema st) (tst_meta_file st) (tst_files st) = Inr (Some st') \<and>
    table_inv st' \<and> memory_rows st' = [] \<and> disk_ok st' sbs \<and> tst_schema st' = tst_schema st \<and>
    indexes_hold (tst_schema st') (located_rows sbs) (tst_indexes st')"
proof -
  let ?m = "tst_metadata st"
  have ids: "map fst sbs = tm_segment_ids ?m" "distinct (tm_segment_ids ?m)" using assms(1) by (simp_all add: disk_ok_def)
  have short: "length (tm_segment_ids ?m) < 2 ^ 32" by (rule distinct_words_short [OF ids(2) assms(4)])
  have "TableStorageMeta_Deserialize (reader_of (TableStorageMeta_Serialize ?m [])) =
      Inr (?m, reader_advance (length (TableStorageMeta_Serialize ?m [])) (reader_of (TableStorageMeta_Serialize ?m [])))"
    using short by (rule table_meta_codec.des_ser) simp
  moreover obtain st' where "construct_table (tm_table_id ?m) (tst_schema st) ?m (tst_meta_file st) (tst_files st) = Inr st'"
      "table_inv st'" "memory_rows st' = []" "disk_ok st' sbs" "tst_schema st' = tst_schema st"
      "indexes_hold (tst_schema st) (located_rows sbs) (tst_indexes st')"
  proof -
    have "\<forall>(sid, sb)\<in>set sbs. builder_for (tst_schema st) sb \<and>
        (\<exists>r. Segment_Open sid (tst_files st sid) = Some r \<and> reader_serves r sb)"
      using assms(1) unfolding disk_ok_def by blast
    from construct_table_ok [OF ids(1) _ _ this assms(3,5)] show thesis using ids assms(4) that by metis
  qed
  ultimately show ?thesis using assms(2) by (simp add: Table_Open_def)
qed

text \<open>C23: A table opened on a written \<open>table.meta\<close> serves the segments it lists, with an empty memory and an active
  segment whose id is not in use.  Its indexes are rebuilt from these segments: the primary index answers a key with the location of the (last)
  row that has it, a secondary index with the locations of all rows that have it, in order, and both with nothing for any other key.\<close>

theorem Table_Open_after_Flush:
  assumes "disk_ok st sbs" "tst_meta_file st = Some (TableStorageMeta_Serialize (tst_metadata st) [])"
    and "keys_known (tst_schema st)" "\<forall>sid\<in>set (tm_segment_ids (tst_metadata st)). unat sid + 2 < 2 ^ 32"
    and "keys_nonempty (tst_schema st)"
  shows "\<exists>st'. Table_Open (tm_table_id (tst_metadata st)) (tst_schema st) (tst_meta_file st) (tst_files st) = Inr (Some st') \<and>
    table_inv st' \<and> memory_rows st' = [] \<and> disk_ok st' sbs \<and> tst_schema st' = tst_schema st \<and>
    indexes_hold (tst_schema st') (located_rows sbs) (tst_indexes st')"
  using assms by (rule Table_Open_written)

end
