(* ===== verification/Table_Scan.thy ===== *)
theory Table_Scan
  imports Table_Reopen
begin

text \<open>
  What scans deliver.  One call of \<open>ScanSegment\<close> on a segment gives the matching rows of its next 1024
  rows; the serial scan strings the segments together, and the parallel scan shares them out among
  workers so that every segment is read by exactly one of them.
\<close>

subsection \<open>The rows a scan stands for\<close>

abbreviation schema_ids :: "table_schema \<Rightarrow> column_id list" where
  "schema_ids s \<equiv> map cs_column_id (ts_columns s)"

definition column_slot :: "table_schema \<Rightarrow> column_id \<Rightarrow> nat" where
  "column_slot s cid = the (index_of cid (schema_ids s))"

definition row_matches :: "table_schema \<Rightarrow> scan_options \<Rightarrow> bytes list \<Rightarrow> bool" where
  "row_matches s options row \<longleftrightarrow> (\<forall>cond\<in>set (so_predicates options).
     condition_holds (schema_column_type s (cond_column cond)) cond (row ! column_slot s (cond_column cond)))"

definition project_row :: "table_schema \<Rightarrow> scan_options \<Rightarrow> bytes list \<Rightarrow> bytes list" where
  "project_row s options row = map (\<lambda>cid. row ! column_slot s cid) (so_columns options)"

definition selected :: "table_schema \<Rightarrow> scan_options \<Rightarrow> bytes list list \<Rightarrow> bytes list list" where
  "selected s options rows = map (project_row s options) (filter (row_matches s options) rows)"

lemma selected_simps [simp]:
  "selected s options [] = []" "selected s options (xs @ ys) = selected s options xs @ selected s options ys"
  by (simp_all add: selected_def)

text \<open>
  The scans covered: known columns, predicates that \<open>Build\<close> prepares over scanned columns, and columns
  with exact statistics under the predicates, since pruning is wrong elsewhere.
\<close>

definition scan_fits :: "table_schema \<Rightarrow> scan_options \<Rightarrow> prepared_predicate list option \<Rightarrow> bool" where
  "scan_fits s options prepared \<longleftrightarrow> distinct (schema_ids s) \<and> so_columns options \<noteq> [] \<and>
     set (so_columns options) \<subseteq> set (schema_ids s) \<and>
     (case prepared of None \<Rightarrow> so_predicates options = [] | Some ps \<Rightarrow> Build options s = Inr ps)"

definition prunable_segment :: "table_schema \<Rightarrow> scan_options \<Rightarrow> segment_builder \<Rightarrow> bool" where
  "prunable_segment s options sb \<longleftrightarrow> (\<forall>cond\<in>set (so_predicates options).
     \<forall>row\<in>set (segment_rows sb). prunable (schema_column_type s (cond_column cond)) (row ! column_slot s (cond_column cond)))"

lemma column_slot_known:
  assumes "cid \<in> set (schema_ids s)"
  shows "column_slot s cid < length (ts_columns s)" "schema_ids s ! column_slot s cid = cid"
  using index_of_known [OF assms] by (auto simp: column_slot_def)

lemma schema_column_type_slot:
  assumes "distinct (schema_ids s)" "cid \<in> set (schema_ids s)"
  shows "schema_column_type s cid = cs_type (ts_columns s ! column_slot s cid)"
proof -
  let ?c = "ts_columns s ! column_slot s cid"
  have "cs_column_id ?c = cid" "?c \<in> set (ts_columns s)"
    using column_slot_known [OF assms(2)] by (metis nth_map) (use column_slot_known [OF assms(2)] in simp)
  then have "List.find (\<lambda>c. cs_column_id c = cid) (ts_columns s) = Some ?c"
    using assms(1) find_distinct [of "cs_column_id" "ts_columns s"] column_slot_known(1) [OF assms(2)] by metis
  then show ?thesis by (simp add: schema_column_type_def)
qed

lemma predicate_scanned:
  assumes "scan_fits s options prepared" "cond \<in> set (so_predicates options)"
  shows "cond_column cond \<in> set (so_columns options)"
    "\<exists>slot. position (cond_column cond) (so_columns options) = Some slot \<and> slot < length (so_columns options) \<and>
       so_columns options ! slot = cond_column cond"
proof -
  obtain ps where "prepared = Some ps" "Build options s = Inr ps"
    using assms by (auto simp: scan_fits_def split: option.splits)
  then obtain p where "prepare options s cond = Inr p"
    using assms(2) map_r_nth [of "prepare options s"] by (metis Build_def in_set_conv_nth)
  then obtain slot where slot: "position (cond_column cond) (so_columns options) = Some slot"
    by (auto simp: prepare_def split: option.splits)
  show "\<exists>slot. position (cond_column cond) (so_columns options) = Some slot \<and> slot < length (so_columns options) \<and>
       so_columns options ! slot = cond_column cond" using slot position_Some [OF slot] by blast
  then show "cond_column cond \<in> set (so_columns options)" using nth_mem by metis
qed

lemma builder_rows:
  assumes "builder_for s sb" "i < sb_row_count sb" "j < length (ts_columns s)"
  shows "segment_rows sb ! i ! j = builder_cells (sb_columns sb ! j) ! i"
proof -
  have "length (sb_columns sb) = length (ts_columns s)" using assms(1) by (metis builder_for_def length_map)
  then show ?thesis using assms by (simp add: segment_rows_def)
qed

subsection \<open>The decision on a segment\<close>

lemma evaluate_loop_total:
  "(\<And>cond. cond \<in> set conds \<Longrightarrow> \<exists>m. GetColumnMeta (cond_column cond) r = Inr m) \<Longrightarrow> \<exists>d. evaluate_loop conds r fm = Inr d"
proof (induction conds arbitrary: fm)
  case (Cons cond conds)
  then obtain m where "GetColumnMeta (cond_column cond) r = Inr m" by auto
  then show ?case using Cons by (auto split: segment_match.split)
qed simp

definition flags_sound :: "table_schema \<Rightarrow> scan_options \<Rightarrow> u8 list \<Rightarrow> bytes list \<Rightarrow> bool" where
  "flags_sound s options flags row \<longleftrightarrow> length flags = length (so_predicates options) \<and>
     (\<forall>j<length flags. flags ! j = 0 \<longrightarrow>
        condition_holds (schema_column_type s (cond_column (so_predicates options ! j))) (so_predicates options ! j)
          (row ! column_slot s (cond_column (so_predicates options ! j))))"

lemma segment_decided:
  assumes "reader_serves r sb" "builder_for s sb" "scan_fits s options prepared" "prunable_segment s options sb"
  shows "\<exists>d. EvaluatePredicates (so_predicates options) r = Inr d \<and>
    (fd_skip_segment d \<longrightarrow> selected s options (segment_rows sb) = []) \<and>
    (\<not> fd_skip_segment d \<longrightarrow> (\<forall>row\<in>set (segment_rows sb). flags_sound s options (fd_row_filter_mask d) row))"
proof -
  let ?conds = "so_predicates options"
  define col where "col j = column_slot s (cond_column (?conds ! j))" for j
  have ok: "segment_ok sb" "builder_types sb = map cs_type (ts_columns s)" "builder_ids sb = schema_ids s"
    using assms(2) by (simp_all add: builder_for_def)
  have len: "length (sb_columns sb) = length (ts_columns s)" using ok(3) by (metis length_map)
  have known: "cond_column (?conds ! j) \<in> set (schema_ids s)" if "j < length ?conds" for j
    using predicate_scanned(1) [OF assms(3)] that assms(3) by (auto simp: scan_fits_def)
  have ty: "builder_types sb ! col j = schema_column_type s (cond_column (?conds ! j))" "col j < length (sb_columns sb)"
    "cond_column (?conds ! j) = builder_ids sb ! col j" if "j < length ?conds" for j
    using schema_column_type_slot [OF _ known [OF that]] column_slot_known [OF known [OF that]] assms(3) that len
    by (auto simp: col_def ok(2,3) scan_fits_def simp del: nth_map) (simp add: ok(2))
  have cells: "\<forall>c\<in>set (builder_cells (sb_columns sb ! col j)). prunable (builder_types sb ! col j) c"
    if j: "j < length ?conds" for j
  proof
    fix c assume "c \<in> set (builder_cells (sb_columns sb ! col j))"
    moreover have "cb_row_count (sb_columns sb ! col j) = sb_row_count sb" using ok(1) ty(2) [OF j] by (simp add: segment_ok_def)
    ultimately obtain i where i: "i < sb_row_count sb" "c = builder_cells (sb_columns sb ! col j) ! i"
      by (auto simp: in_set_conv_nth)
    have "c = segment_rows sb ! i ! col j" using builder_rows [OF assms(2) i(1)] ty(2) [OF j] len i(2) by simp
    then show "prunable (builder_types sb ! col j) c"
      using assms(4) i(1) j ty(1) [OF j] by (auto simp: prunable_segment_def col_def)
  qed
  have "\<exists>m. GetColumnMeta (cond_column cond) r = Inr m" if "cond \<in> set ?conds" for cond
  proof -
    from that obtain j where j: "j < length ?conds" "cond = ?conds ! j" by (metis in_set_conv_nth)
    have "\<exists>m. GetColumnMeta (builder_ids sb ! k) r = Inr m" if "k < length (sb_columns sb)" for k
      using assms(1) that unfolding reader_serves_def by blast
    from this [OF ty(2) [OF j(1)]] show ?thesis using ty(3) [OF j(1)] j(2) by simp
  qed
  then obtain d where d: "EvaluatePredicates ?conds r = Inr d"
    using evaluate_loop_total [of ?conds r "[]"] by (auto simp: EvaluatePredicates_def)
  have hyp: "\<forall>j<length ?conds. col j < length (sb_columns sb) \<and> cond_column (?conds ! j) = builder_ids sb ! col j \<and>
      (\<forall>c\<in>set (builder_cells (sb_columns sb ! col j)). prunable (builder_types sb ! col j) c)"
    using ty cells by blast
  note dec = EvaluatePredicates_decides [OF assms(1) ok(1) d hyp]
  have "selected s options (segment_rows sb) = []" if "fd_skip_segment d"
  proof -
    have "\<not> row_matches s options (segment_rows sb ! i)" if "i < sb_row_count sb" for i
      using dec [OF that] \<open>fd_skip_segment d\<close> ty(1) by (auto simp: row_matches_def col_def)
    then show ?thesis by (auto simp: selected_def filter_empty_conv in_set_conv_nth)
  qed
  moreover have "flags_sound s options (fd_row_filter_mask d) row" if "\<not> fd_skip_segment d" "row \<in> set (segment_rows sb)" for row
  proof -
    from that(2) obtain i where i: "i < sb_row_count sb" "row = segment_rows sb ! i" by (auto simp: in_set_conv_nth)
    show ?thesis using dec [OF i(1)] that(1) ty(1) by (simp add: flags_sound_def i(2) col_def)
  qed
  ultimately show ?thesis using d by blast
qed

subsection \<open>One call of \<open>ScanSegment\<close>\<close>

text \<open>The cursor is undecided, or carries the sound flags of the segment; the predicates are prepared.\<close>

definition cursor_ok ::
  "table_schema \<Rightarrow> scan_options \<Rightarrow> prepared_predicate list option \<Rightarrow> segment_builder \<Rightarrow> segment_scan_cursor \<Rightarrow> bool" where
  "cursor_ok s options prepared sb cursor \<longleftrightarrow> ssc_prepared cursor = prepared \<and>
     (ssc_decision_valid cursor \<longrightarrow> (\<forall>row\<in>set (segment_rows sb). flags_sound s options (ssc_row_filter_mask cursor) row))"

definition segment_rest :: "table_schema \<Rightarrow> scan_options \<Rightarrow> segment_builder \<Rightarrow> segment_scan_cursor \<Rightarrow> bytes list list" where
  "segment_rest s options sb cursor = selected s options (drop (ssc_offset cursor) (segment_rows sb))"

lemma filter_by_index:
  "map (\<lambda>i. f (xs ! i)) (filter (\<lambda>i. P (xs ! i)) [0..<length xs]) = map f (filter P xs)"
proof -
  have "filter P xs = map ((!) xs) (filter (P \<circ> (!) xs) [0..<length xs])"
    by (metis filter_map map_nth)
  then show ?thesis by (simp add: comp_def)
qed

lemma selected_drop_Nil:
  assumes "selected s options rows = []"
  shows "selected s options (drop n rows) = []"
  using assms by (auto simp: selected_def filter_empty_conv dest: in_set_dropD)

text \<open>The batch read from the segment: its cells are those of the projected rows.\<close>

lemma scan_batch_read:
  assumes "reader_serves r sb" "builder_for s sb" "scan_fits s options prepared" "offset < sb_row_count sb"
    and n: "n = min kVectorBatchSize (sb_row_count sb - offset)"
  obtains b where "GetVectorBatch options offset r output = Inr (True, SetIdentitySelection n b)"
    "scan_batch_ok options s n (SetIdentitySelection n b)" "length (vb_columns b) = length (so_columns options)"
    "\<And>i j. i < n \<Longrightarrow> j < length (so_columns options) \<Longrightarrow>
       column_cells (vb_columns b ! j) ! i = segment_rows sb ! (offset + i) ! column_slot s (so_columns options ! j)"
proof -
  let ?js = "map (column_slot s) (so_columns options)"
  have ok: "segment_ok sb" "builder_types sb = map cs_type (ts_columns s)" "builder_ids sb = schema_ids s"
    using assms(2) by (simp_all add: builder_for_def)
  have len: "length (sb_columns sb) = length (ts_columns s)" using ok(3) by (metis length_map)
  have fits: "distinct (schema_ids s)" "so_columns options \<noteq> []" "set (so_columns options) \<subseteq> set (schema_ids s)"
    using assms(3) by (simp_all add: scan_fits_def)
  have known: "so_columns options ! j \<in> set (schema_ids s)" if "j < length (so_columns options)" for j
    using fits(3) that by (meson nth_mem subsetD)
  have js: "\<forall>j\<in>set ?js. j < length (sb_columns sb)"
    using fits(3) column_slot_known(1) by (auto simp: len)
  have cols: "scan_columns options r = map (\<lambda>i. builder_ids sb ! i) ?js"
  proof -
    have "map (\<lambda>cid. schema_ids s ! column_slot s cid) (so_columns options) = so_columns options"
      using fits(3) column_slot_known(2) by (intro map_idI) (auto simp del: nth_map)
    then show ?thesis using fits(2) by (simp only: scan_columns_def ok(3) if_False map_map comp_def)
  qed
  obtain b where b: "GetVectorBatch options offset r output = Inr (True, SetIdentitySelection n b)"
      "map cd_type (vb_columns b) = map (\<lambda>j. builder_types sb ! j) ?js" "\<forall>c\<in>set (vb_columns b). column_ok n c"
      "\<And>row j. row < n \<Longrightarrow> j < length ?js \<Longrightarrow>
         column_cells (vb_columns b ! j) ! row = builder_cells (sb_columns sb ! (?js ! j)) ! (offset + row)"
    using GetVectorBatch_rows [OF assms(1) ok(1) assms(4) cols js n] by metis
  have size: "length (vb_columns b) = length (so_columns options)" using arg_cong [OF b(2), of length] by simp
  have type: "cd_type (vb_columns b ! j) = schema_column_type s (so_columns options ! j)" if j: "j < length (so_columns options)" for j
  proof -
    have "map cd_type (vb_columns b) ! j = map (\<lambda>j. builder_types sb ! j) ?js ! j" by (simp only: b(2))
    then show ?thesis using j size schema_column_type_slot [OF fits(1) known [OF j]] column_slot_known(1) [OF known [OF j]]
      by (simp add: ok(2))
  qed
  have n0: "0 < n" "n \<le> kVectorBatchSize" using assms(4) n by (simp_all add: size_defs)
  have "scan_batch_ok options s n (SetIdentitySelection n b)"
    using size type b(3) n0 by (simp add: scan_batch_ok_def PhysicalSize_def SetIdentitySelection_def)
  moreover have "column_cells (vb_columns b ! j) ! i = segment_rows sb ! (offset + i) ! column_slot s (so_columns options ! j)"
    if "i < n" "j < length (so_columns options)" for i j
  proof -
    have "offset + i < sb_row_count sb" using that(1) n by linarith
    from builder_rows [OF assms(2) this column_slot_known(1) [OF known [OF that(2)]]] show ?thesis
      using b(4) [of i j] that by simp
  qed
  ultimately show thesis using that b(1) size by blast
qed

text \<open>The batches a scan hands out: valid, with the scanned columns.\<close>

definition scanned :: "table_schema \<Rightarrow> scan_options \<Rightarrow> vector_batch \<Rightarrow> bool" where
  "scanned s options b \<longleftrightarrow> batch_ok b \<and> map cd_type (vb_columns b) = map (schema_column_type s) (so_columns options)"

lemma batch_ok_size: "batch_ok b \<Longrightarrow> vb_size b = length (active_rows b)"
  by (simp add: batch_ok_def active_rows_def Mask_Count_length ForEachSetBit_rows)

lemma scanned_size: "scanned s options b \<Longrightarrow> vb_size b = length (active_rows b)"
  by (simp add: scanned_def batch_ok_size)

lemma scan_batch_scanned:
  assumes "scan_batch_ok options s n b" "vb_columns b' = vb_columns b" "mask_inv (vb_selection b')"
    "mask_row_count (vb_selection b') = n" "vb_size b' = Mask_Count (vb_selection b')"
  shows "scanned s options b'"
proof -
  have "map cd_type (vb_columns b) = map (schema_column_type s) (so_columns options)"
    using assms(1) by (intro nth_equalityI) (simp_all add: scan_batch_ok_def)
  then show ?thesis using assms by (auto simp: scanned_def batch_ok_def scan_batch_ok_def list_all_length)
qed

text \<open>Row filtering on that batch keeps the matching rows.\<close>

lemma filtered_batch_rows:
  assumes "scan_fits s options (Some ps)" "scan_batch_ok options s n b" "\<forall>i<n. flags_sound s options flags (rows ! i)"
    and "\<And>i j. i < n \<Longrightarrow> j < length (so_columns options) \<Longrightarrow>
       column_cells (vb_columns b ! j) ! i = rows ! i ! column_slot s (so_columns options ! j)"
    and "length rows = n"
  shows "\<exists>b'. Row_Filter_Apply ps flags b = Inr b' \<and> active_rows b' = selected s options rows \<and> scanned s options b'"
proof -
  let ?holds = "\<lambda>j i. condition_holds (schema_column_type s (cond_column (so_predicates options ! j))) (so_predicates options ! j)
      (rows ! i ! column_slot s (cond_column (so_predicates options ! j)))"
  have build: "Build options s = Inr ps" using assms(1) by (simp add: scan_fits_def)
  obtain b' where b': "Row_Filter_Apply ps flags b = Inr b'" "vb_columns b' = vb_columns b"
      "mask_inv (vb_selection b')" "mask_row_count (vb_selection b') = n" "vb_size b' = Mask_Count (vb_selection b')"
      "{i. Mask_Test (vb_selection b') i} = {i. i < n \<and> (\<forall>j < length (so_predicates options).
        skipped flags j \<or> condition_on_row options s b (so_predicates options ! j) i)}"
    using Row_Filter_Apply_rows [OF build assms(2)] by blast
  have cond: "condition_on_row options s b (so_predicates options ! j) i = ?holds j i"
    if ij: "i < n" "j < length (so_predicates options)" for i j
  proof -
    obtain slot where slot: "position (cond_column (so_predicates options ! j)) (so_columns options) = Some slot"
        "slot < length (so_columns options)" "so_columns options ! slot = cond_column (so_predicates options ! j)"
      using predicate_scanned(2) [OF assms(1) nth_mem [OF ij(2)]] by blast
    show ?thesis using assms(4) [OF ij(1) slot(2)] by (simp add: condition_on_row_def slot(1,3))
  qed
  have test: "Mask_Test (vb_selection b') i = row_matches s options (rows ! i)" if i: "i < n" for i
  proof -
    have "Mask_Test (vb_selection b') i = (\<forall>j < length (so_predicates options). skipped flags j \<or> ?holds j i)"
      using b'(6) i cond [OF i] by (auto simp: set_eq_iff)
    also have "\<dots> = (\<forall>j < length (so_predicates options). ?holds j i)"
      using assms(3) i by (auto simp: flags_sound_def skipped_def)
    finally show ?thesis by (simp add: row_matches_def all_set_conv_all_nth)
  qed
  have cols: "map (\<lambda>c. column_cells c ! i) (vb_columns b) = project_row s options (rows ! i)" if "i < n" for i
    using assms(2) assms(4) [OF that] by (intro nth_equalityI) (simp_all add: scan_batch_ok_def project_row_def)
  have "mask_rows (vb_selection b') = filter (\<lambda>i. row_matches s options (rows ! i)) [0..<length rows]"
    unfolding mask_rows_def b'(4) assms(5) by (rule filter_cong) (use test in auto)
  then have "active_rows b' = map (\<lambda>i. project_row s options (rows ! i)) (filter (\<lambda>i. row_matches s options (rows ! i)) [0..<length rows])"
    using cols assms(5) by (simp add: active_rows_def b'(2))
  then have "active_rows b' = selected s options rows" by (simp add: selected_def filter_by_index)
  moreover have "scanned s options b'" using assms(2) b'(2-5) by (rule scan_batch_scanned)
  ultimately show ?thesis using b'(1) by blast
qed

text \<open>A call on a served segment ends it when nothing matching is left, or hands out the matching rows of a window.\<close>

lemma ScanSegment_serves:
  assumes "reader_serves r sb" "builder_for s sb" "scan_fits s options prepared" "prunable_segment s options sb"
    and "cursor_ok s options prepared sb cursor"
  shows "(\<exists>cursor' out'. ScanSegment (Some r) options cursor out = Inr (False, cursor', out') \<and>
       segment_rest s options sb cursor = []) \<or>
    (\<exists>cursor' out'. ScanSegment (Some r) options cursor out = Inr (True, cursor', out') \<and>
       cursor_ok s options prepared sb cursor' \<and>
       segment_rest s options sb cursor = active_rows out' @ segment_rest s options sb cursor' \<and>
       scanned s options out' \<and> ssc_offset cursor' \<le> sb_row_count sb)"
proof -
  have "\<exists>decided. segment_decision r options cursor = Inr decided \<and>
      (decided = None \<longrightarrow> selected s options (segment_rows sb) = []) \<and>
      (\<forall>c. decided = Some c \<longrightarrow> cursor_ok s options prepared sb c \<and> ssc_decision_valid c \<and> ssc_offset c = ssc_offset cursor)"
    using segment_decided [OF assms(1-4)] assms(5) by (auto simp: segment_decision_def cursor_ok_def)
  then obtain decided where dec: "segment_decision r options cursor = Inr decided"
    "decided = None \<Longrightarrow> selected s options (segment_rows sb) = []"
    "\<And>c. decided = Some c \<Longrightarrow> cursor_ok s options prepared sb c \<and> ssc_decision_valid c \<and> ssc_offset c = ssc_offset cursor"
    by blast
  have rows: "unat (sm_row_count (sr_metadata r)) = sb_row_count sb" using assms(1) by (simp add: reader_serves_def)
  show ?thesis
  proof (cases decided)
    case None
    then show ?thesis using dec selected_drop_Nil by (simp add: ScanSegment_def segment_rest_def)
  next
    case (Some c)
    note c = dec(3) [OF Some]
    define offset where "offset = ssc_offset c"
    show ?thesis
    proof (cases "offset < sb_row_count sb")
      case False
      then have "GetVectorBatch options (ssc_offset c) r out = Inr (False, out)"
        by (simp add: GetVectorBatch_def rows offset_def)
      then show ?thesis using False dec(1) Some c by (simp add: ScanSegment_def segment_rest_def offset_def)
    next
      case True
      define n where "n = min kVectorBatchSize (sb_row_count sb - offset)"
      obtain b where b: "GetVectorBatch options offset r out = Inr (True, SetIdentitySelection n b)"
          "scan_batch_ok options s n (SetIdentitySelection n b)" "length (vb_columns b) = length (so_columns options)"
          "\<And>i j. i < n \<Longrightarrow> j < length (so_columns options) \<Longrightarrow>
             column_cells (vb_columns b ! j) ! i = segment_rows sb ! (offset + i) ! column_slot s (so_columns options ! j)"
        using scan_batch_read [OF assms(1-3) True n_def] by metis
      let ?b = "SetIdentitySelection n b" and ?c = "c\<lparr>ssc_offset := offset + n\<rparr>"
      define win where "win = take n (drop offset (segment_rows sb))"
      have n: "0 < n" "n \<le> kVectorBatchSize" "offset + n \<le> sb_row_count sb" using True by (simp_all add: n_def size_defs)
      have phys: "PhysicalSize ?b = n" "vb_size ?b = n" using b(2) by (simp_all add: scan_batch_ok_def SetIdentitySelection_def)
      have win: "length win = n" "\<And>i. i < n \<Longrightarrow> win ! i = segment_rows sb ! (offset + i)"
        using n(3) by (simp_all add: win_def)
      have sound: "\<forall>i<n. flags_sound s options (ssc_row_filter_mask c) (win ! i)"
        using c win(2) n(3) by (auto simp: cursor_ok_def)
      have cells: "\<And>i j. i < n \<Longrightarrow> j < length (so_columns options) \<Longrightarrow>
          column_cells (vb_columns ?b ! j) ! i = win ! i ! column_slot s (so_columns options ! j)"
        using b(4) win(2) by (simp add: SetIdentitySelection_def)
      have rest: "segment_rest s options sb cursor = selected s options win @ segment_rest s options sb ?c"
      proof -
        have "drop offset (segment_rows sb) = win @ drop (offset + n) (segment_rows sb)"
          by (simp add: win_def add.commute flip: drop_drop)
        then show ?thesis using c by (simp add: segment_rest_def offset_def)
      qed
      have cok: "cursor_ok s options prepared sb ?c" using c by (simp add: cursor_ok_def)
      have step: "ScanSegment (Some r) options cursor out =
          (if \<exists>flag\<in>set (ssc_row_filter_mask c). flag \<noteq> 0 then
             (case prepared of None \<Rightarrow> Inl (Runtime_error ''scan predicates not prepared before ScanSegment'')
              | Some ps \<Rightarrow> bind_r (Row_Filter_Apply ps (ssc_row_filter_mask c) ?b) (\<lambda>out. Inr (True, ?c, out)))
           else Inr (True, ?c, ?b))"
        using dec(1) Some b(1) n(1) c phys by (cases prepared) (simp_all add: ScanSegment_def offset_def cursor_ok_def Let_def)
      show ?thesis
      proof (cases "\<exists>flag\<in>set (ssc_row_filter_mask c). flag \<noteq> 0")
        case True
        have "so_predicates options \<noteq> []" using sound n(1) True by (auto simp: flags_sound_def)
        then obtain ps where ps: "prepared = Some ps" using assms(3) by (auto simp: scan_fits_def split: option.splits)
        obtain b' where "Row_Filter_Apply ps (ssc_row_filter_mask c) ?b = Inr b'" "active_rows b' = selected s options win"
            "scanned s options b'"
          using filtered_batch_rows [OF assms(3) [unfolded ps] b(2) sound cells win(1)] by blast
        then show ?thesis using step True ps cok rest n(3) by auto
      next
        case False
        have all: "row_matches s options (win ! i)" if "i < n" for i
          using sound that False nth_mem by (fastforce simp: flags_sound_def row_matches_def all_set_conv_all_nth)
        have "active_rows ?b = map (\<lambda>i. project_row s options (win ! i)) [0..<n]"
        proof -
          have "map (\<lambda>c. column_cells c ! i) (vb_columns b) = project_row s options (win ! i)" if "i < n" for i
            using b(3) cells [OF that] by (intro nth_equalityI) (simp_all add: project_row_def SetIdentitySelection_def)
          then show ?thesis using n(2) by (simp add: active_rows_identity)
        qed
        also have "\<dots> = selected s options win"
          using all filter_by_index [of "project_row s options" win "row_matches s options"] by (simp add: selected_def win(1))
        finally have "active_rows ?b = selected s options win" .
        moreover have "scanned s options ?b"
          by (rule scan_batch_scanned [OF b(2)]) (use n(2) in \<open>simp_all add: SetIdentitySelection_def SetAll_inv SetAll_rows Mask_Count_SetAll\<close>)
        ultimately show ?thesis using step False cok rest n(3) by auto
      qed
    qed
  qed
qed

subsection \<open>The serial scan\<close>

text \<open>The caller's loop: batches until \<open>Scan\<close> answers false.\<close>

partial_function (option) drain_scan ::
  "scan_options \<Rightarrow> scan_cursor \<Rightarrow> vector_batch \<Rightarrow> table_storage \<Rightarrow> vector_batch list result option" where
  "drain_scan options cursor output st =
     Option.bind (Scan options cursor output st) (\<lambda>r.
       case r of
         Inl e \<Rightarrow> Some (Inl e)
       | Inr (got, cursor, output, st) \<Rightarrow>
           if got then Option.bind (drain_scan options cursor output st) (\<lambda>bs. Some (map_sum id ((#) output) bs))
           else Some (Inr []))"

text \<open>The rows that are left, for a cursor that stands in the \<open>k\<close>-th segment.\<close>

definition cursor_segment :: "scan_cursor \<Rightarrow> segment_scan_cursor" where
  "cursor_segment cursor = \<lparr>ssc_offset = sc_offset cursor, ssc_decision_valid = sc_decision_valid cursor,
     ssc_row_filter_mask = sc_row_filter_mask cursor, ssc_prepared = sc_prepared cursor\<rparr>"

definition serial_rest ::
  "table_schema \<Rightarrow> scan_options \<Rightarrow> (segment_id \<times> segment_builder) list \<Rightarrow> nat \<Rightarrow> scan_cursor \<Rightarrow> bytes list list" where
  "serial_rest s options sbs k cursor =
     segment_rest s options (snd (sbs ! k)) (cursor_segment cursor) @ selected s options (rows_of (drop (Suc k) sbs))"

definition table_fits ::
  "scan_options \<Rightarrow> prepared_predicate list option \<Rightarrow> (segment_id \<times> segment_builder) list \<Rightarrow> table_storage \<Rightarrow> bool" where
  "table_fits options prepared sbs st \<longleftrightarrow> disk_ok st sbs \<and> scan_fits (tst_schema st) options prepared \<and>
     (\<forall>(sid, sb)\<in>set sbs. prunable_segment (tst_schema st) options sb) \<and> Suc (length sbs) < 2 ^ 32"

definition serial_at ::
  "scan_options \<Rightarrow> prepared_predicate list option \<Rightarrow> (segment_id \<times> segment_builder) list \<Rightarrow> table_storage \<Rightarrow> nat \<Rightarrow>
   scan_cursor \<Rightarrow> bool" where
  "serial_at options prepared sbs st k cursor \<longleftrightarrow> table_fits options prepared sbs st \<and> k < length sbs \<and>
     sc_segment_id cursor = u32_of k \<and> cursor_ok (tst_schema st) options prepared (snd (sbs ! k)) (cursor_segment cursor)"

lemma Advance_from:
  assumes "sc_segment_id cursor = u32_of k" "Suc (length ids) < 2 ^ 32" "k < length ids"
  shows "AdvanceCursorToNextSegment ids cursor =
    (if Suc k < length ids then (True, cursor\<lparr>sc_segment_id := u32_of (Suc k), sc_offset := 0, sc_decision_valid := False,
        sc_row_filter_mask := []\<rparr>)
     else (False, cursor\<lparr>sc_segment_id := u32_of (Suc k)\<rparr>))"
proof -
  have k: "unat (u32_of k) = k" "unat (u32_of (Suc k)) = Suc k" using assms(2,3) by (simp_all add: unat_u32_of del: of_nat_Suc)
  have "u32_of k \<noteq> kInvalidSegmentId"
    using k(1) assms(2,3) by (auto simp: kInvalidSegmentId_def)
  moreover have "u32_of k + 1 = u32_of (Suc k)" by simp
  ultimately show ?thesis using assms(1) k(2) by (simp add: AdvanceCursorToNextSegment_def Let_def del: of_nat_Suc)
qed

lemma serial_ready:
  assumes "serial_at options prepared sbs st k cursor"
  shows "Scan options cursor out st = scan_loop options cursor out st"
proof -
  have "sc_prepared cursor = prepared" "scan_fits (tst_schema st) options prepared"
    using assms by (auto simp: serial_at_def cursor_ok_def cursor_segment_def table_fits_def)
  then show ?thesis by (cases prepared) (simp_all add: scan_fits_def Scan_def)
qed

lemma serial_cases:
  assumes "serial_at options prepared sbs st k cursor"
  shows "\<exists>step cursor' out' st'. scan_body options cursor out st = Inr (step, cursor', out', st') \<and>
    sc_prepared cursor' = sc_prepared cursor \<and> tst_schema st' = tst_schema st \<and>
    (step = Scan_end \<and> serial_rest (tst_schema st) options sbs k cursor = [] \<or>
     step = Scan_again \<and> serial_at options prepared sbs st' (Suc k) cursor' \<and>
       serial_rest (tst_schema st) options sbs k cursor = serial_rest (tst_schema st) options sbs (Suc k) cursor' \<or>
     serial_at options prepared sbs st' k cursor' \<and>
       serial_rest (tst_schema st) options sbs k cursor = active_rows out' @ serial_rest (tst_schema st) options sbs k cursor' \<and>
       scanned (tst_schema st) options out' \<and> step = (if active_rows out' = [] then Scan_again else Scan_batch) \<and>
       sc_offset cursor < sc_offset cursor' \<and> sc_offset cursor' \<le> kMaxSegmentRowCount)"
proof -
  let ?s = "tst_schema st" and ?ids = "tm_segment_ids (tst_metadata st)"
  obtain sid sb where sb: "sbs ! k = (sid, sb)" by (cases "sbs ! k")
  have at: "table_fits options prepared sbs st" "k < length sbs" "sc_segment_id cursor = u32_of k"
    "cursor_ok ?s options prepared sb (cursor_segment cursor)"
    using assms sb by (simp_all add: serial_at_def)
  have disk: "disk_ok st sbs" and fits: "scan_fits ?s options prepared" and small: "Suc (length sbs) < 2 ^ 32"
    using at(1) by (simp_all add: table_fits_def)
  have mem: "(sid, sb) \<in> set sbs" using sb at(2) by (metis nth_mem)
  have prunable: "prunable_segment ?s options sb" using at(1) mem unfolding table_fits_def by blast
  have built: "builder_for ?s sb" using disk mem unfolding disk_ok_def by blast
  have ids: "?ids = map fst sbs" using disk by (simp add: disk_ok_def)
  obtain r c where r: "GetSegmentReader sid st = (Some r, st\<lparr>tst_reader_cache := c\<rparr>)" "reader_serves r sb"
      "disk_ok (st\<lparr>tst_reader_cache := c\<rparr>) sbs"
    using GetSegmentReader_ok [OF disk mem] by blast
  let ?st = "st\<lparr>tst_reader_cache := c\<rparr>"
  have fits': "table_fits options prepared sbs ?st" using at(1) r(3) by (simp add: table_fits_def)
  have k: "unat (u32_of k) = k" using at(2) small by (simp add: unat_u32_of)
  have valid: "sc_segment_id cursor \<noteq> kInvalidSegmentId"
    using k at(2,3) small by (auto simp: kInvalidSegmentId_def)
  have sid: "?ids ! unat (sc_segment_id cursor) = sid" using at(2,3) k sb by (simp add: ids)
  have body: "scan_body options cursor out st = bind_r (ScanSegment (Some r) options (cursor_segment cursor) out) (\<lambda>(got, sc, out).
      let cursor = cursor\<lparr>sc_offset := ssc_offset sc, sc_decision_valid := ssc_decision_valid sc,
                          sc_row_filter_mask := ssc_row_filter_mask sc\<rparr> in
      if \<not> got then (case AdvanceCursorToNextSegment ?ids cursor of (found, cursor) \<Rightarrow>
         Inr (if found then Scan_again else Scan_end, cursor, out, ?st))
      else Inr (if vb_size out = 0 then Scan_again else Scan_batch, cursor, out, ?st))"
    using valid at(2,3) k sid r(1) by (simp add: scan_body_def Let_def ids cursor_segment_def cong: if_cong)
  from ScanSegment_serves [OF r(2) built fits prunable at(4)] consider
    (stop) sc out' where "ScanSegment (Some r) options (cursor_segment cursor) out = Inr (False, sc, out')"
      "segment_rest ?s options sb (cursor_segment cursor) = []"
  | (batch) sc out' where "ScanSegment (Some r) options (cursor_segment cursor) out = Inr (True, sc, out')"
      "cursor_ok ?s options prepared sb sc"
      "segment_rest ?s options sb (cursor_segment cursor) = active_rows out' @ segment_rest ?s options sb sc"
      "scanned ?s options out'" "ssc_offset sc \<le> sb_row_count sb"
    by blast
  then show ?thesis
  proof cases
    case stop
    define cur where "cur = cursor\<lparr>sc_offset := ssc_offset sc, sc_decision_valid := ssc_decision_valid sc,
      sc_row_filter_mask := ssc_row_filter_mask sc\<rparr>"
    have adv: "AdvanceCursorToNextSegment ?ids cur =
      (if Suc k < length ?ids then (True, cur\<lparr>sc_segment_id := u32_of (Suc k), sc_offset := 0, sc_decision_valid := False,
          sc_row_filter_mask := []\<rparr>) else (False, cur\<lparr>sc_segment_id := u32_of (Suc k)\<rparr>))"
      by (rule Advance_from) (use at(2,3) small in \<open>simp_all add: cur_def ids\<close>)
    show ?thesis
    proof (cases "Suc k < length sbs")
      case True
      define cur' where "cur' = cur\<lparr>sc_segment_id := u32_of (Suc k), sc_offset := 0, sc_decision_valid := False,
          sc_row_filter_mask := []\<rparr>"
      have "scan_body options cursor out st = Inr (Scan_again, cur', out', ?st)"
        using body stop(1) adv True by (simp add: ids cur_def cur'_def Let_def del: of_nat_Suc)
      moreover have "serial_at options prepared sbs ?st (Suc k) cur'"
        using fits' True at(4) by (simp add: serial_at_def cur'_def cur_def cursor_ok_def cursor_segment_def)
      moreover have "serial_rest ?s options sbs k cursor = serial_rest ?s options sbs (Suc k) cur'"
        using stop(2) True sb by (simp add: serial_rest_def segment_rest_def cursor_segment_def cur'_def
            rows_of_def flip: Cons_nth_drop_Suc)
      moreover have "sc_prepared cur' = sc_prepared cursor" by (simp add: cur'_def cur_def)
      ultimately show ?thesis by (intro exI [of _ Scan_again] exI [of _ cur'] exI [of _ out'] exI [of _ ?st]) simp
    next
      case False
      have "scan_body options cursor out st = Inr (Scan_end, cur\<lparr>sc_segment_id := u32_of (Suc k)\<rparr>, out', ?st)"
        using body stop(1) adv False by (simp add: ids cur_def Let_def del: of_nat_Suc)
      moreover have "serial_rest ?s options sbs k cursor = []" using stop(2) False sb by (simp add: serial_rest_def)
      ultimately show ?thesis
        by (intro exI [of _ Scan_end] exI [of _ "cur\<lparr>sc_segment_id := u32_of (Suc k)\<rparr>"] exI [of _ out'] exI [of _ ?st])
          (simp add: cur_def)
    qed
  next
    case batch
    define cur where "cur = cursor\<lparr>sc_offset := ssc_offset sc, sc_decision_valid := ssc_decision_valid sc,
      sc_row_filter_mask := ssc_row_filter_mask sc\<rparr>"
    let ?step = "if active_rows out' = [] then Scan_again else Scan_batch"
    have "ssc_prepared sc = sc_prepared cursor" using batch(2) at(4) by (simp add: cursor_ok_def cursor_segment_def)
    then have cs: "cursor_segment cur = sc" by (simp add: cursor_segment_def cur_def)
    have "scan_body options cursor out st = Inr (?step, cur, out', ?st)"
      using body batch(1) scanned_size [OF batch(4)] by (simp add: cur_def Let_def)
    moreover have "serial_at options prepared sbs ?st k cur"
      using fits' at(2,3) batch(2) sb by (simp add: serial_at_def cs) (simp add: cur_def)
    moreover have "serial_rest ?s options sbs k cursor = active_rows out' @ serial_rest ?s options sbs k cur"
      using batch(3) sb by (simp add: serial_rest_def cs)
    moreover have "sc_offset cursor < sc_offset cur"
      using ScanSegment_progress(1) [OF batch(1)] by (simp add: cur_def cursor_segment_def)
    moreover have "sc_offset cur \<le> kMaxSegmentRowCount" using batch(5) built by (simp add: cur_def builder_for_def)
    ultimately show ?thesis using batch(4)
      by (intro exI [of _ ?step] exI [of _ cur] exI [of _ out'] exI [of _ ?st]) (simp add: cur_def)
  qed
qed

text \<open>
  One call of \<open>Scan\<close> and what it says of the rows left before it: it hands out the first of them with a cursor
  for the others, or answers that none is left.
\<close>

definition serial_call ::
  "scan_options \<Rightarrow> prepared_predicate list option \<Rightarrow> (segment_id \<times> segment_builder) list \<Rightarrow> table_schema \<Rightarrow> bytes list list \<Rightarrow>
   (bool \<times> scan_cursor \<times> vector_batch \<times> table_storage) result option \<Rightarrow> bool" where
  "serial_call options prepared sbs s rest r \<longleftrightarrow> (\<exists>got cursor out st. r = Some (Inr (got, cursor, out, st)) \<and> tst_schema st = s \<and>
     (if got then scanned s options out \<and> active_rows out \<noteq> [] \<and>
        (\<exists>k. serial_at options prepared sbs st k cursor \<and> rest = active_rows out @ serial_rest s options sbs k cursor)
      else rest = []))"

lemma serial_call_result [simp]:
  "serial_call options prepared sbs s rest (Some (Inr (got, cursor, out, st))) \<longleftrightarrow> tst_schema st = s \<and>
     (if got then scanned s options out \<and> active_rows out \<noteq> [] \<and>
        (\<exists>k. serial_at options prepared sbs st k cursor \<and> rest = active_rows out @ serial_rest s options sbs k cursor)
      else rest = [])"
  by (auto simp: serial_call_def)

lemma scan_loop_serial:
  assumes "serial_at options prepared sbs st k cursor"
  shows "serial_call options prepared sbs (tst_schema st) (serial_rest (tst_schema st) options sbs k cursor) (scan_loop options cursor out st)"
  using assms
proof (induction "(length sbs - k) * 2 ^ 18 + (2 ^ 17 - sc_offset cursor)" arbitrary: k cursor out st rule: less_induct)
  case less
  let ?rest = "serial_rest (tst_schema st) options sbs"
  have k: "k < length sbs" using less.prems by (simp add: serial_at_def)
  obtain step cursor' out' st' where b: "scan_body options cursor out st = Inr (step, cursor', out', st')" "tst_schema st' = tst_schema st"
    and c: "step = Scan_end \<and> ?rest k cursor = [] \<or>
     step = Scan_again \<and> serial_at options prepared sbs st' (Suc k) cursor' \<and> ?rest k cursor = ?rest (Suc k) cursor' \<or>
     serial_at options prepared sbs st' k cursor' \<and> ?rest k cursor = active_rows out' @ ?rest k cursor' \<and>
       scanned (tst_schema st) options out' \<and> step = (if active_rows out' = [] then Scan_again else Scan_batch) \<and>
       sc_offset cursor < sc_offset cursor' \<and> sc_offset cursor' \<le> kMaxSegmentRowCount"
    using serial_cases [OF less.prems] by metis
  have loop: "scan_loop options cursor out st = (if step = Scan_again then scan_loop options cursor' out' st'
      else Some (Inr (step = Scan_batch, cursor', out', st')))"
    using b(1) by (subst scan_loop.simps) simp
  from c consider (stop) "step = Scan_end" "?rest k cursor = []"
    | (next_segment) "step = Scan_again" "serial_at options prepared sbs st' (Suc k) cursor'" "?rest k cursor = ?rest (Suc k) cursor'"
    | (no_rows) "serial_at options prepared sbs st' k cursor'" "?rest k cursor = ?rest k cursor'" "step = Scan_again"
        "sc_offset cursor < sc_offset cursor'" "sc_offset cursor' \<le> kMaxSegmentRowCount"
    | (batch) "serial_at options prepared sbs st' k cursor'" "?rest k cursor = active_rows out' @ ?rest k cursor'"
        "scanned (tst_schema st) options out'" "active_rows out' \<noteq> []" "step = Scan_batch"
    by (cases "active_rows out' = []") auto
  then show ?case
  proof cases
    case stop
    then show ?thesis using loop b(2) by simp
  next
    case next_segment
    have "(length sbs - Suc k) * 2 ^ 18 + (2 ^ 17 - sc_offset cursor') < (length sbs - k) * 2 ^ 18 + (2 ^ 17 - sc_offset cursor)"
      using k by (simp add: Suc_diff_Suc [symmetric])
    from less.hyps [OF this next_segment(2), of out'] show ?thesis using loop next_segment b(2) by simp
  next
    case no_rows
    have "(length sbs - k) * 2 ^ 18 + (2 ^ 17 - sc_offset cursor') < (length sbs - k) * 2 ^ 18 + (2 ^ 17 - sc_offset cursor)"
      using no_rows(4,5) by (simp add: kMaxSegmentRowCount_def)
    from less.hyps [OF this no_rows(1), of out'] show ?thesis using loop no_rows(2,3) b(2) by simp
  next
    case batch
    then show ?thesis using loop b(2) by auto
  qed
qed

text \<open>The first call, on a new cursor.\<close>

lemma Scan_new_cursor:
  assumes "table_fits options prepared sbs st" "so_predicates options = [] \<Longrightarrow> prepared = None"
  shows "serial_call options prepared sbs (tst_schema st) (selected (tst_schema st) options (rows_of sbs)) (Scan options new_scan_cursor out st)"
proof -
  define c1 where "c1 = new_scan_cursor\<lparr>sc_prepared := prepared\<rparr>"
  define c0 where "c0 = c1\<lparr>sc_segment_id := 0\<rparr>"
  have fits: "scan_fits (tst_schema st) options prepared" and ids: "tm_segment_ids (tst_metadata st) = map fst sbs"
    using assms(1) by (simp_all add: table_fits_def disk_ok_def)
  have prep: "Scan options new_scan_cursor out st = scan_loop options c1 out st"
    using fits assms(2) by (auto simp: Scan_def new_scan_cursor_def c1_def PrepareScanPredicates_def scan_fits_def split: option.splits)
  show ?thesis
  proof (cases "sbs = []")
    case True
    then have "scan_body options c1 out st = Inr (Scan_end, c0, out, st)"
      by (simp add: scan_body_def Let_def ids AdvanceCursorToNextSegment_def c0_def c1_def new_scan_cursor_def)
    then have "scan_loop options c1 out st = Some (Inr (False, c0, out, st))" by (subst scan_loop.simps) simp
    then show ?thesis using True prep by simp
  next
    case False
    have "AdvanceCursorToNextSegment (map fst sbs) c1 = (True, c0)"
      using False by (simp add: AdvanceCursorToNextSegment_def Let_def c0_def c1_def new_scan_cursor_def)
    then have "scan_body options c1 out st = scan_body options c0 out st"
      by (simp add: scan_body_def Let_def ids c0_def c1_def new_scan_cursor_def kInvalidSegmentId_def cong: if_cong)
    then have "scan_loop options c1 out st = scan_loop options c0 out st"
      by (simp add: scan_loop.simps [of options c1] scan_loop.simps [of options c0])
    moreover have "serial_at options prepared sbs st 0 c0"
      using assms False by (simp add: serial_at_def c0_def c1_def new_scan_cursor_def cursor_ok_def cursor_segment_def)
    moreover have "serial_rest (tst_schema st) options sbs 0 c0 = selected (tst_schema st) options (rows_of sbs)"
      using False by (cases sbs) (auto simp: serial_rest_def segment_rest_def cursor_segment_def c0_def c1_def new_scan_cursor_def)
    ultimately show ?thesis using scan_loop_serial [of options prepared sbs st 0 c0 out] prep by simp
  qed
qed

text \<open>All the batches, from any call on.\<close>

lemma drain_from:
  assumes "serial_call options prepared sbs s rest (Scan options cursor out st)"
  shows "\<exists>bs. drain_scan options cursor out st = Some (Inr bs) \<and> concat (map active_rows bs) = rest"
  using assms
proof (induction "length rest" arbitrary: rest cursor out st rule: less_induct)
  case less
  obtain got cursor' out' st' where r: "Scan options cursor out st = Some (Inr (got, cursor', out', st'))" "tst_schema st' = s"
    and g: "if got then scanned s options out' \<and> active_rows out' \<noteq> [] \<and>
        (\<exists>k. serial_at options prepared sbs st' k cursor' \<and> rest = active_rows out' @ serial_rest s options sbs k cursor') else rest = []"
    using less.prems unfolding serial_call_def by blast
  show ?case
  proof (cases got)
    case False
    then show ?thesis using r g by (subst drain_scan.simps) simp
  next
    case True
    then obtain k where k: "serial_at options prepared sbs st' k cursor'" "rest = active_rows out' @ serial_rest s options sbs k cursor'"
      "active_rows out' \<noteq> []" using g by auto
    have "length (serial_rest s options sbs k cursor') < length rest" using k(2,3) by simp
    from less.hyps [OF this, of cursor' out' st'] scan_loop_serial [OF k(1), of out'] obtain bs where
      "drain_scan options cursor' out' st' = Some (Inr bs)" "concat (map active_rows bs) = serial_rest s options sbs k cursor'"
      using serial_ready [OF k(1), of out'] r(2) by auto
    then show ?thesis using r(1) True k(2) by (subst drain_scan.simps) simp
  qed
qed

text \<open>C13: On segments with exact statistics for the pushed conditions (on INT32 columns, INT64 columns within 53 bits, or DOUBLE columns without NaN) the serial
  scan of a table ends and delivers, in order, exactly the matching rows of its written
  segments, projected on the scanned columns.\<close>

theorem serial_scan_exact:
  assumes "disk_ok st sbs" "Suc (length sbs) < 2 ^ 32"
    and "scan_fits (tst_schema st) options (if so_predicates options = [] then None else Some ps)"
    and "\<forall>(sid, sb)\<in>set sbs. prunable_segment (tst_schema st) options sb"
  shows "\<exists>bs. drain_scan options new_scan_cursor out st = Some (Inr bs) \<and>
    concat (map active_rows bs) = selected (tst_schema st) options (rows_of sbs)"
proof -
  have "table_fits options (if so_predicates options = [] then None else Some ps) sbs st" using assms by (simp add: table_fits_def)
  from drain_from [OF Scan_new_cursor [OF this]] show ?thesis by simp
qed

end
