(* ===== verification/Database.thy ===== *)
theory Database
  imports Table_Scan Catalog
begin

text \<open>
  \<^verbatim>\<open>src/src/storage/storage_manager.{h,cpp}\<close> and \<^verbatim>\<open>src/src/main/database.{h,cpp}\<close>: the open tables
  with their directories, and the DDL that keeps the catalog and the storage in step.  The content of the
  directory of an open table is in its \<open>table_storage\<close>; it returns to \<open>smg_dirs\<close> when the table is closed.
\<close>

subsection \<open>The storage manager\<close>

type_synonym table_dir = "bytes option \<times> (segment_id \<rightharpoonup> bytes)"

record storage_manager =
  smg_tables :: "table_id \<rightharpoonup> table_storage"
  smg_dirs :: "string \<rightharpoonup> table_dir"

definition table_dir_name :: "table_id \<Rightarrow> string" where
  "table_dir_name i = nat_str (unat i)"

definition dir_content :: "table_id \<Rightarrow> storage_manager \<Rightarrow> table_dir" where
  "dir_content i sm = (case smg_dirs sm (table_dir_name i) of None \<Rightarrow> (None, Map.empty) | Some d \<Rightarrow> d)"

definition Storage_GetTable ::
  "table_id \<Rightarrow> table_schema \<Rightarrow> storage_manager \<Rightarrow> (table_storage option \<times> storage_manager) result" where
  "Storage_GetTable i schema sm =
     (case smg_tables sm i of
        Some t \<Rightarrow> Inr (Some t, sm)
      | None \<Rightarrow>
          (case dir_content i sm of (meta_file, files) \<Rightarrow>
             bind_r (Table_Open i schema meta_file files) (\<lambda>opened.
               case opened of
                 None \<Rightarrow> Inr (None, sm)
               | Some t \<Rightarrow> Inr (Some t, sm\<lparr>smg_tables := (smg_tables sm)(i \<mapsto> t)\<rparr>))))"

text \<open>Everything that works on a table works on the shared object in the cache.\<close>

definition Storage_Update :: "table_id \<Rightarrow> table_storage \<Rightarrow> storage_manager \<Rightarrow> storage_manager" where
  "Storage_Update i t sm = sm\<lparr>smg_tables := (smg_tables sm)(i \<mapsto> t)\<rparr>"

definition Storage_CreateTable ::
  "bool \<Rightarrow> io \<Rightarrow> table_id \<Rightarrow> table_schema \<Rightarrow> storage_manager \<Rightarrow> (bool \<times> storage_manager) result" where
  "Storage_CreateTable dir_ok io i schema sm =
     (if smg_tables sm i \<noteq> None then Inr (False, sm)
      else
        (case dir_content i sm of (meta_file, files) \<Rightarrow>
           let written = snd (write_file io (TableStorageMeta_Serialize \<lparr>tm_table_id = i, tm_segment_ids = []\<rparr> []) meta_file);
               sm = (if dir_ok then sm\<lparr>smg_dirs := (smg_dirs sm)(table_dir_name i \<mapsto> (written, files))\<rparr> else sm) in
           bind_r (Table_Create dir_ok io i schema meta_file files) (\<lambda>created.
             case created of
               None \<Rightarrow> Inr (False, sm)
             | Some t \<Rightarrow> Inr (True, sm\<lparr>smg_tables := (smg_tables sm)(i \<mapsto> t)\<rparr>))))"

text \<open>
  The outcomes of the file system calls of \<open>DropTable\<close>: the test for the directory, the removal of an
  earlier marked directory and the renaming.
\<close>

record drop_io =
  di_stat :: bool
  di_remove :: bool
  di_rename :: bool

definition close_table ::
  "((segment_id \<times> segment_builder) list \<Rightarrow> (segment_id \<times> segment_builder) list) \<Rightarrow> (segment_id \<Rightarrow> io) \<Rightarrow> io \<Rightarrow>
   table_id \<Rightarrow> storage_manager \<Rightarrow> storage_manager" where
  "close_table iter io io_meta i sm =
     (case smg_tables sm i of
        None \<Rightarrow> sm
      | Some t \<Rightarrow>
          let t = Table_destructor iter io io_meta t in
          sm\<lparr>smg_tables := (smg_tables sm)(i := None),
             smg_dirs := (smg_dirs sm)(table_dir_name i \<mapsto> (tst_meta_file t, tst_files t))\<rparr>)"

definition Storage_DropTable ::
  "((segment_id \<times> segment_builder) list \<Rightarrow> (segment_id \<times> segment_builder) list) \<Rightarrow> (segment_id \<Rightarrow> io) \<Rightarrow> io \<Rightarrow> drop_io \<Rightarrow>
   table_id \<Rightarrow> storage_manager \<Rightarrow> bool \<times> storage_manager" where
  "Storage_DropTable iter io io_meta dio i sm =
     (let sm = close_table iter io io_meta i sm;
          name = table_dir_name i;
          dropped = table_dir_name i @ ''_dropped'' in
      if smg_dirs sm name = None \<or> \<not> di_stat dio then (di_stat dio, sm)
      else if smg_dirs sm dropped \<noteq> None \<and> \<not> di_remove dio then (False, sm)
      else
        let sm = sm\<lparr>smg_dirs := (smg_dirs sm)(dropped := None)\<rparr> in
        if di_rename dio then (True, sm\<lparr>smg_dirs := (smg_dirs sm)(dropped := smg_dirs sm name, name := None)\<rparr>)
        else (False, sm))"

definition Storage_Flush ::
  "((segment_id \<times> segment_builder) list \<Rightarrow> (segment_id \<times> segment_builder) list) \<Rightarrow> (table_id \<Rightarrow> segment_id \<Rightarrow> io) \<Rightarrow>
   (table_id \<Rightarrow> io) \<Rightarrow> storage_manager \<Rightarrow> storage_manager" where
  "Storage_Flush iter io io_meta sm =
     sm\<lparr>smg_tables := (\<lambda>i. map_option (\<lambda>t. snd (Flush iter (io i) (io_meta i) t)) (smg_tables sm i))\<rparr>"

text \<open>The destructor: a flush, and then every table is closed, which finds nothing more to write.\<close>

definition Storage_destructor ::
  "((segment_id \<times> segment_builder) list \<Rightarrow> (segment_id \<times> segment_builder) list) \<Rightarrow> (table_id \<Rightarrow> segment_id \<Rightarrow> io) \<Rightarrow>
   (table_id \<Rightarrow> io) \<Rightarrow> table_id list \<Rightarrow> storage_manager \<Rightarrow> storage_manager" where
  "Storage_destructor iter io io_meta order sm =
     fold (\<lambda>i. close_table iter (io i) (io_meta i) i) order (Storage_Flush iter io io_meta sm)"

definition new_storage_manager :: "(string \<rightharpoonup> table_dir) \<Rightarrow> storage_manager" where
  "new_storage_manager dirs = \<lparr>smg_tables = Map.empty, smg_dirs = dirs\<rparr>"

subsection \<open>The database\<close>

record database =
  db_catalog :: catalog
  db_storage :: storage_manager

text \<open>The outcomes of the file system calls of one DDL statement.\<close>

record ddl_io =
  dd_catalog :: io
  dd_rollback :: io
  dd_dir :: bool
  dd_table :: io

definition Database_CreateTable :: "ddl_io \<Rightarrow> string \<Rightarrow> table_schema \<Rightarrow> database \<Rightarrow> (bool \<times> database) result" where
  "Database_CreateTable io name schema db =
     (case CreateTable (dd_catalog io) name schema (db_catalog db) of (ok, c) \<Rightarrow>
        if \<not> ok then Inr (False, db\<lparr>db_catalog := c\<rparr>)
        else
          (case FindTable name c of
             None \<Rightarrow> Inl (Runtime_error ''bad optional access'')
           | Some i \<Rightarrow>
               (case GetTableById i c of
                  None \<Rightarrow> Inl Undefined_behaviour
                | Some e \<Rightarrow>
                    bind_r (Storage_CreateTable (dd_dir io) (dd_table io) i (te_schema e) (db_storage db)) (\<lambda>(created, sm).
                      if \<not> created then Inr (False, \<lparr>db_catalog = snd (DropTable (dd_rollback io) name c), db_storage = sm\<rparr>)
                      else Inr (True, \<lparr>db_catalog = c, db_storage = sm\<rparr>)))))"

definition Database_DropTable ::
  "((segment_id \<times> segment_builder) list \<Rightarrow> (segment_id \<times> segment_builder) list) \<Rightarrow> (segment_id \<Rightarrow> io) \<Rightarrow> io \<Rightarrow> drop_io \<Rightarrow> io \<Rightarrow>
   string \<Rightarrow> database \<Rightarrow> bool \<times> database" where
  "Database_DropTable iter io io_meta dio io_catalog name db =
     (case FindTable name (db_catalog db) of
        None \<Rightarrow> (False, db)
      | Some i \<Rightarrow>
          (case DropTable io_catalog name (db_catalog db) of (ok, c) \<Rightarrow>
             if \<not> ok then (False, db\<lparr>db_catalog := c\<rparr>)
             else (case Storage_DropTable iter io io_meta dio i (db_storage db) of (dropped, sm) \<Rightarrow>
               (dropped, \<lparr>db_catalog = c, db_storage = sm\<rparr>))))"

definition Database_Initialize :: "string \<Rightarrow> bool \<Rightarrow> io \<Rightarrow> catalog \<Rightarrow> (string \<rightharpoonup> table_dir) \<Rightarrow> database result" where
  "Database_Initialize path dir_ok io c dirs =
     (case LoadMeta c of (loaded, c) \<Rightarrow>
        if loaded then Inr \<lparr>db_catalog = c, db_storage = new_storage_manager dirs\<rparr>
        else (case CreateCatalog dir_ok io c of (created, c) \<Rightarrow>
          if created then Inr \<lparr>db_catalog = c, db_storage = new_storage_manager dirs\<rparr>
          else Inl (Runtime_error (''Failed to create database: '' @ path))))"

subsection \<open>Creating a table\<close>

text \<open>Every open table is a table of the catalog, under its id and with its schema.\<close>

definition db_inv :: "database \<Rightarrow> bool" where
  "db_inv db \<longleftrightarrow> cat_inv (db_catalog db) \<and>
     (\<forall>i t. smg_tables (db_storage db) i = Some t \<longrightarrow>
        (\<exists>e. GetTableById i (db_catalog db) = Some e \<and> tst_table_id t = i \<and> tst_schema t = te_schema e))"

definition same_tables :: "database \<Rightarrow> database \<Rightarrow> bool" where
  "same_tables db db' \<longleftrightarrow> cat_names (db_catalog db') = cat_names (db_catalog db) \<and>
     map_of (cat_tables (db_catalog db')) = map_of (cat_tables (db_catalog db)) \<and>
     smg_tables (db_storage db') = smg_tables (db_storage db)"

lemma same_tables_inv:
  assumes "same_tables db db'" "db_inv db" "cat_inv (db_catalog db')"
  shows "db_inv db'"
  using assms by (simp add: same_tables_def db_inv_def GetTableById_def)

lemma construct_new_table:
  "\<exists>t. construct_table i schema \<lparr>tm_table_id = i, tm_segment_ids = []\<rparr> m f = Inr t \<and> tst_table_id t = i \<and> tst_schema t = schema \<and>
     memory_rows t = [] \<and> tst_metadata t = \<lparr>tm_table_id = i, tm_segment_ids = []\<rparr> \<and> tst_meta_file t = m"
  by (simp add: construct_table_def RebuildIndexes_def Let_def CreateActiveSegment_def memory_rows_def memory_segments_def
      segment_rows_def new_segment_builder_def)

lemma Storage_CreateTable_cases:
  assumes "smg_tables sm i = None"
  shows "\<exists>t sm'. Storage_CreateTable dir_ok io i schema sm = Inr (dir_ok \<and> io = Io_ok, sm') \<and>
    smg_tables sm' = (if dir_ok \<and> io = Io_ok then (smg_tables sm)(i \<mapsto> t) else smg_tables sm) \<and>
    tst_table_id t = i \<and> tst_schema t = schema \<and> memory_rows t = [] \<and> tst_metadata t = \<lparr>tm_table_id = i, tm_segment_ids = []\<rparr> \<and>
    tst_meta_file t = Some (TableStorageMeta_Serialize \<lparr>tm_table_id = i, tm_segment_ids = []\<rparr> []) \<and>
    (\<forall>d. d \<noteq> table_dir_name i \<longrightarrow> smg_dirs sm' d = smg_dirs sm d) \<and>
    (dir_ok \<and> io = Io_ok \<longrightarrow> (\<exists>files. smg_dirs sm' (table_dir_name i) =
       Some (Some (TableStorageMeta_Serialize \<lparr>tm_table_id = i, tm_segment_ids = []\<rparr> []), files)))"
proof -
  let ?m = "\<lparr>tm_table_id = i, tm_segment_ids = []\<rparr>"
  obtain mf fs where d: "dir_content i sm = (mf, fs)" by (cases "dir_content i sm")
  obtain t where t: "construct_table i schema ?m (Some (TableStorageMeta_Serialize ?m [])) fs = Inr t" "tst_table_id t = i"
    "tst_schema t = schema" "memory_rows t = []" "tst_metadata t = ?m" "tst_meta_file t = Some (TableStorageMeta_Serialize ?m [])"
    using construct_new_table by blast
  show ?thesis
    by (rule exI [of _ t], cases io) (use t assms d in \<open>auto simp: Storage_CreateTable_def Table_Create_def Let_def write_file_def\<close>)
qed

text \<open>C20: CREATE TABLE succeeds exactly when the name is new and every write succeeds.  Then the catalog, its file, the
  storage and the directory of the table know the new table, which is empty, and every other table is what it was.  Otherwise the tables in
  memory are what they were: a taken name changes nothing at all, a catalog file that cannot be opened leaves also the files alone, and
  after a failure of the storage whose rollback is written the catalog file lists the old tables.  No directory of another table changes.
\<close>

theorem Database_CreateTable_effect:
  assumes "db_inv db" "ids_left (db_catalog db)"
  shows "\<exists>ok db'. Database_CreateTable io name schema db = Inr (ok, db') \<and> db_inv db' \<and>
    (ok \<longleftrightarrow> FindTable name (db_catalog db) = None \<and> dd_catalog io = Io_ok \<and> dd_dir io \<and> dd_table io = Io_ok) \<and>
    (\<forall>d. d \<noteq> table_dir_name (NextTableId (db_catalog db)) \<longrightarrow> smg_dirs (db_storage db') d = smg_dirs (db_storage db) d) \<and>
    (\<not> ok \<longrightarrow> same_tables db db' \<and>
       (FindTable name (db_catalog db) \<noteq> None \<longrightarrow> db' = db) \<and>
       (dd_catalog io = Io_open_failed \<longrightarrow> cat_file (db_catalog db') = cat_file (db_catalog db) \<and> db_storage db' = db_storage db) \<and>
       (FindTable name (db_catalog db) = None \<and> dd_catalog io = Io_ok \<and> dd_rollback io = Io_ok \<longrightarrow>
          cat_file (db_catalog db') = Some (catalog_bytes (cat_tables (db_catalog db'))))) \<and>
    (ok \<longrightarrow> cat_file (db_catalog db') = Some (catalog_bytes (cat_tables (db_catalog db'))) \<and>
      (\<exists>i t files. FindTable name (db_catalog db') = Some i \<and> GetTableById i (db_catalog db) = None \<and>
       GetTableById i (db_catalog db') = Some \<lparr>te_table_id = i, te_name = name, te_schema = schema\<rparr> \<and>
       smg_tables (db_storage db') = (smg_tables (db_storage db))(i \<mapsto> t) \<and> tst_schema t = schema \<and>
       memory_rows t = [] \<and> tm_segment_ids (tst_metadata t) = [] \<and>
       smg_dirs (db_storage db') (table_dir_name i) = Some (Some (TableStorageMeta_Serialize \<lparr>tm_table_id = i, tm_segment_ids = []\<rparr> []), files) \<and>
       (\<forall>n. n \<noteq> name \<longrightarrow> FindTable n (db_catalog db') = FindTable n (db_catalog db)) \<and>
       (\<forall>j. j \<noteq> i \<longrightarrow> GetTableById j (db_catalog db') = GetTableById j (db_catalog db))))"
proof -
  let ?c = "db_catalog db" and ?sm = "db_storage db"
  have inv: "cat_inv ?c" using assms(1) by (simp add: db_inv_def)
  obtain ok c where create: "CreateTable (dd_catalog io) name schema ?c = (ok, c)" by (cases "CreateTable (dd_catalog io) name schema ?c")
  note eff = CreateTable_cases [OF inv assms(2) create]
  have cinv: "cat_inv c" using catalog_ops_inv [OF inv assms(2), of "dd_catalog io" name schema] create by simp
  show ?thesis
  proof (cases ok)
    case False
    then have "same_tables db (db\<lparr>db_catalog := c\<rparr>)" using eff by (auto simp: same_tables_def FindTable_def)
    moreover from this have "db_inv (db\<lparr>db_catalog := c\<rparr>)" using same_tables_inv assms(1) cinv by fastforce
    moreover have "\<not> (FindTable name ?c = None \<and> dd_catalog io = Io_ok)" using False eff by (auto simp: FindTable_def)
    moreover have "FindTable name ?c \<noteq> None \<Longrightarrow> c = ?c" "dd_catalog io = Io_open_failed \<Longrightarrow> cat_file c = cat_file ?c"
      using eff by (auto simp: FindTable_def)
    ultimately show ?thesis using False create by (auto simp: Database_CreateTable_def)
  next
    case True
    let ?i = "NextTableId ?c" and ?e = "\<lparr>te_table_id = NextTableId ?c, te_name = name, te_schema = schema\<rparr>"
    have new: "FindTable name ?c = None" "dd_catalog io = Io_ok" "map_of (cat_tables ?c) ?i = None" "FindTable name c = Some ?i"
      "GetTable name c = Inr (Some ?e)" "\<And>n. n \<noteq> name \<Longrightarrow> FindTable n c = FindTable n ?c"
      using eff True by (auto simp: FindTable_def)
    have e: "GetTableById ?i c = Some ?e" using new(4,5) by (auto simp: GetTable_def GetTableById_def FindTable_def split: option.splits)
    have tables: "map_of (cat_tables c) = (map_of (cat_tables ?c))(?i \<mapsto> ?e)" "cat_names c = (cat_names ?c)(name \<mapsto> ?i)"
      using create True by (auto simp: CreateTable_def Let_def SaveMeta_def split: if_splits prod.splits)
    have closed: "smg_tables ?sm ?i = None"
    proof (cases "smg_tables ?sm ?i")
      case (Some u)
      then have "\<exists>e. GetTableById ?i ?c = Some e" using assms(1) unfolding db_inv_def by blast
      then show ?thesis using new(3) by (simp add: GetTableById_def)
    qed
    let ?made = "dd_dir io \<and> dd_table io = Io_ok"
    from Storage_CreateTable_cases [OF closed, of "dd_dir io" "dd_table io" schema]
    obtain t sm where s: "Storage_CreateTable (dd_dir io) (dd_table io) ?i schema ?sm = Inr (?made, sm)"
      "smg_tables sm = (if ?made then (smg_tables ?sm)(?i \<mapsto> t) else smg_tables ?sm)" "tst_table_id t = ?i" "tst_schema t = schema"
      "memory_rows t = []" "tst_metadata t = \<lparr>tm_table_id = ?i, tm_segment_ids = []\<rparr>" "\<forall>d. d \<noteq> table_dir_name ?i \<longrightarrow> smg_dirs sm d = smg_dirs ?sm d"
      "?made \<longrightarrow> (\<exists>files. smg_dirs sm (table_dir_name ?i) = Some (Some (TableStorageMeta_Serialize \<lparr>tm_table_id = ?i, tm_segment_ids = []\<rparr> []), files))"
      by (elim exE conjE) (rule that)
    then have segs: "tm_segment_ids (tst_metadata t) = []" by simp
    note st = s(1-5) segs s(7,8)
    define c' where "c' = (if ?made then c else snd (DropTable (dd_rollback io) name c))"
    have run: "Database_CreateTable io name schema db = Inr (?made, \<lparr>db_catalog = c', db_storage = sm\<rparr>)"
      using create True new(4) e st(1) by (simp add: Database_CreateTable_def c'_def)
    have undone: "cat_names (snd (DropTable (dd_rollback io) name c)) = cat_names ?c"
      "map_of (cat_tables (snd (DropTable (dd_rollback io) name c))) = map_of (cat_tables ?c)"
      using tables new(1,3) by (auto simp: DropTable_def FindTable_def)
    have inv': "db_inv \<lparr>db_catalog = c', db_storage = sm\<rparr>"
    proof (cases ?made)
      case True
      then show ?thesis using assms(1) st(2-4) cinv tables(1) new(3)
        by (auto simp: db_inv_def c'_def GetTableById_def)
    next
      case False
      have "distinct (map fst (cat_tables c))" using cinv by (simp add: cat_inv_def)
      then have "cat_inv (snd (DropTable (dd_rollback io) name c))"
        using inv undone tables(2) by (simp add: cat_inv_def DropTable_def)
      then show ?thesis using assms(1) st(2) False undone by (auto simp: db_inv_def c'_def GetTableById_def)
    qed
    show ?thesis
    proof (cases ?made)
      case True
      have "cat_file c = Some (catalog_bytes (cat_tables c))" using eff new(1,2) by (simp add: FindTable_def)
      moreover have "\<forall>j. j \<noteq> ?i \<longrightarrow> GetTableById j c = GetTableById j ?c" using tables(1) by (simp add: GetTableById_def)
      ultimately show ?thesis using True run inv' new e st by (auto simp: c'_def GetTableById_def)
    next
      case False
      have "dd_rollback io = Io_ok \<Longrightarrow> cat_file c' = Some (catalog_bytes (cat_tables c'))"
        unfolding c'_def if_not_P [OF False]
        using DropTable_existing [of c name ?i "dd_rollback io"] new(4) by (simp add: FindTable_def SaveMeta_file)
      then show ?thesis using False run inv' new st(2,7) undone by (auto simp: c'_def same_tables_def)
    qed
  qed
qed

subsection \<open>A failed DROP TABLE\<close>

text \<open>C22: when DROP TABLE fails because the catalog cannot be written, the catalog in memory has forgotten the
  table while the storage still has it open; if its id is the next one to give away, every later CREATE
  TABLE of a new name is refused, even when every write succeeds.
\<close>

theorem failed_drop_blocks_create:
  assumes "db_inv db" "ids_left (db_catalog db)" "FindTable name (db_catalog db) = Some i" "smg_tables (db_storage db) i = Some t"
    and "Database_DropTable iter ios io_meta dio Io_open_failed name db = (ok, db')" "NextTableId (db_catalog db') = i"
  shows "\<not> ok \<and> FindTable name (db_catalog db') = None \<and> smg_tables (db_storage db') i = Some t \<and>
    (\<exists>db''. Database_CreateTable io name' schema db' = Inr (False, db''))"
proof -
  let ?c = "db_catalog db"
  obtain k c where drop: "DropTable Io_open_failed name ?c = (k, c)" by (cases "DropTable Io_open_failed name ?c")
  have n: "cat_names ?c name = Some i" using assms(3) by (simp add: FindTable_def)
  have c: "\<not> k" "cat_names c = (cat_names ?c)(name := None)" "cat_tables c = al_erase i (cat_tables ?c)"
    using drop n SaveMeta_ok [of Io_open_failed] by (auto simp: DropTable_def SaveMeta_def write_file_def Let_def)
  have db': "\<not> ok" "db' = db\<lparr>db_catalog := c\<rparr>" using assms(3,5) drop c(1) by (auto simp: Database_DropTable_def)
  have inv: "cat_inv ?c" using assms(1) by (simp add: db_inv_def)
  have cinv: "cat_inv c" using catalog_ops_inv [OF inv assms(2), of Io_open_failed name] drop by simp
  have left: "ids_left c" using assms(2) by (auto simp: ids_left_def c(3) al_erase_def)
  have i: "NextTableId c = i" using assms(6) db'(2) by simp
  have "\<exists>db''. Database_CreateTable io name' schema db' = Inr (False, db'')"
  proof (cases "CreateTable (dd_catalog io) name' schema c")
    case (Pair created c'')
    show ?thesis
    proof (cases created)
      case True
      then have "FindTable name' c'' = Some i" "GetTable name' c'' = Inr (Some \<lparr>te_table_id = i, te_name = name', te_schema = schema\<rparr>)"
        using CreateTable_cases [OF cinv left Pair] i by auto
      then have "GetTableById i c'' = Some \<lparr>te_table_id = i, te_name = name', te_schema = schema\<rparr>" "FindTable name' c'' = Some i"
        by (auto simp: GetTable_def GetTableById_def FindTable_def split: option.splits)
      then show ?thesis using Pair True assms(4) by (simp add: Database_CreateTable_def db'(2) Storage_CreateTable_def)
    next
      case False
      then show ?thesis using Pair by (simp add: Database_CreateTable_def db'(2))
    qed
  qed
  then show ?thesis using db' c(2) assms(4) by (simp add: FindTable_def)
qed

subsection \<open>What survives a restart\<close>

lemma table_dir_name_inj: "table_dir_name i = table_dir_name j \<longleftrightarrow> i = j"
  by (metis table_dir_name_def digits_val_nat_str word_unat_eq_iff)

lemma seal_nonempty_sel [simp]:
  "tst_schema (seal_nonempty st) = tst_schema st" "tst_metadata (seal_nonempty st) = tst_metadata st"
  by (simp_all add: seal_nonempty_def CreateActiveSegment_def SealActiveSegment_def)

lemma Flush_keeps:
  assumes "Flush iter io io_meta st = (saved, st')"
  shows "tst_schema st' = tst_schema st" "tm_table_id (tst_metadata st') = tm_table_id (tst_metadata st)" "tst_sealed st' = []"
    "tst_active st' = tst_active (seal_nonempty st)"  "tst_active_id st' = tst_active_id (seal_nonempty st)"
proof -
  define st1 where "st1 = fold (flush_segment io) (iter (tst_sealed (seal_nonempty st))) (seal_nonempty st)"
  have meta: "tm_table_id (tst_metadata (fold (flush_segment io) es s)) = tm_table_id (tst_metadata s)" for es s
    by (induction es arbitrary: s) (auto simp: flush_segment_def Let_def split: prod.splits)
  show "tst_schema st' = tst_schema st" "tm_table_id (tst_metadata st') = tm_table_id (tst_metadata st)" "tst_sealed st' = []"
    "tst_active st' = tst_active (seal_nonempty st)"  "tst_active_id st' = tst_active_id (seal_nonempty st)"
    using assms meta [of "iter (tst_sealed (seal_nonempty st))" "seal_nonempty st"]
    by (auto simp: Flush_def Let_def SaveTableMeta_def split: prod.splits if_splits)
qed

lemma close_other:
  assumes "j \<noteq> i"
  shows "smg_tables (close_table iter io io_meta j sm) i = smg_tables sm i"
    "smg_dirs (close_table iter io io_meta j sm) (table_dir_name i) = smg_dirs sm (table_dir_name i)"
  using assms table_dir_name_inj [of i j] by (auto simp: close_table_def Let_def split: option.splits)

lemma fold_close:
  assumes "distinct order" "i \<in> set order" "smg_tables sm i = Some t"
  shows "smg_dirs (fold (\<lambda>i. close_table iter (io i) (io_meta i) i) order sm) (table_dir_name i) =
    Some (tst_meta_file (Table_destructor iter (io i) (io_meta i) t), tst_files (Table_destructor iter (io i) (io_meta i) t))"
proof -
  obtain xs ys where order: "order = xs @ i # ys" "i \<notin> set xs" "i \<notin> set ys"
    using assms(1,2) by (metis distinct.simps(2) distinct_append not_distinct_conv_prefix split_list)
  have skip: "smg_tables (fold (\<lambda>i. close_table iter (io i) (io_meta i) i) zs s) i = smg_tables s i \<and>
      smg_dirs (fold (\<lambda>i. close_table iter (io i) (io_meta i) i) zs s) (table_dir_name i) = smg_dirs s (table_dir_name i)"
    if "i \<notin> set zs" for zs s
    using that by (induction zs arbitrary: s) (auto simp: close_other)
  have "smg_tables (fold (\<lambda>i. close_table iter (io i) (io_meta i) i) xs sm) i = Some t" using skip [OF order(2)] assms(3) by simp
  then show ?thesis using skip [OF order(3)] by (simp add: order(1) close_table_def [of _ _ _ i] Let_def)
qed

lemma destructor_after_flush:
  assumes "table_inv t" "unat (tst_next_id t) + 1 < 2 ^ 32" "Flush iter io io_meta t = (saved, t')"
  shows "Table_destructor iter io' io_meta' t' = t'"
proof -
  have "sb_row_count (tst_active t') = 0" using seal_nonempty_ok(3) [OF assms(1,2)] Flush_keeps(4) [OF assms(3)] by simp
  then have "seal_nonempty t' = t'" by (simp add: seal_nonempty_def)
  then show ?thesis using Flush_keeps(3) [OF assms(3)] by (simp add: Table_destructor_def Let_def)
qed

text \<open>C21: after a flush of all tables in which every write succeeds and the orderly end of the storage
  manager, a new one on the same directories opens the table with exactly the rows it had, those written
  before and those that were only in memory, and its indexes find these rows: every lookup answers with the locations of the
  rows that have the key.
\<close>

theorem restart_keeps_rows:
  assumes t: "smg_tables sm i = Some t" "table_inv t" "disk_ok t sbs" "columns_fit (tst_schema t)" "keys_known (tst_schema t)" "keys_nonempty (tst_schema t)"
      "tm_table_id (tst_metadata t) = i" "unat (tst_next_id t) + 3 < 2 ^ 32"
    and iter: "\<And>es. mset (iter es) = mset es" and order: "distinct order" "i \<in> set order"
    and sm': "sm' = Storage_destructor iter (\<lambda>_ _. Io_ok) (\<lambda>_. Io_ok) order sm"
  shows "\<exists>t' sm'' sbs'. Storage_GetTable i (tst_schema t) (new_storage_manager (smg_dirs sm')) = Inr (Some t', sm'') \<and>
    table_inv t' \<and> disk_ok t' sbs' \<and> memory_rows t' = [] \<and> tst_schema t' = tst_schema t \<and>
    indexes_hold (tst_schema t') (located_rows sbs') (tst_indexes t') \<and> mset (rows_of sbs') = mset (rows_of sbs) + mset (memory_rows t)"
proof -
  have next_id: "unat (tst_next_id t) + 1 < 2 ^ 32" using t(8) by simp
  obtain saved u where flush: "Flush iter (\<lambda>_. Io_ok) Io_ok t = (saved, u)" by (cases "Flush iter (\<lambda>_. Io_ok) Io_ok t")
  have fl: "table_inv u" "tst_meta_file u = Some (TableStorageMeta_Serialize (tst_metadata u) [])"
    "\<exists>es. mset (rows_of es) = mset (memory_rows t) \<and> disk_ok u (sbs @ es)"
    using Flush_result [OF t(2,3,4) next_id iter flush] by auto
  then obtain es where es: "mset (rows_of es) = mset (memory_rows t)" "disk_ok u (sbs @ es)" by blast
  note keeps = Flush_keeps [OF flush]
  have open_u: "smg_tables (Storage_Flush iter (\<lambda>_ _. Io_ok) (\<lambda>_. Io_ok) sm) i = Some u"
    using t(1) flush by (simp add: Storage_Flush_def)
  have dir: "smg_dirs sm' (table_dir_name i) = Some (tst_meta_file u, tst_files u)"
    using fold_close [OF order open_u] destructor_after_flush [OF t(2) next_id flush] by (simp add: sm' Storage_destructor_def)
  have small: "\<forall>sid\<in>set (tm_segment_ids (tst_metadata u)). unat sid + 2 < 2 ^ 32"
  proof
    fix sid assume "sid \<in> set (tm_segment_ids (tst_metadata u))"
    then have "unat sid < unat (tst_active_id u)" using fl(1) by (auto simp: table_inv_def)
    moreover have "unat (tst_active_id u) \<le> unat (tst_next_id t)"
      using keeps(5) t(2) by (auto simp: seal_nonempty_def CreateActiveSegment_def SealActiveSegment_def table_inv_def split: if_splits)
    ultimately show "unat sid + 2 < 2 ^ 32" using t(8) by simp
  qed
  have "keys_known (tst_schema u)" "keys_nonempty (tst_schema u)" using t(5,6) keeps(1) by simp_all
  from Table_Open_written [OF es(2) fl(2) this(1) small this(2)] obtain t' where t':
    "Table_Open i (tst_schema t) (tst_meta_file u) (tst_files u) = Inr (Some t')" "table_inv t'" "memory_rows t' = []"
    "disk_ok t' (sbs @ es)" "tst_schema t' = tst_schema t" "indexes_hold (tst_schema t') (located_rows (sbs @ es)) (tst_indexes t')"
    using keeps(1,2) t(7) by auto
  have "Storage_GetTable i (tst_schema t) (new_storage_manager (smg_dirs sm')) =
      Inr (Some t', (new_storage_manager (smg_dirs sm'))\<lparr>smg_tables := Map.empty(i \<mapsto> t')\<rparr>)"
    using t'(1) dir by (simp add: Storage_GetTable_def new_storage_manager_def dir_content_def)
  then show ?thesis using t' es(1) by (intro exI [of _ t'] exI [of _ "(new_storage_manager (smg_dirs sm'))\<lparr>smg_tables := Map.empty(i \<mapsto> t')\<rparr>"] exI [of _ "sbs @ es"]) simp
qed

end
