(* ===== verification/Parallel_Scan.thy ===== *)
theory Parallel_Scan
  imports Table_Scan
begin

text \<open>
  Parallel scans: any number of workers share one \<open>ParallelScanGlobalState\<close> and call \<open>ScanParallel\<close> in
  any interleaving of their passes.  A pass is \<open>parallel_body\<close>; a worker whose call answered false is done.
\<close>

subsection \<open>Workers and their passes\<close>

record parallel_config =
  pc_global :: parallel_global
  pc_locals :: "parallel_local list"
  pc_done :: "nat set"
  pc_batches :: "vector_batch list"
  pc_table :: table_storage

definition worker_passed ::
  "nat \<Rightarrow> scan_step \<times> parallel_global \<times> parallel_local \<times> vector_batch \<times> table_storage \<Rightarrow> parallel_config \<Rightarrow> parallel_config" where
  "worker_passed w res c =
     (case res of (step, g, l, out, st) \<Rightarrow>
        \<lparr>pc_global = g, pc_locals = (pc_locals c)[w := l],
         pc_done = (if step = Scan_end then insert w (pc_done c) else pc_done c),
         pc_batches = pc_batches c @ (if step = Scan_batch then [out] else []), pc_table = st\<rparr>)"

inductive parallel_step :: "scan_options \<Rightarrow> parallel_config \<Rightarrow> parallel_config \<Rightarrow> bool" for options where
  pass: "w < length (pc_locals c) \<Longrightarrow> w \<notin> pc_done c \<Longrightarrow>
     parallel_body options (pc_global c) (pc_locals c ! w) out (pc_table c) = Inr res \<Longrightarrow>
     parallel_step options c (worker_passed w res c)"

inductive_cases parallel_stepE: "parallel_step options c c'"

definition parallel_start :: "parallel_global \<Rightarrow> nat \<Rightarrow> table_storage \<Rightarrow> parallel_config" where
  "parallel_start g n st = \<lparr>pc_global = g, pc_locals = replicate n new_parallel_local, pc_done = {}, pc_batches = [], pc_table = st\<rparr>"

subsection \<open>What is left\<close>

definition local_rest ::
  "table_schema \<Rightarrow> scan_options \<Rightarrow> (segment_id \<times> segment_builder) list \<Rightarrow> parallel_local \<Rightarrow> bytes list list" where
  "local_rest s options sbs l =
     (if pl_has_segment l then segment_rest s options (the (map_of sbs (pl_segment_id l))) (pl_cursor l) else [])"

definition unclaimed ::
  "table_schema \<Rightarrow> scan_options \<Rightarrow> (segment_id \<times> segment_builder) list \<Rightarrow> parallel_global \<Rightarrow> bytes list list" where
  "unclaimed s options sbs g = selected s options (rows_of (drop (pg_next_segment g) sbs))"

definition local_ok ::
  "table_schema \<Rightarrow> scan_options \<Rightarrow> prepared_predicate list option \<Rightarrow> (segment_id \<times> segment_builder) list \<Rightarrow> parallel_local \<Rightarrow> bool" where
  "local_ok s options prepared sbs l \<longleftrightarrow> (pl_has_segment l \<longrightarrow> (\<exists>sb r. (pl_segment_id l, sb) \<in> set sbs \<and>
     pl_reader l = Some r \<and> reader_serves r sb \<and> cursor_ok s options prepared sb (pl_cursor l)))"

text \<open>Passes left at most: for the segments not claimed, for the rows of the claimed ones, and the last call.\<close>

definition local_work :: "parallel_local \<Rightarrow> nat" where
  "local_work l = (if pl_has_segment l then Suc (2 ^ 17 - ssc_offset (pl_cursor l)) else 0)"

definition global_work :: "(segment_id \<times> segment_builder) list \<Rightarrow> parallel_global \<Rightarrow> nat" where
  "global_work sbs g = (length sbs - pg_next_segment g) * 2 ^ 18"

definition global_ok ::
  "scan_options \<Rightarrow> prepared_predicate list option \<Rightarrow> (segment_id \<times> segment_builder) list \<Rightarrow> parallel_global \<Rightarrow> table_storage \<Rightarrow> bool" where
  "global_ok options prepared sbs g st \<longleftrightarrow> table_fits options prepared sbs st \<and> pg_segment_ids g = map fst sbs \<and>
     pg_prepared g = prepared \<and> \<not> pg_cancelled g"

lemma disk_map_of:
  assumes "disk_ok st sbs" "(sid, sb) \<in> set sbs"
  shows "map_of sbs sid = Some sb" "builder_for (tst_schema st) sb"
proof -
  have "distinct (map fst sbs)" using assms(1) by (metis disk_ok_def)
  then show "map_of sbs sid = Some sb" using assms(2) by simp
  show "builder_for (tst_schema st) sb" using assms unfolding disk_ok_def by blast
qed

text \<open>Claiming takes the next segment off the unclaimed ones.\<close>

lemma claim_cases:
  assumes "global_ok options prepared sbs g st" "local_ok (tst_schema st) options prepared sbs l"
  shows "(\<exists>g'. parallel_claim g l st = Inr (False, g', l, st) \<and> global_ok options prepared sbs g' st \<and>
       \<not> pl_has_segment l \<and> length sbs \<le> pg_next_segment g \<and> pg_next_segment g \<le> pg_next_segment g') \<or>
    (\<exists>g' l' st'. parallel_claim g l st = Inr (True, g', l', st') \<and> global_ok options prepared sbs g' st' \<and>
       tst_schema st' = tst_schema st \<and> local_ok (tst_schema st) options prepared sbs l' \<and> pl_has_segment l' \<and>
       pg_next_segment g \<le> pg_next_segment g' \<and>
       local_rest (tst_schema st) options sbs l @ unclaimed (tst_schema st) options sbs g =
         local_rest (tst_schema st) options sbs l' @ unclaimed (tst_schema st) options sbs g' \<and>
       local_work l' + global_work sbs g' \<le> local_work l + global_work sbs g)"
proof (cases "pl_has_segment l")
  case True
  then show ?thesis using assms by (simp add: parallel_claim_def)
next
  case False
  let ?s = "tst_schema st"
  have g: "table_fits options prepared sbs st" "pg_segment_ids g = map fst sbs" "pg_prepared g = prepared" "\<not> pg_cancelled g"
    using assms(1) by (simp_all add: global_ok_def)
  let ?g = "g\<lparr>pg_next_segment := Suc (pg_next_segment g)\<rparr>"
  have gok: "global_ok options prepared sbs ?g st" using assms(1) by (simp add: global_ok_def)
  show ?thesis
  proof (cases "pg_next_segment g < length sbs")
    case out: False
    then have "parallel_claim g l st = Inr (False, ?g, l, st)"
      using False g by (simp add: parallel_claim_def ClaimSegment_def)
    then show ?thesis using out False gok by (intro disjI1 exI [of _ ?g]) simp
  next
    case True
    obtain sid sb where sb: "sbs ! pg_next_segment g = (sid, sb)" by (cases "sbs ! pg_next_segment g")
    have mem: "(sid, sb) \<in> set sbs" using sb True by (metis nth_mem)
    have disk: "disk_ok st sbs" using g(1) by (simp add: table_fits_def)
    obtain r c where r: "GetSegmentReader sid st = (Some r, st\<lparr>tst_reader_cache := c\<rparr>)" "reader_serves r sb"
        "disk_ok (st\<lparr>tst_reader_cache := c\<rparr>) sbs"
      using GetSegmentReader_ok [OF disk mem] by blast
    let ?st = "st\<lparr>tst_reader_cache := c\<rparr>"
    define l' where "l' = \<lparr>pl_segment_id = sid, pl_reader = Some r,
      pl_cursor = new_segment_scan_cursor\<lparr>ssc_prepared := prepared\<rparr>, pl_has_segment = True\<rparr>"
    have "parallel_claim g l st = Inr (True, ?g, l', ?st)"
      using False True g r(1) sb by (simp add: parallel_claim_def ClaimSegment_def l'_def)
    moreover have "global_ok options prepared sbs ?g ?st" using gok r(3) by (simp add: global_ok_def table_fits_def)
    moreover have "local_ok ?s options prepared sbs l'"
      using r(2) mem by (auto simp: local_ok_def l'_def cursor_ok_def new_segment_scan_cursor_def)
    moreover have "local_rest ?s options sbs l @ unclaimed ?s options sbs g = local_rest ?s options sbs l' @ unclaimed ?s options sbs ?g"
      using False True sb disk_map_of(1) [OF disk mem]
      by (simp add: local_rest_def unclaimed_def l'_def segment_rest_def new_segment_scan_cursor_def flip: Cons_nth_drop_Suc)
    moreover have "local_work l' + global_work sbs ?g \<le> local_work l + global_work sbs g"
    proof -
      have "length sbs - pg_next_segment g = Suc (length sbs - Suc (pg_next_segment g))" using True by simp
      then show ?thesis using False by (simp add: local_work_def global_work_def l'_def new_segment_scan_cursor_def)
    qed
    moreover have "pl_has_segment l'" by (simp add: l'_def)
    ultimately show ?thesis by (intro disjI2 exI [of _ ?g] exI [of _ l'] exI [of _ ?st]) simp
  qed
qed

text \<open>One pass: it ends the worker, or moves rows from what is left to the batch.\<close>

lemma pass_cases:
  assumes "global_ok options prepared sbs g st" "local_ok (tst_schema st) options prepared sbs l"
  shows "\<exists>step g' l' out' st'. parallel_body options g l out st = Inr (step, g', l', out', st') \<and>
    global_ok options prepared sbs g' st' \<and> tst_schema st' = tst_schema st \<and> local_ok (tst_schema st) options prepared sbs l' \<and>
    pg_next_segment g \<le> pg_next_segment g' \<and>
    (step = Scan_batch \<longrightarrow> scanned (tst_schema st) options out' \<and> active_rows out' \<noteq> []) \<and>
    local_rest (tst_schema st) options sbs l @ unclaimed (tst_schema st) options sbs g =
      (if step = Scan_batch then active_rows out' else []) @
      local_rest (tst_schema st) options sbs l' @ unclaimed (tst_schema st) options sbs g' \<and>
    (if step = Scan_end then \<not> pl_has_segment l' \<and> length sbs \<le> pg_next_segment g' \<and>
       local_work l' + global_work sbs g' = local_work l + global_work sbs g
     else local_work l' + global_work sbs g' < local_work l + global_work sbs g)"
proof -
  let ?s = "tst_schema st"
  have running: "\<not> pg_cancelled g" using assms(1) by (simp add: global_ok_def)
  from claim_cases [OF assms] consider
    (no_segment) g' where "parallel_claim g l st = Inr (False, g', l, st)" "global_ok options prepared sbs g' st"
       "\<not> pl_has_segment l" "length sbs \<le> pg_next_segment g" "pg_next_segment g \<le> pg_next_segment g'"
  | (segment) g' l1 st' where "parallel_claim g l st = Inr (True, g', l1, st')" "global_ok options prepared sbs g' st'"
       "tst_schema st' = ?s" "local_ok ?s options prepared sbs l1" "pl_has_segment l1"
       "local_rest ?s options sbs l @ unclaimed ?s options sbs g = local_rest ?s options sbs l1 @ unclaimed ?s options sbs g'"
       "local_work l1 + global_work sbs g' \<le> local_work l + global_work sbs g" "pg_next_segment g \<le> pg_next_segment g'"
    by blast
  then show ?thesis
  proof cases
    case no_segment
    have "parallel_body options g l out st = Inr (Scan_end, g', l, out, st)"
      using running no_segment(1) by (simp add: parallel_body_def)
    then show ?thesis using no_segment assms(2)
      by (intro exI [of _ Scan_end] exI [of _ g'] exI [of _ l] exI [of _ out] exI [of _ st])
        (simp add: local_rest_def unclaimed_def local_work_def global_work_def)
  next
    case segment
    obtain sb r where sb: "(pl_segment_id l1, sb) \<in> set sbs" "pl_reader l1 = Some r" "reader_serves r sb"
        "cursor_ok ?s options prepared sb (pl_cursor l1)"
      using segment(4,5) by (auto simp: local_ok_def)
    have fits: "disk_ok st' sbs" "scan_fits ?s options prepared" and "\<forall>(sid, sb)\<in>set sbs. prunable_segment ?s options sb"
      using segment(2,3) by (simp_all add: global_ok_def table_fits_def)
    then have prunable: "prunable_segment ?s options sb" using sb(1) by blast
    have built: "map_of sbs (pl_segment_id l1) = Some sb" "builder_for ?s sb"
      using disk_map_of [OF fits(1) sb(1)] segment(3) by simp_all
    have rest1: "local_rest ?s options sbs l1 = segment_rest ?s options sb (pl_cursor l1)"
      using segment(5) built(1) by (simp add: local_rest_def)
    have body: "parallel_body options g l out st = bind_r (ScanSegment (Some r) options (pl_cursor l1) out) (\<lambda>(got, cursor, out).
        let l = l1\<lparr>pl_cursor := cursor\<rparr> in
        if \<not> got then Inr (Scan_again, g', ResetSegment l, out, st')
        else Inr (if vb_size out = 0 then Scan_again else Scan_batch, g', l, out, st'))"
      using running segment(1) sb(2) by (simp add: parallel_body_def)
    from ScanSegment_serves [OF sb(3) built(2) fits(2) prunable sb(4)] consider
      (stop) cursor out' where "ScanSegment (Some r) options (pl_cursor l1) out = Inr (False, cursor, out')"
        "segment_rest ?s options sb (pl_cursor l1) = []"
    | (batch) cursor out' where "ScanSegment (Some r) options (pl_cursor l1) out = Inr (True, cursor, out')"
        "cursor_ok ?s options prepared sb cursor"
        "segment_rest ?s options sb (pl_cursor l1) = active_rows out' @ segment_rest ?s options sb cursor"
        "scanned ?s options out'" "ssc_offset cursor \<le> sb_row_count sb"
      by blast
    then show ?thesis
    proof cases
      case stop
      have "parallel_body options g l out st = Inr (Scan_again, g', new_parallel_local, out', st')"
        using body stop(1) by (simp add: ResetSegment_def)
      moreover have "local_work new_parallel_local < local_work l1"
        using segment(5) by (simp add: local_work_def new_parallel_local_def)
      ultimately show ?thesis using segment stop(2) rest1
        by (intro exI [of _ Scan_again] exI [of _ g'] exI [of _ new_parallel_local] exI [of _ out'] exI [of _ st'])
          (simp add: local_rest_def local_ok_def new_parallel_local_def)
    next
      case batch
      let ?l = "l1\<lparr>pl_cursor := cursor\<rparr>" and ?step = "if active_rows out' = [] then Scan_again else Scan_batch"
      have "parallel_body options g l out st = Inr (?step, g', ?l, out', st')"
        using body batch(1) scanned_size [OF batch(4)] by simp
      moreover have "local_ok ?s options prepared sbs ?l" using sb(1-3) batch(2) by (auto simp: local_ok_def)
      moreover have "local_rest ?s options sbs l1 = active_rows out' @ local_rest ?s options sbs ?l"
        using rest1 batch(3) segment(5) built(1) by (simp add: local_rest_def)
      moreover have "local_work ?l < local_work l1"
        using ScanSegment_progress(1) [OF batch(1)] batch(5) built(2) segment(5)
        by (auto simp: local_work_def builder_for_def kMaxSegmentRowCount_def)
      ultimately show ?thesis using segment batch(4)
        by (intro exI [of _ ?step] exI [of _ g'] exI [of _ ?l] exI [of _ out'] exI [of _ st']) simp
    qed
  qed
qed

subsection \<open>All the workers\<close>

definition parallel_inv ::
  "table_schema \<Rightarrow> scan_options \<Rightarrow> prepared_predicate list option \<Rightarrow> (segment_id \<times> segment_builder) list \<Rightarrow> parallel_config \<Rightarrow> bool" where
  "parallel_inv s options prepared sbs c \<longleftrightarrow>
     global_ok options prepared sbs (pc_global c) (pc_table c) \<and> tst_schema (pc_table c) = s \<and>
     (\<forall>l\<in>set (pc_locals c). local_ok s options prepared sbs l) \<and> pc_done c \<subseteq> {..<length (pc_locals c)} \<and>
     (\<forall>w\<in>pc_done c. \<not> pl_has_segment (pc_locals c ! w) \<and> length sbs \<le> pg_next_segment (pc_global c)) \<and>
     (\<forall>b\<in>set (pc_batches c). scanned s options b \<and> active_rows b \<noteq> []) \<and>
     mset (concat (map active_rows (pc_batches c))) + (\<Sum>l\<leftarrow>pc_locals c. mset (local_rest s options sbs l)) +
       mset (unclaimed s options sbs (pc_global c)) = mset (selected s options (rows_of sbs))"

definition parallel_work :: "(segment_id \<times> segment_builder) list \<Rightarrow> parallel_config \<Rightarrow> nat" where
  "parallel_work sbs c = (\<Sum>l\<leftarrow>pc_locals c. local_work l) + global_work sbs (pc_global c) +
     card ({..<length (pc_locals c)} - pc_done c)"

lemma rows_moved:
  fixes r :: "'a multiset"
  assumes "r + u = b + r' + u'" "S' + r = S + r'"
  shows "B + b + S' + u' = B + S + u"
proof (rule multiset_eqI)
  fix x
  have "count r x + count u x = count b x + count r' x + count u' x" "count S' x + count r x = count S x + count r' x"
    using assms by (metis count_union)+
  then show "count (B + b + S' + u') x = count (B + S + u) x" by simp
qed

lemma parallel_pass:
  assumes "parallel_inv s options prepared sbs c" "w < length (pc_locals c)" "w \<notin> pc_done c"
    and "parallel_body options (pc_global c) (pc_locals c ! w) out (pc_table c) = Inr res"
  shows "parallel_inv s options prepared sbs (worker_passed w res c) \<and>
    parallel_work sbs (worker_passed w res c) < parallel_work sbs c"
proof -
  let ?l = "pc_locals c ! w" and ?g = "pc_global c" and ?st = "pc_table c"
  note inv = assms(1) [unfolded parallel_inv_def]
  have gok: "global_ok options prepared sbs ?g ?st" and schema: "tst_schema ?st = s" using inv by simp_all
  have lok: "local_ok (tst_schema ?st) options prepared sbs ?l" using inv assms(2) by simp
  from pass_cases [OF gok lok, of out, unfolded schema] obtain step g' l' out' st' where
    res: "res = (step, g', l', out', st')" and ok: "global_ok options prepared sbs g' st'" "tst_schema st' = s"
      "local_ok s options prepared sbs l'" and mono: "pg_next_segment ?g \<le> pg_next_segment g'"
    and batch: "step = Scan_batch \<longrightarrow> scanned s options out' \<and> active_rows out' \<noteq> []"
    and rest: "local_rest s options sbs ?l @ unclaimed s options sbs ?g =
      (if step = Scan_batch then active_rows out' else []) @ local_rest s options sbs l' @ unclaimed s options sbs g'"
    and work: "if step = Scan_end then \<not> pl_has_segment l' \<and> length sbs \<le> pg_next_segment g' \<and>
         local_work l' + global_work sbs g' = local_work ?l + global_work sbs ?g
       else local_work l' + global_work sbs g' < local_work ?l + global_work sbs ?g"
    using assms(4) by auto
  let ?c = "worker_passed w res c"
  let ?rest = "\<lambda>l. mset (local_rest s options sbs l)"
  note passed = worker_passed_def res
  have sums: "(\<Sum>l\<leftarrow>(pc_locals c)[w := l']. ?rest l) + ?rest ?l = (\<Sum>l\<leftarrow>pc_locals c. ?rest l) + ?rest l'"
    "(\<Sum>l\<leftarrow>(pc_locals c)[w := l']. local_work l) + local_work ?l = (\<Sum>l\<leftarrow>pc_locals c. local_work l) + local_work l'"
    by (rule sum_list_replace [OF assms(2)])+
  have "mset (local_rest s options sbs ?l @ unclaimed s options sbs ?g) =
      mset (if step = Scan_batch then active_rows out' else []) + ?rest l' + mset (unclaimed s options sbs g')"
    by (simp only: rest mset_append add.assoc)
  from rows_moved [OF this [unfolded mset_append] sums(1)]
  have "mset (concat (map active_rows (pc_batches ?c))) + (\<Sum>l\<leftarrow>pc_locals ?c. ?rest l) +
      mset (unclaimed s options sbs (pc_global ?c)) =
    mset (concat (map active_rows (pc_batches c))) + (\<Sum>l\<leftarrow>pc_locals c. ?rest l) + mset (unclaimed s options sbs ?g)"
    by (cases "step = Scan_batch") (simp_all add: passed)
  then have rows: "mset (concat (map active_rows (pc_batches ?c))) + (\<Sum>l\<leftarrow>pc_locals ?c. ?rest l) +
      mset (unclaimed s options sbs (pc_global ?c)) = mset (selected s options (rows_of sbs))"
    using inv by simp
  have "\<forall>l\<in>set (pc_locals ?c). local_ok s options prepared sbs l"
    using inv ok(3) set_update_subset_insert [of "pc_locals c" w l'] by (auto simp: passed)
  moreover have "\<forall>v\<in>pc_done ?c. \<not> pl_has_segment (pc_locals ?c ! v) \<and> length sbs \<le> pg_next_segment (pc_global ?c)"
    using inv assms(2,3) work mono by (auto simp: passed nth_list_update split: if_splits)
  ultimately have "parallel_inv s options prepared sbs ?c"
    using inv ok assms(2) rows batch unfolding parallel_inv_def by (auto simp: passed)
  moreover have "parallel_work sbs ?c < parallel_work sbs c"
  proof (cases "step = Scan_end")
    case True
    have "card ({..<length (pc_locals c)} - insert w (pc_done c)) < card ({..<length (pc_locals c)} - pc_done c)"
      using assms(2,3) by (intro psubset_card_mono) auto
    then show ?thesis using work sums(2) True by (simp add: parallel_work_def passed)
  next
    case False
    then show ?thesis using work sums(2) by (simp add: parallel_work_def passed)
  qed
  ultimately show ?thesis by blast
qed


lemma sum_list_none:
  fixes f :: "'a \<Rightarrow> 'b multiset"
  assumes "\<forall>x\<in>set xs. f x = {#}"
  shows "(\<Sum>x\<leftarrow>xs. f x) = {#}"
  using assms by (induction xs) simp_all

lemma parallel_start_inv:
  assumes "CreateParallelScanState options st = Inr g" "disk_ok st sbs" "Suc (length sbs) < 2 ^ 32"
    and "scan_fits (tst_schema st) options (if so_predicates options = [] then None else Some ps)"
    and "\<forall>(sid, sb)\<in>set sbs. prunable_segment (tst_schema st) options sb"
  shows "parallel_inv (tst_schema st) options (if so_predicates options = [] then None else Some ps) sbs (parallel_start g n st)"
    (is "parallel_inv ?s _ ?prepared _ ?c")
proof -
  have "so_predicates options \<noteq> [] \<Longrightarrow> Build options ?s = Inr ps" using assms(4) by (simp add: scan_fits_def)
  then have g: "g = \<lparr>pg_segment_ids = tm_segment_ids (tst_metadata st), pg_next_segment = 0, pg_prepared = ?prepared, pg_cancelled = False\<rparr>"
    using assms(1) by (auto simp: CreateParallelScanState_def PrepareScanPredicates_def split: if_splits)
  have "tm_segment_ids (tst_metadata st) = map fst sbs" using assms(2) by (simp add: disk_ok_def)
  then have "global_ok options ?prepared sbs g st" using assms(2-5) by (simp add: global_ok_def table_fits_def g)
  moreover have "(\<Sum>l\<leftarrow>replicate n new_parallel_local. mset (local_rest ?s options sbs l)) = {#}"
    by (rule sum_list_none) (simp add: local_rest_def new_parallel_local_def)
  ultimately show ?thesis
    by (simp add: parallel_inv_def parallel_start_def local_ok_def new_parallel_local_def unclaimed_def g)
qed

lemma parallel_reachable:
  assumes "(parallel_step options)\<^sup>*\<^sup>* c0 c" "parallel_inv s options prepared sbs c0"
  shows "parallel_inv s options prepared sbs c \<and> length (pc_locals c) = length (pc_locals c0)"
  using assms
proof (induction rule: rtranclp_induct)
  case (step c c')
  from step.hyps(2) obtain w res out where "w < length (pc_locals c)" "w \<notin> pc_done c"
      "parallel_body options (pc_global c) (pc_locals c ! w) out (pc_table c) = Inr res" "c' = worker_passed w res c"
    by (blast elim: parallel_stepE)
  moreover from this step have "parallel_inv s options prepared sbs c'" using parallel_pass by blast
  ultimately show ?case using step by (simp add: worker_passed_def split: prod.splits)
qed simp

lemma parallel_steps_bounded:
  assumes "(parallel_step options ^^ k) c0 c" "parallel_inv s options prepared sbs c0"
  shows "parallel_inv s options prepared sbs c \<and> k + parallel_work sbs c \<le> parallel_work sbs c0"
  using assms
proof (induction k arbitrary: c)
  case (Suc k)
  then obtain b where b: "(parallel_step options ^^ k) c0 b" "parallel_step options b c" by auto
  from b(2) obtain w res out where "w < length (pc_locals b)" "w \<notin> pc_done b"
      "parallel_body options (pc_global b) (pc_locals b ! w) out (pc_table b) = Inr res" "c = worker_passed w res b"
    by (blast elim: parallel_stepE)
  then show ?case using Suc.IH [OF b(1) Suc.prems(2)] parallel_pass by fastforce
qed simp

lemma parallel_all_done:
  assumes "parallel_inv s options prepared sbs c" "pc_done c = {..<length (pc_locals c)}" "pc_locals c \<noteq> []"
  shows "mset (concat (map active_rows (pc_batches c))) = mset (selected s options (rows_of sbs))"
proof -
  have idle: "\<forall>w<length (pc_locals c). \<not> pl_has_segment (pc_locals c ! w) \<and> length sbs \<le> pg_next_segment (pc_global c)"
    using assms by (auto simp: parallel_inv_def)
  then have "unclaimed s options sbs (pc_global c) = []" using assms(3) by (auto simp: unclaimed_def rows_of_def selected_def)
  moreover have "\<forall>l\<in>set (pc_locals c). local_rest s options sbs l = []" using idle by (auto simp: local_rest_def in_set_conv_nth)
  then have "(\<Sum>l\<leftarrow>pc_locals c. mset (local_rest s options sbs l)) = {#}" by (intro sum_list_none) simp
  ultimately show ?thesis using assms(1) by (simp add: parallel_inv_def)
qed

text \<open>A worker that is not done can always make its next pass: no interleaving blocks it and no pass fails.\<close>

lemma parallel_progress:
  assumes "parallel_inv s options prepared sbs c" "w < length (pc_locals c)" "w \<notin> pc_done c"
  shows "\<exists>res. parallel_body options (pc_global c) (pc_locals c ! w) out (pc_table c) = Inr res \<and>
    parallel_step options c (worker_passed w res c)"
proof -
  have "global_ok options prepared sbs (pc_global c) (pc_table c)" "local_ok (tst_schema (pc_table c)) options prepared sbs (pc_locals c ! w)"
    using assms by (simp_all add: parallel_inv_def)
  from pass_cases [OF this] obtain res where "parallel_body options (pc_global c) (pc_locals c ! w) out (pc_table c) = Inr res" by blast
  then show ?thesis using assms(2,3) parallel_step.pass by blast
qed

lemma parallel_finishes:
  assumes "parallel_inv s options prepared sbs c0"
  shows "\<exists>c. (parallel_step options)\<^sup>*\<^sup>* c0 c \<and> pc_done c = {..<length (pc_locals c0)}"
  using assms
proof (induction "parallel_work sbs c0" arbitrary: c0 rule: less_induct)
  case less
  show ?case
  proof (cases "pc_done c0 = {..<length (pc_locals c0)}")
    case False
    then obtain w where w: "w < length (pc_locals c0)" "w \<notin> pc_done c0" using less.prems by (auto simp: parallel_inv_def)
    obtain res where res: "parallel_body options (pc_global c0) (pc_locals c0 ! w) undefined (pc_table c0) = Inr res"
        "parallel_step options c0 (worker_passed w res c0)"
      using parallel_progress [OF less.prems w] by blast
    have len: "length (pc_locals (worker_passed w res c0)) = length (pc_locals c0)"
      by (simp add: worker_passed_def split: prod.splits)
    from parallel_pass [OF less.prems w res(1)] less.hyps [of "worker_passed w res c0"]
    show ?thesis using res(2) unfolding len by (meson converse_rtranclp_into_rtranclp)
  qed auto
qed

lemma parallel_scan_finishes:
  assumes "CreateParallelScanState options st = Inr g" "disk_ok st sbs" "Suc (length sbs) < 2 ^ 32"
    and "scan_fits (tst_schema st) options (if so_predicates options = [] then None else Some ps)"
    and "\<forall>(sid, sb)\<in>set sbs. prunable_segment (tst_schema st) options sb"
  shows "\<exists>c. (parallel_step options)\<^sup>*\<^sup>* (parallel_start g n st) c \<and> pc_done c = {..<n}"
  using parallel_finishes [OF parallel_start_inv [OF assms]] by (simp add: parallel_start_def)

text \<open>C12: On segments with exact statistics for the pushed conditions (on INT32 columns, INT64 columns within 53 bits, or DOUBLE columns without NaN) a parallel
  scan neither loses nor repeats a row, whatever the number of workers and whichever way their
  passes interleave: when every worker's call has answered false, the batches handed out hold, as a multiset,
  exactly the matching rows of the written segments.\<close>

theorem parallel_scan_exact:
  assumes "CreateParallelScanState options st = Inr g" "disk_ok st sbs" "Suc (length sbs) < 2 ^ 32"
    and "scan_fits (tst_schema st) options (if so_predicates options = [] then None else Some ps)"
    and "\<forall>(sid, sb)\<in>set sbs. prunable_segment (tst_schema st) options sb"
    and "(parallel_step options)\<^sup>*\<^sup>* (parallel_start g (Suc n) st) c" "pc_done c = {..n}"
  shows "mset (concat (map active_rows (pc_batches c))) = mset (selected (tst_schema st) options (rows_of sbs))"
proof -
  have len: "length (pc_locals (parallel_start g (Suc n) st)) = Suc n" by (simp add: parallel_start_def)
  note inv = parallel_reachable [OF assms(6) parallel_start_inv [OF assms(1-5)], unfolded len]
  have "pc_done c = {..<length (pc_locals c)}" "pc_locals c \<noteq> []" using inv assms(7) by auto
  then show ?thesis using parallel_all_done inv by blast
qed

text \<open>C37: A parallel scan comes to its end: no schedule makes more passes than the bound below, and as long as some
  worker is not done it can make a pass, which does not fail.\<close>

theorem parallel_scan_terminates:
  assumes "CreateParallelScanState options st = Inr g" "disk_ok st sbs" "Suc (length sbs) < 2 ^ 32"
    and "scan_fits (tst_schema st) options (if so_predicates options = [] then None else Some ps)"
    and "\<forall>(sid, sb)\<in>set sbs. prunable_segment (tst_schema st) options sb"
    and "(parallel_step options ^^ k) (parallel_start g n st) c"
  shows "k \<le> length sbs * 2 ^ 18 + n \<and>
    (\<forall>w<n. w \<in> pc_done c \<or> (\<exists>res. parallel_body options (pc_global c) (pc_locals c ! w) out (pc_table c) = Inr res \<and>
       parallel_step options c (worker_passed w res c)))"
proof -
  let ?c = "parallel_start g n st"
  note start = parallel_start_inv [OF assms(1-5), of n]
  have "(parallel_step options)\<^sup>*\<^sup>* ?c c" using assms(6) by (rule relpowp_imp_rtranclp)
  then have inv: "parallel_inv (tst_schema st) options (if so_predicates options = [] then None else Some ps) sbs c"
      "length (pc_locals c) = n"
    using parallel_reachable [OF _ start] by (simp_all add: parallel_start_def)
  have "parallel_work sbs ?c \<le> length sbs * 2 ^ 18 + n"
    by (simp add: parallel_work_def parallel_start_def local_work_def new_parallel_local_def global_work_def sum_list_replicate)
  then have "k \<le> length sbs * 2 ^ 18 + n" using parallel_steps_bounded [OF assms(6) start] by linarith
  then show ?thesis using parallel_progress [OF inv(1)] inv(2) by blast
qed

end
