(* ===== verification/Operators.thy ===== *)
theory Operators
  imports Vector_Expression Database Parallel_Scan
begin

text \<open>
  \<^verbatim>\<open>execution/operator.h\<close>, \<^verbatim>\<open>batch_utils.h\<close>, \<^verbatim>\<open>scan/seq_scan.{h,cpp}\<close>, \<^verbatim>\<open>scan/index_scan.{h,cpp}\<close> and
  \<^verbatim>\<open>filter/filter.{h,cpp}\<close>: the pull interface of the operators, their leaves and the filter.  A call of
  \<open>Next\<close> takes a state to a batch, or to no batch at the end, and to the next state; \<open>None\<close> is a call that
  does not return.  Every operator clears the batch it is given, so it is a result only.
\<close>

subsection \<open>Batches and operators\<close>

definition ActiveRowCount :: "vector_batch \<Rightarrow> nat" where
  "ActiveRowCount b = vb_size b"

text \<open>The rows \<open>ForEachActiveRow\<close> calls its function on.\<close>

definition ForEachActiveRow :: "vector_batch \<Rightarrow> nat list" where
  "ForEachActiveRow b = (if IsDense b then [0..<vb_size b] else ForEachSetBit (vb_selection b))"

definition ClearBatch :: "vector_batch \<Rightarrow> vector_batch" where
  "ClearBatch b = Batch_Reset b"

type_synonym 's operator_next = "'s \<Rightarrow> (vector_batch option \<times> 's) result option"

subsection \<open>The sequential scan\<close>

record seq_scan =
  sq_table_id :: table_id
  sq_options :: scan_options
  sq_parallel :: "parallel_global option"
  sq_local :: parallel_local
  sq_table :: "table_storage option"
  sq_cursor :: scan_cursor

definition new_seq_scan :: "table_id \<Rightarrow> scan_options \<Rightarrow> parallel_global option \<Rightarrow> seq_scan" where
  "new_seq_scan i options g = \<lparr>sq_table_id = i, sq_options = options, sq_parallel = g,
     sq_local = new_parallel_local, sq_table = None, sq_cursor = new_scan_cursor\<rparr>"

definition SeqScan_Init :: "database \<Rightarrow> seq_scan \<Rightarrow> (seq_scan \<times> database) result" where
  "SeqScan_Init db op =
     (case GetTableById (sq_table_id op) (db_catalog db) of
        None \<Rightarrow> Inl (Runtime_error (''SeqScanOperator: table not found: '' @ nat_str (unat (sq_table_id op))))
      | Some e \<Rightarrow> bind_r (Storage_GetTable (sq_table_id op) (te_schema e) (db_storage db)) (\<lambda>(storage, sm).
          case storage of
            None \<Rightarrow> Inl (Runtime_error (''SeqScanOperator: table storage not found: '' @ nat_str (unat (sq_table_id op))))
          | Some t \<Rightarrow> Inr (op\<lparr>sq_table := Some t, sq_cursor := new_scan_cursor, sq_local := new_parallel_local\<rparr>,
                          db\<lparr>db_storage := sm\<rparr>)))"

definition SeqScan_Next :: "seq_scan operator_next" where
  "SeqScan_Next op =
     (case sq_table op of
        None \<Rightarrow> Some (Inl (Runtime_error ''SeqScanOperator::Next called before Init''))
      | Some t \<Rightarrow>
          (case sq_parallel op of
             Some g \<Rightarrow> Option.bind (ScanParallel (sq_options op) g (sq_local op) (ClearBatch empty_batch) t) (\<lambda>r.
               Some (bind_r r (\<lambda>(got, g, l, out, t).
                 Inr (if got then Some out else None, op\<lparr>sq_parallel := Some g, sq_local := l, sq_table := Some t\<rparr>))))
           | None \<Rightarrow> Option.bind (Scan (sq_options op) (sq_cursor op) (ClearBatch empty_batch) t) (\<lambda>r.
               Some (bind_r r (\<lambda>(got, cursor, out, t).
                 Inr (if got then Some out else None, op\<lparr>sq_cursor := cursor, sq_table := Some t\<rparr>))))))"

subsection \<open>The index scan\<close>

record segment_group =
  gr_segment_id :: segment_id
  gr_row_offsets :: "u32 list"

record index_scan =
  ix_table_id :: table_id
  ix_key_id :: key_id
  ix_lookup_values :: "scalar_value list"
  ix_columns :: "column_id list"
  ix_residual :: "condition list"
  ix_table :: "table_storage option"
  ix_groups :: "segment_group list"
  ix_next_group :: nat
  ix_next_offset :: nat
  ix_prepared :: "prepared_predicate list option"

text \<open>The order of the sort: by segment and then by offset, both of 32 bits.\<close>

definition location_key :: "row_location \<Rightarrow> nat" where
  "location_key l = unat (rl_segment_id l) * 2 ^ 32 + unat (rl_row_offset l)"

text \<open>The groups from the last one on, so the current group is the head of the list.\<close>

fun group_locations :: "row_location list \<Rightarrow> segment_group list \<Rightarrow> segment_group list" where
  "group_locations [] groups = rev groups"
| "group_locations (l # ls) groups =
     (case groups of
        g # gs \<Rightarrow>
          if gr_segment_id g = rl_segment_id l
          then group_locations ls (g\<lparr>gr_row_offsets := gr_row_offsets g @ [rl_row_offset l]\<rparr> # gs)
          else group_locations ls (\<lparr>gr_segment_id = rl_segment_id l, gr_row_offsets = [rl_row_offset l]\<rparr> # groups)
      | [] \<Rightarrow> group_locations ls [\<lparr>gr_segment_id = rl_segment_id l, gr_row_offsets = [rl_row_offset l]\<rparr>])"

definition IndexScan_Init :: "database \<Rightarrow> index_scan \<Rightarrow> (index_scan \<times> database) result" where
  "IndexScan_Init db op =
     (case GetTableById (ix_table_id op) (db_catalog db) of
        None \<Rightarrow> Inl (Runtime_error (''IndexScanOperator: table not found: '' @ nat_str (unat (ix_table_id op))))
      | Some e \<Rightarrow>
          (case FindKeySchema (te_schema e) (ix_key_id op) of
             None \<Rightarrow> Inl (Runtime_error (''IndexScanOperator: key not found: '' @ nat_str (unat (ix_key_id op))))
           | Some key \<Rightarrow> bind_r (Storage_GetTable (ix_table_id op) (te_schema e) (db_storage db)) (\<lambda>(storage, sm).
               case storage of
                 None \<Rightarrow> Inl (Runtime_error (''IndexScanOperator: table storage not found: '' @ nat_str (unat (ix_table_id op))))
               | Some t \<Rightarrow> bind_r (Encode_values (te_schema e) key (ix_lookup_values op)) (\<lambda>encoded.
                   let locations = sort_key location_key (Table_Lookup (ix_key_id op) encoded t);
                       op = op\<lparr>ix_table := Some t, ix_groups := group_locations locations [], ix_next_group := 0, ix_next_offset := 0\<rparr> in
                   bind_r (if ix_residual op = [] then Inr (ix_prepared op)
                           else bind_r (Build \<lparr>so_start_row = 0, so_end_row = - 1, so_columns = ix_columns op,
                                               so_predicates = ix_residual op\<rparr> (te_schema e)) (\<lambda>ps. Inr (Some ps)))
                     (\<lambda>prepared. Inr (op\<lparr>ix_prepared := prepared\<rparr>, db\<lparr>db_storage := sm\<rparr>))))))"

text \<open>The filter of one batch by the residual predicates, all of them on every row.\<close>

definition residual_filter :: "prepared_predicate list option \<Rightarrow> vector_batch \<Rightarrow> vector_batch result" where
  "residual_filter prepared batch =
     (case prepared of
        None \<Rightarrow> Inr batch
      | Some ps \<Rightarrow> if ps = [] then Inr batch else Row_Filter_Apply ps (replicate (length ps) 1) batch)"

function IndexScan_loop :: "index_scan \<Rightarrow> table_storage \<Rightarrow> (vector_batch option \<times> index_scan \<times> table_storage) result" where
  "IndexScan_loop op t =
     (if length (ix_groups op) \<le> ix_next_group op then Inr (None, op, t)
      else
        let group = ix_groups op ! ix_next_group op;
            remaining = length (gr_row_offsets group) - ix_next_offset op in
        if remaining = 0 then IndexScan_loop (op\<lparr>ix_next_group := ix_next_group op + 1, ix_next_offset := 0\<rparr>) t
        else
          let count = min kVectorBatchSize remaining;
              offsets = take count (drop (ix_next_offset op) (gr_row_offsets group));
              op = op\<lparr>ix_next_offset := ix_next_offset op + count\<rparr> in
          bind_r (ReadRows (gr_segment_id group) offsets (ix_columns op) (ClearBatch empty_batch) t) (\<lambda>(ok, batch, t).
            if \<not> ok then Inl (Runtime_error (''IndexScanOperator: failed to read rows from segment '' @
                                             nat_str (unat (gr_segment_id group))))
            else bind_r (residual_filter (ix_prepared op) batch) (\<lambda>batch.
              if vb_size batch = 0 then IndexScan_loop op t else Inr (Some batch, op, t))))"
  by pat_completeness auto
termination
  by (relation "measures [\<lambda>(op, t). length (ix_groups op) - ix_next_group op,
      \<lambda>(op, t). length (gr_row_offsets (ix_groups op ! ix_next_group op)) - ix_next_offset op]")
    (auto simp: kVectorBatchSize_def)

declare IndexScan_loop.simps [simp del]

definition IndexScan_Next :: "index_scan operator_next" where
  "IndexScan_Next op =
     (case ix_table op of
        None \<Rightarrow> Some (Inl (Runtime_error ''IndexScanOperator::Next called before Init''))
      | Some t \<Rightarrow> Some (bind_r (IndexScan_loop op t) (\<lambda>(batch, op, t). Inr (batch, op\<lparr>ix_table := Some t\<rparr>))))"

subsection \<open>The filter\<close>

text \<open>\<open>child\<close> is the \<open>Next\<close> of the child operator; \<open>p\<close> the predicate that \<open>Init\<close> compiles.\<close>

partial_function (option) Filter_Next :: "'s operator_next \<Rightarrow> vector_predicate \<Rightarrow> 's operator_next" where
  "Filter_Next child p s =
     Option.bind (child s) (\<lambda>r.
       case r of
         Inl e \<Rightarrow> Some (Inl e)
       | Inr (None, s) \<Rightarrow> Some (Inr (None, s))
       | Inr (Some batch, s) \<Rightarrow>
           if PhysicalSize batch = 0 then Filter_Next child p s
           else (case Vector_Predicate.Evaluate p batch (PhysicalSize batch) (vb_selection batch) of
                   Inl e \<Rightarrow> Some (Inl e)
                 | Inr m \<Rightarrow>
                     if Mask_Empty m then Filter_Next child p s
                     else Some (Inr (Some (if IsAll m then SetIdentitySelection (PhysicalSize batch) batch else SetSelection m batch), s))))"

subsection \<open>The contract of an operator\<close>

text \<open>
  \<open>ready\<close> states call \<open>Next\<close> without an error, \<open>rows\<close> are what the operator has still to deliver: every
  batch is valid and not empty and delivers the first of them; at the end none is left.  The batches have
  columns of the types \<open>types\<close>.
\<close>

locale batch_operator =
  fixes Next :: "'s operator_next"
    and ready :: "'s \<Rightarrow> bool"
    and rows :: "'s \<Rightarrow> bytes list list"
    and types :: "data_type list"
  assumes returns: "ready s \<Longrightarrow> \<exists>b s'. Next s = Some (Inr (b, s'))"
    and delivers: "ready s \<Longrightarrow> Next s = Some (Inr (Some b, s')) \<Longrightarrow>
      ready s' \<and> batch_ok b \<and> map cd_type (vb_columns b) = types \<and> active_rows b \<noteq> [] \<and> rows s = active_rows b @ rows s'"
    and ends: "ready s \<Longrightarrow> Next s = Some (Inr (None, s')) \<Longrightarrow> rows s = []"

text \<open>The loop of a caller: all batches, in order.\<close>

partial_function (option) drain_batches :: "'s operator_next \<Rightarrow> 's \<Rightarrow> vector_batch list result option" where
  "drain_batches nxt s =
     Option.bind (nxt s) (\<lambda>r.
       case r of
         Inl e \<Rightarrow> Some (Inl e)
       | Inr (None, s) \<Rightarrow> Some (Inr [])
       | Inr (Some b, s) \<Rightarrow> Option.bind (drain_batches nxt s) (\<lambda>bs. Some (map_sum id ((#) b) bs)))"

context batch_operator begin

lemma drain_batches_rows:
  "ready s \<Longrightarrow> \<exists>bs. drain_batches Next s = Some (Inr bs) \<and> concat (map active_rows bs) = rows s \<and> (\<forall>b\<in>set bs. batch_ok b \<and> vb_size b \<noteq> 0)"
proof (induction "length (rows s)" arbitrary: s rule: less_induct)
  case less
  obtain b s' where b: "Next s = Some (Inr (b, s'))" using returns [OF less.prems] by blast
  show ?case
  proof (cases b)
    case None
    then show ?thesis using b ends [OF less.prems] by (subst drain_batches.simps) simp
  next
    case (Some batch)
    note d = delivers [OF less.prems b [unfolded Some]]
    then have "length (rows s') < length (rows s)" by simp
    from less.hyps [OF this] d obtain bs where bs: "drain_batches Next s' = Some (Inr bs)" "concat (map active_rows bs) = rows s'"
      "\<forall>b\<in>set bs. batch_ok b \<and> vb_size b \<noteq> 0" by blast
    have "length (active_rows batch) = vb_size batch"
      using d by (simp add: active_rows_def batch_ok_def Mask_Count_length ForEachSetBit_rows)
    then have "vb_size batch \<noteq> 0" using d by (metis length_0_conv)
    then show ?thesis using b Some bs d by (subst drain_batches.simps) simp
  qed
qed

end
subsection \<open>Expressions on rows\<close>

text \<open>
  An expression looks at one row only, so it has a value on the cells of a row, which is its value on the
  batch of this single row.
\<close>

definition row_column :: "data_type \<Rightarrow> bytes \<Rightarrow> column_data" where
  "row_column ty c = \<lparr>cd_type = ty, cd_buffer = c, cd_count = 1, cd_is_view = False\<rparr>"

definition row_batch :: "data_type list \<Rightarrow> bytes list \<Rightarrow> vector_batch" where
  "row_batch types row = \<lparr>vb_columns = map2 row_column types row, vb_size = 1, vb_selection = SetAll 1\<rparr>"

definition row_eval :: "data_type list \<Rightarrow> exec_expr \<Rightarrow> bytes list \<Rightarrow> exec_value result" where
  "row_eval types e row = Eval e (row_batch types row) 0"

definition row_holds :: "data_type list \<Rightarrow> exec_expr \<Rightarrow> bytes list \<Rightarrow> bool" where
  "row_holds types e row \<longleftrightarrow> truth e (row_batch types row) 0 = Inr True"

text \<open>The row has the columns of the expression, with no NaN in them, and its condition has an answer.\<close>

definition row_expr_ok :: "data_type list \<Rightarrow> exec_expr \<Rightarrow> bytes list \<Rightarrow> bool" where
  "row_expr_ok types e row \<longleftrightarrow> expr_ok 1 [0] (row_batch types row) e"

definition row_condition_ok :: "data_type list \<Rightarrow> exec_expr \<Rightarrow> bytes list \<Rightarrow> bool" where
  "row_condition_ok types e row \<longleftrightarrow> row_expr_ok types e row \<and> (\<exists>b. truth e (row_batch types row) 0 = Inr b)"

definition batch_row :: "vector_batch \<Rightarrow> nat \<Rightarrow> bytes list" where
  "batch_row b i = map (\<lambda>c. column_cells c ! i) (vb_columns b)"

lemma active_rows_batch: "active_rows b = map (batch_row b) (mask_rows (vb_selection b))"
  by (simp add: active_rows_def batch_row_def)

lemma row_batch_column:
  assumes "batch_ok b" "i < mask_row_count (vb_selection b)" "map cd_type (vb_columns b) = types"
  shows "length (vb_columns (row_batch types (batch_row b i))) = length (vb_columns b)"
    and "slot < length (vb_columns b) \<Longrightarrow> vb_columns (row_batch types (batch_row b i)) ! slot =
      row_column (cd_type (vb_columns b ! slot)) (cell (TypeElemSize (cd_type (vb_columns b ! slot))) (cd_buffer (vb_columns b ! slot)) i)"
proof -
  have count: "cd_count c = mask_row_count (vb_selection b)" if "c \<in> set (vb_columns b)" for c
    using assms(1) that by (auto simp: batch_ok_def list_all_iff column_ok_def)
  show "length (vb_columns (row_batch types (batch_row b i))) = length (vb_columns b)"
    using assms(3) by (auto simp: row_batch_def batch_row_def)
  show "vb_columns (row_batch types (batch_row b i)) ! slot =
      row_column (cd_type (vb_columns b ! slot)) (cell (TypeElemSize (cd_type (vb_columns b ! slot))) (cd_buffer (vb_columns b ! slot)) i)"
    if "slot < length (vb_columns b)"
    using assms(2,3) that count [OF nth_mem [OF that]] by (auto simp: row_batch_def batch_row_def column_cells_def)
qed

lemma cell_0 [simp]: "cell k (cell k bs i) 0 = cell k bs i"
  by (simp add: cell_def)

lemma Eval_row:
  assumes "batch_ok b" "i < mask_row_count (vb_selection b)" "map cd_type (vb_columns b) = types"
  shows "Eval e b i = row_eval types e (batch_row b i)"
proof (induction e)
  case (ExecColumnRef slot ty)
  show ?case
  proof (cases "slot < length (vb_columns b)")
    case True
    have "cd_count (vb_columns b ! slot) = mask_row_count (vb_selection b)"
      using assms(1) True by (auto simp: batch_ok_def list_all_length column_ok_def)
    then have "ReadExecValue (vb_columns b ! slot) i = ReadExecValue (row_column (cd_type (vb_columns b ! slot))
        (cell (TypeElemSize (cd_type (vb_columns b ! slot))) (cd_buffer (vb_columns b ! slot)) i)) 0"
      using assms(2) by (simp add: ReadExecValue_def row_column_def)
    then show ?thesis using True row_batch_column [OF assms] by (simp add: row_eval_def)
  next
    case False
    then show ?thesis using row_batch_column(1) [OF assms] by (simp add: row_eval_def)
  qed
next
  case (ExecBinary op l r ty)
  then show ?case by (simp only: Eval.simps row_eval_def)
qed (simp add: row_eval_def)

lemma truth_row:
  assumes "batch_ok b" "i < mask_row_count (vb_selection b)" "map cd_type (vb_columns b) = types"
  shows "truth e b i = truth e (row_batch types (batch_row b i)) 0"
  using Eval_row [OF assms] by (simp add: truth_def row_eval_def)

lemma mask_rows_less: "i \<in> set (mask_rows m) \<Longrightarrow> i < mask_row_count m \<and> Mask_Test m i"
  by (simp add: mask_rows_def)

lemma batch_expr_ok:
  assumes b: "batch_ok b" "map cd_type (vb_columns b) = types" "active_rows b \<noteq> []"
    and rows: "\<forall>row\<in>set (active_rows b). row_expr_ok types e row"
  shows "mask_expr_ok (vb_selection b) b e"
  using rows
proof (induction e)
  case (ExecColumnRef slot ty)
  let ?c = "vb_columns b ! slot" and ?n = "mask_row_count (vb_selection b)"
  have ok: "slot < length (vb_columns b) \<and> cd_type ?c = ty \<and> ty \<noteq> DT_INVALID \<and>
      \<not> is_nan_value (cell_value ty (cell (TypeElemSize ty) (cd_buffer ?c) i))" if i: "i \<in> set (mask_rows (vb_selection b))" for i
  proof -
    have "row_expr_ok types (ExecColumnRef slot ty) (batch_row b i)"
      using ExecColumnRef i by (simp add: active_rows_batch)
    moreover have "i < ?n" using mask_rows_less [OF i] by simp
    ultimately show ?thesis using row_batch_column(1) [OF b(1) _ b(2), of i] row_batch_column(2) [OF b(1) _ b(2), of i slot]
      by (auto simp: row_expr_ok_def readable_column_def row_column_def)
  qed
  moreover obtain i where "i \<in> set (mask_rows (vb_selection b))"
    using b(3) by (metis active_rows_batch last_in_set list.map_disc_iff)
  moreover have "column_ok ?n ?c" if "slot < length (vb_columns b)" using b(1) that by (simp add: batch_ok_def list_all_length)
  ultimately show ?case by (auto simp: readable_column_def list_all_iff)
next
  case (ExecLiteral v ty)
  then show ?case using b(3) by (cases "active_rows b") (auto simp: row_expr_ok_def)
next
  case (ExecBinary op l r ty)
  then show ?case by (auto simp: row_expr_ok_def)
qed

subsection \<open>The filter keeps the rows on which its condition holds\<close>

definition filter_ready :: "('s \<Rightarrow> bool) \<Rightarrow> ('s \<Rightarrow> bytes list list) \<Rightarrow> data_type list \<Rightarrow> exec_expr \<Rightarrow> 's \<Rightarrow> bool" where
  "filter_ready ready rows types e s \<longleftrightarrow> ready s \<and> (\<forall>row\<in>set (rows s). row_condition_ok types e row)"

definition filter_rows :: "('s \<Rightarrow> bytes list list) \<Rightarrow> data_type list \<Rightarrow> exec_expr \<Rightarrow> 's \<Rightarrow> bytes list list" where
  "filter_rows rows types e s = filter (row_holds types e) (rows s)"

lemma filtered_rows:
  assumes b: "batch_ok b" "map cd_type (vb_columns b) = types"
    and m: "mask_inv m" "mask_row_count m = mask_row_count (vb_selection b)"
      "\<And>i. Mask_Test m i \<longleftrightarrow> Mask_Test (vb_selection b) i \<and> truth e b i = Inr True"
    and b': "b' = (if IsAll m then SetIdentitySelection (mask_row_count m) b else SetSelection m b)"
  shows "batch_ok b' \<and> vb_columns b' = vb_columns b \<and> active_rows b' = filter (row_holds types e) (active_rows b)"
proof -
  have n: "mask_row_count m \<le> kVectorBatchSize" using m(1) by (simp add: mask_inv_def)
  have sel: "mask_rows (vb_selection b') = mask_rows m" "mask_inv (vb_selection b')"
      "mask_row_count (vb_selection b') = mask_row_count m" "vb_size b' = Mask_Count (vb_selection b')"
    using n m(1) IsAll_iff [OF m(1)]
    by (simp_all add: b' SetIdentitySelection_def SetSelection_def SetAll_rows_list SetAll_inv Mask_Count_SetAll)
      (auto simp: mask_rows_def filter_id_conv)
  have cols: "vb_columns b' = vb_columns b" by (simp add: b' SetIdentitySelection_def SetSelection_def)
  have "batch_ok b'" using b(1) sel(2-4) m(2) cols by (simp add: batch_ok_def)
  moreover have "mask_rows m = filter (\<lambda>i. row_holds types e (batch_row b i)) (mask_rows (vb_selection b))"
    unfolding mask_rows_def filter_filter m(2)
    by (rule filter_cong) (use m(3) truth_row [OF b(1) _ b(2)] in \<open>auto simp: row_holds_def\<close>)
  then have "active_rows b' = filter (row_holds types e) (active_rows b)"
    using cols by (simp add: active_rows_batch sel(1) filter_map comp_def batch_row_def)
  ultimately show ?thesis using cols by simp
qed

lemma Evaluate_batch:
  assumes "batch_ok b" "map cd_type (vb_columns b) = types" "active_rows b \<noteq> []"
    and "\<forall>row\<in>set (active_rows b). row_condition_ok types e row"
  shows "PhysicalSize b = mask_row_count (vb_selection b) \<and> PhysicalSize b \<noteq> 0 \<and>
    (\<exists>m. Vector_Predicate.Evaluate (CompileVectorPredicate e) b (PhysicalSize b) (vb_selection b) = Inr m \<and> mask_inv m \<and>
      mask_row_count m = mask_row_count (vb_selection b) \<and>
      (\<forall>i. Mask_Test m i \<longleftrightarrow> Mask_Test (vb_selection b) i \<and> truth e b i = Inr True))"
proof -
  have n: "mask_row_count (vb_selection b) \<noteq> 0" using assms(3)
    by (cases "mask_row_count (vb_selection b) = 0") (simp_all add: active_rows_batch mask_rows_def)
  then have size: "PhysicalSize b = mask_row_count (vb_selection b)" by (simp add: PhysicalSize_def)
  have inv: "mask_inv (vb_selection b)" using assms(1) by (simp add: batch_ok_def)
  have "mask_expr_ok (vb_selection b) b e"
    using assms by (intro batch_expr_ok) (auto simp: row_condition_ok_def)
  note agree = CompileVectorPredicate_agrees [OF this inv]
  have "\<exists>v. truth e b i = Inr v" if "Mask_Test (vb_selection b) i" for i
  proof -
    have i: "i \<in> set (mask_rows (vb_selection b))" "i < mask_row_count (vb_selection b)"
      using that Mask_Test_less [OF that] by (simp_all add: mask_rows_def)
    then show ?thesis using assms(4) truth_row [OF assms(1) i(2) assms(2)] by (auto simp: active_rows_batch row_condition_ok_def)
  qed
  with agree n size show ?thesis
    by (cases "Vector_Predicate.Evaluate (CompileVectorPredicate e) b (PhysicalSize b) (vb_selection b)")
      (fastforce simp: agrees_def selects_def)+
qed

text \<open>The contract of an operator together with the condition of a filter above it.\<close>

locale row_filter = batch_operator +
  fixes e :: exec_expr

context row_filter begin

lemma Filter_call:
  assumes "filter_ready ready rows types e s"
  shows "\<exists>b s'. Filter_Next Next (CompileVectorPredicate e) s = Some (Inr (b, s')) \<and>
    (case b of None \<Rightarrow> filter_rows rows types e s = []
     | Some batch \<Rightarrow> filter_ready ready rows types e s' \<and> batch_ok batch \<and> map cd_type (vb_columns batch) = types \<and>
         active_rows batch \<noteq> [] \<and> filter_rows rows types e s = active_rows batch @ filter_rows rows types e s')"
  using assms
proof (induction "length (rows s)" arbitrary: s rule: less_induct)
  case less
  have ready: "ready s" and rows: "\<forall>row\<in>set (rows s). row_condition_ok types e row"
    using less.prems by (simp_all add: filter_ready_def)
  obtain r s' where next': "Next s = Some (Inr (r, s'))" using returns [OF ready] by blast
  show ?case
  proof (cases r)
    case None
    then show ?thesis using next' ends [OF ready] by (subst Filter_Next.simps) (simp add: filter_rows_def)
  next
    case (Some b)
    note d = delivers [OF ready next' [unfolded Some]]
    have ready': "filter_ready ready rows types e s'" using d rows by (auto simp: filter_ready_def)
    obtain m where m: "PhysicalSize b = mask_row_count (vb_selection b)" "PhysicalSize b \<noteq> 0"
        "Vector_Predicate.Evaluate (CompileVectorPredicate e) b (PhysicalSize b) (vb_selection b) = Inr m" "mask_inv m"
        "mask_row_count m = mask_row_count (vb_selection b)"
        "\<And>i. Mask_Test m i \<longleftrightarrow> Mask_Test (vb_selection b) i \<and> truth e b i = Inr True"
      using Evaluate_batch [of b types e] d rows by auto
    define b' where "b' = (if IsAll m then SetIdentitySelection (mask_row_count m) b else SetSelection m b)"
    have step: "Filter_Next Next (CompileVectorPredicate e) s =
        (if Mask_Empty m then Filter_Next Next (CompileVectorPredicate e) s' else Some (Inr (Some b', s')))"
      using next' Some m(1,2,3,5) by (subst Filter_Next.simps) (simp add: b'_def)
    have b': "batch_ok b'" "vb_columns b' = vb_columns b" "active_rows b' = filter (row_holds types e) (active_rows b)"
      using filtered_rows [OF _ _ m(4-6) b'_def] d by simp_all
    have rest: "filter_rows rows types e s = active_rows b' @ filter_rows rows types e s'"
      using d b'(3) by (simp add: filter_rows_def)
    have empty: "Mask_Empty m \<longleftrightarrow> active_rows b' = []"
    proof -
      have "Mask_Empty m \<longleftrightarrow> mask_rows m = []" using Mask_Empty_iff [OF m(4)] Mask_Test_less by (auto simp: mask_rows_def filter_empty_conv)
      moreover have "mask_rows (vb_selection b') = mask_rows m"
        using m(4) IsAll_iff [OF m(4)] by (auto simp: b'_def SetIdentitySelection_def SetSelection_def SetAll_rows_list Test_SetAll mask_inv_def mask_rows_def filter_id_conv)
      ultimately show ?thesis by (simp add: active_rows_batch)
    qed
    show ?thesis
    proof (cases "Mask_Empty m")
      case True
      have "length (rows s') < length (rows s)" using d by simp
      have same: "Filter_Next Next (CompileVectorPredicate e) s = Filter_Next Next (CompileVectorPredicate e) s'"
        "filter_rows rows types e s = filter_rows rows types e s'"
        using step rest empty True by simp_all
      show ?thesis unfolding same by (rule less.hyps [OF \<open>length (rows s') < length (rows s)\<close> ready'])
    next
      case False
      then show ?thesis using step rest empty b' d ready' by simp
    qed
  qed
qed

end

sublocale row_filter \<subseteq> filtered: batch_operator "Filter_Next Next (CompileVectorPredicate e)" "filter_ready ready rows types e"
  "filter_rows rows types e" types
proof unfold_locales
  fix s assume "filter_ready ready rows types e s"
  note call = Filter_call [OF this]
  show "\<exists>b s'. Filter_Next Next (CompileVectorPredicate e) s = Some (Inr (b, s'))" using call by blast
  show "filter_ready ready rows types e s' \<and> batch_ok b \<and> map cd_type (vb_columns b) = types \<and> active_rows b \<noteq> [] \<and>
      filter_rows rows types e s = active_rows b @ filter_rows rows types e s'"
    if "Filter_Next Next (CompileVectorPredicate e) s = Some (Inr (Some b, s'))" for b s' using call that by auto
  show "filter_rows rows types e s = []" if "Filter_Next Next (CompileVectorPredicate e) s = Some (Inr (None, s'))" for s'
    using call that by auto
qed

subsection \<open>The scan as an operator\<close>

text \<open>A serial scan that is initialized, before its first call or between two calls, and the rows it has left.\<close>

definition seq_at ::
  "prepared_predicate list option \<Rightarrow> (segment_id \<times> segment_builder) list \<Rightarrow> table_schema \<Rightarrow> scan_options \<Rightarrow> seq_scan \<Rightarrow> bool" where
  "seq_at prepared sbs s options op \<longleftrightarrow> sq_parallel op = None \<and> sq_options op = options \<and>
     (so_predicates options = [] \<longrightarrow> prepared = None) \<and>
     (\<exists>t. sq_table op = Some t \<and> tst_schema t = s \<and> table_fits options prepared sbs t \<and>
        (sq_cursor op = new_scan_cursor \<or> (\<exists>k. serial_at options prepared sbs t k (sq_cursor op))))"

definition seq_rows ::
  "(segment_id \<times> segment_builder) list \<Rightarrow> table_schema \<Rightarrow> scan_options \<Rightarrow> seq_scan \<Rightarrow> bytes list list" where
  "seq_rows sbs s options op =
     (if sq_cursor op = new_scan_cursor then selected s options (rows_of sbs)
      else serial_rest s options sbs (unat (sc_segment_id (sq_cursor op))) (sq_cursor op))"

abbreviation scan_types :: "table_schema \<Rightarrow> scan_options \<Rightarrow> data_type list" where
  "scan_types s options \<equiv> map (schema_column_type s) (so_columns options)"

lemma serial_at_cursor:
  assumes "serial_at options prepared sbs t k cursor"
  shows "unat (sc_segment_id cursor) = k" "cursor \<noteq> new_scan_cursor"
proof -
  have k: "k < length sbs" "Suc (length sbs) < 2 ^ 32" "sc_segment_id cursor = u32_of k"
    using assms by (simp_all add: serial_at_def table_fits_def)
  then show u: "unat (sc_segment_id cursor) = k" by (simp add: unat_u32_of)
  show "cursor \<noteq> new_scan_cursor"
  proof
    assume "cursor = new_scan_cursor"
    then have "sc_segment_id cursor = 0xFFFFFFFF" by (simp add: new_scan_cursor_def kInvalidSegmentId_def)
    then have "k = 4294967295" using u by simp
    then show False using k(1,2) by simp
  qed
qed

lemma SeqScan_call:
  assumes "seq_at prepared sbs s options op"
  obtains t where "sq_table op = Some t"
    "SeqScan_Next op = Option.bind (Scan options (sq_cursor op) (ClearBatch empty_batch) t) (\<lambda>r.
       Some (bind_r r (\<lambda>(got, cursor, out, t). Inr (if got then Some out else None, op\<lparr>sq_cursor := cursor, sq_table := Some t\<rparr>))))"
    "serial_call options prepared sbs s (seq_rows sbs s options op) (Scan options (sq_cursor op) (ClearBatch empty_batch) t)"
proof -
  obtain t where t: "sq_table op = Some t" "tst_schema t = s" "table_fits options prepared sbs t"
      "sq_cursor op = new_scan_cursor \<or> (\<exists>k. serial_at options prepared sbs t k (sq_cursor op))"
    and op: "sq_parallel op = None" "sq_options op = options" "so_predicates options = [] \<Longrightarrow> prepared = None"
    using assms by (auto simp: seq_at_def)
  have "serial_call options prepared sbs s (seq_rows sbs s options op) (Scan options (sq_cursor op) (ClearBatch empty_batch) t)"
  proof (cases "sq_cursor op = new_scan_cursor")
    case True
    then show ?thesis using Scan_new_cursor [OF t(3) op(3)] t(2) by (simp add: seq_rows_def)
  next
    case False
    then obtain k where k: "serial_at options prepared sbs t k (sq_cursor op)" using t(4) by blast
    then show ?thesis using scan_loop_serial [OF k] serial_ready [OF k] serial_at_cursor [OF k] t(2)
      by (simp add: seq_rows_def)
  qed
  then show thesis using that t(1) op(1,2) by (simp add: SeqScan_Next_def)
qed

interpretation seq: batch_operator SeqScan_Next "seq_at prepared sbs s options" "seq_rows sbs s options" "scan_types s options"
  for prepared sbs s options
proof unfold_locales
  fix op assume at: "seq_at prepared sbs s options op"
  from SeqScan_call [OF at] obtain t where t: "sq_table op = Some t"
    "SeqScan_Next op = Option.bind (Scan options (sq_cursor op) (ClearBatch empty_batch) t) (\<lambda>r.
       Some (bind_r r (\<lambda>(got, cursor, out, t). Inr (if got then Some out else None, op\<lparr>sq_cursor := cursor, sq_table := Some t\<rparr>))))"
    "serial_call options prepared sbs s (seq_rows sbs s options op) (Scan options (sq_cursor op) (ClearBatch empty_batch) t)" .
  obtain got cursor out t' where r: "Scan options (sq_cursor op) (ClearBatch empty_batch) t = Some (Inr (got, cursor, out, t'))"
    using t(3) by (auto simp: serial_call_def)
  have step: "SeqScan_Next op = Some (Inr (if got then Some out else None, op\<lparr>sq_cursor := cursor, sq_table := Some t'\<rparr>))"
    using t(2) r by simp
  show "\<exists>b op'. SeqScan_Next op = Some (Inr (b, op'))" using step by blast
  note call = t(3) [unfolded r serial_call_result]
  show "seq_at prepared sbs s options op' \<and> batch_ok b \<and> map cd_type (vb_columns b) = scan_types s options \<and> active_rows b \<noteq> [] \<and>
      seq_rows sbs s options op = active_rows b @ seq_rows sbs s options op'" if "SeqScan_Next op = Some (Inr (Some b, op'))" for b op'
  proof -
    have g: "got" "b = out" "op' = op\<lparr>sq_cursor := cursor, sq_table := Some t'\<rparr>"
      using that step by (auto split: if_splits)
    then obtain k where k: "serial_at options prepared sbs t' k cursor"
      "seq_rows sbs s options op = active_rows out @ serial_rest s options sbs k cursor" using call by auto
    have "seq_at prepared sbs s options op'"
      using at call k(1) unfolding g(3) by (auto simp: seq_at_def serial_at_def)
    moreover have "seq_rows sbs s options op' = serial_rest s options sbs k cursor"
      using serial_at_cursor [OF k(1)] by (simp add: g(3) seq_rows_def)
    ultimately show ?thesis using call g k(2) by (simp add: scanned_def)
  qed
  show "seq_rows sbs s options op = []" if "SeqScan_Next op = Some (Inr (None, op'))" for op'
    using that step call by (auto split: if_splits)
qed

interpretation seq_filter: row_filter SeqScan_Next "seq_at prepared sbs s options" "seq_rows sbs s options" "scan_types s options" e
  for prepared sbs s options e
  by unfold_locales

lemma SeqScan_Init_at:
  assumes "GetTableById i (db_catalog db) = Some entry" "smg_tables (db_storage db) i = Some t"
    and "table_fits options prepared sbs t" "so_predicates options = [] \<longrightarrow> prepared = None"
  shows "\<exists>op. SeqScan_Init db (new_seq_scan i options None) = Inr (op, db) \<and> seq_at prepared sbs (tst_schema t) options op \<and>
    seq_rows sbs (tst_schema t) options op = selected (tst_schema t) options (rows_of sbs)"
  using assms by (auto simp: SeqScan_Init_def new_seq_scan_def Storage_GetTable_def seq_at_def seq_rows_def)

text \<open>A filter over the scan of a table delivers, in order, exactly the rows that match the pushed
  conditions and on which the condition of the filter is true.
\<close>

theorem filter_over_scan_exact:
  assumes "GetTableById i (db_catalog db) = Some entry" "smg_tables (db_storage db) i = Some t"
    and "table_fits options (if so_predicates options = [] then None else Some ps) sbs t"
    and "\<forall>row\<in>set (selected (tst_schema t) options (rows_of sbs)). row_condition_ok (scan_types (tst_schema t) options) e row"
  shows "\<exists>op bs. SeqScan_Init db (new_seq_scan i options None) = Inr (op, db) \<and>
    drain_batches (Filter_Next SeqScan_Next (CompileVectorPredicate e)) op = Some (Inr bs) \<and>
    concat (map active_rows bs) =
      filter (row_holds (scan_types (tst_schema t) options) e) (selected (tst_schema t) options (rows_of sbs))"
proof -
  let ?p = "if so_predicates options = [] then None else Some ps" and ?s = "tst_schema t"
  obtain op where op: "SeqScan_Init db (new_seq_scan i options None) = Inr (op, db)" "seq_at ?p sbs ?s options op"
      "seq_rows sbs ?s options op = selected ?s options (rows_of sbs)"
    using SeqScan_Init_at [OF assms(1-3)] by auto
  have "filter_ready (seq_at ?p sbs ?s options) (seq_rows sbs ?s options) (scan_types ?s options) e op"
    using op(2,3) assms(4) by (simp add: filter_ready_def)
  from seq_filter.filtered.drain_batches_rows [OF this] show ?thesis using op(1,3) by (auto simp: filter_rows_def)
qed

end
