(* ===== verification/Projection.thy ===== *)
theory Projection
  imports Operators
begin

text \<open>
  \<^verbatim>\<open>src/src/execution/projection/projection.{h,cpp}\<close>: the projection classifies its expressions
  once and produces every batch on one of three paths: a view of the input columns, a dense evaluation, or a
  gather of the selected rows followed by a dense evaluation.
\<close>

subsection \<open>The plan of a projection\<close>

datatype slot_plan =
    DirectColumn nat
  | VectorPlan vector_expression
  | ScalarPlan exec_expr

record projection =
  pj_expressions :: "exec_expr list"
  pj_plans :: "slot_plan list"
  pj_all_direct :: bool
  pj_gather_slots :: "nat list"

definition classify_slot :: "exec_expr \<Rightarrow> slot_plan" where
  "classify_slot e =
     (case e of
        ExecColumnRef slot _ \<Rightarrow> DirectColumn slot
      | _ \<Rightarrow> (case TryCompileVectorExpression e of Some ve \<Rightarrow> VectorPlan ve | None \<Rightarrow> ScalarPlan e))"

definition is_direct :: "slot_plan \<Rightarrow> bool" where
  "is_direct p = (case p of DirectColumn _ \<Rightarrow> True | _ \<Rightarrow> False)"

definition plan_slots :: "slot_plan \<Rightarrow> nat list" where
  "plan_slots p = (case p of VectorPlan ve \<Rightarrow> CollectInputSlots ve | _ \<Rightarrow> [])"

definition Projection_Init :: "exec_expr list \<Rightarrow> projection" where
  "Projection_Init es =
     (let plans = map classify_slot es in
      \<lparr>pj_expressions = es, pj_plans = plans, pj_all_direct = list_all is_direct plans,
       pj_gather_slots = remdups_adj (sort (concat (map plan_slots plans)))\<rparr>)"

subsection \<open>Columns\<close>

text \<open>
  \<open>Resize\<close> hands out a buffer of the size asked for.  The memory is not initialized; every byte is written before
  it is read, so zeros stand for it.
\<close>

definition Column_Resize :: "nat \<Rightarrow> column_data \<Rightarrow> column_data" where
  "Column_Resize n c = c\<lparr>cd_buffer := replicate (n * TypeElemSize (cd_type c)) 0, cd_count := n, cd_is_view := False\<rparr>"

definition input_column :: "vector_batch \<Rightarrow> nat \<Rightarrow> column_data result" where
  "input_column input slot =
     (if length (vb_columns input) \<le> slot then Inl (Runtime_error ''ProjectionOperator: input slot out of range'')
      else Inr (vb_columns input ! slot))"

definition view_column :: "column_data \<Rightarrow> column_data" where
  "view_column src = Column_CopyFrom (cd_buffer src) (cd_count src) True (empty_column (cd_type src))"

text \<open>The row loop of a scalar expression: physical row \<open>r\<close> of the input to row \<open>d\<close> of the output.\<close>

definition write_rows :: "exec_expr \<Rightarrow> vector_batch \<Rightarrow> nat list \<Rightarrow> column_data \<Rightarrow> column_data result" where
  "write_rows e input rows col =
     fold_r (\<lambda>(d, r) c. bind_r (Eval e input r) (\<lambda>v. WriteExecValue c d v)) (zip [0..<length rows] rows) col"

definition scalar_column :: "vector_batch \<Rightarrow> nat list \<Rightarrow> slot_plan \<times> column_data \<Rightarrow> column_data result" where
  "scalar_column input rows pc =
     (case pc of (ScalarPlan e, col) \<Rightarrow> write_rows e input rows col | (_, col) \<Rightarrow> Inr col)"

subsection \<open>The three paths\<close>

definition view_slot :: "vector_batch \<Rightarrow> exec_expr \<Rightarrow> column_data result" where
  "view_slot input e =
     (case e of
        ExecColumnRef slot _ \<Rightarrow> bind_r (input_column input slot) (\<lambda>src. Inr (view_column src))
      | _ \<Rightarrow> Inl Undefined_behaviour)"

definition ProduceViewProjection :: "projection \<Rightarrow> vector_batch \<Rightarrow> vector_batch result" where
  "ProduceViewProjection pj input =
     bind_r (map_r (view_slot input) (pj_expressions pj)) (\<lambda>cols.
       Inr (CopySelectionFrom input (ClearBatch empty_batch\<lparr>vb_columns := cols\<rparr>)))"

definition dense_column :: "vector_batch \<Rightarrow> nat \<Rightarrow> slot_plan \<Rightarrow> column_data result" where
  "dense_column input active plan =
     (case plan of
        DirectColumn slot \<Rightarrow> bind_r (input_column input slot) (\<lambda>src. Inr (view_column src))
      | VectorPlan ve \<Rightarrow> EvaluateDense ve input (Column_Resize active (empty_column (ve_type ve))) active
      | ScalarPlan e \<Rightarrow> Inr (Column_Resize active (empty_column (Exec_GetReturnType e))))"

definition ProduceDenseProjection :: "projection \<Rightarrow> vector_batch \<Rightarrow> vector_batch result" where
  "ProduceDenseProjection pj input =
     (let active = vb_size input in
      bind_r (map_r (dense_column input active) (pj_plans pj)) (\<lambda>cols.
      bind_r (map_r (scalar_column input [0..<active]) (zip (pj_plans pj) cols)) (\<lambda>cols.
        Inr (SetIdentitySelection active (ClearBatch empty_batch\<lparr>vb_columns := cols\<rparr>)))))"

text \<open>The output column that shows an input slot directly, the last one if there are several.\<close>

definition BuildDirectOutputMap :: "slot_plan list \<Rightarrow> nat \<Rightarrow> nat option list" where
  "BuildDirectOutputMap plans slot_count =
     fold (\<lambda>(col, plan) m. case plan of DirectColumn slot \<Rightarrow> if slot < slot_count then m[slot := Some col] else m | _ \<Rightarrow> m)
       (zip [0..<length plans] plans) (replicate slot_count None)"

definition gathered_column ::
  "projection \<Rightarrow> nat option list \<Rightarrow> vector_batch \<Rightarrow> column_data list \<Rightarrow> nat \<Rightarrow> nat \<Rightarrow> column_data result" where
  "gathered_column pj direct input output active slot =
     (let src = vb_columns input ! slot in
      if slot \<notin> set (pj_gather_slots pj) then Inr ((empty_column (cd_type src))\<lparr>cd_count := active\<rparr>)
      else
        (case direct ! slot of
           Some col \<Rightarrow> Inr (Column_CopyFrom (cd_buffer (output ! col)) active True (empty_column (cd_type src)))
         | None \<Rightarrow> bind_r (GatherColumnDense src (vb_selection input)) (\<lambda>bs.
             Inr ((Column_Resize active (empty_column (cd_type src)))\<lparr>cd_buffer := bs\<rparr>))))"

definition BuildGatheredInput ::
  "projection \<Rightarrow> nat option list \<Rightarrow> vector_batch \<Rightarrow> column_data list \<Rightarrow> nat \<Rightarrow> vector_batch result" where
  "BuildGatheredInput pj direct input output active =
     bind_r (map_r (gathered_column pj direct input output active) [0..<length (vb_columns input)]) (\<lambda>cols.
       Inr (SetIdentitySelection active (ClearBatch empty_batch\<lparr>vb_columns := cols\<rparr>)))"

definition sparse_slot :: "vector_batch \<Rightarrow> slot_plan \<Rightarrow> column_data result" where
  "sparse_slot input plan =
     (case plan of
        DirectColumn slot \<Rightarrow> bind_r (input_column input slot) (\<lambda>src. Inr (empty_column (cd_type src)))
      | VectorPlan ve \<Rightarrow> Inr (empty_column (ve_type ve))
      | ScalarPlan e \<Rightarrow> Inr (empty_column (Exec_GetReturnType e)))"

definition gather_direct :: "vector_batch \<Rightarrow> nat \<Rightarrow> slot_plan \<times> column_data \<Rightarrow> column_data result" where
  "gather_direct input active pc =
     (case pc of
        (DirectColumn slot, col) \<Rightarrow> bind_r (GatherColumnDense (vb_columns input ! slot) (vb_selection input)) (\<lambda>bs.
          Inr ((Column_Resize active col)\<lparr>cd_buffer := bs\<rparr>))
      | (_, col) \<Rightarrow> Inr col)"

definition vector_column :: "vector_batch \<Rightarrow> nat \<Rightarrow> slot_plan \<times> column_data \<Rightarrow> column_data result" where
  "vector_column gathered active pc =
     (case pc of (VectorPlan ve, col) \<Rightarrow> EvaluateDense ve gathered (Column_Resize active col) active | (_, col) \<Rightarrow> Inr col)"

definition resize_scalar :: "nat \<Rightarrow> slot_plan \<times> column_data \<Rightarrow> slot_plan \<times> column_data" where
  "resize_scalar active pc = (case pc of (ScalarPlan e, col) \<Rightarrow> (ScalarPlan e, Column_Resize active col) | _ \<Rightarrow> pc)"

definition ProduceSparseProjection :: "projection \<Rightarrow> vector_batch \<Rightarrow> vector_batch result" where
  "ProduceSparseProjection pj input =
     (let active = vb_size input; plans = pj_plans pj;
          direct = BuildDirectOutputMap plans (length (vb_columns input)) in
      bind_r (map_r (sparse_slot input) plans) (\<lambda>cols.
      bind_r (map_r (gather_direct input active) (zip plans cols)) (\<lambda>cols.
      bind_r (if pj_gather_slots pj \<noteq> [] then BuildGatheredInput pj direct input cols active else Inr empty_batch) (\<lambda>gathered.
      bind_r (map_r (vector_column gathered active) (zip plans cols)) (\<lambda>cols.
      bind_r (map_r (\<lambda>pc. scalar_column input (ForEachActiveRow input) (resize_scalar active pc)) (zip plans cols)) (\<lambda>cols.
        Inr (SetIdentitySelection active (ClearBatch empty_batch\<lparr>vb_columns := cols\<rparr>))))))))"

definition produce :: "projection \<Rightarrow> vector_batch \<Rightarrow> vector_batch result" where
  "produce pj input =
     (if pj_all_direct pj then ProduceViewProjection pj input
      else if IsDense input then ProduceDenseProjection pj input
      else ProduceSparseProjection pj input)"

partial_function (option) Projection_Next :: "'s operator_next \<Rightarrow> projection \<Rightarrow> 's operator_next" where
  "Projection_Next child pj s =
     Option.bind (child s) (\<lambda>r.
       case r of
         Inl e \<Rightarrow> Some (Inl e)
       | Inr (None, s) \<Rightarrow> Some (Inr (None, s))
       | Inr (Some input, s) \<Rightarrow>
           if vb_size input = 0 then Projection_Next child pj s
           else Some (bind_r (produce pj input) (\<lambda>out. Inr (Some out, s))))"

subsection \<open>A projection of one row\<close>

fun operand_cell :: "data_type \<Rightarrow> compare_operand \<Rightarrow> bytes list \<Rightarrow> typed_value result" where
  "operand_cell ty (OpColumn _ slot) row = typed_cell ty (row ! slot)"
| "operand_cell ty (OpConstant _ v) row = Inr v"

definition vector_cell :: "vector_expression \<Rightarrow> bytes list \<Rightarrow> bytes result" where
  "vector_cell ve row =
     bind_r (operand_cell (ve_type ve) (ve_lhs ve) row) (\<lambda>a. bind_r (operand_cell (ve_type ve) (ve_rhs ve) row) (\<lambda>b.
       bind_r (ArithmeticTypedValue a (ve_op ve) b) (\<lambda>v. Inr (typed_bytes v))))"

definition project_cell :: "data_type list \<Rightarrow> slot_plan \<Rightarrow> bytes list \<Rightarrow> bytes result" where
  "project_cell types plan row =
     (case plan of
        DirectColumn slot \<Rightarrow> Inr (row ! slot)
      | VectorPlan ve \<Rightarrow> vector_cell ve row
      | ScalarPlan e \<Rightarrow> bind_r (row_eval types e row) (output_bytes (Exec_GetReturnType e)))"

definition plan_type :: "data_type list \<Rightarrow> slot_plan \<Rightarrow> data_type" where
  "plan_type types plan =
     (case plan of DirectColumn slot \<Rightarrow> types ! slot | VectorPlan ve \<Rightarrow> ve_type ve | ScalarPlan e \<Rightarrow> Exec_GetReturnType e)"

definition vector_ok :: "data_type list \<Rightarrow> vector_expression \<Rightarrow> bool" where
  "vector_ok types ve \<longleftrightarrow> numeric_type (ve_type ve) \<and> (is_column (ve_lhs ve) \<or> is_column (ve_rhs ve)) \<and>
     (\<forall>slot\<in>set (CollectInputSlots ve). slot < length types \<and> types ! slot = ve_type ve)"

definition plan_ok :: "data_type list \<Rightarrow> slot_plan \<Rightarrow> bool" where
  "plan_ok types plan \<longleftrightarrow>
     (case plan of DirectColumn slot \<Rightarrow> slot < length types \<and> types ! slot \<noteq> DT_INVALID | VectorPlan ve \<Rightarrow> vector_ok types ve | ScalarPlan _ \<Rightarrow> True)"

definition project_row_cells :: "data_type list \<Rightarrow> slot_plan list \<Rightarrow> bytes list \<Rightarrow> bytes list result" where
  "project_row_cells types plans row = map_r (\<lambda>plan. project_cell types plan row) plans"

text \<open>A column that holds the given cells.\<close>

definition holds_cells :: "data_type \<Rightarrow> bytes list \<Rightarrow> column_data \<Rightarrow> bool" where
  "holds_cells ty xs c \<longleftrightarrow> cd_type c = ty \<and> column_ok (length xs) c \<and> column_cells c = xs"

lemma holds_cellsI:
  assumes "cd_type c = ty" "cd_count c = length xs" "cd_buffer c = concat xs" "\<forall>x\<in>set xs. length x = TypeElemSize ty"
  shows "holds_cells ty xs c"
  using assms cells_concat [OF assms(4)] concat_equal_length [OF assms(4)]
  by (simp add: holds_cells_def column_ok_def column_cells_def)

lemma holds_cells_nth:
  "holds_cells ty xs c \<Longrightarrow> i < length xs \<Longrightarrow> cell (TypeElemSize ty) (cd_buffer c) i = xs ! i"
  by (auto simp: holds_cells_def column_cells_def column_ok_def)

lemma output_bytes_length: "output_bytes ty v = Inr bs \<Longrightarrow> length bs = TypeElemSize ty"
  using WriteVarcharSlot_length
  by (auto simp: output_bytes_def bind_r_Inr_iff split: data_type.splits exec_value.splits)

lemma typed_cell_type: "typed_cell ty c = Inr v \<Longrightarrow> length (typed_bytes v) = TypeElemSize ty"
  by (auto simp: typed_cell_def typed_bytes_def split: data_type.splits)

lemma ArithmeticTypedValue_length:
  "ArithmeticTypedValue a op b = Inr v \<Longrightarrow> length (typed_bytes v) = length (typed_bytes a) \<and> length (typed_bytes v) = length (typed_bytes b)"
  by (auto simp: ArithmeticTypedValue_def typed_bytes_def bind_r_Inr_iff bad_variant_def split: typed_value.splits)

lemma vector_cell_length:
  assumes "vector_cell ve row = Inr bs" "vector_ok types ve"
  shows "length bs = TypeElemSize (ve_type ve)"
proof -
  obtain a b v where v: "operand_cell (ve_type ve) (ve_lhs ve) row = Inr a" "operand_cell (ve_type ve) (ve_rhs ve) row = Inr b"
      "ArithmeticTypedValue a (ve_op ve) b = Inr v" "bs = typed_bytes v"
    using assms(1) by (auto simp: vector_cell_def bind_r_Inr_iff)
  show ?thesis
  proof (cases "is_column (ve_lhs ve)")
    case True
    then show ?thesis using v ArithmeticTypedValue_length [OF v(3)] by (cases "ve_lhs ve") (auto dest: typed_cell_type)
  next
    case False
    then have "is_column (ve_rhs ve)" using assms(2) by (simp add: vector_ok_def)
    then show ?thesis using v ArithmeticTypedValue_length [OF v(3)] by (cases "ve_rhs ve") (auto dest: typed_cell_type)
  qed
qed

subsection \<open>The row loop, the kernels and the gather\<close>

lemma put_cell_next:
  assumes "length buffer = length xs * k" "length bs = k" "k \<le> length rest"
  shows "put_cell k (length xs) bs (buffer @ rest) = (buffer @ bs) @ drop k rest"
  using assms by (simp add: put_cell_def add.commute)

lemma write_rows_from:
  assumes "map_r (\<lambda>r. bind_r (Eval e input r) (output_bytes (cd_type col))) rows = Inr cs"
    and "cd_buffer col = concat xs @ rest" "\<forall>x\<in>set xs. length x = TypeElemSize (cd_type col)"
    and "length rest = length rows * TypeElemSize (cd_type col)" "cd_count col = length xs + length rows"
  shows "fold_r (\<lambda>(d, r) c. bind_r (Eval e input r) (\<lambda>v. WriteExecValue c d v)) (zip [length xs..<length xs + length rows] rows) col =
    Inr (col\<lparr>cd_buffer := concat (xs @ cs)\<rparr>)"
  using assms
proof (induction rows arbitrary: xs rest col cs)
  case Nil
  then show ?case by simp
next
  case (Cons r rows)
  let ?k = "TypeElemSize (cd_type col)"
  obtain v bs cs' where v: "Eval e input r = Inr v" "output_bytes (cd_type col) v = Inr bs"
      "map_r (\<lambda>r. bind_r (Eval e input r) (output_bytes (cd_type col))) rows = Inr cs'" "cs = bs # cs'"
    using Cons.prems(1) by (auto simp: bind_r_Inr_iff)
  have len: "length bs = ?k" by (rule output_bytes_length [OF v(2)])
  let ?col = "col\<lparr>cd_buffer := concat (xs @ [bs]) @ drop ?k rest\<rparr>"
  have "put_cell ?k (length xs) bs (cd_buffer col) = concat (xs @ [bs]) @ drop ?k rest"
    using put_cell_next [OF concat_equal_length [OF Cons.prems(3)] len, of rest] Cons.prems(2,4) by simp
  then have step: "WriteExecValue col (length xs) v = Inr ?col"
    using Cons.prems(5) v(2) by (simp add: WriteExecValue_def)
  have "fold_r (\<lambda>(d, r) c. bind_r (Eval e input r) (\<lambda>v. WriteExecValue c d v))
      (zip [length (xs @ [bs])..<length (xs @ [bs]) + length rows] rows) ?col = Inr (?col\<lparr>cd_buffer := concat ((xs @ [bs]) @ cs')\<rparr>)"
    by (rule Cons.IH) (use v(3) len Cons.prems(3-5) in auto)
  moreover have "[length xs..<length xs + length (r # rows)] = length xs # [length (xs @ [bs])..<length (xs @ [bs]) + length rows]"
    by (simp add: upt_conv_Cons del: upt_Suc)
  ultimately show ?case using v(1,4) step by (simp del: upt_Suc)
qed

lemma write_rows_cells:
  assumes "map_r (\<lambda>r. bind_r (Eval e input r) (output_bytes ty)) rows = Inr cs"
  shows "\<exists>c. write_rows e input rows (Column_Resize (length rows) (empty_column ty)) = Inr c \<and> holds_cells ty cs c"
proof -
  let ?col = "Column_Resize (length rows) (empty_column ty)"
  have "write_rows e input rows ?col = Inr (?col\<lparr>cd_buffer := concat ([] @ cs)\<rparr>)"
    unfolding write_rows_def using assms write_rows_from [of e input ?col rows cs "[]"]
    by (simp add: Column_Resize_def empty_column_def)
  moreover have "holds_cells ty cs (?col\<lparr>cd_buffer := concat ([] @ cs)\<rparr>)"
    by (rule holds_cellsI) (use assms map_r_length [OF assms] map_r_set [OF assms] output_bytes_length in
      \<open>auto simp: Column_Resize_def empty_column_def bind_r_Inr_iff\<close>)
  ultimately show ?thesis by blast
qed

lemma map_r_map: "map_r f (map g xs) = map_r (\<lambda>x. f (g x)) xs"
  by (induction xs) simp_all

lemma map_r_index: "map_r f xs = map_r (\<lambda>i. f (xs ! i)) [0..<length xs]"
  using map_r_map [of f "(!) xs" "[0..<length xs]"] by (simp add: map_nth)

text \<open>The slots an expression reads hold the cells of the rows.\<close>

definition slots_hold :: "vector_expression \<Rightarrow> vector_batch \<Rightarrow> bytes list list \<Rightarrow> bool" where
  "slots_hold ve b rows \<longleftrightarrow> (\<forall>slot\<in>set (CollectInputSlots ve). slot < length (vb_columns b) \<and>
     holds_cells (ve_type ve) (map (\<lambda>row. row ! slot) rows) (vb_columns b ! slot))"

lemma evaluate_cells_of_rows:
  assumes "slots_hold ve b rows" "vector_ok types ve"
  shows "evaluate_cells ve b (length rows) = map_r (vector_cell ve) rows"
proof -
  have ptr: "ColumnDataPtr b (ve_type ve) (length rows) slot = Inr (cd_buffer (vb_columns b ! slot))"
    and cells: "\<And>i. i < length rows \<Longrightarrow> cell (TypeElemSize (ve_type ve)) (cd_buffer (vb_columns b ! slot)) i = rows ! i ! slot"
    if "slot \<in> set (CollectInputSlots ve)" for slot
  proof -
    have h: "slot < length (vb_columns b)" "holds_cells (ve_type ve) (map (\<lambda>row. row ! slot) rows) (vb_columns b ! slot)"
      using assms(1) that by (simp_all add: slots_hold_def)
    then show "ColumnDataPtr b (ve_type ve) (length rows) slot = Inr (cd_buffer (vb_columns b ! slot))"
      by (auto simp: ColumnDataPtr_def holds_cells_def column_ok_def)
    show "cell (TypeElemSize (ve_type ve)) (cd_buffer (vb_columns b ! slot)) i = rows ! i ! slot" if "i < length rows" for i
      using holds_cells_nth [OF h(2), of i] that by simp
  qed
  have typed: "\<exists>v. typed_cell (ve_type ve) c = Inr v" for c
    using assms(2) by (auto simp: vector_ok_def numeric_type_def typed_cell_def)
  have num: "numeric_type (ve_type ve)" "is_column (ve_lhs ve) \<or> is_column (ve_rhs ve)" using assms(2) by (simp_all add: vector_ok_def)
  show ?thesis
  proof (cases "ve_lhs ve")
    case L: (OpColumn lt a)
    then have a: "a \<in> set (CollectInputSlots ve)" by (simp add: CollectInputSlots_def)
    show ?thesis
    proof (cases "ve_rhs ve")
      case R: (OpColumn rt b')
      then have "b' \<in> set (CollectInputSlots ve)" by (simp add: CollectInputSlots_def)
      then show ?thesis using num L R ptr a cells
        by (auto simp: evaluate_cells_def ArithmeticColumnScalar_def map_r_index [of "vector_cell ve" rows] vector_cell_def intro!: map_r_cong)
    next
      case R: (OpConstant rt v)
      then show ?thesis using num L ptr a cells
        by (auto simp: evaluate_cells_def ArithmeticConstScalar_def map_r_index [of "vector_cell ve" rows] vector_cell_def intro!: map_r_cong)
    qed
  next
    case L: (OpConstant lt v)
    then obtain rt b' where R: "ve_rhs ve = OpColumn rt b'" using num(2) by (cases "ve_rhs ve") auto
    then have "b' \<in> set (CollectInputSlots ve)" by (simp add: CollectInputSlots_def)
    then show ?thesis using num L R ptr cells
      by (auto simp: evaluate_cells_def ArithmeticConstScalar_def map_r_index [of "vector_cell ve" rows] vector_cell_def intro!: map_r_cong)
  qed
qed

lemma EvaluateDense_cells:
  assumes "slots_hold ve b rows" "vector_ok types ve" "map_r (vector_cell ve) rows = Inr cs" "rows \<noteq> []"
  shows "\<exists>c. EvaluateDense ve b (Column_Resize (length rows) (empty_column (ve_type ve))) (length rows) = Inr c \<and>
    holds_cells (ve_type ve) cs c"
proof -
  let ?col = "Column_Resize (length rows) (empty_column (ve_type ve))"
  have "EvaluateDense ve b ?col (length rows) = Inr (?col\<lparr>cd_buffer := concat cs\<rparr>)"
    using assms(4) evaluate_cells_of_rows [OF assms(1,2)] assms(3)
    by (simp add: EvaluateDense_def Column_Resize_def empty_column_def)
  moreover have "holds_cells (ve_type ve) cs (?col\<lparr>cd_buffer := concat cs\<rparr>)"
    by (rule holds_cellsI) (use map_r_length [OF assms(3)] map_r_set [OF assms(3)] vector_cell_length [OF _ assms(2)] in
      \<open>auto simp: Column_Resize_def empty_column_def\<close>)
  ultimately show ?thesis by blast
qed

lemma gathered_cells:
  assumes "column_ok (mask_row_count m) c" "mask_inv m" "cd_type c \<noteq> DT_INVALID" "n = length (mask_rows m)"
  shows "\<exists>bs. GatherColumnDense c m = Inr bs \<and>
    holds_cells (cd_type c) (map (\<lambda>i. column_cells c ! i) (mask_rows m)) ((Column_Resize n (empty_column (cd_type c)))\<lparr>cd_buffer := bs\<rparr>)"
proof -
  let ?xs = "map (\<lambda>i. column_cells c ! i) (mask_rows m)"
  have less: "i < cd_count c" if "i \<in> set (mask_rows m)" for i
    using that assms(1) mask_rows_less [of i m] by (simp add: column_ok_def)
  have len: "\<forall>x\<in>set ?xs. length x = TypeElemSize (cd_type c)"
    using assms(1) less by (auto simp: column_cells_def column_ok_def intro: cell_length)
  have "GatherColumnDense c m = Inr (concat ?xs)"
    using assms(3) by (simp add: GatherColumnDense_def GatherScalar_def ForEachSetBit_rows [OF assms(2)] column_cells_def)
  then show ?thesis using holds_cellsI [of _ "cd_type c" ?xs] len assms(4)
    by (auto simp: Column_Resize_def empty_column_def)
qed
subsection \<open>The three paths produce the same rows\<close>

lemma map_r_pointwise:
  "(\<And>x. x \<in> set xs \<Longrightarrow> \<exists>y. f x = Inr y \<and> Q x y) \<Longrightarrow> \<exists>ys. map_r f xs = Inr ys \<and> list_all2 Q xs ys"
proof (induction xs)
  case (Cons x xs)
  obtain y where "f x = Inr y" "Q x y" using Cons.prems [of x] by auto
  moreover obtain ys where "map_r f xs = Inr ys" "list_all2 Q xs ys" using Cons by auto
  ultimately show ?case by simp
qed simp

lemma map_r_zip_pointwise:
  assumes "list_all2 Q xs ys" "\<And>x y. x \<in> set xs \<Longrightarrow> Q x y \<Longrightarrow> \<exists>z. f (x, y) = Inr z \<and> R x z"
  shows "\<exists>zs. map_r f (zip xs ys) = Inr zs \<and> list_all2 R xs zs"
  using assms
proof (induction xs ys rule: list_all2_induct)
  case (Cons x xs y ys)
  obtain z where "f (x, y) = Inr z" "R x z" using Cons.prems [of x y] Cons.hyps(1) by auto
  moreover obtain zs where "map_r f (zip xs ys) = Inr zs" "list_all2 R xs zs" using Cons by auto
  ultimately show ?case by simp
qed simp

definition cell_of :: "data_type list \<Rightarrow> slot_plan \<Rightarrow> bytes list \<Rightarrow> bytes" where
  "cell_of types plan row = (case project_cell types plan row of Inr bs \<Rightarrow> bs | Inl _ \<Rightarrow> [])"

definition project_of :: "data_type list \<Rightarrow> slot_plan list \<Rightarrow> bytes list \<Rightarrow> bytes list" where
  "project_of types plans row = map (\<lambda>plan. cell_of types plan row) plans"

abbreviation plan_holds :: "data_type list \<Rightarrow> bytes list list \<Rightarrow> slot_plan \<Rightarrow> column_data \<Rightarrow> bool" where
  "plan_holds types rows plan \<equiv> holds_cells (plan_type types plan) (map (cell_of types plan) rows)"

text \<open>A column that is filled once the plans of the given kinds are done, and still empty before.\<close>

definition column_at :: "data_type list \<Rightarrow> bytes list list \<Rightarrow> (slot_plan \<Rightarrow> bool) \<Rightarrow> slot_plan \<Rightarrow> column_data \<Rightarrow> bool" where
  "column_at types rows filled plan c \<longleftrightarrow>
     (if filled plan then plan_holds types rows plan c else c = empty_column (plan_type types plan))"

lemma identity_batch_cells:
  assumes "list_all2 (\<lambda>s c. holds_cells (ty s) (map (f s) rows) c) specs cols" "length rows \<le> kVectorBatchSize"
    and out: "out = SetIdentitySelection (length rows) (ClearBatch empty_batch\<lparr>vb_columns := cols\<rparr>)"
  shows "batch_ok out \<and> map cd_type (vb_columns out) = map ty specs \<and> active_rows out = map (\<lambda>row. map (\<lambda>s. f s row) specs) rows"
proof -
  have len: "length specs = length cols" using assms(1) by (rule list_all2_lengthD)
  have col: "holds_cells (ty (specs ! j)) (map (f (specs ! j)) rows) (cols ! j)" if "j < length cols" for j
    using assms(1) that len by (simp add: list_all2_conv_all_nth)
  have sel: "vb_selection out = SetAll (length rows)" "vb_columns out = cols" "vb_size out = length rows"
    by (simp_all add: out SetIdentitySelection_def)
  have "batch_ok out"
    using col assms(2) by (auto simp: batch_ok_def sel SetAll_inv Mask_Count_SetAll list_all_length holds_cells_def)
  moreover have "map cd_type (vb_columns out) = map ty specs"
    using col len by (intro nth_equalityI) (simp_all add: sel holds_cells_def)
  moreover have "active_rows out = map (\<lambda>row. map (\<lambda>s. f s row) specs) rows"
  proof (rule nth_equalityI)
    show "length (active_rows out) = length (map (\<lambda>row. map (\<lambda>s. f s row) specs) rows)"
      by (simp add: active_rows_def sel SetAll_rows_list [OF assms(2)])
    fix i assume "i < length (active_rows out)"
    then have i: "i < length rows" by (simp add: active_rows_def sel SetAll_rows_list [OF assms(2)])
    have "map (\<lambda>c. column_cells c ! i) cols = map (\<lambda>s. f s (rows ! i)) specs"
      using col i len by (intro nth_equalityI) (simp_all add: holds_cells_def)
    then show "active_rows out ! i = map (\<lambda>row. map (\<lambda>s. f s row) specs) rows ! i"
      using i by (simp add: active_rows_def sel SetAll_rows_list [OF assms(2)])
  qed
  ultimately show ?thesis by blast
qed

lemma identity_batch_rows:
  assumes "list_all2 (plan_holds types rows) plans cols" "length rows \<le> kVectorBatchSize"
    and "out = SetIdentitySelection (length rows) (ClearBatch empty_batch\<lparr>vb_columns := cols\<rparr>)"
  shows "batch_ok out \<and> map cd_type (vb_columns out) = map (plan_type types) plans \<and> active_rows out = map (project_of types plans) rows"
  using identity_batch_cells [OF assms] by (simp add: project_of_def [abs_def])

text \<open>The batches a projection can be applied to: its plans fit the columns and have a value on every active row.\<close>

definition projectable :: "data_type list \<Rightarrow> exec_expr list \<Rightarrow> vector_batch \<Rightarrow> bool" where
  "projectable types es b \<longleftrightarrow> batch_ok b \<and> map cd_type (vb_columns b) = types \<and> active_rows b \<noteq> [] \<and>
     (\<forall>plan\<in>set (map classify_slot es). plan_ok types plan) \<and>
     (\<forall>row\<in>set (active_rows b). \<exists>cs. project_row_cells types (map classify_slot es) row = Inr cs)"

lemma projectable_facts:
  assumes "projectable types es b"
  shows "batch_ok b" "map cd_type (vb_columns b) = types" "active_rows b \<noteq> []" "mask_inv (vb_selection b)"
    "vb_size b = length (active_rows b)" "length (mask_rows (vb_selection b)) = length (active_rows b)"
  using assms batch_ok_size by (auto simp: projectable_def batch_ok_def active_rows_batch)

lemma projectable_plan: "projectable types es b \<Longrightarrow> plan \<in> set (map classify_slot es) \<Longrightarrow> plan_ok types plan"
  unfolding projectable_def by blast

lemma projectable_max:
  assumes "projectable types es b"
  shows "length (active_rows b) \<le> kVectorBatchSize"
  using mask_inv_rows [OF projectable_facts(4) [OF assms]] projectable_facts(6) [OF assms]
    length_filter_le [of "Mask_Test (vb_selection b)" "[0..<mask_row_count (vb_selection b)]"] by (simp add: mask_rows_def)

lemma plans_eq [simp]: "pj_plans (Projection_Init es) = map classify_slot es" "pj_expressions (Projection_Init es) = es"
  by (simp_all add: Projection_Init_def Let_def)

lemma cell_total:
  assumes "projectable types es b" "plan \<in> set (map classify_slot es)" "row \<in> set (active_rows b)"
  shows "project_cell types plan row = Inr (cell_of types plan row)"
proof -
  obtain cs where "map_r (\<lambda>plan. project_cell types plan row) (map classify_slot es) = Inr cs"
    using assms by (auto simp: projectable_def project_row_cells_def)
  then have "\<exists>bs. project_cell types plan row = Inr bs" using assms(2) map_r_nth by (metis in_set_conv_nth)
  then show ?thesis by (auto simp: cell_of_def)
qed

lemma column_facts:
  assumes "projectable types es b" "slot < length types"
  shows "slot < length (vb_columns b)" "cd_type (vb_columns b ! slot) = types ! slot"
    "column_ok (mask_row_count (vb_selection b)) (vb_columns b ! slot)"
    "map (\<lambda>i. column_cells (vb_columns b ! slot) ! i) (mask_rows (vb_selection b)) = map (\<lambda>row. row ! slot) (active_rows b)"
proof -
  note batch = projectable_facts [OF assms(1)]
  show s: "slot < length (vb_columns b)" using assms(2) arg_cong [OF batch(2), of length] by simp
  show "cd_type (vb_columns b ! slot) = types ! slot" using s by (simp flip: batch(2))
  show "column_ok (mask_row_count (vb_selection b)) (vb_columns b ! slot)" using batch(1) s by (simp add: batch_ok_def list_all_length)
  show "map (\<lambda>i. column_cells (vb_columns b ! slot) ! i) (mask_rows (vb_selection b)) = map (\<lambda>row. row ! slot) (active_rows b)"
    using s by (simp add: active_rows_def)
qed

lemma gather_slot:
  assumes "projectable types es b" "slot < length types" "types ! slot \<noteq> DT_INVALID"
  shows "\<exists>bs. GatherColumnDense (vb_columns b ! slot) (vb_selection b) = Inr bs \<and>
    holds_cells (types ! slot) (map (\<lambda>row. row ! slot) (active_rows b))
      ((Column_Resize (length (active_rows b)) (empty_column (types ! slot)))\<lparr>cd_buffer := bs\<rparr>)"
  using gathered_cells [OF column_facts(3) [OF assms(1,2)] projectable_facts(4) [OF assms(1)] _ projectable_facts(6) [OF assms(1), symmetric]]
    column_facts [OF assms(1,2)] assms(3) by simp

lemma scalar_filled:
  assumes "projectable types es b" "ScalarPlan e \<in> set (map classify_slot es)" "length is' = length (active_rows b)"
    "\<And>i. i < length (active_rows b) \<Longrightarrow> is' ! i < mask_row_count (vb_selection b) \<and> batch_row b (is' ! i) = active_rows b ! i"
  shows "\<exists>c. write_rows e b is' (Column_Resize (length (active_rows b)) (empty_column (Exec_GetReturnType e))) = Inr c \<and>
    plan_holds types (active_rows b) (ScalarPlan e) c"
proof -
  let ?rows = "active_rows b"
  have "map_r (\<lambda>r. bind_r (Eval e b r) (output_bytes (Exec_GetReturnType e))) is' =
      map_r (\<lambda>i. bind_r (Eval e b (is' ! i)) (output_bytes (Exec_GetReturnType e))) [0..<length is']" by (rule map_r_index)
  also have "\<dots> = Inr (map (\<lambda>i. cell_of types (ScalarPlan e) (?rows ! i)) [0..<length is'])"
  proof (rule map_r_all_Inr)
    fix i assume "i \<in> set [0..<length is']"
    then have i: "i < length ?rows" using assms(3) by simp
    then show "bind_r (Eval e b (is' ! i)) (output_bytes (Exec_GetReturnType e)) = Inr (cell_of types (ScalarPlan e) (?rows ! i))"
      using cell_total [OF assms(1,2) nth_mem [OF i]] Eval_row [OF projectable_facts(1) [OF assms(1)] _ projectable_facts(2) [OF assms(1)], of "is' ! i" e]
        assms(4) [OF i] by (simp add: project_cell_def)
  qed
  also have "map (\<lambda>i. cell_of types (ScalarPlan e) (?rows ! i)) [0..<length is'] = map (cell_of types (ScalarPlan e)) ?rows"
    using assms(3) by (intro nth_equalityI) simp_all
  finally have cells: "map_r (\<lambda>r. bind_r (Eval e b r) (output_bytes (Exec_GetReturnType e))) is' = Inr (map (cell_of types (ScalarPlan e)) ?rows)" .
  show ?thesis using write_rows_cells [OF cells] assms(3) by (simp add: plan_type_def)
qed

lemma vector_plan_ok:
  assumes "projectable types es b" "VectorPlan ve \<in> set (map classify_slot es)"
  shows "vector_ok types ve"
  using projectable_plan [OF assms] by (simp add: plan_ok_def)

lemma vector_filled:
  assumes "projectable types es b" "VectorPlan ve \<in> set (map classify_slot es)" "slots_hold ve input (active_rows b)"
  shows "\<exists>c. EvaluateDense ve input (Column_Resize (length (active_rows b)) (empty_column (ve_type ve))) (length (active_rows b)) = Inr c \<and>
    plan_holds types (active_rows b) (VectorPlan ve) c"
proof -
  have "map_r (vector_cell ve) (active_rows b) = Inr (map (cell_of types (VectorPlan ve)) (active_rows b))"
    using cell_total [OF assms(1,2)] by (intro map_r_all_Inr) (simp add: project_cell_def)
  then show ?thesis using EvaluateDense_cells [OF assms(3) vector_plan_ok [OF assms(1,2)] _ projectable_facts(3) [OF assms(1)]]
    by (simp add: plan_type_def)
qed

lemma direct_plan:
  assumes "projectable types es b" "DirectColumn slot \<in> set (map classify_slot es)"
  shows "slot < length types" "types ! slot \<noteq> DT_INVALID" "cell_of types (DirectColumn slot) = (\<lambda>row. row ! slot)"
    "plan_type types (DirectColumn slot) = types ! slot" "input_column b slot = Inr (vb_columns b ! slot)"
proof -
  have "plan_ok types (DirectColumn slot)" by (rule projectable_plan [OF assms])
  then show s: "slot < length types" "types ! slot \<noteq> DT_INVALID" by (simp_all add: plan_ok_def)
  show "cell_of types (DirectColumn slot) = (\<lambda>row. row ! slot)" by (simp add: fun_eq_iff cell_of_def project_cell_def)
  show "plan_type types (DirectColumn slot) = types ! slot" by (simp add: plan_type_def)
  show "input_column b slot = Inr (vb_columns b ! slot)" using column_facts(1) [OF assms(1) s(1)] by (simp add: input_column_def)
qed

lemma vector_slots:
  assumes "projectable types es b" "VectorPlan ve \<in> set (map classify_slot es)" "slot \<in> set (CollectInputSlots ve)"
  shows "slot < length types" "types ! slot = ve_type ve" "types ! slot \<noteq> DT_INVALID"
  using vector_plan_ok [OF assms(1,2)] assms(3) by (auto simp: vector_ok_def numeric_type_def)

text \<open>The view of the columns, with the selection of the input.\<close>

lemma view_column_ok: "column_ok n c \<Longrightarrow> view_column c = c\<lparr>cd_is_view := True\<rparr>"
  by (simp add: view_column_def Column_CopyFrom_def empty_column_def column_ok_def mult.commute)

lemma direct_expression: "classify_slot e = DirectColumn slot \<Longrightarrow> \<exists>ty. e = ExecColumnRef slot ty"
  by (auto simp: classify_slot_def split: exec_expr.splits option.splits)

lemma view_projection:
  assumes p: "projectable types es b" and direct: "list_all is_direct (map classify_slot es)"
  shows "\<exists>out. ProduceViewProjection (Projection_Init es) b = Inr out \<and> batch_ok out \<and>
    map cd_type (vb_columns out) = map (plan_type types \<circ> classify_slot) es \<and>
    active_rows out = map (project_of types (map classify_slot es)) (active_rows b)"
proof -
  note batch = projectable_facts [OF p]
  define slot where "slot e = (case classify_slot e of DirectColumn i \<Rightarrow> i | _ \<Rightarrow> 0)" for e
  have plan: "classify_slot e = DirectColumn (slot e)" "\<exists>ty. e = ExecColumnRef (slot e) ty" if "e \<in> set es" for e
  proof -
    from direct that obtain i where "classify_slot e = DirectColumn i" 
      by (cases "classify_slot e") (auto simp: list_all_iff is_direct_def split: slot_plan.splits)
    then show "classify_slot e = DirectColumn (slot e)" "\<exists>ty. e = ExecColumnRef (slot e) ty"
      using direct_expression by (auto simp: slot_def)
  qed
  have facts: "slot e < length (vb_columns b)" "cell_of types (classify_slot e) = (\<lambda>row. row ! slot e)"
    "plan_type types (classify_slot e) = cd_type (vb_columns b ! slot e)" "input_column b (slot e) = Inr (vb_columns b ! slot e)"
    "column_ok (mask_row_count (vb_selection b)) (vb_columns b ! slot e)" if "e \<in> set es" for e
  proof -
    have "DirectColumn (slot e) \<in> set (map classify_slot es)" using plan(1) [OF that] that by (metis image_eqI list.set_map)
    from direct_plan [OF p this] column_facts [OF p] show "slot e < length (vb_columns b)" "cell_of types (classify_slot e) = (\<lambda>row. row ! slot e)"
      "plan_type types (classify_slot e) = cd_type (vb_columns b ! slot e)" "input_column b (slot e) = Inr (vb_columns b ! slot e)"
      "column_ok (mask_row_count (vb_selection b)) (vb_columns b ! slot e)" by (simp_all add: plan(1) [OF that])
  qed
  let ?cols = "map (\<lambda>e. (vb_columns b ! slot e)\<lparr>cd_is_view := True\<rparr>) es"
  have "map_r (view_slot b) es = Inr ?cols"
  proof (rule map_r_all_Inr)
    fix e assume e: "e \<in> set es"
    then show "view_slot b e = Inr ((vb_columns b ! slot e)\<lparr>cd_is_view := True\<rparr>)"
      using plan(2) [OF e] facts [OF e] view_column_ok by (auto simp: view_slot_def split: exec_expr.splits)
  qed
  then have out: "ProduceViewProjection (Projection_Init es) b = Inr (CopySelectionFrom b (ClearBatch empty_batch\<lparr>vb_columns := ?cols\<rparr>))"
    by (simp add: ProduceViewProjection_def)
  let ?out = "CopySelectionFrom b (ClearBatch empty_batch\<lparr>vb_columns := ?cols\<rparr>)"
  have sel: "vb_selection ?out = vb_selection b" "vb_size ?out = vb_size b" "vb_columns ?out = ?cols" by (simp_all add: CopySelectionFrom_def)
  have "batch_ok ?out" using batch(1) facts(5) by (auto simp: batch_ok_def sel list_all_iff column_ok_def)
  moreover have "map cd_type (vb_columns ?out) = map (plan_type types \<circ> classify_slot) es" using facts(3) by (simp add: sel)
  moreover have "active_rows ?out = map (project_of types (map classify_slot es)) (active_rows b)"
  proof -
    have "map (\<lambda>c. column_cells c ! i) ?cols = project_of types (map classify_slot es) (batch_row b i)" for i
      using facts(1,2) by (simp add: project_of_def batch_row_def column_cells_def)
    then show ?thesis by (simp add: active_rows_batch batch_row_def sel(1,3))
  qed
  ultimately show ?thesis using out by blast
qed

text \<open>A dense input is evaluated in place.\<close>

lemma dense_rows:
  assumes "batch_ok b" "IsDense b" "i < length (active_rows b)"
  shows "mask_rows (vb_selection b) = [0..<length (active_rows b)]" "mask_row_count (vb_selection b) = length (active_rows b)"
    "batch_row b i = active_rows b ! i"
proof -
  have "mask_inv (vb_selection b)" using assms(1) by (simp add: batch_ok_def)
  then have rows: "mask_rows (vb_selection b) = [0..<mask_row_count (vb_selection b)]"
    using assms(2) IsAll_iff by (auto simp: IsDense_def mask_rows_def filter_id_conv)
  then show n: "mask_row_count (vb_selection b) = length (active_rows b)" by (simp add: active_rows_batch)
  then show "mask_rows (vb_selection b) = [0..<length (active_rows b)]" using rows by simp
  then show "batch_row b i = active_rows b ! i" using assms(3) by (subst active_rows_batch) simp
qed

lemma dense_slot:
  assumes "projectable types es b" "IsDense b" "slot < length types"
  shows "holds_cells (types ! slot) (map (\<lambda>row. row ! slot) (active_rows b)) (vb_columns b ! slot)"
    "holds_cells (types ! slot) (map (\<lambda>row. row ! slot) (active_rows b)) (view_column (vb_columns b ! slot))"
proof -
  note batch = projectable_facts [OF assms(1)] and col = column_facts [OF assms(1,3)]
  obtain i where "i < length (active_rows b)" using batch(3) by (cases "active_rows b") auto
  note d = dense_rows [OF batch(1) assms(2) this]
  have "column_cells (vb_columns b ! slot) = map (\<lambda>row. row ! slot) (active_rows b)"
    unfolding col(4) [symmetric] d(1) using col(3) by (intro nth_equalityI) (simp_all add: column_cells_def column_ok_def d(2))
  then show h: "holds_cells (types ! slot) (map (\<lambda>row. row ! slot) (active_rows b)) (vb_columns b ! slot)"
    using col(2,3) by (simp add: holds_cells_def d(2))
  show "holds_cells (types ! slot) (map (\<lambda>row. row ! slot) (active_rows b)) (view_column (vb_columns b ! slot))"
    unfolding view_column_ok [OF col(3)] using h by (auto simp: holds_cells_def column_ok_def column_cells_def)
qed

lemma dense_projection:
  assumes p: "projectable types es b" and dense: "IsDense b"
  shows "\<exists>out. ProduceDenseProjection (Projection_Init es) b = Inr out \<and> batch_ok out \<and>
    map cd_type (vb_columns out) = map (plan_type types \<circ> classify_slot) es \<and>
    active_rows out = map (project_of types (map classify_slot es)) (active_rows b)"
proof -
  note batch = projectable_facts [OF p]
  let ?plans = "map classify_slot es" and ?rows = "active_rows b" and ?n = "length (active_rows b)"
  let ?Q = "\<lambda>plan c. case plan of ScalarPlan e \<Rightarrow> c = Column_Resize ?n (empty_column (Exec_GetReturnType e)) | _ \<Rightarrow> plan_holds types ?rows plan c"
  have "\<exists>c. dense_column b ?n plan = Inr c \<and> ?Q plan c" if plan: "plan \<in> set ?plans" for plan
  proof (cases plan)
    case (DirectColumn slot)
    note d = direct_plan [OF p plan [unfolded DirectColumn]]
    show ?thesis using d dense_slot(2) [OF p dense d(1)] by (simp add: DirectColumn dense_column_def)
  next
    case (VectorPlan ve)
    note v = vector_slots [OF p plan [unfolded VectorPlan]]
    have "slots_hold ve b ?rows" unfolding slots_hold_def
      using v dense_slot(1) [OF p dense] column_facts(1) [OF p] by metis
    from vector_filled [OF p plan [unfolded VectorPlan] this] show ?thesis by (simp add: VectorPlan dense_column_def)
  next
    case (ScalarPlan e)
    then show ?thesis by (simp add: dense_column_def)
  qed
  from map_r_pointwise [of ?plans "dense_column b ?n" ?Q, OF this] obtain cols where cols:
    "map_r (dense_column b ?n) ?plans = Inr cols" "list_all2 ?Q ?plans cols" by blast
  have "\<exists>c'. scalar_column b [0..<?n] (plan, c) = Inr c' \<and> plan_holds types ?rows plan c'"
    if plan: "plan \<in> set ?plans" "?Q plan c" for plan c
  proof (cases plan)
    case (ScalarPlan e)
    have "[0..<?n] ! i < mask_row_count (vb_selection b) \<and> batch_row b ([0..<?n] ! i) = ?rows ! i" if "i < ?n" for i
      using that dense_rows [OF batch(1) dense that] by simp
    from scalar_filled [OF p plan(1) [unfolded ScalarPlan] _ this] plan(2) show ?thesis by (simp add: ScalarPlan scalar_column_def)
  qed (use plan(2) in \<open>simp_all add: scalar_column_def\<close>)
  from map_r_zip_pointwise [of ?Q ?plans cols "scalar_column b [0..<?n]" "plan_holds types ?rows", OF cols(2) this] obtain cols' where cols':
    "map_r (scalar_column b [0..<?n]) (zip ?plans cols) = Inr cols'" "list_all2 (plan_holds types ?rows) ?plans cols'" by blast
  show ?thesis using identity_batch_rows [OF cols'(2) projectable_max [OF p] refl] cols(1) cols'(1)
    by (simp add: ProduceDenseProjection_def Let_def batch(5))
qed

text \<open>A sparse input is gathered first.\<close>

lemma direct_map_correct:
  assumes "slot < n" "BuildDirectOutputMap plans n ! slot = Some col"
  shows "col < length plans \<and> plans ! col = DirectColumn slot"
proof -
  let ?P = "\<lambda>m. length m = n \<and> (\<forall>s<n. \<forall>col. m ! s = Some col \<longrightarrow> col < length plans \<and> plans ! col = DirectColumn s)"
  have "?P (BuildDirectOutputMap plans n)" unfolding BuildDirectOutputMap_def
  proof (rule fold_invariant [where Q = "\<lambda>(col, plan). col < length plans \<and> plan = plans ! col"])
    show "case x of (col, plan) \<Rightarrow> col < length plans \<and> plan = plans ! col" if "x \<in> set (zip [0..<length plans] plans)" for x
      using that by (auto simp: set_zip)
    show "?P (replicate n None)" by simp
    show "?P ((case x of (col, plan) \<Rightarrow> \<lambda>m. case plan of DirectColumn slot \<Rightarrow> if slot < n then m[slot := Some col] else m | _ \<Rightarrow> m) m)"
      if x: "case x of (col, plan) \<Rightarrow> col < length plans \<and> plan = plans ! col" and m: "?P m" for x m
    proof (cases "snd x")
      case (DirectColumn slot)
      obtain col where col: "x = (col, DirectColumn slot)" "col < length plans" "plans ! col = DirectColumn slot"
        using x DirectColumn by (cases x) auto
      have "m[slot := Some col] ! s = Some c \<longrightarrow> c < length plans \<and> plans ! c = DirectColumn s" if "s < n" "slot < n" for s c
        using that m col(2,3) by (cases "s = slot") auto
      then show ?thesis using m col(1) by auto
    qed (use m in \<open>cases x, simp\<close>)+
  qed
  then show ?thesis using assms by blast
qed

lemma gather_slots_set: "set (pj_gather_slots (Projection_Init es)) = (\<Union>plan\<in>set (map classify_slot es). set (plan_slots plan))"
  by (simp add: Projection_Init_def Let_def)

lemma gathered_slot:
  assumes p: "projectable types es b" and slot: "slot < length (vb_columns b)"
    and cols: "list_all2 (column_at types (active_rows b) is_direct) (map classify_slot es) cols"
  shows "\<exists>c. gathered_column (Projection_Init es) (BuildDirectOutputMap (map classify_slot es) (length (vb_columns b))) b cols
      (length (active_rows b)) slot = Inr c \<and>
    (slot \<in> set (pj_gather_slots (Projection_Init es)) \<longrightarrow> holds_cells (types ! slot) (map (\<lambda>row. row ! slot) (active_rows b)) c)"
proof (cases "slot \<in> set (pj_gather_slots (Projection_Init es))")
  case True
  let ?n = "length (active_rows b)" and ?plans = "map classify_slot es"
  obtain plan where plan: "plan \<in> set ?plans" "slot \<in> set (plan_slots plan)"
    using True unfolding gather_slots_set by blast
  then obtain ve where ve: "plan = VectorPlan ve" by (cases plan) (auto simp: plan_slots_def)
  have v: "slot < length types" "types ! slot \<noteq> DT_INVALID"
    using vector_slots [OF p plan(1) [unfolded ve]] plan(2) by (simp_all add: ve plan_slots_def)
  have ty: "cd_type (vb_columns b ! slot) = types ! slot" by (rule column_facts(2) [OF p v(1)])
  show ?thesis
  proof (cases "BuildDirectOutputMap ?plans (length (vb_columns b)) ! slot")
    case None
    then show ?thesis using gather_slot [OF p v] True by (auto simp: gathered_column_def Let_def ty)
  next
    case (Some col)
    have col: "col < length ?plans" "?plans ! col = DirectColumn slot" using direct_map_correct [OF slot Some] by simp_all
    have "column_at types (active_rows b) is_direct (DirectColumn slot) (cols ! col)"
      using list_all2_nthD [OF cols col(1)] unfolding col(2) .
    moreover have "DirectColumn slot \<in> set ?plans" using col nth_mem by metis
    ultimately have h: "holds_cells (types ! slot) (map (\<lambda>row. row ! slot) (active_rows b)) (cols ! col)"
      using direct_plan [OF p] by (simp add: column_at_def is_direct_def)
    then have buf: "take (TypeElemSize (types ! slot) * ?n) (cd_buffer (cols ! col)) = cd_buffer (cols ! col)"
      by (auto simp: holds_cells_def column_ok_def mult.commute)
    then show ?thesis using True Some h
      by (auto simp: gathered_column_def Let_def ty Column_CopyFrom_def empty_column_def holds_cells_def column_ok_def column_cells_def)
  qed
qed (simp add: gathered_column_def Let_def)

lemma gathered_input:
  assumes p: "projectable types es b"
    and cols: "list_all2 (column_at types (active_rows b) is_direct) (map classify_slot es) cols"
  shows "\<exists>g. (if pj_gather_slots (Projection_Init es) \<noteq> []
      then BuildGatheredInput (Projection_Init es) (BuildDirectOutputMap (map classify_slot es) (length (vb_columns b))) b cols (length (active_rows b))
      else Inr empty_batch) = Inr g \<and>
    (\<forall>ve. VectorPlan ve \<in> set (map classify_slot es) \<longrightarrow> slots_hold ve g (active_rows b))"
proof -
  let ?pj = "Projection_Init es" and ?n = "length (active_rows b)"
  have sub: "set (CollectInputSlots ve) \<subseteq> set (pj_gather_slots ?pj)" if "VectorPlan ve \<in> set (map classify_slot es)" for ve
    unfolding gather_slots_set using that by (auto simp: plan_slots_def intro!: bexI [of _ "VectorPlan ve"] simp del: set_map)
  show ?thesis
  proof (cases "pj_gather_slots ?pj = []")
    case True
    then show ?thesis using sub by (auto simp: slots_hold_def)
  next
    case False
    let ?f = "gathered_column ?pj (BuildDirectOutputMap (map classify_slot es) (length (vb_columns b))) b cols ?n"
    let ?Q = "\<lambda>slot c. slot \<in> set (pj_gather_slots ?pj) \<longrightarrow> holds_cells (types ! slot) (map (\<lambda>row. row ! slot) (active_rows b)) c"
    have "\<exists>c. ?f slot = Inr c \<and> ?Q slot c" if "slot \<in> set [0..<length (vb_columns b)]" for slot
      using gathered_slot [OF p _ cols, of slot] that by simp
    from map_r_pointwise [of "[0..<length (vb_columns b)]" ?f ?Q, OF this] obtain gs where gs:
      "map_r ?f [0..<length (vb_columns b)] = Inr gs" "list_all2 ?Q [0..<length (vb_columns b)] gs" by blast
    let ?g = "SetIdentitySelection ?n (ClearBatch empty_batch\<lparr>vb_columns := gs\<rparr>)"
    have g: "vb_columns ?g = gs" "length gs = length (vb_columns b)" using list_all2_lengthD [OF gs(2)] by (simp_all add: SetIdentitySelection_def)
    have "slots_hold ve ?g (active_rows b)" if ve: "VectorPlan ve \<in> set (map classify_slot es)" for ve
      unfolding slots_hold_def
    proof
      fix slot assume slot: "slot \<in> set (CollectInputSlots ve)"
      note v = vector_slots [OF p ve slot]
      have "slot < length (vb_columns b)" by (rule column_facts(1) [OF p v(1)])
      then show "slot < length (vb_columns ?g) \<and> holds_cells (ve_type ve) (map (\<lambda>row. row ! slot) (active_rows b)) (vb_columns ?g ! slot)"
        using list_all2_nthD [OF gs(2), of slot] sub [OF ve] slot g v(2) by auto
    qed
    then show ?thesis using False gs(1) by (auto simp: BuildGatheredInput_def)
  qed
qed

definition evaluated :: "slot_plan \<Rightarrow> bool" where
  "evaluated plan = (case plan of ScalarPlan _ \<Rightarrow> False | _ \<Rightarrow> True)"

lemma sparse_projection:
  assumes p: "projectable types es b" and sparse: "\<not> IsDense b"
  shows "\<exists>out. ProduceSparseProjection (Projection_Init es) b = Inr out \<and> batch_ok out \<and>
    map cd_type (vb_columns out) = map (plan_type types \<circ> classify_slot) es \<and>
    active_rows out = map (project_of types (map classify_slot es)) (active_rows b)"
proof -
  note batch = projectable_facts [OF p]
  let ?plans = "map classify_slot es" and ?rows = "active_rows b" and ?n = "length (active_rows b)" and ?m = "vb_selection b"
  have "\<exists>c. sparse_slot b plan = Inr c \<and> column_at types ?rows (\<lambda>_. False) plan c" if plan: "plan \<in> set ?plans" for plan
  proof (cases plan)
    case (DirectColumn slot)
    note d = direct_plan [OF p plan [unfolded DirectColumn]]
    show ?thesis using d column_facts(2) [OF p d(1)] by (simp add: DirectColumn sparse_slot_def column_at_def)
  qed (simp_all add: sparse_slot_def column_at_def plan_type_def)
  from map_r_pointwise [of ?plans "sparse_slot b" "column_at types ?rows (\<lambda>_. False)", OF this] obtain c1 where c1:
    "map_r (sparse_slot b) ?plans = Inr c1" "list_all2 (column_at types ?rows (\<lambda>_. False)) ?plans c1" by blast
  have "\<exists>c'. gather_direct b ?n (plan, c) = Inr c' \<and> column_at types ?rows is_direct plan c'"
    if plan: "plan \<in> set ?plans" "column_at types ?rows (\<lambda>_. False) plan c" for plan c
  proof (cases plan)
    case (DirectColumn slot)
    note d = direct_plan [OF p plan(1) [unfolded DirectColumn]]
    show ?thesis using gather_slot [OF p d(1,2)] plan(2) d(3,4)
      by (auto simp: DirectColumn gather_direct_def column_at_def is_direct_def)
  qed (use plan(2) in \<open>simp_all add: gather_direct_def column_at_def is_direct_def\<close>)
  from map_r_zip_pointwise [of _ ?plans c1 "gather_direct b ?n" "column_at types ?rows is_direct", OF c1(2) this] obtain c2 where c2:
    "map_r (gather_direct b ?n) (zip ?plans c1) = Inr c2" "list_all2 (column_at types ?rows is_direct) ?plans c2" by blast
  obtain g where g: "(if pj_gather_slots (Projection_Init es) \<noteq> []
      then BuildGatheredInput (Projection_Init es) (BuildDirectOutputMap ?plans (length (vb_columns b))) b c2 ?n else Inr empty_batch) = Inr g"
    "\<And>ve. VectorPlan ve \<in> set ?plans \<Longrightarrow> slots_hold ve g ?rows"
    using gathered_input [OF p c2(2)] by blast
  have "\<exists>c'. vector_column g ?n (plan, c) = Inr c' \<and> column_at types ?rows evaluated plan c'"
    if plan: "plan \<in> set ?plans" "column_at types ?rows is_direct plan c" for plan c
  proof (cases plan)
    case (VectorPlan ve)
    from vector_filled [OF p plan(1) [unfolded VectorPlan] g(2)] plan show ?thesis
      by (auto simp: VectorPlan vector_column_def column_at_def is_direct_def evaluated_def plan_type_def)
  qed (use plan(2) in \<open>simp_all add: vector_column_def column_at_def is_direct_def evaluated_def\<close>)
  from map_r_zip_pointwise [of _ ?plans c2 "vector_column g ?n" "column_at types ?rows evaluated", OF c2(2) this] obtain c3 where c3:
    "map_r (vector_column g ?n) (zip ?plans c2) = Inr c3" "list_all2 (column_at types ?rows evaluated) ?plans c3" by blast
  have each: "ForEachActiveRow b = mask_rows ?m" using sparse by (simp add: ForEachActiveRow_def ForEachSetBit_rows [OF batch(4)])
  have "\<exists>c'. scalar_column b (ForEachActiveRow b) (resize_scalar ?n (plan, c)) = Inr c' \<and> plan_holds types ?rows plan c'"
    if plan: "plan \<in> set ?plans" "column_at types ?rows evaluated plan c" for plan c
  proof (cases plan)
    case (ScalarPlan e)
    have "mask_rows ?m ! i < mask_row_count ?m \<and> batch_row b (mask_rows ?m ! i) = ?rows ! i" if "i < ?n" for i
    proof -
      have i: "i < length (mask_rows ?m)" using that batch(6) by simp
      then have "?rows ! i = batch_row b (mask_rows ?m ! i)" by (subst active_rows_batch) simp
      then show ?thesis using mask_rows_less [OF nth_mem [OF i]] by simp
    qed
    from scalar_filled [OF p plan(1) [unfolded ScalarPlan] batch(6) this] plan(2) show ?thesis
      by (simp add: ScalarPlan scalar_column_def resize_scalar_def column_at_def evaluated_def each plan_type_def)
  qed (use plan(2) in \<open>simp_all add: scalar_column_def resize_scalar_def column_at_def evaluated_def\<close>)
  from map_r_zip_pointwise [of _ ?plans c3 "\<lambda>pc. scalar_column b (ForEachActiveRow b) (resize_scalar ?n pc)" "plan_holds types ?rows", OF c3(2) this] obtain c4 where c4:
    "map_r (\<lambda>pc. scalar_column b (ForEachActiveRow b) (resize_scalar ?n pc)) (zip ?plans c3) = Inr c4"
    "list_all2 (plan_holds types ?rows) ?plans c4" by blast
  let ?out = "SetIdentitySelection ?n (ClearBatch empty_batch\<lparr>vb_columns := c4\<rparr>)"
  have out: "ProduceSparseProjection (Projection_Init es) b = Inr ?out"
    unfolding ProduceSparseProjection_def Let_def plans_eq batch(5) c1(1) bind_r_simps c2(1) g(1) c3(1) c4(1) ..
  note rows = identity_batch_rows [OF c4(2) projectable_max [OF p] refl]
  show ?thesis
  proof (rule exI [of _ ?out], intro conjI)
    show "batch_ok ?out" by (rule conjunct1 [OF rows])
    show "map cd_type (vb_columns ?out) = map (plan_type types \<circ> classify_slot) es"
      using conjunct1 [OF conjunct2 [OF rows]] by (simp only: list.map_comp)
    show "active_rows ?out = map (project_of types ?plans) ?rows" by (rule conjunct2 [OF conjunct2 [OF rows]])
  qed (rule out)
qed

text \<open>Whatever the path, a projection computes its output row by row.\<close>

lemma produce_rows:
  assumes "projectable types es b"
  shows "\<exists>out. produce (Projection_Init es) b = Inr out \<and> batch_ok out \<and>
    map cd_type (vb_columns out) = map (plan_type types \<circ> classify_slot) es \<and>
    active_rows out = map (project_of types (map classify_slot es)) (active_rows b)"
  using view_projection [OF assms] dense_projection [OF assms] sparse_projection [OF assms]
  by (simp add: produce_def) (simp add: Projection_Init_def Let_def)

subsection \<open>The projection as an operator\<close>

definition projection_ready ::
  "('s \<Rightarrow> bool) \<Rightarrow> ('s \<Rightarrow> bytes list list) \<Rightarrow> data_type list \<Rightarrow> exec_expr list \<Rightarrow> 's \<Rightarrow> bool" where
  "projection_ready ready rows types es s \<longleftrightarrow> ready s \<and> (\<forall>plan\<in>set (map classify_slot es). plan_ok types plan) \<and>
     (\<forall>row\<in>set (rows s). \<exists>cs. project_row_cells types (map classify_slot es) row = Inr cs)"

definition projection_rows ::
  "('s \<Rightarrow> bytes list list) \<Rightarrow> data_type list \<Rightarrow> exec_expr list \<Rightarrow> 's \<Rightarrow> bytes list list" where
  "projection_rows rows types es s = map (project_of types (map classify_slot es)) (rows s)"

abbreviation projection_types :: "data_type list \<Rightarrow> exec_expr list \<Rightarrow> data_type list" where
  "projection_types types es \<equiv> map (plan_type types \<circ> classify_slot) es"

locale row_projection = batch_operator +
  fixes es :: "exec_expr list"

context row_projection begin

lemma Projection_call:
  assumes "projection_ready ready rows types es s"
  shows "\<exists>b s'. Projection_Next Next (Projection_Init es) s = Some (Inr (b, s')) \<and>
    (b = None \<longrightarrow> projection_rows rows types es s = []) \<and>
    (\<forall>batch. b = Some batch \<longrightarrow> projection_ready ready rows types es s' \<and> batch_ok batch \<and>
       map cd_type (vb_columns batch) = projection_types types es \<and> active_rows batch \<noteq> [] \<and>
       projection_rows rows types es s = active_rows batch @ projection_rows rows types es s')"
proof -
  have ready: "ready s" and plans: "\<forall>plan\<in>set (map classify_slot es). plan_ok types plan"
    and total: "\<forall>row\<in>set (rows s). \<exists>cs. project_row_cells types (map classify_slot es) row = Inr cs"
    using assms unfolding projection_ready_def by blast+
  obtain r s' where call: "Next s = Some (Inr (r, s'))" using returns [OF ready] by blast
  show ?thesis
  proof (cases r)
    case None
    then show ?thesis using call ends [OF ready] by (subst Projection_Next.simps) (simp add: projection_rows_def)
  next
    case (Some b)
    note d = delivers [OF ready call [unfolded Some]]
    have p: "projectable types es b" unfolding projectable_def using d plans total by simp
    obtain out where out: "produce (Projection_Init es) b = Inr out" "batch_ok out"
        "map cd_type (vb_columns out) = projection_types types es"
        "active_rows out = map (project_of types (map classify_slot es)) (active_rows b)"
      using produce_rows [OF p] by blast
    have "vb_size b \<noteq> 0" using d batch_ok_size [of b] by simp
    then have "Projection_Next Next (Projection_Init es) s = Some (Inr (Some out, s'))"
      using call Some out(1) by (subst Projection_Next.simps) simp
    moreover have "projection_ready ready rows types es s'"
      using d plans total unfolding projection_ready_def by simp
    moreover have "projection_rows rows types es s = active_rows out @ projection_rows rows types es s'"
      using d out(4) by (simp add: projection_rows_def)
    ultimately show ?thesis using out(2-4) d by simp
  qed
qed

end

sublocale row_projection \<subseteq> projected: batch_operator "Projection_Next Next (Projection_Init es)"
  "projection_ready ready rows types es" "projection_rows rows types es" "projection_types types es"
proof unfold_locales
  fix s assume "projection_ready ready rows types es s"
  note call = Projection_call [OF this]
  show "\<exists>b s'. Projection_Next Next (Projection_Init es) s = Some (Inr (b, s'))" using call by blast
  show "projection_ready ready rows types es s' \<and> batch_ok b \<and> map cd_type (vb_columns b) = projection_types types es \<and> active_rows b \<noteq> [] \<and>
      projection_rows rows types es s = active_rows b @ projection_rows rows types es s'"
    if "Projection_Next Next (Projection_Init es) s = Some (Inr (Some b, s'))" for b s' using call that by auto
  show "projection_rows rows types es s = []" if "Projection_Next Next (Projection_Init es) s = Some (Inr (None, s'))" for s'
    using call that by auto
qed

interpretation seq_projection: row_projection SeqScan_Next "seq_at prepared sbs s options" "seq_rows sbs s options" "scan_types s options" es
  for prepared sbs s options es
  by unfold_locales

interpretation filter_projection: row_projection "Filter_Next SeqScan_Next (CompileVectorPredicate e)"
  "filter_ready (seq_at prepared sbs s options) (seq_rows sbs s options) (scan_types s options) e"
  "filter_rows (seq_rows sbs s options) (scan_types s options) e" "scan_types s options" es
  for prepared sbs s options e es
  by unfold_locales

text \<open>C16: With exact statistics for the pushed conditions, no NaN in the columns of the filter and no row on which an expression
  fails, a projection over a filter over the scan of a table delivers, in order, one row for every row that
  matches the pushed conditions and the filter, computed cell by cell from it, on whichever of the three
  paths its batches go.
\<close>

theorem select_pipeline_exact:
  assumes "GetTableById i (db_catalog db) = Some entry" "smg_tables (db_storage db) i = Some t"
    and "table_fits options (if so_predicates options = [] then None else Some ps) sbs t"
    and rows: "\<forall>row\<in>set (selected (tst_schema t) options (rows_of sbs)). row_condition_ok (scan_types (tst_schema t) options) e row"
    and plans: "\<forall>plan\<in>set (map classify_slot es). plan_ok (scan_types (tst_schema t) options) plan"
    and total: "\<forall>row\<in>set (selected (tst_schema t) options (rows_of sbs)). row_holds (scan_types (tst_schema t) options) e row \<longrightarrow>
      (\<exists>cs. project_row_cells (scan_types (tst_schema t) options) (map classify_slot es) row = Inr cs)"
  shows "\<exists>op bs. SeqScan_Init db (new_seq_scan i options None) = Inr (op, db) \<and>
    drain_batches (Projection_Next (Filter_Next SeqScan_Next (CompileVectorPredicate e)) (Projection_Init es)) op = Some (Inr bs) \<and>
    concat (map active_rows bs) = map (project_of (scan_types (tst_schema t) options) (map classify_slot es))
      (filter (row_holds (scan_types (tst_schema t) options) e) (selected (tst_schema t) options (rows_of sbs)))"
proof -
  let ?p = "if so_predicates options = [] then None else Some ps" and ?s = "tst_schema t"
  obtain op where op: "SeqScan_Init db (new_seq_scan i options None) = Inr (op, db)" "seq_at ?p sbs ?s options op"
      "seq_rows sbs ?s options op = selected ?s options (rows_of sbs)"
    using SeqScan_Init_at [OF assms(1-3)] by auto
  have "filter_ready (seq_at ?p sbs ?s options) (seq_rows sbs ?s options) (scan_types ?s options) e op"
    using op(2,3) rows by (simp add: filter_ready_def)
  then have "projection_ready (filter_ready (seq_at ?p sbs ?s options) (seq_rows sbs ?s options) (scan_types ?s options) e)
      (filter_rows (seq_rows sbs ?s options) (scan_types ?s options) e) (scan_types ?s options) es op"
    using plans total unfolding projection_ready_def by (simp add: filter_rows_def op(3))
  from filter_projection.projected.drain_batches_rows [OF this] show ?thesis using op(1,3)
    by (auto simp: filter_rows_def projection_rows_def)
qed

end
