(* ===== verification/Hash_Aggregate.thy ===== *)
theory Hash_Aggregate
  imports Projection
begin

text \<open>
  \<^verbatim>\<open>execution/aggregate/hash_aggregate_state.{h,cpp}\<close> and \<^verbatim>\<open>hash_aggregate.{h,cpp}\<close>: the state of an
  aggregation, which the serial operator and the workers of a parallel query share, and the operator around
  it.  The hash table is a list of groups in the order of their insertion; the order in which it is
  traversed is a parameter of the operations that traverse it.
\<close>

subsection \<open>Values as keys\<close>

text \<open>\<open>==\<close> of the variants: the same alternative and equal values, with the comparison of floats.\<close>

fun exec_value_equal :: "exec_value \<Rightarrow> exec_value \<Rightarrow> bool" where
  "exec_value_equal (EV_int32 a) (EV_int32 b) = (a = b)"
| "exec_value_equal (EV_int64 a) (EV_int64 b) = (a = b)"
| "exec_value_equal (EV_float a) (EV_float b) = ieee_eq 23 a b"
| "exec_value_equal (EV_double a) (EV_double b) = ieee_eq 52 a b"
| "exec_value_equal (EV_string a) (EV_string b) = (a = b)"
| "exec_value_equal (EV_bool a) (EV_bool b) = (a = b)"
| "exec_value_equal _ _ = False"

type_synonym group_key = "exec_value list"

definition group_key_equal :: "group_key \<Rightarrow> group_key \<Rightarrow> bool" where
  "group_key_equal = list_all2 exec_value_equal"

subsection \<open>The state\<close>

record agg_call =
  ac_type :: agg_type
  ac_arg :: "exec_expr option"
  ac_result_type :: data_type

datatype output_kind = GROUP_KEY | AGGREGATE

record aggregate_output =
  ao_kind :: output_kind
  ao_index :: nat
  ao_type :: data_type
  ao_name :: string

record agg_state =
  as_sum :: f80
  as_count :: int
  as_has_value :: bool
  as_min_value :: exec_value
  as_max_value :: exec_value

definition new_agg_state :: agg_state where
  "new_agg_state = \<lparr>as_sum = f80_of_int 0, as_count = 0, as_has_value = False, as_min_value = EV_int32 0, as_max_value = EV_int32 0\<rparr>"

type_synonym group_table = "(group_key \<times> agg_state list) list"

datatype aggregate_mode = GLOBAL | GROUPED_HASH

text \<open>\<open>ha_emit\<close>: the groups from the emit iterator on, once the output has started.\<close>

record aggregate_state =
  ha_group_exprs :: "exec_expr list"
  ha_agg_calls :: "agg_call list"
  ha_outputs :: "aggregate_output list"
  ha_mode :: aggregate_mode
  ha_groups :: group_table
  ha_emit :: "group_table option"
  ha_global_states :: "agg_state list"
  ha_count_star_calls :: "nat list"
  ha_row_calls :: "nat list"
  ha_global_emitted :: bool

definition count_star :: "agg_call \<Rightarrow> bool" where
  "count_star call \<longleftrightarrow> ac_type call = AGG_COUNT \<and> ac_arg call = None"

definition new_aggregate_state :: "exec_expr list \<Rightarrow> agg_call list \<Rightarrow> aggregate_output list \<Rightarrow> aggregate_state" where
  "new_aggregate_state groups calls outputs =
     \<lparr>ha_group_exprs = groups, ha_agg_calls = calls, ha_outputs = outputs,
      ha_mode = (if groups = [] then GLOBAL else GROUPED_HASH), ha_groups = [], ha_emit = None,
      ha_global_states = (if groups = [] then replicate (length calls) new_agg_state else []),
      ha_count_star_calls = (if groups = [] then filter (\<lambda>i. count_star (calls ! i)) [0..<length calls] else []),
      ha_row_calls = (if groups = [] then filter (\<lambda>i. \<not> count_star (calls ! i)) [0..<length calls] else []),
      ha_global_emitted = False\<rparr>"

definition MakeStates :: "aggregate_state \<Rightarrow> agg_state list" where
  "MakeStates st = replicate (length (ha_agg_calls st)) new_agg_state"

definition EvalGroupKey :: "exec_expr list \<Rightarrow> vector_batch \<Rightarrow> nat \<Rightarrow> group_key result" where
  "EvalGroupKey groups batch row = map_r (\<lambda>e. Eval e batch row) groups"

subsection \<open>One aggregate\<close>

text \<open>The counter has 64 bits and overflow of a signed integer is undefined.\<close>

definition add_count :: "int \<Rightarrow> int \<Rightarrow> int result" where
  "add_count a b = (if a + b < 2 ^ 63 then Inr (a + b) else Inl Undefined_behaviour)"

abbreviation unsupported_aggregate :: exn where
  "unsupported_aggregate \<equiv> Runtime_error ''HashAggregateState: unsupported aggregate type''"

definition UpdateAggregate :: "agg_call \<Rightarrow> agg_state \<Rightarrow> vector_batch \<Rightarrow> nat \<Rightarrow> agg_state result" where
  "UpdateAggregate call st batch row =
     (if ac_type call = AGG_COUNT then
        bind_r (case ac_arg call of None \<Rightarrow> Inr () | Some e \<Rightarrow> bind_r (Eval e batch row) (\<lambda>_. Inr ())) (\<lambda>_.
        bind_r (add_count (as_count st) 1) (\<lambda>n. Inr (st\<lparr>as_count := n\<rparr>)))
      else
        (case ac_arg call of
           None \<Rightarrow> Inl (Runtime_error ''HashAggregateState: aggregate argument is missing'')
         | Some e \<Rightarrow> bind_r (Eval e batch row) (\<lambda>v.
             case ac_type call of
               AGG_SUM \<Rightarrow> bind_r (ExecValueAsNumber v) (\<lambda>x. Inr (st\<lparr>as_sum := f80_add (as_sum st) x, as_has_value := True\<rparr>))
             | AGG_AVG \<Rightarrow> bind_r (ExecValueAsNumber v) (\<lambda>x. bind_r (add_count (as_count st) 1) (\<lambda>n.
                 Inr (st\<lparr>as_sum := f80_add (as_sum st) x, as_count := n, as_has_value := True\<rparr>)))
             | AGG_MIN \<Rightarrow> bind_r (if \<not> as_has_value st then Inr True
                                  else bind_r (CompareExecValues v (as_min_value st)) (\<lambda>c. Inr (c < 0))) (\<lambda>better.
                 Inr (st\<lparr>as_min_value := (if better then v else as_min_value st), as_has_value := True\<rparr>))
             | AGG_MAX \<Rightarrow> bind_r (if \<not> as_has_value st then Inr True
                                  else bind_r (CompareExecValues v (as_max_value st)) (\<lambda>c. Inr (c > 0))) (\<lambda>better.
                 Inr (st\<lparr>as_max_value := (if better then v else as_max_value st), as_has_value := True\<rparr>))
             | _ \<Rightarrow> Inl unsupported_aggregate)))"

definition FinalizeAggregate :: "agg_call \<Rightarrow> agg_state \<Rightarrow> exec_value result" where
  "FinalizeAggregate call st =
     (case ac_type call of
        AGG_COUNT \<Rightarrow> Inr (EV_int64 (word_of_int (as_count st)))
      | AGG_SUM \<Rightarrow> CastNumber (as_sum st) (ac_result_type call)
      | AGG_AVG \<Rightarrow> Inr (EV_double (f64_of_f80 (if as_count st = 0 then f80_of_int 0
                                              else f80_div (as_sum st) (f80_of_int (as_count st)))))
      | AGG_MIN \<Rightarrow> if as_has_value st then Inr (as_min_value st) else CastNumber (f80_of_int 0) (ac_result_type call)
      | AGG_MAX \<Rightarrow> if as_has_value st then Inr (as_max_value st) else CastNumber (f80_of_int 0) (ac_result_type call)
      | _ \<Rightarrow> Inl unsupported_aggregate)"

definition CombineAggregate :: "agg_call \<Rightarrow> agg_state \<Rightarrow> agg_state \<Rightarrow> agg_state result" where
  "CombineAggregate call dst src =
     (case ac_type call of
        AGG_COUNT \<Rightarrow> bind_r (add_count (as_count dst) (as_count src)) (\<lambda>n. Inr (dst\<lparr>as_count := n\<rparr>))
      | AGG_SUM \<Rightarrow> Inr (dst\<lparr>as_sum := f80_add (as_sum dst) (as_sum src), as_has_value := as_has_value dst \<or> as_has_value src\<rparr>)
      | AGG_AVG \<Rightarrow> bind_r (add_count (as_count dst) (as_count src)) (\<lambda>n.
          Inr (dst\<lparr>as_sum := f80_add (as_sum dst) (as_sum src), as_count := n, as_has_value := as_has_value dst \<or> as_has_value src\<rparr>))
      | AGG_MIN \<Rightarrow> bind_r (if \<not> as_has_value src then Inr False else if \<not> as_has_value dst then Inr True
                           else bind_r (CompareExecValues (as_min_value src) (as_min_value dst)) (\<lambda>c. Inr (c < 0))) (\<lambda>better.
          Inr (dst\<lparr>as_min_value := (if better then as_min_value src else as_min_value dst),
                   as_has_value := as_has_value dst \<or> as_has_value src\<rparr>))
      | AGG_MAX \<Rightarrow> bind_r (if \<not> as_has_value src then Inr False else if \<not> as_has_value dst then Inr True
                           else bind_r (CompareExecValues (as_max_value src) (as_max_value dst)) (\<lambda>c. Inr (c > 0))) (\<lambda>better.
          Inr (dst\<lparr>as_max_value := (if better then as_max_value src else as_max_value dst),
                   as_has_value := as_has_value dst \<or> as_has_value src\<rparr>))
      | _ \<Rightarrow> Inl unsupported_aggregate)"

subsection \<open>Consuming a batch\<close>

definition update_states :: "agg_call list \<Rightarrow> vector_batch \<Rightarrow> nat \<Rightarrow> agg_state list \<Rightarrow> agg_state list result" where
  "update_states calls batch row states = map_r (\<lambda>(call, st). UpdateAggregate call st batch row) (zip calls states)"

text \<open>\<open>try_emplace\<close> with new states, and then the updates of the states of the key.\<close>

fun upsert_group ::
  "group_key \<Rightarrow> agg_state list \<Rightarrow> (agg_state list \<Rightarrow> agg_state list result) \<Rightarrow> group_table \<Rightarrow> group_table result" where
  "upsert_group key fresh f [] = bind_r (f fresh) (\<lambda>states. Inr [(key, states)])"
| "upsert_group key fresh f ((k, states) # table) =
     (if group_key_equal k key then bind_r (f states) (\<lambda>states. Inr ((k, states) # table))
      else bind_r (upsert_group key fresh f table) (\<lambda>table. Inr ((k, states) # table)))"

definition ConsumeGrouped :: "vector_batch \<Rightarrow> aggregate_state \<Rightarrow> aggregate_state result" where
  "ConsumeGrouped batch st =
     bind_r (fold_r (\<lambda>row table. bind_r (EvalGroupKey (ha_group_exprs st) batch row) (\<lambda>key.
               upsert_group key (MakeStates st) (update_states (ha_agg_calls st) batch row) table))
             (ForEachActiveRow batch) (ha_groups st))
       (\<lambda>table. Inr (st\<lparr>ha_groups := table\<rparr>))"

definition ConsumeGlobal :: "vector_batch \<Rightarrow> aggregate_state \<Rightarrow> aggregate_state result" where
  "ConsumeGlobal batch st =
     (let active = ActiveRowCount batch; calls = ha_agg_calls st in
      bind_r (fold_r (\<lambda>i states. bind_r (add_count (as_count (states ! i)) (int active)) (\<lambda>n.
                Inr (states[i := (states ! i)\<lparr>as_count := n\<rparr>])))
              (ha_count_star_calls st) (ha_global_states st)) (\<lambda>states.
      bind_r (if active = 0 \<or> ha_row_calls st = [] then Inr states
              else fold_r (\<lambda>row states. fold_r (\<lambda>i states. bind_r (UpdateAggregate (calls ! i) (states ! i) batch row) (\<lambda>s.
                     Inr (states[i := s]))) (ha_row_calls st) states) (ForEachActiveRow batch) states) (\<lambda>states.
        Inr (st\<lparr>ha_global_states := states\<rparr>))))"

definition Consume :: "vector_batch \<Rightarrow> aggregate_state \<Rightarrow> aggregate_state result" where
  "Consume batch st = (case ha_mode st of GLOBAL \<Rightarrow> ConsumeGlobal batch st | GROUPED_HASH \<Rightarrow> ConsumeGrouped batch st)"

subsection \<open>Merging\<close>

definition combine_states :: "agg_call list \<Rightarrow> agg_state list \<Rightarrow> agg_state list \<Rightarrow> agg_state list result" where
  "combine_states calls src dst = map_r (\<lambda>(call, d, s). CombineAggregate call d s) (zip calls (zip dst src))"

definition MergeGlobal :: "aggregate_state \<Rightarrow> aggregate_state \<Rightarrow> aggregate_state result" where
  "MergeGlobal other st =
     bind_r (combine_states (ha_agg_calls st) (ha_global_states other) (ha_global_states st)) (\<lambda>states.
       Inr (st\<lparr>ha_global_states := states\<rparr>))"

text \<open>\<open>order\<close>: the order in which the table is traversed.\<close>

definition MergeGrouped :: "(group_table \<Rightarrow> group_table) \<Rightarrow> aggregate_state \<Rightarrow> aggregate_state \<Rightarrow> aggregate_state result" where
  "MergeGrouped order other st =
     bind_r (fold_r (\<lambda>(key, src) table. upsert_group key (MakeStates st) (combine_states (ha_agg_calls st) src) table)
             (order (ha_groups other)) (ha_groups st))
       (\<lambda>table. Inr (st\<lparr>ha_groups := table\<rparr>))"

definition Merge :: "(group_table \<Rightarrow> group_table) \<Rightarrow> aggregate_state \<Rightarrow> aggregate_state \<Rightarrow> aggregate_state result" where
  "Merge order other st =
     (if ha_mode st \<noteq> ha_mode other then Inl (Runtime_error ''HashAggregateState::Merge: aggregate mode mismatch'')
      else (case ha_mode st of GLOBAL \<Rightarrow> MergeGlobal other st | GROUPED_HASH \<Rightarrow> MergeGrouped order other st))"

subsection \<open>The result\<close>

text \<open>\<open>v[i]\<close> and \<open>v.at(i)\<close>.\<close>

definition index_r :: "'a list \<Rightarrow> nat \<Rightarrow> 'a result" where
  "index_r xs i = (if i < length xs then Inr (xs ! i) else Inl Undefined_behaviour)"

definition at_r :: "'a list \<Rightarrow> nat \<Rightarrow> 'a result" where
  "at_r xs i = (if i < length xs then Inr (xs ! i) else Inl Out_of_range)"

definition output_column :: "nat \<Rightarrow> aggregate_output \<Rightarrow> column_data" where
  "output_column n spec = Column_Resize n (empty_column (ao_type spec))"

definition global_value :: "aggregate_state \<Rightarrow> aggregate_output \<Rightarrow> exec_value result" where
  "global_value st spec =
     bind_r (index_r (ha_agg_calls st) (ao_index spec)) (\<lambda>call.
     bind_r (index_r (ha_global_states st) (ao_index spec)) (FinalizeAggregate call))"

definition NextGlobalResult :: "aggregate_state \<Rightarrow> (vector_batch option \<times> aggregate_state) result" where
  "NextGlobalResult st =
     (if ha_global_emitted st then Inr (None, st)
      else if \<not> list_all (\<lambda>spec. ao_kind spec = AGGREGATE) (ha_outputs st)
      then Inl (Runtime_error ''HashAggregateState: GROUP_KEY output in global aggregate'')
      else
        bind_r (map_r (\<lambda>spec. bind_r (global_value st spec) (WriteExecValue (output_column 1 spec) 0)) (ha_outputs st)) (\<lambda>cols.
          Inr (Some (SetIdentitySelection 1 (ClearBatch empty_batch\<lparr>vb_columns := cols\<rparr>)), st\<lparr>ha_global_emitted := True\<rparr>)))"

definition group_value :: "agg_call list \<Rightarrow> group_key \<times> agg_state list \<Rightarrow> aggregate_output \<Rightarrow> exec_value result" where
  "group_value calls grp spec =
     (case ao_kind spec of
        GROUP_KEY \<Rightarrow> at_r (fst grp) (ao_index spec)
      | AGGREGATE \<Rightarrow> bind_r (at_r calls (ao_index spec)) (\<lambda>call. bind_r (at_r (snd grp) (ao_index spec)) (FinalizeAggregate call)))"

text \<open>One row of the output: every column in turn.\<close>

definition write_group ::
  "agg_call list \<Rightarrow> aggregate_output list \<Rightarrow> nat \<times> group_key \<times> agg_state list \<Rightarrow> column_data list \<Rightarrow> column_data list result" where
  "write_group calls outputs rg cols =
     map_r (\<lambda>(spec, c). bind_r (group_value calls (snd rg) spec) (WriteExecValue c (fst rg))) (zip outputs cols)"

definition NextGroupedResult ::
  "(group_table \<Rightarrow> group_table) \<Rightarrow> aggregate_state \<Rightarrow> (vector_batch option \<times> aggregate_state) result" where
  "NextGroupedResult order st =
     (let emit = (case ha_emit st of None \<Rightarrow> order (ha_groups st) | Some gs \<Rightarrow> gs) in
      if emit = [] then Inr (None, st\<lparr>ha_emit := Some []\<rparr>)
      else
        let rows = take kVectorBatchSize emit; n = length rows in
        bind_r (fold_r (write_group (ha_agg_calls st) (ha_outputs st)) (zip [0..<n] rows) (map (output_column n) (ha_outputs st))) (\<lambda>cols.
          Inr (Some (SetIdentitySelection n (ClearBatch empty_batch\<lparr>vb_columns := cols\<rparr>)),
               st\<lparr>ha_emit := Some (drop kVectorBatchSize emit)\<rparr>)))"

definition NextResult ::
  "(group_table \<Rightarrow> group_table) \<Rightarrow> aggregate_state \<Rightarrow> (vector_batch option \<times> aggregate_state) result" where
  "NextResult order st = (case ha_mode st of GLOBAL \<Rightarrow> NextGlobalResult st | GROUPED_HASH \<Rightarrow> NextGroupedResult order st)"

subsection \<open>The operator\<close>

record 's hash_aggregate =
  hg_child :: 's
  hg_state :: aggregate_state
  hg_consumed :: bool

definition new_hash_aggregate :: "exec_expr list \<Rightarrow> agg_call list \<Rightarrow> aggregate_output list \<Rightarrow> 's \<Rightarrow> 's hash_aggregate" where
  "new_hash_aggregate groups calls outputs s =
     \<lparr>hg_child = s, hg_state = new_aggregate_state groups calls outputs, hg_consumed = False\<rparr>"

partial_function (option) consume_all :: "'s operator_next \<Rightarrow> 's \<Rightarrow> aggregate_state \<Rightarrow> ('s \<times> aggregate_state) result option" where
  "consume_all child s st =
     Option.bind (child s) (\<lambda>r.
       case r of
         Inl e \<Rightarrow> Some (Inl e)
       | Inr (None, s) \<Rightarrow> Some (Inr (s, st))
       | Inr (Some batch, s) \<Rightarrow>
           (case Consume batch st of Inl e \<Rightarrow> Some (Inl e) | Inr st \<Rightarrow> consume_all child s st))"

definition HashAggregate_Next :: "(group_table \<Rightarrow> group_table) \<Rightarrow> 's operator_next \<Rightarrow> 's hash_aggregate operator_next" where
  "HashAggregate_Next order child op =
     Option.bind (if hg_consumed op then Some (Inr (hg_child op, hg_state op)) else consume_all child (hg_child op) (hg_state op)) (\<lambda>r.
       Some (bind_r r (\<lambda>(s, st). bind_r (NextResult order st) (\<lambda>(batch, st).
         Inr (batch, \<lparr>hg_child = s, hg_state = st, hg_consumed = True\<rparr>)))))"

end
