(* ===== verification/Aggregate_Summary.thy ===== *)
theory Aggregate_Summary
  imports Hash_Aggregate "HOL-Library.Multiset"
begin

text \<open>
  What the states of an aggregation say: a state is the summary of a list of integers, which the update and the
  combination extend and the finalization answers; a table of groups holds the summaries of its rows.
  Sums of integers are exact in extended precision as long as the absolute values add up to less
  than \<open>2 ^ 63\<close>; sums of floating-point numbers depend on the order of the rows and are not specified here.
\<close>

subsection \<open>The values an aggregate summarizes\<close>

text \<open>Sums of integers in extended precision are exact.\<close>

lemma f80_of_int_mag: "\<bar>n\<bar> < 2 ^ 64 \<Longrightarrow> ieee_mag (f80_of_int n) < ieee_inf 63 TYPE(79)"
  using is_int80_of_int [of n] by (simp add: is_int80_def)

lemma f80_add_of_int:
  assumes "\<bar>a\<bar> < 2 ^ 64" "\<bar>b\<bar> < 2 ^ 64"
  shows "f80_add (f80_of_int a) (f80_of_int b) = f80_of_int (a + b)"
proof -
  have neg: "ieee_neg (f80_of_int n) \<longleftrightarrow> n < 0" for n by (simp add: f80_of_int_def ieee_of_int_def)
  have both: "ieee_make (a < 0 \<and> b < 0) 0 = (ieee_make False 0 :: f80)" if "a + b = 0" using that by (cases "a < 0") simp_all
  have "fp_round 63 0 1 = 0" using fp_round_val [of 63 0] by (simp del: fp_round_val)
  then have zero: "ieee_round 63 False 0 (Suc 0) = (ieee_make False 0 :: f80)" by (simp add: ieee_round_def)
  have "ieee_units 63 (f80_of_int a) + ieee_units 63 (f80_of_int b) = (a + b) * 2 ^ f80_unit"
    using assms by (simp add: f80_units_int distrib_right)
  moreover have "(a + b) * 2 ^ f80_unit < 0 \<longleftrightarrow> a + b < 0" by (simp add: mult_less_0_iff)
  moreover have "nat \<bar>(a + b) * 2 ^ f80_unit\<bar> = nat \<bar>a + b\<bar> * 2 ^ f80_unit"
    by (simp add: abs_mult nat_mult_distrib nat_power_eq)
  ultimately show ?thesis
    using f80_of_int_mag [OF assms(1)] f80_of_int_mag [OF assms(2)]
    unfolding f80_add_def ieee_add_def Let_def
    by (auto simp: neg f80_of_int_def [of "a + b"] ieee_of_int_def zero both)
qed

text \<open>Rounding depends on the quotient only, so a double is the nearest one to the integer.\<close>

lemma f64_of_f80_of_int:
  assumes "\<bar>n\<bar> < 2 ^ 64"
  shows "f64_of_f80 (f80_of_int n) = f64_of_int n"
proof -
  let ?k = "nat \<bar>n\<bar>"
  have mag: "ieee_mag (f80_of_int n) < ieee_inf 63 TYPE(79)" by (rule f80_of_int_mag [OF assms])
  have neg: "ieee_neg (f80_of_int n) \<longleftrightarrow> n < 0" by (simp add: f80_of_int_def ieee_of_int_def)
  have "int (fp_val 63 (ieee_mag (f80_of_int n))) = \<bar>n\<bar> * 2 ^ f80_unit"
    using f80_units_int [OF assms] unfolding ieee_units_def neg by (cases "n < 0") simp_all
  then have "fp_val 63 (ieee_mag (f80_of_int n)) = ?k * 2 ^ f80_unit"
    by (metis abs_ge_zero nat_int nat_mult_distrib nat_power_eq zero_le_numeral of_nat_numeral nat_numeral)
  also have "\<dots> = (?k * 2 ^ 1074) * 2 ^ f64_shift" by (simp only: mult.assoc f80_shifts)
  finally have v: "fp_val 63 (ieee_mag (f80_of_int n)) = (?k * 2 ^ 1074) * 2 ^ f64_shift" .
  have "fp_round 52 (fp_val 63 (ieee_mag (f80_of_int n))) (2 ^ f64_shift) = fp_round 52 (?k * 2 ^ 1074) 1"
    using fp_round_scale [of "2 ^ f64_shift" 52 "?k * 2 ^ 1074" 1] unfolding v mult_1 by simp
  then show ?thesis
    using mag unfolding f64_of_f80_def ieee_narrow_def f64_of_int_def ieee_of_int_def ieee_nan_def neg ieee_round_def by simp
qed

definition arg_type :: "agg_call \<Rightarrow> data_type" where
  "arg_type call = (case ac_arg call of None \<Rightarrow> DT_INVALID | Some e \<Rightarrow> Exec_GetReturnType e)"

definition exec_int :: "data_type \<Rightarrow> int \<Rightarrow> exec_value" where
  "exec_int ty n = (if ty = DT_INT32 then EV_int32 (word_of_int n) else EV_int64 (word_of_int n))"

definition summary :: "agg_call \<Rightarrow> int list \<Rightarrow> agg_state" where
  "summary call ns =
     \<lparr>as_sum = f80_of_int (if ac_type call = AGG_SUM \<or> ac_type call = AGG_AVG then sum_list ns else 0),
      as_count = (if ac_type call = AGG_COUNT \<or> ac_type call = AGG_AVG then int (length ns) else 0),
      as_has_value = (ac_type call \<noteq> AGG_COUNT \<and> ns \<noteq> []),
      as_min_value = (if ac_type call = AGG_MIN \<and> ns \<noteq> [] then exec_int (arg_type call) (Min (set ns)) else EV_int32 0),
      as_max_value = (if ac_type call = AGG_MAX \<and> ns \<noteq> [] then exec_int (arg_type call) (Max (set ns)) else EV_int32 0)\<rparr>"

text \<open>What the aggregates answer on a list of integers.\<close>

definition answer :: "agg_call \<Rightarrow> int list \<Rightarrow> exec_value" where
  "answer call ns =
     (case ac_type call of
        AGG_COUNT \<Rightarrow> EV_int64 (word_of_int (int (length ns)))
      | AGG_SUM \<Rightarrow> EV_double (f64_of_int (sum_list ns))
      | AGG_AVG \<Rightarrow> EV_double (if ns = [] then f64_of_int 0
                              else f64_of_f80 (f80_div (f80_of_int (sum_list ns)) (f80_of_int (int (length ns)))))
      | AGG_MIN \<Rightarrow> exec_int (arg_type call) (if ns = [] then 0 else Min (set ns))
      | AGG_MAX \<Rightarrow> exec_int (arg_type call) (if ns = [] then 0 else Max (set ns))
      | AGG_INVALID \<Rightarrow> EV_bool False)"

definition in_type :: "data_type \<Rightarrow> int \<Rightarrow> bool" where
  "in_type ty n \<longleftrightarrow> - int_width ty \<le> n \<and> n < int_width ty"

definition numbers_ok :: "agg_call \<Rightarrow> int list \<Rightarrow> bool" where
  "numbers_ok call ns \<longleftrightarrow> int (length ns) < 2 ^ 63 \<and>
     (ac_type call = AGG_SUM \<or> ac_type call = AGG_AVG \<longrightarrow> (\<Sum>n\<leftarrow>ns. \<bar>n\<bar>) < 2 ^ 63) \<and>
     (ac_type call \<noteq> AGG_COUNT \<longrightarrow> (\<forall>n\<in>set ns. in_type (arg_type call) n))"

text \<open>The types the binder gives to the results of the aggregates.\<close>

definition call_typed :: "agg_call \<Rightarrow> bool" where
  "call_typed call \<longleftrightarrow>
     (case ac_type call of
        AGG_COUNT \<Rightarrow> True
      | AGG_SUM \<Rightarrow> ac_arg call \<noteq> None \<and> ac_result_type call = DT_DOUBLE
      | AGG_AVG \<Rightarrow> ac_arg call \<noteq> None
      | AGG_INVALID \<Rightarrow> False
      | _ \<Rightarrow> ac_arg call \<noteq> None \<and> ac_result_type call = arg_type call \<and> (arg_type call = DT_INT32 \<or> arg_type call = DT_INT64))"

definition call_reads :: "agg_call \<Rightarrow> vector_batch \<Rightarrow> nat \<Rightarrow> int \<Rightarrow> bool" where
  "call_reads call batch row n \<longleftrightarrow>
     (case ac_arg call of
        None \<Rightarrow> True
      | Some e \<Rightarrow> if ac_type call = AGG_COUNT then \<exists>v. Eval e batch row = Inr v
                  else Eval e batch row = Inr (exec_int (arg_type call) n))"

lemma in_type_bound: "in_type ty n \<Longrightarrow> \<bar>n\<bar> < 2 ^ 64"
  using int_width_le [of ty] by (auto simp: in_type_def)

lemma exec_int_number: "in_type ty n \<Longrightarrow> ExecValueAsNumber (exec_int ty n) = Inr (f80_of_int n)"
  using sint_int_width [of ty n] by (auto simp: in_type_def exec_int_def)

lemma compare_exec_int:
  assumes "in_type ty a" "in_type ty b"
  shows "CompareExecValues (exec_int ty a) (exec_int ty b) = Inr (sgn (a - b))"
proof -
  have "f80_lt (f80_of_int a) (f80_of_int b) \<longleftrightarrow> a < b" "f80_lt (f80_of_int b) (f80_of_int a) \<longleftrightarrow> b < a"
    using assms [THEN in_type_bound] by (simp_all add: ieee_lt_def f80_of_int_key)
  then show ?thesis using assms exec_int_number [of ty a] exec_int_number [of ty b]
    by (cases "ty = DT_INT32") (auto simp: CompareExecValues_def exec_int_def sgn_if)
qed

lemma sum_list_abs_le: "\<bar>sum_list ns\<bar> \<le> (\<Sum>n\<leftarrow>ns. \<bar>n :: int\<bar>)"
  by (induction ns) auto

lemma sum_list_abs_nonneg: "0 \<le> (\<Sum>n\<leftarrow>ns. \<bar>n :: int\<bar>)"
  by (induction ns) auto

lemma numbers_ok_append: "numbers_ok call (ns @ ms) \<Longrightarrow> numbers_ok call ns \<and> numbers_ok call ms"
  using sum_list_abs_nonneg [of ns] sum_list_abs_nonneg [of ms] by (auto simp: numbers_ok_def)

lemma numbers_ok_bound: "numbers_ok call ns \<Longrightarrow> ac_type call = AGG_SUM \<or> ac_type call = AGG_AVG \<Longrightarrow> \<bar>sum_list ns\<bar> < 2 ^ 63"
  using sum_list_abs_le [of ns] by (auto simp: numbers_ok_def)

lemma numbers_ok_minmax:
  assumes "numbers_ok call ns" "ac_type call \<noteq> AGG_COUNT" "ns \<noteq> []"
  shows "in_type (arg_type call) (Min (set ns))" "in_type (arg_type call) (Max (set ns))"
  using assms Min_in [of "set ns"] Max_in [of "set ns"] by (simp_all add: numbers_ok_def)

lemma summary_Nil: "summary call [] = new_agg_state"
  by (simp add: summary_def new_agg_state_def)

lemma summary_combine:
  assumes "numbers_ok call (ns @ ms)" "call_typed call"
  shows "CombineAggregate call (summary call ns) (summary call ms) = Inr (summary call (ns @ ms))"
proof -
  have ok: "numbers_ok call ns" "numbers_ok call ms" using numbers_ok_append [OF assms(1)] by simp_all
  have len: "int (length ns) + int (length ms) < 2 ^ 63" using assms(1) by (simp add: numbers_ok_def)
  note b = numbers_ok_bound [OF ok(1)] numbers_ok_bound [OF ok(2)]
  have add: "f80_add (f80_of_int (sum_list ns)) (f80_of_int (sum_list ms)) = f80_of_int (sum_list ns + sum_list ms)"
    if "ac_type call = AGG_SUM \<or> ac_type call = AGG_AVG" using b that by (intro f80_add_of_int) auto
  note mm = compare_exec_int [OF numbers_ok_minmax(1) [OF ok(2)] numbers_ok_minmax(1) [OF ok(1)]]
    compare_exec_int [OF numbers_ok_minmax(2) [OF ok(2)] numbers_ok_minmax(2) [OF ok(1)]]
  show ?thesis
  proof (cases "ns = [] \<or> ms = []")
    case True
    then show ?thesis using assms(2) len add
      by (cases "ac_type call") (auto simp: CombineAggregate_def summary_def add_count_def call_typed_def)
  next
    case False
    then have sets: "set ns \<noteq> {}" "set ms \<noteq> {}" "finite (set ns)" "finite (set ms)" by simp_all
    define lo lo' hi hi' where "lo = Min (set ns)" and "lo' = Min (set ms)" and "hi = Max (set ns)" and "hi' = Max (set ms)"
    have both: "Min (set (ns @ ms)) = min lo lo'" "Max (set (ns @ ms)) = max hi hi'"
      using Min_Un [OF sets(3,1,4,2)] Max_Un [OF sets(3,1,4,2)] by (simp_all add: lo_def lo'_def hi_def hi'_def)
    have summaries: "as_min_value (summary call ns) = (if ac_type call = AGG_MIN then exec_int (arg_type call) lo else EV_int32 0)"
      "as_min_value (summary call ms) = (if ac_type call = AGG_MIN then exec_int (arg_type call) lo' else EV_int32 0)"
      "as_max_value (summary call ns) = (if ac_type call = AGG_MAX then exec_int (arg_type call) hi else EV_int32 0)"
      "as_max_value (summary call ms) = (if ac_type call = AGG_MAX then exec_int (arg_type call) hi' else EV_int32 0)"
      using False by (simp_all add: summary_def lo_def lo'_def hi_def hi'_def)
    note cmp = mm [folded lo_def lo'_def hi_def hi'_def]
    have has: "as_has_value (summary call xs) = (ac_type call \<noteq> AGG_COUNT \<and> xs \<noteq> [])" for xs by (simp add: summary_def)
    consider "ac_type call = AGG_MIN" | "ac_type call = AGG_MAX" | "ac_type call \<noteq> AGG_MIN" "ac_type call \<noteq> AGG_MAX" by blast
    then show ?thesis
    proof cases
      case 1
      have "CompareExecValues (exec_int (arg_type call) lo') (exec_int (arg_type call) lo) = Inr (sgn (lo' - lo))"
        using cmp(1) 1 False by simp
      then have "CombineAggregate call (summary call ns) (summary call ms) =
          Inr (summary call ns\<lparr>as_min_value := exec_int (arg_type call) (min lo lo'), as_has_value := True\<rparr>)"
        using 1 False by (simp add: CombineAggregate_def has summaries min_def sgn_if)
      then show ?thesis using 1 False both(1) by (simp add: summary_def)
    next
      case 2
      have "CompareExecValues (exec_int (arg_type call) hi') (exec_int (arg_type call) hi) = Inr (sgn (hi' - hi))"
        using cmp(2) 2 False by simp
      then have "CombineAggregate call (summary call ns) (summary call ms) =
          Inr (summary call ns\<lparr>as_max_value := exec_int (arg_type call) (max hi hi'), as_has_value := True\<rparr>)"
        using 2 False by (simp add: CombineAggregate_def has summaries max_def sgn_if)
      then show ?thesis using 2 False both(2) by (simp add: summary_def)
    next
      case 3
      then show ?thesis using assms(2) len add False
        by (cases "ac_type call") (auto simp: CombineAggregate_def summary_def add_count_def call_typed_def)
    qed
  qed
qed

lemma summary_update:
  assumes "numbers_ok call (ns @ [n])" "call_typed call" "call_reads call batch row n"
  shows "UpdateAggregate call (summary call ns) batch row = Inr (summary call (ns @ [n]))"
proof -
  have ok: "numbers_ok call ns" "numbers_ok call [n]" using numbers_ok_append [OF assms(1)] by simp_all
  have len: "int (length ns) + 1 < 2 ^ 63" using assms(1) by (simp add: numbers_ok_def)
  show ?thesis
  proof (cases "ac_type call = AGG_COUNT")
    case True
    then show ?thesis using assms(3) len
      by (auto simp: UpdateAggregate_def summary_def call_reads_def add_count_def split: option.splits)
  next
    case False
    then obtain e where e: "ac_arg call = Some e" using assms(2) by (auto simp: call_typed_def split: agg_type.splits)
    have n: "in_type (arg_type call) n" using ok(2) False by (simp add: numbers_ok_def)
    have v: "Eval e batch row = Inr (exec_int (arg_type call) n)" using assms(3) e False by (simp add: call_reads_def)
    note mm = compare_exec_int [OF n numbers_ok_minmax(1) [OF ok(1) False]] compare_exec_int [OF n numbers_ok_minmax(2) [OF ok(1) False]]
    have combine: "CombineAggregate call (summary call ns) (summary call [n]) = UpdateAggregate call (summary call ns) batch row"
      using False e v exec_int_number [OF n] assms(2) mm
      by (cases "ac_type call") (auto simp: UpdateAggregate_def CombineAggregate_def summary_def call_typed_def)
    then show ?thesis using summary_combine [OF assms(1,2)] by simp
  qed
qed

lemma summary_finalize:
  assumes "numbers_ok call ns" "call_typed call"
  shows "FinalizeAggregate call (summary call ns) = Inr (answer call ns)"
proof -
  have zero: "f80_to_int (2 ^ 31) (f80_of_int 0) = Inr 0" "f80_to_int (2 ^ 63) (f80_of_int 0) = Inr 0"
    using is_int80_trunc [OF is_int80_of_int [of 0]] by simp_all
  have d: "f64_of_f80 (f80_of_int n) = f64_of_int n" if "\<bar>n\<bar> < 2 ^ 63" for n using that by (intro f64_of_f80_of_int) simp
  have "f64_of_f80 (f80_of_int 0) = f64_of_int 0" by (rule f64_of_f80_of_int) simp
  then show ?thesis using assms(2) d [OF numbers_ok_bound [OF assms(1)]] zero
    by (cases "ac_type call") (auto simp: FinalizeAggregate_def summary_def answer_def call_typed_def CastNumber_def exec_int_def)
qed

lemma summary_cong: "mset ns = mset ms \<Longrightarrow> summary call ns = summary call ms"
  using mset_eq_setD [of ns ms] mset_eq_length [of ns ms] sum_mset_sum_list [of ns] sum_mset_sum_list [of ms]
  by (auto simp: summary_def)

lemma answer_cong: "mset ns = mset ms \<Longrightarrow> answer call ns = answer call ms"
  using mset_eq_setD [of ns ms] mset_eq_length [of ns ms] sum_mset_sum_list [of ns] sum_mset_sum_list [of ms]
  by (auto simp: answer_def split: agg_type.splits)

lemma numbers_ok_cong: "mset ns = mset ms \<Longrightarrow> numbers_ok call ns = numbers_ok call ms"
  using mset_eq_setD [of ns ms] mset_eq_length [of ns ms] sum_mset_sum_list [of "map abs ns"] sum_mset_sum_list [of "map abs ms"]
  by (simp add: numbers_ok_def)

subsection \<open>Keys\<close>

text \<open>Values on which \<open>==\<close> is equality: no NaN and no negative zero.\<close>

definition exact_value :: "exec_value \<Rightarrow> bool" where
  "exact_value v =
     (case v of
        EV_float w \<Rightarrow> \<not> f32_nan w \<and> \<not> (ieee_neg w \<and> ieee_mag w = 0)
      | EV_double w \<Rightarrow> \<not> f64_nan w \<and> \<not> (ieee_neg w \<and> ieee_mag w = 0)
      | _ \<Rightarrow> True)"

lemma word_of_mag_neg:
  fixes a b :: "'a::len word"
  assumes "ieee_mag a = ieee_mag b" "ieee_neg a = ieee_neg b"
  shows "a = b"
proof -
  let ?h = "2 ^ (LENGTH('a) - 1) :: nat"
  have split: "unat w = (if ieee_neg w then ?h else 0) + ieee_mag w" for w :: "'a word"
  proof (cases "ieee_neg w")
    case True
    then have "?h \<le> unat w" by (simp add: ieee_neg_def)
    moreover have "unat w < 2 * ?h" using unsigned_less [of w, where 'a = nat] pow_length_split [where 'a = 'a] by simp
    ultimately have "ieee_mag w = unat w - ?h" unfolding ieee_mag_def by (subst le_mod_geq) simp_all
    then show ?thesis using True \<open>?h \<le> unat w\<close> by simp
  qed (simp add: ieee_neg_def ieee_mag_def)
  have "unat a = unat b" by (simp only: split assms)
  then show ?thesis by (rule iffD2 [OF word_unat_eq_iff])
qed

lemma ieee_key_inj:
  fixes a b :: "'a::len word"
  assumes "ieee_key a = ieee_key b" "\<not> (ieee_neg a \<and> ieee_mag a = 0)" "\<not> (ieee_neg b \<and> ieee_mag b = 0)"
  shows "a = b"
  using assms by (intro word_of_mag_neg) (auto simp: ieee_key_def split: if_splits)

lemma exact_value_equal: "exact_value v \<Longrightarrow> exact_value w \<Longrightarrow> exec_value_equal v w \<longleftrightarrow> v = w"
  by (cases v; cases w) (auto simp: exact_value_def ieee_eq_def intro: ieee_key_inj)

lemma exact_key_equal: "list_all exact_value k \<Longrightarrow> list_all exact_value k' \<Longrightarrow> group_key_equal k k' \<longleftrightarrow> k = k'"
proof (induction k arbitrary: k')
  case (Cons v k)
  then show ?case by (cases k') (auto simp: group_key_equal_def exact_value_equal)
qed (auto simp: group_key_equal_def)

subsection \<open>Tables of groups\<close>

text \<open>A row is taken with the key of its group and one number for each call.\<close>

type_synonym keyed = "group_key \<times> int list"

definition numbers_of :: "keyed list \<Rightarrow> group_key \<Rightarrow> nat \<Rightarrow> int list" where
  "numbers_of ts k i = map (\<lambda>t. snd t ! i) (filter (\<lambda>t. fst t = k) ts)"

definition states_of :: "agg_call list \<Rightarrow> keyed list \<Rightarrow> group_key \<Rightarrow> agg_state list" where
  "states_of calls ts k = map (\<lambda>i. summary (calls ! i) (numbers_of ts k i)) [0..<length calls]"

definition keyed_ok :: "agg_call list \<Rightarrow> keyed list \<Rightarrow> bool" where
  "keyed_ok calls ts \<longleftrightarrow> list_all call_typed calls \<and> (\<forall>t\<in>set ts. list_all exact_value (fst t)) \<and>
     (\<forall>i<length calls. numbers_ok (calls ! i) (map (\<lambda>t. snd t ! i) ts))"

definition is_table :: "agg_call list \<Rightarrow> keyed list \<Rightarrow> group_table \<Rightarrow> bool" where
  "is_table calls ts table \<longleftrightarrow> distinct (map fst table) \<and>
     map_of table = (\<lambda>k. if k \<in> fst ` set ts then Some (states_of calls ts k) else None)"

lemma sum_list_abs_filter: "(\<Sum>n\<leftarrow>map f (filter P ts). \<bar>n :: int\<bar>) \<le> (\<Sum>n\<leftarrow>map f ts. \<bar>n\<bar>)"
  by (induction ts) auto

lemma numbers_ok_filter:
  assumes "numbers_ok call (map f ts)"
  shows "numbers_ok call (map f (filter P ts))"
  unfolding numbers_ok_def
proof (intro conjI impI)
  have "int (length (map f (filter P ts))) \<le> int (length (map f ts))" by simp
  also have "\<dots> < 2 ^ 63" using assms unfolding numbers_ok_def by blast
  finally show "int (length (map f (filter P ts))) < 2 ^ 63" .
  show "(\<Sum>n\<leftarrow>map f (filter P ts). \<bar>n\<bar>) < 2 ^ 63" if "ac_type call = AGG_SUM \<or> ac_type call = AGG_AVG"
    using assms that sum_list_abs_filter [of f P ts] unfolding numbers_ok_def by linarith
  show "\<forall>n\<in>set (map f (filter P ts)). in_type (arg_type call) n" if "ac_type call \<noteq> AGG_COUNT"
    using assms that unfolding numbers_ok_def by (metis (mono_tags) filter_is_subset image_mono list.set_map subset_iff)
qed

lemma keyed_ok_numbers: "keyed_ok calls ts \<Longrightarrow> i < length calls \<Longrightarrow> numbers_ok (calls ! i) (numbers_of ts k i)"
  by (simp add: keyed_ok_def numbers_of_def numbers_ok_filter)

lemma keyed_ok_append: "keyed_ok calls (ts @ us) \<Longrightarrow> keyed_ok calls ts \<and> keyed_ok calls us"
  unfolding keyed_ok_def map_append set_append using numbers_ok_append by blast

lemma keyed_ok_cong:
  assumes "mset ts = mset us"
  shows "keyed_ok calls ts = keyed_ok calls us"
proof -
  have "numbers_ok call (map f ts) = numbers_ok call (map f us)" for call f
    by (rule numbers_ok_cong) (simp add: assms)
  then show ?thesis unfolding keyed_ok_def mset_eq_setD [OF assms] by presburger
qed

lemma numbers_of_append: "numbers_of (ts @ us) k i = numbers_of ts k i @ numbers_of us k i"
  by (simp add: numbers_of_def)

lemma numbers_of_cong: "mset ts = mset us \<Longrightarrow> mset (numbers_of ts k i) = mset (numbers_of us k i)"
  by (simp add: numbers_of_def)

lemma states_of_cong:
  assumes "mset ts = mset us"
  shows "states_of calls ts k = states_of calls us k"
  unfolding states_of_def by (intro map_cong refl summary_cong numbers_of_cong assms)

lemma states_of_none: "k \<notin> fst ` set ts \<Longrightarrow> states_of calls ts k = replicate (length calls) new_agg_state"
proof -
  assume "k \<notin> fst ` set ts"
  then have "filter (\<lambda>t. fst t = k) ts = []" by (auto simp: filter_empty_conv)
  then show ?thesis by (simp add: states_of_def numbers_of_def summary_Nil map_replicate_const)
qed

text \<open>The insertion finds the group of the key or adds it at the end.\<close>

lemma upsert_group_map:
  assumes "\<forall>k\<in>fst ` set table. list_all exact_value k" "list_all exact_value key" "distinct (map fst table)"
    and "f (case map_of table key of None \<Rightarrow> fresh | Some s \<Rightarrow> s) = Inr states"
  shows "\<exists>table'. upsert_group key fresh f table = Inr table' \<and> distinct (map fst table') \<and>
    fst ` set table' = insert key (fst ` set table) \<and> map_of table' = (map_of table)(key \<mapsto> states)"
  using assms
proof (induction table)
  case (Cons g table)
  obtain k s where g: "g = (k, s)" by (cases g)
  have eq: "group_key_equal k key \<longleftrightarrow> k = key" using Cons.prems(1,2) g by (auto simp: exact_key_equal)
  show ?case
  proof (cases "k = key")
    case True
    then show ?thesis using Cons.prems(3,4) g eq by (auto simp: image_iff)
  next
    case False
    have "\<forall>k\<in>fst ` set table. list_all exact_value k" "distinct (map fst table)"
      "f (case map_of table key of None \<Rightarrow> fresh | Some s \<Rightarrow> s) = Inr states"
      using Cons.prems g False by simp_all
    then obtain table' where t: "upsert_group key fresh f table = Inr table'" "distinct (map fst table')"
      "fst ` set table' = insert key (fst ` set table)" "map_of table' = (map_of table)(key \<mapsto> states)"
      using Cons.IH Cons.prems(2) by blast
    moreover have "k \<notin> fst ` set table'" using t(3) False Cons.prems(3) g by simp
    ultimately show ?thesis using False g eq by auto
  qed
qed simp

lemma is_table_keys: "is_table calls ts table \<Longrightarrow> fst ` set table = fst ` set ts"
  by (auto simp: is_table_def dom_map_of_conv_image_fst [symmetric] dom_def split: if_splits)

lemma is_table_upsert:
  assumes table: "is_table calls ts table" and ok: "keyed_ok calls (ts @ us)" and us: "us \<noteq> []" "\<forall>u\<in>set us. fst u = key"
    and f: "f (states_of calls ts key) = Inr (states_of calls (ts @ us) key)"
  shows "\<exists>table'. upsert_group key (replicate (length calls) new_agg_state) f table = Inr table' \<and> is_table calls (ts @ us) table'"
proof -
  have exact: "\<forall>k\<in>fst ` set table. list_all exact_value k" "list_all exact_value key"
    using ok us is_table_keys [OF table] by (auto simp: keyed_ok_def neq_Nil_conv)
  have d: "distinct (map fst table)" and m: "map_of table = (\<lambda>k. if k \<in> fst ` set ts then Some (states_of calls ts k) else None)"
    using table by (simp_all add: is_table_def)
  have "(case map_of table key of None \<Rightarrow> replicate (length calls) new_agg_state | Some s \<Rightarrow> s) = states_of calls ts key"
    unfolding m by (simp add: states_of_none)
  then obtain table' where t: "upsert_group key (replicate (length calls) new_agg_state) f table = Inr table'" "distinct (map fst table')"
      "map_of table' = (map_of table)(key \<mapsto> states_of calls (ts @ us) key)"
    using upsert_group_map [OF exact d, of f "replicate (length calls) new_agg_state"] f by auto
  have "fst ` set us = {key}" using us by (auto simp: neq_Nil_conv image_iff)
  moreover have "states_of calls (ts @ us) k = states_of calls ts k" if "k \<noteq> key" for k
  proof -
    have "filter (\<lambda>t. fst t = k) us = []" using us(2) that by (auto simp: filter_empty_conv)
    then show ?thesis by (simp add: states_of_def numbers_of_def)
  qed
  ultimately have "is_table calls (ts @ us) table'"
    using t(2,3) unfolding is_table_def m by (auto simp: fun_eq_iff image_Un)
  then show ?thesis using t(1) by blast
qed

lemma is_table_cong: "mset ts = mset us \<Longrightarrow> is_table calls ts table = is_table calls us table"
  using mset_eq_setD [of ts us] states_of_cong [of ts us] unfolding is_table_def by presburger

lemma is_table_order:
  assumes "is_table calls ts table" "mset table' = mset table"
  shows "is_table calls ts table'"
proof -
  have "distinct (map fst table')" using assms by (metis is_table_def mset_map mset_eq_imp_distinct_iff)
  moreover have "map_of table' = map_of table"
  proof (rule iffD2 [OF map_of_inject_set])
    show "distinct (map fst table')" "distinct (map fst table)" using calculation assms(1) by (simp_all add: is_table_def)
    show "set table' = set table" by (rule mset_eq_setD [OF assms(2)])
  qed
  ultimately show ?thesis using assms(1) by (simp add: is_table_def)
qed

end
