(* ===== verification/Aggregate_Exact.thy ===== *)
theory Aggregate_Exact
  imports Aggregate_Summary
begin

text \<open>
  The aggregation computes the answer to a GROUP BY: every operation on the state, the batches it
  emits and the operator are related to the summaries of the rows consumed so far.
\<close>

subsection \<open>The operations on tables\<close>

definition row_number :: "data_type list \<Rightarrow> agg_call \<Rightarrow> bytes list \<Rightarrow> int" where
  "row_number types call row =
     (case ac_arg call of
        None \<Rightarrow> 0
      | Some e \<Rightarrow> (case row_eval types e row of Inr (EV_int32 w) \<Rightarrow> sint w | Inr (EV_int64 w) \<Rightarrow> sint w | _ \<Rightarrow> 0))"

definition row_group_key :: "data_type list \<Rightarrow> exec_expr list \<Rightarrow> bytes list \<Rightarrow> group_key" where
  "row_group_key types groups row = (case map_r (\<lambda>e. row_eval types e row) groups of Inr k \<Rightarrow> k | Inl _ \<Rightarrow> [])"

definition keyed_row :: "data_type list \<Rightarrow> exec_expr list \<Rightarrow> agg_call list \<Rightarrow> bytes list \<Rightarrow> keyed" where
  "keyed_row types groups calls row = (row_group_key types groups row, map (\<lambda>call. row_number types call row) calls)"

text \<open>The keys and the arguments have values on the row, and the arguments of sums and extrema are integers.\<close>

definition row_aggregable :: "data_type list \<Rightarrow> exec_expr list \<Rightarrow> agg_call list \<Rightarrow> bytes list \<Rightarrow> bool" where
  "row_aggregable types groups calls row \<longleftrightarrow> (\<exists>k. map_r (\<lambda>e. row_eval types e row) groups = Inr k) \<and>
     (\<forall>call\<in>set calls. case ac_arg call of
        None \<Rightarrow> True
      | Some e \<Rightarrow> if ac_type call = AGG_COUNT then \<exists>v. row_eval types e row = Inr v
                  else row_eval types e row = Inr (exec_int (arg_type call) (row_number types call row)))"

definition aggregable :: "data_type list \<Rightarrow> exec_expr list \<Rightarrow> agg_call list \<Rightarrow> bytes list list \<Rightarrow> bool" where
  "aggregable types groups calls rows \<longleftrightarrow> (\<forall>row\<in>set rows. row_aggregable types groups calls row) \<and>
     keyed_ok calls (map (keyed_row types groups calls) rows)"

abbreviation keyed_rows :: "data_type list \<Rightarrow> exec_expr list \<Rightarrow> agg_call list \<Rightarrow> bytes list list \<Rightarrow> keyed list" where
  "keyed_rows types groups calls rows \<equiv> map (keyed_row types groups calls) rows"

lemma ForEachActiveRow_rows: "batch_ok b \<Longrightarrow> ForEachActiveRow b = mask_rows (vb_selection b)"
proof -
  assume b: "batch_ok b"
  then have m: "mask_inv (vb_selection b)" "vb_size b = Mask_Count (vb_selection b)" by (simp_all add: batch_ok_def)
  show ?thesis
  proof (cases "IsAll (vb_selection b)")
    case True
    then have "mask_rows (vb_selection b) = [0..<mask_row_count (vb_selection b)]"
      using IsAll_iff [OF m(1)] by (auto simp: mask_rows_def filter_id_conv)
    then show ?thesis using True m by (simp add: ForEachActiveRow_def IsDense_def Mask_Count_length ForEachSetBit_rows)
  qed (simp add: ForEachActiveRow_def IsDense_def ForEachSetBit_rows [OF m(1)])
qed

lemma update_states_of:
  assumes "keyed_ok calls (ts @ [t])" "\<forall>i<length calls. call_reads (calls ! i) batch row (snd t ! i)"
  shows "update_states calls batch row (states_of calls ts (fst t)) = Inr (states_of calls (ts @ [t]) (fst t))"
proof -
  have "UpdateAggregate (calls ! i) (summary (calls ! i) (numbers_of ts (fst t) i)) batch row =
      Inr (summary (calls ! i) (numbers_of (ts @ [t]) (fst t) i))" if i: "i < length calls" for i
  proof -
    have "numbers_of (ts @ [t]) (fst t) i = numbers_of ts (fst t) i @ [snd t ! i]" by (simp add: numbers_of_def)
    moreover have "call_typed (calls ! i)" using assms(1) i by (simp add: keyed_ok_def list_all_length)
    ultimately show ?thesis using summary_update keyed_ok_numbers [OF assms(1) i, of "fst t"] assms(2) i by simp
  qed
  moreover have "zip calls (states_of calls ts (fst t)) =
      map (\<lambda>i. (calls ! i, summary (calls ! i) (numbers_of ts (fst t) i))) [0..<length calls]"
    by (intro nth_equalityI) (simp_all add: states_of_def)
  ultimately show ?thesis
    by (simp add: update_states_def map_r_map states_of_def [of calls "ts @ [t]"]) (rule map_r_all_Inr, simp)
qed

lemma combine_states_of:
  assumes "keyed_ok calls (ts @ us)"
  shows "combine_states calls (states_of calls us k) (states_of calls ts k) = Inr (states_of calls (ts @ us) k)"
proof -
  have "CombineAggregate (calls ! i) (summary (calls ! i) (numbers_of ts k i)) (summary (calls ! i) (numbers_of us k i)) =
      Inr (summary (calls ! i) (numbers_of (ts @ us) k i))" if i: "i < length calls" for i
    using summary_combine keyed_ok_numbers [OF assms i, of k] assms i
    by (simp add: keyed_ok_def list_all_length numbers_of_append)
  moreover have "zip calls (zip (states_of calls ts k) (states_of calls us k)) =
      map (\<lambda>i. (calls ! i, summary (calls ! i) (numbers_of ts k i), summary (calls ! i) (numbers_of us k i))) [0..<length calls]"
    by (intro nth_equalityI) (simp_all add: states_of_def)
  ultimately show ?thesis
    by (simp add: combine_states_def map_r_map states_of_def [of calls "ts @ us"]) (rule map_r_all_Inr, simp)
qed

text \<open>What the model of a row says of an active row of a batch.\<close>

lemma reads_row:
  assumes b: "batch_ok b" "map cd_type (vb_columns b) = types" "r \<in> set (mask_rows (vb_selection b))"
    and row: "row_aggregable types groups calls (batch_row b r)"
  shows "EvalGroupKey groups b r = Inr (row_group_key types groups (batch_row b r))"
    and "i < length calls \<Longrightarrow> call_reads (calls ! i) b r (row_number types (calls ! i) (batch_row b r))"
proof -
  have r: "r < mask_row_count (vb_selection b)" using mask_rows_less [OF b(3)] by simp
  note ev = Eval_row [OF b(1) r b(2)]
  show "EvalGroupKey groups b r = Inr (row_group_key types groups (batch_row b r))"
    using row by (auto simp: EvalGroupKey_def ev row_group_key_def row_aggregable_def)
  show "call_reads (calls ! i) b r (row_number types (calls ! i) (batch_row b r))" if "i < length calls"
    using row nth_mem [OF that] by (auto simp: call_reads_def ev row_aggregable_def split: option.splits if_splits)
qed

lemma grouped_rows:
  assumes b: "batch_ok b" "map cd_type (vb_columns b) = types"
    and "set rs \<subseteq> set (mask_rows (vb_selection b))" "\<forall>r\<in>set rs. row_aggregable types groups calls (batch_row b r)"
    and "is_table calls ts table" "keyed_ok calls (ts @ keyed_rows types groups calls (map (batch_row b) rs))"
  shows "\<exists>table'. fold_r (\<lambda>row table. bind_r (EvalGroupKey groups b row) (\<lambda>key.
      upsert_group key (replicate (length calls) new_agg_state) (update_states calls b row) table)) rs table = Inr table' \<and>
    is_table calls (ts @ keyed_rows types groups calls (map (batch_row b) rs)) table'"
  using assms(3-6)
proof (induction rs arbitrary: ts table)
  case (Cons r rs)
  let ?t = "keyed_row types groups calls (batch_row b r)"
  have mem: "r \<in> set (mask_rows (vb_selection b))" "row_aggregable types groups calls (batch_row b r)" using Cons.prems(1,2) by simp_all
  have ok: "keyed_ok calls (ts @ [?t])"
    using Cons.prems(4) keyed_ok_append [of calls "ts @ [?t]"] by simp
  have "update_states calls b r (states_of calls ts (fst ?t)) = Inr (states_of calls (ts @ [?t]) (fst ?t))"
    using update_states_of [OF ok] reads_row(2) [OF b mem] by (simp add: keyed_row_def)
  from is_table_upsert [where us = "[?t]" and key = "fst ?t" and f = "update_states calls b r", OF Cons.prems(3) ok _ _ this] obtain table1 where t1:
    "upsert_group (fst ?t) (replicate (length calls) new_agg_state) (update_states calls b r) table = Inr table1"
    "is_table calls (ts @ [?t]) table1" by auto
  from Cons.IH [OF _ _ t1(2)] Cons.prems(1,2,4) t1(1) reads_row(1) [OF b mem] show ?case
    by (simp add: keyed_row_def)
qed simp

subsection \<open>Merging tables\<close>

lemma groups_partition:
  "distinct ks \<Longrightarrow> mset (concat (map (\<lambda>k. filter (\<lambda>t. fst t = k) us) ks)) = mset (filter (\<lambda>t. fst t \<in> set ks) us)"
proof (induction ks)
  case (Cons k ks)
  have "mset (filter (\<lambda>t. fst t \<in> set (k # ks)) us) = mset (filter (\<lambda>t. fst t = k) us) + mset (filter (\<lambda>t. fst t \<in> set ks) us)"
    using Cons.prems by (intro multiset_eqI) auto
  then show ?case using Cons by simp
qed simp

lemma merged_groups:
  assumes "\<forall>g\<in>set gs. snd g = states_of calls us (fst g) \<and> fst g \<in> fst ` set us"
    and "is_table calls ts table" "keyed_ok calls (ts @ concat (map (\<lambda>g. filter (\<lambda>t. fst t = fst g) us) gs))"
  shows "\<exists>table'. fold_r (\<lambda>(key, src) table. upsert_group key (replicate (length calls) new_agg_state) (combine_states calls src) table) gs table = Inr table' \<and>
    is_table calls (ts @ concat (map (\<lambda>g. filter (\<lambda>t. fst t = fst g) us) gs)) table'"
  using assms
proof (induction gs arbitrary: ts table)
  case (Cons g gs)
  let ?us = "filter (\<lambda>t. fst t = fst g) us"
  have ok: "keyed_ok calls (ts @ ?us)"
    using Cons.prems(3) keyed_ok_append [of calls "ts @ ?us"] by simp
  have ne: "?us \<noteq> []" using Cons.prems(1) by (force simp: filter_empty_conv)
  have "states_of calls us (fst g) = states_of calls ?us (fst g)" by (simp add: states_of_def numbers_of_def)
  then have "combine_states calls (snd g) (states_of calls ts (fst g)) = Inr (states_of calls (ts @ ?us) (fst g))"
    using combine_states_of [OF ok, of "fst g"] Cons.prems(1) by simp
  from is_table_upsert [where us = ?us and key = "fst g" and f = "combine_states calls (snd g)", OF Cons.prems(2) ok ne _ this] obtain table1 where t1:
    "upsert_group (fst g) (replicate (length calls) new_agg_state) (combine_states calls (snd g)) table = Inr table1"
    "is_table calls (ts @ ?us) table1" by auto
  from Cons.IH [OF _ t1(2)] Cons.prems(1,3) t1(1) show ?case by (simp add: case_prod_beta)
qed simp

lemma merged_tables:
  assumes "is_table calls ts table" "is_table calls us other" "keyed_ok calls (ts @ us)" "mset gs = mset other"
  shows "\<exists>table'. fold_r (\<lambda>(key, src) table. upsert_group key (replicate (length calls) new_agg_state) (combine_states calls src) table) gs table = Inr table' \<and>
    is_table calls (ts @ us) table'"
proof -
  have gs: "is_table calls us gs" by (rule is_table_order [OF assms(2,4)])
  then have d: "distinct (map fst gs)" by (simp add: is_table_def)
  have states: "\<forall>g\<in>set gs. snd g = states_of calls us (fst g) \<and> fst g \<in> fst ` set us"
  proof
    fix g assume g: "g \<in> set gs"
    then have "map_of gs (fst g) = Some (snd g)" using d by (simp add: map_of_is_SomeI)
    then show "snd g = states_of calls us (fst g) \<and> fst g \<in> fst ` set us" using gs by (auto simp: is_table_def split: if_splits)
  qed
  have "filter (\<lambda>t. fst t \<in> set (map fst gs)) us = us" using is_table_keys [OF gs] by (auto simp: filter_id_conv)
  then have part: "mset (concat (map (\<lambda>g. filter (\<lambda>t. fst t = fst g) us) gs)) = mset us"
    using groups_partition [OF d, of us] by (simp add: comp_def)
  then have eq: "mset (ts @ concat (map (\<lambda>g. filter (\<lambda>t. fst t = fst g) us) gs)) = mset (ts @ us)" by simp
  have "keyed_ok calls (ts @ concat (map (\<lambda>g. filter (\<lambda>t. fst t = fst g) us) gs))" using assms(3) keyed_ok_cong [OF eq] by simp
  from merged_groups [OF states assms(1) this] show ?thesis using is_table_cong [OF eq] by auto
qed

subsection \<open>The aggregation without groups\<close>

lemma fold_r_indices:
  assumes "distinct is'" "\<forall>i\<in>set is'. i < length xs \<and> g i (xs ! i) = Inr (h i)"
  shows "fold_r (\<lambda>i xs. bind_r (g i (xs ! i)) (\<lambda>s. Inr (xs[i := s]))) is' xs =
    Inr (map (\<lambda>i. if i \<in> set is' then h i else xs ! i) [0..<length xs])"
  using assms
proof (induction is' arbitrary: xs)
  case Nil
  then show ?case by (simp add: map_nth)
next
  case (Cons i is')
  have i: "i < length xs" "g i (xs ! i) = Inr (h i)" using Cons.prems(2) by simp_all
  have "fold_r (\<lambda>i xs. bind_r (g i (xs ! i)) (\<lambda>s. Inr (xs[i := s]))) is' (xs[i := h i]) =
      Inr (map (\<lambda>j. if j \<in> set is' then h j else xs[i := h i] ! j) [0..<length (xs[i := h i])])"
    using Cons.prems by (intro Cons.IH) (auto simp: nth_list_update)
  then show ?case using i Cons.prems(1) by (auto simp: nth_list_update intro!: map_cong)
qed

text \<open>The counts of rows are ahead of the other aggregates, which are updated row by row.\<close>

definition global_states :: "agg_call list \<Rightarrow> keyed list \<Rightarrow> keyed list \<Rightarrow> agg_state list" where
  "global_states calls ts us =
     map (\<lambda>i. summary (calls ! i) (map (\<lambda>t. snd t ! i) (if count_star (calls ! i) then ts else us))) [0..<length calls]"

lemma global_states_same: "\<forall>t\<in>set ts. fst t = [] \<Longrightarrow> global_states calls ts ts = states_of calls ts []"
  by (simp add: global_states_def states_of_def numbers_of_def filter_id_conv [THEN iffD2])

lemma global_states_sel: "i < length calls \<Longrightarrow>
    global_states calls ts us ! i = summary (calls ! i) (map (\<lambda>t. snd t ! i) (if count_star (calls ! i) then ts else us))"
  "length (global_states calls ts us) = length calls"
  by (simp_all add: global_states_def)

lemma global_counts:
  assumes "keyed_ok calls (ts @ us)"
  shows "fold_r (\<lambda>i states. bind_r (add_count (as_count (states ! i)) (int (length us))) (\<lambda>n. Inr (states[i := (states ! i)\<lparr>as_count := n\<rparr>])))
      (filter (\<lambda>i. count_star (calls ! i)) [0..<length calls]) (global_states calls ts ts) = Inr (global_states calls (ts @ us) ts)"
proof -
  let ?stars = "filter (\<lambda>i. count_star (calls ! i)) [0..<length calls]"
  let ?g = "\<lambda>i s. bind_r (add_count (as_count s) (int (length us))) (\<lambda>n. Inr (s\<lparr>as_count := n\<rparr>))"
  let ?h = "\<lambda>i. summary (calls ! i) (map (\<lambda>t. snd t ! i) (ts @ us))"
  have "?g i (global_states calls ts ts ! i) = Inr (?h i)" if i: "i < length calls" "count_star (calls ! i)" for i
  proof -
    have "int (length (ts @ us)) < 2 ^ 63" using assms i(1) by (simp add: keyed_ok_def numbers_ok_def)
    then show ?thesis using i by (simp add: global_states_sel add_count_def summary_def count_star_def)
  qed
  then have "fold_r (\<lambda>i xs. bind_r (?g i (xs ! i)) (\<lambda>s. Inr (xs[i := s]))) ?stars (global_states calls ts ts) =
      Inr (map (\<lambda>i. if i \<in> set ?stars then ?h i else global_states calls ts ts ! i) [0..<length calls])"
    using fold_r_indices [of ?stars "global_states calls ts ts" ?g ?h] by (simp add: global_states_sel)
  moreover have "map (\<lambda>i. if i \<in> set ?stars then ?h i else global_states calls ts ts ! i) [0..<length calls] = global_states calls (ts @ us) ts"
    by (auto simp: global_states_def)
  ultimately show ?thesis by (simp add: bind_r_assoc)
qed

lemma global_row:
  assumes "keyed_ok calls (us @ [t])" "\<forall>i<length calls. call_reads (calls ! i) b r (snd t ! i)"
  shows "fold_r (\<lambda>i states. bind_r (UpdateAggregate (calls ! i) (states ! i) b r) (\<lambda>s. Inr (states[i := s])))
      (filter (\<lambda>i. \<not> count_star (calls ! i)) [0..<length calls]) (global_states calls ts us) = Inr (global_states calls ts (us @ [t]))"
proof -
  let ?rows = "filter (\<lambda>i. \<not> count_star (calls ! i)) [0..<length calls]"
  let ?h = "\<lambda>i. summary (calls ! i) (map (\<lambda>t. snd t ! i) (us @ [t]))"
  have "UpdateAggregate (calls ! i) (global_states calls ts us ! i) b r = Inr (?h i)" if i: "i < length calls" "\<not> count_star (calls ! i)" for i
    using summary_update [of "calls ! i" "map (\<lambda>t. snd t ! i) us" "snd t ! i" b r] assms i
    by (simp add: global_states_sel keyed_ok_def list_all_length)
  then have "fold_r (\<lambda>i states. bind_r (UpdateAggregate (calls ! i) (states ! i) b r) (\<lambda>s. Inr (states[i := s]))) ?rows (global_states calls ts us) =
      Inr (map (\<lambda>i. if i \<in> set ?rows then ?h i else global_states calls ts us ! i) [0..<length calls])"
    using fold_r_indices [of ?rows "global_states calls ts us" "\<lambda>i s. UpdateAggregate (calls ! i) s b r" ?h] by (simp add: global_states_sel)
  moreover have "map (\<lambda>i. if i \<in> set ?rows then ?h i else global_states calls ts us ! i) [0..<length calls] = global_states calls ts (us @ [t])"
    by (auto simp: global_states_def)
  ultimately show ?thesis by simp
qed

lemma global_rows:
  assumes b: "batch_ok b" "map cd_type (vb_columns b) = types"
    and "set rs \<subseteq> set (mask_rows (vb_selection b))" "\<forall>r\<in>set rs. row_aggregable types groups calls (batch_row b r)"
    and "keyed_ok calls (us @ keyed_rows types groups calls (map (batch_row b) rs))"
  shows "fold_r (\<lambda>row states. fold_r (\<lambda>i states. bind_r (UpdateAggregate (calls ! i) (states ! i) b row) (\<lambda>s. Inr (states[i := s])))
      (filter (\<lambda>i. \<not> count_star (calls ! i)) [0..<length calls]) states) rs (global_states calls ts us) =
    Inr (global_states calls ts (us @ keyed_rows types groups calls (map (batch_row b) rs)))"
  using assms(3-5)
proof (induction rs arbitrary: us)
  case (Cons r rs)
  let ?t = "keyed_row types groups calls (batch_row b r)"
  have mem: "r \<in> set (mask_rows (vb_selection b))" "row_aggregable types groups calls (batch_row b r)" using Cons.prems(1,2) by simp_all
  have ok: "keyed_ok calls (us @ [?t])" using Cons.prems(3) keyed_ok_append [of calls "us @ [?t]"] by simp
  have "\<forall>i<length calls. call_reads (calls ! i) b r (snd ?t ! i)" using reads_row(2) [OF b mem] by (simp add: keyed_row_def)
  from global_row [OF ok this] show ?case using Cons.IH [of "us @ [?t]"] Cons.prems by simp
qed simp

subsection \<open>The state after a list of rows\<close>

definition aggregates :: "exec_expr list \<Rightarrow> agg_call list \<Rightarrow> aggregate_output list \<Rightarrow> keyed list \<Rightarrow> aggregate_state \<Rightarrow> bool" where
  "aggregates groups calls outputs ts st \<longleftrightarrow>
     (\<exists>table states. st = (new_aggregate_state groups calls outputs)\<lparr>ha_groups := table, ha_global_states := states\<rparr> \<and>
        (if groups = [] then table = [] \<and> states = states_of calls ts [] else states = [] \<and> is_table calls ts table))"

lemma aggregates_new: "aggregates groups calls outputs [] (new_aggregate_state groups calls outputs)"
proof -
  have "states_of calls [] [] = replicate (length calls) new_agg_state" by (rule states_of_none) simp
  then show ?thesis unfolding aggregates_def
    by (intro exI [of _ "[]"] exI [of _ "ha_global_states (new_aggregate_state groups calls outputs)"])
      (simp add: new_aggregate_state_def is_table_def)
qed

lemma aggregates_cong: "mset ts = mset us \<Longrightarrow> aggregates groups calls outputs ts st = aggregates groups calls outputs us st"
  using is_table_cong [of ts us] states_of_cong [of ts us] unfolding aggregates_def by presburger

lemma keyed_row_no_groups: "fst (keyed_row types [] calls row) = []"
  by (simp add: keyed_row_def row_group_key_def)

lemma aggregable_append:
  assumes "aggregable types groups calls (rows @ rows')"
  shows "aggregable types groups calls rows" "aggregable types groups calls rows'"
    "keyed_ok calls (keyed_rows types groups calls rows @ keyed_rows types groups calls rows')"
proof -
  show k: "keyed_ok calls (keyed_rows types groups calls rows @ keyed_rows types groups calls rows')"
    using assms by (simp add: aggregable_def)
  show "aggregable types groups calls rows" "aggregable types groups calls rows'"
    using assms keyed_ok_append [OF k] by (simp_all add: aggregable_def)
qed

lemma aggregable_cong:
  assumes "mset rows = mset rows'"
  shows "aggregable types groups calls rows = aggregable types groups calls rows'"
proof -
  have "mset (keyed_rows types groups calls rows) = mset (keyed_rows types groups calls rows')" using assms by simp
  then show ?thesis using keyed_ok_cong mset_eq_setD [OF assms] unfolding aggregable_def by metis
qed

lemma active_rows_facts:
  assumes "batch_ok b"
  shows "active_rows b = map (batch_row b) (mask_rows (vb_selection b))" "vb_size b = length (active_rows b)"
  using assms by (simp_all add: active_rows_batch batch_ok_def Mask_Count_length ForEachSetBit_rows)

lemma ConsumeGlobal_rows:
  assumes b: "batch_ok b" "map cd_type (vb_columns b) = types" and ok: "aggregable types [] calls (rows @ active_rows b)"
    and st: "aggregates [] calls outputs (keyed_rows types [] calls rows) st"
  shows "\<exists>st'. ConsumeGlobal b st = Inr st' \<and> aggregates [] calls outputs (keyed_rows types [] calls (rows @ active_rows b)) st'"
proof -
  let ?ts = "keyed_rows types [] calls rows" and ?us = "keyed_rows types [] calls (active_rows b)"
  let ?star = "filter (\<lambda>i. count_star (calls ! i)) [0..<length calls]" and ?rest = "filter (\<lambda>i. \<not> count_star (calls ! i)) [0..<length calls]"
  have nokey: "\<forall>t\<in>set ?ts. fst t = []" "\<forall>t\<in>set (?ts @ ?us). fst t = []" by (auto simp: keyed_row_no_groups)
  have st_eq: "st = (new_aggregate_state [] calls outputs)\<lparr>ha_groups := [], ha_global_states := global_states calls ?ts ?ts\<rparr>"
    using st by (auto simp: aggregates_def global_states_same [OF nokey(1)])
  have kok: "keyed_ok calls (?ts @ ?us)" and rok: "\<forall>r\<in>set (mask_rows (vb_selection b)). row_aggregable types [] calls (batch_row b r)"
    using ok aggregable_append(3) [OF ok] by (auto simp: aggregable_def active_rows_batch)
  have counts: "fold_r (\<lambda>i states. bind_r (add_count (as_count (states ! i)) (int (vb_size b))) (\<lambda>n.
      Inr (states[i := (states ! i)\<lparr>as_count := n\<rparr>]))) ?star (global_states calls ?ts ?ts) = Inr (global_states calls (?ts @ ?us) ?ts)"
    using global_counts [OF kok] by (simp add: active_rows_facts(2) [OF b(1)])
  have rows: "fold_r (\<lambda>row states. fold_r (\<lambda>i states. bind_r (UpdateAggregate (calls ! i) (states ! i) b row) (\<lambda>s. Inr (states[i := s]))) ?rest states)
      (ForEachActiveRow b) (global_states calls (?ts @ ?us) ?ts) = Inr (global_states calls (?ts @ ?us) (?ts @ ?us))"
    using global_rows [OF b order_refl rok] kok by (simp add: ForEachActiveRow_rows [OF b(1)] active_rows_batch)
  have none: "global_states calls (?ts @ ?us) ?ts = global_states calls (?ts @ ?us) (?ts @ ?us)" if "vb_size b = 0 \<or> ?rest = []"
  proof (cases "?rest = []")
    case True
    then show ?thesis by (auto simp: global_states_def filter_empty_conv)
  qed (use that active_rows_facts(2) [OF b(1)] in simp)
  have "ConsumeGlobal b st = Inr (st\<lparr>ha_global_states := global_states calls (?ts @ ?us) (?ts @ ?us)\<rparr>)"
    using counts rows none by (auto simp: ConsumeGlobal_def Let_def st_eq new_aggregate_state_def ActiveRowCount_def)
  moreover have "global_states calls (?ts @ ?us) (?ts @ ?us) = states_of calls (?ts @ ?us) []" by (rule global_states_same [OF nokey(2)])
  ultimately show ?thesis by (auto simp: aggregates_def st_eq)
qed

lemma ConsumeGrouped_rows:
  assumes b: "batch_ok b" "map cd_type (vb_columns b) = types" and ok: "aggregable types groups calls (rows @ active_rows b)"
    and st: "aggregates groups calls outputs (keyed_rows types groups calls rows) st" and "groups \<noteq> []"
  shows "\<exists>st'. ConsumeGrouped b st = Inr st' \<and> aggregates groups calls outputs (keyed_rows types groups calls (rows @ active_rows b)) st'"
proof -
  obtain table where table: "st = (new_aggregate_state groups calls outputs)\<lparr>ha_groups := table, ha_global_states := []\<rparr>"
      "is_table calls (keyed_rows types groups calls rows) table"
    using st \<open>groups \<noteq> []\<close> by (auto simp: aggregates_def)
  have "keyed_ok calls (keyed_rows types groups calls rows @ keyed_rows types groups calls (map (batch_row b) (mask_rows (vb_selection b))))"
    "\<forall>r\<in>set (mask_rows (vb_selection b)). row_aggregable types groups calls (batch_row b r)"
    using ok aggregable_append(3) [OF ok] by (auto simp: aggregable_def active_rows_batch)
  from grouped_rows [OF b order_refl this(2) table(2) this(1)] obtain table' where
    "fold_r (\<lambda>row table. bind_r (EvalGroupKey groups b row) (\<lambda>key. upsert_group key (replicate (length calls) new_agg_state)
       (update_states calls b row) table)) (mask_rows (vb_selection b)) table = Inr table'"
    "is_table calls (keyed_rows types groups calls rows @ keyed_rows types groups calls (map (batch_row b) (mask_rows (vb_selection b)))) table'"
    by blast
  then show ?thesis using \<open>groups \<noteq> []\<close>
    by (auto simp: ConsumeGrouped_def table(1) new_aggregate_state_def MakeStates_def ForEachActiveRow_rows [OF b(1)] aggregates_def active_rows_batch)
qed

lemma aggregates_mode: "aggregates groups calls outputs ts st \<Longrightarrow> ha_mode st = (if groups = [] then GLOBAL else GROUPED_HASH)"
  by (auto simp: aggregates_def new_aggregate_state_def)

lemma Consume_rows:
  assumes "batch_ok b" "map cd_type (vb_columns b) = types" "aggregable types groups calls (rows @ active_rows b)"
    and "aggregates groups calls outputs (keyed_rows types groups calls rows) st"
  shows "\<exists>st'. Consume b st = Inr st' \<and> aggregates groups calls outputs (keyed_rows types groups calls (rows @ active_rows b)) st'"
  using ConsumeGlobal_rows [of b types calls rows outputs st] ConsumeGrouped_rows [of b types groups calls rows outputs st] assms aggregates_mode [OF assms(4)]
  by (cases "groups = []") (auto simp: Consume_def)

lemma Merge_tables:
  assumes "aggregates groups calls outputs ts st" "aggregates groups calls outputs us other" "keyed_ok calls (ts @ us)"
    and "groups = [] \<longrightarrow> (\<forall>t\<in>set (ts @ us). fst t = [])" "\<And>table. mset (order table) = mset table"
  shows "\<exists>st'. Merge order other st = Inr st' \<and> aggregates groups calls outputs (ts @ us) st'"
proof (cases "groups = []")
  case True
  have "combine_states calls (states_of calls us []) (states_of calls ts []) = Inr (states_of calls (ts @ us) [])"
    by (rule combine_states_of [OF assms(3)])
  then show ?thesis using assms(1,2) True
    by (auto simp: Merge_def MergeGlobal_def aggregates_def new_aggregate_state_def)
next
  case False
  obtain table other' where t: "st = (new_aggregate_state groups calls outputs)\<lparr>ha_groups := table, ha_global_states := []\<rparr>"
      "is_table calls ts table" "other = (new_aggregate_state groups calls outputs)\<lparr>ha_groups := other', ha_global_states := []\<rparr>"
      "is_table calls us other'"
    using assms(1,2) False by (auto simp: aggregates_def)
  from merged_tables [OF t(2,4) assms(3,5)] show ?thesis using False
    by (auto simp: Merge_def MergeGrouped_def MakeStates_def t(1,3) new_aggregate_state_def aggregates_def)
qed

subsection \<open>The rows of the result\<close>

definition group_cell :: "agg_call list \<Rightarrow> group_key \<times> agg_state list \<Rightarrow> aggregate_output \<Rightarrow> bytes result" where
  "group_cell calls g spec = bind_r (group_value calls g spec) (output_bytes (ao_type spec))"

definition cell_or_nil :: "bytes result \<Rightarrow> bytes" where
  "cell_or_nil r = (case r of Inr bs \<Rightarrow> bs | Inl _ \<Rightarrow> [])"

definition group_row :: "agg_call list \<Rightarrow> aggregate_output list \<Rightarrow> group_key \<times> agg_state list \<Rightarrow> bytes list" where
  "group_row calls outputs g = map (\<lambda>spec. cell_or_nil (group_cell calls g spec)) outputs"

definition group_ok :: "agg_call list \<Rightarrow> aggregate_output list \<Rightarrow> group_key \<times> agg_state list \<Rightarrow> bool" where
  "group_ok calls outputs g \<longleftrightarrow> (\<forall>spec\<in>set outputs. \<exists>bs. group_cell calls g spec = Inr bs)"

definition pending_groups :: "(group_table \<Rightarrow> group_table) \<Rightarrow> aggregate_state \<Rightarrow> group_table" where
  "pending_groups order st =
     (case ha_mode st of
        GLOBAL \<Rightarrow> if ha_global_emitted st then [] else [([], ha_global_states st)]
      | GROUPED_HASH \<Rightarrow> (case ha_emit st of None \<Rightarrow> order (ha_groups st) | Some gs \<Rightarrow> gs))"

definition result_ready :: "(group_table \<Rightarrow> group_table) \<Rightarrow> agg_call list \<Rightarrow> aggregate_output list \<Rightarrow> aggregate_state \<Rightarrow> bool" where
  "result_ready order calls outputs st \<longleftrightarrow> ha_agg_calls st = calls \<and> ha_outputs st = outputs \<and>
     (ha_mode st = GLOBAL \<longrightarrow> (\<forall>spec\<in>set outputs. ao_kind spec = AGGREGATE)) \<and>
     (\<forall>g\<in>set (pending_groups order st). group_ok calls outputs g)"

definition result_rows :: "(group_table \<Rightarrow> group_table) \<Rightarrow> agg_call list \<Rightarrow> aggregate_output list \<Rightarrow> aggregate_state \<Rightarrow> bytes list list" where
  "result_rows order calls outputs st = map (group_row calls outputs) (pending_groups order st)"

definition partly_written :: "nat \<Rightarrow> agg_call list \<Rightarrow> group_table \<Rightarrow> aggregate_output \<Rightarrow> column_data \<Rightarrow> bool" where
  "partly_written n calls gs spec c \<longleftrightarrow> cd_type c = ao_type spec \<and> cd_count c = n \<and>
     (\<exists>rest. cd_buffer c = concat (map (\<lambda>g. cell_or_nil (group_cell calls g spec)) gs) @ rest \<and>
        length rest = (n - length gs) * TypeElemSize (ao_type spec))"

lemma group_cell_length: "group_cell calls g spec = Inr bs \<Longrightarrow> length bs = TypeElemSize (ao_type spec)"
  by (auto simp: group_cell_def bind_r_Inr_iff dest: output_bytes_length)

lemma write_next_group:
  assumes "partly_written n calls gs spec c" "\<forall>g\<in>set (gs @ [g]). \<exists>bs. group_cell calls g spec = Inr bs" "length gs < n"
  shows "\<exists>c'. bind_r (group_value calls g spec) (WriteExecValue c (length gs)) = Inr c' \<and> partly_written n calls (gs @ [g]) spec c'"
proof -
  let ?k = "TypeElemSize (ao_type spec)" and ?cells = "map (\<lambda>g. cell_or_nil (group_cell calls g spec)) gs"
  obtain rest where c: "cd_type c = ao_type spec" "cd_count c = n" "cd_buffer c = concat ?cells @ rest" "length rest = (n - length gs) * ?k"
    using assms(1) by (auto simp: partly_written_def)
  obtain v bs where v: "group_value calls g spec = Inr v" "output_bytes (ao_type spec) v = Inr bs" "group_cell calls g spec = Inr bs"
    using assms(2) by (auto simp: group_cell_def bind_r_Inr_iff)
  have len: "length bs = ?k" by (rule output_bytes_length [OF v(2)])
  have "\<forall>x\<in>set ?cells. length x = ?k" using assms(2) group_cell_length by (fastforce simp: cell_or_nil_def)
  then have "length (concat ?cells) = length gs * ?k" using concat_equal_length [of ?cells] by simp
  moreover have "?k \<le> length rest" using assms(3) c(4) by (cases "n - length gs") simp_all
  ultimately have "put_cell ?k (length gs) bs (cd_buffer c) = concat (?cells @ [bs]) @ drop ?k rest"
    using put_cell_next [of "concat ?cells" ?cells ?k bs rest] len c(3) by simp
  then have "WriteExecValue c (length gs) v = Inr (c\<lparr>cd_buffer := concat (?cells @ [bs]) @ drop ?k rest\<rparr>)"
    using assms(3) c(1,2) v(2) by (simp add: WriteExecValue_def)
  moreover have "partly_written n calls (gs @ [g]) spec (c\<lparr>cd_buffer := concat (?cells @ [bs]) @ drop ?k rest\<rparr>)"
    using c v(3) by (auto simp: partly_written_def cell_or_nil_def diff_mult_distrib)
  ultimately show ?thesis using v(1) by simp
qed

lemma write_groups_from:
  assumes "list_all2 (partly_written n calls gs) outputs cols" "\<forall>g\<in>set (gs @ hs). group_ok calls outputs g" "n = length gs + length hs"
  shows "\<exists>cols'. fold_r (write_group calls outputs) (zip [length gs..<n] hs) cols = Inr cols' \<and>
    list_all2 (partly_written n calls (gs @ hs)) outputs cols'"
  using assms
proof (induction hs arbitrary: gs cols)
  case (Cons h hs)
  let ?f = "\<lambda>(spec, c). bind_r (group_value calls h spec) (WriteExecValue c (length gs))"
  have "\<exists>c'. ?f (spec, c) = Inr c' \<and> partly_written n calls (gs @ [h]) spec c'"
    if "spec \<in> set outputs" "partly_written n calls gs spec c" for spec c
    using write_next_group [OF that(2), of h] that(1) Cons.prems(2,3) by (auto simp: group_ok_def)
  from map_r_zip_pointwise [of _ _ _ ?f "partly_written n calls (gs @ [h])", OF Cons.prems(1) this] obtain cols1 where c1:
    "write_group calls outputs (length gs, h) cols = Inr cols1" "list_all2 (partly_written n calls (gs @ [h])) outputs cols1"
    by (auto simp: write_group_def)
  have "zip [length gs..<n] (h # hs) = (length gs, h) # zip [length (gs @ [h])..<n] hs"
    using Cons.prems(3) by (simp add: upt_conv_Cons del: upt_Suc)
  then show ?case using Cons.IH [OF c1(2)] c1(1) Cons.prems(2,3) by simp
qed simp

lemma write_groups_cells:
  assumes "\<forall>g\<in>set gs. group_ok calls outputs g"
  shows "\<exists>cols. fold_r (write_group calls outputs) (zip [0..<length gs] gs) (map (output_column (length gs)) outputs) = Inr cols \<and>
    list_all2 (\<lambda>spec c. holds_cells (ao_type spec) (map (\<lambda>g. cell_or_nil (group_cell calls g spec)) gs) c) outputs cols"
proof -
  have "list_all2 (partly_written (length gs) calls []) outputs (map (output_column (length gs)) outputs)"
    by (simp add: list_all2_conv_all_nth partly_written_def output_column_def Column_Resize_def empty_column_def)
  from write_groups_from [OF this, of gs] assms obtain cols where cols:
    "fold_r (write_group calls outputs) (zip [0..<length gs] gs) (map (output_column (length gs)) outputs) = Inr cols"
    "list_all2 (partly_written (length gs) calls gs) outputs cols" by auto
  have "holds_cells (ao_type spec) (map (\<lambda>g. cell_or_nil (group_cell calls g spec)) gs) c"
    if "spec \<in> set outputs" "partly_written (length gs) calls gs spec c" for spec c
  proof (rule holds_cellsI)
    show "\<forall>x\<in>set (map (\<lambda>g. cell_or_nil (group_cell calls g spec)) gs). length x = TypeElemSize (ao_type spec)"
      using assms that(1) group_cell_length by (fastforce simp: group_ok_def cell_or_nil_def)
  qed (use that(2) in \<open>auto simp: partly_written_def\<close>)
  with cols(2) have "list_all2 (\<lambda>spec c. holds_cells (ao_type spec) (map (\<lambda>g. cell_or_nil (group_cell calls g spec)) gs) c) outputs cols"
    by (auto simp: list_all2_conv_all_nth)
  with cols(1) show ?thesis by blast
qed

subsection \<open>The result as an operator\<close>

lemma NextGlobalResult_call:
  assumes "result_ready order calls outputs st" "ha_mode st = GLOBAL" "\<not> ha_global_emitted st"
  shows "\<exists>b. NextGlobalResult st = Inr (Some b, st\<lparr>ha_global_emitted := True\<rparr>) \<and> batch_ok b \<and>
    map cd_type (vb_columns b) = map ao_type outputs \<and> active_rows b = [group_row calls outputs ([], ha_global_states st)]"
proof -
  let ?g = "([], ha_global_states st)"
  have st: "ha_agg_calls st = calls" "ha_outputs st = outputs" "\<forall>spec\<in>set outputs. ao_kind spec = AGGREGATE" "group_ok calls outputs ?g"
    using assms by (simp_all add: result_ready_def pending_groups_def)
  have "\<exists>c. bind_r (global_value st spec) (WriteExecValue (output_column 1 spec) 0) = Inr c \<and>
      holds_cells (ao_type spec) (map (\<lambda>g. cell_or_nil (group_cell calls g spec)) [?g]) c" if spec: "spec \<in> set outputs" for spec
  proof -
    obtain bs where bs: "group_cell calls ?g spec = Inr bs" using st(4) spec by (auto simp: group_ok_def)
    then have "global_value st spec = group_value calls ?g spec"
      using st(1,3) spec by (auto simp: group_cell_def group_value_def global_value_def index_r_def at_r_def bind_r_Inr_iff split: if_splits)
    moreover have "partly_written 1 calls [] spec (output_column 1 spec)"
      by (simp add: partly_written_def output_column_def Column_Resize_def empty_column_def)
    then obtain c where c: "bind_r (group_value calls ?g spec) (WriteExecValue (output_column 1 spec) 0) = Inr c" "partly_written 1 calls [?g] spec c"
      using write_next_group [of 1 calls "[]" spec "output_column 1 spec" ?g] bs by auto
    moreover have "holds_cells (ao_type spec) (map (\<lambda>g. cell_or_nil (group_cell calls g spec)) [?g]) c"
      using c(2) bs group_cell_length [OF bs] by (intro holds_cellsI) (auto simp: partly_written_def cell_or_nil_def)
    ultimately show ?thesis by auto
  qed
  from map_r_pointwise [of outputs "\<lambda>spec. bind_r (global_value st spec) (WriteExecValue (output_column 1 spec) 0)"
      "\<lambda>spec. holds_cells (ao_type spec) (map (\<lambda>g. cell_or_nil (group_cell calls g spec)) [?g])", OF this]
  obtain cols where cols: "map_r (\<lambda>spec. bind_r (global_value st spec) (WriteExecValue (output_column 1 spec) 0)) outputs = Inr cols"
    "list_all2 (\<lambda>spec. holds_cells (ao_type spec) (map (\<lambda>g. cell_or_nil (group_cell calls g spec)) [?g])) outputs cols" by blast
  let ?out = "SetIdentitySelection 1 (ClearBatch empty_batch\<lparr>vb_columns := cols\<rparr>)"
  have "?out = SetIdentitySelection (length [?g]) (ClearBatch empty_batch\<lparr>vb_columns := cols\<rparr>)" by simp
  from identity_batch_cells [OF cols(2) _ this] have "batch_ok ?out" "map cd_type (vb_columns ?out) = map ao_type outputs"
    "active_rows ?out = [group_row calls outputs ?g]" by (simp_all add: kVectorBatchSize_def group_row_def)
  moreover have "list_all (\<lambda>spec. ao_kind spec = AGGREGATE) outputs" using st(3) by (simp add: list_all_iff)
  then have "NextGlobalResult st = Inr (Some ?out, st\<lparr>ha_global_emitted := True\<rparr>)"
    unfolding NextGlobalResult_def st(2) using assms(3) cols(1) by simp
  ultimately show ?thesis by blast
qed

lemma NextGroupedResult_call:
  assumes "result_ready order calls outputs st" "ha_mode st = GROUPED_HASH" "pending_groups order st \<noteq> []"
  shows "\<exists>b. NextGroupedResult order st = Inr (Some b, st\<lparr>ha_emit := Some (drop kVectorBatchSize (pending_groups order st))\<rparr>) \<and> batch_ok b \<and>
    map cd_type (vb_columns b) = map ao_type outputs \<and>
    active_rows b = map (group_row calls outputs) (take kVectorBatchSize (pending_groups order st))"
proof -
  let ?gs = "take kVectorBatchSize (pending_groups order st)"
  have st: "ha_agg_calls st = calls" "ha_outputs st = outputs" "\<forall>g\<in>set (pending_groups order st). group_ok calls outputs g"
    using assms(1) by (simp_all add: result_ready_def)
  have pending: "pending_groups order st = (case ha_emit st of None \<Rightarrow> order (ha_groups st) | Some gs \<Rightarrow> gs)"
    using assms(2) by (simp add: pending_groups_def)
  have "\<forall>g\<in>set ?gs. group_ok calls outputs g" using st(3) by (metis in_set_takeD)
  from write_groups_cells [OF this] obtain cols where cols:
    "fold_r (write_group calls outputs) (zip [0..<length ?gs] ?gs) (map (output_column (length ?gs)) outputs) = Inr cols"
    "list_all2 (\<lambda>spec c. holds_cells (ao_type spec) (map (\<lambda>g. cell_or_nil (group_cell calls g spec)) ?gs) c) outputs cols" by blast
  let ?out = "SetIdentitySelection (length ?gs) (ClearBatch empty_batch\<lparr>vb_columns := cols\<rparr>)"
  have "length ?gs \<le> kVectorBatchSize" by simp
  from identity_batch_cells [OF cols(2) this refl] have out: "batch_ok ?out" "map cd_type (vb_columns ?out) = map ao_type outputs"
    "active_rows ?out = map (group_row calls outputs) ?gs" by (simp_all add: group_row_def [abs_def])
  have "NextGroupedResult order st = Inr (Some ?out, st\<lparr>ha_emit := Some (drop kVectorBatchSize (pending_groups order st))\<rparr>)"
    unfolding NextGroupedResult_def Let_def pending [symmetric] st(1,2) using assms(3) cols(1) by simp
  then show ?thesis using out by blast
qed

lemma NextResult_call:
  assumes "result_ready order calls outputs st"
  shows "\<exists>b st'. NextResult order st = Inr (b, st') \<and> (b = None \<longrightarrow> result_rows order calls outputs st = []) \<and>
    (\<forall>batch. b = Some batch \<longrightarrow> result_ready order calls outputs st' \<and> batch_ok batch \<and> map cd_type (vb_columns batch) = map ao_type outputs \<and>
       active_rows batch \<noteq> [] \<and> result_rows order calls outputs st = active_rows batch @ result_rows order calls outputs st')"
proof (cases "ha_mode st")
  case GLOBAL
  show ?thesis
  proof (cases "ha_global_emitted st")
    case True
    then show ?thesis using GLOBAL by (simp add: NextResult_def NextGlobalResult_def result_rows_def pending_groups_def)
  next
    case False
    from NextGlobalResult_call [OF assms GLOBAL this] obtain b where b:
      "NextGlobalResult st = Inr (Some b, st\<lparr>ha_global_emitted := True\<rparr>)" "batch_ok b" "map cd_type (vb_columns b) = map ao_type outputs"
      "active_rows b = [group_row calls outputs ([], ha_global_states st)]" by blast
    moreover have "result_ready order calls outputs (st\<lparr>ha_global_emitted := True\<rparr>)"
      using assms GLOBAL by (simp add: result_ready_def pending_groups_def)
    ultimately show ?thesis using GLOBAL False by (simp add: NextResult_def result_rows_def pending_groups_def)
  qed
next
  case GROUPED_HASH
  have pending: "pending_groups order st = (case ha_emit st of None \<Rightarrow> order (ha_groups st) | Some gs \<Rightarrow> gs)"
    using GROUPED_HASH by (simp add: pending_groups_def)
  show ?thesis
  proof (cases "pending_groups order st = []")
    case True
    then show ?thesis using GROUPED_HASH by (simp add: NextResult_def NextGroupedResult_def Let_def pending [symmetric] result_rows_def)
  next
    case False
    let ?st = "st\<lparr>ha_emit := Some (drop kVectorBatchSize (pending_groups order st))\<rparr>"
    from NextGroupedResult_call [OF assms GROUPED_HASH False] obtain b where b:
      "NextGroupedResult order st = Inr (Some b, ?st)" "batch_ok b" "map cd_type (vb_columns b) = map ao_type outputs"
      "active_rows b = map (group_row calls outputs) (take kVectorBatchSize (pending_groups order st))" by blast
    have rest: "pending_groups order ?st = drop kVectorBatchSize (pending_groups order st)" using GROUPED_HASH by (simp add: pending_groups_def)
    have "result_ready order calls outputs ?st"
      using assms unfolding result_ready_def rest by (auto dest: in_set_dropD)
    moreover have "result_rows order calls outputs st = active_rows b @ result_rows order calls outputs ?st"
      unfolding result_rows_def rest b(4) by (simp flip: map_append)
    moreover have "active_rows b \<noteq> []" using b(4) False by (simp add: kVectorBatchSize_def)
    ultimately show ?thesis using GROUPED_HASH b by (simp add: NextResult_def)
  qed
qed

interpretation aggregate_result: batch_operator "\<lambda>st. Some (NextResult order st)" "result_ready order calls outputs"
  "result_rows order calls outputs" "map ao_type outputs"
  for order calls outputs
proof unfold_locales
  fix st assume "result_ready order calls outputs st"
  note call = NextResult_call [OF this]
  show "\<exists>b st'. Some (NextResult order st) = Some (Inr (b, st'))" using call by auto
  show "result_ready order calls outputs st' \<and> batch_ok b \<and> map cd_type (vb_columns b) = map ao_type outputs \<and> active_rows b \<noteq> [] \<and>
      result_rows order calls outputs st = active_rows b @ result_rows order calls outputs st'"
    if "Some (NextResult order st) = Some (Inr (Some b, st'))" for b st' using call that by auto
  show "result_rows order calls outputs st = []" if "Some (NextResult order st) = Some (Inr (None, st'))" for st'
    using call that by auto
qed

subsection \<open>The answer to an aggregation\<close>

text \<open>One row for each group, without groups one for all rows, whose columns are key values and answers.\<close>

definition result_keys :: "data_type list \<Rightarrow> exec_expr list \<Rightarrow> bytes list list \<Rightarrow> group_key set" where
  "result_keys types groups rows = (if groups = [] then {[]} else row_group_key types groups ` set rows)"

definition result_value ::
  "data_type list \<Rightarrow> exec_expr list \<Rightarrow> agg_call list \<Rightarrow> bytes list list \<Rightarrow> group_key \<Rightarrow> aggregate_output \<Rightarrow> exec_value" where
  "result_value types groups calls rows k spec =
     (case ao_kind spec of
        GROUP_KEY \<Rightarrow> k ! ao_index spec
      | AGGREGATE \<Rightarrow> answer (calls ! ao_index spec)
          (map (row_number types (calls ! ao_index spec)) (filter (\<lambda>row. row_group_key types groups row = k) rows)))"

definition result_row ::
  "data_type list \<Rightarrow> exec_expr list \<Rightarrow> agg_call list \<Rightarrow> aggregate_output list \<Rightarrow> bytes list list \<Rightarrow> group_key \<Rightarrow> bytes list" where
  "result_row types groups calls outputs rows k =
     map (\<lambda>spec. cell_or_nil (output_bytes (ao_type spec) (result_value types groups calls rows k spec))) outputs"

definition aggregate_answer ::
  "data_type list \<Rightarrow> exec_expr list \<Rightarrow> agg_call list \<Rightarrow> aggregate_output list \<Rightarrow> bytes list list \<Rightarrow> bytes list multiset" where
  "aggregate_answer types groups calls outputs rows =
     image_mset (result_row types groups calls outputs rows) (mset_set (result_keys types groups rows))"

text \<open>The outputs name a key or a call, and their values can be stored in their columns.\<close>

definition outputs_ok ::
  "data_type list \<Rightarrow> exec_expr list \<Rightarrow> agg_call list \<Rightarrow> aggregate_output list \<Rightarrow> bytes list list \<Rightarrow> bool" where
  "outputs_ok types groups calls outputs rows \<longleftrightarrow>
     (\<forall>spec\<in>set outputs. (case ao_kind spec of GROUP_KEY \<Rightarrow> ao_index spec < length groups | AGGREGATE \<Rightarrow> ao_index spec < length calls) \<and>
        (\<forall>k\<in>result_keys types groups rows. \<exists>bs. output_bytes (ao_type spec) (result_value types groups calls rows k spec) = Inr bs))"

lemma result_value_cong: "mset rows = mset rows' \<Longrightarrow> result_value types groups calls rows k spec = result_value types groups calls rows' k spec"
  unfolding result_value_def by (intro output_kind.case_cong refl answer_cong) simp

lemma result_keys_cong: "mset rows = mset rows' \<Longrightarrow> result_keys types groups rows = result_keys types groups rows'"
  using mset_eq_setD [of rows rows'] by (simp add: result_keys_def)

lemma aggregate_answer_cong:
  assumes "mset rows = mset rows'"
  shows "aggregate_answer types groups calls outputs rows = aggregate_answer types groups calls outputs rows'"
    and "outputs_ok types groups calls outputs rows = outputs_ok types groups calls outputs rows'"
  unfolding aggregate_answer_def result_row_def [abs_def] outputs_ok_def result_keys_cong [OF assms] result_value_cong [OF assms] by (rule refl)+

lemma numbers_of_rows: "i < length calls \<Longrightarrow> numbers_of (keyed_rows types groups calls rows) k i =
    map (row_number types (calls ! i)) (filter (\<lambda>row. row_group_key types groups row = k) rows)"
  by (induction rows) (auto simp: numbers_of_def keyed_row_def)

lemma keyed_rows_keys: "fst ` set (keyed_rows types groups calls rows) = row_group_key types groups ` set rows"
  by (force simp: keyed_row_def)

lemma group_value_of_rows:
  assumes "aggregable types groups calls rows" "outputs_ok types groups calls outputs rows" "spec \<in> set outputs"
    and "k \<in> result_keys types groups rows"
  shows "group_value calls (k, states_of calls (keyed_rows types groups calls rows) k) spec = Inr (result_value types groups calls rows k spec)"
proof (cases "ao_kind spec")
  case GROUP_KEY
  then have i: "ao_index spec < length groups" using assms(2,3) by (auto simp: outputs_ok_def)
  then obtain row where row: "row \<in> set rows" "k = row_group_key types groups row" using assms(4) by (auto simp: result_keys_def split: if_splits)
  then obtain k' where "map_r (\<lambda>e. row_eval types e row) groups = Inr k'" using assms(1) by (auto simp: aggregable_def row_aggregable_def)
  then have "length k = length groups" using map_r_length row(2) by (fastforce simp: row_group_key_def)
  then show ?thesis using GROUP_KEY i by (simp add: group_value_def result_value_def at_r_def)
next
  case AGGREGATE
  then have i: "ao_index spec < length calls" using assms(2,3) by (auto simp: outputs_ok_def)
  have ok: "keyed_ok calls (keyed_rows types groups calls rows)" using assms(1) by (simp add: aggregable_def)
  have "FinalizeAggregate (calls ! ao_index spec) (states_of calls (keyed_rows types groups calls rows) k ! ao_index spec) =
      Inr (result_value types groups calls rows k spec)"
    using summary_finalize [OF keyed_ok_numbers [OF ok i, of k]] ok i AGGREGATE
    by (simp add: states_of_def numbers_of_rows result_value_def keyed_ok_def list_all_length)
  then show ?thesis using AGGREGATE i by (simp add: group_value_def at_r_def states_of_def)
qed

lemma pending_of_rows:
  assumes "aggregates groups calls outputs (keyed_rows types groups calls rows) st" "\<And>table. mset (order table) = mset table"
  shows "mset (pending_groups order st) =
    image_mset (\<lambda>k. (k, states_of calls (keyed_rows types groups calls rows) k)) (mset_set (result_keys types groups rows))"
proof (cases "groups = []")
  case True
  then show ?thesis using assms(1) by (auto simp: aggregates_def pending_groups_def new_aggregate_state_def result_keys_def)
next
  case False
  let ?ts = "keyed_rows types groups calls rows" and ?f = "\<lambda>k. (k, states_of calls (keyed_rows types groups calls rows) k)"
  obtain table where t: "st = (new_aggregate_state groups calls outputs)\<lparr>ha_groups := table, ha_global_states := []\<rparr>" "is_table calls ?ts table"
    using assms(1) False by (auto simp: aggregates_def)
  have d: "distinct (map fst table)" using t(2) by (simp add: is_table_def)
  have "map_of table k = Some s \<longleftrightarrow> k \<in> fst ` set ?ts \<and> s = states_of calls ?ts k" for k s
    using t(2) by (auto simp: is_table_def)
  then have mem: "(k, s) \<in> set table \<longleftrightarrow> k \<in> fst ` set ?ts \<and> s = states_of calls ?ts k" for k s
    using map_of_eq_Some_iff [OF d] by simp
  have "set table = ?f ` fst ` set ?ts" using mem by force
  also have "\<dots> = ?f ` result_keys types groups rows" by (simp only: keyed_rows_keys result_keys_def False if_False)
  finally have "mset_set (set table) = image_mset ?f (mset_set (result_keys types groups rows))"
    by (simp add: image_mset_mset_set inj_on_def)
  moreover have "mset table = mset_set (set table)" using d by (simp add: distinct_map mset_set_set)
  ultimately show ?thesis using False by (simp add: t(1) pending_groups_def new_aggregate_state_def assms(2))
qed

lemma aggregates_answer:
  assumes st: "aggregates groups calls outputs (keyed_rows types groups calls rows) st" and order: "\<And>table. mset (order table) = mset table"
    and rows: "aggregable types groups calls rows" "outputs_ok types groups calls outputs rows"
  shows "result_ready order calls outputs st \<and> mset (result_rows order calls outputs st) = aggregate_answer types groups calls outputs rows"
proof -
  let ?f = "\<lambda>k. (k, states_of calls (keyed_rows types groups calls rows) k)"
  note pending = pending_of_rows [OF st order]
  have cell: "group_cell calls (?f k) spec = output_bytes (ao_type spec) (result_value types groups calls rows k spec)"
    if "k \<in> result_keys types groups rows" "spec \<in> set outputs" for k spec
    using group_value_of_rows [OF rows that(2,1)] by (simp add: group_cell_def)
  have finite: "finite (result_keys types groups rows)" by (simp add: result_keys_def)
  have "set (pending_groups order st) = ?f ` result_keys types groups rows"
    using arg_cong [OF pending, of set_mset] finite by simp
  moreover have "group_ok calls outputs (?f k)" if "k \<in> result_keys types groups rows" for k
    using rows(2) that cell by (auto simp: group_ok_def outputs_ok_def)
  moreover have "ao_kind spec = AGGREGATE" if "ha_mode st = GLOBAL" "spec \<in> set outputs" for spec
    using that rows(2) aggregates_mode [OF st] by (cases "ao_kind spec") (auto simp: outputs_ok_def split: if_splits)
  moreover have "ha_agg_calls st = calls" "ha_outputs st = outputs" using st by (auto simp: aggregates_def new_aggregate_state_def)
  ultimately have "result_ready order calls outputs st" by (auto simp: result_ready_def)
  moreover have "mset (result_rows order calls outputs st) = aggregate_answer types groups calls outputs rows"
    unfolding result_rows_def mset_map pending aggregate_answer_def image_mset.compositionality
    by (rule image_mset_cong) (use finite cell in \<open>auto simp: group_row_def result_row_def\<close>)
  ultimately show ?thesis by blast
qed

subsection \<open>The operator\<close>

definition aggregate_ready ::
  "('s \<Rightarrow> bool) \<Rightarrow> ('s \<Rightarrow> bytes list list) \<Rightarrow> data_type list \<Rightarrow> (group_table \<Rightarrow> group_table) \<Rightarrow> exec_expr list \<Rightarrow> agg_call list \<Rightarrow>
   aggregate_output list \<Rightarrow> 's hash_aggregate \<Rightarrow> bool" where
  "aggregate_ready ready rows types order groups calls outputs op \<longleftrightarrow>
     (if hg_consumed op then result_ready order calls outputs (hg_state op)
      else op = new_hash_aggregate groups calls outputs (hg_child op) \<and> ready (hg_child op) \<and>
        aggregable types groups calls (rows (hg_child op)) \<and> outputs_ok types groups calls outputs (rows (hg_child op)) \<and>
        (\<forall>table. mset (order table) = mset table))"

text \<open>The rows to come: those of the state that the child's rows will lead to.\<close>

definition aggregate_rows ::
  "'s operator_next \<Rightarrow> (group_table \<Rightarrow> group_table) \<Rightarrow> agg_call list \<Rightarrow> aggregate_output list \<Rightarrow> 's hash_aggregate \<Rightarrow> bytes list list" where
  "aggregate_rows child order calls outputs op =
     (if hg_consumed op then result_rows order calls outputs (hg_state op)
      else (case consume_all child (hg_child op) (hg_state op) of
              Some (Inr (s, st)) \<Rightarrow> result_rows order calls outputs st
            | _ \<Rightarrow> []))"

locale row_aggregate = batch_operator +
  fixes order :: "group_table \<Rightarrow> group_table"
    and groups :: "exec_expr list"
    and calls :: "agg_call list"
    and outputs :: "aggregate_output list"

context row_aggregate begin

lemma consume_all_rows:
  assumes "ready s" "aggregable types groups calls (before @ rows s)"
    and "aggregates groups calls outputs (keyed_rows types groups calls before) st"
  shows "\<exists>s' st'. consume_all Next s st = Some (Inr (s', st')) \<and>
    aggregates groups calls outputs (keyed_rows types groups calls (before @ rows s)) st'"
  using assms
proof (induction "length (rows s)" arbitrary: s before st rule: less_induct)
  case less
  obtain r s' where call: "Next s = Some (Inr (r, s'))" using returns [OF less.prems(1)] by blast
  show ?case
  proof (cases r)
    case None
    then show ?thesis using call ends [OF less.prems(1)] less.prems(3) by (subst consume_all.simps) simp
  next
    case (Some b)
    note d = delivers [OF less.prems(1) call [unfolded Some]]
    have parts: "before @ rows s = (before @ active_rows b) @ rows s'" using d by simp
    have "aggregable types groups calls (before @ active_rows b)"
      using less.prems(2) unfolding parts by (rule aggregable_append(1))
    then obtain st1 where st1: "Consume b st = Inr st1" "aggregates groups calls outputs (keyed_rows types groups calls (before @ active_rows b)) st1"
      using Consume_rows d less.prems(3) by blast
    have "length (rows s') < length (rows s)" using d by simp
    from less.hyps [OF this _ _ st1(2)] d less.prems(2) obtain s'' st' where
      "consume_all Next s' st1 = Some (Inr (s'', st'))"
      "aggregates groups calls outputs (keyed_rows types groups calls ((before @ active_rows b) @ rows s')) st'"
      unfolding parts by blast
    then show ?thesis using call Some st1(1) by (subst consume_all.simps) (simp add: parts del: append_assoc)
  qed
qed

lemma Aggregate_start:
  assumes "aggregate_ready ready rows types order groups calls outputs op" "\<not> hg_consumed op"
  obtains s' st' where "consume_all Next (hg_child op) (hg_state op) = Some (Inr (s', st'))"
    "result_ready order calls outputs st'"
    "mset (result_rows order calls outputs st') = aggregate_answer types groups calls outputs (rows (hg_child op))"
proof -
  have op: "op = new_hash_aggregate groups calls outputs (hg_child op)" "ready (hg_child op)"
      "aggregable types groups calls (rows (hg_child op))" "outputs_ok types groups calls outputs (rows (hg_child op))"
    and order: "\<And>table. mset (order table) = mset table"
    using assms unfolding aggregate_ready_def by simp_all
  have "hg_state op = new_aggregate_state groups calls outputs" by (subst op(1)) (simp add: new_hash_aggregate_def)
  then have "aggregates groups calls outputs (keyed_rows types groups calls []) (hg_state op)" using aggregates_new by simp
  from consume_all_rows [OF op(2) _ this] op(3) obtain s' st' where
    c: "consume_all Next (hg_child op) (hg_state op) = Some (Inr (s', st'))"
    "aggregates groups calls outputs (keyed_rows types groups calls (rows (hg_child op))) st'" by auto
  from aggregates_answer [OF c(2) order op(3,4)] that c(1) show thesis by blast
qed

lemma Aggregate_call:
  assumes "aggregate_ready ready rows types order groups calls outputs op"
  shows "\<exists>b op'. HashAggregate_Next order Next op = Some (Inr (b, op')) \<and>
    (b = None \<longrightarrow> aggregate_rows Next order calls outputs op = []) \<and>
    (\<forall>batch. b = Some batch \<longrightarrow> aggregate_ready ready rows types order groups calls outputs op' \<and> batch_ok batch \<and>
       map cd_type (vb_columns batch) = map ao_type outputs \<and> active_rows batch \<noteq> [] \<and>
       aggregate_rows Next order calls outputs op = active_rows batch @ aggregate_rows Next order calls outputs op')"
proof -
  obtain s st where start: "(if hg_consumed op then Some (Inr (hg_child op, hg_state op)) else consume_all Next (hg_child op) (hg_state op)) = Some (Inr (s, st))"
    "result_ready order calls outputs st" "aggregate_rows Next order calls outputs op = result_rows order calls outputs st"
  proof (cases "hg_consumed op")
    case True
    then show ?thesis using assms by (intro that [of "hg_child op" "hg_state op"]) (simp_all add: aggregate_ready_def aggregate_rows_def)
  next
    case False
    from Aggregate_start [OF assms False] obtain s' st' where "consume_all Next (hg_child op) (hg_state op) = Some (Inr (s', st'))"
      "result_ready order calls outputs st'" by metis
    then show ?thesis using False by (intro that [of s' st']) (simp_all add: aggregate_rows_def)
  qed
  from NextResult_call [OF start(2)] obtain b st' where n: "NextResult order st = Inr (b, st')"
    "b = None \<longrightarrow> result_rows order calls outputs st = []"
    "\<forall>batch. b = Some batch \<longrightarrow> result_ready order calls outputs st' \<and> batch_ok batch \<and> map cd_type (vb_columns batch) = map ao_type outputs \<and>
       active_rows batch \<noteq> [] \<and> result_rows order calls outputs st = active_rows batch @ result_rows order calls outputs st'"
    by blast
  have "HashAggregate_Next order Next op = Some (Inr (b, \<lparr>hg_child = s, hg_state = st', hg_consumed = True\<rparr>))"
    unfolding HashAggregate_Next_def start(1) using n(1) by simp
  then show ?thesis using n(2,3) start(3) by (simp add: aggregate_ready_def aggregate_rows_def)
qed

end

sublocale row_aggregate \<subseteq> aggregated: batch_operator "HashAggregate_Next order Next"
  "aggregate_ready ready rows types order groups calls outputs" "aggregate_rows Next order calls outputs" "map ao_type outputs"
proof unfold_locales
  fix op assume "aggregate_ready ready rows types order groups calls outputs op"
  note call = Aggregate_call [OF this]
  show "\<exists>b op'. HashAggregate_Next order Next op = Some (Inr (b, op'))" using call by blast
  show "aggregate_ready ready rows types order groups calls outputs op' \<and> batch_ok b \<and> map cd_type (vb_columns b) = map ao_type outputs \<and>
      active_rows b \<noteq> [] \<and> aggregate_rows Next order calls outputs op = active_rows b @ aggregate_rows Next order calls outputs op'"
    if "HashAggregate_Next order Next op = Some (Inr (Some b, op'))" for b op' using call that by auto
  show "aggregate_rows Next order calls outputs op = []" if "HashAggregate_Next order Next op = Some (Inr (None, op'))" for op'
    using call that by auto
qed

interpretation filter_aggregate: row_aggregate "Filter_Next SeqScan_Next (CompileVectorPredicate e)"
  "filter_ready (seq_at prepared sbs s options) (seq_rows sbs s options) (scan_types s options) e"
  "filter_rows (seq_rows sbs s options) (scan_types s options) e" "scan_types s options" order groups calls outputs
  for prepared sbs s options e order groups calls outputs
  by unfold_locales

interpretation seq_aggregate: row_aggregate SeqScan_Next "seq_at prepared sbs s options" "seq_rows sbs s options" "scan_types s options" order groups calls outputs
  for prepared sbs s options order groups calls outputs
  by unfold_locales

text \<open>An aggregation over a filter over the scan of a table delivers one row for each group of the rows that match,
  or a single row without GROUP BY, with the key values and the exact answers of COUNT, SUM, AVG, MIN and MAX on
  integers, whatever the order in which the hash table is traversed.
\<close>

theorem aggregate_pipeline_exact:
  fixes db :: database and order :: "group_table \<Rightarrow> group_table"
  assumes "GetTableById i (db_catalog db) = Some entry" "smg_tables (db_storage db) i = Some t"
    and "table_fits options (if so_predicates options = [] then None else Some ps) sbs t"
    and rows: "\<forall>row\<in>set (selected (tst_schema t) options (rows_of sbs)). row_condition_ok (scan_types (tst_schema t) options) e row"
    and matching: "matching = filter (row_holds (scan_types (tst_schema t) options) e) (selected (tst_schema t) options (rows_of sbs))"
    and ok: "aggregable (scan_types (tst_schema t) options) groups calls matching" "outputs_ok (scan_types (tst_schema t) options) groups calls outputs matching"
    and order: "\<forall>table. mset (order table) = mset table"
  shows "\<exists>op bs. SeqScan_Init db (new_seq_scan i options None) = Inr (op, db) \<and>
    drain_batches (HashAggregate_Next order (Filter_Next SeqScan_Next (CompileVectorPredicate e))) (new_hash_aggregate groups calls outputs op) = Some (Inr bs) \<and>
    mset (concat (map active_rows bs)) = aggregate_answer (scan_types (tst_schema t) options) groups calls outputs matching"
proof -
  let ?p = "if so_predicates options = [] then None else Some ps" and ?s = "tst_schema t" and ?types = "scan_types (tst_schema t) options"
  let ?ready = "filter_ready (seq_at ?p sbs ?s options) (seq_rows sbs ?s options) ?types e" and ?rows = "filter_rows (seq_rows sbs ?s options) ?types e"
  let ?Next = "Filter_Next SeqScan_Next (CompileVectorPredicate e)"
  obtain op where op: "SeqScan_Init db (new_seq_scan i options None) = Inr (op, db)" "seq_at ?p sbs ?s options op"
      "seq_rows sbs ?s options op = selected ?s options (rows_of sbs)"
    using SeqScan_Init_at [OF assms(1-3)] by auto
  let ?op = "new_hash_aggregate groups calls outputs op"
  have child: "hg_child ?op = op" "\<not> hg_consumed ?op" by (simp_all add: new_hash_aggregate_def)
  have m: "?rows op = matching" by (simp add: filter_rows_def op(3) matching)
  have "?ready op" using op(2,3) rows by (simp add: filter_ready_def)
  then have ready: "aggregate_ready ?ready ?rows ?types order groups calls outputs ?op"
    unfolding aggregate_ready_def child using ok order by (simp add: m child(2) del: filter_rows_def)
  from filter_aggregate.Aggregate_start [OF ready child(2)] obtain s' st' where
    st': "consume_all ?Next (hg_child ?op) (hg_state ?op) = Some (Inr (s', st'))"
      "mset (result_rows order calls outputs st') = aggregate_answer ?types groups calls outputs (?rows (hg_child ?op))" by metis
  have "aggregate_rows ?Next order calls outputs ?op = result_rows order calls outputs st'"
    unfolding aggregate_rows_def st'(1) using child(2) by simp
  then have "mset (aggregate_rows ?Next order calls outputs ?op) = aggregate_answer ?types groups calls outputs matching"
    using st'(2) by (simp only: child(1) m)
  with filter_aggregate.aggregated.drain_batches_rows [OF ready] op(1) show ?thesis by auto
qed

end
