(* ===== verification/Expr_Round_Trip.thy ===== *)
theory Expr_Round_Trip
  imports Parser
begin

text \<open>
  The printer of \<^verbatim>\<open>src/src/sql/ast/expression.h\<close> against the lexer and the parser: the text
  of an expression, lexed and parsed, is the expression.
\<close>

subsection \<open>One token\<close>

lemma SkipWhitespace_stay: "\<not> is_space (s ! i) \<Longrightarrow> SkipWhitespace s i = i"
  by (simp add: SkipWhitespace_def scan_while.simps)

lemma drop_Cons_nth: "drop i s = c # r \<Longrightarrow> i < length s \<and> s ! i = c \<and> drop (Suc i) s = r"
  by (cases "i < length s") (auto simp: Cons_nth_drop_Suc [symmetric])

lemma NextToken_at:
  assumes "drop i s = c # r" "\<not> is_space c"
  shows "NextToken s i = token_at (NextToken s) s i"
  using assms by (subst NextToken_unfold) (simp add: SkipWhitespace_stay drop_Cons_nth)

lemma NextToken_space:
  assumes "drop i s = CHR '' '' # r"
  shows "NextToken s i = NextToken s (Suc i)"
proof -
  have "SkipWhitespace s i = SkipWhitespace s (Suc i)"
    using drop_Cons_nth [OF assms] unfolding SkipWhitespace_def
    by (subst scan_while.simps) (simp add: is_space_def)
  then show ?thesis by (subst (1 2) NextToken_unfold) simp
qed

lemma NextToken_punct:
  assumes "drop i s = c # r" "\<not> is_space c" "\<not> ident_start c" "\<not> is_digit c" "c \<noteq> CHR 0x27"
    and "punctuation s i = Punct ty str n"
  shows "NextToken s i = Some (mk_token ty str i, i + n)"
  using assms drop_Cons_nth [OF assms(1)] by (simp add: NextToken_at [OF assms(1,2)] token_at_def)

lemma scan_while_stop_at:
  assumes "drop i s = w @ r" "list_all p w" "r = [] \<or> \<not> p (hd r)" "i \<le> length s"
  shows "scan_while p s i = i + length w"
proof -
  have "takeWhile p (w @ r) = w" using assms(2,3) by (cases r) (auto simp: takeWhile_append list_all_iff)
  then show ?thesis using scan_while_eq [OF assms(4), of p] assms(1) by simp
qed

lemma drop_append_le: "drop i s = w @ r \<Longrightarrow> w \<noteq> [] \<Longrightarrow> i \<le> length s"
  by (rule ccontr) simp

lemma substr_drop: "drop i s = w @ r \<Longrightarrow> substr s i (i + length w) = w"
  by (simp add: substr_def)

lemma ident_start_not_space: "ident_start c \<Longrightarrow> \<not> is_space c"
  by (auto simp: ident_start_def is_space_def is_alpha_def less_eq_char_def)

lemma NextToken_ident:
  assumes "drop i s = w @ r" "w \<noteq> []" "ident_start (hd w)" "list_all ident_char w" "r = [] \<or> \<not> ident_char (hd r)"
  shows "NextToken s i = Some (mk_token (keyword_type w) w i, i + length w)"
proof -
  obtain c cs where w: "w = c # cs" using assms(2) by (cases w) auto
  have d: "drop i s = c # cs @ r" using assms(1) w by simp
  have "scan_while ident_char s i = i + length w"
    using assms by (intro scan_while_stop_at) (auto intro: drop_append_le)
  then show ?thesis
    using assms(3) w drop_Cons_nth [OF d] NextToken_at [OF d] substr_drop [OF assms(1)]
    by (simp add: token_at_def ReadIdentifierOrKeyword_def Let_def ident_start_not_space)
qed

lemma scan_number_digits:
  assumes "drop i s = w @ r" "list_all is_digit w" "r = [] \<or> \<not> is_digit (hd r) \<and> hd r \<noteq> CHR ''.''"
  shows "scan_number s i False = (i + length w, False)"
  using assms
proof (induction w arbitrary: i)
  case Nil
  then show ?case
  proof (cases r)
    case (Cons c r')
    then show ?thesis
      using Nil drop_Cons_nth [of i s c r'] by (subst scan_number.simps) auto
  qed (subst scan_number.simps, simp)
next
  case (Cons c w)
  then have d: "drop i s = c # w @ r" by simp
  show ?case
    using Cons.IH [of "Suc i"] Cons.prems drop_Cons_nth [OF d] by (subst scan_number.simps) simp
qed

lemma NextToken_number:
  assumes "drop i s = w @ r" "w \<noteq> []" "list_all is_digit w" "r = [] \<or> \<not> is_digit (hd r) \<and> hd r \<noteq> CHR ''.''"
  shows "NextToken s i = Some (mk_token TK_INTEGER w i, i + length w)"
proof -
  obtain c cs where w: "w = c # cs" using assms(2) by (cases w) auto
  have d: "drop i s = c # cs @ r" using assms(1) w by simp
  have c: "is_digit c" using assms(3) w by simp
  show ?thesis
    using w c digit_not_space [OF c] drop_Cons_nth [OF d] NextToken_at [OF d] substr_drop [OF assms(1)]
      scan_number_digits [OF assms(1,3,4)]
    by (simp add: token_at_def ReadNumber_def)
qed

lemma NextToken_string:
  assumes "drop i s = CHR 0x27 # w @ CHR 0x27 # r" "CHR 0x27 \<notin> set w"
  shows "NextToken s i = Some (mk_token TK_STRING w (Suc i), i + length w + 2)"
proof -
  have d: "i < length s" "s ! i = CHR 0x27" "drop (Suc i) s = w @ CHR 0x27 # r"
    using drop_Cons_nth [OF assms(1)] by simp_all
  have "scan_while (\<lambda>c. c \<noteq> CHR 0x27) s (Suc i) = Suc i + length w"
    using assms(2) d by (intro scan_while_stop_at) (auto simp: list_all_iff)
  moreover have "Suc i + length w < length s"
  proof -
    have "length s - Suc i = length w + Suc (length r)" using d(3) by (metis length_append length_drop length_Cons)
    then show ?thesis by linarith
  qed
  ultimately show ?thesis
    using d substr_drop [OF d(3)] NextToken_at [OF assms(1)]
    by (simp add: token_at_def ReadString_def Let_def is_space_def ident_start_def is_alpha_def is_digit_def less_eq_char_def)
qed

subsection \<open>A run of tokens\<close>

fun emits :: "string \<Rightarrow> nat \<Rightarrow> tkey list \<Rightarrow> nat \<Rightarrow> bool" where
  "emits s i [] j = (i = j)"
| "emits s i (k # ks) j = (case NextToken s i of None \<Rightarrow> False
     | Some (t, i') \<Rightarrow> tkey t = k \<and> tok_type t \<noteq> TK_END \<and> emits s i' ks j)"

lemma emits_append: "emits s i ks m \<Longrightarrow> emits s m ks' j \<Longrightarrow> emits s i (ks @ ks') j"
  by (induction ks arbitrary: i) (auto split: option.splits)

lemma emits_one: "NextToken s i = Some (mk_token ty w k, j) \<Longrightarrow> ty \<noteq> TK_END \<Longrightarrow> emits s i [(ty, w)] j"
  by (simp add: tkey_def)

lemma emits_space: "drop i s = CHR '' '' # r \<Longrightarrow> emits s (Suc i) (k # ks) j \<Longrightarrow> emits s i (k # ks) j"
  by (simp add: NextToken_space)

lemma emits_Tokenize:
  "emits s i ks j \<Longrightarrow> j = length s \<Longrightarrow> \<exists>us t. Tokenize s i = Some (us @ [t]) \<and> map tkey us = ks \<and> tok_type t = TK_END"
proof (induction ks arbitrary: i)
  case Nil
  have "NextToken s (length s) = Some (mk_token TK_END '''' (length s), length s)"
    by (subst NextToken_unfold) (simp add: token_at_def SkipWhitespace_def scan_while.simps)
  then show ?case using Nil by (subst Tokenize.simps) (auto intro: exI [of _ "[]"])
next
  case (Cons k ks)
  then obtain t i' where t: "NextToken s i = Some (t, i')" "tkey t = k" "tok_type t \<noteq> TK_END" "emits s i' ks j"
    by (auto split: option.splits)
  with Cons obtain us e where "Tokenize s i' = Some (us @ [e])" "map tkey us = ks" "tok_type e = TK_END" by blast
  then show ?case using t by (subst Tokenize.simps) (auto intro!: exI [of _ "t # us"])
qed

subsection \<open>Text to tokens\<close>

lemma drop_step: "drop i s = w @ r \<Longrightarrow> drop (i + length w) s = r"
  by (metis append_eq_conv_conj drop_drop add.commute)

lemma punct_not_word:
  "\<not> ident_start (CHR ''('')" "\<not> ident_start (CHR '')'')" "\<not> ident_start (CHR ''*'')" "\<not> ident_start (CHR ''+'')"
  "\<not> ident_start (CHR ''-'')" "\<not> ident_start (CHR ''='')" "\<not> ident_start (CHR ''!'')" "\<not> ident_start (CHR ''<'')"
  "\<not> ident_start (CHR ''>'')"
  "\<not> is_digit (CHR ''('')" "\<not> is_digit (CHR '')'')" "\<not> is_digit (CHR ''*'')" "\<not> is_digit (CHR ''+'')"
  "\<not> is_digit (CHR ''-'')" "\<not> is_digit (CHR ''='')" "\<not> is_digit (CHR ''!'')" "\<not> is_digit (CHR ''<'')"
  "\<not> is_digit (CHR ''>'')"
  "\<not> is_space (CHR ''('')" "\<not> is_space (CHR '')'')" "\<not> is_space (CHR ''*'')" "\<not> is_space (CHR ''+'')"
  "\<not> is_space (CHR ''-'')" "\<not> is_space (CHR ''='')" "\<not> is_space (CHR ''!'')" "\<not> is_space (CHR ''<'')"
  "\<not> is_space (CHR ''>'')"
  by (simp_all add: ident_start_def is_alpha_def is_digit_def is_space_def less_eq_char_def)

lemma emits_punct1:
  assumes "drop i s = c # r" "(c, ty) \<in> {(CHR ''('', TK_LPAREN), (CHR '')'', TK_RPAREN), (CHR ''*'', TK_STAR)}"
  shows "emits s i [(ty, [c])] (Suc i)"
  using assms drop_Cons_nth [OF assms(1)]
  by (intro emits_one) (auto simp: punctuation_def Let_def punct_not_word NextToken_punct)

lemma followed_by_space: "drop (Suc i) s = CHR '' '' # r \<Longrightarrow> c \<noteq> CHR '' '' \<Longrightarrow> \<not> followed_by s i c"
  using drop_Cons_nth [of "Suc i" s] by (auto simp: followed_by_def)

lemma followed_by_next: "drop (Suc i) s = c # r \<Longrightarrow> followed_by s i c"
  using drop_Cons_nth [of "Suc i" s] by (auto simp: followed_by_def)

lemma emits_symbol:
  assumes d: "drop i s = w @ CHR '' '' # r" and w: "w = op_name p" and p: "p \<noteq> OP_AND" "p \<noteq> OP_OR"
  shows "emits s i [(op_token p, w)] (i + length w)"
proof -
  obtain c cs where cs: "w = c # cs" using w by (cases p) auto
  have d1: "drop i s = c # cs @ CHR '' '' # r" using d cs by simp
  note n = drop_Cons_nth [OF d1]
  have punct: "punctuation s i = Punct (op_token p) w (length w)"
    using p n w cs by (cases p) (auto simp: punctuation_def Let_def followed_by_space followed_by_next)
  have c: "\<not> is_space c \<and> \<not> ident_start c \<and> \<not> is_digit c \<and> c \<noteq> CHR 0x27"
    using p w cs by (cases p) (simp_all add: punct_not_word)
  have "NextToken s i = Some (mk_token (op_token p) w i, i + length w)"
    using c by (intro NextToken_punct [OF d1 _ _ _ _ punct]) simp_all
  moreover have "op_token p \<noteq> TK_END" by (cases p) simp_all
  ultimately show ?thesis by (rule emits_one)
qed

lemma emits_op:
  assumes "drop i s = op_name p @ CHR '' '' # r"
  shows "emits s i [(op_token p, op_name p)] (i + length (op_name p))"
proof (cases "p = OP_AND \<or> p = OP_OR")
  case True
  have "\<not> ident_char (CHR '' '')"
    by (simp add: ident_char_def is_alnum_def is_alpha_def is_digit_def less_eq_char_def)
  moreover have "op_name p \<noteq> []" "ident_start (hd (op_name p))" "list_all ident_char (op_name p)"
    using True by (auto simp: ident_start_def is_alpha_def ident_char_def is_alnum_def less_eq_char_def)
  ultimately have "NextToken s i = Some (mk_token (keyword_type (op_name p)) (op_name p) i, i + length (op_name p))"
    by (intro NextToken_ident [OF assms]) simp_all
  moreover have "keyword_type (op_name p) = op_token p" "op_token p \<noteq> TK_END"
    using True by (auto simp: keyword_type_def)
  ultimately show ?thesis by (simp add: tkey_def)
next
  case False
  with assms show ?thesis by (intro emits_symbol) auto
qed

definition ends_word :: "string \<Rightarrow> bool" where
  "ends_word r \<longleftrightarrow> r = [] \<or> hd r \<in> {CHR '' '', CHR '')'', CHR ''(''}"

lemma ends_word_not_char:
  "ends_word r \<Longrightarrow> r = [] \<or> \<not> ident_char (hd r)" "ends_word r \<Longrightarrow> r = [] \<or> \<not> is_digit (hd r) \<and> hd r \<noteq> CHR ''.''"
  by (auto simp: ends_word_def ident_char_def is_alnum_def is_alpha_def is_digit_def less_eq_char_def)

lemma ends_word_simps [simp]: "ends_word (CHR '' '' # r)" "ends_word (CHR '')'' # r)" "ends_word (CHR ''('' # r)" "ends_word []"
  by (simp_all add: ends_word_def)

lemma emits_name:
  assumes "drop i s = n @ r" "ident_name n" "ends_word r"
  shows "emits s i [(TK_IDENTIFIER, n)] (i + length n)"
  using NextToken_ident [OF assms(1) _ _ _ ends_word_not_char(1) [OF assms(3)]] assms(2)
  by (simp add: ident_name_def tkey_def)

lemma ident_name_agg: "a \<noteq> AGG_INVALID \<Longrightarrow> ident_name (agg_name a)"
  by (cases a) (simp_all add: ident_name_def keyword_type_def ident_start_def is_alpha_def ident_char_def is_alnum_def less_eq_char_def)

lemma expr_text_starts: "printable e \<Longrightarrow> expr_keys e \<noteq> []"
  by (cases e rule: expr_keys.cases) auto

lemma emits_expr:
  assumes "drop i s = Expr_ToString e @ r" "printable e" "ends_word r"
  shows "emits s i (expr_keys e) (i + length (Expr_ToString e))"
  using assms
proof (induction e arbitrary: i r rule: Expr_ToString.induct)
  case (1 n)
  then show ?case using emits_name by simp
next
  case (2 l)
  show ?case
  proof (cases l)
    case (Lit_int v)
    then have "NextToken s i = Some (mk_token TK_INTEGER (nat_str (nat (sint v))) i, i + length (nat_str (nat (sint v))))"
      using 2 by (intro NextToken_number [where r = r]) (auto simp: int_str_def nat_str_digits ends_word_not_char)
    then show ?thesis using 2 Lit_int by (simp add: tkey_def int_str_def)
  next
    case (Lit_string w)
    then show ?thesis using 2 NextToken_string [of i s w r] by (simp add: tkey_def)
  qed (use 2 in simp)
next
  case (3 p l r')
  define a where "a = i + 1"
  define b where "b = a + length (Expr_ToString l)"
  define c where "c = Suc b + length (op_name p)"
  define d where "d = Suc c + length (Expr_ToString r')"
  have d0: "drop i s = CHR ''('' # Expr_ToString l @ CHR '' '' # op_name p @ CHR '' '' # Expr_ToString r' @ CHR '')'' # r"
    using 3 by simp
  have da: "drop a s = Expr_ToString l @ CHR '' '' # op_name p @ CHR '' '' # Expr_ToString r' @ CHR '')'' # r"
    using drop_Cons_nth [OF d0] by (simp add: a_def)
  have db: "drop b s = CHR '' '' # op_name p @ CHR '' '' # Expr_ToString r' @ CHR '')'' # r"
    using drop_step [OF da] by (simp add: b_def)
  have db': "drop (Suc b) s = op_name p @ CHR '' '' # Expr_ToString r' @ CHR '')'' # r"
    using drop_Cons_nth [OF db] by simp
  have dc: "drop c s = CHR '' '' # Expr_ToString r' @ CHR '')'' # r"
    using drop_step [OF db'] by (simp add: c_def)
  have dc': "drop (Suc c) s = Expr_ToString r' @ CHR '')'' # r"
    using drop_Cons_nth [OF dc] by simp
  have dd: "drop d s = CHR '')'' # r"
    using drop_step [OF dc'] by (simp add: d_def)
  have e1: "emits s i [(TK_LPAREN, ''('')] a" using emits_punct1 [OF d0] by (simp add: a_def)
  have e2: "emits s a (expr_keys l) b" using 3 da by (simp add: b_def)
  have e3: "emits s b [(op_token p, op_name p)] c"
    using emits_space [OF db] emits_op [OF db'] by (simp add: c_def)
  obtain k ks where k: "expr_keys r' = k # ks" using expr_text_starts [of r'] 3 by (cases "expr_keys r'") auto
  have e4: "emits s c (expr_keys r') d"
    using emits_space [OF dc, of k ks d] "3.IH"(2) [OF dc'] 3 k by (simp add: d_def)
  have e5: "emits s d [(TK_RPAREN, '')'')] (Suc d)" using emits_punct1 [OF dd] by simp
  have "emits s i ([(TK_LPAREN, ''('')] @ expr_keys l @ [(op_token p, op_name p)] @ expr_keys r' @ [(TK_RPAREN, '')'')]) (Suc d)"
    by (intro emits_append [OF e1] emits_append [OF e2] emits_append [OF e3] emits_append [OF e4] e5)
  then show ?case by (simp add: a_def b_def c_def d_def add.assoc)
next
  case (4 a)
  have d0: "drop i s = agg_name a @ CHR ''('' # CHR ''*'' # CHR '')'' # r" using 4 by simp
  note d1 = drop_step [OF d0]
  note d2 = conjunct2 [OF conjunct2 [OF drop_Cons_nth [OF d1]]]
  note d3 = conjunct2 [OF conjunct2 [OF drop_Cons_nth [OF d2]]]
  have e0: "emits s i [(TK_IDENTIFIER, agg_name a)] (i + length (agg_name a))"
    using 4 by (intro emits_name [OF d0] ident_name_agg) auto
  have "emits s i ([(TK_IDENTIFIER, agg_name a)] @ [(TK_LPAREN, ''('')] @ [(TK_STAR, ''*'')] @ [(TK_RPAREN, '')'')])
      (Suc (Suc (Suc (i + length (agg_name a)))))"
    by (rule emits_append [OF e0], rule emits_append [OF emits_punct1 [OF d1]], simp,
        rule emits_append [OF emits_punct1 [OF d2]], simp, rule emits_punct1 [OF d3], simp)
  then show ?case by simp
next
  case (5 a e)
  have d0: "drop i s = agg_name a @ CHR ''('' # Expr_ToString e @ CHR '')'' # r" using 5 by simp
  note d1 = drop_step [OF d0]
  note d2 = conjunct2 [OF conjunct2 [OF drop_Cons_nth [OF d1]]]
  note d3 = drop_step [OF d2]
  have e0: "emits s i [(TK_IDENTIFIER, agg_name a)] (i + length (agg_name a))"
    using 5 by (intro emits_name [OF d0] ident_name_agg) auto
  have e2: "emits s (Suc (i + length (agg_name a))) (expr_keys e) (Suc (i + length (agg_name a)) + length (Expr_ToString e))"
    using 5 by (intro "5.IH" [OF d2]) auto
  have "emits s i ([(TK_IDENTIFIER, agg_name a)] @ [(TK_LPAREN, ''('')] @ expr_keys e @ [(TK_RPAREN, '')'')])
      (Suc (Suc (i + length (agg_name a)) + length (Expr_ToString e)))"
    by (rule emits_append [OF e0], rule emits_append [OF emits_punct1 [OF d1]], simp,
        rule emits_append [OF e2], rule emits_punct1 [OF d3], simp)
  then show ?case by (simp add: add.assoc)
qed

text \<open>C1: For a \<open>printable\<close> expression (no double literals, which print with six decimals, no negative integers, no quote in a
  string, only names that the lexer reads as one identifier), lexing and parsing the text that \<open>ToString\<close> prints gives the
  expression back, with the END token left: parentheses, operators, names, integers, strings and
  aggregates survive the printer, the lexer and the three precedence levels of the parser.\<close>

theorem parse_printed_expression:
  assumes "printable e"
  shows "\<exists>ts t. Lex (Expr_ToString e) = Some ts \<and> ParseExpression ts = Inr (e, [t]) \<and> tok_type t = TK_END"
proof -
  have "emits (Expr_ToString e) 0 (expr_keys e) (length (Expr_ToString e))"
    using emits_expr [of 0 "Expr_ToString e" e "[]"] assms by simp
  from emits_Tokenize [OF this refl] obtain us t where
    ts: "Tokenize (Expr_ToString e) 0 = Some (us @ [t])" "map tkey us = expr_keys e" "tok_type t = TK_END" by blast
  then have "ParseExpression (us @ [t]) = Inr (e, [t])"
    unfolding ParseExpression_def using assms
    by (intro or_of_primary ParsePrimary_keys) (simp_all add: stops_def)
  with ts show ?thesis by (auto simp: Lex_def)
qed

theorem parse_printed_expression_witness:
  "\<exists>ts t. Lex ''((a >= 18) AND (COUNT(*) = 'x'))'' = Some ts \<and>
     ParseExpression ts = Inr (BinaryOp OP_AND (BinaryOp OP_GE (ColumnRef ''a'') (Literal (Lit_int 18)))
       (BinaryOp OP_EQ (AggFunc AGG_COUNT None) (Literal (Lit_string ''x''))), [t]) \<and> tok_type t = TK_END"
proof -
  let ?e = "BinaryOp OP_AND (BinaryOp OP_GE (ColumnRef ''a'') (Literal (Lit_int 18)))
       (BinaryOp OP_EQ (AggFunc AGG_COUNT None) (Literal (Lit_string ''x'')))"
  have "printable ?e"
    by (simp add: ident_name_def ident_start_def is_alpha_def ident_char_def is_alnum_def keyword_type_def less_eq_char_def)
  moreover have "Expr_ToString ?e = ''((a >= 18) AND (COUNT(*) = 'x'))''"
    by code_simp
  ultimately show ?thesis using parse_printed_expression [of ?e] by simp
qed

subsection \<open>Flat expressions: the three levels\<close>

text \<open>
  A condition written without parentheses: comparison and arithmetic operators share one level
  and associate to the left, AND binds their chains, OR binds those.
\<close>

type_synonym chain = "expr \<times> (op_type \<times> expr) list"
type_synonym conj_list = "chain \<times> chain list"
type_synonym disj_list = "conj_list \<times> conj_list list"

definition chain_expr :: "chain \<Rightarrow> expr" where
  "chain_expr c = foldl (\<lambda>l (p, r). BinaryOp p l r) (fst c) (snd c)"

definition conj_expr :: "conj_list \<Rightarrow> expr" where
  "conj_expr c = foldl (\<lambda>l r. BinaryOp OP_AND l (chain_expr r)) (chain_expr (fst c)) (snd c)"

definition disj_expr :: "disj_list \<Rightarrow> expr" where
  "disj_expr d = foldl (\<lambda>l r. BinaryOp OP_OR l (conj_expr r)) (conj_expr (fst d)) (snd d)"

definition tail_keys :: "(op_type \<times> expr) list \<Rightarrow> tkey list" where
  "tail_keys xs = concat (map (\<lambda>(p, e). (op_token p, op_name p) # expr_keys e) xs)"

definition chain_keys :: "chain \<Rightarrow> tkey list" where
  "chain_keys c = expr_keys (fst c) @ tail_keys (snd c)"

definition conj_keys :: "conj_list \<Rightarrow> tkey list" where
  "conj_keys c = chain_keys (fst c) @ concat (map (\<lambda>c. (TK_AND, ''AND'') # chain_keys c) (snd c))"

definition disj_keys :: "disj_list \<Rightarrow> tkey list" where
  "disj_keys d = conj_keys (fst d) @ concat (map (\<lambda>c. (TK_OR, ''OR'') # conj_keys c) (snd d))"

definition chain_ok :: "chain \<Rightarrow> bool" where
  "chain_ok c \<longleftrightarrow> printable (fst c) \<and> list_all (\<lambda>(p, e). p \<noteq> OP_AND \<and> p \<noteq> OP_OR \<and> printable e) (snd c)"

definition conj_ok :: "conj_list \<Rightarrow> bool" where
  "conj_ok c \<longleftrightarrow> chain_ok (fst c) \<and> list_all chain_ok (snd c)"

definition disj_ok :: "disj_list \<Rightarrow> bool" where
  "disj_ok d \<longleftrightarrow> conj_ok (fst d) \<and> list_all conj_ok (snd d)"

lemma map_keys_append:
  "map f xs = as @ bs \<Longrightarrow> \<exists>ls rs. xs = ls @ rs \<and> map f ls = as \<and> map f rs = bs"
  by (auto simp: map_eq_append_conv)

lemma op_token_not_LPAREN: "op_token p \<noteq> TK_LPAREN" "TK_LPAREN \<noteq> op_token p"
  by (cases p; simp)+

lemma comparison_loop_tail:
  assumes "map tkey us = tail_keys xs" "list_all (\<lambda>(p, e). p \<noteq> OP_AND \<and> p \<noteq> OP_OR \<and> printable e) xs"
    "cmp_token (peek_type rest) = None" "peek_type rest \<noteq> TK_LPAREN"
  shows "comparison_loop l (us @ rest) = Inr (foldl (\<lambda>l (p, r). BinaryOp p l r) l xs, rest)"
  using assms
proof (induction xs arbitrary: us l)
  case Nil
  then show ?case by (simp add: tail_keys_def comparison_loop_stop)
next
  case (Cons x xs)
  obtain p e where x: "x = (p, e)" by (cases x)
  from Cons.prems(1) x obtain t es vs where us: "us = t # es @ vs"
    and t: "tok_type t = op_token p" and es: "map tkey es = expr_keys e" and vs: "map tkey vs = tail_keys xs"
    by (auto simp: tail_keys_def map_eq_Cons_conv tkey_eq dest!: map_keys_append)
  have "peek_type (vs @ rest) \<noteq> TK_LPAREN"
    using vs Cons.prems(4) by (cases xs; cases vs) (auto simp: tail_keys_def tkey_eq op_token_not_LPAREN)
  then have "ParsePrimaryExpression (es @ vs @ rest) = Inr (e, vs @ rest)"
    using ParsePrimary_keys [OF es] Cons.prems(2) x by simp
  then show ?case
    using Cons.IH [OF vs] Cons.prems(2,3,4) us t x cmp_token_op [of p]
    by (subst comparison_loop.simps) simp
qed

lemma tail_peek: "map tkey us = tail_keys xs \<Longrightarrow> peek_type rest \<noteq> TK_LPAREN \<Longrightarrow> peek_type (us @ rest) \<noteq> TK_LPAREN"
  by (cases xs; cases us) (auto simp: tail_keys_def tkey_eq op_token_not_LPAREN)

lemma ParseComparison_chain:
  assumes "map tkey us = chain_keys c" "chain_ok c" "cmp_token (peek_type rest) = None" "peek_type rest \<noteq> TK_LPAREN"
  shows "ParseComparisonExpression (us @ rest) = Inr (chain_expr c, rest)"
proof -
  from assms(1) obtain es vs where us: "us = es @ vs" "map tkey es = expr_keys (fst c)" "map tkey vs = tail_keys (snd c)"
    unfolding chain_keys_def by (auto dest!: map_keys_append)
  have "ParsePrimaryExpression (es @ vs @ rest) = Inr (fst c, vs @ rest)"
    using us(2) assms(2) tail_peek [OF us(3) assms(4)] by (intro ParsePrimary_keys) (simp_all add: chain_ok_def)
  moreover have "comparison_loop (fst c) (vs @ rest) = Inr (chain_expr c, rest)"
    unfolding chain_expr_def using assms(2) by (intro comparison_loop_tail us(3) assms(3,4)) (simp add: chain_ok_def)
  ultimately show ?thesis using us(1) by (simp add: ParseComparisonExpression.simps)
qed

text \<open>The AND and the OR level run the same loop over their separator.\<close>

lemma sep_peek:
  assumes "map tkey us = concat (map (\<lambda>c. (ty, w) # f c) xs)" "P ty" "P (peek_type rest)"
  shows "P (peek_type (us @ rest))"
  using assms by (cases xs; cases us) (auto simp: tkey_eq)

lemma and_loop_chains:
  assumes "map tkey us = concat (map (\<lambda>c. (TK_AND, ''AND'') # chain_keys c) xs)" "list_all chain_ok xs"
    "cmp_token (peek_type rest) = None" "peek_type rest \<noteq> TK_LPAREN" "peek_type rest \<noteq> TK_AND"
  shows "and_loop l (us @ rest) = Inr (foldl (\<lambda>l r. BinaryOp OP_AND l (chain_expr r)) l xs, rest)"
  using assms
proof (induction xs arbitrary: us l)
  case Nil
  then show ?case by (simp add: and_loop_stop)
next
  case (Cons x xs)
  from Cons.prems(1) obtain t es vs where us: "us = t # es @ vs"
    and t: "tok_type t = TK_AND" and es: "map tkey es = chain_keys x"
    and vs: "map tkey vs = concat (map (\<lambda>c. (TK_AND, ''AND'') # chain_keys c) xs)"
    by (auto simp: map_eq_Cons_conv tkey_eq dest!: map_keys_append)
  have "cmp_token (peek_type (vs @ rest)) = None" "peek_type (vs @ rest) \<noteq> TK_LPAREN"
    using Cons.prems(3,4) sep_peek [OF vs, of "\<lambda>ty. cmp_token ty = None"] sep_peek [OF vs, of "\<lambda>ty. ty \<noteq> TK_LPAREN"]
    by (auto simp: cmp_token_def)
  then have "ParseComparisonExpression (es @ vs @ rest) = Inr (chain_expr x, vs @ rest)"
    using Cons.prems(2) by (intro ParseComparison_chain es) simp_all
  then show ?case
    using Cons.IH [OF vs] Cons.prems us t by (subst and_loop.simps) simp
qed

lemma ParseAnd_conj:
  assumes "map tkey us = conj_keys c" "conj_ok c" "cmp_token (peek_type rest) = None" "peek_type rest \<noteq> TK_LPAREN"
    "peek_type rest \<noteq> TK_AND"
  shows "ParseAndExpression (us @ rest) = Inr (conj_expr c, rest)"
proof -
  from assms(1) obtain es vs where us: "us = es @ vs" "map tkey es = chain_keys (fst c)"
    and vs: "map tkey vs = concat (map (\<lambda>c. (TK_AND, ''AND'') # chain_keys c) (snd c))"
    unfolding conj_keys_def by (auto dest!: map_keys_append)
  have "cmp_token (peek_type (vs @ rest)) = None" "peek_type (vs @ rest) \<noteq> TK_LPAREN"
    using assms(3,4) sep_peek [OF vs, of "\<lambda>ty. cmp_token ty = None"] sep_peek [OF vs, of "\<lambda>ty. ty \<noteq> TK_LPAREN"]
    by (auto simp: cmp_token_def)
  then have "ParseComparisonExpression (es @ vs @ rest) = Inr (chain_expr (fst c), vs @ rest)"
    using assms(2) by (intro ParseComparison_chain us(2)) (simp_all add: conj_ok_def)
  moreover have "and_loop (chain_expr (fst c)) (vs @ rest) = Inr (conj_expr c, rest)"
    unfolding conj_expr_def using assms by (intro and_loop_chains vs) (simp_all add: conj_ok_def)
  ultimately show ?thesis using us(1) by (simp add: ParseAndExpression.simps)
qed

lemma or_loop_conjs:
  assumes "map tkey us = concat (map (\<lambda>c. (TK_OR, ''OR'') # conj_keys c) xs)" "list_all conj_ok xs"
    "stops rest" "peek_type rest \<noteq> TK_LPAREN"
  shows "or_loop l (us @ rest) = Inr (foldl (\<lambda>l r. BinaryOp OP_OR l (conj_expr r)) l xs, rest)"
  using assms
proof (induction xs arbitrary: us l)
  case Nil
  then show ?case by (simp add: or_loop_stop stops_def)
next
  case (Cons x xs)
  from Cons.prems(1) obtain t es vs where us: "us = t # es @ vs"
    and t: "tok_type t = TK_OR" and es: "map tkey es = conj_keys x"
    and vs: "map tkey vs = concat (map (\<lambda>c. (TK_OR, ''OR'') # conj_keys c) xs)"
    by (auto simp: map_eq_Cons_conv tkey_eq dest!: map_keys_append)
  have "cmp_token (peek_type (vs @ rest)) = None" "peek_type (vs @ rest) \<noteq> TK_LPAREN" "peek_type (vs @ rest) \<noteq> TK_AND"
    using Cons.prems(3,4) sep_peek [OF vs, of "\<lambda>ty. cmp_token ty = None \<and> ty \<noteq> TK_LPAREN \<and> ty \<noteq> TK_AND"]
    by (auto simp: cmp_token_def stops_def)
  then have "ParseAndExpression (es @ vs @ rest) = Inr (conj_expr x, vs @ rest)"
    using Cons.prems(2) by (intro ParseAnd_conj es) simp_all
  then show ?case
    using Cons.IH [OF vs] Cons.prems us t by (subst or_loop.simps) simp
qed

text \<open>How a condition without parentheses is read: operators other than AND and OR share one
  level and associate to the left (\<open>a = b + c\<close> is \<open>(a = b) + c\<close>), AND binds tighter than OR.\<close>

theorem parse_flat_condition:
  assumes "map tkey us = disj_keys d" "disj_ok d" "stops rest" "peek_type rest \<noteq> TK_LPAREN"
  shows "ParseExpression (us @ rest) = Inr (disj_expr d, rest)"
proof -
  from assms(1) obtain es vs where us: "us = es @ vs" "map tkey es = conj_keys (fst d)"
    and vs: "map tkey vs = concat (map (\<lambda>c. (TK_OR, ''OR'') # conj_keys c) (snd d))"
    unfolding disj_keys_def by (auto dest!: map_keys_append)
  have "cmp_token (peek_type (vs @ rest)) = None" "peek_type (vs @ rest) \<noteq> TK_LPAREN" "peek_type (vs @ rest) \<noteq> TK_AND"
    using assms(3,4) sep_peek [OF vs, of "\<lambda>ty. cmp_token ty = None \<and> ty \<noteq> TK_LPAREN \<and> ty \<noteq> TK_AND"]
    by (auto simp: cmp_token_def stops_def)
  then have "ParseAndExpression (es @ vs @ rest) = Inr (conj_expr (fst d), vs @ rest)"
    using assms(2) by (intro ParseAnd_conj us(2)) (simp_all add: disj_ok_def)
  moreover have "or_loop (conj_expr (fst d)) (vs @ rest) = Inr (disj_expr d, rest)"
    unfolding disj_expr_def using assms by (intro or_loop_conjs vs) (simp_all add: disj_ok_def)
  ultimately show ?thesis using us(1) by (simp add: ParseExpression_def ParseOrExpression.simps)
qed

theorem parse_flat_condition_witness:
  "ParseExpression [mk_token TK_IDENTIFIER ''a'' 0, mk_token TK_EQ ''='' 2, mk_token TK_IDENTIFIER ''b'' 4,
     mk_token TK_PLUS ''+'' 6, mk_token TK_IDENTIFIER ''c'' 8] =
   Inr (BinaryOp OP_ADD (BinaryOp OP_EQ (ColumnRef ''a'') (ColumnRef ''b'')) (ColumnRef ''c''), [])"
  using parse_flat_condition [of
      "[mk_token TK_IDENTIFIER ''a'' 0, mk_token TK_EQ ''='' 2, mk_token TK_IDENTIFIER ''b'' 4,
        mk_token TK_PLUS ''+'' 6, mk_token TK_IDENTIFIER ''c'' 8]"
      "(((ColumnRef ''a'', [(OP_EQ, ColumnRef ''b''), (OP_ADD, ColumnRef ''c'')]), []), [])" "[]"]
  by (simp add: disj_keys_def conj_keys_def chain_keys_def tail_keys_def tkey_def disj_ok_def conj_ok_def
      chain_ok_def stops_def disj_expr_def conj_expr_def chain_expr_def ident_name_def ident_start_def
      is_alpha_def ident_char_def is_alnum_def keyword_type_def less_eq_char_def)

subsection \<open>What a parsed CREATE TABLE satisfies\<close>

text \<open>Column ids are positions, every column has a real type, every key lists a column.\<close>

definition created_ok :: "column_schema list \<times> key_constraint list \<Rightarrow> bool" where
  "created_ok ck \<longleftrightarrow>
     map cs_column_id (fst ck) = map u32_of [0..<length (fst ck)] \<and>
     list_all (\<lambda>c. cs_type c \<noteq> DT_INVALID) (fst ck) \<and>
     list_all (\<lambda>k. kc_columns k \<noteq> [] \<and> (kc_type k = KT_PRIMARY \<longrightarrow> kc_name k = '''')) (snd ck)"

lemma ident_list_not_Nil: "ident_list m ts = Inr (xs, ts') \<Longrightarrow> xs \<noteq> []"
  by (subst (asm) ident_list.simps) (auto elim!: bind_r_InrE split: if_splits)

lemma ParseDataType_valid [simp]: "ParseDataType ts \<noteq> Inr (DT_INVALID, ts')"
  by (auto simp: ParseDataType_def Let_def elim!: bind_r_InrE split: if_splits)

lemma ParseKeyColumnList_not_Nil: "ParseKeyColumnList ts = Inr (xs, ts') \<Longrightarrow> xs \<noteq> []"
  by (auto simp: ParseKeyColumnList_def elim!: bind_r_InrE dest: ident_list_not_Nil)

lemma create_item_ok:
  assumes "create_item ts cols keys = Inr (ck, ts')" "created_ok (cols, keys)"
  shows "created_ok ck"
  using assms
  by (auto simp: create_item_def created_ok_def Let_def elim!: bind_r_InrE split: if_splits
      dest: ParseKeyColumnList_not_Nil)

lemma create_items_ok:
  "create_items ts cols keys = Inr (ck, ts') \<Longrightarrow> created_ok (cols, keys) \<Longrightarrow> created_ok ck"
proof (induction ts cols keys arbitrary: ck ts' rule: create_items.induct)
  case (1 ts cols keys)
  from "1.prems"(1) obtain ck1 ts1 where item: "create_item ts cols keys = Inr (ck1, ts1)"
    and rest: "(if peek_type ts1 = TK_COMMA then create_items (Consume ts1) (fst ck1) (snd ck1) else Inr (ck1, ts1)) = Inr (ck, ts')"
    by (subst (asm) create_items.simps) (auto elim!: bind_r_InrE)
  have ok: "created_ok ck1" using create_item_ok [OF item "1.prems"(2)] .
  show ?case
  proof (cases "peek_type ts1 = TK_COMMA")
    case True
    then have "create_items (Consume ts1) (fst ck1) (snd ck1) = Inr (ck, ts')" using rest by simp
    from "1.IH" [OF item refl True this] ok show ?thesis by simp
  qed (use rest ok in simp)
qed

text \<open>A CREATE TABLE the parser accepts numbers its columns by position, gives each of them one
  of the five storable types, and has a nonempty column list in every key constraint; a column
  marked PRIMARY KEY has become a table constraint.\<close>

theorem parsed_create_table_ok:
  assumes "ParseStatement ts = Inr (Stmt_create s, ts')"
  shows "created_ok (crt_columns s, crt_keys s)"
proof -
  have "ParseCreateTable (Consume ts) = Inr (s, ts')"
    using assms by (auto simp: ParseStatement_def elim!: bind_r_InrE split: if_splits)
  then obtain ts1 ck ts2 where "create_items ts1 [] [] = Inr (ck, ts2)"
    "crt_columns s = fst ck" "crt_keys s = snd ck"
    unfolding ParseCreateTable_def by (auto elim!: bind_r_InrE)
  then show ?thesis using create_items_ok [of ts1 "[]" "[]" ck ts2] by (simp add: created_ok_def)
qed

theorem parsed_create_table_ok_witness:
  "created_ok ([\<lparr>cs_column_id = 0, cs_name = ''id'', cs_type = DT_INT32\<rparr>],
     [\<lparr>kc_type = KT_PRIMARY, kc_name = '''', kc_columns = [''id'']\<rparr>])"
proof -
  let ?s = "\<lparr>crt_table_name = ''t'', crt_if_not_exists = False,
     crt_columns = [\<lparr>cs_column_id = 0, cs_name = ''id'', cs_type = DT_INT32\<rparr>],
     crt_keys = [\<lparr>kc_type = KT_PRIMARY, kc_name = '''', kc_columns = [''id'']\<rparr>]\<rparr>"
  have "ParseStatement [mk_token TK_CREATE ''CREATE'' 0, mk_token TK_TABLE ''TABLE'' 7,
      mk_token TK_IDENTIFIER ''t'' 13, mk_token TK_LPAREN ''('' 15, mk_token TK_IDENTIFIER ''id'' 16,
      mk_token TK_IDENTIFIER ''int'' 19, mk_token TK_PRIMARY ''PRIMARY'' 23, mk_token TK_KEY ''KEY'' 31,
      mk_token TK_RPAREN '')'' 34] = Inr (Stmt_create ?s, [])"
    by code_simp
  from parsed_create_table_ok [OF this] show ?thesis by simp
qed

end
