(* ===== verification/Examples.thy ===== *)
theory Examples
  imports Expr_Round_Trip Binder Index Segment
begin

text \<open>
  Concrete inputs for the properties that have hypotheses: a catalog with one table, statements over it,
  masks, batches and chunks of a few rows.  Each witness applies its property there.
\<close>

subsection \<open>A catalog with one table\<close>

definition sample_schema :: table_schema where
  "sample_schema = \<lparr>ts_columns = [\<lparr>cs_column_id = 0, cs_name = ''id'', cs_type = DT_INT32\<rparr>,
     \<lparr>cs_column_id = 1, cs_name = ''name'', cs_type = DT_VARCHAR\<rparr>],
     ts_primary_key = Some \<lparr>ks_key_id = 0, ks_name = kPrimaryKeyName, ks_type = KT_PRIMARY, ks_columns = [0]\<rparr>,
     ts_secondary_keys = []\<rparr>"

definition sample_entry :: table_entry where
  "sample_entry = \<lparr>te_table_id = 0, te_name = ''t'', te_schema = sample_schema\<rparr>"

definition sample_catalog :: catalog where
  "sample_catalog = \<lparr>cat_names = [''t'' \<mapsto> 0], cat_tables = [(0, sample_entry)],
     cat_file = Some (catalog_bytes [(0, sample_entry)])\<rparr>"

lemma sample_catalog_inv: "cat_inv sample_catalog"
  by (simp add: cat_inv_def names_match_def sample_catalog_def sample_entry_def)

lemma sample_catalog_fits: "catalog_fits sample_catalog"
  by (simp add: catalog_fits_def sample_catalog_def sample_entry_def entry_fits_def schema_fits_def
      sample_schema_def column_fits_def key_fits_def kPrimaryKeyName_def)

lemma sample_catalog_ids: "ids_left sample_catalog"
  by (simp add: ids_left_def sample_catalog_def)

lemma sample_catalog_table: "GetTable ''t'' sample_catalog = Inr (Some sample_entry)"
  by (simp add: GetTable_def sample_catalog_def)

theorem LoadMeta_after_SaveMeta_witness:
  "fst (LoadMeta sample_catalog) \<and> cat_names (snd (LoadMeta sample_catalog)) = [''t'' \<mapsto> 0] \<and>
   map_of (cat_tables (snd (LoadMeta sample_catalog))) = [0 \<mapsto> sample_entry]"
proof -
  have "SaveMeta Io_ok sample_catalog = (True, sample_catalog)"
    by (simp add: SaveMeta_def write_file_def sample_catalog_def)
  from LoadMeta_after_SaveMeta [OF sample_catalog_inv sample_catalog_fits this refl prod.collapse [symmetric]]
  show ?thesis by (simp add: sample_catalog_def)
qed

theorem catalog_ops_keep_invariant_witness:
  "cat_inv (snd (CreateTable Io_ok ''u'' empty_schema sample_catalog)) \<and>
   cat_inv (snd (DropTable Io_ok ''t'' sample_catalog))"
  using catalog_ops_keep_invariant [OF sample_catalog_inv sample_catalog_ids, of Io_ok "''u''" empty_schema]
    catalog_ops_keep_invariant [OF sample_catalog_inv sample_catalog_ids, of Io_ok "''t''" empty_schema] by simp

theorem CreateTable_effect_witness:
  "fst (CreateTable Io_ok ''u'' empty_schema sample_catalog) \<and>
   FindTable ''u'' (snd (CreateTable Io_ok ''u'' empty_schema sample_catalog)) = Some 1"
proof -
  have "cat_names sample_catalog ''u'' = None" "NextTableId sample_catalog = 1"
    by (simp_all add: sample_catalog_def NextTableId_def)
  with CreateTable_effect [OF sample_catalog_inv sample_catalog_ids prod.collapse [symmetric],
      where io = Io_ok and name = "''u''" and schema = empty_schema]
  show ?thesis by simp
qed

theorem DropTable_no_rollback_witness:
  "\<not> fst (DropTable Io_open_failed ''t'' sample_catalog) \<and>
   FindTable ''t'' (snd (DropTable Io_open_failed ''t'' sample_catalog)) = None \<and>
   FindTable ''t'' (snd (LoadMeta (snd (DropTable Io_open_failed ''t'' sample_catalog)))) = Some 0"
  by (rule DropTable_no_rollback [OF sample_catalog_inv sample_catalog_fits _ _ prod.collapse [symmetric]])
    (simp_all add: sample_catalog_def FindTable_def)

subsection \<open>Statements\<close>

theorem Lex_tokens_ok_witness:
  "token_list_ok ''a>=10'' 0 [mk_token TK_IDENTIFIER ''a'' 0, mk_token TK_GE ''>='' 1,
     mk_token TK_INTEGER ''10'' 3, mk_token TK_END '''' 5]"
proof (rule Lex_tokens_ok)
  have n: "NextToken ''a>=10'' 0 = Some (mk_token TK_IDENTIFIER ''a'' 0, 1)"
    "NextToken ''a>=10'' 1 = Some (mk_token TK_GE ''>='' 1, 3)"
    "NextToken ''a>=10'' 3 = Some (mk_token TK_INTEGER ''10'' 3, 5)"
    "NextToken ''a>=10'' 5 = Some (mk_token TK_END '''' 5, 5)"
    by (subst NextToken.simps, code_simp)+
  have t5: "Tokenize ''a>=10'' 5 = Some [mk_token TK_END '''' 5]"
    by (subst Tokenize.simps) (simp add: n mk_token_def)
  have t3: "Tokenize ''a>=10'' 3 = Some [mk_token TK_INTEGER ''10'' 3, mk_token TK_END '''' 5]"
    by (subst Tokenize.simps) (simp only: n t5 bind.bind_lunit case_prod_conv, simp add: mk_token_def)
  have t1: "Tokenize ''a>=10'' 1 = Some [mk_token TK_GE ''>='' 1, mk_token TK_INTEGER ''10'' 3, mk_token TK_END '''' 5]"
    by (subst Tokenize.simps) (simp only: n t3 bind.bind_lunit case_prod_conv, simp add: mk_token_def)
  show "Lex ''a>=10'' = Some [mk_token TK_IDENTIFIER ''a'' 0, mk_token TK_GE ''>='' 1,
     mk_token TK_INTEGER ''10'' 3, mk_token TK_END '''' 5]"
    unfolding Lex_def by (subst Tokenize.simps) (simp only: n t1 bind.bind_lunit case_prod_conv, simp add: mk_token_def)
qed

theorem Lex_terminates_witness: "\<exists>ts. Lex ''a-1'' = Some ts"
proof (rule Lex_terminates)
  show "\<not> dashes_at ''a-1'' k" for k
    by (cases k) (auto simp: dashes_at_def less_Suc_eq nth_Cons split: nat.splits)
qed

theorem Lex_comment_diverges_witness: "Lex ''  -- all rows'' = None"
  by (rule Lex_comment_diverges) code_simp

theorem BindInsert_typed_witness:
  "insert_ok sample_schema [1, 0] [[BLiteral (Lit_string ''x'') DT_VARCHAR, BLiteral (Lit_int 7) DT_INT32]]"
proof -
  have "BindInsert None sample_catalog \<lparr>ins_table_name = ''t'', ins_columns = [''name'', ''id''],
      ins_values = [[Literal (Lit_string ''x''), Literal (Lit_int 7)]]\<rparr> =
    Inr \<lparr>bi_table_oid = 0, bi_target_col_indices = [1, 0],
      bi_values = [[BLiteral (Lit_string ''x'') DT_VARCHAR, BLiteral (Lit_int 7) DT_INT32]]\<rparr>"
    by code_simp
  from BindInsert_typed [OF this, of sample_entry] show ?thesis
    by (simp add: sample_catalog_table sample_entry_def) (simp add: sample_schema_def)
qed

definition one_column :: catalog where
  "one_column = \<lparr>cat_names = [''s'' \<mapsto> 0], cat_tables = [(0, \<lparr>te_table_id = 0, te_name = ''s'', te_schema =
     \<lparr>ts_columns = [\<lparr>cs_column_id = 0, cs_name = ''x'', cs_type = DT_INT32\<rparr>],
      ts_primary_key = None, ts_secondary_keys = []\<rparr>\<rparr>)], cat_file = None\<rparr>"

theorem BindInsert_nested_column_witness:
  "BindInsert None one_column \<lparr>ins_table_name = ''s'', ins_columns = [],
     ins_values = [[BinaryOp OP_ADD (ColumnRef ''x'') (Literal (Lit_int 1))]]\<rparr> = Inl Undefined_behaviour"
proof -
  have "GetTable ''s'' one_column = Inr (Some (snd (hd (cat_tables one_column))))"
    by (simp add: GetTable_def one_column_def)
  from BindInsert_nested_column [OF this, of "\<lparr>cs_column_id = 0, cs_name = ''x'', cs_type = DT_INT32\<rparr>"]
  show ?thesis by (simp add: one_column_def)
qed

definition sample_select :: select_statement where
  "sample_select = \<lparr>sel_table_name = ''t'',
     sel_select_list = [\<lparr>si_expr = ColumnRef ''name'', si_alias = ''n''\<rparr>,
       \<lparr>si_expr = AggFunc AGG_COUNT None, si_alias = ''''\<rparr>],
     sel_where_clause = Some (BinaryOp OP_GT (ColumnRef ''id'') (Literal (Lit_int 3))),
     sel_group_by = [ColumnRef ''name'']\<rparr>"

theorem BindSelect_raises_witness: "raises semantic_errors (fst (BindSelect sample_catalog sample_select))"
  by (rule BindSelect_raises [OF sample_catalog_inv])

theorem BindSelect_resolved_witness:
  "resolved \<lparr>bt_oid = 0, bt_alias = ''t'', bt_columns = ts_columns sample_schema\<rparr> (BColumnRef 0 1 DT_VARCHAR)"
proof -
  let ?b = "\<lparr>bs_table_oid = 0,
    bs_select_list = [\<lparr>bsi_expr = BColumnRef 0 1 DT_VARCHAR, bsi_alias = ''n''\<rparr>,
      \<lparr>bsi_expr = BAggFunc AGG_COUNT None DT_INT64, bsi_alias = ''''\<rparr>],
    bs_where_clause = Some (BBinaryOp OP_GT (BColumnRef 0 0 DT_INT32) (BLiteral (Lit_int 3) DT_INT32) DT_INT32),
    bs_group_by = [BColumnRef 0 1 DT_VARCHAR]\<rparr>"
  let ?t = "\<lparr>bt_oid = 0, bt_alias = ''t'', bt_columns = ts_columns sample_schema\<rparr>"
  have b: "BindSelect sample_catalog sample_select = (Inr ?b, Some [?t])" by code_simp
  from BindSelect_resolved [OF b, of sample_entry] show ?thesis
    by (simp add: sample_catalog_table sample_select_def sample_entry_def) (simp add: sample_schema_def)
qed

subsection \<open>Masks, batches and chunks\<close>

theorem selection_mask_refines_sets_witness:
  "mask_inv (Mask_AndNot (SetAll 3) (SetNone 3)) \<and> mask_row_count (Mask_AndNot (SetAll 3) (SetNone 3)) = 3 \<and>
   {i. Mask_Test (Mask_AndNot (SetAll 3) (SetNone 3)) i} = {0, 1, 2}"
proof -
  have "{i. Mask_Test (SetAll 3) i} - {i. Mask_Test (SetNone 3) i} = {0, 1, 2}" "mask_row_count (SetAll 3) = 3" "mask_row_count (SetNone 3) = 3"
    by (auto simp: Test_SetAll Test_SetNone kVectorBatchSize_def)
  then show ?thesis
    using selection_mask_refines_sets [OF SetAll_inv SetNone_inv, of 3 3] by simp
qed

theorem ToSelectionVector_correct_witness: "set (ToSelectionVector (SetAll 3)) = {0, 1, 2}"
proof -
  have "{i. Mask_Test (SetAll 3) i} = {0, 1, 2}" by (auto simp: Test_SetAll kVectorBatchSize_def)
  then show ?thesis using ToSelectionVector_correct [OF SetAll_inv, of 3] by simp
qed

theorem cursor_blocks_deliver_rows_witness: "drain (SetAll 100) 7 MakeCursor = ToSelectionVector (SetAll 100)"
  by (rule cursor_blocks_deliver_rows) simp

theorem gather_after_compare_witness: "GatherScalar [10, 20, 30 :: nat] (compare_loop even 3) = [10, 30]"
  using gather_after_compare [of "[10, 20, 30 :: nat]" even] by (simp add: kVectorBatchSize_def upt_rec numeral_3_eq_3)

definition sample_batch :: vector_batch where
  "sample_batch = \<lparr>vb_columns = [\<lparr>cd_type = DT_INT32, cd_buffer = [5, 0, 0, 0, 9, 0, 0, 0], cd_count = 2, cd_is_view = True\<rparr>],
     vb_size = 1, vb_selection = compare_loop (\<lambda>i. i = 1) 2\<rparr>"

lemma sample_batch_ok: "batch_ok sample_batch"
proof -
  have "Mask_Count (compare_loop (\<lambda>i. i = 1) 2) = 1" by code_simp
  then show ?thesis
    by (simp add: batch_ok_def sample_batch_def column_ok_def compare_loop_inv compare_loop_rows kVectorBatchSize_def)
qed

theorem CompactBySelection_keeps_rows_witness:
  "active_rows \<lparr>vb_columns = [\<lparr>cd_type = DT_INT32, cd_buffer = [9, 0, 0, 0], cd_count = 1, cd_is_view = False\<rparr>],
     vb_size = 1, vb_selection = SetAll 1\<rparr> = active_rows sample_batch"
proof -
  have "CompactBySelection sample_batch = Inr
      \<lparr>vb_columns = [\<lparr>cd_type = DT_INT32, cd_buffer = [9, 0, 0, 0], cd_count = 1, cd_is_view = False\<rparr>],
       vb_size = 1, vb_selection = SetAll 1\<rparr>" by code_simp
  from CompactBySelection_keeps_rows [OF sample_batch_ok this] show ?thesis by (simp add: sample_batch_def)
qed

definition sample_chunk :: data_chunk where
  "sample_chunk = set_data 0 [10, 0, 0, 0, 20, 0, 0, 0, 30, 0, 0, 0, 40, 0, 0, 0] 4 (new_chunk 4)"

theorem Slice_splits_rows_witness:
  "chunk_rows (fst (Slice 1 sample_chunk)) @ chunk_rows (snd (Slice 1 sample_chunk)) = chunk_rows sample_chunk"
  by (rule Slice_splits_rows [OF _ _ prod.collapse [symmetric]])
    (simp_all add: sample_chunk_def set_data_def new_chunk_def)

theorem Slice_of_rest_repeats_rows_witness:
  "chunk_row (snd (Slice 1 (snd (Slice 2 sample_chunk)))) 0 = [[20, 0, 0, 0]]"
proof -
  have "chunk_row (snd (Slice 1 (snd (Slice 2 sample_chunk)))) 0 = chunk_row sample_chunk (1 + 0)"
    using Slice_of_rest_repeats_rows [OF prod.collapse [symmetric] prod.collapse [symmetric], of 0 1 2 sample_chunk]
    by (simp add: sample_chunk_def set_data_def new_chunk_def Slice_def)
  also have "\<dots> = [[20, 0, 0, 0]]" by code_simp
  finally show ?thesis .
qed

subsection \<open>Indexes and keys\<close>

definition sample_locations :: "row_location list" where
  "sample_locations = [\<lparr>rl_segment_id = 3, rl_row_offset = 0\<rparr>, \<lparr>rl_segment_id = 3, rl_row_offset = 1\<rparr>]"

definition sample_keys :: "nat \<Rightarrow> encoded_key result" where
  "sample_keys row = Inr [word_of_nat row]"

lemma sample_keys_rows: "map_r sample_keys [0..<length sample_locations] = Inr [[0], [1]]"
  by (simp add: sample_keys_def sample_locations_def upt_rec)

theorem primary_index_visibility_witness:
  "\<exists>ix1. insert_rows Primary_Insert False sample_keys sample_locations Map.empty = Inr ix1 \<and>
     Primary_LookupList [1] ix1 = [] \<and> \<not> ValidateBatch [[1]] ix1 \<and>
     Primary_Lookup [1] (fold Primary_MarkSegmentVisible [3] ix1) = Some \<lparr>rl_segment_id = 3, rl_row_offset = 1\<rparr>"
proof -
  note ix1 = insert_rows_batch [OF sample_keys_rows, of Primary_Insert False Map.empty]
  have v: "ValidateBatch [[0], [1]] Map.empty" by (simp add: ValidateBatch_iff)
  let ?ix1 = "fold (\<lambda>(k, l). Primary_Insert k l False) (zip [[0], [1]] sample_locations) Map.empty"
  have "Primary_LookupList [1] ?ix1 = Primary_LookupList [1] Map.empty \<and> \<not> ValidateBatch [[[0], [1]] ! 1] ?ix1 \<and>
      Primary_Lookup ([[0], [1]] ! 1) (fold Primary_MarkSegmentVisible [3] ?ix1) = Some (sample_locations ! 1)"
    by (rule primary_index_visibility [OF v _ _ _ sample_keys_rows ix1]) (simp_all add: sample_locations_def)
  moreover have "Primary_LookupList [1] Map.empty = []" by (simp add: Primary_LookupList_def Primary_Lookup_def)
  moreover have "sample_locations ! 1 = \<lparr>rl_segment_id = 3, rl_row_offset = 1\<rparr>" by (simp add: sample_locations_def)
  moreover have "[[0], [1]] ! 1 = [1 :: u8]" by simp
  ultimately have "Primary_LookupList [1] ?ix1 = [] \<and> \<not> ValidateBatch [[1]] ?ix1 \<and>
      Primary_Lookup [1] (fold Primary_MarkSegmentVisible [3] ?ix1) = Some \<lparr>rl_segment_id = 3, rl_row_offset = 1\<rparr>"
    by metis
  with ix1 show ?thesis by metis
qed


definition wide_schema :: table_schema where
  "wide_schema = \<lparr>ts_columns = [\<lparr>cs_column_id = 4, cs_name = ''k'', cs_type = DT_INT64\<rparr>],
     ts_primary_key = None, ts_secondary_keys = []\<rparr>"

definition wide_key :: key_schema where
  "wide_key = \<lparr>ks_key_id = 1, ks_name = ''i'', ks_type = KT_SECONDARY, ks_columns = [4]\<rparr>"

theorem Encode_values_injective_witness:
  "key_component wide_schema (4, SV_int32 5) = key_component wide_schema (4, SV_int64 5)"
proof -
  have "Encode_values wide_schema wide_key [SV_int32 5] = Inr [2, 8, 0, 0, 0, 5, 0, 0, 0, 0, 0, 0, 0]"
    "Encode_values wide_schema wide_key [SV_int64 5] = Inr [2, 8, 0, 0, 0, 5, 0, 0, 0, 0, 0, 0, 0]"
    by code_simp+
  from Encode_values_injective [OF this] show ?thesis by (simp add: wide_key_def scalar_short_def)
qed

theorem Encode_chunk_agrees_values_witness:
  "Encode_chunk wide_schema wide_key (set_data 0 [5, 0, 0, 0, 0, 0, 0, 0] 8 (new_chunk 1)) 0 =
   Encode_values wide_schema wide_key [SV_int64 5]"
proof (rule Encode_chunk_agrees_values)
  have "SchemaColumnIndex wide_schema 4 = Inr 0"
    "FindColumnSchema wide_schema 4 = Some \<lparr>cs_column_id = 4, cs_name = ''k'', cs_type = DT_INT64\<rparr>"
    "chunk_cell (set_data 0 [5, 0, 0, 0, 0, 0, 0, 0] 8 (new_chunk 1)) 0 0 = Inr [5, 0, 0, 0, 0, 0, 0, 0]"
    "stores_value DT_INT64 (SV_int64 5) [5, 0, 0, 0, 0, 0, 0, 0]"
    by code_simp+
  then show "\<forall>j<length [SV_int64 5]. \<exists>i col c. SchemaColumnIndex wide_schema (ks_columns wide_key ! j) = Inr i \<and>
      FindColumnSchema wide_schema (ks_columns wide_key ! j) = Some col \<and>
      chunk_cell (set_data 0 [5, 0, 0, 0, 0, 0, 0, 0] 8 (new_chunk 1)) i 0 = Inr c \<and>
      stores_value (cs_type col) ([SV_int64 5] ! j) c"
    by (simp add: wide_key_def)
qed (simp add: wide_key_def)

subsection \<open>Pushed predicates\<close>

definition sample_options :: "cmp_op \<Rightarrow> cond_value \<Rightarrow> scan_options" where
  "sample_options op v = \<lparr>so_start_row = 0, so_end_row = -1, so_columns = [0],
     so_predicates = [\<lparr>cond_column = 0, cond_op = op, cond_value = v\<rparr>]\<rparr>"

theorem prepared_integer_predicate_exact_witness:
  "\<exists>p. prepare (sample_options CMP_LT (CV_int64 4294967296)) sample_schema
       \<lparr>cond_column = 0, cond_op = CMP_LT, cond_value = CV_int64 4294967296\<rparr> = Inr p \<and>
     row_passes p [255, 255, 255, 127]"
proof -
  let ?cond = "\<lparr>cond_column = 0, cond_op = CMP_LT, cond_value = CV_int64 4294967296\<rparr>"
  have p: "prepare (sample_options CMP_LT (CV_int64 4294967296)) sample_schema ?cond =
      Inr \<lparr>pp_kind = ALWAYS_TRUE, pp_output_slot = 0, pp_type = DT_INT32, pp_op = CMP_LT, pp_value = TV_i32 0\<rparr>"
    by (simp add: prepare_def sample_options_def sample_schema_def schema_column_type_def
        BindIntegerPredicate_def Let_def SetIntegerConstantPredicate_def new_predicate_def)
  have "sint (le_word 4 [255, 255, 255, 127] :: i32) = 2147483647" by code_simp
  then have "literal_holds CMP_LT (column_int DT_INT32 [255, 255, 255, 127]) (CV_int64 4294967296)"
    by (simp add: literal_holds_def column_int_def)
  moreover have "schema_column_type sample_schema 0 = DT_INT32" by code_simp
  ultimately show ?thesis
    using prepared_integer_predicate_exact [OF p, of DT_INT32 "[255, 255, 255, 127]"] p by simp
qed

theorem Row_Filter_Apply_exact_witness:
  "\<exists>ps b'. Build (sample_options CMP_GT (CV_int32 7)) sample_schema = Inr ps \<and>
     Row_Filter_Apply ps [] (SetIdentitySelection 2 sample_batch) = Inr b' \<and>
     {i. Mask_Test (vb_selection b') i} = {1}"
proof -
  let ?o = "sample_options CMP_GT (CV_int32 7)"
  let ?b = "SetIdentitySelection 2 sample_batch"
  have "\<exists>ps. Build ?o sample_schema = Inr ps"
    by (simp add: Build_def prepare_def sample_options_def sample_schema_def schema_column_type_def
        BindIntegerPredicate_def Let_def)
  then obtain ps where ps: "Build ?o sample_schema = Inr ps" by blast
  have ok: "scan_batch_ok ?o sample_schema 2 ?b"
    by (simp add: scan_batch_ok_def PhysicalSize_def SetIdentitySelection_def sample_batch_def sample_options_def
        kVectorBatchSize_def column_ok_def schema_column_type_def sample_schema_def)
  have c: "condition_on_row ?o sample_schema ?b \<lparr>cond_column = 0, cond_op = CMP_GT, cond_value = CV_int32 7\<rparr> 0 = False"
    "condition_on_row ?o sample_schema ?b \<lparr>cond_column = 0, cond_op = CMP_GT, cond_value = CV_int32 7\<rparr> 1 = True"
    by code_simp+
  have "{i. i < 2 \<and> (\<forall>j<length (so_predicates ?o). skipped [] j \<or>
      condition_on_row ?o sample_schema ?b (so_predicates ?o ! j) i)} = {1}"
    using c by (auto simp: sample_options_def skipped_def less_2_cases_iff)
  then show ?thesis using Row_Filter_Apply_exact [OF ps ok, of "[]"] ps by auto
qed

subsection \<open>A segment of two rows\<close>

definition double_schema :: table_schema where
  "double_schema = \<lparr>ts_columns = [\<lparr>cs_column_id = 3, cs_name = ''x'', cs_type = DT_DOUBLE\<rparr>],
     ts_primary_key = None, ts_secondary_keys = []\<rparr>"

definition double_chunk :: data_chunk where
  "double_chunk = set_data 0 (le_bytes 8 (0x3FF0000000000000 :: f64) @ le_bytes 8 (0x4000000000000000 :: f64)) 8 (new_chunk 2)"

definition double_segment :: segment_builder where
  "double_segment = \<lparr>sb_row_count = 2, sb_columns = [\<lparr>cb_meta = \<lparr>cm_column_id = 3, cm_type = DT_DOUBLE, cm_data_offset = 0,
       cm_has_stats = True, cm_min_value = 0x3FF0000000000000, cm_max_value = 0x4000000000000000\<rparr>,
     cb_row_count = 2, cb_data = le_bytes 8 (0x3FF0000000000000 :: f64) @ le_bytes 8 (0x4000000000000000 :: f64)\<rparr>]\<rparr>"

lemma double_segment_append: "Segment_Append double_chunk (new_segment_builder double_schema) = Inr double_segment"
proof -
  have two: "[0..<2] = [0, Suc 0]" by code_simp
  have min: "ieee_min 52 (0x3FF0000000000000 :: f64) 0x4000000000000000 = 0x3FF0000000000000"
    "ieee_max 52 (0x3FF0000000000000 :: f64) 0x4000000000000000 = 0x4000000000000000"
    by (simp_all add: ieee_min_def ieee_max_def ieee_eval)
  show ?thesis
    by (simp add: Segment_Append_def new_segment_builder_def double_schema_def new_column_builder_def append_column_def
        Column_Append_def double_chunk_def double_segment_def set_data_def new_chunk_def grow_def raw_data_def
        update_stats_def two le_word_le_bytes min)
qed

lemma double_segment_ok: "segment_ok double_segment"
proof -
  have "chunk_ok (builder_types (new_segment_builder double_schema)) double_chunk" by code_simp
  then show ?thesis using Segment_Append_ok [OF double_segment_append] new_segment_builder_ok by blast
qed

lemma double_segment_file: "length (segment_file 7 double_segment) = 63" by code_simp

definition double_options :: scan_options where
  "double_options = \<lparr>so_start_row = 0, so_end_row = -1, so_columns = [3], so_predicates = []\<rparr>"

theorem flush_open_scan_witness:
  "\<exists>file r b. Segment_Flush Io_ok (nat_str (unat (7 :: u32))) double_segment None = (True, file) \<and>
    Segment_Open 7 file = Some r \<and> GetVectorBatch double_options 1 r sample_batch = Inr (True, b) \<and>
    active_rows b = [[le_bytes 8 (0x4000000000000000 :: f64)]]"
proof -
  have "map (\<lambda>row. map ((!) row) [0]) (take kVectorBatchSize (drop 1 (segment_rows double_segment))) =
      [[le_bytes 8 (0x4000000000000000 :: f64)]]" by code_simp
  with flush_open_scan [OF double_segment_ok, where sid = 7 and offset = 1 and js = "[0]" and options = double_options]
  show ?thesis by (simp add: double_segment_file) (simp add: double_segment_def double_options_def)
qed

theorem EvaluatePredicates_sound_witness:
  "\<exists>r d. Segment_Open 7 (Some (segment_file 7 double_segment)) = Some r \<and>
     EvaluatePredicates [\<lparr>cond_column = 3, cond_op = CMP_GT, cond_value = CV_double 0x4000000000000000\<rparr>] r = Inr d \<and>
     fd_skip_segment d \<and>
     \<not> condition_holds DT_DOUBLE \<lparr>cond_column = 3, cond_op = CMP_GT, cond_value = CV_double 0x4000000000000000\<rparr>
         (segment_rows double_segment ! 1 ! 0)"
proof -
  let ?c = "\<lparr>cond_column = 3, cond_op = CMP_GT, cond_value = CV_double 0x4000000000000000\<rparr>"
  obtain r where r: "Segment_Open 7 (Some (segment_file 7 double_segment)) = Some r" "reader_serves r double_segment"
    using Segment_Open_serves [OF double_segment_ok, of 7] double_segment_file by (auto simp: double_segment_def)
  have cells: "builder_cells (hd (sb_columns double_segment)) = [le_bytes 8 (0x3FF0000000000000 :: f64), le_bytes 8 (0x4000000000000000 :: f64)]"
    by code_simp
  have "EvaluatePredicates [?c] r = Inr \<lparr>fd_skip_segment = True, fd_row_filter_mask = []\<rparr>"
    using r(2) by (auto simp: EvaluatePredicates_def reader_serves_def double_segment_def EvaluateByStats_def
        CondValueAsDouble_def ieee_eval)
  moreover from EvaluatePredicates_sound [OF r(2) double_segment_ok this, of "\<lambda>j. 0" 1]
  have "\<not> condition_holds DT_DOUBLE ?c (segment_rows double_segment ! 1 ! 0)"
    using cells by (auto simp: double_segment_def prunable_def ieee_eval)
  ultimately show ?thesis using r(1) by auto
qed

end
