(* ===== verification/Table_Examples.thy ===== *)
theory Table_Examples
  imports Examples Parallel_Scan
begin

text \<open>
  The theorems on tables applied to one table with a DOUBLE column: empty, with two rows in memory, and with
  these rows in a written segment.
\<close>

definition double_table :: "segment_builder \<Rightarrow> segment_id list \<Rightarrow> (segment_id \<rightharpoonup> bytes) \<Rightarrow> table_storage" where
  "double_table active ids files =
     \<lparr>tst_table_id = 1, tst_schema = double_schema, tst_metadata = \<lparr>tm_table_id = 1, tm_segment_ids = ids\<rparr>, tst_sealed = [],
      tst_reader_cache = Map.empty, tst_indexes = new_indexes double_schema, tst_pending = [], tst_active_id = 5,
      tst_next_id = 6, tst_active = active, tst_meta_file = Some (TableStorageMeta_Serialize \<lparr>tm_table_id = 1, tm_segment_ids = ids\<rparr> []),
      tst_files = files\<rparr>"

lemma double_table_simps [simp]:
  "tst_schema (double_table a ids f) = double_schema" "tst_indexes (double_table a ids f) = new_indexes double_schema"
  "tst_metadata (double_table a ids f) = \<lparr>tm_table_id = 1, tm_segment_ids = ids\<rparr>" "tst_next_id (double_table a ids f) = 6"
  "tst_active (double_table a ids f) = a" "tst_sealed (double_table a ids f) = []" "tst_files (double_table a ids f) = f"
  "tst_reader_cache (double_table a ids f) = Map.empty" "tst_active_id (double_table a ids f) = 5"
  "tst_meta_file (double_table a ids f) = Some (TableStorageMeta_Serialize \<lparr>tm_table_id = 1, tm_segment_ids = ids\<rparr> [])"
  by (simp_all add: double_table_def)

definition empty_table :: table_storage where
  "empty_table = double_table (new_segment_builder double_schema) [] Map.empty"

definition memory_table :: table_storage where
  "memory_table = double_table double_segment [] Map.empty"

definition written_table :: table_storage where
  "written_table = double_table (new_segment_builder double_schema) [0] [0 \<mapsto> segment_file 0 double_segment]"

lemma double_segment_builder: "builder_for double_schema double_segment"
  by (simp add: builder_for_def double_segment_ok) (simp add: double_segment_def double_schema_def kMaxSegmentRowCount_def)

lemma double_table_inv: "builder_for double_schema a \<Longrightarrow> set ids \<subseteq> {0} \<Longrightarrow> table_inv (double_table a ids f)"
  by (auto simp: table_inv_def)

lemma double_schema_facts:
  "keys_known double_schema" "indexes_for double_schema (new_indexes double_schema)" "columns_fit double_schema"
  by (simp_all add: keys_known_def key_list_def double_schema_def indexes_for_def new_indexes_def columns_fit_def)

lemma empty_table_room [simp]: "room_left empty_table = kMaxSegmentRowCount"
  by (simp add: room_left_def empty_table_def new_segment_builder_def kMaxSegmentRowCount_def)

lemma empty_table_rows [simp]: "memory_rows empty_table = []"
  by (simp add: memory_rows_def memory_segments_def empty_table_def segment_rows_def new_segment_builder_def)

lemma no_primary_key [simp]: "ValidatePrimaryKey chunk (new_indexes double_schema) = Inr True"
  by (simp add: ValidatePrimaryKey_def new_indexes_def double_schema_def)

theorem Append_adds_rows_witness:
  "\<exists>st'. Append double_chunk empty_table = Inr st' \<and> memory_rows st' = chunk_rows double_chunk"
proof -
  have "chunk_ok (schema_types empty_table) double_chunk" by code_simp
  moreover have "dc_slice_start double_chunk = 0" "dc_size double_chunk \<le> kMaxSegmentRowCount"
    by (simp_all add: double_chunk_def set_data_def new_chunk_def kMaxSegmentRowCount_def)
  ultimately show ?thesis
    using Append_adds_rows [of empty_table double_chunk] double_schema_facts
    by (auto simp: empty_table_def double_table_inv simp del: empty_table_rows) (auto simp flip: empty_table_def)
qed

definition large_chunk :: data_chunk where
  "large_chunk = set_data 0 (replicate (131073 * 8) 0) 8 (new_chunk 131073)"

theorem Append_large_chunk_repeats_rows_witness:
  "\<exists>st'. Append large_chunk empty_table = Inr st' \<and>
     memory_rows st' = take 131072 (chunk_rows large_chunk) @ take 1 (drop 65536 (chunk_rows large_chunk))"
proof -
  have size: "dc_size large_chunk = 131073" "dc_slice_start large_chunk = 0"
    by (simp_all add: large_chunk_def set_data_def new_chunk_def)
  have ok: "table_inv empty_table" "chunk_ok (schema_types empty_table) large_chunk"
    by (simp_all add: empty_table_def double_table_inv)
      (simp add: chunk_ok_def large_chunk_def set_data_def new_chunk_def grow_def schema_types_def double_schema_def)
  have sizes: "room_left empty_table + kMaxSegmentRowCount < dc_size large_chunk"
    "dc_size large_chunk \<le> room_left empty_table + 2 * kMaxSegmentRowCount" "unat (tst_next_id empty_table) + 2 < 2 ^ 32"
    by (simp_all add: size kMaxSegmentRowCount_def) (simp add: empty_table_def)
  obtain locs st1 where loop: "append_loop large_chunk [] empty_table = Inr (locs, st1)" "same_disk empty_table st1"
    using append_loop_two_slices [OF ok size(2) sizes] by (auto simp: appended_def)
  have "tst_indexes empty_table = new_indexes double_schema" by (simp add: empty_table_def)
  moreover have "OnAppend large_chunk locs (new_indexes double_schema) = Inr (new_indexes double_schema)"
    by (simp add: OnAppend_def insert_everywhere_def new_indexes_def double_schema_def)
  ultimately have "Append large_chunk empty_table = Inr (st1\<lparr>tst_indexes := new_indexes double_schema\<rparr>)"
    using loop by (simp add: Append_def same_disk_def)
  with Append_large_chunk_repeats_rows [OF ok size(2) sizes this] show ?thesis
    by (auto simp: size kMaxSegmentRowCount_def)
qed

theorem Flush_effect_witness:
  "\<exists>es. disk_ok (snd (Flush id (\<lambda>_. Io_ok) Io_ok memory_table)) es \<and> mset (rows_of es) = mset (segment_rows double_segment)"
proof -
  have disk: "disk_ok memory_table []" by (simp add: disk_ok_def memory_table_def)
  have inv: "table_inv memory_table" "columns_fit (tst_schema memory_table)" "unat (tst_next_id memory_table) + 1 < 2 ^ 32"
    "memory_rows memory_table = segment_rows double_segment"
    using double_segment_builder double_schema_facts
    by (simp_all add: memory_table_def double_table_inv memory_rows_def memory_segments_def)
  obtain saved st' where f: "Flush id (\<lambda>_. Io_ok) Io_ok memory_table = (saved, st')" by (cases "Flush id (\<lambda>_. Io_ok) Io_ok memory_table")
  from Flush_effect [OF inv(1) disk inv(2,3) _ f] show ?thesis by (auto simp: f inv(4))
qed

lemma written_disk: "disk_ok written_table [(0, double_segment)]"
proof -
  have "length (segment_file 0 double_segment) = 63" by code_simp
  then obtain r where "Segment_Open 0 (Some (segment_file 0 double_segment)) = Some r" "reader_serves r double_segment"
    using Segment_Open_serves [OF double_segment_ok, of 0] by (auto simp: double_segment_def)
  then show ?thesis using double_segment_builder by (simp add: disk_ok_def written_table_def)
qed

theorem Table_Open_after_Flush_witness:
  "\<exists>st'. Table_Open 1 double_schema (tst_meta_file written_table) (tst_files written_table) = Inr (Some st') \<and>
     disk_ok st' [(0, double_segment)]"
  using Table_Open_after_Flush [OF written_disk] double_schema_facts(1) by (auto simp: written_table_def keys_nonempty_def key_list_def double_schema_def)

lemma written_scan:
  "scan_fits (tst_schema written_table) double_options (if so_predicates double_options = [] then None else Some [])"
  "\<forall>(sid, sb)\<in>set [(0, double_segment)]. prunable_segment (tst_schema written_table) double_options sb"
  "Suc (length [(0 :: segment_id, double_segment)]) < 2 ^ 32"
  by (simp_all add: scan_fits_def double_options_def written_table_def prunable_segment_def double_schema_def)

lemma written_selected:
  "selected (tst_schema written_table) double_options (rows_of [(0, double_segment)]) =
     [[le_bytes 8 (0x3FF0000000000000 :: f64)], [le_bytes 8 (0x4000000000000000 :: f64)]]"
  by code_simp

theorem serial_scan_exact_witness:
  "\<exists>bs. drain_scan double_options new_scan_cursor sample_batch written_table = Some (Inr bs) \<and>
     concat (map active_rows bs) = [[le_bytes 8 (0x3FF0000000000000 :: f64)], [le_bytes 8 (0x4000000000000000 :: f64)]]"
  using serial_scan_exact [OF written_disk written_scan(3,1,2)] by (simp only: written_selected)

lemma written_global: "\<exists>g. CreateParallelScanState double_options written_table = Inr g"
  by (simp add: CreateParallelScanState_def double_options_def)

theorem parallel_scan_terminates_witness:
  "\<exists>g. CreateParallelScanState double_options written_table = Inr g \<and>
     (\<forall>w<(4 :: nat). \<exists>res. parallel_body double_options g new_parallel_local sample_batch written_table = Inr res)"
proof -
  obtain g where g: "CreateParallelScanState double_options written_table = Inr g" using written_global by blast
  from parallel_scan_terminates [OF g written_disk written_scan(3,1,2), where k = 0 and n = 4 and out = sample_batch] g
  show ?thesis by (auto simp: parallel_start_def)
qed

theorem parallel_scan_exact_witness:
  "\<exists>g c. CreateParallelScanState double_options written_table = Inr g \<and>
     (parallel_step double_options)\<^sup>*\<^sup>* (parallel_start g 2 written_table) c \<and>
     mset (concat (map active_rows (pc_batches c))) =
       {#[le_bytes 8 (0x3FF0000000000000 :: f64)], [le_bytes 8 (0x4000000000000000 :: f64)]#}"
proof -
  obtain g where g: "CreateParallelScanState double_options written_table = Inr g" using written_global by blast
  obtain c where c: "(parallel_step double_options)\<^sup>*\<^sup>* (parallel_start g 2 written_table) c" "pc_done c = {..1}"
    using parallel_scan_finishes [OF g written_disk written_scan(3,1,2), of 2] by (auto simp: lessThan_Suc_atMost numeral_2_eq_2)
  with parallel_scan_exact [OF g written_disk written_scan(3,1,2), of 1 c]
  have "mset (concat (map active_rows (pc_batches c))) = mset (selected (tst_schema written_table) double_options (rows_of [(0, double_segment)]))"
    by (simp only: Suc_1 [symmetric] One_nat_def [symmetric])
  then show ?thesis using g c(1) unfolding written_selected by auto
qed

end
