(* ===== verification/Logical_Plan.thy ===== *)
theory Logical_Plan
  imports Plan_Expression
begin

text \<open>
  \<^verbatim>\<open>src/src/planner/logical_plan/logical_plan.{h,cpp}\<close> and \<^verbatim>\<open>planner.cpp\<close>: what to compute, as
  a tree whose leaf is one scan, and how a bound statement becomes such a tree.
\<close>

record simple_predicate =
  sp_column_index :: u32
  sp_op :: cmp_op
  sp_value :: literal

record named_plan_expr =
  ne_expr :: plan_expr
  ne_alias :: string

record logical_scan =
  ls_table_oid :: u32
  ls_required_columns :: "u32 list"
  ls_pushed_predicates :: "simple_predicate list"

datatype logical_plan =
    LogicalScan logical_scan
  | LogicalFilter plan_expr logical_plan
  | LogicalProject "named_plan_expr list" logical_plan
  | LogicalAggregate "plan_expr list" "named_plan_expr list" logical_plan
  | LogicalInsert u32 "u32 list" "plan_expr list list"
  | LogicalCreateTable string table_schema

definition AddPushedPredicate :: "simple_predicate \<Rightarrow> logical_scan \<Rightarrow> logical_scan" where
  "AddPushedPredicate p scan = scan\<lparr>ls_pushed_predicates := ls_pushed_predicates scan @ [p]\<rparr>"

definition SetRequiredColumns :: "u32 list \<Rightarrow> logical_scan \<Rightarrow> logical_scan" where
  "SetRequiredColumns columns scan = scan\<lparr>ls_required_columns := columns\<rparr>"

subsection \<open>Printing\<close>

definition Pad :: "nat \<Rightarrow> string" where
  "Pad n = replicate n (CHR '' '')"

fun CmpName :: "cmp_op \<Rightarrow> string" where
  "CmpName CMP_EQ = ''=''"
| "CmpName CMP_NE = ''!=''"
| "CmpName CMP_GT = ''>''"
| "CmpName CMP_GE = ''>=''"
| "CmpName CMP_LT = ''<''"
| "CmpName CMP_LE = ''<=''"

fun sep_by :: "string \<Rightarrow> string list \<Rightarrow> string" where
  "sep_by s [] = ''''"
| "sep_by s [x] = x"
| "sep_by s (x # xs) = x @ s @ sep_by s xs"

definition Scan_ToString :: "nat \<Rightarrow> logical_scan \<Rightarrow> string" where
  "Scan_ToString indent scan =
     Pad indent @ ''LogicalScan(table='' @ nat_str (unat (ls_table_oid scan)) @
     (if ls_required_columns scan \<noteq> []
      then '', columns=['' @ sep_by '','' (map (\<lambda>c. nat_str (unat c)) (ls_required_columns scan)) @ '']'' else '''') @
     (if ls_pushed_predicates scan \<noteq> []
      then '', pushed=['' @ sep_by '', '' (map (\<lambda>p. ''#'' @ nat_str (unat (sp_column_index p)) @ '' '' @ CmpName (sp_op p) @
             '' '' @ PlanLiteral_ToString (sp_value p)) (ls_pushed_predicates scan)) @ '']'' else '''') @
     '')''"

definition Named_ToString :: "named_plan_expr \<Rightarrow> string" where
  "Named_ToString o' = PlanExpr_ToString (ne_expr o') @ (if ne_alias o' \<noteq> '''' then '' AS '' @ ne_alias o' else '''')"

fun Logical_ToString :: "nat \<Rightarrow> logical_plan \<Rightarrow> string" where
  "Logical_ToString indent (LogicalScan scan) = Scan_ToString indent scan"
| "Logical_ToString indent (LogicalFilter p child) =
     Pad indent @ ''LogicalFilter('' @ PlanExpr_ToString p @ '')'' @ newline @ Logical_ToString (indent + 2) child"
| "Logical_ToString indent (LogicalProject outputs child) =
     Pad indent @ ''LogicalProject('' @ sep_by '', '' (map Named_ToString outputs) @ '')'' @ newline @
     Logical_ToString (indent + 2) child"
| "Logical_ToString indent (LogicalAggregate group_by outputs child) =
     Pad indent @ ''LogicalAggregate(group_by=['' @ sep_by '', '' (map PlanExpr_ToString group_by) @ ''], outputs=['' @
     sep_by '', '' (map Named_ToString outputs) @ ''])'' @ newline @ Logical_ToString (indent + 2) child"
| "Logical_ToString indent (LogicalInsert oid _ rows) =
     Pad indent @ ''LogicalInsert(table='' @ nat_str (unat oid) @ '', rows='' @ nat_str (length rows) @ '')''"
| "Logical_ToString indent (LogicalCreateTable name s) =
     Pad indent @ ''LogicalCreateTable('' @ name @ '', columns='' @ nat_str (length (ts_columns s)) @ '', keys='' @
     nat_str ((if ts_primary_key s \<noteq> None then 1 else 0) + length (ts_secondary_keys s)) @ '')''"

subsection \<open>The planner\<close>

definition BuildOutputs :: "bound_select_item list \<Rightarrow> named_plan_expr list" where
  "BuildOutputs items = map (\<lambda>item. \<lparr>ne_expr = BuildPlanExpr (bsi_expr item), ne_alias = bsi_alias item\<rparr>) items"

definition HasAggregate :: "named_plan_expr list \<Rightarrow> bool" where
  "HasAggregate outputs = list_ex (\<lambda>o'. Plan_ContainsAggregate (ne_expr o')) outputs"

definition PlanSelect :: "bound_select \<Rightarrow> logical_plan" where
  "PlanSelect stmt =
     (let root = LogicalScan \<lparr>ls_table_oid = bs_table_oid stmt, ls_required_columns = [], ls_pushed_predicates = []\<rparr>;
          root = (case bs_where_clause stmt of None \<Rightarrow> root | Some e \<Rightarrow> LogicalFilter (BuildPlanExpr e) root);
          outputs = BuildOutputs (bs_select_list stmt)
      in if bs_group_by stmt \<noteq> [] \<or> HasAggregate outputs
         then LogicalAggregate (map BuildPlanExpr (bs_group_by stmt)) outputs root
         else LogicalProject outputs root)"

definition PlanInsert :: "bound_insert \<Rightarrow> logical_plan" where
  "PlanInsert stmt = LogicalInsert (bi_table_oid stmt) (bi_target_col_indices stmt) (map (map BuildPlanExpr) (bi_values stmt))"

definition PlanCreateTable :: "bound_create_table \<Rightarrow> logical_plan" where
  "PlanCreateTable stmt = LogicalCreateTable (bc_table_name stmt) (bc_schema stmt)"

fun CreateLogicalPlan :: "bound_statement \<Rightarrow> logical_plan" where
  "CreateLogicalPlan (Bound_select stmt) = PlanSelect stmt"
| "CreateLogicalPlan (Bound_insert stmt) = PlanInsert stmt"
| "CreateLogicalPlan (Bound_create stmt) = PlanCreateTable stmt"

end
