(* ===== verification/Optimizer.thy ===== *)
theory Optimizer
  imports Logical_Plan
begin

text \<open>
  \<^verbatim>\<open>src/src/planner/optimizer/optimizer.{h,cpp}\<close>: predicate pushdown and column pruning, applied
  until nothing changes and at most eight times.  Each rule answers whether it changed the plan.
\<close>

subsection \<open>Predicate pushdown\<close>

definition IsNumericType :: "data_type \<Rightarrow> bool" where
  "IsNumericType ty \<longleftrightarrow> ty = DT_INT32 \<or> ty = DT_INT64 \<or> ty = DT_FLOAT \<or> ty = DT_DOUBLE"

fun IsNumericLiteral :: "literal \<Rightarrow> bool" where
  "IsNumericLiteral (Lit_int _) = True"
| "IsNumericLiteral (Lit_double _) = True"
| "IsNumericLiteral (Lit_string _) = False"

definition ExtractSimplePredicate :: "plan_expr \<Rightarrow> simple_predicate option" where
  "ExtractSimplePredicate e =
     (case e of
        PlanBinary op (PlanColumnRef _ col ty) (PlanLiteral v _) _ \<Rightarrow>
          (case op of
             P_EQ \<Rightarrow> if \<not> IsNumericType ty \<or> \<not> IsNumericLiteral v then None
                     else Some \<lparr>sp_column_index = col, sp_op = CMP_EQ, sp_value = v\<rparr>
           | P_GT \<Rightarrow> if \<not> IsNumericType ty \<or> \<not> IsNumericLiteral v then None
                     else Some \<lparr>sp_column_index = col, sp_op = CMP_GT, sp_value = v\<rparr>
           | P_LT \<Rightarrow> if \<not> IsNumericType ty \<or> \<not> IsNumericLiteral v then None
                     else Some \<lparr>sp_column_index = col, sp_op = CMP_LT, sp_value = v\<rparr>
           | _ \<Rightarrow> None)
      | _ \<Rightarrow> None)"

fun FlattenConjuncts :: "plan_expr \<Rightarrow> plan_expr list" where
  "FlattenConjuncts (PlanBinary P_AND l r _) = FlattenConjuncts l @ FlattenConjuncts r"
| "FlattenConjuncts e = [Clone e]"

fun conjoin :: "plan_expr \<Rightarrow> plan_expr list \<Rightarrow> plan_expr" where
  "conjoin result [] = result"
| "conjoin result (e # es) = conjoin (PlanBinary P_AND result e DT_INT32) es"

definition BuildConjunction :: "plan_expr list \<Rightarrow> plan_expr option" where
  "BuildConjunction es = (case es of [] \<Rightarrow> None | e # es \<Rightarrow> Some (conjoin e es))"

text \<open>The loop over the conjuncts: the pushed predicates and the residual, both in order.\<close>

fun split_conjuncts :: "plan_expr list \<Rightarrow> simple_predicate list \<times> plan_expr list" where
  "split_conjuncts [] = ([], [])"
| "split_conjuncts (e # es) =
     (case split_conjuncts es of (pushed, residual) \<Rightarrow>
        (case ExtractSimplePredicate e of
           Some p \<Rightarrow> (p # pushed, residual)
         | None \<Rightarrow> (pushed, e # residual)))"

fun PushPredicate :: "logical_plan \<Rightarrow> bool \<times> logical_plan" where
  "PushPredicate (LogicalFilter p child) =
     (case PushPredicate child of (changed, child) \<Rightarrow>
        (case child of
           LogicalScan scan \<Rightarrow>
             (case split_conjuncts (FlattenConjuncts p) of (pushed, residual) \<Rightarrow>
                if pushed = [] then (changed, LogicalFilter p child)
                else
                  let scan = fold AddPushedPredicate pushed scan in
                  case BuildConjunction residual of
                    None \<Rightarrow> (True, LogicalScan scan)
                  | Some p' \<Rightarrow> (True, LogicalFilter p' (LogicalScan scan)))
         | _ \<Rightarrow> (changed, LogicalFilter p child)))"
| "PushPredicate (LogicalProject outputs child) =
     (case PushPredicate child of (changed, child) \<Rightarrow> (changed, LogicalProject outputs child))"
| "PushPredicate (LogicalAggregate group_by outputs child) =
     (case PushPredicate child of (changed, child) \<Rightarrow> (changed, LogicalAggregate group_by outputs child))"
| "PushPredicate (LogicalScan scan) = (False, LogicalScan scan)"
| "PushPredicate (LogicalInsert oid cols rows) = (False, LogicalInsert oid cols rows)"
| "PushPredicate (LogicalCreateTable name s) = (False, LogicalCreateTable name s)"

subsection \<open>Column pruning\<close>

fun CollectRequiredColumns :: "logical_plan \<Rightarrow> u32 list" where
  "CollectRequiredColumns (LogicalFilter p child) = CollectColumnRefs p @ CollectRequiredColumns child"
| "CollectRequiredColumns (LogicalProject outputs child) =
     concat (map (CollectColumnRefs \<circ> ne_expr) outputs) @ CollectRequiredColumns child"
| "CollectRequiredColumns (LogicalAggregate group_by outputs child) =
     concat (map CollectColumnRefs group_by) @ concat (map (CollectColumnRefs \<circ> ne_expr) outputs) @ CollectRequiredColumns child"
| "CollectRequiredColumns (LogicalScan scan) = map sp_column_index (ls_pushed_predicates scan)"
| "CollectRequiredColumns _ = []"

fun FindScan :: "logical_plan \<Rightarrow> logical_scan option" where
  "FindScan (LogicalScan scan) = Some scan"
| "FindScan (LogicalFilter _ child) = FindScan child"
| "FindScan (LogicalProject _ child) = FindScan child"
| "FindScan (LogicalAggregate _ _ child) = FindScan child"
| "FindScan _ = None"

text \<open>An update through the pointer that \<open>FindScan\<close> returns.\<close>

fun update_scan :: "(logical_scan \<Rightarrow> logical_scan) \<Rightarrow> logical_plan \<Rightarrow> logical_plan" where
  "update_scan f (LogicalScan scan) = LogicalScan (f scan)"
| "update_scan f (LogicalFilter p child) = LogicalFilter p (update_scan f child)"
| "update_scan f (LogicalProject outputs child) = LogicalProject outputs (update_scan f child)"
| "update_scan f (LogicalAggregate group_by outputs child) = LogicalAggregate group_by outputs (update_scan f child)"
| "update_scan f plan = plan"

definition ColumnPruning :: "logical_plan \<Rightarrow> bool \<times> logical_plan" where
  "ColumnPruning root =
     (let columns = remdups_adj (sort (CollectRequiredColumns root)) in
      case FindScan root of
        None \<Rightarrow> (False, root)
      | Some scan \<Rightarrow>
          if ls_required_columns scan = columns then (False, root)
          else (True, update_scan (SetRequiredColumns columns) root))"

text \<open>One pass applies both rules; at most eight passes, stopping at the first without a change.\<close>

definition optimize_pass :: "logical_plan \<Rightarrow> bool \<times> logical_plan" where
  "optimize_pass root =
     (case PushPredicate root of (pushed, root) \<Rightarrow> (case ColumnPruning root of (pruned, root) \<Rightarrow> (pushed \<or> pruned, root)))"

fun optimize_loop :: "nat \<Rightarrow> logical_plan \<Rightarrow> logical_plan" where
  "optimize_loop 0 root = root"
| "optimize_loop (Suc n) root = (case optimize_pass root of (changed, root) \<Rightarrow> if changed then optimize_loop n root else root)"

definition Optimize :: "logical_plan \<Rightarrow> logical_plan" where
  "Optimize root = optimize_loop 8 root"

subsection \<open>Conjuncts\<close>

lemma Flatten_atomic: "e \<in> set (FlattenConjuncts p) \<Longrightarrow> FlattenConjuncts e = [e]"
  by (induction p rule: FlattenConjuncts.induct) auto

lemma Flatten_conjoin: "FlattenConjuncts (conjoin r es) = FlattenConjuncts r @ concat (map FlattenConjuncts es)"
  by (induction r es rule: conjoin.induct) simp_all

lemma split_conjuncts_eq:
  "split_conjuncts es = (List.map_filter ExtractSimplePredicate es, filter (\<lambda>e. ExtractSimplePredicate e = None) es)"
  by (induction es) (auto simp: map_filter_simps split: option.splits)

lemma concat_atomic: "\<forall>e\<in>set es. FlattenConjuncts e = [e] \<Longrightarrow> concat (map FlattenConjuncts es) = es"
  by (induction es) simp_all

text \<open>What is left in a filter after a pushdown has nothing to push.\<close>

lemma residual_flat:
  assumes "BuildConjunction (filter (\<lambda>e. ExtractSimplePredicate e = None) (FlattenConjuncts p)) = Some p'"
  shows "FlattenConjuncts p' = filter (\<lambda>e. ExtractSimplePredicate e = None) (FlattenConjuncts p)"
proof -
  obtain e es where es: "filter (\<lambda>e. ExtractSimplePredicate e = None) (FlattenConjuncts p) = e # es" "p' = conjoin e es"
    using assms by (auto simp: BuildConjunction_def split: list.splits)
  then have "\<forall>x\<in>set (e # es). FlattenConjuncts x = [x]"
    using Flatten_atomic by (metis filter_is_subset subsetD)
  then show ?thesis using es by (simp add: Flatten_conjoin concat_atomic)
qed

lemma map_filter_none: "List.map_filter f xs = [] \<longleftrightarrow> (\<forall>x\<in>set xs. f x = None)"
  by (induction xs) (auto simp: map_filter_simps split: option.splits)

text \<open>A plan on which no filter over a scan has a conjunct to push.\<close>

fun settled :: "logical_plan \<Rightarrow> bool" where
  "settled (LogicalFilter p child) =
     (settled child \<and> (case child of LogicalScan _ \<Rightarrow> \<forall>e\<in>set (FlattenConjuncts p). ExtractSimplePredicate e = None | _ \<Rightarrow> True))"
| "settled (LogicalProject _ child) = settled child"
| "settled (LogicalAggregate _ _ child) = settled child"
| "settled _ = True"

lemma PushPredicate_settled: "settled plan \<Longrightarrow> PushPredicate plan = (False, plan)"
  by (induction plan) (auto simp: split_conjuncts_eq map_filter_none split: logical_plan.splits)

lemma settled_PushPredicate: "settled (snd (PushPredicate plan))"
proof (induction plan)
  case (LogicalFilter p child)
  obtain c child' where push: "PushPredicate child = (c, child')" by (cases "PushPredicate child")
  with LogicalFilter have ih: "settled child'" by simp
  show ?case
  proof (cases child')
    case (LogicalScan scan)
    show ?thesis
    proof (cases "List.map_filter ExtractSimplePredicate (FlattenConjuncts p) = []")
      case True
      then show ?thesis using push LogicalScan by (simp add: split_conjuncts_eq map_filter_none)
    next
      case False
      let ?residual = "filter (\<lambda>e. ExtractSimplePredicate e = None) (FlattenConjuncts p)"
      show ?thesis
      proof (cases "BuildConjunction ?residual")
        case None
        then show ?thesis using push LogicalScan False by (simp add: split_conjuncts_eq Let_def)
      next
        case (Some p')
        then have "snd (PushPredicate (LogicalFilter p child)) = LogicalFilter p' (LogicalScan
            (fold AddPushedPredicate (List.map_filter ExtractSimplePredicate (FlattenConjuncts p)) scan))"
          using push LogicalScan False by (simp add: split_conjuncts_eq Let_def)
        then show ?thesis using residual_flat [OF Some] by simp
      qed
    qed
  qed (use push ih in simp_all)
qed (auto split: prod.splits)

lemma settled_update_scan [simp]: "settled (update_scan f plan) = settled plan"
proof (induction plan)
  case (LogicalFilter p child)
  then show ?case by (cases child) simp_all
qed simp_all

subsection \<open>Required columns\<close>

lemma FindScan_update: "FindScan (update_scan f plan) = map_option f (FindScan plan)"
  by (induction plan) simp_all

lemma Collect_SetRequired [simp]:
  "CollectRequiredColumns (update_scan (SetRequiredColumns cols) plan) = CollectRequiredColumns plan"
  by (induction plan) (simp_all add: SetRequiredColumns_def)

definition required :: "logical_plan \<Rightarrow> u32 list" where
  "required plan = remdups_adj (sort (CollectRequiredColumns plan))"

lemma remdups_adj_sorted_distinct: "sorted xs \<Longrightarrow> distinct (remdups_adj (xs :: 'a::linorder list))"
  by (induction xs rule: remdups_adj.induct) auto

lemma required_sorted: "sorted (required plan)" "distinct (required plan)" "set (required plan) = set (CollectRequiredColumns plan)"
  by (simp_all add: required_def remdups_adj_sorted_distinct)

definition pruned :: "logical_plan \<Rightarrow> bool" where
  "pruned plan \<longleftrightarrow> (\<forall>scan. FindScan plan = Some scan \<longrightarrow> ls_required_columns scan = required plan)"

lemma ColumnPruning_pruned: "pruned plan \<Longrightarrow> ColumnPruning plan = (False, plan)"
  by (simp add: ColumnPruning_def pruned_def required_def Let_def split: option.splits)

lemma snd_ColumnPruning: "snd (ColumnPruning plan) = plan \<and> pruned plan \<or>
    snd (ColumnPruning plan) = update_scan (SetRequiredColumns (required plan)) plan"
  by (auto simp: ColumnPruning_def pruned_def required_def Let_def split: option.splits)

lemma pruned_ColumnPruning: "pruned (snd (ColumnPruning plan))"
proof -
  have "pruned (update_scan (SetRequiredColumns (required plan)) plan)"
    by (auto simp: pruned_def FindScan_update required_def) (auto simp: SetRequiredColumns_def)
  then show ?thesis using snd_ColumnPruning [of plan] by auto
qed

lemma settled_ColumnPruning: "settled plan \<Longrightarrow> settled (snd (ColumnPruning plan))"
  using snd_ColumnPruning [of plan] by auto

subsection \<open>The fixed point\<close>

lemma optimize_pass_fixed: "settled plan \<Longrightarrow> pruned plan \<Longrightarrow> optimize_pass plan = (False, plan)"
  by (simp add: optimize_pass_def PushPredicate_settled ColumnPruning_pruned)

lemma optimize_pass_reaches: "settled (snd (optimize_pass plan)) \<and> pruned (snd (optimize_pass plan))"
proof -
  obtain a p where p: "PushPredicate plan = (a, p)" by (cases "PushPredicate plan")
  obtain b q where q: "ColumnPruning p = (b, q)" by (cases "ColumnPruning p")
  have "settled p" using settled_PushPredicate [of plan] p by simp
  then have "settled q" "pruned q" using settled_ColumnPruning [of p] pruned_ColumnPruning [of p] q by simp_all
  then show ?thesis by (simp add: optimize_pass_def p q)
qed

lemma Optimize_one_pass: "Optimize plan = snd (optimize_pass plan)"
proof -
  obtain changed p where p: "optimize_pass plan = (changed, p)" by (cases "optimize_pass plan")
  then have "optimize_pass p = (False, p)" using optimize_pass_reaches [of plan] by (simp add: optimize_pass_fixed)
  then have "optimize_loop (Suc (Suc k)) plan = p" for k using p by simp
  from this [of 6] show ?thesis by (simp add: Optimize_def p numeral_eq_Suc)
qed

subsection \<open>The meaning of a plan\<close>

text \<open>
  A plan computes rows.  What a table holds, how a column compares with a literal, what any other condition says of a
  row, and what projection and aggregation compute are parameters, so that the optimizer is right for each of them.
\<close>

record 'r plan_meaning =
  pm_table :: "u32 \<Rightarrow> 'r list"
  pm_compare :: "'r \<Rightarrow> u32 \<Rightarrow> cmp_op \<Rightarrow> literal \<Rightarrow> bool"
  pm_atom :: "'r \<Rightarrow> plan_expr \<Rightarrow> bool"
  pm_project :: "named_plan_expr list \<Rightarrow> 'r \<Rightarrow> 'r"
  pm_aggregate :: "plan_expr list \<Rightarrow> named_plan_expr list \<Rightarrow> 'r list \<Rightarrow> 'r list"

fun compares :: "plan_binary_op \<Rightarrow> cmp_op option" where
  "compares P_EQ = Some CMP_EQ"
| "compares P_NE = Some CMP_NE"
| "compares P_GT = Some CMP_GT"
| "compares P_GE = Some CMP_GE"
| "compares P_LT = Some CMP_LT"
| "compares P_LE = Some CMP_LE"
| "compares _ = None"

definition atom_meets :: "'r plan_meaning \<Rightarrow> 'r \<Rightarrow> plan_expr \<Rightarrow> bool" where
  "atom_meets m row e =
     (case e of
        PlanBinary op (PlanColumnRef _ col _) (PlanLiteral v _) _ \<Rightarrow>
          (case compares op of Some c \<Rightarrow> pm_compare m row col c v | None \<Rightarrow> pm_atom m row e)
      | _ \<Rightarrow> pm_atom m row e)"

fun meets :: "'r plan_meaning \<Rightarrow> 'r \<Rightarrow> plan_expr \<Rightarrow> bool" where
  "meets m row (PlanBinary P_AND l r ty) = (meets m row l \<and> meets m row r)"
| "meets m row e = atom_meets m row e"

definition scan_row :: "'r plan_meaning \<Rightarrow> logical_scan \<Rightarrow> 'r \<Rightarrow> bool" where
  "scan_row m scan row \<longleftrightarrow> (\<forall>p\<in>set (ls_pushed_predicates scan). pm_compare m row (sp_column_index p) (sp_op p) (sp_value p))"

fun plan_rows :: "'r plan_meaning \<Rightarrow> logical_plan \<Rightarrow> 'r list" where
  "plan_rows m (LogicalScan scan) = filter (scan_row m scan) (pm_table m (ls_table_oid scan))"
| "plan_rows m (LogicalFilter p child) = filter (\<lambda>row. meets m row p) (plan_rows m child)"
| "plan_rows m (LogicalProject outputs child) = map (pm_project m outputs) (plan_rows m child)"
| "plan_rows m (LogicalAggregate group_by outputs child) = pm_aggregate m group_by outputs (plan_rows m child)"
| "plan_rows m _ = []"

lemma meets_Flatten: "meets m row p \<longleftrightarrow> (\<forall>e\<in>set (FlattenConjuncts p). meets m row e)"
  by (induction p rule: FlattenConjuncts.induct) auto

lemma meets_Extract: "ExtractSimplePredicate e = Some p \<Longrightarrow> meets m row e \<longleftrightarrow> pm_compare m row (sp_column_index p) (sp_op p) (sp_value p)"
  by (auto simp: ExtractSimplePredicate_def atom_meets_def split: plan_expr.splits plan_binary_op.splits if_splits)

lemma pushed_all: "ls_pushed_predicates (fold AddPushedPredicate ps scan) = ls_pushed_predicates scan @ ps"
  and pushed_table: "ls_table_oid (fold AddPushedPredicate ps scan) = ls_table_oid scan"
  by (induction ps arbitrary: scan) (simp_all add: AddPushedPredicate_def)

lemma map_filter_set: "set (List.map_filter f xs) = {y. \<exists>x\<in>set xs. f x = Some y}"
  by (auto simp: List.map_filter_def image_iff) force

lemma split_meets:
  "meets m row p \<longleftrightarrow>
     (\<forall>q\<in>set (List.map_filter ExtractSimplePredicate (FlattenConjuncts p)). pm_compare m row (sp_column_index q) (sp_op q) (sp_value q)) \<and>
     (\<forall>e\<in>set (FlattenConjuncts p). ExtractSimplePredicate e = None \<longrightarrow> meets m row e)"
  unfolding meets_Flatten [of m row p] map_filter_set using meets_Extract [of _ _ m row] by (auto; metis option.exhaust)

lemma PushPredicate_rows: "plan_rows m (snd (PushPredicate plan)) = plan_rows m plan"
proof (induction plan)
  case (LogicalFilter p child)
  obtain c child' where push: "PushPredicate child = (c, child')" by (cases "PushPredicate child")
  with LogicalFilter have ih: "plan_rows m child' = plan_rows m child" by simp
  show ?case
  proof (cases child')
    case (LogicalScan scan)
    let ?residual = "filter (\<lambda>e. ExtractSimplePredicate e = None) (FlattenConjuncts p)"
    let ?pushed = "List.map_filter ExtractSimplePredicate (FlattenConjuncts p)"
    have scan: "scan_row m (fold AddPushedPredicate ?pushed scan) row \<longleftrightarrow> scan_row m scan row \<and>
        (\<forall>q\<in>set ?pushed. pm_compare m row (sp_column_index q) (sp_op q) (sp_value q))" for row
      by (auto simp: scan_row_def pushed_all)
    have residual: "(case BuildConjunction ?residual of None \<Rightarrow> True | Some p' \<Rightarrow> meets m row p') \<longleftrightarrow>
        (\<forall>e\<in>set (FlattenConjuncts p). ExtractSimplePredicate e = None \<longrightarrow> meets m row e)" for row
    proof (cases "BuildConjunction ?residual")
      case None
      then show ?thesis by (auto simp: BuildConjunction_def filter_empty_conv split: list.splits)
    next
      case (Some p')
      then show ?thesis using meets_Flatten [of m row p'] residual_flat [OF Some] by auto
    qed
    have all: "filter (\<lambda>row. meets m row p) (filter (scan_row m scan) rows) =
        filter (\<lambda>row. case BuildConjunction ?residual of None \<Rightarrow> True | Some p' \<Rightarrow> meets m row p')
          (filter (scan_row m (fold AddPushedPredicate ?pushed scan)) rows)" for rows
      unfolding residual scan split_meets [of m _ p] by (auto intro: filter_cong)
    show ?thesis
      using push ih LogicalScan all [of "pm_table m (ls_table_oid scan)"]
      by (auto simp: split_conjuncts_eq Let_def pushed_table split: option.splits)
  qed (use push ih in simp_all)
qed (auto split: prod.splits)

lemma update_scan_rows: "plan_rows m (update_scan (SetRequiredColumns cols) plan) = plan_rows m plan"
  by (induction plan) (simp_all add: SetRequiredColumns_def scan_row_def [abs_def])

lemma Optimize_rows: "plan_rows m (Optimize plan) = plan_rows m plan"
proof -
  have "plan_rows m (snd (optimize_pass plan)) = plan_rows m (snd (PushPredicate plan))"
    using snd_ColumnPruning [of "snd (PushPredicate plan)"] by (auto simp: optimize_pass_def update_scan_rows split: prod.splits)
  then show ?thesis by (simp add: Optimize_one_pass PushPredicate_rows)
qed

subsection \<open>The columns of a plan\<close>

fun subterms :: "plan_expr \<Rightarrow> plan_expr set" where
  "subterms (PlanBinary op l r ty) = insert (PlanBinary op l r ty) (subterms l \<union> subterms r)"
| "subterms (PlanAgg g (Some e) ty) = insert (PlanAgg g (Some e) ty) (subterms e)"
| "subterms e = {e}"

text \<open>All the expressions that some node of the plan computes.\<close>

fun plan_terms :: "logical_plan \<Rightarrow> plan_expr set" where
  "plan_terms (LogicalFilter p child) = subterms p \<union> plan_terms child"
| "plan_terms (LogicalProject outputs child) = (\<Union>o'\<in>set outputs. subterms (ne_expr o')) \<union> plan_terms child"
| "plan_terms (LogicalAggregate group_by outputs child) =
     (\<Union>e\<in>set group_by. subterms e) \<union> (\<Union>o'\<in>set outputs. subterms (ne_expr o')) \<union> plan_terms child"
| "plan_terms _ = {}"

definition plan_columns :: "logical_plan \<Rightarrow> u32 set" where
  "plan_columns plan = {c. \<exists>oid ty. PlanColumnRef oid c ty \<in> plan_terms plan} \<union>
     (case FindScan plan of None \<Rightarrow> {} | Some scan \<Rightarrow> sp_column_index ` set (ls_pushed_predicates scan))"

lemma CollectColumnRefs_subterms: "set (CollectColumnRefs e) = {c. \<exists>oid ty. PlanColumnRef oid c ty \<in> subterms e}"
  by (induction e rule: CollectColumnRefs.induct) auto

lemma CollectRequiredColumns_columns: "set (CollectRequiredColumns plan) = plan_columns plan"
  by (induction plan) (auto simp: plan_columns_def CollectColumnRefs_subterms)

lemma Collect_Flatten: "set (CollectColumnRefs p) = (\<Union>e\<in>set (FlattenConjuncts p). set (CollectColumnRefs e))"
  by (induction p rule: FlattenConjuncts.induct) auto

lemma Extract_column: "ExtractSimplePredicate e = Some p \<Longrightarrow> set (CollectColumnRefs e) = {sp_column_index p}"
  by (auto simp: ExtractSimplePredicate_def split: plan_expr.splits plan_binary_op.splits if_splits)

lemma PushPredicate_columns: "set (CollectRequiredColumns (snd (PushPredicate plan))) = set (CollectRequiredColumns plan)"
proof (induction plan)
  case (LogicalFilter p child)
  obtain c child' where push: "PushPredicate child = (c, child')" by (cases "PushPredicate child")
  with LogicalFilter have ih: "set (CollectRequiredColumns child') = set (CollectRequiredColumns child)" by simp
  show ?case
  proof (cases child')
    case (LogicalScan scan)
    let ?residual = "filter (\<lambda>e. ExtractSimplePredicate e = None) (FlattenConjuncts p)"
    have residual: "(case BuildConjunction ?residual of None \<Rightarrow> {} | Some p' \<Rightarrow> set (CollectColumnRefs p')) =
        (\<Union>e\<in>set ?residual. set (CollectColumnRefs e))"
    proof (cases "BuildConjunction ?residual")
      case None
      then show ?thesis by (auto simp: BuildConjunction_def filter_empty_conv split: list.splits)
    next
      case (Some p')
      then show ?thesis using Collect_Flatten [of p'] residual_flat [OF Some] by simp
    qed
    have "(\<Union>e\<in>{e \<in> set (FlattenConjuncts p). ExtractSimplePredicate e \<noteq> None}. set (CollectColumnRefs e)) =
        sp_column_index ` set (List.map_filter ExtractSimplePredicate (FlattenConjuncts p))"
      by (force simp: map_filter_set Extract_column)
    moreover have "(\<Union>e\<in>set (FlattenConjuncts p). set (CollectColumnRefs e)) =
        (\<Union>e\<in>{e \<in> set (FlattenConjuncts p). ExtractSimplePredicate e \<noteq> None}. set (CollectColumnRefs e)) \<union>
        (\<Union>e\<in>set ?residual. set (CollectColumnRefs e))"
      by (auto simp del: not_None_eq)
    ultimately have "(\<Union>e\<in>set (FlattenConjuncts p). set (CollectColumnRefs e)) =
        sp_column_index ` set (List.map_filter ExtractSimplePredicate (FlattenConjuncts p)) \<union> (\<Union>e\<in>set ?residual. set (CollectColumnRefs e))"
      by (simp only:)
    then have refs: "set (CollectColumnRefs p) = sp_column_index ` set (List.map_filter ExtractSimplePredicate (FlattenConjuncts p)) \<union>
        (case BuildConjunction ?residual of None \<Rightarrow> {} | Some p' \<Rightarrow> set (CollectColumnRefs p'))"
      unfolding residual Collect_Flatten [of p] .
    show ?thesis
    proof (cases "List.map_filter ExtractSimplePredicate (FlattenConjuncts p) = []")
      case True
      then show ?thesis using push ih LogicalScan by (simp add: split_conjuncts_eq)
    next
      case False
      then show ?thesis using push ih [symmetric] LogicalScan refs
        by (cases "BuildConjunction ?residual") (simp_all add: split_conjuncts_eq Let_def pushed_all Un_ac)
    qed
  qed (use push ih in simp_all)
qed (auto split: prod.splits)

lemma Optimize_columns: "plan_columns (Optimize plan) = plan_columns plan"
proof -
  have "set (CollectRequiredColumns (snd (optimize_pass plan))) = set (CollectRequiredColumns (snd (PushPredicate plan)))"
    using snd_ColumnPruning [of "snd (PushPredicate plan)"] by (auto simp: optimize_pass_def split: prod.splits)
  then show ?thesis by (simp add: Optimize_one_pass PushPredicate_columns flip: CollectRequiredColumns_columns)
qed


end
