(* ===== verification/Physical_Plan.thy ===== *)
theory Physical_Plan
  imports Optimizer Index
begin

text \<open>
  \<^verbatim>\<open>src/src/planner/physical_plan/physical_plan.{h,cpp}\<close> and \<^verbatim>\<open>physical_planner.cpp\<close>: how to
  compute a logical plan.  The only choice is the access path of a scan: an index when the pushed
  equalities cover one of its keys, otherwise the sequential scan.
\<close>

datatype physical_plan =
    PhysicalSeqScan u32 "u32 list" "simple_predicate list"
  | PhysicalIndexScan u32 key_id "literal list" "u32 list" "simple_predicate list"
  | PhysicalFilter plan_expr physical_plan
  | PhysicalProject "named_plan_expr list" physical_plan
  | PhysicalHashAggregate "plan_expr list" "named_plan_expr list" physical_plan
  | PhysicalInsert u32 "u32 list" "plan_expr list list"
  | PhysicalCreateTable string table_schema

fun Physical_ToString :: "nat \<Rightarrow> physical_plan \<Rightarrow> string" where
  "Physical_ToString indent (PhysicalSeqScan oid columns predicates) =
     Pad indent @ ''PhysicalSeqScan(table='' @ nat_str (unat oid) @ '', columns=['' @
     sep_by '','' (map (\<lambda>c. nat_str (unat c)) columns) @ '']'' @
     (if predicates \<noteq> [] then '', pushed='' @ nat_str (length predicates) else '''') @ '')''"
| "Physical_ToString indent (PhysicalIndexScan oid key values columns residual) =
     Pad indent @ ''PhysicalIndexScan(table='' @ nat_str (unat oid) @ '', key='' @ nat_str (unat key) @ '', columns=['' @
     sep_by '','' (map (\<lambda>c. nat_str (unat c)) columns) @ ''], lookup='' @ nat_str (length values) @
     (if residual \<noteq> [] then '', residual='' @ nat_str (length residual) else '''') @ '')''"
| "Physical_ToString indent (PhysicalFilter p child) =
     Pad indent @ ''PhysicalFilter('' @ PlanExpr_ToString p @ '')'' @ newline @ Physical_ToString (indent + 2) child"
| "Physical_ToString indent (PhysicalProject outputs child) =
     Pad indent @ ''PhysicalProject('' @ nat_str (length outputs) @ '' exprs)'' @ newline @ Physical_ToString (indent + 2) child"
| "Physical_ToString indent (PhysicalHashAggregate group_by outputs child) =
     Pad indent @ ''PhysicalHashAggregate(groups='' @ nat_str (length group_by) @ '', outputs='' @ nat_str (length outputs) @
     '')'' @ newline @ Physical_ToString (indent + 2) child"
| "Physical_ToString indent (PhysicalInsert oid _ rows) =
     Pad indent @ ''PhysicalInsert(table='' @ nat_str (unat oid) @ '', rows='' @ nat_str (length rows) @ '')''"
| "Physical_ToString indent (PhysicalCreateTable name s) =
     Pad indent @ ''PhysicalCreateTable('' @ name @ '', columns='' @ nat_str (length (ts_columns s)) @ '', keys='' @
     nat_str ((if ts_primary_key s \<noteq> None then 1 else 0) + length (ts_secondary_keys s)) @ '')''"

subsection \<open>Access paths\<close>

record key_lookup_match =
  klm_values :: "literal list"
  klm_consumed :: "nat list"

definition LiteralUsableForKey :: "table_schema \<Rightarrow> column_id \<Rightarrow> literal \<Rightarrow> bool" where
  "LiteralUsableForKey s cid v =
     (case FindColumnSchema s cid of
        None \<Rightarrow> False
      | Some c \<Rightarrow>
          (case cs_type c of
             DT_INT32 \<Rightarrow> (case v of Lit_int _ \<Rightarrow> True | _ \<Rightarrow> False)
           | DT_INT64 \<Rightarrow> (case v of Lit_int _ \<Rightarrow> True | _ \<Rightarrow> False)
           | DT_FLOAT \<Rightarrow> (case v of Lit_int _ \<Rightarrow> True | Lit_double _ \<Rightarrow> True | _ \<Rightarrow> False)
           | DT_DOUBLE \<Rightarrow> (case v of Lit_int _ \<Rightarrow> True | Lit_double _ \<Rightarrow> True | _ \<Rightarrow> False)
           | DT_VARCHAR \<Rightarrow> (case v of Lit_string _ \<Rightarrow> True | _ \<Rightarrow> False)
           | DT_INVALID \<Rightarrow> False))"

text \<open>The inner loop over the predicates: the position of the only equality on the column; a second one gives up.\<close>

fun match_column :: "column_id \<Rightarrow> nat \<Rightarrow> simple_predicate list \<Rightarrow> nat option \<Rightarrow> nat option option" where
  "match_column cid i [] matched = Some matched"
| "match_column cid i (p # ps) matched =
     (if sp_column_index p \<noteq> cid \<or> sp_op p \<noteq> CMP_EQ then match_column cid (Suc i) ps matched
      else if matched \<noteq> None then None
      else match_column cid (Suc i) ps (Some i))"

fun match_columns ::
  "table_schema \<Rightarrow> simple_predicate list \<Rightarrow> column_id list \<Rightarrow> key_lookup_match \<Rightarrow> key_lookup_match option" where
  "match_columns s predicates [] m = Some m"
| "match_columns s predicates (cid # cids) m =
     (case match_column cid 0 predicates None of
        Some (Some i) \<Rightarrow>
          if \<not> LiteralUsableForKey s cid (sp_value (predicates ! i)) then None
          else match_columns s predicates cids (m\<lparr>klm_values := klm_values m @ [sp_value (predicates ! i)],
                                                  klm_consumed := klm_consumed m @ [i]\<rparr>)
      | _ \<Rightarrow> None)"

definition MatchKeyLookup :: "table_schema \<Rightarrow> key_schema \<Rightarrow> simple_predicate list \<Rightarrow> key_lookup_match option" where
  "MatchKeyLookup s key predicates = match_columns s predicates (ks_columns key) \<lparr>klm_values = [], klm_consumed = []\<rparr>"

definition BuildIndexScan ::
  "u32 \<Rightarrow> key_id \<Rightarrow> key_lookup_match \<Rightarrow> simple_predicate list \<Rightarrow> u32 list \<Rightarrow> physical_plan" where
  "BuildIndexScan oid key m predicates columns =
     PhysicalIndexScan oid key (klm_values m) columns
       (map ((!) predicates) (filter (\<lambda>i. i \<notin> set (klm_consumed m)) [0..<length predicates]))"

fun first_match ::
  "table_schema \<Rightarrow> simple_predicate list \<Rightarrow> key_schema list \<Rightarrow> (key_schema \<times> key_lookup_match) option" where
  "first_match s predicates [] = None"
| "first_match s predicates (key # keys) =
     (case MatchKeyLookup s key predicates of Some m \<Rightarrow> Some (key, m) | None \<Rightarrow> first_match s predicates keys)"

definition PlanScan :: "catalog \<Rightarrow> logical_scan \<Rightarrow> physical_plan" where
  "PlanScan cat scan =
     (let oid = ls_table_oid scan; columns = ls_required_columns scan; predicates = ls_pushed_predicates scan in
      case GetTableById oid cat of
        Some e \<Rightarrow>
          let s = te_schema e in
          (case first_match s predicates ((case ts_primary_key s of Some k \<Rightarrow> [k] | None \<Rightarrow> []) @ ts_secondary_keys s) of
             Some (key, m) \<Rightarrow> BuildIndexScan oid (ks_key_id key) m predicates columns
           | None \<Rightarrow> PhysicalSeqScan oid columns predicates)
      | None \<Rightarrow> PhysicalSeqScan oid columns predicates)"

definition CloneNamed :: "named_plan_expr list \<Rightarrow> named_plan_expr list" where
  "CloneNamed src = map (\<lambda>item. \<lparr>ne_expr = Clone (ne_expr item), ne_alias = ne_alias item\<rparr>) src"

definition CloneExprs :: "plan_expr list \<Rightarrow> plan_expr list" where
  "CloneExprs src = map Clone src"

definition CloneRows :: "plan_expr list list \<Rightarrow> plan_expr list list" where
  "CloneRows src = map (map Clone) src"

fun CreatePhysicalPlan :: "catalog \<Rightarrow> logical_plan \<Rightarrow> physical_plan" where
  "CreatePhysicalPlan cat (LogicalScan scan) = PlanScan cat scan"
| "CreatePhysicalPlan cat (LogicalFilter p child) = PhysicalFilter (Clone p) (CreatePhysicalPlan cat child)"
| "CreatePhysicalPlan cat (LogicalProject outputs child) = PhysicalProject (CloneNamed outputs) (CreatePhysicalPlan cat child)"
| "CreatePhysicalPlan cat (LogicalAggregate group_by outputs child) =
     PhysicalHashAggregate (CloneExprs group_by) (CloneNamed outputs) (CreatePhysicalPlan cat child)"
| "CreatePhysicalPlan cat (LogicalInsert oid targets rows) = PhysicalInsert oid targets (CloneRows rows)"
| "CreatePhysicalPlan cat (LogicalCreateTable name s) = PhysicalCreateTable name s"

subsection \<open>Access path selection loses no predicate\<close>

lemma match_column_result:
  assumes "match_column cid i ps matched = Some (Some j)" "matched = None"
  shows "i \<le> j \<and> j - i < length ps \<and> sp_column_index (ps ! (j - i)) = cid \<and> sp_op (ps ! (j - i)) = CMP_EQ"
  using assms
proof (induction cid i ps matched rule: match_column.induct)
  case (2 cid i p ps matched)
  show ?case
  proof (cases "sp_column_index p \<noteq> cid \<or> sp_op p \<noteq> CMP_EQ")
    case True
    then have "Suc i \<le> j \<and> j - Suc i < length ps \<and> sp_column_index (ps ! (j - Suc i)) = cid \<and> sp_op (ps ! (j - Suc i)) = CMP_EQ"
      using 2 by simp
    then show ?thesis by (auto simp: nth_Cons' Suc_diff_le)
  next
    case False
    have "match_column cid k qs (Some i) = Some (Some j) \<Longrightarrow> j = i" for k qs
      by (induction qs arbitrary: k) (auto split: if_splits)
    moreover have "match_column cid (Suc i) ps (Some i) = Some (Some j)" using False 2 by auto
    ultimately have "j = i" by blast
    then show ?thesis using False by auto
  qed
qed simp

definition key_predicate :: "simple_predicate list \<Rightarrow> column_id \<Rightarrow> nat \<Rightarrow> bool" where
  "key_predicate predicates cid i \<longleftrightarrow> i < length predicates \<and> sp_column_index (predicates ! i) = cid \<and> sp_op (predicates ! i) = CMP_EQ"

lemma match_columns_result:
  assumes "match_columns s predicates cids m = Some m'"
  shows "\<exists>js. klm_consumed m' = klm_consumed m @ js \<and> klm_values m' = klm_values m @ map (\<lambda>i. sp_value (predicates ! i)) js \<and>
    list_all2 (key_predicate predicates) cids js \<and>
    list_all2 (LiteralUsableForKey s) cids (map (\<lambda>i. sp_value (predicates ! i)) js)"
  using assms
proof (induction s predicates cids m rule: match_columns.induct)
  case (2 s predicates cid cids m)
  then obtain i where i: "match_column cid 0 predicates None = Some (Some i)" "LiteralUsableForKey s cid (sp_value (predicates ! i))"
      "match_columns s predicates cids (m\<lparr>klm_values := klm_values m @ [sp_value (predicates ! i)], klm_consumed := klm_consumed m @ [i]\<rparr>) = Some m'"
    by (auto split: option.splits if_splits)
  from 2(1) [OF i(1) refl] i(2,3) obtain js where js: "klm_consumed m' = (klm_consumed m @ [i]) @ js"
      "klm_values m' = (klm_values m @ [sp_value (predicates ! i)]) @ map (\<lambda>i. sp_value (predicates ! i)) js"
      "list_all2 (key_predicate predicates) cids js" "list_all2 (LiteralUsableForKey s) cids (map (\<lambda>i. sp_value (predicates ! i)) js)"
    by auto
  then show ?case using match_column_result [OF i(1) refl] i(2)
    by (intro exI [of _ "i # js"]) (auto simp: key_predicate_def [of _ cid])
qed simp

definition table_keys :: "table_schema \<Rightarrow> key_schema list" where
  "table_keys s = (case ts_primary_key s of Some k \<Rightarrow> [k] | None \<Rightarrow> []) @ ts_secondary_keys s"

lemma first_match_result:
  "first_match s predicates keys = Some (key, m) \<Longrightarrow> key \<in> set keys \<and> MatchKeyLookup s key predicates = Some m"
  by (induction keys) (auto split: option.splits)

lemma PlanScan_index:
  assumes "PlanScan cat scan = PhysicalIndexScan oid kid vals cols residual"
  shows "\<exists>e key m. GetTableById (ls_table_oid scan) cat = Some e \<and> key \<in> set (table_keys (te_schema e)) \<and> kid = ks_key_id key \<and>
    oid = ls_table_oid scan \<and> cols = ls_required_columns scan \<and>
    MatchKeyLookup (te_schema e) key (ls_pushed_predicates scan) = Some m \<and> vals = klm_values m \<and>
    residual = map ((!) (ls_pushed_predicates scan)) (filter (\<lambda>i. i \<notin> set (klm_consumed m)) [0..<length (ls_pushed_predicates scan)])"
  using assms by (auto simp: PlanScan_def Let_def BuildIndexScan_def table_keys_def dest!: first_match_result split: option.splits)

text \<open>C18: When the planner chooses an index, the looked-up equalities and the residual together mean the same as the
  pushed predicates, whatever a predicate means: no condition is lost and none is added.  The key is a key of the
  table, with one usable literal per column.\<close>

theorem PlanScan_keeps_predicates:
  assumes "PlanScan cat scan = PhysicalIndexScan oid kid vals cols residual"
  shows "\<exists>e key. GetTableById oid cat = Some e \<and> key \<in> set (table_keys (te_schema e)) \<and> ks_key_id key = kid \<and>
    list_all2 (LiteralUsableForKey (te_schema e)) (ks_columns key) vals \<and> cols = ls_required_columns scan \<and>
    ((\<forall>p\<in>set (ls_pushed_predicates scan). holds (sp_column_index p) (sp_op p) (sp_value p)) \<longleftrightarrow>
       list_all2 (\<lambda>cid v. holds cid CMP_EQ v) (ks_columns key) vals \<and>
       (\<forall>p\<in>set residual. holds (sp_column_index p) (sp_op p) (sp_value p)))"
proof -
  let ?ps = "ls_pushed_predicates scan"
  from PlanScan_index [OF assms] obtain e key m where e: "GetTableById (ls_table_oid scan) cat = Some e"
      "key \<in> set (table_keys (te_schema e))" "kid = ks_key_id key" "oid = ls_table_oid scan" "cols = ls_required_columns scan"
      "MatchKeyLookup (te_schema e) key ?ps = Some m" "vals = klm_values m"
      "residual = map ((!) ?ps) (filter (\<lambda>i. i \<notin> set (klm_consumed m)) [0..<length ?ps])"
    by blast
  from match_columns_result [OF e(6) [unfolded MatchKeyLookup_def]] obtain js where
    js: "klm_consumed m = js" "vals = map (\<lambda>i. sp_value (?ps ! i)) js" "list_all2 (key_predicate ?ps) (ks_columns key) js"
      "list_all2 (LiteralUsableForKey (te_schema e)) (ks_columns key) vals"
    using e(7) by auto
  define ok where "ok i = holds (sp_column_index (?ps ! i)) (sp_op (?ps ! i)) (sp_value (?ps ! i))" for i
  have "list_all2 (\<lambda>cid v. holds cid CMP_EQ v) (ks_columns key) vals \<longleftrightarrow> (\<forall>i\<in>set js. ok i)"
    using js(3) unfolding js(2) ok_def by (induction rule: list_all2_induct) (auto simp: key_predicate_def)
  moreover have "(\<forall>p\<in>set residual. holds (sp_column_index p) (sp_op p) (sp_value p)) \<longleftrightarrow> (\<forall>i<length ?ps. i \<notin> set js \<longrightarrow> ok i)"
    by (auto simp: e(8) js(1) ok_def)
  moreover have "(\<forall>p\<in>set ?ps. holds (sp_column_index p) (sp_op p) (sp_value p)) \<longleftrightarrow> (\<forall>i<length ?ps. ok i)"
    by (simp add: all_set_conv_all_nth ok_def)
  moreover have "set js \<subseteq> {..<length ?ps}"
    using js(3) by (induction rule: list_all2_induct) (auto simp: key_predicate_def)
  ultimately have "(\<forall>p\<in>set ?ps. holds (sp_column_index p) (sp_op p) (sp_value p)) \<longleftrightarrow>
      list_all2 (\<lambda>cid v. holds cid CMP_EQ v) (ks_columns key) vals \<and>
      (\<forall>p\<in>set residual. holds (sp_column_index p) (sp_op p) (sp_value p))"
    by blast
  then show ?thesis using e(1-5) js(4) by blast
qed

end
