(* ===== verification/Exec_Examples.thy ===== *)
theory Exec_Examples
  imports Table_Examples Database Vector_Expression Physical_Plan
begin

text \<open>The theorems on plans, expressions and the database applied to concrete inputs.\<close>

definition sample_scan :: logical_scan where
  "sample_scan = \<lparr>ls_table_oid = 0, ls_required_columns = [0, 1], ls_pushed_predicates =
     [\<lparr>sp_column_index = 1, sp_op = CMP_NE, sp_value = Lit_string ''a''\<rparr>, \<lparr>sp_column_index = 0, sp_op = CMP_EQ, sp_value = Lit_int 5\<rparr>]\<rparr>"

lemma sample_plan: "PlanScan sample_catalog sample_scan =
    PhysicalIndexScan 0 0 [Lit_int 5] [0, 1] [\<lparr>sp_column_index = 1, sp_op = CMP_NE, sp_value = Lit_string ''a''\<rparr>]"
  by (simp add: PlanScan_def sample_scan_def GetTableById_def sample_catalog_def sample_entry_def sample_schema_def MatchKeyLookup_def
      LiteralUsableForKey_def FindColumnSchema_def BuildIndexScan_def upt_rec)

theorem PlanScan_keeps_predicates_witness:
  "\<exists>key. key \<in> set (table_keys sample_schema) \<and> list_all2 (LiteralUsableForKey sample_schema) (ks_columns key) [Lit_int 5] \<and>
     ((\<forall>p\<in>set (ls_pushed_predicates sample_scan). sp_op p = CMP_EQ) \<longleftrightarrow> ks_columns key = [])"
  using PlanScan_keeps_predicates [OF sample_plan, of "\<lambda>_ op _. op = CMP_EQ"]
  by (auto simp: sample_scan_def GetTableById_def sample_catalog_def sample_entry_def)

definition sample_condition :: exec_expr where
  "sample_condition = ExecBinary P_OR
     (ExecBinary P_LT (ExecColumnRef 0 DT_INT32) (ExecLiteral (EV_int32 6) DT_INT32) DT_INVALID)
     (ExecBinary P_EQ (ExecColumnRef 0 DT_INT32) (ExecColumnRef 0 DT_INT32) DT_INVALID) DT_INVALID"

lemma sample_condition_ok: "expr_ok 2 [0, 1] sample_batch sample_condition"
  by (simp add: sample_condition_def sample_batch_def readable_column_def column_ok_def literal_value_ok_def is_nan_value_def cell_value_def)

theorem vector_predicate_exact_witness:
  "case Evaluate (CompileVectorPredicate sample_condition) sample_batch 2 (SetAll 2) of
     Inr m \<Rightarrow> \<forall>row. Mask_Test m row \<longleftrightarrow> Mask_Test (SetAll 2) row \<and> truth sample_condition sample_batch row = Inr True
   | Inl _ \<Rightarrow> \<exists>row err. truth sample_condition sample_batch row = Inl err"
proof -
  have "mask_rows (SetAll 2) = [0, 1]" by code_simp
  then have "mask_expr_ok (SetAll 2) sample_batch sample_condition" "mask_row_count (SetAll 2) = 2"
    using sample_condition_ok by (simp_all add: SetAll_rows kVectorBatchSize_def)
  with vector_predicate_exact [OF this(1) SetAll_inv] show ?thesis by (auto split: sum.splits)
qed

definition sample_sum :: exec_expr where
  "sample_sum = ExecBinary P_ADD (ExecColumnRef 0 DT_INT32) (ExecColumnRef 0 DT_INT32) DT_INT32"

definition sample_vector :: vector_expression where
  "sample_vector = \<lparr>ve_op = A_ADD, ve_lhs = OpColumn DT_INT32 0, ve_rhs = OpColumn DT_INT32 0, ve_type = DT_INT32\<rparr>"

definition sample_target :: "bytes \<Rightarrow> column_data" where
  "sample_target bytes = \<lparr>cd_type = DT_INT32, cd_buffer = bytes, cd_count = 2, cd_is_view = False\<rparr>"

lemma sample_vector_result:
  "EvaluateDense sample_vector sample_batch (sample_target (replicate 8 0)) 2 = Inr (sample_target [10, 0, 0, 0, 18, 0, 0, 0])"
  by code_simp

theorem integer_vector_expression_exact_witness:
  "\<exists>cs. map_r (\<lambda>row. bind_r (Eval sample_sum sample_batch row) (output_bytes DT_INT32)) [0..<2] = Inr cs \<and> concat cs = [10, 0, 0, 0, 18, 0, 0, 0] \<and>
     EvaluateDense sample_vector sample_batch (sample_target (replicate 8 0)) 2 = Inr (sample_target (concat cs))"
proof -
  have ok: "TryCompileVectorExpression sample_sum = Some sample_vector" "expr_ok 2 [0, 1] sample_batch sample_sum"
      "Exec_GetReturnType sample_sum = DT_INT32 \<or> Exec_GetReturnType sample_sum = DT_INT64"
      "cd_type (sample_target (replicate 8 0)) = Exec_GetReturnType sample_sum" "column_ok 2 (sample_target (replicate 8 0))"
    by (simp_all add: sample_sum_def sample_vector_def sample_target_def TryCompileVectorExpression_def ClassifyOperand_def numeric_type_def
        sample_batch_def readable_column_def column_ok_def is_nan_value_def cell_value_def)
  have type: "Exec_GetReturnType sample_sum = DT_INT32" by (simp add: sample_sum_def)
  obtain cs where cs: "map_r (\<lambda>row. bind_r (Eval sample_sum sample_batch row) (output_bytes DT_INT32)) [0..<2] = Inr cs"
    "(sample_target (replicate 8 0))\<lparr>cd_buffer := concat cs\<rparr> = sample_target [10, 0, 0, 0, 18, 0, 0, 0]"
    using sample_vector_result [unfolded integer_vector_rows [OF ok] type bind_r_Inr_iff] by auto
  from integer_vector_expression_exact [OF ok, unfolded type, OF cs(1)] cs show ?thesis by (auto simp: sample_target_def)
qed

subsection \<open>The database\<close>

definition sample_db :: "(table_id \<rightharpoonup> table_storage) \<Rightarrow> database" where
  "sample_db tables = \<lparr>db_catalog = sample_catalog, db_storage = \<lparr>smg_tables = tables, smg_dirs = Map.empty\<rparr>\<rparr>"

definition sample_table :: table_storage where
  "sample_table = empty_table\<lparr>tst_table_id := 0, tst_schema := sample_schema\<rparr>"

lemma sample_db_inv: "db_inv (sample_db Map.empty)" "db_inv (sample_db [0 \<mapsto> sample_table])"
proof -
  have "GetTableById 0 sample_catalog = Some sample_entry" by (simp add: GetTableById_def sample_catalog_def)
  then show "db_inv (sample_db Map.empty)" "db_inv (sample_db [0 \<mapsto> sample_table])"
    by (auto simp: db_inv_def sample_db_def sample_catalog_inv sample_table_def sample_entry_def)
qed

definition all_ok :: ddl_io where
  "all_ok = \<lparr>dd_catalog = Io_ok, dd_rollback = Io_ok, dd_dir = True, dd_table = Io_ok\<rparr>"

theorem Database_CreateTable_effect_witness:
  "\<exists>db'. Database_CreateTable all_ok ''u'' double_schema (sample_db Map.empty) = Inr (True, db') \<and> db_inv db'"
  using Database_CreateTable_effect [of "sample_db Map.empty" all_ok "''u''" double_schema] sample_db_inv sample_catalog_ids
  by (auto simp: sample_db_def all_ok_def FindTable_def sample_catalog_def)

theorem failed_drop_blocks_create_witness:
  "\<exists>db' db''. Database_DropTable id (\<lambda>_. Io_ok) Io_ok \<lparr>di_stat = True, di_remove = True, di_rename = True\<rparr> Io_open_failed ''t''
       (sample_db [0 \<mapsto> sample_table]) = (False, db') \<and>
     Database_CreateTable all_ok ''u'' double_schema db' = Inr (False, db'')"
proof -
  let ?dio = "\<lparr>di_stat = True, di_remove = True, di_rename = True\<rparr>"
  obtain ok db' where d: "Database_DropTable id (\<lambda>_. Io_ok) Io_ok ?dio Io_open_failed ''t'' (sample_db [0 \<mapsto> sample_table]) = (ok, db')"
    by (cases "Database_DropTable id (\<lambda>_. Io_ok) Io_ok ?dio Io_open_failed ''t'' (sample_db [0 \<mapsto> sample_table])")
  then have "NextTableId (db_catalog db') = 0"
    by (auto simp: Database_DropTable_def sample_db_def FindTable_def sample_catalog_def DropTable_def SaveMeta_def write_file_def
        NextTableId_def al_erase_def Let_def split: if_splits)
  from failed_drop_blocks_create [OF sample_db_inv(2) _ _ _ d this] d show ?thesis
    by (auto simp: sample_db_def sample_catalog_ids) (auto simp: FindTable_def sample_catalog_def)
qed

theorem restart_keeps_rows_witness:
  "\<exists>t sm sbs. Storage_GetTable 1 double_schema
       (new_storage_manager (smg_dirs (Storage_destructor id (\<lambda>_ _. Io_ok) (\<lambda>_. Io_ok) [1] \<lparr>smg_tables = [1 \<mapsto> memory_table], smg_dirs = Map.empty\<rparr>))) =
       Inr (Some t, sm) \<and> disk_ok t sbs \<and> memory_rows t = [] \<and> mset (rows_of sbs) = mset (segment_rows double_segment)"
proof -
  let ?sm = "\<lparr>smg_tables = [1 \<mapsto> memory_table], smg_dirs = Map.empty\<rparr>"
  have t: "table_inv memory_table" "disk_ok memory_table []" "columns_fit (tst_schema memory_table)" "keys_known (tst_schema memory_table)"
    "keys_nonempty (tst_schema memory_table)" "tm_table_id (tst_metadata memory_table) = 1" "unat (tst_next_id memory_table) + 3 < 2 ^ 32"
    "memory_rows memory_table = segment_rows double_segment" "tst_schema memory_table = double_schema"
    using double_segment_builder double_schema_facts
    by (simp_all add: memory_table_def double_table_inv memory_rows_def memory_segments_def disk_ok_def keys_nonempty_def key_list_def double_schema_def)
  have "smg_tables ?sm 1 = Some memory_table" by simp
  from restart_keeps_rows [OF this t(1-7) _ _ _ refl, of id "[1]"] show ?thesis by (auto simp: t(8,9))
qed

end
