(* ===== verification/Operator_Examples.thy ===== *)
theory Operator_Examples
  imports Exec_Examples Projection
begin

text \<open>The theorems on operators applied to one table with a DOUBLE column.\<close>

definition operator_db :: database where
  "operator_db = \<lparr>db_catalog = sample_catalog, db_storage = \<lparr>smg_tables = [0 \<mapsto> written_table], smg_dirs = Map.empty\<rparr>\<rparr>"

lemma operator_db_table: "GetTableById 0 (db_catalog operator_db) = Some sample_entry" "smg_tables (db_storage operator_db) 0 = Some written_table"
  by (simp_all add: operator_db_def GetTableById_def sample_catalog_def)

text \<open>\<open>x > 1.0\<close>, and \<open>x\<close> beside a constant.\<close>

definition operator_condition :: exec_expr where
  "operator_condition = ExecBinary P_GT (ExecColumnRef 0 DT_DOUBLE) (ExecLiteral (EV_double 0x3FF0000000000000) DT_DOUBLE) DT_INVALID"

definition operator_outputs :: "exec_expr list" where
  "operator_outputs = [ExecColumnRef 0 DT_DOUBLE, ExecLiteral (EV_string ''a'') DT_VARCHAR]"

lemma operator_table_fits:
  "table_fits double_options (if so_predicates double_options = [] then None else Some []) [(0, double_segment)] written_table"
  using written_disk written_scan by (simp add: table_fits_def)

lemma operator_types: "scan_types (tst_schema written_table) double_options = [DT_DOUBLE]"
  by code_simp

lemma compare_doubles:
  "\<not> f64_nan a \<Longrightarrow> \<not> f64_nan b \<Longrightarrow> CompareExecValues (EV_double a) (EV_double b) =
     Inr (if ieee_key a < ieee_key b then -1 else if ieee_key b < ieee_key a then 1 else 0)"
  by (simp add: CompareExecValues_def ieee_lt_def f80_of_f64_key)

lemma operator_keys:
  "\<not> f64_nan 0x3FF0000000000000" "\<not> f64_nan 0x4000000000000000"
  "ieee_key (0x3FF0000000000000 :: f64) < ieee_key (0x4000000000000000 :: f64)"
  by (simp_all add: ieee_eval)

lemma operator_value: "le_word 8 (cell 8 (le_bytes 8 (w :: f64)) 0) = w"
  using le_word_le_bytes [of 8 w "[]"] by (simp add: cell_def)

lemma operator_rows:
  "row_condition_ok [DT_DOUBLE] operator_condition [le_bytes 8 (0x3FF0000000000000 :: f64)]"
  "row_condition_ok [DT_DOUBLE] operator_condition [le_bytes 8 (0x4000000000000000 :: f64)]"
  "\<not> row_holds [DT_DOUBLE] operator_condition [le_bytes 8 (0x3FF0000000000000 :: f64)]"
  "row_holds [DT_DOUBLE] operator_condition [le_bytes 8 (0x4000000000000000 :: f64)]"
  using operator_keys
  by (simp_all add: row_condition_ok_def row_holds_def row_expr_ok_def row_batch_def row_column_def operator_condition_def truth_def
      readable_column_def column_ok_def is_nan_value_def cell_value_def literal_value_ok_def ReadExecValue_def operator_value compare_doubles ExecValueAsBool_def)
    (use operator_keys in blast)+

lemma a_slot: "WriteVarcharSlot ''a'' = Inr (le_bytes 4 (1 :: u32) @ [byte_of_char (CHR ''a'')] @ replicate 59 0)"
  using WriteVarcharSlot_short [of "''a''"] by simp

lemma operator_cells:
  "project_of [DT_DOUBLE] (map classify_slot operator_outputs) [bs] = [bs, le_bytes 4 (1 :: u32) @ [byte_of_char (CHR ''a'')] @ replicate 59 0]"
  "list_all (plan_ok [DT_DOUBLE]) (map classify_slot operator_outputs)"
  by (simp_all add: operator_outputs_def classify_slot_def project_of_def cell_of_def project_cell_def row_eval_def plan_ok_def
      output_bytes_def TryCompileVectorExpression_def a_slot del: append.simps)


lemma operator_selected:
  "\<forall>row\<in>set (selected (tst_schema written_table) double_options (rows_of [(0, double_segment)])).
     row_condition_ok (scan_types (tst_schema written_table) double_options) operator_condition row"
  unfolding written_selected operator_types using operator_rows by simp

lemma operator_filtered:
  "filter (row_holds [DT_DOUBLE] operator_condition) [[le_bytes 8 (0x3FF0000000000000 :: f64)], [le_bytes 8 (0x4000000000000000 :: f64)]] =
     [[le_bytes 8 (0x4000000000000000 :: f64)]]"
  using operator_rows by simp

theorem filter_over_scan_exact_witness:
  "\<exists>op bs. SeqScan_Init operator_db (new_seq_scan 0 double_options None) = Inr (op, operator_db) \<and>
     drain_batches (Filter_Next SeqScan_Next (CompileVectorPredicate operator_condition)) op = Some (Inr bs) \<and>
     concat (map active_rows bs) = [[le_bytes 8 (0x4000000000000000 :: f64)]]"
  using filter_over_scan_exact [OF operator_db_table operator_table_fits operator_selected]
  unfolding written_selected operator_types operator_filtered .

theorem select_pipeline_exact_witness:
  "\<exists>op bs. SeqScan_Init operator_db (new_seq_scan 0 double_options None) = Inr (op, operator_db) \<and>
     drain_batches (Projection_Next (Filter_Next SeqScan_Next (CompileVectorPredicate operator_condition)) (Projection_Init operator_outputs)) op =
       Some (Inr bs) \<and>
     concat (map active_rows bs) = [[le_bytes 8 (0x4000000000000000 :: f64), le_bytes 4 (1 :: u32) @ [byte_of_char (CHR ''a'')] @ replicate 59 0]]"
proof -
  have "\<forall>plan\<in>set (map classify_slot operator_outputs). plan_ok (scan_types (tst_schema written_table) double_options) plan"
    unfolding operator_types using operator_cells(2) by (simp only: list_all_iff)
  moreover have "\<exists>cs. project_row_cells types (map classify_slot operator_outputs) row = Inr cs" for types row
    by (simp add: operator_outputs_def classify_slot_def project_row_cells_def project_cell_def row_eval_def
        output_bytes_def TryCompileVectorExpression_def a_slot del: append.simps)
  ultimately show ?thesis
    using select_pipeline_exact [OF operator_db_table operator_table_fits operator_selected, of operator_outputs]
    unfolding written_selected operator_types operator_filtered list.map operator_cells(1) by blast
qed

end
