(* ===== verification/Blocking_Queue.thy ===== *)
theory Blocking_Queue
  imports Prelude
begin

text \<open>
  \<^verbatim>\<open>src/src/parallel/queue/bounded_blocking_queue.h\<close>: the queue between the workers of a parallel query and
  the thread that consumes its result.  Every operation holds the mutex, so it is one step; an operation whose
  wait condition does not hold has no result.  The notifications that an operation makes after it has released the mutex are
  part of its result, in their order; who sleeps and who is woken by them is the subject of \<^verbatim>\<open>Queue_Monitor\<close>.
\<close>

record 'a blocking_queue =
  bq_capacity :: nat
  bq_queue :: "'a list"
  bq_closed :: bool
  bq_aborted :: bool
  bq_cancelled :: bool
  bq_error :: "exn option"

definition new_queue :: "nat \<Rightarrow> 'a blocking_queue" where
  "new_queue capacity = \<lparr>bq_capacity = (if capacity = 0 then 1 else capacity), bq_queue = [], bq_closed = False,
     bq_aborted = False, bq_cancelled = False, bq_error = None\<rparr>"

definition ended :: "'a blocking_queue \<Rightarrow> bool" where
  "ended q \<longleftrightarrow> bq_closed q \<or> bq_aborted q \<or> bq_cancelled q"

text \<open>The two condition variables, and the calls that wake the threads sleeping on them.\<close>

datatype condition_variable =
    Not_empty
  | Not_full

datatype notification =
    Notify_one condition_variable
  | Notify_all condition_variable

definition Push :: "'a \<Rightarrow> 'a blocking_queue \<Rightarrow> (bool \<times> 'a blocking_queue \<times> notification list) option" where
  "Push v q =
     (if \<not> (ended q \<or> length (bq_queue q) < bq_capacity q) then None
      else if ended q then Some (False, q, [])
      else Some (True, q\<lparr>bq_queue := bq_queue q @ [v]\<rparr>, [Notify_one Not_empty]))"

definition Pop :: "'a blocking_queue \<Rightarrow> ('a option \<times> 'a blocking_queue \<times> notification list) option" where
  "Pop q =
     (if \<not> (bq_queue q \<noteq> [] \<or> ended q) then None
      else case bq_queue q of
        [] \<Rightarrow> Some (None, q, [])
      | v # vs \<Rightarrow> Some (Some v, q\<lparr>bq_queue := vs\<rparr>, [Notify_one Not_full]))"

definition Queue_Close :: "'a blocking_queue \<Rightarrow> 'a blocking_queue \<times> notification list" where
  "Queue_Close q = (q\<lparr>bq_closed := True\<rparr>, [Notify_all Not_empty, Notify_all Not_full])"

definition Queue_Abort :: "exn option \<Rightarrow> 'a blocking_queue \<Rightarrow> 'a blocking_queue \<times> notification list" where
  "Queue_Abort e q =
     (q\<lparr>bq_aborted := True, bq_error := (case e of None \<Rightarrow> bq_error q | Some _ \<Rightarrow> e)\<rparr>,
      [Notify_all Not_empty, Notify_all Not_full])"

definition Queue_Cancel :: "'a blocking_queue \<Rightarrow> 'a blocking_queue \<times> notification list" where
  "Queue_Cancel q = (q\<lparr>bq_cancelled := True\<rparr>, [Notify_all Not_empty, Notify_all Not_full])"

definition Queue_Closed :: "'a blocking_queue \<Rightarrow> bool" where
  "Queue_Closed q = bq_closed q"

definition Queue_Error :: "'a blocking_queue \<Rightarrow> exn option" where
  "Queue_Error q = bq_error q"

subsection \<open>Runs\<close>

text \<open>What the threads see of a run: the elements accepted, refused and handed out, and the end.\<close>

datatype 'a queue_event =
    Accepted 'a
  | Refused 'a
  | Handed 'a
  | No_more
  | Closing
  | Aborting "exn option"
  | Cancelling

inductive queue_step :: "'a queue_event \<Rightarrow> 'a blocking_queue \<Rightarrow> 'a blocking_queue \<Rightarrow> bool" where
  accept: "Push v q = Some (True, q', ns) \<Longrightarrow> queue_step (Accepted v) q q'"
| refuse: "Push v q = Some (False, q', ns) \<Longrightarrow> queue_step (Refused v) q q'"
| hand: "Pop q = Some (Some v, q', ns) \<Longrightarrow> queue_step (Handed v) q q'"
| no_more: "Pop q = Some (None, q', ns) \<Longrightarrow> queue_step No_more q q'"
| close: "queue_step Closing q (fst (Queue_Close q))"
| abort: "queue_step (Aborting e) q (fst (Queue_Abort e q))"
| cancel: "queue_step Cancelling q (fst (Queue_Cancel q))"

inductive queue_run :: "'a queue_event list \<Rightarrow> 'a blocking_queue \<Rightarrow> 'a blocking_queue \<Rightarrow> bool" where
  start: "queue_run [] q q"
| step: "queue_run es q q' \<Longrightarrow> queue_step e q' q'' \<Longrightarrow> queue_run (es @ [e]) q q''"

inductive_cases queue_stepE: "queue_step e q q'"

definition accepted :: "'a queue_event list \<Rightarrow> 'a list" where
  "accepted es = concat (map (\<lambda>e. case e of Accepted v \<Rightarrow> [v] | _ \<Rightarrow> []) es)"

definition handed :: "'a queue_event list \<Rightarrow> 'a list" where
  "handed es = concat (map (\<lambda>e. case e of Handed v \<Rightarrow> [v] | _ \<Rightarrow> []) es)"

definition ending :: "'a queue_event \<Rightarrow> bool" where
  "ending e = (case e of Closing \<Rightarrow> True | Aborting _ \<Rightarrow> True | Cancelling \<Rightarrow> True | _ \<Rightarrow> False)"

lemmas queue_defs = Push_def Pop_def ended_def Queue_Close_def Queue_Abort_def Queue_Cancel_def
lemmas event_defs = accepted_def handed_def ending_def

lemma queue_step_effect:
  assumes "queue_step e q q'"
  shows "bq_capacity q' = bq_capacity q" "length (bq_queue q) \<le> bq_capacity q \<Longrightarrow> length (bq_queue q') \<le> bq_capacity q"
    "bq_queue q @ accepted [e] = handed [e] @ bq_queue q'" "ended q' \<longleftrightarrow> ended q \<or> ending e"
    "accepted [e] \<noteq> [] \<Longrightarrow> \<not> ended q"
  using assms by (auto elim!: queue_stepE simp: queue_defs event_defs split: if_splits list.splits)

lemma events_append: "accepted (es @ fs) = accepted es @ accepted fs" "handed (es @ fs) = handed es @ handed fs"
  by (simp_all add: accepted_def handed_def)

lemma queue_run_effect:
  assumes "queue_run es q q'" "length (bq_queue q) \<le> bq_capacity q"
  shows "bq_capacity q' = bq_capacity q \<and> length (bq_queue q') \<le> bq_capacity q \<and>
    bq_queue q @ accepted es = handed es @ bq_queue q' \<and> (ended q' \<longleftrightarrow> ended q \<or> (\<exists>e\<in>set es. ending e))"
  using assms
proof induction
  case (step es q q' e q'')
  note eff = queue_step_effect [OF step.hyps(2)]
  have "bq_queue q @ accepted (es @ [e]) = (handed es @ bq_queue q') @ accepted [e]" using step by (simp add: events_append)
  also have "\<dots> = handed (es @ [e]) @ bq_queue q''" using eff(3) by (simp add: events_append)
  finally show ?case using step eff by auto
qed (simp add: event_defs)

text \<open>C39: In every run the queue never holds more elements than its capacity, which is at least one; the
  elements handed out, followed by those still in the queue, are the elements accepted, in their order.
\<close>

theorem queue_bounded_fifo:
  assumes "queue_run es (new_queue capacity) q"
  shows "length (bq_queue q) \<le> max 1 capacity \<and> accepted es = handed es @ bq_queue q"
  using queue_run_effect [OF assms] by (auto simp: new_queue_def split: if_splits)

end
