(* ===== verification/Queue_Monitor.thy ===== *)
theory Queue_Monitor
  imports Blocking_Queue
begin

text \<open>
  \<^verbatim>\<open>src/src/parallel/queue/bounded_blocking_queue.h\<close>: the queue as a monitor.  Threads call its operations; a call whose wait condition
  fails puts its thread to sleep on the condition variable of that wait, and only a notification or a spurious wake-up lets it test
  the condition again.  An operation makes its notifications after it has released the mutex, so other threads may run between
  it and them.  The invariant bounds the work that the sleepers do not know of by the threads that are about to do it or to wake
  one, so that no wake-up is lost.
\<close>

subsection \<open>Calls\<close>

datatype 'a queue_call =
    Call_push 'a
  | Call_pop
  | Call_close
  | Call_abort "exn option"
  | Call_cancel

text \<open>What a call does once its thread holds the mutex; \<open>None\<close>: it has to wait.\<close>

fun attempt :: "'a queue_call \<Rightarrow> 'a blocking_queue \<Rightarrow> ('a queue_event \<times> 'a blocking_queue \<times> notification list) option" where
  "attempt (Call_push v) q = map_option (\<lambda>(pushed, r). (if pushed then Accepted v else Refused v, r)) (Push v q)"
| "attempt Call_pop q = map_option (\<lambda>(popped, r). (case popped of None \<Rightarrow> No_more | Some v \<Rightarrow> Handed v, r)) (Pop q)"
| "attempt Call_close q = Some (Closing, Queue_Close q)"
| "attempt (Call_abort e) q = Some (Aborting e, Queue_Abort e q)"
| "attempt Call_cancel q = Some (Cancelling, Queue_Cancel q)"

fun waits_on :: "'a queue_call \<Rightarrow> condition_variable option" where
  "waits_on (Call_push v) = Some Not_full"
| "waits_on Call_pop = Some Not_empty"
| "waits_on _ = None"

subsection \<open>Threads\<close>

text \<open>Where a thread sleeps, if it does, and the notifications it still has to make.\<close>

record waiter =
  wt_asleep :: "condition_variable option"
  wt_pending :: "notification list"

definition awake :: "notification list \<Rightarrow> waiter" where
  "awake ns = \<lparr>wt_asleep = None, wt_pending = ns\<rparr>"

definition woken :: "condition_variable \<Rightarrow> waiter \<Rightarrow> waiter" where
  "woken c w = (if wt_asleep w = Some c then w\<lparr>wt_asleep := None\<rparr> else w)"

inductive notified :: "notification \<Rightarrow> waiter list \<Rightarrow> waiter list \<Rightarrow> bool" where
  one: "s < length ws \<Longrightarrow> wt_asleep (ws ! s) = Some c \<Longrightarrow> notified (Notify_one c) ws (ws[s := woken c (ws ! s)])"
| nobody: "\<forall>w\<in>set ws. wt_asleep w \<noteq> Some c \<Longrightarrow> notified (Notify_one c) ws ws"
| all: "notified (Notify_all c) ws (map (woken c) ws)"

inductive_cases notified_oneE: "notified (Notify_one c) ws ws'"
inductive_cases notified_allE: "notified (Notify_all c) ws ws'"

record 'a monitor =
  mo_queue :: "'a blocking_queue"
  mo_calls :: "'a queue_call option list"
  mo_waits :: "waiter list"

text \<open>A step of thread \<open>t\<close> inside the monitor: a call done, a call that goes to sleep, a notification.\<close>

inductive acts :: "nat \<Rightarrow> 'a monitor \<Rightarrow> 'a monitor \<Rightarrow> bool" where
  finish: "t < length (mo_waits m) \<Longrightarrow> mo_waits m ! t = awake [] \<Longrightarrow> mo_calls m ! t = Some call \<Longrightarrow>
     attempt call (mo_queue m) = Some (event, q, ns) \<Longrightarrow>
     acts t m (m\<lparr>mo_queue := q, mo_calls := (mo_calls m)[t := None], mo_waits := (mo_waits m)[t := awake ns]\<rparr>)"
| sleep: "t < length (mo_waits m) \<Longrightarrow> mo_waits m ! t = awake [] \<Longrightarrow> mo_calls m ! t = Some call \<Longrightarrow>
     attempt call (mo_queue m) = None \<Longrightarrow>
     acts t m (m\<lparr>mo_waits := (mo_waits m)[t := (awake [])\<lparr>wt_asleep := waits_on call\<rparr>]\<rparr>)"
| notify: "t < length (mo_waits m) \<Longrightarrow> mo_waits m ! t = awake (n # ns) \<Longrightarrow> notified n ((mo_waits m)[t := awake ns]) ws \<Longrightarrow>
     acts t m (m\<lparr>mo_waits := ws\<rparr>)"

inductive monitor_step :: "'a monitor \<Rightarrow> 'a monitor \<Rightarrow> bool" where
  act: "acts t m m' \<Longrightarrow> monitor_step m m'"
| enter: "t < length (mo_waits m) \<Longrightarrow> mo_waits m ! t = awake [] \<Longrightarrow> mo_calls m ! t = None \<Longrightarrow>
     monitor_step m (m\<lparr>mo_calls := (mo_calls m)[t := Some call]\<rparr>)"
| spurious: "t < length (mo_waits m) \<Longrightarrow> wt_asleep (mo_waits m ! t) = Some c \<Longrightarrow>
     monitor_step m (m\<lparr>mo_waits := (mo_waits m)[t := woken c (mo_waits m ! t)]\<rparr>)"

inductive_cases actsE: "acts t m m'"
inductive_cases monitor_stepE: "monitor_step m m'"

definition monitor_start :: "nat \<Rightarrow> nat \<Rightarrow> 'a monitor" where
  "monitor_start capacity n = \<lparr>mo_queue = new_queue capacity, mo_calls = replicate n None, mo_waits = replicate n (awake [])\<rparr>"

subsection \<open>The invariant\<close>

text \<open>What a sleeper on a condition variable could do, and the threads that will do it or wake one that does.\<close>

fun slots :: "condition_variable \<Rightarrow> 'a blocking_queue \<Rightarrow> nat" where
  "slots Not_full q = bq_capacity q - length (bq_queue q)"
| "slots Not_empty q = length (bq_queue q)"

definition helpers :: "condition_variable \<Rightarrow> 'a queue_call option \<times> waiter \<Rightarrow> nat" where
  "helpers c cw = (if Option.bind (fst cw) waits_on = Some c \<and> wt_asleep (snd cw) = None then 1 else 0) +
     count_list (wt_pending (snd cw)) (Notify_one c)"

definition sleepers :: "condition_variable \<Rightarrow> 'a monitor \<Rightarrow> nat set" where
  "sleepers c m = {t. t < length (mo_waits m) \<and> wt_asleep (mo_waits m ! t) = Some c}"

definition alarm :: "condition_variable \<Rightarrow> 'a monitor \<Rightarrow> bool" where
  "alarm c m \<longleftrightarrow> (\<exists>t<length (mo_waits m). Notify_all c \<in> set (wt_pending (mo_waits m ! t)))"

definition helped :: "condition_variable \<Rightarrow> 'a monitor \<Rightarrow> nat" where
  "helped c m = (\<Sum>cw\<leftarrow>zip (mo_calls m) (mo_waits m). helpers c cw)"

definition monitor_inv :: "'a monitor \<Rightarrow> bool" where
  "monitor_inv m \<longleftrightarrow> length (mo_calls m) = length (mo_waits m) \<and> 0 < bq_capacity (mo_queue m) \<and>
     (\<forall>c. \<forall>t\<in>sleepers c m. Option.bind (mo_calls m ! t) waits_on = Some c \<and> wt_pending (mo_waits m ! t) = []) \<and>
     (\<forall>c. sleepers c m \<noteq> {} \<longrightarrow> (if ended (mo_queue m) then alarm c m else slots c (mo_queue m) \<le> helped c m))"

lemma attempt_None: "attempt call q = None \<longleftrightarrow> (\<exists>c. waits_on call = Some c \<and> slots c q = 0 \<and> \<not> ended q)"
  by (cases call) (auto simp: Push_def Pop_def split: list.splits)

text \<open>Progress made for the sleepers is announced.\<close>

lemma attempt_slots:
  assumes "attempt call q = Some (event, q', ns)" "\<not> ended q'"
  shows "\<not> ended q" 
    "slots c q' + (if waits_on call = Some c then 1 else 0) \<le> slots c q + count_list ns (Notify_one c)" "bq_capacity q' = bq_capacity q"
  using assms
  by (cases call; cases c; auto simp: Push_def Pop_def Queue_Close_def Queue_Abort_def Queue_Cancel_def ended_def split: if_splits list.splits)+

lemma attempt_ends:
  assumes "attempt call q = Some (event, q', ns)"
  shows "bq_capacity q' = bq_capacity q" "ended q \<Longrightarrow> ended q'" "ended q' \<Longrightarrow> \<not> ended q \<Longrightarrow> ns = [Notify_all Not_empty, Notify_all Not_full]"
  using assms
  by (cases call; auto simp: Push_def Pop_def Queue_Close_def Queue_Abort_def Queue_Cancel_def ended_def split: if_splits list.splits)+

lemma alarm_update:
  assumes "t < length (mo_waits m)" "mo_waits m' = (mo_waits m)[t := w]"
    and "Notify_all c \<in> set (wt_pending (mo_waits m ! t)) \<Longrightarrow> Notify_all c \<in> set (wt_pending w)" "alarm c m"
  shows "alarm c m'"
proof -
  obtain s where s: "s < length (mo_waits m)" "Notify_all c \<in> set (wt_pending (mo_waits m ! s))"
    using assms(4) unfolding alarm_def by blast
  then have "Notify_all c \<in> set (wt_pending (mo_waits m' ! s))" using assms(1-3) by (cases "s = t") simp_all
  then show ?thesis using s(1) assms(2) by (auto simp: alarm_def)
qed

lemma helped_update:
  assumes "t < length (mo_waits m)" "length (mo_calls m) = length (mo_waits m)"
    and "mo_calls m' = (mo_calls m)[t := call]" "mo_waits m' = (mo_waits m)[t := w]"
  shows "helped c m' + helpers c (mo_calls m ! t, mo_waits m ! t) = helped c m + helpers c (call, w)"
  using sum_list_replace [of t "zip (mo_calls m) (mo_waits m)" "helpers c" "(call, w)"] assms
  by (simp add: helped_def zip_update)

lemma sleepers_update:
  "t < length (mo_waits m) \<Longrightarrow> mo_waits m' = (mo_waits m)[t := w] \<Longrightarrow>
     sleepers c m' = (if wt_asleep w = Some c then insert t (sleepers c m) else sleepers c m - {t})"
  by (auto simp: sleepers_def nth_list_update split: if_splits)

text \<open>One thread changes, and perhaps the queue.\<close>

lemma monitor_inv_update:
  assumes inv: "monitor_inv m" and t: "t < length (mo_waits m)"
    and upd: "mo_calls m' = (mo_calls m)[t := call]" "mo_waits m' = (mo_waits m)[t := w]"
    and queue: "bq_capacity (mo_queue m') = bq_capacity (mo_queue m)"
    and thread: "\<And>c. wt_asleep w = Some c \<Longrightarrow> Option.bind call waits_on = Some c \<and> wt_pending w = []"
    and promise: "\<And>c. sleepers c m' \<noteq> {} \<Longrightarrow> if ended (mo_queue m') then alarm c m'
      else slots c (mo_queue m') + helpers c (mo_calls m ! t, mo_waits m ! t) \<le> helped c m + helpers c (call, w)"
  shows "monitor_inv m'"
proof -
  note i = inv [unfolded monitor_inv_def]
  have "Option.bind (mo_calls m' ! s) waits_on = Some c \<and> wt_pending (mo_waits m' ! s) = []" if "s \<in> sleepers c m'" for c s
  proof (cases "s = t")
    case True
    then have "wt_asleep w = Some c" using that unfolding sleepers_update [OF t upd(2)] by (auto split: if_splits)
    then show ?thesis using thread [of c] t i True by (simp add: upd)
  next
    case False
    then have "s \<in> sleepers c m" using that unfolding sleepers_update [OF t upd(2)] by (auto split: if_splits)
    then show ?thesis using i False by (simp add: upd)
  qed
  moreover have "if ended (mo_queue m') then alarm c m' else slots c (mo_queue m') \<le> helped c m'" if "sleepers c m' \<noteq> {}" for c
    using promise [OF that] helped_update [OF t _ upd, of c] i by (auto split: if_splits)
  ultimately show ?thesis using i upd queue by (simp add: monitor_inv_def)
qed

lemma monitor_inv_start: "monitor_inv (monitor_start capacity n)"
  by (auto simp: monitor_inv_def monitor_start_def new_queue_def sleepers_def awake_def)

lemma monitor_inv_call:
  assumes inv: "monitor_inv m" and t: "t < length (mo_waits m)" "mo_waits m ! t = awake []" "mo_calls m ! t = Some call"
    and call: "attempt call (mo_queue m) = Some (event, q, ns)"
  shows "monitor_inv (m\<lparr>mo_queue := q, mo_calls := (mo_calls m)[t := None], mo_waits := (mo_waits m)[t := awake ns]\<rparr>)"
    (is "monitor_inv ?m")
proof (rule monitor_inv_update [OF inv t(1), where call = None and w = "awake ns"])
  fix c
  assume "sleepers c ?m \<noteq> {}"
  then have was: "sleepers c m \<noteq> {}" using t(1) by (auto simp: sleepers_def awake_def nth_list_update split: if_splits)
  show "if ended (mo_queue ?m) then alarm c ?m
    else slots c (mo_queue ?m) + helpers c (mo_calls m ! t, mo_waits m ! t) \<le> helped c m + helpers c (None, awake ns)"
  proof (cases "ended q")
    case False
    then have "slots c (mo_queue m) \<le> helped c m" using inv was attempt_slots(1) [OF call False] by (auto simp: monitor_inv_def)
    then show ?thesis using attempt_slots(2) [OF call False, of c] False t by (simp add: helpers_def awake_def)
  next
    case True
    show ?thesis
    proof (cases "ended (mo_queue m)")
      case True
      then have "alarm c m" using inv was by (auto simp: monitor_inv_def)
      then have "alarm c ?m" by (rule alarm_update [OF t(1), rotated -1]) (use t(2) in \<open>simp_all add: awake_def\<close>)
      then show ?thesis using \<open>ended q\<close> by simp
    next
      case False
      then have "Notify_all c \<in> set ns" using attempt_ends(3) [OF call True] by (cases c) simp_all
      then have "alarm c ?m" using t(1) unfolding alarm_def by (intro exI [of _ t]) (simp add: awake_def)
      then show ?thesis using True by simp
    qed
  qed
qed (use attempt_ends(1) [OF call] in \<open>simp_all add: awake_def\<close>)

lemma helpers_below:
  assumes "monitor_inv m" "t < length (mo_waits m)"
  shows "helpers c (mo_calls m ! t, mo_waits m ! t) \<le> helped c m"
proof -
  have "t < length (zip (mo_calls m) (mo_waits m))" "zip (mo_calls m) (mo_waits m) ! t = (mo_calls m ! t, mo_waits m ! t)"
    using assms by (simp_all add: monitor_inv_def)
  then have "(mo_calls m ! t, mo_waits m ! t) \<in> set (zip (mo_calls m) (mo_waits m))" by (metis nth_mem)
  then show ?thesis unfolding helped_def by (intro member_le_sum_list) auto
qed

lemma monitor_inv_sleep:
  assumes inv: "monitor_inv m" and t: "t < length (mo_waits m)" "mo_waits m ! t = awake []" "mo_calls m ! t = Some call"
    and call: "attempt call (mo_queue m) = None"
  shows "monitor_inv (m\<lparr>mo_waits := (mo_waits m)[t := (awake [])\<lparr>wt_asleep := waits_on call\<rparr>]\<rparr>)" (is "monitor_inv ?m")
proof (rule monitor_inv_update [OF inv t(1), where call = "Some call" and w = "(awake [])\<lparr>wt_asleep := waits_on call\<rparr>"])
  fix c
  assume some: "sleepers c ?m \<noteq> {}"
  obtain d where d: "waits_on call = Some d" "slots d (mo_queue m) = 0" "\<not> ended (mo_queue m)" using call unfolding attempt_None by blast
  show "if ended (mo_queue ?m) then alarm c ?m
    else slots c (mo_queue ?m) + helpers c (mo_calls m ! t, mo_waits m ! t) \<le> helped c m + helpers c (Some call, (awake [])\<lparr>wt_asleep := waits_on call\<rparr>)"
  proof (cases "c = d")
    case True
    have "helpers c (mo_calls m ! t, mo_waits m ! t) \<le> helped c m" by (rule helpers_below [OF inv t(1)])
    then show ?thesis using True d by simp
  next
    case False
    then have "sleepers c m \<noteq> {}" using some t(1) d(1) by (auto simp: sleepers_def nth_list_update split: if_splits)
    then have "slots c (mo_queue m) \<le> helped c m" using inv d(3) by (auto simp: monitor_inv_def)
    then show ?thesis using False d t by (simp add: helpers_def awake_def)
  qed
qed (use t list_update_id [of "mo_calls m" t] in \<open>simp_all add: awake_def\<close>)

text \<open>A notification.\<close>

lemma woken_simps [simp]: "wt_pending (woken c w) = wt_pending w" "wt_asleep (woken c w) = Some d \<longleftrightarrow> wt_asleep w = Some d \<and> c \<noteq> d"
  by (auto simp: woken_def)

lemma helpers_woken: "helpers c (call, w) \<le> helpers c (call, woken d w)"
  by (simp add: helpers_def woken_def)

lemma helped_map:
  assumes "\<And>call w. (call, w) \<in> set (zip (mo_calls m) (mo_waits m)) \<Longrightarrow> helpers c (call, f w) = helpers c (call, w)"
  shows "helped c (m\<lparr>mo_waits := map f (mo_waits m)\<rparr>) = helped c m"
proof -
  have "map (helpers c) (zip (mo_calls m) (map f (mo_waits m))) = map (helpers c) (zip (mo_calls m) (mo_waits m))"
    using assms by (auto simp: zip_map2)
  then show ?thesis by (simp add: helped_def)
qed

lemma monitor_inv_waits:
  assumes inv: "monitor_inv m" and len: "length ws = length (mo_waits m)"
    and asleep: "\<And>d s. s < length ws \<Longrightarrow> wt_asleep (ws ! s) = Some d \<Longrightarrow> wt_asleep (mo_waits m ! s) = Some d \<and> wt_pending (ws ! s) = []"
    and kept: "\<And>d. sleepers d (m\<lparr>mo_waits := ws\<rparr>) \<noteq> {} \<Longrightarrow>
      helped d m \<le> helped d (m\<lparr>mo_waits := ws\<rparr>) \<and> (alarm d m \<longrightarrow> alarm d (m\<lparr>mo_waits := ws\<rparr>))"
  shows "monitor_inv (m\<lparr>mo_waits := ws\<rparr>)"
proof -
  let ?m = "m\<lparr>mo_waits := ws\<rparr>"
  note i = inv [unfolded monitor_inv_def]
  have sub: "sleepers d ?m \<subseteq> sleepers d m" for d using len asleep [of _ d] by (auto simp: sleepers_def)
  have "Option.bind (mo_calls ?m ! s) waits_on = Some d \<and> wt_pending (mo_waits ?m ! s) = []" if "s \<in> sleepers d ?m" for d s
  proof -
    have "s \<in> sleepers d m" using that sub by blast
    moreover have "wt_pending (mo_waits ?m ! s) = []" using that asleep [of s d] by (simp add: sleepers_def)
    ultimately show ?thesis using i by simp
  qed
  moreover have "if ended (mo_queue ?m) then alarm d ?m else slots d (mo_queue ?m) \<le> helped d ?m" if "sleepers d ?m \<noteq> {}" for d
  proof -
    have "sleepers d m \<noteq> {}" using that sub by blast
    then have "if ended (mo_queue m) then alarm d m else slots d (mo_queue m) \<le> helped d m" using i by blast
    then show ?thesis using kept [OF that] by auto
  qed
  ultimately have "\<forall>d. \<forall>s\<in>sleepers d ?m. Option.bind (mo_calls ?m ! s) waits_on = Some d \<and> wt_pending (mo_waits ?m ! s) = []"
    "\<forall>d. sleepers d ?m \<noteq> {} \<longrightarrow> (if ended (mo_queue ?m) then alarm d ?m else slots d (mo_queue ?m) \<le> helped d ?m)"
    by blast+
  moreover have "length (mo_calls ?m) = length (mo_waits ?m)" "0 < bq_capacity (mo_queue ?m)" using i len by simp_all
  ultimately show ?thesis unfolding monitor_inv_def by blast
qed

lemma monitor_inv_woken:
  assumes inv: "monitor_inv m" and t: "t < length (mo_waits m)"
  shows "monitor_inv (m\<lparr>mo_waits := (mo_waits m)[t := woken c (mo_waits m ! t)]\<rparr>)" (is "monitor_inv ?m")
proof (rule monitor_inv_waits [OF inv])
  fix d s
  let ?ws = "(mo_waits m)[t := woken c (mo_waits m ! t)]"
  assume "s < length ?ws" "wt_asleep (?ws ! s) = Some d"
  then have s: "s < length (mo_waits m)" "wt_asleep (mo_waits m ! s) = Some d" "wt_pending (?ws ! s) = wt_pending (mo_waits m ! s)"
    by (cases "s = t"; simp)+
  moreover from this have "s \<in> sleepers d m" by (simp add: sleepers_def)
  then have "wt_pending (mo_waits m ! s) = []" using inv by (simp add: monitor_inv_def)
  ultimately show "wt_asleep (mo_waits m ! s) = Some d \<and> wt_pending (?ws ! s) = []" by simp
next
  fix d
  have "helped d ?m + helpers d (mo_calls m ! t, mo_waits m ! t) = helped d m + helpers d (mo_calls m ! t, woken c (mo_waits m ! t))"
    by (rule helped_update [OF t]) (use inv in \<open>simp_all add: monitor_inv_def\<close>)
  then have "helped d m \<le> helped d ?m" using helpers_woken [of d "mo_calls m ! t" "mo_waits m ! t" c] by linarith
  moreover have "alarm d m \<Longrightarrow> alarm d ?m" by (rule alarm_update [OF t, of _ "woken c (mo_waits m ! t)"]) simp_all
  ultimately show "helped d m \<le> helped d ?m \<and> (alarm d m \<longrightarrow> alarm d ?m)" by blast
qed simp

text \<open>The thread drops its first notification; when a sleeper is woken, it takes its place among the helpers.\<close>

lemma monitor_inv_notify:
  assumes inv: "monitor_inv m" and t: "t < length (mo_waits m)" "mo_waits m ! t = awake (n # ns)"
    and n: "notified n ((mo_waits m)[t := awake ns]) ws"
  shows "monitor_inv (m\<lparr>mo_waits := ws\<rparr>)"
proof -
  let ?ws = "(mo_waits m)[t := awake ns]"
  let ?n = "m\<lparr>mo_waits := ?ws\<rparr>" and ?m = "m\<lparr>mo_waits := ws\<rparr>"
  have lens: "length (mo_calls m) = length (mo_waits m)" using inv by (simp add: monitor_inv_def)
  have drop: "helped d ?n + count_list [n] (Notify_one d) = helped d m" for d
  proof -
    have "helped d ?n + helpers d (mo_calls m ! t, mo_waits m ! t) = helped d m + helpers d (mo_calls m ! t, awake ns)"
      by (rule helped_update [OF t(1) lens]) simp_all
    then show ?thesis using t(2) by (simp add: helpers_def awake_def split: if_splits)
  qed
  have alarm: "alarm d ?n" if "alarm d m" "n \<noteq> Notify_all d" for d
    by (rule alarm_update [OF t(1), of _ "awake ns"]) (use that t(2) in \<open>auto simp: awake_def\<close>)
  have asleep: "wt_asleep (mo_waits m ! s) = Some d \<and> wt_pending (?ws ! s) = []"
    if "s < length (mo_waits m)" "wt_asleep (?ws ! s) = Some d" for s d
  proof -
    have "s \<noteq> t" using that by (auto simp: awake_def)
    then have "s \<in> sleepers d m" using that by (simp add: sleepers_def)
    then show ?thesis using inv \<open>s \<noteq> t\<close> by (simp add: monitor_inv_def sleepers_def)
  qed
  show ?thesis
    using n
  proof (cases rule: notified.cases)
    case (one s c)
    then have s: "s < length (mo_waits m)" "wt_asleep (?ws ! s) = Some c" by simp_all
    then have "s \<noteq> t" by (auto simp: awake_def)
    then have st: "mo_waits ?n ! s = mo_waits m ! s" "s \<in> sleepers c m" using asleep [OF s] s(1) by (simp_all add: sleepers_def)
    have call: "Option.bind (mo_calls m ! s) waits_on = Some c" using inv st(2) by (simp add: monitor_inv_def)
    show ?thesis
    proof (rule monitor_inv_waits [OF inv])
      fix d
      have "helped d ?m + helpers d (mo_calls ?n ! s, mo_waits ?n ! s) = helped d ?n + helpers d (mo_calls m ! s, woken c (?ws ! s))"
        by (rule helped_update) (use s lens one in simp_all)
      moreover have "helpers d (mo_calls m ! s, woken c (?ws ! s)) = helpers d (mo_calls ?n ! s, mo_waits ?n ! s) + count_list [n] (Notify_one d)"
        using call s(2) one(1) by (simp add: helpers_def woken_def)
      ultimately have "helped d m \<le> helped d ?m" using drop [of d] by linarith
      moreover have "alarm d ?m" if "alarm d m"
        by (rule alarm_update [of s ?n _ "woken c (?ws ! s)", OF _ _ _ alarm]) (use s(1) one that in simp_all)
      ultimately show "helped d m \<le> helped d ?m \<and> (alarm d m \<longrightarrow> alarm d ?m)" by blast
    qed (use one asleep in \<open>auto simp: nth_list_update split: if_splits\<close>)
  next
    case (nobody c)
    show ?thesis
    proof (rule monitor_inv_waits [OF inv])
      fix d
      assume "sleepers d ?m \<noteq> {}"
      then obtain s where "s < length ?ws" "wt_asleep (?ws ! s) = Some d" using nobody(2) by (auto simp: sleepers_def)
      then have "d \<noteq> c" using nobody(3) nth_mem by metis
      then show "helped d m \<le> helped d ?m \<and> (alarm d m \<longrightarrow> alarm d ?m)" using drop [of d] alarm [of d] nobody by simp
    qed (use nobody asleep in auto)
  next
    case (all c)
    show ?thesis
    proof (rule monitor_inv_waits [OF inv])
      fix d
      assume "sleepers d ?m \<noteq> {}"
      then have d: "d \<noteq> c" using all by (auto simp: sleepers_def)
      have "helped d (?n\<lparr>mo_waits := map (woken c) (mo_waits ?n)\<rparr>) = helped d ?n"
      proof (rule helped_map)
        fix call w
        assume "(call, w) \<in> set (zip (mo_calls ?n) (mo_waits ?n))"
        then obtain s where s: "s < length (mo_waits m)" "call = mo_calls m ! s" "w = ?ws ! s" by (auto simp: in_set_zip)
        show "helpers d (call, woken c w) = helpers d (call, w)"
        proof (cases "wt_asleep w = Some c")
          case True
          then have "s \<in> sleepers c m" using asleep [of s c] s by (simp add: sleepers_def)
          then have "Option.bind call waits_on = Some c" using inv s(2) by (simp add: monitor_inv_def)
          then show ?thesis using d by (simp add: helpers_def)
        qed (simp add: woken_def)
      qed
      then have "helped d m = helped d ?m" using drop [of d] all by simp
      moreover have "alarm d ?m" if "alarm d m" using alarm [OF that] d all(1) by (auto simp: alarm_def all(2))
      ultimately show "helped d m \<le> helped d ?m \<and> (alarm d m \<longrightarrow> alarm d ?m)" by simp
    qed (use all asleep in auto)
  qed
qed

lemma acts_inv: "acts t m m' \<Longrightarrow> monitor_inv m \<Longrightarrow> monitor_inv m'"
  by (erule actsE) (simp_all add: monitor_inv_call monitor_inv_sleep monitor_inv_notify)

lemma monitor_step_inv:
  assumes "monitor_step m m'" "monitor_inv m"
  shows "monitor_inv m'"
  using assms
proof cases
  case (enter t call)
  show ?thesis
  proof (rule monitor_inv_update [OF assms(2) enter(2), where call = "Some call" and w = "awake []"])
    fix c
    assume "sleepers c m' \<noteq> {}"
    then have "sleepers c m \<noteq> {}" using enter(1) by (simp add: sleepers_def)
    then have "if ended (mo_queue m) then alarm c m else slots c (mo_queue m) \<le> helped c m" using assms(2) by (auto simp: monitor_inv_def)
    then show "if ended (mo_queue m') then alarm c m'
      else slots c (mo_queue m') + helpers c (mo_calls m ! t, mo_waits m ! t) \<le> helped c m + helpers c (Some call, awake [])"
      using enter by (auto simp: alarm_def helpers_def awake_def)
  qed (use enter list_update_id [of "mo_waits m" t] in \<open>simp_all add: awake_def\<close>)
qed (auto intro: acts_inv monitor_inv_woken)

lemma monitor_reachable:
  assumes "monitor_step\<^sup>*\<^sup>* (monitor_start capacity n) m"
  shows "monitor_inv m \<and> length (mo_waits m) = n"
  using assms
proof (induction rule: rtranclp_induct)
  case base
  then show ?case using monitor_inv_start by (simp add: monitor_start_def)
next
  case (step m m')
  have "length (mo_waits m') = length (mo_waits m)"
    using step.hyps(2) by (auto elim!: monitor_stepE actsE notified.cases)
  then show ?case using step.IH monitor_step_inv [OF step.hyps(2)] by simp
qed

subsection \<open>No wake-up is lost\<close>

text \<open>A thread at rest can only go on when another one does: it is outside the queue, or it sleeps.\<close>

definition at_rest :: "'a monitor \<Rightarrow> nat \<Rightarrow> bool" where
  "at_rest m t \<longleftrightarrow> wt_pending (mo_waits m ! t) = [] \<and> (mo_calls m ! t = None \<or> wt_asleep (mo_waits m ! t) \<noteq> None)"

definition asleep_in :: "'a monitor \<Rightarrow> nat \<Rightarrow> 'a queue_call \<Rightarrow> bool" where
  "asleep_in m t call \<longleftrightarrow> mo_calls m ! t = Some call \<and> wt_asleep (mo_waits m ! t) \<noteq> None"

lemma notified_exists: "\<exists>ws'. notified n ws ws'"
proof (cases n)
  case (Notify_one c)
  show ?thesis
  proof (cases "\<forall>w\<in>set ws. wt_asleep w \<noteq> Some c")
    case True
    then show ?thesis using Notify_one notified.nobody by blast
  next
    case False
    then obtain s where "s < length ws" "wt_asleep (ws ! s) = Some c" by (auto simp: in_set_conv_nth)
    then show ?thesis using Notify_one notified.one by blast
  qed
qed (use notified.all in blast)

text \<open>A thread that is not at rest has a step of its own.\<close>

lemma monitor_progress:
  assumes inv: "monitor_inv m" and t: "t < length (mo_waits m)" "\<not> at_rest m t"
  shows "\<exists>m'. acts t m m'"
proof -
  let ?w = "mo_waits m ! t"
  have awake: "?w = awake (wt_pending ?w)"
  proof (cases "wt_asleep ?w")
    case (Some c)
    then have "t \<in> sleepers c m" using t(1) by (simp add: sleepers_def)
    then have "wt_pending ?w = []" using inv by (simp add: monitor_inv_def)
    then show ?thesis using t(2) Some by (simp add: at_rest_def)
  qed (simp add: awake_def)
  show ?thesis
  proof (cases "wt_pending ?w")
    case Nil
    then obtain call where call: "mo_calls m ! t = Some call" "?w = awake []" using t(2) awake by (auto simp: at_rest_def)
    show ?thesis
    proof (cases "attempt call (mo_queue m)")
      case None
      then show ?thesis using acts.sleep [OF t(1) call(2,1)] by blast
    next
      case (Some r)
      then show ?thesis using acts.finish [OF t(1) call(2,1)] by (cases r) blast
    qed
  next
    case (Cons n ns)
    then show ?thesis using acts.notify [OF t(1)] awake notified_exists by metis
  qed
qed

lemma resting_sleepers:
  assumes inv: "monitor_inv m" and rest: "\<forall>t<length (mo_waits m). at_rest m t"
    and t: "t < length (mo_waits m)" "asleep_in m t call"
  shows "attempt call (mo_queue m) = None"
proof -
  note i = inv [unfolded monitor_inv_def]
  obtain c where c: "t \<in> sleepers c m" using t by (auto simp: asleep_in_def sleepers_def)
  then have "Option.bind (mo_calls m ! t) waits_on = Some c" using i by blast
  then have call: "waits_on call = Some c" using t(2) by (simp add: asleep_in_def)
  have "helpers c cw = 0" if cw: "cw \<in> set (zip (mo_calls m) (mo_waits m))" for cw
  proof -
    obtain s where "s < length (mo_waits m)" "cw = (mo_calls m ! s, mo_waits m ! s)" using cw by (auto simp: set_zip)
    then show ?thesis using rest by (auto simp: helpers_def at_rest_def)
  qed
  then have "helped c m = 0" by (simp add: helped_def)
  moreover have "\<not> alarm c m" using rest by (auto simp: alarm_def at_rest_def)
  moreover have "sleepers c m \<noteq> {}" using c by blast
  ultimately have "\<not> ended (mo_queue m)" "slots c (mo_queue m) = 0" using i by (metis, metis le_zero_eq)
  then show ?thesis using call by (auto simp: attempt_None)
qed

text \<open>C40: No wake-up is lost, whatever the threads call and in whatever order they run, notify and are woken.  A thread that is
  inside the queue and does not sleep can go on; and when every thread is outside or asleep, each sleeping call would
  wait again: a producer sleeps only before a full queue, a consumer only before an empty one, never both kinds, and
  no thread sleeps once the queue is closed, aborted or cancelled.
\<close>

theorem no_lost_wakeup:
  assumes "monitor_step\<^sup>*\<^sup>* (monitor_start capacity n) m"
  shows "(\<forall>t<n. at_rest m t \<or> (\<exists>m'. acts t m m')) \<and>
    ((\<forall>t<n. at_rest m t) \<longrightarrow>
      (\<forall>t<n. \<forall>call. asleep_in m t call \<longrightarrow> attempt call (mo_queue m) = None) \<and>
      \<not> (\<exists>t<n. \<exists>s<n. \<exists>v. asleep_in m t (Call_push v) \<and> asleep_in m s Call_pop) \<and>
      (ended (mo_queue m) \<longrightarrow> (\<forall>t<n. mo_calls m ! t = None)))"
proof -
  have m: "monitor_inv m" "length (mo_waits m) = n" using monitor_reachable [OF assms] by simp_all
  note sleeping = resting_sleepers [OF m(1), unfolded m(2)]
  have both: "\<not> (asleep_in m t (Call_push v) \<and> asleep_in m s Call_pop)" if "\<forall>t<n. at_rest m t" "t < n" "s < n" for t s v
  proof
    assume a: "asleep_in m t (Call_push v) \<and> asleep_in m s Call_pop"
    have "slots Not_full (mo_queue m) = 0" "slots Not_empty (mo_queue m) = 0"
      using sleeping [OF that(1,2) conjunct1 [OF a]] sleeping [OF that(1,3) conjunct2 [OF a]]
      unfolding attempt_None waits_on.simps by auto
    then show False using m(1) by (simp add: monitor_inv_def)
  qed
  have over: "mo_calls m ! t = None" if rest: "\<forall>t<n. at_rest m t" "t < n" and "ended (mo_queue m)" for t
  proof (rule ccontr)
    assume "mo_calls m ! t \<noteq> None"
    then obtain call where "asleep_in m t call" using rest by (auto simp: at_rest_def asleep_in_def)
    then show False using sleeping [OF rest] \<open>ended (mo_queue m)\<close> by (auto simp: attempt_None)
  qed
  show ?thesis using monitor_progress [OF m(1)] m(2) sleeping both over by blast
qed

end
