(* ===== verification/Aggregate_Examples.thy ===== *)
theory Aggregate_Examples
  imports Aggregate_Exact Operator_Examples Queue_Monitor
begin

text \<open>The theorems on aggregation and on the queue applied to concrete inputs.\<close>

definition example_groups :: "exec_expr list" where
  "example_groups = [ExecLiteral (EV_string ''a'') DT_VARCHAR]"

definition example_calls :: "agg_call list" where
  "example_calls = [\<lparr>ac_type = AGG_COUNT, ac_arg = None, ac_result_type = DT_INT64\<rparr>,
     \<lparr>ac_type = AGG_SUM, ac_arg = Some (ExecLiteral (EV_int32 7) DT_INT32), ac_result_type = DT_DOUBLE\<rparr>]"

definition example_outputs :: "aggregate_output list" where
  "example_outputs = [\<lparr>ao_kind = GROUP_KEY, ao_index = 0, ao_type = DT_VARCHAR, ao_name = ''k''\<rparr>,
     \<lparr>ao_kind = AGGREGATE, ao_index = 0, ao_type = DT_INT64, ao_name = ''n''\<rparr>,
     \<lparr>ao_kind = AGGREGATE, ao_index = 1, ao_type = DT_DOUBLE, ao_name = ''s''\<rparr>]"

lemmas example_defs = example_groups_def example_calls_def example_outputs_def

lemma example_keyed: "keyed_row types example_groups example_calls row = ([EV_string ''a''], [0, 7])"
  by (simp add: keyed_row_def row_group_key_def row_number_def example_defs row_eval_def)

lemma example_aggregable: "aggregable types example_groups example_calls [row]"
  by (simp add: aggregable_def row_aggregable_def example_keyed keyed_ok_def)
    (simp add: example_defs row_eval_def call_typed_def exact_value_def numbers_ok_def in_type_def arg_type_def exec_int_def row_number_def
      less_Suc_eq numeral_2_eq_2 int_width_def)

lemma example_result:
  "result_keys types example_groups [row] = {[EV_string ''a'']}"
  "result_value types example_groups example_calls [row] [EV_string ''a''] (example_outputs ! 0) = EV_string ''a''"
  "result_value types example_groups example_calls [row] [EV_string ''a''] (example_outputs ! 1) = EV_int64 1"
  "result_value types example_groups example_calls [row] [EV_string ''a''] (example_outputs ! 2) = EV_double (f64_of_int 7)"
  by (simp_all add: result_keys_def result_value_def row_group_key_def row_number_def example_defs row_eval_def answer_def exec_int_def)

lemma example_bytes:
  "output_bytes DT_VARCHAR (EV_string ''a'') = Inr (le_bytes 4 (1 :: u32) @ [byte_of_char (CHR ''a'')] @ replicate 59 0)"
  "output_bytes DT_INT64 (EV_int64 1) = Inr (le_bytes 8 (1 :: i64))"
  "output_bytes DT_DOUBLE (EV_double w) = Inr (le_bytes 8 (f64_of_f80 (f80_of_f64 w)))"
  using is_int80_trunc [OF is_int80_of_int [of 1], of "2 ^ 63"] by (simp_all add: output_bytes_def a_slot del: append.simps)

definition example_row :: "bytes list" where
  "example_row = [le_bytes 4 (1 :: u32) @ [byte_of_char (CHR ''a'')] @ replicate 59 0, le_bytes 8 (1 :: i64),
     le_bytes 8 (f64_of_f80 (f80_of_f64 (f64_of_int 7)))]"

lemma example_outputs_ok: "outputs_ok types example_groups example_calls example_outputs [row]"
  using example_result [of types row] example_bytes
  by (simp add: outputs_ok_def) (simp add: example_outputs_def example_groups_def example_calls_def)

lemma example_answer: "aggregate_answer types example_groups example_calls example_outputs [row] = {#example_row#}"
  using example_result [of types row]
  by (simp add: aggregate_answer_def result_row_def)
    (simp add: example_outputs_def example_bytes example_row_def cell_or_nil_def)

theorem aggregate_pipeline_exact_witness:
  "\<exists>op bs. SeqScan_Init operator_db (new_seq_scan 0 double_options None) = Inr (op, operator_db) \<and>
     drain_batches (HashAggregate_Next rev (Filter_Next SeqScan_Next (CompileVectorPredicate operator_condition)))
       (new_hash_aggregate example_groups example_calls example_outputs op) = Some (Inr bs) \<and>
     mset (concat (map active_rows bs)) = {#example_row#}"
  using aggregate_pipeline_exact [where order = rev and groups = example_groups and calls = example_calls and outputs = example_outputs,
      OF operator_db_table operator_table_fits operator_selected refl]
  unfolding written_selected operator_types operator_filtered
  by (simp only: example_aggregable example_outputs_ok example_answer mset_rev simp_thms)

theorem queue_bounded_fifo_witness:
  "\<exists>q. queue_run [Accepted 1, Accepted 2, Handed 1] (new_queue 2) q \<and> length (bq_queue q) \<le> max 1 2 \<and> [1, 2 :: nat] = [1] @ bq_queue q"
proof -
  define q1 where "q1 = (new_queue 2)\<lparr>bq_queue := [1 :: nat]\<rparr>"
  have "queue_run ([] @ [Accepted 1]) (new_queue 2) q1"
    by (rule queue_run.step [OF queue_run.start]) (simp add: queue_step.accept q1_def new_queue_def Push_def ended_def)
  then have "queue_run (([] @ [Accepted 1]) @ [Accepted 2]) (new_queue 2) (q1\<lparr>bq_queue := [1, 2]\<rparr>)"
    by (rule queue_run.step) (simp add: queue_step.accept q1_def new_queue_def Push_def ended_def)
  then have "queue_run ((([] @ [Accepted 1]) @ [Accepted 2]) @ [Handed 1]) (new_queue 2) (q1\<lparr>bq_queue := [2]\<rparr>)"
    by (rule queue_run.step) (simp add: queue_step.hand q1_def new_queue_def Pop_def ended_def)
  from this [simplified] queue_bounded_fifo [OF this [simplified]] show ?thesis
    by (intro exI [of _ "q1\<lparr>bq_queue := [2]\<rparr>"]) (simp add: accepted_def handed_def)
qed

text \<open>A thread that has put an element into a queue of capacity one sleeps when it tries to put in another.\<close>

theorem no_lost_wakeup_witness:
  "\<exists>m. monitor_step\<^sup>*\<^sup>* (monitor_start 1 1) m \<and> asleep_in m 0 (Call_push (2 :: nat)) \<and> attempt (Call_push 2) (mo_queue m) = None"
proof -
  define m where "m q call w = \<lparr>mo_queue = (new_queue 1)\<lparr>bq_queue := q\<rparr>, mo_calls = [call], mo_waits = [w]\<rparr>"
    for q :: "nat list" and call w
  note defs = m_def new_queue_def awake_def Push_def ended_def
  have "monitor_step\<^sup>*\<^sup>* (monitor_start 1 1) (m [] None (awake []))" by (simp add: monitor_start_def defs)
  moreover have "monitor_step (m [] None (awake [])) (m [] (Some (Call_push 1)) (awake []))"
    using monitor_step.enter [of 0 "m [] None (awake [])" "Call_push 1"] by (simp add: defs)
  moreover have "monitor_step (m [] (Some (Call_push 1)) (awake [])) (m [1] None (awake [Notify_one Not_empty]))"
    using monitor_step.act [OF acts.finish [of 0 "m [] (Some (Call_push 1)) (awake [])" "Call_push 1"]] by (simp add: defs)
  moreover have "monitor_step (m [1] None (awake [Notify_one Not_empty])) (m [1] None (awake []))"
    using monitor_step.act [OF acts.notify [of 0 "m [1] None (awake [Notify_one Not_empty])" "Notify_one Not_empty" "[]" "[awake []]"]] notified.nobody [of "[awake []]" Not_empty]
    by (simp add: defs)
  moreover have "monitor_step (m [1] None (awake [])) (m [1] (Some (Call_push 2)) (awake []))"
    using monitor_step.enter [of 0 "m [1] None (awake [])" "Call_push 2"] by (simp add: defs)
  moreover have "monitor_step (m [1] (Some (Call_push 2)) (awake [])) (m [1] (Some (Call_push 2)) ((awake [])\<lparr>wt_asleep := Some Not_full\<rparr>))"
    using monitor_step.act [OF acts.sleep [of 0 "m [1] (Some (Call_push 2)) (awake [])" "Call_push 2"]] by (simp add: defs)
  ultimately have run: "monitor_step\<^sup>*\<^sup>* (monitor_start 1 1) (m [1] (Some (Call_push 2)) ((awake [])\<lparr>wt_asleep := Some Not_full\<rparr>))"
    by (meson rtranclp.rtrancl_into_rtrancl)
  moreover have "asleep_in (m [1] (Some (Call_push 2)) ((awake [])\<lparr>wt_asleep := Some Not_full\<rparr>)) 0 (Call_push 2)"
    "at_rest (m [1] (Some (Call_push 2)) ((awake [])\<lparr>wt_asleep := Some Not_full\<rparr>)) 0"
    by (simp_all add: asleep_in_def at_rest_def m_def awake_def)
  ultimately show ?thesis using no_lost_wakeup [OF run] by (metis less_one)
qed

end
