(* ===== verification/Executor_Builder.thy ===== *)
theory Executor_Builder
  imports Hash_Aggregate Physical_Plan
begin

text \<open>
  \<^verbatim>\<open>src/src/execution/executor_builder.{h,cpp}\<close>: from physical plans to operator trees.  A tree is a
  datatype; its \<open>Init\<close> makes a state and its \<open>Next\<close> is that of its root over those of its children.
\<close>

subsection \<open>Operator trees\<close>

datatype operator =
    SeqScanOperator table_id scan_options "parallel_global option"
  | IndexScanOperator table_id key_id "scalar_value list" "column_id list" "condition list"
  | FilterOperator operator exec_expr
  | ProjectionOperator operator "exec_expr list"
  | HashAggregateOperator operator "exec_expr list" "agg_call list" "aggregate_output list"

text \<open>Filters and projections keep nothing between two calls.\<close>

datatype op_state =
    Seq_state seq_scan
  | Index_state index_scan
  | Aggregate_state op_state aggregate_state bool

definition new_index_scan :: "table_id \<Rightarrow> key_id \<Rightarrow> scalar_value list \<Rightarrow> column_id list \<Rightarrow> condition list \<Rightarrow> index_scan" where
  "new_index_scan i key values columns residual = \<lparr>ix_table_id = i, ix_key_id = key, ix_lookup_values = values, ix_columns = columns,
     ix_residual = residual, ix_table = None, ix_groups = [], ix_next_group = 0, ix_next_offset = 0, ix_prepared = None\<rparr>"

primrec Operator_Init :: "database \<Rightarrow> operator \<Rightarrow> (op_state \<times> database) result" where
  "Operator_Init db (SeqScanOperator i options g) =
     bind_r (SeqScan_Init db (new_seq_scan i options g)) (\<lambda>(op, db). Inr (Seq_state op, db))"
| "Operator_Init db (IndexScanOperator i key values columns residual) =
     bind_r (IndexScan_Init db (new_index_scan i key values columns residual)) (\<lambda>(op, db). Inr (Index_state op, db))"
| "Operator_Init db (FilterOperator child e) = Operator_Init db child"
| "Operator_Init db (ProjectionOperator child es) = Operator_Init db child"
| "Operator_Init db (HashAggregateOperator child groups calls outputs) =
     bind_r (Operator_Init db child) (\<lambda>(s, db). Inr (Aggregate_state s (new_aggregate_state groups calls outputs) False, db))"

text \<open>The operator of a leaf on the states of trees.\<close>

definition lift_next :: "('a \<Rightarrow> 's) \<Rightarrow> ('s \<Rightarrow> 'a option) \<Rightarrow> 'a operator_next \<Rightarrow> 's operator_next" where
  "lift_next into out nxt s =
     (case out s of
        None \<Rightarrow> Some (Inl Undefined_behaviour)
      | Some a \<Rightarrow> Option.bind (nxt a) (\<lambda>r. Some (bind_r r (\<lambda>(batch, a). Inr (batch, into a)))))"

definition seq_of :: "op_state \<Rightarrow> seq_scan option" where
  "seq_of s = (case s of Seq_state op \<Rightarrow> Some op | _ \<Rightarrow> None)"

definition index_of :: "op_state \<Rightarrow> index_scan option" where
  "index_of s = (case s of Index_state op \<Rightarrow> Some op | _ \<Rightarrow> None)"

definition aggregate_of :: "op_state \<Rightarrow> op_state hash_aggregate option" where
  "aggregate_of s = (case s of Aggregate_state child st consumed \<Rightarrow> Some \<lparr>hg_child = child, hg_state = st, hg_consumed = consumed\<rparr> | _ \<Rightarrow> None)"

primrec Operator_Next :: "(group_table \<Rightarrow> group_table) \<Rightarrow> operator \<Rightarrow> op_state operator_next" where
  "Operator_Next order (SeqScanOperator i options g) = lift_next Seq_state seq_of SeqScan_Next"
| "Operator_Next order (IndexScanOperator i key values columns residual) = lift_next Index_state index_of IndexScan_Next"
| "Operator_Next order (FilterOperator child e) = Filter_Next (Operator_Next order child) (CompileVectorPredicate e)"
| "Operator_Next order (ProjectionOperator child es) = Projection_Next (Operator_Next order child) (Projection_Init es)"
| "Operator_Next order (HashAggregateOperator child groups calls outputs) =
     lift_next (\<lambda>op. Aggregate_state (hg_child op) (hg_state op) (hg_consumed op)) aggregate_of
       (HashAggregate_Next order (Operator_Next order child))"

subsection \<open>Scans\<close>

definition cond_of_literal :: "literal \<Rightarrow> cond_value" where
  "cond_of_literal v = (case v of Lit_int i \<Rightarrow> CV_int32 i | Lit_double d \<Rightarrow> CV_double d | Lit_string s \<Rightarrow> CV_string s)"

definition scalar_of_literal :: "literal \<Rightarrow> scalar_value" where
  "scalar_of_literal v = (case v of Lit_int i \<Rightarrow> SV_int32 i | Lit_double d \<Rightarrow> SV_double d | Lit_string s \<Rightarrow> SV_string s)"

definition condition_of :: "simple_predicate \<Rightarrow> condition" where
  "condition_of p = \<lparr>cond_column = sp_column_index p, cond_op = sp_op p, cond_value = cond_of_literal (sp_value p)\<rparr>"

text \<open>The columns to read, the first one when the query needs none.\<close>

definition scan_columns :: "table_schema \<Rightarrow> u32 list \<Rightarrow> column_id list result" where
  "scan_columns s columns =
     (if columns \<noteq> [] then Inr columns
      else case ts_columns s of
        [] \<Rightarrow> Inl (Runtime_error ''ExecutorBuilder: table has no columns'')
      | c # _ \<Rightarrow> Inr [cs_column_id c])"

definition scan_slot :: "string \<Rightarrow> table_id \<Rightarrow> table_schema \<Rightarrow> column_id \<Rightarrow> exec_slot result" where
  "scan_slot missing oid s cid =
     (case FindColumnSchema s cid of
        None \<Rightarrow> Inl (Runtime_error missing)
      | Some c \<Rightarrow> Inr \<lparr>es_type = cs_type c, es_source = Some \<lparr>cbi_table_oid = oid, cbi_column_idx = cid\<rparr>, es_name = cs_name c\<rparr>)"

record built_scan_spec =
  bs_table_id :: table_id
  bs_options :: scan_options
  bs_output_schema :: exec_schema

definition BuildScanSpec :: "catalog \<Rightarrow> u32 \<Rightarrow> u32 list \<Rightarrow> simple_predicate list \<Rightarrow> built_scan_spec result" where
  "BuildScanSpec cat oid columns predicates =
     (case GetTableById oid cat of
        None \<Rightarrow> Inl (Runtime_error ''ExecutorBuilder: scan table not found'')
      | Some e \<Rightarrow>
          bind_r (scan_columns (te_schema e) columns) (\<lambda>cols.
          bind_r (map_r (scan_slot ''ExecutorBuilder: scan column not found in table schema'' oid (te_schema e)) cols) (\<lambda>slots.
            Inr \<lparr>bs_table_id = oid,
                 bs_options = \<lparr>so_start_row = 0, so_end_row = - 1, so_columns = cols, so_predicates = map condition_of predicates\<rparr>,
                 bs_output_schema = slots\<rparr>)))"

definition BuildSeqScan ::
  "catalog \<Rightarrow> parallel_global option \<Rightarrow> u32 \<Rightarrow> u32 list \<Rightarrow> simple_predicate list \<Rightarrow> (operator \<times> exec_schema) result" where
  "BuildSeqScan cat g oid columns predicates =
     bind_r (BuildScanSpec cat oid columns predicates) (\<lambda>spec.
       Inr (SeqScanOperator (bs_table_id spec) (bs_options spec) g, bs_output_schema spec))"

definition Build_IndexScan ::
  "catalog \<Rightarrow> u32 \<Rightarrow> key_id \<Rightarrow> literal list \<Rightarrow> u32 list \<Rightarrow> simple_predicate list \<Rightarrow> (operator \<times> exec_schema) result" where
  "Build_IndexScan cat oid key values columns residual =
     (case GetTableById oid cat of
        None \<Rightarrow> Inl (Runtime_error ''ExecutorBuilder: index scan table not found'')
      | Some e \<Rightarrow>
          bind_r (scan_columns (te_schema e) columns) (\<lambda>cols.
          bind_r (map_r (scan_slot ''ExecutorBuilder: index scan column not found in table schema'' oid (te_schema e)) cols) (\<lambda>slots.
            Inr (IndexScanOperator oid key (map scalar_of_literal values) cols (map condition_of residual), slots))))"

subsection \<open>Aggregates\<close>

definition PlanExprEquivalent :: "plan_expr \<Rightarrow> plan_expr \<Rightarrow> bool" where
  "PlanExprEquivalent l r \<longleftrightarrow> GetReturnType l = GetReturnType r \<and> PlanExpr_ToString l = PlanExpr_ToString r"

definition DirectBinding :: "plan_expr \<Rightarrow> column_binding option" where
  "DirectBinding e = (case e of PlanColumnRef oid i _ \<Rightarrow> Some \<lparr>cbi_table_oid = oid, cbi_column_idx = i\<rparr> | _ \<Rightarrow> None)"

fun FindGroupIndex :: "plan_expr \<Rightarrow> plan_expr list \<Rightarrow> nat option" where
  "FindGroupIndex e [] = None"
| "FindGroupIndex e (g # gs) = (if PlanExprEquivalent e g then Some 0 else map_option Suc (FindGroupIndex e gs))"

record built_aggregate_spec =
  ba_group_exprs :: "exec_expr list"
  ba_agg_calls :: "agg_call list"
  ba_outputs :: "aggregate_output list"
  ba_output_schema :: exec_schema

text \<open>One output column: its call is added at the end, or its key is found.\<close>

definition add_output :: "plan_expr list \<Rightarrow> exec_schema \<Rightarrow> named_plan_expr \<Rightarrow> built_aggregate_spec \<Rightarrow> built_aggregate_spec result" where
  "add_output group_by child_schema output spec =
     (let e = ne_expr output; ty = GetReturnType e;
          add = (\<lambda>kind i source spec. spec\<lparr>
            ba_outputs := ba_outputs spec @ [\<lparr>ao_kind = kind, ao_index = i, ao_type = ty, ao_name = ne_alias output\<rparr>],
            ba_output_schema := ba_output_schema spec @ [\<lparr>es_type = ty, es_source = source, es_name = ne_alias output\<rparr>]\<rparr>) in
      case e of
        PlanAgg g arg result_type \<Rightarrow>
          bind_r (case arg of None \<Rightarrow> Inr None | Some a \<Rightarrow> bind_r (CompileExecExpr child_schema a) (\<lambda>a. Inr (Some a))) (\<lambda>arg.
            Inr (add AGGREGATE (length (ba_agg_calls spec)) None
              (spec\<lparr>ba_agg_calls := ba_agg_calls spec @ [\<lparr>ac_type = g, ac_arg = arg, ac_result_type = result_type\<rparr>]\<rparr>)))
      | _ \<Rightarrow>
          (case FindGroupIndex e group_by of
             None \<Rightarrow> Inl (Runtime_error ''ExecutorBuilder: non-aggregate output must match a GROUP BY expression'')
           | Some i \<Rightarrow> Inr (add GROUP_KEY i (DirectBinding e) spec)))"

definition BuildAggregateSpec :: "plan_expr list \<Rightarrow> named_plan_expr list \<Rightarrow> exec_schema \<Rightarrow> built_aggregate_spec result" where
  "BuildAggregateSpec group_by outputs child_schema =
     bind_r (map_r (CompileExecExpr child_schema) group_by) (\<lambda>groups.
       fold_r (add_output group_by child_schema) outputs
         \<lparr>ba_group_exprs = groups, ba_agg_calls = [], ba_outputs = [], ba_output_schema = []\<rparr>)"

subsection \<open>Trees\<close>

definition project_slot :: "named_plan_expr \<Rightarrow> exec_slot" where
  "project_slot output = \<lparr>es_type = GetReturnType (ne_expr output), es_source = DirectBinding (ne_expr output), es_name = ne_alias output\<rparr>"

text \<open>The nodes over the executor built for their child.\<close>

definition BuildFilter :: "plan_expr \<Rightarrow> operator \<times> exec_schema \<Rightarrow> (operator \<times> exec_schema) result" where
  "BuildFilter p child = bind_r (CompileExecExpr (snd child) p) (\<lambda>e. Inr (FilterOperator (fst child) e, snd child))"

definition BuildProject :: "named_plan_expr list \<Rightarrow> operator \<times> exec_schema \<Rightarrow> (operator \<times> exec_schema) result" where
  "BuildProject outputs child =
     bind_r (map_r (\<lambda>output. CompileExecExpr (snd child) (ne_expr output)) outputs) (\<lambda>es.
       Inr (ProjectionOperator (fst child) es, map project_slot outputs))"

definition BuildHashAggregate ::
  "plan_expr list \<Rightarrow> named_plan_expr list \<Rightarrow> operator \<times> exec_schema \<Rightarrow> (operator \<times> exec_schema) result" where
  "BuildHashAggregate group_by outputs child =
     bind_r (BuildAggregateSpec group_by outputs (snd child)) (\<lambda>spec.
       Inr (HashAggregateOperator (fst child) (ba_group_exprs spec) (ba_agg_calls spec) (ba_outputs spec), ba_output_schema spec))"

fun BuildNode :: "catalog \<Rightarrow> parallel_global option \<Rightarrow> physical_plan \<Rightarrow> (operator \<times> exec_schema) result" where
  "BuildNode cat g (PhysicalSeqScan oid columns predicates) = BuildSeqScan cat g oid columns predicates"
| "BuildNode cat g (PhysicalIndexScan oid key values columns residual) = Build_IndexScan cat oid key values columns residual"
| "BuildNode cat g (PhysicalFilter p child) = bind_r (BuildNode cat g child) (BuildFilter p)"
| "BuildNode cat g (PhysicalProject outputs child) = bind_r (BuildNode cat g child) (BuildProject outputs)"
| "BuildNode cat g (PhysicalHashAggregate group_by outputs child) = bind_r (BuildNode cat g child) (BuildHashAggregate group_by outputs)"
| "BuildNode cat g (PhysicalInsert oid targets rows) =
     Inl (Runtime_error ''ExecutorBuilder: command plan is not a streaming operator tree'')"
| "BuildNode cat g (PhysicalCreateTable name s) =
     Inl (Runtime_error ''ExecutorBuilder: command plan is not a streaming operator tree'')"

end
