(* ===== verification/Pipeline.thy ===== *)
theory Pipeline
  imports Executor_Builder Aggregate_Exact
begin

text \<open>
  Chains of filters and projections over a sequential scan, the plans that the parallel executor accepts.  Their nested pull
  loops are one loop that sends every batch of the scan through the whole chain, and what the chain does
  to a batch is a function of its rows.
\<close>

subsection \<open>One loop for a chain\<close>

text \<open>The loop of an operator that turns the batches of its child by \<open>f\<close>, which may drop one.\<close>

partial_function (option) pull_loop :: "'s operator_next \<Rightarrow> (vector_batch \<Rightarrow> vector_batch option result) \<Rightarrow> 's operator_next" where
  "pull_loop child f s =
     Option.bind (child s) (\<lambda>r.
       case r of
         Inl e \<Rightarrow> Some (Inl e)
       | Inr (None, s) \<Rightarrow> Some (Inr (None, s))
       | Inr (Some b, s) \<Rightarrow>
           (case f b of
              Inl e \<Rightarrow> Some (Inl e)
            | Inr None \<Rightarrow> pull_loop child f s
            | Inr (Some b') \<Rightarrow> Some (Inr (Some b', s))))"

definition filter_batch :: "vector_predicate \<Rightarrow> vector_batch \<Rightarrow> vector_batch option result" where
  "filter_batch p b =
     (if PhysicalSize b = 0 then Inr None
      else bind_r (Vector_Predicate.Evaluate p b (PhysicalSize b) (vb_selection b)) (\<lambda>m.
        Inr (if Mask_Empty m then None
             else Some (if IsAll m then SetIdentitySelection (PhysicalSize b) b else SetSelection m b))))"

definition project_batch :: "projection \<Rightarrow> vector_batch \<Rightarrow> vector_batch option result" where
  "project_batch pj b = (if vb_size b = 0 then Inr None else bind_r (produce pj b) (\<lambda>out. Inr (Some out)))"

definition then_batch ::
  "(vector_batch \<Rightarrow> vector_batch option result) \<Rightarrow> (vector_batch \<Rightarrow> vector_batch option result) \<Rightarrow> vector_batch \<Rightarrow> vector_batch option result" where
  "then_batch f g b = bind_r (f b) (\<lambda>r. case r of None \<Rightarrow> Inr None | Some b \<Rightarrow> g b)"

lemma option_eqI: "(\<And>y. x = Some y \<Longrightarrow> z = Some y) \<Longrightarrow> (\<And>y. z = Some y \<Longrightarrow> x = Some y) \<Longrightarrow> x = z"
  by (cases x; cases z) auto

lemmas pull_loop_induct = pull_loop.raw_induct [rotated, consumes 1, case_names step]
lemmas Filter_Next_induct = Filter_Next.raw_induct [rotated, consumes 1, case_names step]
lemmas Projection_Next_induct = Projection_Next.raw_induct [rotated, consumes 1, case_names step]

lemma call_cases:
  obtains (stuck) "child s = None" | (error) e where "child s = Some (Inl e)" | (ended) s' where "child s = Some (Inr (None, s'))"
    | (batch) b s' where "child s = Some (Inr (Some b, s'))"
  by (cases "child s") (auto, metis option.exhaust old.sum.exhaust surj_pair)

lemmas loop_splits = sum.splits option.splits if_splits

lemma filter_pull: "Filter_Next child p = pull_loop child (filter_batch p)"
proof (rule ext, rule option_eqI)
  fix s y
  show "pull_loop child (filter_batch p) s = Some y" if "Filter_Next child p s = Some y"
    using that
  proof (induction rule: Filter_Next_induct)
    case (step rec child p s y)
    show ?case
    proof (cases child s rule: call_cases)
      case (batch b s')
      then show ?thesis using step.hyps step.IH [of child p s' y]
        by (subst pull_loop.simps, cases "Vector_Predicate.Evaluate p b (PhysicalSize b) (vb_selection b)")
          (auto simp: filter_batch_def [of _ b] split: if_splits)
    qed (use step.hyps in \<open>auto simp: pull_loop.simps [of child]\<close>)
  qed
  have "\<forall>p. f = filter_batch p \<longrightarrow> Filter_Next child p s = Some y" if "pull_loop child f s = Some y" for f
    using that
  proof (induction rule: pull_loop_induct)
    case (step rec child f s y)
    show ?case
    proof (cases child s rule: call_cases)
      case (batch b s')
      then show ?thesis using step.hyps step.IH [of child f s' y]
        by (subst Filter_Next.simps) (auto simp: filter_batch_def [of _ b] bind_r_def split: loop_splits)
    qed (use step.hyps in \<open>auto simp: Filter_Next.simps [of child]\<close>)
  qed
  then show "Filter_Next child p s = Some y" if "pull_loop child (filter_batch p) s = Some y" using that by blast
qed

lemma project_pull: "Projection_Next child pj = pull_loop child (project_batch pj)"
proof (rule ext, rule option_eqI)
  fix s y
  show "pull_loop child (project_batch pj) s = Some y" if "Projection_Next child pj s = Some y"
    using that
  proof (induction rule: Projection_Next_induct)
    case (step rec child pj s y)
    show ?case
    proof (cases child s rule: call_cases)
      case (batch b s')
      then show ?thesis using step.hyps step.IH [of child pj s' y]
        by (subst pull_loop.simps, cases "produce pj b") (auto simp: project_batch_def [of _ b] split: if_splits)
    qed (use step.hyps in \<open>auto simp: pull_loop.simps [of child]\<close>)
  qed
  have "\<forall>pj. f = project_batch pj \<longrightarrow> Projection_Next child pj s = Some y" if "pull_loop child f s = Some y" for f
    using that
  proof (induction rule: pull_loop_induct)
    case (step rec child f s y)
    show ?case
    proof (cases child s rule: call_cases)
      case (batch b s')
      then show ?thesis using step.hyps step.IH [of child f s' y]
        by (subst Projection_Next.simps) (auto simp: project_batch_def [of _ b] bind_r_def split: loop_splits)
    qed (use step.hyps in \<open>auto simp: Projection_Next.simps [of child]\<close>)
  qed
  then show "Projection_Next child pj s = Some y" if "pull_loop child (project_batch pj) s = Some y" using that by blast
qed

lemma pull_all: "pull_loop child (\<lambda>b. Inr (Some b)) = child"
proof (rule ext)
  show "pull_loop child (\<lambda>b. Inr (Some b)) s = child s" for s
    by (cases child s rule: call_cases) (simp_all add: pull_loop.simps [of child])
qed

text \<open>What the outer loop makes of one result of the inner one.\<close>

definition pull_result ::
  "'s operator_next \<Rightarrow> (vector_batch \<Rightarrow> vector_batch option result) \<Rightarrow> 's operator_next \<Rightarrow>
   (vector_batch option \<times> 's) result \<Rightarrow> (vector_batch option \<times> 's) result option" where
  "pull_result child f again r =
     (case r of
        Inl e \<Rightarrow> Some (Inl e)
      | Inr (None, s) \<Rightarrow> Some (Inr (None, s))
      | Inr (Some b, s) \<Rightarrow> (case f b of Inl e \<Rightarrow> Some (Inl e) | Inr None \<Rightarrow> again s | Inr (Some b') \<Rightarrow> Some (Inr (Some b', s))))"

lemma pull_loop_result: "pull_loop child f s = Option.bind (child s) (pull_result child f (pull_loop child f))"
  by (subst pull_loop.simps) (simp add: pull_result_def [abs_def])

lemma pull_inner:
  assumes "pull_loop child f s = Some r"
  shows "pull_loop child (then_batch f g) s = pull_result child g (pull_loop child (then_batch f g)) r"
  using assms
proof (induction rule: pull_loop_induct)
  case (step rec child f s y)
  show ?case
  proof (cases child s rule: call_cases)
    case (batch b s')
    then show ?thesis using step.hyps step.IH [of child f s' y]
      by (subst pull_loop.simps) (auto simp: then_batch_def [of _ _ b] bind_r_def pull_result_def split: loop_splits)
  qed (use step.hyps in \<open>auto simp: pull_loop.simps [of child] pull_result_def\<close>)
qed

lemma pull_then:
  fixes child :: "'s operator_next"
  shows "pull_loop (pull_loop child f) g = pull_loop child (then_batch f g)"
proof (rule ext, rule option_eqI)
  fix s :: 's and y
  have "\<forall>child. inner = pull_loop child f \<longrightarrow> pull_loop child (then_batch f g) s = Some y" if "pull_loop inner g s = Some y" for inner
    using that
  proof (induction rule: pull_loop_induct)
    case (step rec inner g s y)
    show ?case
    proof (intro allI impI)
      fix child assume inner: "inner = pull_loop child f"
      show "pull_loop child (then_batch f g) s = Some y"
      proof (cases inner s rule: call_cases)
        case (batch b s')
        then show ?thesis using step.hyps step.IH [of inner g s' y] pull_inner [of child f s "Inr (Some b, s')" g]
          by (auto simp: inner pull_result_def split: loop_splits)
      qed (use step.hyps pull_inner [of child f s _ g] in \<open>auto simp: inner pull_result_def\<close>)
    qed
  qed
  then show "pull_loop child (then_batch f g) s = Some y" if "pull_loop (pull_loop child f) g s = Some y" using that by blast
  have "\<forall>f g. h = then_batch f g \<longrightarrow> pull_loop (pull_loop child f) g s = Some y" if "pull_loop child h s = Some y" for h
    using that
  proof (induction rule: pull_loop_induct)
    case (step rec child h s y)
    show ?case
    proof (intro allI impI)
      fix f g assume h: "h = then_batch f g"
      have once: "pull_loop (pull_loop child f) g s = Option.bind (pull_loop child f s) (pull_result (pull_loop child f) g (pull_loop (pull_loop child f) g))" for s
        by (rule pull_loop_result)
      show "pull_loop (pull_loop child f) g s = Some y"
      proof (cases child s rule: call_cases)
        case (batch b s')
        show ?thesis
        proof (cases "f b = Inr None")
          case True
          then have "pull_loop child f s = pull_loop child f s'" using batch by (subst pull_loop.simps) simp
          then have "pull_loop (pull_loop child f) g s = pull_loop (pull_loop child f) g s'" using once [of s] once [of s'] by simp
          then show ?thesis using step.hyps step.IH [of child h s' y] batch True by (simp add: h then_batch_def [of _ _ b])
        next
          case False
          then show ?thesis using step.hyps step.IH [of child h s' y] batch once [of s]
            by (auto simp: h then_batch_def [of _ _ b] bind_r_def pull_result_def pull_loop.simps [of child f s] split: loop_splits)
        qed
      qed (use step.hyps in \<open>auto simp: once pull_loop.simps [of child f s] pull_result_def\<close>)
    qed
  qed
  then show "pull_loop (pull_loop child f) g s = Some y" if "pull_loop child (then_batch f g) s = Some y" using that by blast
qed

subsection \<open>Chains\<close>

text \<open>Trees of filters and projections over one sequential scan.\<close>

primrec is_chain :: "operator \<Rightarrow> bool" where
  "is_chain (SeqScanOperator i options g) = True"
| "is_chain (IndexScanOperator i key values columns residual) = False"
| "is_chain (FilterOperator child e) = is_chain child"
| "is_chain (ProjectionOperator child es) = is_chain child"
| "is_chain (HashAggregateOperator child groups calls outputs) = False"

text \<open>What the nodes above the scan do with one of its batches.\<close>

primrec chain_batch :: "operator \<Rightarrow> vector_batch \<Rightarrow> vector_batch option result" where
  "chain_batch (SeqScanOperator i options g) = (\<lambda>b. Inr (Some b))"
| "chain_batch (IndexScanOperator i key values columns residual) = (\<lambda>b. Inr (Some b))"
| "chain_batch (FilterOperator child e) = then_batch (chain_batch child) (filter_batch (CompileVectorPredicate e))"
| "chain_batch (ProjectionOperator child es) = then_batch (chain_batch child) (project_batch (Projection_Init es))"
| "chain_batch (HashAggregateOperator child groups calls outputs) = chain_batch child"

definition scan_leaf :: "op_state operator_next" where
  "scan_leaf = lift_next Seq_state seq_of SeqScan_Next"

lemma chain_pull: "is_chain op \<Longrightarrow> Operator_Next order op = pull_loop scan_leaf (chain_batch op)"
  by (induction op) (simp_all add: pull_all filter_pull project_pull pull_then scan_leaf_def)

text \<open>The columns and the rows after the chain, and the rows on which it has no error.\<close>

primrec chain_types :: "operator \<Rightarrow> data_type list \<Rightarrow> data_type list" where
  "chain_types (SeqScanOperator i options g) types = types"
| "chain_types (IndexScanOperator i key values columns residual) types = types"
| "chain_types (FilterOperator child e) types = chain_types child types"
| "chain_types (ProjectionOperator child es) types = projection_types (chain_types child types) es"
| "chain_types (HashAggregateOperator child groups calls outputs) types = map ao_type outputs"

primrec chain_rows :: "operator \<Rightarrow> data_type list \<Rightarrow> bytes list list \<Rightarrow> bytes list list" where
  "chain_rows (SeqScanOperator i options g) types rows = rows"
| "chain_rows (IndexScanOperator i key values columns residual) types rows = rows"
| "chain_rows (FilterOperator child e) types rows = filter (row_holds (chain_types child types) e) (chain_rows child types rows)"
| "chain_rows (ProjectionOperator child es) types rows = map (project_of (chain_types child types) (map classify_slot es)) (chain_rows child types rows)"
| "chain_rows (HashAggregateOperator child groups calls outputs) types rows = chain_rows child types rows"

primrec chain_ok :: "operator \<Rightarrow> data_type list \<Rightarrow> bytes list list \<Rightarrow> bool" where
  "chain_ok (SeqScanOperator i options g) types rows = True"
| "chain_ok (IndexScanOperator i key values columns residual) types rows = True"
| "chain_ok (FilterOperator child e) types rows =
     (chain_ok child types rows \<and> (\<forall>row\<in>set (chain_rows child types rows). row_condition_ok (chain_types child types) e row))"
| "chain_ok (ProjectionOperator child es) types rows =
     (chain_ok child types rows \<and> (\<forall>plan\<in>set (map classify_slot es). plan_ok (chain_types child types) plan) \<and>
      (\<forall>row\<in>set (chain_rows child types rows). \<exists>cs. project_row_cells (chain_types child types) (map classify_slot es) row = Inr cs))"
| "chain_ok (HashAggregateOperator child groups calls outputs) types rows = chain_ok child types rows"

lemma chain_rows_append: "chain_rows op types (rows @ rows') = chain_rows op types rows @ chain_rows op types rows'"
  by (induction op) simp_all

lemma chain_rows_Nil [simp]: "chain_rows op types [] = []"
  by (induction op) simp_all

lemma chain_ok_append: "chain_ok op types (rows @ rows') \<longleftrightarrow> chain_ok op types rows \<and> chain_ok op types rows'"
  by (induction op) (auto simp: chain_rows_append)

lemma chain_ok_set: "chain_ok op types rows \<longleftrightarrow> (rows = [] \<longrightarrow> chain_ok op types []) \<and> (\<forall>row\<in>set rows. chain_ok op types [row])"
proof (cases rows)
  case (Cons row rows')
  have "chain_ok op types (row # rows') \<longleftrightarrow> chain_ok op types [row] \<and> (\<forall>row\<in>set rows'. chain_ok op types [row])"
  proof (induction rows' arbitrary: row)
    case (Cons r rows')
    then show ?case using chain_ok_append [of op types "[row]" "r # rows'"] by auto
  qed simp
  then show ?thesis using Cons by simp
qed simp

lemma chain_rows_concat: "chain_rows op types rows = concat (map (\<lambda>row. chain_rows op types [row]) rows)"
proof (induction rows)
  case (Cons row rows)
  then show ?case using chain_rows_append [of op types "[row]" rows] by simp
qed simp

lemma chain_mset:
  assumes "mset rows = mset rows'"
  shows "mset (chain_rows op types rows) = mset (chain_rows op types rows')" "chain_ok op types rows = chain_ok op types rows'"
proof -
  have concat: "mset (concat (map f xs)) = (\<Sum>x\<in>#mset xs. mset (f x))" for f :: "bytes list \<Rightarrow> bytes list list" and xs
    by (induction xs) simp_all
  show "mset (chain_rows op types rows) = mset (chain_rows op types rows')"
    by (subst (1 2) chain_rows_concat) (simp add: concat assms)
  show "chain_ok op types rows = chain_ok op types rows'"
    using mset_eq_setD [OF assms] assms by (subst (1 2) chain_ok_set) auto
qed

subsection \<open>A batch through a chain\<close>

definition piped :: "data_type list \<Rightarrow> bytes list list \<Rightarrow> vector_batch option result \<Rightarrow> bool" where
  "piped types rows r \<longleftrightarrow>
     (case r of
        Inl _ \<Rightarrow> False
      | Inr None \<Rightarrow> rows = []
      | Inr (Some b) \<Rightarrow> batch_ok b \<and> map cd_type (vb_columns b) = types \<and> active_rows b = rows \<and> rows \<noteq> [])"

lemma filter_batch_piped:
  assumes "batch_ok b" "map cd_type (vb_columns b) = types" "active_rows b \<noteq> []" "\<forall>row\<in>set (active_rows b). row_condition_ok types e row"
  shows "piped types (filter (row_holds types e) (active_rows b)) (filter_batch (CompileVectorPredicate e) b)"
proof -
  obtain m where m: "PhysicalSize b = mask_row_count (vb_selection b)" "PhysicalSize b \<noteq> 0"
      "Vector_Predicate.Evaluate (CompileVectorPredicate e) b (PhysicalSize b) (vb_selection b) = Inr m" "mask_inv m"
      "mask_row_count m = mask_row_count (vb_selection b)"
      "\<And>i. Mask_Test m i \<longleftrightarrow> Mask_Test (vb_selection b) i \<and> truth e b i = Inr True"
    using Evaluate_batch [OF assms] by auto
  define b' where "b' = (if IsAll m then SetIdentitySelection (mask_row_count m) b else SetSelection m b)"
  have step: "filter_batch (CompileVectorPredicate e) b = Inr (if Mask_Empty m then None else Some b')"
    using m(1,2,3,5) by (simp add: filter_batch_def b'_def)
  have b': "batch_ok b'" "vb_columns b' = vb_columns b" "active_rows b' = filter (row_holds types e) (active_rows b)"
    using filtered_rows [OF assms(1,2) m(4-6) b'_def] by simp_all
  have "Mask_Empty m \<longleftrightarrow> mask_rows m = []" using Mask_Empty_iff [OF m(4)] Mask_Test_less by (auto simp: mask_rows_def filter_empty_conv)
  moreover have "mask_rows (vb_selection b') = mask_rows m"
    using m(4) IsAll_iff [OF m(4)] by (auto simp: b'_def SetIdentitySelection_def SetSelection_def SetAll_rows_list Test_SetAll mask_inv_def mask_rows_def filter_id_conv)
  ultimately have "Mask_Empty m \<longleftrightarrow> active_rows b' = []" by (simp add: active_rows_batch)
  then show ?thesis using b' assms(2) by (simp add: piped_def step)
qed

lemma project_batch_piped:
  assumes "projectable types es b"
  shows "piped (projection_types types es) (map (project_of types (map classify_slot es)) (active_rows b)) (project_batch (Projection_Init es) b)"
  using produce_rows [OF assms] projectable_facts [OF assms] by (auto simp: piped_def project_batch_def)

lemma then_batch_piped:
  assumes "piped types rows (f b)" "\<And>b'. f b = Inr (Some b') \<Longrightarrow> piped types' (F (active_rows b')) (g b')" "F [] = []"
  shows "piped types' (F rows) (then_batch f g b)"
proof (cases "f b")
  case (Inr r)
  then show ?thesis using assms by (cases r) (auto simp: piped_def then_batch_def)
qed (use assms in \<open>simp add: piped_def\<close>)

lemma piped_SomeD: "piped types rows (Inr (Some b)) \<Longrightarrow> batch_ok b \<and> map cd_type (vb_columns b) = types \<and> active_rows b = rows \<and> rows \<noteq> []"
  by (simp add: piped_def)

lemma chain_batch_piped:
  assumes "is_chain op" "batch_ok b" "map cd_type (vb_columns b) = types" "active_rows b \<noteq> []" "chain_ok op types (active_rows b)"
  shows "piped (chain_types op types) (chain_rows op types (active_rows b)) (chain_batch op b)"
  using assms
proof (induction op)
  case (FilterOperator child e)
  then have p: "piped (chain_types child types) (chain_rows child types (active_rows b)) (chain_batch child b)" by simp
  show ?case unfolding chain_types.simps chain_rows.simps chain_batch.simps
  proof (rule then_batch_piped [where f = "chain_batch child" and b = b, OF p, where F = "filter (row_holds (chain_types child types) e)"])
    show "piped (chain_types child types) (filter (row_holds (chain_types child types) e) (active_rows b')) (filter_batch (CompileVectorPredicate e) b')"
      if "chain_batch child b = Inr (Some b')" for b'
      using FilterOperator.prems piped_SomeD [OF p [unfolded that]] by (intro filter_batch_piped) simp_all
  qed simp
next
  case (ProjectionOperator child es)
  then have p: "piped (chain_types child types) (chain_rows child types (active_rows b)) (chain_batch child b)" by simp
  show ?case unfolding chain_types.simps chain_rows.simps chain_batch.simps
  proof (rule then_batch_piped [where f = "chain_batch child" and b = b, OF p, where F = "map (project_of (chain_types child types) (map classify_slot es))"])
    show "piped (projection_types (chain_types child types) es)
        (map (project_of (chain_types child types) (map classify_slot es)) (active_rows b')) (project_batch (Projection_Init es) b')"
      if "chain_batch child b = Inr (Some b')" for b'
      using ProjectionOperator.prems piped_SomeD [OF p [unfolded that]] by (intro project_batch_piped) (simp add: projectable_def)
  qed simp
qed (simp_all add: piped_def)

subsection \<open>A chain as an operator\<close>

text \<open>A loop over an operator whose batches go through a function that acts row by row.\<close>

locale batch_pipe = batch_operator +
  fixes f :: "vector_batch \<Rightarrow> vector_batch option result"
    and F :: "bytes list list \<Rightarrow> bytes list list"
    and ok :: "bytes list list \<Rightarrow> bool"
    and types' :: "data_type list"
  assumes pipe: "batch_ok b \<Longrightarrow> map cd_type (vb_columns b) = types \<Longrightarrow> active_rows b \<noteq> [] \<Longrightarrow> ok (active_rows b) \<Longrightarrow>
      piped types' (F (active_rows b)) (f b)"
    and F_append: "F (xs @ ys) = F xs @ F ys"
    and F_Nil: "F [] = []"
    and ok_append: "ok (xs @ ys) \<longleftrightarrow> ok xs \<and> ok ys"

context batch_pipe begin

lemma Pull_call:
  assumes "ready s" "ok (rows s)"
  shows "\<exists>r s'. pull_loop Next f s = Some (Inr (r, s')) \<and>
    (case r of
       None \<Rightarrow> F (rows s) = []
     | Some b \<Rightarrow> ready s' \<and> ok (rows s') \<and> batch_ok b \<and> map cd_type (vb_columns b) = types' \<and> active_rows b \<noteq> [] \<and>
         F (rows s) = active_rows b @ F (rows s'))"
  using assms
proof (induction "length (rows s)" arbitrary: s rule: less_induct)
  case less
  obtain r s' where call: "Next s = Some (Inr (r, s'))" using returns [OF less.prems(1)] by blast
  show ?case
  proof (cases r)
    case None
    then show ?thesis using call ends [OF less.prems(1)] F_Nil by (subst pull_loop.simps) simp
  next
    case (Some b)
    note d = delivers [OF less.prems(1) call [unfolded Some]]
    have ok: "ok (active_rows b)" "ok (rows s')" using less.prems(2) d ok_append by simp_all
    have F: "F (rows s) = F (active_rows b) @ F (rows s')" using d F_append by simp
    have p: "piped types' (F (active_rows b)) (f b)" using d ok(1) by (intro pipe) simp_all
    show ?thesis
    proof (cases "f b = Inr None")
      case True
      then have empty: "F (active_rows b) = []" using p by (simp add: piped_def)
      have "length (rows s') < length (rows s)" using d by simp
      moreover have same: "pull_loop Next f s = pull_loop Next f s'" using call Some True by (subst pull_loop.simps) simp
      moreover have rest: "F (rows s) = F (rows s')" using F empty by simp
      ultimately show ?thesis unfolding same rest using less.hyps [of s'] d ok(2) by blast
    next
      case False
      then obtain b' where b': "f b = Inr (Some b')" using p by (auto simp: piped_def split: sum.splits option.splits)
      then have "pull_loop Next f s = Some (Inr (Some b', s'))" using call Some by (subst pull_loop.simps) simp
      then show ?thesis using piped_SomeD [OF p [unfolded b']] F d ok(2) by simp
    qed
  qed
qed

end

sublocale batch_pipe \<subseteq> pulled: batch_operator "pull_loop Next f" "\<lambda>s. ready s \<and> ok (rows s)" "\<lambda>s. F (rows s)" types'
proof unfold_locales
  fix s assume "ready s \<and> ok (rows s)"
  then have call: "\<exists>r s'. pull_loop Next f s = Some (Inr (r, s')) \<and>
    (case r of
       None \<Rightarrow> F (rows s) = []
     | Some b \<Rightarrow> ready s' \<and> ok (rows s') \<and> batch_ok b \<and> map cd_type (vb_columns b) = types' \<and> active_rows b \<noteq> [] \<and>
         F (rows s) = active_rows b @ F (rows s'))" by (intro Pull_call) simp_all
  show "\<exists>b s'. pull_loop Next f s = Some (Inr (b, s'))" using call by blast
  show "(ready s' \<and> ok (rows s')) \<and> batch_ok b \<and> map cd_type (vb_columns b) = types' \<and> active_rows b \<noteq> [] \<and>
      F (rows s) = active_rows b @ F (rows s')" if "pull_loop Next f s = Some (Inr (Some b, s'))" for b s' using call that by auto
  show "F (rows s) = []" if "pull_loop Next f s = Some (Inr (None, s'))" for s' using call that by auto
qed

text \<open>An operator whose state is part of the state of a tree.\<close>

locale lifted_operator = batch_operator Next ready rows types
  for Next :: "'a operator_next" and ready and rows and types +
  fixes into :: "'a \<Rightarrow> 's"
    and out :: "'s \<Rightarrow> 'a option"
  assumes out_into: "out (into a) = Some a"

sublocale lifted_operator \<subseteq> lifted: batch_operator "lift_next into out Next"
  "\<lambda>s. case out s of None \<Rightarrow> False | Some a \<Rightarrow> ready a" "\<lambda>s. case out s of None \<Rightarrow> [] | Some a \<Rightarrow> rows a" types
proof unfold_locales
  fix s assume "case out s of None \<Rightarrow> False | Some a \<Rightarrow> ready a"
  then obtain a where a: "out s = Some a" "ready a" by (auto split: option.splits)
  obtain r a' where r: "Next a = Some (Inr (r, a'))" using returns [OF a(2)] by blast
  then have call: "lift_next into out Next s = Some (Inr (r, into a'))" by (simp add: lift_next_def a(1))
  show "\<exists>b s'. lift_next into out Next s = Some (Inr (b, s'))" using call by blast
  show "(case out s' of None \<Rightarrow> False | Some a \<Rightarrow> ready a) \<and> batch_ok b \<and> map cd_type (vb_columns b) = types \<and> active_rows b \<noteq> [] \<and>
      (case out s of None \<Rightarrow> [] | Some a \<Rightarrow> rows a) = active_rows b @ (case out s' of None \<Rightarrow> [] | Some a \<Rightarrow> rows a)"
    if "lift_next into out Next s = Some (Inr (Some b, s'))" for b s'
  proof -
    have b: "r = Some b" "s' = into a'" using call that by simp_all
    show ?thesis using delivers [OF a(2) r [unfolded b(1)]] by (simp add: b(2) out_into a(1))
  qed
  show "(case out s of None \<Rightarrow> [] | Some a \<Rightarrow> rows a) = []" if "lift_next into out Next s = Some (Inr (None, s'))" for s'
    using ends [OF a(2)] r call that by (simp add: a(1))
qed

interpretation leaf: lifted_operator SeqScan_Next "seq_at prepared sbs s options" "seq_rows sbs s options" "scan_types s options" Seq_state seq_of
  for prepared sbs s options
  by unfold_locales (simp add: seq_of_def)

definition leaf_ready ::
  "prepared_predicate list option \<Rightarrow> (segment_id \<times> segment_builder) list \<Rightarrow> table_schema \<Rightarrow> scan_options \<Rightarrow> op_state \<Rightarrow> bool" where
  "leaf_ready prepared sbs s options st = (case seq_of st of None \<Rightarrow> False | Some op \<Rightarrow> seq_at prepared sbs s options op)"

definition leaf_rows :: "(segment_id \<times> segment_builder) list \<Rightarrow> table_schema \<Rightarrow> scan_options \<Rightarrow> op_state \<Rightarrow> bytes list list" where
  "leaf_rows sbs s options st = (case seq_of st of None \<Rightarrow> [] | Some op \<Rightarrow> seq_rows sbs s options op)"

interpretation leaf_scan: batch_operator scan_leaf "leaf_ready prepared sbs s options" "leaf_rows sbs s options" "scan_types s options"
  for prepared sbs s options
  unfolding scan_leaf_def leaf_ready_def [abs_def] leaf_rows_def [abs_def] by (rule leaf.lifted.batch_operator_axioms)

definition no_batch :: "vector_batch \<Rightarrow> vector_batch option result" where
  "no_batch b = Inr None"

text \<open>The nodes of a tree that is a chain; nothing of others.\<close>

definition chain_pipe :: "operator \<Rightarrow> vector_batch \<Rightarrow> vector_batch option result" where
  "chain_pipe op = (if is_chain op then chain_batch op else no_batch)"

interpretation chain: batch_pipe scan_leaf "leaf_ready prepared sbs s options" "leaf_rows sbs s options" "scan_types s options"
  "chain_pipe op" "\<lambda>rows. if is_chain op then chain_rows op (scan_types s options) rows else []"
  "\<lambda>rows. chain_ok op (scan_types s options) rows" "chain_types op (scan_types s options)"
  for prepared sbs s options op
  by unfold_locales
    (use chain_batch_piped in \<open>auto simp: chain_pipe_def no_batch_def piped_def [of _ "[]"] chain_rows_append chain_ok_append\<close>)

end
