(* ===== verification/Query_Execution.thy ===== *)
theory Query_Execution
  imports Pipeline
begin

text \<open>
  The serial path of \<^verbatim>\<open>src/src/execution/execution_engine.{h,cpp}\<close>: the operator tree of a plan is built and initialized, and
  its batches are pulled and handed to the consumer.  An outcome is the list of the batches that the
  consumer was given, and then the result or the error; a consumer that raises an error itself is not
  modelled.  \<open>None\<close> is an execution that does not end.
\<close>

subsection \<open>Results\<close>

datatype execution_result_type = QUERY | COMMAND

record execution_result =
  er_type :: execution_result_type
  er_schema :: exec_schema
  er_row_count :: "64 word"
  er_affected_rows :: "64 word"

definition query_result :: "exec_schema \<Rightarrow> 64 word \<Rightarrow> execution_result" where
  "query_result schema n = \<lparr>er_type = QUERY, er_schema = schema, er_row_count = n, er_affected_rows = 0\<rparr>"

type_synonym query_outcome = "vector_batch list \<times> (execution_result \<times> database) result"

text \<open>The loop over the batches of an operator, with the rows counted and the batches delivered so far.\<close>

partial_function (option) consume_loop ::
  "'s operator_next \<Rightarrow> 's \<Rightarrow> 64 word \<Rightarrow> vector_batch list \<Rightarrow> (vector_batch list \<times> 64 word result) option" where
  "consume_loop nxt s n delivered =
     Option.bind (nxt s) (\<lambda>r.
       case r of
         Inl e \<Rightarrow> Some (delivered, Inl e)
       | Inr (None, s) \<Rightarrow> Some (delivered, Inr n)
       | Inr (Some b, s) \<Rightarrow>
           if ActiveRowCount b = 0 then consume_loop nxt s n delivered
           else consume_loop nxt s (n + word_of_nat (ActiveRowCount b)) (delivered @ [b]))"

context batch_operator begin

lemma consume_loop_rows:
  assumes "ready s"
  shows "\<exists>bs. consume_loop Next s n delivered = Some (delivered @ bs, Inr (n + word_of_nat (length (rows s)))) \<and>
    concat (map active_rows bs) = rows s \<and> (\<forall>b\<in>set bs. batch_ok b \<and> map cd_type (vb_columns b) = types \<and> active_rows b \<noteq> [])"
  using assms
proof (induction "length (rows s)" arbitrary: s n delivered rule: less_induct)
  case less
  obtain r s' where call: "Next s = Some (Inr (r, s'))" using returns [OF less.prems] by blast
  show ?case
  proof (cases r)
    case None
    then show ?thesis using call ends [OF less.prems] by (subst consume_loop.simps) simp
  next
    case (Some b)
    note d = delivers [OF less.prems call [unfolded Some]]
    have size: "ActiveRowCount b = length (active_rows b)" "ActiveRowCount b \<noteq> 0"
      using d batch_ok_size [of b] by (simp_all add: ActiveRowCount_def)
    have "length (rows s') < length (rows s)" using d by simp
    from less.hyps [OF this] d obtain bs where bs:
      "consume_loop Next s' (n + word_of_nat (ActiveRowCount b)) (delivered @ [b]) =
         Some ((delivered @ [b]) @ bs, Inr (n + word_of_nat (ActiveRowCount b) + word_of_nat (length (rows s'))))"
      "concat (map active_rows bs) = rows s'" "\<forall>b\<in>set bs. batch_ok b \<and> map cd_type (vb_columns b) = types \<and> active_rows b \<noteq> []" by blast
    have "consume_loop Next s n delivered = Some (delivered @ b # bs, Inr (n + word_of_nat (length (rows s))))"
      using call Some bs(1) size d by (subst consume_loop.simps) (simp add: add.assoc)
    then show ?thesis using bs(2,3) d by (intro exI [of _ "b # bs"]) simp
  qed
qed

end

text \<open>The batches that a query hands to its consumer.\<close>

definition delivered_ok :: "data_type list \<Rightarrow> vector_batch list \<Rightarrow> bool" where
  "delivered_ok types bs \<longleftrightarrow> (\<forall>b\<in>set bs. batch_ok b \<and> map cd_type (vb_columns b) = types \<and> active_rows b \<noteq> [])"

subsection \<open>The serial path\<close>

definition ExecuteSerialQuery :: "(group_table \<Rightarrow> group_table) \<Rightarrow> database \<Rightarrow> physical_plan \<Rightarrow> query_outcome option" where
  "ExecuteSerialQuery order db plan =
     (case BuildNode (db_catalog db) None plan of
        Inl e \<Rightarrow> Some ([], Inl e)
      | Inr (op, schema) \<Rightarrow>
          (case Operator_Init db op of
             Inl e \<Rightarrow> Some ([], Inl e)
           | Inr (s, db) \<Rightarrow>
               Option.bind (consume_loop (Operator_Next order op) s 0 []) (\<lambda>(delivered, r).
                 Some (delivered, bind_r r (\<lambda>n. Inr (query_result schema n, db))))))"

subsection \<open>Plans over one scan\<close>

text \<open>The scan of a chain.\<close>

primrec chain_scan :: "operator \<Rightarrow> (table_id \<times> scan_options) option" where
  "chain_scan (SeqScanOperator i options g) = Some (i, options)"
| "chain_scan (IndexScanOperator i key values columns residual) = None"
| "chain_scan (FilterOperator child e) = chain_scan child"
| "chain_scan (ProjectionOperator child es) = chain_scan child"
| "chain_scan (HashAggregateOperator child groups calls outputs) = None"

primrec chain_global :: "operator \<Rightarrow> parallel_global option" where
  "chain_global (SeqScanOperator i options g) = g"
| "chain_global (IndexScanOperator i key values columns residual) = None"
| "chain_global (FilterOperator child e) = chain_global child"
| "chain_global (ProjectionOperator child es) = chain_global child"
| "chain_global (HashAggregateOperator child groups calls outputs) = None"

lemma chain_init: "chain_scan op = Some (i, options) \<Longrightarrow>
    Operator_Init db op = bind_r (SeqScan_Init db (new_seq_scan i options (chain_global op))) (\<lambda>(op, db). Inr (Seq_state op, db))"
  by (induction op) simp_all

lemma chain_scan_is_chain: "chain_scan op = Some x \<Longrightarrow> is_chain op"
  by (induction op) simp_all

text \<open>The table is open, its written segments are \<open>sbs\<close>, and the scan fits them.\<close>

definition scan_source ::
  "database \<Rightarrow> table_id \<Rightarrow> scan_options \<Rightarrow> prepared_predicate list \<Rightarrow> (segment_id \<times> segment_builder) list \<Rightarrow> table_storage \<Rightarrow> bool" where
  "scan_source db i options ps sbs t \<longleftrightarrow>
     (\<exists>entry. GetTableById i (db_catalog db) = Some entry) \<and> smg_tables (db_storage db) i = Some t \<and>
     table_fits options (if so_predicates options = [] then None else Some ps) sbs t"

abbreviation table_rows :: "scan_options \<Rightarrow> (segment_id \<times> segment_builder) list \<Rightarrow> table_storage \<Rightarrow> bytes list list" where
  "table_rows options sbs t \<equiv> selected (tst_schema t) options (rows_of sbs)"

abbreviation table_types :: "scan_options \<Rightarrow> table_storage \<Rightarrow> data_type list" where
  "table_types options t \<equiv> scan_types (tst_schema t) options"

lemma chain_start:
  assumes "scan_source db i options ps sbs t" "chain_scan op = Some (i, options)" "chain_global op = None"
  obtains s where "Operator_Init db op = Inr (s, db)"
    "leaf_ready (if so_predicates options = [] then None else Some ps) sbs (tst_schema t) options s"
    "leaf_rows sbs (tst_schema t) options s = table_rows options sbs t"
proof -
  let ?p = "if so_predicates options = [] then None else Some ps"
  obtain entry where e: "GetTableById i (db_catalog db) = Some entry" "smg_tables (db_storage db) i = Some t" "table_fits options ?p sbs t"
    using assms(1) by (auto simp: scan_source_def)
  obtain scan where scan: "SeqScan_Init db (new_seq_scan i options None) = Inr (scan, db)" "seq_at ?p sbs (tst_schema t) options scan"
      "seq_rows sbs (tst_schema t) options scan = table_rows options sbs t"
    using SeqScan_Init_at [OF e] by auto
  have "Operator_Init db op = Inr (Seq_state scan, db)" using chain_init [OF assms(2)] scan(1) assms(3) by simp
  then show thesis by (rule that) (use scan in \<open>simp_all add: leaf_ready_def leaf_rows_def seq_of_def\<close>)
qed

lemma serial_chain:
  assumes "scan_source db i options ps sbs t" "BuildNode (db_catalog db) None plan = Inr (op, schema)"
    and "chain_scan op = Some (i, options)" "chain_global op = None" "chain_ok op (table_types options t) (table_rows options sbs t)"
  shows "\<exists>bs. ExecuteSerialQuery order db plan =
      Some (bs, Inr (query_result schema (word_of_nat (length (chain_rows op (table_types options t) (table_rows options sbs t)))), db)) \<and>
    concat (map active_rows bs) = chain_rows op (table_types options t) (table_rows options sbs t) \<and>
    delivered_ok (chain_types op (table_types options t)) bs"
proof -
  let ?p = "if so_predicates options = [] then None else Some ps" and ?s = "tst_schema t"
  obtain s where s: "Operator_Init db op = Inr (s, db)" "leaf_ready ?p sbs ?s options s" "leaf_rows sbs ?s options s = table_rows options sbs t"
    using chain_start [OF assms(1,3,4)] by blast
  have chain: "is_chain op" by (rule chain_scan_is_chain [OF assms(3)])
  have "leaf_ready ?p sbs ?s options s \<and> chain_ok op (table_types options t) (leaf_rows sbs ?s options s)" using s assms(5) by simp
  from chain.pulled.consume_loop_rows [OF this, of 0 "[]"] obtain bs where
    "consume_loop (pull_loop scan_leaf (chain_pipe op)) s 0 [] =
      Some (bs, Inr (word_of_nat (length (chain_rows op (table_types options t) (table_rows options sbs t)))))"
    "concat (map active_rows bs) = chain_rows op (table_types options t) (table_rows options sbs t)"
    "delivered_ok (chain_types op (table_types options t)) bs"
    using chain s(3) by (auto simp: delivered_ok_def)
  moreover have "Operator_Next order op = pull_loop scan_leaf (chain_pipe op)" using chain_pull [OF chain] chain by (simp add: chain_pipe_def)
  ultimately show ?thesis using assms(2) s(1) by (simp add: ExecuteSerialQuery_def)
qed

subsection \<open>Aggregations over one scan\<close>

interpretation chain_aggregate: row_aggregate "pull_loop scan_leaf (chain_pipe op)"
  "\<lambda>st. leaf_ready prepared sbs s options st \<and> chain_ok op (scan_types s options) (leaf_rows sbs s options st)"
  "\<lambda>st. if is_chain op then chain_rows op (scan_types s options) (leaf_rows sbs s options st) else []"
  "chain_types op (scan_types s options)" order groups calls outputs
  for prepared sbs s options op order groups calls outputs
  by unfold_locales

definition aggregate_into :: "op_state hash_aggregate \<Rightarrow> op_state" where
  "aggregate_into op = Aggregate_state (hg_child op) (hg_state op) (hg_consumed op)"

interpretation tree_aggregate: lifted_operator "HashAggregate_Next order (pull_loop scan_leaf (chain_pipe op))"
  "aggregate_ready (\<lambda>st. leaf_ready prepared sbs s options st \<and> chain_ok op (scan_types s options) (leaf_rows sbs s options st))
     (\<lambda>st. if is_chain op then chain_rows op (scan_types s options) (leaf_rows sbs s options st) else [])
     (chain_types op (scan_types s options)) order groups calls outputs"
  "aggregate_rows (pull_loop scan_leaf (chain_pipe op)) order calls outputs" "map ao_type outputs" aggregate_into aggregate_of
  for prepared sbs s options op order groups calls outputs
  by unfold_locales (simp add: aggregate_into_def aggregate_of_def)

lemma serial_aggregate:
  assumes "scan_source db i options ps sbs t" "BuildNode (db_catalog db) None plan = Inr (HashAggregateOperator op groups calls outputs, schema)"
    and "chain_scan op = Some (i, options)" "chain_global op = None" "chain_ok op (table_types options t) (table_rows options sbs t)"
    and "rows = chain_rows op (table_types options t) (table_rows options sbs t)" "types = chain_types op (table_types options t)"
    and "aggregable types groups calls rows" "outputs_ok types groups calls outputs rows" "\<And>table. mset (order table) = mset table"
  shows "\<exists>bs n. ExecuteSerialQuery order db plan = Some (bs, Inr (query_result schema n, db)) \<and>
    mset (concat (map active_rows bs)) = aggregate_answer types groups calls outputs rows \<and> delivered_ok (map ao_type outputs) bs \<and>
    n = word_of_nat (size (aggregate_answer types groups calls outputs rows))"
proof -
  let ?p = "if so_predicates options = [] then None else Some ps" and ?s = "tst_schema t" and ?Next = "pull_loop scan_leaf (chain_pipe op)"
  let ?ready = "\<lambda>st. leaf_ready ?p sbs ?s options st \<and> chain_ok op (table_types options t) (leaf_rows sbs ?s options st)"
  let ?rows = "\<lambda>st. if is_chain op then chain_rows op (table_types options t) (leaf_rows sbs ?s options st) else []"
  obtain s where s: "Operator_Init db op = Inr (s, db)" "leaf_ready ?p sbs ?s options s" "leaf_rows sbs ?s options s = table_rows options sbs t"
    using chain_start [OF assms(1,3,4)] by blast
  have chain: "is_chain op" by (rule chain_scan_is_chain [OF assms(3)])
  define ha where "ha = new_hash_aggregate groups calls outputs s"
  have child: "hg_child ha = s" "\<not> hg_consumed ha" by (simp_all add: ha_def new_hash_aggregate_def)
  have rows: "?rows (hg_child ha) = rows" using chain s(3) child(1) assms(6) by simp
  have ready: "aggregate_ready ?ready ?rows types order groups calls outputs ha"
    unfolding aggregate_ready_def rows using child s assms(5,8-10) by (simp add: ha_def)
  from chain_aggregate.Aggregate_start [OF ready [unfolded assms(7)] child(2)] obtain s' st' where
    st': "consume_all ?Next (hg_child ha) (hg_state ha) = Some (Inr (s', st'))"
      "mset (result_rows order calls outputs st') = aggregate_answer types groups calls outputs rows"
    unfolding rows assms(7) by metis
  have answer: "mset (aggregate_rows ?Next order calls outputs ha) = aggregate_answer types groups calls outputs rows"
    unfolding aggregate_rows_def st'(1) using child(2) st'(2) by simp
  define st where "st = Aggregate_state s (new_aggregate_state groups calls outputs) False"
  have st: "aggregate_of st = Some ha" by (simp add: st_def aggregate_of_def ha_def new_hash_aggregate_def)
  have "case aggregate_of st of None \<Rightarrow> False | Some a \<Rightarrow> aggregate_ready ?ready ?rows (chain_types op (table_types options t)) order groups calls outputs a"
    using st ready assms(7) by simp
  from tree_aggregate.lifted.consume_loop_rows [OF this, of 0 "[]"] obtain bs where bs:
    "consume_loop (lift_next aggregate_into aggregate_of (HashAggregate_Next order ?Next)) st 0 [] =
      Some (bs, Inr (word_of_nat (length (aggregate_rows ?Next order calls outputs ha))))"
    "concat (map active_rows bs) = aggregate_rows ?Next order calls outputs ha" "delivered_ok (map ao_type outputs) bs"
    using st by (auto simp: delivered_ok_def)
  have next': "Operator_Next order (HashAggregateOperator op groups calls outputs) = lift_next aggregate_into aggregate_of (HashAggregate_Next order ?Next)"
    using chain_pull [OF chain, of order] chain by (simp add: chain_pipe_def aggregate_into_def [abs_def])
  have "ExecuteSerialQuery order db plan = Some (bs, Inr (query_result schema (word_of_nat (length (aggregate_rows ?Next order calls outputs ha))), db))"
    using assms(2) s(1) bs(1) by (simp add: ExecuteSerialQuery_def next' st_def del: Operator_Next.simps)
  moreover have "length (aggregate_rows ?Next order calls outputs ha) = size (aggregate_answer types groups calls outputs rows)"
    using arg_cong [OF answer, of size] by simp
  ultimately show ?thesis using bs(2,3) answer by metis
qed

end
