(* ===== verification/Parallel_Executor.thy ===== *)
theory Parallel_Executor
  imports Query_Execution Blocking_Queue
begin

text \<open>
  \<^verbatim>\<open>src/src/execution/parallel/parallel_executor.{h,cpp}\<close>: workers that pull batches of one shared scan through their
  own copies of a chain.  In an aggregation each worker has its own aggregate state, which the coordinator
  merges; in a plain query the workers push their batches into the bounded queue that the coordinator
  empties.  A step is a piece of one thread between two accesses to shared state: one pass of the scan with the work
  on its batch, one operation on the queue, one cancellation, the decrement of the counter.  The submissions to the
  thread pool are assumed to succeed.
\<close>

subsection \<open>Which plans, and how many workers\<close>

fun FindSeqScanPlan :: "physical_plan \<Rightarrow> (u32 \<times> u32 list \<times> simple_predicate list) option" where
  "FindSeqScanPlan (PhysicalSeqScan oid columns predicates) = Some (oid, columns, predicates)"
| "FindSeqScanPlan (PhysicalFilter p child) = FindSeqScanPlan child"
| "FindSeqScanPlan (PhysicalProject outputs child) = FindSeqScanPlan child"
| "FindSeqScanPlan _ = None"

fun single_input_chain :: "physical_plan \<Rightarrow> bool" where
  "single_input_chain (PhysicalSeqScan oid columns predicates) = True"
| "single_input_chain (PhysicalFilter p child) = single_input_chain child"
| "single_input_chain (PhysicalProject outputs child) = single_input_chain child"
| "single_input_chain _ = False"

definition CanParallelizeAggregate :: "physical_plan \<Rightarrow> bool" where
  "CanParallelizeAggregate plan =
     (case plan of PhysicalHashAggregate group_by outputs child \<Rightarrow> single_input_chain child | _ \<Rightarrow> single_input_chain plan)"

record parallel_settings =
  ps_worker_threads :: nat
  ps_result_queue_capacity :: nat

definition ResolveWorkerCount :: "parallel_settings \<Rightarrow> nat \<Rightarrow> nat \<Rightarrow> parallel_global \<Rightarrow> nat" where
  "ResolveWorkerCount config pool_threads arenas g =
     (let count = max 1 (min (ps_worker_threads config) pool_threads);
          count = (if arenas > 0 then min count arenas else count);
          count = (if MaxThreads g > 0 then min count (MaxThreads g) else count) in
      max 1 count)"

subsection \<open>The common start\<close>

text \<open>The scan of the plan, its table, and the state that the workers share.\<close>

definition parallel_setup ::
  "string \<Rightarrow> database \<Rightarrow> physical_plan \<Rightarrow> (scan_options \<times> table_storage \<times> parallel_global \<times> database) result" where
  "parallel_setup missing db plan =
     (case FindSeqScanPlan plan of
        None \<Rightarrow> Inl (Runtime_error missing)
      | Some (oid, columns, predicates) \<Rightarrow>
          bind_r (BuildScanSpec (db_catalog db) oid columns predicates) (\<lambda>spec.
            case GetTableById (bs_table_id spec) (db_catalog db) of
              None \<Rightarrow> Inl (Runtime_error (''ParallelExecutor: table not found: '' @ nat_str (unat (bs_table_id spec))))
            | Some e \<Rightarrow> bind_r (Storage_GetTable (bs_table_id spec) (te_schema e) (db_storage db)) (\<lambda>(storage, sm).
                case storage of
                  None \<Rightarrow> Inl (Runtime_error (''ParallelExecutor: table storage not found: '' @ nat_str (unat (bs_table_id spec))))
                | Some t \<Rightarrow> bind_r (CreateParallelScanState (bs_options spec) t) (\<lambda>g.
                    Inr (bs_options spec, t, g, db\<lparr>db_storage := sm\<rparr>)))))"

text \<open>A worker builds its own copy of the chain and initializes it.\<close>

definition worker_start :: "database \<Rightarrow> parallel_global \<Rightarrow> physical_plan \<Rightarrow> operator result" where
  "worker_start db g plan =
     bind_r (BuildNode (db_catalog db) (Some g) plan) (\<lambda>(op, schema). bind_r (Operator_Init db op) (\<lambda>(s, db). Inr op))"

text \<open>After a pass with an error: a segment that was claimed for it stays claimed.\<close>

definition claimed :: "parallel_local \<Rightarrow> parallel_global \<Rightarrow> parallel_global" where
  "claimed l g = (if pl_has_segment l then g else snd (ClaimSegment g))"

subsection \<open>Aggregation\<close>

datatype worker_status =
    Submitted
  | Running operator
  | Failing exn
  | Failed exn
  | Finished

text \<open>\<open>aw_batch\<close> is the batch that the next pass of the scan fills.\<close>

record aggregate_worker =
  aw_status :: worker_status
  aw_local :: parallel_local
  aw_batch :: vector_batch
  aw_state :: aggregate_state

record aggregate_run =
  ag_global :: parallel_global
  ag_table :: table_storage
  ag_workers :: "aggregate_worker list"

definition absorb_batch :: "operator \<Rightarrow> vector_batch \<Rightarrow> aggregate_state \<Rightarrow> aggregate_state result" where
  "absorb_batch op b st =
     bind_r (chain_batch op b) (\<lambda>r.
       case r of
         None \<Rightarrow> Inr st
       | Some b \<Rightarrow> if ActiveRowCount b > 0 then Consume b st else Inr st)"

text \<open>A running worker after a pass of the scan.\<close>

definition aggregate_passed :: "operator \<Rightarrow> scan_step \<Rightarrow> parallel_local \<Rightarrow> vector_batch \<Rightarrow> aggregate_worker \<Rightarrow> aggregate_worker" where
  "aggregate_passed op step l out wk =
     (let wk = wk\<lparr>aw_local := l\<rparr> in
      case step of
        Scan_end \<Rightarrow> wk\<lparr>aw_status := Finished\<rparr>
      | Scan_again \<Rightarrow> wk\<lparr>aw_batch := out\<rparr>
      | Scan_batch \<Rightarrow>
          (case absorb_batch op out (aw_state wk) of
             Inl e \<Rightarrow> wk\<lparr>aw_status := Failing e\<rparr>
           | Inr st \<Rightarrow> wk\<lparr>aw_batch := ClearBatch empty_batch, aw_state := st\<rparr>))"

text \<open>The next step of worker \<open>w\<close>, if it has one.\<close>

definition aggregate_worker_step ::
  "database \<Rightarrow> physical_plan \<Rightarrow> scan_options \<Rightarrow> nat \<Rightarrow> aggregate_run \<Rightarrow> aggregate_run option" where
  "aggregate_worker_step db plan options w run =
     (let wk = ag_workers run ! w; put = (\<lambda>wk. (ag_workers run)[w := wk]) in
      case aw_status wk of
        Submitted \<Rightarrow>
          (case worker_start db (ag_global run) plan of
             Inl e \<Rightarrow> Some (run\<lparr>ag_workers := put (wk\<lparr>aw_status := Failing e\<rparr>)\<rparr>)
           | Inr op \<Rightarrow> Some (run\<lparr>ag_workers := put (wk\<lparr>aw_status := Running op\<rparr>)\<rparr>))
      | Running op \<Rightarrow>
          (case parallel_body options (ag_global run) (aw_local wk) (aw_batch wk) (ag_table run) of
             Inl e \<Rightarrow> Some (run\<lparr>ag_global := claimed (aw_local wk) (ag_global run), ag_workers := put (wk\<lparr>aw_status := Failing e\<rparr>)\<rparr>)
           | Inr (step, g, l, out, t) \<Rightarrow>
               Some (run\<lparr>ag_global := g, ag_table := t, ag_workers := put (aggregate_passed op step l out wk)\<rparr>))
      | Failing e \<Rightarrow> Some (run\<lparr>ag_global := Cancel (ag_global run), ag_workers := put (wk\<lparr>aw_status := Failed e\<rparr>)\<rparr>)
      | _ \<Rightarrow> None)"

inductive aggregate_step :: "database \<Rightarrow> physical_plan \<Rightarrow> scan_options \<Rightarrow> aggregate_run \<Rightarrow> aggregate_run \<Rightarrow> bool"
  for db plan options where
  step: "w < length (ag_workers run) \<Longrightarrow> aggregate_worker_step db plan options w run = Some run' \<Longrightarrow>
     aggregate_step db plan options run run'"

inductive_cases aggregate_stepE: "aggregate_step db plan options run run'"

definition aggregate_start :: "nat \<Rightarrow> parallel_global \<Rightarrow> table_storage \<Rightarrow> aggregate_state \<Rightarrow> aggregate_run" where
  "aggregate_start n g t st = \<lparr>ag_global = g, ag_table = t,
     ag_workers = replicate n \<lparr>aw_status = Submitted, aw_local = new_parallel_local, aw_batch = ClearBatch empty_batch, aw_state = st\<rparr>\<rparr>"

definition worker_over :: "worker_status \<Rightarrow> bool" where
  "worker_over s = (case s of Failed _ \<Rightarrow> True | Finished \<Rightarrow> True | _ \<Rightarrow> False)"

definition aggregate_over :: "aggregate_run \<Rightarrow> bool" where
  "aggregate_over run \<longleftrightarrow> (\<forall>wk\<in>set (ag_workers run). worker_over (aw_status wk))"

text \<open>The futures in the order of the workers: the first error is kept, the states are merged.\<close>

definition collect_worker ::
  "(group_table \<Rightarrow> group_table) \<Rightarrow> aggregate_worker \<Rightarrow> aggregate_state \<times> exn option \<Rightarrow> aggregate_state \<times> exn option" where
  "collect_worker order wk acc =
     (case acc of (st, error) \<Rightarrow>
        (case aw_status wk of
           Failed e \<Rightarrow> (st, if error = None then Some e else error)
         | _ \<Rightarrow> (case Merge order (aw_state wk) st of
                   Inl e \<Rightarrow> (st, if error = None then Some e else error)
                 | Inr st \<Rightarrow> (st, error))))"

definition aggregate_finish ::
  "(group_table \<Rightarrow> group_table) \<Rightarrow> built_aggregate_spec \<Rightarrow> database \<Rightarrow> aggregate_run \<Rightarrow> query_outcome option" where
  "aggregate_finish order spec db run =
     (case fold (collect_worker order) (ag_workers run)
             (new_aggregate_state (ba_group_exprs spec) (ba_agg_calls spec) (ba_outputs spec), None) of
        (st, Some e) \<Rightarrow> Some ([], Inl e)
      | (st, None) \<Rightarrow>
          Option.bind (consume_loop (\<lambda>st. Some (NextResult order st)) st 0 []) (\<lambda>(delivered, r).
            Some (delivered, bind_r r (\<lambda>n. Inr (query_result (ba_output_schema spec) n, db)))))"

text \<open>
  \<open>ExecuteAggregate\<close>: an outcome of one of its schedules.  \<open>pool_threads\<close> and \<open>arenas\<close> are the sizes of the thread pool and of
  the query memory.
\<close>

definition aggregate_setup ::
  "parallel_settings \<Rightarrow> nat \<Rightarrow> nat \<Rightarrow> database \<Rightarrow> plan_expr list \<Rightarrow> named_plan_expr list \<Rightarrow> physical_plan \<Rightarrow>
   (scan_options \<times> built_aggregate_spec \<times> aggregate_run \<times> database) result" where
  "aggregate_setup config pool_threads arenas db group_by outputs child =
     bind_r (parallel_setup ''ParallelExecutor: aggregate child pipeline has no SeqScan'' db child) (\<lambda>(options, t, g, db).
     bind_r (BuildNode (db_catalog db) None child) (\<lambda>(op, schema).
     bind_r (BuildAggregateSpec group_by outputs schema) (\<lambda>spec.
       Inr (options, spec,
         aggregate_start (ResolveWorkerCount config pool_threads arenas g) g t
           (new_aggregate_state (ba_group_exprs spec) (ba_agg_calls spec) (ba_outputs spec)), db))))"

inductive ExecuteAggregate ::
  "(group_table \<Rightarrow> group_table) \<Rightarrow> parallel_settings \<Rightarrow> nat \<Rightarrow> nat \<Rightarrow> database \<Rightarrow> plan_expr list \<Rightarrow> named_plan_expr list \<Rightarrow> physical_plan \<Rightarrow>
   query_outcome \<Rightarrow> bool"
  for order config pool_threads arenas db group_by outputs child where
  no_start: "aggregate_setup config pool_threads arenas db group_by outputs child = Inl e \<Longrightarrow>
     ExecuteAggregate order config pool_threads arenas db group_by outputs child ([], Inl e)"
| finished: "aggregate_setup config pool_threads arenas db group_by outputs child = Inr (options, spec, start, db') \<Longrightarrow>
     (aggregate_step db' child options)\<^sup>*\<^sup>* start run \<Longrightarrow> aggregate_over run \<Longrightarrow> aggregate_finish order spec db' run = Some out \<Longrightarrow>
     ExecuteAggregate order config pool_threads arenas db group_by outputs child out"

subsection \<open>Plain queries\<close>

datatype query_status =
    Q_submitted
  | Q_running operator
  | Q_pushing operator vector_batch
  | Q_refused
  | Q_failing exn
  | Q_aborting exn
  | Q_leaving
  | Q_closing
  | Q_gone

record query_worker =
  qw_status :: query_status
  qw_local :: parallel_local
  qw_batch :: vector_batch

record query_run =
  qr_global :: parallel_global
  qr_table :: table_storage
  qr_workers :: "query_worker list"
  qr_queue :: "vector_batch blocking_queue"
  qr_active :: nat
  qr_delivered :: "vector_batch list"
  qr_row_count :: "64 word"
  qr_ended :: bool

definition query_passed :: "operator \<Rightarrow> scan_step \<Rightarrow> parallel_local \<Rightarrow> vector_batch \<Rightarrow> query_worker \<Rightarrow> query_worker" where
  "query_passed op step l out wk =
     (let wk = wk\<lparr>qw_local := l\<rparr> in
      case step of
        Scan_end \<Rightarrow> wk\<lparr>qw_status := Q_leaving\<rparr>
      | Scan_again \<Rightarrow> wk\<lparr>qw_batch := out\<rparr>
      | Scan_batch \<Rightarrow>
          (case chain_batch op out of
             Inl e \<Rightarrow> wk\<lparr>qw_status := Q_failing e\<rparr>
           | Inr None \<Rightarrow> wk\<lparr>qw_batch := ClearBatch empty_batch\<rparr>
           | Inr (Some b) \<Rightarrow>
               wk\<lparr>qw_batch := ClearBatch empty_batch, qw_status := (if ActiveRowCount b > 0 then Q_pushing op b else qw_status wk)\<rparr>))"

text \<open>
  \<open>None\<close>: the worker is gone, or it waits for room in the queue.  A worker leaves by decrementing the counter of active workers,
  and the last one closes the queue.  Beside the run, a step gives the notifications that the worker makes after it.
\<close>

definition query_worker_step ::
  "database \<Rightarrow> physical_plan \<Rightarrow> scan_options \<Rightarrow> nat \<Rightarrow> query_run \<Rightarrow> (query_run \<times> notification list) option" where
  "query_worker_step db plan options w run =
     (let wk = qr_workers run ! w; become = (\<lambda>s. (qr_workers run)[w := wk\<lparr>qw_status := s\<rparr>]) in
      case qw_status wk of
        Q_submitted \<Rightarrow>
          Some (run\<lparr>qr_workers := become (case worker_start db (qr_global run) plan of Inl e \<Rightarrow> Q_failing e | Inr op \<Rightarrow> Q_running op)\<rparr>, [])
      | Q_running op \<Rightarrow>
          (case parallel_body options (qr_global run) (qw_local wk) (qw_batch wk) (qr_table run) of
             Inl e \<Rightarrow> Some (run\<lparr>qr_global := claimed (qw_local wk) (qr_global run), qr_workers := become (Q_failing e)\<rparr>, [])
           | Inr (step, g, l, out, t) \<Rightarrow>
               Some (run\<lparr>qr_global := g, qr_table := t, qr_workers := (qr_workers run)[w := query_passed op step l out wk]\<rparr>, []))
      | Q_pushing op b \<Rightarrow>
          (case Push b (qr_queue run) of
             None \<Rightarrow> None
           | Some (pushed, q, ns) \<Rightarrow> Some (run\<lparr>qr_queue := q, qr_workers := become (if pushed then Q_running op else Q_refused)\<rparr>, ns))
      | Q_refused \<Rightarrow> Some (run\<lparr>qr_global := Cancel (qr_global run), qr_workers := become Q_leaving\<rparr>, [])
      | Q_failing e \<Rightarrow> Some (run\<lparr>qr_global := Cancel (qr_global run), qr_workers := become (Q_aborting e)\<rparr>, [])
      | Q_aborting e \<Rightarrow> (case Queue_Abort (Some e) (qr_queue run) of (q, ns) \<Rightarrow> Some (run\<lparr>qr_queue := q, qr_workers := become Q_leaving\<rparr>, ns))
      | Q_leaving \<Rightarrow> Some (run\<lparr>qr_active := qr_active run - 1, qr_workers := become (if qr_active run = 1 then Q_closing else Q_gone)\<rparr>, [])
      | Q_closing \<Rightarrow> (case Queue_Close (qr_queue run) of (q, ns) \<Rightarrow> Some (run\<lparr>qr_queue := q, qr_workers := become Q_gone\<rparr>, ns))
      | Q_gone \<Rightarrow> None)"

text \<open>The coordinator pops the next batch, or it finds that the queue has ended.\<close>

definition query_consumer_step :: "query_run \<Rightarrow> (query_run \<times> notification list) option" where
  "query_consumer_step run =
     (if qr_ended run then None
      else (case Pop (qr_queue run) of
        None \<Rightarrow> None
      | Some (None, q, ns) \<Rightarrow> Some (run\<lparr>qr_queue := q, qr_ended := True\<rparr>, ns)
      | Some (Some b, q, ns) \<Rightarrow>
          if ActiveRowCount b = 0 then Some (run\<lparr>qr_queue := q\<rparr>, ns)
          else Some (run\<lparr>qr_queue := q, qr_row_count := qr_row_count run + word_of_nat (ActiveRowCount b),
                         qr_delivered := qr_delivered run @ [b]\<rparr>, ns)))"

inductive query_step :: "database \<Rightarrow> physical_plan \<Rightarrow> scan_options \<Rightarrow> query_run \<Rightarrow> query_run \<Rightarrow> bool"
  for db plan options where
  worker: "w < length (qr_workers run) \<Longrightarrow> query_worker_step db plan options w run = Some (run', ns) \<Longrightarrow> query_step db plan options run run'"
| consumer: "query_consumer_step run = Some (run', ns) \<Longrightarrow> query_step db plan options run run'"

inductive_cases query_stepE: "query_step db plan options run run'"

definition query_start :: "nat \<Rightarrow> nat \<Rightarrow> parallel_global \<Rightarrow> table_storage \<Rightarrow> query_run" where
  "query_start capacity n g t = \<lparr>qr_global = g, qr_table = t,
     qr_workers = replicate n \<lparr>qw_status = Q_submitted, qw_local = new_parallel_local, qw_batch = ClearBatch empty_batch\<rparr>,
     qr_queue = new_queue capacity, qr_active = n, qr_delivered = [], qr_row_count = 0, qr_ended = False\<rparr>"

definition query_over :: "query_run \<Rightarrow> bool" where
  "query_over run \<longleftrightarrow> qr_ended run \<and> (\<forall>wk\<in>set (qr_workers run). qw_status wk = Q_gone)"

definition query_finish :: "exec_schema \<Rightarrow> database \<Rightarrow> query_run \<Rightarrow> query_outcome" where
  "query_finish schema db run =
     (qr_delivered run,
      case Queue_Error (qr_queue run) of None \<Rightarrow> Inr (query_result schema (qr_row_count run), db) | Some e \<Rightarrow> Inl e)"

definition query_setup ::
  "parallel_settings \<Rightarrow> nat \<Rightarrow> nat \<Rightarrow> database \<Rightarrow> physical_plan \<Rightarrow> (scan_options \<times> exec_schema \<times> query_run \<times> database) result" where
  "query_setup config pool_threads arenas db plan =
     bind_r (parallel_setup ''ParallelExecutor: query pipeline has no SeqScan'' db plan) (\<lambda>(options, t, g, db).
     bind_r (BuildNode (db_catalog db) None plan) (\<lambda>(op, schema).
       Inr (options, schema, query_start (ps_result_queue_capacity config) (ResolveWorkerCount config pool_threads arenas g) g t, db)))"

inductive ExecuteParallelQuery ::
  "parallel_settings \<Rightarrow> nat \<Rightarrow> nat \<Rightarrow> database \<Rightarrow> physical_plan \<Rightarrow> query_outcome \<Rightarrow> bool"
  for config pool_threads arenas db plan where
  no_start: "query_setup config pool_threads arenas db plan = Inl e \<Longrightarrow> ExecuteParallelQuery config pool_threads arenas db plan ([], Inl e)"
| finished: "query_setup config pool_threads arenas db plan = Inr (options, schema, start, db') \<Longrightarrow>
     (query_step db' plan options)\<^sup>*\<^sup>* start run \<Longrightarrow> query_over run \<Longrightarrow>
     ExecuteParallelQuery config pool_threads arenas db plan (query_finish schema db' run)"

end
