(* ===== verification/Parallel_Exact.thy ===== *)
theory Parallel_Exact
  imports Parallel_Executor
begin

text \<open>
  The parallel executor computes what the serial one does: its runs are followed together with the scan that their workers
  share, whose batches all go through the chain.
\<close>

subsection \<open>Building the copies of a chain\<close>

lemma BuildSeqScan_Inr:
  "BuildSeqScan cat g oid columns predicates = Inr (op, schema) \<longleftrightarrow>
     (\<exists>spec. BuildScanSpec cat oid columns predicates = Inr spec \<and> op = SeqScanOperator (bs_table_id spec) (bs_options spec) g \<and>
        schema = bs_output_schema spec)"
  by (auto simp: BuildSeqScan_def bind_r_Inr_iff)

lemma BuildScanSpec_table: "BuildScanSpec cat oid columns predicates = Inr spec \<Longrightarrow> bs_table_id spec = oid"
  by (auto simp: BuildScanSpec_def bind_r_Inr_iff split: option.splits)

lemma Build_IndexScan_leaf: "Build_IndexScan cat oid key values columns residual = Inr (op, schema) \<Longrightarrow> \<not> is_chain op"
  by (auto simp: Build_IndexScan_def bind_r_Inr_iff split: option.splits)

lemma build_nodes:
  "BuildFilter p child = Inr (op, schema) \<Longrightarrow> \<exists>e. CompileExecExpr (snd child) p = Inr e \<and> op = FilterOperator (fst child) e \<and> schema = snd child"
  "BuildProject outputs child = Inr (op, schema) \<Longrightarrow> \<exists>es. map_r (\<lambda>output. CompileExecExpr (snd child) (ne_expr output)) outputs = Inr es \<and>
     op = ProjectionOperator (fst child) es \<and> schema = map project_slot outputs"
  "BuildHashAggregate group_by outputs child = Inr (op, schema) \<Longrightarrow> \<not> is_chain op"
  by (auto simp: BuildFilter_def BuildProject_def BuildHashAggregate_def bind_r_Inr_iff)

text \<open>A chain built for a parallel scan differs in its leaf only.\<close>

lemma BuildNode_chain:
  assumes "BuildNode cat None plan = Inr (op, schema)" "is_chain op"
  shows "chain_global op = None \<and> single_input_chain plan \<and>
    (\<exists>i options columns predicates spec. chain_scan op = Some (i, options) \<and> FindSeqScanPlan plan = Some (i, columns, predicates) \<and>
       BuildScanSpec cat i columns predicates = Inr spec \<and> bs_table_id spec = i \<and> bs_options spec = options) \<and>
    (\<forall>g. \<exists>op'. BuildNode cat (Some g) plan = Inr (op', schema) \<and> chain_batch op' = chain_batch op \<and> chain_scan op' = chain_scan op \<and>
       chain_global op' = Some g)"
  using assms
proof (induction plan arbitrary: op schema)
  case (PhysicalSeqScan oid cols preds)
  then show ?case by (auto simp: BuildSeqScan_Inr dest: BuildScanSpec_table)
next
  case (PhysicalIndexScan oid k vs cols res)
  then show ?case using Build_IndexScan_leaf by simp
next
  case (PhysicalFilter p child)
  then obtain c e where c: "BuildNode cat None child = Inr (c, schema)" "CompileExecExpr schema p = Inr e" "op = FilterOperator c e"
    by (auto simp: bind_r_Inr_iff dest: build_nodes(1))
  then have "is_chain c" using PhysicalFilter.prems(2) by simp
  note IH = PhysicalFilter.IH [OF c(1) this]
  have "\<exists>op'. BuildNode cat (Some g) (PhysicalFilter p child) = Inr (op', schema) \<and> chain_batch op' = chain_batch op \<and>
      chain_scan op' = chain_scan op \<and> chain_global op' = Some g" for g
  proof -
    obtain c' where "BuildNode cat (Some g) child = Inr (c', schema)" "chain_batch c' = chain_batch c" "chain_scan c' = chain_scan c"
      "chain_global c' = Some g" using IH by blast
    then show ?thesis using c by (intro exI [of _ "FilterOperator c' e"]) (simp add: BuildFilter_def)
  qed
  then show ?case using IH c by simp
next
  case (PhysicalProject outs child)
  then obtain c cs es where c: "BuildNode cat None child = Inr (c, cs)" "map_r (\<lambda>output. CompileExecExpr cs (ne_expr output)) outs = Inr es"
      "op = ProjectionOperator c es" "schema = map project_slot outs"
    by (auto simp: bind_r_Inr_iff dest: build_nodes(2))
  then have "is_chain c" using PhysicalProject.prems(2) by simp
  note IH = PhysicalProject.IH [OF c(1) this]
  have "\<exists>op'. BuildNode cat (Some g) (PhysicalProject outs child) = Inr (op', schema) \<and> chain_batch op' = chain_batch op \<and>
      chain_scan op' = chain_scan op \<and> chain_global op' = Some g" for g
  proof -
    obtain c' where "BuildNode cat (Some g) child = Inr (c', cs)" "chain_batch c' = chain_batch c" "chain_scan c' = chain_scan c"
      "chain_global c' = Some g" using IH by blast
    then show ?thesis using c by (intro exI [of _ "ProjectionOperator c' es"]) (simp add: BuildProject_def)
  qed
  then show ?case using IH c by simp
next
  case (PhysicalHashAggregate gs outs child)
  then show ?case using build_nodes(3) by (auto simp: bind_r_Inr_iff)
qed simp_all

subsection \<open>The start of a run\<close>

lemma parallel_setup_ok:
  assumes "scan_source db i options ps sbs t" "BuildNode (db_catalog db) None plan = Inr (op, schema)" "chain_scan op = Some (i, options)"
  obtains g where "parallel_setup missing db plan = Inr (options, t, g, db)"
    "\<And>n. parallel_inv (tst_schema t) options (if so_predicates options = [] then None else Some ps) sbs (parallel_start g n t)"
proof -
  let ?p = "if so_predicates options = [] then None else Some ps"
  obtain entry where e: "GetTableById i (db_catalog db) = Some entry" "smg_tables (db_storage db) i = Some t" "table_fits options ?p sbs t"
    using assms(1) by (auto simp: scan_source_def)
  obtain columns predicates spec where f: "FindSeqScanPlan plan = Some (i, columns, predicates)"
      "BuildScanSpec (db_catalog db) i columns predicates = Inr spec" "bs_table_id spec = i" "bs_options spec = options"
    using BuildNode_chain [OF assms(2) chain_scan_is_chain [OF assms(3)]] assms(3) by auto
  have fits: "disk_ok t sbs" "Suc (length sbs) < 2 ^ 32" "scan_fits (tst_schema t) options ?p"
      "\<forall>(sid, sb)\<in>set sbs. prunable_segment (tst_schema t) options sb"
    using e(3) by (simp_all add: table_fits_def)
  have "so_predicates options \<noteq> [] \<Longrightarrow> Build options (tst_schema t) = Inr ps" using fits(3) by (simp add: scan_fits_def)
  then obtain g where g: "CreateParallelScanState options t = Inr g"
    by (cases "so_predicates options = []") (simp_all add: CreateParallelScanState_def PrepareScanPredicates_def)
  have "parallel_setup missing db plan = Inr (options, t, g, db)"
    using e(1,2) f g by (simp add: parallel_setup_def Storage_GetTable_def)
  then show thesis using that parallel_start_inv [OF g fits] by blast
qed

lemma worker_start_ok:
  assumes "scan_source db i options ps sbs t" "BuildNode (db_catalog db) None plan = Inr (op, schema)" "chain_scan op = Some (i, options)"
  shows "\<exists>op'. worker_start db g plan = Inr op' \<and> chain_batch op' = chain_batch op"
proof -
  obtain entry where e: "GetTableById i (db_catalog db) = Some entry" "smg_tables (db_storage db) i = Some t"
    using assms(1) by (auto simp: scan_source_def)
  obtain op' where op': "BuildNode (db_catalog db) (Some g) plan = Inr (op', schema)" "chain_batch op' = chain_batch op" "chain_scan op' = Some (i, options)"
    using BuildNode_chain [OF assms(2) chain_scan_is_chain [OF assms(3)]] assms(3) by metis
  then show ?thesis using e chain_init [OF op'(3)]
    by (simp add: worker_start_def SeqScan_Init_def new_seq_scan_def Storage_GetTable_def)
qed

subsection \<open>Passes and what they deliver\<close>

lemma scan_pass:
  assumes "parallel_inv s options prepared sbs c" "w < length (pc_locals c)" "w \<notin> pc_done c"
  obtains step g l out' t' where "parallel_body options (pc_global c) (pc_locals c ! w) out (pc_table c) = Inr (step, g, l, out', t')"
    "parallel_inv s options prepared sbs (worker_passed w (step, g, l, out', t') c)"
    "parallel_work sbs (worker_passed w (step, g, l, out', t') c) < parallel_work sbs c"
    "step = Scan_batch \<Longrightarrow> batch_ok out' \<and> map cd_type (vb_columns out') = scan_types s options \<and> active_rows out' \<noteq> []"
proof -
  obtain step g l out' t' where res: "parallel_body options (pc_global c) (pc_locals c ! w) out (pc_table c) = Inr (step, g, l, out', t')"
    using parallel_progress [OF assms, of out] by auto
  from parallel_pass [OF assms res] have inv: "parallel_inv s options prepared sbs (worker_passed w (step, g, l, out', t') c)"
    "parallel_work sbs (worker_passed w (step, g, l, out', t') c) < parallel_work sbs c" by simp_all
  then have "scanned s options out' \<and> active_rows out' \<noteq> []" if "step = Scan_batch"
    using that by (simp add: parallel_inv_def worker_passed_def)
  then show thesis by (intro that [OF res inv]) (simp add: scanned_def)
qed

lemma delivered_below:
  assumes "parallel_inv s options prepared sbs c"
  shows "mset (concat (map active_rows (pc_batches c))) \<subseteq># mset (selected s options (rows_of sbs))"
proof -
  have "mset (concat (map active_rows (pc_batches c))) + ((\<Sum>l\<leftarrow>pc_locals c. mset (local_rest s options sbs l)) +
      mset (unclaimed s options sbs (pc_global c))) = mset (selected s options (rows_of sbs))"
    using assms by (simp add: parallel_inv_def add.assoc)
  then show ?thesis by (metis mset_subset_eq_add_left)
qed

lemma mset_rest:
  assumes "mset xs \<subseteq># mset ys"
  obtains zs where "mset ys = mset (xs @ zs)"
proof -
  obtain zs where "mset zs = mset ys - mset xs" using ex_mset by blast
  then have "mset ys = mset (xs @ zs)" using assms by simp
  then show thesis by (rule that)
qed

lemma chain_below:
  assumes "mset xs \<subseteq># mset ys"
  shows "chain_ok op types ys \<Longrightarrow> chain_ok op types xs" "mset (chain_rows op types xs) \<subseteq># mset (chain_rows op types ys)"
proof -
  obtain zs where zs: "mset ys = mset (xs @ zs)" using mset_rest [OF assms] .
  show "chain_ok op types ys \<Longrightarrow> chain_ok op types xs" using chain_mset(2) [OF zs] by (simp add: chain_ok_append)
  show "mset (chain_rows op types xs) \<subseteq># mset (chain_rows op types ys)" using chain_mset(1) [OF zs] by (simp add: chain_rows_append)
qed

lemma aggregable_below:
  assumes "mset xs \<subseteq># mset ys" "aggregable types groups calls ys"
  shows "aggregable types groups calls xs"
proof -
  obtain zs where zs: "mset ys = mset (xs @ zs)" using mset_rest [OF assms(1)] .
  then show ?thesis using aggregable_cong [OF zs] aggregable_append(1) assms(2) by blast
qed


subsection \<open>The runs of an aggregation\<close>

definition status_ok :: "operator \<Rightarrow> worker_status \<Rightarrow> bool" where
  "status_ok op s = (case s of Submitted \<Rightarrow> True | Running op' \<Rightarrow> chain_batch op' = chain_batch op | Finished \<Rightarrow> True | _ \<Rightarrow> False)"

definition finished_workers :: "aggregate_worker list \<Rightarrow> nat set" where
  "finished_workers wks = {w. w < length wks \<and> aw_status (wks ! w) = Finished}"

definition aggregate_scan :: "vector_batch list \<Rightarrow> aggregate_run \<Rightarrow> parallel_config" where
  "aggregate_scan bs run = \<lparr>pc_global = ag_global run, pc_locals = map aw_local (ag_workers run),
     pc_done = finished_workers (ag_workers run), pc_batches = bs, pc_table = ag_table run\<rparr>"

text \<open>\<open>rowss\<close>: the rows that each of the workers has consumed.\<close>

definition aggregate_inv ::
  "table_schema \<Rightarrow> scan_options \<Rightarrow> prepared_predicate list option \<Rightarrow> (segment_id \<times> segment_builder) list \<Rightarrow> operator \<Rightarrow>
   exec_expr list \<Rightarrow> agg_call list \<Rightarrow> aggregate_output list \<Rightarrow> aggregate_run \<Rightarrow> bool" where
  "aggregate_inv s options prepared sbs op groups calls outputs run \<longleftrightarrow> (\<exists>bs rowss.
     parallel_inv s options prepared sbs (aggregate_scan bs run) \<and>
     (\<forall>wk\<in>set (ag_workers run). status_ok op (aw_status wk)) \<and>
     list_all2 (\<lambda>rows wk. aggregates groups calls outputs (keyed_rows (chain_types op (scan_types s options)) groups calls rows) (aw_state wk))
       rowss (ag_workers run) \<and>
     mset (concat rowss) = mset (chain_rows op (scan_types s options) (concat (map active_rows bs))))"

definition aggregate_work :: "(segment_id \<times> segment_builder) list \<Rightarrow> aggregate_run \<Rightarrow> nat" where
  "aggregate_work sbs run = parallel_work sbs (aggregate_scan [] run) +
     length (filter (\<lambda>wk. aw_status wk = Submitted) (ag_workers run))"

lemma filter_update_length:
  "w < length xs \<Longrightarrow> length (filter P (xs[w := x])) + (if P (xs ! w) then 1 else 0) = length (filter P xs) + (if P x then 1 else 0)"
proof (induction xs arbitrary: w)
  case (Cons a xs)
  then show ?case by (cases w) (fastforce split: if_splits)+
qed simp

lemma mset_concat_below: "x \<in> set xs \<Longrightarrow> mset x \<subseteq># mset (concat xs)"
  by (auto simp: in_set_conv_decomp)

lemma concat_update:
  assumes "w < length rowss"
  shows "mset (concat (rowss[w := rowss ! w @ rows])) = mset (concat rowss) + mset rows"
proof -
  have s: "mset (concat xs) = (\<Sum>x\<leftarrow>xs. mset x)" for xs :: "'a list list" by (induction xs) simp_all
  have "(\<Sum>x\<leftarrow>rowss[w := rowss ! w @ rows]. mset x) + mset (rowss ! w) = (\<Sum>x\<leftarrow>rowss. mset x) + mset (rowss ! w @ rows)"
    by (rule sum_list_replace [OF assms])
  then have "mset (concat (rowss[w := rowss ! w @ rows])) + mset (rowss ! w) = mset (concat rowss) + mset rows + mset (rowss ! w)"
    unfolding s [symmetric] by (simp add: ac_simps)
  then show ?thesis by simp
qed

text \<open>A batch of the scan is absorbed by the state of a worker.\<close>

lemma absorb_batch_rows:
  assumes "is_chain op" "chain_batch op' = chain_batch op" "batch_ok b" "map cd_type (vb_columns b) = types" "active_rows b \<noteq> []"
    and "chain_ok op types (active_rows b)"
    and "aggregable (chain_types op types) groups calls (rows @ chain_rows op types (active_rows b))"
    and "aggregates groups calls outputs (keyed_rows (chain_types op types) groups calls rows) st"
  shows "\<exists>st'. absorb_batch op' b st = Inr st' \<and>
    aggregates groups calls outputs (keyed_rows (chain_types op types) groups calls (rows @ chain_rows op types (active_rows b))) st'"
proof -
  have p: "piped (chain_types op types) (chain_rows op types (active_rows b)) (chain_batch op b)"
    by (rule chain_batch_piped [OF assms(1,3,4,5,6)])
  show ?thesis
  proof (cases "chain_batch op b")
    case (Inl e)
    then show ?thesis using p by (simp add: piped_def)
  next
    case (Inr r)
    show ?thesis
    proof (cases r)
      case None
      then show ?thesis using p Inr assms(2,8) by (simp add: piped_def absorb_batch_def)
    next
      case (Some b')
      note b' = piped_SomeD [OF p [unfolded Inr Some]]
      then have "ActiveRowCount b' > 0" using batch_ok_size [of b'] by (simp add: ActiveRowCount_def)
      then show ?thesis using Consume_rows [of b' "chain_types op types" groups calls rows outputs st] b' assms(2,7,8) Inr Some
        by (simp add: absorb_batch_def)
    qed
  qed
qed

text \<open>The next batch of a scan that delivers rows of \<open>all\<close> is absorbed.\<close>

lemma absorb_next:
  assumes "is_chain op" "chain_batch op' = chain_batch op" "batch_ok out" "map cd_type (vb_columns out) = types" "active_rows out \<noteq> []"
    and below: "mset (concat (map active_rows (bs @ [out]))) \<subseteq># mset all"
    and all: "chain_ok op types all" "aggregable (chain_types op types) groups calls (chain_rows op types all)"
    and done_rows: "mset (concat rowss) = mset (chain_rows op types (concat (map active_rows bs)))" "rows \<in> set rowss"
    and st: "aggregates groups calls outputs (keyed_rows (chain_types op types) groups calls rows) st"
  shows "\<exists>st'. absorb_batch op' out st = Inr st' \<and>
    aggregates groups calls outputs (keyed_rows (chain_types op types) groups calls (rows @ chain_rows op types (active_rows out))) st'"
proof (rule absorb_batch_rows [OF assms(1-5) _ _ st])
  have "mset (active_rows out) \<subseteq># mset (concat (map active_rows (bs @ [out])))" by simp
  then show "chain_ok op types (active_rows out)" using below all(1) chain_below(1) subset_mset.order_trans by blast
  have "mset rows \<subseteq># mset (concat rowss)" by (rule mset_concat_below [OF done_rows(2)])
  then have "mset (rows @ chain_rows op types (active_rows out)) \<subseteq># mset (chain_rows op types (concat (map active_rows (bs @ [out]))))"
    using done_rows(1) by (simp add: chain_rows_append)
  then have "mset (rows @ chain_rows op types (active_rows out)) \<subseteq># mset (chain_rows op types all)"
    using chain_below(2) [OF below, of op types] subset_mset.order_trans by blast
  then show "aggregable (chain_types op types) groups calls (rows @ chain_rows op types (active_rows out))"
    using aggregable_below all(2) by blast
qed

lemma finished_workers_update:
  assumes "w < length wks" "aw_status (wks ! w) \<noteq> Finished"
  shows "finished_workers (wks[w := wk]) = (if aw_status wk = Finished then insert w (finished_workers wks) else finished_workers wks)"
  using assms by (auto simp: finished_workers_def nth_list_update)

text \<open>Every step keeps the invariant and makes the work smaller, and a worker that is not over has one.\<close>

lemma aggregate_worker_inv:
  assumes source: "scan_source db i options ps sbs t" "BuildNode (db_catalog db) None plan = Inr (op, schema)" "chain_scan op = Some (i, options)"
    and rows: "chain_ok op (table_types options t) (table_rows options sbs t)"
      "aggregable (chain_types op (table_types options t)) groups calls (chain_rows op (table_types options t) (table_rows options sbs t))"
    and inv: "aggregate_inv (tst_schema t) options prepared sbs op groups calls outputs run"
    and w: "w < length (ag_workers run)" "\<not> worker_over (aw_status (ag_workers run ! w))"
  shows "\<exists>run'. aggregate_worker_step db plan options w run = Some run' \<and>
    aggregate_inv (tst_schema t) options prepared sbs op groups calls outputs run' \<and> aggregate_work sbs run' < aggregate_work sbs run \<and>
    length (ag_workers run') = length (ag_workers run)"
proof -
  let ?s = "tst_schema t" and ?types = "table_types options t" and ?wk = "ag_workers run ! w"
  let ?inv = "\<lambda>rows wk. aggregates groups calls outputs (keyed_rows (chain_types op ?types) groups calls rows) (aw_state wk)"
  obtain bs rowss where i: "parallel_inv ?s options prepared sbs (aggregate_scan bs run)" "\<forall>wk\<in>set (ag_workers run). status_ok op (aw_status wk)"
      "list_all2 ?inv rowss (ag_workers run)" "mset (concat rowss) = mset (chain_rows op ?types (concat (map active_rows bs)))"
    using inv by (auto simp: aggregate_inv_def)
  have len: "length rowss = length (ag_workers run)" using i(3) by (rule list_all2_lengthD)
  have "status_ok op (aw_status ?wk)" using i(2) w(1) by simp
  then consider (submitted) "aw_status ?wk = Submitted" | (running) op' where "aw_status ?wk = Running op'" "chain_batch op' = chain_batch op"
    using w(2) by (auto simp: status_ok_def worker_over_def split: worker_status.splits)
  then show ?thesis
  proof cases
    case submitted
    obtain op' where op': "worker_start db (ag_global run) plan = Inr op'" "chain_batch op' = chain_batch op"
      using worker_start_ok [OF source] by blast
    define wk' where "wk' = ?wk\<lparr>aw_status := Running op'\<rparr>"
    define run' where "run' = run\<lparr>ag_workers := (ag_workers run)[w := wk']\<rparr>"
    have same: "aggregate_scan bs run' = aggregate_scan bs run" for bs
      using w(1) submitted by (simp add: aggregate_scan_def run'_def finished_workers_update map_update wk'_def) (metis list_update_id map_update nth_map)
    have "length (filter (\<lambda>wk. aw_status wk = Submitted) (ag_workers run')) < length (filter (\<lambda>wk. aw_status wk = Submitted) (ag_workers run))"
      using filter_update_length [OF w(1), of "\<lambda>wk. aw_status wk = Submitted" wk'] submitted by (simp add: run'_def wk'_def)
    then have "aggregate_work sbs run' < aggregate_work sbs run" by (simp add: aggregate_work_def same)
    moreover have "aggregate_inv ?s options prepared sbs op groups calls outputs run'"
      unfolding aggregate_inv_def same
    proof (intro exI conjI)
      show "\<forall>wk\<in>set (ag_workers run'). status_ok op (aw_status wk)"
        using i(2) op'(2) set_update_subset_insert [of "ag_workers run" w wk'] by (auto simp: run'_def wk'_def status_ok_def)
      show "list_all2 ?inv rowss (ag_workers run')"
        using i(3) w(1) len by (auto simp: run'_def wk'_def list_all2_conv_all_nth nth_list_update)
    qed (use i in simp_all)
    ultimately show ?thesis using submitted op'(1) by (simp add: aggregate_worker_step_def Let_def run'_def wk'_def)
  next
    case running
    have notdone: "w < length (pc_locals (aggregate_scan bs run))" "w \<notin> pc_done (aggregate_scan bs run)"
      using w(1) running by (simp_all add: aggregate_scan_def finished_workers_def)
    obtain step g l out t' where p: "parallel_body options (ag_global run) (aw_local ?wk) (aw_batch ?wk) (ag_table run) = Inr (step, g, l, out, t')"
        "parallel_inv ?s options prepared sbs (worker_passed w (step, g, l, out, t') (aggregate_scan bs run))"
        "parallel_work sbs (worker_passed w (step, g, l, out, t') (aggregate_scan bs run)) < parallel_work sbs (aggregate_scan bs run)"
        "step = Scan_batch \<Longrightarrow> batch_ok out \<and> map cd_type (vb_columns out) = ?types \<and> active_rows out \<noteq> []"
    proof (rule scan_pass [OF i(1) notdone, of "aw_batch ?wk"])
      fix step g l out t'
      assume "parallel_body options (pc_global (aggregate_scan bs run)) (pc_locals (aggregate_scan bs run) ! w) (aw_batch ?wk)
          (pc_table (aggregate_scan bs run)) = Inr (step, g, l, out, t')"
      then have "parallel_body options (ag_global run) (aw_local ?wk) (aw_batch ?wk) (ag_table run) = Inr (step, g, l, out, t')"
        using w(1) by (simp add: aggregate_scan_def)
      note pass = that [OF this]
      assume "parallel_inv ?s options prepared sbs (worker_passed w (step, g, l, out, t') (aggregate_scan bs run))"
        "parallel_work sbs (worker_passed w (step, g, l, out, t') (aggregate_scan bs run)) < parallel_work sbs (aggregate_scan bs run)"
        "step = Scan_batch \<Longrightarrow> batch_ok out \<and> map cd_type (vb_columns out) = ?types \<and> active_rows out \<noteq> []"
      then show thesis by (rule pass)
    qed
    define wk' where "wk' = aggregate_passed op' step l out ?wk"
    define run' where "run' = run\<lparr>ag_global := g, ag_table := t', ag_workers := (ag_workers run)[w := wk']\<rparr>"
    define bs' where "bs' = bs @ (if step = Scan_batch then [out] else [])"
    have step: "aggregate_worker_step db plan options w run = Some run'"
      using running p(1) by (simp add: aggregate_worker_step_def Let_def run'_def wk'_def)
    let ?new = "if step = Scan_batch then chain_rows op ?types (active_rows out) else []"
    have state: "?inv (rowss ! w @ ?new) wk' \<and> aw_local wk' = l \<and> status_ok op (aw_status wk') \<and> (aw_status wk' = Finished \<longleftrightarrow> step = Scan_end) \<and>
        aw_status wk' \<noteq> Submitted"
    proof (cases "step = Scan_batch")
      case True
      note b = p(4) [OF True]
      have below: "mset (concat (map active_rows (bs @ [out]))) \<subseteq># mset (table_rows options sbs t)"
        using delivered_below [OF p(2)] True by (simp add: worker_passed_def aggregate_scan_def)
      have r: "rowss ! w \<in> set rowss" "?inv (rowss ! w) ?wk" using i(3) w(1) len by (simp_all add: list_all2_conv_all_nth)
      obtain st where "absorb_batch op' out (aw_state ?wk) = Inr st"
        "aggregates groups calls outputs (keyed_rows (chain_types op ?types) groups calls (rowss ! w @ chain_rows op ?types (active_rows out))) st"
        using absorb_next [OF chain_scan_is_chain [OF source(3)] running(2) _ _ _ below rows i(4) r] b by blast
      then show ?thesis using True running by (simp add: wk'_def aggregate_passed_def Let_def status_ok_def)
    next
      case False
      have "?inv (rowss ! w) ?wk" using i(3) w(1) len by (simp add: list_all2_conv_all_nth)
      then show ?thesis using False running
        by (cases step) (simp_all add: wk'_def aggregate_passed_def Let_def status_ok_def)
    qed
    have scan: "worker_passed w (step, g, l, out, t') (aggregate_scan bs run) = aggregate_scan bs' run'"
      using w(1) running state finished_workers_update [of w "ag_workers run" wk']
      by (simp add: worker_passed_def aggregate_scan_def run'_def bs'_def map_update)
    have work: "parallel_work sbs (aggregate_scan xs r) = parallel_work sbs (aggregate_scan ys r)" for xs ys r
      by (simp add: parallel_work_def aggregate_scan_def)
    have subs: "length (filter (\<lambda>wk. aw_status wk = Submitted) (ag_workers run')) = length (filter (\<lambda>wk. aw_status wk = Submitted) (ag_workers run))"
      using filter_update_length [OF w(1), of "\<lambda>wk. aw_status wk = Submitted" wk'] running state by (simp add: run'_def)
    have "aggregate_work sbs run' < aggregate_work sbs run"
      using p(3) work [of bs' run' "[]"] work [of bs run "[]"] unfolding scan aggregate_work_def subs by linarith
    moreover have "aggregate_inv ?s options prepared sbs op groups calls outputs run'"
      unfolding aggregate_inv_def
    proof (intro exI conjI)
      show "parallel_inv ?s options prepared sbs (aggregate_scan bs' run')" using p(2) scan by simp
      show "\<forall>wk\<in>set (ag_workers run'). status_ok op (aw_status wk)"
        using i(2) state set_update_subset_insert [of "ag_workers run" w wk'] by (auto simp: run'_def)
      show "list_all2 ?inv (rowss[w := rowss ! w @ ?new]) (ag_workers run')"
        using i(3) w(1) len state by (auto simp: run'_def list_all2_conv_all_nth nth_list_update)
      have "mset (concat (rowss[w := rowss ! w @ ?new])) = mset (concat rowss) + mset ?new" using w(1) len by (intro concat_update) simp
      then show "mset (concat (rowss[w := rowss ! w @ ?new])) = mset (chain_rows op ?types (concat (map active_rows bs')))"
        using i(4) by (simp add: bs'_def chain_rows_append)
    qed
    ultimately show ?thesis using step by (simp add: run'_def)
  qed
qed

lemma aggregate_reachable:
  assumes source: "scan_source db i options ps sbs t" "BuildNode (db_catalog db) None plan = Inr (op, schema)" "chain_scan op = Some (i, options)"
    and rows: "chain_ok op (table_types options t) (table_rows options sbs t)"
      "aggregable (chain_types op (table_types options t)) groups calls (chain_rows op (table_types options t) (table_rows options sbs t))"
    and steps: "(aggregate_step db plan options)\<^sup>*\<^sup>* start run"
      "aggregate_inv (tst_schema t) options prepared sbs op groups calls outputs start"
  shows "aggregate_inv (tst_schema t) options prepared sbs op groups calls outputs run \<and> length (ag_workers run) = length (ag_workers start)"
  using steps
proof (induction rule: rtranclp_induct)
  case (step run run')
  from step.hyps(2) obtain w where w: "w < length (ag_workers run)" "aggregate_worker_step db plan options w run = Some run'"
    by (blast elim: aggregate_stepE)
  then have "\<not> worker_over (aw_status (ag_workers run ! w))"
    by (auto simp: aggregate_worker_step_def Let_def worker_over_def split: worker_status.splits)
  from aggregate_worker_inv [OF source rows conjunct1 [OF step.IH [OF step.prems]] w(1) this] w(2) step.IH [OF step.prems] show ?case by auto
qed simp

lemma aggregate_finishes:
  assumes source: "scan_source db i options ps sbs t" "BuildNode (db_catalog db) None plan = Inr (op, schema)" "chain_scan op = Some (i, options)"
    and rows: "chain_ok op (table_types options t) (table_rows options sbs t)"
      "aggregable (chain_types op (table_types options t)) groups calls (chain_rows op (table_types options t) (table_rows options sbs t))"
    and start: "aggregate_inv (tst_schema t) options prepared sbs op groups calls outputs start"
  shows "\<exists>run. (aggregate_step db plan options)\<^sup>*\<^sup>* start run \<and> aggregate_over run"
  using start
proof (induction "aggregate_work sbs start" arbitrary: start rule: less_induct)
  case less
  show ?case
  proof (cases "aggregate_over start")
    case False
    then obtain w where w: "w < length (ag_workers start)" "\<not> worker_over (aw_status (ag_workers start ! w))"
      by (auto simp: aggregate_over_def in_set_conv_nth)
    from aggregate_worker_inv [OF source rows less.prems w] obtain run where
      "aggregate_worker_step db plan options w start = Some run" "aggregate_inv (tst_schema t) options prepared sbs op groups calls outputs run"
      "aggregate_work sbs run < aggregate_work sbs start" by blast
    moreover from this have "aggregate_step db plan options start run" using w(1) aggregate_step.step by blast
    ultimately show ?thesis using less.hyps [of run] by (meson converse_rtranclp_into_rtranclp)
  qed auto
qed

text \<open>Merging the states of the workers is aggregating all their rows.\<close>

lemma collect_workers:
  assumes "list_all2 (\<lambda>rows wk. aggregates groups calls outputs (keyed_rows types groups calls rows) (aw_state wk)) rowss wks"
    and "\<forall>wk\<in>set wks. aw_status wk = Finished" "aggregates groups calls outputs (keyed_rows types groups calls rows) st"
    and "aggregable types groups calls (rows @ concat rowss)" "\<And>table. mset (order table) = mset table"
  shows "\<exists>st'. fold (collect_worker order) wks (st, None) = (st', None) \<and>
    aggregates groups calls outputs (keyed_rows types groups calls (rows @ concat rowss)) st'"
  using assms(1-4)
proof (induction rowss wks arbitrary: rows st rule: list_all2_induct)
  case (Cons new rowss wk wks)
  have agg: "aggregable types groups calls (rows @ new)"
    using Cons.prems(3) aggregable_append(1) [of types groups calls "rows @ new" "concat rowss"] by simp
  have "groups = [] \<longrightarrow> (\<forall>t\<in>set (keyed_rows types groups calls rows @ keyed_rows types groups calls new). fst t = [])"
    by (auto simp: keyed_row_no_groups)
  from Merge_tables [OF Cons.prems(2) Cons.hyps(1) aggregable_append(3) [OF agg] this assms(5)] obtain st' where
    st': "Merge order (aw_state wk) st = Inr st'" "aggregates groups calls outputs (keyed_rows types groups calls (rows @ new)) st'" by auto
  then show ?case using Cons.IH [of "rows @ new" st'] Cons.prems by (simp add: collect_worker_def)
qed simp

lemma aggregate_finished:
  assumes inv: "aggregate_inv (tst_schema t) options prepared sbs op (ba_group_exprs spec) (ba_agg_calls spec) (ba_outputs spec) run"
      "aggregate_over run" "ag_workers run \<noteq> []"
    and rows: "rows = chain_rows op (table_types options t) (table_rows options sbs t)" "types = chain_types op (table_types options t)"
      "aggregable types (ba_group_exprs spec) (ba_agg_calls spec) rows" "outputs_ok types (ba_group_exprs spec) (ba_agg_calls spec) (ba_outputs spec) rows"
    and order: "\<And>table. mset (order table) = mset table"
  shows "\<exists>bs n. aggregate_finish order spec db run = Some (bs, Inr (query_result (ba_output_schema spec) n, db)) \<and>
    mset (concat (map active_rows bs)) = aggregate_answer types (ba_group_exprs spec) (ba_agg_calls spec) (ba_outputs spec) rows \<and>
    delivered_ok (map ao_type (ba_outputs spec)) bs \<and>
    n = word_of_nat (size (aggregate_answer types (ba_group_exprs spec) (ba_agg_calls spec) (ba_outputs spec) rows))"
proof -
  let ?groups = "ba_group_exprs spec" and ?calls = "ba_agg_calls spec" and ?outputs = "ba_outputs spec"
  obtain bs rowss where i: "parallel_inv (tst_schema t) options prepared sbs (aggregate_scan bs run)"
      "\<forall>wk\<in>set (ag_workers run). status_ok op (aw_status wk)"
      "list_all2 (\<lambda>rows wk. aggregates ?groups ?calls ?outputs (keyed_rows types ?groups ?calls rows) (aw_state wk)) rowss (ag_workers run)"
      "mset (concat rowss) = mset (chain_rows op (table_types options t) (concat (map active_rows bs)))"
    using inv(1) unfolding aggregate_inv_def rows(2) by blast
  have fin: "\<forall>wk\<in>set (ag_workers run). aw_status wk = Finished"
    using i(2) inv(2) by (fastforce simp: aggregate_over_def status_ok_def worker_over_def split: worker_status.splits)
  then have "pc_done (aggregate_scan bs run) = {..<length (pc_locals (aggregate_scan bs run))}"
    by (auto simp: aggregate_scan_def finished_workers_def)
  from parallel_all_done [OF i(1) this] inv(3) have "mset (concat (map active_rows bs)) = mset (table_rows options sbs t)"
    by (simp add: aggregate_scan_def)
  then have all: "mset (concat rowss) = mset rows" using i(4) chain_mset(1) rows(1) by metis
  then have "aggregable types ?groups ?calls (concat rowss)" using aggregable_cong rows(3) by blast
  then obtain st where st: "fold (collect_worker order) (ag_workers run) (new_aggregate_state ?groups ?calls ?outputs, None) = (st, None)"
      "aggregates ?groups ?calls ?outputs (keyed_rows types ?groups ?calls (concat rowss)) st"
    using collect_workers [OF i(3) fin, of "[]" "new_aggregate_state ?groups ?calls ?outputs" order] order by (auto simp: aggregates_new)
  have "mset (keyed_rows types ?groups ?calls (concat rowss)) = mset (keyed_rows types ?groups ?calls rows)" using all by simp
  from st(2) [unfolded aggregates_cong [OF this]] have
    answer: "result_ready order ?calls ?outputs st" "mset (result_rows order ?calls ?outputs st) = aggregate_answer types ?groups ?calls ?outputs rows"
    using aggregates_answer [OF _ order rows(3,4)] by blast+
  from aggregate_result.consume_loop_rows [OF answer(1), of 0 "[]"] obtain out where
    "consume_loop (\<lambda>st. Some (NextResult order st)) st 0 [] = Some (out, Inr (word_of_nat (length (result_rows order ?calls ?outputs st))))"
    "concat (map active_rows out) = result_rows order ?calls ?outputs st" "delivered_ok (map ao_type ?outputs) out"
    by (auto simp: delivered_ok_def)
  moreover have "length (result_rows order ?calls ?outputs st) = size (aggregate_answer types ?groups ?calls ?outputs rows)"
    using arg_cong [OF answer(2), of size] by simp
  ultimately show ?thesis using st(1) answer(2) by (simp add: aggregate_finish_def)
qed

lemma aggregate_start_inv:
  assumes "parallel_inv s options prepared sbs (parallel_start g n t)"
  shows "aggregate_inv s options prepared sbs op groups calls outputs (aggregate_start n g t (new_aggregate_state groups calls outputs))"
proof -
  have "aggregate_scan [] (aggregate_start n g t (new_aggregate_state groups calls outputs)) = parallel_start g n t"
    by (auto simp: aggregate_scan_def aggregate_start_def parallel_start_def finished_workers_def)
  then show ?thesis using assms unfolding aggregate_inv_def
    by (intro exI [of _ "[]"] exI [of _ "replicate n []"])
      (auto simp: aggregate_start_def status_ok_def list_all2_conv_all_nth aggregates_new in_set_replicate)
qed

lemma ResolveWorkerCount_pos: "0 < ResolveWorkerCount config pool_threads arenas g"
  by (simp add: ResolveWorkerCount_def Let_def less_max_iff_disj)

text \<open>A parallel aggregation computes what the aggregation of all the rows of its scan means, whatever the number of workers
  and the schedule: it has an outcome, and every outcome is a result, whose batches hold the same groups with the same values
  as the serial one, counted in the result.\<close>

lemma parallel_aggregate_rows:
  assumes "scan_source db i options ps sbs t" "BuildNode (db_catalog db) None child = Inr (op, schema)" "chain_scan op = Some (i, options)"
    and "BuildAggregateSpec group_by outs schema = Inr spec"
    and "chain_ok op (table_types options t) (table_rows options sbs t)"
    and "rows = chain_rows op (table_types options t) (table_rows options sbs t)" "types = chain_types op (table_types options t)"
    and "aggregable types (ba_group_exprs spec) (ba_agg_calls spec) rows" "outputs_ok types (ba_group_exprs spec) (ba_agg_calls spec) (ba_outputs spec) rows"
    and "\<And>table. mset (order table) = mset table"
    and "expected = aggregate_answer types (ba_group_exprs spec) (ba_agg_calls spec) (ba_outputs spec) rows"
  shows "(\<exists>out. ExecuteAggregate order config pool_threads arenas db group_by outs child out) \<and>
    (\<forall>out. ExecuteAggregate order config pool_threads arenas db group_by outs child out \<longrightarrow>
       snd out = Inr (query_result (ba_output_schema spec) (word_of_nat (size expected)), db) \<and>
       mset (concat (map active_rows (fst out))) = expected \<and> delivered_ok (map ao_type (ba_outputs spec)) (fst out))"
proof -
  let ?p = "if so_predicates options = [] then None else Some ps"
  let ?groups = "ba_group_exprs spec" and ?calls = "ba_agg_calls spec" and ?outputs = "ba_outputs spec"
  obtain g where g: "parallel_setup ''ParallelExecutor: aggregate child pipeline has no SeqScan'' db child = Inr (options, t, g, db)"
      "\<And>n. parallel_inv (tst_schema t) options ?p sbs (parallel_start g n t)"
    using parallel_setup_ok [OF assms(1-3)] by blast
  define start where "start = aggregate_start (ResolveWorkerCount config pool_threads arenas g) g t (new_aggregate_state ?groups ?calls ?outputs)"
  have begun: "aggregate_setup config pool_threads arenas db group_by outs child = Inr (options, spec, start, db)"
    using assms(2,4) g(1) by (simp add: aggregate_setup_def start_def)
  have inv: "aggregate_inv (tst_schema t) options ?p sbs op ?groups ?calls ?outputs start"
    unfolding start_def by (rule aggregate_start_inv [OF g(2)])
  have agg: "aggregable (chain_types op (table_types options t)) ?groups ?calls (chain_rows op (table_types options t) (table_rows options sbs t))"
    using assms(6-8) by simp
  have finish: "\<exists>bs n. aggregate_finish order spec db run = Some (bs, Inr (query_result (ba_output_schema spec) n, db)) \<and>
      mset (concat (map active_rows bs)) = expected \<and> delivered_ok (map ao_type ?outputs) bs \<and> n = word_of_nat (size expected)"
    if "(aggregate_step db child options)\<^sup>*\<^sup>* start run" "aggregate_over run" for run
  proof -
    from aggregate_reachable [OF assms(1-3,5) agg that(1) inv] have
      r: "aggregate_inv (tst_schema t) options ?p sbs op ?groups ?calls ?outputs run" "ag_workers run \<noteq> []"
      using ResolveWorkerCount_pos [of config pool_threads arenas g] by (auto simp: start_def aggregate_start_def)
    show ?thesis unfolding assms(11) by (rule aggregate_finished [OF r(1) that(2) r(2) assms(6-10)])
  qed
  obtain run where run: "(aggregate_step db child options)\<^sup>*\<^sup>* start run" "aggregate_over run"
    using aggregate_finishes [OF assms(1-3,5) agg inv] by blast
  then obtain out where "aggregate_finish order spec db run = Some out" using finish by blast
  then have "ExecuteAggregate order config pool_threads arenas db group_by outs child out"
    using begun run ExecuteAggregate.finished by blast
  moreover have "snd out = Inr (query_result (ba_output_schema spec) (word_of_nat (size expected)), db) \<and>
      mset (concat (map active_rows (fst out))) = expected \<and> delivered_ok (map ao_type ?outputs) (fst out)"
    if "ExecuteAggregate order config pool_threads arenas db group_by outs child out" for out
    using that
  proof (cases rule: ExecuteAggregate.cases)
    case (finished options' spec' start' db' run')
    then show ?thesis using begun finish [of run'] by auto
  qed (use begun in simp)
  ultimately show ?thesis by blast
qed

end
