(* ===== verification/Parallel_Query.thy ===== *)
theory Parallel_Query
  imports Parallel_Exact
begin

text \<open>
  The runs of a plain query of the parallel executor: what the consumer has been given, what waits in the queue and what
  the workers are about to push is together what the chain makes of the batches scanned so far, and the queue is closed exactly
  when every worker is gone.
\<close>

subsection \<open>The invariant of a run\<close>

definition chain_output :: "operator \<Rightarrow> data_type list \<Rightarrow> vector_batch \<Rightarrow> bool" where
  "chain_output op types b \<longleftrightarrow> batch_ok b \<and> map cd_type (vb_columns b) = chain_types op types \<and> active_rows b \<noteq> []"

definition query_status_ok :: "operator \<Rightarrow> data_type list \<Rightarrow> query_status \<Rightarrow> bool" where
  "query_status_ok op types s =
     (case s of
        Q_running op' \<Rightarrow> chain_batch op' = chain_batch op
      | Q_pushing op' b \<Rightarrow> chain_batch op' = chain_batch op \<and> chain_output op types b
      | Q_refused \<Rightarrow> False | Q_failing e \<Rightarrow> False | Q_aborting e \<Rightarrow> False
      | _ \<Rightarrow> True)"

definition past_scan :: "query_status \<Rightarrow> bool" where
  "past_scan s \<longleftrightarrow> s \<in> {Q_leaving, Q_closing, Q_gone}"

definition query_scan :: "vector_batch list \<Rightarrow> query_run \<Rightarrow> parallel_config" where
  "query_scan bs run = \<lparr>pc_global = qr_global run, pc_locals = map qw_local (qr_workers run),
     pc_done = {w. w < length (qr_workers run) \<and> past_scan (qw_status (qr_workers run ! w))}, pc_batches = bs, pc_table = qr_table run\<rparr>"

definition pending_rows :: "query_worker \<Rightarrow> bytes list list" where
  "pending_rows wk = (case qw_status wk of Q_pushing op b \<Rightarrow> active_rows b | _ \<Rightarrow> [])"

definition staying :: "query_worker \<Rightarrow> nat" where
  "staying wk = (if qw_status wk \<in> {Q_closing, Q_gone} then 0 else 1)"

definition is_closing :: "query_worker \<Rightarrow> nat" where
  "is_closing wk = (if qw_status wk = Q_closing then 1 else 0)"

definition status_work :: "query_worker \<Rightarrow> nat" where
  "status_work wk = (case qw_status wk of Q_submitted \<Rightarrow> 1 | Q_pushing op b \<Rightarrow> 2 | Q_leaving \<Rightarrow> 2 | Q_closing \<Rightarrow> 1 | _ \<Rightarrow> 0)"

definition passed_on :: "query_run \<Rightarrow> vector_batch list" where
  "passed_on run = qr_delivered run @ bq_queue (qr_queue run)"

text \<open>Some worker has not left yet, or the last one is closing the queue, or the queue is closed.\<close>

definition phase :: "query_run \<Rightarrow> nat" where
  "phase run = (if qr_active run > 0 then 1 else 0) + (if bq_closed (qr_queue run) then 1 else 0)"

definition queue_ok :: "'a blocking_queue \<Rightarrow> bool" where
  "queue_ok q \<longleftrightarrow> 0 < bq_capacity q \<and> \<not> bq_aborted q \<and> \<not> bq_cancelled q \<and> bq_error q = None"

definition query_inv ::
  "table_schema \<Rightarrow> scan_options \<Rightarrow> prepared_predicate list option \<Rightarrow> (segment_id \<times> segment_builder) list \<Rightarrow> operator \<Rightarrow>
   vector_batch list \<Rightarrow> query_run \<Rightarrow> bool" where
  "query_inv s options prepared sbs op bs run \<longleftrightarrow>
     parallel_inv s options prepared sbs (query_scan bs run) \<and>
     (\<forall>wk\<in>set (qr_workers run). query_status_ok op (scan_types s options) (qw_status wk)) \<and>
     mset (concat (map active_rows (passed_on run))) + (\<Sum>wk\<leftarrow>qr_workers run. mset (pending_rows wk)) =
       mset (chain_rows op (scan_types s options) (concat (map active_rows bs))) \<and>
     (\<forall>b\<in>set (passed_on run). chain_output op (scan_types s options) b) \<and>
     qr_row_count run = word_of_nat (length (concat (map active_rows (qr_delivered run)))) \<and>
     qr_active run = (\<Sum>wk\<leftarrow>qr_workers run. staying wk) \<and>
     phase run + (\<Sum>wk\<leftarrow>qr_workers run. is_closing wk) = 1 \<and>
     queue_ok (qr_queue run) \<and>
     (qr_ended run \<longrightarrow> bq_queue (qr_queue run) = [] \<and> bq_closed (qr_queue run))"

definition query_work :: "(segment_id \<times> segment_builder) list \<Rightarrow> query_run \<Rightarrow> nat" where
  "query_work sbs run = 4 * parallel_work sbs (query_scan [] run) + (\<Sum>wk\<leftarrow>qr_workers run. status_work wk) +
     length (bq_queue (qr_queue run)) + (if qr_ended run then 0 else 1)"

lemma query_work_scan: "parallel_work sbs (query_scan bs run) = parallel_work sbs (query_scan [] run)"
  by (simp add: parallel_work_def query_scan_def)

lemma chain_output_size: "chain_output op types b \<Longrightarrow> ActiveRowCount b = length (active_rows b) \<and> ActiveRowCount b > 0"
  using batch_ok_size [of b] by (simp add: chain_output_def ActiveRowCount_def)

text \<open>One worker changes: what its step has to keep.\<close>

lemma query_inv_update:
  assumes inv: "query_inv s options prepared sbs op bs run" and w: "w < length (qr_workers run)"
    and same: "qr_workers run' = (qr_workers run)[w := wk]" "qr_delivered run' = qr_delivered run" "qr_row_count run' = qr_row_count run"
      "qr_ended run' = qr_ended run"
    and scan: "parallel_inv s options prepared sbs (query_scan bs' run')" "query_status_ok op (scan_types s options) (qw_status wk)"
    and rows: "mset (concat (map active_rows (bq_queue (qr_queue run')))) + mset (pending_rows wk) +
        mset (chain_rows op (scan_types s options) (concat (map active_rows bs))) =
      mset (concat (map active_rows (bq_queue (qr_queue run)))) + mset (pending_rows (qr_workers run ! w)) +
        mset (chain_rows op (scan_types s options) (concat (map active_rows bs')))"
    and batches: "\<forall>b\<in>set (bq_queue (qr_queue run')). b \<in> set (bq_queue (qr_queue run)) \<or> chain_output op (scan_types s options) b"
    and leaving: "qr_active run' + staying (qr_workers run ! w) = qr_active run + staying wk"
      "phase run' + is_closing wk = phase run + is_closing (qr_workers run ! w)"
    and queue: "queue_ok (qr_queue run')" "qr_ended run \<Longrightarrow> bq_queue (qr_queue run') = [] \<and> bq_closed (qr_queue run')"
  shows "query_inv s options prepared sbs op bs' run'"
proof -
  note i = inv [unfolded query_inv_def]
  have sums: "(\<Sum>wk\<leftarrow>qr_workers run'. mset (pending_rows wk)) + mset (pending_rows (qr_workers run ! w)) =
      (\<Sum>wk\<leftarrow>qr_workers run. mset (pending_rows wk)) + mset (pending_rows wk)"
    "(\<Sum>wk\<leftarrow>qr_workers run'. staying wk) + staying (qr_workers run ! w) = (\<Sum>wk\<leftarrow>qr_workers run. staying wk) + staying wk"
    "(\<Sum>wk\<leftarrow>qr_workers run'. is_closing wk) + is_closing (qr_workers run ! w) = (\<Sum>wk\<leftarrow>qr_workers run. is_closing wk) + is_closing wk"
    unfolding same(1) by (rule sum_list_replace [OF w])+
  have "mset (concat (map active_rows (passed_on run'))) + (\<Sum>wk\<leftarrow>qr_workers run'. mset (pending_rows wk)) =
      mset (chain_rows op (scan_types s options) (concat (map active_rows bs')))"
  proof -
    have "mset (concat (map active_rows (passed_on run'))) + (\<Sum>wk\<leftarrow>qr_workers run'. mset (pending_rows wk)) +
        (mset (pending_rows (qr_workers run ! w)) + mset (chain_rows op (scan_types s options) (concat (map active_rows bs)))) =
      mset (chain_rows op (scan_types s options) (concat (map active_rows bs'))) +
        (mset (pending_rows (qr_workers run ! w)) + mset (chain_rows op (scan_types s options) (concat (map active_rows bs))))"
      (is "?l + (?p + ?c) = ?c' + (?p + ?c)")
    proof -
      let ?d = "mset (concat (map active_rows (qr_delivered run)))" and ?q = "mset (concat (map active_rows (bq_queue (qr_queue run))))"
      and ?q' = "mset (concat (map active_rows (bq_queue (qr_queue run'))))" and ?n = "mset (pending_rows wk)"
      have "?l + (?p + ?c) = ?d + ?q' + ((\<Sum>wk\<leftarrow>qr_workers run'. mset (pending_rows wk)) + ?p) + ?c"
        by (simp add: passed_on_def same(2) ac_simps)
      also have "\<dots> = ?d + ?q' + ((\<Sum>wk\<leftarrow>qr_workers run. mset (pending_rows wk)) + ?n) + ?c" by (simp only: sums(1))
      also have "\<dots> = ?d + (\<Sum>wk\<leftarrow>qr_workers run. mset (pending_rows wk)) + (?q' + ?n + ?c)" by (simp add: ac_simps)
      also have "\<dots> = ?d + (\<Sum>wk\<leftarrow>qr_workers run. mset (pending_rows wk)) + (?q + ?p + ?c')" by (simp only: rows)
      also have "\<dots> = (?d + ?q + (\<Sum>wk\<leftarrow>qr_workers run. mset (pending_rows wk))) + ?p + ?c'" by (simp add: ac_simps)
      also have "?d + ?q + (\<Sum>wk\<leftarrow>qr_workers run. mset (pending_rows wk)) = ?c" using i by (simp add: passed_on_def)
      finally show ?thesis by (simp add: ac_simps)
    qed
    then show ?thesis by simp
  qed
  moreover have "\<forall>wk\<in>set (qr_workers run'). query_status_ok op (scan_types s options) (qw_status wk)"
    using i scan(2) set_update_subset_insert [of "qr_workers run" w wk] by (auto simp: same(1))
  moreover have "\<forall>b\<in>set (passed_on run'). chain_output op (scan_types s options) b"
    using i batches by (auto simp: passed_on_def same(2))
  moreover have "qr_active run = (\<Sum>wk\<leftarrow>qr_workers run. staying wk)" "phase run + (\<Sum>wk\<leftarrow>qr_workers run. is_closing wk) = 1"
    using i by simp_all
  then have "qr_active run' = (\<Sum>wk\<leftarrow>qr_workers run'. staying wk)" "phase run' + (\<Sum>wk\<leftarrow>qr_workers run'. is_closing wk) = 1"
    using sums(2,3) leaving by linarith+
  moreover have "qr_row_count run' = word_of_nat (length (concat (map active_rows (qr_delivered run'))))" using i by (simp add: same)
  moreover have "qr_ended run' \<longrightarrow> bq_queue (qr_queue run') = [] \<and> bq_closed (qr_queue run')" using queue(2) by (simp add: same)
  ultimately show ?thesis unfolding query_inv_def using scan(1) queue(1) by blast
qed

text \<open>Its share of the work.\<close>

lemma query_work_update:
  assumes "w < length (qr_workers run)" "qr_workers run' = (qr_workers run)[w := wk]" "qr_ended run' = qr_ended run"
    and "4 * parallel_work sbs (query_scan bs' run') + status_work wk + length (bq_queue (qr_queue run')) <
      4 * parallel_work sbs (query_scan bs run) + status_work (qr_workers run ! w) + length (bq_queue (qr_queue run))"
  shows "query_work sbs run' < query_work sbs run"
proof -
  have "(\<Sum>wk\<leftarrow>qr_workers run'. status_work wk) + status_work (qr_workers run ! w) = (\<Sum>wk\<leftarrow>qr_workers run. status_work wk) + status_work wk"
    unfolding assms(2) by (rule sum_list_replace [OF assms(1)])
  then show ?thesis using assms(3,4) unfolding query_work_def query_work_scan [of sbs bs' run'] query_work_scan [of sbs bs run] by simp
qed

subsection \<open>The steps of a worker\<close>

definition query_advances ::
  "table_schema \<Rightarrow> scan_options \<Rightarrow> prepared_predicate list option \<Rightarrow> (segment_id \<times> segment_builder) list \<Rightarrow> operator \<Rightarrow>
   query_run \<Rightarrow> query_run option \<Rightarrow> bool" where
  "query_advances s options prepared sbs op run r \<longleftrightarrow>
     (\<exists>run' bs. r = Some run' \<and> query_inv s options prepared sbs op bs run' \<and> query_work sbs run' < query_work sbs run \<and>
        length (qr_workers run') = length (qr_workers run))"

lemma query_scan_same:
  assumes "w < length (qr_workers run)" "qr_workers run' = (qr_workers run)[w := (qr_workers run ! w)\<lparr>qw_status := s\<rparr>]"
    and "past_scan s \<longleftrightarrow> past_scan (qw_status (qr_workers run ! w))" "qr_global run' = qr_global run" "qr_table run' = qr_table run"
  shows "query_scan bs run' = query_scan bs run"
proof -
  have "map qw_local (qr_workers run') = map qw_local (qr_workers run)"
    using assms(1) by (simp add: assms(2) map_update) (metis list_update_id nth_map)
  moreover have "{v. v < length (qr_workers run') \<and> past_scan (qw_status (qr_workers run' ! v))} =
      {v. v < length (qr_workers run) \<and> past_scan (qw_status (qr_workers run ! v))}"
    using assms(1,3) by (auto simp: assms(2) nth_list_update)
  ultimately show ?thesis using assms(4,5) by (simp add: query_scan_def)
qed

text \<open>A step that changes only the status of its worker, the counter and the queue.\<close>

lemma query_status_step:
  assumes inv: "query_inv s options prepared sbs op bs run" and w: "w < length (qr_workers run)"
    and same: "qr_workers run' = (qr_workers run)[w := (qr_workers run ! w)\<lparr>qw_status := st\<rparr>]" "qr_delivered run' = qr_delivered run"
      "qr_row_count run' = qr_row_count run" "qr_ended run' = qr_ended run" "qr_global run' = qr_global run" "qr_table run' = qr_table run"
    and st: "past_scan st \<longleftrightarrow> past_scan (qw_status (qr_workers run ! w))" "query_status_ok op (scan_types s options) st"
    and rows: "mset (concat (map active_rows (bq_queue (qr_queue run')))) + mset (pending_rows ((qr_workers run ! w)\<lparr>qw_status := st\<rparr>)) =
      mset (concat (map active_rows (bq_queue (qr_queue run)))) + mset (pending_rows (qr_workers run ! w))"
    and batches: "\<forall>b\<in>set (bq_queue (qr_queue run')). b \<in> set (bq_queue (qr_queue run)) \<or> chain_output op (scan_types s options) b"
    and leaving: "qr_active run' + staying (qr_workers run ! w) = qr_active run + staying ((qr_workers run ! w)\<lparr>qw_status := st\<rparr>)"
      "phase run' + is_closing ((qr_workers run ! w)\<lparr>qw_status := st\<rparr>) = phase run + is_closing (qr_workers run ! w)"
    and queue: "queue_ok (qr_queue run')" "qr_ended run \<Longrightarrow> bq_queue (qr_queue run') = [] \<and> bq_closed (qr_queue run')"
    and work: "status_work ((qr_workers run ! w)\<lparr>qw_status := st\<rparr>) + length (bq_queue (qr_queue run')) <
      status_work (qr_workers run ! w) + length (bq_queue (qr_queue run))"
  shows "query_advances s options prepared sbs op run (Some run')"
proof -
  have scan: "query_scan bs run' = query_scan bs run" for bs by (rule query_scan_same [OF w same(1) st(1) same(5,6)])
  have "query_inv s options prepared sbs op bs run'"
    by (rule query_inv_update [OF inv w same(1-4) _ _ _ batches leaving queue])
      (use inv st(2) rows in \<open>simp_all add: scan query_inv_def\<close>)
  moreover have "query_work sbs run' < query_work sbs run"
    by (rule query_work_update [OF w same(1) same(4), of _ bs bs]) (use work in \<open>simp add: scan\<close>)
  ultimately show ?thesis by (auto simp: query_advances_def same(1))
qed

lemma query_passed_facts:
  assumes "is_chain op" "qw_status wk = Q_running op'" "chain_batch op' = chain_batch op"
    and "step = Scan_batch \<Longrightarrow> batch_ok out \<and> map cd_type (vb_columns out) = types \<and> active_rows out \<noteq> [] \<and> chain_ok op types (active_rows out)"
    and "wk' = query_passed op' step l out wk"
  shows "qw_local wk' = l \<and> query_status_ok op types (qw_status wk') \<and> (past_scan (qw_status wk') \<longleftrightarrow> step = Scan_end) \<and>
    pending_rows wk' = (if step = Scan_batch then chain_rows op types (active_rows out) else []) \<and>
    staying wk' = 1 \<and> is_closing wk' = 0 \<and> status_work wk' \<le> 2"
proof (cases "step = Scan_batch")
  case True
  then have p: "piped (chain_types op types) (chain_rows op types (active_rows out)) (chain_batch op out)"
    using chain_batch_piped [OF assms(1)] assms(4) by blast
  show ?thesis
  proof (cases "chain_batch op out")
    case (Inl e)
    then show ?thesis using p by (simp add: piped_def)
  next
    case (Inr r)
    show ?thesis
    proof (cases r)
      case None
      then show ?thesis using p Inr True assms(2,3,5)
        by (simp add: piped_def query_passed_def Let_def query_status_ok_def past_scan_def pending_rows_def staying_def is_closing_def status_work_def)
    next
      case (Some b)
      note b = piped_SomeD [OF p [unfolded Inr Some]]
      then have out: "chain_output op types b" by (simp add: chain_output_def)
      then show ?thesis using chain_output_size [OF out] b Inr Some True assms(2,3,5)
        by (simp add: query_passed_def Let_def query_status_ok_def past_scan_def pending_rows_def staying_def is_closing_def status_work_def)
    qed
  qed
next
  case False
  then show ?thesis using assms(2,3,5)
    by (cases step) (simp_all add: query_passed_def Let_def query_status_ok_def past_scan_def pending_rows_def staying_def is_closing_def status_work_def)
qed

lemma query_pass:
  assumes chain: "is_chain op" "chain_ok op (scan_types s options) (selected s options (rows_of sbs))"
    and inv: "query_inv s options prepared sbs op bs run" and w: "w < length (qr_workers run)"
    and running: "qw_status (qr_workers run ! w) = Q_running op'"
  shows "query_advances s options prepared sbs op run (map_option fst (query_worker_step db plan options w run))"
proof -
  let ?wk = "qr_workers run ! w" and ?types = "scan_types s options"
  note i = inv [unfolded query_inv_def]
  have "query_status_ok op ?types (qw_status ?wk)" using i w by simp
  then have op': "chain_batch op' = chain_batch op" by (simp add: running query_status_ok_def)
  have notdone: "w < length (pc_locals (query_scan bs run))" "w \<notin> pc_done (query_scan bs run)"
    using w running by (simp_all add: query_scan_def past_scan_def)
  have pinv: "parallel_inv s options prepared sbs (query_scan bs run)" using i by simp
  show ?thesis
  proof (rule scan_pass [OF pinv notdone, of "qw_batch ?wk"])
    fix step g l out t'
    let ?c = "worker_passed w (step, g, l, out, t') (query_scan bs run)"
    assume "parallel_body options (pc_global (query_scan bs run)) (pc_locals (query_scan bs run) ! w) (qw_batch ?wk)
        (pc_table (query_scan bs run)) = Inr (step, g, l, out, t')"
    then have body: "parallel_body options (qr_global run) (qw_local ?wk) (qw_batch ?wk) (qr_table run) = Inr (step, g, l, out, t')"
      using w by (simp add: query_scan_def)
    assume c: "parallel_inv s options prepared sbs ?c" "parallel_work sbs ?c < parallel_work sbs (query_scan bs run)"
      and batch: "step = Scan_batch \<Longrightarrow> batch_ok out \<and> map cd_type (vb_columns out) = scan_types s options \<and> active_rows out \<noteq> []"
    define wk' where "wk' = query_passed op' step l out ?wk"
    define run' where "run' = run\<lparr>qr_global := g, qr_table := t', qr_workers := (qr_workers run)[w := wk']\<rparr>"
    define bs' where "bs' = bs @ (if step = Scan_batch then [out] else [])"
    have step: "query_worker_step db plan options w run = Some (run', [])"
      using running body by (simp add: query_worker_step_def Let_def run'_def wk'_def)
    have ok: "chain_ok op ?types (active_rows out)" if "step = Scan_batch"
    proof -
      have "mset (concat (map active_rows (bs @ [out]))) \<subseteq># mset (selected s options (rows_of sbs))"
        using delivered_below [OF c(1)] that by (simp add: worker_passed_def query_scan_def)
      moreover have "mset (active_rows out) \<subseteq># mset (concat (map active_rows (bs @ [out])))" by simp
      ultimately show ?thesis using chain(2) chain_below(1) subset_mset.order_trans by blast
    qed
    have wk': "qw_local wk' = l" "query_status_ok op ?types (qw_status wk')" "past_scan (qw_status wk') \<longleftrightarrow> step = Scan_end"
        "pending_rows wk' = (if step = Scan_batch then chain_rows op ?types (active_rows out) else [])"
        "staying wk' = 1" "is_closing wk' = 0" "status_work wk' \<le> 2"
      using query_passed_facts [OF chain(1) running op' _ wk'_def, of ?types] batch ok
      by blast+
    have wk: "pending_rows ?wk = []" "staying ?wk = 1" "is_closing ?wk = 0"
      using running by (simp_all add: pending_rows_def staying_def is_closing_def)
    have "{v. v < length (qr_workers run') \<and> past_scan (qw_status (qr_workers run' ! v))} =
        (if step = Scan_end then insert w (pc_done (query_scan bs run)) else pc_done (query_scan bs run))"
      using w wk'(3) running by (auto simp: run'_def query_scan_def nth_list_update past_scan_def)
    then have scan: "?c = query_scan bs' run'"
      using w wk'(1) by (simp add: worker_passed_def query_scan_def run'_def bs'_def map_update)
    have "query_inv s options prepared sbs op bs' run'"
      by (rule query_inv_update [OF inv w, where wk = wk'])
        (use c(1) scan wk' wk i in \<open>simp_all add: run'_def bs'_def chain_rows_append phase_def\<close>)
    moreover have "query_work sbs run' < query_work sbs run"
      by (rule query_work_update [OF w, where wk = wk' and bs' = bs' and bs = bs])
        (use c(2) [unfolded scan] wk'(7) in \<open>simp_all add: run'_def\<close>)
    ultimately show ?thesis using step by (auto simp: query_advances_def run'_def)
  qed
qed

lemma worker_staying:
  assumes "query_inv s options prepared sbs op bs run" "w < length (qr_workers run)"
  shows "staying (qr_workers run ! w) \<le> qr_active run" "is_closing (qr_workers run ! w) + phase run \<le> 1"
  using assms elem_le_sum_list [of w "map staying (qr_workers run)"] elem_le_sum_list [of w "map is_closing (qr_workers run)"]
  by (auto simp: query_inv_def)

text \<open>Every worker that is not gone makes a step, unless it waits for the consumer to make room in the queue.\<close>

lemma query_worker_inv:
  assumes source: "scan_source db i options ps sbs t" "BuildNode (db_catalog db) None plan = Inr (op, schema)" "chain_scan op = Some (i, options)"
    and rows: "chain_ok op (table_types options t) (table_rows options sbs t)"
    and inv: "query_inv (tst_schema t) options prepared sbs op bs run"
    and w: "w < length (qr_workers run)" "qw_status (qr_workers run ! w) \<noteq> Q_gone"
  shows "query_advances (tst_schema t) options prepared sbs op run (map_option fst (query_worker_step db plan options w run)) \<or>
    query_worker_step db plan options w run = None \<and> bq_queue (qr_queue run) \<noteq> []"
proof -
  let ?wk = "qr_workers run ! w"
  note i = inv [unfolded query_inv_def]
  have ok: "query_status_ok op (table_types options t) (qw_status ?wk)" "queue_ok (qr_queue run)" using i w(1) by simp_all
  note there = worker_staying [OF inv w(1)]
  note counts = staying_def is_closing_def pending_rows_def status_work_def phase_def
  show ?thesis
  proof (cases "qw_status ?wk")
    case Q_submitted
    obtain op' where op': "worker_start db (qr_global run) plan = Inr op'" "chain_batch op' = chain_batch op"
      using worker_start_ok [OF source] by blast
    have "query_advances (tst_schema t) options prepared sbs op run
        (Some (run\<lparr>qr_workers := (qr_workers run)[w := ?wk\<lparr>qw_status := Q_running op'\<rparr>]\<rparr>))"
      by (rule query_status_step [OF inv w(1), where st = "Q_running op'"])
        (use Q_submitted op'(2) i in \<open>simp_all add: past_scan_def query_status_ok_def counts\<close>)
    then show ?thesis using Q_submitted op'(1) by (simp add: query_worker_step_def Let_def)
  next
    case (Q_running op')
    then show ?thesis using query_pass [OF chain_scan_is_chain [OF source(3)] rows inv w(1)] by blast
  next
    case (Q_pushing op' b)
    have active: "\<not> bq_closed (qr_queue run)" using there i Q_pushing by (auto simp: counts split: if_splits)
    then have open_queue: "\<not> ended (qr_queue run)" using ok(2) by (simp add: ended_def queue_ok_def)
    show ?thesis
    proof (cases "length (bq_queue (qr_queue run)) < bq_capacity (qr_queue run)")
      case True
      let ?q = "(qr_queue run)\<lparr>bq_queue := bq_queue (qr_queue run) @ [b]\<rparr>"
      have "query_advances (tst_schema t) options prepared sbs op run
          (Some (run\<lparr>qr_queue := ?q, qr_workers := (qr_workers run)[w := ?wk\<lparr>qw_status := Q_running op'\<rparr>]\<rparr>))"
        by (rule query_status_step [OF inv w(1), where st = "Q_running op'"])
          (use Q_pushing ok active i in \<open>simp_all add: past_scan_def query_status_ok_def queue_ok_def counts\<close>)
      then show ?thesis using Q_pushing True open_queue by (simp add: query_worker_step_def Let_def Push_def)
    next
      case False
      then show ?thesis using Q_pushing open_queue ok(2) by (auto simp: query_worker_step_def Let_def Push_def queue_ok_def)
    qed
  next
    case Q_leaving
    let ?s = "if qr_active run = 1 then Q_closing else Q_gone"
    have "query_advances (tst_schema t) options prepared sbs op run
        (Some (run\<lparr>qr_active := qr_active run - 1, qr_workers := (qr_workers run)[w := ?wk\<lparr>qw_status := ?s\<rparr>]\<rparr>))"
      by (rule query_status_step [OF inv w(1), where st = ?s])
        (use Q_leaving there ok i in \<open>auto simp: past_scan_def query_status_ok_def counts split: if_splits\<close>)
    then show ?thesis using Q_leaving by (simp add: query_worker_step_def Let_def)
  next
    case Q_closing
    have "query_advances (tst_schema t) options prepared sbs op run
        (Some (run\<lparr>qr_queue := fst (Queue_Close (qr_queue run)), qr_workers := (qr_workers run)[w := ?wk\<lparr>qw_status := Q_gone\<rparr>]\<rparr>))"
      by (rule query_status_step [OF inv w(1), where st = Q_gone])
        (use Q_closing there ok i in \<open>auto simp: past_scan_def query_status_ok_def queue_ok_def Queue_Close_def counts split: if_splits\<close>)
    then show ?thesis using Q_closing by (simp add: query_worker_step_def Let_def Queue_Close_def)
  qed (use ok w(2) in \<open>simp_all add: query_status_ok_def\<close>)
qed

subsection \<open>The consumer, and whole runs\<close>

lemma query_consumer_inv:
  assumes inv: "query_inv s options prepared sbs op bs run" and r: "query_consumer_step run = Some (run', ns)"
  shows "query_advances s options prepared sbs op run (Some run')"
proof -
  note i = inv [unfolded query_inv_def]
  have same: "qr_workers run' = qr_workers run" "qr_global run' = qr_global run" "qr_table run' = qr_table run" "qr_active run' = qr_active run"
      "bq_closed (qr_queue run') = bq_closed (qr_queue run)" "queue_ok (qr_queue run') = queue_ok (qr_queue run)"
    using r by (auto simp: query_consumer_step_def Pop_def queue_ok_def split: if_splits list.splits)
  have scan: "query_scan bs run' = query_scan bs run" for bs by (simp add: query_scan_def same)
  have open_run: "\<not> qr_ended run" using r by (simp add: query_consumer_step_def split: if_splits)
  show ?thesis
  proof (cases "bq_queue (qr_queue run)")
    case Nil
    then have c: "bq_closed (qr_queue run)" "run' = run\<lparr>qr_ended := True\<rparr>"
      using r i open_run by (auto simp: query_consumer_step_def Pop_def ended_def queue_ok_def split: if_splits)
    have "phase run' = phase run" "passed_on run' = passed_on run" by (simp_all add: phase_def passed_on_def c(2))
    then have "query_inv s options prepared sbs op bs run'"
      using i Nil c unfolding query_inv_def same scan by (simp add: c(2))
    moreover have "query_work sbs run' < query_work sbs run" unfolding query_work_def same scan using open_run by (simp add: c(2))
    ultimately show ?thesis using same(1) by (auto simp: query_advances_def)
  next
    case (Cons b q)
    then have out: "chain_output op (scan_types s options) b" using i by (simp add: passed_on_def)
    note size = chain_output_size [OF out]
    have run': "run' = run\<lparr>qr_queue := (qr_queue run)\<lparr>bq_queue := q\<rparr>, qr_row_count := qr_row_count run + word_of_nat (ActiveRowCount b),
        qr_delivered := qr_delivered run @ [b]\<rparr>"
      using r Cons size by (simp add: query_consumer_step_def Pop_def split: if_splits)
    have p: "passed_on run' = passed_on run" "phase run' = phase run" "qr_ended run' = qr_ended run" using Cons by (simp_all add: passed_on_def phase_def run')
    have "qr_row_count run = word_of_nat (length (concat (map active_rows (qr_delivered run))))" using i by simp
    then have "qr_row_count run' = word_of_nat (length (concat (map active_rows (qr_delivered run'))))" using size by (simp add: run')
    then have "query_inv s options prepared sbs op bs run'"
      using i open_run unfolding query_inv_def same scan p by blast
    moreover have "query_work sbs run' < query_work sbs run" unfolding query_work_def same scan using Cons open_run by (simp add: run')
    ultimately show ?thesis using same(1) by (auto simp: query_advances_def)
  qed
qed

lemma query_consumer_waits:
  assumes "query_inv s options prepared sbs op bs run" "query_consumer_step run = None" "\<not> qr_ended run"
  shows "bq_queue (qr_queue run) = [] \<and> \<not> bq_closed (qr_queue run)"
  using assms by (auto simp: query_consumer_step_def Pop_def ended_def split: if_splits list.splits option.splits)

lemma gone_closed:
  assumes "qr_active run = (\<Sum>wk\<leftarrow>qr_workers run. staying wk)" "phase run + (\<Sum>wk\<leftarrow>qr_workers run. is_closing wk) = 1"
  shows "bq_closed (qr_queue run) \<longleftrightarrow> (\<forall>wk\<in>set (qr_workers run). qw_status wk = Q_gone)"
proof -
  let ?staying = "\<Sum>wk\<leftarrow>qr_workers run. staying wk" and ?closing = "\<Sum>wk\<leftarrow>qr_workers run. is_closing wk"
  have "(if 0 < a then 1 else 0) + (if c then 1 else 0) + b = 1 \<Longrightarrow> c \<longleftrightarrow> a = 0 \<and> b = 0" for a b :: nat and c
    by (auto split: if_splits)
  from this [OF assms(2) [unfolded phase_def assms(1)]] have "bq_closed (qr_queue run) \<longleftrightarrow> ?staying = 0 \<and> ?closing = 0" .
  also have "\<dots> \<longleftrightarrow> (\<forall>wk\<in>set (qr_workers run). staying wk = 0 \<and> is_closing wk = 0)" by (auto simp: sum_list_eq_0_iff)
  also have "\<dots> \<longleftrightarrow> (\<forall>wk\<in>set (qr_workers run). qw_status wk = Q_gone)" by (intro ball_cong) (auto simp: staying_def is_closing_def)
  finally show ?thesis .
qed

lemma workers_gone:
  assumes "query_inv s options prepared sbs op bs run"
  shows "bq_closed (qr_queue run) \<longleftrightarrow> (\<forall>wk\<in>set (qr_workers run). qw_status wk = Q_gone)"
  by (rule gone_closed) (use assms in \<open>simp_all add: query_inv_def\<close>)

lemma query_step_inv:
  assumes source: "scan_source db i options ps sbs t" "BuildNode (db_catalog db) None plan = Inr (op, schema)" "chain_scan op = Some (i, options)"
    and rows: "chain_ok op (table_types options t) (table_rows options sbs t)"
    and inv: "query_inv (tst_schema t) options prepared sbs op bs run" and step: "query_step db plan options run run'"
  shows "query_advances (tst_schema t) options prepared sbs op run (Some run')"
  using step
proof (cases rule: query_step.cases)
  case (worker w ns)
  then have "qw_status (qr_workers run ! w) \<noteq> Q_gone" by (auto simp: query_worker_step_def Let_def)
  from query_worker_inv [OF source rows inv worker(1) this] worker(2) show ?thesis by simp
next
  case consumer
  then show ?thesis by (rule query_consumer_inv [OF inv])
qed

text \<open>No run is stuck: when all workers wait for room in the queue, the consumer can take a batch from it.\<close>

lemma query_progress:
  assumes source: "scan_source db i options ps sbs t" "BuildNode (db_catalog db) None plan = Inr (op, schema)" "chain_scan op = Some (i, options)"
    and rows: "chain_ok op (table_types options t) (table_rows options sbs t)"
    and inv: "query_inv (tst_schema t) options prepared sbs op bs run" and going: "\<not> query_over run"
  shows "\<exists>run'. query_step db plan options run run'"
proof -
  have consumer: "\<exists>run'. query_step db plan options run run'" if some: "query_consumer_step run \<noteq> None"
  proof -
    obtain run' ns where "query_consumer_step run = Some (run', ns)" using some by fastforce
    then show ?thesis using query_step.consumer by blast
  qed
  show ?thesis
  proof (cases "\<forall>wk\<in>set (qr_workers run). qw_status wk = Q_gone")
    case True
    then have "\<not> qr_ended run" "bq_closed (qr_queue run)" using going workers_gone [OF inv] by (simp_all add: query_over_def)
    then show ?thesis using consumer query_consumer_waits [OF inv] by blast
  next
    case False
    then obtain w where w: "w < length (qr_workers run)" "qw_status (qr_workers run ! w) \<noteq> Q_gone" by (auto simp: in_set_conv_nth)
    from query_worker_inv [OF source rows inv w] show ?thesis
    proof
      assume "query_advances (tst_schema t) options prepared sbs op run (map_option fst (query_worker_step db plan options w run))"
      then obtain run' ns where "query_worker_step db plan options w run = Some (run', ns)" by (auto simp: query_advances_def)
      then show ?thesis using w(1) query_step.worker by blast
    next
      assume "query_worker_step db plan options w run = None \<and> bq_queue (qr_queue run) \<noteq> []"
      moreover from this have "\<not> qr_ended run" using inv by (auto simp: query_inv_def)
      ultimately show ?thesis using consumer query_consumer_waits [OF inv] by blast
    qed
  qed
qed

lemma query_steps_bounded:
  assumes source: "scan_source db i options ps sbs t" "BuildNode (db_catalog db) None plan = Inr (op, schema)" "chain_scan op = Some (i, options)"
    and rows: "chain_ok op (table_types options t) (table_rows options sbs t)"
    and steps: "(query_step db plan options ^^ k) start run" "query_inv (tst_schema t) options prepared sbs op bs start"
  shows "\<exists>bs. query_inv (tst_schema t) options prepared sbs op bs run \<and> k + query_work sbs run \<le> query_work sbs start \<and>
    length (qr_workers run) = length (qr_workers start)"
  using steps(1)
proof (induction k arbitrary: run)
  case 0
  then show ?case using steps(2) by auto
next
  case (Suc k)
  then obtain mid where mid: "(query_step db plan options ^^ k) start mid" "query_step db plan options mid run" by auto
  from Suc.IH [OF mid(1)] obtain bs where "query_inv (tst_schema t) options prepared sbs op bs mid" "k + query_work sbs mid \<le> query_work sbs start"
    "length (qr_workers mid) = length (qr_workers start)" by blast
  with query_step_inv [OF source rows this(1) mid(2)] show ?case by (fastforce simp: query_advances_def)
qed

lemma query_finishes:
  assumes source: "scan_source db i options ps sbs t" "BuildNode (db_catalog db) None plan = Inr (op, schema)" "chain_scan op = Some (i, options)"
    and rows: "chain_ok op (table_types options t) (table_rows options sbs t)"
    and start: "query_inv (tst_schema t) options prepared sbs op bs start"
  shows "\<exists>run. (query_step db plan options)\<^sup>*\<^sup>* start run \<and> query_over run"
  using start
proof (induction "query_work sbs start" arbitrary: start bs rule: less_induct)
  case less
  show ?case
  proof (cases "query_over start")
    case False
    from query_progress [OF source rows less.prems this] obtain run where run: "query_step db plan options start run" by blast
    from query_step_inv [OF source rows less.prems run] obtain bs' where
      "query_inv (tst_schema t) options prepared sbs op bs' run" "query_work sbs run < query_work sbs start" by (auto simp: query_advances_def)
    with less.hyps [OF this(2,1)] run show ?thesis by (meson converse_rtranclp_into_rtranclp)
  qed auto
qed

lemma query_scan_start: "query_scan [] (query_start capacity n g t) = parallel_start g n t"
  by (auto simp: query_scan_def query_start_def parallel_start_def past_scan_def)

lemma query_start_inv:
  assumes "parallel_inv s options prepared sbs (parallel_start g n t)" "0 < n"
  shows "query_inv s options prepared sbs op [] (query_start capacity n g t)"
proof -
  note query_scan_start [of capacity n g t]
  moreover have "(\<Sum>wk\<leftarrow>qr_workers (query_start capacity n g t). mset (pending_rows wk)) = {#}"
    by (rule sum_list_none) (simp add: query_start_def pending_rows_def)
  ultimately show ?thesis using assms
    by (auto simp: query_inv_def query_start_def query_status_ok_def passed_on_def staying_def is_closing_def phase_def queue_ok_def new_queue_def
        sum_list_replicate)
qed

lemma query_finished:
  assumes inv: "query_inv (tst_schema t) options prepared sbs op bs run" "query_over run" "qr_workers run \<noteq> []"
    and rows: "rows = chain_rows op (table_types options t) (table_rows options sbs t)"
  shows "snd (query_finish schema db run) = Inr (query_result schema (word_of_nat (length rows)), db) \<and>
    mset (concat (map active_rows (fst (query_finish schema db run)))) = mset rows \<and>
    delivered_ok (chain_types op (table_types options t)) (fst (query_finish schema db run))"
proof -
  note i = inv(1) [unfolded query_inv_def]
  have gone: "\<forall>wk\<in>set (qr_workers run). qw_status wk = Q_gone" "qr_ended run" using inv(2) by (simp_all add: query_over_def)
  then have "pc_done (query_scan bs run) = {..<length (pc_locals (query_scan bs run))}" by (auto simp: query_scan_def past_scan_def)
  from parallel_all_done [OF conjunct1 [OF i] this] inv(3) have "mset (concat (map active_rows bs)) = mset (table_rows options sbs t)"
    by (simp add: query_scan_def)
  then have all: "mset (chain_rows op (table_types options t) (concat (map active_rows bs))) = mset rows"
    using chain_mset(1) rows by metis
  have "(\<Sum>wk\<leftarrow>qr_workers run. mset (pending_rows wk)) = {#}"
    by (rule sum_list_none) (use gone in \<open>simp add: pending_rows_def\<close>)
  moreover have "bq_queue (qr_queue run) = []" using i gone(2) by simp
  then have "passed_on run = qr_delivered run" by (simp add: passed_on_def)
  ultimately have d: "mset (concat (map active_rows (qr_delivered run))) = mset rows" using i all by simp
  then have "qr_row_count run = word_of_nat (length rows)" using i by (metis size_mset)
  moreover have "delivered_ok (chain_types op (table_types options t)) (qr_delivered run)"
    using i by (auto simp: delivered_ok_def passed_on_def chain_output_def)
  ultimately show ?thesis using d i by (simp add: query_finish_def Queue_Error_def queue_ok_def)
qed

subsection \<open>Plain queries\<close>

lemma query_setup_ok:
  assumes "scan_source db i options ps sbs t" "BuildNode (db_catalog db) None plan = Inr (op, schema)" "chain_scan op = Some (i, options)"
  obtains g n where "query_setup config pool_threads arenas db plan = Inr (options, schema, query_start (ps_result_queue_capacity config) n g t, db)"
    "0 < n" "n \<le> max 1 pool_threads"
    "query_inv (tst_schema t) options (if so_predicates options = [] then None else Some ps) sbs op []
       (query_start (ps_result_queue_capacity config) n g t)"
proof -
  obtain g where g: "parallel_setup ''ParallelExecutor: query pipeline has no SeqScan'' db plan = Inr (options, t, g, db)"
      "\<And>n. parallel_inv (tst_schema t) options (if so_predicates options = [] then None else Some ps) sbs (parallel_start g n t)"
    using parallel_setup_ok [OF assms] by blast
  let ?n = "ResolveWorkerCount config pool_threads arenas g"
  have "?n \<le> max 1 pool_threads" unfolding ResolveWorkerCount_def Let_def by (auto simp: min_def max_def)
  moreover note ResolveWorkerCount_pos [of config pool_threads arenas g]
  moreover have "query_setup config pool_threads arenas db plan = Inr (options, schema, query_start (ps_result_queue_capacity config) ?n g t, db)"
    using assms(2) g(1) by (simp add: query_setup_def)
  ultimately show thesis using that query_start_inv [OF g(2)] by blast
qed

text \<open>A parallel query delivers the rows of the serial one, whatever the number of workers, the capacity of the queue and the
  schedule: it has an outcome, and every outcome is a result, whose batches hold as a multiset the rows of the chain, counted in the result.\<close>

lemma parallel_query_rows:
  assumes "scan_source db i options ps sbs t" "BuildNode (db_catalog db) None plan = Inr (op, schema)" "chain_scan op = Some (i, options)"
    and "chain_ok op (table_types options t) (table_rows options sbs t)"
    and "rows = chain_rows op (table_types options t) (table_rows options sbs t)"
  shows "(\<exists>out. ExecuteParallelQuery config pool_threads arenas db plan out) \<and>
    (\<forall>out. ExecuteParallelQuery config pool_threads arenas db plan out \<longrightarrow>
       snd out = Inr (query_result schema (word_of_nat (length rows)), db) \<and> mset (concat (map active_rows (fst out))) = mset rows \<and>
       delivered_ok (chain_types op (table_types options t)) (fst out))"
proof -
  obtain g n where begun: "query_setup config pool_threads arenas db plan = Inr (options, schema, query_start (ps_result_queue_capacity config) n g t, db)"
      "0 < n" "query_inv (tst_schema t) options (if so_predicates options = [] then None else Some ps) sbs op []
        (query_start (ps_result_queue_capacity config) n g t)"
    using query_setup_ok [OF assms(1-3)] by metis
  let ?start = "query_start (ps_result_queue_capacity config) n g t"
  have finish: "snd (query_finish schema db run) = Inr (query_result schema (word_of_nat (length rows)), db) \<and>
      mset (concat (map active_rows (fst (query_finish schema db run)))) = mset rows \<and>
      delivered_ok (chain_types op (table_types options t)) (fst (query_finish schema db run))"
    if steps: "(query_step db plan options)\<^sup>*\<^sup>* ?start run" and over: "query_over run" for run
  proof -
    obtain k where "(query_step db plan options ^^ k) ?start run" using steps by (auto simp: rtranclp_power)
    from query_steps_bounded [OF assms(1-4) this begun(3)] obtain bs where
      "query_inv (tst_schema t) options (if so_predicates options = [] then None else Some ps) sbs op bs run" "qr_workers run \<noteq> []"
      using begun(2) by (auto simp: query_start_def)
    then show ?thesis using query_finished [OF _ over _ assms(5)] by blast
  qed
  obtain run where "(query_step db plan options)\<^sup>*\<^sup>* ?start run" "query_over run" using query_finishes [OF assms(1-4) begun(3)] by blast
  then have "ExecuteParallelQuery config pool_threads arenas db plan (query_finish schema db run)"
    using begun(1) ExecuteParallelQuery.finished by blast
  moreover have "snd out = Inr (query_result schema (word_of_nat (length rows)), db) \<and> mset (concat (map active_rows (fst out))) = mset rows \<and>
      delivered_ok (chain_types op (table_types options t)) (fst out)"
    if "ExecuteParallelQuery config pool_threads arenas db plan out" for out
    using that
  proof (cases rule: ExecuteParallelQuery.cases)
    case (finished options' schema' start' db' run')
    then show ?thesis using begun(1) finish [of run'] by auto
  qed (use begun(1) in simp)
  ultimately show ?thesis by blast
qed

end
