(* ===== verification/Command_Executor.thy ===== *)
theory Command_Executor
  imports Database Physical_Plan Vector_Predicate Row_Keys
begin

text \<open>
  \<^verbatim>\<open>src/src/execution/command_executor.{h,cpp}\<close>: the plans that are executed at once, CREATE TABLE and INSERT.
  The values of an INSERT are written into one buffer per column of the table, which together are the chunk
  that the storage appends.
\<close>

subsection \<open>CREATE TABLE\<close>

record command_result =
  cr_success :: bool
  cr_affected_rows :: nat

definition ExecuteCreateTable :: "ddl_io \<Rightarrow> string \<Rightarrow> table_schema \<Rightarrow> database \<Rightarrow> (command_result \<times> database) result" where
  "ExecuteCreateTable io name schema db =
     (case CreateTable (dd_catalog io) name schema (db_catalog db) of (ok, c) \<Rightarrow>
        if \<not> ok then Inr (\<lparr>cr_success = False, cr_affected_rows = 0\<rparr>, db\<lparr>db_catalog := c\<rparr>)
        else
          (case FindTable name c of
             None \<Rightarrow> Inl (Runtime_error ''bad optional access'')
           | Some i \<Rightarrow>
               (case GetTableById i c of
                  None \<Rightarrow> Inl Undefined_behaviour
                | Some e \<Rightarrow>
                    bind_r (Storage_CreateTable (dd_dir io) (dd_table io) i (te_schema e) (db_storage db)) (\<lambda>(created, sm).
                      if \<not> created
                      then Inr (\<lparr>cr_success = False, cr_affected_rows = 0\<rparr>,
                                \<lparr>db_catalog = snd (DropTable (dd_rollback io) name c), db_storage = sm\<rparr>)
                      else Inr (\<lparr>cr_success = True, cr_affected_rows = 0\<rparr>, \<lparr>db_catalog = c, db_storage = sm\<rparr>)))))"

subsection \<open>The values of an INSERT\<close>

record insert_value =
  iv_is_string :: bool
  iv_number :: f64
  iv_text :: string

definition number_value :: "f64 \<Rightarrow> insert_value" where
  "number_value d = \<lparr>iv_is_string = False, iv_number = d, iv_text = ''''\<rparr>"

fun EvalInsertConstant :: "plan_expr \<Rightarrow> insert_value result" where
  "EvalInsertConstant (PlanLiteral (Lit_int i) ty) = Inr (number_value (f64_of_int (sint i)))"
| "EvalInsertConstant (PlanLiteral (Lit_double d) ty) = Inr (number_value d)"
| "EvalInsertConstant (PlanLiteral (Lit_string s) ty) = Inr \<lparr>iv_is_string = True, iv_number = 0, iv_text = s\<rparr>"
| "EvalInsertConstant (PlanBinary op l r ty) =
     bind_r (EvalInsertConstant l) (\<lambda>lhs. bind_r (EvalInsertConstant r) (\<lambda>rhs.
       if iv_is_string lhs \<or> iv_is_string rhs then Inl (Runtime_error ''INSERT: arithmetic on string literal is not supported'')
       else (case op of
         P_ADD \<Rightarrow> Inr (number_value (ieee_add 52 (iv_number lhs) (iv_number rhs)))
       | P_SUB \<Rightarrow> Inr (number_value (ieee_sub 52 (iv_number lhs) (iv_number rhs)))
       | _ \<Rightarrow> Inl (Runtime_error ''INSERT: unsupported operator in VALUES expression''))))"
| "EvalInsertConstant _ = Inl (Runtime_error ''INSERT VALUES must be constant expressions'')"

text \<open>A conversion of a double to an integer type is undefined when the truncated value does not fit.\<close>

definition f64_to_int :: "int \<Rightarrow> f64 \<Rightarrow> int result" where
  "f64_to_int bound d =
     (if f64_nan d \<or> f64_is_inf d \<or> f64_trunc_int d < - bound \<or> bound \<le> f64_trunc_int d then Inl Undefined_behaviour
      else Inr (f64_trunc_int d))"

definition numeric_value :: "column_schema \<Rightarrow> insert_value \<Rightarrow> (f64 \<Rightarrow> bytes result) \<Rightarrow> bytes result" where
  "numeric_value c v f =
     (if iv_is_string v then Inl (Runtime_error (''INSERT: string literal for numeric column '' @ cs_name c)) else f (iv_number v))"

text \<open>The bytes written for a value into a cell of the column.\<close>

definition insert_cell :: "column_schema \<Rightarrow> insert_value \<Rightarrow> bytes result" where
  "insert_cell c v =
     (case cs_type c of
        DT_INT32 \<Rightarrow> numeric_value c v (\<lambda>d. bind_r (f64_to_int (2 ^ 31) d) (\<lambda>n. Inr (le_bytes 4 (word_of_int n :: i32))))
      | DT_INT64 \<Rightarrow> numeric_value c v (\<lambda>d. bind_r (f64_to_int (2 ^ 63) d) (\<lambda>n. Inr (le_bytes 8 (word_of_int n :: i64))))
      | DT_FLOAT \<Rightarrow> numeric_value c v (\<lambda>d. Inr (le_bytes 4 (f32_of_f64 d)))
      | DT_DOUBLE \<Rightarrow> numeric_value c v (\<lambda>d. Inr (le_bytes 8 d))
      | DT_VARCHAR \<Rightarrow>
          if \<not> iv_is_string v then Inl (Runtime_error (''INSERT: numeric literal for VARCHAR column '' @ cs_name c))
          else WriteVarcharSlot (iv_text v)
      | DT_INVALID \<Rightarrow> Inl (Runtime_error (''INSERT: unsupported column type for column '' @ cs_name c)))"

subsection \<open>INSERT\<close>

text \<open>The buffers of the columns, all zero.\<close>

definition insert_buffers :: "column_schema list \<Rightarrow> nat \<Rightarrow> bytes list result" where
  "insert_buffers columns n =
     map_r (\<lambda>c. if cs_type c = DT_INVALID then Inl (Runtime_error (''INSERT: unsupported column type for column '' @ cs_name c))
                else Inr (replicate (n * TypeElemSize (cs_type c)) 0)) columns"

definition write_value :: "column_schema list \<Rightarrow> nat \<Rightarrow> u32 \<times> plan_expr \<Rightarrow> bytes list \<Rightarrow> bytes list result" where
  "write_value columns r te buffers =
     (case te of (target, e) \<Rightarrow>
        if length columns \<le> unat target then Inl (Runtime_error ''INSERT: target column index out of range'')
        else let c = columns ! unat target in
          bind_r (EvalInsertConstant e) (\<lambda>v. bind_r (insert_cell c v) (\<lambda>bs.
            Inr (buffers[unat target := put_cell (TypeElemSize (cs_type c)) r bs (buffers ! unat target)]))))"

definition write_row :: "column_schema list \<Rightarrow> u32 list \<Rightarrow> nat \<times> plan_expr list \<Rightarrow> bytes list \<Rightarrow> bytes list result" where
  "write_row columns targets row buffers =
     (if length (snd row) \<noteq> length targets then Inl (Runtime_error ''INSERT: row width mismatch with target columns'')
      else fold_r (write_value columns (fst row)) (zip targets (snd row)) buffers)"

definition assemble_chunk :: "column_schema list \<Rightarrow> nat \<Rightarrow> bytes list \<Rightarrow> data_chunk" where
  "assemble_chunk columns n buffers =
     fold (\<lambda>c. set_data c (buffers ! c) (TypeElemSize (cs_type (columns ! c)))) [0..<length columns] (new_chunk n)"

definition ExecuteInsert ::
  "u32 \<Rightarrow> u32 list \<Rightarrow> plan_expr list list \<Rightarrow> database \<Rightarrow> (command_result \<times> database) result" where
  "ExecuteInsert oid targets rows db =
     (case GetTableById oid (db_catalog db) of
        None \<Rightarrow> Inl (Runtime_error (''INSERT: table '' @ nat_str (unat oid) @ '' not found in catalog''))
      | Some e \<Rightarrow>
          let columns = ts_columns (te_schema e); n = length rows in
          bind_r (insert_buffers columns n) (\<lambda>buffers.
          bind_r (fold_r (write_row columns targets) (zip [0..<n] rows) buffers) (\<lambda>buffers.
          bind_r (Storage_GetTable oid (te_schema e) (db_storage db)) (\<lambda>(storage, sm).
            case storage of
              None \<Rightarrow> Inl (Runtime_error (''INSERT: failed to open physical storage for table '' @ nat_str (unat oid)))
            | Some t \<Rightarrow> bind_r (Append (assemble_chunk columns n buffers) t) (\<lambda>t.
                Inr (\<lparr>cr_success = True, cr_affected_rows = n\<rparr>, db\<lparr>db_storage := Storage_Update oid t sm\<rparr>))))))"

fun Command_Execute :: "ddl_io \<Rightarrow> physical_plan \<Rightarrow> database \<Rightarrow> (command_result \<times> database) result" where
  "Command_Execute io (PhysicalInsert oid targets rows) db = ExecuteInsert oid targets rows db"
| "Command_Execute io (PhysicalCreateTable name schema) db = ExecuteCreateTable io name schema db"
| "Command_Execute io _ db = Inl (Runtime_error ''CommandExecutor: plan is not a command plan'')"

subsection \<open>CREATE TABLE as in the database\<close>

lemma ExecuteCreateTable_database:
  "ExecuteCreateTable io name schema db =
     bind_r (Database_CreateTable io name schema db) (\<lambda>(ok, db). Inr (\<lparr>cr_success = ok, cr_affected_rows = 0\<rparr>, db))"
proof -
  obtain ok c where c: "CreateTable (dd_catalog io) name schema (db_catalog db) = (ok, c)" by fastforce
  show ?thesis
  proof (cases "FindTable name c")
    case (Some i)
    show ?thesis
    proof (cases "GetTableById i c")
      case (Some e)
      then show ?thesis using c \<open>FindTable name c = Some i\<close>
        by (cases "Storage_CreateTable (dd_dir io) (dd_table io) i (te_schema e) (db_storage db)")
          (simp_all add: ExecuteCreateTable_def Database_CreateTable_def split: prod.splits)
    qed (use Some c in \<open>simp add: ExecuteCreateTable_def Database_CreateTable_def\<close>)
  qed (use c in \<open>simp add: ExecuteCreateTable_def Database_CreateTable_def\<close>)
qed

subsection \<open>The chunk of an INSERT\<close>

text \<open>A matrix of cells by columns.\<close>

definition columns_of :: "nat \<Rightarrow> bytes list list \<Rightarrow> bytes list" where
  "columns_of n rows = map (\<lambda>c. concat (map (\<lambda>row. row ! c) rows)) [0..<n]"

definition row_sized :: "column_schema list \<Rightarrow> bytes list \<Rightarrow> bool" where
  "row_sized columns row \<longleftrightarrow> map length row = map (\<lambda>c. TypeElemSize (cs_type c)) columns"

lemma row_sized_length: "row_sized columns row \<Longrightarrow> length row = length columns"
  unfolding row_sized_def by (drule arg_cong [of _ _ length]) simp

lemma row_sized_nth:
  assumes "row_sized columns row" "c < length columns"
  shows "length (row ! c) = TypeElemSize (cs_type (columns ! c))"
proof -
  have "map length row ! c = map (\<lambda>c. TypeElemSize (cs_type c)) columns ! c" using assms(1) by (simp add: row_sized_def)
  then show ?thesis using assms(2) row_sized_length [OF assms(1)] by simp
qed

lemma put_cell_concat:
  assumes "\<forall>x\<in>set xs. length x = k" "r < length xs" "length bs = k"
  shows "put_cell k r bs (concat xs) = concat (xs[r := bs])"
proof -
  have len: "length (concat ys) = length ys * k" if "\<forall>x\<in>set ys. length x = k" for ys :: "bytes list"
    using that by (induction ys) simp_all
  have xs: "xs = take r xs @ xs ! r # drop (Suc r) xs" using assms(2) by (rule id_take_nth_drop)
  have before: "length (concat (take r xs)) = r * k" using assms len [of "take r xs"] by (auto dest: in_set_takeD)
  have "concat xs = concat (take r xs) @ xs ! r @ concat (drop (Suc r) xs)" by (subst xs) simp
  then show ?thesis
    using before assms by (simp add: put_cell_def upd_conv_take_nth_drop)
qed

lemma columns_of_put:
  assumes "\<forall>row\<in>set rows. row_sized columns row" "r < length rows" "c < length columns" "length bs = TypeElemSize (cs_type (columns ! c))"
  shows "(columns_of (length columns) rows)[c := put_cell (TypeElemSize (cs_type (columns ! c))) r bs (columns_of (length columns) rows ! c)] =
    columns_of (length columns) (rows[r := (rows ! r)[c := bs]])"
proof (rule nth_equalityI)
  fix d assume "d < length ((columns_of (length columns) rows)[c := put_cell (TypeElemSize (cs_type (columns ! c))) r bs (columns_of (length columns) rows ! c)])"
  then have d: "d < length columns" by (simp add: columns_of_def)
  have len: "length (rows ! r) = length columns" using assms(1,2) by (simp add: row_sized_length)
  have same: "map (\<lambda>row. row ! d) (rows[r := (rows ! r)[c := bs]]) = (map (\<lambda>row. row ! d) rows)[r := (if d = c then bs else rows ! r ! d)]"
    using len d by (auto simp: map_update)
  have "put_cell (TypeElemSize (cs_type (columns ! c))) r bs (concat (map (\<lambda>row. row ! c) rows)) = concat ((map (\<lambda>row. row ! c) rows)[r := bs])"
    using assms row_sized_nth by (intro put_cell_concat) auto
  moreover have "(map (\<lambda>row. row ! d) rows)[r := rows ! r ! d] = map (\<lambda>row. row ! d) rows"
    using assms(2) by (metis list_update_id map_update)
  ultimately show "(columns_of (length columns) rows)[c := put_cell (TypeElemSize (cs_type (columns ! c))) r bs (columns_of (length columns) rows ! c)] ! d =
      columns_of (length columns) (rows[r := (rows ! r)[c := bs]]) ! d"
    using d assms(3) same by (simp add: columns_of_def nth_list_update)
qed (simp add: columns_of_def)

text \<open>What an INSERT makes of one row of values: the cells of the targets, zero bytes in the other columns.\<close>

definition zero_row :: "column_schema list \<Rightarrow> bytes list" where
  "zero_row columns = map (\<lambda>c. replicate (TypeElemSize (cs_type c)) 0) columns"

definition value_cell :: "column_schema \<Rightarrow> plan_expr \<Rightarrow> bytes result" where
  "value_cell c e = bind_r (EvalInsertConstant e) (insert_cell c)"

definition insert_row :: "column_schema list \<Rightarrow> u32 list \<Rightarrow> plan_expr list \<Rightarrow> bytes list" where
  "insert_row columns targets row =
     map (\<lambda>j. case map_of (zip (map unat targets) row) j of
                 None \<Rightarrow> zero_row columns ! j
               | Some e \<Rightarrow> (case value_cell (columns ! j) e of Inr bs \<Rightarrow> bs | Inl _ \<Rightarrow> [])) [0..<length columns]"

definition row_insertable :: "column_schema list \<Rightarrow> u32 list \<Rightarrow> plan_expr list \<Rightarrow> bool" where
  "row_insertable columns targets row \<longleftrightarrow> length row = length targets \<and>
     (\<forall>(t, e)\<in>set (zip targets row). unat t < length columns \<and> (\<exists>bs. value_cell (columns ! unat t) e = Inr bs))"

lemma insert_cell_length: "insert_cell c v = Inr bs \<Longrightarrow> length bs = TypeElemSize (cs_type c)"
  by (cases "cs_type c")
    (auto simp: insert_cell_def numeric_value_def bind_r_Inr_iff dest: WriteVarcharSlot_length split: if_splits)

lemma value_cell_length: "value_cell c e = Inr bs \<Longrightarrow> length bs = TypeElemSize (cs_type c)"
  by (auto simp: value_cell_def bind_r_Inr_iff dest: insert_cell_length)

lemma write_value_cell: "value_cell (columns ! unat t) e = Inr bs \<Longrightarrow> unat t < length columns \<Longrightarrow>
    write_value columns r (t, e) buffers = Inr (buffers[unat t := put_cell (TypeElemSize (cs_type (columns ! unat t))) r bs (buffers ! unat t)])"
  by (auto simp: write_value_def value_cell_def bind_r_Inr_iff Let_def)

definition set_cells :: "(nat \<times> bytes) list \<Rightarrow> bytes list \<Rightarrow> bytes list" where
  "set_cells = fold (\<lambda>(j, bs) row. row[j := bs])"

lemma set_cells_nth: "distinct (map fst js) \<Longrightarrow> j < length row \<Longrightarrow>
    set_cells js row ! j = (case map_of js j of None \<Rightarrow> row ! j | Some bs \<Rightarrow> bs)"
proof (induction js arbitrary: row)
  case (Cons jb js)
  obtain i bs where jb: "jb = (i, bs)" by fastforce
  have "map_of js i = None" using Cons.prems(1) by (simp add: jb map_of_eq_None_iff)
  then show ?case using Cons by (auto simp: jb set_cells_def split: option.splits)
qed (simp add: set_cells_def)

lemma length_set_cells: "length (set_cells js row) = length row"
  by (induction js arbitrary: row) (auto simp: set_cells_def split: prod.splits)

definition cells_of :: "column_schema list \<Rightarrow> (u32 \<times> plan_expr) list \<Rightarrow> (nat \<times> bytes) list" where
  "cells_of columns tes = map (\<lambda>(t, e). (unat t, case value_cell (columns ! unat t) e of Inr bs \<Rightarrow> bs | Inl _ \<Rightarrow> [])) tes"

lemma row_sized_update: "row_sized columns row \<Longrightarrow> c < length columns \<Longrightarrow> length bs = TypeElemSize (cs_type (columns ! c)) \<Longrightarrow> row_sized columns (row[c := bs])"
proof -
  assume a: "row_sized columns row" "c < length columns" "length bs = TypeElemSize (cs_type (columns ! c))"
  have "map length row = map (\<lambda>c. TypeElemSize (cs_type c)) columns" using a(1) by (simp add: row_sized_def)
  moreover have "(map (\<lambda>c. TypeElemSize (cs_type c)) columns)[c := length bs] = map (\<lambda>c. TypeElemSize (cs_type c)) columns"
    using a(2,3) by (metis list_update_id nth_map)
  ultimately show ?thesis by (simp add: row_sized_def map_update)
qed

lemma write_values:
  assumes "\<forall>(t, e)\<in>set tes. unat t < length columns \<and> (\<exists>bs. value_cell (columns ! unat t) e = Inr bs)"
    and "\<forall>row\<in>set rows. row_sized columns row" "r < length rows"
  shows "fold_r (write_value columns r) tes (columns_of (length columns) rows) =
      Inr (columns_of (length columns) (rows[r := set_cells (cells_of columns tes) (rows ! r)])) \<and>
    row_sized columns (set_cells (cells_of columns tes) (rows ! r))"
  using assms
proof (induction tes arbitrary: rows)
  case Nil
  then show ?case by (simp add: cells_of_def set_cells_def)
next
  case (Cons te tes)
  obtain t e where te: "te = (t, e)" by fastforce
  obtain bs where bs: "value_cell (columns ! unat t) e = Inr bs" "unat t < length columns" using Cons.prems(1) by (auto simp: te)
  let ?row = "(rows ! r)[unat t := bs]" and ?rows = "rows[r := (rows ! r)[unat t := bs]]"
  note len = value_cell_length [OF bs(1)]
  have "row_sized columns ?row" using Cons.prems(2,3) bs(2) len by (intro row_sized_update) simp_all
  then have sized: "\<forall>row\<in>set ?rows. row_sized columns row" using Cons.prems(2) set_update_subset_insert by fastforce
  have "write_value columns r te (columns_of (length columns) rows) = Inr (columns_of (length columns) ?rows)"
    unfolding te using write_value_cell [OF bs] columns_of_put [OF Cons.prems(2,3) bs(2) len] by simp
  then show ?case using Cons.IH [OF _ sized] Cons.prems(1,3) by (simp add: cells_of_def set_cells_def te bs(1))
qed

lemma map_of_cells: "map_of (cells_of columns (zip targets row)) j =
    map_option (\<lambda>e. case value_cell (columns ! j) e of Inr bs \<Rightarrow> bs | Inl _ \<Rightarrow> []) (map_of (zip (map unat targets) row) j)"
  by (induction targets row rule: list_induct2') (auto simp: cells_of_def)

lemma zero_row_nth: "j < length columns \<Longrightarrow> zero_row columns ! j = replicate (TypeElemSize (cs_type (columns ! j))) 0"
  by (simp add: zero_row_def)

lemma zero_row_sized: "row_sized columns (zero_row columns)"
  by (simp add: row_sized_def zero_row_def)

lemma set_cells_insert_row:
  assumes "distinct targets" "length row = length targets"
  shows "set_cells (cells_of columns (zip targets row)) (zero_row columns) = insert_row columns targets row"
proof (rule nth_equalityI)
  have fst: "map fst (cells_of columns (zip targets row)) = map unat targets"
    using assms(2) by (induction targets row rule: list_induct2') (auto simp: cells_of_def)
  have "inj_on unat (set targets)" by (simp add: inj_on_def word_unat_eq_iff)
  then have d: "distinct (map fst (cells_of columns (zip targets row)))" using assms(1) by (simp add: fst distinct_map)
  fix j assume "j < length (set_cells (cells_of columns (zip targets row)) (zero_row columns))"
  then have j: "j < length columns" by (simp add: length_set_cells zero_row_def)
  then show "set_cells (cells_of columns (zip targets row)) (zero_row columns) ! j = insert_row columns targets row ! j"
    using set_cells_nth [OF d, of j "zero_row columns"]
    by (simp add: zero_row_def map_of_cells insert_row_def split: option.splits)
qed (simp add: length_set_cells zero_row_def insert_row_def)

lemma write_rows_matrix:
  assumes "\<forall>row\<in>set rows. row_insertable columns targets row" "distinct targets" "\<forall>row\<in>set before. row_sized columns row"
  shows "fold_r (write_row columns targets) (zip [length before..<length before + length rows] rows)
      (columns_of (length columns) (before @ replicate (length rows) (zero_row columns))) =
    Inr (columns_of (length columns) (before @ map (insert_row columns targets) rows)) \<and>
    (\<forall>row\<in>set (map (insert_row columns targets) rows). row_sized columns row)"
  using assms
proof (induction rows arbitrary: before)
  case (Cons row rows)
  let ?all = "before @ replicate (length (row # rows)) (zero_row columns)" and ?new = "insert_row columns targets row"
  have row: "length row = length targets" "\<forall>(t, e)\<in>set (zip targets row). unat t < length columns \<and> (\<exists>bs. value_cell (columns ! unat t) e = Inr bs)"
    using Cons.prems(1) by (simp_all add: row_insertable_def)
  have sized: "\<forall>row\<in>set ?all. row_sized columns row" using Cons.prems(3) zero_row_sized by auto
  note w = write_values [OF row(2) sized, of "length before"]
  have nth: "?all ! length before = zero_row columns" "length before < length ?all" by simp_all
  have upd: "?all[length before := ?new] = (before @ [?new]) @ replicate (length rows) (zero_row columns)" by simp
  have step: "write_row columns targets (length before, row) (columns_of (length columns) ?all) =
      Inr (columns_of (length columns) ((before @ [?new]) @ replicate (length rows) (zero_row columns)))"
    and new: "row_sized columns ?new"
    using w [OF nth(2)] unfolding nth(1) set_cells_insert_row [OF Cons.prems(2) row(1)] upd by (simp_all add: write_row_def row(1))
  have "\<forall>row\<in>set (before @ [?new]). row_sized columns row" using Cons.prems(3) new by simp
  note rest = Cons.IH [OF _ Cons.prems(2) this]
  have zip: "zip [length before..<length before + length (row # rows)] (row # rows) =
      (length before, row) # zip [length (before @ [?new])..<length (before @ [?new]) + length rows] rows"
    by (simp add: upt_conv_Cons del: upt_Suc)
  have "fold_r (write_row columns targets) (zip [length before..<length before + length (row # rows)] (row # rows)) (columns_of (length columns) ?all) =
      fold_r (write_row columns targets) (zip [length (before @ [?new])..<length (before @ [?new]) + length rows] rows)
        (columns_of (length columns) ((before @ [?new]) @ replicate (length rows) (zero_row columns)))"
    unfolding zip fold_r.simps step by (simp only: bind_r_simps)
  then show ?case using rest Cons.prems(1) new by simp
qed simp

lemma concat_zeros: "concat (replicate n (replicate k x)) = replicate (n * k) x"
  by (induction n) (simp_all add: replicate_add)

lemma insert_buffers_zero:
  assumes "\<forall>c\<in>set columns. cs_type c \<noteq> DT_INVALID"
  shows "insert_buffers columns n = Inr (columns_of (length columns) (replicate n (zero_row columns)))"
proof -
  have "insert_buffers columns n = Inr (map (\<lambda>c. replicate (n * TypeElemSize (cs_type c)) 0) columns)"
    unfolding insert_buffers_def using assms by (induction columns) simp_all
  also have "map (\<lambda>c. replicate (n * TypeElemSize (cs_type c)) 0) columns = columns_of (length columns) (replicate n (zero_row columns))"
    by (rule nth_equalityI) (simp_all add: columns_of_def zero_row_nth concat_zeros map_replicate_const [symmetric])
  finally show ?thesis .
qed

lemma grow_set: "length xs = n \<Longrightarrow> (grow (Suc n) x xs)[n := y] = xs @ [y]"
  by (simp add: grow_def list_update_append)

lemma assemble_chunk_eq:
  assumes "length buffers = length columns"
  shows "assemble_chunk columns n buffers =
    \<lparr>dc_size = n, dc_slice_start = 0, dc_chunks = buffers, dc_element_sizes = map (\<lambda>c. TypeElemSize (cs_type c)) columns\<rparr>"
proof -
  have "fold (\<lambda>c. set_data c (buffers ! c) (TypeElemSize (cs_type (columns ! c)))) [0..<m] (new_chunk n) =
      \<lparr>dc_size = n, dc_slice_start = 0, dc_chunks = take m buffers, dc_element_sizes = take m (map (\<lambda>c. TypeElemSize (cs_type c)) columns)\<rparr>"
    if "m \<le> length columns" for m
    using that
  proof (induction m)
    case (Suc m)
    then have m: "m < length columns" by simp
    then show ?case using Suc assms by (simp add: set_data_def grow_set take_Suc_conv_app_nth)
  qed (simp add: new_chunk_def)
  from this [of "length columns"] show ?thesis using assms by (simp add: assemble_chunk_def)
qed

lemma assembled_rows:
  assumes "\<forall>row\<in>set rows. row_sized columns row"
  defines "chunk \<equiv> assemble_chunk columns (length rows) (columns_of (length columns) rows)"
  shows "chunk_ok (map cs_type columns) chunk \<and> dc_slice_start chunk = 0 \<and> dc_size chunk = length rows \<and> chunk_rows chunk = rows"
proof -
  have chunk: "chunk = \<lparr>dc_size = length rows, dc_slice_start = 0, dc_chunks = columns_of (length columns) rows,
      dc_element_sizes = map (\<lambda>c. TypeElemSize (cs_type c)) columns\<rparr>"
    unfolding chunk_def by (rule assemble_chunk_eq) (simp add: columns_of_def)
  let ?cells = "\<lambda>c. map (\<lambda>row. row ! c) rows"
  have sized: "\<forall>x\<in>set (?cells c). length x = TypeElemSize (cs_type (columns ! c))" if "c < length columns" for c
    using assms(1) that row_sized_nth by auto
  have len: "length (concat (?cells c)) = length rows * TypeElemSize (cs_type (columns ! c))" if "c < length columns" for c
    using sized [OF that] by (induction rows) simp_all
  have cell: "cell (TypeElemSize (cs_type (columns ! c))) (concat (?cells c)) r = rows ! r ! c" if "c < length columns" "r < length rows" for c r
  proof -
    have "cells (TypeElemSize (cs_type (columns ! c))) (length (?cells c)) (concat (?cells c)) ! r = ?cells c ! r"
      by (simp only: cells_concat [OF sized [OF that(1)]])
    then show ?thesis using that(2) by simp
  qed
  have "chunk_row chunk r = rows ! r" if "r < length rows" for r
  proof (rule nth_equalityI)
    have width: "length (rows ! r) = length columns" using assms(1) that by (simp add: row_sized_length)
    show "length (chunk_row chunk r) = length (rows ! r)" by (simp add: chunk_row_def chunk columns_of_def width)
    fix c assume "c < length (chunk_row chunk r)"
    then have "c < length columns" by (simp add: chunk_row_def chunk columns_of_def)
    then show "chunk_row chunk r ! c = rows ! r ! c" using cell that by (simp add: chunk_row_def chunk columns_of_def raw_data_def)
  qed
  then have "chunk_rows chunk = rows" by (intro nth_equalityI) (simp_all add: chunk_rows_def chunk)
  moreover have "chunk_ok (map cs_type columns) chunk" using len by (simp add: chunk_ok_def chunk columns_of_def)
  ultimately show ?thesis by (simp add: chunk)
qed


subsection \<open>Literals\<close>

lemma f64_to_int_of_int:
  assumes "\<bar>n\<bar> \<le> 2 ^ 53" "- b \<le> n" "n < b"
  shows "f64_to_int b (f64_of_int n) = Inr n"
proof -
  let ?d = "f64_of_int n" and ?v = "fp_val 52 (ieee_mag (f64_of_int n))"
  note u = f64_of_int_units [OF assms(1)]
  then have "int ?v = \<bar>n\<bar> * 2 ^ 1074" by (simp add: ieee_units_def abs_mult split: if_splits)
  then have v: "?v = nat \<bar>n\<bar> * 2 ^ 1074"
    by (metis abs_ge_zero int_eq_iff nat_mult_distrib nat_numeral nat_power_eq zero_le_numeral)
  then have "int (?v div 2 ^ 1074) * 2 ^ 1074 = int ?v" by simp
  then have "f64_trunc_int ?d * 2 ^ 1074 = ieee_units 52 ?d" by (simp only: f64_trunc_int_def ieee_units_def mult.assoc)
  then have t: "f64_trunc_int ?d = n" unfolding u by (subst (asm) mult_cancel_right) simp
  have "nat \<bar>n\<bar> * 2 ^ 1074 < fp_val 52 (ieee_inf 52 TYPE(64))"
  proof -
    have "nat \<bar>n\<bar> * 2 ^ 1074 \<le> 2 ^ 53 * 2 ^ 1074" using assms(1) by (intro mult_right_mono) simp_all
    also have "(2 :: nat) ^ 53 * 2 ^ 1074 < fp_val 52 (ieee_inf 52 TYPE(64))"
      by (subst fp_val_inf) (simp, unfold power_add [symmetric], rule power_strict_increasing, simp_all)
    finally show ?thesis .
  qed
  then have "ieee_mag ?d \<noteq> ieee_inf 52 TYPE(64)" using v by (metis less_irrefl_nat)
  then show ?thesis using assms(2,3) by (simp add: f64_to_int_def t f64_is_inf_def f64_of_int_not_nan)
qed

text \<open>A literal is stored exactly in a column of its type.\<close>

lemma literal_cells:
  fixes i :: i32 and d :: f64 and s :: string
  shows
  "cs_type c = DT_INT32 \<Longrightarrow> value_cell c (PlanLiteral (Lit_int i) ty) = Inr (le_bytes 4 i)"
  "cs_type c = DT_DOUBLE \<Longrightarrow> value_cell c (PlanLiteral (Lit_double d) ty) = Inr (le_bytes 8 d)"
  "cs_type c = DT_VARCHAR \<Longrightarrow> value_cell c (PlanLiteral (Lit_string s) ty) = WriteVarcharSlot s"
proof -
  have i: "- (2 ^ 31) \<le> sint i" "sint i < 2 ^ 31" using sint_lt [of i] sint_ge [of i] by simp_all
  then have "\<bar>sint i\<bar> \<le> 2 ^ 53" by simp
  then show "cs_type c = DT_INT32 \<Longrightarrow> value_cell c (PlanLiteral (Lit_int i) ty) = Inr (le_bytes 4 i)"
    using f64_to_int_of_int [of "sint i" "2 ^ 31"] i by (simp add: value_cell_def insert_cell_def numeric_value_def number_value_def)
qed (simp_all add: value_cell_def insert_cell_def numeric_value_def number_value_def)

end
