(* ===== verification/Execution_Engine.thy ===== *)
theory Execution_Engine
  imports Parallel_Query Command_Executor
begin

text \<open>
  \<^verbatim>\<open>src/src/execution/execution_engine.{h,cpp}\<close> and \<^verbatim>\<open>src/src/execution/execution_context.h\<close>: the engine sends a plan to the
  command executor, to the serial path or to the parallel executor.  Its outcomes form a relation, because the schedules of the
  workers do.
\<close>

subsection \<open>Dispatch\<close>

datatype execution_mode = AUTO | SINGLE_THREAD | MULTI_THREAD

text \<open>\<open>ec_pool\<close> is the size of the thread pool, if there is one, and \<open>ec_arenas\<close> the number of worker arenas of the query memory.\<close>

record execution_context =
  ec_mode :: execution_mode
  ec_pool :: "nat option"
  ec_arenas :: nat
  ec_parallel :: parallel_settings

fun IsQueryPlan :: "physical_plan \<Rightarrow> bool" where
  "IsQueryPlan (PhysicalInsert oid targets rows) = False"
| "IsQueryPlan (PhysicalCreateTable name schema) = False"
| "IsQueryPlan _ = True"

definition ExecuteCommand :: "ddl_io \<Rightarrow> database \<Rightarrow> physical_plan \<Rightarrow> query_outcome" where
  "ExecuteCommand io db plan =
     ([], bind_r (Command_Execute io plan db) (\<lambda>(cr, db).
            Inr (\<lparr>er_type = COMMAND, er_schema = [], er_row_count = 0, er_affected_rows = word_of_nat (cr_affected_rows cr)\<rparr>, db)))"

definition ExecuteQuery ::
  "(group_table \<Rightarrow> group_table) \<Rightarrow> execution_context \<Rightarrow> database \<Rightarrow> physical_plan \<Rightarrow> query_outcome \<Rightarrow> bool" where
  "ExecuteQuery order ctx db plan out \<longleftrightarrow>
     (let serial = (ExecuteSerialQuery order db plan = Some out) in
      if ec_mode ctx = SINGLE_THREAD then serial
      else (case ec_pool ctx of
        None \<Rightarrow> serial
      | Some threads \<Rightarrow>
          if CanParallelizeAggregate plan then
            (case plan of
               PhysicalHashAggregate group_by outs child \<Rightarrow>
                 ExecuteAggregate order (ec_parallel ctx) threads (ec_arenas ctx) db group_by outs child out
             | _ \<Rightarrow>
                 if ec_mode ctx = MULTI_THREAD then ExecuteParallelQuery (ec_parallel ctx) threads (ec_arenas ctx) db plan out
                 else serial)
          else serial))"

definition Execute ::
  "ddl_io \<Rightarrow> (group_table \<Rightarrow> group_table) \<Rightarrow> execution_context \<Rightarrow> database \<Rightarrow> physical_plan \<Rightarrow> query_outcome \<Rightarrow> bool" where
  "Execute io order ctx db plan out \<longleftrightarrow>
     (if IsQueryPlan plan then ExecuteQuery order ctx db plan out else out = ExecuteCommand io db plan)"

subsection \<open>The mode does not change the answer\<close>

text \<open>
  \<open>r\<close> is a way to run a query: it has an outcome, and each delivers the rows \<open>rows\<close> in some order, in batches with columns of the
  types.
\<close>

definition answers :: "(query_outcome \<Rightarrow> bool) \<Rightarrow> exec_schema \<Rightarrow> database \<Rightarrow> data_type list \<Rightarrow> bytes list multiset \<Rightarrow> bool" where
  "answers r schema db types rows \<longleftrightarrow> (\<exists>out. r out) \<and>
     (\<forall>out. r out \<longrightarrow> snd out = Inr (query_result schema (word_of_nat (size rows)), db) \<and> mset (concat (map active_rows (fst out))) = rows \<and>
        delivered_ok types (fst out))"

lemma answers_serial:
  assumes "x = Some (bs, Inr (query_result schema (word_of_nat (size rows)), db))" "mset (concat (map active_rows bs)) = rows" "delivered_ok types bs"
  shows "answers (\<lambda>out. x = Some out) schema db types rows"
  using assms by (auto simp: answers_def)

lemma single_input_plan:
  assumes "single_input_chain plan"
  shows "IsQueryPlan plan" "CanParallelizeAggregate plan" "(case plan of PhysicalHashAggregate g outs c \<Rightarrow> x g outs c | _ \<Rightarrow> y) = y"
  using assms by (cases plan; simp add: CanParallelizeAggregate_def)+

text \<open>Every way through the dispatch runs the chain.\<close>

lemma select_answers:
  assumes "scan_source db i options ps sbs t" "BuildNode (db_catalog db) None plan = Inr (op, schema)" "chain_scan op = Some (i, options)"
    and "chain_ok op (table_types options t) (table_rows options sbs t)"
    and "rows = chain_rows op (table_types options t) (table_rows options sbs t)"
  shows "answers (Execute io order ctx db plan) schema db (chain_types op (table_types options t)) (mset rows)"
proof -
  note plan = BuildNode_chain [OF assms(2) chain_scan_is_chain [OF assms(3)]]
  note shape = single_input_plan [OF conjunct1 [OF conjunct2 [OF plan]]]
  have serial: "answers (\<lambda>out. ExecuteSerialQuery order db plan = Some out) schema db (chain_types op (table_types options t)) (mset rows)"
  proof -
    obtain bs where bs: "ExecuteSerialQuery order db plan = Some (bs, Inr (query_result schema (word_of_nat (length rows)), db))"
      "concat (map active_rows bs) = rows" "delivered_ok (chain_types op (table_types options t)) bs"
      using serial_chain [OF assms(1-3) conjunct1 [OF plan] assms(4), of order] unfolding assms(5) [symmetric] by blast
    show ?thesis by (rule answers_serial [OF bs(1) [folded size_mset] arg_cong [OF bs(2)] bs(3)])
  qed
  have parallel: "answers (ExecuteParallelQuery config threads arenas db plan) schema db (chain_types op (table_types options t)) (mset rows)" for config threads arenas
    using parallel_query_rows [OF assms, of config threads arenas] by (simp add: answers_def)
  show ?thesis using serial parallel
    by (cases "ec_pool ctx"; cases "ec_mode ctx") (simp_all add: Execute_def [abs_def] ExecuteQuery_def Let_def shape)
qed

text \<open>C7: A query without aggregation delivers the rows of the scan that pass the filters, projected, whatever the execution mode, the
  number of threads, the capacity of the result queue and the schedule: it has an outcome, and in every outcome the batches hold
  these rows as a multiset, and the result counts them.\<close>

theorem Execute_select_exact:
  assumes "scan_source db i options ps sbs t" "BuildNode (db_catalog db) None plan = Inr (op, schema)" "chain_scan op = Some (i, options)"
    and "chain_ok op (table_types options t) (table_rows options sbs t)"
    and "rows = chain_rows op (table_types options t) (table_rows options sbs t)"
  shows "answers (Execute io order ctx db plan) schema db (chain_types op (table_types options t)) (mset rows)"
  by (rule select_answers [OF assms])

text \<open>C8: An aggregation with SUM, AVG, MIN and MAX of INT32 or INT64 arguments only, whose absolute values add up to less than \<open>2 ^ 63\<close>, and
  with group keys without NaN or negative zero, over a chain whose statistics are exact and whose expressions do not fail, delivers one row
  for each group, with the same values whatever the execution mode, the number of threads and the schedule: it has an outcome, and in every outcome the batches hold the rows of the aggregation of all the rows that the
  chain below it delivers.\<close>

theorem Execute_aggregate_exact:
  assumes "scan_source db i options ps sbs t" "BuildNode (db_catalog db) None child = Inr (op, child_schema)" "chain_scan op = Some (i, options)"
    and "BuildAggregateSpec group_by outs child_schema = Inr spec"
    and "chain_ok op (table_types options t) (table_rows options sbs t)"
    and "rows = chain_rows op (table_types options t) (table_rows options sbs t)" "types = chain_types op (table_types options t)"
    and "aggregable types (ba_group_exprs spec) (ba_agg_calls spec) rows" "outputs_ok types (ba_group_exprs spec) (ba_agg_calls spec) (ba_outputs spec) rows"
    and "\<And>table. mset (order table) = mset table"
  shows "answers (Execute io order ctx db (PhysicalHashAggregate group_by outs child)) (ba_output_schema spec) db (map ao_type (ba_outputs spec))
    (aggregate_answer types (ba_group_exprs spec) (ba_agg_calls spec) (ba_outputs spec) rows)"
proof -
  let ?plan = "PhysicalHashAggregate group_by outs child" and ?schema = "ba_output_schema spec"
  let ?rows = "aggregate_answer types (ba_group_exprs spec) (ba_agg_calls spec) (ba_outputs spec) rows"
  have "chain_global op = None" using BuildNode_chain [OF assms(2) chain_scan_is_chain [OF assms(3)]] by blast
  moreover have "BuildNode (db_catalog db) None ?plan =
      Inr (HashAggregateOperator op (ba_group_exprs spec) (ba_agg_calls spec) (ba_outputs spec), ?schema)"
    using assms(2,4) by (simp add: BuildHashAggregate_def)
  ultimately obtain bs where "ExecuteSerialQuery order db ?plan = Some (bs, Inr (query_result ?schema (word_of_nat (size ?rows)), db))"
    "mset (concat (map active_rows bs)) = ?rows" "delivered_ok (map ao_type (ba_outputs spec)) bs"
    using serial_aggregate [OF assms(1) _ assms(3) _ assms(5-10)] by blast
  then have serial: "answers (\<lambda>out. ExecuteSerialQuery order db ?plan = Some out) ?schema db (map ao_type (ba_outputs spec)) ?rows" by (rule answers_serial)
  have parallel: "answers (ExecuteAggregate order config threads arenas db group_by outs child) ?schema db (map ao_type (ba_outputs spec)) ?rows" for config threads arenas
    using parallel_aggregate_rows [OF assms refl, of config threads arenas] by (simp add: answers_def)
  have "CanParallelizeAggregate ?plan" using BuildNode_chain [OF assms(2) chain_scan_is_chain [OF assms(3)]] by (simp add: CanParallelizeAggregate_def)
  then show ?thesis using serial parallel
    by (cases "ec_pool ctx"; cases "ec_mode ctx") (simp_all add: Execute_def [abs_def] ExecuteQuery_def)
qed

text \<open>A CREATE TABLE that the catalog refuses is reported like one that succeeds: the engine drops the flag of the command
  executor, so the caller is given a command result without an error, and no table has been made.\<close>

lemma failed_create_reported:
  assumes "CreateTable (dd_catalog io) name schema (db_catalog db) = (False, c)"
  shows "Execute io order ctx db (PhysicalCreateTable name schema)
      ([], Inr (\<lparr>er_type = COMMAND, er_schema = [], er_row_count = 0, er_affected_rows = 0\<rparr>, db\<lparr>db_catalog := c\<rparr>))"
  using assms by (simp add: Execute_def ExecuteCommand_def ExecuteCreateTable_def)

end
