(* ===== verification/Parallel_Threads.thy ===== *)
theory Parallel_Threads
  imports Parallel_Query Queue_Monitor
begin

text \<open>
  The threads of a plain query of the parallel executor, with everything that can hold one up: a worker that pushes into a full queue and
  the coordinator that pops from an empty one fall asleep, and only a notification or a spurious wake-up lets them
  try again.  Workers may fail, by an expression of the chain or in the scan, cancel the scan and abort the queue.  Whatever happens, the run
  ends, after a bounded number of steps.
\<close>

subsection \<open>Runs with sleeping threads\<close>

text \<open>Thread \<open>t\<close> is worker \<open>t\<close>; the thread after the last worker is the coordinator.\<close>

record live_run =
  lr_run :: query_run
  lr_waits :: "waiter list"

definition thread_step ::
  "database \<Rightarrow> physical_plan \<Rightarrow> scan_options \<Rightarrow> nat \<Rightarrow> query_run \<Rightarrow> (query_run \<times> notification list) option" where
  "thread_step db plan options t run =
     (if t < length (qr_workers run) then query_worker_step db plan options t run else query_consumer_step run)"

text \<open>The operation of the queue that the thread calls next.\<close>

definition thread_call :: "nat \<Rightarrow> query_run \<Rightarrow> vector_batch queue_call option" where
  "thread_call t run =
     (if t < length (qr_workers run) then
        (case qw_status (qr_workers run ! t) of
           Q_pushing op b \<Rightarrow> Some (Call_push b)
         | Q_aborting e \<Rightarrow> Some (Call_abort (Some e))
         | Q_closing \<Rightarrow> Some Call_close
         | _ \<Rightarrow> None)
      else if qr_ended run then None else Some Call_pop)"

text \<open>The first argument tells the spurious wake-ups from the steps of the program.\<close>

inductive live_step :: "database \<Rightarrow> physical_plan \<Rightarrow> scan_options \<Rightarrow> bool \<Rightarrow> live_run \<Rightarrow> live_run \<Rightarrow> bool"
  for db plan options where
  work: "t < length (lr_waits r) \<Longrightarrow> lr_waits r ! t = awake [] \<Longrightarrow> thread_step db plan options t (lr_run r) = Some (run, ns) \<Longrightarrow>
     live_step db plan options False r \<lparr>lr_run = run, lr_waits = (lr_waits r)[t := awake ns]\<rparr>"
| sleep: "t < length (lr_waits r) \<Longrightarrow> lr_waits r ! t = awake [] \<Longrightarrow> thread_step db plan options t (lr_run r) = None \<Longrightarrow>
     thread_call t (lr_run r) = Some call \<Longrightarrow>
     live_step db plan options False r (r\<lparr>lr_waits := (lr_waits r)[t := (awake [])\<lparr>wt_asleep := waits_on call\<rparr>]\<rparr>)"
| notify: "t < length (lr_waits r) \<Longrightarrow> lr_waits r ! t = awake (n # ns) \<Longrightarrow> notified n ((lr_waits r)[t := awake ns]) ws \<Longrightarrow>
     live_step db plan options False r (r\<lparr>lr_waits := ws\<rparr>)"
| spurious: "t < length (lr_waits r) \<Longrightarrow> wt_asleep (lr_waits r ! t) = Some c \<Longrightarrow>
     live_step db plan options True r (r\<lparr>lr_waits := (lr_waits r)[t := woken c (lr_waits r ! t)]\<rparr>)"

definition live_start :: "query_run \<Rightarrow> live_run" where
  "live_start run = \<lparr>lr_run = run, lr_waits = replicate (Suc (length (qr_workers run))) (awake [])\<rparr>"

definition live_over :: "live_run \<Rightarrow> bool" where
  "live_over r \<longleftrightarrow> query_over (lr_run r) \<and> (\<forall>w\<in>set (lr_waits r). w = awake [])"

text \<open>\<open>k\<close> steps of the program and \<open>s\<close> spurious wake-ups.\<close>

inductive live_steps :: "database \<Rightarrow> physical_plan \<Rightarrow> scan_options \<Rightarrow> nat \<Rightarrow> nat \<Rightarrow> live_run \<Rightarrow> live_run \<Rightarrow> bool"
  for db plan options where
  start: "live_steps db plan options 0 0 r r"
| own: "live_steps db plan options k s r r' \<Longrightarrow> live_step db plan options False r' r'' \<Longrightarrow> live_steps db plan options (Suc k) s r r''"
| woken_up: "live_steps db plan options k s r r' \<Longrightarrow> live_step db plan options True r' r'' \<Longrightarrow> live_steps db plan options k (Suc s) r r''"

subsection \<open>The queue is used as a monitor\<close>

definition project :: "live_run \<Rightarrow> vector_batch monitor" where
  "project r = \<lparr>mo_queue = qr_queue (lr_run r),
     mo_calls = map (\<lambda>t. if wt_pending (lr_waits r ! t) = [] then thread_call t (lr_run r) else None) [0..<length (lr_waits r)],
     mo_waits = lr_waits r\<rparr>"

definition threads_fit :: "live_run \<Rightarrow> bool" where
  "threads_fit r \<longleftrightarrow> length (lr_waits r) = Suc (length (qr_workers (lr_run r)))"

text \<open>What a step of a thread does to the queue is what its call does; the calls of the other threads stay.\<close>

lemma thread_step_queue:
  assumes "thread_step db plan options t run = Some (run', ns)" "t \<le> length (qr_workers run)"
  shows "case thread_call t run of
      None \<Rightarrow> qr_queue run' = qr_queue run \<and> ns = []
    | Some call \<Rightarrow> \<exists>event. attempt call (qr_queue run) = Some (event, qr_queue run', ns)"
  using assms
  by (auto simp: thread_step_def thread_call_def query_worker_step_def query_consumer_step_def Let_def
      split: query_status.splits option.splits prod.splits sum.splits if_splits)

lemma thread_step_waits:
  assumes "thread_step db plan options t run = None" "thread_call t run = Some call" "t \<le> length (qr_workers run)"
  shows "attempt call (qr_queue run) = None"
  using assms
  by (auto simp: thread_step_def thread_call_def query_worker_step_def query_consumer_step_def Let_def
      split: query_status.splits option.splits prod.splits sum.splits if_splits)

lemma query_worker_step_workers:
  "query_worker_step db plan options t run = Some (run', ns) \<Longrightarrow>
     \<exists>wk. qr_workers run' = (qr_workers run)[t := wk] \<and> qr_ended run' = qr_ended run"
  by (auto simp: query_worker_step_def Let_def split: query_status.splits option.splits prod.splits sum.splits)

lemma query_consumer_step_workers: "query_consumer_step run = Some (run', ns) \<Longrightarrow> qr_workers run' = qr_workers run"
  by (auto simp: query_consumer_step_def split: option.splits prod.splits if_splits)

lemma thread_step_others:
  assumes "thread_step db plan options t run = Some (run', ns)"
  shows "length (qr_workers run') = length (qr_workers run)"
    "s \<noteq> t \<Longrightarrow> t \<le> length (qr_workers run) \<Longrightarrow> s \<le> length (qr_workers run) \<Longrightarrow> thread_call s run' = thread_call s run"
proof -
  have "length (qr_workers run') = length (qr_workers run) \<and>
    (s \<noteq> t \<longrightarrow> t \<le> length (qr_workers run) \<longrightarrow> s \<le> length (qr_workers run) \<longrightarrow> thread_call s run' = thread_call s run)"
  proof (cases "t < length (qr_workers run)")
    case True
    then show ?thesis using assms query_worker_step_workers [of db plan options t run run' ns]
      by (auto simp: thread_step_def thread_call_def)
  next
    case False
    then show ?thesis using assms query_consumer_step_workers [of run run' ns] by (auto simp: thread_step_def thread_call_def)
  qed
  then show "length (qr_workers run') = length (qr_workers run)"
    "s \<noteq> t \<Longrightarrow> t \<le> length (qr_workers run) \<Longrightarrow> s \<le> length (qr_workers run) \<Longrightarrow> thread_call s run' = thread_call s run" by blast+
qed

text \<open>A thread outside the queue may call an operation.\<close>

lemma monitor_enters:
  assumes "t < length (mo_waits m)" "mo_waits m ! t = awake []" "mo_calls m ! t = None" "t < length (mo_calls m)"
  shows "monitor_step\<^sup>*\<^sup>* m (m\<lparr>mo_calls := (mo_calls m)[t := call]\<rparr>)"
proof (cases call)
  case None
  then have "(mo_calls m)[t := call] = mo_calls m" using assms(3,4) by (metis list_update_id)
  then show ?thesis by simp
next
  case (Some c)
  then show ?thesis using monitor_step.enter [OF assms(1-3), of c] by simp
qed

lemma notified_keeps:
  assumes "notified n ws ws'"
  shows "length ws' = length ws" "s < length ws \<Longrightarrow> wt_pending (ws' ! s) = wt_pending (ws ! s)"
    "s < length ws \<Longrightarrow> wt_asleep (ws ! s) = None \<Longrightarrow> wt_asleep (ws' ! s) = None"
  using assms by (auto elim!: notified.cases simp: nth_list_update woken_def)

lemma project_simps [simp]:
  "mo_queue (project r) = qr_queue (lr_run r)" "mo_waits (project r) = lr_waits r" "length (mo_calls (project r)) = length (lr_waits r)"
  by (simp_all add: project_def)

lemma project_calls:
  "t < length (lr_waits r) \<Longrightarrow> mo_calls (project r) ! t = (if wt_pending (lr_waits r ! t) = [] then thread_call t (lr_run r) else None)"
  by (simp add: project_def)

text \<open>The calls after a step of thread \<open>t\<close>.\<close>

lemma project_update:
  assumes "length (lr_waits r') = length (lr_waits r)"
    and "\<And>s. s < length (lr_waits r) \<Longrightarrow> s \<noteq> t \<Longrightarrow>
      thread_call s (lr_run r') = thread_call s (lr_run r) \<and> wt_pending (lr_waits r' ! s) = wt_pending (lr_waits r ! s)"
  shows "mo_calls (project r') = (mo_calls (project r))[t := if wt_pending (lr_waits r' ! t) = [] then thread_call t (lr_run r') else None]"
proof (rule nth_equalityI)
  fix s
  assume s: "s < length (mo_calls (project r'))"
  then show "mo_calls (project r') ! s = (mo_calls (project r))[t := if wt_pending (lr_waits r' ! t) = [] then thread_call t (lr_run r') else None] ! s"
    using assms by (cases "s = t") (simp_all add: project_calls)
qed (simp add: assms(1))

lemma live_works:
  assumes fit: "threads_fit r" and t: "t < length (lr_waits r)" "lr_waits r ! t = awake []"
    and step: "thread_step db plan options t (lr_run r) = Some (run, ns)"
  shows "monitor_step\<^sup>*\<^sup>* (project r) (project \<lparr>lr_run = run, lr_waits = (lr_waits r)[t := awake ns]\<rparr>)"
proof -
  let ?r = "\<lparr>lr_run = run, lr_waits = (lr_waits r)[t := awake ns]\<rparr>"
  have le: "t \<le> length (qr_workers (lr_run r))" using t(1) fit by (simp add: threads_fit_def)
  have call: "mo_calls (project r) ! t = thread_call t (lr_run r)" using t by (simp add: project_calls awake_def)
  have calls: "mo_calls (project ?r) = (mo_calls (project r))[t := if ns = [] then thread_call t run else None]"
    using project_update [of ?r r t] thread_step_others(2) [OF step] t(1) fit by (simp add: threads_fit_def awake_def)
  show ?thesis
  proof (cases "thread_call t (lr_run r)")
    case None
    then have same: "qr_queue run = qr_queue (lr_run r)" "ns = []" using thread_step_queue [OF step le] by simp_all
    have "(lr_waits r)[t := awake ns] = lr_waits r" using t same(2) by (metis list_update_id)
    then have "project ?r = (project r)\<lparr>mo_calls := (mo_calls (project r))[t := thread_call t run]\<rparr>"
      using calls same by (intro monitor.equality) simp_all
    then show ?thesis using monitor_enters [of t "project r" "thread_call t run"] t call None by simp
  next
    case (Some c)
    then obtain event where "attempt c (qr_queue (lr_run r)) = Some (event, qr_queue run, ns)"
      using thread_step_queue [OF step le] by auto
    then have act: "acts t (project r)
        (project r\<lparr>mo_queue := qr_queue run, mo_calls := (mo_calls (project r))[t := None], mo_waits := (mo_waits (project r))[t := awake ns]\<rparr>)"
      (is "acts t _ ?m")
      using acts.finish [of t "project r" c event] t call Some by simp
    have m: "project ?r = ?m\<lparr>mo_calls := (mo_calls ?m)[t := if ns = [] then thread_call t run else None]\<rparr>"
      using calls by (intro monitor.equality) simp_all
    have "monitor_step\<^sup>*\<^sup>* ?m (project ?r)"
    proof (cases "ns = []")
      case True
      then show ?thesis unfolding m by (intro monitor_enters) (use t in simp_all)
    next
      case False
      then have "project ?r = ?m" unfolding m by (intro monitor.equality) simp_all
      then show ?thesis by simp
    qed
    then show ?thesis using monitor_step.act [OF act] by (meson converse_rtranclp_into_rtranclp)
  qed
qed

lemma live_notifies:
  assumes t: "t < length (lr_waits r)" "lr_waits r ! t = awake (n # ns)" and n: "notified n ((lr_waits r)[t := awake ns]) ws"
  shows "monitor_step\<^sup>*\<^sup>* (project r) (project (r\<lparr>lr_waits := ws\<rparr>))"
proof -
  let ?r = "r\<lparr>lr_waits := ws\<rparr>" and ?m = "project r\<lparr>mo_waits := ws\<rparr>"
  have act: "acts t (project r) ?m" using acts.notify [of t "project r" n ns ws] t n by simp
  have call: "mo_calls (project r) ! t = None" using t by (simp add: project_calls awake_def)
  have kept: "length ws = length (lr_waits r)" "wt_pending (ws ! s) = wt_pending ((lr_waits r)[t := awake ns] ! s)"
    if "s < length (lr_waits r)" for s
    using notified_keeps(1,2) [OF n] that by simp_all
  have wst: "ws ! t = awake ns" using notified_keeps(2,3) [OF n, of t] t(1) by (simp add: awake_def waiter.equality)
  have "mo_calls (project ?r) = (mo_calls (project r))[t := if ns = [] then thread_call t (lr_run r) else None]"
    using project_update [of ?r r t] kept t(1) wst by (simp add: awake_def)
  then have m: "project ?r = ?m\<lparr>mo_calls := (mo_calls ?m)[t := if ns = [] then thread_call t (lr_run r) else None]\<rparr>"
    by (intro monitor.equality) simp_all
  have "monitor_step\<^sup>*\<^sup>* ?m (project ?r)"
    unfolding m
  proof (cases "ns = []")
    case True
    then show "monitor_step\<^sup>*\<^sup>* ?m (?m\<lparr>mo_calls := (mo_calls ?m)[t := if ns = [] then thread_call t (lr_run r) else None]\<rparr>)"
      using monitor_enters [of t ?m "thread_call t (lr_run r)"] t(1) kept(1) wst call by simp
  next
    case False
    have "(mo_calls ?m)[t := None] = mo_calls ?m" using call by (simp add: list_update_same_conv t(1))
    then show "monitor_step\<^sup>*\<^sup>* ?m (?m\<lparr>mo_calls := (mo_calls ?m)[t := if ns = [] then thread_call t (lr_run r) else None]\<rparr>)"
      using False by simp
  qed
  then show ?thesis using monitor_step.act [OF act] by (meson converse_rtranclp_into_rtranclp)
qed

lemma live_projects:
  assumes "live_step db plan options spurious r r'" "threads_fit r"
  shows "monitor_step\<^sup>*\<^sup>* (project r) (project r')"
  using assms(1)
proof cases
  case (work t run ns)
  then show ?thesis using live_works [OF assms(2)] by simp
next
  case (sleep t call)
  have le: "t \<le> length (qr_workers (lr_run r))" using sleep(3) assms(2) by (simp add: threads_fit_def)
  have "acts t (project r) ((project r)\<lparr>mo_waits := (mo_waits (project r))[t := (awake [])\<lparr>wt_asleep := waits_on call\<rparr>]\<rparr>)"
    by (rule acts.sleep) (use sleep thread_step_waits [OF sleep(5,6) le] in \<open>simp_all add: project_calls awake_def\<close>)
  moreover have "mo_calls (project r') = mo_calls (project r)"
    by (rule nth_equalityI) (use sleep in \<open>auto simp: project_calls nth_list_update awake_def\<close>)
  then have "project r' = (project r)\<lparr>mo_waits := (mo_waits (project r))[t := (awake [])\<lparr>wt_asleep := waits_on call\<rparr>]\<rparr>"
    using sleep(2) by (intro monitor.equality) simp_all
  ultimately show ?thesis using monitor_step.act by (metis project_simps(2) r_into_rtranclp)
next
  case (notify t n ns ws)
  then show ?thesis using live_notifies by simp
next
  case (spurious t c)
  have "mo_calls (project r') = mo_calls (project r)"
    by (rule nth_equalityI) (use spurious in \<open>auto simp: project_calls nth_list_update\<close>)
  then have "project r' = (project r)\<lparr>mo_waits := (mo_waits (project r))[t := woken c (mo_waits (project r) ! t)]\<rparr>"
    using spurious(2) by (intro monitor.equality) simp_all
  then show ?thesis using spurious monitor_step.spurious [of t "project r" c] by (simp add: r_into_rtranclp)
qed

lemma live_fits: "live_step db plan options spurious r r' \<Longrightarrow> threads_fit r \<Longrightarrow> threads_fit r'"
  by (erule live_step.cases) (auto simp: threads_fit_def thread_step_others(1) notified_keeps(1))

subsection \<open>The work left\<close>

definition uncancelled :: "parallel_global \<Rightarrow> parallel_global" where
  "uncancelled g = g\<lparr>pg_cancelled := False\<rparr>"

text \<open>What holds of every run, also of one that fails.\<close>

definition run_inv ::
  "table_schema \<Rightarrow> scan_options \<Rightarrow> prepared_predicate list option \<Rightarrow> (segment_id \<times> segment_builder) list \<Rightarrow> query_run \<Rightarrow> bool" where
  "run_inv s options prepared sbs run \<longleftrightarrow>
     global_ok options prepared sbs (uncancelled (qr_global run)) (qr_table run) \<and> tst_schema (qr_table run) = s \<and>
     (\<forall>wk\<in>set (qr_workers run). local_ok s options prepared sbs (qw_local wk)) \<and>
     qr_active run = (\<Sum>wk\<leftarrow>qr_workers run. staying wk) \<and>
     phase run + (\<Sum>wk\<leftarrow>qr_workers run. is_closing wk) = 1 \<and>
     (qr_ended run \<longrightarrow> ended (qr_queue run))"

fun status_rank :: "query_status \<Rightarrow> nat" where
  "status_rank Q_gone = 0"
| "status_rank Q_closing = 1"
| "status_rank Q_leaving = 2"
| "status_rank Q_refused = 3"
| "status_rank (Q_aborting e) = 3"
| "status_rank (Q_failing e) = 4"
| "status_rank (Q_running op) = 5"
| "status_rank Q_submitted = 6"
| "status_rank (Q_pushing op b) = 7"

definition worker_rank :: "query_worker \<Rightarrow> nat" where
  "worker_rank wk = 4 * local_work (qw_local wk) + status_rank (qw_status wk)"

definition run_work :: "(segment_id \<times> segment_builder) list \<Rightarrow> query_run \<Rightarrow> nat" where
  "run_work sbs run = 4 * global_work sbs (qr_global run) + (\<Sum>wk\<leftarrow>qr_workers run. worker_rank wk) +
     length (bq_queue (qr_queue run)) + (if qr_ended run then 0 else 1)"

text \<open>One worker changes.\<close>

lemma run_update:
  assumes inv: "run_inv s options prepared sbs run" and w: "w < length (qr_workers run)"
    and same: "qr_workers run' = (qr_workers run)[w := wk]" "qr_ended run' = qr_ended run"
    and scan: "global_ok options prepared sbs (uncancelled (qr_global run')) (qr_table run')" "tst_schema (qr_table run') = s"
      "local_ok s options prepared sbs (qw_local wk)"
    and leaving: "qr_active run' + staying (qr_workers run ! w) = qr_active run + staying wk"
      "phase run' + is_closing wk = phase run + is_closing (qr_workers run ! w)"
    and queue: "ended (qr_queue run) \<Longrightarrow> ended (qr_queue run')"
    and work: "4 * global_work sbs (qr_global run') + worker_rank wk + length (bq_queue (qr_queue run')) <
      4 * global_work sbs (qr_global run) + worker_rank (qr_workers run ! w) + length (bq_queue (qr_queue run))"
  shows "run_inv s options prepared sbs run' \<and> run_work sbs run' < run_work sbs run"
proof -
  note i = inv [unfolded run_inv_def]
  have sums: "(\<Sum>wk\<leftarrow>qr_workers run'. staying wk) + staying (qr_workers run ! w) = (\<Sum>wk\<leftarrow>qr_workers run. staying wk) + staying wk"
    "(\<Sum>wk\<leftarrow>qr_workers run'. is_closing wk) + is_closing (qr_workers run ! w) = (\<Sum>wk\<leftarrow>qr_workers run. is_closing wk) + is_closing wk"
    "(\<Sum>wk\<leftarrow>qr_workers run'. worker_rank wk) + worker_rank (qr_workers run ! w) = (\<Sum>wk\<leftarrow>qr_workers run. worker_rank wk) + worker_rank wk"
    unfolding same(1) by (rule sum_list_replace [OF w])+
  have "\<forall>wk\<in>set (qr_workers run'). local_ok s options prepared sbs (qw_local wk)"
    using i scan(3) set_update_subset_insert [of "qr_workers run" w wk] by (auto simp: same(1))
  moreover have "qr_active run = (\<Sum>wk\<leftarrow>qr_workers run. staying wk)" "phase run + (\<Sum>wk\<leftarrow>qr_workers run. is_closing wk) = 1"
    using i by simp_all
  then have "qr_active run' = (\<Sum>wk\<leftarrow>qr_workers run'. staying wk)" "phase run' + (\<Sum>wk\<leftarrow>qr_workers run'. is_closing wk) = 1"
    using sums(1,2) leaving by linarith+
  moreover have "qr_ended run' \<longrightarrow> ended (qr_queue run')" using i queue by (simp add: same(2))
  moreover have "run_work sbs run' < run_work sbs run" using sums(3) work by (simp add: run_work_def same(2))
  ultimately show ?thesis using scan(1,2) unfolding run_inv_def by blast
qed

lemma uncancelled_simps [simp]:
  "uncancelled (Cancel g) = uncancelled g" "global_work sbs (Cancel g) = global_work sbs g"
  "global_work sbs (uncancelled g) = global_work sbs g" "\<not> pg_cancelled g \<Longrightarrow> uncancelled g = g" "pg_cancelled (uncancelled g) = False"
  by (simp_all add: uncancelled_def Cancel_def global_work_def)

text \<open>A pass of the scan by a running worker, cancelled or not.\<close>

lemma running_pass:
  assumes "global_ok options prepared sbs (uncancelled g) t" "local_ok (tst_schema t) options prepared sbs l"
  obtains step g' l' out' t' where "parallel_body options g l out t = Inr (step, g', l', out', t')"
    "global_ok options prepared sbs (uncancelled g') t'" "tst_schema t' = tst_schema t" "local_ok (tst_schema t) options prepared sbs l'"
    "local_work l' + global_work sbs g' + (if step = Scan_end then 0 else 1) \<le> local_work l + global_work sbs g"
proof (cases "pg_cancelled g")
  case True
  then have "parallel_body options g l out t = Inr (Scan_end, g, l, out, t)" by (simp add: parallel_body_def)
  then show thesis by (rule that) (use assms in simp_all)
next
  case False
  then have g: "global_ok options prepared sbs g t" using assms(1) by simp
  obtain step g' l' out' t' where r: "parallel_body options g l out t = Inr (step, g', l', out', t')" "global_ok options prepared sbs g' t'"
      "tst_schema t' = tst_schema t" "local_ok (tst_schema t) options prepared sbs l'"
      "if step = Scan_end then local_work l' + global_work sbs g' = local_work l + global_work sbs g
       else local_work l' + global_work sbs g' < local_work l + global_work sbs g"
    using pass_cases [OF g assms(2), of out] by (metis (no_types, lifting))
  have "\<not> pg_cancelled g'" using r(2) by (simp add: global_ok_def)
  then show thesis using r by (intro that [OF r(1)]) (auto split: if_splits)
qed

lemma query_passed_rank:
  assumes "qw_status wk = Q_running op" "wk' = query_passed op step l out wk"
  shows "qw_local wk' = l" "staying wk' = 1" "is_closing wk' = 0"
    "status_rank (qw_status wk') \<le> (if step = Scan_end then 2 else 7)"
  using assms by (auto simp: query_passed_def Let_def staying_def is_closing_def split: scan_step.splits sum.splits option.splits)

lemma worker_work:
  assumes inv: "run_inv s options prepared sbs run" and w: "w < length (qr_workers run)"
    and step: "query_worker_step db plan options w run = Some (run', ns)"
  shows "run_inv s options prepared sbs run' \<and> run_work sbs run' < run_work sbs run"
proof -
  let ?wk = "qr_workers run ! w"
  note i = inv [unfolded run_inv_def]
  have here: "local_ok s options prepared sbs (qw_local ?wk)" using i w by simp
  have there: "staying ?wk \<le> qr_active run" "is_closing ?wk + phase run \<le> 1"
    using i w elem_le_sum_list [of w "map staying (qr_workers run)"] elem_le_sum_list [of w "map is_closing (qr_workers run)"] by simp_all
  note counts = staying_def is_closing_def phase_def worker_rank_def
  note update = run_update [OF inv w]
  show ?thesis
  proof (cases "qw_status ?wk")
    case Q_submitted
    then have "ns = [] \<and> run' = run\<lparr>qr_workers := (qr_workers run)[w := ?wk\<lparr>qw_status :=
        case worker_start db (qr_global run) plan of Inl e \<Rightarrow> Q_failing e | Inr op \<Rightarrow> Q_running op\<rparr>]\<rparr>"
      using step by (simp add: query_worker_step_def Let_def)
    then show ?thesis
      by (intro update [where wk = "?wk\<lparr>qw_status := case worker_start db (qr_global run) plan of Inl e \<Rightarrow> Q_failing e | Inr op \<Rightarrow> Q_running op\<rparr>"])
        (use Q_submitted i here in \<open>auto simp: counts split: sum.splits\<close>)
  next
    case (Q_running op)
    have "global_ok options prepared sbs (uncancelled (qr_global run)) (qr_table run)" "local_ok (tst_schema (qr_table run)) options prepared sbs (qw_local ?wk)"
      using i here by simp_all
    from running_pass [OF this, of "qw_batch ?wk"] obtain st g l out t where
      pass: "parallel_body options (qr_global run) (qw_local ?wk) (qw_batch ?wk) (qr_table run) = Inr (st, g, l, out, t)"
        "global_ok options prepared sbs (uncancelled g) t" "tst_schema t = tst_schema (qr_table run)"
        "local_ok (tst_schema (qr_table run)) options prepared sbs l"
        "local_work l + global_work sbs g + (if st = Scan_end then 0 else 1) \<le> local_work (qw_local ?wk) + global_work sbs (qr_global run)" .
    define wk where "wk = query_passed op st l out ?wk"
    note rank = query_passed_rank [OF Q_running wk_def]
    have "ns = [] \<and> run' = run\<lparr>qr_global := g, qr_table := t, qr_workers := (qr_workers run)[w := wk]\<rparr>"
      using step Q_running pass(1) by (simp add: query_worker_step_def Let_def wk_def)
    then show ?thesis
      by (intro update [where wk = wk])
        (use Q_running i pass rank in \<open>auto simp: staying_def [of ?wk] is_closing_def [of ?wk] phase_def worker_rank_def split: if_splits\<close>)
  next
    case (Q_pushing op b)
    then obtain pushed q where p: "Push b (qr_queue run) = Some (pushed, q, ns)"
        "run' = run\<lparr>qr_queue := q, qr_workers := (qr_workers run)[w := ?wk\<lparr>qw_status := if pushed then Q_running op else Q_refused\<rparr>]\<rparr>"
      using step by (auto simp: query_worker_step_def Let_def split: option.splits)
    have q: "bq_closed q = bq_closed (qr_queue run)" "ended q = ended (qr_queue run)"
        "length (bq_queue q) = length (bq_queue (qr_queue run)) + (if pushed then 1 else 0)"
      using p(1) by (auto simp: Push_def ended_def split: if_splits)
    show ?thesis unfolding p(2)
      by (intro update [where wk = "?wk\<lparr>qw_status := if pushed then Q_running op else Q_refused\<rparr>"])
        (use Q_pushing i here q in \<open>auto simp: counts\<close>)
  next
    case Q_refused
    then have "run' = run\<lparr>qr_global := Cancel (qr_global run), qr_workers := (qr_workers run)[w := ?wk\<lparr>qw_status := Q_leaving\<rparr>]\<rparr>"
      using step by (simp add: query_worker_step_def Let_def)
    then show ?thesis
      by (intro update [where wk = "?wk\<lparr>qw_status := Q_leaving\<rparr>"]) (use Q_refused i here in \<open>auto simp: counts\<close>)
  next
    case (Q_failing e)
    then have "run' = run\<lparr>qr_global := Cancel (qr_global run), qr_workers := (qr_workers run)[w := ?wk\<lparr>qw_status := Q_aborting e\<rparr>]\<rparr>"
      using step by (simp add: query_worker_step_def Let_def)
    then show ?thesis
      by (intro update [where wk = "?wk\<lparr>qw_status := Q_aborting e\<rparr>"]) (use Q_failing i here in \<open>auto simp: counts\<close>)
  next
    case (Q_aborting e)
    then have "run' = run\<lparr>qr_queue := fst (Queue_Abort (Some e) (qr_queue run)), qr_workers := (qr_workers run)[w := ?wk\<lparr>qw_status := Q_leaving\<rparr>]\<rparr>"
      using step by (simp add: query_worker_step_def Let_def Queue_Abort_def)
    then show ?thesis
      by (intro update [where wk = "?wk\<lparr>qw_status := Q_leaving\<rparr>"])
        (use Q_aborting i here in \<open>auto simp: counts Queue_Abort_def ended_def\<close>)
  next
    case Q_leaving
    let ?s = "if qr_active run = 1 then Q_closing else Q_gone"
    have "run' = run\<lparr>qr_active := qr_active run - 1, qr_workers := (qr_workers run)[w := ?wk\<lparr>qw_status := ?s\<rparr>]\<rparr>"
      using step Q_leaving by (simp add: query_worker_step_def Let_def)
    then show ?thesis
      by (intro update [where wk = "?wk\<lparr>qw_status := ?s\<rparr>"]) (use Q_leaving there i here in \<open>auto simp: counts\<close>)
  next
    case Q_closing
    then have "run' = run\<lparr>qr_queue := fst (Queue_Close (qr_queue run)), qr_workers := (qr_workers run)[w := ?wk\<lparr>qw_status := Q_gone\<rparr>]\<rparr>"
      using step by (simp add: query_worker_step_def Let_def Queue_Close_def)
    then show ?thesis
      by (intro update [where wk = "?wk\<lparr>qw_status := Q_gone\<rparr>"])
        (use Q_closing there i here in \<open>auto simp: counts Queue_Close_def ended_def split: if_splits\<close>)
  qed (use step in \<open>simp add: query_worker_step_def Let_def\<close>)
qed

lemma consumer_work:
  assumes inv: "run_inv s options prepared sbs run" and step: "query_consumer_step run = Some (run', ns)"
  shows "run_inv s options prepared sbs run' \<and> run_work sbs run' < run_work sbs run"
proof -
  have same: "qr_workers run' = qr_workers run" "qr_global run' = qr_global run" "qr_table run' = qr_table run" "qr_active run' = qr_active run"
      "bq_closed (qr_queue run') = bq_closed (qr_queue run)" "\<not> qr_ended run" "qr_ended run' \<Longrightarrow> ended (qr_queue run')"
      "length (bq_queue (qr_queue run')) + (if qr_ended run' then 0 else 1) < length (bq_queue (qr_queue run)) + 1"
    using step by (auto simp: query_consumer_step_def Pop_def ended_def split: if_splits list.splits)
  have "phase run' = phase run" by (simp add: phase_def same(4,5))
  then have "qr_active run' = (\<Sum>wk\<leftarrow>qr_workers run'. staying wk)" "phase run' + (\<Sum>wk\<leftarrow>qr_workers run'. is_closing wk) = 1"
    using inv same(1,4) by (simp_all add: run_inv_def)
  moreover have "run_work sbs run' < run_work sbs run" using same(8) by (simp add: run_work_def same(1,2,6))
  ultimately show ?thesis using inv same(1-3,7) by (simp add: run_inv_def)
qed

lemma thread_work:
  assumes "run_inv s options prepared sbs run" "thread_step db plan options t run = Some (run', ns)"
  shows "run_inv s options prepared sbs run' \<and> run_work sbs run' < run_work sbs run"
proof (cases "t < length (qr_workers run)")
  case True
  then show ?thesis using worker_work [OF assms(1) True] assms(2) by (simp add: thread_step_def)
next
  case False
  then show ?thesis using consumer_work [OF assms(1)] assms(2) by (simp add: thread_step_def)
qed

subsection \<open>Steps are bounded\<close>

text \<open>A notification costs its call and the threads that it wakes, of \<open>n\<close>.\<close>

fun notification_cost :: "nat \<Rightarrow> notification \<Rightarrow> nat" where
  "notification_cost n (Notify_one c) = 2"
| "notification_cost n (Notify_all c) = Suc n"

definition waiter_cost :: "nat \<Rightarrow> waiter \<Rightarrow> nat" where
  "waiter_cost n w = (\<Sum>x\<leftarrow>wt_pending w. notification_cost n x) + (if wt_asleep w = None then 1 else 0)"

definition live_work :: "(segment_id \<times> segment_builder) list \<Rightarrow> live_run \<Rightarrow> nat" where
  "live_work sbs r = (2 * length (lr_waits r) + 3) * run_work sbs (lr_run r) +
     (\<Sum>w\<leftarrow>lr_waits r. waiter_cost (length (lr_waits r)) w)"

lemma waiter_cost_simps [simp]:
  "waiter_cost n (awake ns) = (\<Sum>x\<leftarrow>ns. notification_cost n x) + 1"
  "waiter_cost n ((awake [])\<lparr>wt_asleep := Some c\<rparr>) = 0"
  by (simp_all add: waiter_cost_def awake_def)

lemma waiter_cost_woken: "waiter_cost n (woken c w) \<le> waiter_cost n w + 1"
  by (simp add: waiter_cost_def woken_def)

lemma notified_cost:
  assumes "notified n ws ws'"
  shows "Suc (\<Sum>w\<leftarrow>ws'. waiter_cost k w) \<le> (\<Sum>w\<leftarrow>ws. waiter_cost k w) + notification_cost (length ws) n"
  using assms
proof cases
  case (one s c)
  then show ?thesis using sum_list_replace [of s ws "waiter_cost k" "woken c (ws ! s)"] waiter_cost_woken [of k c "ws ! s"] by simp
next
  case (all c)
  have "(\<Sum>w\<leftarrow>map (woken c) ws. waiter_cost k w) \<le> (\<Sum>w\<leftarrow>ws. waiter_cost k w + 1)"
    unfolding map_map by (rule sum_list_mono) (use waiter_cost_woken [of k c] in simp)
  also have "\<dots> = (\<Sum>w\<leftarrow>ws. waiter_cost k w) + length ws" unfolding sum_list_addf by (simp add: sum_list_triv)
  finally show ?thesis using all by simp
qed simp

lemma thread_step_cost:
  assumes "thread_step db plan options t run = Some (run', ns)" "t \<le> length (qr_workers run)"
  shows "(\<Sum>x\<leftarrow>ns. notification_cost n x) \<le> 2 * n + 2"
proof (cases "thread_call t run")
  case None
  then show ?thesis using thread_step_queue [OF assms] by simp
next
  case (Some call)
  then obtain event where "attempt call (qr_queue run) = Some (event, qr_queue run', ns)" using thread_step_queue [OF assms] by auto
  then show ?thesis
    by (cases call) (auto simp: Push_def Pop_def Queue_Close_def Queue_Abort_def Queue_Cancel_def split: if_splits list.splits)
qed

definition live_inv ::
  "table_schema \<Rightarrow> scan_options \<Rightarrow> prepared_predicate list option \<Rightarrow> (segment_id \<times> segment_builder) list \<Rightarrow> live_run \<Rightarrow> bool" where
  "live_inv s options prepared sbs r \<longleftrightarrow> threads_fit r \<and> run_inv s options prepared sbs (lr_run r) \<and> monitor_inv (project r)"

lemma live_step_work:
  assumes inv: "live_inv s options prepared sbs r" and step: "live_step db plan options spurious r r'"
  shows "live_inv s options prepared sbs r'" "live_work sbs r' + (if spurious then 0 else 1) \<le> live_work sbs r + (if spurious then 1 else 0)"
    "(query_step db plan options)\<^sup>=\<^sup>= (lr_run r) (lr_run r')" "length (lr_waits r') = length (lr_waits r)"
proof -
  let ?n = "length (lr_waits r)"
  note i = inv [unfolded live_inv_def]
  have "monitor_inv (project r')"
    using live_projects [OF step] i monitor_step_inv by (metis (mono_tags, lifting) rtranclp_induct)
  moreover have "threads_fit r'" using live_fits [OF step] i by blast
  moreover have "run_inv s options prepared sbs (lr_run r') \<and> live_work sbs r' + (if spurious then 0 else 1) \<le> live_work sbs r + (if spurious then 1 else 0) \<and>
      (query_step db plan options)\<^sup>=\<^sup>= (lr_run r) (lr_run r') \<and> length (lr_waits r') = ?n"
    using step
  proof cases
    case (work t run ns)
    note less = thread_work [OF conjunct1 [OF conjunct2 [OF i]] work(5)]
    have le: "t \<le> length (qr_workers (lr_run r))" using work(3) i by (simp add: threads_fit_def)
    have q: "query_step db plan options (lr_run r) run"
      using work(5) query_step.worker query_step.consumer by (auto simp: thread_step_def split: if_splits)
    have "(\<Sum>w\<leftarrow>(lr_waits r)[t := awake ns]. waiter_cost ?n w) \<le> (\<Sum>w\<leftarrow>lr_waits r. waiter_cost ?n w) + 2 * ?n + 2"
      using sum_list_replace [OF work(3), of "waiter_cost ?n" "awake ns"] thread_step_cost [OF work(5) le, of ?n] work(4) by simp
    moreover have "(2 * ?n + 3) * run_work sbs run + (2 * ?n + 3) \<le> (2 * ?n + 3) * run_work sbs (lr_run r)"
      using less by (metis Suc_leI mult_Suc_right add.commute mult_le_mono2)
    ultimately show ?thesis using less q work(1,2) by (simp add: live_work_def)
  next
    case (sleep t call)
    have le: "t \<le> length (qr_workers (lr_run r))" using sleep(3) i by (simp add: threads_fit_def)
    obtain c where "waits_on call = Some c" using thread_step_waits [OF sleep(5,6) le] by (auto simp: attempt_None)
    then show ?thesis using sleep i sum_list_replace [OF sleep(3), of "waiter_cost ?n" "(awake [])\<lparr>wt_asleep := waits_on call\<rparr>"]
      by (simp add: live_work_def)
  next
    case (notify t n ns ws)
    have len: "length ws = ?n" using notified_keeps(1) [OF notify(5)] by simp
    show ?thesis
      using notify i len notified_cost [OF notify(5), of ?n] sum_list_replace [OF notify(3), of "waiter_cost ?n" "awake ns"]
      by (simp add: live_work_def)
  next
    case (spurious t c)
    then show ?thesis using i sum_list_replace [OF spurious(3), of "waiter_cost ?n" "woken c (lr_waits r ! t)"] waiter_cost_woken [of ?n c "lr_waits r ! t"]
      by (simp add: live_work_def)
  qed
  ultimately show "live_inv s options prepared sbs r'" "live_work sbs r' + (if spurious then 0 else 1) \<le> live_work sbs r + (if spurious then 1 else 0)"
    "(query_step db plan options)\<^sup>=\<^sup>= (lr_run r) (lr_run r')" "length (lr_waits r') = ?n"
    by (simp_all add: live_inv_def)
qed

lemma live_steps_work:
  assumes "live_steps db plan options k j r r'" "live_inv s options prepared sbs r"
  shows "live_inv s options prepared sbs r' \<and> k + live_work sbs r' \<le> live_work sbs r + j \<and>
    (query_step db plan options)\<^sup>*\<^sup>* (lr_run r) (lr_run r') \<and> length (lr_waits r') = length (lr_waits r)"
  using assms
proof induction
  case (own k j r r' r'')
  then show ?case using live_step_work [of s options prepared sbs r' db plan False r''] by (auto intro: rtranclp.rtrancl_into_rtrancl)
next
  case (woken_up k j r r' r'')
  then show ?case using live_step_work [of s options prepared sbs r' db plan True r''] by (auto intro: rtranclp.rtrancl_into_rtrancl)
qed simp

subsection \<open>No run is stuck\<close>

text \<open>A thread that cannot make a step has nothing left to do, or it sleeps.\<close>

lemma stuck_thread:
  assumes inv: "live_inv s options prepared sbs r" and stuck: "\<nexists>r'. live_step db plan options False r r'" and t: "t < length (lr_waits r)"
  shows "wt_pending (lr_waits r ! t) = []"
    "wt_asleep (lr_waits r ! t) = None \<Longrightarrow> if t < length (qr_workers (lr_run r)) then qw_status (qr_workers (lr_run r) ! t) = Q_gone else qr_ended (lr_run r)"
    "at_rest (project r) t"
proof -
  let ?w = "lr_waits r ! t" and ?run = "lr_run r"
  show pending: "wt_pending ?w = []"
  proof (cases "wt_asleep ?w")
    case None
    then have w: "?w = awake (wt_pending ?w)" by (simp add: awake_def)
    show ?thesis
    proof (cases "wt_pending ?w")
      case (Cons n ns)
      obtain ws where "notified n ((lr_waits r)[t := awake ns]) ws" using notified_exists by blast
      then have "live_step db plan options False r (r\<lparr>lr_waits := ws\<rparr>)" using live_step.notify [OF t, of n ns] w Cons by simp
      then show ?thesis using stuck by blast
    qed
  next
    case (Some c)
    then have "t \<in> sleepers c (project r)" using t by (simp add: sleepers_def project_def)
    then have "wt_pending (mo_waits (project r) ! t) = []" using inv unfolding live_inv_def monitor_inv_def by blast
    then show ?thesis by simp
  qed
  have idle: "thread_step db plan options t ?run = None \<and> thread_call t ?run = None" if "wt_asleep ?w = None"
  proof -
    have w: "?w = awake []" using that pending by (simp add: awake_def)
    have "thread_step db plan options t ?run = None"
    proof (cases "thread_step db plan options t ?run")
      case (Some p)
      then show ?thesis using live_step.work [OF t w] stuck by (cases p) blast
    qed
    moreover from this have "thread_call t ?run = None" using live_step.sleep [OF t w] stuck by (cases "thread_call t ?run") blast+
    ultimately show ?thesis by blast
  qed
  show "if t < length (qr_workers ?run) then qw_status (qr_workers ?run ! t) = Q_gone else qr_ended ?run" if "wt_asleep ?w = None"
    using idle [OF that]
    by (auto simp: thread_step_def thread_call_def query_worker_step_def Let_def
        split: query_status.splits option.splits prod.splits sum.splits if_splits)
  show "at_rest (project r) t" using idle pending t by (auto simp: at_rest_def project_calls)
qed

lemma live_progress:
  assumes inv: "live_inv s options prepared sbs r" and going: "\<not> live_over r"
  shows "\<exists>r'. live_step db plan options False r r'"
proof (rule ccontr)
  assume stuck: "\<nexists>r'. live_step db plan options False r r'"
  let ?run = "lr_run r" and ?n = "length (qr_workers (lr_run r))"
  have m: "monitor_inv (project r)" "length (lr_waits r) = Suc ?n" and i: "run_inv s options prepared sbs ?run"
    using inv by (simp_all add: live_inv_def threads_fit_def)
  note idle = stuck_thread [OF inv stuck]
  have asleep: "\<exists>call c. thread_call t ?run = Some call \<and> waits_on call = Some c \<and> slots c (qr_queue ?run) = 0 \<and> \<not> ended (qr_queue ?run)"
    if t: "t \<le> ?n" "wt_asleep (lr_waits r ! t) \<noteq> None" for t
  proof -
    obtain c where "t \<in> sleepers c (project r)" using t m(2) by (auto simp: sleepers_def)
    then have "Option.bind (mo_calls (project r) ! t) waits_on = Some c" using m(1) by (simp add: monitor_inv_def)
    then obtain call where call: "mo_calls (project r) ! t = Some call" by (cases "mo_calls (project r) ! t") auto
    then have "asleep_in (project r) t call" using t(2) by (simp add: asleep_in_def project_def)
    then have "attempt call (mo_queue (project r)) = None"
      using resting_sleepers [OF m(1)] idle(3) t(1) m(2) by (metis less_Suc_eq_le project_simps(2))
    then show ?thesis using call t(1) m(2) by (auto simp: attempt_None project_calls simp del: project_simps(3) split: if_splits)
  qed
  have gone: "bq_closed (qr_queue ?run)" if "\<And>t. t < ?n \<Longrightarrow> wt_asleep (lr_waits r ! t) = None"
  proof -
    have "qw_status (qr_workers ?run ! t) = Q_gone" if "t < ?n" for t
      using idle(2) [of t] \<open>\<And>t. t < ?n \<Longrightarrow> wt_asleep (lr_waits r ! t) = None\<close> [OF that] that m(2) by simp
    then show ?thesis using gone_closed [of ?run] i by (auto simp: run_inv_def in_set_conv_nth)
  qed
  show False
  proof (cases "wt_asleep (lr_waits r ! ?n)")
    case None
    then have "qr_ended ?run" using idle(2) [of ?n] m(2) by simp
    then have over: "ended (qr_queue ?run)" using i by (simp add: run_inv_def)
    then have awake: "wt_asleep (lr_waits r ! t) = None" if "t \<le> ?n" for t using asleep [OF that] by blast
    then have "\<forall>wk\<in>set (qr_workers ?run). qw_status wk = Q_gone" using idle(2) m(2) by (fastforce simp: in_set_conv_nth)
    moreover have "\<forall>w\<in>set (lr_waits r). w = awake []" using awake idle(1) m(2) by (auto simp: in_set_conv_nth awake_def)
    ultimately show False using going \<open>qr_ended ?run\<close> by (simp add: live_over_def query_over_def)
  next
    case (Some c)
    then have pop: "bq_queue (qr_queue ?run) = []" "\<not> ended (qr_queue ?run)" using asleep [of ?n] by (auto simp: thread_call_def split: if_splits)
    have "wt_asleep (lr_waits r ! t) = None" if "t < ?n" for t
    proof (rule ccontr)
      assume "wt_asleep (lr_waits r ! t) \<noteq> None"
      then have "slots Not_full (qr_queue ?run) = 0"
        using asleep [of t] that by (auto simp: thread_call_def split: query_status.splits)
      then show False using m(1) pop(1) by (simp add: monitor_inv_def project_def)
    qed
    then have "ended (qr_queue ?run)" using gone by (simp add: ended_def)
    then show False using pop(2) by simp
  qed
qed

subsection \<open>The start\<close>

lemma live_start_inv:
  assumes "query_inv s options prepared sbs op [] (query_start capacity n g t)"
  shows "live_inv s options prepared sbs (live_start (query_start capacity n g t))"
proof -
  let ?run = "query_start capacity n g t"
  have ok: "global_ok options prepared sbs (qr_global ?run) (qr_table ?run)" "tst_schema (qr_table ?run) = s"
    "\<forall>wk\<in>set (qr_workers ?run). local_ok s options prepared sbs (qw_local wk)"
    using assms by (auto simp: query_inv_def parallel_inv_def query_scan_def)
  then have "\<not> pg_cancelled (qr_global ?run)" by (simp add: global_ok_def)
  then have "run_inv s options prepared sbs ?run"
    using ok assms by (simp add: run_inv_def query_inv_def) (simp add: query_start_def)
  moreover have "monitor_inv (project (live_start ?run))"
    by (auto simp: monitor_inv_def project_def live_start_def sleepers_def awake_def query_start_def new_queue_def simp del: replicate_Suc)
  ultimately show ?thesis by (simp add: live_inv_def threads_fit_def live_start_def)
qed

lemma live_start_work:
  "live_work sbs (live_start (query_start capacity n g t)) \<le> (2 * n + 5) * (2 ^ 20 * length sbs + 6 * n + 1) + n + 1"
proof -
  let ?run = "query_start capacity n g t"
  have "run_work sbs ?run \<le> 2 ^ 20 * length sbs + 6 * n + 1"
    by (simp add: run_work_def query_start_def worker_rank_def local_work_def new_parallel_local_def global_work_def new_queue_def sum_list_replicate)
  then have "(2 * n + 5) * run_work sbs ?run \<le> (2 * n + 5) * (2 ^ 20 * length sbs + 6 * n + 1)" by (rule mult_le_mono2)
  moreover have "live_work sbs (live_start ?run) = (2 * n + 5) * run_work sbs ?run + n + 1"
    by (simp add: live_work_def live_start_def sum_list_replicate query_start_def del: replicate_Suc)
  ultimately show ?thesis by linarith
qed

text \<open>C10: A parallel query neither deadlocks nor runs forever, also when workers fail: whatever the threads have done, and however they
  were put to sleep, notified and woken, the run is over or some thread can make a step; the run without the sleeping is one of
  the runs of the query; and with \<open>p\<close> threads in the pool the threads make at most the given number of steps, and one more for each spurious wake-up.\<close>

theorem parallel_query_live:
  assumes "scan_source db i options ps sbs t" "BuildNode (db_catalog db) None plan = Inr (op, schema)" "chain_scan op = Some (i, options)"
    and "query_setup config p arenas db plan = Inr (options', schema', start, db')"
    and "live_steps db' plan options' k spurious (live_start start) r"
  shows "(live_over r \<or> (\<exists>r'. live_step db' plan options' False r r')) \<and>
    (query_step db' plan options')\<^sup>*\<^sup>* start (lr_run r) \<and>
    k \<le> (2 * max 1 p + 5) * (2 ^ 20 * length sbs + 6 * max 1 p + 1) + max 1 p + 1 + spurious"
proof -
  obtain g n where begun: "query_setup config p arenas db plan = Inr (options, schema, query_start (ps_result_queue_capacity config) n g t, db)"
      "n \<le> max 1 p" "query_inv (tst_schema t) options (if so_predicates options = [] then None else Some ps) sbs op []
        (query_start (ps_result_queue_capacity config) n g t)"
    using query_setup_ok [OF assms(1-3)] by metis
  then have eqs: "options' = options" "db' = db" "start = query_start (ps_result_queue_capacity config) n g t" using assms(4) by simp_all
  note r = live_steps_work [OF assms(5) [unfolded eqs] live_start_inv [OF begun(3)]]
  have "(2 * n + 5) * (2 ^ 20 * length sbs + 6 * n + 1) \<le> (2 * max 1 p + 5) * (2 ^ 20 * length sbs + 6 * max 1 p + 1)"
    by (intro mult_le_mono) (use begun(2) in simp_all)
  then have "k \<le> (2 * max 1 p + 5) * (2 ^ 20 * length sbs + 6 * max 1 p + 1) + max 1 p + 1 + spurious"
    using r live_start_work [of sbs "ps_result_queue_capacity config" n g t] begun(2) by linarith
  moreover have "live_over r \<or> (\<exists>r'. live_step db plan options False r r')" using live_progress [OF conjunct1 [OF r]] by blast
  ultimately show ?thesis using r by (simp add: eqs live_start_def)
qed

end
