(* ===== verification/Engine_Examples.thy ===== *)
theory Engine_Examples
  imports Aggregate_Examples Execution_Engine Parallel_Threads
begin

text \<open>
  The theorems on commands, on parallel queries and on the engine, applied to the table with a DOUBLE column.
\<close>

definition engine_entry :: table_entry where
  "engine_entry = \<lparr>te_table_id = 0, te_name = ''d'', te_schema = double_schema\<rparr>"

definition engine_db :: "table_storage \<Rightarrow> database" where
  "engine_db t = \<lparr>db_catalog = \<lparr>cat_names = [''d'' \<mapsto> 0], cat_tables = [(0, engine_entry)], cat_file = None\<rparr>,
     db_storage = \<lparr>smg_tables = [0 \<mapsto> t], smg_dirs = Map.empty\<rparr>\<rparr>"

definition column_x :: plan_expr where
  "column_x = PlanColumnRef 0 3 DT_DOUBLE"

definition engine_scan :: physical_plan where
  "engine_scan = PhysicalFilter (PlanBinary P_GT column_x (PlanLiteral (Lit_double 0x3FF0000000000000) DT_DOUBLE) DT_INVALID) (PhysicalSeqScan 0 [3] [])"

definition engine_select :: physical_plan where
  "engine_select = PhysicalProject [\<lparr>ne_expr = column_x, ne_alias = ''x''\<rparr>, \<lparr>ne_expr = PlanLiteral (Lit_string ''a'') DT_VARCHAR, ne_alias = ''k''\<rparr>] engine_scan"

lemma engine_table:
  "GetTableById 0 (db_catalog (engine_db t)) = Some engine_entry" "smg_tables (db_storage (engine_db t)) 0 = Some t"
  by (simp_all add: engine_db_def GetTableById_def)

lemma engine_scan_spec: "BuildScanSpec (db_catalog (engine_db t)) 0 [3] [] =
    Inr \<lparr>bs_table_id = 0, bs_options = double_options,
      bs_output_schema = [\<lparr>es_type = DT_DOUBLE, es_source = Some \<lparr>cbi_table_oid = 0, cbi_column_idx = 3\<rparr>, es_name = ''x''\<rparr>]\<rparr>"
  by (simp add: BuildScanSpec_def engine_table scan_columns_def scan_slot_def engine_entry_def double_schema_def FindColumnSchema_def double_options_def)

definition engine_schema :: exec_schema where
  "engine_schema = [\<lparr>es_type = DT_DOUBLE, es_source = Some \<lparr>cbi_table_oid = 0, cbi_column_idx = 3\<rparr>, es_name = ''x''\<rparr>,
     \<lparr>es_type = DT_VARCHAR, es_source = None, es_name = ''k''\<rparr>]"

lemma engine_scan_built: "BuildNode (db_catalog (engine_db t)) None engine_scan =
    Inr (FilterOperator (SeqScanOperator 0 double_options None) operator_condition,
      [\<lparr>es_type = DT_DOUBLE, es_source = Some \<lparr>cbi_table_oid = 0, cbi_column_idx = 3\<rparr>, es_name = ''x''\<rparr>])"
  by (simp add: engine_scan_def BuildSeqScan_def engine_scan_spec BuildFilter_def column_x_def operator_condition_def)

lemma engine_built: "BuildNode (db_catalog (engine_db t)) None engine_select =
    Inr (ProjectionOperator (FilterOperator (SeqScanOperator 0 double_options None) operator_condition) operator_outputs, engine_schema)"
  by (simp add: engine_select_def engine_scan_built BuildProject_def column_x_def operator_outputs_def engine_schema_def
      project_slot_def DirectBinding_def)

lemma engine_source: "scan_source (engine_db written_table) 0 double_options [] [(0, double_segment)] written_table"
  using operator_table_fits by (simp add: scan_source_def engine_table)

lemma engine_rows:
  "chain_ok (ProjectionOperator (FilterOperator (SeqScanOperator 0 double_options None) operator_condition) operator_outputs)
     (table_types double_options written_table) (table_rows double_options [(0, double_segment)] written_table)"
  "chain_rows (ProjectionOperator (FilterOperator (SeqScanOperator 0 double_options None) operator_condition) operator_outputs)
     (table_types double_options written_table) (table_rows double_options [(0, double_segment)] written_table) =
   [[le_bytes 8 (0x4000000000000000 :: f64), le_bytes 4 (1 :: u32) @ [byte_of_char (CHR ''a'')] @ replicate 59 0]]"
proof -
  have "\<exists>cs. project_row_cells types (map classify_slot operator_outputs) row = Inr cs" for types row
    by (simp add: operator_outputs_def classify_slot_def project_row_cells_def project_cell_def row_eval_def
        output_bytes_def TryCompileVectorExpression_def a_slot del: append.simps)
  then show "chain_ok (ProjectionOperator (FilterOperator (SeqScanOperator 0 double_options None) operator_condition) operator_outputs)
     (table_types double_options written_table) (table_rows double_options [(0, double_segment)] written_table)"
    using operator_selected operator_cells(2) by (simp add: operator_types list_all_iff)
  show "chain_rows (ProjectionOperator (FilterOperator (SeqScanOperator 0 double_options None) operator_condition) operator_outputs)
     (table_types double_options written_table) (table_rows double_options [(0, double_segment)] written_table) =
   [[le_bytes 8 (0x4000000000000000 :: f64), le_bytes 4 (1 :: u32) @ [byte_of_char (CHR ''a'')] @ replicate 59 0]]"
    unfolding chain_rows.simps chain_types.simps written_selected operator_types operator_filtered list.map operator_cells(1) ..
qed

definition all_threads :: execution_context where
  "all_threads = \<lparr>ec_mode = MULTI_THREAD, ec_pool = Some 4, ec_arenas = 4,
     ec_parallel = \<lparr>ps_worker_threads = 4, ps_result_queue_capacity = 1\<rparr>\<rparr>"

theorem Execute_select_exact_witness:
  "answers (Execute all_ok rev all_threads (engine_db written_table) engine_select) engine_schema (engine_db written_table)
     [DT_DOUBLE, DT_VARCHAR] {#[le_bytes 8 (0x4000000000000000 :: f64), le_bytes 4 (1 :: u32) @ [byte_of_char (CHR ''a'')] @ replicate 59 0]#}"
  using Execute_select_exact [OF engine_source engine_built _ engine_rows(1) refl, of all_ok rev all_threads]
  unfolding engine_rows(2) by (simp add: operator_types operator_outputs_def classify_slot_def plan_type_def TryCompileVectorExpression_def)

theorem parallel_query_live_witness:
  "\<exists>start. query_setup (ec_parallel all_threads) 4 4 (engine_db written_table) engine_select =
      Inr (double_options, engine_schema, start, engine_db written_table) \<and>
    (\<exists>r. live_step (engine_db written_table) engine_select double_options False (live_start start) r)"
proof -
  obtain g n where start: "query_setup (ec_parallel all_threads) 4 4 (engine_db written_table) engine_select =
      Inr (double_options, engine_schema, query_start (ps_result_queue_capacity (ec_parallel all_threads)) n g written_table, engine_db written_table)" "0 < n"
    by (rule query_setup_ok [OF engine_source engine_built, of "ec_parallel all_threads" 4 4]) (simp, blast)
  moreover have "\<not> live_over (live_start (query_start (ps_result_queue_capacity (ec_parallel all_threads)) n g written_table))"
    by (simp add: live_over_def live_start_def query_over_def query_start_def)
  ultimately show ?thesis
    using parallel_query_live [OF engine_source engine_built _ start(1) live_steps.start] by auto
qed

subsection \<open>Aggregation\<close>

definition group_outputs :: "named_plan_expr list" where
  "group_outputs = [\<lparr>ne_expr = PlanLiteral (Lit_string ''a'') DT_VARCHAR, ne_alias = ''k''\<rparr>,
     \<lparr>ne_expr = PlanAgg AGG_COUNT None DT_INT64, ne_alias = ''n''\<rparr>,
     \<lparr>ne_expr = PlanAgg AGG_SUM (Some (PlanLiteral (Lit_int 7) DT_INT32)) DT_DOUBLE, ne_alias = ''s''\<rparr>]"

lemma engine_aggregate:
  "BuildAggregateSpec [PlanLiteral (Lit_string ''a'') DT_VARCHAR] group_outputs schema =
     Inr \<lparr>ba_group_exprs = example_groups, ba_agg_calls = example_calls, ba_outputs = example_outputs,
       ba_output_schema = [\<lparr>es_type = DT_VARCHAR, es_source = None, es_name = ''k''\<rparr>, \<lparr>es_type = DT_INT64, es_source = None, es_name = ''n''\<rparr>,
         \<lparr>es_type = DT_DOUBLE, es_source = None, es_name = ''s''\<rparr>]\<rparr>"
  by (simp add: BuildAggregateSpec_def group_outputs_def add_output_def PlanExprEquivalent_def DirectBinding_def example_defs)

theorem Execute_aggregate_exact_witness:
  "\<exists>schema. answers (Execute all_ok rev all_threads (engine_db written_table)
      (PhysicalHashAggregate [PlanLiteral (Lit_string ''a'') DT_VARCHAR] group_outputs engine_scan)) schema (engine_db written_table) [DT_VARCHAR, DT_INT64, DT_DOUBLE] {#example_row#}"
proof -
  let ?op = "FilterOperator (SeqScanOperator 0 double_options None) operator_condition"
  have rows: "chain_rows ?op (table_types double_options written_table) (table_rows double_options [(0, double_segment)] written_table) =
      [[le_bytes 8 (0x4000000000000000 :: f64)]]"
    unfolding chain_rows.simps chain_types.simps written_selected operator_types operator_filtered ..
  have ok: "chain_ok ?op (table_types double_options written_table) (table_rows double_options [(0, double_segment)] written_table)"
    using operator_selected by simp
  have types: "map ao_type example_outputs = [DT_VARCHAR, DT_INT64, DT_DOUBLE]" by (simp add: example_outputs_def)
  from Execute_aggregate_exact [where order = rev, OF engine_source engine_scan_built _ engine_aggregate ok rows [symmetric] refl,
      of all_ok all_threads]
  show ?thesis by (auto simp: example_aggregable example_outputs_ok example_answer types)
qed

subsection \<open>Commands\<close>


end
