(* ===== verification/Query_Result.thy ===== *)
theory Query_Result
  imports Execution_Engine Parser
begin

text \<open>
  \<^verbatim>\<open>src/src/main/query_result.h\<close>: the materialized result of a statement, its columns from the parsed and the bound statement, its
  batches as deep copies of those that the engine delivers.
\<close>

subsection \<open>The result\<close>

datatype result_kind = RESULT_SELECT | RESULT_INSERT | RESULT_CREATE_TABLE

record result_column =
  rc_name :: string
  rc_type :: data_type

text \<open>The kind of a new result is not initialized.\<close>

record query_answer =
  qa_type :: "result_kind option"
  qa_columns :: "result_column list"
  qa_chunks :: "vector_batch list"
  qa_affected_rows :: "64 word"

definition new_answer :: query_answer where
  "new_answer = \<lparr>qa_type = None, qa_columns = [], qa_chunks = [], qa_affected_rows = 0\<rparr>"

definition copy_column :: "column_data \<Rightarrow> column_data" where
  "copy_column c = Column_CopyFrom (cd_buffer c) (cd_count c) False ((empty_column (cd_type c))\<lparr>cd_count := cd_count c\<rparr>)"

definition Result_Append :: "vector_batch \<Rightarrow> query_answer \<Rightarrow> query_answer" where
  "Result_Append batch r =
     r\<lparr>qa_chunks := qa_chunks r @ [CopySelectionFrom batch (empty_batch\<lparr>vb_columns := map copy_column (vb_columns batch)\<rparr>)],
       qa_affected_rows := qa_affected_rows r + word_of_nat (vb_size batch)\<rparr>"

definition result_column_of :: "bool \<Rightarrow> select_item list \<Rightarrow> nat \<times> bound_select_item \<Rightarrow> result_column result" where
  "result_column_of is_star parsed ib =
     (case ib of (i, item) \<Rightarrow>
        bind_r (if bsi_alias item \<noteq> '''' then Inr (bsi_alias item)
                else if is_star then Inl (Logic_error ''SELECT * expansion missing column alias'')
                else if length parsed \<le> i then Inl Undefined_behaviour
                else Inr (Expr_ToString (si_expr (parsed ! i)))) (\<lambda>name.
          Inr \<lparr>rc_name = name, rc_type = return_type (bsi_expr item)\<rparr>))"

definition is_star_list :: "select_item list \<Rightarrow> bool" where
  "is_star_list items \<longleftrightarrow> length items = 1 \<and> Expr_ToString (si_expr (hd items)) = ''*''"

definition BuildResultMetadata :: "statement \<Rightarrow> bound_statement \<Rightarrow> query_answer \<Rightarrow> query_answer result" where
  "BuildResultMetadata statement bound_statement r =
     (case bound_statement of
        Bound_select b \<Rightarrow>
          (case statement of
             Stmt_select parsed \<Rightarrow>
               (let items = sel_select_list parsed; is_star = is_star_list items in
                if \<not> is_star \<and> length items \<noteq> length (bs_select_list b) then Inl (Logic_error ''parsed/bound select list size mismatch'')
                else bind_r (map_r (result_column_of is_star items) (enumerate 0 (bs_select_list b))) (\<lambda>cols.
                  Inr (r\<lparr>qa_type := Some RESULT_SELECT, qa_columns := cols\<rparr>)))
           | _ \<Rightarrow> Inl Undefined_behaviour)
      | Bound_insert _ \<Rightarrow> Inr (r\<lparr>qa_type := Some RESULT_INSERT\<rparr>)
      | Bound_create _ \<Rightarrow> Inr (r\<lparr>qa_type := Some RESULT_CREATE_TABLE\<rparr>))"

subsection \<open>Copies hold the same rows\<close>

lemma copy_column_cells: "column_ok n c \<Longrightarrow> copy_column c = c\<lparr>cd_is_view := False\<rparr>"
  by (simp add: copy_column_def Column_CopyFrom_def empty_column_def column_ok_def mult.commute)

text \<open>The chunks of a result after the batches of a query.\<close>

lemma Result_Append_rows:
  assumes "batch_ok b"
  obtains c where "Result_Append b r = r\<lparr>qa_chunks := qa_chunks r @ [c], qa_affected_rows := qa_affected_rows r + word_of_nat (length (active_rows b))\<rparr>"
    "batch_ok c" "map cd_type (vb_columns c) = map cd_type (vb_columns b)" "active_rows c = active_rows b"
proof
  let ?c = "CopySelectionFrom b (empty_batch\<lparr>vb_columns := map copy_column (vb_columns b)\<rparr>)"
  have cols: "map copy_column (vb_columns b) = map (\<lambda>c. c\<lparr>cd_is_view := False\<rparr>) (vb_columns b)"
    using assms by (auto simp: batch_ok_def list_all_iff copy_column_cells)
  show "Result_Append b r = r\<lparr>qa_chunks := qa_chunks r @ [?c], qa_affected_rows := qa_affected_rows r + word_of_nat (length (active_rows b))\<rparr>"
    using batch_ok_size [OF assms] by (simp add: Result_Append_def)
  show "batch_ok ?c" using assms by (simp add: batch_ok_def CopySelectionFrom_def cols list.pred_map column_ok_def list_all_iff)
  show "map cd_type (vb_columns ?c) = map cd_type (vb_columns b)" by (simp add: CopySelectionFrom_def cols)
  show "active_rows ?c = active_rows b" by (simp add: active_rows_def CopySelectionFrom_def cols column_cells_def)
qed

lemma Result_Append_all:
  assumes "delivered_ok types bs"
  shows "\<exists>cs. fold Result_Append bs r = r\<lparr>qa_chunks := qa_chunks r @ cs,
        qa_affected_rows := qa_affected_rows r + word_of_nat (length (concat (map active_rows bs)))\<rparr> \<and>
      delivered_ok types cs \<and> concat (map active_rows cs) = concat (map active_rows bs)"
  using assms
proof (induction bs arbitrary: r)
  case (Cons b bs)
  then have b: "batch_ok b" "delivered_ok types bs" by (simp_all add: delivered_ok_def)
  obtain c where c: "Result_Append b r = r\<lparr>qa_chunks := qa_chunks r @ [c], qa_affected_rows := qa_affected_rows r + word_of_nat (length (active_rows b))\<rparr>"
    "batch_ok c" "map cd_type (vb_columns c) = map cd_type (vb_columns b)" "active_rows c = active_rows b"
    by (rule Result_Append_rows [OF b(1)])
  from Cons.IH [OF b(2), of "Result_Append b r"] obtain cs where
    "fold Result_Append bs (Result_Append b r) = (Result_Append b r)\<lparr>qa_chunks := qa_chunks (Result_Append b r) @ cs,
      qa_affected_rows := qa_affected_rows (Result_Append b r) + word_of_nat (length (concat (map active_rows bs)))\<rparr>"
    "delivered_ok types cs" "concat (map active_rows cs) = concat (map active_rows bs)" by blast
  then show ?case using c Cons.prems by (intro exI [of _ "c # cs"]) (simp add: delivered_ok_def add.assoc)
next
  case Nil
  then show ?case by (intro exI [of _ "[]"]) (simp add: delivered_ok_def)
qed

subsection \<open>The metadata of a bound SELECT\<close>

lemma nat_str_not_star: "nat_str n \<noteq> ''*''"
  using nat_str_digits [of n] by (auto simp: is_digit_def)

lemma prints_star: "Expr_ToString e = ''*'' \<longleftrightarrow> e = ColumnRef ''*''"
proof (cases e)
  case (Literal l)
  have "double_str d \<noteq> ''*''" for d by (auto simp: double_str_def Let_def append_eq_Cons_conv)
  then show ?thesis using Literal nat_str_not_star by (cases l) (auto simp: int_str_def)
next
  case (AggFunc a arg)
  then show ?thesis by (cases arg; cases a) simp_all
qed simp_all

lemma map_r_enumerate_names:
  assumes "\<forall>(i, x)\<in>set (enumerate 0 xs). \<exists>n. f (i, x) = Inr \<lparr>rc_name = n, rc_type = ty x\<rparr>"
  shows "\<exists>cols. map_r f (enumerate 0 xs) = Inr cols \<and> map rc_type cols = map ty xs"
proof -
  define cols where "cols = map (\<lambda>ix. case f ix of Inr c \<Rightarrow> c | Inl _ \<Rightarrow> undefined) (enumerate 0 xs)"
  have "map_r f (enumerate 0 xs) = Inr cols" unfolding cols_def by (rule map_r_all_Inr) (use assms in fastforce)
  moreover have "rc_type (case f (i, x) of Inr c \<Rightarrow> c | Inl _ \<Rightarrow> undefined) = ty x" if "(i, x) \<in> set (enumerate 0 xs)" for i x
    using assms that by fastforce
  then have "map rc_type cols = map (ty \<circ> snd) (enumerate 0 xs)" by (auto simp: cols_def)
  then have "map rc_type cols = map ty xs" by (simp flip: map_map)
  ultimately show ?thesis by blast
qed

text \<open>A SELECT that was bound has metadata: no logic error is reachable, and the columns have the types that the binder derived.\<close>

definition columns_named :: "catalog \<Rightarrow> bool" where
  "columns_named cat \<longleftrightarrow> (\<forall>name e. GetTable name cat = Inr (Some e) \<longrightarrow> (\<forall>c\<in>set (ts_columns (te_schema e)). cs_name c \<noteq> ''''))"

lemma BuildResultMetadata_select:
  assumes "fst (BindSelect cat stmt) = Inr b" "columns_named cat"
  shows "\<exists>cols. BuildResultMetadata (Stmt_select stmt) (Bound_select b) r = Inr (r\<lparr>qa_type := Some RESULT_SELECT, qa_columns := cols\<rparr>) \<and>
    map rc_type cols = map (return_type \<circ> bsi_expr) (bs_select_list b)"
proof -
  let ?items = "sel_select_list stmt" and ?bound = "bs_select_list b"
  obtain table where table: "BindTableRef cat (sel_table_name stmt) = Inr table" "BindSelectList [table] ?items = Inr ?bound"
    using assms(1) by (auto simp: BindSelect_def bind_r_Inr_iff split: sum.splits)
  then have names: "\<forall>c\<in>set (bt_columns table). cs_name c \<noteq> ''''"
    using assms(2) by (auto simp: BindTableRef_def columns_named_def bind_r_Inr_iff split: option.splits)
  have "(\<forall>(i, x)\<in>set (enumerate 0 ?bound). \<exists>n. result_column_of (is_star_list ?items) ?items (i, x) = Inr \<lparr>rc_name = n, rc_type = (return_type \<circ> bsi_expr) x\<rparr>) \<and>
      (is_star_list ?items \<or> length ?items = length ?bound)"
  proof (cases "length ?items = 1 \<and> si_expr (hd ?items) = ColumnRef ''*''")
    case True
    then have star: "is_star_list ?items" by (simp add: is_star_list_def)
    have items: "?bound = map (\<lambda>i. \<lparr>bsi_expr = BColumnRef (bt_oid table) (u32_of i) (cs_type (bt_columns table ! i)),
        bsi_alias = cs_name (bt_columns table ! i)\<rparr>) [0..<unat (u32_of (length (bt_columns table)))]"
      using True table(2) by (simp add: BindSelectList_def)
    have "bsi_alias x \<noteq> ''''" if x: "x \<in> set ?bound" for x
    proof -
      obtain i where "x = \<lparr>bsi_expr = BColumnRef (bt_oid table) (u32_of i) (cs_type (bt_columns table ! i)), bsi_alias = cs_name (bt_columns table ! i)\<rparr>"
        "i < unat (u32_of (length (bt_columns table)))"
        using x by (auto simp: items)
      moreover have "unat (u32_of (length (bt_columns table))) \<le> length (bt_columns table)" by (simp add: unsigned_of_nat)
      ultimately show ?thesis using names by simp
    qed
    then show ?thesis using star by (auto simp: result_column_of_def in_set_enumerate_eq)
  next
    case False
    then have bound: "map_r (\<lambda>item. bind_r (BindExpr (Some [table]) (si_expr item)) (\<lambda>e. Inr \<lparr>bsi_expr = e, bsi_alias = si_alias item\<rparr>)) ?items = Inr ?bound"
      using table(2) by (auto simp: BindSelectList_def)
    then have "length ?items = length ?bound" using map_r_length by fastforce
    moreover have "\<not> is_star_list ?items" using False by (auto simp: is_star_list_def prints_star)
    ultimately show ?thesis by (auto simp: result_column_of_def in_set_enumerate_eq)
  qed
  then show ?thesis
    using map_r_enumerate_names [of ?bound "result_column_of (is_star_list ?items) ?items" "return_type \<circ> bsi_expr"]
    by (auto simp: BuildResultMetadata_def Let_def)
qed

end
