(* ===== verification/Result_Digest.thy ===== *)
theory Result_Digest
  imports Query_Result
begin

text \<open>
  \<^verbatim>\<open>src/src/main/result_digest.h\<close>: a digest of the rows of a result that does not depend on their order, with which results of
  different execution modes are compared.
\<close>

subsection \<open>The digest\<close>

record result_digest =
  dg_row_count :: "64 word"
  dg_hash1 :: "64 word"
  dg_hash2 :: "64 word"

definition new_digest :: result_digest where
  "new_digest = \<lparr>dg_row_count = 0, dg_hash1 = 0, dg_hash2 = 0\<rparr>"

definition SameDigest :: "result_digest \<Rightarrow> result_digest \<Rightarrow> bool" where
  "SameDigest lhs rhs \<longleftrightarrow> dg_row_count lhs = dg_row_count rhs \<and> dg_hash1 lhs = dg_hash1 rhs \<and> dg_hash2 lhs = dg_hash2 rhs"

definition MixHash :: "64 word \<Rightarrow> 64 word" where
  "MixHash x =
     (let x = x + 0x9e3779b97f4a7c15;
          x = (x XOR drop_bit 30 x) * 0xbf58476d1ce4e5b9;
          x = (x XOR drop_bit 27 x) * 0x94d049bb133111eb in
      x XOR drop_bit 31 x)"

fun HashValueBits :: "exec_value \<Rightarrow> 64 word" where
  "HashValueBits (EV_string raw) =
     MixHash (fold (\<lambda>c h. (h XOR ucast (byte_of_char c)) * 1099511628211) raw 1469598103934665603)"
| "HashValueBits (EV_float raw) = MixHash (ucast raw)"
| "HashValueBits (EV_double raw) = MixHash raw"
| "HashValueBits (EV_bool raw) = MixHash (if raw then 1 else 0)"
| "HashValueBits (EV_int32 raw) = MixHash (scast raw)"
| "HashValueBits (EV_int64 raw) = MixHash raw"

definition HashRow :: "vector_batch \<Rightarrow> nat \<Rightarrow> (64 word) result" where
  "HashRow batch row =
     fold_r (\<lambda>column h. bind_r (ReadExecValue column row) (\<lambda>v. Inr (MixHash (h XOR HashValueBits v)))) (vb_columns batch) 0x243f6a8885a308d3"

definition AccumulateRow :: "vector_batch \<Rightarrow> nat \<Rightarrow> result_digest \<Rightarrow> result_digest result" where
  "AccumulateRow batch row digest =
     bind_r (HashRow batch row) (\<lambda>h.
       Inr (digest\<lparr>dg_row_count := dg_row_count digest + 1, dg_hash1 := dg_hash1 digest + h, dg_hash2 := dg_hash2 digest + h * h\<rparr>))"

definition AccumulateBatch :: "vector_batch \<Rightarrow> result_digest \<Rightarrow> result_digest result" where
  "AccumulateBatch batch digest = fold_r (AccumulateRow batch) (ForEachActiveRow batch) digest"

definition ComputeBatchDigest :: "vector_batch \<Rightarrow> result_digest result" where
  "ComputeBatchDigest batch = AccumulateBatch batch new_digest"

definition ComputeResultDigest :: "query_answer \<Rightarrow> result_digest result" where
  "ComputeResultDigest res = fold_r AccumulateBatch (qa_chunks res) new_digest"

subsection \<open>The digest of a multiset of rows\<close>

definition row_hash :: "data_type list \<Rightarrow> bytes list \<Rightarrow> 64 word" where
  "row_hash types row = fold (\<lambda>(ty, c) h. MixHash (h XOR HashValueBits (cell_value ty c))) (zip types row) 0x243f6a8885a308d3"

definition digest_of :: "data_type list \<Rightarrow> bytes list multiset \<Rightarrow> result_digest" where
  "digest_of types rows = \<lparr>dg_row_count = word_of_nat (size rows), dg_hash1 = (\<Sum>row\<in>#rows. row_hash types row),
     dg_hash2 = (\<Sum>row\<in>#rows. row_hash types row * row_hash types row)\<rparr>"

lemma hash_columns:
  assumes "\<forall>c\<in>set cs. column_ok n c \<and> cd_type c \<noteq> DT_INVALID" "row < n"
  shows "fold_r (\<lambda>column h. bind_r (ReadExecValue column row) (\<lambda>v. Inr (MixHash (h XOR HashValueBits v)))) cs h =
    Inr (fold (\<lambda>(ty, c) h. MixHash (h XOR HashValueBits (cell_value ty c))) (zip (map cd_type cs) (map (\<lambda>c. column_cells c ! row) cs)) h)"
  using assms(1)
proof (induction cs arbitrary: h)
  case (Cons c cs)
  then have "ReadExecValue c row = Inr (cell_value (cd_type c) (column_cells c ! row))"
    using assms(2) by (auto simp: ReadExecValue_def column_ok_def cell_value_def column_cells_def Let_def split: data_type.splits)
  then show ?case using Cons by simp
qed simp

lemma HashRow_row:
  assumes "batch_ok b" "map cd_type (vb_columns b) = types" "DT_INVALID \<notin> set types" "row \<in> set (mask_rows (vb_selection b))"
  shows "HashRow b row = Inr (row_hash types (batch_row b row))"
proof -
  have "\<forall>c\<in>set (vb_columns b). column_ok (mask_row_count (vb_selection b)) c \<and> cd_type c \<noteq> DT_INVALID"
    using assms(1-3) by (auto simp: batch_ok_def list_all_iff image_iff eq_commute [of DT_INVALID])
  moreover have "row < mask_row_count (vb_selection b)" using mask_rows_less [OF assms(4)] by simp
  ultimately show ?thesis using hash_columns [of "vb_columns b" "mask_row_count (vb_selection b)" row]
    by (simp add: HashRow_def row_hash_def batch_row_def flip: assms(2))
qed

lemma AccumulateBatch_rows:
  assumes "batch_ok b" "map cd_type (vb_columns b) = types" "DT_INVALID \<notin> set types"
  shows "AccumulateBatch b (digest_of types rows) = Inr (digest_of types (rows + mset (active_rows b)))"
proof -
  have "fold_r (AccumulateRow b) rs (digest_of types rows) = Inr (digest_of types (rows + mset (map (batch_row b) rs)))"
    if "set rs \<subseteq> set (mask_rows (vb_selection b))" for rs
    using that
  proof (induction rs arbitrary: rows)
    case (Cons r rs)
    then have "AccumulateRow b r (digest_of types rows) = Inr (digest_of types (add_mset (batch_row b r) rows))"
      using HashRow_row [OF assms, of r] by (simp add: AccumulateRow_def digest_of_def add.commute)
    then show ?case using Cons by simp
  qed simp
  then show ?thesis using assms(1) by (simp add: AccumulateBatch_def ForEachActiveRow_rows active_rows_facts(1))
qed

text \<open>The digest of a result is the digest of the multiset of its rows, in whatever order and batches they come.\<close>

lemma ComputeResultDigest_rows:
  assumes "delivered_ok types (qa_chunks r)" "DT_INVALID \<notin> set types"
  shows "ComputeResultDigest r = Inr (digest_of types (mset (concat (map active_rows (qa_chunks r)))))"
proof -
  have "fold_r AccumulateBatch bs (digest_of types rows) = Inr (digest_of types (rows + mset (concat (map active_rows bs))))"
    if "delivered_ok types bs" for bs rows
    using that
  proof (induction bs arbitrary: rows)
    case (Cons b bs)
    then have "AccumulateBatch b (digest_of types rows) = Inr (digest_of types (rows + mset (active_rows b)))"
      using AccumulateBatch_rows [OF _ _ assms(2)] by (simp add: delivered_ok_def)
    then show ?case using Cons by (simp add: delivered_ok_def add.assoc)
  qed simp
  from this [OF assms(1), of "{#}"] show ?thesis by (simp add: ComputeResultDigest_def new_digest_def digest_of_def)
qed

end
