(* ===== verification/Connection.thy ===== *)
theory Connection
  imports Result_Digest
begin

text \<open>
  \<^verbatim>\<open>src/src/main/connection.{h,cpp}\<close>: an SQL text is planned by the whole front end and executed by the engine, either into a
  materialized result or through a consumer of batches; a prepared query keeps its plan.
\<close>

subsection \<open>Planning\<close>

record planned_query =
  pq_statement :: statement
  pq_bound :: bound_statement
  pq_physical :: physical_plan

text \<open>\<open>None\<close>: the lexer does not return.\<close>

definition PlanQuery :: "database \<Rightarrow> string \<Rightarrow> planned_query result option" where
  "PlanQuery db sql =
     (case Lex sql of
        None \<Rightarrow> None
      | Some tokens \<Rightarrow> Some (
          bind_r (ParseStatement tokens) (\<lambda>(statement, rest).
          bind_r (fst (BindStatement (db_catalog db) statement None)) (\<lambda>bound.
            Inr \<lparr>pq_statement = statement, pq_bound = bound,
                 pq_physical = CreatePhysicalPlan (db_catalog db) (Optimize (CreateLogicalPlan bound))\<rparr>))))"

subsection \<open>Execution\<close>

text \<open>The part of the configuration that a statement uses; \<open>dcf_threads\<close> is the size of the thread pool.\<close>

record database_config =
  dcf_threads :: nat
  dcf_execution_mode :: execution_mode
  dcf_parallel :: parallel_settings

definition statement_context :: "database_config \<Rightarrow> execution_context" where
  "statement_context config =
     \<lparr>ec_mode = dcf_execution_mode config, ec_pool = Some (dcf_threads config),
      ec_arenas = max 1 (min (ps_worker_threads (dcf_parallel config)) (dcf_threads config)), ec_parallel = dcf_parallel config\<rparr>"

definition RunPlannedQuery ::
  "ddl_io \<Rightarrow> (group_table \<Rightarrow> group_table) \<Rightarrow> database_config \<Rightarrow> database \<Rightarrow> physical_plan \<Rightarrow> query_outcome \<Rightarrow> bool" where
  "RunPlannedQuery io order config db plan out \<longleftrightarrow> Execute io order (statement_context config) db plan out"

text \<open>The result that is returned once the engine has delivered its batches.\<close>

definition materialize :: "query_answer \<Rightarrow> query_outcome \<Rightarrow> (query_answer \<times> database) result" where
  "materialize meta out =
     bind_r (snd out) (\<lambda>(er, db).
       let r = fold Result_Append (fst out) meta in
       Inr (if er_type er = COMMAND then r\<lparr>qa_affected_rows := er_affected_rows er\<rparr> else r, db))"

definition Connection_Query ::
  "ddl_io \<Rightarrow> (group_table \<Rightarrow> group_table) \<Rightarrow> database_config \<Rightarrow> database \<Rightarrow> string \<Rightarrow> (query_answer \<times> database) result \<Rightarrow> bool" where
  "Connection_Query io order config db sql r \<longleftrightarrow>
     (case PlanQuery db sql of
        None \<Rightarrow> False
      | Some (Inl e) \<Rightarrow> r = Inl e
      | Some (Inr planned) \<Rightarrow>
          (case BuildResultMetadata (pq_statement planned) (pq_bound planned) new_answer of
             Inl e \<Rightarrow> r = Inl e
           | Inr meta \<Rightarrow> (\<exists>out. RunPlannedQuery io order config db (pq_physical planned) out \<and> r = materialize meta out)))"

record execution_summary =
  es_row_count :: "64 word"
  es_affected_rows :: "64 word"

definition summary_of :: "query_outcome \<Rightarrow> vector_batch list \<times> (execution_summary \<times> database) result" where
  "summary_of out =
     (fst out, bind_r (snd out) (\<lambda>(er, db). Inr (\<lparr>es_row_count = er_row_count er, es_affected_rows = er_affected_rows er\<rparr>, db)))"

definition Connection_Execute ::
  "ddl_io \<Rightarrow> (group_table \<Rightarrow> group_table) \<Rightarrow> database_config \<Rightarrow> database \<Rightarrow> string \<Rightarrow>
   vector_batch list \<times> (execution_summary \<times> database) result \<Rightarrow> bool" where
  "Connection_Execute io order config db sql r \<longleftrightarrow>
     (case PlanQuery db sql of
        None \<Rightarrow> False
      | Some (Inl e) \<Rightarrow> r = ([], Inl e)
      | Some (Inr planned) \<Rightarrow> (\<exists>out. RunPlannedQuery io order config db (pq_physical planned) out \<and> r = summary_of out))"

text \<open>A prepared query; \<open>None\<close> is one that holds nothing.\<close>

definition Prepare :: "database \<Rightarrow> string \<Rightarrow> planned_query option result option" where
  "Prepare db sql = map_option (\<lambda>r. bind_r r (\<lambda>planned. Inr (Some planned))) (PlanQuery db sql)"

definition Execute_prepared ::
  "ddl_io \<Rightarrow> (group_table \<Rightarrow> group_table) \<Rightarrow> database_config \<Rightarrow> database \<Rightarrow> planned_query option \<Rightarrow>
   vector_batch list \<times> (execution_summary \<times> database) result \<Rightarrow> bool" where
  "Execute_prepared io order config db query r \<longleftrightarrow>
     (case query of
        None \<Rightarrow> r = ([], Inl (Runtime_error ''Connection::Execute: invalid PreparedQuery''))
      | Some planned \<Rightarrow> (\<exists>out. RunPlannedQuery io order config db (pq_physical planned) out \<and> r = summary_of out))"

subsection \<open>The types of the result\<close>

fun plan_outputs :: "logical_plan \<Rightarrow> named_plan_expr list option" where
  "plan_outputs (LogicalProject outputs child) = Some outputs"
| "plan_outputs (LogicalAggregate group_by outputs child) = Some outputs"
| "plan_outputs _ = None"

lemma PushPredicate_outputs: "plan_outputs p = Some outs \<Longrightarrow> plan_outputs (snd (PushPredicate p)) = Some outs"
  by (cases p) (auto split: prod.splits)

lemma ColumnPruning_outputs: "plan_outputs p = Some outs \<Longrightarrow> plan_outputs (snd (ColumnPruning p)) = Some outs"
  by (cases p) (auto simp: ColumnPruning_def Let_def split: option.splits)

lemma optimize_pass_outputs: "plan_outputs p = Some outs \<Longrightarrow> plan_outputs (snd (optimize_pass p)) = Some outs"
  using PushPredicate_outputs ColumnPruning_outputs by (auto simp: optimize_pass_def split: prod.splits) (metis snd_conv)

lemma Optimize_outputs: "plan_outputs p = Some outs \<Longrightarrow> plan_outputs (Optimize p) = Some outs"
proof -
  have "plan_outputs p = Some outs \<Longrightarrow> plan_outputs (optimize_loop n p) = Some outs" for n
  proof (induction n arbitrary: p)
    case (Suc n)
    then show ?case using optimize_pass_outputs [OF Suc.prems] by (auto split: prod.splits)
  qed simp
  then show "plan_outputs p = Some outs \<Longrightarrow> plan_outputs (Optimize p) = Some outs" by (simp add: Optimize_def)
qed

lemma CloneNamed_eq: "CloneNamed outs = outs"
  by (induction outs) (simp_all add: CloneNamed_def)

lemma add_output_type:
  "add_output group_by schema output spec = Inr spec' \<Longrightarrow>
     map es_type (ba_output_schema spec') = map es_type (ba_output_schema spec) @ [GetReturnType (ne_expr output)]"
  by (auto simp: add_output_def Let_def bind_r_Inr_iff split: plan_expr.splits option.splits)

lemma BuildAggregateSpec_types:
  assumes "BuildAggregateSpec group_by outs schema = Inr spec"
  shows "map es_type (ba_output_schema spec) = map (GetReturnType \<circ> ne_expr) outs"
proof -
  have "fold_r (add_output group_by schema) outs start = Inr spec \<Longrightarrow>
      map es_type (ba_output_schema spec) = map es_type (ba_output_schema start) @ map (GetReturnType \<circ> ne_expr) outs" for start
    by (induction outs arbitrary: start) (auto simp: bind_r_Inr_iff dest!: add_output_type)
  then show ?thesis using assms by (auto simp: BuildAggregateSpec_def bind_r_Inr_iff)
qed

lemma planned_types:
  assumes "BuildNode cat g (CreatePhysicalPlan cat (Optimize (PlanSelect b))) = Inr (op, schema)"
  shows "map es_type schema = map (return_type \<circ> bsi_expr) (bs_select_list b)"
proof -
  have outs: "plan_outputs (Optimize (PlanSelect b)) = Some (BuildOutputs (bs_select_list b))"
    by (rule Optimize_outputs) (simp add: PlanSelect_def Let_def)
  have types: "map (GetReturnType \<circ> ne_expr) (BuildOutputs (bs_select_list b)) = map (return_type \<circ> bsi_expr) (bs_select_list b)"
    by (simp add: BuildOutputs_def)
  show ?thesis
  proof (cases "Optimize (PlanSelect b)")
    case (LogicalProject os child)
    then show ?thesis using assms outs types by (auto simp: bind_r_Inr_iff BuildProject_def CloneNamed_eq project_slot_def comp_def)
  next
    case (LogicalAggregate gs os child)
    then show ?thesis using assms outs types by (auto simp: bind_r_Inr_iff BuildHashAggregate_def CloneNamed_eq dest: BuildAggregateSpec_types)
  qed (use outs in simp_all)
qed

subsection \<open>Materialized results\<close>

lemma materialize_rows:
  assumes "snd out = Inr (query_result schema n, db)" "delivered_ok types (fst out)"
  shows "\<exists>cs. materialize meta out = Inr (meta\<lparr>qa_chunks := qa_chunks meta @ cs,
        qa_affected_rows := qa_affected_rows meta + word_of_nat (length (concat (map active_rows (fst out))))\<rparr>, db) \<and>
      delivered_ok types cs \<and> concat (map active_rows cs) = concat (map active_rows (fst out))"
  using Result_Append_all [OF assms(2), of meta] assms(1) by (auto simp: materialize_def query_result_def Let_def)

text \<open>What a SELECT answers: its kind, the types of its columns, its rows in some order and their number, and their digest.\<close>

definition select_answer :: "data_type list \<Rightarrow> data_type list \<Rightarrow> bytes list multiset \<Rightarrow> query_answer \<Rightarrow> bool" where
  "select_answer column_types types rows res \<longleftrightarrow>
     qa_type res = Some RESULT_SELECT \<and> map rc_type (qa_columns res) = column_types \<and>
     mset (concat (map active_rows (qa_chunks res))) = rows \<and> qa_affected_rows res = word_of_nat (size rows) \<and>
     (DT_INVALID \<notin> set types \<longrightarrow> ComputeResultDigest res = Inr (digest_of types rows))"

lemma Connection_Query_answers:
  assumes "PlanQuery db sql = Some (Inr planned)" "pq_bound planned = Bound_select b" "columns_named (db_catalog db)"
    and "BuildNode (db_catalog db) g (pq_physical planned) = Inr (op, schema)"
    and "answers (Execute io order (statement_context config) db (pq_physical planned)) schema' db types rows"
  shows "(\<exists>r. Connection_Query io order config db sql r) \<and>
    (\<forall>r. Connection_Query io order config db sql r \<longrightarrow> (\<exists>res. r = Inr (res, db) \<and> select_answer (map es_type schema) types rows res))"
proof -
  obtain tokens rest where front: "ParseStatement tokens = Inr (pq_statement planned, rest)"
      "fst (BindStatement (db_catalog db) (pq_statement planned) None) = Inr (Bound_select b)"
      "pq_physical planned = CreatePhysicalPlan (db_catalog db) (Optimize (CreateLogicalPlan (Bound_select b)))"
    using assms(1,2) by (auto simp: PlanQuery_def bind_r_Inr_iff split: option.splits)
  then obtain stmt where stmt: "pq_statement planned = Stmt_select stmt" "fst (BindSelect (db_catalog db) stmt) = Inr b"
    by (auto simp: BindStatement_def bind_r_Inr_iff split: statement.splits prod.splits)
  obtain cols where meta: "BuildResultMetadata (pq_statement planned) (pq_bound planned) new_answer =
        Inr (new_answer\<lparr>qa_type := Some RESULT_SELECT, qa_columns := cols\<rparr>)" "map rc_type cols = map (return_type \<circ> bsi_expr) (bs_select_list b)"
    using BuildResultMetadata_select [OF stmt(2) assms(3), of new_answer] stmt(1) assms(2) by auto
  have types: "map rc_type cols = map es_type schema" using planned_types [of "db_catalog db" g b op schema] assms(4) front(3) meta(2) by simp
  let ?meta = "new_answer\<lparr>qa_type := Some RESULT_SELECT, qa_columns := cols\<rparr>"
  have run: "Connection_Query io order config db sql r \<longleftrightarrow>
      (\<exists>out. Execute io order (statement_context config) db (pq_physical planned) out \<and> r = materialize ?meta out)" for r
    using assms(1) meta(1) by (simp add: Connection_Query_def RunPlannedQuery_def)
  have res: "\<exists>res. materialize ?meta out = Inr (res, db) \<and> select_answer (map es_type schema) types rows res"
    if "Execute io order (statement_context config) db (pq_physical planned) out" for out
  proof -
    have out: "snd out = Inr (query_result schema' (word_of_nat (size rows)), db)" "mset (concat (map active_rows (fst out))) = rows" "delivered_ok types (fst out)"
      using assms(5) that by (simp_all only: answers_def)
    obtain cs where cs: "materialize ?meta out = Inr (?meta\<lparr>qa_chunks := qa_chunks ?meta @ cs,
          qa_affected_rows := qa_affected_rows ?meta + word_of_nat (length (concat (map active_rows (fst out))))\<rparr>, db)"
        "delivered_ok types cs" "concat (map active_rows cs) = concat (map active_rows (fst out))"
      using materialize_rows [OF out(1,3), of ?meta] by blast
    let ?res = "?meta\<lparr>qa_chunks := cs, qa_affected_rows := word_of_nat (size rows)\<rparr>"
    have "length (concat (map active_rows (fst out))) = size rows" using out(2) by (metis size_mset)
    then have "materialize ?meta out = Inr (?res, db)" using cs(1) by (simp add: new_answer_def)
    moreover have rows: "mset (concat (map active_rows (qa_chunks ?res))) = rows" using cs(3) out(2) by (simp del: mset_concat)
    moreover have "DT_INVALID \<notin> set types \<Longrightarrow> ComputeResultDigest ?res = Inr (digest_of types rows)"
      using ComputeResultDigest_rows [of types ?res] cs(2) rows by (simp del: mset_concat)
    ultimately show ?thesis using types by (simp add: select_answer_def del: mset_concat)
  qed
  obtain out where "Execute io order (statement_context config) db (pq_physical planned) out" using assms(5) by (auto simp: answers_def)
  then show ?thesis using res run by metis
qed

text \<open>C9: A SELECT without aggregation is answered, whatever the execution mode, the number of threads, the capacity of the result
  queue and the schedule, by a result of the right kind, whose columns have the types of the executed plan, whose batches hold the rows of the
  chain in some order, counted in it, and whose digest depends on these rows only: two results of the same query have the same digest.\<close>

theorem Connection_select_exact:
  assumes "PlanQuery db sql = Some (Inr planned)" "pq_bound planned = Bound_select b" "columns_named (db_catalog db)"
    and "scan_source db i options ps sbs t" "BuildNode (db_catalog db) None (pq_physical planned) = Inr (op, schema)"
    and "chain_scan op = Some (i, options)" "chain_ok op (table_types options t) (table_rows options sbs t)"
    and "rows = chain_rows op (table_types options t) (table_rows options sbs t)" "types = chain_types op (table_types options t)"
  shows "(\<exists>r. Connection_Query io order config db sql r) \<and>
    (\<forall>r. Connection_Query io order config db sql r \<longrightarrow> (\<exists>res. r = Inr (res, db) \<and> select_answer (map es_type schema) types (mset rows) res))"
  unfolding assms(9) by (rule Connection_Query_answers [OF assms(1-3,5) select_answers [OF assms(4-8)]])

end
