(* ===== verification/Connection_Examples.thy ===== *)
theory Connection_Examples
  imports Engine_Examples Connection
begin

text \<open>
  A query text through the whole database: lexer, parser, binder, planner, optimizer, engine and result.
\<close>

definition example_sql :: string where
  "example_sql = ''SELECT 'a' AS k FROM d''"

definition example_tokens :: "token list" where
  "example_tokens = [mk_token TK_SELECT ''SELECT'' 0, mk_token TK_STRING ''a'' 8, mk_token TK_AS ''AS'' 11,
     mk_token TK_IDENTIFIER ''k'' 14, mk_token TK_FROM ''FROM'' 16, mk_token TK_IDENTIFIER ''d'' 21, mk_token TK_END '''' 22]"

lemma example_lexed: "Lex example_sql = Some example_tokens"
proof -
  have n: "NextToken example_sql 0 = Some (mk_token TK_SELECT ''SELECT'' 0, 6)" "NextToken example_sql 6 = Some (mk_token TK_STRING ''a'' 8, 10)"
    "NextToken example_sql 10 = Some (mk_token TK_AS ''AS'' 11, 13)" "NextToken example_sql 13 = Some (mk_token TK_IDENTIFIER ''k'' 14, 15)"
    "NextToken example_sql 15 = Some (mk_token TK_FROM ''FROM'' 16, 20)" "NextToken example_sql 20 = Some (mk_token TK_IDENTIFIER ''d'' 21, 22)"
    "NextToken example_sql 22 = Some (mk_token TK_END '''' 22, 22)"
    unfolding example_sql_def by (subst NextToken.simps, code_simp)+
  have step: "Tokenize example_sql j = Some (t # ts)"
    if "NextToken example_sql j = Some (t, k)" "tok_type t \<noteq> TK_END" "Tokenize example_sql k = Some ts" for j k t ts
    using that by (subst Tokenize.simps) simp
  have "Tokenize example_sql 22 = Some [mk_token TK_END '''' 22]" by (subst Tokenize.simps) (simp add: n)
  then show ?thesis unfolding Lex_def example_tokens_def
    by (intro step [OF n(1)] step [OF n(2)] step [OF n(3)] step [OF n(4)] step [OF n(5)] step [OF n(6)]) simp_all
qed

definition example_statement :: select_statement where
  "example_statement = \<lparr>sel_table_name = ''d'', sel_select_list = [\<lparr>si_expr = Literal (Lit_string ''a''), si_alias = ''k''\<rparr>],
     sel_where_clause = None, sel_group_by = []\<rparr>"

lemma example_parsed: "ParseStatement example_tokens = Inr (Stmt_select example_statement, [mk_token TK_END '''' 22])"
  unfolding example_statement_def example_tokens_def by code_simp

definition example_bound :: bound_select where
  "example_bound = \<lparr>bs_table_oid = 0, bs_select_list = [\<lparr>bsi_expr = BLiteral (Lit_string ''a'') DT_VARCHAR, bsi_alias = ''k''\<rparr>],
     bs_where_clause = None, bs_group_by = []\<rparr>"

lemma example_binds: "fst (BindStatement (db_catalog (engine_db t)) (Stmt_select example_statement) None) = Inr (Bound_select example_bound)"
  unfolding example_statement_def example_bound_def engine_db_def database.simps engine_entry_def double_schema_def by code_simp

definition example_plan :: physical_plan where
  "example_plan = PhysicalProject [\<lparr>ne_expr = PlanLiteral (Lit_string ''a'') DT_VARCHAR, ne_alias = ''k''\<rparr>] (PhysicalSeqScan 0 [] [])"

lemma example_physical: "CreatePhysicalPlan (db_catalog (engine_db t)) (Optimize (CreateLogicalPlan (Bound_select example_bound))) = example_plan"
  unfolding example_bound_def example_plan_def engine_db_def database.simps engine_entry_def double_schema_def by code_simp

lemma example_planned: "PlanQuery (engine_db t) example_sql =
    Some (Inr \<lparr>pq_statement = Stmt_select example_statement, pq_bound = Bound_select example_bound, pq_physical = example_plan\<rparr>)"
  by (simp add: PlanQuery_def example_lexed example_parsed example_binds example_physical del: CreateLogicalPlan.simps)

lemma example_named: "columns_named (db_catalog (engine_db t))"
  by (auto simp: columns_named_def engine_db_def GetTable_def engine_entry_def double_schema_def split: if_splits)

definition example_schema :: exec_schema where
  "example_schema = [\<lparr>es_type = DT_VARCHAR, es_source = None, es_name = ''k''\<rparr>]"

lemma example_scan_spec: "BuildScanSpec (db_catalog (engine_db t)) 0 [] [] =
    Inr \<lparr>bs_table_id = 0, bs_options = double_options,
      bs_output_schema = [\<lparr>es_type = DT_DOUBLE, es_source = Some \<lparr>cbi_table_oid = 0, cbi_column_idx = 3\<rparr>, es_name = ''x''\<rparr>]\<rparr>"
  by (simp add: BuildScanSpec_def engine_table scan_columns_def scan_slot_def engine_entry_def double_schema_def FindColumnSchema_def double_options_def)

abbreviation example_operator :: operator where
  "example_operator \<equiv> ProjectionOperator (SeqScanOperator 0 double_options None) [ExecLiteral (EV_string ''a'') DT_VARCHAR]"

lemma example_built: "BuildNode (db_catalog (engine_db t)) None example_plan = Inr (example_operator, example_schema)"
  by (simp add: example_plan_def BuildSeqScan_def example_scan_spec BuildProject_def example_schema_def project_slot_def DirectBinding_def)

abbreviation slot_a :: bytes where
  "slot_a \<equiv> le_bytes 4 (1 :: u32) @ [byte_of_char (CHR ''a'')] @ replicate 59 0"

lemma example_cells:
  "project_of [DT_DOUBLE] [classify_slot (ExecLiteral (EV_string ''a'') DT_VARCHAR)] row = [slot_a]"
  "list_all (plan_ok [DT_DOUBLE]) (map classify_slot [ExecLiteral (EV_string ''a'') DT_VARCHAR])"
  "\<exists>cs. project_row_cells types (map classify_slot [ExecLiteral (EV_string ''a'') DT_VARCHAR]) row = Inr cs"
  by (simp_all add: classify_slot_def project_of_def cell_of_def project_cell_def row_eval_def plan_ok_def project_row_cells_def
      output_bytes_def TryCompileVectorExpression_def a_slot del: append.simps)

lemma example_rows:
  "chain_ok example_operator (table_types double_options written_table) (table_rows double_options [(0, double_segment)] written_table)"
  "[[slot_a], [slot_a]] =
     chain_rows example_operator (table_types double_options written_table) (table_rows double_options [(0, double_segment)] written_table)"
  "[DT_VARCHAR] = chain_types example_operator (table_types double_options written_table)"
proof -
  show "chain_ok example_operator (table_types double_options written_table) (table_rows double_options [(0, double_segment)] written_table)"
    using example_cells(2,3) by (simp add: operator_types list_all_iff)
  show "[[slot_a], [slot_a]] =
     chain_rows example_operator (table_types double_options written_table) (table_rows double_options [(0, double_segment)] written_table)"
    unfolding chain_rows.simps chain_types.simps written_selected operator_types list.map(1) by (simp only: list.map example_cells(1))
  show "[DT_VARCHAR] = chain_types example_operator (table_types double_options written_table)"
    by (simp add: operator_types classify_slot_def plan_type_def TryCompileVectorExpression_def)
qed

definition example_config :: database_config where
  "example_config = \<lparr>dcf_threads = 4, dcf_execution_mode = MULTI_THREAD, dcf_parallel = \<lparr>ps_worker_threads = 4, ps_result_queue_capacity = 1\<rparr>\<rparr>"

theorem Connection_select_exact_witness:
  "{r. Connection_Query all_ok rev example_config (engine_db written_table) example_sql r} \<noteq> {} \<and>
   {r. Connection_Query all_ok rev example_config (engine_db written_table) example_sql r} \<subseteq>
     {Inr (res, engine_db written_table) |res. select_answer [DT_VARCHAR] [DT_VARCHAR] {#[slot_a], [slot_a]#} res}"
  using Connection_select_exact [OF example_planned _ example_named engine_source _ _ example_rows, of _ example_schema all_ok rev example_config]
    example_built by (auto simp: example_schema_def)

end
