(* ===== verification/Spec2Isabelle.thy ===== *)
theory Spec2Isabelle
  imports Connection_Examples
begin

text \<open>
  A model of \<^verbatim>\<open>simple_olap\<close>, a small columnar SQL engine in C++, and the theorems that make it correct.

  \<^bold>\<open>The program.\<close>  An SQL text is split into tokens, parsed, bound to the catalog, planned, optimized and given an access path
  (\<^verbatim>\<open>src/src/sql\<close>, \<^verbatim>\<open>src/src/planner\<close>, \<^verbatim>\<open>src/src/catalog\<close>).  The plan is executed by pull operators on batches of columns with
  a selection bitmap, by one thread or by workers that share a scan (\<^verbatim>\<open>src/src/execution\<close>, \<^verbatim>\<open>src/src/parallel\<close>, \<^verbatim>\<open>src/src/simd\<close>).  Rows are
  stored per table: in segment builders in memory, and after a flush in immutable segment files with statistics for pruning
  (\<^verbatim>\<open>src/src/storage\<close>).  A database joins the catalog and the storage manager (\<^verbatim>\<open>src/src/main/database.cpp\<close>).

  \<^bold>\<open>Conventions.\<close>  A function that throws has the type \<^verbatim>\<open>'a result\<close>, with the exception on the left, and undefined behaviour of C++ is an
  exception of its own that the theorems exclude.  Machine integers are words, \<open>std::string\<close> is a list of characters, buffers are lists of
  bytes held by value, hash maps are maps or lists of distinct keys.  State is a record that operations return updated.  A loop or a recursion
  that need not end is a \<^verbatim>\<open>partial_function\<close> into \<open>option\<close>, and the theorems about it state that it returns.  There is no fuel, except the
  optimizer's own limit of eight passes.  What happens outside the program is a parameter: the outcome of each file operation, the order in which a
  hash table is traversed, which thread goes next, the sizes of the thread pool and of the query memory.

  \<^bold>\<open>Front end.\<close>  \<^verbatim>\<open>Lexer\<close>, \<^verbatim>\<open>Ast\<close> and \<^verbatim>\<open>Parser\<close> model \<^verbatim>\<open>sql/lexer\<close>, \<^verbatim>\<open>sql/ast\<close> and \<^verbatim>\<open>sql/parser\<close>; \<^verbatim>\<open>Expr_Round_Trip\<close> shows that a printed
  expression is lexed and parsed back to itself, when its text can be read back at all.  \<^verbatim>\<open>Binder\<close> models \<^verbatim>\<open>planner/binder.cpp\<close>, with the types of bound statements and the errors it can raise.
  \<^verbatim>\<open>Plan_Expression\<close>, \<^verbatim>\<open>Logical_Plan\<close>, \<^verbatim>\<open>Optimizer\<close> and \<^verbatim>\<open>Physical_Plan\<close> model the rest of \<^verbatim>\<open>planner\<close>: the optimized plan computes the
  rows of the given one, for every meaning of tables and operators, and is a fixed point; an index access path is equivalent to the predicates it replaces.

  \<^bold>\<open>Numbers and vectors.\<close>  \<^verbatim>\<open>Ieee754\<close> and \<^verbatim>\<open>Long_Double\<close> hold float, double and the x87 extended format as words, rounded to nearest even: the
  scalar evaluator computes in \<^verbatim>\<open>long double\<close>, and its format is that of the x86-64 ABI.  \<^verbatim>\<open>Selection_Mask\<close>, \<^verbatim>\<open>Vector\<close> and \<^verbatim>\<open>Data_Chunk\<close> model bitmaps,
  batches and chunks.  \<^verbatim>\<open>Exec_Expression\<close> models the scalar evaluator, \<^verbatim>\<open>Vector_Predicate\<close> and \<^verbatim>\<open>Vector_Expression\<close> the compiled forms, which are proved
  equivalent to it; the kernels are the scalar ones of \<^verbatim>\<open>simd/scalar\<close>.

  \<^bold>\<open>Storage.\<close>  \<^verbatim>\<open>Types\<close>, \<^verbatim>\<open>Serialization\<close> and \<^verbatim>\<open>Schema\<close> hold the metadata and their codecs with round trips, \<^verbatim>\<open>Catalog\<close> the table directory.
  \<^verbatim>\<open>Index\<close> models key encoding and both indexes, \<^verbatim>\<open>Segment\<close> builders, files and pruning, \<^verbatim>\<open>Scan_Filter\<close> pushed predicates, \<^verbatim>\<open>Table_Storage\<close> one
  table.  \<^verbatim>\<open>Table_Rows\<close> says what is in memory after an append, \<^verbatim>\<open>Row_Keys\<close> what the indexes then answer for the keys of the rows, \<^verbatim>\<open>Table_Flush\<close> and \<^verbatim>\<open>Table_Reopen\<close> what is on disk and served after a restart,
  \<^verbatim>\<open>Table_Scan\<close> and \<^verbatim>\<open>Parallel_Scan\<close> that a scan delivers the matching rows once each, serially or by any interleaving of workers.  \<^verbatim>\<open>Database\<close> models
  DDL and the lifetime of open tables.

  \<^bold>\<open>Execution.\<close>  \<^verbatim>\<open>Operators\<close>, \<^verbatim>\<open>Projection\<close> and \<^verbatim>\<open>Hash_Aggregate\<close> model the operators; the locale \<^verbatim>\<open>batch_operator\<close> is their contract (a ready
  operator answers, delivers well-formed batches, and ends when its rows are consumed), and each is interpreted on the model.  \<^verbatim>\<open>Aggregate_Summary\<close> and
  \<^verbatim>\<open>Aggregate_Exact\<close> relate the states of an aggregation to the rows seen.  \<^verbatim>\<open>Executor_Builder\<close> builds operator trees.  \<^verbatim>\<open>Pipeline\<close> turns the
  nested pull loops of a chain of filters and projections into one function on batches.  \<^verbatim>\<open>Query_Execution\<close> is the serial path, \<^verbatim>\<open>Blocking_Queue\<close> the
  operations of the result queue with the notifications they make, \<^verbatim>\<open>Queue_Monitor\<close> the threads that call them, sleep on a condition variable and are notified
  or woken spuriously: no wake-up is lost.  \<^verbatim>\<open>Parallel_Executor\<close> models the workers and the coordinator as a step relation; \<^verbatim>\<open>Parallel_Exact\<close> and
  \<^verbatim>\<open>Parallel_Query\<close> carry the invariants of its runs that raise no error.  \<^verbatim>\<open>Parallel_Threads\<close> adds the sleeping threads and shows, also for
  runs that fail, that each ends after a bounded number of steps; its runs project to runs of the monitor and to those of the step relation.  \<^verbatim>\<open>Command_Executor\<close> executes INSERT and CREATE TABLE, and \<^verbatim>\<open>Execution_Engine\<close> dispatches: every mode and every schedule
  delivers the same rows.  \<^verbatim>\<open>Connection\<close> runs an SQL text through all of this, \<^verbatim>\<open>Query_Result\<close> is the materialized result and
  \<^verbatim>\<open>Result_Digest\<close> its digest, by which the project compares execution modes: equal for every run of a SELECT without aggregation.

  \<^bold>\<open>Bounds.\<close>  A segment holds at most 65536 rows, a batch 1024; an append is covered up to the room left in the active segment and one more.
  Sums are exact while the absolute values add up to less than \<open>2 ^ 63\<close>, and only of integers: sums of floating-point numbers depend on the order.
  Scans are covered where pruning is sound, that is on statistics that are exact, and compiled conditions on columns without NaN.  The equivalence of integer
  arithmetic is for rows that do not overflow, where signed overflow is undefined behaviour in C++; the operations on bitmaps are for masks of one row count.

  \<^bold>\<open>Assumptions.\<close>  Submitting a task to the thread pool succeeds, a consumer of batches does not throw, memory does not run out, no other thread
  changes a table during a scan, and a file that was written is read back unchanged.

  \<^bold>\<open>Not modelled.\<close>  The AVX2 kernels, which consist of compiler intrinsics; the arenas and the pools of \<^verbatim>\<open>memory\<close>, which only allocate; the thread
  pool and the thin wrappers of \<^verbatim>\<open>storage/file\<close>, which only call the standard library and the operating system; the command line; tests and benchmarks.

  \<^bold>\<open>Witnesses.\<close>  The theories whose names end in \<^verbatim>\<open>Examples\<close> apply the theorems with hypotheses to concrete inputs.
\<close>

end
